(* ===== verification/Kh_Prelude.thy ===== *)
theory Kh_Prelude
  imports "HOL-Library.Word" "HOL-Library.Sublist"
begin

unbundle bit_operations_syntax

text \<open>
  The vocabulary shared by every component of the KernelHttp model: machine integers,
  byte strings, (pointer, length) pairs, the NTSTATUS failure codes and the result type
  of a fallible operation, together with the generic lemmas on lists and words that the
  component theories use.

  \<^item> \<open>UCHAR\<close>, \<open>USHORT\<close>, \<open>ULONG\<close>, \<open>ULONGLONG\<close> are words of 8, 16, 32 and 64 bits. A
    \<open>char\<close> is a byte too: the sources compare characters only with ASCII constants, or
    after a cast to \<open>unsigned char\<close>, so its sign never matters.
  \<^item> A buffer length, a capacity or a cursor of type \<open>SIZE_T\<close> is a \<open>nat\<close>; a \<open>SIZE_T\<close>
    computed from bytes of the network is a \<open>64 word\<close>, so that its wrap-around is the
    machine's. The library is built for x64 and ARM64, where \<open>SIZE_T\<close> has 64 bits.
  \<^item> A (pointer, length) pair is a \<open>span\<close>: either \<open>NullSpan n\<close>, the null pointer with a
    claimed length \<open>n\<close>, or \<open>Span xs\<close>, a valid pointer to the elements \<open>xs\<close>.
  \<^item> A fallible operation returns \<open>Ok x\<close>, \<open>Err s\<close> with the NTSTATUS \<open>s\<close> it returns, or
    \<open>Fault\<close>, an access outside a buffer (or through a null pointer), which in kernel mode
    is a bug check. \<open>rd\<close> and \<open>wr\<close> are the checked accesses.
\<close>

section \<open>Machine integers, status codes, results\<close>

type_synonym UCHAR = "8 word"
type_synonym USHORT = "16 word"
type_synonym ULONG = "32 word"
type_synonym ULONGLONG = "64 word"
type_synonym bytes = "8 word list"

datatype ntstatus =
    STATUS_MORE_PROCESSING_REQUIRED
  | STATUS_INVALID_PARAMETER
  | STATUS_BUFFER_TOO_SMALL
  | STATUS_INTEGER_OVERFLOW
  | STATUS_INVALID_NETWORK_RESPONSE
  | STATUS_NOT_SUPPORTED
  | STATUS_NOT_FOUND
  | STATUS_INSUFFICIENT_RESOURCES
  | STATUS_INVALID_DEVICE_STATE
  | STATUS_INVALID_SIGNATURE
  | STATUS_AUTH_TAG_MISMATCH

datatype 'a res = Ok 'a | Err ntstatus | Fault

fun rbind :: "'a res \<Rightarrow> ('a \<Rightarrow> 'b res) \<Rightarrow> 'b res" where
  "rbind (Ok x) f = f x"
| "rbind (Err s) f = Err s"
| "rbind Fault f = Fault"

fun is_Ok :: "'a res \<Rightarrow> bool" where
  "is_Ok (Ok x) = True"
| "is_Ok _ = False"

definition rd :: "'a list \<Rightarrow> nat \<Rightarrow> 'a res" where
  "rd xs i = (if i < length xs then Ok (xs ! i) else Fault)"

definition wr :: "'a list \<Rightarrow> nat \<Rightarrow> 'a \<Rightarrow> 'a list res" where
  "wr xs i v = (if i < length xs then Ok (xs[i := v]) else Fault)"

text \<open>\<open>MaxSizeT\<close> is \<open>~static_cast<SIZE_T>(0)\<close>.\<close>

definition MaxSizeT :: nat where
  "MaxSizeT = 18446744073709551615"

datatype 'a span = NullSpan nat | Span "'a list"

fun span_null :: "'a span \<Rightarrow> bool" where
  "span_null (NullSpan n) = True"
| "span_null (Span xs) = False"

fun span_len :: "'a span \<Rightarrow> nat" where
  "span_len (NullSpan n) = n"
| "span_len (Span xs) = length xs"

fun span_list :: "'a span \<Rightarrow> 'a list" where
  "span_list (NullSpan n) = []"
| "span_list (Span xs) = xs"

text \<open>A string literal of the source, as bytes.\<close>

definition lit :: "string \<Rightarrow> bytes" where
  "lit s = map of_char s"

section \<open>Named collections\<close>

named_theorems byte_class \<open>definitions of the byte classes of the protocols\<close>
named_theorems no_fault \<open>an operation does not access memory out of bounds\<close>

section \<open>Results\<close>

lemma rbind_eq_Ok [simp]: "rbind m f = Ok y \<longleftrightarrow> (\<exists>x. m = Ok x \<and> f x = Ok y)"
  by (cases m) auto

lemma rbind_eq_Err: "rbind m f = Err s \<longleftrightarrow> m = Err s \<or> (\<exists>x. m = Ok x \<and> f x = Err s)"
  by (cases m) auto

lemma rbind_eq_Fault: "rbind m f = Fault \<longleftrightarrow> m = Fault \<or> (\<exists>x. m = Ok x \<and> f x = Fault)"
  by (cases m) auto

lemma rbind_no_fault [no_fault]:
  "m \<noteq> Fault \<Longrightarrow> (\<And>x. m = Ok x \<Longrightarrow> f x \<noteq> Fault) \<Longrightarrow> rbind m f \<noteq> Fault"
  by (cases m) auto

lemma rbind_assoc: "rbind (rbind m f) g = rbind m (\<lambda>x. rbind (f x) g)"
  by (cases m) auto

lemma rbind_Ok_right [simp]: "rbind m Ok = m"
  by (cases m) auto

lemma is_Ok_iff: "is_Ok r \<longleftrightarrow> (\<exists>x. r = Ok x)"
  by (cases r) auto

lemma rd_Ok [simp]: "i < length xs \<Longrightarrow> rd xs i = Ok (xs ! i)"
  by (simp add: rd_def)

lemma rd_eq_Ok: "rd xs i = Ok x \<longleftrightarrow> i < length xs \<and> x = xs ! i"
  by (auto simp: rd_def)

lemma rd_not_Err [simp]: "rd xs i \<noteq> Err s"
  by (simp add: rd_def)

lemma rd_Cons_0 [simp]: "rd (x # xs) 0 = Ok x"
  by (simp add: rd_def)

lemma rd_append_left [simp]: "i < length xs \<Longrightarrow> rd (xs @ ys) i = Ok (xs ! i)"
  by (simp add: rd_def nth_append)

lemma wr_Ok [simp]: "i < length xs \<Longrightarrow> wr xs i v = Ok (xs[i := v])"
  by (simp add: wr_def)

lemma wr_eq_Ok: "wr xs i v = Ok ys \<longleftrightarrow> i < length xs \<and> ys = xs[i := v]"
  by (auto simp: wr_def)

section \<open>Lists\<close>

text \<open>
  \<open>overlay dest off bs\<close> is the buffer \<open>dest\<close> after \<open>bs\<close> has been stored at offset \<open>off\<close>:
  what a loop \<open>dest[off + i] = bs[i]\<close> leaves behind.
\<close>

definition overlay :: "'a list \<Rightarrow> nat \<Rightarrow> 'a list \<Rightarrow> 'a list" where
  "overlay dest off bs = take off dest @ bs @ drop (off + length bs) dest"

lemma length_overlay [simp]:
  "off + length bs \<le> length dest \<Longrightarrow> length (overlay dest off bs) = length dest"
  by (simp add: overlay_def)

lemma overlay_Nil [simp]: "overlay dest off [] = dest"
  by (simp add: overlay_def)

lemma take_overlay:
  "off + length bs \<le> length dest \<Longrightarrow>
   take (off + length bs) (overlay dest off bs) = take off dest @ bs"
  by (simp add: overlay_def)

lemma take_overlay_before:
  "n \<le> off \<Longrightarrow> off + length bs \<le> length dest \<Longrightarrow> take n (overlay dest off bs) = take n dest"
  by (simp add: overlay_def)

lemma drop_overlay_after:
  "off + length bs \<le> n \<Longrightarrow> off + length bs \<le> length dest \<Longrightarrow>
   drop n (overlay dest off bs) = drop n dest"
  by (simp add: overlay_def)

lemma overlay_overlay:
  "off + length bs + length cs \<le> length dest \<Longrightarrow>
   overlay (overlay dest off bs) (off + length bs) cs = overlay dest off (bs @ cs)"
  by (simp add: overlay_def min_absorb2 add.assoc add.commute add.left_commute)

lemma list_update_overlay:
  "off < length dest \<Longrightarrow> dest[off := b] = overlay dest off [b]"
  by (simp add: overlay_def upd_conv_take_nth_drop)

lemma takeWhile_eq_self: "list_all P xs \<Longrightarrow> takeWhile P xs = xs"
  by (induction xs) auto

lemma dropWhile_eq_Nil: "list_all P xs \<Longrightarrow> dropWhile P xs = []"
  by (induction xs) auto

lemma takeWhile_append_stop:
  "list_all P xs \<Longrightarrow> \<not> P y \<Longrightarrow> takeWhile P (xs @ y # ys) = xs"
  by (induction xs) auto

lemma dropWhile_append_stop:
  "list_all P xs \<Longrightarrow> \<not> P y \<Longrightarrow> dropWhile P (xs @ y # ys) = y # ys"
  by (induction xs) auto

lemma takeWhile_neq_stop: "y \<notin> set xs \<Longrightarrow> takeWhile (\<lambda>c. c \<noteq> y) (xs @ y # ys) = xs"
  by (induction xs) auto

lemma dropWhile_neq_stop: "y \<notin> set xs \<Longrightarrow> dropWhile (\<lambda>c. c \<noteq> y) (xs @ y # ys) = y # ys"
  by (induction xs) auto

section \<open>Checked accumulation of digits\<close>

text \<open>
  The guard \<open>acc > (~0 - digit) / base\<close> that the parsers test before
  \<open>acc = acc * base + digit\<close> fails exactly when the exact sum does not fit the word.
\<close>

lemma mult_add_fits_iff:
  fixes a b d m :: nat
  assumes "0 < b" "d \<le> m"
  shows "a \<le> (m - d) div b \<longleftrightarrow> a * b + d \<le> m"
  using assms by (auto simp: less_eq_div_iff_mult_less_eq)

lemma unat_lt2p: "unat (w :: 'a::len word) < 2 ^ LENGTH('a)"
  by (rule unsigned_less)

lemma unat_ucast_up [simp]:
  "LENGTH('a) \<le> LENGTH('b) \<Longrightarrow> unat (ucast (w :: 'a::len word) :: 'b::len word) = unat w"
  by (simp add: unsigned_ucast_eq take_bit_nat_eq_self_iff)
     (meson less_le_trans one_le_numeral power_increasing unat_lt2p)

lemma unat_max_word: "unat (- 1 :: 'a::len word) = 2 ^ LENGTH('a) - 1"
  by (simp add: unsigned_minus_1_eq_mask mask_eq_exp_minus_1)

lemma checked_mult_add_iff:
  fixes acc base d :: "'a::len word"
  assumes "0 < unat base"
  shows "acc > (- 1 - d) div base \<longleftrightarrow> 2 ^ LENGTH('a) \<le> unat acc * unat base + unat d"
proof -
  have d: "unat d \<le> 2 ^ LENGTH('a) - 1"
    using unat_lt2p [of d] by linarith
  have "d \<le> - 1" using d by (simp add: word_le_nat_alt unat_max_word)
  then have "unat (- 1 - d) = 2 ^ LENGTH('a) - 1 - unat d"
    by (simp add: unat_sub unat_max_word)
  then have "acc \<le> (- 1 - d) div base \<longleftrightarrow>
      unat acc \<le> (2 ^ LENGTH('a) - 1 - unat d) div unat base"
    by (simp add: word_le_nat_alt unat_div)
  also have "\<dots> \<longleftrightarrow> unat acc * unat base + unat d \<le> 2 ^ LENGTH('a) - 1"
    by (rule mult_add_fits_iff [OF assms d])
  finally have "acc \<le> (- 1 - d) div base \<longleftrightarrow>
      unat acc * unat base + unat d < 2 ^ LENGTH('a)"
    by (metis One_nat_def Suc_pred less_Suc_eq_le zero_less_numeral zero_less_power)
  then show ?thesis by (metis not_le)
qed

lemma unat_mult_add_fits:
  fixes acc base d :: "'a::len word"
  assumes "unat acc * unat base + unat d < 2 ^ LENGTH('a)"
  shows "unat (acc * base + d) = unat acc * unat base + unat d"
  using assms by (simp add: unat_word_ariths mod_simps)

text \<open>A fact about every byte can be checked on the 256 of them.\<close>

lemma byte_exhaust:
  assumes "list_all (\<lambda>n. P (word_of_nat n :: UCHAR)) [0..<256]"
  shows "P b"
proof -
  have "unat b < 256" using unat_lt2p [of b] by simp
  moreover have "\<forall>n < 256. P (word_of_nat n)" using assms by (simp add: list_all_iff)
  ultimately have "P (word_of_nat (unat b))" by blast
  then show ?thesis by simp
qed

section \<open>Packing fields into words\<close>

lemma push_bit_or_nat:
  fixes x y :: nat
  assumes "y < 2 ^ n"
  shows "push_bit n x OR y = x * 2 ^ n + y"
proof -
  have "take_bit n y = y" using assms by (simp add: take_bit_nat_eq_self_iff)
  then have "\<not> bit y m" if "n \<le> m" for m
    by (metis bit_take_bit_iff not_le that)
  then have "push_bit n x AND y = 0"
    by (auto simp: bit_eq_iff bit_and_iff bit_push_bit_iff)
  then have "push_bit n x + y = push_bit n x OR y"
    by (rule disjunctive_add_eq_or)
  then show ?thesis by (simp add: push_bit_eq_mult)
qed

lemma unat_push_bit_or:
  fixes x y :: "'a::len word"
  assumes "unat y < 2 ^ n" "unat x * 2 ^ n + unat y < 2 ^ LENGTH('a)"
  shows "unat (push_bit n x OR y) = unat x * 2 ^ n + unat y"
proof -
  have "unat (push_bit n x) = unat x * 2 ^ n"
    using assms(2) unfolding unsigned_push_bit_eq
    by (simp add: push_bit_eq_mult take_bit_nat_eq_self_iff)
  then show ?thesis
    using push_bit_or_nat [OF assms(1), of "unat x"]
    by (simp add: unsigned_or_eq push_bit_eq_mult)
qed

lemma ucast_and_ff: "(ucast (w AND 0xff :: 'a::len word) :: UCHAR) = ucast w"
proof -
  have "(0xff :: 'a word) = mask 8" by (simp add: mask_eq_exp_minus_1)
  then have m: "w AND 0xff = take_bit 8 w" by (simp add: take_bit_eq_mask)
  show ?thesis unfolding m
    by (rule bit_word_eqI) (auto simp: bit_simps bit_imp_le_length)
qed

lemma unat_Suc_word:
  fixes x :: "'a::len word"
  assumes "x \<noteq> - 1"
  shows "unat (x + 1) = Suc (unat x)"
proof -
  have "unat x \<noteq> 2 ^ LENGTH('a) - 1"
  proof
    assume "unat x = 2 ^ LENGTH('a) - 1"
    then have "unat x = unat (- 1 :: 'a word)" by (simp add: unsigned_minus_1_eq_mask mask_eq_exp_minus_1)
    then show False using assms by (simp add: word_unat_eq_iff)
  qed
  moreover have "unat x < 2 ^ LENGTH('a)" by (rule unsigned_less)
  ultimately have "unat x + 1 < 2 ^ LENGTH('a)" by linarith
  then show ?thesis by (simp add: unat_word_ariths)
qed

lemma unat_word_of_nat_64: "n < 2 ^ 64 \<Longrightarrow> unat (word_of_nat n :: ULONGLONG) = n"
  by (simp add: unsigned_of_nat take_bit_nat_eq_self)

lemma unat_word_of_nat_32: "n < 2 ^ 32 \<Longrightarrow> unat (word_of_nat n :: ULONG) = n"
  by (simp add: unsigned_of_nat take_bit_nat_eq_self)

lemma unat_word_of_nat_8: "n < 256 \<Longrightarrow> unat (word_of_nat n :: UCHAR) = n"
  by (simp add: unsigned_of_nat take_bit_nat_eq_self)

lemma byte_bound: "unat (b :: UCHAR) < 256"
  using unat_lt2p [of b] by simp

section \<open>Big-endian integers\<close>

text \<open>
  \<open>be_bytes n w\<close> are the low \<open>n\<close> bytes of \<open>w\<close>, most significant first; \<open>be_fold v bs\<close> is the
  loop \<open>value = (value << 8) | b\<close> over \<open>bs\<close>.
\<close>

primrec be_bytes :: "nat \<Rightarrow> 'a::len word \<Rightarrow> bytes" where
  "be_bytes 0 w = []"
| "be_bytes (Suc n) w = ucast (drop_bit (8 * n) w) # be_bytes n w"

definition be_fold :: "'a::len word \<Rightarrow> bytes \<Rightarrow> 'a word" where
  "be_fold = foldl (\<lambda>v b. push_bit 8 v OR ucast b)"

lemma be_fold_Nil [simp]: "be_fold v [] = v"
  by (simp add: be_fold_def)

lemma be_fold_Cons [simp]: "be_fold v (b # bs) = be_fold (push_bit 8 v OR ucast b) bs"
  by (simp add: be_fold_def)

lemma length_be_bytes [simp]: "length (be_bytes n w) = n"
  by (induction n) auto

lemma be_fold_be_bytes:
  fixes v w :: "'a::len word"
  shows "be_fold v (be_bytes n w) = push_bit (8 * n) v OR take_bit (8 * n) w"
proof (induction n arbitrary: v)
  case 0
  show ?case by simp
next
  case (Suc n)
  have "push_bit (8 * n) (push_bit 8 v OR ucast (ucast (drop_bit (8 * n) w) :: UCHAR)) OR take_bit (8 * n) w
      = push_bit (8 * Suc n) v OR take_bit (8 * Suc n) w"
  proof (rule bit_word_eqI)
    fix m assume m: "m < LENGTH('a)"
    show "bit (push_bit (8 * n) (push_bit 8 v OR ucast (ucast (drop_bit (8 * n) w) :: UCHAR)) OR
            take_bit (8 * n) w) m = bit (push_bit (8 * Suc n) v OR take_bit (8 * Suc n) w) m"
      using m by (cases "m < 8 * n"; cases "m < 8 * n + 8")
        (auto simp: bit_simps bit_imp_le_length add.commute [of 8 "8 * n"] less_imp_diff_less)
  qed
  with Suc show ?case by simp
qed

lemma be_fold_be_bytes_all:
  fixes w :: "'a::len word"
  assumes "LENGTH('a) \<le> 8 * n"
  shows "be_fold 0 (be_bytes n w) = w"
  using assms by (simp add: be_fold_be_bytes take_bit_word_eq_self)

lemma bit_be_fold_high:
  fixes v :: "'a::len word"
  shows "bit (be_fold v bs) (8 * length bs + k) \<longleftrightarrow> 8 * length bs + k < LENGTH('a) \<and> bit v k"
proof (induction bs arbitrary: v k)
  case Nil
  show ?case by (auto simp: bit_imp_le_length)
next
  case (Cons b bs)
  have "8 * length (b # bs) + k = 8 * length bs + (8 + k)" by simp
  then show ?case using Cons.IH [of "push_bit 8 v OR ucast b" "8 + k"]
    by (auto simp: bit_simps bit_imp_le_length ac_simps dest: bit_imp_le_length)
qed

lemma be_bytes_be_fold:
  fixes v :: "'a::len word"
  assumes "8 * length bs \<le> LENGTH('a)"
  shows "be_bytes (length bs) (be_fold v bs) = bs"
  using assms
proof (induction bs arbitrary: v)
  case (Cons b bs)
  have "ucast (drop_bit (8 * length bs) (be_fold (push_bit 8 v OR ucast b) bs)) = b"
  proof (rule bit_word_eqI)
    fix m assume "m < LENGTH(8)"
    then show "bit (ucast (drop_bit (8 * length bs) (be_fold (push_bit 8 v OR ucast b) bs)) :: UCHAR) m
        = bit b m"
      using Cons.prems bit_be_fold_high [of "push_bit 8 v OR ucast b" bs m]
      by (auto simp: bit_simps)
  qed
  with Cons show ?case by simp
qed simp

lemma unat_be_fold_less:
  fixes v :: "'a::len word"
  assumes "8 * length bs < LENGTH('a)"
  shows "unat (be_fold (0 :: 'a word) bs) < 256 ^ length bs"
proof -
  have "take_bit (8 * length bs) (be_fold (0 :: 'a word) bs) = be_fold 0 bs"
  proof (rule bit_word_eqI)
    fix m assume "m < LENGTH('a)"
    then show "bit (take_bit (8 * length bs) (be_fold (0 :: 'a word) bs)) m = bit (be_fold (0 :: 'a word) bs) m"
      using bit_be_fold_high [of "0 :: 'a word" bs "m - 8 * length bs"]
      by (cases "m < 8 * length bs") (auto simp: bit_simps)
  qed
  then have "unat (be_fold (0 :: 'a word) bs) < 2 ^ (8 * length bs)"
    by (metis take_bit_nat_less_exp unsigned_take_bit_eq)
  then show ?thesis by (simp add: power_mult)
qed

section \<open>Numerals\<close>

definition radix_value :: "nat \<Rightarrow> (UCHAR \<Rightarrow> nat) \<Rightarrow> nat \<Rightarrow> bytes \<Rightarrow> nat" where
  "radix_value b dv = foldl (\<lambda>a c. a * b + dv c)"

lemma radix_value_Nil [simp]: "radix_value b dv a [] = a"
  by (simp add: radix_value_def)

lemma radix_value_Cons [simp]: "radix_value b dv a (c # cs) = radix_value b dv (a * b + dv c) cs"
  by (simp add: radix_value_def)

lemma radix_value_append:
  "radix_value b dv a (cs @ ds) = radix_value b dv (radix_value b dv a cs) ds"
  by (simp add: radix_value_def)

lemma radix_value_mono: "0 < b \<Longrightarrow> a \<le> radix_value b dv a cs"
proof (induction cs arbitrary: a)
  case (Cons c cs)
  have "a \<le> a * b + dv c" using Cons.prems by (cases b) auto
  also have "\<dots> \<le> radix_value b dv (a * b + dv c) cs" using Cons by simp
  finally show ?case by simp
qed simp

text \<open>
  The interface of a digit loop: any function with these two equations reads exactly the
  numerals of the given base whose value fits 64 bits, and reports the others by status.
\<close>

locale checked_digit_loop =
  fixes base :: ULONGLONG
    and digit :: "UCHAR \<Rightarrow> bool"
    and dval :: "UCHAR \<Rightarrow> ULONGLONG"
    and loop :: "ULONGLONG \<Rightarrow> bytes \<Rightarrow> ULONGLONG res"
  assumes base_pos: "0 < unat base"
    and loop_Nil: "loop acc [] = Ok acc"
    and loop_Cons: "loop acc (c # cs) =
      (if \<not> digit c then Err STATUS_INVALID_NETWORK_RESPONSE
       else if acc > (- 1 - dval c) div base then Err STATUS_INTEGER_OVERFLOW
       else loop (acc * base + dval c) cs)"
begin

abbreviation val :: "nat \<Rightarrow> bytes \<Rightarrow> nat" where
  "val a cs \<equiv> radix_value (unat base) (\<lambda>c. unat (dval c)) a cs"

lemma loop_Ok_iff:
  "loop acc cs = Ok v \<longleftrightarrow>
     list_all digit cs \<and> val (unat acc) cs < 2 ^ 64 \<and> unat v = val (unat acc) cs"
proof (induction cs arbitrary: acc)
  case Nil
  show ?case using unat_lt2p [of acc] by (auto simp: loop_Nil word_unat_eq_iff)
next
  case (Cons c cs)
  let ?n = "unat acc * unat base + unat (dval c)"
  show ?case
  proof (cases "digit c")
    case False
    then show ?thesis by (simp add: loop_Cons)
  next
    case True
    show ?thesis
    proof (cases "?n < 2 ^ 64")
      case False
      then have big: "acc > (- 1 - dval c) div base"
        by (simp add: checked_mult_add_iff base_pos)
      have "2 ^ 64 \<le> val ?n cs"
        using False radix_value_mono [OF base_pos, of ?n "\<lambda>c. unat (dval c)" cs] by linarith
      with big True show ?thesis by (simp add: loop_Cons)
    next
      case fits: True
      then have small: "\<not> acc > (- 1 - dval c) div base"
        by (simp add: checked_mult_add_iff base_pos)
      have "unat (acc * base + dval c) = ?n"
        using fits by (intro unat_mult_add_fits) simp
      with small True Cons.IH [of "acc * base + dval c"] show ?thesis
        by (simp add: loop_Cons)
    qed
  qed
qed

lemma loop_outcomes:
  "(\<exists>w. loop acc cs = Ok w) \<or> loop acc cs = Err STATUS_INVALID_NETWORK_RESPONSE
   \<or> loop acc cs = Err STATUS_INTEGER_OVERFLOW"
  by (induction cs arbitrary: acc) (auto simp: loop_Nil loop_Cons)

lemma loop_no_fault: "loop acc cs \<noteq> Fault"
  using loop_outcomes [of acc cs] by auto

lemma loop_overflow:
  assumes "list_all digit cs" and "2 ^ 64 \<le> val (unat acc) cs"
  shows "loop acc cs = Err STATUS_INTEGER_OVERFLOW"
  using assms
proof (induction cs arbitrary: acc)
  case Nil
  then show ?case using unat_lt2p [of acc] by simp
next
  case (Cons c cs)
  show ?case
  proof (cases "acc > (- 1 - dval c) div base")
    case True
    with Cons.prems show ?thesis by (simp add: loop_Cons)
  next
    case False
    then have fits: "unat acc * unat base + unat (dval c) < 2 ^ 64"
      by (simp add: checked_mult_add_iff base_pos)
    have "unat (acc * base + dval c) = unat acc * unat base + unat (dval c)"
      using fits by (intro unat_mult_add_fits) simp
    with Cons False show ?thesis by (simp add: loop_Cons)
  qed
qed

end

section \<open>Byte sinks\<close>

text \<open>
  The interface of a writer: \<open>holds w t\<close> says that the text \<open>t\<close> has been written to \<open>w\<close>, and
  \<open>put bs\<close> appends \<open>bs\<close> as long as the total stays within \<open>limit\<close>. \<open>emits op bs\<close> says that an
  operation appends exactly \<open>bs\<close>; operations compose.
\<close>

definition emits :: "('w \<Rightarrow> bytes \<Rightarrow> bool) \<Rightarrow> nat \<Rightarrow> ('w \<Rightarrow> 'w res) \<Rightarrow> bytes \<Rightarrow> bool" where
  "emits holds limit op bs \<longleftrightarrow>
     (\<forall>w t. holds w t \<and> length t + length bs \<le> limit \<longrightarrow>
        (\<exists>w'. op w = Ok w' \<and> holds w' (t @ bs)))"

lemma emits_Ok: "emits holds limit Ok []"
  by (simp add: emits_def)

lemma emits_seq:
  assumes "emits holds limit f a" "emits holds limit g b"
  shows "emits holds limit (\<lambda>w. rbind (f w) g) (a @ b)"
  unfolding emits_def
proof (intro allI impI)
  fix w t assume h: "holds w t \<and> length t + length (a @ b) \<le> limit"
  then have la: "length t + length a \<le> limit" and lb: "length (t @ a) + length b \<le> limit" by auto
  obtain w1 where w1: "f w = Ok w1" "holds w1 (t @ a)"
    using assms(1) h la unfolding emits_def by blast
  then obtain w2 where "g w1 = Ok w2" "holds w2 ((t @ a) @ b)"
    using assms(2) lb unfolding emits_def by blast
  then show "\<exists>w'. rbind (f w) g = Ok w' \<and> holds w' (t @ a @ b)" using w1 by simp
qed

lemma emits_run:
  "emits holds limit op bs \<Longrightarrow> holds w t \<Longrightarrow> length t + length bs \<le> limit \<Longrightarrow>
   \<exists>w'. op w = Ok w' \<and> holds w' (t @ bs)"
  by (simp add: emits_def)

locale byte_sink =
  fixes holds :: "'w \<Rightarrow> bytes \<Rightarrow> bool"
    and limit :: nat
    and put :: "bytes \<Rightarrow> 'w \<Rightarrow> 'w res"
  assumes put_law: "holds w t \<Longrightarrow> length t + length bs \<le> limit \<Longrightarrow>
    \<exists>w'. put bs w = Ok w' \<and> holds w' (t @ bs)"
begin

lemma emits_put: "emits holds limit (put bs) bs"
  using put_law by (simp add: emits_def)

lemma emits_put_then:
  "emits holds limit g b \<Longrightarrow> emits holds limit (\<lambda>w. rbind (put a w) g) (a @ b)"
  using emits_seq [OF emits_put] .

end

section \<open>Writing through a cursor\<close>

text \<open>
  The pair of a buffer and a cursor that the encoders keep: \<open>destination[cursor++] = b\<close> is
  \<open>put_byte b\<close>. A state \<open>stored dest w t\<close> has the text \<open>t\<close> at the front of the original buffer
  \<open>dest\<close> and leaves the rest of it as it was. It is a byte sink whose limit is the size of the
  buffer, so an encoder that checks its space up front cannot write out of bounds.
\<close>

type_synonym writer = "bytes \<times> nat"

definition put_byte :: "UCHAR \<Rightarrow> writer \<Rightarrow> writer res" where
  "put_byte b w = rbind (wr (fst w) (snd w) b) (\<lambda>d. Ok (d, snd w + 1))"

fun put_bytes :: "bytes \<Rightarrow> writer \<Rightarrow> writer res" where
  "put_bytes [] w = Ok w"
| "put_bytes (b # bs) w = rbind (put_byte b w) (put_bytes bs)"

lemma put_bytes_fun:
  "put_bytes [b] = put_byte b"
  "put_bytes (b # c # bs) = (\<lambda>w. rbind (put_byte b w) (put_bytes (c # bs)))"
proof -
  have nil: "put_bytes [] = Ok" by (simp add: fun_eq_iff)
  show "put_bytes [b] = put_byte b" by (rule ext) (simp add: nil)
qed (simp add: fun_eq_iff)

definition stored :: "bytes \<Rightarrow> writer \<Rightarrow> bytes \<Rightarrow> bool" where
  "stored dest w t \<longleftrightarrow> w = (overlay dest 0 t, length t) \<and> length t \<le> length dest"

lemma put_byte_stored:
  assumes "stored dest w t" "length t < length dest"
  shows "\<exists>w'. put_byte b w = Ok w' \<and> stored dest w' (t @ [b])"
proof -
  have "(overlay dest 0 t)[length t := b] = overlay (overlay dest 0 t) (0 + length t) [b]"
    using assms by (simp add: list_update_overlay)
  also have "\<dots> = overlay dest 0 (t @ [b])"
    using assms by (intro overlay_overlay) simp
  finally show ?thesis using assms by (auto simp: stored_def put_byte_def)
qed

lemma put_bytes_stored:
  "stored dest w t \<Longrightarrow> length t + length bs \<le> length dest \<Longrightarrow>
   \<exists>w'. put_bytes bs w = Ok w' \<and> stored dest w' (t @ bs)"
proof (induction bs arbitrary: w t)
  case (Cons b bs)
  then obtain w1 where "put_byte b w = Ok w1" "stored dest w1 (t @ [b])"
    using put_byte_stored [of dest w t b] by auto
  with Cons.IH [of w1 "t @ [b]"] Cons.prems show ?case by auto
qed simp

interpretation cw: byte_sink "stored dest" "length dest" put_bytes for dest
  by unfold_locales (rule put_bytes_stored)

abbreviation stores :: "bytes \<Rightarrow> (writer \<Rightarrow> writer res) \<Rightarrow> bytes \<Rightarrow> bool" where
  "stores dest \<equiv> emits (stored dest) (length dest)"

lemma emits_put_byte: "emits (stored dest) (length dest) (put_byte b) [b]"
  using put_byte_stored by (auto simp: emits_def)

lemma stored_start: "stored dest (dest, 0) []"
  by (simp add: stored_def)

lemma emits_run_stored:
  assumes "emits (stored dest) (length dest) op bs" "length bs \<le> length dest"
  shows "op (dest, 0) = Ok (overlay dest 0 bs, length bs)"
  using emits_run [OF assms(1) stored_start] assms(2) by (auto simp: stored_def)

end
