(* ===== verification/Kh_HttpTypes.thy ===== *)
theory Kh_HttpTypes
  imports Kh_Prelude
begin

text \<open>
  Text, headers and responses: \<^verbatim>\<open>http/HttpTypes.cpp\<close> (case-insensitive comparison, the
  comma-separated token search) and \<^verbatim>\<open>http/HttpResponse.cpp\<close> (the queries a client makes on a
  parsed response, and the \<open>Content-Range\<close> parser).

  A loop that advances an index \<open>index\<close> over \<open>value.Data[0 .. Length)\<close> is modelled on the
  bytes that remain, \<open>drop index value\<close>: reading \<open>value.Data[index]\<close> under the guard
  \<open>index < value.Length\<close> is a case split on that list.
\<close>

section \<open>HttpTypes\<close>

type_synonym HttpText = "UCHAR span"

record HttpHeader =
  Name :: HttpText
  Value :: HttpText

definition IsUpperAscii :: "UCHAR \<Rightarrow> bool" where
  "IsUpperAscii value \<longleftrightarrow> 65 \<le> value \<and> value \<le> 90"

definition ToLowerAscii :: "UCHAR \<Rightarrow> UCHAR" where
  "ToLowerAscii value = (if IsUpperAscii value then value + (97 - 65) else value)"

definition IsTokenBoundary :: "UCHAR \<Rightarrow> bool" where
  "IsTokenBoundary value \<longleftrightarrow> value = 44 \<or> value = 32 \<or> value = 9"

definition IsOptionalWhitespace :: "UCHAR \<Rightarrow> bool" where
  "IsOptionalWhitespace value \<longleftrightarrow> value = 32 \<or> value = 9"

text \<open>
  The two loops of \<open>TrimOptionalWhitespace\<close> on a text whose \<open>Data\<close> is a valid pointer: the
  first advances \<open>Data\<close> over blanks, the second shortens \<open>Length\<close> over blanks at the end.
\<close>

definition trim_ows :: "bytes \<Rightarrow> bytes" where
  "trim_ows text =
     rev (dropWhile IsOptionalWhitespace (rev (dropWhile IsOptionalWhitespace text)))"

text \<open>
  On a null \<open>Data\<close> with a nonzero \<open>Length\<close> the first loop reads \<open>text.Data[0]\<close> through the
  null pointer.
\<close>

fun TrimOptionalWhitespace :: "HttpText \<Rightarrow> HttpText res" where
  "TrimOptionalWhitespace (Span b) = Ok (Span (trim_ows b))"
| "TrimOptionalWhitespace (NullSpan n) = (if n = 0 then Ok (NullSpan 0) else Fault)"

definition MakeText :: "string \<Rightarrow> HttpText" where
  "MakeText value = Span (lit value)"

fun text_equal_loop :: "bytes \<Rightarrow> bytes \<Rightarrow> bool" where
  "text_equal_loop (a # as) (b # bs) =
     (if ToLowerAscii a \<noteq> ToLowerAscii b then False else text_equal_loop as bs)"
| "text_equal_loop _ _ = True"

definition TextEqualsIgnoreCase :: "HttpText \<Rightarrow> HttpText \<Rightarrow> bool" where
  "TextEqualsIgnoreCase left right =
     (if span_len left \<noteq> span_len right \<or> span_null left \<or> span_null right then False
      else text_equal_loop (span_list left) (span_list right))"

function token_loop :: "HttpText \<Rightarrow> bytes \<Rightarrow> bool" where
  "token_loop token value =
     (if value = [] then False
      else
        let start = dropWhile IsTokenBoundary value;
            candidate = takeWhile (\<lambda>c. c \<noteq> 44) start;
            next_value = dropWhile (\<lambda>c. c \<noteq> 44) start
        in if TextEqualsIgnoreCase (Span (trim_ows candidate)) token then True
           else token_loop token next_value)"
  by pat_completeness auto

lemma token_step_shorter:
  "value \<noteq> [] \<Longrightarrow>
   length (dropWhile (\<lambda>c. c \<noteq> 44) (dropWhile IsTokenBoundary value)) < length value"
proof (cases "value")
  case (Cons c cs)
  show ?thesis
  proof (cases "IsTokenBoundary c")
    case True
    have "length (dropWhile (\<lambda>c. c \<noteq> 44) (dropWhile IsTokenBoundary cs)) \<le> length cs"
      by (rule order_trans [OF length_dropWhile_le length_dropWhile_le])
    with Cons True show ?thesis by simp
  next
    case False
    then have "c \<noteq> 44" by (auto simp: IsTokenBoundary_def)
    with Cons False show ?thesis by (simp add: length_dropWhile_le less_Suc_eq_le)
  qed
qed simp

termination token_loop
  by (relation "measure (\<lambda>(token, value). length value)")
     (auto simp: token_step_shorter)

declare token_loop.simps [simp del]

definition HeaderValueHasToken :: "HttpText \<Rightarrow> HttpText \<Rightarrow> bool res" where
  "HeaderValueHasToken value token =
     rbind (TrimOptionalWhitespace value) (\<lambda>value.
       if span_null value \<or> span_null token \<or> span_len token = 0 then Ok False
       else Ok (token_loop token (span_list value)))"

section \<open>HttpResponse\<close>

datatype HttpBodyKind = BodyNone | BodyContentLength | BodyChunked | BodyCloseDelimited

record HttpContentRange =
  FirstBytePos :: ULONGLONG
  LastBytePos :: ULONGLONG
  CompleteLength :: ULONGLONG
  HasRange :: bool
  HasCompleteLength :: bool

record HttpResponse =
  MajorVersion :: USHORT
  MinorVersion :: USHORT
  StatusCode :: USHORT
  ReasonPhrase :: HttpText
  Headers :: "HttpHeader span"
  Trailers :: "HttpHeader span"
  Body :: "UCHAR span"
  BodyKind :: HttpBodyKind
  BodyEndsOnConnectionClose :: bool
  BytesConsumed :: nat

text \<open>The value-initialised response \<open>{}\<close>, which every parse starts from.\<close>

definition empty_response :: HttpResponse where
  "empty_response =
     \<lparr>MajorVersion = 0, MinorVersion = 0, StatusCode = 0, ReasonPhrase = NullSpan 0,
      Headers = NullSpan 0, Trailers = NullSpan 0, Body = NullSpan 0, BodyKind = BodyNone,
      BodyEndsOnConnectionClose = False, BytesConsumed = 0\<rparr>"

definition FindHeader :: "HttpResponse \<Rightarrow> HttpText \<Rightarrow> HttpHeader option" where
  "FindHeader response name =
     (if span_null name \<or> span_len name = 0 \<or> span_null (Headers response) then None
      else find (\<lambda>h. TextEqualsIgnoreCase (Name h) name) (span_list (Headers response)))"

fun has_token_loop :: "HttpHeader list \<Rightarrow> HttpText \<Rightarrow> HttpText \<Rightarrow> bool res" where
  "has_token_loop [] name token = Ok False"
| "has_token_loop (h # hs) name token =
     (if TextEqualsIgnoreCase (Name h) name
      then rbind (HeaderValueHasToken (Value h) token) (\<lambda>found.
             if found then Ok True else has_token_loop hs name token)
      else has_token_loop hs name token)"

definition HasHeaderValueToken :: "HttpResponse \<Rightarrow> HttpText \<Rightarrow> HttpText \<Rightarrow> bool res" where
  "HasHeaderValueToken response name token =
     (if span_null (Headers response) \<or> span_null token \<or> span_len token = 0 then Ok False
      else has_token_loop (span_list (Headers response)) name token)"

definition HasConnectionClose :: "HttpResponse \<Rightarrow> bool res" where
  "HasConnectionClose response =
     HasHeaderValueToken response (MakeText ''Connection'') (MakeText ''close'')"

definition HasConnectionKeepAlive :: "HttpResponse \<Rightarrow> bool res" where
  "HasConnectionKeepAlive response =
     HasHeaderValueToken response (MakeText ''Connection'') (MakeText ''keep-alive'')"

definition HasChunkedTransferEncoding :: "HttpResponse \<Rightarrow> bool res" where
  "HasChunkedTransferEncoding response =
     HasHeaderValueToken response (MakeText ''Transfer-Encoding'') (MakeText ''chunked'')"

definition IsPartialContent :: "HttpResponse \<Rightarrow> bool" where
  "IsPartialContent response \<longleftrightarrow> StatusCode response = 206"

definition IsSpace :: "UCHAR \<Rightarrow> bool" where
  "IsSpace c \<longleftrightarrow> c = 32 \<or> c = 9"

fun parse_unsigned_loop :: "ULONGLONG \<Rightarrow> bytes \<Rightarrow> (ULONGLONG \<times> bytes) option" where
  "parse_unsigned_loop result [] = Some (result, [])"
| "parse_unsigned_loop result (c # cs) =
     (if c < 48 \<or> c > 57 then Some (result, c # cs)
      else if result > (- 1 - ucast (c - 48)) div 10 then None
      else parse_unsigned_loop (result * 10 + ucast (c - 48)) cs)"

definition ParseUnsigned :: "bytes \<Rightarrow> (ULONGLONG \<times> bytes) option" where
  "ParseUnsigned text =
     (case parse_unsigned_loop 0 text of
        None \<Rightarrow> None
      | Some (result, rest) \<Rightarrow>
          if length rest = length text then None else Some (result, rest))"

definition content_range_end :: "bytes \<Rightarrow> HttpContentRange \<Rightarrow> HttpContentRange option" where
  "content_range_end rest r = (if dropWhile IsSpace rest = [] then Some r else None)"

text \<open>The form \<open>bytes */complete\<close>, after the star.\<close>

definition content_range_unsatisfied :: "bytes \<Rightarrow> HttpContentRange option" where
  "content_range_unsatisfied value =
     (case value of
        [] \<Rightarrow> None
      | c # rest \<Rightarrow>
          if c \<noteq> 47 then None
          else (case ParseUnsigned rest of
                  None \<Rightarrow> None
                | Some (complete, rest') \<Rightarrow>
                    content_range_end rest'
                      \<lparr>FirstBytePos = 0, LastBytePos = 0, CompleteLength = complete,
                       HasRange = False, HasCompleteLength = True\<rparr>))"

text \<open>The form \<open>bytes first-last/(complete | *)\<close>.\<close>

definition content_range_satisfied :: "bytes \<Rightarrow> HttpContentRange option" where
  "content_range_satisfied value =
     (case ParseUnsigned value of
        None \<Rightarrow> None
      | Some (first, v1) \<Rightarrow>
          (case v1 of
             [] \<Rightarrow> None
           | c1 # v2 \<Rightarrow>
               if c1 \<noteq> 45 then None
               else (case ParseUnsigned v2 of
                       None \<Rightarrow> None
                     | Some (last', v3) \<Rightarrow>
                         if last' < first then None
                         else (case v3 of
                                 [] \<Rightarrow> None
                               | c2 # v4 \<Rightarrow>
                                   if c2 \<noteq> 47 then None
                                   else if v4 \<noteq> [] \<and> hd v4 = 42
                                   then content_range_end (tl v4)
                                          \<lparr>FirstBytePos = first, LastBytePos = last',
                                           CompleteLength = 0, HasRange = True,
                                           HasCompleteLength = False\<rparr>
                                   else (case ParseUnsigned v4 of
                                           None \<Rightarrow> None
                                         | Some (complete, v5) \<Rightarrow>
                                             if last' \<ge> complete then None
                                             else content_range_end v5
                                                    \<lparr>FirstBytePos = first, LastBytePos = last',
                                                     CompleteLength = complete, HasRange = True,
                                                     HasCompleteLength = True\<rparr>)))))"

definition GetContentRange :: "HttpResponse \<Rightarrow> HttpContentRange option" where
  "GetContentRange response =
     (case FindHeader response (MakeText ''Content-Range'') of
        None \<Rightarrow> None
      | Some header \<Rightarrow>
          if span_null (Value header) then None
          else
            let value = dropWhile IsSpace (span_list (Value header)) in
            if length value < 5 \<or> take 5 value \<noteq> lit ''bytes'' then None
            else (case drop 5 value of
                    [] \<Rightarrow> None
                  | c # _ \<Rightarrow>
                      if \<not> IsSpace c then None
                      else (case dropWhile IsSpace (drop 5 value) of
                              [] \<Rightarrow> None
                            | d # rest \<Rightarrow>
                                if d = 42 then content_range_unsatisfied rest
                                else content_range_satisfied (d # rest))))"

section \<open>Comparison and trimming\<close>

lemma MakeText_simps [simp]:
  "span_null (MakeText s) = False" "span_len (MakeText s) = length s"
  "span_list (MakeText s) = lit s"
  by (simp_all add: MakeText_def lit_def)

lemma text_equal_loop_iff:
  "length as = length bs \<Longrightarrow>
   text_equal_loop as bs \<longleftrightarrow> map ToLowerAscii as = map ToLowerAscii bs"
  by (induction as bs rule: list_induct2) auto

lemma TextEqualsIgnoreCase_Span:
  "TextEqualsIgnoreCase (Span a) (Span b) \<longleftrightarrow> map ToLowerAscii a = map ToLowerAscii b"
  by (auto simp: TextEqualsIgnoreCase_def text_equal_loop_iff dest: map_eq_imp_length_eq)

lemma TextEqualsIgnoreCase_iff:
  "TextEqualsIgnoreCase l r \<longleftrightarrow>
     (\<exists>a b. l = Span a \<and> r = Span b \<and> map ToLowerAscii a = map ToLowerAscii b)"
  by (cases l; cases r) (auto simp: TextEqualsIgnoreCase_Span, auto simp: TextEqualsIgnoreCase_def)

lemma trim_ows_Nil [simp]: "trim_ows [] = []"
  by (simp add: trim_ows_def)

lemma trim_ows_leading:
  "IsOptionalWhitespace c \<Longrightarrow> trim_ows (c # xs) = trim_ows xs"
  by (simp add: trim_ows_def)

lemma trim_ows_blank:
  assumes "list_all IsOptionalWhitespace ws"
  shows "trim_ows (ws @ xs) = trim_ows xs"
  using assms by (induction ws) (simp_all add: trim_ows_leading)

lemma set_trim_ows: "set (trim_ows xs) \<subseteq> set xs"
  by (auto simp: trim_ows_def dest!: set_dropWhileD)

lemma length_trim_ows: "length (trim_ows xs) \<le> length xs"
  unfolding trim_ows_def
  by (metis length_dropWhile_le length_rev order_trans)

lemma trim_ows_id:
  assumes "xs = [] \<or> \<not> IsOptionalWhitespace (hd xs) \<and> \<not> IsOptionalWhitespace (last xs)"
  shows "trim_ows xs = xs"
proof (cases "xs = []")
  case False
  then have h: "\<not> IsOptionalWhitespace (hd xs)" and l: "\<not> IsOptionalWhitespace (last xs)"
    using assms by auto
  from False h have "dropWhile IsOptionalWhitespace xs = xs"
    by (cases xs) auto
  moreover from False l have "dropWhile IsOptionalWhitespace (rev xs) = rev xs"
    by (cases "rev xs") (auto simp: hd_rev [symmetric])
  ultimately show ?thesis by (simp add: trim_ows_def)
qed simp

lemma trim_ows_ends:
  "trim_ows xs = [] \<or>
   \<not> IsOptionalWhitespace (hd (trim_ows xs)) \<and> \<not> IsOptionalWhitespace (last (trim_ows xs))"
proof -
  define ys where "ys = dropWhile IsOptionalWhitespace xs"
  define zs where "zs = dropWhile IsOptionalWhitespace (rev ys)"
  have t: "trim_ows xs = rev zs" by (simp add: trim_ows_def ys_def zs_def)
  show ?thesis
  proof (cases "zs = []")
    case True
    then show ?thesis by (simp add: t)
  next
    case False
    have "\<not> IsOptionalWhitespace (hd zs)"
      using False hd_dropWhile zs_def by blast
    then have l: "\<not> IsOptionalWhitespace (last (rev zs))"
      using False by (simp add: last_rev)
    obtain ps where "rev ys = ps @ zs"
      unfolding zs_def by (metis takeWhile_dropWhile_id)
    then have ys: "ys = rev zs @ rev ps" by (metis rev_append rev_rev_ident)
    then have "hd ys = hd (rev zs)" and "ys \<noteq> []" using False by auto
    moreover have "\<not> IsOptionalWhitespace (hd ys)"
      using \<open>ys \<noteq> []\<close> hd_dropWhile ys_def by blast
    ultimately show ?thesis using l by (simp add: t)
  qed
qed

lemma trim_ows_idem [simp]: "trim_ows (trim_ows xs) = trim_ows xs"
  by (rule trim_ows_id [OF trim_ows_ends])

section \<open>The token search\<close>

text \<open>
  The reference: the members of a comma-separated list are the maximal comma-free runs, and a
  token occurs in the value when one of the members, trimmed, equals it up to case.
\<close>

fun comma_members :: "bytes \<Rightarrow> bytes list" where
  "comma_members [] = [ [] ]"
| "comma_members (c # cs) =
     (if c = 44 then [] # comma_members cs
      else (case comma_members cs of
              [] \<Rightarrow> [ [c] ]
            | m # ms \<Rightarrow> (c # m) # ms))"

definition has_member :: "bytes \<Rightarrow> bytes \<Rightarrow> bool" where
  "has_member token value \<longleftrightarrow>
     (\<exists>m \<in> set (comma_members value). map ToLowerAscii (trim_ows m) = map ToLowerAscii token)"

lemma comma_members_unfold:
  "comma_members value =
     takeWhile (\<lambda>c. c \<noteq> 44) value #
     (case dropWhile (\<lambda>c. c \<noteq> 44) value of [] \<Rightarrow> [] | _ # rest \<Rightarrow> comma_members rest)"
  by (induction "value") auto

lemma has_member_unfold:
  "has_member token value \<longleftrightarrow>
     map ToLowerAscii (trim_ows (takeWhile (\<lambda>c. c \<noteq> 44) value)) = map ToLowerAscii token \<or>
     (\<exists>c rest. dropWhile (\<lambda>c. c \<noteq> 44) value = c # rest \<and> has_member token rest)"
  unfolding has_member_def
  by (subst comma_members_unfold) (auto split: list.splits; metis list.inject)

lemma has_member_boundary:
  assumes "token \<noteq> []" and "IsTokenBoundary c"
  shows "has_member token (c # cs) \<longleftrightarrow> has_member token cs"
proof (cases "c = 44")
  case True
  then show ?thesis using assms(1) has_member_unfold [of token "c # cs"] by simp
next
  case False
  with assms(2) have ws: "IsOptionalWhitespace c"
    by (auto simp: IsTokenBoundary_def IsOptionalWhitespace_def)
  show ?thesis
    using False ws by (simp add: has_member_unfold [of token "c # cs"]
        has_member_unfold [of token cs] trim_ows_leading)
qed

lemma has_member_skip:
  "token \<noteq> [] \<Longrightarrow> has_member token (dropWhile IsTokenBoundary cs) \<longleftrightarrow> has_member token cs"
  by (induction cs) (auto simp: has_member_boundary)

lemma has_member_Nil: "token \<noteq> [] \<Longrightarrow> \<not> has_member token []"
  by (simp add: has_member_def)

lemma token_loop_iff:
  assumes "token \<noteq> []"
  shows "token_loop (Span token) value \<longleftrightarrow> has_member token value"
proof (induction "length value" arbitrary: "value" rule: less_induct)
  case less
  show ?case
  proof (cases "value = []")
    case True
    then show ?thesis by (simp add: token_loop.simps [of _ "[]"] has_member_Nil assms)
  next
    case False
    define start where "start = dropWhile IsTokenBoundary value"
    define rest where "rest = dropWhile (\<lambda>c. c \<noteq> 44) start"
    define hit where
      "hit \<longleftrightarrow> map ToLowerAscii (trim_ows (takeWhile (\<lambda>c. c \<noteq> 44) start)) = map ToLowerAscii token"
    have "token_loop (Span token) value \<longleftrightarrow> hit \<or> token_loop (Span token) rest"
      using False
      by (subst token_loop.simps)
         (simp add: Let_def TextEqualsIgnoreCase_Span start_def rest_def hit_def)
    also have "\<dots> \<longleftrightarrow> hit \<or> has_member token rest"
      using less token_step_shorter [OF False] by (simp add: rest_def start_def)
    also have "has_member token rest \<longleftrightarrow> (\<exists>c r. rest = c # r \<and> has_member token r)"
    proof (cases rest)
      case Nil
      then show ?thesis by (simp add: has_member_Nil assms)
    next
      case (Cons c r)
      then have "c = 44" using hd_dropWhile [of "\<lambda>c. c \<noteq> 44" start] by (simp add: rest_def)
      then show ?thesis using Cons by (simp add: has_member_boundary assms IsTokenBoundary_def)
    qed
    also have "hit \<or> \<dots> \<longleftrightarrow> has_member token start"
      by (simp add: has_member_unfold [of token start] hit_def rest_def)
    also have "\<dots> \<longleftrightarrow> has_member token value"
      by (simp add: start_def has_member_skip assms)
    finally show ?thesis .
  qed
qed

lemma has_member_trim_left:
  assumes "token \<noteq> []" and "list_all IsOptionalWhitespace ws"
  shows "has_member token (ws @ xs) \<longleftrightarrow> has_member token xs"
  using assms(2)
  by (induction ws)
     (auto simp: has_member_boundary assms(1) IsTokenBoundary_def IsOptionalWhitespace_def)

lemma trim_ows_trailing:
  assumes "list_all IsOptionalWhitespace ws"
  shows "trim_ows (xs @ ws) = trim_ows xs"
proof (cases "list_all IsOptionalWhitespace xs")
  case True
  with assms show ?thesis
    by (simp add: trim_ows_def dropWhile_eq_Nil list_all_append)
next
  case False
  then have d: "dropWhile IsOptionalWhitespace (xs @ ws) = dropWhile IsOptionalWhitespace xs @ ws"
    by (auto simp: list_all_iff dropWhile_append1)
  have "dropWhile IsOptionalWhitespace (rev ws @ zs) = dropWhile IsOptionalWhitespace zs" for zs
    by (rule dropWhile_append2) (use assms in \<open>simp add: list_all_iff\<close>)
  then show ?thesis by (simp add: trim_ows_def d)
qed

lemma comma_members_nonempty [simp]: "comma_members v \<noteq> []"
  by (induction v) (auto split: list.splits)

lemma comma_members_snoc:
  "44 \<notin> set ws \<Longrightarrow>
   comma_members (xs @ ws) = butlast (comma_members xs) @ [last (comma_members xs) @ ws]"
proof (induction xs)
  case Nil
  then show ?case by (induction ws) auto
next
  case (Cons c cs)
  show ?case
    using Cons by (cases "comma_members cs") (auto simp: butlast_append)
qed

lemma has_member_trailing:
  assumes "list_all IsOptionalWhitespace ws"
  shows "has_member token (xs @ ws) \<longleftrightarrow> has_member token xs"
proof -
  have "44 \<notin> set ws"
    using assms by (auto simp: list_all_iff IsOptionalWhitespace_def)
  moreover have "comma_members xs = butlast (comma_members xs) @ [last (comma_members xs)]"
    by simp
  ultimately show ?thesis
    unfolding has_member_def
    by (metis (no_types, lifting) Un_iff assms comma_members_snoc empty_iff empty_set
        list.set_intros(1) set_ConsD set_append trim_ows_trailing)
qed

lemma trim_ows_decomp:
  obtains ws1 ws2 where "list_all IsOptionalWhitespace ws1" "list_all IsOptionalWhitespace ws2"
    "xs = ws1 @ trim_ows xs @ ws2"
proof -
  define ys where "ys = dropWhile IsOptionalWhitespace xs"
  define ws1 where "ws1 = takeWhile IsOptionalWhitespace xs"
  define ws2 where "ws2 = rev (takeWhile IsOptionalWhitespace (rev ys))"
  have x: "xs = ws1 @ ys" by (simp add: ws1_def ys_def)
  have "rev ys = takeWhile IsOptionalWhitespace (rev ys) @ dropWhile IsOptionalWhitespace (rev ys)"
    by simp
  then have "ys = trim_ows xs @ ws2"
    by (metis rev_append rev_rev_ident trim_ows_def ws2_def ys_def)
  moreover have "list_all IsOptionalWhitespace ws1" "list_all IsOptionalWhitespace ws2"
    by (auto simp: ws1_def ws2_def list_all_iff dest: set_takeWhileD)
  ultimately show ?thesis using x that by simp
qed

lemma has_member_trim:
  assumes "token \<noteq> []"
  shows "has_member token (trim_ows xs) \<longleftrightarrow> has_member token xs"
  by (rule trim_ows_decomp [of xs])
     (metis assms has_member_trailing has_member_trim_left)

lemma HeaderValueHasToken_Span:
  assumes "token \<noteq> []"
  shows "HeaderValueHasToken (Span v) (Span token) = Ok (has_member token v)"
  using assms
  by (simp add: HeaderValueHasToken_def token_loop_iff has_member_trim)

text \<open>
  A header list whose values are readable (no null \<open>Data\<close> with a nonzero \<open>Length\<close>) can be
  searched safely; the parsers only build such headers.
\<close>

definition readable :: "'a span \<Rightarrow> bool" where
  "readable s \<longleftrightarrow> span_null s \<longrightarrow> span_len s = 0"

lemma readable_Span [simp]: "readable (Span xs)"
  by (simp add: readable_def)

lemma HeaderValueHasToken_readable:
  assumes "readable v" and "token \<noteq> []"
  shows "HeaderValueHasToken v (Span token) = Ok (has_member token (span_list v))"
proof (cases v)
  case (Span b)
  then show ?thesis by (simp add: HeaderValueHasToken_Span assms)
next
  case (NullSpan n)
  then show ?thesis
    using assms by (simp add: HeaderValueHasToken_def readable_def has_member_Nil)
qed

lemma has_token_loop_readable:
  assumes "\<forall>h \<in> set hs. readable (Value h)" and "token \<noteq> []"
  shows "has_token_loop hs name (Span token) =
    Ok (\<exists>h \<in> set hs. TextEqualsIgnoreCase (Name h) name \<and> has_member token (span_list (Value h)))"
  using assms by (induction hs) (auto simp: HeaderValueHasToken_readable)

section \<open>Content-Range\<close>

lemma content_range_end_Some:
  "content_range_end rest r = Some cr \<longleftrightarrow> cr = r \<and> dropWhile IsSpace rest = []"
  by (auto simp: content_range_end_def)

lemma content_range_unsatisfied_form:
  "content_range_unsatisfied v = Some cr \<Longrightarrow> \<not> HasRange cr \<and> HasCompleteLength cr"
  by (auto simp: content_range_unsatisfied_def content_range_end_Some split: list.splits
      option.splits if_splits)

lemma content_range_satisfied_form:
  "content_range_satisfied v = Some cr \<Longrightarrow>
     HasRange cr \<and> FirstBytePos cr \<le> LastBytePos cr \<and>
     (HasCompleteLength cr \<longrightarrow> LastBytePos cr < CompleteLength cr)"
  by (auto simp: content_range_satisfied_def content_range_end_Some not_le not_less
      split: list.splits option.splits if_splits)

lemma GetContentRange_cases:
  assumes "GetContentRange response = Some cr"
  obtains v where "content_range_unsatisfied v = Some cr"
  | v where "content_range_satisfied v = Some cr"
  using assms by (auto simp: GetContentRange_def Let_def split: option.splits if_splits list.splits)

section \<open>Properties\<close>

text \<open>The token search is membership in the comma-separated list: on a response whose
  header values are readable, \<open>HasHeaderValueToken\<close> answers true exactly when some header of
  that name has the token, up to case and surrounding blanks, among the comma-separated members
  of its value. The index arithmetic of the loop neither skips nor invents a member.\<close>

theorem HasHeaderValueToken_spec:
  assumes "Headers response = Span hs" and "\<forall>h \<in> set hs. readable (Value h)" and "token \<noteq> []"
  shows "HasHeaderValueToken response name (Span token) =
    Ok (\<exists>h \<in> set hs. TextEqualsIgnoreCase (Name h) name \<and>
          (\<exists>m \<in> set (comma_members (span_list (Value h))).
             map ToLowerAscii (trim_ows m) = map ToLowerAscii token))"
  using has_token_loop_readable [OF assms(2,3), of name] assms
  by (simp add: HasHeaderValueToken_def has_member_def)

theorem HasHeaderValueToken_spec_witness:
  "HasConnectionClose
     (empty_response\<lparr>Headers := Span [\<lparr>Name = MakeText ''connection'',
        Value = MakeText ''upgrade, Close''\<rparr>]\<rparr>) = Ok True"
  using HasHeaderValueToken_spec
    [of "empty_response\<lparr>Headers := Span [\<lparr>Name = MakeText ''connection'',
        Value = MakeText ''upgrade, Close''\<rparr>]\<rparr>" _ "lit ''close''" "MakeText ''Connection''"]
  by (simp add: HasConnectionClose_def MakeText_def lit_def TextEqualsIgnoreCase_Span
      ToLowerAscii_def IsUpperAscii_def trim_ows_def IsOptionalWhitespace_def)

text \<open>A \<open>Content-Range\<close> that \<open>GetContentRange\<close> delivers is consistent: a range has
  first at most last, and last below the complete length when that is known; without a range the
  complete length is known.\<close>

theorem GetContentRange_consistent:
  assumes "GetContentRange response = Some cr"
  shows "(HasRange cr \<longrightarrow> FirstBytePos cr \<le> LastBytePos cr) \<and>
         (HasRange cr \<and> HasCompleteLength cr \<longrightarrow> LastBytePos cr < CompleteLength cr) \<and>
         (\<not> HasRange cr \<longrightarrow> HasCompleteLength cr)"
  using assms
  by (cases rule: GetContentRange_cases)
     (auto dest: content_range_unsatisfied_form content_range_satisfied_form)

theorem GetContentRange_consistent_witness:
  "\<exists>cr. GetContentRange (empty_response\<lparr>Headers := Span [\<lparr>Name = MakeText ''content-range'',
        Value = MakeText ''bytes 2-5/9''\<rparr>]\<rparr>) = Some cr \<and> HasRange cr \<and>
        LastBytePos cr < CompleteLength cr"
proof -
  let ?r = "empty_response\<lparr>Headers := Span [\<lparr>Name = MakeText ''content-range'',
        Value = MakeText ''bytes 2-5/9''\<rparr>]\<rparr>"
  let ?cr = "\<lparr>FirstBytePos = 2, LastBytePos = 5, CompleteLength = 9, HasRange = True,
      HasCompleteLength = True\<rparr>"
  have "GetContentRange ?r = Some ?cr"
    by (simp add: GetContentRange_def FindHeader_def MakeText_def lit_def TextEqualsIgnoreCase_Span
        ToLowerAscii_def IsUpperAscii_def IsSpace_def content_range_satisfied_def ParseUnsigned_def
        content_range_end_def)
  then show ?thesis using GetContentRange_consistent [of ?r ?cr] by simp
qed

text \<open>The search trims a value before it tests its pointer, so a value with a null pointer and a
  nonzero length is read through the null pointer.\<close>

lemma HeaderValueHasToken_null: "n \<noteq> 0 \<Longrightarrow> HeaderValueHasToken (NullSpan n) token = Fault"
  by (simp add: HeaderValueHasToken_def)

end
