(* ===== verification/Kh_HttpCoding.thy ===== *)
theory Kh_HttpCoding
  imports Kh_HttpTypes
begin

unbundle bit_operations_syntax

text \<open>
  The content and transfer codings of \<^verbatim>\<open>http/HttpCoding.cpp\<close>: checksums, the gzip and zlib
  framing, the LZW decoder of the \<open>compress\<close> coding, and the chain of decoders
  \<open>DecodeChainReverse\<close> with its decompression-bomb limit.

  Raw deflate (\<open>RtlDecompressBufferEx\<close> of the kernel) and Brotli (a vendored library) are not
  part of the sources: they are fields of \<open>coding_env\<close>, a parameter of the definitions. The
  environment also says whether the allocations of a call succeed.

  A decoder's destination is given by its nullness and capacity, and its result is the list of
  bytes it leaves in \<open>destination[0 .. *decodedLength)\<close>. Where a body lies is a location tag
  (\<open>buffer_loc\<close>), because \<open>SelectDestination\<close> compares pointers.
\<close>

section \<open>Environment\<close>

datatype BrotliDecoderResult =
    BrotliSuccess
  | BrotliNeedsMoreInput
  | BrotliNeedsMoreOutput
  | BrotliError bool

text \<open>
  \<open>WorkSpace\<close> is the outcome of \<open>RtlGetCompressionWorkSpaceSize\<close> and of the allocation of the
  work space, \<open>RtlDecompressBufferEx\<close> takes the compressed bytes and the capacity, the Brotli
  stream decoder takes the same and returns its result, \<open>availableIn\<close> and the bytes produced.
  \<open>BrotliError True\<close> is an error code of the allocation range.
\<close>

record coding_env =
  HeapAvailable :: bool
  ProbeState :: nat
  WorkSpace :: "unit res"
  RtlDecompressBufferEx :: "bytes \<Rightarrow> nat \<Rightarrow> bytes res"
  BrotliInstance :: bool
  BrotliDecompressStream :: "bytes \<Rightarrow> nat \<Rightarrow> BrotliDecoderResult \<times> nat \<times> bytes"

section \<open>Checksums\<close>

definition MaxDecodedBytes :: nat where
  "MaxDecodedBytes = 0"

definition MaxDecodeExpansionRatio :: nat where
  "MaxDecodeExpansionRatio = 64"

definition SizeFitsUlong :: "nat \<Rightarrow> bool" where
  "SizeFitsUlong value \<longleftrightarrow> value \<le> 0xFFFFFFFF"

definition ReadLittleEndian32 :: "bytes \<Rightarrow> nat \<Rightarrow> ULONG res" where
  "ReadLittleEndian32 data i =
     rbind (rd data i) (\<lambda>b0. rbind (rd data (i + 1)) (\<lambda>b1.
     rbind (rd data (i + 2)) (\<lambda>b2. rbind (rd data (i + 3)) (\<lambda>b3.
       Ok (ucast b0 OR push_bit 8 (ucast b1) OR push_bit 16 (ucast b2) OR push_bit 24 (ucast b3))))))"

definition ReadBigEndian32 :: "bytes \<Rightarrow> nat \<Rightarrow> ULONG res" where
  "ReadBigEndian32 data i =
     rbind (rd data i) (\<lambda>b0. rbind (rd data (i + 1)) (\<lambda>b1.
     rbind (rd data (i + 2)) (\<lambda>b2. rbind (rd data (i + 3)) (\<lambda>b3.
       Ok (push_bit 24 (ucast b0) OR push_bit 16 (ucast b1) OR push_bit 8 (ucast b2) OR ucast b3)))))"

definition IsDecodedSizeAllowed :: "nat \<Rightarrow> nat \<Rightarrow> bool" where
  "IsDecodedSizeAllowed encodedLength decodedLength =
     (if MaxDecodedBytes \<noteq> 0 \<and> decodedLength > MaxDecodedBytes then False
      else if encodedLength = 0 then decodedLength = 0
      else if encodedLength > MaxSizeT div MaxDecodeExpansionRatio then True
      else decodedLength \<le> encodedLength * MaxDecodeExpansionRatio)"

definition crc32_bit :: "ULONG \<Rightarrow> ULONG" where
  "crc32_bit crc = (let mask = 0 - (crc AND 1) in drop_bit 1 crc XOR (0xEDB88320 AND mask))"

definition crc32_byte :: "ULONG \<Rightarrow> UCHAR \<Rightarrow> ULONG" where
  "crc32_byte crc b = (crc32_bit ^^ 8) (crc XOR ucast b)"

definition ComputeCrc32 :: "bytes \<Rightarrow> ULONG" where
  "ComputeCrc32 data = NOT (foldl crc32_byte 0xFFFFFFFF data)"

definition AdlerModulo :: ULONG where
  "AdlerModulo = 65521"

fun adler_step :: "ULONG \<times> ULONG \<Rightarrow> UCHAR \<Rightarrow> ULONG \<times> ULONG" where
  "adler_step (low, high) b =
     (let low = low + ucast b;
          low = (if low \<ge> AdlerModulo then low - AdlerModulo else low)
      in (low, (high + low) mod AdlerModulo))"

definition ComputeAdler32 :: "bytes \<Rightarrow> ULONG" where
  "ComputeAdler32 data =
     (case foldl adler_step (1, 0) data of (low, high) \<Rightarrow> push_bit 16 high OR low)"

section \<open>Deflate, zlib and gzip\<close>

definition DeflateProbeRaw :: bytes where
  "DeflateProbeRaw = [0x01, 0x05, 0x00, 0xfa, 0xff] @ lit ''khttp''"

definition DeflateProbePlain :: bytes where
  "DeflateProbePlain = lit ''khttp''"

text \<open>
  A null destination is replaced by the one-byte local \<open>emptyOutput\<close>; the callers pass the
  capacity 0 with it.
\<close>

definition DecodeRawDeflateUnchecked :: "coding_env \<Rightarrow> UCHAR span \<Rightarrow> nat \<Rightarrow> bytes res" where
  "DecodeRawDeflateUnchecked env compressed destinationCapacity =
     (if span_null compressed \<or> \<not> SizeFitsUlong (span_len compressed) \<or>
         \<not> SizeFitsUlong destinationCapacity
      then Err STATUS_INVALID_PARAMETER
      else rbind (WorkSpace env) (\<lambda>_.
        case RtlDecompressBufferEx env (span_list compressed) destinationCapacity of
          Ok out \<Rightarrow> Ok out
        | Err s \<Rightarrow> if s = STATUS_BUFFER_TOO_SMALL then Err s else Err STATUS_INVALID_NETWORK_RESPONSE
        | Fault \<Rightarrow> Fault))"

definition ProbeDeflateRuntime :: "coding_env \<Rightarrow> bool" where
  "ProbeDeflateRuntime env =
     (if \<not> HeapAvailable env then False
      else DecodeRawDeflateUnchecked env (Span DeflateProbeRaw) (length DeflateProbePlain) =
           Ok DeflateProbePlain)"

text \<open>
  \<open>g_deflateRuntimeProbeState\<close>: 0 not probed, 1 available, 2 not available, 3 a probe is
  running in another thread, which this one waits for.
\<close>

definition DeflateRuntimeAvailable :: "coding_env \<Rightarrow> bool" where
  "DeflateRuntimeAvailable env =
     (if ProbeState env = 1 then True
      else if ProbeState env = 2 then False
      else ProbeDeflateRuntime env)"

definition DecodeRawDeflate :: "coding_env \<Rightarrow> UCHAR span \<Rightarrow> nat \<Rightarrow> bytes res" where
  "DecodeRawDeflate env compressed destinationCapacity =
     (if \<not> DeflateRuntimeAvailable env then Err STATUS_NOT_SUPPORTED
      else DecodeRawDeflateUnchecked env compressed destinationCapacity)"

text \<open>Reading back \<open>destination[0 .. *decodedLength)\<close>.\<close>

definition read_back :: "bool \<Rightarrow> bytes \<Rightarrow> bytes res" where
  "read_back destinationNull out = (if destinationNull \<and> out \<noteq> [] then Fault else Ok out)"

definition LooksLikeZlibHeader :: "bytes \<Rightarrow> bool" where
  "LooksLikeZlibHeader data =
     (case data of
        cmf # flg # _ \<Rightarrow>
          let header = (push_bit 8 (ucast cmf) OR ucast flg :: USHORT) in
          cmf AND 0x0F = 8 \<and> drop_bit 4 cmf \<le> 7 \<and> flg AND 0x20 = 0 \<and> header mod 31 = 0
      | _ \<Rightarrow> False)"

definition DecodeDeflate :: "coding_env \<Rightarrow> UCHAR span \<Rightarrow> bool \<Rightarrow> nat \<Rightarrow> bytes res" where
  "DecodeDeflate env compressed destinationNull destinationCapacity =
     (if span_null compressed then Err STATUS_INVALID_PARAMETER
      else
        let data = span_list compressed; compressedLength = length data in
        if LooksLikeZlibHeader data then
          if compressedLength < 6 then Err STATUS_INVALID_NETWORK_RESPONSE
          else
            rbind (DecodeRawDeflate env (Span (take (compressedLength - 6) (drop 2 data)))
                     destinationCapacity) (\<lambda>out.
            rbind (ReadBigEndian32 data (compressedLength - 4)) (\<lambda>expectedAdler.
            rbind (read_back destinationNull out) (\<lambda>decoded.
              if expectedAdler = ComputeAdler32 decoded then Ok out
              else Err STATUS_INVALID_NETWORK_RESPONSE)))
        else DecodeRawDeflate env compressed destinationCapacity)"

text \<open>The cursor after the first zero byte at or after \<open>cursor\<close>.\<close>

definition SkipZeroTerminatedField :: "bytes \<Rightarrow> nat \<Rightarrow> nat option" where
  "SkipZeroTerminatedField data cursor =
     (if cursor \<ge> length data then None
      else
        let skipped = takeWhile (\<lambda>b. b \<noteq> 0) (drop cursor data) in
        if cursor + length skipped < length data then Some (cursor + length skipped + 1) else None)"

text \<open>The optional fields of a gzip header, each of which moves the cursor.\<close>

definition gzip_extra :: "bytes \<Rightarrow> UCHAR \<Rightarrow> nat \<Rightarrow> nat res" where
  "gzip_extra data flags cursor =
     (if flags AND 0x04 = 0 then Ok cursor
      else if cursor + 2 > length data then Err STATUS_INVALID_NETWORK_RESPONSE
      else
        rbind (rd data cursor) (\<lambda>b0. rbind (rd data (cursor + 1)) (\<lambda>b1.
          let extraLength = unat (ucast b0 OR push_bit 8 (ucast b1) :: ULONGLONG);
              cursor = cursor + 2
          in if extraLength > length data - cursor then Err STATUS_INVALID_NETWORK_RESPONSE
             else Ok (cursor + extraLength))))"

definition gzip_text :: "bytes \<Rightarrow> UCHAR \<Rightarrow> UCHAR \<Rightarrow> nat \<Rightarrow> nat res" where
  "gzip_text data flags flag cursor =
     (if flags AND flag = 0 then Ok cursor
      else (case SkipZeroTerminatedField data cursor of
              None \<Rightarrow> Err STATUS_INVALID_NETWORK_RESPONSE
            | Some cursor' \<Rightarrow> Ok cursor'))"

definition gzip_header_crc :: "bytes \<Rightarrow> UCHAR \<Rightarrow> nat \<Rightarrow> nat res" where
  "gzip_header_crc data flags cursor =
     (if flags AND 0x02 = 0 then Ok cursor
      else if cursor + 2 > length data then Err STATUS_INVALID_NETWORK_RESPONSE
      else
        rbind (rd data cursor) (\<lambda>b0. rbind (rd data (cursor + 1)) (\<lambda>b1.
          let expectedHeaderCrc = (ucast b0 OR push_bit 8 (ucast b1) :: USHORT);
              actualHeaderCrc = ucast (ComputeCrc32 (take cursor data) AND 0xFFFF)
          in if expectedHeaderCrc \<noteq> actualHeaderCrc then Err STATUS_INVALID_NETWORK_RESPONSE
             else Ok (cursor + 2))))"

definition DecodeGzip :: "coding_env \<Rightarrow> UCHAR span \<Rightarrow> bool \<Rightarrow> nat \<Rightarrow> bytes res" where
  "DecodeGzip env compressed destinationNull destinationCapacity =
     (if span_null compressed then Err STATUS_INVALID_PARAMETER
      else
        let data = span_list compressed; compressedLength = length data in
        if compressedLength < 18 \<or> data ! 0 \<noteq> 0x1F \<or> data ! 1 \<noteq> 0x8B \<or> data ! 2 \<noteq> 8 \<or>
           data ! 3 AND 0xE0 \<noteq> 0
        then Err STATUS_INVALID_NETWORK_RESPONSE
        else
          let flags = data ! 3 in
          rbind (gzip_extra data flags 10) (\<lambda>cursor.
          rbind (gzip_text data flags 0x08 cursor) (\<lambda>cursor.
          rbind (gzip_text data flags 0x10 cursor) (\<lambda>cursor.
          rbind (gzip_header_crc data flags cursor) (\<lambda>cursor.
            if cursor + 8 > compressedLength then Err STATUS_INVALID_NETWORK_RESPONSE
            else
              rbind (DecodeRawDeflate env
                (Span (take (compressedLength - cursor - 8) (drop cursor data))) destinationCapacity)
                (\<lambda>out.
              rbind (ReadLittleEndian32 data (compressedLength - 8)) (\<lambda>expectedCrc.
              rbind (ReadLittleEndian32 data (compressedLength - 4)) (\<lambda>expectedSize.
              rbind (read_back destinationNull out) (\<lambda>decoded.
                if length out > 0xFFFFFFFF \<or> expectedCrc \<noteq> ComputeCrc32 decoded \<or>
                   expectedSize \<noteq> of_nat (length out)
                then Err STATUS_INVALID_NETWORK_RESPONSE
                else Ok out)))))))))"

definition DecodeBrotli :: "coding_env \<Rightarrow> UCHAR span \<Rightarrow> nat \<Rightarrow> bytes res" where
  "DecodeBrotli env compressed destinationCapacity =
     (if span_null compressed then Err STATUS_INVALID_PARAMETER
      else if \<not> BrotliInstance env then Err STATUS_INSUFFICIENT_RESOURCES
      else (case BrotliDecompressStream env (span_list compressed) destinationCapacity of
              (result, availableIn, out) \<Rightarrow>
                if result = BrotliSuccess \<and> availableIn = 0 then Ok out
                else if result = BrotliNeedsMoreOutput then Err STATUS_BUFFER_TOO_SMALL
                else if result = BrotliError True then Err STATUS_INSUFFICIENT_RESOURCES
                else Err STATUS_INVALID_NETWORK_RESPONSE))"

section \<open>The compress coding\<close>

definition CompressClearCode :: nat where "CompressClearCode = 256"
definition CompressFirstFreeCode :: nat where "CompressFirstFreeCode = 257"
definition CompressInitialBits :: nat where "CompressInitialBits = 9"
definition CompressMinBits :: nat where "CompressMinBits = 9"
definition CompressMaxBits :: nat where "CompressMaxBits = 16"

lemmas compress_defs =
  CompressClearCode_def CompressFirstFreeCode_def CompressInitialBits_def CompressMinBits_def
  CompressMaxBits_def

definition AppendOutputByte :: "UCHAR \<Rightarrow> bool \<Rightarrow> nat \<Rightarrow> bytes \<Rightarrow> bytes option" where
  "AppendOutputByte byte destinationNull destinationCapacity out =
     (if length out \<ge> destinationCapacity \<or> destinationNull then None else Some (out @ [byte]))"

fun compress_bits :: "bytes \<Rightarrow> nat \<Rightarrow> nat list \<Rightarrow> ULONGLONG \<Rightarrow> ULONGLONG res" where
  "compress_bits data bitOffset [] parsed = Ok parsed"
| "compress_bits data bitOffset (b # bs) parsed =
     (let absoluteBit = bitOffset + b in
      rbind (rd data (absoluteBit div 8)) (\<lambda>byte.
        let bitValue = drop_bit (absoluteBit mod 8) byte AND 1 in
        compress_bits data bitOffset bs (parsed OR push_bit b (ucast bitValue))))"

definition ReadCompressCode :: "bytes \<Rightarrow> nat \<Rightarrow> nat \<Rightarrow> nat option res" where
  "ReadCompressCode data bitOffset codeBits =
     (if codeBits = 0 \<or> codeBits > CompressMaxBits then Ok None
      else
        let dataBits = length data * 8 in
        if bitOffset > dataBits \<or> codeBits > dataBits - bitOffset then Ok None
        else rbind (compress_bits data bitOffset [0..<codeBits] 0) (\<lambda>parsed. Ok (Some (unat parsed))))"

definition HasCompleteCompressCode :: "nat \<Rightarrow> nat \<Rightarrow> nat \<Rightarrow> bool" where
  "HasCompleteCompressCode dataBits bitOffset codeBits =
     (if codeBits = 0 \<or> dataBits < codeBits - 1 then False
      else bitOffset < dataBits - (codeBits - 1))"

text \<open>
  \<open>ExpandCompressCode\<close> pushes the suffixes of a code on \<open>stack\<close>, last byte first; the result
  is the stack and the byte pushed last, \<open>firstByte\<close>.
\<close>

function expand_loop ::
  "USHORT list \<Rightarrow> bytes \<Rightarrow> nat \<Rightarrow> nat \<Rightarrow> nat \<Rightarrow> bytes \<Rightarrow> (bytes \<times> UCHAR) option res"
where
  "expand_loop prefixTable suffixTable nextCode stackCapacity current stack =
     (if current \<ge> 256 then
        if current \<ge> nextCode \<or> length stack \<ge> stackCapacity then Ok None
        else (case rd suffixTable current of
                Fault \<Rightarrow> Fault | Err s \<Rightarrow> Err s
              | Ok s \<Rightarrow>
                  (case rd prefixTable current of
                     Fault \<Rightarrow> Fault | Err s \<Rightarrow> Err s
                   | Ok p \<Rightarrow>
                       expand_loop prefixTable suffixTable nextCode stackCapacity (unat p)
                         (stack @ [s])))
      else if length stack \<ge> stackCapacity then Ok None
      else Ok (Some (stack @ [of_nat current], of_nat current)))"
  by pat_completeness auto
termination
  by (relation "measure (\<lambda>(prefixTable, suffixTable, nextCode, cap, current, stack). cap - length stack)") auto

declare expand_loop.simps [simp del]

definition ExpandCompressCode ::
  "nat \<Rightarrow> USHORT list \<Rightarrow> bytes \<Rightarrow> nat \<Rightarrow> nat \<Rightarrow> (bytes \<times> UCHAR) option res"
where
  "ExpandCompressCode code prefixTable suffixTable nextCode stackCapacity =
     (if stackCapacity = 0 then Ok None
      else expand_loop prefixTable suffixTable nextCode stackCapacity code [])"

fun emit_loop :: "bytes \<Rightarrow> bool \<Rightarrow> nat \<Rightarrow> bytes \<Rightarrow> bytes res" where
  "emit_loop [] destinationNull destinationCapacity out = Ok out"
| "emit_loop (b # bs) destinationNull destinationCapacity out =
     (case AppendOutputByte b destinationNull destinationCapacity out of
        None \<Rightarrow> Err STATUS_BUFFER_TOO_SMALL
      | Some out' \<Rightarrow> emit_loop bs destinationNull destinationCapacity out')"

definition EmitReverseStack :: "bytes \<Rightarrow> bool \<Rightarrow> nat \<Rightarrow> bytes \<Rightarrow> bytes res" where
  "EmitReverseStack stack destinationNull destinationCapacity out =
     emit_loop (rev stack) destinationNull destinationCapacity out"

text \<open>
  \<open>*bitOffset - 1 + groupBits\<close> is computed modulo \<open>2 ^ 64\<close>, so that its value at
  \<open>*bitOffset = 0\<close> is \<open>groupBits - 1\<close>.
\<close>

definition AlignCompressBitOffset :: "nat \<Rightarrow> nat \<Rightarrow> nat" where
  "AlignCompressBitOffset bitOffset codeBits =
     (if codeBits = 0 then bitOffset
      else
        let groupBits = codeBits * 8; current = bitOffset + groupBits - 1
        in current - current mod groupBits)"

record compress_state =
  bitOffset :: nat
  codeBits :: nat
  maxCodeForBits :: nat
  nextCode :: nat
  oldCode :: "nat option"
  prefixTable :: "USHORT list"
  suffixTable :: bytes
  compressOut :: bytes

text \<open>The start of an iteration: widening the code, which may leave too few bits for a code.\<close>

definition compress_widen :: "nat \<Rightarrow> nat \<Rightarrow> compress_state \<Rightarrow> compress_state option" where
  "compress_widen dataBits maxBits st =
     (if \<not> HasCompleteCompressCode dataBits (bitOffset st) (codeBits st) then None
      else if nextCode st > maxCodeForBits st \<and> codeBits st < maxBits then
        let st' = st\<lparr>bitOffset := AlignCompressBitOffset (bitOffset st) (codeBits st),
                     codeBits := codeBits st + 1,
                     maxCodeForBits := 2 ^ (codeBits st + 1) - 1\<rparr>
        in if \<not> HasCompleteCompressCode dataBits (bitOffset st') (codeBits st') then None
           else Some st'
      else Some st)"

text \<open>Writing the bytes of one code: the stack and output, and the first byte of the code.\<close>

definition compress_emit ::
  "nat \<Rightarrow> bool \<Rightarrow> nat \<Rightarrow> nat \<Rightarrow> compress_state \<Rightarrow> (bytes \<times> UCHAR) res"
where
  "compress_emit maxCodes destinationNull destinationCapacity code st =
     (if code < nextCode st then
        rbind (ExpandCompressCode code (prefixTable st) (suffixTable st) (nextCode st) maxCodes) (\<lambda>e.
          case e of
            None \<Rightarrow> Err STATUS_INVALID_NETWORK_RESPONSE
          | Some (stack, currentFirst) \<Rightarrow>
              rbind (EmitReverseStack stack destinationNull destinationCapacity (compressOut st))
                (\<lambda>out. Ok (out, currentFirst)))
      else (case oldCode st of
              None \<Rightarrow> Err STATUS_INVALID_NETWORK_RESPONSE
            | Some old \<Rightarrow>
                if code \<noteq> nextCode st then Err STATUS_INVALID_NETWORK_RESPONSE
                else
                  rbind (ExpandCompressCode old (prefixTable st) (suffixTable st) (nextCode st) maxCodes)
                    (\<lambda>e.
                    case e of
                      None \<Rightarrow> Err STATUS_INVALID_NETWORK_RESPONSE
                    | Some (stack, currentFirst) \<Rightarrow>
                        rbind (EmitReverseStack stack destinationNull destinationCapacity
                                 (compressOut st)) (\<lambda>out.
                          case AppendOutputByte currentFirst destinationNull destinationCapacity out of
                            None \<Rightarrow> Err STATUS_BUFFER_TOO_SMALL
                          | Some out' \<Rightarrow> Ok (out', currentFirst)))))"

definition compress_learn :: "nat \<Rightarrow> UCHAR \<Rightarrow> compress_state \<Rightarrow> compress_state res" where
  "compress_learn maxCodes currentFirst st =
     (case oldCode st of
        None \<Rightarrow> Ok st
      | Some old \<Rightarrow>
          if nextCode st < maxCodes then
            rbind (wr (prefixTable st) (nextCode st) (of_nat old)) (\<lambda>prefixTable'.
            rbind (wr (suffixTable st) (nextCode st) currentFirst) (\<lambda>suffixTable'.
              Ok (st\<lparr>prefixTable := prefixTable', suffixTable := suffixTable', nextCode := nextCode st + 1\<rparr>)))
          else Ok st)"

definition compress_code ::
  "bool \<Rightarrow> nat \<Rightarrow> bool \<Rightarrow> nat \<Rightarrow> nat \<Rightarrow> compress_state \<Rightarrow> compress_state res"
where
  "compress_code blockMode maxCodes destinationNull destinationCapacity code st =
     (if blockMode \<and> code = CompressClearCode then
        Ok (st\<lparr>codeBits := CompressInitialBits, maxCodeForBits := 2 ^ CompressInitialBits - 1,
               nextCode := CompressFirstFreeCode, oldCode := None\<rparr>)
      else
        rbind (compress_emit maxCodes destinationNull destinationCapacity code st)
          (\<lambda>(out, currentFirst).
        rbind (compress_learn maxCodes currentFirst st) (\<lambda>st'.
          Ok (st'\<lparr>oldCode := Some code, compressOut := out\<rparr>))))"

definition compress_step ::
  "bytes \<Rightarrow> bool \<Rightarrow> nat \<Rightarrow> nat \<Rightarrow> bool \<Rightarrow> nat \<Rightarrow> compress_state \<Rightarrow> compress_state option res"
where
  "compress_step data blockMode maxBits maxCodes destinationNull destinationCapacity st =
     (case compress_widen (length data * 8) maxBits st of
        None \<Rightarrow> Ok None
      | Some st1 \<Rightarrow>
          rbind (ReadCompressCode data (bitOffset st1) (codeBits st1)) (\<lambda>c.
            case c of
              None \<Rightarrow> Err STATUS_INVALID_NETWORK_RESPONSE
            | Some code \<Rightarrow>
                rbind (compress_code blockMode maxCodes destinationNull destinationCapacity code
                         (st1\<lparr>bitOffset := bitOffset st1 + codeBits st1\<rparr>)) (\<lambda>st2. Ok (Some st2))))"

lemma AlignCompressBitOffset_ge: "b \<le> AlignCompressBitOffset b n"
proof (cases "n = 0")
  case False
  let ?g = "n * 8" and ?c = "b + n * 8 - 1"
  have "?c mod ?g < ?g" using False by simp
  then have "b \<le> ?c - ?c mod ?g" by linarith
  then show ?thesis using False unfolding AlignCompressBitOffset_def Let_def by presburger
qed (simp add: AlignCompressBitOffset_def)

lemma compress_widen_Some:
  assumes "compress_widen dataBits maxBits st = Some st'"
  shows "bitOffset st \<le> bitOffset st'" "0 < codeBits st'"
    "bitOffset st' + codeBits st' \<le> dataBits"
    "prefixTable st' = prefixTable st" "suffixTable st' = suffixTable st" "nextCode st' = nextCode st"
    "oldCode st' = oldCode st" "compressOut st' = compressOut st"
    "codeBits st \<le> maxBits \<Longrightarrow> codeBits st' \<le> maxBits"
    "codeBits st \<le> codeBits st'"
  using assms
  by (auto simp: compress_widen_def HasCompleteCompressCode_def AlignCompressBitOffset_ge Let_def
      split: if_splits)

lemma compress_learn_bitOffset:
  "compress_learn maxCodes b st = Ok st' \<Longrightarrow> bitOffset st' = bitOffset st"
  by (auto simp: compress_learn_def split: option.splits if_splits)

lemma compress_code_bitOffset:
  "compress_code bm mc dn dc code st = Ok st' \<Longrightarrow> bitOffset st' = bitOffset st"
  by (auto simp: compress_code_def dest!: compress_learn_bitOffset split: if_splits)

lemma compress_step_advances:
  assumes "compress_step data bm mb mc dn dc st = Ok (Some st')"
  shows "bitOffset st < bitOffset st' \<and> bitOffset st' \<le> length data * 8"
proof -
  obtain st1 where w: "compress_widen (length data * 8) mb st = Some st1"
    using assms by (auto simp: compress_step_def split: option.splits)
  then obtain code where
    "compress_code bm mc dn dc code (st1\<lparr>bitOffset := bitOffset st1 + codeBits st1\<rparr>) = Ok st'"
    using assms by (auto simp: compress_step_def split: option.splits)
  then have "bitOffset st' = bitOffset st1 + codeBits st1"
    using compress_code_bitOffset by fastforce
  then show ?thesis using compress_widen_Some [OF w] by linarith
qed

function compress_loop ::
  "bytes \<Rightarrow> bool \<Rightarrow> nat \<Rightarrow> nat \<Rightarrow> bool \<Rightarrow> nat \<Rightarrow> compress_state \<Rightarrow> bytes res"
where
  "compress_loop data blockMode maxBits maxCodes destinationNull destinationCapacity st =
     (case compress_step data blockMode maxBits maxCodes destinationNull destinationCapacity st of
        Fault \<Rightarrow> Fault
      | Err s \<Rightarrow> Err s
      | Ok None \<Rightarrow> Ok (compressOut st)
      | Ok (Some st') \<Rightarrow>
          compress_loop data blockMode maxBits maxCodes destinationNull destinationCapacity st')"
  by pat_completeness auto
termination
  by (relation "measure (\<lambda>(data, bm, mb, mc, dn, dc, st). length data * 8 - bitOffset st)")
     (auto dest!: compress_step_advances)

declare compress_loop.simps [simp del]

text \<open>The tables after the loop that sets the 256 single-byte entries.\<close>

definition compress_prefixes :: "nat \<Rightarrow> USHORT list" where
  "compress_prefixes maxCodes = replicate maxCodes 0"

definition compress_suffixes :: "nat \<Rightarrow> bytes" where
  "compress_suffixes maxCodes = overlay (replicate maxCodes 0) 0 (map of_nat [0..<256])"

definition DecodeCompressWithTables :: "bytes \<Rightarrow> bool \<Rightarrow> nat \<Rightarrow> nat \<Rightarrow> bytes res" where
  "DecodeCompressWithTables compressed destinationNull destinationCapacity maxCodes =
     (if length compressed < 3 \<or> maxCodes < 2 ^ CompressInitialBits then Err STATUS_INVALID_PARAMETER
      else if compressed ! 0 \<noteq> 0x1F \<or> compressed ! 1 \<noteq> 0x9D
      then Err STATUS_INVALID_NETWORK_RESPONSE
      else
        let flags = compressed ! 2; maxBits = unat (flags AND 0x1F) in
        if maxBits < CompressMinBits \<or> maxBits > CompressMaxBits
        then Err STATUS_INVALID_NETWORK_RESPONSE
        else
          let blockMode = (flags AND 0x80 \<noteq> 0) in
          if 2 ^ maxBits \<noteq> maxCodes then Err STATUS_INVALID_PARAMETER
          else compress_loop (drop 3 compressed) blockMode maxBits maxCodes destinationNull
                 destinationCapacity
                 \<lparr>bitOffset = 0, codeBits = CompressInitialBits,
                  maxCodeForBits = 2 ^ CompressInitialBits - 1,
                  nextCode = (if blockMode then CompressFirstFreeCode else CompressClearCode),
                  oldCode = None, prefixTable = compress_prefixes maxCodes,
                  suffixTable = compress_suffixes maxCodes, compressOut = []\<rparr>)"

definition DecodeCompress :: "coding_env \<Rightarrow> UCHAR span \<Rightarrow> bool \<Rightarrow> nat \<Rightarrow> bytes res" where
  "DecodeCompress env compressed destinationNull destinationCapacity =
     (if span_null compressed then Err STATUS_INVALID_PARAMETER
      else
        let data = span_list compressed in
        if length data < 3 \<or> data ! 0 \<noteq> 0x1F \<or> data ! 1 \<noteq> 0x9D
        then Err STATUS_INVALID_NETWORK_RESPONSE
        else
          let maxBits = unat (data ! 2 AND 0x1F) in
          if maxBits < CompressMinBits \<or> maxBits > CompressMaxBits
          then Err STATUS_INVALID_NETWORK_RESPONSE
          else if \<not> HeapAvailable env then Err STATUS_INSUFFICIENT_RESOURCES
          else DecodeCompressWithTables data destinationNull destinationCapacity (2 ^ maxBits))"

section \<open>The chain of codings\<close>

datatype HttpCoding = Identity | Gzip | Deflate | Brotli | Compress

text \<open>
  The buffer a body pointer points into; \<open>NoBuffer\<close> is the null pointer. The decoded and the
  scratch buffer of a call are distinct buffers.
\<close>

datatype buffer_loc = NoBuffer | WireBuffer | DecodedBuffer | ScratchBuffer

type_synonym located = "buffer_loc \<times> bytes"

fun as_span :: "located \<Rightarrow> UCHAR span" where
  "as_span (loc, b) = (if loc = NoBuffer then NullSpan (length b) else Span b)"

record HttpCodingDecodeBuffers =
  DecodedBodyNull :: bool
  DecodedBodyCapacity :: nat
  ScratchBodyNull :: bool
  ScratchBodyCapacity :: nat

record HttpCodingDecodeResult =
  CodedBody :: located
  AppliedCoding :: bool

definition HasTransform :: "HttpCoding \<Rightarrow> bool" where
  "HasTransform coding \<longleftrightarrow> coding \<noteq> Identity"

definition SelectDestination ::
  "buffer_loc \<Rightarrow> HttpCodingDecodeBuffers \<Rightarrow> buffer_loc \<times> nat"
where
  "SelectDestination current buffers =
     (if \<not> DecodedBodyNull buffers \<and> current \<noteq> DecodedBuffer
      then (DecodedBuffer, DecodedBodyCapacity buffers)
      else if \<not> ScratchBodyNull buffers \<and> current \<noteq> ScratchBuffer
      then (ScratchBuffer, ScratchBodyCapacity buffers)
      else (NoBuffer, 0))"

definition DecodeOne ::
  "coding_env \<Rightarrow> HttpCoding \<Rightarrow> UCHAR span \<Rightarrow> bool \<Rightarrow> nat \<Rightarrow> bytes res"
where
  "DecodeOne env coding source destinationNull destinationCapacity =
     (if span_null source \<and> span_len source \<noteq> 0 then Err STATUS_INVALID_PARAMETER
      else (case coding of
              Gzip \<Rightarrow> DecodeGzip env source destinationNull destinationCapacity
            | Deflate \<Rightarrow> DecodeDeflate env source destinationNull destinationCapacity
            | Brotli \<Rightarrow> DecodeBrotli env source destinationCapacity
            | Compress \<Rightarrow> DecodeCompress env source destinationNull destinationCapacity
            | Identity \<Rightarrow> Ok (span_list source)))"

fun chain_loop ::
  "coding_env \<Rightarrow> HttpCodingDecodeBuffers \<Rightarrow> HttpCoding list \<Rightarrow> located \<Rightarrow> bool \<Rightarrow> (located \<times> bool) res"
where
  "chain_loop env buffers [] current transformed = Ok (current, transformed)"
| "chain_loop env buffers (coding # codings) current transformed =
     (if \<not> HasTransform coding then chain_loop env buffers codings current transformed
      else
        let (destination, destinationCapacity) = SelectDestination (fst current) buffers;
            decodeCapacity = (if MaxDecodedBytes \<noteq> 0 \<and> destinationCapacity > MaxDecodedBytes
                              then MaxDecodedBytes else destinationCapacity)
        in rbind (DecodeOne env coding (as_span current) (destination = NoBuffer) decodeCapacity)
             (\<lambda>decoded.
               if \<not> IsDecodedSizeAllowed (length (snd current)) (length decoded)
               then Err STATUS_INVALID_NETWORK_RESPONSE
               else chain_loop env buffers codings
                      (if decoded = [] then NoBuffer else destination, decoded) True))"

text \<open>
  The end of a decode: a body that is not yet in the decoded buffer is copied there. The same
  code stands at the end of \<open>HttpTransferCoding::DecodeResponseBody\<close>.
\<close>

definition settle_body :: "HttpCodingDecodeBuffers \<Rightarrow> bool \<Rightarrow> located \<Rightarrow> located res" where
  "settle_body buffers transformed current =
     (if transformed \<and> snd current \<noteq> [] \<and> \<not> DecodedBodyNull buffers \<and> fst current \<noteq> DecodedBuffer
      then if length (snd current) > DecodedBodyCapacity buffers then Err STATUS_BUFFER_TOO_SMALL
           else if fst current = NoBuffer then Fault
           else Ok (DecodedBuffer, snd current)
      else Ok (if snd current = [] then (NoBuffer, []) else current))"

definition DecodeChainReverse ::
  "coding_env \<Rightarrow> HttpCoding list \<Rightarrow> located \<Rightarrow> HttpCodingDecodeBuffers \<Rightarrow> HttpCodingDecodeResult res"
where
  "DecodeChainReverse env codings body buffers =
     (if fst body = NoBuffer \<and> snd body \<noteq> [] then Err STATUS_INVALID_PARAMETER
      else if codings = [] \<or> snd body = []
      then Ok \<lparr>CodedBody = (if snd body = [] then (NoBuffer, []) else body), AppliedCoding = False\<rparr>
      else
        rbind (chain_loop env buffers (rev codings) body False) (\<lambda>(current, transformed).
        rbind (settle_body buffers transformed current) (\<lambda>settled.
          Ok \<lparr>CodedBody = settled, AppliedCoding = transformed\<rparr>)))"

section \<open>Safety of the compress decoder\<close>

lemma compress_bits_no_fault:
  "\<forall>b \<in> set bs. off + b < length data * 8 \<Longrightarrow> compress_bits data off bs parsed \<noteq> Fault"
  by (induction bs arbitrary: parsed) (auto simp: Let_def rd_def)

lemma compress_bits_not_Err: "compress_bits data off bs parsed \<noteq> Err s"
  by (induction bs arbitrary: parsed) (auto simp: Let_def rbind_eq_Err)

lemma ReadCompressCode_Some:
  assumes "0 < n" "n \<le> CompressMaxBits" "off + n \<le> length data * 8"
  shows "\<exists>code. ReadCompressCode data off n = Ok (Some code)"
proof -
  have "compress_bits data off [0..<n] 0 \<noteq> Fault"
    by (rule compress_bits_no_fault) (use assms in auto)
  then obtain p where "compress_bits data off [0..<n] 0 = Ok p"
    using compress_bits_not_Err by (cases "compress_bits data off [0..<n] 0") auto
  then show ?thesis using assms by (auto simp: ReadCompressCode_def Let_def)
qed

lemma expand_loop_no_fault:
  assumes "n \<le> length pt" "n \<le> length sfx"
  shows "expand_loop pt sfx n cap current stack \<noteq> Fault \<and>
         (\<forall>s. expand_loop pt sfx n cap current stack \<noteq> Err s)"
  using assms
proof (induction pt sfx n cap current stack rule: expand_loop.induct)
  case (1 pt sfx n cap current stack)
  show ?case
  proof (cases "256 \<le> current \<and> current < n \<and> length stack < cap")
    case True
    then have r: "rd sfx current = Ok (sfx ! current)" "rd pt current = Ok (pt ! current)"
      using "1.prems" by simp_all
    then show ?thesis
      using True "1.IH" [OF _ _ r] "1.prems" by (subst (1 2) expand_loop.simps) simp
  next
    case False
    then show ?thesis by (auto simp: expand_loop.simps [of pt])
  qed
qed

lemma emit_loop_cases:
  "emit_loop bs dn cap out = (if bs \<noteq> [] \<and> (dn \<or> length out + length bs > cap)
     then Err STATUS_BUFFER_TOO_SMALL else Ok (out @ bs))"
  by (induction bs dn cap out rule: emit_loop.induct) (auto simp: AppendOutputByte_def)

definition compress_inv :: "nat \<Rightarrow> nat \<Rightarrow> nat \<Rightarrow> compress_state \<Rightarrow> bool" where
  "compress_inv maxBits maxCodes cap st \<longleftrightarrow>
     length (prefixTable st) = maxCodes \<and> length (suffixTable st) = maxCodes \<and>
     nextCode st \<le> maxCodes \<and> 0 < codeBits st \<and> codeBits st \<le> maxBits \<and>
     length (compressOut st) \<le> cap"

lemma ExpandCompressCode_Ok:
  assumes "n \<le> length pt" "n \<le> length sfx"
  shows "\<exists>e. ExpandCompressCode code pt sfx n cap = Ok e"
  using expand_loop_no_fault [OF assms, of cap code "[]"]
  by (cases "expand_loop pt sfx n cap code []") (auto simp: ExpandCompressCode_def)

lemma EmitReverseStack_cases:
  "EmitReverseStack stack dn cap out \<noteq> Fault"
  "EmitReverseStack stack dn cap out = Ok out' \<Longrightarrow> length out \<le> cap \<Longrightarrow> length out' \<le> cap"
  by (auto simp: EmitReverseStack_def emit_loop_cases split: if_splits)

lemma compress_emit_safe:
  assumes inv: "compress_inv maxBits maxCodes cap st"
  shows "compress_emit maxCodes dn cap code st \<noteq> Fault"
    "compress_emit maxCodes dn cap code st = Ok (out, b) \<Longrightarrow> length out \<le> cap"
proof -
  have len: "nextCode st \<le> length (prefixTable st)" "nextCode st \<le> length (suffixTable st)"
    and out: "length (compressOut st) \<le> cap"
    using inv by (simp_all add: compress_inv_def)
  have e: "\<exists>e. ExpandCompressCode c (prefixTable st) (suffixTable st) (nextCode st) maxCodes = Ok e"
    for c by (rule ExpandCompressCode_Ok [OF len])
  obtain e1 where e1: "ExpandCompressCode code (prefixTable st) (suffixTable st) (nextCode st)
      maxCodes = Ok e1" using e by blast
  show "compress_emit maxCodes dn cap code st \<noteq> Fault"
    using e1 e [of "the (oldCode st)"]
    by (auto simp: compress_emit_def rbind_eq_Fault EmitReverseStack_cases(1) split: option.splits)
  show "length out \<le> cap" if "compress_emit maxCodes dn cap code st = Ok (out, b)"
    using that out
    by (auto simp: compress_emit_def AppendOutputByte_def dest!: EmitReverseStack_cases(2)
        split: option.splits if_splits)
qed

lemma compress_learn_inv:
  assumes "compress_inv maxBits maxCodes cap st"
  shows "\<exists>st'. compress_learn maxCodes b st = Ok st' \<and> compress_inv maxBits maxCodes cap st'"
  using assms by (auto simp: compress_learn_def compress_inv_def wr_def split: option.split)

lemma compress_code_safe:
  assumes inv: "compress_inv maxBits maxCodes cap st"
    and mc: "CompressInitialBits \<le> maxBits" "CompressFirstFreeCode \<le> maxCodes"
  shows "compress_code bm maxCodes dn cap code st \<noteq> Fault \<and>
    (\<forall>st'. compress_code bm maxCodes dn cap code st = Ok st' \<longrightarrow> compress_inv maxBits maxCodes cap st')"
proof (cases "bm \<and> code = CompressClearCode")
  case True
  then show ?thesis
    using inv mc by (auto simp: compress_code_def compress_inv_def compress_defs)
next
  case False
  show ?thesis
  proof (cases "compress_emit maxCodes dn cap code st")
    case (Ok r)
    obtain out b where r: "r = (out, b)" by (cases r)
    have out: "length out \<le> cap" using compress_emit_safe(2) [OF inv] Ok r by simp
    obtain st' where "compress_learn maxCodes b st = Ok st'" "compress_inv maxBits maxCodes cap st'"
      using compress_learn_inv [OF inv] by blast
    then show ?thesis using False Ok r out by (auto simp: compress_code_def compress_inv_def)
  qed (use False compress_emit_safe(1) [OF inv] in \<open>auto simp: compress_code_def\<close>)
qed

lemma compress_step_safe:
  assumes inv: "compress_inv maxBits maxCodes cap st"
    and mc: "CompressInitialBits \<le> maxBits" "maxBits \<le> CompressMaxBits" "CompressFirstFreeCode \<le> maxCodes"
  shows "compress_step data bm maxBits maxCodes dn cap st \<noteq> Fault \<and>
    (\<forall>st'. compress_step data bm maxBits maxCodes dn cap st = Ok (Some st') \<longrightarrow>
       compress_inv maxBits maxCodes cap st')"
proof (cases "compress_widen (length data * 8) maxBits st")
  case None
  then show ?thesis by (simp add: compress_step_def)
next
  case (Some st1)
  note w = compress_widen_Some [OF Some]
  have bits: "codeBits st1 \<le> maxBits" using w(9) inv by (simp add: compress_inv_def)
  let ?st1 = "st1\<lparr>bitOffset := bitOffset st1 + codeBits st1\<rparr>"
  have inv1: "compress_inv maxBits maxCodes cap ?st1"
    using inv w bits by (simp add: compress_inv_def)
  obtain code where "ReadCompressCode data (bitOffset st1) (codeBits st1) = Ok (Some code)"
    using ReadCompressCode_Some w(2,3) bits mc(2) by (meson le_trans)
  then show ?thesis
    using Some compress_code_safe [OF inv1 mc(1,3), of bm dn code]
    by (auto simp: compress_step_def rbind_eq_Fault)
qed

lemma compress_loop_safe:
  assumes "compress_inv maxBits maxCodes cap st"
    and mc: "CompressInitialBits \<le> maxBits" "maxBits \<le> CompressMaxBits" "CompressFirstFreeCode \<le> maxCodes"
  shows "compress_loop data bm maxBits maxCodes dn cap st \<noteq> Fault \<and>
    (\<forall>out. compress_loop data bm maxBits maxCodes dn cap st = Ok out \<longrightarrow> length out \<le> cap)"
  using assms
proof (induction data bm maxBits maxCodes dn cap st rule: compress_loop.induct)
  case (1 data bm maxBits maxCodes dn cap st)
  note safe = compress_step_safe [OF "1.prems", of data bm dn]
  show ?case
  proof (cases "compress_step data bm maxBits maxCodes dn cap st")
    case (Ok o')
    then show ?thesis
    proof (cases o')
      case None
      then show ?thesis using Ok "1.prems"(1)
        by (auto simp: compress_loop.simps [of data] compress_inv_def)
    next
      case (Some st')
      then have "compress_inv maxBits maxCodes cap st'" using safe Ok by simp
      then show ?thesis
        using 1 Ok Some by (subst (1 2) compress_loop.simps) simp
    qed
  qed (use safe in \<open>auto simp: compress_loop.simps [of data]\<close>)
qed

lemma DecodeCompress_safe:
  "DecodeCompress env src dn cap \<noteq> Fault \<and>
   (\<forall>out. DecodeCompress env src dn cap = Ok out \<longrightarrow> length out \<le> cap)"
proof (cases "DecodeCompress env src dn cap = Err STATUS_INVALID_PARAMETER \<or>
    DecodeCompress env src dn cap = Err STATUS_INVALID_NETWORK_RESPONSE \<or>
    DecodeCompress env src dn cap = Err STATUS_INSUFFICIENT_RESOURCES")
  case True
  then show ?thesis by auto
next
  case False
  define data where "data = span_list src"
  define bits where "bits = unat (data ! 2 AND 0x1F)"
  let ?bm = "data ! 2 AND 0x80 \<noteq> 0"
  let ?st = "\<lparr>bitOffset = 0, codeBits = CompressInitialBits,
      maxCodeForBits = 2 ^ CompressInitialBits - 1,
      nextCode = (if ?bm then CompressFirstFreeCode else CompressClearCode), oldCode = None,
      prefixTable = compress_prefixes (2 ^ bits), suffixTable = compress_suffixes (2 ^ bits),
      compressOut = []\<rparr>"
  have b: "9 \<le> bits" "bits \<le> 16"
    and eq: "DecodeCompress env src dn cap = compress_loop (drop 3 data) ?bm bits (2 ^ bits) dn cap ?st"
    using False
    by (auto simp: DecodeCompress_def DecodeCompressWithTables_def Let_def data_def bits_def
        compress_defs split: if_splits)
  have "(2::nat) ^ 9 \<le> 2 ^ bits" using b by (intro power_increasing) auto
  then have "compress_inv bits (2 ^ bits) cap ?st" "CompressFirstFreeCode \<le> 2 ^ bits"
    using b by (auto simp: compress_inv_def compress_prefixes_def compress_suffixes_def
        compress_defs)
  then show ?thesis
    unfolding eq using b by (intro compress_loop_safe) (simp_all add: compress_defs)
qed

section \<open>Safety of the chain\<close>

text \<open>
  What the callers rely on in the external decoders: they return, and never report more bytes
  than the capacity they were given.
\<close>

definition env_ok :: "coding_env \<Rightarrow> bool" where
  "env_ok env \<longleftrightarrow>
     WorkSpace env \<noteq> Fault \<and>
     (\<forall>src cap. RtlDecompressBufferEx env src cap \<noteq> Fault) \<and>
     (\<forall>src cap out. RtlDecompressBufferEx env src cap = Ok out \<longrightarrow> length out \<le> cap) \<and>
     (\<forall>src cap. length (snd (snd (BrotliDecompressStream env src cap))) \<le> cap)"

lemma ReadLittleEndian32_no_fault: "i + 4 \<le> length data \<Longrightarrow> ReadLittleEndian32 data i \<noteq> Fault"
  by (simp add: ReadLittleEndian32_def)

lemma ReadBigEndian32_no_fault: "i + 4 \<le> length data \<Longrightarrow> ReadBigEndian32 data i \<noteq> Fault"
  by (simp add: ReadBigEndian32_def)

lemma DecodeRawDeflate_safe:
  assumes "env_ok env"
  shows "DecodeRawDeflate env src cap \<noteq> Fault"
    "DecodeRawDeflate env src cap = Ok out \<Longrightarrow> length out \<le> cap"
  using assms
  by (auto simp: DecodeRawDeflate_def DecodeRawDeflateUnchecked_def env_ok_def rbind_eq_Fault
      split: res.splits if_splits)

lemma read_back_Ok: "(dn \<longrightarrow> cap = 0) \<Longrightarrow> length out \<le> cap \<Longrightarrow> read_back dn out = Ok out"
  by (auto simp: read_back_def)

lemma read_back_same: "read_back dn out = Ok d \<Longrightarrow> d = out"
  by (simp add: read_back_def split: if_splits)

lemma DecodeDeflate_safe:
  assumes env: "env_ok env" and dn: "dn \<longrightarrow> cap = 0"
  shows "DecodeDeflate env src dn cap \<noteq> Fault"
    "DecodeDeflate env src dn cap = Ok out \<Longrightarrow> length out \<le> cap"
  using DecodeRawDeflate_safe [OF env] read_back_Ok [OF dn]
  by (auto simp: DecodeDeflate_def Let_def rbind_eq_Fault ReadBigEndian32_no_fault split: if_splits)

lemma SkipZeroTerminatedField_bound: "SkipZeroTerminatedField data c = Some c' \<Longrightarrow> c' \<le> length data"
  by (auto simp: SkipZeroTerminatedField_def Let_def split: if_splits)

lemma gzip_extra_bound:
  "gzip_extra data flags c \<noteq> Fault"
  "gzip_extra data flags c = Ok c' \<Longrightarrow> c \<le> length data \<Longrightarrow> c' \<le> length data"
  by (auto simp: gzip_extra_def Let_def rbind_eq_Fault rd_def split: if_splits)

lemma gzip_text_bound:
  "gzip_text data flags flag c \<noteq> Fault"
  "gzip_text data flags flag c = Ok c' \<Longrightarrow> c \<le> length data \<Longrightarrow> c' \<le> length data"
  by (auto simp: gzip_text_def dest: SkipZeroTerminatedField_bound split: if_splits option.splits)

lemma gzip_header_crc_no_fault: "gzip_header_crc data flags c \<noteq> Fault"
  by (auto simp: gzip_header_crc_def Let_def rbind_eq_Fault rd_def split: if_splits)

text \<open>Every body that \<open>DecodeGzip\<close> accepts passes through this point.\<close>

lemma DecodeGzip_Ok:
  assumes "DecodeGzip env src dn cap = Ok out"
  obtains data cursor where "src = Span data" "18 \<le> length data" "cursor + 8 \<le> length data"
    "data ! 0 = 0x1F" "data ! 1 = 0x8B" "data ! 2 = 8"
    "DecodeRawDeflate env (Span (take (length data - cursor - 8) (drop cursor data))) cap = Ok out"
    "ReadLittleEndian32 data (length data - 8) = Ok (ComputeCrc32 out)"
    "ReadLittleEndian32 data (length data - 4) = Ok (of_nat (length out))"
    "length out \<le> 0xFFFFFFFF"
proof (cases src)
  case (NullSpan n)
  then show ?thesis using assms by (simp add: DecodeGzip_def)
next
  case (Span data)
  then obtain cursor where
    "18 \<le> length data" "cursor + 8 \<le> length data" "data ! 0 = 0x1F" "data ! 1 = 0x8B" "data ! 2 = 8"
    "DecodeRawDeflate env (Span (take (length data - cursor - 8) (drop cursor data))) cap = Ok out"
    "ReadLittleEndian32 data (length data - 8) = Ok (ComputeCrc32 out)"
    "ReadLittleEndian32 data (length data - 4) = Ok (of_nat (length out))"
    "length out \<le> 0xFFFFFFFF"
    using assms by (auto simp: DecodeGzip_def Let_def not_less dest!: read_back_same split: if_splits)
  then show ?thesis using that Span by blast
qed

lemma DecodeGzip_safe:
  assumes env: "env_ok env" and dn: "dn \<longrightarrow> cap = 0"
  shows "DecodeGzip env src dn cap \<noteq> Fault"
    "DecodeGzip env src dn cap = Ok out \<Longrightarrow> length out \<le> cap"
proof -
  show "DecodeGzip env src dn cap \<noteq> Fault"
    using DecodeRawDeflate_safe [OF env] read_back_Ok [OF dn]
    by (auto simp: DecodeGzip_def Let_def rbind_eq_Fault ReadLittleEndian32_no_fault
        gzip_extra_bound(1) gzip_text_bound(1) gzip_header_crc_no_fault split: if_splits)
  show "length out \<le> cap" if "DecodeGzip env src dn cap = Ok out"
    using DecodeGzip_Ok [OF that] DecodeRawDeflate_safe(2) [OF env] by metis
qed

lemma DecodeBrotli_safe:
  assumes "env_ok env"
  shows "DecodeBrotli env src cap \<noteq> Fault"
    "DecodeBrotli env src cap = Ok out \<Longrightarrow> length out \<le> cap"
proof -
  show "DecodeBrotli env src cap \<noteq> Fault"
    by (auto simp: DecodeBrotli_def split: prod.splits)
  show "length out \<le> cap" if "DecodeBrotli env src cap = Ok out"
  proof -
    have "length (snd (snd (BrotliDecompressStream env (span_list src) cap))) \<le> cap"
      using assms by (simp add: env_ok_def)
    then show ?thesis using that by (auto simp: DecodeBrotli_def split: if_splits prod.splits)
  qed
qed

lemma DecodeOne_safe:
  assumes env: "env_ok env" and dn: "dn \<longrightarrow> cap = 0"
  shows "DecodeOne env coding src dn cap \<noteq> Fault"
    "HasTransform coding \<Longrightarrow> DecodeOne env coding src dn cap = Ok out \<Longrightarrow> length out \<le> cap"
  using DecodeGzip_safe [OF env dn] DecodeDeflate_safe [OF env dn] DecodeBrotli_safe [OF env]
    DecodeCompress_safe
  by (auto simp: DecodeOne_def HasTransform_def split: HttpCoding.splits if_splits)

lemma IsDecodedSizeAllowed_bound:
  assumes "IsDecodedSizeAllowed e d" "d \<le> MaxSizeT"
  shows "d \<le> e * MaxDecodeExpansionRatio"
proof (cases "e > MaxSizeT div MaxDecodeExpansionRatio")
  case True
  then have "MaxSizeT < e * MaxDecodeExpansionRatio"
    by (simp add: MaxDecodeExpansionRatio_def div_less_iff_less_mult)
  then show ?thesis using assms(2) by simp
next
  case False
  then show ?thesis
    using assms(1) by (auto simp: IsDecodedSizeAllowed_def MaxDecodedBytes_def split: if_splits)
qed

definition loc_capacity :: "HttpCodingDecodeBuffers \<Rightarrow> buffer_loc \<Rightarrow> nat" where
  "loc_capacity buffers loc =
     (case loc of DecodedBuffer \<Rightarrow> if DecodedBodyNull buffers then 0 else DecodedBodyCapacity buffers
      | ScratchBuffer \<Rightarrow> if ScratchBodyNull buffers then 0 else ScratchBodyCapacity buffers
      | NoBuffer \<Rightarrow> 0 | WireBuffer \<Rightarrow> MaxSizeT)"

definition buffers_ok :: "HttpCodingDecodeBuffers \<Rightarrow> bool" where
  "buffers_ok buffers \<longleftrightarrow>
     DecodedBodyCapacity buffers \<le> MaxSizeT \<and> ScratchBodyCapacity buffers \<le> MaxSizeT"

text \<open>A located body fits the buffer it lies in; in particular the null pointer holds nothing.\<close>

definition located_ok :: "HttpCodingDecodeBuffers \<Rightarrow> located \<Rightarrow> bool" where
  "located_ok buffers cur \<longleftrightarrow> length (snd cur) \<le> loc_capacity buffers (fst cur)"

lemma SelectDestination_ok:
  assumes "SelectDestination loc buffers = (d, c)"
  shows "d = NoBuffer \<or> d \<noteq> loc" "c = loc_capacity buffers d" "d \<noteq> WireBuffer"
    "d = NoBuffer \<Longrightarrow> c = 0"
  using assms by (auto simp: SelectDestination_def loc_capacity_def split: if_splits)

lemma loc_capacity_le: "buffers_ok buffers \<Longrightarrow> loc_capacity buffers loc \<le> MaxSizeT"
  by (auto simp: loc_capacity_def buffers_ok_def split: buffer_loc.split)

lemma chain_step:
  assumes env: "env_ok env" and sel: "SelectDestination loc buffers = (d, c)"
  shows "DecodeOne env coding src (d = NoBuffer) c \<noteq> Fault"
    "HasTransform coding \<Longrightarrow> DecodeOne env coding src (d = NoBuffer) c = Ok out \<Longrightarrow>
       length out \<le> loc_capacity buffers d"
  using DecodeOne_safe [OF env, of "d = NoBuffer" c] SelectDestination_ok [OF sel] by auto

lemma chain_loop_safe:
  assumes "env_ok env" "buffers_ok buffers" "located_ok buffers cur"
  shows "chain_loop env buffers cs cur tr \<noteq> Fault \<and>
    (\<forall>cur' tr'. chain_loop env buffers cs cur tr = Ok (cur', tr') \<longrightarrow>
       located_ok buffers cur' \<and>
       length (snd cur') \<le> MaxDecodeExpansionRatio ^ length (filter HasTransform cs) * length (snd cur) \<and>
       (tr' = (tr \<or> (\<exists>c \<in> set cs. HasTransform c))) \<and>
       (tr \<and> fst cur \<noteq> WireBuffer \<or> tr' \<and> \<not> tr \<longrightarrow> fst cur' \<noteq> WireBuffer))"
  using assms(3)
proof (induction cs arbitrary: cur tr)
  case Nil
  then show ?case by simp
next
  case (Cons coding cs)
  show ?case
  proof (cases "HasTransform coding")
    case False
    then show ?thesis using Cons by simp
  next
    case True
    obtain d c where sel: "SelectDestination (fst cur) buffers = (d, c)" by force
    note step = chain_step [OF assms(1) sel, of coding "as_span cur"]
    let ?r = "DecodeOne env coding (as_span cur) (d = NoBuffer) c"
    have unf: "chain_loop env buffers (coding # cs) cur tr = rbind ?r (\<lambda>decoded.
        if \<not> IsDecodedSizeAllowed (length (snd cur)) (length decoded)
        then Err STATUS_INVALID_NETWORK_RESPONSE
        else chain_loop env buffers cs (if decoded = [] then NoBuffer else d, decoded) True)"
      using True by (simp add: sel MaxDecodedBytes_def)
    show ?thesis
    proof (cases ?r)
      case (Ok out)
      let ?cur = "(if out = [] then NoBuffer else d, out)"
      show ?thesis
      proof (cases "IsDecodedSizeAllowed (length (snd cur)) (length out)")
        case allowed: True
        have len: "length out \<le> loc_capacity buffers d" using step(2) [OF True] Ok by simp
        have cur: "located_ok buffers ?cur" using len by (simp add: located_ok_def)
        have ratio: "length out \<le> length (snd cur) * MaxDecodeExpansionRatio"
          using IsDecodedSizeAllowed_bound [OF allowed] len loc_capacity_le [OF assms(2), of d]
          by linarith
        have grow: "length (snd cur') \<le> MaxDecodeExpansionRatio ^ Suc k * length (snd cur)"
          if "length (snd cur') \<le> MaxDecodeExpansionRatio ^ k * length out" for cur' :: located and k
          using le_trans [OF that mult_le_mono2 [OF ratio, of "MaxDecodeExpansionRatio ^ k"]]
          by (simp only: power_Suc mult.assoc mult.commute mult.left_commute)
        have "fst ?cur \<noteq> WireBuffer" using SelectDestination_ok(3) [OF sel] by simp
        then show ?thesis
          using Cons.IH [OF cur, of True] grow True Ok allowed unf by auto
      qed (use Ok unf in auto)
    qed (use step(1) unf in auto)
  qed
qed

lemma settle_body_safe:
  assumes "located_ok buffers cur"
  shows "settle_body buffers tr cur \<noteq> Fault \<and>
    (\<forall>cur'. settle_body buffers tr cur = Ok cur' \<longrightarrow>
       located_ok buffers cur' \<and> snd cur' = snd cur \<and>
       (tr \<and> snd cur' \<noteq> [] \<and> \<not> DecodedBodyNull buffers \<longrightarrow> fst cur' = DecodedBuffer))"
proof -
  have "fst cur = NoBuffer \<longrightarrow> snd cur = []"
    using assms by (auto simp: located_ok_def loc_capacity_def)
  then show ?thesis
    using assms by (cases cur) (auto simp: settle_body_def located_ok_def loc_capacity_def)
qed

section \<open>Adler-32\<close>

text \<open>The definition of RFC 1950: \<open>A\<close> sums the bytes, \<open>B\<close> the intermediate values of \<open>A\<close>.\<close>

definition adler_A :: "bytes \<Rightarrow> nat" where
  "adler_A data = (1 + sum_list (map unat data)) mod 65521"

definition adler_B :: "bytes \<Rightarrow> nat" where
  "adler_B data = (\<Sum>i \<leftarrow> [1..<length data + 1]. 1 + sum_list (map unat (take i data))) mod 65521"

lemma adler_A_snoc: "adler_A (data @ [b]) = (adler_A data + unat b) mod 65521"
  by (simp add: adler_A_def mod_simps add.assoc)

lemma adler_B_snoc: "adler_B (data @ [b]) = (adler_B data + adler_A (data @ [b])) mod 65521"
proof -
  define S where "S = (\<Sum>i \<leftarrow> [1..<length data + 1]. 1 + sum_list (map unat (take i data)))"
  have "(\<Sum>i \<leftarrow> [1..<length data + 1]. 1 + sum_list (map unat (take i (data @ [b])))) = S"
    unfolding S_def by (intro arg_cong [where f = sum_list] map_cong) auto
  moreover have "[1..<length (data @ [b]) + 1] = [1..<length data + 1] @ [length data + 1]"
    by simp
  ultimately have "adler_B (data @ [b]) = (S + (1 + sum_list (map unat (data @ [b])))) mod 65521"
    by (simp add: adler_B_def del: upt_Suc)
  moreover have "adler_B data = S mod 65521" by (simp only: adler_B_def S_def)
  ultimately show ?thesis by (simp only: adler_A_def mod_add_eq)
qed

lemma adler_step_nat:
  assumes "unat low < 65521" "unat high < 65521"
  shows "adler_step (low, high) b = (low', high') \<Longrightarrow>
    unat low' = (unat low + unat b) mod 65521 \<and>
    unat high' = (unat high + unat low') mod 65521"
proof -
  assume step: "adler_step (low, high) b = (low', high')"
  have b: "unat b < 256" using unat_lt2p [of b] by simp
  have sum: "unat (low + ucast b) = unat low + unat b"
    using assms b by (simp add: unat_word_ariths)
  have l: "unat low' = (unat low + unat b) mod 65521"
  proof (cases "low + ucast b \<ge> AdlerModulo")
    case True
    then have ge: "65521 \<le> unat low + unat b"
      using sum by (simp add: word_le_nat_alt AdlerModulo_def)
    have "low' = low + ucast b - AdlerModulo"
      using step True by (simp add: Let_def)
    then have "unat low' = unat low + unat b - 65521"
      using True sum by (simp add: unat_sub AdlerModulo_def)
    then show ?thesis using ge assms b by (simp add: le_mod_geq)
  next
    case False
    then have "unat low + unat b < 65521"
      using sum by (simp add: word_le_nat_alt AdlerModulo_def not_le)
    then show ?thesis using step False sum by (simp add: Let_def)
  qed
  have "unat low' < 65521" using l by simp
  then have "unat (high + low') = unat high + unat low'"
    using assms by (simp add: unat_word_ariths)
  moreover have "high' = (high + low') mod AdlerModulo" using step by (auto simp: Let_def)
  ultimately show ?thesis using l by (simp add: unat_mod AdlerModulo_def)
qed

lemma adler_fold:
  "foldl adler_step (1, 0) data = (low, high) \<Longrightarrow> unat low = adler_A data \<and> unat high = adler_B data"
proof (induction data arbitrary: low high rule: rev_induct)
  case Nil
  then show ?case by (auto simp: adler_A_def adler_B_def)
next
  case (snoc b data)
  obtain l h where lh: "foldl adler_step (1, 0) data = (l, h)" by force
  then have ih: "unat l = adler_A data" "unat h = adler_B data" using snoc.IH by auto
  then have "unat l < 65521" "unat h < 65521" by (simp_all add: adler_A_def adler_B_def)
  then show ?case
    using adler_step_nat [of l h b low high] snoc.prems lh ih adler_A_snoc [of data b]
      adler_B_snoc [of data b]
    by simp
qed

section \<open>Properties\<close>

text \<open>C39: The chain of decoders is safe and cannot be used as a decompression bomb. With
  external decoders that respect their capacity, \<open>DecodeChainReverse\<close> never touches memory out of
  bounds (in particular it never decodes a buffer onto itself or reads a null destination back),
  and a decoded body fits the buffer it lies in and is at most 64 times larger per coding than
  the body received. After a transformation a nonempty body lies in the caller's decoded buffer.\<close>

theorem DecodeChainReverse_bounded:
  assumes "env_ok env" "buffers_ok buffers" "length body \<le> MaxSizeT"
  shows "DecodeChainReverse env codings (WireBuffer, body) buffers \<noteq> Fault \<and>
    (\<forall>r. DecodeChainReverse env codings (WireBuffer, body) buffers = Ok r \<longrightarrow>
       length (snd (CodedBody r)) \<le> loc_capacity buffers (fst (CodedBody r)) \<and>
       length (snd (CodedBody r)) \<le> 64 ^ length (filter HasTransform codings) * length body \<and>
       (AppliedCoding r \<and> snd (CodedBody r) \<noteq> [] \<and> \<not> DecodedBodyNull buffers \<longrightarrow>
          fst (CodedBody r) = DecodedBuffer))"
proof (cases "codings = [] \<or> body = []")
  case True
  then show ?thesis using assms(3) by (auto simp: DecodeChainReverse_def loc_capacity_def)
next
  case False
  let ?loop = "chain_loop env buffers (rev codings) (WireBuffer, body) False"
  have "located_ok buffers (WireBuffer, body)"
    using False assms(3) by (simp add: located_ok_def loc_capacity_def)
  note safe = chain_loop_safe [OF assms(1,2) this, of "rev codings" False]
  show ?thesis
  proof (cases ?loop)
    case (Ok p)
    obtain cur tr where p: "p = (cur, tr)" by (cases p)
    have ok: "located_ok buffers cur"
      and grow: "length (snd cur) \<le> 64 ^ length (filter HasTransform codings) * length body"
      using safe Ok p by (auto simp: MaxDecodeExpansionRatio_def rev_filter [symmetric])
    show ?thesis
      using False Ok p grow settle_body_safe [OF ok, of tr]
      by (auto simp: DecodeChainReverse_def located_ok_def rbind_eq_Fault)
  qed (use False safe in \<open>auto simp: DecodeChainReverse_def\<close>)
qed

definition stored_env :: coding_env where
  "stored_env = \<lparr>HeapAvailable = True, ProbeState = 1, WorkSpace = Ok (),
     RtlDecompressBufferEx = (\<lambda>src cap. if length src - 5 \<le> cap then Ok (drop 5 src)
                                        else Err STATUS_BUFFER_TOO_SMALL),
     BrotliInstance = True,
     BrotliDecompressStream = (\<lambda>src cap. (BrotliError False, 0, []))\<rparr>"

lemma stored_env_ok: "env_ok stored_env"
  by (auto simp: env_ok_def stored_env_def split: if_splits)

theorem DecodeChainReverse_bounded_witness:
  "\<exists>r. DecodeChainReverse stored_env [Deflate] (WireBuffer, DeflateProbeRaw)
      \<lparr>DecodedBodyNull = False, DecodedBodyCapacity = 5, ScratchBodyNull = True,
       ScratchBodyCapacity = 0\<rparr> = Ok r \<and> fst (CodedBody r) = DecodedBuffer \<and>
      length (snd (CodedBody r)) \<le> 64 * 10"
proof -
  let ?b = "\<lparr>DecodedBodyNull = False, DecodedBodyCapacity = 5, ScratchBodyNull = True,
       ScratchBodyCapacity = 0\<rparr>"
  have "DecodeChainReverse stored_env [Deflate] (WireBuffer, DeflateProbeRaw) ?b =
      Ok \<lparr>CodedBody = (DecodedBuffer, lit ''khttp''), AppliedCoding = True\<rparr>"
    by (simp add: DecodeChainReverse_def DeflateProbeRaw_def lit_def HasTransform_def
        SelectDestination_def MaxDecodedBytes_def DecodeOne_def DecodeDeflate_def
        LooksLikeZlibHeader_def DecodeRawDeflate_def DeflateRuntimeAvailable_def
        DecodeRawDeflateUnchecked_def SizeFitsUlong_def stored_env_def IsDecodedSizeAllowed_def
        MaxSizeT_def MaxDecodeExpansionRatio_def settle_body_def)
  then show ?thesis
    using DecodeChainReverse_bounded [OF stored_env_ok, of ?b DeflateProbeRaw "[Deflate]"]
    by (simp add: buffers_ok_def MaxSizeT_def DeflateProbeRaw_def lit_def)
qed

text \<open>Integrity of gzip bodies: whatever the raw deflate decoder produced, a body is accepted
  only with the gzip magic and method, and only when the trailer holds the CRC-32 and the size of
  exactly the bytes delivered.\<close>

theorem DecodeGzip_integrity:
  assumes "DecodeGzip env src destinationNull cap = Ok out"
  shows "\<exists>data cursor. src = Span data \<and> cursor + 8 \<le> length data \<and>
    take 3 data = [0x1F, 0x8B, 8] \<and>
    DecodeRawDeflate env (Span (take (length data - cursor - 8) (drop cursor data))) cap = Ok out \<and>
    ReadLittleEndian32 data (length data - 8) = Ok (ComputeCrc32 out) \<and>
    ReadLittleEndian32 data (length data - 4) = Ok (of_nat (length out))"
proof -
  obtain data cursor where d: "src = Span data" "18 \<le> length data" "cursor + 8 \<le> length data"
    "data ! 0 = 0x1F" "data ! 1 = 0x8B" "data ! 2 = 8"
    "DecodeRawDeflate env (Span (take (length data - cursor - 8) (drop cursor data))) cap = Ok out"
    "ReadLittleEndian32 data (length data - 8) = Ok (ComputeCrc32 out)"
    "ReadLittleEndian32 data (length data - 4) = Ok (of_nat (length out))"
    using DecodeGzip_Ok [OF assms] by metis
  have "take 3 data = [data ! 0, data ! 1, data ! 2]"
    by (intro nth_equalityI)
       (use d(2) in \<open>auto simp: less_Suc_eq numeral_3_eq_3 numeral_2_eq_2\<close>)
  then show ?thesis using d by auto
qed

theorem DecodeGzip_integrity_witness:
  "\<exists>out. DecodeGzip stored_env (Span ([0x1F, 0x8B, 8, 0, 0, 0, 0, 0, 0, 0] @
      [1, 1, 0, 0xFE, 0xFF, 0x61] @ [0x43, 0xBE, 0xB7, 0xE8] @ [1, 0, 0, 0])) False 10 = Ok out \<and>
    ReadLittleEndian32 [0x43, 0xBE, 0xB7, 0xE8] 0 = Ok (ComputeCrc32 out)"
proof -
  let ?d = "[0x1F, 0x8B, 8, 0, 0, 0, 0, 0, 0, 0, 1, 1, 0, 0xFE, 0xFF, 0x61, 0x43, 0xBE, 0xB7, 0xE8,
      1, 0, 0, 0] :: bytes"
  have "(crc32_bit ^^ 8) x =
      crc32_bit (crc32_bit (crc32_bit (crc32_bit (crc32_bit (crc32_bit (crc32_bit (crc32_bit x)))))))" for x
    by (simp add: eval_nat_numeral)
  moreover have "crc32_bit 0xFFFFFF9E = 0x7FFFFFCF"
    "crc32_bit 0x7FFFFFCF = 0xD2477CC7"
    "crc32_bit 0xD2477CC7 = 0x849B3D43"
    "crc32_bit 0x849B3D43 = 0xAFF51D81"
    "crc32_bit 0xAFF51D81 = 0xBA420DE0"
    "crc32_bit 0xBA420DE0 = 0x5D2106F0"
    "crc32_bit 0x5D2106F0 = 0x2E908378"
    "crc32_bit 0x2E908378 = 0x174841BC"
    by (simp_all add: crc32_bit_def)
  ultimately have "ComputeCrc32 [0x61] = 0xE8B7BE43"
    by (simp add: ComputeCrc32_def crc32_byte_def)
  then have ok: "DecodeGzip stored_env (Span ?d) False 10 = Ok [0x61]"
    by (simp add: DecodeGzip_def gzip_extra_def gzip_text_def gzip_header_crc_def
        DecodeRawDeflate_def DeflateRuntimeAvailable_def DecodeRawDeflateUnchecked_def
        SizeFitsUlong_def stored_env_def ReadLittleEndian32_def read_back_def rd_def)
  show ?thesis
    using ok DecodeGzip_integrity [OF ok] by (auto simp: ReadLittleEndian32_def rd_def)
qed

text \<open>\<open>ComputeAdler32\<close>, which reduces \<open>low\<close> by a single conditional subtraction, computes
  the Adler-32 checksum of RFC 1950 on every input.\<close>

theorem ComputeAdler32_spec:
  "unat (ComputeAdler32 data) = adler_B data * 65536 + adler_A data"
proof -
  obtain low high where f: "foldl adler_step (1, 0) data = (low, high)" by force
  note v = adler_fold [OF f]
  have "adler_A data < 65521" "adler_B data < 65521" by (simp_all add: adler_A_def adler_B_def)
  then have "unat (push_bit 16 high OR low) = unat high * 2 ^ 16 + unat low"
    using v by (intro unat_push_bit_or) simp_all
  then show ?thesis using f v by (simp add: ComputeAdler32_def)
qed

end
