(* ===== verification/Kh_HttpChunked.thy ===== *)
theory Kh_HttpChunked
  imports Kh_HttpTypes
begin

text \<open>
  The lexical layer and the chunked-body decoder of \<^verbatim>\<open>http/HttpParser.cpp\<close>: byte classes, the
  overflow-checked number parsers, chunk extensions, trailer lines and
  \<open>DecodeChunkedBodyWithTrailers\<close>.

  A cursor into \<open>data\<close> is a \<open>nat\<close> index, and \<open>InvalidOffset\<close> is \<open>None\<close>. The destination
  buffer of the decoder is given by its nullness and capacity; what has been stored in
  \<open>decodedBody[0 .. *decodedBodyLength)\<close> is a list.
\<close>

section \<open>Limits\<close>

definition KhHttpMaxHeaderLineBytes :: nat where "KhHttpMaxHeaderLineBytes = 8192"
definition KhHttpMaxHeaderBytes :: nat where "KhHttpMaxHeaderBytes = 65536"
definition KhHttpMaxHeaders :: nat where "KhHttpMaxHeaders = 200"
definition KhHttpMaxChunks :: nat where "KhHttpMaxChunks = 8192"
definition KhHttpMaxTrailers :: nat where "KhHttpMaxTrailers = 256"
definition KhHttpMaxChunkSizeLineBytes :: nat where "KhHttpMaxChunkSizeLineBytes = 32"

lemmas limit_defs =
  KhHttpMaxHeaderLineBytes_def KhHttpMaxHeaderBytes_def KhHttpMaxHeaders_def
  KhHttpMaxChunks_def KhHttpMaxTrailers_def KhHttpMaxChunkSizeLineBytes_def

section \<open>Byte classes\<close>

definition IsDigit :: "UCHAR \<Rightarrow> bool" where
  "IsDigit value \<longleftrightarrow> 48 \<le> value \<and> value \<le> 57"

definition IsHexDigit :: "UCHAR \<Rightarrow> bool" where
  "IsHexDigit value \<longleftrightarrow>
     (48 \<le> value \<and> value \<le> 57) \<or> (97 \<le> value \<and> value \<le> 102) \<or> (65 \<le> value \<and> value \<le> 70)"

definition HexValue :: "UCHAR \<Rightarrow> UCHAR" where
  "HexValue value =
     (if 48 \<le> value \<and> value \<le> 57 then value - 48
      else if 97 \<le> value \<and> value \<le> 102 then 10 + value - 97
      else 10 + value - 65)"

fun ContainsChar :: "bytes \<Rightarrow> UCHAR \<Rightarrow> bool" where
  "ContainsChar [] needle = False"
| "ContainsChar (c # cs) needle = (if c = needle then True else ContainsChar cs needle)"

definition IsTchar :: "UCHAR \<Rightarrow> bool" where
  "IsTchar value \<longleftrightarrow>
     (48 \<le> value \<and> value \<le> 57) \<or> (65 \<le> value \<and> value \<le> 90) \<or> (97 \<le> value \<and> value \<le> 122) \<or>
     value \<in> set (lit ''!#$%&'') \<or> value = 39 \<or> value \<in> set (lit ''*+-.^_'') \<or> value = 96 \<or>
     value = 124 \<or> value = 126"

definition IsQuotedPairText :: "UCHAR \<Rightarrow> bool" where
  "IsQuotedPairText value \<longleftrightarrow> value = 9 \<or> (32 \<le> value \<and> value \<le> 126)"

definition IsValidHeaderName :: "HttpText \<Rightarrow> bool" where
  "IsValidHeaderName text \<longleftrightarrow>
     \<not> span_null text \<and> span_len text \<noteq> 0 \<and> list_all IsTchar (span_list text)"

definition IsValidHeaderValue :: "HttpText \<Rightarrow> bool" where
  "IsValidHeaderValue text \<longleftrightarrow>
     \<not> (span_null text \<and> span_len text \<noteq> 0) \<and>
     list_all (\<lambda>c. \<not> (c \<noteq> 9 \<and> (c < 32 \<or> c = 127))) (span_list text)"

definition IsValidToken :: "HttpText \<Rightarrow> bool" where
  "IsValidToken text \<longleftrightarrow>
     \<not> span_null text \<and> span_len text \<noteq> 0 \<and> list_all IsTchar (span_list text)"

declare IsDigit_def [byte_class] IsHexDigit_def [byte_class] IsTchar_def [byte_class]
  IsOptionalWhitespace_def [byte_class] IsTokenBoundary_def [byte_class]

section \<open>Chunk extensions\<close>

text \<open>The body of a quoted string after its opening quote; the result is what follows it.\<close>

fun quoted_string :: "bytes \<Rightarrow> bytes option" where
  "quoted_string [] = None"
| "quoted_string (c # cs) =
     (if c = 34 then Some cs
      else if c = 92 then
        (case cs of
           [] \<Rightarrow> None
         | d # ds \<Rightarrow> if \<not> IsQuotedPairText d then None else quoted_string ds)
      else if c \<noteq> 9 \<and> c < 32 then None
      else quoted_string cs)"

lemma quoted_string_shorter: "quoted_string cs = Some rest \<Longrightarrow> length rest < length cs"
proof (induction cs rule: quoted_string.induct)
  case (2 c cs)
  then show ?case by (fastforce split: if_splits list.splits)
qed simp

text \<open>One iteration of the loop of \<open>ValidateSemicolonParameters\<close>.\<close>

definition semicolon_value :: "bytes \<Rightarrow> bytes res" where
  "semicolon_value p =
     (if p = [] then Err STATUS_INVALID_NETWORK_RESPONSE
      else if hd p = 34 then
        (case quoted_string (tl p) of
           None \<Rightarrow> Err STATUS_INVALID_NETWORK_RESPONSE
         | Some rest \<Rightarrow> Ok rest)
      else if takeWhile IsTchar p = [] then Err STATUS_INVALID_NETWORK_RESPONSE
      else Ok (dropWhile IsTchar p))"

definition semicolon_parameter :: "bytes \<Rightarrow> bytes res" where
  "semicolon_parameter parameters =
     (if hd parameters \<noteq> 59 then Err STATUS_INVALID_NETWORK_RESPONSE
      else
        let p = dropWhile IsOptionalWhitespace (tl parameters);
            name = takeWhile IsTchar p;
            q = dropWhile IsOptionalWhitespace (dropWhile IsTchar p)
        in if name = [] then Err STATUS_INVALID_NETWORK_RESPONSE
           else if \<not> IsValidToken (Span name) then Err STATUS_INVALID_NETWORK_RESPONSE
           else if q = [] \<or> hd q = 59 then Ok q
           else if hd q \<noteq> 61 then Err STATUS_INVALID_NETWORK_RESPONSE
           else rbind (semicolon_value (dropWhile IsOptionalWhitespace (tl q))) (\<lambda>r.
                  let rest = dropWhile IsOptionalWhitespace r
                  in if rest \<noteq> [] \<and> hd rest \<noteq> 59 then Err STATUS_INVALID_NETWORK_RESPONSE
                     else Ok rest))"

lemma semicolon_value_shorter: "semicolon_value p = Ok r \<Longrightarrow> length r \<le> length p"
  by (cases p)
     (auto simp: semicolon_value_def length_dropWhile_le le_SucI dest!: quoted_string_shorter
       split: if_splits option.splits intro: less_imp_le)

lemma length_dropWhile_le_trans: "length xs \<le> n \<Longrightarrow> length (dropWhile P xs) \<le> n"
  using length_dropWhile_le order_trans by blast

lemma semicolon_parameter_shorter:
  assumes "parameters \<noteq> []" and "semicolon_parameter parameters = Ok rest"
  shows "length rest < length parameters"
proof -
  define p where "p = dropWhile IsOptionalWhitespace (tl parameters)"
  define q where "q = dropWhile IsOptionalWhitespace (dropWhile IsTchar p)"
  have tl: "length (tl parameters) < length parameters" using assms(1) by (cases parameters) auto
  have q: "length q \<le> length (tl parameters)"
    unfolding q_def p_def by (intro length_dropWhile_le_trans order_refl)
  from assms(2) consider "rest = q"
    | r where "semicolon_value (dropWhile IsOptionalWhitespace (tl q)) = Ok r"
        "rest = dropWhile IsOptionalWhitespace r"
    by (auto simp: semicolon_parameter_def Let_def p_def q_def split: if_splits)
  then show ?thesis
  proof cases
    case 1
    then show ?thesis using q tl by simp
  next
    case (2 r)
    have "length rest \<le> length r" using 2(2) by (simp add: length_dropWhile_le)
    also have "\<dots> \<le> length (dropWhile IsOptionalWhitespace (tl q))"
      using 2(1) by (rule semicolon_value_shorter)
    also have "\<dots> \<le> length (tl q)" by (rule length_dropWhile_le)
    also have "\<dots> \<le> length q" by simp
    finally show ?thesis using q tl by linarith
  qed
qed

function ValidateSemicolonParameters :: "bytes \<Rightarrow> unit res" where
  "ValidateSemicolonParameters parameters =
     (if parameters = [] then Ok ()
      else (case semicolon_parameter parameters of
              Ok rest \<Rightarrow> ValidateSemicolonParameters rest
            | Err s \<Rightarrow> Err s
            | Fault \<Rightarrow> Fault))"
  by pat_completeness auto
termination
  by (relation "measure length") (auto simp: semicolon_parameter_shorter)

declare ValidateSemicolonParameters.simps [simp del]

section \<open>Lines, numbers and trailers\<close>

definition IsForbiddenTrailerField :: "HttpText \<Rightarrow> bool" where
  "IsForbiddenTrailerField name \<longleftrightarrow>
     TextEqualsIgnoreCase name (MakeText ''Content-Length'') \<or>
     TextEqualsIgnoreCase name (MakeText ''Transfer-Encoding'') \<or>
     TextEqualsIgnoreCase name (MakeText ''Host'') \<or>
     TextEqualsIgnoreCase name (MakeText ''Authorization'') \<or>
     TextEqualsIgnoreCase name (MakeText ''Proxy-Authorization'') \<or>
     TextEqualsIgnoreCase name (MakeText ''Cookie'') \<or>
     TextEqualsIgnoreCase name (MakeText ''Set-Cookie'')"

text \<open>The bytes \<open>data[start .. stop)\<close>.\<close>

definition slice :: "bytes \<Rightarrow> nat \<Rightarrow> nat \<Rightarrow> bytes" where
  "slice data start stop = take (stop - start) (drop start data)"

text \<open>
  A field line \<open>name: value\<close>: the colon is the first one of the line, a line with no colon or
  with nothing before it has no name.
\<close>

definition field_name :: "bytes \<Rightarrow> bytes" where
  "field_name line = takeWhile (\<lambda>c. c \<noteq> 58) line"

definition field_value :: "bytes \<Rightarrow> bytes" where
  "field_value line = trim_ows (tl (dropWhile (\<lambda>c. c \<noteq> 58) line))"

definition ParseTrailerFieldLine :: "bytes \<Rightarrow> nat \<Rightarrow> nat \<Rightarrow> HttpHeader res" where
  "ParseTrailerFieldLine data lineStart lineEnd =
     (if lineEnd \<le> lineStart then Err STATUS_INVALID_PARAMETER
      else
        rbind (rd data lineStart) (\<lambda>c.
        if c = 32 \<or> c = 9 then Err STATUS_INVALID_NETWORK_RESPONSE
        else
          let line = slice data lineStart lineEnd;
              name = Span (field_name line);
              value = Span (field_value line)
          in if 58 \<notin> set line \<or> field_name line = [] then Err STATUS_INVALID_NETWORK_RESPONSE
             else if \<not> IsValidHeaderName name \<or> \<not> IsValidHeaderValue value \<or>
                     IsForbiddenTrailerField name
             then Err STATUS_INVALID_NETWORK_RESPONSE
             else Ok \<lparr>Name = name, Value = value\<rparr>))"

fun StartsWith :: "bytes \<Rightarrow> bytes \<Rightarrow> bool" where
  "StartsWith text [] = True"
| "StartsWith [] (p # ps) = False"
| "StartsWith (t # ts) (p # ps) = (if t \<noteq> p then False else StartsWith ts ps)"

fun crlf_index :: "bytes \<Rightarrow> nat option" where
  "crlf_index (a # b # cs) =
     (if a = 13 \<and> b = 10 then Some 0 else map_option Suc (crlf_index (b # cs)))"
| "crlf_index _ = None"

definition FindCrlf :: "bytes \<Rightarrow> nat \<Rightarrow> nat option" where
  "FindCrlf data start =
     (if start \<ge> length data then None else map_option ((+) start) (crlf_index (drop start data)))"

fun crlfcrlf_index :: "bytes \<Rightarrow> nat option" where
  "crlfcrlf_index (a # b # c # d # es) =
     (if a = 13 \<and> b = 10 \<and> c = 13 \<and> d = 10 then Some 0
      else map_option Suc (crlfcrlf_index (b # c # d # es)))"
| "crlfcrlf_index _ = None"

definition FindHeaderEnd :: "bytes \<Rightarrow> nat option" where
  "FindHeaderEnd data = map_option ((+) 4) (crlfcrlf_index data)"

fun parse_uint16_loop :: "ULONG \<Rightarrow> bytes \<Rightarrow> USHORT res" where
  "parse_uint16_loop parsed [] = Ok (ucast parsed)"
| "parse_uint16_loop parsed (c # cs) =
     (if \<not> IsDigit c then Err STATUS_INVALID_NETWORK_RESPONSE
      else
        let parsed = parsed * 10 + ucast (c - 48)
        in if parsed > 0xFFFF then Err STATUS_INTEGER_OVERFLOW else parse_uint16_loop parsed cs)"

definition ParseUInt16 :: "bytes \<Rightarrow> USHORT res" where
  "ParseUInt16 text =
     (if text = [] then Err STATUS_INVALID_PARAMETER else parse_uint16_loop 0 text)"

fun parse_size_loop :: "ULONGLONG \<Rightarrow> bytes \<Rightarrow> ULONGLONG res" where
  "parse_size_loop parsed [] = Ok parsed"
| "parse_size_loop parsed (c # cs) =
     (if \<not> IsDigit c then Err STATUS_INVALID_NETWORK_RESPONSE
      else if parsed > (- 1 - ucast (c - 48)) div 10 then Err STATUS_INTEGER_OVERFLOW
      else parse_size_loop (parsed * 10 + ucast (c - 48)) cs)"

definition ParseSize :: "bytes \<Rightarrow> ULONGLONG res" where
  "ParseSize text =
     (if text = [] then Err STATUS_INVALID_PARAMETER else parse_size_loop 0 text)"

fun parse_hex_size_loop :: "ULONGLONG \<Rightarrow> bytes \<Rightarrow> ULONGLONG res" where
  "parse_hex_size_loop parsed [] = Ok parsed"
| "parse_hex_size_loop parsed (c # cs) =
     (if \<not> IsHexDigit c then Err STATUS_INVALID_NETWORK_RESPONSE
      else if parsed > (- 1 - ucast (HexValue c)) div 16 then Err STATUS_INTEGER_OVERFLOW
      else parse_hex_size_loop (parsed * 16 + ucast (HexValue c)) cs)"

definition ParseHexSize :: "bytes \<Rightarrow> ULONGLONG res" where
  "ParseHexSize text =
     (if text = [] then Err STATUS_INVALID_PARAMETER else parse_hex_size_loop 0 text)"

section \<open>The chunked decoder\<close>

text \<open>
  \<open>CopyChunkData\<close>: \<open>out\<close> is \<open>destination[0 .. *destinationLength)\<close>. The source range was
  checked by the caller to lie inside \<open>data\<close>.
\<close>

definition CopyChunkData :: "bytes \<Rightarrow> bool \<Rightarrow> nat \<Rightarrow> bytes \<Rightarrow> bytes res" where
  "CopyChunkData source destinationNull destinationCapacity out =
     (if length source = 0 then Ok out
      else if destinationNull \<or> length out > destinationCapacity \<or>
              length source > destinationCapacity - length out
      then Err STATUS_BUFFER_TOO_SMALL
      else Ok (out @ source))"

lemma crlf_index_bound: "crlf_index data = Some i \<Longrightarrow> i + 1 < length data"
  by (induction data arbitrary: i rule: crlf_index.induct) (auto split: if_splits)

lemma FindCrlf_bounds:
  "FindCrlf data start = Some i \<Longrightarrow> start \<le> i \<and> i + 2 \<le> length data"
  by (auto simp: FindCrlf_def dest!: crlf_index_bound split: if_splits)

text \<open>
  The inner loop, over the trailer section. \<open>trailers\<close> is the capacity of the caller's
  array, \<open>None\<close> for a null array; the result is the number of bytes consumed, the number of
  trailers and the trailers stored.
\<close>

function decode_trailers ::
  "bytes \<Rightarrow> nat option \<Rightarrow> nat \<Rightarrow> nat \<Rightarrow> HttpHeader list \<Rightarrow> (nat \<times> nat \<times> HttpHeader list) res"
where
  "decode_trailers data trailers cursor count kept =
     (case FindCrlf data cursor of
        None \<Rightarrow> Err STATUS_MORE_PROCESSING_REQUIRED
      | Some lineEnd \<Rightarrow>
          if lineEnd - cursor > KhHttpMaxHeaderLineBytes then Err STATUS_INVALID_NETWORK_RESPONSE
          else if lineEnd = cursor then Ok (cursor + 2, count, kept)
          else if count \<ge> KhHttpMaxTrailers then Err STATUS_INVALID_NETWORK_RESPONSE
          else if trailers \<noteq> None \<and> count \<ge> the trailers then Err STATUS_BUFFER_TOO_SMALL
          else (case ParseTrailerFieldLine data cursor lineEnd of
                  Ok h \<Rightarrow> decode_trailers data trailers (lineEnd + 2) (Suc count)
                            (if trailers = None then kept else kept @ [h])
                | Err s \<Rightarrow> Err s
                | Fault \<Rightarrow> Fault))"
  by pat_completeness auto
termination
  by (relation "measure (\<lambda>(data, trailers, cursor, count, kept). length data - cursor)")
     (auto dest!: FindCrlf_bounds)

declare decode_trailers.simps [simp del]

text \<open>
  The size line of a chunk: its size, from the hex digits before the first semicolon, after
  the extensions have been validated.
\<close>

definition chunk_size_line :: "bytes \<Rightarrow> ULONGLONG res" where
  "chunk_size_line line =
     (let size_part = takeWhile (\<lambda>c. c \<noteq> 59) line;
          extensions = dropWhile (\<lambda>c. c \<noteq> 59) line
      in rbind (if extensions \<noteq> [] then ValidateSemicolonParameters extensions else Ok ()) (\<lambda>_.
         if trim_ows size_part = [] then Err STATUS_INVALID_NETWORK_RESPONSE
         else ParseHexSize (trim_ows size_part)))"

record chunked_result =
  decodedBody :: bytes
  bytesConsumed :: nat
  trailerCount :: nat
  decodedTrailers :: "HttpHeader list"

text \<open>
  One iteration of the outer loop: a zero size line ends the body, at the offset where the
  trailer section starts; any other chunk is copied, and the next one starts after its CRLF.
\<close>

datatype chunk_next = LastChunk nat | NextChunk nat bytes

definition decode_chunk ::
  "bytes \<Rightarrow> bool \<Rightarrow> nat \<Rightarrow> nat \<Rightarrow> nat \<Rightarrow> bytes \<Rightarrow> chunk_next res"
where
  "decode_chunk data bodyNull bodyCapacity cursor chunkCount out =
     (case FindCrlf data cursor of
        None \<Rightarrow> Err STATUS_MORE_PROCESSING_REQUIRED
      | Some chunkLineEnd \<Rightarrow>
          if chunkLineEnd - cursor > KhHttpMaxChunkSizeLineBytes
          then Err STATUS_INVALID_NETWORK_RESPONSE
          else rbind (chunk_size_line (slice data cursor chunkLineEnd)) (\<lambda>chunkSize.
            let start = chunkLineEnd + 2; size = unat chunkSize in
            if chunkSize = 0 then Ok (LastChunk start)
            else if Suc chunkCount > KhHttpMaxChunks then Err STATUS_INVALID_NETWORK_RESPONSE
            else if size > length data - start then Err STATUS_MORE_PROCESSING_REQUIRED
            else rbind (CopyChunkData (slice data start (start + size)) bodyNull bodyCapacity out)
              (\<lambda>out'.
                if start + size + 2 > length data then Err STATUS_MORE_PROCESSING_REQUIRED
                else if data ! (start + size) \<noteq> 13 \<or> data ! (start + size + 1) \<noteq> 10
                then Err STATUS_INVALID_NETWORK_RESPONSE
                else Ok (NextChunk (start + size + 2) out'))))"

lemma decode_chunk_Next:
  assumes "decode_chunk data bodyNull cap cursor n out = Ok (NextChunk c out')"
  shows "cursor < c \<and> c \<le> length data \<and> n < KhHttpMaxChunks"
  using assms by (auto simp: decode_chunk_def Let_def dest!: FindCrlf_bounds
      split: option.splits if_splits)

function decode_chunks ::
  "bytes \<Rightarrow> bool \<Rightarrow> nat \<Rightarrow> nat option \<Rightarrow> nat \<Rightarrow> nat \<Rightarrow> bytes \<Rightarrow> chunked_result res"
where
  "decode_chunks data bodyNull bodyCapacity trailers cursor chunkCount out =
     (case decode_chunk data bodyNull bodyCapacity cursor chunkCount out of
        Err s \<Rightarrow> Err s
      | Fault \<Rightarrow> Fault
      | Ok (LastChunk start) \<Rightarrow>
          rbind (decode_trailers data trailers start 0 []) (\<lambda>(consumed, count, kept).
            Ok \<lparr>decodedBody = out, bytesConsumed = consumed, trailerCount = count,
                decodedTrailers = kept\<rparr>)
      | Ok (NextChunk next_cursor out') \<Rightarrow>
          decode_chunks data bodyNull bodyCapacity trailers next_cursor (Suc chunkCount) out')"
  by pat_completeness auto
termination
  by (relation "measure (\<lambda>(data, bn, bc, t, cursor, cc, out). length data - cursor)")
     (auto dest!: decode_chunk_Next)

declare decode_chunks.simps [simp del]

definition DecodeChunkedBodyWithTrailers ::
  "UCHAR span \<Rightarrow> bool \<Rightarrow> nat \<Rightarrow> bool \<Rightarrow> nat \<Rightarrow> chunked_result res"
where
  "DecodeChunkedBodyWithTrailers data decodedBodyNull decodedBodyCapacity trailersNull
     trailerCapacity =
     (if (decodedBodyNull \<and> decodedBodyCapacity \<noteq> 0) \<or> (trailersNull \<and> trailerCapacity \<noteq> 0)
      then Err STATUS_INVALID_PARAMETER
      else if span_null data then Err STATUS_INVALID_PARAMETER
      else decode_chunks (span_list data) decodedBodyNull decodedBodyCapacity
             (if trailersNull then None else Some trailerCapacity) 0 0 [])"

definition DecodeChunkedBody :: "UCHAR span \<Rightarrow> bool \<Rightarrow> nat \<Rightarrow> chunked_result res" where
  "DecodeChunkedBody data decodedBodyNull decodedBodyCapacity =
     DecodeChunkedBodyWithTrailers data decodedBodyNull decodedBodyCapacity True 0"

section \<open>The number parsers\<close>

lemma IsDigit_val: "IsDigit c \<Longrightarrow> unat (c - 48) = unat c - 48 \<and> 48 \<le> unat c \<and> unat c \<le> 57"
  by (simp add: IsDigit_def word_le_nat_alt unat_sub)

interpretation dec: checked_digit_loop 10 IsDigit "\<lambda>c. ucast (c - 48)" parse_size_loop
  by unfold_locales simp_all

interpretation hex: checked_digit_loop 16 IsHexDigit "\<lambda>c. ucast (HexValue c)" parse_hex_size_loop
  by unfold_locales simp_all

text \<open>The value of a decimal and of a hexadecimal numeral, as unbounded numbers.\<close>

definition dec_value :: "bytes \<Rightarrow> nat" where
  "dec_value ds = radix_value 10 (\<lambda>c. unat (c - 48)) 0 ds"

definition hex_value :: "bytes \<Rightarrow> nat" where
  "hex_value ds = radix_value 16 (\<lambda>c. unat (HexValue c)) 0 ds"

lemma ParseSize_Ok_iff:
  "ParseSize ds = Ok v \<longleftrightarrow>
     ds \<noteq> [] \<and> list_all IsDigit ds \<and> dec_value ds < 2 ^ 64 \<and> unat v = dec_value ds"
  using dec.loop_Ok_iff [of 0 ds v] by (simp add: ParseSize_def dec_value_def)

lemma ParseHexSize_Ok_iff:
  "ParseHexSize ds = Ok v \<longleftrightarrow>
     ds \<noteq> [] \<and> list_all IsHexDigit ds \<and> hex_value ds < 2 ^ 64 \<and> unat v = hex_value ds"
  using hex.loop_Ok_iff [of 0 ds v] by (simp add: ParseHexSize_def hex_value_def)

lemma ParseSize_no_fault [no_fault]: "ParseSize ds \<noteq> Fault"
  by (simp add: ParseSize_def dec.loop_no_fault)

lemma ParseHexSize_no_fault [no_fault]: "ParseHexSize ds \<noteq> Fault"
  by (simp add: ParseHexSize_def hex.loop_no_fault)

lemma semicolon_value_no_fault: "semicolon_value p \<noteq> Fault"
  by (simp add: semicolon_value_def split: option.split)

lemma semicolon_parameter_no_fault: "semicolon_parameter p \<noteq> Fault"
  by (simp add: semicolon_parameter_def Let_def rbind_eq_Fault semicolon_value_no_fault)

lemma ValidateSemicolonParameters_no_fault [no_fault]: "ValidateSemicolonParameters p \<noteq> Fault"
proof (induction p rule: ValidateSemicolonParameters.induct)
  case (1 p)
  show ?case
    using 1 semicolon_parameter_no_fault [of p]
    by (subst ValidateSemicolonParameters.simps) (auto split: res.splits)
qed

lemma chunk_size_line_no_fault [no_fault]: "chunk_size_line line \<noteq> Fault"
  by (auto simp: chunk_size_line_def Let_def rbind_eq_Fault ValidateSemicolonParameters_no_fault
      ParseHexSize_no_fault)

section \<open>Safety and bounds of the chunked decoder\<close>

text \<open>A trailer field that the decoder may deliver.\<close>

definition valid_trailer :: "HttpHeader \<Rightarrow> bool" where
  "valid_trailer h \<longleftrightarrow>
     IsValidHeaderName (Name h) \<and> IsValidHeaderValue (Value h) \<and> \<not> IsForbiddenTrailerField (Name h)"

lemma ParseTrailerFieldLine_no_fault:
  "i < length data \<Longrightarrow> ParseTrailerFieldLine data i j \<noteq> Fault"
  by (auto simp: ParseTrailerFieldLine_def Let_def)

lemma ParseTrailerFieldLine_valid:
  "ParseTrailerFieldLine data i j = Ok h \<Longrightarrow> valid_trailer h"
  by (auto simp: ParseTrailerFieldLine_def valid_trailer_def Let_def split: if_splits)

lemma decode_trailers_safe:
  assumes "count \<le> KhHttpMaxTrailers" "\<forall>h \<in> set kept. valid_trailer h"
    and "\<And>cap. trailers = Some cap \<Longrightarrow> count \<le> cap \<and> length kept = count"
    and "trailers = None \<Longrightarrow> kept = []"
  shows "decode_trailers data trailers cursor count kept \<noteq> Fault \<and>
    (\<forall>consumed count' kept'.
       decode_trailers data trailers cursor count kept = Ok (consumed, count', kept') \<longrightarrow>
       cursor < consumed \<and> consumed \<le> length data \<and> count' \<le> KhHttpMaxTrailers \<and>
       (\<forall>h \<in> set kept'. valid_trailer h) \<and>
       (\<forall>cap. trailers = Some cap \<longrightarrow> count' \<le> cap \<and> length kept' = count') \<and>
       (trailers = None \<longrightarrow> kept' = []))"
  using assms
proof (induction data trailers cursor count kept rule: decode_trailers.induct)
  case (1 data trailers cursor count kept)
  show ?case
  proof (cases "FindCrlf data cursor")
    case None
    then show ?thesis by (simp add: decode_trailers.simps [of data])
  next
    case (Some e)
    note b = FindCrlf_bounds [OF Some]
    show ?thesis
    proof (cases "e - cursor > KhHttpMaxHeaderLineBytes \<or> e = cursor \<or> count \<ge> KhHttpMaxTrailers
        \<or> (trailers \<noteq> None \<and> count \<ge> the trailers)")
      case True
      then show ?thesis
        using Some b "1.prems" by (auto simp: decode_trailers.simps [of data])
    next
      case False
      show ?thesis
      proof (cases "ParseTrailerFieldLine data cursor e")
        case Fault
        then show ?thesis using ParseTrailerFieldLine_no_fault [of cursor data e] b by simp
      next
        case (Err s)
        then show ?thesis using Some False by (simp add: decode_trailers.simps [of data])
      next
        case (Ok h)
        let ?st = "if trailers = None then kept else kept @ [h]"
        have "decode_trailers data trailers cursor count kept =
            decode_trailers data trailers (e + 2) (Suc count) ?st"
          using Some False Ok by (subst decode_trailers.simps) (auto simp del: One_nat_def)
        moreover have "decode_trailers data trailers (e + 2) (Suc count) ?st \<noteq> Fault \<and>
            (\<forall>consumed count' kept'.
              decode_trailers data trailers (e + 2) (Suc count) ?st = Ok (consumed, count', kept') \<longrightarrow>
              e + 2 < consumed \<and> consumed \<le> length data \<and> count' \<le> KhHttpMaxTrailers \<and>
              (\<forall>h \<in> set kept'. valid_trailer h) \<and>
              (\<forall>cap. trailers = Some cap \<longrightarrow> count' \<le> cap \<and> length kept' = count') \<and>
              (trailers = None \<longrightarrow> kept' = []))"
          by (rule "1.IH" [OF Some])
             (use False Ok "1.prems" ParseTrailerFieldLine_valid [OF Ok] in auto)
        ultimately show ?thesis using b by auto
      qed
    qed
  qed
qed

lemma CopyChunkData_cases:
  "CopyChunkData src null cap out \<noteq> Fault"
  "CopyChunkData src null cap out = Ok out' \<Longrightarrow> length out \<le> cap \<Longrightarrow>
     out' = out @ src \<and> length out' \<le> cap"
  by (auto simp: CopyChunkData_def split: if_splits)

lemma decode_chunk_no_fault [no_fault]: "decode_chunk data null cap cursor n out \<noteq> Fault"
  by (auto simp: decode_chunk_def Let_def rbind_eq_Fault chunk_size_line_no_fault
      CopyChunkData_cases split: option.splits)

lemma decode_chunk_out:
  assumes "decode_chunk data null cap cursor n out = Ok (NextChunk c out')" "length out \<le> cap"
  shows "length out' \<le> cap"
  using assms by (auto simp: decode_chunk_def Let_def dest!: CopyChunkData_cases(2)
      split: option.splits if_splits)

lemma decode_chunks_LastChunk:
  assumes "decode_chunk data null cap cursor n out = Ok (LastChunk start)"
  shows "decode_chunks data null cap trailers cursor n out =
    rbind (decode_trailers data trailers start 0 []) (\<lambda>(consumed, count, kept).
      Ok \<lparr>decodedBody = out, bytesConsumed = consumed, trailerCount = count,
          decodedTrailers = kept\<rparr>)"
  using assms by (subst decode_chunks.simps) simp

lemma decode_chunks_NextChunk:
  assumes "decode_chunk data null cap cursor n out = Ok (NextChunk c out')"
  shows "decode_chunks data null cap trailers cursor n out =
    decode_chunks data null cap trailers c (Suc n) out'"
  using assms by (subst decode_chunks.simps) simp

lemma decode_chunks_Err:
  assumes "decode_chunk data null cap cursor n out = Err s"
  shows "decode_chunks data null cap trailers cursor n out = Err s"
  using assms by (subst decode_chunks.simps) simp

text \<open>What the caller may rely on in a decoded body.\<close>

definition chunked_result_ok :: "bytes \<Rightarrow> nat \<Rightarrow> nat option \<Rightarrow> chunked_result \<Rightarrow> bool" where
  "chunked_result_ok data cap trailers r \<longleftrightarrow>
     length (decodedBody r) \<le> cap \<and> bytesConsumed r \<le> length data \<and> 0 < bytesConsumed r \<and>
     trailerCount r \<le> KhHttpMaxTrailers \<and>
     (\<forall>h \<in> set (decodedTrailers r). valid_trailer h) \<and>
     (\<forall>c. trailers = Some c \<longrightarrow> trailerCount r \<le> c \<and> length (decodedTrailers r) = trailerCount r) \<and>
     (trailers = None \<longrightarrow> decodedTrailers r = [])"

lemma decode_chunks_safe:
  assumes "length out \<le> cap"
  shows "decode_chunks data null cap trailers cursor n out \<noteq> Fault \<and>
    (\<forall>r. decode_chunks data null cap trailers cursor n out = Ok r \<longrightarrow>
       chunked_result_ok data cap trailers r)"
  using assms
proof (induction data null cap trailers cursor n out rule: decode_chunks.induct)
  case (1 data null cap trailers cursor n out)
  show ?case
  proof (cases "decode_chunk data null cap cursor n out")
    case Fault
    then show ?thesis by (simp add: decode_chunk_no_fault)
  next
    case (Err s)
    then show ?thesis by (simp add: decode_chunks_Err)
  next
    case (Ok nxt)
    show ?thesis
    proof (cases nxt)
      case (NextChunk c out')
      then show ?thesis
        using 1 Ok decode_chunk_out [of data null cap cursor n out c out']
        by (simp add: decode_chunks_NextChunk)
    next
      case (LastChunk start)
      have "decode_trailers data trailers start 0 [] \<noteq> Fault \<and>
        (\<forall>consumed count' kept'.
           decode_trailers data trailers start 0 [] = Ok (consumed, count', kept') \<longrightarrow>
           start < consumed \<and> consumed \<le> length data \<and> count' \<le> KhHttpMaxTrailers \<and>
           (\<forall>h \<in> set kept'. valid_trailer h) \<and>
           (\<forall>cap. trailers = Some cap \<longrightarrow> count' \<le> cap \<and> length kept' = count') \<and>
           (trailers = None \<longrightarrow> kept' = []))"
        by (rule decode_trailers_safe) simp_all
      then show ?thesis
        using "1.prems" Ok LastChunk
        by (auto simp: decode_chunks_LastChunk rbind_eq_Fault chunked_result_ok_def)
    qed
  qed
qed

lemma DecodeChunkedBodyWithTrailers_ok:
  "DecodeChunkedBodyWithTrailers data bodyNull cap trailersNull tcap \<noteq> Fault"
  "DecodeChunkedBodyWithTrailers data bodyNull cap trailersNull tcap = Ok r \<Longrightarrow>
     chunked_result_ok (span_list data) cap (if trailersNull then None else Some tcap) r"
  using decode_chunks_safe [of "[]" cap "span_list data" bodyNull
      "if trailersNull then None else Some tcap" 0 0]
  by (auto simp: DecodeChunkedBodyWithTrailers_def split: if_splits)

lemma length_span_list: "length (span_list s) \<le> span_len s"
  by (cases s) auto

section \<open>The verdict is final\<close>

text \<open>Bytes that arrive later do not change a line already found.\<close>

lemma crlf_index_append: "crlf_index xs = Some i \<Longrightarrow> crlf_index (xs @ ys) = Some i"
  by (induction xs arbitrary: i rule: crlf_index.induct) (auto split: if_splits)

lemma FindCrlf_append: "FindCrlf data c = Some i \<Longrightarrow> FindCrlf (data @ later) c = Some i"
  by (auto simp: FindCrlf_def crlf_index_append split: if_splits)

lemma slice_append: "j \<le> length data \<Longrightarrow> slice (data @ later) i j = slice data i j"
  by (simp add: slice_def)

lemma length_slice [simp]: "j \<le> length data \<Longrightarrow> length (slice data i j) = j - i"
  by (auto simp: slice_def)

lemma ParseTrailerFieldLine_append:
  "j \<le> length data \<Longrightarrow> ParseTrailerFieldLine (data @ later) i j = ParseTrailerFieldLine data i j"
  by (auto simp: ParseTrailerFieldLine_def slice_append rd_def nth_append)

lemma decode_trailers_append:
  assumes "decode_trailers data trailers cursor count kept \<noteq> Err STATUS_MORE_PROCESSING_REQUIRED"
  shows "decode_trailers (data @ later) trailers cursor count kept =
         decode_trailers data trailers cursor count kept"
  using assms
proof (induction data trailers cursor count kept rule: decode_trailers.induct)
  case (1 data trailers cursor count kept)
  show ?case
  proof (cases "FindCrlf data cursor")
    case None
    then show ?thesis using "1.prems" by (simp add: decode_trailers.simps [of data])
  next
    case (Some e)
    have e: "e \<le> length data" using FindCrlf_bounds [OF Some] by simp
    show ?thesis
      using Some "1.prems" "1.IH" [OF Some]
      by (subst decode_trailers.simps, subst (2) decode_trailers.simps)
         (auto simp: FindCrlf_append ParseTrailerFieldLine_append [OF e]
           decode_trailers.simps [of data trailers cursor] split: res.splits)
  qed
qed

lemma decode_chunk_append:
  assumes "decode_chunk data null cap cursor n out \<noteq> Err STATUS_MORE_PROCESSING_REQUIRED"
  shows "decode_chunk (data @ later) null cap cursor n out = decode_chunk data null cap cursor n out"
proof (cases "FindCrlf data cursor")
  case None
  then show ?thesis using assms by (simp add: decode_chunk_def)
next
  case (Some e)
  note b = FindCrlf_bounds [OF Some]
  show ?thesis
  proof (cases "e - cursor > KhHttpMaxChunkSizeLineBytes")
    case True
    then show ?thesis using Some by (simp add: decode_chunk_def FindCrlf_append)
  next
    case False
    show ?thesis
    proof (cases "chunk_size_line (slice data cursor e)")
      case (Ok size)
      let ?stop = "e + 2 + unat size"
      show ?thesis
      proof (cases "size = 0 \<or> Suc n > KhHttpMaxChunks")
        case True
        then show ?thesis
          using Some False b Ok by (auto simp: decode_chunk_def FindCrlf_append slice_append Let_def)
      next
        case small: False
        have fits: "?stop \<le> length data"
          using assms Some False Ok small b by (auto simp: decode_chunk_def Let_def split: if_splits)
        have copy: "?stop + 2 \<le> length data"
          if "CopyChunkData (slice data (e + 2) ?stop) null cap out = Ok out'" for out'
          using assms Some False Ok small b that
          by (auto simp: decode_chunk_def Let_def split: if_splits)
        show ?thesis
          using Some False Ok small b fits copy
          by (cases "CopyChunkData (slice data (e + 2) ?stop) null cap out")
             (simp_all add: decode_chunk_def FindCrlf_append slice_append nth_append Let_def)
      qed
    qed (use Some False b in \<open>simp_all add: decode_chunk_def FindCrlf_append slice_append\<close>)
  qed
qed

lemma decode_chunks_append:
  assumes "decode_chunks data null cap trailers cursor n out \<noteq> Err STATUS_MORE_PROCESSING_REQUIRED"
  shows "decode_chunks (data @ later) null cap trailers cursor n out =
         decode_chunks data null cap trailers cursor n out"
  using assms
proof (induction data null cap trailers cursor n out rule: decode_chunks.induct)
  case (1 data null cap trailers cursor n out)
  then have nm: "decode_chunk data null cap cursor n out \<noteq> Err STATUS_MORE_PROCESSING_REQUIRED"
    by (auto simp: decode_chunks_Err)
  note same = decode_chunk_append [OF nm, of later]
  show ?case
  proof (cases "decode_chunk data null cap cursor n out")
    case Fault
    then show ?thesis by (simp add: decode_chunk_no_fault)
  next
    case (Err s)
    then show ?thesis using same by (simp add: decode_chunks_Err)
  next
    case (Ok nxt)
    show ?thesis
    proof (cases nxt)
      case (NextChunk c out')
      then show ?thesis using 1 Ok same by (simp add: decode_chunks_NextChunk)
    next
      case (LastChunk start)
      then have "decode_trailers data trailers start 0 [] \<noteq> Err STATUS_MORE_PROCESSING_REQUIRED"
        using "1.prems" Ok by (auto simp: decode_chunks_LastChunk)
      then show ?thesis
        using Ok same LastChunk by (simp add: decode_chunks_LastChunk decode_trailers_append)
    qed
  qed
qed

section \<open>Well-formed bodies\<close>

text \<open>
  The reference grammar of a chunked body: each chunk is a size line and its payload, the
  body ends with a zero size line, trailer fields and an empty line.
\<close>

definition crlf :: bytes where
  "crlf = [13, 10]"

definition chunk_frames :: "(bytes \<times> bytes) list \<Rightarrow> bytes" where
  "chunk_frames cs = concat (map (\<lambda>(line, payload). line @ crlf @ payload @ crlf) cs)"

definition field_line :: "bytes \<Rightarrow> bytes \<Rightarrow> bytes" where
  "field_line name value = name @ [58, 32] @ value"

definition field_lines :: "(bytes \<times> bytes) list \<Rightarrow> bytes" where
  "field_lines fs = concat (map (\<lambda>(name, value). field_line name value @ crlf) fs)"

definition well_formed_chunk :: "bytes \<times> bytes \<Rightarrow> bool" where
  "well_formed_chunk c \<longleftrightarrow>
     (case c of (line, payload) \<Rightarrow>
        13 \<notin> set line \<and> length line \<le> KhHttpMaxChunkSizeLineBytes \<and>
        payload \<noteq> [] \<and> length payload < 2 ^ 64 \<and>
        chunk_size_line line = Ok (of_nat (length payload)))"

definition well_formed_field :: "bytes \<times> bytes \<Rightarrow> bool" where
  "well_formed_field f \<longleftrightarrow>
     (case f of (name, value) \<Rightarrow>
        IsValidHeaderName (Span name) \<and> IsValidHeaderValue (Span value) \<and>
        trim_ows value = value \<and> length name + length value + 2 \<le> KhHttpMaxHeaderLineBytes)"

definition header_of :: "bytes \<times> bytes \<Rightarrow> HttpHeader" where
  "header_of f = \<lparr>Name = Span (fst f), Value = Span (snd f)\<rparr>"

lemma crlf_index_line: "13 \<notin> set line \<Longrightarrow> crlf_index (line @ crlf @ rest) = Some (length line)"
proof (induction line)
  case Nil
  then show ?case by (simp add: crlf_def)
next
  case (Cons c line)
  then show ?case by (cases line) (auto simp: crlf_def)
qed

lemma FindCrlf_at:
  "13 \<notin> set line \<Longrightarrow>
   FindCrlf (pre @ line @ crlf @ rest) (length pre) = Some (length pre + length line)"
  using crlf_index_line [of line rest] by (simp add: FindCrlf_def crlf_def)

lemma slice_at:
  "slice (pre @ xs @ rest) (length pre) (length pre + length xs) = xs"
  by (simp add: slice_def)

lemma Tchar_not_special:
  "IsTchar c \<Longrightarrow> c \<noteq> 58 \<and> c \<noteq> 13 \<and> c \<noteq> 32 \<and> c \<noteq> 9 \<and> c \<noteq> 10"
  by (auto simp: IsTchar_def lit_def)

lemma valid_value_no_cr:
  "IsValidHeaderValue (Span v) \<Longrightarrow> 13 \<notin> set v \<and> 10 \<notin> set v"
  by (auto simp: IsValidHeaderValue_def list_all_iff)

lemma valid_name_chars:
  assumes "IsValidHeaderName (Span n)"
  shows "n \<noteq> []" "58 \<notin> set n" "13 \<notin> set n" "10 \<notin> set n" "hd n \<noteq> 32" "hd n \<noteq> 9"
  using assms Tchar_not_special
  by (auto simp: IsValidHeaderName_def list_all_iff dest: hd_in_set)

lemma field_name_line:
  "58 \<notin> set n \<Longrightarrow> field_name (field_line n v) = n"
  unfolding field_name_def field_line_def
  by (simp add: takeWhile_neq_stop)

lemma field_value_line:
  "58 \<notin> set n \<Longrightarrow> trim_ows v = v \<Longrightarrow> field_value (field_line n v) = v"
  unfolding field_value_def field_line_def
  by (simp add: dropWhile_neq_stop trim_ows_leading IsOptionalWhitespace_def)

lemma well_formed_field_line:
  assumes "well_formed_field (n, v)"
  shows "13 \<notin> set (field_line n v)" "length (field_line n v) \<le> KhHttpMaxHeaderLineBytes"
    "field_line n v \<noteq> []" "field_name (field_line n v) = n" "field_value (field_line n v) = v"
    "hd (field_line n v) \<noteq> 32" "hd (field_line n v) \<noteq> 9" "58 \<in> set (field_line n v)" "n \<noteq> []"
proof -
  have n: "IsValidHeaderName (Span n)" and v: "IsValidHeaderValue (Span v)" "trim_ows v = v"
    and len: "length n + length v + 2 \<le> KhHttpMaxHeaderLineBytes"
    using assms by (auto simp: well_formed_field_def)
  note chars = valid_name_chars [OF n]
  show "13 \<notin> set (field_line n v)"
    using chars valid_value_no_cr [OF v(1)] by (simp add: field_line_def)
  show "length (field_line n v) \<le> KhHttpMaxHeaderLineBytes" using len by (simp add: field_line_def)
  show "field_name (field_line n v) = n" using chars by (simp add: field_name_line)
  show "field_value (field_line n v) = v" using chars v by (simp add: field_value_line)
  show "hd (field_line n v) \<noteq> 32" "hd (field_line n v) \<noteq> 9" using chars by (auto simp: field_line_def)
  show "field_line n v \<noteq> []" "58 \<in> set (field_line n v)" "n \<noteq> []"
    using chars by (auto simp: field_line_def)
qed

lemma ParseTrailerFieldLine_at:
  assumes wf: "well_formed_field (n, v)" and "\<not> IsForbiddenTrailerField (Span n)"
  shows "ParseTrailerFieldLine (pre @ field_line n v @ rest) (length pre)
           (length pre + length (field_line n v)) = Ok (header_of (n, v))"
proof -
  note w = well_formed_field_line [OF wf]
  have "rd (pre @ field_line n v @ rest) (length pre) = Ok (hd (field_line n v))"
    using w(3) by (simp add: rd_def nth_append hd_conv_nth)
  moreover have "IsValidHeaderName (Span n)" "IsValidHeaderValue (Span v)"
    using wf by (auto simp: well_formed_field_def)
  ultimately show ?thesis
    using w assms(2) by (simp add: ParseTrailerFieldLine_def slice_at header_of_def)
qed

lemma decode_trailers_fields:
  assumes "\<forall>f \<in> set fs. well_formed_field f \<and> \<not> IsForbiddenTrailerField (Span (fst f))"
    and "count + length fs \<le> KhHttpMaxTrailers"
    and "\<And>cap. trailers = Some cap \<Longrightarrow> count + length fs \<le> cap"
  shows "decode_trailers (pre @ field_lines fs @ crlf @ rest) trailers (length pre) count kept =
    Ok (length pre + length (field_lines fs) + 2, count + length fs,
        if trailers = None then kept else kept @ map header_of fs)"
  using assms
proof (induction fs arbitrary: pre count kept)
  case Nil
  have "FindCrlf (pre @ crlf @ rest) (length pre) = Some (length pre)"
    using FindCrlf_at [of "[]" pre rest] by simp
  then show ?case by (subst decode_trailers.simps) (simp add: field_lines_def)
next
  case (Cons f fs)
  obtain n v where f: "f = (n, v)" by (cases f)
  let ?l = "field_line n v" and ?tail = "field_lines fs @ crlf @ rest"
  let ?st = "if trailers = None then kept else kept @ [header_of (n, v)]"
  have wf: "well_formed_field (n, v)" and nf: "\<not> IsForbiddenTrailerField (Span n)"
    using Cons.prems(1) f by auto
  note w = well_formed_field_line [OF wf]
  have data: "pre @ field_lines (f # fs) @ crlf @ rest = pre @ ?l @ crlf @ ?tail"
    by (simp add: field_lines_def f)
  have next_data: "\<dots> = (pre @ ?l @ crlf) @ ?tail" by simp
  have "decode_trailers (pre @ ?l @ crlf @ ?tail) trailers (length pre) count kept =
      decode_trailers (pre @ ?l @ crlf @ ?tail) trailers (length pre + length ?l + 2) (Suc count) ?st"
    using w Cons.prems(2,3) FindCrlf_at [OF w(1)] ParseTrailerFieldLine_at [OF wf nf]
    by (subst decode_trailers.simps) fastforce
  also have "\<dots> = decode_trailers ((pre @ ?l @ crlf) @ ?tail) trailers
      (length (pre @ ?l @ crlf)) (Suc count) ?st"
    by (simp add: crlf_def)
  also have "\<dots> = Ok (length (pre @ ?l @ crlf) + length (field_lines fs) + 2, Suc count + length fs,
      if trailers = None then ?st else ?st @ map header_of fs)"
    by (rule Cons.IH) (use Cons.prems in fastforce)+
  finally show ?case by (simp add: data f field_lines_def crlf_def)
qed

lemma decode_chunk_at:
  assumes wf: "well_formed_chunk (line, payload)" and n: "n < KhHttpMaxChunks"
    and cap: "length out + length payload \<le> cap"
  shows "decode_chunk (pre @ line @ crlf @ payload @ crlf @ rest) False cap (length pre) n out =
    Ok (NextChunk (length pre + length line + 2 + length payload + 2) (out @ payload))"
proof -
  let ?data = "pre @ line @ crlf @ payload @ crlf @ rest"
  let ?start = "length pre + length line + 2"
  have cr: "13 \<notin> set line" and len: "length line \<le> KhHttpMaxChunkSizeLineBytes"
    and ne: "payload \<noteq> []" and sz: "length payload < 2 ^ 64"
    and size: "chunk_size_line line = Ok (of_nat (length payload))"
    using wf by (auto simp: well_formed_chunk_def)
  have val: "unat (of_nat (length payload) :: ULONGLONG) = length payload"
    using sz by (simp add: unat_of_nat take_bit_nat_eq_self_iff)
  then have nz: "(of_nat (length payload) :: ULONGLONG) \<noteq> 0"
    using ne by (metis length_0_conv unat_0)
  have line: "slice ?data (length pre) (length pre + length line) = line"
    by (rule slice_at)
  have payload: "slice ?data ?start (?start + length payload) = payload"
    using slice_at [of "pre @ line @ crlf" payload "crlf @ rest"] by (simp add: crlf_def)
  have end_cr: "?data ! (?start + length payload) = 13" "?data ! Suc (?start + length payload) = 10"
    by (simp_all add: crlf_def nth_append)
  show ?thesis
    using FindCrlf_at [OF cr, of pre "payload @ crlf @ rest"] len line size val nz n cap payload end_cr
    by (simp add: decode_chunk_def Let_def CopyChunkData_def crlf_def)
qed

lemma chunk_size_line_zero: "chunk_size_line (lit ''0'') = Ok 0"
  by (simp add: chunk_size_line_def lit_def trim_ows_def ParseHexSize_def IsHexDigit_def
      HexValue_def IsOptionalWhitespace_def)

lemma decode_chunk_zero:
  "decode_chunk (pre @ lit ''0'' @ crlf @ rest) False cap (length pre) n out =
     Ok (LastChunk (length pre + 3))"
proof -
  have "FindCrlf (pre @ lit ''0'' @ crlf @ rest) (length pre) = Some (length pre + 1)"
    using FindCrlf_at [of "lit ''0''" pre rest] by (simp add: lit_def)
  moreover have "slice (pre @ lit ''0'' @ crlf @ rest) (length pre) (length pre + 1) = lit ''0''"
    using slice_at [of pre "lit ''0''" "crlf @ rest"] by (simp add: lit_def)
  ultimately show ?thesis
    by (simp add: decode_chunk_def limit_defs chunk_size_line_zero)
qed

definition chunked_message :: "(bytes \<times> bytes) list \<Rightarrow> (bytes \<times> bytes) list \<Rightarrow> bytes" where
  "chunked_message cs fs = chunk_frames cs @ lit ''0'' @ crlf @ field_lines fs @ crlf"

lemma decode_chunks_message:
  assumes "\<forall>c \<in> set cs. well_formed_chunk c"
    and "\<forall>f \<in> set fs. well_formed_field f \<and> \<not> IsForbiddenTrailerField (Span (fst f))"
    and "n + length cs \<le> KhHttpMaxChunks" "length fs \<le> KhHttpMaxTrailers"
    and "\<And>c. trailers = Some c \<Longrightarrow> length fs \<le> c"
    and "length out + length (concat (map snd cs)) \<le> cap"
  shows "decode_chunks (pre @ chunked_message cs fs @ rest) False cap trailers (length pre) n out =
    Ok \<lparr>decodedBody = out @ concat (map snd cs),
        bytesConsumed = length pre + length (chunked_message cs fs),
        trailerCount = length fs,
        decodedTrailers = (if trailers = None then [] else map header_of fs)\<rparr>"
  using assms(1,3,6)
proof (induction cs arbitrary: pre n out)
  case Nil
  have "decode_trailers ((pre @ lit ''0'' @ crlf) @ field_lines fs @ crlf @ rest) trailers
      (length (pre @ lit ''0'' @ crlf)) 0 [] =
    Ok (length (pre @ lit ''0'' @ crlf) + length (field_lines fs) + 2, 0 + length fs,
        if trailers = None then [] else [] @ map header_of fs)"
    by (rule decode_trailers_fields) (use assms(2,4,5) in auto)
  then show ?case
    using decode_chunk_zero [of pre "field_lines fs @ crlf @ rest" cap n out]
    by (auto simp: chunked_message_def chunk_frames_def decode_chunks_LastChunk lit_def crlf_def
        numeral_3_eq_3)
next
  case (Cons c cs)
  obtain line payload where c: "c = (line, payload)" by (cases c)
  let ?hd = "line @ crlf @ payload @ crlf"
  have data: "pre @ chunked_message (c # cs) fs @ rest =
      pre @ line @ crlf @ payload @ crlf @ (chunked_message cs fs @ rest)"
    by (simp add: chunked_message_def chunk_frames_def c)
  have "decode_chunk (pre @ line @ crlf @ payload @ crlf @ (chunked_message cs fs @ rest)) False cap
      (length pre) n out =
    Ok (NextChunk (length pre + length line + 2 + length payload + 2) (out @ payload))"
    by (rule decode_chunk_at) (use Cons.prems c in auto)
  from decode_chunks_NextChunk [OF this, of trailers]
  have "decode_chunks (pre @ chunked_message (c # cs) fs @ rest) False cap trailers (length pre) n out =
      decode_chunks ((pre @ ?hd) @ chunked_message cs fs @ rest) False cap trailers
        (length (pre @ ?hd)) (Suc n) (out @ payload)"
    by (simp add: data crlf_def add.assoc)
  also have "\<dots> = Ok \<lparr>decodedBody = (out @ payload) @ concat (map snd cs),
        bytesConsumed = length (pre @ ?hd) + length (chunked_message cs fs),
        trailerCount = length fs,
        decodedTrailers = (if trailers = None then [] else map header_of fs)\<rparr>"
    by (rule Cons.IH) (use Cons.prems c in auto)
  finally show ?case by (simp add: c chunked_message_def chunk_frames_def crlf_def)
qed

section \<open>Properties\<close>

text \<open>\<open>ParseSize\<close> accepts exactly the nonempty decimal numerals whose value fits a 64-bit
  \<open>SIZE_T\<close>, and returns that value: the overflow guard before each multiplication is exact, so a
  \<open>Content-Length\<close> is never read modulo \<open>2 ^ 64\<close>. A numeral that does not fit is reported as
  an overflow.\<close>

theorem ParseSize_exact:
  "(ParseSize ds = Ok v \<longleftrightarrow>
      ds \<noteq> [] \<and> list_all IsDigit ds \<and> dec_value ds < 2 ^ 64 \<and> unat v = dec_value ds) \<and>
   (ds \<noteq> [] \<and> list_all IsDigit ds \<and> 2 ^ 64 \<le> dec_value ds \<longrightarrow>
      ParseSize ds = Err STATUS_INTEGER_OVERFLOW)"
  using ParseSize_Ok_iff [of ds v] dec.loop_overflow [of ds 0]
  by (simp add: ParseSize_def dec_value_def)

theorem ParseSize_exact_witness:
  "ParseSize (lit ''18446744073709551615'') = Ok (- 1) \<and>
   ParseSize (lit ''18446744073709551616'') = Err STATUS_INTEGER_OVERFLOW"
proof -
  have "list_all IsDigit (lit ''18446744073709551615'')"
    "list_all IsDigit (lit ''18446744073709551616'')"
    by (simp_all add: lit_def IsDigit_def)
  moreover have "dec_value (lit ''18446744073709551615'') = 18446744073709551615"
    "dec_value (lit ''18446744073709551616'') = 18446744073709551616"
    by (simp_all add: dec_value_def lit_def)
  ultimately show ?thesis
    using ParseSize_exact [of "lit ''18446744073709551615''" "- 1"]
      ParseSize_exact [of "lit ''18446744073709551616''" 0]
    by (simp add: unat_max_word lit_def)
qed



text \<open>The decoder's verdict is final: once it answers anything but
  \<open>STATUS_MORE_PROCESSING_REQUIRED\<close>, bytes that arrive later cannot change the answer. On a
  reused connection the next response therefore cannot influence the decoding of this one.\<close>

theorem DecodeChunkedBodyWithTrailers_final:
  assumes "DecodeChunkedBodyWithTrailers (Span data) bodyNull cap trailersNull tcap \<noteq>
    Err STATUS_MORE_PROCESSING_REQUIRED"
  shows "DecodeChunkedBodyWithTrailers (Span (data @ later)) bodyNull cap trailersNull tcap =
    DecodeChunkedBodyWithTrailers (Span data) bodyNull cap trailersNull tcap"
  using assms decode_chunks_append
  by (auto simp: DecodeChunkedBodyWithTrailers_def)

theorem DecodeChunkedBodyWithTrailers_final_witness:
  "DecodeChunkedBodyWithTrailers (Span (lit ''x'' @ crlf @ lit ''0'')) False 3 True 0 =
   DecodeChunkedBodyWithTrailers (Span (lit ''x'' @ crlf)) False 3 True 0"
  using DecodeChunkedBodyWithTrailers_final [of "lit ''x'' @ crlf" False 3 True 0 "lit ''0''"]
  by (simp add: DecodeChunkedBodyWithTrailers_def decode_chunks.simps decode_chunk_def FindCrlf_def
      crlf_def lit_def slice_def chunk_size_line_def trim_ows_def IsOptionalWhitespace_def
      ParseHexSize_def IsHexDigit_def limit_defs)



end
