(* ===== verification/Kh_HttpTransferCoding.thy ===== *)
theory Kh_HttpTransferCoding
  imports Kh_HttpCoding Kh_HttpChunked
begin

text \<open>
  Transfer codings, \<^verbatim>\<open>http/HttpTransferCoding.cpp\<close>, and content codings,
  \<^verbatim>\<open>http/HttpContentEncoding.cpp\<close>: the parsers of the two header fields and the decoding of a
  body through the chain they announce.
\<close>

section \<open>Transfer-Encoding\<close>

definition HttpMaxTransferCodings :: nat where
  "HttpMaxTransferCodings = 4"

datatype HttpTransferCodingKind =
  TransferChunked | TransferGzip | TransferDeflate | TransferCompress

record HttpTransferCodingInfo =
  Coding0 :: HttpTransferCodingKind
  Coding1 :: HttpTransferCodingKind
  Coding2 :: HttpTransferCodingKind
  Coding3 :: HttpTransferCodingKind
  CodingCount :: nat
  HasTransferEncoding :: bool
  FinalCodingIsChunked :: bool

definition empty_info :: HttpTransferCodingInfo where
  "empty_info =
     \<lparr>Coding0 = TransferChunked, Coding1 = TransferChunked, Coding2 = TransferChunked,
      Coding3 = TransferChunked, CodingCount = 0, HasTransferEncoding = False,
      FinalCodingIsChunked = False\<rparr>"

fun TransferCodingToHttpCoding :: "HttpTransferCodingKind \<Rightarrow> HttpCoding option" where
  "TransferCodingToHttpCoding TransferGzip = Some Gzip"
| "TransferCodingToHttpCoding TransferDeflate = Some Deflate"
| "TransferCodingToHttpCoding TransferCompress = Some Compress"
| "TransferCodingToHttpCoding TransferChunked = None"

definition GetTransferCoding :: "HttpTransferCodingInfo \<Rightarrow> nat \<Rightarrow> HttpTransferCodingKind" where
  "GetTransferCoding info index =
     (if index = 0 then Coding0 info
      else if index = 1 then Coding1 info
      else if index = 2 then Coding2 info
      else Coding3 info)"

definition SetTransferCoding ::
  "HttpTransferCodingInfo \<Rightarrow> nat \<Rightarrow> HttpTransferCodingKind \<Rightarrow> HttpTransferCodingInfo"
where
  "SetTransferCoding info index coding =
     (if index = 0 then info\<lparr>Coding0 := coding\<rparr>
      else if index = 1 then info\<lparr>Coding1 := coding\<rparr>
      else if index = 2 then info\<lparr>Coding2 := coding\<rparr>
      else info\<lparr>Coding3 := coding\<rparr>)"

definition AppendTransferCoding ::
  "HttpTransferCodingKind \<Rightarrow> HttpTransferCodingInfo \<Rightarrow> HttpTransferCodingInfo res"
where
  "AppendTransferCoding coding info =
     (if CodingCount info \<ge> HttpMaxTransferCodings then Err STATUS_NOT_SUPPORTED
      else if coding = TransferChunked \<and>
              list_ex (\<lambda>index. GetTransferCoding info index = TransferChunked) [0..<CodingCount info]
      then Err STATUS_INVALID_NETWORK_RESPONSE
      else Ok ((SetTransferCoding info (CodingCount info) coding)
                 \<lparr>CodingCount := CodingCount info + 1\<rparr>))"

text \<open>
  A member of the list; \<open>*hasCoding\<close> is true exactly when the function succeeds, so the result is
  the coding alone.
\<close>

definition ParseTransferCodingToken :: "bytes \<Rightarrow> HttpTransferCodingKind res" where
  "ParseTransferCodingToken text =
     (let member = trim_ows text in
      if member = [] then Err STATUS_INVALID_NETWORK_RESPONSE
      else
        let token = Span (trim_ows (takeWhile (\<lambda>c. c \<noteq> 59) member));
            parameterStart = length (takeWhile (\<lambda>c. c \<noteq> 59) member);
            finish = (\<lambda>parsed. if parameterStart \<noteq> length member
                               then Err STATUS_INVALID_NETWORK_RESPONSE else Ok parsed)
        in if \<not> IsValidToken token then Err STATUS_INVALID_NETWORK_RESPONSE
           else if TextEqualsIgnoreCase token (MakeText ''identity'')
           then Err STATUS_INVALID_NETWORK_RESPONSE
           else if TextEqualsIgnoreCase token (MakeText ''br'') then Err STATUS_NOT_SUPPORTED
           else if TextEqualsIgnoreCase token (MakeText ''chunked'') then finish TransferChunked
           else if TextEqualsIgnoreCase token (MakeText ''gzip'') \<or>
                   TextEqualsIgnoreCase token (MakeText ''x-gzip'')
           then finish TransferGzip
           else if TextEqualsIgnoreCase token (MakeText ''deflate'') then finish TransferDeflate
           else if TextEqualsIgnoreCase token (MakeText ''compress'') \<or>
                   TextEqualsIgnoreCase token (MakeText ''x-compress'')
           then finish TransferCompress
           else Err STATUS_NOT_SUPPORTED)"

function append_transfer_loop ::
  "bytes \<Rightarrow> HttpTransferCodingInfo \<Rightarrow> HttpTransferCodingInfo res"
where
  "append_transfer_loop value info =
     (case ParseTransferCodingToken (takeWhile (\<lambda>c. c \<noteq> 44) value) of
        Fault \<Rightarrow> Fault
      | Err s \<Rightarrow> Err s
      | Ok coding \<Rightarrow>
          (case AppendTransferCoding coding info of
             Fault \<Rightarrow> Fault
           | Err s \<Rightarrow> Err s
           | Ok info' \<Rightarrow>
               (case dropWhile (\<lambda>c. c \<noteq> 44) value of
                  [] \<Rightarrow> Ok info'
                | comma # rest \<Rightarrow> append_transfer_loop rest info')))"
  by pat_completeness auto

lemma dropWhile_Cons_shorter: "dropWhile P xs = y # ys \<Longrightarrow> length ys < length xs"
  by (metis Suc_le_eq length_Cons length_dropWhile_le)

termination append_transfer_loop
  by (relation "measure (\<lambda>(value, info). length value)") (auto dest: dropWhile_Cons_shorter)

declare append_transfer_loop.simps [simp del]

text \<open>A null value of length 0 is a single empty member.\<close>

fun AppendTransferCodings ::
  "HttpText \<Rightarrow> HttpTransferCodingInfo \<Rightarrow> HttpTransferCodingInfo res"
where
  "AppendTransferCodings (Span v) info = append_transfer_loop v info"
| "AppendTransferCodings (NullSpan n) info =
     (if n = 0 then Err STATUS_INVALID_NETWORK_RESPONSE else Fault)"

fun parse_transfer_headers ::
  "HttpHeader list \<Rightarrow> HttpTransferCodingInfo \<Rightarrow> bool \<Rightarrow> (HttpTransferCodingInfo \<times> bool) res"
where
  "parse_transfer_headers [] info saw = Ok (info, saw)"
| "parse_transfer_headers (h # hs) info saw =
     (if \<not> TextEqualsIgnoreCase (Name h) (MakeText ''Transfer-Encoding'')
      then parse_transfer_headers hs info saw
      else rbind (AppendTransferCodings (Value h) info) (\<lambda>info'. parse_transfer_headers hs info' True))"

definition TransferCoding_Parse :: "HttpHeader span \<Rightarrow> HttpTransferCodingInfo res" where
  "TransferCoding_Parse headers =
     (if span_null headers \<and> span_len headers \<noteq> 0 then Err STATUS_INVALID_PARAMETER
      else
        rbind (parse_transfer_headers (span_list headers) empty_info False) (\<lambda>(info, saw).
          if \<not> saw then Ok info
          else if CodingCount info = 0 then Err STATUS_INVALID_NETWORK_RESPONSE
          else Ok (info\<lparr>HasTransferEncoding := True,
                        FinalCodingIsChunked :=
                          (GetTransferCoding info (CodingCount info - 1) = TransferChunked)\<rparr>)))"

section \<open>Decoding a transfer-coded body\<close>

definition DecodeOneTransferCoding ::
  "coding_env \<Rightarrow> HttpTransferCodingKind \<Rightarrow> located \<Rightarrow> HttpCodingDecodeBuffers \<Rightarrow>
   HttpCodingDecodeResult res"
where
  "DecodeOneTransferCoding env transferCoding current buffers =
     (case TransferCodingToHttpCoding transferCoding of
        None \<Rightarrow> Err STATUS_INVALID_PARAMETER
      | Some coding \<Rightarrow> DecodeChainReverse env [coding] current buffers)"

record transfer_state =
  tsCurrent :: located
  tsOuterBytesConsumed :: nat
  tsTransformed :: bool
  tsTrailerCount :: nat
  tsTrailers :: "HttpHeader list"

text \<open>One iteration of the loop of \<open>DecodeResponseBody\<close>, for the coding at \<open>codingIndex\<close>.\<close>

definition transfer_step ::
  "coding_env \<Rightarrow> HttpTransferCodingInfo \<Rightarrow> HttpCodingDecodeBuffers \<Rightarrow> bool \<Rightarrow> nat \<Rightarrow> nat \<Rightarrow>
   transfer_state \<Rightarrow> transfer_state res"
where
  "transfer_step env info buffers trailersNull trailerCapacity codingIndex st =
     (let coding = GetTransferCoding info codingIndex;
          current = tsCurrent st;
          isLast = (codingIndex = CodingCount info - 1)
      in if coding = TransferChunked then
           let (destination, destinationCapacity) = SelectDestination (fst current) buffers in
           rbind (DecodeChunkedBodyWithTrailers (as_span current) (destination = NoBuffer)
                    destinationCapacity (if isLast then trailersNull else True)
                    (if isLast then trailerCapacity else 0)) (\<lambda>r.
             if \<not> isLast \<and> bytesConsumed r \<noteq> length (snd current)
             then Err STATUS_INVALID_NETWORK_RESPONSE
             else Ok \<lparr>tsCurrent = (if decodedBody r = [] then NoBuffer else destination, decodedBody r),
                      tsOuterBytesConsumed =
                        (if isLast then bytesConsumed r else tsOuterBytesConsumed st),
                      tsTransformed = True,
                      tsTrailerCount = (if isLast then trailerCount r else tsTrailerCount st),
                      tsTrailers = (if isLast then decodedTrailers r else tsTrailers st)\<rparr>)
         else
           rbind (DecodeOneTransferCoding env coding current buffers) (\<lambda>r.
             Ok (st\<lparr>tsCurrent := (if snd (CodedBody r) = [] then (NoBuffer, []) else CodedBody r),
                    tsTransformed := tsTransformed st \<or> AppliedCoding r\<rparr>)))"

fun transfer_loop ::
  "coding_env \<Rightarrow> HttpTransferCodingInfo \<Rightarrow> HttpCodingDecodeBuffers \<Rightarrow> bool \<Rightarrow> nat \<Rightarrow> nat \<Rightarrow>
   transfer_state \<Rightarrow> transfer_state res"
where
  "transfer_loop env info buffers trailersNull trailerCapacity 0 st = Ok st"
| "transfer_loop env info buffers trailersNull trailerCapacity (Suc codingIndex) st =
     rbind (transfer_step env info buffers trailersNull trailerCapacity codingIndex st)
       (transfer_loop env info buffers trailersNull trailerCapacity codingIndex)"

record HttpTransferDecodeResult =
  TransferBody :: located
  TransferBytesConsumed :: nat
  TransferBodyKind :: HttpBodyKind
  TransferTrailerCount :: nat
  TransferTrailers :: "HttpHeader list"

definition DecodeResponseBody ::
  "coding_env \<Rightarrow> HttpTransferCodingInfo \<Rightarrow> located \<Rightarrow> bool \<Rightarrow> HttpCodingDecodeBuffers \<Rightarrow> bool \<Rightarrow> nat \<Rightarrow>
   HttpTransferDecodeResult res"
where
  "DecodeResponseBody env info wire messageCompleteOnConnectionClose buffers trailersNull
     trailerCapacity =
     (let wireLength = length (snd wire) in
      if \<not> HasTransferEncoding info \<or> CodingCount info = 0 then
        Ok \<lparr>TransferBody = (if snd wire = [] then (NoBuffer, []) else wire),
            TransferBytesConsumed = wireLength,
            TransferBodyKind = (if wireLength = 0 then BodyNone else BodyCloseDelimited),
            TransferTrailerCount = 0, TransferTrailers = []\<rparr>
      else if fst wire = NoBuffer \<and> wireLength \<noteq> 0 then Err STATUS_INVALID_PARAMETER
      else if \<not> FinalCodingIsChunked info \<and> \<not> messageCompleteOnConnectionClose
      then Err STATUS_MORE_PROCESSING_REQUIRED
      else
        rbind (transfer_loop env info buffers trailersNull trailerCapacity (CodingCount info)
          \<lparr>tsCurrent = wire,
           tsOuterBytesConsumed = (if FinalCodingIsChunked info then 0 else wireLength),
           tsTransformed = False, tsTrailerCount = 0, tsTrailers = []\<rparr>) (\<lambda>st.
        rbind (settle_body buffers (tsTransformed st) (tsCurrent st)) (\<lambda>settled.
          Ok \<lparr>TransferBody = settled,
              TransferBytesConsumed = tsOuterBytesConsumed st,
              TransferBodyKind =
                (if FinalCodingIsChunked info then BodyChunked
                 else if wireLength = 0 then BodyNone else BodyCloseDelimited),
              TransferTrailerCount = tsTrailerCount st,
              TransferTrailers = tsTrailers st\<rparr>)))"

section \<open>Content-Encoding\<close>

definition MaxContentCodings :: nat where
  "MaxContentCodings = 2"

definition ParseCoding :: "bytes \<Rightarrow> HttpCoding res" where
  "ParseCoding text =
     (let token = Span (trim_ows text) in
      if trim_ows text = [] then Err STATUS_INVALID_NETWORK_RESPONSE
      else if TextEqualsIgnoreCase token (MakeText ''identity'') then Ok Identity
      else if TextEqualsIgnoreCase token (MakeText ''gzip'') then Ok Gzip
      else if TextEqualsIgnoreCase token (MakeText ''deflate'') then Ok Deflate
      else if TextEqualsIgnoreCase token (MakeText ''br'') then Ok Brotli
      else if TextEqualsIgnoreCase token (MakeText ''compress'') \<or>
              TextEqualsIgnoreCase token (MakeText ''x-compress'')
      then Ok Compress
      else Err STATUS_NOT_SUPPORTED)"

function append_codings_loop :: "bytes \<Rightarrow> HttpCoding list \<Rightarrow> HttpCoding list res" where
  "append_codings_loop value codings =
     (if length codings \<ge> MaxContentCodings then Err STATUS_NOT_SUPPORTED
      else (case ParseCoding (takeWhile (\<lambda>c. c \<noteq> 44) value) of
              Fault \<Rightarrow> Fault
            | Err s \<Rightarrow> Err s
            | Ok coding \<Rightarrow>
                (case dropWhile (\<lambda>c. c \<noteq> 44) value of
                   [] \<Rightarrow> Ok (codings @ [coding])
                 | comma # rest \<Rightarrow>
                     if rest = [] then Err STATUS_INVALID_NETWORK_RESPONSE
                     else append_codings_loop rest (codings @ [coding]))))"
  by pat_completeness auto
termination
  by (relation "measure (\<lambda>(value, codings). length value)") (auto dest: dropWhile_Cons_shorter)

declare append_codings_loop.simps [simp del]

fun AppendCodings :: "HttpText \<Rightarrow> HttpCoding list \<Rightarrow> HttpCoding list res" where
  "AppendCodings (Span v) codings = append_codings_loop v codings"
| "AppendCodings (NullSpan n) codings =
     (if n \<noteq> 0 then Fault
      else if length codings \<ge> MaxContentCodings then Err STATUS_NOT_SUPPORTED
      else Err STATUS_INVALID_NETWORK_RESPONSE)"

fun content_codings :: "HttpHeader list \<Rightarrow> HttpCoding list \<Rightarrow> HttpCoding list res" where
  "content_codings [] codings = Ok codings"
| "content_codings (h # hs) codings =
     (if \<not> TextEqualsIgnoreCase (Name h) (MakeText ''Content-Encoding'')
      then content_codings hs codings
      else rbind (AppendCodings (Value h) codings) (content_codings hs))"

definition ContentEncoding_Decode ::
  "coding_env \<Rightarrow> HttpHeader span \<Rightarrow> located \<Rightarrow> HttpCodingDecodeBuffers \<Rightarrow> HttpCodingDecodeResult res"
where
  "ContentEncoding_Decode env headers body buffers =
     (if (span_null headers \<and> span_len headers \<noteq> 0) \<or> (fst body = NoBuffer \<and> snd body \<noteq> [])
      then Err STATUS_INVALID_PARAMETER
      else if \<not> HeapAvailable env then Err STATUS_INSUFFICIENT_RESOURCES
      else
        rbind (content_codings (span_list headers) []) (\<lambda>codings.
          if codings = [] \<or> snd body = []
          then Ok \<lparr>CodedBody = (if snd body = [] then (NoBuffer, []) else body),
                   AppliedCoding = False\<rparr>
          else DecodeChainReverse env codings body buffers))"

section \<open>The codings announced\<close>

definition codings_of :: "HttpTransferCodingInfo \<Rightarrow> HttpTransferCodingKind list" where
  "codings_of info = map (GetTransferCoding info) [0..<CodingCount info]"

text \<open>The members of all \<open>Transfer-Encoding\<close> fields, in order.\<close>

definition te_members :: "HttpHeader list \<Rightarrow> bytes list" where
  "te_members hs = concat (map (\<lambda>h. comma_members (span_list (Value h)))
     (filter (\<lambda>h. TextEqualsIgnoreCase (Name h) (MakeText ''Transfer-Encoding'')) hs))"

definition te_ok :: "HttpTransferCodingInfo \<Rightarrow> bool" where
  "te_ok info \<longleftrightarrow> CodingCount info \<le> HttpMaxTransferCodings \<and>
     count_list (codings_of info) TransferChunked \<le> 1"

abbreviation te_flags :: "HttpTransferCodingInfo \<Rightarrow> bool \<times> bool" where
  "te_flags info \<equiv> (HasTransferEncoding info, FinalCodingIsChunked info)"

lemma GetTransferCoding_Set:
  "n < HttpMaxTransferCodings \<Longrightarrow> i \<le> n \<Longrightarrow>
   GetTransferCoding (SetTransferCoding info n c) i = (if i = n then c else GetTransferCoding info i)"
  by (auto simp: GetTransferCoding_def SetTransferCoding_def HttpMaxTransferCodings_def)

lemma SetTransferCoding_count [simp]: "CodingCount (SetTransferCoding info n c) = CodingCount info"
  by (simp add: SetTransferCoding_def)

lemma GetTransferCoding_update [simp]:
  "GetTransferCoding (info\<lparr>CodingCount := n\<rparr>) i = GetTransferCoding info i"
  "GetTransferCoding (info\<lparr>HasTransferEncoding := b\<rparr>) i = GetTransferCoding info i"
  "GetTransferCoding (info\<lparr>FinalCodingIsChunked := b\<rparr>) i = GetTransferCoding info i"
  by (simp_all add: GetTransferCoding_def)

lemma AppendTransferCoding_Ok:
  assumes "AppendTransferCoding c info = Ok info'" "te_ok info"
  shows "codings_of info' = codings_of info @ [c] \<and> te_ok info' \<and> te_flags info' = te_flags info"
proof -
  have n: "CodingCount info < HttpMaxTransferCodings"
    and one: "c = TransferChunked \<Longrightarrow> TransferChunked \<notin> set (codings_of info)"
    and info': "info' = (SetTransferCoding info (CodingCount info) c)\<lparr>CodingCount := CodingCount info + 1\<rparr>"
    using assms(1)
    by (auto simp: AppendTransferCoding_def codings_of_def list_ex_iff split: if_splits)
  have "codings_of info' = codings_of info @ [c]"
    using n by (auto simp: info' codings_of_def GetTransferCoding_Set)
  moreover from this have "te_ok info'"
    using assms(2) one n
    by (auto simp: te_ok_def info' count_list_0_iff)
  moreover have "te_flags info' = te_flags info" by (simp add: info' SetTransferCoding_def)
  ultimately show ?thesis by simp
qed

lemma append_transfer_loop_Ok:
  assumes "append_transfer_loop v info = Ok info'" "te_ok info"
  shows "\<exists>ks. map ParseTransferCodingToken (comma_members v) = map Ok ks \<and>
           codings_of info' = codings_of info @ ks \<and> te_ok info' \<and> te_flags info' = te_flags info"
  using assms
proof (induction v info rule: append_transfer_loop.induct)
  case (1 v info)
  let ?d = "dropWhile (\<lambda>c. c \<noteq> 44) v"
  obtain k info1 where k: "ParseTransferCodingToken (takeWhile (\<lambda>c. c \<noteq> 44) v) = Ok k"
    and i1: "AppendTransferCoding k info = Ok info1"
    and rest: "(case ?d of [] \<Rightarrow> Ok info1 | comma # rest \<Rightarrow> append_transfer_loop rest info1) = Ok info'"
    using "1.prems"(1) by (subst (asm) append_transfer_loop.simps) (auto split: res.splits)
  note a = AppendTransferCoding_Ok [OF i1 "1.prems"(2)]
  show ?case
  proof (cases ?d)
    case Nil
    then have "comma_members v = [takeWhile (\<lambda>c. c \<noteq> 44) v]"
      by (subst comma_members_unfold) (simp only: list.case)
    then have "map ParseTransferCodingToken (comma_members v) = map Ok [k]" using k by simp
    moreover have "info' = info1" using rest unfolding Nil by simp
    ultimately show ?thesis using a by blast
  next
    case (Cons c r)
    then obtain ks where "map ParseTransferCodingToken (comma_members r) = map Ok ks"
        "codings_of info' = codings_of info1 @ ks" "te_ok info'" "te_flags info' = te_flags info1"
      using "1.IH" [OF k i1 Cons] rest a by auto
    moreover have "map ParseTransferCodingToken (comma_members v) =
        Ok k # map ParseTransferCodingToken (comma_members r)"
      using k by (subst comma_members_unfold) (simp only: Cons list.case list.map)
    ultimately have "map ParseTransferCodingToken (comma_members v) = map Ok (k # ks)"
      "codings_of info' = codings_of info @ (k # ks)" "te_ok info'" "te_flags info' = te_flags info"
      using a by auto
    then show ?thesis by blast
  qed
qed

lemma parse_transfer_headers_Ok:
  assumes "parse_transfer_headers hs info saw = Ok (info', saw')" "te_ok info"
  shows "\<exists>ks. map ParseTransferCodingToken (te_members hs) = map Ok ks \<and>
    codings_of info' = codings_of info @ ks \<and> te_ok info' \<and> te_flags info' = te_flags info \<and>
    (saw' \<longleftrightarrow> saw \<or> (\<exists>h \<in> set hs. TextEqualsIgnoreCase (Name h) (MakeText ''Transfer-Encoding''))) \<and>
    (\<forall>h \<in> set hs. TextEqualsIgnoreCase (Name h) (MakeText ''Transfer-Encoding'') \<longrightarrow> \<not> span_null (Value h))"
  using assms
proof (induction hs arbitrary: info saw)
  case Nil
  then show ?case by (simp add: te_members_def)
next
  case (Cons h hs)
  show ?case
  proof (cases "TextEqualsIgnoreCase (Name h) (MakeText ''Transfer-Encoding'')")
    case False
    then show ?thesis using Cons by (auto simp: te_members_def)
  next
    case True
    then obtain info1 where i1: "AppendTransferCodings (Value h) info = Ok info1"
      and rest: "parse_transfer_headers hs info1 True = Ok (info', saw')"
      using Cons.prems by auto
    then obtain v where v: "Value h = Span v" "append_transfer_loop v info = Ok info1"
      by (cases "Value h") (auto split: if_splits)
    from append_transfer_loop_Ok [OF v(2) Cons.prems(2)] obtain ks1 where
      ks1: "map ParseTransferCodingToken (comma_members v) = map Ok ks1"
        "codings_of info1 = codings_of info @ ks1" "te_ok info1" "te_flags info1 = te_flags info"
      by blast
    from Cons.IH [OF rest ks1(3)] obtain ks2 where
      ks2: "map ParseTransferCodingToken (te_members hs) = map Ok ks2"
        "codings_of info' = codings_of info1 @ ks2" "te_ok info'" "te_flags info' = te_flags info1" "saw'"
        "\<forall>h \<in> set hs. TextEqualsIgnoreCase (Name h) (MakeText ''Transfer-Encoding'') \<longrightarrow>
          \<not> span_null (Value h)" by blast
    have "map ParseTransferCodingToken (te_members (h # hs)) = map Ok (ks1 @ ks2)"
      using True ks1(1) ks2(1) v(1) by (simp add: te_members_def)
    then show ?thesis using ks1 ks2 True v(1) by (intro exI [of _ "ks1 @ ks2"]) auto
  qed
qed

lemma te_ok_empty: "te_ok empty_info"
  by (simp add: te_ok_def empty_info_def codings_of_def)

lemma comma_members_te: "te_members hs = [] \<Longrightarrow>
  \<not> (\<exists>h \<in> set hs. TextEqualsIgnoreCase (Name h) (MakeText ''Transfer-Encoding''))"
  by (auto simp: te_members_def)

lemma TransferCoding_Parse_Ok:
  assumes "TransferCoding_Parse headers = Ok info"
  shows "map ParseTransferCodingToken (te_members (span_list headers)) = map Ok (codings_of info)"
    "te_ok info"
    "HasTransferEncoding info \<longleftrightarrow>
       (\<exists>h \<in> set (span_list headers). TextEqualsIgnoreCase (Name h) (MakeText ''Transfer-Encoding''))"
    "HasTransferEncoding info \<longleftrightarrow> codings_of info \<noteq> []"
    "FinalCodingIsChunked info \<longleftrightarrow> codings_of info \<noteq> [] \<and> last (codings_of info) = TransferChunked"
proof -
  obtain info1 saw where p: "parse_transfer_headers (span_list headers) empty_info False = Ok (info1, saw)"
    and f: "(if \<not> saw then Ok info1
          else if CodingCount info1 = 0 then Err STATUS_INVALID_NETWORK_RESPONSE
          else Ok (info1\<lparr>HasTransferEncoding := True, FinalCodingIsChunked :=
                 (GetTransferCoding info1 (CodingCount info1 - 1) = TransferChunked)\<rparr>)) = Ok info"
    using assms by (auto simp: TransferCoding_Parse_def split: if_splits)
  from parse_transfer_headers_Ok [OF p te_ok_empty] obtain ks where ks:
    "map ParseTransferCodingToken (te_members (span_list headers)) = map Ok ks"
    "codings_of info1 = codings_of empty_info @ ks" "te_ok info1" "te_flags info1 = te_flags empty_info"
    "saw \<longleftrightarrow> (\<exists>h \<in> set (span_list headers). TextEqualsIgnoreCase (Name h) (MakeText ''Transfer-Encoding''))"
    by auto
  have c1: "codings_of info1 = ks" using ks(2) by (simp add: codings_of_def empty_info_def)
  have c: "codings_of info = codings_of info1" "CodingCount info = CodingCount info1"
    using f by (auto simp: codings_of_def split: if_splits)
  show "map ParseTransferCodingToken (te_members (span_list headers)) = map Ok (codings_of info)"
    using ks(1) c1 c by simp
  show "te_ok info" using ks(3) c by (simp add: te_ok_def)
  have flags: "saw \<Longrightarrow> HasTransferEncoding info \<and> CodingCount info1 \<noteq> 0 \<and> FinalCodingIsChunked info =
      (GetTransferCoding info1 (CodingCount info1 - 1) = TransferChunked)" "\<not> saw \<Longrightarrow> info = info1"
    using f by (auto split: if_splits)
  have unset: "\<not> HasTransferEncoding info1 \<and> \<not> FinalCodingIsChunked info1"
    using ks(4) by (simp add: empty_info_def)
  have empty: "\<not> saw \<Longrightarrow> ks = []"
    using ks(1,5) by (auto simp: te_members_def filter_empty_conv)
  show "HasTransferEncoding info \<longleftrightarrow>
       (\<exists>h \<in> set (span_list headers). TextEqualsIgnoreCase (Name h) (MakeText ''Transfer-Encoding''))"
    using flags unset ks(5) by auto
  show "HasTransferEncoding info \<longleftrightarrow> codings_of info \<noteq> []"
    using flags unset empty c c1 by (cases saw) (auto simp: codings_of_def)
  show "FinalCodingIsChunked info \<longleftrightarrow> codings_of info \<noteq> [] \<and> last (codings_of info) = TransferChunked"
    using flags unset empty c c1 by (cases saw) (auto simp: codings_of_def last_map)
qed

section \<open>Safety of the body decoder\<close>

lemma DecodeChainReverse_safe:
  assumes env: "env_ok env" "buffers_ok buffers" and cur: "located_ok buffers cur"
  shows "DecodeChainReverse env codings cur buffers \<noteq> Fault \<and>
    (\<forall>r. DecodeChainReverse env codings cur buffers = Ok r \<longrightarrow> located_ok buffers (CodedBody r))"
proof (cases "(fst cur = NoBuffer \<and> snd cur \<noteq> []) \<or> codings = [] \<or> snd cur = []")
  case True
  then show ?thesis using cur by (auto simp: DecodeChainReverse_def located_ok_def)
next
  case False
  note safe = chain_loop_safe [OF env cur, of "rev codings" False]
  show ?thesis
  proof (cases "chain_loop env buffers (rev codings) cur False")
    case (Ok p)
    obtain c tr where p: "p = (c, tr)" by (cases p)
    then have "located_ok buffers c" using safe Ok by blast
    then show ?thesis
      using False Ok p settle_body_safe [of buffers c tr]
      by (auto simp: DecodeChainReverse_def rbind_eq_Fault)
  qed (use False safe in \<open>auto simp: DecodeChainReverse_def\<close>)
qed

definition trailers_ok :: "bool \<Rightarrow> nat \<Rightarrow> nat \<Rightarrow> HttpHeader list \<Rightarrow> bool" where
  "trailers_ok trailersNull tcap count ts \<longleftrightarrow>
     (\<forall>h \<in> set ts. valid_trailer h) \<and>
     (if trailersNull then ts = [] else length ts = count \<and> count \<le> tcap)"

definition transfer_ok :: "HttpCodingDecodeBuffers \<Rightarrow> bool \<Rightarrow> nat \<Rightarrow> nat \<Rightarrow> transfer_state \<Rightarrow> bool" where
  "transfer_ok buffers trailersNull tcap wireLength st \<longleftrightarrow>
     located_ok buffers (tsCurrent st) \<and> tsOuterBytesConsumed st \<le> wireLength \<and>
     trailers_ok trailersNull tcap (tsTrailerCount st) (tsTrailers st)"

lemma transfer_step_safe:
  assumes env: "env_ok env" "buffers_ok buffers"
    and st: "transfer_ok buffers tn tcap wireLength st"
    and last: "i = CodingCount info - 1 \<Longrightarrow> length (snd (tsCurrent st)) \<le> wireLength"
  shows "transfer_step env info buffers tn tcap i st \<noteq> Fault \<and>
    (\<forall>st'. transfer_step env info buffers tn tcap i st = Ok st' \<longrightarrow>
       transfer_ok buffers tn tcap wireLength st')"
proof (cases "GetTransferCoding info i = TransferChunked")
  case True
  obtain d c where sel: "SelectDestination (fst (tsCurrent st)) buffers = (d, c)" by force
  define isLast where "isLast \<longleftrightarrow> i = CodingCount info - 1"
  let ?r = "DecodeChunkedBodyWithTrailers (as_span (tsCurrent st)) (d = NoBuffer) c
      (if isLast then tn else True) (if isLast then tcap else 0)"
  have len: "length (span_list (as_span (tsCurrent st))) \<le> length (snd (tsCurrent st))"
    by (cases "tsCurrent st") simp
  have ok: "transfer_ok buffers tn tcap wireLength st'"
    if r: "?r = Ok r" and st': "transfer_step env info buffers tn tcap i st = Ok st'" for r st'
  proof -
    note cr = DecodeChunkedBodyWithTrailers_ok(2) [OF r]
    have "located_ok buffers (if decodedBody r = [] then NoBuffer else d, decodedBody r)"
      using cr SelectDestination_ok(2) [OF sel] by (simp add: chunked_result_ok_def located_ok_def)
    moreover have "st' = \<lparr>tsCurrent = (if decodedBody r = [] then NoBuffer else d, decodedBody r),
        tsOuterBytesConsumed = (if isLast then bytesConsumed r else tsOuterBytesConsumed st),
        tsTransformed = True,
        tsTrailerCount = (if isLast then trailerCount r else tsTrailerCount st),
        tsTrailers = (if isLast then decodedTrailers r else tsTrailers st)\<rparr>"
      using st' True sel r by (auto simp: transfer_step_def isLast_def Let_def split: if_splits)
    ultimately show ?thesis
      using cr st last len
      by (auto simp: transfer_ok_def trailers_ok_def chunked_result_ok_def isLast_def)
  qed
  have "transfer_step env info buffers tn tcap i st \<noteq> Fault"
    using True sel DecodeChunkedBodyWithTrailers_ok(1)
    by (simp add: transfer_step_def rbind_eq_Fault Let_def)
  moreover have "\<exists>r. ?r = Ok r" if "transfer_step env info buffers tn tcap i st = Ok st'" for st'
    using that True sel by (auto simp: transfer_step_def isLast_def Let_def)
  ultimately show ?thesis using ok by blast
next
  case False
  then obtain coding where coding:
    "TransferCodingToHttpCoding (GetTransferCoding info i) = Some coding"
    by (cases "GetTransferCoding info i") auto
  have "located_ok buffers (tsCurrent st)" using st by (simp add: transfer_ok_def)
  note chain = DecodeChainReverse_safe [OF env this, of "[coding]"]
  have empty: "located_ok buffers (NoBuffer, [])" by (simp add: located_ok_def)
  show ?thesis
    using False coding chain st empty
    by (auto simp: transfer_step_def DecodeOneTransferCoding_def rbind_eq_Fault transfer_ok_def)
qed

lemma transfer_loop_safe:
  assumes env: "env_ok env" "buffers_ok buffers"
    and "transfer_ok buffers tn tcap wireLength st" "n < CodingCount info"
  shows "transfer_loop env info buffers tn tcap n st \<noteq> Fault \<and>
    (\<forall>st'. transfer_loop env info buffers tn tcap n st = Ok st' \<longrightarrow>
       transfer_ok buffers tn tcap wireLength st')"
  using assms(3,4)
proof (induction n arbitrary: st)
  case (Suc n)
  then have "transfer_step env info buffers tn tcap n st \<noteq> Fault \<and>
    (\<forall>st'. transfer_step env info buffers tn tcap n st = Ok st' \<longrightarrow>
       transfer_ok buffers tn tcap wireLength st')"
    by (intro transfer_step_safe [OF env]) auto
  then show ?case using Suc by (auto simp: rbind_eq_Fault)
qed simp

lemma DecodeResponseBody_safe:
  assumes env: "env_ok env" "buffers_ok buffers"
    and wire: "length body \<le> MaxSizeT"
  shows "DecodeResponseBody env info (WireBuffer, body) close buffers tn tcap \<noteq> Fault \<and>
    (\<forall>r. DecodeResponseBody env info (WireBuffer, body) close buffers tn tcap = Ok r \<longrightarrow>
       located_ok buffers (TransferBody r) \<and> TransferBytesConsumed r \<le> length body \<and>
       (HasTransferEncoding info \<and> CodingCount info \<noteq> 0 \<longrightarrow>
          trailers_ok tn tcap (TransferTrailerCount r) (TransferTrailers r)))"
proof -
  have loc: "located_ok buffers (WireBuffer, body)"
    using wire by (simp add: located_ok_def loc_capacity_def)
  let ?st = "\<lparr>tsCurrent = (WireBuffer, body),
      tsOuterBytesConsumed = (if FinalCodingIsChunked info then 0 else length body),
      tsTransformed = False, tsTrailerCount = 0, tsTrailers = []\<rparr>"
  have init: "transfer_ok buffers tn tcap (length body) ?st"
    using loc by (simp add: transfer_ok_def trailers_ok_def)
  have loop: "transfer_loop env info buffers tn tcap (CodingCount info) ?st \<noteq> Fault \<and>
    (\<forall>st'. transfer_loop env info buffers tn tcap (CodingCount info) ?st = Ok st' \<longrightarrow>
       transfer_ok buffers tn tcap (length body) st')"
  proof (cases "CodingCount info")
    case 0
    then show ?thesis using init by simp
  next
    case (Suc n)
    have "transfer_step env info buffers tn tcap n ?st \<noteq> Fault \<and>
      (\<forall>st'. transfer_step env info buffers tn tcap n ?st = Ok st' \<longrightarrow>
         transfer_ok buffers tn tcap (length body) st')"
      by (rule transfer_step_safe [OF env init]) simp
    then show ?thesis
      using Suc transfer_loop_safe [OF env, of tn tcap "length body" _ n info]
      by (auto simp: rbind_eq_Fault)
  qed
  have settle: "settle_body buffers tr cur \<noteq> Fault \<and>
      (\<forall>cur'. settle_body buffers tr cur = Ok cur' \<longrightarrow> located_ok buffers cur')"
    if "located_ok buffers cur" for tr cur using settle_body_safe [OF that] by blast
  have empty: "located_ok buffers (NoBuffer, [])" by (simp add: located_ok_def)
  show ?thesis
  proof (cases "HasTransferEncoding info \<and> CodingCount info \<noteq> 0 \<and> (FinalCodingIsChunked info \<or> close)")
    case False
    then show ?thesis using loc empty by (auto simp: DecodeResponseBody_def Let_def)
  next
    case True
    show ?thesis
    proof (cases "transfer_loop env info buffers tn tcap (CodingCount info) ?st")
      case (Ok st)
      then have "transfer_ok buffers tn tcap (length body) st" using loop by blast
      then show ?thesis
        using True Ok settle [of "tsCurrent st" "tsTransformed st"]
        by (auto simp: DecodeResponseBody_def Let_def rbind_eq_Fault transfer_ok_def)
    qed (use True loop in \<open>auto simp: DecodeResponseBody_def Let_def\<close>)
  qed
qed

section \<open>Bytes that follow a chunked message\<close>

lemma DecodeChunkedBodyWithTrailers_append:
  assumes "DecodeChunkedBodyWithTrailers (Span data) bn cap tn tcap \<noteq>
    Err STATUS_MORE_PROCESSING_REQUIRED"
  shows "DecodeChunkedBodyWithTrailers (Span (data @ later)) bn cap tn tcap =
    DecodeChunkedBodyWithTrailers (Span data) bn cap tn tcap"
  using assms decode_chunks_append by (auto simp: DecodeChunkedBodyWithTrailers_def)

lemma transfer_step_append:
  assumes chunked: "GetTransferCoding info i = TransferChunked" and last: "i = CodingCount info - 1"
    and cur: "tsCurrent st = (WireBuffer, body)"
    and fin: "transfer_step env info buffers tn tcap i st \<noteq> Err STATUS_MORE_PROCESSING_REQUIRED"
  shows "transfer_step env info buffers tn tcap i (st\<lparr>tsCurrent := (WireBuffer, body @ later)\<rparr>) =
         transfer_step env info buffers tn tcap i st"
proof -
  obtain d c where sel: "SelectDestination WireBuffer buffers = (d, c)" by force
  have "DecodeChunkedBodyWithTrailers (Span body) (d = NoBuffer) c tn tcap \<noteq>
      Err STATUS_MORE_PROCESSING_REQUIRED"
    using fin chunked last cur sel by (auto simp: transfer_step_def Let_def)
  from DecodeChunkedBodyWithTrailers_append [OF this, of later]
  show ?thesis using chunked last cur sel by (simp add: transfer_step_def Let_def)
qed

lemma DecodeResponseBody_append:
  assumes te: "HasTransferEncoding info" "FinalCodingIsChunked info" "CodingCount info \<noteq> 0"
      "GetTransferCoding info (CodingCount info - 1) = TransferChunked"
    and fin: "DecodeResponseBody env info (WireBuffer, body) close buffers tn tcap \<noteq>
      Err STATUS_MORE_PROCESSING_REQUIRED"
  shows "DecodeResponseBody env info (WireBuffer, body @ later) close buffers tn tcap =
    DecodeResponseBody env info (WireBuffer, body) close buffers tn tcap"
proof -
  obtain n where n: "CodingCount info = Suc n" using te(3) not0_implies_Suc by blast
  let ?st = "\<lambda>b. \<lparr>tsCurrent = (WireBuffer, b), tsOuterBytesConsumed = 0, tsTransformed = False,
      tsTrailerCount = 0, tsTrailers = []\<rparr>"
  have unf: "DecodeResponseBody env info (WireBuffer, b) close buffers tn tcap =
      rbind (rbind (transfer_step env info buffers tn tcap n (?st b))
        (transfer_loop env info buffers tn tcap n)) (\<lambda>st.
      rbind (settle_body buffers (tsTransformed st) (tsCurrent st)) (\<lambda>settled.
        Ok \<lparr>TransferBody = settled, TransferBytesConsumed = tsOuterBytesConsumed st,
            TransferBodyKind = BodyChunked, TransferTrailerCount = tsTrailerCount st,
            TransferTrailers = tsTrailers st\<rparr>))" for b
    using te(1,2) n by (simp add: DecodeResponseBody_def Let_def)
  have "transfer_step env info buffers tn tcap n (?st body) \<noteq> Err STATUS_MORE_PROCESSING_REQUIRED"
    using fin unfolding unf by (metis rbind.simps(2))
  then have "transfer_step env info buffers tn tcap n
      ((?st body)\<lparr>tsCurrent := (WireBuffer, body @ later)\<rparr>) =
      transfer_step env info buffers tn tcap n (?st body)"
    by (intro transfer_step_append) (use te(4) n in simp_all)
  then have "transfer_step env info buffers tn tcap n (?st (body @ later)) =
      transfer_step env info buffers tn tcap n (?st body)" by simp
  then show ?thesis by (simp only: unf)
qed

section \<open>Content codings\<close>

lemma append_codings_loop_no_fault: "append_codings_loop v cs \<noteq> Fault"
proof (induction v cs rule: append_codings_loop.induct)
  case (1 v cs)
  have "ParseCoding t \<noteq> Fault" for t by (simp add: ParseCoding_def Let_def)
  then show ?case
    using 1 by (subst append_codings_loop.simps) (auto split: res.split list.split)
qed

lemma content_codings_no_fault:
  "\<forall>h \<in> set hs. \<not> span_null (Value h) \<Longrightarrow> content_codings hs cs \<noteq> Fault"
proof (induction hs arbitrary: cs)
  case (Cons h hs)
  then obtain v where "Value h = Span v" by (cases "Value h") auto
  then show ?case using Cons by (auto simp: rbind_eq_Fault append_codings_loop_no_fault)
qed simp

lemma ContentEncoding_Decode_safe:
  assumes env: "env_ok env" "buffers_ok buffers" and body: "located_ok buffers body"
    and hs: "\<forall>h \<in> set (span_list headers). \<not> span_null (Value h)"
  shows "ContentEncoding_Decode env headers body buffers \<noteq> Fault \<and>
    (\<forall>r. ContentEncoding_Decode env headers body buffers = Ok r \<longrightarrow> located_ok buffers (CodedBody r))"
proof -
  have empty: "located_ok buffers (NoBuffer, [])" by (simp add: located_ok_def)
  show ?thesis
    using DecodeChainReverse_safe [OF env body] content_codings_no_fault [OF hs] body empty
    by (auto simp: ContentEncoding_Decode_def rbind_eq_Fault split: if_splits)
qed

lemma append_transfer_loop_no_fault: "append_transfer_loop v info \<noteq> Fault"
proof (induction v info rule: append_transfer_loop.induct)
  case (1 v info)
  have "ParseTransferCodingToken t \<noteq> Fault" for t
    by (simp add: ParseTransferCodingToken_def Let_def)
  moreover have "AppendTransferCoding c i \<noteq> Fault" for c i by (simp add: AppendTransferCoding_def)
  ultimately show ?case
    using 1 by (subst append_transfer_loop.simps) (auto split: res.split list.split)
qed

lemma TransferCoding_Parse_no_fault:
  assumes "\<forall>h \<in> set (span_list headers). \<not> span_null (Value h)"
  shows "TransferCoding_Parse headers \<noteq> Fault"
proof -
  have "parse_transfer_headers hs info saw \<noteq> Fault" if "\<forall>h \<in> set hs. \<not> span_null (Value h)"
    for hs info saw using that
  proof (induction hs arbitrary: info saw)
    case (Cons h hs)
    then obtain v where "Value h = Span v" by (cases "Value h") auto
    then show ?case using Cons by (auto simp: rbind_eq_Fault append_transfer_loop_no_fault)
  qed simp
  then show ?thesis using assms by (auto simp: TransferCoding_Parse_def rbind_eq_Fault split: prod.splits)
qed

section \<open>Properties\<close>

text \<open>\<open>HttpTransferCoding::Parse\<close> reads exactly the codings announced: over all
  \<open>Transfer-Encoding\<close> fields, in order, each comma-separated member is one coding; at most
  \<open>HttpMaxTransferCodings\<close> are accepted, \<open>chunked\<close> at most once, and
  \<open>FinalCodingIsChunked\<close> is set exactly when the last coding is \<open>chunked\<close>.\<close>

theorem TransferCoding_Parse_spec:
  assumes "TransferCoding_Parse headers = Ok info"
  shows "map ParseTransferCodingToken (te_members (span_list headers)) = map Ok (codings_of info) \<and>
    length (codings_of info) \<le> HttpMaxTransferCodings \<and>
    count_list (codings_of info) TransferChunked \<le> 1 \<and>
    (HasTransferEncoding info \<longleftrightarrow>
       (\<exists>h \<in> set (span_list headers). TextEqualsIgnoreCase (Name h) (MakeText ''Transfer-Encoding''))) \<and>
    (FinalCodingIsChunked info \<longleftrightarrow> codings_of info \<noteq> [] \<and> last (codings_of info) = TransferChunked)"
  using TransferCoding_Parse_Ok [OF assms] by (simp add: te_ok_def codings_of_def)

theorem TransferCoding_Parse_spec_witness:
  "\<exists>info. TransferCoding_Parse (Span [\<lparr>Name = MakeText ''transfer-encoding'',
       Value = MakeText ''gzip, Chunked''\<rparr>]) = Ok info \<and>
     codings_of info = [TransferGzip, TransferChunked] \<and> FinalCodingIsChunked info"
proof -
  let ?hs = "[\<lparr>Name = MakeText ''transfer-encoding'', Value = MakeText ''gzip, Chunked''\<rparr>]"
  have "\<exists>info. TransferCoding_Parse (Span ?hs) = Ok info \<and>
      codings_of info = [TransferGzip, TransferChunked]"
    by (simp add: TransferCoding_Parse_def MakeText_def lit_def TextEqualsIgnoreCase_Span
        ToLowerAscii_def IsUpperAscii_def append_transfer_loop.simps ParseTransferCodingToken_def
        trim_ows_def IsOptionalWhitespace_def IsValidToken_def IsTchar_def AppendTransferCoding_def
        empty_info_def HttpMaxTransferCodings_def SetTransferCoding_def GetTransferCoding_def
        codings_of_def)
  then obtain info where "TransferCoding_Parse (Span ?hs) = Ok info"
    "codings_of info = [TransferGzip, TransferChunked]" by blast
  then show ?thesis using TransferCoding_Parse_spec [of "Span ?hs" info] by auto
qed

end
