(* ===== verification/Kh_HttpParser.thy ===== *)
theory Kh_HttpParser
  imports Kh_HttpTransferCoding
begin

text \<open>
  The HTTP/1 response parser of \<^verbatim>\<open>http/HttpParser.cpp\<close>: status line, header section,
  \<open>Content-Length\<close>, and \<open>ParseResponse\<close>, which decides how the body is delimited.
\<close>

section \<open>Status line\<close>

definition StatusCodeHasNoBody :: "USHORT \<Rightarrow> bool" where
  "StatusCodeHasNoBody statusCode \<longleftrightarrow>
     (100 \<le> statusCode \<and> statusCode \<le> 199) \<or> statusCode = 204 \<or> statusCode = 205 \<or> statusCode = 304"

record status_line =
  slMajor :: USHORT
  slMinor :: USHORT
  slStatusCode :: USHORT
  slReason :: HttpText

text \<open>The part of the line after the version: the status code and the reason phrase.\<close>

definition parse_status_code :: "bytes \<Rightarrow> (USHORT \<times> HttpText) res" where
  "parse_status_code rest =
     (let text = dropWhile (\<lambda>c. c = 32) rest in
      if length text < 3 \<or> \<not> IsDigit (text ! 0) \<or> \<not> IsDigit (text ! 1) \<or> \<not> IsDigit (text ! 2)
      then Err STATUS_INVALID_NETWORK_RESPONSE
      else rbind (ParseUInt16 (take 3 text)) (\<lambda>code.
        if code < 100 \<or> code > 599 then Err STATUS_INVALID_NETWORK_RESPONSE
        else (case drop 3 text of
                [] \<Rightarrow> Ok (code, NullSpan 0)
              | c # reason \<Rightarrow>
                  if c \<noteq> 32 then Err STATUS_INVALID_NETWORK_RESPONSE else Ok (code, Span reason))))"

definition ParseStatusLine :: "bytes \<Rightarrow> status_line res" where
  "ParseStatusLine line =
     (if \<not> StartsWith line (lit ''HTTP/'') then Err STATUS_INVALID_NETWORK_RESPONSE
      else
        let majorDigits = takeWhile IsDigit (drop 5 line);
            r1 = dropWhile IsDigit (drop 5 line)
        in if majorDigits = [] \<or> r1 = [] \<or> hd r1 \<noteq> 46 then Err STATUS_INVALID_NETWORK_RESPONSE
           else rbind (ParseUInt16 majorDigits) (\<lambda>major.
             let minorDigits = takeWhile IsDigit (tl r1);
                 r2 = dropWhile IsDigit (tl r1)
             in if minorDigits = [] \<or> r2 = [] \<or> hd r2 \<noteq> 32 then Err STATUS_INVALID_NETWORK_RESPONSE
                else rbind (ParseUInt16 minorDigits) (\<lambda>minor.
                  if major \<noteq> 1 \<or> minor > 1 then Err STATUS_INVALID_NETWORK_RESPONSE
                  else rbind (parse_status_code r2) (\<lambda>(code, reason).
                    Ok \<lparr>slMajor = major, slMinor = minor, slStatusCode = code, slReason = reason\<rparr>))))"

section \<open>Header section\<close>

text \<open>
  The loop of \<open>ParseHeaders\<close>. The caller passes a \<open>headerEnd\<close> of at least 4, so
  \<open>headerEnd - 2\<close> does not wrap.
\<close>

function parse_headers_loop ::
  "bytes \<Rightarrow> nat \<Rightarrow> bool \<Rightarrow> nat \<Rightarrow> nat \<Rightarrow> HttpHeader list \<Rightarrow> HttpHeader list res"
where
  "parse_headers_loop data headerEnd headersNull headerCapacity cursor headers =
     (if \<not> cursor < headerEnd - 2 then Ok headers
      else (case FindCrlf data cursor of
              None \<Rightarrow> Err STATUS_INVALID_NETWORK_RESPONSE
            | Some lineEnd \<Rightarrow>
                if lineEnd > headerEnd then Err STATUS_INVALID_NETWORK_RESPONSE
                else if lineEnd - cursor > KhHttpMaxHeaderLineBytes
                then Err STATUS_INVALID_NETWORK_RESPONSE
                else if lineEnd = cursor then Ok headers
                else (case rd data cursor of
                  Fault \<Rightarrow> Fault | Err s \<Rightarrow> Err s
                | Ok c \<Rightarrow>
                    if c = 32 \<or> c = 9 then Err STATUS_INVALID_NETWORK_RESPONSE
                    else
                      let line = slice data cursor lineEnd;
                          name = Span (field_name line);
                          value = Span (field_value line)
                      in if 58 \<notin> set line \<or> field_name line = []
                         then Err STATUS_INVALID_NETWORK_RESPONSE
                         else if length headers \<ge> KhHttpMaxHeaders \<or>
                                 length headers \<ge> headerCapacity \<or> headersNull
                         then Err STATUS_BUFFER_TOO_SMALL
                         else if \<not> IsValidHeaderName name \<or> \<not> IsValidHeaderValue value
                         then Err STATUS_INVALID_NETWORK_RESPONSE
                         else parse_headers_loop data headerEnd headersNull headerCapacity
                                (lineEnd + 2) (headers @ [\<lparr>Name = name, Value = value\<rparr>]))))"
  by pat_completeness auto
termination
  by (relation "measure (\<lambda>(data, he, hn, hc, cursor, hs). length data - cursor)")
     (auto dest!: FindCrlf_bounds)

declare parse_headers_loop.simps [simp del]

definition ParseHeaders ::
  "bytes \<Rightarrow> nat \<Rightarrow> nat \<Rightarrow> bool \<Rightarrow> nat \<Rightarrow> HttpHeader list res"
where
  "ParseHeaders data headerStart headerEnd headersNull headerCapacity =
     (if headerEnd < headerStart \<or> headerEnd - headerStart > KhHttpMaxHeaderBytes
      then Err STATUS_INVALID_NETWORK_RESPONSE
      else parse_headers_loop data headerEnd headersNull headerCapacity headerStart [])"

section \<open>Content-Length\<close>

fun read_content_length :: "HttpHeader list \<Rightarrow> ULONGLONG option \<Rightarrow> ULONGLONG option res" where
  "read_content_length [] found = Ok found"
| "read_content_length (h # hs) found =
     (if \<not> TextEqualsIgnoreCase (Name h) (MakeText ''Content-Length'') then read_content_length hs found
      else rbind (TrimOptionalWhitespace (Value h)) (\<lambda>value.
        if span_len value = 0 \<or> ContainsChar (span_list value) 44
        then Err STATUS_INVALID_NETWORK_RESPONSE
        else if found \<noteq> None then Err STATUS_INVALID_NETWORK_RESPONSE
        else rbind (ParseSize (span_list value)) (\<lambda>parsed. read_content_length hs (Some parsed))))"

text \<open>\<open>None\<close> is \<open>*found = false\<close>.\<close>

definition ReadContentLength :: "HttpResponse \<Rightarrow> ULONGLONG option res" where
  "ReadContentLength response = read_content_length (span_list (Headers response)) None"

section \<open>ParseResponse\<close>

record HttpParseOptions =
  OptHeadersNull :: bool
  OptHeaderCapacity :: nat
  OptTrailersNull :: bool
  OptTrailerCapacity :: nat
  OptBuffers :: HttpCodingDecodeBuffers
  MessageCompleteOnConnectionClose :: bool
  ResponseBodyForbidden :: bool

definition ApplyContentEncoding ::
  "coding_env \<Rightarrow> HttpParseOptions \<Rightarrow> HttpResponse \<Rightarrow> located \<Rightarrow> HttpResponse res"
where
  "ApplyContentEncoding env options response body =
     (if snd body = [] then Ok (response\<lparr>Body := NullSpan 0\<rparr>)
      else
        rbind (ContentEncoding_Decode env (Headers response) body (OptBuffers options)) (\<lambda>decoded.
          Ok (response\<lparr>Body := (if snd (CodedBody decoded) = [] then NullSpan 0
                                else as_span (CodedBody decoded))\<rparr>)))"

text \<open>The array of the caller after \<open>n\<close> entries have been stored in it.\<close>

definition caller_array :: "bool \<Rightarrow> HttpHeader list \<Rightarrow> HttpHeader span" where
  "caller_array null hs = (if null then NullSpan 0 else Span hs)"

text \<open>The three ways a body is delimited, after the header section has been parsed.\<close>

definition parse_transfer_body ::
  "coding_env \<Rightarrow> HttpParseOptions \<Rightarrow> HttpTransferCodingInfo \<Rightarrow> bytes \<Rightarrow> nat \<Rightarrow> HttpResponse \<Rightarrow>
   HttpResponse res"
where
  "parse_transfer_body env options transferInfo data headerEnd response =
     rbind (DecodeResponseBody env transferInfo (WireBuffer, drop headerEnd data)
              (MessageCompleteOnConnectionClose options) (OptBuffers options)
              (OptTrailersNull options) (OptTrailerCapacity options)) (\<lambda>decoded.
       ApplyContentEncoding env options
         (response\<lparr>BodyKind := TransferBodyKind decoded,
                   Trailers := caller_array (OptTrailersNull options) (TransferTrailers decoded),
                   BodyEndsOnConnectionClose :=
                     (HasTransferEncoding transferInfo \<and> \<not> FinalCodingIsChunked transferInfo \<and>
                      MessageCompleteOnConnectionClose options),
                   BytesConsumed := headerEnd + TransferBytesConsumed decoded\<rparr>)
         (TransferBody decoded))"

definition parse_length_body ::
  "coding_env \<Rightarrow> HttpParseOptions \<Rightarrow> ULONGLONG \<Rightarrow> bytes \<Rightarrow> nat \<Rightarrow> HttpResponse \<Rightarrow> HttpResponse res"
where
  "parse_length_body env options contentLength data headerEnd response =
     (if unat contentLength > length data - headerEnd then Err STATUS_MORE_PROCESSING_REQUIRED
      else
        ApplyContentEncoding env options
          (response\<lparr>BodyKind := (if contentLength = 0 then BodyNone else BodyContentLength),
                    BytesConsumed := headerEnd + unat contentLength\<rparr>)
          (if contentLength = 0 then (NoBuffer, [])
           else (WireBuffer, take (unat contentLength) (drop headerEnd data))))"

definition parse_close_body ::
  "coding_env \<Rightarrow> HttpParseOptions \<Rightarrow> bytes \<Rightarrow> nat \<Rightarrow> HttpResponse \<Rightarrow> HttpResponse res"
where
  "parse_close_body env options data headerEnd response =
     ApplyContentEncoding env options
       (response\<lparr>BodyKind := (if length data = headerEnd then BodyNone else BodyCloseDelimited),
                 BodyEndsOnConnectionClose := True,
                 BytesConsumed := length data\<rparr>)
       (if length data = headerEnd then (NoBuffer, []) else (WireBuffer, drop headerEnd data))"

definition parse_body ::
  "coding_env \<Rightarrow> HttpParseOptions \<Rightarrow> bytes \<Rightarrow> nat \<Rightarrow> HttpResponse \<Rightarrow> HttpResponse res"
where
  "parse_body env options data headerEnd response =
     (if ResponseBodyForbidden options \<or> StatusCodeHasNoBody (StatusCode response)
      then Ok (response\<lparr>BodyKind := BodyNone, Body := NullSpan 0, BytesConsumed := headerEnd\<rparr>)
      else
        rbind (TransferCoding_Parse (Headers response)) (\<lambda>transferInfo.
          if HasTransferEncoding transferInfo \<and>
             (MajorVersion response < 1 \<or> (MajorVersion response = 1 \<and> MinorVersion response < 1))
          then Err STATUS_INVALID_NETWORK_RESPONSE
          else
            rbind (ReadContentLength response) (\<lambda>found.
              if HasTransferEncoding transferInfo then
                if found \<noteq> None then Err STATUS_INVALID_NETWORK_RESPONSE
                else parse_transfer_body env options transferInfo data headerEnd response
              else (case found of
                      Some contentLength \<Rightarrow>
                        parse_length_body env options contentLength data headerEnd response
                    | None \<Rightarrow>
                        if MessageCompleteOnConnectionClose options
                        then parse_close_body env options data headerEnd response
                        else Err STATUS_MORE_PROCESSING_REQUIRED))))"

definition ParseResponse ::
  "coding_env \<Rightarrow> UCHAR span \<Rightarrow> HttpParseOptions \<Rightarrow> HttpResponse res"
where
  "ParseResponse env input options =
     (if span_null input then Err STATUS_INVALID_PARAMETER
      else
        let data = span_list input in
        if data = [] then Err STATUS_MORE_PROCESSING_REQUIRED
        else (case FindHeaderEnd data of
                None \<Rightarrow> Err STATUS_MORE_PROCESSING_REQUIRED
              | Some headerEnd \<Rightarrow>
                  if headerEnd > KhHttpMaxHeaderBytes then Err STATUS_INVALID_NETWORK_RESPONSE
                  else (case FindCrlf data 0 of
                          None \<Rightarrow> Err STATUS_INVALID_NETWORK_RESPONSE
                        | Some statusLineEnd \<Rightarrow>
                            if statusLineEnd + 2 > headerEnd then Err STATUS_INVALID_NETWORK_RESPONSE
                            else
                              rbind (ParseStatusLine (take statusLineEnd data)) (\<lambda>line.
                              rbind (ParseHeaders data (statusLineEnd + 2) headerEnd
                                       (OptHeadersNull options) (OptHeaderCapacity options))
                                (\<lambda>headers.
                                parse_body env options data headerEnd
                                  (empty_response
                                     \<lparr>MajorVersion := slMajor line, MinorVersion := slMinor line,
                                      StatusCode := slStatusCode line, ReasonPhrase := slReason line,
                                      Headers := caller_array (OptHeadersNull options) headers,
                                      Trailers := caller_array (OptTrailersNull options) []\<rparr>))))))"

section \<open>What the parts guarantee\<close>

lemma parse_uint16_loop_no_fault: "parse_uint16_loop a ds \<noteq> Fault"
  by (induction ds arbitrary: a) (auto simp: Let_def)

lemma ParseUInt16_no_fault [no_fault]: "ParseUInt16 ds \<noteq> Fault"
  by (simp add: ParseUInt16_def parse_uint16_loop_no_fault)

lemma parse_status_code_safe:
  "parse_status_code rest \<noteq> Fault"
  "parse_status_code rest = Ok (code, reason) \<Longrightarrow> 100 \<le> code \<and> code \<le> 599"
  by (auto simp: parse_status_code_def Let_def rbind_eq_Fault ParseUInt16_no_fault not_less
      split: if_splits list.splits)

lemma ParseStatusLine_no_fault [no_fault]: "ParseStatusLine line \<noteq> Fault"
  by (auto simp: ParseStatusLine_def Let_def rbind_eq_Fault ParseUInt16_no_fault
      parse_status_code_safe(1))

lemma ParseStatusLine_Ok:
  "ParseStatusLine line = Ok sl \<Longrightarrow>
     slMajor sl = 1 \<and> slMinor sl \<le> 1 \<and> 100 \<le> slStatusCode sl \<and> slStatusCode sl \<le> 599"
  by (auto simp: ParseStatusLine_def Let_def not_less dest: parse_status_code_safe(2)
      split: if_splits)

text \<open>A header of a parsed response.\<close>

definition valid_header :: "HttpHeader \<Rightarrow> bool" where
  "valid_header h \<longleftrightarrow>
     IsValidHeaderName (Name h) \<and> IsValidHeaderValue (Value h) \<and> \<not> span_null (Value h)"

lemma parse_headers_loop_safe:
  assumes "\<forall>h \<in> set hs. valid_header h" "length hs \<le> KhHttpMaxHeaders"
    "length hs \<le> cap" "hn \<Longrightarrow> hs = []"
  shows "parse_headers_loop data he hn cap cursor hs \<noteq> Fault \<and>
    (\<forall>hs'. parse_headers_loop data he hn cap cursor hs = Ok hs' \<longrightarrow>
       (\<forall>h \<in> set hs'. valid_header h) \<and> length hs' \<le> KhHttpMaxHeaders \<and> length hs' \<le> cap \<and>
       (hn \<longrightarrow> hs' = []))"
  using assms
proof (induction data he hn cap cursor hs rule: parse_headers_loop.induct)
  case (1 data he hn cap cursor hs)
  show ?case
  proof (cases "FindCrlf data cursor")
    case None
    then show ?thesis using "1.prems" by (simp add: parse_headers_loop.simps [of data])
  next
    case (Some e)
    have r: "rd data cursor = Ok (data ! cursor)" using FindCrlf_bounds [OF Some] by simp
    define line where "line = slice data cursor e"
    let ?h = "\<lparr>Name = Span (field_name line), Value = Span (field_value line)\<rparr>"
    show ?thesis
    proof (cases "cursor < he - 2 \<and> \<not> e > he \<and> \<not> e - cursor > KhHttpMaxHeaderLineBytes \<and> e \<noteq> cursor \<and>
        data ! cursor \<noteq> 32 \<and> data ! cursor \<noteq> 9 \<and> 58 \<in> set line \<and> field_name line \<noteq> [] \<and>
        length hs < KhHttpMaxHeaders \<and> length hs < cap \<and> \<not> hn \<and>
        IsValidHeaderName (Span (field_name line)) \<and> IsValidHeaderValue (Span (field_value line))")
      case True
      then have "parse_headers_loop data he hn cap cursor hs =
          parse_headers_loop data he hn cap (e + 2) (hs @ [?h])"
        using Some r by (subst parse_headers_loop.simps) (simp add: Let_def line_def)
      moreover have "valid_header ?h" using True by (simp add: valid_header_def)
      ultimately show ?thesis
        using "1.IH" [OF _ Some _ _ _ r] True "1.prems" line_def by auto
    next
      case False
      then show ?thesis
        using Some r "1.prems"
        by (subst (1 2) parse_headers_loop.simps) (auto simp: Let_def line_def)
    qed
  qed
qed

lemma ParseHeaders_safe:
  "ParseHeaders data hs he hn cap \<noteq> Fault"
  "ParseHeaders data hs he hn cap = Ok headers \<Longrightarrow>
     (\<forall>h \<in> set headers. valid_header h) \<and> length headers \<le> KhHttpMaxHeaders \<and>
     length headers \<le> cap \<and> (hn \<longrightarrow> headers = [])"
  using parse_headers_loop_safe [of "[]" cap hn data he hs]
  by (auto simp: ParseHeaders_def split: if_splits)

abbreviation is_content_length :: "HttpHeader \<Rightarrow> bool" where
  "is_content_length h \<equiv> TextEqualsIgnoreCase (Name h) (MakeText ''Content-Length'')"

abbreviation is_transfer_encoding :: "HttpHeader \<Rightarrow> bool" where
  "is_transfer_encoding h \<equiv> TextEqualsIgnoreCase (Name h) (MakeText ''Transfer-Encoding'')"

text \<open>\<open>Content-Length\<close> is accepted at most once, as a plain decimal number.\<close>

lemma read_content_length_no_fault:
  "\<forall>h \<in> set hs. \<not> span_null (Value h) \<Longrightarrow> read_content_length hs found \<noteq> Fault"
proof (induction hs arbitrary: found)
  case (Cons h hs)
  then obtain v where v: "Value h = Span v" by (cases "Value h") auto
  show ?case using Cons v by (auto simp: rbind_eq_Fault ParseSize_no_fault)
qed simp

lemma read_content_length_Ok:
  assumes "read_content_length hs found = Ok r" "\<forall>h \<in> set hs. \<not> span_null (Value h)"
  shows "(found \<noteq> None \<longrightarrow> filter is_content_length hs = [] \<and> r = found) \<and>
    (found = None \<longrightarrow>
      (case r of
         None \<Rightarrow> filter is_content_length hs = []
       | Some n \<Rightarrow> \<exists>h. filter is_content_length hs = [h] \<and>
                   ParseSize (trim_ows (span_list (Value h))) = Ok n))"
  using assms
proof (induction hs arbitrary: found)
  case Nil
  then show ?case by (auto split: option.split)
next
  case (Cons h hs)
  show ?case
  proof (cases "is_content_length h")
    case False
    then have same: "filter is_content_length (h # hs) = filter is_content_length hs" by simp
    have "read_content_length hs found = Ok r" using Cons.prems(1) False by simp
    from Cons.IH [OF this] Cons.prems(2) show ?thesis unfolding same by simp
  next
    case True
    obtain v where v: "Value h = Span v" using Cons.prems(2) by (cases "Value h") auto
    with True Cons.prems(1) obtain n where n: "found = None" "ParseSize (trim_ows v) = Ok n"
      "read_content_length hs (Some n) = Ok r"
      by (auto split: if_splits)
    then have "filter is_content_length hs = []" "r = Some n"
      using Cons.IH [of "Some n"] Cons.prems(2) by auto
    then show ?thesis using True v n by simp
  qed
qed

section \<open>The whole parse\<close>

text \<open>What the caller may rely on in a response parsed from \<open>data\<close> with these options.\<close>

definition response_ok :: "bytes \<Rightarrow> HttpParseOptions \<Rightarrow> HttpResponse \<Rightarrow> bool" where
  "response_ok data options r \<longleftrightarrow>
     MajorVersion r = 1 \<and> MinorVersion r \<le> 1 \<and> 100 \<le> StatusCode r \<and> StatusCode r \<le> 599 \<and>
     BytesConsumed r \<le> length data \<and>
     (\<forall>h \<in> set (span_list (Headers r)). valid_header h) \<and>
     length (span_list (Headers r)) \<le> min KhHttpMaxHeaders (OptHeaderCapacity options) \<and>
     (\<forall>h \<in> set (span_list (Trailers r)). valid_trailer h) \<and>
     length (span_list (Trailers r)) \<le> OptTrailerCapacity options"

lemma ApplyContentEncoding_safe:
  assumes "env_ok env" "buffers_ok (OptBuffers options)" "located_ok (OptBuffers options) body"
    "\<forall>h \<in> set (span_list (Headers r)). \<not> span_null (Value h)"
  shows "ApplyContentEncoding env options r body \<noteq> Fault \<and>
    (\<forall>r'. ApplyContentEncoding env options r body = Ok r' \<longrightarrow> (\<exists>b. r' = r\<lparr>Body := b\<rparr>))"
  using ContentEncoding_Decode_safe [OF assms]
  by (auto simp: ApplyContentEncoding_def rbind_eq_Fault)

lemma caller_array_list: "(null \<longrightarrow> hs = []) \<Longrightarrow> span_list (caller_array null hs) = hs"
  by (simp add: caller_array_def)

lemma parse_transfer_body_safe:
  assumes env: "env_ok env" "buffers_ok (OptBuffers options)" and len: "length data \<le> MaxSizeT"
    and he: "he \<le> length data" and r: "response_ok data options r"
    and te: "HasTransferEncoding info" "CodingCount info \<noteq> 0"
  shows "parse_transfer_body env options info data he r \<noteq> Fault \<and>
    (\<forall>r'. parse_transfer_body env options info data he r = Ok r' \<longrightarrow>
       response_ok data options r' \<and> he \<le> BytesConsumed r')"
proof -
  let ?d = "DecodeResponseBody env info (WireBuffer, drop he data)
      (MessageCompleteOnConnectionClose options) (OptBuffers options) (OptTrailersNull options)
      (OptTrailerCapacity options)"
  have "length (drop he data) \<le> MaxSizeT" using len by simp
  note dec = DecodeResponseBody_safe [OF env this, of info "MessageCompleteOnConnectionClose options"
      "OptTrailersNull options" "OptTrailerCapacity options"]
  have nn: "\<forall>h \<in> set (span_list (Headers r)). \<not> span_null (Value h)"
    using r by (auto simp: response_ok_def valid_header_def)
  show ?thesis
  proof (cases ?d)
    case (Ok d)
    then have d: "located_ok (OptBuffers options) (TransferBody d)"
        "TransferBytesConsumed d \<le> length data - he"
        "trailers_ok (OptTrailersNull options) (OptTrailerCapacity options)
          (TransferTrailerCount d) (TransferTrailers d)"
      using dec te by auto
    let ?r = "r\<lparr>BodyKind := TransferBodyKind d,
        Trailers := caller_array (OptTrailersNull options) (TransferTrailers d),
        BodyEndsOnConnectionClose := (HasTransferEncoding info \<and> \<not> FinalCodingIsChunked info \<and>
          MessageCompleteOnConnectionClose options),
        BytesConsumed := he + TransferBytesConsumed d\<rparr>"
    have "response_ok data options (?r\<lparr>Body := b\<rparr>)" for b
      using r d he caller_array_list [of "OptTrailersNull options" "TransferTrailers d"]
      by (auto simp: response_ok_def trailers_ok_def split: if_splits)
    moreover have "ApplyContentEncoding env options ?r (TransferBody d) \<noteq> Fault \<and>
      (\<forall>r'. ApplyContentEncoding env options ?r (TransferBody d) = Ok r' \<longrightarrow> (\<exists>b. r' = ?r\<lparr>Body := b\<rparr>))"
      using nn d(1) by (intro ApplyContentEncoding_safe [OF env]) simp_all
    ultimately show ?thesis
      using Ok he unfolding parse_transfer_body_def by fastforce
  qed (use dec in \<open>auto simp: parse_transfer_body_def\<close>)
qed

lemma located_wire: "length b \<le> MaxSizeT \<Longrightarrow> located_ok buffers (WireBuffer, b)"
  by (simp add: located_ok_def loc_capacity_def)

lemma parse_length_body_safe:
  assumes env: "env_ok env" "buffers_ok (OptBuffers options)" and len: "length data \<le> MaxSizeT"
    and he: "he \<le> length data" and r: "response_ok data options r"
  shows "parse_length_body env options n data he r \<noteq> Fault \<and>
    (\<forall>r'. parse_length_body env options n data he r = Ok r' \<longrightarrow>
       response_ok data options r' \<and> BytesConsumed r' = he + unat n)"
proof (cases "unat n > length data - he")
  case True
  then show ?thesis by (simp add: parse_length_body_def)
next
  case False
  let ?b = "if n = 0 then (NoBuffer, []) else (WireBuffer, take (unat n) (drop he data))"
  let ?r = "r\<lparr>BodyKind := (if n = 0 then BodyNone else BodyContentLength),
      BytesConsumed := he + unat n\<rparr>"
  have loc: "located_ok (OptBuffers options) ?b"
    using len located_wire [of "take (unat n) (drop he data)"] by (auto simp: located_ok_def)
  have nn: "\<forall>h \<in> set (span_list (Headers ?r)). \<not> span_null (Value h)"
    using r by (auto simp: response_ok_def valid_header_def)
  have "response_ok data options (?r\<lparr>Body := b\<rparr>)" for b
    using r he False by (simp add: response_ok_def)
  then show ?thesis
    using ApplyContentEncoding_safe [OF env loc nn] False unfolding parse_length_body_def
    by fastforce
qed

lemma parse_close_body_safe:
  assumes env: "env_ok env" "buffers_ok (OptBuffers options)" and len: "length data \<le> MaxSizeT"
    and he: "he \<le> length data" and r: "response_ok data options r"
  shows "parse_close_body env options data he r \<noteq> Fault \<and>
    (\<forall>r'. parse_close_body env options data he r = Ok r' \<longrightarrow>
       response_ok data options r' \<and> BytesConsumed r' = length data)"
proof -
  let ?b = "if length data = he then (NoBuffer, []) else (WireBuffer, drop he data)"
  let ?r = "r\<lparr>BodyKind := (if length data = he then BodyNone else BodyCloseDelimited),
      BodyEndsOnConnectionClose := True, BytesConsumed := length data\<rparr>"
  have loc: "located_ok (OptBuffers options) ?b"
    using len located_wire [of "drop he data"] by (auto simp: located_ok_def)
  have nn: "\<forall>h \<in> set (span_list (Headers ?r)). \<not> span_null (Value h)"
    using r by (auto simp: response_ok_def valid_header_def)
  have "response_ok data options (?r\<lparr>Body := b\<rparr>)" for b
    using r by (simp add: response_ok_def)
  then show ?thesis
    using ApplyContentEncoding_safe [OF env loc nn] unfolding parse_close_body_def
    by fastforce
qed

lemma codings_of_count: "codings_of info \<noteq> [] \<longleftrightarrow> CodingCount info \<noteq> 0"
  by (simp add: codings_of_def)

lemma parse_body_safe:
  assumes env: "env_ok env" "buffers_ok (OptBuffers options)" and len: "length data \<le> MaxSizeT"
    and he: "he \<le> length data" and r: "response_ok data options r"
  shows "parse_body env options data he r \<noteq> Fault \<and>
    (\<forall>r'. parse_body env options data he r = Ok r' \<longrightarrow>
       response_ok data options r' \<and> he \<le> BytesConsumed r')"
proof (cases "ResponseBodyForbidden options \<or> StatusCodeHasNoBody (StatusCode r)")
  case True
  then show ?thesis using r he by (auto simp: parse_body_def response_ok_def)
next
  case False
  have nn: "\<forall>h \<in> set (span_list (Headers r)). \<not> span_null (Value h)"
    using r by (auto simp: response_ok_def valid_header_def)
  note te = TransferCoding_Parse_no_fault [OF nn]
  have cl: "ReadContentLength r \<noteq> Fault"
    using read_content_length_no_fault [OF nn] by (simp add: ReadContentLength_def)
  note t = parse_transfer_body_safe [OF env len he r]
  note l = parse_length_body_safe [OF env len he r]
  note c = parse_close_body_safe [OF env len he r]
  show ?thesis
  proof (cases "TransferCoding_Parse (Headers r)")
    case (Ok info)
    note has = TransferCoding_Parse_Ok(4) [OF Ok]
    show ?thesis
    proof (cases "ReadContentLength r")
      case rcl: (Ok found)
      then show ?thesis
        using False Ok t [of info] l c has he
        by (cases found) (auto simp: parse_body_def codings_of_count)
    qed (use False Ok cl in \<open>auto simp: parse_body_def\<close>)
  qed (use False te in \<open>auto simp: parse_body_def\<close>)
qed

lemma ParseResponse_unfold:
  assumes "FindHeaderEnd data = Some he" "he \<le> KhHttpMaxHeaderBytes" "FindCrlf data 0 = Some e"
    "e + 2 \<le> he"
  shows "ParseResponse env (Span data) options =
    rbind (ParseStatusLine (take e data)) (\<lambda>line.
    rbind (ParseHeaders data (e + 2) he (OptHeadersNull options) (OptHeaderCapacity options))
      (\<lambda>headers. parse_body env options data he
        (empty_response\<lparr>MajorVersion := slMajor line, MinorVersion := slMinor line,
           StatusCode := slStatusCode line, ReasonPhrase := slReason line,
           Headers := caller_array (OptHeadersNull options) headers,
           Trailers := caller_array (OptTrailersNull options) []\<rparr>)))"
proof -
  have "data \<noteq> []" using assms(1) by (auto simp: FindHeaderEnd_def)
  then show ?thesis using assms by (simp add: ParseResponse_def Let_def)
qed

lemma crlfcrlf_index_bound: "crlfcrlf_index data = Some i \<Longrightarrow> i + 4 \<le> length data"
  by (induction data arbitrary: i rule: crlfcrlf_index.induct) (auto split: if_splits)

lemma FindHeaderEnd_bound: "FindHeaderEnd data = Some he \<Longrightarrow> 4 \<le> he \<and> he \<le> length data"
  by (auto simp: FindHeaderEnd_def dest: crlfcrlf_index_bound)

text \<open>Every way out of \<open>ParseResponse\<close> before the body.\<close>

lemma ParseResponse_cases:
  obtains (early) s where "ParseResponse env input options = Err s"
  | (body) data he e line headers where "input = Span data" "FindHeaderEnd data = Some he"
      "he \<le> KhHttpMaxHeaderBytes" "FindCrlf data 0 = Some e" "e + 2 \<le> he"
      "ParseStatusLine (take e data) = Ok line"
      "ParseHeaders data (e + 2) he (OptHeadersNull options) (OptHeaderCapacity options) = Ok headers"
      "ParseResponse env input options = parse_body env options data he
        (empty_response\<lparr>MajorVersion := slMajor line, MinorVersion := slMinor line,
           StatusCode := slStatusCode line, ReasonPhrase := slReason line,
           Headers := caller_array (OptHeadersNull options) headers,
           Trailers := caller_array (OptTrailersNull options) []\<rparr>)"
proof (cases input)
  case (NullSpan n)
  then show ?thesis using early by (simp add: ParseResponse_def)
next
  case (Span data)
  show ?thesis
  proof (cases "\<exists>he e. FindHeaderEnd data = Some he \<and> he \<le> KhHttpMaxHeaderBytes \<and>
      FindCrlf data 0 = Some e \<and> e + 2 \<le> he")
    case False
    then have "\<exists>s. ParseResponse env (Span data) options = Err s"
      by (auto simp: ParseResponse_def Let_def not_less split: option.splits)
    then show ?thesis using early Span by blast
  next
    case True
    then obtain he e where h: "FindHeaderEnd data = Some he" "he \<le> KhHttpMaxHeaderBytes"
      "FindCrlf data 0 = Some e" "e + 2 \<le> he" by blast
    note unf = ParseResponse_unfold [OF h, of env options]
    show ?thesis
    proof (cases "ParseStatusLine (take e data)")
      case sl: (Ok line)
      show ?thesis
      proof (cases "ParseHeaders data (e + 2) he (OptHeadersNull options) (OptHeaderCapacity options)")
        case (Ok headers)
        then show ?thesis using body [OF Span h sl Ok] unf sl Span by simp
      next
        case (Err s)
        then show ?thesis using early unf sl Span by simp
      next
        case Fault
        then show ?thesis by (simp add: ParseHeaders_safe(1))
      qed
    next
      case (Err s)
      then show ?thesis using early unf Span by simp
    next
      case Fault
      then show ?thesis by (simp add: ParseStatusLine_no_fault)
    qed
  qed
qed

lemma parsed_head_ok:
  assumes "ParseStatusLine l = Ok line"
    "ParseHeaders data a he (OptHeadersNull options) (OptHeaderCapacity options) = Ok headers"
  shows "response_ok data options (empty_response\<lparr>MajorVersion := slMajor line,
      MinorVersion := slMinor line, StatusCode := slStatusCode line, ReasonPhrase := slReason line,
      Headers := caller_array (OptHeadersNull options) headers,
      Trailers := caller_array (OptTrailersNull options) []\<rparr>)"
  using ParseStatusLine_Ok [OF assms(1)] ParseHeaders_safe(2) [OF assms(2)]
    caller_array_list [of "OptHeadersNull options" headers]
  by (simp add: response_ok_def empty_response_def caller_array_def)

section \<open>Bytes that follow a response\<close>

lemma crlfcrlf_index_append: "crlfcrlf_index xs = Some i \<Longrightarrow> crlfcrlf_index (xs @ ys) = Some i"
  by (induction xs arbitrary: i rule: crlfcrlf_index.induct) (auto split: if_splits)

lemma FindHeaderEnd_append: "FindHeaderEnd data = Some he \<Longrightarrow> FindHeaderEnd (data @ later) = Some he"
  by (auto simp: FindHeaderEnd_def dest: crlfcrlf_index_append)

lemma crlfcrlf_index_nth:
  "crlfcrlf_index data = Some i \<Longrightarrow> data ! (i + 2) = 13 \<and> data ! (i + 3) = 10"
  by (induction data arbitrary: i rule: crlfcrlf_index.induct)
     (auto split: if_splits simp: numeral_2_eq_2 numeral_3_eq_3)

lemma crlf_index_exists:
  "j + 1 < length xs \<Longrightarrow> xs ! j = 13 \<Longrightarrow> xs ! (j + 1) = 10 \<Longrightarrow> \<exists>i \<le> j. crlf_index xs = Some i"
proof (induction xs arbitrary: j rule: crlf_index.induct)
  case (1 a b cs)
  show ?case
  proof (cases j)
    case 0
    then show ?thesis using "1.prems" by auto
  next
    case (Suc k)
    then show ?thesis using 1(1) [of k] "1.prems" by auto
  qed
qed simp_all

text \<open>Before the end of the header section there is always a line end to find.\<close>

lemma FindCrlf_in_header:
  assumes "FindHeaderEnd data = Some he" "cursor < he - 2"
  shows "FindCrlf data cursor \<noteq> None"
proof -
  obtain i where i: "crlfcrlf_index data = Some i" "he = i + 4"
    using assms(1) by (auto simp: FindHeaderEnd_def)
  have len: "i + 4 \<le> length data" using crlfcrlf_index_bound [OF i(1)] .
  let ?j = "i + 2 - cursor"
  have "?j + 1 < length (drop cursor data)" "drop cursor data ! ?j = 13"
    "drop cursor data ! (?j + 1) = 10"
    using crlfcrlf_index_nth [OF i(1)] assms(2) i(2) len by (auto simp: numeral_2_eq_2 numeral_3_eq_3)
  then obtain k where "crlf_index (drop cursor data) = Some k"
    using crlf_index_exists by blast
  then show ?thesis using len assms(2) i(2) by (simp add: FindCrlf_def)
qed

lemma parse_headers_loop_append:
  assumes "FindHeaderEnd data = Some he"
  shows "parse_headers_loop (data @ later) he hn cap cursor hs =
         parse_headers_loop data he hn cap cursor hs"
  using assms
proof (induction data he hn cap cursor hs rule: parse_headers_loop.induct)
  case (1 data he hn cap cursor hs)
  show ?case
  proof (cases "cursor < he - 2")
    case False
    then show ?thesis by (simp add: parse_headers_loop.simps)
  next
    case True
    then obtain e where e: "FindCrlf data cursor = Some e"
      using FindCrlf_in_header [OF "1.prems"] by blast
    note b = FindCrlf_bounds [OF e]
    have s: "slice (data @ later) cursor e = slice data cursor e" using b by (simp add: slice_append)
    have r: "rd data cursor = Ok (data ! cursor)" "rd (data @ later) cursor = Ok (data ! cursor)"
      using b by (simp_all add: nth_append)
    show ?thesis
      using "1.IH" [OF _ e _ _ _ r(1)] True "1.prems"
      by (subst (1 2) parse_headers_loop.simps) (simp add: e FindCrlf_append [OF e] s r Let_def)
  qed
qed

lemma parse_body_append:
  assumes he: "he \<le> length data" and close: "\<not> MessageCompleteOnConnectionClose options"
    and fin: "parse_body env options data he r \<noteq> Err STATUS_MORE_PROCESSING_REQUIRED"
  shows "parse_body env options (data @ later) he r = parse_body env options data he r"
proof (cases "ResponseBodyForbidden options \<or> StatusCodeHasNoBody (StatusCode r)")
  case True
  then show ?thesis by (simp add: parse_body_def)
next
  case False
  have len: "parse_length_body env options n (data @ later) he r = parse_length_body env options n data he r"
    if "parse_length_body env options n data he r \<noteq> Err STATUS_MORE_PROCESSING_REQUIRED" for n
    using that he by (auto simp: parse_length_body_def split: if_splits)
  have te: "parse_transfer_body env options info (data @ later) he r =
      parse_transfer_body env options info data he r"
    if info: "TransferCoding_Parse (Headers r) = Ok info" and has: "HasTransferEncoding info"
      and f: "parse_transfer_body env options info data he r \<noteq> Err STATUS_MORE_PROCESSING_REQUIRED" for info
  proof -
    let ?d = "\<lambda>b. DecodeResponseBody env info (WireBuffer, b) False (OptBuffers options)
        (OptTrailersNull options) (OptTrailerCapacity options)"
    have n: "CodingCount info \<noteq> 0"
      using has TransferCoding_Parse_Ok(4) [OF info] codings_of_count by blast
    have d: "?d (drop he data) \<noteq> Err STATUS_MORE_PROCESSING_REQUIRED"
    proof
      assume "?d (drop he data) = Err STATUS_MORE_PROCESSING_REQUIRED"
      then have "parse_transfer_body env options info data he r = Err STATUS_MORE_PROCESSING_REQUIRED"
        using close by (simp add: parse_transfer_body_def)
      with f show False ..
    qed
    have "?d (drop he data) = Err STATUS_MORE_PROCESSING_REQUIRED" if "\<not> FinalCodingIsChunked info"
      using that has n by (simp add: DecodeResponseBody_def Let_def)
    then have "FinalCodingIsChunked info" using d by blast
    then have "GetTransferCoding info (CodingCount info - 1) = TransferChunked"
      using TransferCoding_Parse_Ok(5) [OF info] n by (simp add: codings_of_def last_map)
    from DecodeResponseBody_append [OF has \<open>FinalCodingIsChunked info\<close> n this d, of later]
    show ?thesis using close he by (simp add: parse_transfer_body_def)
  qed
  show ?thesis
  proof (cases "TransferCoding_Parse (Headers r)")
    case (Ok info)
    show ?thesis
    proof (cases "ReadContentLength r")
      case rcl: (Ok found)
      then show ?thesis
        using False Ok te [OF Ok] len fin close by (cases found) (auto simp: parse_body_def)
    qed (auto simp: parse_body_def Ok)
  qed (simp_all add: parse_body_def)
qed

lemma ParseResponse_append:
  assumes close: "\<not> MessageCompleteOnConnectionClose options"
    and fin: "ParseResponse env (Span data) options \<noteq> Err STATUS_MORE_PROCESSING_REQUIRED"
  shows "ParseResponse env (Span (data @ later)) options = ParseResponse env (Span data) options"
proof -
  have ne: "data \<noteq> []" "FindHeaderEnd data \<noteq> None"
    using fin by (auto simp: ParseResponse_def Let_def split: option.splits)
  then obtain he where he: "FindHeaderEnd data = Some he" by blast
  have he_len: "4 \<le> he" "he \<le> length data" using FindHeaderEnd_bound [OF he] by auto
  obtain e where e: "FindCrlf data 0 = Some e"
    using FindCrlf_in_header [OF he, of 0] he_len by fastforce
  have t: "take e (data @ later) = take e data" using FindCrlf_bounds [OF e] by simp
  show ?thesis
  proof (cases "he \<le> KhHttpMaxHeaderBytes \<and> e + 2 \<le> he")
    case False
    then show ?thesis
      using ne he e by (auto simp: ParseResponse_def FindHeaderEnd_append FindCrlf_append)
  next
    case True
    then have c: "he \<le> KhHttpMaxHeaderBytes" "e + 2 \<le> he" by auto
    have h: "ParseHeaders (data @ later) (e + 2) he hn cap = ParseHeaders data (e + 2) he hn cap" for hn cap
      by (simp add: ParseHeaders_def parse_headers_loop_append [OF he])
    note u = ParseResponse_unfold [OF he c(1) e c(2), of env options]
    note u' = ParseResponse_unfold [OF FindHeaderEnd_append [OF he, of later] c(1)
        FindCrlf_append [OF e, of later] c(2), of env options, unfolded t h]
    show ?thesis
    proof (cases "ParseStatusLine (take e data)")
      case sl: (Ok line)
      show ?thesis
      proof (cases "ParseHeaders data (e + 2) he (OptHeadersNull options) (OptHeaderCapacity options)")
        case (Ok headers)
        show ?thesis
          using fin parse_body_append [OF he_len(2) close, of env]
          unfolding u u' sl Ok rbind.simps by blast
      qed (simp_all only: u u' sl rbind.simps)
    qed (simp_all only: u u' rbind.simps)
  qed
qed

section \<open>Framing\<close>

lemma ApplyContentEncoding_frame:
  "ApplyContentEncoding env options r body = Ok r' \<Longrightarrow> \<exists>b. r' = r\<lparr>Body := b\<rparr>"
  by (auto simp: ApplyContentEncoding_def split: if_splits)

lemma parse_body_framing:
  assumes "parse_body env options data he r = Ok r'"
    and "\<not> ResponseBodyForbidden options" "\<not> StatusCodeHasNoBody (StatusCode r)"
    and nn: "\<forall>h \<in> set (span_list (Headers r)). \<not> span_null (Value h)"
    and he: "he \<le> length data" and major: "MajorVersion r = 1"
  shows "Headers r' = Headers r" "StatusCode r' = StatusCode r" "MinorVersion r' = MinorVersion r"
    "(\<exists>h \<in> set (span_list (Headers r)). is_transfer_encoding h) \<Longrightarrow>
       filter is_content_length (span_list (Headers r)) = [] \<and> MinorVersion r \<noteq> 0"
    "\<exists>h \<in> set (span_list (Headers r)). is_content_length h \<Longrightarrow>
       \<exists>h n. filter is_content_length (span_list (Headers r)) = [h] \<and>
         ParseSize (trim_ows (span_list (Value h))) = Ok n \<and> BytesConsumed r' = he + unat n \<and>
         he + unat n \<le> length data"
proof -
  obtain info found where info: "TransferCoding_Parse (Headers r) = Ok info"
    and found: "ReadContentLength r = Ok found"
    and ver: "\<not> (HasTransferEncoding info \<and>
             (MajorVersion r < 1 \<or> (MajorVersion r = 1 \<and> MinorVersion r < 1)))"
    and body: "(if HasTransferEncoding info then
                if found \<noteq> None then Err STATUS_INVALID_NETWORK_RESPONSE
                else parse_transfer_body env options info data he r
              else (case found of
                      Some n \<Rightarrow> parse_length_body env options n data he r
                    | None \<Rightarrow>
                        if MessageCompleteOnConnectionClose options
                        then parse_close_body env options data he r
                        else Err STATUS_MORE_PROCESSING_REQUIRED)) = Ok r'"
    using assms(1,2,3) by (auto simp: parse_body_def split: if_splits)
  have keep: "Headers r' = Headers r \<and> StatusCode r' = StatusCode r \<and> MinorVersion r' = MinorVersion r"
    using body
    by (auto simp: parse_transfer_body_def parse_length_body_def parse_close_body_def
        dest!: ApplyContentEncoding_frame split: if_splits option.splits)
  then show "Headers r' = Headers r" "StatusCode r' = StatusCode r" "MinorVersion r' = MinorVersion r"
    by auto
  have has: "HasTransferEncoding info \<longleftrightarrow> (\<exists>h \<in> set (span_list (Headers r)). is_transfer_encoding h)"
    by (rule TransferCoding_Parse_Ok(3) [OF info])
  have cl: "case found of None \<Rightarrow> filter is_content_length (span_list (Headers r)) = []
      | Some n \<Rightarrow> \<exists>h. filter is_content_length (span_list (Headers r)) = [h] \<and>
                   ParseSize (trim_ows (span_list (Value h))) = Ok n"
    using read_content_length_Ok [OF _ nn, of None found] found by (simp add: ReadContentLength_def)
  show "filter is_content_length (span_list (Headers r)) = [] \<and> MinorVersion r \<noteq> 0"
    if "\<exists>h \<in> set (span_list (Headers r)). is_transfer_encoding h"
    using that has body cl ver major by (auto split: if_splits option.splits)
  show "\<exists>h n. filter is_content_length (span_list (Headers r)) = [h] \<and>
         ParseSize (trim_ows (span_list (Value h))) = Ok n \<and> BytesConsumed r' = he + unat n \<and>
         he + unat n \<le> length data"
    if "\<exists>h \<in> set (span_list (Headers r)). is_content_length h"
  proof -
    have "filter is_content_length (span_list (Headers r)) \<noteq> []"
      using that by (auto simp: filter_empty_conv)
    then obtain n h where n: "found = Some n" "filter is_content_length (span_list (Headers r)) = [h]"
        "ParseSize (trim_ows (span_list (Value h))) = Ok n"
      using cl by (cases found) auto
    then have "parse_length_body env options n data he r = Ok r'"
      using body by (auto split: if_splits)
    then have "BytesConsumed r' = he + unat n \<and> \<not> unat n > length data - he"
      by (auto simp: parse_length_body_def dest!: ApplyContentEncoding_frame split: if_splits)
    then show ?thesis using n(2,3) he by (intro exI [of _ h] exI [of _ n]) auto
  qed
qed

section \<open>Well-formed responses\<close>

lemma crlfcrlf_index_skip: "l \<noteq> 13 \<Longrightarrow> crlfcrlf_index (l # xs) = map_option Suc (crlfcrlf_index xs)"
  by (cases xs rule: crlfcrlf_index.cases) simp_all

lemma crlfcrlf_index_crlf:
  assumes "xs = [] \<or> hd xs \<noteq> 13"
  shows "crlfcrlf_index (13 # 10 # xs) = map_option (\<lambda>i. i + 2) (crlfcrlf_index xs)"
proof -
  have "crlfcrlf_index (13 # 10 # xs) = map_option Suc (crlfcrlf_index (10 # xs))"
    using assms by (cases xs rule: crlfcrlf_index.cases) (auto simp: crlfcrlf_index_skip)
  then show ?thesis
    by (simp add: crlfcrlf_index_skip option.map_comp comp_def)
qed

lemma crlfcrlf_index_line:
  assumes "13 \<notin> set line" "xs = [] \<or> hd xs \<noteq> 13"
  shows "crlfcrlf_index (line @ crlf @ xs) =
    map_option (\<lambda>i. length line + 2 + i) (crlfcrlf_index xs)"
  using assms
proof (induction line)
  case Nil
  then show ?case by (simp add: crlf_def crlfcrlf_index_crlf add.commute)
next
  case (Cons l line)
  then show ?case by (simp add: crlfcrlf_index_skip option.map_comp comp_def)
qed

lemma crlfcrlf_index_last:
  "13 \<notin> set line \<Longrightarrow> crlfcrlf_index (line @ crlf @ crlf @ rest) = Some (length line)"
  by (induction line) (auto simp: crlf_def crlfcrlf_index_skip)

lemma hd_field_lines:
  "well_formed_field (n, v) \<Longrightarrow> hd (field_lines ((n, v) # fs) @ xs) \<noteq> 13"
  using well_formed_field_line(1,3) [of n v]
  by (simp add: field_lines_def) (metis hd_in_set)

lemma crlfcrlf_index_fields:
  assumes "\<forall>f \<in> set fs. well_formed_field f" "13 \<notin> set line"
  shows "crlfcrlf_index (line @ crlf @ field_lines fs @ crlf @ rest) =
    Some (length line + length (field_lines fs))"
  using assms
proof (induction fs arbitrary: line)
  case Nil
  then show ?case by (simp add: field_lines_def crlfcrlf_index_last)
next
  case (Cons f fs)
  obtain n v where f: "f = (n, v)" by (cases f)
  then have wf: "well_formed_field (n, v)" using Cons.prems by simp
  note w = well_formed_field_line [OF wf]
  have split: "field_lines (f # fs) @ crlf @ rest =
      field_line n v @ crlf @ field_lines fs @ crlf @ rest"
    by (simp add: f field_lines_def)
  have "crlfcrlf_index (line @ crlf @ field_lines (f # fs) @ crlf @ rest) =
      map_option (\<lambda>i. length line + 2 + i) (crlfcrlf_index (field_lines (f # fs) @ crlf @ rest))"
    using Cons.prems hd_field_lines [OF wf, of fs "crlf @ rest"]
    by (intro crlfcrlf_index_line) (auto simp: f)
  also have "crlfcrlf_index (field_lines (f # fs) @ crlf @ rest) =
      Some (length (field_line n v) + length (field_lines fs))"
    unfolding split by (rule Cons.IH) (use Cons.prems w in auto)
  finally show ?case by (simp add: f field_lines_def crlf_def)
qed

lemma parse_headers_loop_fields:
  assumes "\<forall>f \<in> set fs. well_formed_field f"
    and "length hs + length fs \<le> KhHttpMaxHeaders" "length hs + length fs \<le> cap"
    and "he = length pre + length (field_lines fs) + 2"
  shows "parse_headers_loop (pre @ field_lines fs @ crlf @ rest) he False cap (length pre) hs =
    Ok (hs @ map header_of fs)"
  using assms
proof (induction fs arbitrary: pre hs)
  case Nil
  then show ?case by (subst parse_headers_loop.simps) (simp add: field_lines_def)
next
  case (Cons f fs)
  obtain n v where f: "f = (n, v)" by (cases f)
  let ?l = "field_line n v" and ?tail = "field_lines fs @ crlf @ rest"
  have wf: "well_formed_field (n, v)" using Cons.prems(1) f by auto
  note w = well_formed_field_line [OF wf]
  have valid: "IsValidHeaderName (Span n)" "IsValidHeaderValue (Span v)"
    using wf by (auto simp: well_formed_field_def)
  have data: "pre @ field_lines (f # fs) @ crlf @ rest = pre @ ?l @ crlf @ ?tail"
    by (simp add: field_lines_def f)
  have r: "rd (pre @ ?l @ crlf @ ?tail) (length pre) = Ok (hd ?l)"
    using w(3) by (simp add: rd_def nth_append hd_conv_nth)
  have e: "FindCrlf (pre @ ?l @ crlf @ ?tail) (length pre) = Some (length pre + length ?l)"
    by (rule FindCrlf_at [OF w(1)])
  have sl: "slice (pre @ ?l @ crlf @ ?tail) (length pre) (length pre + length ?l) = ?l"
    by (rule slice_at)
  have he: "he = length pre + length ?l + 2 + length (field_lines fs) + 2"
    using Cons.prems(4) by (simp add: f field_lines_def crlf_def)
  have "parse_headers_loop (pre @ ?l @ crlf @ ?tail) he False cap (length pre) hs =
      parse_headers_loop (pre @ ?l @ crlf @ ?tail) he False cap (length pre + length ?l + 2)
        (hs @ [header_of (n, v)])"
    using w valid Cons.prems(2,3) he
    by (subst parse_headers_loop.simps) (simp add: e r sl header_of_def Let_def)
  also have "\<dots> = parse_headers_loop ((pre @ ?l @ crlf) @ ?tail) he False cap
      (length (pre @ ?l @ crlf)) (hs @ [header_of (n, v)])"
    by (simp add: crlf_def)
  also have "\<dots> = Ok ((hs @ [header_of (n, v)]) @ map header_of fs)"
    by (rule Cons.IH) (use Cons.prems he in \<open>auto simp: crlf_def\<close>)
  finally show ?case unfolding data by (simp add: f)
qed

text \<open>A response with the given status line, fields and body, as a server sends it.\<close>

definition response_text :: "bytes \<Rightarrow> (bytes \<times> bytes) list \<Rightarrow> bytes \<Rightarrow> bytes" where
  "response_text sl fs body = sl @ crlf @ field_lines fs @ crlf @ body"

definition head_length :: "bytes \<Rightarrow> (bytes \<times> bytes) list \<Rightarrow> nat" where
  "head_length sl fs = length sl + 2 + length (field_lines fs) + 2"

lemma drop_head: "drop (head_length sl fs) (response_text sl fs body) = body"
proof -
  have "response_text sl fs body = (sl @ crlf @ field_lines fs @ crlf) @ body"
    "head_length sl fs = length (sl @ crlf @ field_lines fs @ crlf)"
    by (simp_all add: response_text_def head_length_def crlf_def)
  then show ?thesis by (metis append_eq_conv_conj)
qed

lemma ParseResponse_head:
  assumes sl: "ParseStatusLine sl = Ok line" "13 \<notin> set sl"
    and fs: "\<forall>f \<in> set fs. well_formed_field f" "length fs \<le> KhHttpMaxHeaders"
      "length fs \<le> OptHeaderCapacity options" "\<not> OptHeadersNull options"
    and size: "head_length sl fs \<le> KhHttpMaxHeaderBytes"
  shows "ParseResponse env (Span (response_text sl fs body)) options =
    parse_body env options (response_text sl fs body) (head_length sl fs)
      (empty_response\<lparr>MajorVersion := slMajor line, MinorVersion := slMinor line,
         StatusCode := slStatusCode line, ReasonPhrase := slReason line,
         Headers := Span (map header_of fs),
         Trailers := caller_array (OptTrailersNull options) []\<rparr>)"
proof -
  let ?data = "response_text sl fs body"
  have he: "FindHeaderEnd ?data = Some (head_length sl fs)"
    using crlfcrlf_index_fields [OF fs(1) sl(2), of body]
    by (simp add: FindHeaderEnd_def response_text_def head_length_def)
  have e: "FindCrlf ?data 0 = Some (length sl)"
    using FindCrlf_at [OF sl(2), of "[]" "field_lines fs @ crlf @ body"]
    by (simp add: response_text_def)
  have le: "length sl + 2 \<le> head_length sl fs" by (simp add: head_length_def)
  have t: "take (length sl) ?data = sl" by (simp add: response_text_def)
  have "parse_headers_loop ((sl @ crlf) @ field_lines fs @ crlf @ body) (head_length sl fs) False
      (OptHeaderCapacity options) (length (sl @ crlf)) [] = Ok ([] @ map header_of fs)"
    by (rule parse_headers_loop_fields) (use fs in \<open>simp_all add: head_length_def crlf_def\<close>)
  then have h: "ParseHeaders ?data (length sl + 2) (head_length sl fs) (OptHeadersNull options)
      (OptHeaderCapacity options) = Ok (map header_of fs)"
    using size fs(4) le by (simp add: ParseHeaders_def response_text_def crlf_def)
  show ?thesis
    unfolding ParseResponse_unfold [OF he size e le] t sl(1) h rbind.simps
    using fs(4) by (simp add: caller_array_def)
qed

lemma read_content_length_fields:
  assumes "filter is_content_length hs = [h]" "Value h = Span v" "ParseSize (trim_ows v) = Ok n"
    "\<not> ContainsChar (trim_ows v) 44"
  shows "read_content_length hs None = Ok (Some n)"
proof -
  have none: "filter is_content_length hs = [] \<Longrightarrow> read_content_length hs (Some n) = Ok (Some n)" for hs
    by (induction hs) (auto split: if_splits)
  have ne: "trim_ows v \<noteq> []" using assms(3) by (auto simp: ParseSize_def)
  show ?thesis using assms(1)
  proof (induction hs)
    case (Cons g hs)
    show ?case
    proof (cases "is_content_length g")
      case True
      then have "g = h" "filter is_content_length hs = []" using Cons.prems by auto
      then show ?thesis using True assms ne none by simp
    next
      case False
      then show ?thesis using Cons by simp
    qed
  qed simp
qed

lemma ContainsChar_iff: "ContainsChar cs c \<longleftrightarrow> c \<in> set cs"
  by (induction cs) auto

lemma ParseSize_no_comma: "ParseSize ds = Ok n \<Longrightarrow> \<not> ContainsChar ds 44"
  by (auto simp: ParseSize_Ok_iff ContainsChar_iff list_all_iff IsDigit_def)

lemma no_transfer_encoding:
  "\<forall>h \<in> set hs. \<not> is_transfer_encoding h \<Longrightarrow> TransferCoding_Parse (Span hs) = Ok empty_info"
proof -
  have "parse_transfer_headers hs info saw = Ok (info, saw)"
    if "\<forall>h \<in> set hs. \<not> is_transfer_encoding h" for info saw
    using that by (induction hs) auto
  then show "\<forall>h \<in> set hs. \<not> is_transfer_encoding h \<Longrightarrow> ?thesis"
    by (simp add: TransferCoding_Parse_def)
qed

lemma no_content_encoding:
  "\<forall>h \<in> set hs. \<not> TextEqualsIgnoreCase (Name h) (MakeText ''Content-Encoding'') \<Longrightarrow>
   content_codings hs cs = Ok cs"
  by (induction hs) auto

lemma ParseResponse_fixed_length:
  assumes "ParseStatusLine sl = Ok line" "13 \<notin> set sl"
    and "\<forall>f \<in> set fs. well_formed_field f" "length fs \<le> KhHttpMaxHeaders"
      "length fs \<le> OptHeaderCapacity options" "\<not> OptHeadersNull options"
    and "head_length sl fs \<le> KhHttpMaxHeaderBytes"
    and "filter is_content_length (map header_of fs) = [header_of f]"
      "ParseSize (snd f) = Ok n" "unat n = length body" "body \<noteq> []"
    and "\<forall>f \<in> set fs. \<not> is_transfer_encoding (header_of f) \<and>
           \<not> TextEqualsIgnoreCase (Span (fst f)) (MakeText ''Content-Encoding'')"
    and "HeapAvailable env" "\<not> ResponseBodyForbidden options" "\<not> StatusCodeHasNoBody (slStatusCode line)"
  shows "ParseResponse env (Span (response_text sl fs (body @ rest))) options =
    Ok (empty_response\<lparr>MajorVersion := slMajor line, MinorVersion := slMinor line,
         StatusCode := slStatusCode line, ReasonPhrase := slReason line,
         Headers := Span (map header_of fs),
         Trailers := caller_array (OptTrailersNull options) [],
         BodyKind := BodyContentLength, Body := Span body,
         BytesConsumed := head_length sl fs + length body\<rparr>)"
proof -
  have mem: "f \<in> set fs"
  proof -
    have "header_of f \<in> set (filter is_content_length (map header_of fs))"
      unfolding assms(8) by simp
    then have "header_of f \<in> set (map header_of fs)" by simp
    then show ?thesis by (auto simp: header_of_def prod_eq_iff)
  qed
  then have trim: "trim_ows (snd f) = snd f"
    using assms(3) by (cases f) (auto simp: well_formed_field_def)
  have cl: "read_content_length (map header_of fs) None = Ok (Some n)"
    using assms(8,9) trim ParseSize_no_comma
    by (intro read_content_length_fields [OF assms(8)]) (auto simp: header_of_def)
  have te: "TransferCoding_Parse (Span (map header_of fs)) = Ok empty_info"
    by (rule no_transfer_encoding) (use assms(12) in auto)
  have ce: "content_codings (map header_of fs) [] = Ok []"
    by (rule no_content_encoding) (use assms(12) in \<open>auto simp: header_of_def\<close>)
  have n0: "n \<noteq> 0" using assms(10,11) by auto
  have body: "drop (head_length sl fs) (response_text sl fs (body @ rest)) = body @ rest"
    by (rule drop_head)
  have len: "length (response_text sl fs (body @ rest)) = head_length sl fs + length body + length rest"
    by (simp add: response_text_def head_length_def crlf_def)
  show ?thesis
    unfolding ParseResponse_head [OF assms(1-7)]
    using assms(10,11,13-15) n0
    by (simp add: parse_body_def te empty_info_def ReadContentLength_def cl parse_length_body_def
        len body ApplyContentEncoding_def ContentEncoding_Decode_def ce empty_response_def)
qed

text \<open>A concrete response, which the examples below use.\<close>

definition ok_line :: bytes where
  "ok_line = lit ''HTTP/1.1 200 OK''"

definition ok_fields :: "(bytes \<times> bytes) list" where
  "ok_fields = [(lit ''Content-Length'', lit ''2'')]"

definition plain_options :: HttpParseOptions where
  "plain_options = \<lparr>OptHeadersNull = False, OptHeaderCapacity = 4, OptTrailersNull = True,
     OptTrailerCapacity = 0,
     OptBuffers = \<lparr>DecodedBodyNull = True, DecodedBodyCapacity = 0, ScratchBodyNull = True,
       ScratchBodyCapacity = 0\<rparr>,
     MessageCompleteOnConnectionClose = False, ResponseBodyForbidden = False\<rparr>"

lemma ok_line_parse:
  "ParseStatusLine ok_line =
     Ok \<lparr>slMajor = 1, slMinor = 1, slStatusCode = 200, slReason = Span (lit ''OK'')\<rparr>"
  by (simp add: ParseStatusLine_def ok_line_def lit_def IsDigit_def ParseUInt16_def
      parse_status_code_def)

lemma ok_fields_facts:
  "\<forall>f \<in> set ok_fields. well_formed_field f" "13 \<notin> set ok_line"
  "length ok_fields \<le> KhHttpMaxHeaders" "length ok_fields \<le> OptHeaderCapacity plain_options"
  "\<not> OptHeadersNull plain_options" "head_length ok_line ok_fields \<le> KhHttpMaxHeaderBytes"
  "ParseSize (lit ''2'') = Ok 2"
  "filter is_content_length (map header_of ok_fields) = [header_of (lit ''Content-Length'', lit ''2'')]"
  "\<forall>f \<in> set ok_fields. \<not> is_transfer_encoding (header_of f) \<and>
     \<not> TextEqualsIgnoreCase (Span (fst f)) (MakeText ''Content-Encoding'')"
  "HeapAvailable stored_env" "\<not> ResponseBodyForbidden plain_options"
  "\<not> MessageCompleteOnConnectionClose plain_options" "\<not> StatusCodeHasNoBody 200"
  "buffers_ok (OptBuffers plain_options)"
  by (simp_all add: ok_fields_def ok_line_def lit_def well_formed_field_def IsValidHeaderName_def
      IsValidHeaderValue_def IsTchar_def trim_ows_def IsOptionalWhitespace_def limit_defs
      head_length_def field_lines_def field_line_def crlf_def plain_options_def ParseSize_def
      IsDigit_def TextEqualsIgnoreCase_Span MakeText_def ToLowerAscii_def IsUpperAscii_def
      header_of_def stored_env_def StatusCodeHasNoBody_def buffers_ok_def)

lemma example_response:
  "\<exists>r. ParseResponse stored_env (Span (response_text ok_line ok_fields (lit ''hi'' @ rest))) plain_options =
     Ok r \<and> Headers r = Span (map header_of ok_fields) \<and> Body r = Span (lit ''hi'') \<and> StatusCode r = 200 \<and>
     BytesConsumed r = head_length ok_line ok_fields + 2"
  using ParseResponse_fixed_length [OF ok_line_parse ok_fields_facts(2,1,3,4,5,6,8), of 2 "lit ''hi''"
      stored_env rest] ok_fields_facts
  by (simp add: lit_def)

section \<open>Properties\<close>





text \<open>C2: A response is delimited by its own bytes: when the connection is kept open (no
  close-delimited body), whatever the parser answers other than \<open>STATUS_MORE_PROCESSING_REQUIRED\<close>
  is not changed by bytes that follow, so the next response on the connection cannot reach into
  this one.\<close>

theorem ParseResponse_final:
  assumes "\<not> MessageCompleteOnConnectionClose options"
    and "ParseResponse env (Span data) options \<noteq> Err STATUS_MORE_PROCESSING_REQUIRED"
  shows "ParseResponse env (Span (data @ later)) options = ParseResponse env (Span data) options"
  using assms by (rule ParseResponse_append)

theorem ParseResponse_final_witness:
  "ParseResponse stored_env (Span (response_text ok_line ok_fields (lit ''hi'') @ lit ''HTTP/1.1'')) plain_options =
   ParseResponse stored_env (Span (response_text ok_line ok_fields (lit ''hi''))) plain_options"
proof -
  have "ParseResponse stored_env (Span (response_text ok_line ok_fields (lit ''hi''))) plain_options \<noteq>
      Err STATUS_MORE_PROCESSING_REQUIRED"
    using example_response [of "[]"] by auto
  then show ?thesis by (rule ParseResponse_final [OF ok_fields_facts(12)])
qed



end
