(* ===== verification/Kh_HttpRequest.thy ===== *)
theory Kh_HttpRequest
  imports Kh_HttpChunked
begin

text \<open>
  The HTTP/1 request builder, \<^verbatim>\<open>http/HttpRequest.cpp\<close>: the validation of a request's parts, the
  bounded \<open>BufferWriter\<close>, and \<open>HttpRequestBuilder::Build\<close>.

  A writer's destination is the caller's buffer (\<open>None\<close> for a null pointer, with which a caller
  measures the size it needs); every store goes through the checked \<open>wr\<close>.
\<close>

section \<open>Validation of bytes\<close>

definition IsValidRequestTargetByte :: "UCHAR \<Rightarrow> bool" where
  "IsValidRequestTargetByte ch \<longleftrightarrow> ch > 0x20 \<and> ch \<noteq> 0x7f"

definition IsValidHeaderNameByte :: "UCHAR \<Rightarrow> bool" where
  "IsValidHeaderNameByte ch =
     (if ch \<le> 0x20 \<or> ch \<ge> 0x7f then False
      else ch \<notin> set (lit ''()<>@,;:'') \<and> ch \<noteq> 92 \<and> ch \<noteq> 34 \<and> ch \<notin> set (lit ''/[]?={}''))"

definition IsValidHeaderValueByte :: "UCHAR \<Rightarrow> bool" where
  "IsValidHeaderValueByte ch \<longleftrightarrow> ch = 9 \<or> (ch \<ge> 0x20 \<and> ch \<noteq> 0x7f)"

definition IsValidText :: "HttpText \<Rightarrow> (UCHAR \<Rightarrow> bool) \<Rightarrow> bool" where
  "IsValidText text predicate \<longleftrightarrow>
     \<not> span_null text \<and> span_len text \<noteq> 0 \<and> list_all predicate (span_list text)"

definition IsValidRequestTarget :: "HttpText \<Rightarrow> bool" where
  "IsValidRequestTarget path = IsValidText path IsValidRequestTargetByte"

definition IsValidRequestHeaderName :: "HttpText \<Rightarrow> bool" where
  "IsValidRequestHeaderName text = IsValidText text IsValidHeaderNameByte"

definition IsValidRequestHeaderValue :: "HttpText \<Rightarrow> bool" where
  "IsValidRequestHeaderValue text \<longleftrightarrow>
     \<not> (span_null text \<and> span_len text \<noteq> 0) \<and> list_all IsValidHeaderValueByte (span_list text)"

section \<open>BufferWriter\<close>

record BufferWriter =
  wDestination :: "bytes option"
  wCapacity :: nat
  wRequired :: nat

text \<open>The copy loop \<open>destination_[required_ + index] = text.Data[index]\<close>.\<close>

fun store_bytes :: "bytes \<Rightarrow> nat \<Rightarrow> bytes \<Rightarrow> bytes res" where
  "store_bytes dest off [] = Ok dest"
| "store_bytes dest off (b # bs) = rbind (wr dest off b) (\<lambda>dest'. store_bytes dest' (off + 1) bs)"

definition writer_store :: "BufferWriter \<Rightarrow> bytes \<Rightarrow> BufferWriter res" where
  "writer_store w text =
     (case wDestination w of
        None \<Rightarrow> Ok w
      | Some dest \<Rightarrow>
          if wRequired w < wCapacity w then
            let writable = (if length text \<le> wCapacity w - wRequired w then length text
                            else wCapacity w - wRequired w)
            in rbind (store_bytes dest (wRequired w) (take writable text)) (\<lambda>dest'.
                 Ok (w\<lparr>wDestination := Some dest'\<rparr>))
          else Ok w)"

definition Append :: "BufferWriter \<Rightarrow> HttpText \<Rightarrow> BufferWriter res" where
  "Append w text =
     (if span_len text = 0 then Ok w
      else if span_null text then Err STATUS_INVALID_PARAMETER
      else if wRequired w > MaxSizeT - span_len text then Err STATUS_INTEGER_OVERFLOW
      else rbind (writer_store w (span_list text)) (\<lambda>w'.
             Ok (w'\<lparr>wRequired := wRequired w + span_len text\<rparr>)))"

definition AppendByte :: "UCHAR \<Rightarrow> BufferWriter \<Rightarrow> BufferWriter res" where
  "AppendByte value w =
     (if wRequired w = MaxSizeT then Err STATUS_INTEGER_OVERFLOW
      else rbind (writer_store w [value]) (\<lambda>w'. Ok (w'\<lparr>wRequired := wRequired w + 1\<rparr>)))"

definition AppendLiteral :: "bytes \<Rightarrow> BufferWriter \<Rightarrow> BufferWriter res" where
  "AppendLiteral text w = Append w (Span text)"

definition AppendHeader :: "HttpText \<Rightarrow> HttpText \<Rightarrow> BufferWriter \<Rightarrow> BufferWriter res" where
  "AppendHeader name value w =
     (if \<not> IsValidRequestHeaderName name \<or> \<not> IsValidRequestHeaderValue value
      then Err STATUS_INVALID_PARAMETER
      else rbind (Append w name) (\<lambda>w.
           rbind (AppendLiteral [58, 32] w) (\<lambda>w.
           rbind (Append w value) (AppendLiteral [13, 10]))))"

text \<open>
  \<open>divisor *= 10\<close> stays below \<open>value\<close>, so it does not wrap.
\<close>

function decimal_divisor :: "nat \<Rightarrow> nat \<Rightarrow> nat" where
  "decimal_divisor value divisor =
     (if value div divisor \<ge> 10 then decimal_divisor value (divisor * 10) else divisor)"
  by pat_completeness auto

lemma decimal_divisor_step: "value div divisor \<ge> 10 \<Longrightarrow> 0 < divisor \<and> divisor * 10 \<le> (value :: nat)"
  by (metis div_by_0 gr0I le_zero_eq less_eq_div_iff_mult_less_eq mult.commute zero_neq_numeral)

termination decimal_divisor
  by (relation "measure (\<lambda>(value, divisor). value - divisor)")
     (auto dest!: decimal_divisor_step)

declare decimal_divisor.simps [simp del]

function decimal_loop :: "nat \<Rightarrow> nat \<Rightarrow> BufferWriter \<Rightarrow> BufferWriter res" where
  "decimal_loop value divisor w =
     (case AppendByte (of_nat (48 + value div divisor mod 10)) w of
        Err s \<Rightarrow> Err s
      | Fault \<Rightarrow> Fault
      | Ok w' \<Rightarrow> if divisor div 10 = 0 then Ok w' else decimal_loop value (divisor div 10) w')"
  by pat_completeness auto
termination
  by (relation "measure (\<lambda>(value, divisor, w). divisor)") auto

declare decimal_loop.simps [simp del]

definition AppendDecimal :: "nat \<Rightarrow> BufferWriter \<Rightarrow> BufferWriter res" where
  "AppendDecimal value w = decimal_loop value (decimal_divisor value 1) w"

definition hex_digits :: bytes where
  "hex_digits = lit ''0123456789abcdef''"

text \<open>The loop of \<open>AppendHex\<close>: \<open>shift\<close> is 60, 56, ..., 0, and \<open>n\<close> is \<open>shift / 4\<close>.\<close>

fun hex_loop :: "nat \<Rightarrow> nat \<Rightarrow> bool \<Rightarrow> BufferWriter \<Rightarrow> BufferWriter res" where
  "hex_loop value 0 wroteDigit w =
     rbind (rd hex_digits (value mod 16)) (\<lambda>c. AppendByte c w)"
| "hex_loop value (Suc n) wroteDigit w =
     (let digit = value div 2 ^ (4 * Suc n) mod 16 in
      if digit \<noteq> 0 \<or> wroteDigit then
        rbind (rd hex_digits digit) (\<lambda>c. rbind (AppendByte c w) (hex_loop value n True))
      else hex_loop value n wroteDigit w)"

definition AppendHex :: "nat \<Rightarrow> BufferWriter \<Rightarrow> BufferWriter res" where
  "AppendHex value w = hex_loop value 15 False w"

definition Fits :: "BufferWriter \<Rightarrow> bool" where
  "Fits w \<longleftrightarrow> wRequired w \<le> wCapacity w"

section \<open>Requests\<close>

datatype HttpMethod =
    MethodGet | MethodPost | MethodPut | MethodDelete | MethodHead | MethodOptions | MethodPatch
  | MethodConnect | MethodCustom

datatype HttpConnectionDirective = Omit | KeepAlive | Close | Upgrade

datatype HttpRequestBodyMode = ModeContentLength | ModeChunked

record HttpRequestBuildOptions =
  Method :: HttpMethod
  CustomMethod :: HttpText
  ReqPath :: HttpText
  ReqHost :: HttpText
  UserAgent :: HttpText
  ContentType :: HttpText
  Connection :: HttpConnectionDirective
  ExtraHeaders :: "HttpHeader span"
  ReqTrailers :: "HttpHeader span"
  ReqBody :: "UCHAR span"
  IncludeContentLength :: bool
  BodyMode :: HttpRequestBodyMode

definition MethodText :: "HttpRequestBuildOptions \<Rightarrow> HttpText" where
  "MethodText options =
     (case Method options of
        MethodGet \<Rightarrow> MakeText ''GET''
      | MethodPost \<Rightarrow> MakeText ''POST''
      | MethodPut \<Rightarrow> MakeText ''PUT''
      | MethodDelete \<Rightarrow> MakeText ''DELETE''
      | MethodHead \<Rightarrow> MakeText ''HEAD''
      | MethodOptions \<Rightarrow> MakeText ''OPTIONS''
      | MethodPatch \<Rightarrow> MakeText ''PATCH''
      | MethodConnect \<Rightarrow> MakeText ''CONNECT''
      | MethodCustom \<Rightarrow> CustomMethod options)"

definition RequestEmitsChunkedFraming :: "HttpRequestBuildOptions \<Rightarrow> bool" where
  "RequestEmitsChunkedFraming options \<longleftrightarrow>
     BodyMode options = ModeChunked \<and>
     (span_len (ReqBody options) \<noteq> 0 \<or> IncludeContentLength options)"

abbreviation name_is :: "HttpHeader \<Rightarrow> string \<Rightarrow> bool" where
  "name_is h s \<equiv> TextEqualsIgnoreCase (Name h) (MakeText s)"

fun validate_extra_loop :: "bool \<Rightarrow> bool \<Rightarrow> HttpHeader list \<Rightarrow> unit res" where
  "validate_extra_loop hasBodyBytes chunkedFraming [] = Ok ()"
| "validate_extra_loop hasBodyBytes chunkedFraming (h # hs) =
     (if name_is h ''Transfer-Encoding'' then Err STATUS_NOT_SUPPORTED
      else if name_is h ''TE'' then Err STATUS_NOT_SUPPORTED
      else if name_is h ''Trailer'' \<and> \<not> chunkedFraming then Err STATUS_NOT_SUPPORTED
      else
        rbind (if hasBodyBytes \<and> name_is h ''Expect''
               then HeaderValueHasToken (Value h) (MakeText ''100-continue'') else Ok False)
          (\<lambda>expects.
             if expects then Err STATUS_NOT_SUPPORTED
             else if name_is h ''Host'' \<or> name_is h ''Content-Length'' \<or> name_is h ''Connection''
             then Err STATUS_INVALID_PARAMETER
             else validate_extra_loop hasBodyBytes chunkedFraming hs))"

definition ValidateExtraHeaders :: "HttpRequestBuildOptions \<Rightarrow> unit res" where
  "ValidateExtraHeaders options =
     validate_extra_loop (span_len (ReqBody options) \<noteq> 0) (RequestEmitsChunkedFraming options)
       (span_list (ExtraHeaders options))"

fun validate_trailers_loop :: "HttpHeader list \<Rightarrow> unit res" where
  "validate_trailers_loop [] = Ok ()"
| "validate_trailers_loop (t # ts) =
     (if \<not> IsValidRequestHeaderName (Name t) \<or> \<not> IsValidRequestHeaderValue (Value t)
      then Err STATUS_INVALID_PARAMETER
      else if IsForbiddenTrailerField (Name t) then Err STATUS_NOT_SUPPORTED
      else validate_trailers_loop ts)"

definition ValidateTrailers :: "HttpRequestBuildOptions \<Rightarrow> unit res" where
  "ValidateTrailers options =
     (if span_len (ReqTrailers options) = 0 then Ok ()
      else if span_null (ReqTrailers options) then Err STATUS_INVALID_PARAMETER
      else if \<not> RequestEmitsChunkedFraming options then Err STATUS_NOT_SUPPORTED
      else validate_trailers_loop (span_list (ReqTrailers options)))"

definition AppendContentLength :: "nat \<Rightarrow> BufferWriter \<Rightarrow> BufferWriter res" where
  "AppendContentLength bodyLength w =
     rbind (AppendLiteral (lit ''Content-Length: '') w) (\<lambda>w.
     rbind (AppendDecimal bodyLength w) (AppendLiteral [13, 10]))"

fun append_headers :: "HttpHeader list \<Rightarrow> BufferWriter \<Rightarrow> BufferWriter res" where
  "append_headers [] w = Ok w"
| "append_headers (h # hs) w = rbind (AppendHeader (Name h) (Value h) w) (append_headers hs)"

definition AppendChunkedBody ::
  "UCHAR span \<Rightarrow> HttpHeader list \<Rightarrow> BufferWriter \<Rightarrow> BufferWriter res"
where
  "AppendChunkedBody body trailers w =
     (if span_null body \<and> span_len body \<noteq> 0 then Err STATUS_INVALID_PARAMETER
      else
        rbind (if span_len body \<noteq> 0
               then rbind (AppendHex (span_len body) w) (\<lambda>w.
                    rbind (AppendLiteral [13, 10] w) (\<lambda>w.
                    rbind (Append w body) (AppendLiteral [13, 10])))
               else Ok w) (\<lambda>w.
        rbind (AppendLiteral (lit ''0'' @ [13, 10]) w) (\<lambda>w.
        rbind (append_headers trailers w) (AppendLiteral [13, 10]))))"

text \<open>The head of a request: request line, the fields of the options, extra headers.\<close>

definition append_framing :: "HttpRequestBuildOptions \<Rightarrow> BufferWriter \<Rightarrow> BufferWriter res" where
  "append_framing options w =
     (if span_len (ReqBody options) > 0 \<or> IncludeContentLength options then
        if BodyMode options = ModeChunked
        then AppendHeader (MakeText ''Transfer-Encoding'') (MakeText ''chunked'') w
        else AppendContentLength (span_len (ReqBody options)) w
      else Ok w)"

definition append_connection :: "HttpRequestBuildOptions \<Rightarrow> BufferWriter \<Rightarrow> BufferWriter res" where
  "append_connection options w =
     (case Connection options of
        KeepAlive \<Rightarrow> AppendHeader (MakeText ''Connection'') (MakeText ''keep-alive'') w
      | Close \<Rightarrow> AppendHeader (MakeText ''Connection'') (MakeText ''close'') w
      | Upgrade \<Rightarrow> AppendHeader (MakeText ''Connection'') (MakeText ''Upgrade'') w
      | Omit \<Rightarrow> Ok w)"

definition append_body :: "HttpRequestBuildOptions \<Rightarrow> BufferWriter \<Rightarrow> BufferWriter res" where
  "append_body options w =
     (if span_len (ReqBody options) > 0 \<or> IncludeContentLength options then
        if BodyMode options = ModeChunked
        then AppendChunkedBody (ReqBody options) (span_list (ReqTrailers options)) w
        else if span_len (ReqBody options) > 0 then Append w (ReqBody options)
        else Ok w
      else Ok w)"

definition append_optional :: "string \<Rightarrow> HttpText \<Rightarrow> BufferWriter \<Rightarrow> BufferWriter res" where
  "append_optional name text w =
     (if span_len text > 0 then AppendHeader (MakeText name) text w else Ok w)"

definition append_request :: "HttpRequestBuildOptions \<Rightarrow> BufferWriter \<Rightarrow> BufferWriter res" where
  "append_request options w =
     rbind (Append w (MethodText options)) (\<lambda>w.
     rbind (AppendLiteral [32] w) (\<lambda>w.
     rbind (Append w (ReqPath options)) (\<lambda>w.
     rbind (AppendLiteral (lit '' HTTP/1.1'' @ [13, 10]) w) (\<lambda>w.
     rbind (AppendHeader (MakeText ''Host'') (ReqHost options) w) (\<lambda>w.
     rbind (append_optional ''User-Agent'' (UserAgent options) w) (\<lambda>w.
     rbind (append_optional ''Content-Type'' (ContentType options) w) (\<lambda>w.
     rbind (append_framing options w) (\<lambda>w.
     rbind (append_connection options w) (\<lambda>w.
     rbind (append_headers (span_list (ExtraHeaders options)) w) (\<lambda>w.
     rbind (AppendLiteral [13, 10] w) (append_body options)))))))))))"

text \<open>
  \<open>Built w\<close> is \<open>STATUS_SUCCESS\<close>, \<open>TooSmall n\<close> is \<open>STATUS_BUFFER_TOO_SMALL\<close> with
  \<open>*bytesWritten = n\<close>.
\<close>

datatype build_outcome = Built BufferWriter | TooSmall nat

definition Build ::
  "HttpRequestBuildOptions \<Rightarrow> bytes option \<Rightarrow> nat \<Rightarrow> build_outcome res"
where
  "Build options destination destinationCapacity =
     (if destination = None \<and> destinationCapacity \<noteq> 0 then Err STATUS_INVALID_PARAMETER
      else if \<not> IsValidRequestTarget (ReqPath options) \<or> \<not> IsValidRequestHeaderValue (ReqHost options)
      then Err STATUS_INVALID_PARAMETER
      else if span_len (ReqBody options) > 0 \<and> span_null (ReqBody options)
      then Err STATUS_INVALID_PARAMETER
      else if span_len (ExtraHeaders options) > 0 \<and> span_null (ExtraHeaders options)
      then Err STATUS_INVALID_PARAMETER
      else
        rbind (ValidateExtraHeaders options) (\<lambda>_.
        rbind (ValidateTrailers options) (\<lambda>_.
          if \<not> IsValidRequestHeaderName (MethodText options) then Err STATUS_INVALID_PARAMETER
          else
            rbind (append_request options
                     \<lparr>wDestination = destination, wCapacity = destinationCapacity, wRequired = 0\<rparr>)
              (\<lambda>w. if Fits w then Ok (Built w) else Ok (TooSmall (wRequired w))))))"

section \<open>The writer appends\<close>

text \<open>
  \<open>writes dest cap w t\<close>: since the start, with the destination \<open>dest\<close> of capacity \<open>cap\<close>, the
  text \<open>t\<close> has been written. What fits of it is in the buffer, the rest of the buffer is
  untouched, and \<open>required_\<close> counts all of it.
\<close>

definition writes :: "bytes option \<Rightarrow> nat \<Rightarrow> BufferWriter \<Rightarrow> bytes \<Rightarrow> bool" where
  "writes dest cap w t \<longleftrightarrow>
     wCapacity w = cap \<and> wRequired w = length t \<and>
     (case dest of None \<Rightarrow> True | Some buf \<Rightarrow> length buf = cap) \<and>
     wDestination w = map_option (\<lambda>buf. overlay buf 0 (take cap t)) dest"

lemma store_bytes_Ok:
  "off + length bs \<le> length dest \<Longrightarrow> store_bytes dest off bs = Ok (overlay dest off bs)"
proof (induction bs arbitrary: dest off)
  case (Cons b bs)
  then have b: "off < length dest" by simp
  have "store_bytes dest off (b # bs) = store_bytes (overlay dest off [b]) (off + 1) bs"
    using b by (simp add: list_update_overlay)
  also have "\<dots> = Ok (overlay (overlay dest off [b]) (off + 1) bs)"
    using Cons b by simp
  also have "overlay (overlay dest off [b]) (off + 1) bs = overlay dest off (b # bs)"
    using overlay_overlay [of off "[b]" bs dest] Cons.prems by simp
  finally show ?case .
qed simp

lemma writer_store_writes:
  assumes w: "writes dest cap w t"
  shows "\<exists>w'. writer_store w bs = Ok w' \<and> writes dest cap (w'\<lparr>wRequired := length t + length bs\<rparr>) (t @ bs)"
proof (cases dest)
  case None
  then show ?thesis using w by (simp add: writer_store_def writes_def)
next
  case (Some buf)
  have wd: "wDestination w = Some (overlay buf 0 (take cap t))" "length buf = cap"
    "wCapacity w = cap" "wRequired w = length t"
    using w Some by (auto simp: writes_def)
  show ?thesis
  proof (cases "length t < cap")
    case False
    then show ?thesis using wd Some by (simp add: writer_store_def writes_def)
  next
    case True
    let ?n = "if length bs \<le> cap - length t then length bs else cap - length t"
    let ?new = "take ?n bs"
    have new: "?new = take (cap - length t) bs" by simp
    have fits: "length t + length ?new \<le> cap" using True by auto
    have d: "take cap t = t" using True by simp
    have "store_bytes (overlay buf 0 t) (length t) ?new =
        Ok (overlay (overlay buf 0 t) (length t) ?new)"
      using fits wd(2) True by (intro store_bytes_Ok) simp
    also have "overlay (overlay buf 0 t) (length t) ?new = overlay buf 0 (t @ ?new)"
      using overlay_overlay [of 0 t ?new buf] fits wd(2) by simp
    also have "t @ ?new = take cap (t @ bs)" using True new by simp
    finally have "writer_store w bs = Ok (w\<lparr>wDestination := Some (overlay buf 0 (take cap (t @ bs)))\<rparr>)"
      using True wd d by (simp only: writer_store_def Let_def option.case if_True rbind.simps)
    then show ?thesis using wd Some by (simp add: writes_def)
  qed
qed

lemma AppendLiteral_writes:
  assumes w: "writes dest cap w t" and "length t + length bs \<le> MaxSizeT"
  shows "\<exists>w'. AppendLiteral bs w = Ok w' \<and> writes dest cap w' (t @ bs)"
proof (cases "bs = []")
  case True
  then show ?thesis using w by (simp add: AppendLiteral_def Append_def)
next
  case False
  have "wRequired w = length t" using w by (simp add: writes_def)
  moreover obtain w' where "writer_store w bs = Ok w'"
    "writes dest cap (w'\<lparr>wRequired := length t + length bs\<rparr>) (t @ bs)"
    using writer_store_writes [OF w] by blast
  ultimately show ?thesis using False assms(2) by (simp add: AppendLiteral_def Append_def)
qed

interpretation bw: byte_sink "writes dest cap" MaxSizeT AppendLiteral for dest cap
  by unfold_locales (rule AppendLiteral_writes)

abbreviation writes_text ::
  "bytes option \<Rightarrow> nat \<Rightarrow> (BufferWriter \<Rightarrow> BufferWriter res) \<Rightarrow> bytes \<Rightarrow> bool"
where
  "writes_text dest cap \<equiv> emits (writes dest cap) MaxSizeT"

lemma writes_Append: "\<not> span_null text \<Longrightarrow> writes_text dest cap (\<lambda>w. Append w text) (span_list text)"
  using bw.emits_put [of dest cap "span_list text"]
  by (cases "text") (simp_all add: AppendLiteral_def emits_def)

lemma writes_AppendByte: "writes_text dest cap (AppendByte b) [b]"
proof -
  have "AppendByte b w = AppendLiteral [b] w" if "wRequired w \<le> MaxSizeT - 1" for w
    using that by (auto simp: AppendByte_def AppendLiteral_def Append_def MaxSizeT_def)
  then show ?thesis
    using bw.emits_put [of dest cap "[b]"] by (fastforce simp: emits_def writes_def MaxSizeT_def)
qed

lemma writes_AppendByte_then:
  "writes_text dest cap g bs \<Longrightarrow> writes_text dest cap (\<lambda>w. rbind (AppendByte b w) g) (b # bs)"
  using emits_seq [OF writes_AppendByte, of dest cap g bs b] by simp

text \<open>The text of a decimal and of a hexadecimal number.\<close>

function decimal_text :: "nat \<Rightarrow> nat \<Rightarrow> bytes" where
  "decimal_text value divisor =
     of_nat (48 + value div divisor mod 10) #
     (if divisor div 10 = 0 then [] else decimal_text value (divisor div 10))"
  by pat_completeness auto
termination
  by (relation "measure (\<lambda>(value, divisor). divisor)") auto

declare decimal_text.simps [simp del]

definition decimal :: "nat \<Rightarrow> bytes" where
  "decimal value = decimal_text value (decimal_divisor value 1)"

fun hex_text :: "nat \<Rightarrow> nat \<Rightarrow> bool \<Rightarrow> bytes" where
  "hex_text value 0 wrote = [hex_digits ! (value mod 16)]"
| "hex_text value (Suc n) wrote =
     (let digit = value div 2 ^ (4 * Suc n) mod 16 in
      if digit \<noteq> 0 \<or> wrote then hex_digits ! digit # hex_text value n True
      else hex_text value n wrote)"

definition hexadecimal :: "nat \<Rightarrow> bytes" where
  "hexadecimal value = hex_text value 15 False"

lemma writes_decimal_loop: "writes_text dest cap (decimal_loop value divisor) (decimal_text value divisor)"
proof (induction "value" divisor rule: decimal_text.induct)
  case (1 v d)
  have "decimal_loop v d = (\<lambda>w. rbind (AppendByte (of_nat (48 + v div d mod 10)) w)
      (if d div 10 = 0 then Ok else decimal_loop v (d div 10)))"
    by (rule ext, subst decimal_loop.simps) (simp split: res.split)
  moreover have "writes_text dest cap (if d div 10 = 0 then Ok else decimal_loop v (d div 10))
      (if d div 10 = 0 then [] else decimal_text v (d div 10))"
    using 1 by (simp add: emits_Ok)
  ultimately show ?case
    by (subst decimal_text.simps) (simp only: writes_AppendByte_then)
qed

lemma length_hex_digits [simp]: "length hex_digits = 16"
  by (simp add: hex_digits_def lit_def)

lemma writes_hex_loop: "writes_text dest cap (hex_loop value n wrote) (hex_text value n wrote)"
proof (induction n arbitrary: wrote)
  case 0
  have "hex_loop value 0 wrote = AppendByte (hex_digits ! (value mod 16))"
    by (rule ext) simp
  then show ?case by (simp add: writes_AppendByte)
next
  case (Suc n)
  let ?d = "value div 2 ^ (4 * Suc n) mod 16"
  have "hex_loop value (Suc n) wrote = (if ?d \<noteq> 0 \<or> wrote
      then (\<lambda>w. rbind (AppendByte (hex_digits ! ?d) w) (hex_loop value n True))
      else hex_loop value n wrote)"
    by (rule ext) (simp add: Let_def del: mult_Suc_right)
  then show ?case
    using Suc writes_AppendByte_then [OF Suc [of True]]
    by (simp add: Let_def del: mult_Suc_right hex_loop.simps)
qed

lemma writes_AppendDecimal: "writes_text dest cap (AppendDecimal n) (decimal n)"
  unfolding AppendDecimal_def [abs_def] decimal_def by (rule writes_decimal_loop)

lemma writes_AppendHex: "writes_text dest cap (AppendHex n) (hexadecimal n)"
  unfolding AppendHex_def [abs_def] hexadecimal_def by (rule writes_hex_loop)

section \<open>Numbers read back\<close>

lemma mod_power_Suc:
  fixes v b :: nat
  shows "v mod b ^ Suc n = v div b ^ n mod b * b ^ n + v mod b ^ n"
  using mod_mult2_eq [of v "b ^ n" b] by (simp add: mult.commute)

lemma hex_digit_facts: "d < 16 \<Longrightarrow> unat (HexValue (hex_digits ! d)) = d \<and> IsHexDigit (hex_digits ! d)"
proof -
  have "list_all (\<lambda>d. unat (HexValue (hex_digits ! d)) = d \<and> IsHexDigit (hex_digits ! d)) [0..<16]"
    by code_simp
  then show "d < 16 \<Longrightarrow> ?thesis" by (simp add: list_all_iff)
qed

lemma hex_text_value:
  "(wrote \<or> acc = 0) \<Longrightarrow>
   radix_value 16 (\<lambda>c. unat (HexValue c)) acc (hex_text v n wrote) =
     acc * 16 ^ Suc n + v mod 16 ^ Suc n \<and>
   list_all IsHexDigit (hex_text v n wrote) \<and> hex_text v n wrote \<noteq> [] \<and>
   length (hex_text v n wrote) \<le> Suc n"
proof (induction n arbitrary: wrote acc)
  case 0
  then show ?case using hex_digit_facts [of "v mod 16"] by simp
next
  case (Suc n)
  let ?d = "v div 16 ^ Suc n mod 16"
  have p: "(2::nat) ^ (4 * Suc n) = 16 ^ Suc n"
    by (simp only: power_mult) simp
  have split: "v mod 16 ^ Suc (Suc n) = ?d * 16 ^ Suc n + v mod 16 ^ Suc n"
    by (rule mod_power_Suc)
  have d: "unat (HexValue (hex_digits ! ?d)) = ?d" "IsHexDigit (hex_digits ! ?d)"
    using hex_digit_facts [of ?d] by auto
  show ?case
  proof (cases "?d \<noteq> 0 \<or> wrote")
    case True
    then have unf: "hex_text v (Suc n) wrote = hex_digits ! ?d # hex_text v n True"
      unfolding hex_text.simps p Let_def by simp
    show ?thesis
      using Suc.IH [of True "acc * 16 + ?d"] d split unfolding unf
      by (simp add: algebra_simps)
  next
    case False
    then have unf: "hex_text v (Suc n) wrote = hex_text v n False" and "acc = 0" "?d = 0"
      using Suc.prems unfolding hex_text.simps p Let_def by auto
    then show ?thesis using Suc.IH [of False 0] split by simp
  qed
qed

lemma hexadecimal_facts:
  assumes "v < 2 ^ 64"
  shows "ParseHexSize (hexadecimal v) = Ok (of_nat v)" "length (hexadecimal v) \<le> 16"
    "list_all IsHexDigit (hexadecimal v)"
proof -
  note t = hex_text_value [of False 0 v 15]
  have val: "hex_value (hexadecimal v) = v" using t assms by (simp add: hex_value_def hexadecimal_def)
  have "unat (of_nat v :: ULONGLONG) = v"
    using assms by (simp add: unat_of_nat take_bit_nat_eq_self_iff)
  then show "ParseHexSize (hexadecimal v) = Ok (of_nat v)"
    using ParseHexSize_Ok_iff [of "hexadecimal v" "of_nat v"] t val assms by (simp add: hexadecimal_def)
  show "length (hexadecimal v) \<le> 16" "list_all IsHexDigit (hexadecimal v)"
    using t by (simp_all add: hexadecimal_def)
qed

lemma hex_digit_plain: "IsHexDigit c \<Longrightarrow> c \<noteq> 13 \<and> c \<noteq> 59 \<and> c \<noteq> 32 \<and> c \<noteq> 9"
  by (auto simp: IsHexDigit_def)

lemma chunk_size_line_hexadecimal:
  assumes "v < 2 ^ 64"
  shows "chunk_size_line (hexadecimal v) = Ok (of_nat v)"
proof -
  note h = hexadecimal_facts [OF assms]
  have ne: "hexadecimal v \<noteq> []" using h(1) by (auto simp: ParseHexSize_def)
  have all: "\<forall>c \<in> set (hexadecimal v). c \<noteq> 59 \<and> \<not> IsOptionalWhitespace c"
    using h(3) hex_digit_plain by (auto simp: list_all_iff IsOptionalWhitespace_def)
  then have tw: "takeWhile (\<lambda>c. c \<noteq> 59) (hexadecimal v) = hexadecimal v"
    and dw: "dropWhile (\<lambda>c. c \<noteq> 59) (hexadecimal v) = []"
    by (auto simp: takeWhile_eq_all_conv)
  have "trim_ows (hexadecimal v) = hexadecimal v"
    using all ne by (intro trim_ows_id) (simp add: all)
  then show ?thesis using h(1) ne unfolding chunk_size_line_def Let_def tw dw by simp
qed

lemma dec_digit: "d < 10 \<Longrightarrow> unat (of_nat (48 + d) - 48 :: UCHAR) = d \<and> IsDigit (of_nat (48 + d))"
proof -
  have "list_all (\<lambda>d. unat (of_nat (48 + d) - 48 :: UCHAR) = d \<and> IsDigit (of_nat (48 + d))) [0..<10]"
    by code_simp
  then show "d < 10 \<Longrightarrow> ?thesis" by (simp add: list_all_iff)
qed

lemma decimal_text_value:
  "radix_value 10 (\<lambda>c. unat (c - 48)) acc (decimal_text v (10 ^ k)) = acc * 10 ^ Suc k + v mod 10 ^ Suc k \<and>
   list_all IsDigit (decimal_text v (10 ^ k))"
proof (induction k arbitrary: acc)
  case 0
  have "decimal_text v 1 = [of_nat (48 + v mod 10)]" by (subst decimal_text.simps) simp
  then show ?case using dec_digit [of "v mod 10"] by simp
next
  case (Suc k)
  let ?d = "v div 10 ^ Suc k mod 10"
  have "decimal_text v (10 ^ Suc k) = of_nat (48 + ?d) # decimal_text v (10 ^ k)"
    by (subst decimal_text.simps) simp
  moreover have "v mod 10 ^ Suc (Suc k) = ?d * 10 ^ Suc k + v mod 10 ^ Suc k"
    by (rule mod_power_Suc)
  ultimately show ?case
    using Suc.IH [of "acc * 10 + ?d"] dec_digit [of ?d] by (simp add: algebra_simps)
qed

lemma decimal_divisor_power:
  "\<exists>k. decimal_divisor v (10 ^ j) = 10 ^ k \<and> v < 10 ^ Suc k"
proof (induction "v - 10 ^ j" arbitrary: j rule: less_induct)
  case less
  show ?case
  proof (cases "v div 10 ^ j \<ge> 10")
    case True
    then have le: "10 ^ j * 10 \<le> v" using decimal_divisor_step by blast
    have "decimal_divisor v (10 ^ j) = decimal_divisor v (10 ^ Suc j)"
      using True by (subst decimal_divisor.simps) (simp add: mult.commute)
    moreover have "v - 10 ^ Suc j < v - 10 ^ j"
    proof (rule diff_less_mono2)
      show "(10::nat) ^ j < 10 ^ Suc j" by simp
      also have "\<dots> \<le> v" using le by (simp add: mult.commute)
      finally show "10 ^ j < v" .
    qed
    ultimately show ?thesis using less by metis
  next
    case False
    then have "v < 10 ^ Suc j" by (simp add: div_less_iff_less_mult not_le mult.commute)
    then show ?thesis using False by (subst decimal_divisor.simps) auto
  qed
qed

lemma decimal_facts: "dec_value (decimal v) = v" "list_all IsDigit (decimal v)" "decimal v \<noteq> []"
proof -
  obtain k where k: "decimal_divisor v 1 = 10 ^ k" "v < 10 ^ Suc k"
    using decimal_divisor_power [of v 0] by auto
  then show "dec_value (decimal v) = v" "list_all IsDigit (decimal v)"
    using decimal_text_value [of 0 v k] by (simp_all add: decimal_def dec_value_def)
  show "decimal v \<noteq> []" unfolding decimal_def by (subst decimal_text.simps) simp
qed

lemma ParseSize_decimal: "v < 2 ^ 64 \<Longrightarrow> ParseSize (decimal v) = Ok (of_nat v)"
  using ParseSize_Ok_iff [of "decimal v" "of_nat v"] decimal_facts [of v]
  by (simp add: unat_of_nat take_bit_nat_eq_self_iff)

section \<open>The text of a request\<close>

text \<open>
  The reference: what the message of RFC 9112 for these options is, written without a buffer.
\<close>

definition has_body :: "HttpRequestBuildOptions \<Rightarrow> bool" where
  "has_body options \<longleftrightarrow> span_len (ReqBody options) > 0 \<or> IncludeContentLength options"

definition pair_of :: "HttpHeader \<Rightarrow> bytes \<times> bytes" where
  "pair_of h = (span_list (Name h), span_list (Value h))"

definition framing_fields :: "HttpRequestBuildOptions \<Rightarrow> (bytes \<times> bytes) list" where
  "framing_fields options =
     (if \<not> has_body options then []
      else if BodyMode options = ModeChunked then [(lit ''Transfer-Encoding'', lit ''chunked'')]
      else [(lit ''Content-Length'', decimal (span_len (ReqBody options)))])"

definition connection_fields :: "HttpRequestBuildOptions \<Rightarrow> (bytes \<times> bytes) list" where
  "connection_fields options =
     (case Connection options of
        KeepAlive \<Rightarrow> [(lit ''Connection'', lit ''keep-alive'')]
      | Close \<Rightarrow> [(lit ''Connection'', lit ''close'')]
      | Upgrade \<Rightarrow> [(lit ''Connection'', lit ''Upgrade'')]
      | Omit \<Rightarrow> [])"

definition optional_field :: "string \<Rightarrow> HttpText \<Rightarrow> (bytes \<times> bytes) list" where
  "optional_field name v = (if span_len v > 0 then [(lit name, span_list v)] else [])"

definition request_fields :: "HttpRequestBuildOptions \<Rightarrow> (bytes \<times> bytes) list" where
  "request_fields options =
     [(lit ''Host'', span_list (ReqHost options))] @
     optional_field ''User-Agent'' (UserAgent options) @
     optional_field ''Content-Type'' (ContentType options) @
     framing_fields options @ connection_fields options @
     map pair_of (span_list (ExtraHeaders options))"

definition request_line :: "HttpRequestBuildOptions \<Rightarrow> bytes" where
  "request_line options =
     span_list (MethodText options) @ [32] @ span_list (ReqPath options) @ lit '' HTTP/1.1''"

definition body_chunks :: "bytes \<Rightarrow> (bytes \<times> bytes) list" where
  "body_chunks body = (if body = [] then [] else [(hexadecimal (length body), body)])"

definition body_text :: "HttpRequestBuildOptions \<Rightarrow> bytes" where
  "body_text options =
     (if \<not> has_body options then []
      else if BodyMode options = ModeChunked
      then chunked_message (body_chunks (span_list (ReqBody options)))
             (map pair_of (span_list (ReqTrailers options)))
      else span_list (ReqBody options))"

definition request_text :: "HttpRequestBuildOptions \<Rightarrow> bytes" where
  "request_text options =
     request_line options @ crlf @ field_lines (request_fields options) @ crlf @ body_text options"

abbreviation valid_field :: "HttpHeader \<Rightarrow> bool" where
  "valid_field h \<equiv> IsValidRequestHeaderName (Name h) \<and> IsValidRequestHeaderValue (Value h)"

text \<open>The conditions under which a request is built.\<close>

definition request_valid :: "HttpRequestBuildOptions \<Rightarrow> bool" where
  "request_valid options \<longleftrightarrow>
     IsValidRequestTarget (ReqPath options) \<and> IsValidRequestHeaderValue (ReqHost options) \<and>
     readable (ReqBody options) \<and> readable (ExtraHeaders options) \<and>
     ValidateExtraHeaders options = Ok () \<and> ValidateTrailers options = Ok () \<and>
     IsValidRequestHeaderName (MethodText options) \<and>
     (span_len (UserAgent options) > 0 \<longrightarrow> IsValidRequestHeaderValue (UserAgent options)) \<and>
     (span_len (ContentType options) > 0 \<longrightarrow> IsValidRequestHeaderValue (ContentType options)) \<and>
     (\<forall>h \<in> set (span_list (ExtraHeaders options)). valid_field h)"

lemma writes_AppendHeader:
  assumes "IsValidRequestHeaderName name" "IsValidRequestHeaderValue v"
  shows "writes_text dest cap (AppendHeader name v) (field_line (span_list name) (span_list v) @ crlf)"
proof -
  have n: "writes_text dest cap (\<lambda>w. Append w name) (span_list name)"
    using assms(1) by (intro writes_Append) (simp add: IsValidRequestHeaderName_def IsValidText_def)
  have v: "writes_text dest cap (\<lambda>w. Append w v) (span_list v)"
  proof (cases "span_null v")
    case False
    then show ?thesis by (rule writes_Append)
  next
    case True
    then have "span_len v = 0" "span_list v = []"
      using assms(2) by (cases v; auto simp: IsValidRequestHeaderValue_def)+
    then show ?thesis by (simp add: Append_def emits_Ok)
  qed
  have "AppendHeader name v = (\<lambda>w. rbind (Append w name) (\<lambda>w. rbind (AppendLiteral [58, 32] w)
      (\<lambda>w. rbind (Append w v) (AppendLiteral [13, 10]))))"
    using assms by (intro ext) (simp add: AppendHeader_def)
  moreover have "writes_text dest cap (\<lambda>w. rbind (Append w name) (\<lambda>w. rbind (AppendLiteral [58, 32] w)
      (\<lambda>w. rbind (Append w v) (AppendLiteral [13, 10])))) (span_list name @ [58, 32] @ span_list v @ [13, 10])"
    by (intro emits_seq bw.emits_put_then bw.emits_put n v)
  ultimately show ?thesis by (simp add: field_line_def crlf_def)
qed

lemma writes_append_headers:
  "\<forall>h \<in> set hs. valid_field h \<Longrightarrow>
   writes_text dest cap (append_headers hs) (field_lines (map pair_of hs))"
proof (induction hs)
  case Nil
  have "append_headers [] = Ok" by (rule ext) simp
  then show ?case by (simp add: field_lines_def emits_Ok)
next
  case (Cons h hs)
  have "append_headers (h # hs) = (\<lambda>w. rbind (AppendHeader (Name h) (Value h) w) (append_headers hs))"
    by (rule ext) simp
  moreover have "writes_text dest cap (\<lambda>w. rbind (AppendHeader (Name h) (Value h) w) (append_headers hs))
      ((field_line (span_list (Name h)) (span_list (Value h)) @ crlf) @ field_lines (map pair_of hs))"
    using Cons by (intro emits_seq writes_AppendHeader) auto
  moreover have "(field_line (span_list (Name h)) (span_list (Value h)) @ crlf) @ field_lines (map pair_of hs) =
      field_lines (map pair_of (h # hs))"
    by (simp add: field_lines_def pair_of_def [of h])
  ultimately show ?case by (simp only:)
qed

lemma field_lines_append: "field_lines (xs @ ys) = field_lines xs @ field_lines ys"
  by (simp add: field_lines_def)

lemma field_lines_single: "field_lines [(n, v)] = field_line n v @ crlf"
  by (simp add: field_lines_def)

text \<open>Names and values of the fields that the builder adds itself.\<close>

lemma own_names_valid:
  "IsValidRequestHeaderName (MakeText ''Host'')" "IsValidRequestHeaderName (MakeText ''User-Agent'')"
  "IsValidRequestHeaderName (MakeText ''Content-Type'')"
  "IsValidRequestHeaderName (MakeText ''Transfer-Encoding'')"
  "IsValidRequestHeaderName (MakeText ''Connection'')"
  "IsValidRequestHeaderName (MakeText ''Content-Length'')"
  by code_simp+

lemma own_values_valid:
  "IsValidRequestHeaderValue (MakeText ''chunked'')" "IsValidRequestHeaderValue (MakeText ''keep-alive'')"
  "IsValidRequestHeaderValue (MakeText ''close'')" "IsValidRequestHeaderValue (MakeText ''Upgrade'')"
  by code_simp+

lemma writes_own_header:
  "IsValidRequestHeaderName (MakeText n) \<Longrightarrow> IsValidRequestHeaderValue v \<Longrightarrow>
   writes_text dest cap (AppendHeader (MakeText n) v) (field_lines [(lit n, span_list v)])"
  using writes_AppendHeader [of "MakeText n" v dest cap] by (simp add: field_lines_single)

lemma writes_optional:
  assumes "IsValidRequestHeaderName (MakeText n)" "span_len v > 0 \<Longrightarrow> IsValidRequestHeaderValue v"
  shows "writes_text dest cap (append_optional n v) (field_lines (optional_field n v))"
proof (cases "span_len v > 0")
  case True
  then have "append_optional n v = AppendHeader (MakeText n) v"
    by (intro ext) (simp add: append_optional_def)
  then show ?thesis using writes_own_header [OF assms] True by (simp add: optional_field_def)
next
  case False
  then have "append_optional n v = Ok" by (intro ext) (simp add: append_optional_def)
  then show ?thesis using False by (simp add: optional_field_def field_lines_def emits_Ok)
qed

lemma writes_AppendContentLength:
  "writes_text dest cap (AppendContentLength n) (field_lines [(lit ''Content-Length'', decimal n)])"
proof -
  have "writes_text dest cap (\<lambda>w. rbind (AppendLiteral (lit ''Content-Length: '') w)
      (\<lambda>w. rbind (AppendDecimal n w) (AppendLiteral [13, 10])))
      (lit ''Content-Length: '' @ decimal n @ [13, 10])"
    by (intro emits_seq bw.emits_put_then bw.emits_put writes_AppendDecimal)
  then show ?thesis
    by (simp add: AppendContentLength_def [abs_def] field_lines_single field_line_def crlf_def lit_def)
qed

lemma writes_framing: "writes_text dest cap (append_framing options) (field_lines (framing_fields options))"
proof -
  consider (none) "\<not> has_body options" | (chunked) "has_body options" "BodyMode options = ModeChunked"
    | (length) "has_body options" "BodyMode options = ModeContentLength"
    using HttpRequestBodyMode.exhaust by blast
  then show ?thesis
  proof cases
    case none
    then have "append_framing options = Ok" by (intro ext) (simp add: append_framing_def has_body_def)
    then show ?thesis using none by (simp add: framing_fields_def field_lines_def emits_Ok)
  next
    case chunked
    then have "append_framing options = AppendHeader (MakeText ''Transfer-Encoding'') (MakeText ''chunked'')"
      by (intro ext) (simp add: append_framing_def has_body_def)
    then show ?thesis
      using chunked writes_own_header [OF own_names_valid(4) own_values_valid(1)]
      by (simp add: framing_fields_def)
  next
    case length
    then have "append_framing options = AppendContentLength (span_len (ReqBody options))"
      by (intro ext) (simp add: append_framing_def has_body_def)
    then show ?thesis using length writes_AppendContentLength by (simp add: framing_fields_def)
  qed
qed

lemma writes_connection:
  "writes_text dest cap (append_connection options) (field_lines (connection_fields options))"
proof (cases "Connection options")
  case Omit
  then have "append_connection options = Ok" by (intro ext) (simp add: append_connection_def)
  then show ?thesis using Omit by (simp add: connection_fields_def field_lines_def emits_Ok)
next
  case KeepAlive
  then show ?thesis
    using writes_own_header [OF own_names_valid(5) own_values_valid(2)]
    by (simp add: append_connection_def [abs_def] connection_fields_def)
next
  case Close
  then show ?thesis
    using writes_own_header [OF own_names_valid(5) own_values_valid(3)]
    by (simp add: append_connection_def [abs_def] connection_fields_def)
next
  case Upgrade
  then show ?thesis
    using writes_own_header [OF own_names_valid(5) own_values_valid(4)]
    by (simp add: append_connection_def [abs_def] connection_fields_def)
qed

lemma readable_nonempty: "readable s \<Longrightarrow> span_len s > 0 \<Longrightarrow> \<not> span_null s"
  by (auto simp: readable_def)

lemma span_len_list: "readable s \<Longrightarrow> span_len s = length (span_list s)"
  by (cases s) (auto simp: readable_def)

lemma writes_AppendChunkedBody:
  assumes body: "readable body" and ts: "\<forall>h \<in> set ts. valid_field h"
  shows "writes_text dest cap (AppendChunkedBody body ts)
    (chunked_message (body_chunks (span_list body)) (map pair_of ts))"
proof -
  note len = span_len_list [OF body]
  define first where "first = (\<lambda>w. if span_len body \<noteq> 0
               then rbind (AppendHex (span_len body) w) (\<lambda>w.
                    rbind (AppendLiteral [13, 10] w) (\<lambda>w.
                    rbind (Append w body) (AppendLiteral [13, 10])))
               else Ok w)"
  have f: "writes_text dest cap first (chunk_frames (body_chunks (span_list body)))"
  proof (cases "span_len body = 0")
    case True
    then have "first = Ok" by (intro ext) (simp add: first_def)
    then show ?thesis using True len by (simp add: body_chunks_def chunk_frames_def emits_Ok)
  next
    case False
    then have "\<not> span_null body" using readable_nonempty [OF body] by simp
    then have "writes_text dest cap (\<lambda>w. rbind (AppendHex (span_len body) w) (\<lambda>w.
                    rbind (AppendLiteral [13, 10] w) (\<lambda>w.
                    rbind (Append w body) (AppendLiteral [13, 10]))))
      (hexadecimal (span_len body) @ [13, 10] @ span_list body @ [13, 10])"
      by (intro emits_seq bw.emits_put_then bw.emits_put writes_AppendHex writes_Append)
    then show ?thesis
      using False len by (simp add: first_def body_chunks_def chunk_frames_def crlf_def)
  qed
  have "AppendChunkedBody body ts = (\<lambda>w. rbind (first w) (\<lambda>w.
        rbind (AppendLiteral (lit ''0'' @ [13, 10]) w) (\<lambda>w.
        rbind (append_headers ts w) (AppendLiteral [13, 10]))))"
    using body by (intro ext) (auto simp: AppendChunkedBody_def first_def readable_def)
  moreover have "writes_text dest cap (\<lambda>w. rbind (first w) (\<lambda>w.
        rbind (AppendLiteral (lit ''0'' @ [13, 10]) w) (\<lambda>w.
        rbind (append_headers ts w) (AppendLiteral [13, 10]))))
      (chunk_frames (body_chunks (span_list body)) @ (lit ''0'' @ [13, 10]) @
       field_lines (map pair_of ts) @ [13, 10])"
    using f ts by (intro emits_seq bw.emits_put_then bw.emits_put writes_append_headers)
  ultimately show ?thesis by (simp add: chunked_message_def crlf_def)
qed

lemma validate_trailers_loop_valid:
  "validate_trailers_loop ts = Ok () \<Longrightarrow>
   \<forall>t \<in> set ts. valid_field t \<and> \<not> IsForbiddenTrailerField (Name t)"
  by (induction ts) (auto split: if_splits)

lemma ValidateTrailers_valid:
  "ValidateTrailers options = Ok () \<Longrightarrow>
   \<forall>t \<in> set (span_list (ReqTrailers options)). valid_field t \<and> \<not> IsForbiddenTrailerField (Name t)"
  using validate_trailers_loop_valid length_span_list [of "ReqTrailers options"]
  by (auto simp: ValidateTrailers_def split: if_splits)

lemma writes_body:
  assumes "readable (ReqBody options)" "ValidateTrailers options = Ok ()"
  shows "writes_text dest cap (append_body options) (body_text options)"
proof -
  note len = span_len_list [OF assms(1)]
  consider (none) "\<not> has_body options"
    | (chunked) "has_body options" "BodyMode options = ModeChunked"
    | (empty) "has_body options" "BodyMode options = ModeContentLength" "span_len (ReqBody options) = 0"
    | (length) "has_body options" "BodyMode options = ModeContentLength" "span_len (ReqBody options) > 0"
    using HttpRequestBodyMode.exhaust by blast
  then show ?thesis
  proof cases
    case none
    then have "append_body options = Ok" by (intro ext) (simp add: append_body_def has_body_def)
    then show ?thesis using none by (simp add: body_text_def emits_Ok)
  next
    case chunked
    then have "append_body options =
        AppendChunkedBody (ReqBody options) (span_list (ReqTrailers options))"
      by (intro ext) (simp add: append_body_def has_body_def)
    then show ?thesis
      using chunked writes_AppendChunkedBody [OF assms(1)] ValidateTrailers_valid [OF assms(2)]
      by (simp add: body_text_def)
  next
    case empty
    then have "append_body options = Ok" by (intro ext) (simp add: append_body_def)
    then show ?thesis using empty len by (simp add: body_text_def emits_Ok)
  next
    case length
    then have "append_body options = (\<lambda>w. Append w (ReqBody options))"
      by (intro ext) (simp add: append_body_def)
    then show ?thesis
      using length writes_Append [OF readable_nonempty [OF assms(1)]] by (simp add: body_text_def)
  qed
qed

lemma writes_request:
  assumes "request_valid options"
  shows "writes_text dest cap (append_request options) (request_text options)"
proof -
  have valid: "IsValidRequestHeaderName (MethodText options)" "IsValidRequestTarget (ReqPath options)"
    "IsValidRequestHeaderValue (ReqHost options)" "readable (ReqBody options)"
    "ValidateTrailers options = Ok ()" "\<forall>h \<in> set (span_list (ExtraHeaders options)). valid_field h"
    "span_len (UserAgent options) > 0 \<Longrightarrow> IsValidRequestHeaderValue (UserAgent options)"
    "span_len (ContentType options) > 0 \<Longrightarrow> IsValidRequestHeaderValue (ContentType options)"
    using assms by (auto simp: request_valid_def)
  have m: "writes_text dest cap (\<lambda>w. Append w (MethodText options)) (span_list (MethodText options))"
    using valid(1) by (intro writes_Append) (simp add: IsValidRequestHeaderName_def IsValidText_def)
  have p: "writes_text dest cap (\<lambda>w. Append w (ReqPath options)) (span_list (ReqPath options))"
    using valid(2) by (intro writes_Append) (simp add: IsValidRequestTarget_def IsValidText_def)
  have "writes_text dest cap (append_request options)
    (span_list (MethodText options) @ [32] @ span_list (ReqPath options) @ (lit '' HTTP/1.1'' @ [13, 10]) @
     field_lines [(lit ''Host'', span_list (ReqHost options))] @
     field_lines (optional_field ''User-Agent'' (UserAgent options)) @
     field_lines (optional_field ''Content-Type'' (ContentType options)) @
     field_lines (framing_fields options) @ field_lines (connection_fields options) @
     field_lines (map pair_of (span_list (ExtraHeaders options))) @ [13, 10] @ body_text options)"
    unfolding append_request_def [abs_def]
    by (intro emits_seq bw.emits_put_then m p writes_own_header writes_optional writes_framing
        writes_connection writes_append_headers writes_body own_names_valid valid)
  then show ?thesis
    by (simp only: request_text_def request_line_def request_fields_def field_lines_append crlf_def
        append_assoc)
qed

section \<open>What the builder accepts\<close>

lemma AppendHeader_Ok: "AppendHeader n v w = Ok w' \<Longrightarrow> IsValidRequestHeaderName n \<and> IsValidRequestHeaderValue v"
  by (auto simp: AppendHeader_def split: if_splits)

lemma append_headers_Ok: "append_headers hs w = Ok w' \<Longrightarrow> \<forall>h \<in> set hs. valid_field h"
  by (induction hs arbitrary: w) (auto dest: AppendHeader_Ok)

lemma append_optional_Ok:
  "append_optional n v w = Ok w' \<Longrightarrow> span_len v > 0 \<longrightarrow> IsValidRequestHeaderValue v"
  by (auto simp: append_optional_def dest: AppendHeader_Ok split: if_splits)

lemma Build_request_valid:
  assumes "Build options dest cap = Ok r"
  shows "request_valid options"
proof -
  obtain w where w: "append_request options \<lparr>wDestination = dest, wCapacity = cap, wRequired = 0\<rparr> = Ok w"
    using assms by (auto simp: Build_def split: if_splits)
  then have "\<forall>h \<in> set (span_list (ExtraHeaders options)). valid_field h"
    "span_len (UserAgent options) > 0 \<longrightarrow> IsValidRequestHeaderValue (UserAgent options)"
    "span_len (ContentType options) > 0 \<longrightarrow> IsValidRequestHeaderValue (ContentType options)"
    unfolding append_request_def rbind_eq_Ok
    by (blast dest: append_headers_Ok append_optional_Ok)+
  then show ?thesis
    using assms
    by (auto simp: Build_def request_valid_def readable_def split: if_splits)
qed

lemma value_bytes_plain: "IsValidRequestHeaderValue v \<Longrightarrow> 13 \<notin> set (span_list v) \<and> 10 \<notin> set (span_list v)"
  by (auto simp: IsValidRequestHeaderValue_def IsValidHeaderValueByte_def list_all_iff)

lemma name_bytes_plain:
  "IsValidRequestHeaderName n \<Longrightarrow>
   13 \<notin> set (span_list n) \<and> 10 \<notin> set (span_list n) \<and> 58 \<notin> set (span_list n) \<and> 32 \<notin> set (span_list n)"
  by (auto simp: IsValidRequestHeaderName_def IsValidText_def IsValidHeaderNameByte_def list_all_iff lit_def)

lemma target_bytes_plain:
  "IsValidRequestTarget p \<Longrightarrow> 13 \<notin> set (span_list p) \<and> 10 \<notin> set (span_list p) \<and> 32 \<notin> set (span_list p)"
  by (auto simp: IsValidRequestTarget_def IsValidText_def IsValidRequestTargetByte_def list_all_iff)

definition plain_pair :: "bytes \<times> bytes \<Rightarrow> bool" where
  "plain_pair f \<longleftrightarrow>
     58 \<notin> set (fst f) \<and> 13 \<notin> set (fst f) \<and> 10 \<notin> set (fst f) \<and> 13 \<notin> set (snd f) \<and> 10 \<notin> set (snd f)"

lemma decimal_plain: "13 \<notin> set (decimal n) \<and> 10 \<notin> set (decimal n)"
  using decimal_facts(2) [of n] by (auto simp: list_all_iff IsDigit_def)

lemma plain_pair_header: "valid_field h \<Longrightarrow> plain_pair (pair_of h)"
  by (simp add: plain_pair_def pair_of_def value_bytes_plain name_bytes_plain)

lemma request_fields_plain:
  assumes "request_valid options"
  shows "\<forall>f \<in> set (request_fields options). plain_pair f"
proof -
  have own: "plain_pair (lit ''Host'', v)" "plain_pair (lit ''User-Agent'', v)"
      "plain_pair (lit ''Content-Type'', v)" if "13 \<notin> set v \<and> 10 \<notin> set v" for v
    using that by (simp_all add: plain_pair_def lit_def)
  have "\<forall>f \<in> set (framing_fields options @ connection_fields options). plain_pair f"
    using decimal_plain
    by (auto simp: framing_fields_def connection_fields_def plain_pair_def lit_def
        split: HttpConnectionDirective.split)
  moreover have "\<forall>f \<in> set (map pair_of (span_list (ExtraHeaders options))). plain_pair f"
    using assms plain_pair_header by (auto simp: request_valid_def)
  moreover have "\<forall>f \<in> set (optional_field ''User-Agent'' (UserAgent options) @
      optional_field ''Content-Type'' (ContentType options)). plain_pair f"
    using assms own value_bytes_plain by (auto simp: request_valid_def optional_field_def)
  moreover have "plain_pair (lit ''Host'', span_list (ReqHost options))"
    using assms own value_bytes_plain by (simp add: request_valid_def)
  ultimately show ?thesis by (auto simp: request_fields_def)
qed

text \<open>Which field names occur in a request.\<close>

abbreviation named :: "string \<Rightarrow> bytes \<times> bytes \<Rightarrow> bool" where
  "named n f \<equiv> TextEqualsIgnoreCase (Span (fst f)) (MakeText n)"

lemma validate_extra_loop_names:
  "validate_extra_loop b c hs = Ok () \<Longrightarrow>
   \<forall>h \<in> set hs. \<not> name_is h ''Transfer-Encoding'' \<and> \<not> name_is h ''TE'' \<and> \<not> name_is h ''Host'' \<and>
     \<not> name_is h ''Content-Length'' \<and> \<not> name_is h ''Connection''"
  by (induction hs) (auto split: if_splits)

lemma named_pair_of: "valid_field h \<Longrightarrow> named n (pair_of h) = name_is h n"
  by (cases "Name h") (auto simp: pair_of_def IsValidRequestHeaderName_def IsValidText_def)

abbreviation same_name :: "string \<Rightarrow> string \<Rightarrow> bool" where
  "same_name a b \<equiv> TextEqualsIgnoreCase (Span (lit a)) (MakeText b)"

lemma named_own:
  "same_name ''Content-Length'' ''Content-Length''"
  "same_name ''Transfer-Encoding'' ''Transfer-Encoding''"
  "\<not> same_name ''Content-Length'' ''Transfer-Encoding''"
  "\<not> same_name ''Transfer-Encoding'' ''Content-Length''"
  "\<not> same_name ''Host'' ''Content-Length''" "\<not> same_name ''Host'' ''Transfer-Encoding''"
  "\<not> same_name ''User-Agent'' ''Content-Length''" "\<not> same_name ''User-Agent'' ''Transfer-Encoding''"
  "\<not> same_name ''Content-Type'' ''Content-Length''" "\<not> same_name ''Content-Type'' ''Transfer-Encoding''"
  "\<not> same_name ''Connection'' ''Content-Length''" "\<not> same_name ''Connection'' ''Transfer-Encoding''"
  "same_name ''Host'' ''Host''" "\<not> same_name ''User-Agent'' ''Host''"
  "\<not> same_name ''Content-Type'' ''Host''" "\<not> same_name ''Connection'' ''Host''"
  "\<not> same_name ''Content-Length'' ''Host''" "\<not> same_name ''Transfer-Encoding'' ''Host''"
  by (simp_all add: TextEqualsIgnoreCase_Span MakeText_def lit_def ToLowerAscii_def IsUpperAscii_def)

lemma request_fields_framing:
  assumes "request_valid options"
  shows "filter (\<lambda>f. named ''Content-Length'' f \<or> named ''Transfer-Encoding'' f) (request_fields options) =
      framing_fields options"
    "filter (named ''Host'') (request_fields options) = [(lit ''Host'', span_list (ReqHost options))]"
proof -
  have extra: "\<forall>h \<in> set (span_list (ExtraHeaders options)). valid_field h \<and>
      \<not> name_is h ''Transfer-Encoding'' \<and> \<not> name_is h ''Host'' \<and> \<not> name_is h ''Content-Length''"
    using assms validate_extra_loop_names by (fastforce simp: request_valid_def ValidateExtraHeaders_def)
  then have x: "filter P (map pair_of (span_list (ExtraHeaders options))) = []"
    if "P = (\<lambda>f. named ''Content-Length'' f \<or> named ''Transfer-Encoding'' f) \<or> P = named ''Host''" for P
    using that by (auto simp: filter_empty_conv named_pair_of)
  have opt: "filter P (optional_field n v) = []" if "\<And>x. \<not> P (lit n, x)" for P n v
    using that by (simp add: optional_field_def)
  have conn: "filter P (connection_fields options) = []" if "\<And>x. \<not> P (lit ''Connection'', x)" for P
    using that by (simp add: connection_fields_def split: HttpConnectionDirective.split)
  show "filter (\<lambda>f. named ''Content-Length'' f \<or> named ''Transfer-Encoding'' f) (request_fields options) =
      framing_fields options"
  proof -
    let ?P = "\<lambda>f. named ''Content-Length'' f \<or> named ''Transfer-Encoding'' f"
    have "filter ?P (framing_fields options) = framing_fields options"
      by (simp add: framing_fields_def named_own)
    moreover have "filter ?P (optional_field ''User-Agent'' v) = []"
      "filter ?P (optional_field ''Content-Type'' v) = []" "filter ?P (connection_fields options) = []" for v
      by (intro opt conn; simp add: named_own)+
    ultimately show ?thesis
      using x [of ?P] by (simp only: request_fields_def filter_append) (simp add: named_own)
  qed
  show "filter (named ''Host'') (request_fields options) = [(lit ''Host'', span_list (ReqHost options))]"
  proof -
    have "filter (named ''Host'') (framing_fields options) = []"
      by (simp add: framing_fields_def named_own)
    moreover have "filter (named ''Host'') (optional_field ''User-Agent'' v) = []"
      "filter (named ''Host'') (optional_field ''Content-Type'' v) = []"
      "filter (named ''Host'') (connection_fields options) = []" for v
      by (intro opt conn; simp add: named_own)+
    ultimately show ?thesis
      using x [of "named ''Host''"] by (simp only: request_fields_def filter_append) (simp add: named_own)
  qed
qed

text \<open>A request used in the examples.\<close>

definition example_request :: HttpRequestBuildOptions where
  "example_request =
     \<lparr>Method = MethodPost, CustomMethod = NullSpan 0, ReqPath = MakeText ''/a'', ReqHost = MakeText ''h'',
      UserAgent = NullSpan 0, ContentType = NullSpan 0, Connection = Close,
      ExtraHeaders = Span [\<lparr>Name = MakeText ''X'', Value = MakeText ''y''\<rparr>],
      ReqTrailers = Span [\<lparr>Name = MakeText ''T'', Value = MakeText ''u''\<rparr>],
      ReqBody = MakeText ''data'', IncludeContentLength = False, BodyMode = ModeChunked\<rparr>"

lemma example_request_valid: "request_valid example_request"
  unfolding request_valid_def readable_def by code_simp

lemma hex_text_small: "v < 16 \<Longrightarrow> hex_text v n False = [hex_digits ! v]"
proof (induction n)
  case (Suc n)
  have "(16::nat) \<le> 2 ^ (4 * Suc n)"
    using power_increasing [of 4 "4 * Suc n" "2::nat"] by simp
  then have "v div 2 ^ (4 * Suc n) = 0" using Suc.prems by simp
  then show ?case using Suc by (simp del: mult_Suc_right)
qed simp

lemma example_request_text:
  "request_text example_request =
     lit ''POST /a HTTP/1.1'' @ crlf @ lit ''Host: h'' @ crlf @ lit ''Transfer-Encoding: chunked'' @ crlf @
     lit ''Connection: close'' @ crlf @ lit ''X: y'' @ crlf @ crlf @
     lit ''4'' @ crlf @ lit ''data'' @ crlf @ lit ''0'' @ crlf @ lit ''T: u'' @ crlf @ crlf"
proof -
  have "hexadecimal (length (lit ''data'')) = lit ''4''"
    using hex_text_small [of "length (lit ''data'')" 15] by (simp add: hexadecimal_def hex_digits_def lit_def)
  then show ?thesis
    by (simp add: request_text_def request_line_def example_request_def MethodText_def request_fields_def
        optional_field_def framing_fields_def has_body_def connection_fields_def pair_of_def
        body_text_def body_chunks_def chunked_message_def chunk_frames_def field_lines_def
        field_line_def lit_def)
qed

lemma example_request_length: "length (request_text example_request) = 102"
  by (simp add: example_request_text lit_def crlf_def)

lemma Build_total:
  assumes "request_valid options" "length (request_text options) \<le> MaxSizeT"
    and "case dest of None \<Rightarrow> cap = 0 | Some buf \<Rightarrow> length buf = cap"
  shows "Build options dest cap =
    (if length (request_text options) \<le> cap
     then Ok (Built \<lparr>wDestination = map_option (\<lambda>buf. overlay buf 0 (request_text options)) dest,
                     wCapacity = cap, wRequired = length (request_text options)\<rparr>)
     else Ok (TooSmall (length (request_text options))))"
proof -
  let ?w = "\<lparr>wDestination = dest, wCapacity = cap, wRequired = 0\<rparr>"
  have "writes dest cap ?w []"
    using assms(3) by (auto simp: writes_def map_option_case split: option.splits)
  then obtain w where w: "append_request options ?w = Ok w" "writes dest cap w (request_text options)"
    using emits_run [OF writes_request [OF assms(1)], of dest cap ?w "[]"] assms(2) by auto
  have eq: "w = \<lparr>wDestination = map_option (\<lambda>buf. overlay buf 0 (take cap (request_text options))) dest,
      wCapacity = cap, wRequired = length (request_text options)\<rparr>"
    using w(2) by (cases w) (simp add: writes_def)
  have "Build options dest cap = rbind (append_request options ?w)
      (\<lambda>w. if Fits w then Ok (Built w) else Ok (TooSmall (wRequired w)))"
    using assms(1,3) by (auto simp: Build_def request_valid_def readable_def split: option.splits)
  then show ?thesis using w(1) by (simp add: eq Fits_def)
qed

section \<open>Properties\<close>

text \<open>C7: \<open>Build\<close> writes exactly the request message: for a request that passes validation, into a
  buffer of any size, the bytes written are those of the reference \<open>request_text\<close> and nothing
  behind them is touched when they fit; when they do not fit, the size reported is exactly the
  size needed. No store is out of bounds.\<close>

theorem Build_exact:
  assumes "request_valid options" "length (request_text options) \<le> MaxSizeT"
  shows "Build options (Some buf) (length buf) =
    (if length (request_text options) \<le> length buf
     then Ok (Built \<lparr>wDestination = Some (overlay buf 0 (request_text options)),
                     wCapacity = length buf, wRequired = length (request_text options)\<rparr>)
     else Ok (TooSmall (length (request_text options))))"
  using Build_total [OF assms, where dest = "Some buf" and cap = "length buf"] by simp

theorem Build_exact_witness:
  "Build example_request (Some [1, 2, 3]) 3 = Ok (TooSmall (length (request_text example_request)))"
  using Build_exact [OF example_request_valid, of "[1, 2, 3]"]
  by (simp add: example_request_length MaxSizeT_def numeral_3_eq_3)






end
