(* ===== verification/Kh_WebSocketFrame.thy ===== *)
theory Kh_WebSocketFrame
  imports Kh_HttpTypes
begin

text \<open>
  The WebSocket codec, \<^verbatim>\<open>websocket/WebSocketFrame.cpp\<close>: the Base64 encoder, the opening
  handshake and the frame encoder and decoder.

  \<^item> \<open>WebSocketOpcode\<close> is an \<open>enum class : UCHAR\<close>, whose values are all the bytes; the code
    checks for the named ones itself, so it is a byte here and the enumerators are constants.
  \<^item> An output buffer is a \<open>UCHAR span\<close>: the null pointer, or the bytes it holds, whose number is
    the capacity. The outcome is \<open>Written buffer n\<close> (success, \<open>*bytesWritten = n\<close>) or
    \<open>Required n\<close> (\<open>STATUS_BUFFER_TOO_SMALL\<close>, \<open>*bytesWritten = n\<close>).
  \<^item> The SHA-1 and random-number providers of the system and the pool allocations are fields of
    \<open>ws_env\<close>.
  \<^item> \<open>TrimOptionalWhitespace\<close> is the function of the same name of \<^verbatim>\<open>http/HttpTypes.cpp\<close>: the file
    has its own copy of the same code.
\<close>

unbundle bit_operations_syntax

section \<open>Constants and data\<close>

type_synonym WebSocketOpcode = UCHAR

definition OpContinuation :: WebSocketOpcode where "OpContinuation = 0x0"
definition OpText :: WebSocketOpcode where "OpText = 0x1"
definition OpBinary :: WebSocketOpcode where "OpBinary = 0x2"
definition OpClose :: WebSocketOpcode where "OpClose = 0x8"
definition OpPing :: WebSocketOpcode where "OpPing = 0x9"
definition OpPong :: WebSocketOpcode where "OpPong = 0xA"

lemmas opcode_defs = OpContinuation_def OpText_def OpBinary_def OpClose_def OpPing_def OpPong_def

definition WebSocketGuid :: bytes where
  "WebSocketGuid = lit ''258EAFA5-E914-47DA-95CA-C5AB0DC85B11''"

definition Sha1DigestLength :: nat where "Sha1DigestLength = 20"
definition WebSocketMaximumPayloadLength :: nat where
  "WebSocketMaximumPayloadLength = 0x7fffffffffffffff"
definition WebSocketClientKeyLength :: nat where "WebSocketClientKeyLength = 16"
definition WebSocketAcceptValueLength :: nat where "WebSocketAcceptValueLength = 28"
definition WebSocketMaskingKeyLength :: nat where "WebSocketMaskingKeyLength = 4"
definition WebSocketMaxControlPayloadLength :: nat where "WebSocketMaxControlPayloadLength = 125"

lemmas ws_length_defs = Sha1DigestLength_def WebSocketMaximumPayloadLength_def
  WebSocketClientKeyLength_def WebSocketAcceptValueLength_def WebSocketMaskingKeyLength_def
  WebSocketMaxControlPayloadLength_def

record WebSocketFrameHeader =
  Fin :: bool
  Masked :: bool
  Opcode :: WebSocketOpcode
  PayloadLength :: ULONGLONG
  MaskingKey :: bytes
  HeaderLength :: nat

datatype write_outcome = Written bytes nat | Required nat

text \<open>
  What the codec calls outside: \<open>GenerateRandom\<close>, the incremental hash object and the three pool
  allocations. A hash object in state \<open>'h\<close> is created, fed and finished.
\<close>

record 'h ws_env =
  GenerateRandom :: "nat \<Rightarrow> bytes res"
  HashInitialize :: "'h res"
  HashUpdate :: "'h \<Rightarrow> bytes \<Rightarrow> 'h res"
  HashFinish :: "'h \<Rightarrow> bytes res"
  HashAllocated :: bool
  DigestAllocated :: bool
  ArrayAllocated :: bool

section \<open>Helpers\<close>

definition IsValidBuffer :: "'a span \<Rightarrow> bool" where
  "IsValidBuffer data \<longleftrightarrow> span_len data = 0 \<or> \<not> span_null data"

fun constant_time_loop :: "bytes \<Rightarrow> bytes \<Rightarrow> nat \<Rightarrow> nat \<Rightarrow> UCHAR \<Rightarrow> UCHAR res" where
  "constant_time_loop left right index 0 diff = Ok diff"
| "constant_time_loop left right index (Suc n) diff =
     rbind (rd left index) (\<lambda>l. rbind (rd right index) (\<lambda>r.
       constant_time_loop left right (index + 1) n (diff OR (l XOR r))))"

definition ConstantTimeEquals :: "UCHAR span \<Rightarrow> UCHAR span \<Rightarrow> nat \<Rightarrow> bool res" where
  "ConstantTimeEquals left right len =
     (if span_null left \<or> span_null right then Ok False
      else rbind (constant_time_loop (span_list left) (span_list right) 0 len 0) (\<lambda>diff.
             Ok (diff = 0)))"

definition base64_alphabet :: bytes where
  "base64_alphabet = lit ''ABCDEFGHIJKLMNOPQRSTUVWXYZabcdefghijklmnopqrstuvwxyz0123456789+/''"

definition Base64Char :: "UCHAR \<Rightarrow> UCHAR" where
  "Base64Char v = base64_alphabet ! unat (v AND 0x3f)"

text \<open>The digit of \<open>value\<close> at bit \<open>shift\<close>: \<open>Base64Char(static_cast<UCHAR>((value >> shift) & 0x3f))\<close>.\<close>

definition base64_digit :: "ULONG \<Rightarrow> nat \<Rightarrow> UCHAR" where
  "base64_digit v shift = Base64Char (ucast (drop_bit shift v AND 0x3f))"

text \<open>The loop over groups of three bytes, and the one or two bytes that remain after it.\<close>

fun base64_loop :: "bytes \<Rightarrow> writer \<Rightarrow> writer res" where
  "base64_loop (a # b # c # rest) w =
     (let v = push_bit 16 (ucast a) OR push_bit 8 (ucast b) OR ucast c in
      rbind (put_byte (base64_digit v 18) w) (\<lambda>w.
      rbind (put_byte (base64_digit v 12) w) (\<lambda>w.
      rbind (put_byte (base64_digit v 6) w) (\<lambda>w.
      rbind (put_byte (base64_digit v 0) w) (base64_loop rest)))))"
| "base64_loop [a] w =
     (let v = push_bit 16 (ucast a) in
      rbind (put_byte (base64_digit v 18) w) (\<lambda>w.
      rbind (put_byte (base64_digit v 12) w) (\<lambda>w.
      rbind (put_byte 61 w) (put_byte 61))))"
| "base64_loop [a, b] w =
     (let v = push_bit 16 (ucast a) OR push_bit 8 (ucast b) in
      rbind (put_byte (base64_digit v 18) w) (\<lambda>w.
      rbind (put_byte (base64_digit v 12) w) (\<lambda>w.
      rbind (put_byte (base64_digit v 6) w) (put_byte 61))))"
| "base64_loop [] w = Ok w"

definition Base64Encode :: "UCHAR span \<Rightarrow> UCHAR span \<Rightarrow> write_outcome res" where
  "Base64Encode data destination =
     (if \<not> IsValidBuffer data \<or> span_null destination then Err STATUS_INVALID_PARAMETER
      else if span_len data > (MaxSizeT div 4) * 3 then Err STATUS_INTEGER_OVERFLOW
      else
        let required = ((span_len data + 2) div 3) * 4 in
        if span_len destination < required then Ok (Required required)
        else rbind (base64_loop (span_list data) (span_list destination, 0)) (\<lambda>w.
               Ok (Written (fst w) (snd w))))"

definition IsKnownOpcode :: "UCHAR \<Rightarrow> bool" where
  "IsKnownOpcode opcode \<longleftrightarrow>
     opcode = OpContinuation \<or> opcode = OpText \<or> opcode = OpBinary \<or> opcode = OpClose \<or>
     opcode = OpPing \<or> opcode = OpPong"

definition IsControlOpcode :: "WebSocketOpcode \<Rightarrow> bool" where
  "IsControlOpcode opcode \<longleftrightarrow> opcode = OpClose \<or> opcode = OpPing \<or> opcode = OpPong"

definition IsSubprotocolSeparator :: "UCHAR \<Rightarrow> bool" where
  "IsSubprotocolSeparator c \<longleftrightarrow> c \<in> set (lit ''()<>@,;:'' @ [92, 34] @ lit ''/[]?={} '' @ [9])"

definition TextEquals :: "HttpText \<Rightarrow> HttpText \<Rightarrow> bool" where
  "TextEquals left right =
     (if span_len left \<noteq> span_len right \<or> (span_null left \<and> span_len left \<noteq> 0) \<or>
         (span_null right \<and> span_len right \<noteq> 0)
      then False
      else span_len left = 0 \<or> span_list left = span_list right)"

definition IsValidSubprotocolToken :: "HttpText \<Rightarrow> bool" where
  "IsValidSubprotocolToken token =
     (if span_null token \<or> span_len token = 0 then False
      else list_all (\<lambda>c. \<not> (c \<le> 0x20 \<or> c \<ge> 0x7f \<or> IsSubprotocolSeparator c)) (span_list token))"

section \<open>The opening handshake\<close>

text \<open>The loop of \<open>FindSelectedSubprotocol\<close>; \<open>selected\<close> is the header found so far.\<close>

fun subprotocol_header_loop :: "HttpHeader list \<Rightarrow> HttpText option \<Rightarrow> HttpText option res" where
  "subprotocol_header_loop [] selected = Ok selected"
| "subprotocol_header_loop (h # hs) selected =
     (if \<not> TextEqualsIgnoreCase (Name h) (MakeText ''Sec-WebSocket-Protocol'')
      then subprotocol_header_loop hs selected
      else if selected \<noteq> None then Err STATUS_INVALID_NETWORK_RESPONSE
      else rbind (TrimOptionalWhitespace (Value h)) (\<lambda>v. subprotocol_header_loop hs (Some v)))"

definition FindSelectedSubprotocol :: "HttpResponse \<Rightarrow> HttpText option res" where
  "FindSelectedSubprotocol response =
     (if span_null (Headers response) \<and> span_len (Headers response) \<noteq> 0
      then Err STATUS_INVALID_NETWORK_RESPONSE
      else rbind (subprotocol_header_loop (span_list (Headers response)) None) (\<lambda>selected.
             case selected of
               None \<Rightarrow> Ok None
             | Some v \<Rightarrow> if IsValidSubprotocolToken v then Ok (Some v)
                         else Err STATUS_INVALID_NETWORK_RESPONSE))"

definition CountHeaders :: "HttpResponse \<Rightarrow> HttpText \<Rightarrow> nat" where
  "CountHeaders response name =
     (if span_null (Headers response) \<and> span_len (Headers response) \<noteq> 0 then 0
      else length (filter (\<lambda>h. TextEqualsIgnoreCase (Name h) name) (span_list (Headers response))))"

text \<open>The loop over the comma-separated list that the client requested, on the bytes that remain.\<close>

function requested_loop :: "HttpText \<Rightarrow> bool \<Rightarrow> bytes \<Rightarrow> bool res" where
  "requested_loop selected matched rest =
     (let candidate = Span (trim_ows (takeWhile (\<lambda>c. c \<noteq> 44) rest)) in
      if \<not> IsValidSubprotocolToken candidate then Err STATUS_INVALID_PARAMETER
      else
        let matched = (if TextEquals candidate selected then True else matched) in
        case dropWhile (\<lambda>c. c \<noteq> 44) rest of
          [] \<Rightarrow> Ok matched
        | _ # rest' \<Rightarrow> requested_loop selected matched rest')"
  by pat_completeness auto
termination requested_loop
proof (relation "measure (\<lambda>(selected, matched, rest). length rest)")
  fix rest c rest'
  assume "dropWhile (\<lambda>c :: UCHAR. c \<noteq> 44) rest = c # rest'"
  then have "length (c # rest') \<le> length rest" by (metis length_dropWhile_le)
  then show "((selected :: HttpText, matched2 :: bool, rest'), selected', matched', rest)
      \<in> measure (\<lambda>(selected, matched, rest). length rest)" for selected matched2 selected' matched'
    by simp
qed simp

declare requested_loop.simps [simp del]

definition ValidateSelectedSubprotocol :: "HttpText \<Rightarrow> HttpText \<Rightarrow> unit res" where
  "ValidateSelectedSubprotocol selected requested =
     (if \<not> IsValidSubprotocolToken selected then Err STATUS_INVALID_NETWORK_RESPONSE
      else if span_null requested \<or> span_len requested = 0 then Err STATUS_INVALID_NETWORK_RESPONSE
      else rbind (requested_loop selected False (span_list requested)) (\<lambda>matched.
             if matched then Ok () else Err STATUS_INVALID_NETWORK_RESPONSE))"

definition GenerateClientKey :: "'h ws_env \<Rightarrow> UCHAR span \<Rightarrow> write_outcome res" where
  "GenerateClientKey env destination =
     (if \<not> ArrayAllocated env then Err STATUS_INSUFFICIENT_RESOURCES
      else rbind (GenerateRandom env WebSocketClientKeyLength) (\<lambda>nonce.
             Base64Encode (Span nonce) destination))"

text \<open>
  A failing update is reported only after the digest has been allocated, which is why the two
  updates are run before the test of \<open>DigestAllocated\<close> and bound after it.
\<close>

definition ComputeAcceptValue :: "'h ws_env \<Rightarrow> UCHAR span \<Rightarrow> UCHAR span \<Rightarrow> write_outcome res" where
  "ComputeAcceptValue env clientKey destination =
     (if span_null clientKey \<or> span_len clientKey = 0 \<or> span_null destination
      then Err STATUS_INVALID_PARAMETER
      else if \<not> HashAllocated env then Err STATUS_INSUFFICIENT_RESOURCES
      else rbind (HashInitialize env) (\<lambda>h.
        let status = rbind (HashUpdate env h (span_list clientKey)) (\<lambda>h. HashUpdate env h WebSocketGuid) in
        if \<not> DigestAllocated env then Err STATUS_INSUFFICIENT_RESOURCES
        else rbind status (\<lambda>h. rbind (HashFinish env h) (\<lambda>digest.
               if length digest \<noteq> Sha1DigestLength then Err STATUS_INVALID_NETWORK_RESPONSE
               else Base64Encode (Span digest) destination))))"

text \<open>A too small destination is the failure status for a caller that only tests for success.\<close>

fun written :: "write_outcome \<Rightarrow> bytes res" where
  "written (Written buffer n) = Ok (take n buffer)"
| "written (Required n) = Err STATUS_BUFFER_TOO_SMALL"

definition ValidateServerHandshake ::
  "'h ws_env \<Rightarrow> HttpResponse \<Rightarrow> UCHAR span \<Rightarrow> HttpText \<Rightarrow> HttpText option res"
where
  "ValidateServerHandshake env response clientKey requestedSubprotocol =
     (if StatusCode response \<noteq> 101 \<or> MajorVersion response \<noteq> 1 \<or> MinorVersion response \<noteq> 1
      then Err STATUS_INVALID_NETWORK_RESPONSE
      else rbind (HasHeaderValueToken response (MakeText ''Connection'') (MakeText ''Upgrade'')) (\<lambda>upgrade.
      if \<not> upgrade then Err STATUS_INVALID_NETWORK_RESPONSE
      else rbind (HasHeaderValueToken response (MakeText ''Upgrade'') (MakeText ''websocket'')) (\<lambda>websocket.
      if \<not> websocket then Err STATUS_INVALID_NETWORK_RESPONSE
      else if CountHeaders response (MakeText ''Sec-WebSocket-Accept'') \<noteq> 1
      then Err STATUS_INVALID_NETWORK_RESPONSE
      else (case FindHeader response (MakeText ''Sec-WebSocket-Accept'') of
        None \<Rightarrow> Err STATUS_INVALID_NETWORK_RESPONSE
      | Some accept \<Rightarrow>
          if FindHeader response (MakeText ''Sec-WebSocket-Extensions'') \<noteq> None
          then Err STATUS_INVALID_NETWORK_RESPONSE
          else if \<not> ArrayAllocated env then Err STATUS_INSUFFICIENT_RESOURCES
          else
            rbind (ComputeAcceptValue env clientKey (Span (replicate WebSocketAcceptValueLength 0)))
              (\<lambda>outcome. rbind (written outcome) (\<lambda>expected.
            if span_len (Value accept) \<noteq> length expected then Err STATUS_INVALID_NETWORK_RESPONSE
            else rbind (ConstantTimeEquals (Value accept) (Span expected) (length expected)) (\<lambda>equal.
            if \<not> equal then Err STATUS_INVALID_NETWORK_RESPONSE
            else rbind (FindSelectedSubprotocol response) (\<lambda>negotiated.
              case negotiated of
                None \<Rightarrow> Ok None
              | Some selected \<Rightarrow>
                  rbind (ValidateSelectedSubprotocol selected requestedSubprotocol) (\<lambda>_.
                    Ok (Some selected))))))))))"

section \<open>The frame codec\<close>

text \<open>
  \<open>WritePayloadLength\<close>: \<open>payloadLength\<close> is a \<open>SIZE_T\<close>; its bytes are those of the 64-bit word.
\<close>

definition WritePayloadLength :: "nat \<Rightarrow> bool \<Rightarrow> nat \<Rightarrow> writer \<Rightarrow> writer res" where
  "WritePayloadLength payloadLength masked capacity w =
     (if snd w \<ge> capacity then Err STATUS_INVALID_PARAMETER
      else
        let maskBit = (if masked then 0x80 else 0x00) :: UCHAR;
            length64 = word_of_nat payloadLength :: ULONGLONG
        in
        if payloadLength \<le> 125 then put_byte (maskBit OR ucast length64) w
        else if payloadLength \<le> 0xffff then
          if capacity - snd w < 3 then Err STATUS_BUFFER_TOO_SMALL
          else rbind (put_byte (maskBit OR 126) w) (\<lambda>w.
               rbind (put_byte (ucast (drop_bit 8 length64 AND 0xff)) w)
                     (put_byte (ucast (length64 AND 0xff))))
        else if capacity - snd w < 9 then Err STATUS_BUFFER_TOO_SMALL
        else rbind (put_byte (maskBit OR 127) w)
               (put_bytes (map (\<lambda>shift. ucast (drop_bit shift length64 AND 0xff))
                  [56, 48, 40, 32, 24, 16, 8, 0])))"

text \<open>The loop that stores the payload; \<open>index\<close> counts the bytes stored.\<close>

fun payload_loop :: "bytes \<Rightarrow> bool \<Rightarrow> bytes \<Rightarrow> nat \<Rightarrow> writer \<Rightarrow> writer res" where
  "payload_loop [] masked key index w = Ok w"
| "payload_loop (b # bs) masked key index w =
     rbind (if masked
            then rbind (rd key (index mod WebSocketMaskingKeyLength)) (\<lambda>k. Ok (b XOR k))
            else Ok b) (\<lambda>byte.
       rbind (put_byte byte w) (payload_loop bs masked key (index + 1)))"

definition EncodeFrame ::
  "WebSocketOpcode \<Rightarrow> bool \<Rightarrow> UCHAR span \<Rightarrow> UCHAR span \<Rightarrow> bool \<Rightarrow> UCHAR span \<Rightarrow> write_outcome res"
where
  "EncodeFrame opcode fin payload maskingKey masked destination =
     (if \<not> IsValidBuffer payload \<or> (masked \<and> span_null maskingKey) \<or> span_null destination
      then Err STATUS_INVALID_PARAMETER
      else if \<not> IsKnownOpcode opcode then Err STATUS_INVALID_PARAMETER
      else if IsControlOpcode opcode \<and>
              (\<not> fin \<or> span_len payload > WebSocketMaxControlPayloadLength)
      then Err STATUS_INVALID_PARAMETER
      else if span_len payload > WebSocketMaximumPayloadLength then Err STATUS_INVALID_PARAMETER
      else
        let payloadLength = span_len payload;
            headerLength = 2 + (if masked then WebSocketMaskingKeyLength else 0) +
              (if payloadLength > 125 \<and> payloadLength \<le> 0xffff then 2
               else if payloadLength > 0xffff then 8 else 0)
        in
        if payloadLength > MaxSizeT - headerLength then Err STATUS_INTEGER_OVERFLOW
        else
          let required = headerLength + payloadLength in
          if span_len destination < required then Ok (Required required)
          else
            rbind (put_byte ((if fin then 0x80 else 0x00) OR opcode) (span_list destination, 0)) (\<lambda>w.
            rbind (WritePayloadLength payloadLength masked (span_len destination) w) (\<lambda>w.
            rbind (if masked
                   then rbind (rd (span_list maskingKey) 0) (\<lambda>k0. rbind (rd (span_list maskingKey) 1) (\<lambda>k1.
                        rbind (rd (span_list maskingKey) 2) (\<lambda>k2. rbind (rd (span_list maskingKey) 3) (\<lambda>k3.
                          put_bytes [k0, k1, k2, k3] w))))
                   else Ok w) (\<lambda>w.
            rbind (payload_loop (span_list payload) masked (span_list maskingKey) 0 w) (\<lambda>w.
              Ok (Written (fst w) (snd w)))))))"

definition EncodeClientFrame ::
  "WebSocketOpcode \<Rightarrow> bool \<Rightarrow> UCHAR span \<Rightarrow> UCHAR span \<Rightarrow> UCHAR span \<Rightarrow> write_outcome res"
where
  "EncodeClientFrame opcode fin payload maskingKey destination =
     EncodeFrame opcode fin payload maskingKey True destination"

definition EncodeClientFrameForHttp2 ::
  "WebSocketOpcode \<Rightarrow> bool \<Rightarrow> UCHAR span \<Rightarrow> UCHAR span \<Rightarrow> write_outcome res"
where
  "EncodeClientFrameForHttp2 opcode fin payload destination =
     EncodeFrame opcode fin payload (NullSpan 0) False destination"

text \<open>
  \<open>ReadExtendedLength\<close> returns the payload length and the advanced cursor. Its only caller has
  \<open>cursor = 2 \<le> dataLength\<close>, so the difference \<open>dataLength - *cursor\<close> never wraps.
\<close>

fun read_length_loop :: "bytes \<Rightarrow> nat \<Rightarrow> nat \<Rightarrow> ULONGLONG \<Rightarrow> ULONGLONG res" where
  "read_length_loop data i 0 v = Ok v"
| "read_length_loop data i (Suc n) v =
     rbind (rd data i) (\<lambda>b. read_length_loop data (i + 1) n (push_bit 8 v OR ucast b))"

definition ReadExtendedLength :: "bytes \<Rightarrow> UCHAR \<Rightarrow> nat \<Rightarrow> (ULONGLONG \<times> nat) res" where
  "ReadExtendedLength data lengthCode cursor =
     (if lengthCode \<le> 125 then Ok (ucast lengthCode, cursor)
      else if lengthCode = 126 then
        if length data - cursor < 2 then Err STATUS_MORE_PROCESSING_REQUIRED
        else rbind (rd data cursor) (\<lambda>hi. rbind (rd data (cursor + 1)) (\<lambda>lo.
               let payloadLength = push_bit 8 (ucast hi) OR ucast lo in
               if payloadLength \<le> 125 then Err STATUS_INVALID_NETWORK_RESPONSE
               else Ok (payloadLength, cursor + 2)))
      else if length data - cursor < 8 then Err STATUS_MORE_PROCESSING_REQUIRED
      else rbind (read_length_loop data cursor 8 0) (\<lambda>v.
             if v AND push_bit 63 1 \<noteq> 0 \<or> v \<le> 0xffff then Err STATUS_INVALID_NETWORK_RESPONSE
             else Ok (v, cursor + 8)))"

definition DecodeFrameHeader :: "UCHAR span \<Rightarrow> WebSocketFrameHeader res" where
  "DecodeFrameHeader input =
     (if span_null input then Err STATUS_INVALID_PARAMETER
      else
        let data = span_list input in
        if length data < 2 then Err STATUS_MORE_PROCESSING_REQUIRED
        else rbind (rd data 0) (\<lambda>first. rbind (rd data 1) (\<lambda>second.
          if first AND 0x70 \<noteq> 0 then Err STATUS_INVALID_NETWORK_RESPONSE
          else
            let opcode = first AND 0x0f in
            if \<not> IsKnownOpcode opcode then Err STATUS_INVALID_NETWORK_RESPONSE
            else rbind (ReadExtendedLength data (second AND 0x7f) 2) (\<lambda>(payloadLength, cursor).
              let masked = (second AND 0x80 \<noteq> 0) in
              if masked then Err STATUS_INVALID_NETWORK_RESPONSE
              else if IsControlOpcode opcode \<and> (first AND 0x80 = 0 \<or> payloadLength > 125)
              then Err STATUS_INVALID_NETWORK_RESPONSE
              else Ok \<lparr>Fin = (first AND 0x80 \<noteq> 0), Masked = masked, Opcode = opcode,
                       PayloadLength = payloadLength,
                       MaskingKey = replicate WebSocketMaskingKeyLength 0, HeaderLength = cursor\<rparr>))))"

fun decode_payload_loop :: "bytes \<Rightarrow> bool \<Rightarrow> bytes \<Rightarrow> nat \<Rightarrow> nat \<Rightarrow> nat \<Rightarrow> writer \<Rightarrow> writer res" where
  "decode_payload_loop data masked key off index 0 w = Ok w"
| "decode_payload_loop data masked key off index (Suc n) w =
     rbind (rd data (off + index)) (\<lambda>b.
     rbind (if masked
            then rbind (rd key (index mod WebSocketMaskingKeyLength)) (\<lambda>k. Ok (b XOR k))
            else Ok b) (\<lambda>byte.
       rbind (put_byte byte w) (decode_payload_loop data masked key off (index + 1) n)))"

text \<open>The test of \<open>PayloadLength\<close> against the largest \<open>SIZE_T\<close> never fails on a 64-bit target.\<close>

definition DecodeFramePayload ::
  "WebSocketFrameHeader \<Rightarrow> UCHAR span \<Rightarrow> UCHAR span \<Rightarrow> write_outcome res"
where
  "DecodeFramePayload header data destination =
     (let payloadLength = unat (PayloadLength header) in
      if payloadLength > MaxSizeT then Err STATUS_BUFFER_TOO_SMALL
      else if span_null data \<or> HeaderLength header > span_len data \<or>
              payloadLength > span_len data - HeaderLength header
      then Err STATUS_MORE_PROCESSING_REQUIRED
      else if span_null destination \<or> span_len destination < payloadLength
      then Ok (Required payloadLength)
      else rbind (decode_payload_loop (span_list data) (Masked header) (MaskingKey header)
                    (HeaderLength header) 0 payloadLength (span_list destination, 0)) (\<lambda>w.
             Ok (Written (fst w) (snd w))))"

section \<open>Frames as texts\<close>

text \<open>The frame format of RFC 6455, section 5.2, as a text.\<close>

definition length_text :: "UCHAR \<Rightarrow> nat \<Rightarrow> bytes" where
  "length_text maskBit n =
     (if n \<le> 125 then [maskBit OR word_of_nat n]
      else if n \<le> 0xffff then (maskBit OR 126) # be_bytes 2 (word_of_nat n :: ULONGLONG)
      else (maskBit OR 127) # be_bytes 8 (word_of_nat n :: ULONGLONG))"

definition header_text :: "WebSocketOpcode \<Rightarrow> bool \<Rightarrow> UCHAR \<Rightarrow> nat \<Rightarrow> bytes" where
  "header_text opcode fin maskBit n = ((if fin then 0x80 else 0) OR opcode) # length_text maskBit n"

primrec mask_from :: "bytes \<Rightarrow> nat \<Rightarrow> bytes \<Rightarrow> bytes" where
  "mask_from key i [] = []"
| "mask_from key i (b # bs) = (b XOR key ! (i mod 4)) # mask_from key (i + 1) bs"

definition masked_frame :: "WebSocketOpcode \<Rightarrow> bool \<Rightarrow> bytes \<Rightarrow> bytes \<Rightarrow> bytes" where
  "masked_frame opcode fin key payload =
     header_text opcode fin 0x80 (length payload) @ key @ mask_from key 0 payload"

definition plain_frame :: "WebSocketOpcode \<Rightarrow> bool \<Rightarrow> bytes \<Rightarrow> bytes" where
  "plain_frame opcode fin payload = header_text opcode fin 0 (length payload) @ payload"

text \<open>The frames that may be sent.\<close>

definition frame_allowed :: "WebSocketOpcode \<Rightarrow> bool \<Rightarrow> nat \<Rightarrow> bool" where
  "frame_allowed opcode fin n \<longleftrightarrow>
     IsKnownOpcode opcode \<and> (IsControlOpcode opcode \<longrightarrow> fin \<and> n \<le> 125) \<and> n < 2 ^ 63"

lemma length_mask_from [simp]: "length (mask_from key i bs) = length bs"
  by (induction bs arbitrary: i) auto

lemma mask_from_involutive: "mask_from key i (mask_from key i bs) = bs"
  by (induction bs arbitrary: i) (auto simp: xor.assoc)

lemma length_length_text:
  "length (length_text m n) = (if n \<le> 125 then 1 else if n \<le> 0xffff then 3 else 9)"
  by (simp add: length_text_def)

section \<open>The encoder\<close>

lemma ucast_small: "n < 256 \<Longrightarrow> (ucast (word_of_nat n :: ULONGLONG) :: UCHAR) = word_of_nat n"
  using take_bit_nat_eq_self [of n 64] by (simp add: unsigned_of_nat)

lemma be_bytes_8: "be_bytes 8 (w :: ULONGLONG) =
    map (\<lambda>shift. ucast (drop_bit shift w AND 0xff)) [56, 48, 40, 32, 24, 16, 8, 0]"
  by (simp add: eval_nat_numeral ucast_and_ff)

lemma be_bytes_2: "be_bytes 2 (w :: ULONGLONG) = [ucast (drop_bit 8 w AND 0xff), ucast (w AND 0xff)]"
  by (simp add: eval_nat_numeral ucast_and_ff)

text \<open>\<open>WritePayloadLength\<close> has the capacity it checks for, once the frame is known to fit.\<close>

lemma WritePayloadLength_stored:
  assumes w: "stored dest w t"
    and fits: "length t + length (length_text (if masked then 0x80 else 0) n) \<le> length dest"
  shows "\<exists>w'. WritePayloadLength n masked (length dest) w = Ok w' \<and>
           stored dest w' (t @ length_text (if masked then 0x80 else 0) n)"
proof -
  let ?m = "if masked then 0x80 else 0 :: UCHAR" and ?l = "word_of_nat n :: ULONGLONG"
  have cur: "snd w = length t" using w by (simp add: stored_def)
  have room: "length t < length dest" using fits by (simp add: length_length_text split: if_splits)
  consider "n \<le> 125" | "125 < n" "n \<le> 0xffff" | "0xffff < n" by linarith
  then show ?thesis
  proof cases
    case 1
    then have "WritePayloadLength n masked (length dest) w = put_byte (?m OR word_of_nat n) w"
      using room by (simp add: WritePayloadLength_def cur ucast_small)
    with 1 put_byte_stored [OF w room] show ?thesis by (simp add: length_text_def)
  next
    case 2
    then have "WritePayloadLength n masked (length dest) w =
        put_bytes ((?m OR 126) # be_bytes 2 ?l) w"
      using room fits
      by (auto simp: WritePayloadLength_def cur length_length_text be_bytes_2 put_bytes_fun Let_def
          simp del: put_bytes.simps)
    moreover have "length_text ?m n = (?m OR 126) # be_bytes 2 ?l"
      using 2 by (simp add: length_text_def)
    ultimately show ?thesis using put_bytes_stored [OF w fits] by (simp del: put_bytes.simps)
  next
    case 3
    then have "WritePayloadLength n masked (length dest) w =
        put_bytes ((?m OR 127) # be_bytes 8 ?l) w"
      using room fits
      by (auto simp: WritePayloadLength_def cur length_length_text be_bytes_8 put_bytes_fun Let_def
          simp del: put_bytes.simps)
    moreover have "length_text ?m n = (?m OR 127) # be_bytes 8 ?l"
      using 3 by (simp add: length_text_def)
    ultimately show ?thesis using put_bytes_stored [OF w fits] by (simp del: put_bytes.simps)
  qed
qed

lemma payload_loop_plain: "stores dest (payload_loop bs False key i) bs"
proof (induction bs arbitrary: i)
  case Nil
  show ?case using emits_Ok by simp
next
  case (Cons b bs)
  show ?case using emits_seq [OF emits_put_byte [of dest b] Cons.IH [of "i + 1"]] by simp
qed

lemma payload_loop_masked:
  "length key = 4 \<Longrightarrow> stores dest (payload_loop bs True key i) (mask_from key i bs)"
proof (induction bs arbitrary: i)
  case Nil
  then show ?case using emits_Ok by simp
next
  case (Cons b bs)
  show ?case using emits_seq [OF emits_put_byte [of dest "b XOR key ! (i mod 4)"] Cons.IH [of "i + 1"]] Cons.prems
    by (simp add: WebSocketMaskingKeyLength_def)
qed

lemma stores_length:
  "stores dest (WritePayloadLength n masked (length dest)) (length_text (if masked then 0x80 else 0) n)"
  unfolding emits_def using WritePayloadLength_stored by blast

text \<open>The masking key is four bytes, which the prototype requires.\<close>

lemma stores_key:
  assumes "length key = 4"
  shows "stores dest
    (\<lambda>w. rbind (rd key 0) (\<lambda>k0. rbind (rd key 1) (\<lambda>k1. rbind (rd key 2) (\<lambda>k2. rbind (rd key 3) (\<lambda>k3.
      put_bytes [k0, k1, k2, k3] w))))) key"
proof -
  have "[key ! 0, key ! 1, key ! 2, key ! 3] = key"
    using assms by (auto simp: numeral_eq_Suc length_Suc_conv)
  then show ?thesis using cw.emits_put [of dest key] assms by (simp del: put_bytes.simps)
qed

lemma EncodeFrame_text:
  assumes ok: "frame_allowed opcode fin (length p)" and key: "masked \<Longrightarrow> length key = 4"
    and frame: "frame = (if masked then masked_frame opcode fin key p else plain_frame opcode fin p)"
    and maskingKey: "maskingKey = (if masked then Span key else NullSpan 0)"
  shows "EncodeFrame opcode fin (Span p) maskingKey masked (Span dest) =
    (if length frame \<le> length dest then Ok (Written (overlay dest 0 frame) (length frame))
     else Ok (Required (length frame)))"
proof -
  define tail where "tail = (if masked then key else []) @ (if masked then mask_from key 0 p else p)"
  let ?h = "(if fin then 0x80 else 0x00) OR opcode" and ?m = "if masked then 0x80 else 0 :: UCHAR"
  have t: "frame = [?h] @ length_text ?m (length p) @ tail"
    by (simp add: frame tail_def masked_frame_def plain_frame_def header_text_def)
  define mask where "mask = (\<lambda>w. if masked
       then rbind (rd key 0) (\<lambda>k0. rbind (rd key 1) (\<lambda>k1. rbind (rd key 2) (\<lambda>k2. rbind (rd key 3) (\<lambda>k3.
              put_bytes [k0, k1, k2, k3] w))))
       else Ok w)"
  have "stores dest (\<lambda>w. rbind (mask w) (payload_loop p masked (span_list maskingKey) 0)) tail"
    unfolding tail_def mask_def using stores_key [OF key, of dest] payload_loop_masked [OF key, of dest p 0]
      payload_loop_plain [of dest p _ 0] emits_Ok maskingKey by (cases masked) (auto intro!: emits_seq simp del: put_bytes.simps)
  then have "stores dest (\<lambda>w. rbind (put_byte ?h w) (\<lambda>w. rbind (WritePayloadLength (length p) masked (length dest) w)
      (\<lambda>w. rbind (mask w) (payload_loop p masked (span_list maskingKey) 0)))) frame"
    unfolding t by (intro emits_seq [OF emits_put_byte] emits_seq [OF stores_length])
  note run = emits_run_stored [OF this]
  define hl where "hl = 2 + (if masked then WebSocketMaskingKeyLength else 0) +
      (if length p > 125 \<and> length p \<le> 0xffff then 2 else if length p > 0xffff then 8 else 0)"
  have len: "length frame = hl + length p"
    using key by (auto simp: t tail_def length_length_text hl_def WebSocketMaskingKeyLength_def)
  have pre: "IsKnownOpcode opcode" "\<not> (IsControlOpcode opcode \<and> (\<not> fin \<or> length p > 125))"
      "\<not> length p > 0x7fffffffffffffff" "\<not> length p > MaxSizeT - hl"
    using ok by (auto simp: frame_allowed_def hl_def MaxSizeT_def WebSocketMaskingKeyLength_def)
  have "EncodeFrame opcode fin (Span p) maskingKey masked (Span dest) =
    (if length dest < hl + length p then Ok (Required (hl + length p))
     else rbind (rbind (put_byte ?h (dest, 0)) (\<lambda>w. rbind (WritePayloadLength (length p) masked (length dest) w)
       (\<lambda>w. rbind (mask w) (payload_loop p masked (span_list maskingKey) 0)))) (\<lambda>w. Ok (Written (fst w) (snd w))))"
  proof -
    have "mask = (\<lambda>w. if masked then rbind (rd (span_list maskingKey) 0) (\<lambda>k0. rbind (rd (span_list maskingKey) 1) (\<lambda>k1.
        rbind (rd (span_list maskingKey) 2) (\<lambda>k2. rbind (rd (span_list maskingKey) 3) (\<lambda>k3.
          put_bytes [k0, k1, k2, k3] w)))) else Ok w)"
      by (auto simp: mask_def maskingKey fun_eq_iff simp del: put_bytes.simps)
    moreover have "\<not> (masked \<and> span_null maskingKey)" by (simp add: maskingKey)
    ultimately show ?thesis using pre
      by (simp only: EncodeFrame_def IsValidBuffer_def hl_def [symmetric] WebSocketMaxControlPayloadLength_def
        WebSocketMaximumPayloadLength_def Let_def rbind_assoc span_null.simps span_len.simps span_list.simps
        simp_thms if_True if_False)
  qed
  then show ?thesis using run by (simp add: len)
qed

lemma EncodeFrame_allowed:
  assumes "EncodeFrame opcode fin (Span p) key masked (Span dest) = Ok r"
  shows "frame_allowed opcode fin (length p)"
proof (rule ccontr)
  assume "\<not> frame_allowed opcode fin (length p)"
  then consider "\<not> IsKnownOpcode opcode" | "IsControlOpcode opcode \<and> (\<not> fin \<or> length p > 125)"
    | "\<not> (length p < 2 ^ 63)" by (auto simp: frame_allowed_def not_le)
  then have "EncodeFrame opcode fin (Span p) key masked (Span dest) = Err STATUS_INVALID_PARAMETER"
    by cases (simp_all add: EncodeFrame_def IsValidBuffer_def ws_length_defs)
  with assms show False by simp
qed

section \<open>The decoder\<close>

lemma first_byte_decode:
  assumes "IsKnownOpcode opcode"
  shows "((if fin then 0x80 else 0) OR opcode) AND 0x70 = 0"
    "((if fin then 0x80 else 0) OR opcode) AND 0x0f = opcode"
    "((if fin then 0x80 else 0) OR opcode) AND 0x80 \<noteq> 0 \<longleftrightarrow> fin"
  using assms by (auto simp: IsKnownOpcode_def opcode_defs)

lemma first_byte_encode:
  fixes b :: UCHAR
  shows "b AND 0x70 = 0 \<longrightarrow> (if b AND 0x80 \<noteq> 0 then 0x80 else 0) OR (b AND 0x0f) = b"
  by (rule byte_exhaust [of _ b]) code_simp

lemma second_byte_plain:
  fixes b :: UCHAR
  shows "b AND 0x80 = 0 \<longrightarrow> b AND 0x7f = b \<and> b \<le> 127"
  by (rule byte_exhaust [of _ b]) code_simp

lemma length_code_plain:
  fixes b :: UCHAR
  shows "b \<le> 127 \<longrightarrow> b AND 0x7f = b \<and> b AND 0x80 = 0"
  by (rule byte_exhaust [of _ b]) code_simp

lemma read_length_loop_fold:
  "i + n \<le> length data \<Longrightarrow> read_length_loop data i n v = Ok (be_fold v (take n (drop i data)))"
proof (induction n arbitrary: i v)
  case (Suc n)
  then have "drop i data = data ! i # drop (i + 1) data" by (simp add: Cons_nth_drop_Suc)
  with Suc show ?case by simp
qed simp

lemma top_bit_clear: "(v :: ULONGLONG) AND push_bit 63 1 = 0 \<longleftrightarrow> unat v < 2 ^ 63"
proof -
  have "v AND push_bit 63 1 = 0 \<longleftrightarrow> \<not> bit v 63"
    unfolding push_bit_of_1 by (rule and_exp_eq_0_iff_not_bit)
  also have "\<dots> \<longleftrightarrow> take_bit 63 v = v"
  proof
    assume h: "\<not> bit v 63"
    have "bit (take_bit 63 v) m = bit v m" if "m < 64" for m
      using h that by (cases "m = 63") (auto simp: bit_simps)
    then show "take_bit 63 v = v" by (auto intro: bit_word_eqI)
  next
    assume "take_bit 63 v = v"
    then have "bit v 63 = bit (take_bit 63 v) 63" by simp
    then show "\<not> bit v 63" by (simp add: bit_simps)
  qed
  also have "\<dots> \<longleftrightarrow> unat v < 2 ^ 63"
    by (metis take_bit_nat_eq_self_iff unsigned_take_bit_eq word_unat_eq_iff)
  finally show ?thesis .
qed

text \<open>The fields of a header determine its text; this is the header the decoder accepts.\<close>

definition the_text :: "WebSocketFrameHeader \<Rightarrow> bytes" where
  "the_text h = header_text (Opcode h) (Fin h) 0 (unat (PayloadLength h))"

definition acceptable :: "WebSocketFrameHeader \<Rightarrow> bool" where
  "acceptable h \<longleftrightarrow> frame_allowed (Opcode h) (Fin h) (unat (PayloadLength h)) \<and> \<not> Masked h \<and>
     MaskingKey h = replicate 4 0 \<and> HeaderLength h = length (the_text h)"

definition length_accepted :: "UCHAR \<Rightarrow> bytes \<Rightarrow> ULONGLONG \<Rightarrow> nat \<Rightarrow> bool" where
  "length_accepted code rest v cursor \<longleftrightarrow> unat v < 2 ^ 63 \<and> cursor = 1 + length (length_text 0 (unat v)) \<and>
     prefix (length_text 0 (unat v)) (code # rest)"

lemma prefix_be_bytes:
  "prefix (be_bytes n v) rest \<longleftrightarrow> n \<le> length rest \<and> be_bytes n v = take n rest"
  by (metis length_be_bytes prefix_length_le take_is_prefix append_eq_conv_conj prefix_def)

lemma length_text_prefix:
  "prefix (length_text 0 n) (code # rest) \<longleftrightarrow>
     (if n \<le> 125 then unat code = n
      else if n \<le> 0xffff then code = 126 \<and> prefix (be_bytes 2 (word_of_nat n :: ULONGLONG)) rest
      else code = 127 \<and> prefix (be_bytes 8 (word_of_nat n :: ULONGLONG)) rest)"
  by (auto simp: length_text_def unat_word_of_nat_8)

lemma ReadExtendedLength_two:
  "ReadExtendedLength (b # code # hi # lo # r) 126 2 =
     (let w = push_bit 8 (ucast hi) OR ucast lo in
      if w \<le> 125 then Err STATUS_INVALID_NETWORK_RESPONSE else Ok (w, 4))"
proof -
  have r: "rd (b # code # hi # lo # r) 2 = Ok hi" "rd (b # code # hi # lo # r) (2 + 1) = Ok lo"
    by (simp_all add: rd_def)
  have l: "\<not> length (b # code # hi # lo # r) - 2 < 2" and n: "\<not> (126 :: UCHAR) \<le> 125" by simp_all
  have e: "(2 :: nat) + 2 = 4" by simp
  show ?thesis
    unfolding ReadExtendedLength_def r rbind.simps if_not_P [OF l] if_not_P [OF n] if_P [OF refl] e ..
qed

lemma ReadExtendedLength_iff:
  assumes "unat code \<le> 127"
  shows "ReadExtendedLength (b # code # rest) code 2 = Ok (v, cursor) \<longleftrightarrow>
    length_accepted code rest v cursor"
proof -
  have "unat code \<le> 125 \<or> unat code = 126 \<or> unat code = 127" using assms by linarith
  then consider (short) "unat code \<le> 125" | (medium) "code = 126" | (long) "code = 127"
    by (auto simp: word_unat_eq_iff)
  then show ?thesis
  proof cases
    case short
    then have "code \<le> 125" "code \<noteq> 126" "code \<noteq> 127" by (auto simp: word_le_nat_alt)
    then have "length_accepted code rest v cursor \<longleftrightarrow> unat v = unat code \<and> cursor = 2"
      using short unfolding length_accepted_def length_text_prefix length_length_text
      by (cases "unat v \<le> 125"; cases "unat v \<le> 0xffff") auto
    also have "\<dots> \<longleftrightarrow> v = ucast code \<and> cursor = 2" by (simp add: word_unat_eq_iff)
    finally show ?thesis using \<open>code \<le> 125\<close> unfolding ReadExtendedLength_def by auto
  next
    case medium
    let ?w = "be_fold 0 (take 2 rest) :: ULONGLONG"
    have "ReadExtendedLength (b # code # rest) code 2 = Ok (v, cursor) \<longleftrightarrow>
        2 \<le> length rest \<and> v = ?w \<and> 125 < unat v \<and> cursor = 4"
    proof (cases "2 \<le> length rest")
      case True
      then obtain hi lo r where rest: "rest = hi # lo # r" by (metis Suc_le_length_iff numeral_2_eq_2)
      have "?w = push_bit 8 (ucast hi) OR ucast lo" by (simp add: rest numeral_2_eq_2)
      moreover have "ReadExtendedLength (b # code # rest) code 2 =
          (let w = push_bit 8 (ucast hi) OR ucast lo in
           if w \<le> 125 then Err STATUS_INVALID_NETWORK_RESPONSE else Ok (w, 4))"
        unfolding medium rest by (rule ReadExtendedLength_two)
      ultimately have "ReadExtendedLength (b # code # rest) code 2 =
          (if unat ?w \<le> 125 then Err STATUS_INVALID_NETWORK_RESPONSE else Ok (?w, 4))"
        unfolding word_le_nat_alt Let_def by simp
      then show ?thesis using True by auto
    next
      case False
      then show ?thesis by (simp add: ReadExtendedLength_def medium)
    qed
    moreover have "v = ?w \<longleftrightarrow> be_bytes 2 v = take 2 rest \<and> unat v \<le> 0xffff" if "2 \<le> length rest"
    proof
      assume "v = ?w"
      then show "be_bytes 2 v = take 2 rest \<and> unat v \<le> 0xffff"
        using that be_bytes_be_fold [of "take 2 rest" "0 :: ULONGLONG"] unat_be_fold_less [of "take 2 rest", where 'a = 64]
        by auto
    next
      assume h: "be_bytes 2 v = take 2 rest \<and> unat v \<le> 0xffff"
      then have "take_bit 16 v = v" by (simp add: word_unat_eq_iff unsigned_take_bit_eq take_bit_nat_eq_self)
      then show "v = ?w" using h be_fold_be_bytes [of 0 2 v] by simp
    qed
    ultimately show ?thesis using medium
      by (auto simp: length_accepted_def length_text_prefix prefix_be_bytes length_length_text)
  next
    case long
    let ?w = "be_fold 0 (take 8 rest) :: ULONGLONG"
    have "ReadExtendedLength (b # code # rest) code 2 = Ok (v, cursor) \<longleftrightarrow>
        8 \<le> length rest \<and> v = ?w \<and> unat v < 2 ^ 63 \<and> 0xffff < unat v \<and> cursor = 10"
      using long read_length_loop_fold [of 2 8 "b # code # rest" 0]
      by (auto simp: ReadExtendedLength_def top_bit_clear [simplified] word_le_nat_alt)
    moreover have "v = ?w \<longleftrightarrow> be_bytes 8 v = take 8 rest" if "8 \<le> length rest"
      using that be_bytes_be_fold [of "take 8 rest" "0 :: ULONGLONG"] be_fold_be_bytes_all [of 8 v] by auto
    ultimately show ?thesis using long
      by (auto simp: length_accepted_def length_text_prefix prefix_be_bytes length_length_text)
  qed
qed

lemma DecodeFrameHeader_sound:
  assumes "DecodeFrameHeader (Span data) = Ok h"
  shows "acceptable h \<and> prefix (the_text h) data"
proof -
  have "\<not> length data < 2" using assms by (auto simp: DecodeFrameHeader_def Let_def)
  then obtain first second rest where data: "data = first # second # rest"
    by (cases data; cases "tl data") auto
  let ?op = "first AND 0x0f"
  from assms obtain v cursor where h:
    "first AND 0x70 = 0" "IsKnownOpcode ?op" "ReadExtendedLength data (second AND 0x7f) 2 = Ok (v, cursor)"
    "second AND 0x80 = 0" "\<not> (IsControlOpcode ?op \<and> (first AND 0x80 = 0 \<or> v > 125))"
    "h = \<lparr>Fin = (first AND 0x80 \<noteq> 0), Masked = False, Opcode = ?op, PayloadLength = v,
          MaskingKey = replicate 4 0, HeaderLength = cursor\<rparr>"
    unfolding DecodeFrameHeader_def data Let_def WebSocketMaskingKeyLength_def
    by (auto simp: rd_def split: if_splits)
  have code: "second AND 0x7f = second" "unat second \<le> 127"
    using second_byte_plain [of second] h(4) by (simp_all add: word_le_nat_alt)
  with h(3) have acc: "length_accepted second rest v cursor"
    using ReadExtendedLength_iff [of second first rest v cursor] by (simp add: data)
  have "(if first AND 0x80 \<noteq> 0 then 0x80 else 0) OR ?op = first"
    using first_byte_encode [of first] h(1) by simp
  then have "prefix (the_text h) data" using acc
    by (simp add: h(6) the_text_def header_text_def data length_accepted_def)
  moreover have "acceptable h"
    using acc h(2,5) by (auto simp: h(6) acceptable_def the_text_def header_text_def frame_allowed_def
        length_accepted_def word_less_nat_alt)
  ultimately show ?thesis by simp
qed

lemma DecodeFrameHeader_complete:
  assumes "acceptable h" "prefix (the_text h) data"
  shows "DecodeFrameHeader (Span data) = Ok h"
proof -
  let ?n = "unat (PayloadLength h)" and ?first = "(if Fin h then 0x80 else 0) OR Opcode h"
  have ok: "IsKnownOpcode (Opcode h)" "IsControlOpcode (Opcode h) \<longrightarrow> Fin h \<and> ?n \<le> 125" "?n < 2 ^ 63"
    using assms(1) by (auto simp: acceptable_def frame_allowed_def)
  obtain data' where d: "data = ?first # data'" "prefix (length_text 0 ?n) data'"
    using assms(2) by (cases data) (auto simp: the_text_def header_text_def)
  then obtain code rest where d': "data' = code # rest"
    by (cases data') (auto simp: length_text_def split: if_splits)
  have "unat code \<le> 127" using d(2) unfolding d' length_text_prefix by (auto split: if_splits)
  then have code: "code AND 0x7f = code" "code AND 0x80 = 0" "unat code \<le> 127"
    using length_code_plain [of code] by (simp_all add: word_le_nat_alt)
  have "length_accepted code rest (PayloadLength h) (HeaderLength h)"
    using d(2) ok(3) assms(1) by (auto simp: length_accepted_def d' acceptable_def the_text_def header_text_def)
  then have read: "ReadExtendedLength data code 2 = Ok (PayloadLength h, HeaderLength h)"
    using ReadExtendedLength_iff [OF code(3)] by (simp add: d d')
  have ctl: "\<not> (IsControlOpcode (Opcode h) \<and> (\<not> Fin h \<or> PayloadLength h > 125))"
    using ok(2) by (auto simp: word_less_nat_alt)
  have "h = \<lparr>Fin = Fin h, Masked = False, Opcode = Opcode h, PayloadLength = PayloadLength h,
         MaskingKey = replicate 4 0, HeaderLength = HeaderLength h\<rparr>"
    using assms(1) by (simp add: acceptable_def)
  moreover have "rd data 0 = Ok ?first" "rd data 1 = Ok code" "\<not> length data < 2"
    by (simp_all add: d d' rd_def)
  ultimately show ?thesis
    using ctl read ok(1) unfolding DecodeFrameHeader_def Let_def WebSocketMaskingKeyLength_def
    by (simp add: code first_byte_decode)
qed

lemma decode_payload_plain:
  "off + index + n \<le> length data \<Longrightarrow>
   stores dest (decode_payload_loop data False key off index n) (take n (drop (off + index) data))"
proof (induction n arbitrary: index)
  case 0
  show ?case using emits_Ok by simp
next
  case (Suc n)
  have "drop (off + index) data = data ! (off + index) # drop (off + (index + 1)) data"
    using Suc.prems by (simp add: Cons_nth_drop_Suc)
  with emits_seq [OF emits_put_byte [of dest "data ! (off + index)"] Suc.IH [of "index + 1"]] Suc.prems
  show ?case by simp
qed

lemma decode_payload_masked:
  "off + index + n \<le> length data \<Longrightarrow> length key = 4 \<Longrightarrow>
   stores dest (decode_payload_loop data True key off index n)
     (mask_from key index (take n (drop (off + index) data)))"
proof (induction n arbitrary: index)
  case 0
  show ?case using emits_Ok by simp
next
  case (Suc n)
  have "drop (off + index) data = data ! (off + index) # drop (off + (index + 1)) data"
    using Suc.prems by (simp add: Cons_nth_drop_Suc)
  with emits_seq [OF emits_put_byte [of dest "data ! (off + index) XOR key ! (index mod 4)"]
      Suc.IH [of "index + 1"]] Suc.prems
  show ?case by (simp add: WebSocketMaskingKeyLength_def)
qed

text \<open>\<open>DecodeFramePayload\<close> delivers the payload that follows the header, unmasked.\<close>

lemma DecodeFramePayload_text:
  assumes "HeaderLength h \<le> length data" "unat (PayloadLength h) \<le> length data - HeaderLength h"
    and "unat (PayloadLength h) \<le> length dest" "Masked h \<Longrightarrow> length (MaskingKey h) = 4"
    and "payload = take (unat (PayloadLength h)) (drop (HeaderLength h) data)"
  shows "DecodeFramePayload h (Span data) (Span dest) =
    (let out = (if Masked h then mask_from (MaskingKey h) 0 payload else payload) in
     Ok (Written (overlay dest 0 out) (length out)))"
proof -
  let ?n = "unat (PayloadLength h)"
  let ?out = "if Masked h then mask_from (MaskingKey h) 0 payload else payload"
  have "?n \<le> MaxSizeT" using unat_lt2p [of "PayloadLength h"] by (simp add: MaxSizeT_def)
  moreover have "stores dest (decode_payload_loop data (Masked h) (MaskingKey h) (HeaderLength h) 0 ?n) ?out"
    using assms decode_payload_plain [of "HeaderLength h" 0 ?n data] decode_payload_masked [of "HeaderLength h" 0 ?n data]
    by (cases "Masked h") auto
  moreover have "length ?out = ?n" using assms by auto
  ultimately show ?thesis
    using emits_run_stored [of dest _ ?out] assms(1-3) by (simp add: DecodeFramePayload_def Let_def)
qed

text \<open>A masked and an unmasked frame differ in the top bit of their second byte.\<close>

lemma length_text_mask:
  "\<exists>b bs. length_text 0 n = b # bs \<and> b AND 0x80 = 0" "\<exists>b bs. length_text 0x80 n = b # bs \<and> b AND 0x80 \<noteq> 0"
proof -
  have "(0x80 OR b) AND 0x80 = (0x80 :: UCHAR)" for b
    by (auto simp: bit_eq_iff bit_simps)
  moreover have "n \<le> 125 \<Longrightarrow> (word_of_nat n :: UCHAR) AND 0x80 = 0"
    using length_code_plain [of "word_of_nat n"] by (simp add: word_le_nat_alt unat_word_of_nat_8)
  ultimately show "\<exists>b bs. length_text 0 n = b # bs \<and> b AND 0x80 = 0"
    "\<exists>b bs. length_text 0x80 n = b # bs \<and> b AND 0x80 \<noteq> 0" by (auto simp: length_text_def)
qed

lemma masked_header_differs: "\<not> prefix (header_text op fin 0 n) (header_text op' fin' 0x80 n' @ rest)"
  using length_text_mask(1) [of n] length_text_mask(2) [of n'] by (auto simp: header_text_def)

section \<open>Base64\<close>

fun base64_text :: "bytes \<Rightarrow> bytes" where
  "base64_text (a # b # c # rest) =
     (let n = unat a * 65536 + unat b * 256 + unat c in
      map ((!) base64_alphabet) [n div 262144, n div 4096 mod 64, n div 64 mod 64, n mod 64] @
      base64_text rest)"
| "base64_text [a] =
     (let n = unat a * 65536 in map ((!) base64_alphabet) [n div 262144, n div 4096 mod 64] @ [61, 61])"
| "base64_text [a, b] =
     (let n = unat a * 65536 + unat b * 256 in
      map ((!) base64_alphabet) [n div 262144, n div 4096 mod 64, n div 64 mod 64] @ [61])"
| "base64_text [] = []"

text \<open>A decoder of RFC 4648, section 4, against which the encoder is judged.\<close>

definition sextet :: "UCHAR \<Rightarrow> nat option" where
  "sextet c = map_of (zip base64_alphabet [0..<64]) c"

fun base64_decode :: "bytes \<Rightarrow> bytes option" where
  "base64_decode [] = Some []"
| "base64_decode (a # b # c # d # rest) =
     (case (sextet a, sextet b, sextet c, sextet d) of
        (Some p, Some q, Some r, Some s) \<Rightarrow>
          (let n = p * 262144 + q * 4096 + r * 64 + s in
           map_option (\<lambda>bs. word_of_nat (n div 65536) # word_of_nat (n div 256 mod 256) #
                             word_of_nat (n mod 256) # bs) (base64_decode rest))
      | (Some p, Some q, Some r, None) \<Rightarrow>
          (let n = p * 262144 + q * 4096 + r * 64 in
           if d = 61 \<and> rest = [] then Some [word_of_nat (n div 65536), word_of_nat (n div 256 mod 256)]
           else None)
      | (Some p, Some q, None, None) \<Rightarrow>
          (let n = p * 262144 + q * 4096 in
           if c = 61 \<and> d = 61 \<and> rest = [] then Some [word_of_nat (n div 65536)] else None)
      | _ \<Rightarrow> None)"
| "base64_decode _ = None"

lemma sextet_alphabet: "d < 64 \<Longrightarrow> sextet (base64_alphabet ! d) = Some d"
proof -
  have "list_all (\<lambda>d. sextet (base64_alphabet ! d) = Some d) [0..<64]" by code_simp
  then show "d < 64 \<Longrightarrow> sextet (base64_alphabet ! d) = Some d" by (simp add: list_all_iff)
qed

lemma sextet_pad: "sextet 61 = None"
  by code_simp

lemma sextets_join:
  fixes n :: nat
  shows "n div 262144 * 262144 + n div 4096 mod 64 * 4096 + n div 64 mod 64 * 64 + n mod 64 = n"
proof -
  define p q r where "p = n div 64" and "q = p div 64" and "r = q div 64"
  have pqr: "n div 64 = p" "n div 4096 = q" "n div 262144 = r"
    by (simp_all add: p_def q_def r_def div_mult2_eq [symmetric])
  have "n = p * 64 + n mod 64" "p = q * 64 + p mod 64" "q = r * 64 + q mod 64"
    unfolding p_def q_def r_def by (simp_all only: div_mult_mod_eq)
  then have "n = ((r * 64 + q mod 64) * 64 + p mod 64) * 64 + n mod 64" by metis
  then show ?thesis unfolding pqr by (simp add: algebra_simps)
qed

lemma bytes_split:
  fixes a b c :: nat
  assumes "a < 256" "b < 256" "c < 256"
  shows "(a * 65536 + b * 256 + c) div 65536 = a" "(a * 65536 + b * 256 + c) div 256 mod 256 = b"
    "(a * 65536 + b * 256 + c) mod 256 = c"
proof -
  let ?n = "a * 65536 + b * 256 + c"
  have n: "?n = c + (b + a * 256) * 256" by simp
  show "?n mod 256 = c" unfolding n mod_mult_self1 using assms by simp
  have d: "?n div 256 = b + a * 256"
    unfolding n using assms by (subst div_mult_self1) simp_all
  show "?n div 256 mod 256 = b" unfolding d mod_mult_self1 using assms by simp
  have "?n div 65536 = ?n div 256 div 256" by (simp only: div_mult2_eq [symmetric]) simp
  also have "\<dots> = a" unfolding d using assms by (subst div_mult_self1) simp_all
  finally show "?n div 65536 = a" .
qed

lemma sextet_bounds:
  fixes n :: nat
  assumes "n < 16777216"
  shows "n div 262144 < 64" "n div 4096 mod 64 < 64" "n div 64 mod 64 < 64" "n mod 64 < 64"
  using assms by (auto simp: less_mult_imp_div_less)

lemma base64_decode_text: "base64_decode (base64_text bs) = Some bs"
proof (induction bs rule: base64_text.induct)
  case (1 a b c rest)
  define n where "n = unat a * 65536 + unat b * 256 + unat c"
  have "n < 16777216" using byte_bound [of a] byte_bound [of b] byte_bound [of c] by (simp add: n_def)
  note digits = sextet_bounds [OF this, THEN sextet_alphabet]
  have "n div 65536 = unat a" "n div 256 mod 256 = unat b" "n mod 256 = unat c"
    unfolding n_def by (rule bytes_split, rule byte_bound, rule byte_bound, rule byte_bound)+
  then have "word_of_nat (n div 65536) = a" "word_of_nat (n div 256 mod 256) = b" "word_of_nat (n mod 256) = c"
    by simp_all
  then show ?case using 1 [OF n_def] digits sextets_join [of n]
    unfolding base64_text.simps Let_def n_def [symmetric] by (simp add: option.map_comp)
next
  case (2 a)
  define n where "n = unat a * 65536"
  have "n < 16777216" using byte_bound [of a] by (simp add: n_def)
  note digits = sextet_bounds [OF this, THEN sextet_alphabet]
  have z: "n mod 64 = 0" "n div 64 mod 64 = 0" by (simp_all add: n_def)
  have "n div 65536 = unat a" by (simp add: n_def)
  then have "word_of_nat (n div 65536) = a" by simp
  then show ?case using digits sextets_join [of n] sextet_pad z
    unfolding base64_text.simps Let_def n_def [symmetric] by simp
next
  case (3 a b)
  define n where "n = unat a * 65536 + unat b * 256"
  have "n < 16777216" using byte_bound [of a] byte_bound [of b] by (simp add: n_def)
  note digits = sextet_bounds [OF this, THEN sextet_alphabet]
  have z: "n mod 64 = 0" by (simp add: n_def mod_simps)
  have "n div 65536 = unat a" "n div 256 mod 256 = unat b"
    using bytes_split [OF byte_bound byte_bound, of 0 a b] by (simp_all add: n_def)
  then have "word_of_nat (n div 65536) = a" "word_of_nat (n div 256 mod 256) = b" by simp_all
  then show ?case using digits sextets_join [of n] sextet_pad z
    unfolding base64_text.simps Let_def n_def [symmetric] by simp
qed simp

lemma base64_digit_nat: "base64_digit v s = base64_alphabet ! (unat v div 2 ^ s mod 64)"
proof -
  have m: "(0x3f :: UCHAR) = mask 6" "(0x3f :: ULONG) = mask 6" by (simp_all add: mask_eq_exp_minus_1)
  have "(ucast (take_bit 6 (drop_bit s v)) :: UCHAR) AND mask 6 = ucast (take_bit 6 (drop_bit s v))"
    by (rule bit_word_eqI) (auto simp: bit_simps)
  moreover have "unat (ucast (take_bit 6 (drop_bit s v)) :: UCHAR) = take_bit 6 (unat v div 2 ^ s)"
    using take_bit_nat_eq_self [of "unat v" 32] unat_lt2p [of v]
    by (simp add: unsigned_ucast_eq unsigned_take_bit_eq unsigned_drop_bit_eq drop_bit_eq_div [of s "unat v"])
  ultimately show ?thesis
    by (simp add: base64_digit_def Base64Char_def m take_bit_eq_mask [symmetric] take_bit_eq_mod)
qed

lemma unat_three_bytes:
  "unat (push_bit 16 (ucast (a :: UCHAR)) OR push_bit 8 (ucast (b :: UCHAR)) OR ucast (c :: UCHAR) :: ULONG)
     = unat a * 65536 + unat b * 256 + unat c"
proof -
  have bc: "unat (push_bit 8 (ucast b) OR ucast c :: ULONG) = unat b * 256 + unat c"
    using byte_bound [of b] byte_bound [of c] by (subst unat_push_bit_or) simp_all
  have "unat (push_bit 16 (ucast a) OR (push_bit 8 (ucast b) OR ucast c) :: ULONG) =
      unat a * 65536 + unat (push_bit 8 (ucast b) OR ucast c :: ULONG)"
    using byte_bound [of a] byte_bound [of b] byte_bound [of c] by (subst unat_push_bit_or) (simp_all add: bc)
  then show ?thesis by (simp add: bc or.assoc)
qed

lemma top_sextet:
  "(unat (a :: UCHAR) * 65536 + unat (b :: UCHAR) * 256 + unat (c :: UCHAR)) div 262144 mod 64 =
   (unat a * 65536 + unat b * 256 + unat c) div 262144"
  using byte_bound [of a] byte_bound [of b] byte_bound [of c]
  by (intro mod_less sextet_bounds) simp

lemma base64_loop_text: "stores dest (base64_loop bs) (base64_text bs)"
proof (induction bs rule: base64_text.induct)
  case (1 a b c rest)
  let ?v = "push_bit 16 (ucast a) OR push_bit 8 (ucast b) OR ucast c :: ULONG"
  have "base64_text (a # b # c # rest) =
     [base64_digit ?v 18] @ [base64_digit ?v 12] @ [base64_digit ?v 6] @ [base64_digit ?v 0] @ base64_text rest"
    by (simp add: base64_digit_nat unat_three_bytes top_sextet Let_def)
  then show ?case
    unfolding base64_loop.simps Let_def by (simp only:) (intro emits_seq emits_put_byte 1, rule refl)
next
  case (2 a)
  let ?v = "push_bit 16 (ucast a) :: ULONG"
  have "unat ?v = unat a * 65536 + unat (0 :: UCHAR) * 256 + unat (0 :: UCHAR)"
    using unat_three_bytes [of a 0 0] by simp
  then have "base64_text [a] = [base64_digit ?v 18] @ [base64_digit ?v 12] @ [61] @ [61]"
    using top_sextet [of a 0 0] by (simp add: base64_digit_nat Let_def)
  then show ?case
    unfolding base64_loop.simps Let_def by (simp only:) (intro emits_seq emits_put_byte)
next
  case (3 a b)
  let ?v = "push_bit 16 (ucast a) OR push_bit 8 (ucast b) :: ULONG"
  have "unat ?v = unat a * 65536 + unat b * 256 + unat (0 :: UCHAR)"
    using unat_three_bytes [of a b 0] by simp
  then have "base64_text [a, b] = [base64_digit ?v 18] @ [base64_digit ?v 12] @ [base64_digit ?v 6] @ [61]"
    using top_sextet [of a b 0] by (simp add: base64_digit_nat Let_def)
  then show ?case
    unfolding base64_loop.simps Let_def by (simp only:) (intro emits_seq emits_put_byte)
next
  case 4
  show ?case using emits_Ok by simp
qed

lemma length_base64_text: "length (base64_text bs) = (length bs + 2) div 3 * 4"
  by (induction bs rule: base64_text.induct) (simp_all add: Let_def, presburger)

lemma Base64Encode_text:
  assumes "length bs \<le> MaxSizeT div 4 * 3"
  shows "Base64Encode (Span bs) (Span dest) =
    (if length dest < length (base64_text bs) then Ok (Required (length (base64_text bs)))
     else Ok (Written (overlay dest 0 (base64_text bs)) (length (base64_text bs))))"
proof -
  have "(length bs + 2) div 3 * 4 = length (base64_text bs)" by (simp add: length_base64_text)
  then show ?thesis using assms emits_run_stored [OF base64_loop_text, of bs dest]
    unfolding Base64Encode_def IsValidBuffer_def Let_def by simp
qed

section \<open>The handshake\<close>

lemma constant_time_loop_diff:
  assumes "i + n \<le> length l" "i + n \<le> length r"
  shows "\<exists>d. constant_time_loop l r i n diff = Ok d \<and>
    (d = 0 \<longleftrightarrow> diff = 0 \<and> take n (drop i l) = take n (drop i r))"
  using assms
proof (induction n arbitrary: i diff)
  case (Suc n)
  have dl: "drop i l = l ! i # drop (i + 1) l" and dr: "drop i r = r ! i # drop (i + 1) r"
    using Suc.prems by (simp_all add: Cons_nth_drop_Suc)
  have "diff OR (l ! i XOR r ! i) = 0 \<longleftrightarrow> diff = 0 \<and> l ! i = r ! i"
    by (auto simp: bit_eq_iff bit_simps)
  then show ?case using Suc.IH [of "i + 1" "diff OR (l ! i XOR r ! i)"] Suc.prems
    unfolding dl dr by auto
qed simp

lemma ConstantTimeEquals_iff:
  "length l = length r \<Longrightarrow> ConstantTimeEquals (Span l) (Span r) (length r) = Ok (l = r)"
  using constant_time_loop_diff [of 0 "length r" l r 0] by (auto simp: ConstantTimeEquals_def)

lemma requested_loop_members:
  "requested_loop selected m rest =
     (if \<forall>c \<in> set (comma_members rest). IsValidSubprotocolToken (Span (trim_ows c))
      then Ok (m \<or> (\<exists>c \<in> set (comma_members rest). TextEquals (Span (trim_ows c)) selected))
      else Err STATUS_INVALID_PARAMETER)"
proof (induction selected m rest rule: requested_loop.induct)
  case (1 selected m rest)
  show ?case
  proof (cases "dropWhile (\<lambda>c. c \<noteq> 44) rest")
    case Nil
    then have "comma_members rest = [takeWhile (\<lambda>c. c \<noteq> 44) rest]"
      using comma_members_unfold [of rest] by (simp only: list.case)
    then show ?thesis unfolding requested_loop.simps [of selected m rest] Nil by (simp add: Let_def)
  next
    case (Cons c rest')
    then have "comma_members rest = takeWhile (\<lambda>c. c \<noteq> 44) rest # comma_members rest'"
      using comma_members_unfold [of rest] by (simp only: list.case)
    then show ?thesis using Cons 1
      by (auto simp: requested_loop.simps [of selected m rest] Let_def)
  qed
qed

text \<open>
  What the codec relies on from the hash provider: it computes a function of the concatenated
  updates, with digests of 20 bytes. \<open>sha\<close> stands for SHA-1.
\<close>

definition sha1_ok :: "'h ws_env \<Rightarrow> (bytes \<Rightarrow> bytes) \<Rightarrow> bool" where
  "sha1_ok env sha \<longleftrightarrow> HashAllocated env \<and> DigestAllocated env \<and> ArrayAllocated env \<and>
     (\<forall>m. length (sha m) = 20) \<and>
     (\<exists>h. HashInitialize env = Ok h \<and>
        (\<forall>xs ys. \<exists>h1 h2. HashUpdate env h xs = Ok h1 \<and> HashUpdate env h1 ys = Ok h2 \<and>
           HashFinish env h2 = Ok (sha (xs @ ys))))"

definition accept_value :: "(bytes \<Rightarrow> bytes) \<Rightarrow> bytes \<Rightarrow> bytes" where
  "accept_value sha key = base64_text (sha (key @ WebSocketGuid))"

abbreviation field :: "string \<Rightarrow> HttpHeader \<Rightarrow> bool" where
  "field name h \<equiv> TextEqualsIgnoreCase (Name h) (MakeText name)"

definition announces :: "HttpHeader list \<Rightarrow> string \<Rightarrow> string \<Rightarrow> bool" where
  "announces hs name token \<longleftrightarrow> (\<exists>h \<in> set hs. field name h \<and> has_member (lit token) (span_list (Value h)))"

definition offered :: "HttpText \<Rightarrow> bytes \<Rightarrow> bool" where
  "offered requested name \<longleftrightarrow> span_list requested \<noteq> [] \<and>
     (\<forall>c \<in> set (comma_members (span_list requested)). IsValidSubprotocolToken (Span (trim_ows c))) \<and>
     (\<exists>c \<in> set (comma_members (span_list requested)). trim_ows c = name)"

lemma overlay_all: "length bs = length dest \<Longrightarrow> overlay dest 0 bs = bs"
  by (simp add: overlay_def)

lemma ComputeAcceptValue_Ok:
  assumes "sha1_ok env sha" "key \<noteq> []" "length dest = 28"
  shows "ComputeAcceptValue env (Span key) (Span dest) = Ok (Written (accept_value sha key) 28)"
proof -
  obtain h h1 h2 where h: "HashInitialize env = Ok h" "HashUpdate env h key = Ok h1"
    "HashUpdate env h1 WebSocketGuid = Ok h2" "HashFinish env h2 = Ok (sha (key @ WebSocketGuid))"
    using assms(1) unfolding sha1_ok_def by blast
  have len: "length (sha (key @ WebSocketGuid)) = 20" using assms(1) by (simp add: sha1_ok_def)
  have "length (accept_value sha key) = 28" by (simp add: accept_value_def length_base64_text len)
  then have "Base64Encode (Span (sha (key @ WebSocketGuid))) (Span dest) = Ok (Written (accept_value sha key) 28)"
    using assms(3) by (subst Base64Encode_text) (simp_all add: len MaxSizeT_def accept_value_def overlay_all)
  then show ?thesis using assms(1,2) h len
    by (simp add: ComputeAcceptValue_def sha1_ok_def Sha1DigestLength_def)
qed

lemma find_filter: "find P xs = (case filter P xs of [] \<Rightarrow> None | x # _ \<Rightarrow> Some x)"
  by (induction xs) auto

lemma subprotocol_header_loop_Some:
  "\<forall>h \<in> set hs. readable (Value h) \<Longrightarrow>
   subprotocol_header_loop hs (Some v) =
     (if filter (field ''Sec-WebSocket-Protocol'') hs = [] then Ok (Some v)
      else Err STATUS_INVALID_NETWORK_RESPONSE)"
  by (induction hs) auto

lemma subprotocol_header_loop_None:
  assumes "\<forall>h \<in> set hs. \<exists>v. Value h = Span v"
  shows "subprotocol_header_loop hs None =
     (case filter (field ''Sec-WebSocket-Protocol'') hs of
        [] \<Rightarrow> Ok None
      | [h] \<Rightarrow> Ok (Some (Span (trim_ows (span_list (Value h)))))
      | _ \<Rightarrow> Err STATUS_INVALID_NETWORK_RESPONSE)"
  using assms
proof (induction hs)
  case (Cons h hs)
  have "\<forall>h \<in> set hs. readable (Value h)" using Cons.prems by (metis list.set_intros(2) readable_Span)
  with Cons show ?case by (auto simp: subprotocol_header_loop_Some split: list.split)
qed simp

definition negotiated :: "HttpHeader list \<Rightarrow> HttpText \<Rightarrow> HttpText option \<Rightarrow> bool" where
  "negotiated hs requested selected \<longleftrightarrow>
     (case filter (field ''Sec-WebSocket-Protocol'') hs of
        [] \<Rightarrow> selected = None
      | [h] \<Rightarrow> (let name = trim_ows (span_list (Value h)) in
               selected = Some (Span name) \<and> IsValidSubprotocolToken (Span name) \<and> offered requested name)
      | _ \<Rightarrow> False)"

lemma ValidateSelectedSubprotocol_Ok:
  assumes "IsValidSubprotocolToken (Span name)"
  shows "ValidateSelectedSubprotocol (Span name) requested = Ok () \<longleftrightarrow> offered requested name"
proof (cases requested)
  case (Span r)
  have "TextEquals (Span a) (Span name) \<longleftrightarrow> a = name" for a by (auto simp: TextEquals_def)
  then show ?thesis using assms Span
    by (simp add: ValidateSelectedSubprotocol_def offered_def requested_loop_members)
qed (use assms in \<open>simp add: ValidateSelectedSubprotocol_def offered_def\<close>)

lemma subprotocol_negotiation:
  assumes hs: "Headers response = Span hs" "\<forall>h \<in> set hs. \<exists>v. Value h = Span v"
  shows "rbind (FindSelectedSubprotocol response) (\<lambda>negotiated.
      case negotiated of
        None \<Rightarrow> Ok None
      | Some selected \<Rightarrow>
          rbind (ValidateSelectedSubprotocol selected requested) (\<lambda>_. Ok (Some selected))) = Ok sel
    \<longleftrightarrow> negotiated hs requested sel"
proof -
  let ?f = "filter (field ''Sec-WebSocket-Protocol'') hs"
  consider "?f = []" | h where "?f = [h]" | a b c where "?f = a # b # c"
    by (cases ?f; cases "tl ?f") auto
  then show ?thesis
  proof cases
    case 1
    then show ?thesis using subprotocol_header_loop_None [OF hs(2)]
      by (auto simp: FindSelectedSubprotocol_def hs(1) negotiated_def)
  next
    case (2 h)
    then show ?thesis using subprotocol_header_loop_None [OF hs(2)]
      by (auto simp: FindSelectedSubprotocol_def hs(1) negotiated_def Let_def ValidateSelectedSubprotocol_Ok)
  next
    case 3
    then show ?thesis using subprotocol_header_loop_None [OF hs(2)]
      by (auto simp: FindSelectedSubprotocol_def hs(1) negotiated_def)
  qed
qed

lemma MakeText_lit: "MakeText s = Span (lit s)"
  by (simp add: MakeText_def)

lemma HasHeaderValueToken_announces:
  assumes "Headers response = Span hs" "\<forall>h \<in> set hs. readable (Value h)" "token \<noteq> []"
  shows "HasHeaderValueToken response (MakeText name) (MakeText token) = Ok (announces hs name token)"
  using assms has_token_loop_readable [of hs "lit token" "MakeText name"]
  by (simp add: HasHeaderValueToken_def announces_def MakeText_lit) (simp add: lit_def)

lemma accept_comparison:
  assumes "Value accept = Span v"
  shows "(if span_len (Value accept) \<noteq> length e then Err STATUS_INVALID_NETWORK_RESPONSE
    else rbind (ConstantTimeEquals (Value accept) (Span e) (length e)) (\<lambda>equal.
      if \<not> equal then Err STATUS_INVALID_NETWORK_RESPONSE else k)) =
    (if v = e then k else Err STATUS_INVALID_NETWORK_RESPONSE)"
  using assms ConstantTimeEquals_iff [of v e] by auto

text \<open>An example: a hash object that keeps its input, and a stand-in digest of 20 bytes.\<close>

definition example_hash :: "bytes \<Rightarrow> bytes" where
  "example_hash m = take 20 (m @ replicate 20 0)"

definition example_env :: "bytes ws_env" where
  "example_env = \<lparr>GenerateRandom = (\<lambda>n. Ok (replicate n 7)), HashInitialize = Ok [],
     HashUpdate = (\<lambda>h xs. Ok (h @ xs)), HashFinish = (\<lambda>h. Ok (example_hash h)),
     HashAllocated = True, DigestAllocated = True, ArrayAllocated = True\<rparr>"

lemma example_env_ok: "sha1_ok example_env example_hash"
  by (auto simp: sha1_ok_def example_env_def example_hash_def min_def)

definition example_handshake :: HttpResponse where
  "example_handshake = empty_response\<lparr>StatusCode := 101, MajorVersion := 1, MinorVersion := 1,
     Headers := Span [\<lparr>Name = MakeText ''connection'', Value = MakeText ''keep-alive, upgrade''\<rparr>,
       \<lparr>Name = MakeText ''Upgrade'', Value = MakeText ''WebSocket''\<rparr>,
       \<lparr>Name = MakeText ''Sec-WebSocket-Accept'', Value = Span (accept_value example_hash (lit ''key''))\<rparr>,
       \<lparr>Name = MakeText ''Sec-WebSocket-Protocol'', Value = MakeText ''chat''\<rparr>]\<rparr>"

section \<open>Properties\<close>

text \<open>C12: The opening handshake is accepted exactly when it should be: the response is a 101 of
  HTTP/1.1 that announces the upgrade to websocket, has exactly one \<open>Sec-WebSocket-Accept\<close> field, whose
  value is the Base64 of the digest of the client's key and the protocol's GUID, announces no
  extension, and selects at most one subprotocol, which the client offered.\<close>

theorem ValidateServerHandshake_iff:
  assumes sha: "sha1_ok env sha" and key: "key \<noteq> []"
    and hs: "Headers response = Span hs" "\<forall>h \<in> set hs. \<exists>v. Value h = Span v"
  shows "ValidateServerHandshake env response (Span key) requested = Ok selected \<longleftrightarrow>
    StatusCode response = 101 \<and> MajorVersion response = 1 \<and> MinorVersion response = 1 \<and>
    announces hs ''Connection'' ''Upgrade'' \<and> announces hs ''Upgrade'' ''websocket'' \<and>
    (\<exists>h. filter (field ''Sec-WebSocket-Accept'') hs = [h] \<and> span_list (Value h) = accept_value sha key) \<and>
    filter (field ''Sec-WebSocket-Extensions'') hs = [] \<and> negotiated hs requested selected"
proof -
  have readable: "\<forall>h \<in> set hs. readable (Value h)" using hs(2) by (metis readable_Span)
  have arr: "ArrayAllocated env" using sha by (simp add: sha1_ok_def)
  have find: "FindHeader response (MakeText n) = (case filter (field n) hs of [] \<Rightarrow> None | x # _ \<Rightarrow> Some x)"
    if "n \<noteq> []" for n
    using that by (simp add: FindHeader_def hs(1) find_filter)
  have count: "CountHeaders response (MakeText n) = length (filter (field n) hs)" for n
    by (simp add: CountHeaders_def hs(1))
  have len: "length (accept_value sha key) = 28"
    using sha by (simp add: accept_value_def length_base64_text sha1_ok_def)
  have compute: "rbind (ComputeAcceptValue env (Span key) (Span (replicate WebSocketAcceptValueLength 0)))
      (\<lambda>outcome. rbind (written outcome) f) = f (accept_value sha key)" for f :: "bytes \<Rightarrow> HttpText option res"
    by (subst ComputeAcceptValue_Ok [OF sha key]) (simp_all add: WebSocketAcceptValueLength_def len)
  show ?thesis
  proof (cases "\<exists>h. filter (field ''Sec-WebSocket-Accept'') hs = [h]")
    case True
    then obtain h where h: "filter (field ''Sec-WebSocket-Accept'') hs = [h]" by blast
    then have "h \<in> set (filter (field ''Sec-WebSocket-Accept'') hs)" by simp
    then have "h \<in> set hs" by simp
    then obtain v where v: "Value h = Span v" using hs(2) by blast
    show ?thesis
      unfolding ValidateServerHandshake_def compute accept_comparison [OF v]
      using subprotocol_negotiation [OF hs, of requested selected]
      by (simp add: HasHeaderValueToken_announces [OF hs(1) readable] count find h arr v
          ConstantTimeEquals_iff split: list.split) auto
  next
    case False
    then have "length (filter (field ''Sec-WebSocket-Accept'') hs) \<noteq> 1" by (auto simp: length_Suc_conv)
    with False show ?thesis
      by (auto simp: ValidateServerHandshake_def HasHeaderValueToken_announces [OF hs(1) readable] count)
  qed
qed

theorem ValidateServerHandshake_iff_witness:
  "ValidateServerHandshake example_env example_handshake (Span (lit ''key'')) (MakeText ''mqtt, chat'') =
     Ok (Some (MakeText ''chat''))"
proof -
  let ?hs = "span_list (Headers example_handshake)"
  have "announces ?hs ''Connection'' ''Upgrade''" "announces ?hs ''Upgrade'' ''websocket''"
    "filter (field ''Sec-WebSocket-Extensions'') ?hs = []"
    "negotiated ?hs (MakeText ''mqtt, chat'') (Some (MakeText ''chat''))"
    by (simp_all add: example_handshake_def announces_def negotiated_def offered_def has_member_def
        TextEqualsIgnoreCase_Span MakeText_def lit_def ToLowerAscii_def IsUpperAscii_def trim_ows_def
        IsOptionalWhitespace_def IsValidSubprotocolToken_def IsSubprotocolSeparator_def)
  moreover have "filter (field ''Sec-WebSocket-Accept'') ?hs =
      [\<lparr>Name = MakeText ''Sec-WebSocket-Accept'', Value = Span (accept_value example_hash (lit ''key''))\<rparr>]"
    by (simp add: example_handshake_def TextEqualsIgnoreCase_Span MakeText_def lit_def
        ToLowerAscii_def IsUpperAscii_def)
  moreover have "\<forall>h \<in> set ?hs. \<exists>v. Value h = Span v" "Headers example_handshake = Span ?hs"
    "lit ''key'' \<noteq> []" by (simp_all add: example_handshake_def MakeText_def lit_def)
  moreover have "StatusCode example_handshake = 101" "MajorVersion example_handshake = 1"
    "MinorVersion example_handshake = 1" by (simp_all add: example_handshake_def)
  ultimately show ?thesis using ValidateServerHandshake_iff [OF example_env_ok] by auto
qed

text \<open>C10: The frame header decoder is the exact inverse of the frame format: it accepts a header \<open>h\<close>
  at the front of the input if and only if the input starts with the text of \<open>h\<close> in its shortest
  form, where \<open>h\<close> has a known opcode, is unmasked, is below \<open>2\<^sup>6\<^sup>3\<close> bytes and, for a control frame,
  final and at most 125 bytes long. No other encoding of the length is accepted, and what follows
  the header has no influence.\<close>

theorem DecodeFrameHeader_iff:
  "DecodeFrameHeader (Span data) = Ok h \<longleftrightarrow> acceptable h \<and> prefix (the_text h) data"
  using DecodeFrameHeader_sound DecodeFrameHeader_complete by blast

text \<open>C11: A client frame for HTTP/1 is written exactly as the frame format says, masked with the key,
  inside the destination and nothing else of it touched, or the exact size it needs is reported;
  unmasking what was written with the same key gives the payload back, and the client's own header
  decoder rejects the masked frame.\<close>

theorem EncodeClientFrame_exact:
  assumes "frame_allowed opcode fin (length p)" "length key = 4"
  shows "EncodeClientFrame opcode fin (Span p) (Span key) (Span dest) =
      (if length (masked_frame opcode fin key p) \<le> length dest
       then Ok (Written (overlay dest 0 (masked_frame opcode fin key p)) (length (masked_frame opcode fin key p)))
       else Ok (Required (length (masked_frame opcode fin key p)))) \<and>
    mask_from key 0 (drop (length (header_text opcode fin 0x80 (length p)) + 4) (masked_frame opcode fin key p)) = p \<and>
    (\<forall>h rest. DecodeFrameHeader (Span (masked_frame opcode fin key p @ rest)) \<noteq> Ok h)"
proof (intro conjI allI notI)
  show "EncodeClientFrame opcode fin (Span p) (Span key) (Span dest) =
      (if length (masked_frame opcode fin key p) \<le> length dest
       then Ok (Written (overlay dest 0 (masked_frame opcode fin key p)) (length (masked_frame opcode fin key p)))
       else Ok (Required (length (masked_frame opcode fin key p))))"
    using assms EncodeFrame_text [OF assms(1), of True key] by (simp add: EncodeClientFrame_def)
  show "mask_from key 0 (drop (length (header_text opcode fin 0x80 (length p)) + 4) (masked_frame opcode fin key p)) = p"
    using assms(2) by (simp add: masked_frame_def mask_from_involutive)
next
  fix h rest
  assume "DecodeFrameHeader (Span (masked_frame opcode fin key p @ rest)) = Ok h"
  from DecodeFrameHeader_sound [OF this] show False
    by (simp add: the_text_def masked_frame_def masked_header_differs)
qed

theorem EncodeClientFrame_exact_witness:
  "EncodeClientFrame OpText True (Span [0x48, 0x69]) (Span [1, 2, 3, 4]) (Span [0, 0, 0, 0, 0, 0, 0, 0, 5]) =
     Ok (Written [0x81, 0x82, 1, 2, 3, 4, 0x49, 0x6b, 5] 8)"
proof -
  have "frame_allowed OpText True (length [0x48, 0x69 :: UCHAR])"
    by (simp add: frame_allowed_def IsKnownOpcode_def IsControlOpcode_def opcode_defs)
  from EncodeClientFrame_exact [OF this, of "[1, 2, 3, 4]" "[0, 0, 0, 0, 0, 0, 0, 0, 5]"] show ?thesis
    by (simp add: masked_frame_def header_text_def length_text_def opcode_defs overlay_def)
qed

text \<open>A frame that the client writes without masking, as it does over HTTP/2, is read back whole:
  the decoder finds the header with the same opcode, FIN bit and payload length, and the payload
  decoder delivers the payload, whatever bytes follow the frame in the input.\<close>

theorem plain_frame_roundtrip:
  assumes "EncodeClientFrameForHttp2 opcode fin (Span p) (Span buf) = Ok (Written buf' n)"
    and "length p \<le> length dest"
  shows "\<exists>h. DecodeFrameHeader (Span (take n buf' @ rest)) = Ok h \<and>
    Opcode h = opcode \<and> Fin h = fin \<and> unat (PayloadLength h) = length p \<and>
    HeaderLength h + length p = n \<and> drop n buf' = drop n buf \<and>
    DecodeFramePayload h (Span (take n buf' @ rest)) (Span dest) = Ok (Written (overlay dest 0 p) (length p))"
proof -
  let ?f = "plain_frame opcode fin p"
  have ok: "frame_allowed opcode fin (length p)"
    using assms(1) EncodeFrame_allowed unfolding EncodeClientFrameForHttp2_def by blast
  then have w: "length ?f \<le> length buf" "buf' = overlay buf 0 ?f" "n = length ?f"
    using assms(1) EncodeFrame_text [OF ok, of False "[]" ?f "NullSpan 0" buf]
    by (auto simp: EncodeClientFrameForHttp2_def split: if_splits)
  then have buf: "take n buf' = ?f" "drop n buf' = drop n buf" by (simp_all add: overlay_def)
  define h where "h = \<lparr>Fin = fin, Masked = False, Opcode = opcode, PayloadLength = word_of_nat (length p),
    MaskingKey = replicate 4 0, HeaderLength = length (header_text opcode fin 0 (length p))\<rparr>"
  have len: "unat (PayloadLength h) = length p"
    using ok by (simp add: h_def frame_allowed_def unat_word_of_nat_64)
  then have t: "the_text h = header_text opcode fin 0 (length p)" by (simp add: the_text_def h_def)
  then have "acceptable h" using ok len by (simp add: acceptable_def) (simp add: h_def)
  then have dec: "DecodeFrameHeader (Span (?f @ rest)) = Ok h"
    by (rule DecodeFrameHeader_complete) (simp add: t plain_frame_def)
  moreover have "DecodeFramePayload h (Span (?f @ rest)) (Span dest) = Ok (Written (overlay dest 0 p) (length p))"
    using assms(2) len by (subst DecodeFramePayload_text [OF _ _ _ _ refl]) (auto simp: h_def plain_frame_def)
  moreover have "HeaderLength h + length p = n" using w(3) by (simp add: h_def plain_frame_def)
  ultimately show ?thesis using len buf by (auto simp: h_def)
qed

theorem plain_frame_roundtrip_witness:
  "\<exists>h. DecodeFrameHeader (Span [0x82, 1, 7, 99]) = Ok h \<and> Opcode h = OpBinary \<and>
     DecodeFramePayload h (Span [0x82, 1, 7, 99]) (Span [0]) = Ok (Written [7] 1)"
proof -
  have "frame_allowed OpBinary True (length [7 :: UCHAR])"
    by (simp add: frame_allowed_def IsKnownOpcode_def IsControlOpcode_def opcode_defs)
  from EncodeFrame_text [OF this, of False "[]" _ "NullSpan 0" "[0, 0, 0]"]
  have "EncodeClientFrameForHttp2 OpBinary True (Span [7]) (Span [0, 0, 0]) = Ok (Written [0x82, 1, 7] 3)"
    by (simp add: EncodeClientFrameForHttp2_def plain_frame_def header_text_def length_text_def opcode_defs
        overlay_def)
  from plain_frame_roundtrip [OF this, of "[0]" "[99]"] show ?thesis
    by (auto simp: overlay_def)
qed

text \<open>\<open>Base64Encode\<close> writes the Base64 text of its input: a decoder of RFC 4648 reads the input
  back from it, it is four characters per started group of three bytes, nothing past it is
  touched, and a destination that is too small is reported with the size needed.\<close>

theorem Base64Encode_roundtrip:
  assumes "length bs \<le> MaxSizeT div 4 * 3"
  shows "Base64Encode (Span bs) (Span dest) =
      (if length dest < (length bs + 2) div 3 * 4 then Ok (Required ((length bs + 2) div 3 * 4))
       else Ok (Written (overlay dest 0 (base64_text bs)) ((length bs + 2) div 3 * 4))) \<and>
    length (base64_text bs) = (length bs + 2) div 3 * 4 \<and> base64_decode (base64_text bs) = Some bs"
  using Base64Encode_text [OF assms, of dest] length_base64_text [of bs] base64_decode_text [of bs] by simp

theorem Base64Encode_roundtrip_witness:
  "Base64Encode (Span [77, 97]) (Span [0, 0, 0, 0, 9]) = Ok (Written (lit ''TWE='' @ [9]) 4)"
proof -
  have "base64_text [77, 97] = lit ''TWE=''"
    by (simp add: base64_alphabet_def lit_def Let_def)
  moreover have "length [77, 97 :: UCHAR] \<le> MaxSizeT div 4 * 3" by (simp add: MaxSizeT_def)
  ultimately show ?thesis
    using Base64Encode_roundtrip [of "[77, 97]" "[0, 0, 0, 0, 9]"] by (simp add: overlay_def lit_def)
qed

end
