(* ===== verification/Kh_Http2Frame.thy ===== *)
theory Kh_Http2Frame
  imports Kh_Prelude
begin

text \<open>
  The HTTP/2 frame codec, \<^verbatim>\<open>http2/Http2Frame.cpp\<close>: big-endian reads and writes, the frame header,
  the frame encoders and payload decoders, and the removal of padding and priority fields.

  \<^item> \<open>Http2FrameType\<close> is an \<open>enum class : UCHAR\<close>; a decoded type is an unchecked cast of a byte, so
    it is a byte here and the enumerators are constants. \<open>Http2SettingId\<close> likewise is a 16-bit word.
  \<^item> An encoder takes its destination as a span, whose length is the capacity, and returns the
    buffer and \<open>*bytesWritten\<close>. The bytes are stored through a cursor: every encoder of the file
    writes its destination front to back.
\<close>

unbundle bit_operations_syntax

section \<open>Constants and data\<close>

type_synonym Http2FrameType = UCHAR
type_synonym Http2SettingId = USHORT

definition FrameData :: Http2FrameType where "FrameData = 0x0"
definition FrameHeaders :: Http2FrameType where "FrameHeaders = 0x1"
definition FramePriority :: Http2FrameType where "FramePriority = 0x2"
definition FrameRstStream :: Http2FrameType where "FrameRstStream = 0x3"
definition FrameSettings :: Http2FrameType where "FrameSettings = 0x4"
definition FramePushPromise :: Http2FrameType where "FramePushPromise = 0x5"
definition FramePing :: Http2FrameType where "FramePing = 0x6"
definition FrameGoAway :: Http2FrameType where "FrameGoAway = 0x7"
definition FrameWindowUpdate :: Http2FrameType where "FrameWindowUpdate = 0x8"
definition FrameContinuation :: Http2FrameType where "FrameContinuation = 0x9"

definition FlagEndStream :: UCHAR where "FlagEndStream = 0x01"
definition FlagAck :: UCHAR where "FlagAck = 0x01"
definition FlagEndHeaders :: UCHAR where "FlagEndHeaders = 0x04"
definition FlagPadded :: UCHAR where "FlagPadded = 0x08"
definition FlagPriority :: UCHAR where "FlagPriority = 0x20"

definition SettingHeaderTableSize :: Http2SettingId where "SettingHeaderTableSize = 0x1"
definition SettingEnablePush :: Http2SettingId where "SettingEnablePush = 0x2"
definition SettingMaxConcurrentStreams :: Http2SettingId where "SettingMaxConcurrentStreams = 0x3"
definition SettingInitialWindowSize :: Http2SettingId where "SettingInitialWindowSize = 0x4"
definition SettingMaxFrameSize :: Http2SettingId where "SettingMaxFrameSize = 0x5"
definition SettingMaxHeaderListSize :: Http2SettingId where "SettingMaxHeaderListSize = 0x6"
definition SettingEnableConnectProtocol :: Http2SettingId where "SettingEnableConnectProtocol = 0x8"

lemmas setting_defs = SettingHeaderTableSize_def SettingEnablePush_def SettingMaxConcurrentStreams_def
  SettingInitialWindowSize_def SettingMaxFrameSize_def SettingMaxHeaderListSize_def
  SettingEnableConnectProtocol_def

definition Http2FrameHeaderLength :: nat where "Http2FrameHeaderLength = 9"
definition Http2DefaultMaxFrameSize :: ULONG where "Http2DefaultMaxFrameSize = 16384"
definition Http2MaxAllowedFrameSize :: ULONG where "Http2MaxAllowedFrameSize = 16777215"
definition Http2InitialWindowSize :: ULONG where "Http2InitialWindowSize = 65535"
definition Http2MaxWindowSize :: ULONG where "Http2MaxWindowSize = 0x7fffffff"

lemmas http2_limit_defs = Http2FrameHeaderLength_def Http2DefaultMaxFrameSize_def
  Http2MaxAllowedFrameSize_def Http2InitialWindowSize_def Http2MaxWindowSize_def

record Http2Settings =
  HeaderTableSize :: ULONG
  EnablePush :: ULONG
  MaxConcurrentStreams :: ULONG
  InitialWindowSize :: ULONG
  MaxFrameSize :: ULONG
  MaxHeaderListSize :: ULONG
  EnableConnectProtocol :: ULONG

definition default_settings :: Http2Settings where
  "default_settings = \<lparr>HeaderTableSize = 4096, EnablePush = 0, MaxConcurrentStreams = 100,
     InitialWindowSize = 65535, MaxFrameSize = 16384, MaxHeaderListSize = 65536,
     EnableConnectProtocol = 0\<rparr>"

record Http2FrameHeader =
  FrameLength :: ULONG
  FrameType :: Http2FrameType
  FrameFlags :: UCHAR
  FrameStreamId :: ULONG

section \<open>Big-endian access\<close>

definition WriteUint24BE :: "ULONG \<Rightarrow> writer \<Rightarrow> writer res" where
  "WriteUint24BE v = put_bytes
     [ucast (drop_bit 16 v AND 0xff), ucast (drop_bit 8 v AND 0xff), ucast (v AND 0xff)]"

definition WriteUint32BE :: "ULONG \<Rightarrow> writer \<Rightarrow> writer res" where
  "WriteUint32BE v = put_bytes
     [ucast (drop_bit 24 v AND 0xff), ucast (drop_bit 16 v AND 0xff), ucast (drop_bit 8 v AND 0xff),
      ucast (v AND 0xff)]"

definition WriteUint16BE :: "USHORT \<Rightarrow> writer \<Rightarrow> writer res" where
  "WriteUint16BE v = put_bytes [ucast (drop_bit 8 v AND 0xff), ucast (v AND 0xff)]"

definition ReadUint24BE :: "bytes \<Rightarrow> nat \<Rightarrow> ULONG res" where
  "ReadUint24BE src off =
     rbind (rd src off) (\<lambda>a. rbind (rd src (off + 1)) (\<lambda>b. rbind (rd src (off + 2)) (\<lambda>c.
       Ok (push_bit 16 (ucast a) OR push_bit 8 (ucast b) OR ucast c))))"

definition ReadUint32BE :: "bytes \<Rightarrow> nat \<Rightarrow> ULONG res" where
  "ReadUint32BE src off =
     rbind (rd src off) (\<lambda>a. rbind (rd src (off + 1)) (\<lambda>b. rbind (rd src (off + 2)) (\<lambda>c.
     rbind (rd src (off + 3)) (\<lambda>d.
       Ok (push_bit 24 (ucast a) OR push_bit 16 (ucast b) OR push_bit 8 (ucast c) OR ucast d)))))"

definition ReadUint16BE :: "bytes \<Rightarrow> nat \<Rightarrow> USHORT res" where
  "ReadUint16BE src off =
     rbind (rd src off) (\<lambda>a. rbind (rd src (off + 1)) (\<lambda>b. Ok (push_bit 8 (ucast a) OR ucast b)))"

text \<open>\<open>MemCopy(dest + offset, payload, n)\<close> at the cursor, with the source read in bounds.\<close>

fun MemCopy :: "bytes \<Rightarrow> nat \<Rightarrow> nat \<Rightarrow> writer \<Rightarrow> writer res" where
  "MemCopy src i 0 w = Ok w"
| "MemCopy src i (Suc n) w = rbind (rd src i) (\<lambda>b. rbind (put_byte b w) (MemCopy src (i + 1) n))"

section \<open>Base64url\<close>

definition Base64UrlChar :: "UCHAR \<Rightarrow> UCHAR" where
  "Base64UrlChar v =
     (if v < 26 then 65 + v
      else if v < 52 then 97 + (v - 26)
      else if v < 62 then 48 + (v - 52)
      else if v = 62 then 45 else 95)"

definition base64url_digit :: "ULONG \<Rightarrow> nat \<Rightarrow> UCHAR" where
  "base64url_digit v shift = Base64UrlChar (ucast (drop_bit shift v AND 0x3f))"

fun base64url_loop :: "bytes \<Rightarrow> nat \<Rightarrow> writer \<Rightarrow> writer res" where
  "base64url_loop (a # b # c # rest) cap w =
     (if snd w + 4 > cap then Err STATUS_BUFFER_TOO_SMALL
      else
        let v = push_bit 16 (ucast a) OR push_bit 8 (ucast b) OR ucast c in
        rbind (put_byte (base64url_digit v 18) w) (\<lambda>w.
        rbind (put_byte (base64url_digit v 12) w) (\<lambda>w.
        rbind (put_byte (base64url_digit v 6) w) (\<lambda>w.
        rbind (put_byte (base64url_digit v 0) w) (base64url_loop rest cap)))))"
| "base64url_loop [a] cap w =
     (if snd w + 2 > cap then Err STATUS_BUFFER_TOO_SMALL
      else
        let v = push_bit 16 (ucast a) in
        rbind (put_byte (base64url_digit v 18) w) (put_byte (base64url_digit v 12)))"
| "base64url_loop [a, b] cap w =
     (if snd w + 3 > cap then Err STATUS_BUFFER_TOO_SMALL
      else
        let v = push_bit 16 (ucast a) OR push_bit 8 (ucast b) in
        rbind (put_byte (base64url_digit v 18) w) (\<lambda>w.
        rbind (put_byte (base64url_digit v 12) w) (put_byte (base64url_digit v 6))))"
| "base64url_loop [] cap w = Ok w"

definition Base64UrlEncode :: "UCHAR span \<Rightarrow> UCHAR span \<Rightarrow> writer res" where
  "Base64UrlEncode input output =
     (if span_null input \<or> span_null output then Err STATUS_INVALID_PARAMETER
      else base64url_loop (span_list input) (span_len output) (span_list output, 0))"

section \<open>Frame headers and frames\<close>

text \<open>
  \<open>EncodeFrameHeader\<close> leaves the cursor behind the header, as \<open>dest + headerWritten\<close> is what its
  callers write to next.
\<close>

definition EncodeFrameHeader :: "Http2FrameHeader \<Rightarrow> UCHAR span \<Rightarrow> writer res" where
  "EncodeFrameHeader header dest =
     (if span_null dest then Err STATUS_INVALID_PARAMETER
      else if span_len dest < Http2FrameHeaderLength then Err STATUS_BUFFER_TOO_SMALL
      else if FrameLength header > Http2MaxAllowedFrameSize then Err STATUS_INVALID_PARAMETER
      else if FrameStreamId header AND 0x80000000 \<noteq> 0 then Err STATUS_INVALID_PARAMETER
      else
        rbind (WriteUint24BE (FrameLength header) (span_list dest, 0)) (\<lambda>w.
        rbind (put_byte (FrameType header) w) (\<lambda>w.
        rbind (put_byte (FrameFlags header) w) (\<lambda>w.
          WriteUint32BE (FrameStreamId header AND 0x7fffffff) w))))"

definition Http2_DecodeFrameHeader :: "UCHAR span \<Rightarrow> Http2FrameHeader res" where
  "Http2_DecodeFrameHeader src =
     (if span_null src then Err STATUS_INVALID_PARAMETER
      else if span_len src < Http2FrameHeaderLength then Err STATUS_MORE_PROCESSING_REQUIRED
      else
        rbind (ReadUint24BE (span_list src) 0) (\<lambda>len.
        rbind (rd (span_list src) 3) (\<lambda>type.
        rbind (rd (span_list src) 4) (\<lambda>flags.
        rbind (ReadUint32BE (span_list src) 5) (\<lambda>streamId.
          Ok \<lparr>FrameLength = len, FrameType = type, FrameFlags = flags,
              FrameStreamId = streamId AND 0x7fffffff\<rparr>)))))"

definition Http2_EncodeFrame :: "Http2FrameHeader \<Rightarrow> UCHAR span \<Rightarrow> UCHAR span \<Rightarrow> writer res" where
  "Http2_EncodeFrame header payload dest =
     (if span_null dest then Err STATUS_INVALID_PARAMETER
      else if span_null payload \<and> span_len payload > 0 then Err STATUS_INVALID_PARAMETER
      else if FrameLength header \<noteq> word_of_nat (span_len payload) then Err STATUS_INVALID_PARAMETER
      else if span_len dest < Http2FrameHeaderLength + span_len payload then Err STATUS_BUFFER_TOO_SMALL
      else
        rbind (EncodeFrameHeader header dest) (\<lambda>w.
          if span_len payload > 0 then MemCopy (span_list payload) 0 (span_len payload) w else Ok w))"

definition writeSetting :: "Http2SettingId \<Rightarrow> ULONG \<Rightarrow> writer \<Rightarrow> writer res" where
  "writeSetting settingId v w = rbind (WriteUint16BE settingId w) (WriteUint32BE v)"

definition EncodeSettings :: "Http2Settings \<Rightarrow> UCHAR span \<Rightarrow> writer res" where
  "EncodeSettings settings dest =
     (if span_null dest then Err STATUS_INVALID_PARAMETER
      else if span_len dest < Http2FrameHeaderLength + 7 * 6 then Err STATUS_BUFFER_TOO_SMALL
      else
        rbind (EncodeFrameHeader \<lparr>FrameLength = 7 * 6, FrameType = FrameSettings, FrameFlags = 0,
                 FrameStreamId = 0\<rparr> dest) (\<lambda>w.
        rbind (writeSetting SettingHeaderTableSize (HeaderTableSize settings) w) (\<lambda>w.
        rbind (writeSetting SettingEnablePush (EnablePush settings) w) (\<lambda>w.
        rbind (writeSetting SettingMaxConcurrentStreams (MaxConcurrentStreams settings) w) (\<lambda>w.
        rbind (writeSetting SettingInitialWindowSize (InitialWindowSize settings) w) (\<lambda>w.
        rbind (writeSetting SettingMaxFrameSize (MaxFrameSize settings) w) (\<lambda>w.
        rbind (writeSetting SettingMaxHeaderListSize (MaxHeaderListSize settings) w)
          (writeSetting SettingEnableConnectProtocol (EnableConnectProtocol settings)))))))))"

definition EncodeSettingsAck :: "UCHAR span \<Rightarrow> writer res" where
  "EncodeSettingsAck dest =
     (if span_null dest then Err STATUS_INVALID_PARAMETER
      else if span_len dest < Http2FrameHeaderLength then Err STATUS_BUFFER_TOO_SMALL
      else EncodeFrameHeader \<lparr>FrameLength = 0, FrameType = FrameSettings, FrameFlags = FlagAck,
             FrameStreamId = 0\<rparr> dest)"

text \<open>\<open>allocated\<close> tells whether the pool had room for the temporary frame.\<close>

definition EncodeSettingsPayloadBase64Url :: "bool \<Rightarrow> Http2Settings \<Rightarrow> UCHAR span \<Rightarrow> writer res" where
  "EncodeSettingsPayloadBase64Url allocated settings dest =
     (if span_null dest then Err STATUS_INVALID_PARAMETER
      else if \<not> allocated then Err STATUS_INSUFFICIENT_RESOURCES
      else rbind (EncodeSettings settings (Span (replicate (Http2FrameHeaderLength + 7 * 6) 0))) (\<lambda>frame.
             Base64UrlEncode
               (Span (take (snd frame - Http2FrameHeaderLength) (drop Http2FrameHeaderLength (fst frame))))
               dest))"

definition apply_setting :: "Http2SettingId \<Rightarrow> ULONG \<Rightarrow> Http2Settings \<Rightarrow> Http2Settings res" where
  "apply_setting settingId v settings =
     (if settingId = SettingHeaderTableSize then Ok (settings\<lparr>HeaderTableSize := v\<rparr>)
      else if settingId = SettingEnablePush then
        if v > 1 then Err STATUS_INVALID_NETWORK_RESPONSE else Ok (settings\<lparr>EnablePush := v\<rparr>)
      else if settingId = SettingMaxConcurrentStreams then Ok (settings\<lparr>MaxConcurrentStreams := v\<rparr>)
      else if settingId = SettingInitialWindowSize then
        if v > Http2MaxWindowSize then Err STATUS_INVALID_NETWORK_RESPONSE
        else Ok (settings\<lparr>InitialWindowSize := v\<rparr>)
      else if settingId = SettingMaxFrameSize then
        if v < Http2DefaultMaxFrameSize \<or> v > Http2MaxAllowedFrameSize
        then Err STATUS_INVALID_NETWORK_RESPONSE
        else Ok (settings\<lparr>MaxFrameSize := v\<rparr>)
      else if settingId = SettingMaxHeaderListSize then Ok (settings\<lparr>MaxHeaderListSize := v\<rparr>)
      else if settingId = SettingEnableConnectProtocol then
        if v > 1 then Err STATUS_INVALID_NETWORK_RESPONSE
        else Ok (settings\<lparr>EnableConnectProtocol := v\<rparr>)
      else Ok settings)"

text \<open>
  The loop of \<open>DecodeSettingsPayload\<close>. Settings are updated in place while it runs, so on an error
  the caller's structure has the settings that came before: the loop returns the settings
  reached beside the status.
\<close>

function decode_settings_loop ::
  "bytes \<Rightarrow> nat \<Rightarrow> Http2Settings \<Rightarrow> Http2Settings \<times> unit res"
where
  "decode_settings_loop payload offset settings =
     (if offset < length payload then
        (case rbind (ReadUint16BE payload offset) (\<lambda>settingId. rbind (ReadUint32BE payload (offset + 2)) (\<lambda>v.
                apply_setting settingId v settings)) of
           Ok settings' \<Rightarrow> decode_settings_loop payload (offset + 6) settings'
         | Err s \<Rightarrow> (settings, Err s)
         | Fault \<Rightarrow> (settings, Fault))
      else (settings, Ok ()))"
  by pat_completeness auto
termination by (relation "measure (\<lambda>(payload, offset, settings). length payload - offset)") auto

declare decode_settings_loop.simps [simp del]

definition DecodeSettingsPayload :: "UCHAR span \<Rightarrow> Http2Settings \<Rightarrow> Http2Settings \<times> unit res" where
  "DecodeSettingsPayload payload settings =
     (if span_null payload \<and> span_len payload > 0 then (settings, Err STATUS_INVALID_PARAMETER)
      else if span_len payload mod 6 \<noteq> 0 then (settings, Err STATUS_INVALID_NETWORK_RESPONSE)
      else decode_settings_loop (span_list payload) 0 settings)"

definition EncodeWindowUpdate :: "ULONG \<Rightarrow> ULONG \<Rightarrow> UCHAR span \<Rightarrow> writer res" where
  "EncodeWindowUpdate streamId increment dest =
     (if span_null dest then Err STATUS_INVALID_PARAMETER
      else if increment = 0 \<or> increment > Http2MaxWindowSize then Err STATUS_INVALID_PARAMETER
      else if span_len dest < Http2FrameHeaderLength + 4 then Err STATUS_BUFFER_TOO_SMALL
      else rbind (EncodeFrameHeader \<lparr>FrameLength = 4, FrameType = FrameWindowUpdate, FrameFlags = 0,
                    FrameStreamId = streamId\<rparr> dest) (WriteUint32BE (increment AND 0x7fffffff)))"

definition DecodeWindowUpdatePayload :: "UCHAR span \<Rightarrow> ULONG res" where
  "DecodeWindowUpdatePayload payload =
     (if span_null payload then Err STATUS_INVALID_PARAMETER
      else if span_len payload \<noteq> 4 then Err STATUS_INVALID_NETWORK_RESPONSE
      else rbind (ReadUint32BE (span_list payload) 0) (\<lambda>v.
             if v AND 0x7fffffff = 0 then Err STATUS_INVALID_NETWORK_RESPONSE else Ok (v AND 0x7fffffff)))"

definition EncodePing :: "UCHAR span \<Rightarrow> bool \<Rightarrow> UCHAR span \<Rightarrow> writer res" where
  "EncodePing opaqueData ack dest =
     (if span_null dest \<or> span_null opaqueData then Err STATUS_INVALID_PARAMETER
      else if span_len dest < Http2FrameHeaderLength + 8 then Err STATUS_BUFFER_TOO_SMALL
      else rbind (EncodeFrameHeader \<lparr>FrameLength = 8, FrameType = FramePing,
                    FrameFlags = (if ack then FlagAck else 0), FrameStreamId = 0\<rparr> dest)
             (MemCopy (span_list opaqueData) 0 8))"

definition EncodeGoAway :: "ULONG \<Rightarrow> ULONG \<Rightarrow> UCHAR span \<Rightarrow> writer res" where
  "EncodeGoAway lastStreamId errorCode dest =
     (if span_null dest then Err STATUS_INVALID_PARAMETER
      else if span_len dest < Http2FrameHeaderLength + 8 then Err STATUS_BUFFER_TOO_SMALL
      else rbind (EncodeFrameHeader \<lparr>FrameLength = 8, FrameType = FrameGoAway, FrameFlags = 0,
                    FrameStreamId = 0\<rparr> dest) (\<lambda>w.
             rbind (WriteUint32BE (lastStreamId AND 0x7fffffff) w) (WriteUint32BE errorCode)))"

definition DecodeGoAwayPayload :: "UCHAR span \<Rightarrow> (ULONG \<times> ULONG) res" where
  "DecodeGoAwayPayload payload =
     (if span_null payload \<or> span_len payload < 8 then Err STATUS_INVALID_NETWORK_RESPONSE
      else rbind (ReadUint32BE (span_list payload) 0) (\<lambda>lastStreamId.
           rbind (ReadUint32BE (span_list payload) 4) (\<lambda>errorCode.
             Ok (lastStreamId AND 0x7fffffff, errorCode))))"

definition EncodeRstStream :: "ULONG \<Rightarrow> ULONG \<Rightarrow> UCHAR span \<Rightarrow> writer res" where
  "EncodeRstStream streamId errorCode dest =
     (if span_null dest then Err STATUS_INVALID_PARAMETER
      else if streamId = 0 then Err STATUS_INVALID_PARAMETER
      else if span_len dest < Http2FrameHeaderLength + 4 then Err STATUS_BUFFER_TOO_SMALL
      else rbind (EncodeFrameHeader \<lparr>FrameLength = 4, FrameType = FrameRstStream, FrameFlags = 0,
                    FrameStreamId = streamId\<rparr> dest) (WriteUint32BE errorCode))"

definition DecodeRstStreamPayload :: "UCHAR span \<Rightarrow> ULONG res" where
  "DecodeRstStreamPayload payload =
     (if span_null payload then Err STATUS_INVALID_PARAMETER
      else if span_len payload \<noteq> 4 then Err STATUS_INVALID_NETWORK_RESPONSE
      else ReadUint32BE (span_list payload) 0)"

text \<open>
  The common end of \<open>EncodeHeaders\<close>, \<open>EncodeContinuation\<close> and \<open>EncodeData\<close>: the checks, the header
  and the copy of the block, which the three functions repeat.
\<close>

definition encode_block :: "Http2FrameType \<Rightarrow> UCHAR \<Rightarrow> ULONG \<Rightarrow> UCHAR span \<Rightarrow> UCHAR span \<Rightarrow> writer res" where
  "encode_block type flags streamId block dest =
     (if span_null dest then Err STATUS_INVALID_PARAMETER
      else if streamId = 0 then Err STATUS_INVALID_PARAMETER
      else if span_null block \<and> span_len block > 0 then Err STATUS_INVALID_PARAMETER
      else if span_len block > unat Http2MaxAllowedFrameSize then Err STATUS_INVALID_PARAMETER
      else if span_len dest < Http2FrameHeaderLength + span_len block then Err STATUS_BUFFER_TOO_SMALL
      else
        rbind (EncodeFrameHeader \<lparr>FrameLength = word_of_nat (span_len block), FrameType = type,
                 FrameFlags = flags, FrameStreamId = streamId\<rparr> dest) (\<lambda>w.
          if span_len block > 0 then MemCopy (span_list block) 0 (span_len block) w else Ok w))"

definition EncodeHeaders :: "ULONG \<Rightarrow> UCHAR span \<Rightarrow> bool \<Rightarrow> bool \<Rightarrow> UCHAR span \<Rightarrow> writer res" where
  "EncodeHeaders streamId headerBlock endStream endHeaders dest =
     encode_block FrameHeaders
       ((if endStream then FlagEndStream else 0) OR (if endHeaders then FlagEndHeaders else 0))
       streamId headerBlock dest"

definition EncodeContinuation :: "ULONG \<Rightarrow> UCHAR span \<Rightarrow> bool \<Rightarrow> UCHAR span \<Rightarrow> writer res" where
  "EncodeContinuation streamId block endHeaders dest =
     encode_block FrameContinuation (if endHeaders then FlagEndHeaders else 0) streamId block dest"

definition EncodeData :: "ULONG \<Rightarrow> UCHAR span \<Rightarrow> bool \<Rightarrow> UCHAR span \<Rightarrow> writer res" where
  "EncodeData streamId data endStream dest =
     encode_block FrameData (if endStream then FlagEndStream else 0) streamId data dest"

text \<open>\<open>payload + k\<close> with the rest of the length is the span without its first \<open>k\<close> elements.\<close>

definition StripPadding :: "UCHAR \<Rightarrow> UCHAR span \<Rightarrow> UCHAR span res" where
  "StripPadding flags payload =
     (if span_null payload \<and> span_len payload > 0 then Err STATUS_INVALID_PARAMETER
      else if flags AND FlagPadded = 0 then Ok payload
      else if span_len payload < 1 then Err STATUS_INVALID_NETWORK_RESPONSE
      else rbind (rd (span_list payload) 0) (\<lambda>padLength.
             if unat padLength \<ge> span_len payload then Err STATUS_INVALID_NETWORK_RESPONSE
             else Ok (Span (take (span_len payload - 1 - unat padLength) (drop 1 (span_list payload))))))"

definition StripPriority :: "UCHAR \<Rightarrow> UCHAR span \<Rightarrow> UCHAR span res" where
  "StripPriority flags payload =
     (if span_null payload \<and> span_len payload > 0 then Err STATUS_INVALID_PARAMETER
      else if flags AND FlagPriority = 0 then Ok payload
      else if span_len payload < 5 then Err STATUS_INVALID_NETWORK_RESPONSE
      else Ok (Span (drop 5 (span_list payload))))"

section \<open>Access as texts\<close>

lemma WriteUint_be_bytes:
  "WriteUint24BE v = put_bytes (be_bytes 3 v)" "WriteUint32BE v = put_bytes (be_bytes 4 v)"
  "WriteUint16BE u = put_bytes (be_bytes 2 u)"
  by (simp_all add: WriteUint24BE_def WriteUint32BE_def WriteUint16BE_def ucast_and_ff numeral_eq_Suc
      del: put_bytes.simps)

lemma stores_WriteUint:
  "stores dest (WriteUint24BE v) (be_bytes 3 v)" "stores dest (WriteUint32BE v) (be_bytes 4 v)"
  "stores dest (WriteUint16BE u) (be_bytes 2 u)"
  unfolding WriteUint_be_bytes by (rule cw.emits_put)+

lemma take_drop_Suc: "i < length xs \<Longrightarrow> take (Suc n) (drop i xs) = xs ! i # take n (drop (Suc i) xs)"
  by (simp add: Cons_nth_drop_Suc [symmetric])

lemma ReadUint16BE_fold:
  "off + 2 \<le> length src \<Longrightarrow> ReadUint16BE src off = Ok (be_fold 0 (take 2 (drop off src)))"
  by (simp add: ReadUint16BE_def numeral_eq_Suc take_drop_Suc)

lemma ReadUint24BE_fold:
  "off + 3 \<le> length src \<Longrightarrow> ReadUint24BE src off = Ok (be_fold 0 (take 3 (drop off src)))"
  by (simp add: ReadUint24BE_def numeral_eq_Suc take_drop_Suc push_bit_or or.assoc)

lemma ReadUint32BE_fold:
  "off + 4 \<le> length src \<Longrightarrow> ReadUint32BE src off = Ok (be_fold 0 (take 4 (drop off src)))"
  by (simp add: ReadUint32BE_def numeral_eq_Suc take_drop_Suc push_bit_or or.assoc)

lemma MemCopy_stores:
  "i + n \<le> length src \<Longrightarrow> stores dest (MemCopy src i n) (take n (drop i src))"
proof (induction n arbitrary: i)
  case 0
  show ?case using emits_Ok by simp
next
  case (Suc n)
  then show ?case
    using emits_seq [OF emits_put_byte [of dest "src ! i"] Suc.IH [of "i + 1"]] by (simp add: take_drop_Suc)
qed

section \<open>Frames as texts\<close>

text \<open>The frame layout of RFC 9113, section 4.1.\<close>

definition head_text :: "Http2FrameHeader \<Rightarrow> bytes" where
  "head_text h = be_bytes 3 (FrameLength h) @ [FrameType h, FrameFlags h] @ be_bytes 4 (FrameStreamId h)"

definition frame_text :: "Http2FrameType \<Rightarrow> UCHAR \<Rightarrow> ULONG \<Rightarrow> bytes \<Rightarrow> bytes" where
  "frame_text type flags streamId payload =
     head_text \<lparr>FrameLength = word_of_nat (length payload), FrameType = type, FrameFlags = flags,
                FrameStreamId = streamId\<rparr> @ payload"

definition head_ok :: "Http2FrameHeader \<Rightarrow> bool" where
  "head_ok h \<longleftrightarrow> unat (FrameLength h) < 2 ^ 24 \<and> unat (FrameStreamId h) < 2 ^ 31"

lemma length_head_text [simp]: "length (head_text h) = 9"
  by (simp add: head_text_def)

lemma top_bit_31: "(v :: ULONG) AND 0x80000000 = 0 \<longleftrightarrow> unat v < 2 ^ 31"
proof -
  have "(0x80000000 :: ULONG) = 2 ^ 31" by simp
  then have "v AND 0x80000000 = 0 \<longleftrightarrow> \<not> bit v 31" by (metis and_exp_eq_0_iff_not_bit)
  also have "\<dots> \<longleftrightarrow> take_bit 31 v = v"
  proof
    assume h: "\<not> bit v 31"
    have "bit (take_bit 31 v) m = bit v m" if "m < 32" for m
      using h that by (cases "m = 31") (auto simp: bit_simps)
    then show "take_bit 31 v = v" by (auto intro: bit_word_eqI)
  next
    assume "take_bit 31 v = v"
    then have "bit v 31 = bit (take_bit 31 v) 31" by simp
    then show "\<not> bit v 31" by (simp add: bit_simps)
  qed
  also have "\<dots> \<longleftrightarrow> unat v < 2 ^ 31"
    by (metis take_bit_nat_eq_self_iff unsigned_take_bit_eq word_unat_eq_iff)
  finally show ?thesis .
qed

lemma and_31: "(v :: ULONG) AND 0x7fffffff = take_bit 31 v"
proof -
  have "(0x7fffffff :: ULONG) = mask 31" by (simp add: mask_eq_exp_minus_1)
  then show ?thesis by (simp add: take_bit_eq_mask)
qed

lemma take_bit_31_id: "unat (v :: ULONG) < 2 ^ 31 \<Longrightarrow> take_bit 31 v = v"
  by (simp add: word_unat_eq_iff unsigned_take_bit_eq take_bit_nat_eq_self)

lemma stores_head:
  assumes "head_ok h"
  shows "stores dest (\<lambda>w. rbind (WriteUint24BE (FrameLength h) w) (\<lambda>w. rbind (put_byte (FrameType h) w) (\<lambda>w.
    rbind (put_byte (FrameFlags h) w) (\<lambda>w. WriteUint32BE (FrameStreamId h AND 0x7fffffff) w)))) (head_text h)"
proof -
  have "FrameStreamId h AND 0x7fffffff = FrameStreamId h"
    using assms by (simp add: head_ok_def and_31 take_bit_31_id)
  moreover have "head_text h =
      be_bytes 3 (FrameLength h) @ [FrameType h] @ [FrameFlags h] @ be_bytes 4 (FrameStreamId h)"
    by (simp add: head_text_def)
  ultimately show ?thesis by (simp only:) (intro emits_seq emits_put_byte stores_WriteUint)
qed

lemma EncodeFrameHeader_stored:
  assumes "head_ok h" "9 \<le> length dest"
  shows "\<exists>w. EncodeFrameHeader h (Span dest) = Ok w \<and> stored dest w (head_text h)"
proof -
  have "\<not> FrameLength h > Http2MaxAllowedFrameSize" "FrameStreamId h AND 0x80000000 = 0"
    using assms(1) by (simp_all add: head_ok_def top_bit_31 Http2MaxAllowedFrameSize_def word_less_nat_alt)
  then show ?thesis
    using emits_run [OF stores_head [OF assms(1)] stored_start [of dest]] assms(2)
    by (simp add: EncodeFrameHeader_def Http2FrameHeaderLength_def)
qed

text \<open>
  An encoder is a header followed by an operation that stores the payload: when it fits, the
  buffer holds the frame.
\<close>

lemma encode_frame_then:
  assumes "head_ok h" "stores dest op payload" "9 + length payload \<le> length dest"
  shows "rbind (EncodeFrameHeader h (Span dest)) op =
    Ok (overlay dest 0 (head_text h @ payload), 9 + length payload)"
proof -
  obtain w where w: "EncodeFrameHeader h (Span dest) = Ok w" "stored dest w (head_text h)"
    using EncodeFrameHeader_stored [OF assms(1), of dest] assms(3) by auto
  obtain w' where "op w = Ok w'" "stored dest w' (head_text h @ payload)"
    using emits_run [OF assms(2) w(2)] assms(3) by auto
  then show ?thesis using w(1) by (simp add: stored_def)
qed

lemma DecodeFrameHeader_head_text:
  assumes "head_ok h"
  shows "Http2_DecodeFrameHeader (Span (head_text h @ rest)) = Ok h"
proof -
  let ?d = "head_text h @ rest"
  have "take_bit 24 (FrameLength h) = FrameLength h"
    using assms by (simp add: head_ok_def word_unat_eq_iff unsigned_take_bit_eq take_bit_nat_eq_self)
  then have len: "ReadUint24BE ?d 0 = Ok (FrameLength h)"
    using be_fold_be_bytes [of 0 3 "FrameLength h"] by (simp add: ReadUint24BE_fold head_text_def)
  have "drop 5 ?d = be_bytes 4 (FrameStreamId h) @ rest" by (simp add: head_text_def)
  then have sid: "ReadUint32BE ?d 5 = Ok (FrameStreamId h)"
    using be_fold_be_bytes_all [of 4 "FrameStreamId h"] by (simp add: ReadUint32BE_fold)
  have "rd ?d 3 = Ok (FrameType h)" "rd ?d 4 = Ok (FrameFlags h)"
    by (simp_all add: rd_def head_text_def nth_append)
  with len sid show ?thesis
    using assms by (simp add: Http2_DecodeFrameHeader_def Http2FrameHeaderLength_def and_31 take_bit_31_id head_ok_def)
qed

lemma frame_fits: "n < 2 ^ 24 \<Longrightarrow> unat (word_of_nat n :: ULONG) = n"
  by (rule unat_word_of_nat_32) simp

lemma DecodeFrameHeader_frame_text:
  assumes "unat streamId < 2 ^ 31" "length payload < 2 ^ 24"
  shows "Http2_DecodeFrameHeader (Span (frame_text type flags streamId payload @ rest)) =
    Ok \<lparr>FrameLength = word_of_nat (length payload), FrameType = type, FrameFlags = flags,
        FrameStreamId = streamId\<rparr>"
  using assms DecodeFrameHeader_head_text [of "\<lparr>FrameLength = word_of_nat (length payload), FrameType = type,
      FrameFlags = flags, FrameStreamId = streamId\<rparr>" "payload @ rest"]
  by (simp add: frame_text_def head_ok_def frame_fits)

lemma drop_frame_text: "drop 9 (frame_text type flags streamId payload @ rest) = payload @ rest"
  by (simp add: frame_text_def)

lemma length_frame_text: "length (frame_text type flags streamId payload) = 9 + length payload"
  by (simp add: frame_text_def)

lemma encode_text:
  assumes "unat streamId < 2 ^ 31" "length payload < 2 ^ 24" "9 + length payload \<le> length dest"
    and "stores dest op payload" "len = word_of_nat (length payload)"
  shows "rbind (EncodeFrameHeader \<lparr>FrameLength = len, FrameType = type, FrameFlags = flags,
      FrameStreamId = streamId\<rparr> (Span dest)) op =
    Ok (overlay dest 0 (frame_text type flags streamId payload), length (frame_text type flags streamId payload))"
  using assms encode_frame_then [of "\<lparr>FrameLength = len, FrameType = type, FrameFlags = flags,
      FrameStreamId = streamId\<rparr>" dest op payload]
  by (simp add: head_ok_def frame_text_def frame_fits)

lemma encode_block_text:
  assumes "streamId \<noteq> 0" "unat streamId < 2 ^ 31" "length block < 2 ^ 24"
  shows "encode_block type flags streamId (Span block) (Span dest) =
    (if length (frame_text type flags streamId block) \<le> length dest
     then Ok (overlay dest 0 (frame_text type flags streamId block), length (frame_text type flags streamId block))
     else Err STATUS_BUFFER_TOO_SMALL)"
proof -
  let ?op = "\<lambda>w. if length block > 0 then MemCopy block 0 (length block) w else Ok w"
  let ?h = "\<lparr>FrameLength = word_of_nat (length block), FrameType = type, FrameFlags = flags, FrameStreamId = streamId\<rparr>"
  have op: "stores dest ?op block"
    using MemCopy_stores [of 0 "length block" block dest] emits_Ok [of "stored dest"]
    by (cases "block = []") simp_all
  show ?thesis
  proof (cases "9 + length block \<le> length dest")
    case True
    then have "encode_block type flags streamId (Span block) (Span dest) = rbind (EncodeFrameHeader ?h (Span dest)) ?op"
      using assms unfolding encode_block_def http2_limit_defs span_list.simps span_len.simps by simp
    with encode_text [OF assms(2,3) True op refl, of type flags] True show ?thesis
      by (simp only: length_frame_text if_True)
  next
    case False
    then show ?thesis using assms by (simp add: encode_block_def http2_limit_defs length_frame_text)
  qed
qed

section \<open>Settings\<close>

definition setting_text :: "Http2SettingId \<times> ULONG \<Rightarrow> bytes" where
  "setting_text p = be_bytes 2 (fst p) @ be_bytes 4 (snd p)"

definition setting_list :: "Http2Settings \<Rightarrow> (Http2SettingId \<times> ULONG) list" where
  "setting_list s =
     [(SettingHeaderTableSize, HeaderTableSize s), (SettingEnablePush, EnablePush s),
      (SettingMaxConcurrentStreams, MaxConcurrentStreams s), (SettingInitialWindowSize, InitialWindowSize s),
      (SettingMaxFrameSize, MaxFrameSize s), (SettingMaxHeaderListSize, MaxHeaderListSize s),
      (SettingEnableConnectProtocol, EnableConnectProtocol s)]"

definition settings_ok :: "Http2Settings \<Rightarrow> bool" where
  "settings_ok s \<longleftrightarrow> EnablePush s \<le> 1 \<and> InitialWindowSize s \<le> Http2MaxWindowSize \<and>
     Http2DefaultMaxFrameSize \<le> MaxFrameSize s \<and> MaxFrameSize s \<le> Http2MaxAllowedFrameSize \<and>
     EnableConnectProtocol s \<le> 1"

text \<open>The settings of a payload, applied one after the other, up to the first one refused.\<close>

fun apply_settings :: "(Http2SettingId \<times> ULONG) list \<Rightarrow> Http2Settings \<Rightarrow> Http2Settings \<times> unit res" where
  "apply_settings [] s = (s, Ok ())"
| "apply_settings (p # ps) s =
     (case apply_setting (fst p) (snd p) s of
        Ok s' \<Rightarrow> apply_settings ps s' | Err e \<Rightarrow> (s, Err e) | Fault \<Rightarrow> (s, Fault))"

lemma length_setting_text [simp]: "length (setting_text p) = 6"
  by (simp add: setting_text_def)

lemma length_settings_text: "length (concat (map setting_text ps)) = 6 * length ps"
  by (induction ps) auto

lemma decode_settings_loop_texts:
  "decode_settings_loop (pre @ concat (map setting_text ps)) (length pre) s = apply_settings ps s"
proof (induction ps arbitrary: pre s)
  case Nil
  show ?case by (subst decode_settings_loop.simps) simp
next
  case (Cons p ps)
  define d where "d = pre @ concat (map setting_text (p # ps))"
  have long: "length pre + 6 \<le> length d" by (simp add: d_def)
  have "take 2 (drop (length pre) d) = be_bytes 2 (fst p)"
    "take 4 (drop (length pre + 2) d) = be_bytes 4 (snd p)"
    by (simp_all add: d_def setting_text_def)
  then have d: "ReadUint16BE d (length pre) = Ok (fst p)" "ReadUint32BE d (length pre + 2) = Ok (snd p)"
    using be_fold_be_bytes_all [of 2 "fst p"] be_fold_be_bytes_all [of 4 "snd p"] long
    by (simp_all add: ReadUint16BE_fold ReadUint32BE_fold)
  have "decode_settings_loop d (length pre + 6) s' = apply_settings ps s'" for s'
    using Cons.IH [of "pre @ setting_text p" s'] by (simp add: d_def)
  moreover have "length pre < length d" using long by simp
  ultimately have "decode_settings_loop d (length pre) s = apply_settings (p # ps) s"
    by (simp add: decode_settings_loop.simps [of d "length pre"] d [simplified] split: res.split)
  then show ?case by (simp add: d_def)
qed

lemma setting_texts_cover:
  assumes "length p = 6 * n"
  shows "\<exists>ps. p = concat (map setting_text ps) \<and> length ps = n"
  using assms
proof (induction n arbitrary: p)
  case (Suc n)
  let ?a = "take 2 p" and ?b = "take 4 (drop 2 p)"
  have "length (drop 6 p) = 6 * n" using Suc.prems by simp
  then obtain ps where ps: "drop 6 p = concat (map setting_text ps)" "length ps = n" using Suc.IH by blast
  have "be_bytes 2 (be_fold 0 ?a :: USHORT) = ?a" "be_bytes 4 (be_fold 0 ?b :: ULONG) = ?b"
    using Suc.prems be_bytes_be_fold [of ?a "0 :: USHORT"] be_bytes_be_fold [of ?b "0 :: ULONG"] by simp_all
  then have "setting_text (be_fold 0 ?a, be_fold 0 ?b) = take 6 p"
    by (simp add: setting_text_def take_add [of 2 4 p, simplified])
  then have "p = concat (map setting_text ((be_fold 0 ?a, be_fold 0 ?b) # ps))"
    using ps(1) append_take_drop_id [of 6 p] by simp
  with ps(2) show ?case by (metis length_Cons)
qed simp

lemma apply_setting_ok: "settings_ok s \<Longrightarrow> apply_setting i v s = Ok s' \<Longrightarrow> settings_ok s'"
  by (auto simp: apply_setting_def settings_ok_def not_less split: if_splits)

lemma apply_setting_no_fault: "apply_setting i v s \<noteq> Fault"
  by (simp add: apply_setting_def)

lemma apply_settings_ok:
  "settings_ok s \<Longrightarrow> settings_ok (fst (apply_settings ps s)) \<and> snd (apply_settings ps s) \<noteq> Fault"
proof (induction ps arbitrary: s)
  case (Cons p ps)
  then show ?case using apply_setting_ok [OF Cons.prems] apply_setting_no_fault
    by (auto split: res.split)
qed simp

lemma stores_writeSetting: "stores dest (writeSetting i v) (setting_text (i, v))"
  unfolding setting_text_def fst_conv snd_conv writeSetting_def by (intro emits_seq stores_WriteUint)

lemma EncodeSettings_text:
  assumes "51 \<le> length dest"
  shows "EncodeSettings s (Span dest) =
    Ok (overlay dest 0 (frame_text FrameSettings 0 0 (concat (map setting_text (setting_list s)))), 51)"
proof -
  let ?p = "concat (map setting_text (setting_list s))"
  let ?op = "\<lambda>w. rbind (writeSetting SettingHeaderTableSize (HeaderTableSize s) w) (\<lambda>w.
        rbind (writeSetting SettingEnablePush (EnablePush s) w) (\<lambda>w.
        rbind (writeSetting SettingMaxConcurrentStreams (MaxConcurrentStreams s) w) (\<lambda>w.
        rbind (writeSetting SettingInitialWindowSize (InitialWindowSize s) w) (\<lambda>w.
        rbind (writeSetting SettingMaxFrameSize (MaxFrameSize s) w) (\<lambda>w.
        rbind (writeSetting SettingMaxHeaderListSize (MaxHeaderListSize s) w)
          (writeSetting SettingEnableConnectProtocol (EnableConnectProtocol s)))))))"
  have len: "length ?p = 42" unfolding length_settings_text by (simp add: setting_list_def)
  have p: "?p = setting_text (SettingHeaderTableSize, HeaderTableSize s) @
      setting_text (SettingEnablePush, EnablePush s) @
      setting_text (SettingMaxConcurrentStreams, MaxConcurrentStreams s) @
      setting_text (SettingInitialWindowSize, InitialWindowSize s) @
      setting_text (SettingMaxFrameSize, MaxFrameSize s) @
      setting_text (SettingMaxHeaderListSize, MaxHeaderListSize s) @
      setting_text (SettingEnableConnectProtocol, EnableConnectProtocol s)"
    by (simp add: setting_list_def)
  have "stores dest ?op ?p" unfolding p by (intro emits_seq stores_writeSetting)
  from encode_text [OF _ _ _ this, of 0 "7 * 6" FrameSettings 0] len assms show ?thesis
    by (simp add: EncodeSettings_def Http2FrameHeaderLength_def length_frame_text)
qed

lemma apply_setting_list:
  assumes "settings_ok s"
  shows "apply_settings (setting_list s) s0 = (s, Ok ())"
  using assms
  by (simp add: settings_ok_def setting_list_def apply_setting_def setting_defs not_less)

section \<open>Padding\<close>

lemma StripPadding_Ok_iff:
  assumes "flags AND FlagPadded \<noteq> 0"
  shows "StripPadding flags (Span p) = Ok (Span c) \<longleftrightarrow>
    (\<exists>pad. length pad < 256 \<and> p = word_of_nat (length pad) # c @ pad)"
proof (cases p)
  case Nil
  then show ?thesis using assms by (simp add: StripPadding_def)
next
  case (Cons n rest)
  have "StripPadding flags (Span p) = Ok (Span c) \<longleftrightarrow>
      unat n \<le> length rest \<and> c = take (length rest - unat n) rest"
    using assms Cons by (auto simp: StripPadding_def not_le less_Suc_eq_le)
  also have "\<dots> \<longleftrightarrow> (\<exists>pad. length pad = unat n \<and> rest = c @ pad)"
    by (auto simp: append_eq_conv_conj min_def)
       (metis append_take_drop_id diff_diff_cancel length_drop)
  also have "\<dots> \<longleftrightarrow> (\<exists>pad. length pad < 256 \<and> p = word_of_nat (length pad) # c @ pad)"
    using Cons byte_bound [of n] by (auto simp: unat_word_of_nat_8)
  finally show ?thesis .
qed

section \<open>Control frames\<close>

lemma read_be_bytes:
  "ReadUint32BE (be_bytes 4 v) 0 = Ok v" "ReadUint32BE (be_bytes 4 v @ r) 0 = Ok v"
  "ReadUint32BE (be_bytes 4 u @ be_bytes 4 v) 4 = Ok v"
  using be_fold_be_bytes_all [of 4 v] by (simp_all add: ReadUint32BE_fold)

lemma EncodeWindowUpdate_text:
  assumes "unat streamId < 2 ^ 31" "increment \<noteq> 0" "unat increment < 2 ^ 31" "13 \<le> length dest"
  shows "EncodeWindowUpdate streamId increment (Span dest) =
      Ok (overlay dest 0 (frame_text FrameWindowUpdate 0 streamId (be_bytes 4 increment)), 13) \<and>
    DecodeWindowUpdatePayload (Span (be_bytes 4 increment)) = Ok increment"
proof -
  have id: "increment AND 0x7fffffff = increment" "\<not> increment > Http2MaxWindowSize"
    using assms(3) by (simp_all add: and_31 take_bit_31_id Http2MaxWindowSize_def word_less_nat_alt)
  show ?thesis
    using encode_text [OF assms(1) _ _ stores_WriteUint(2) [of dest increment], of 4 FrameWindowUpdate 0] assms
    by (simp add: EncodeWindowUpdate_def Http2FrameHeaderLength_def id length_frame_text
        DecodeWindowUpdatePayload_def read_be_bytes)
qed

lemma EncodeRstStream_text:
  assumes "unat streamId < 2 ^ 31" "streamId \<noteq> 0" "13 \<le> length dest"
  shows "EncodeRstStream streamId errorCode (Span dest) =
      Ok (overlay dest 0 (frame_text FrameRstStream 0 streamId (be_bytes 4 errorCode)), 13) \<and>
    DecodeRstStreamPayload (Span (be_bytes 4 errorCode)) = Ok errorCode"
  using encode_text [OF assms(1) _ _ stores_WriteUint(2) [of dest errorCode], of 4 FrameRstStream 0] assms
  by (simp add: EncodeRstStream_def Http2FrameHeaderLength_def length_frame_text DecodeRstStreamPayload_def
      read_be_bytes)

lemma EncodeGoAway_text:
  assumes "unat lastStreamId < 2 ^ 31" "17 \<le> length dest"
    and p: "p = be_bytes 4 lastStreamId @ be_bytes 4 errorCode"
  shows "EncodeGoAway lastStreamId errorCode (Span dest) =
      Ok (overlay dest 0 (frame_text FrameGoAway 0 0 p), 17) \<and>
    DecodeGoAwayPayload (Span p) = Ok (lastStreamId, errorCode)"
proof -
  have id: "lastStreamId AND 0x7fffffff = lastStreamId" using assms(1) by (simp add: and_31 take_bit_31_id)
  have "stores dest (\<lambda>w. rbind (WriteUint32BE lastStreamId w) (WriteUint32BE errorCode)) p"
    unfolding p by (intro emits_seq stores_WriteUint)
  from encode_text [OF _ _ _ this, of 0 8 FrameGoAway 0] assms show ?thesis
    by (simp add: EncodeGoAway_def Http2FrameHeaderLength_def id length_frame_text DecodeGoAwayPayload_def
        read_be_bytes)
qed

lemma EncodePing_text:
  assumes "length opaque = 8" "17 \<le> length dest"
  shows "EncodePing (Span opaque) ack (Span dest) =
      Ok (overlay dest 0 (frame_text FramePing (if ack then FlagAck else 0) 0 opaque), 17)"
proof -
  have "stores dest (MemCopy opaque 0 8) opaque" using MemCopy_stores [of 0 8 opaque dest] assms(1) by simp
  from encode_text [OF _ _ _ this, of 0 8 FramePing "if ack then FlagAck else 0"] assms show ?thesis
    by (simp add: EncodePing_def Http2FrameHeaderLength_def length_frame_text)
qed

section \<open>Properties\<close>

text \<open>C15: The frames that carry data (DATA, HEADERS, CONTINUATION) are written exactly as the frame
  layout says, or refused when the buffer is too small, and they are read back: the header decoder
  returns the length, type, flags and stream of the frame whatever follows it, and the payload
  stands behind the nine bytes of the header.\<close>

theorem block_frames_roundtrip:
  assumes "streamId \<noteq> 0" "unat streamId < 2 ^ 31" "length block < 2 ^ 24"
    and frame: "(type, flags, encode) \<in>
      {(FrameHeaders, (if es then FlagEndStream else 0) OR (if eh then FlagEndHeaders else 0),
          EncodeHeaders streamId (Span block) es eh (Span dest)),
       (FrameContinuation, if eh then FlagEndHeaders else 0, EncodeContinuation streamId (Span block) eh (Span dest)),
       (FrameData, if es then FlagEndStream else 0, EncodeData streamId (Span block) es (Span dest))}"
  shows "encode =
      (if 9 + length block \<le> length dest
       then Ok (overlay dest 0 (frame_text type flags streamId block), 9 + length block)
       else Err STATUS_BUFFER_TOO_SMALL) \<and>
    Http2_DecodeFrameHeader (Span (frame_text type flags streamId block @ rest)) =
      Ok \<lparr>FrameLength = word_of_nat (length block), FrameType = type, FrameFlags = flags,
          FrameStreamId = streamId\<rparr> \<and>
    unat (word_of_nat (length block) :: ULONG) = length block \<and>
    drop 9 (frame_text type flags streamId block @ rest) = block @ rest"
proof -
  have "encode = encode_block type flags streamId (Span block) (Span dest)"
    using frame by (auto simp: EncodeHeaders_def EncodeContinuation_def EncodeData_def)
  then show ?thesis
    using encode_block_text [OF assms(1-3), of type flags dest]
      DecodeFrameHeader_frame_text [OF assms(2,3), of type flags rest]
      frame_fits [OF assms(3)] drop_frame_text [of type flags streamId block rest]
    by (simp add: length_frame_text)
qed

theorem block_frames_roundtrip_witness:
  "EncodeData 1 (Span [10, 20]) True (Span [9, 9, 9, 9, 9, 9, 9, 9, 9, 9, 9, 9]) =
     Ok ([0, 0, 2, 0, 1, 0, 0, 0, 1, 10, 20, 9], 11)"
proof -
  have n: "(3 :: nat) = Suc (Suc (Suc 0))" "(4 :: nat) = Suc (Suc (Suc (Suc 0)))" by simp_all
  have "be_bytes 3 (2 :: ULONG) = [0, 0, 2]" "be_bytes 4 (1 :: ULONG) = [0, 0, 0, 1]"
    unfolding n be_bytes.simps by simp_all
  then show ?thesis
    using block_frames_roundtrip [of 1 "[10, 20]" FrameData "FlagEndStream" _ True False
        "[9, 9, 9, 9, 9, 9, 9, 9, 9, 9, 9, 9]" "[]"]
    by (simp add: frame_text_def head_text_def overlay_def FlagEndStream_def FrameData_def)
qed

text \<open>Control frames survive the round trip: the payload decoders read back from WINDOW_UPDATE,
  RST_STREAM and GOAWAY frames the increment, the error code and the last stream that were
  encoded, and a PING carries its eight bytes.\<close>

theorem control_frames_roundtrip:
  assumes "unat streamId < 2 ^ 31" "streamId \<noteq> 0" "increment \<noteq> 0" "unat increment < 2 ^ 31"
    and "unat lastStreamId < 2 ^ 31" "length opaque = 8" "17 \<le> length dest"
  shows "(\<exists>p. EncodeWindowUpdate streamId increment (Span dest) =
        Ok (overlay dest 0 (frame_text FrameWindowUpdate 0 streamId p), 13) \<and>
      DecodeWindowUpdatePayload (Span p) = Ok increment) \<and>
    (\<exists>p. EncodeRstStream streamId errorCode (Span dest) =
        Ok (overlay dest 0 (frame_text FrameRstStream 0 streamId p), 13) \<and>
      DecodeRstStreamPayload (Span p) = Ok errorCode) \<and>
    (\<exists>p. EncodeGoAway lastStreamId errorCode (Span dest) =
        Ok (overlay dest 0 (frame_text FrameGoAway 0 0 p), 17) \<and>
      DecodeGoAwayPayload (Span p) = Ok (lastStreamId, errorCode)) \<and>
    EncodePing (Span opaque) ack (Span dest) =
        Ok (overlay dest 0 (frame_text FramePing (if ack then FlagAck else 0) 0 opaque), 17)"
  using assms EncodeWindowUpdate_text [of streamId increment dest] EncodeRstStream_text [of streamId dest errorCode]
    EncodeGoAway_text [OF assms(5,7) refl, of errorCode] EncodePing_text [OF assms(6,7), of ack]
  by fastforce

theorem control_frames_roundtrip_witness:
  "\<exists>p. EncodeWindowUpdate 3 100 (Span (replicate 17 0)) =
        Ok (overlay (replicate 17 0) 0 (frame_text FrameWindowUpdate 0 3 p), 13) \<and>
      DecodeWindowUpdatePayload (Span p) = Ok 100"
  using control_frames_roundtrip [of 3 100 0 "replicate 8 0" "replicate 17 0"] by simp

text \<open>Settings: a SETTINGS frame that the client writes decodes, from any earlier settings, to
  the settings it announces. Decoding any payload is memory safe, fails unless the length is a
  multiple of six, otherwise applies the settings in order, and never leaves the settings outside
  their legal ranges, even when it stops at a refused value half way.\<close>

theorem settings_roundtrip:
  shows "(settings_ok s \<and> 51 \<le> length dest \<longrightarrow>
      (\<exists>p. EncodeSettings s (Span dest) = Ok (overlay dest 0 (frame_text FrameSettings 0 0 p), 51) \<and>
         DecodeSettingsPayload (Span p) s0 = (s, Ok ()))) \<and>
    (settings_ok s0 \<longrightarrow>
      settings_ok (fst (DecodeSettingsPayload (Span q) s0)) \<and> snd (DecodeSettingsPayload (Span q) s0) \<noteq> Fault \<and>
      (snd (DecodeSettingsPayload (Span q) s0) = Ok () \<longrightarrow>
        (\<exists>ps. q = concat (map setting_text ps) \<and> apply_settings ps s0 = DecodeSettingsPayload (Span q) s0)))"
proof (intro conjI impI)
  assume s: "settings_ok s \<and> 51 \<le> length dest"
  let ?p = "concat (map setting_text (setting_list s))"
  have "DecodeSettingsPayload (Span ?p) s0 = (s, Ok ())"
    using decode_settings_loop_texts [of "[]" "setting_list s" s0] s
    by (simp add: DecodeSettingsPayload_def apply_setting_list length_settings_text)
  then show "\<exists>p. EncodeSettings s (Span dest) = Ok (overlay dest 0 (frame_text FrameSettings 0 0 p), 51) \<and>
         DecodeSettingsPayload (Span p) s0 = (s, Ok ())"
    using EncodeSettings_text [of dest s] s by blast
next
  assume ok: "settings_ok s0"
  have split: "length q mod 6 \<noteq> 0 \<or> (\<exists>ps. q = concat (map setting_text ps))"
    using setting_texts_cover [of q "length q div 6"] by fastforce
  have texts: "DecodeSettingsPayload (Span q) s0 = apply_settings ps s0" if "q = concat (map setting_text ps)" for ps
    using that decode_settings_loop_texts [of "[]" ps s0]
    by (simp add: DecodeSettingsPayload_def length_settings_text)
  have bad: "DecodeSettingsPayload (Span q) s0 = (s0, Err STATUS_INVALID_NETWORK_RESPONSE)" if "length q mod 6 \<noteq> 0"
    using that by (simp add: DecodeSettingsPayload_def)
  from split show "settings_ok (fst (DecodeSettingsPayload (Span q) s0))"
    "snd (DecodeSettingsPayload (Span q) s0) \<noteq> Fault"
    using texts bad apply_settings_ok [OF ok] ok by auto
  show "\<exists>ps. q = concat (map setting_text ps) \<and> apply_settings ps s0 = DecodeSettingsPayload (Span q) s0"
    if "snd (DecodeSettingsPayload (Span q) s0) = Ok ()"
    using split texts bad that by force
qed

theorem settings_roundtrip_witness:
  "\<exists>p. EncodeSettings default_settings (Span (replicate 51 0)) =
       Ok (overlay (replicate 51 0) 0 (frame_text FrameSettings 0 0 p), 51) \<and>
     DecodeSettingsPayload (Span p) (default_settings\<lparr>EnablePush := 1\<rparr>) = (default_settings, Ok ())"
  using settings_roundtrip [of default_settings "replicate 51 0" "default_settings\<lparr>EnablePush := 1\<rparr>"]
  by (simp add: settings_ok_def default_settings_def http2_limit_defs)

text \<open>Padding and priority are removed exactly: a padded payload is accepted if and only if it is
  a length byte, the content and that many bytes of padding, and the content is what is returned;
  the priority fields are exactly five bytes in front. Neither reads outside the payload.\<close>

theorem strip_padding_priority_iff:
  "(StripPadding flags (Span p) = Ok (Span c) \<longleftrightarrow>
      (if flags AND FlagPadded = 0 then p = c
       else (\<exists>pad. length pad < 256 \<and> p = word_of_nat (length pad) # c @ pad))) \<and>
   (StripPriority flags (Span p) = Ok (Span c) \<longleftrightarrow>
      (if flags AND FlagPriority = 0 then p = c else (\<exists>fields. length fields = 5 \<and> p = fields @ c))) \<and>
   StripPadding flags (Span p) \<noteq> Fault \<and> StripPriority flags (Span p) \<noteq> Fault"
proof (intro conjI)
  show "StripPadding flags (Span p) = Ok (Span c) \<longleftrightarrow>
      (if flags AND FlagPadded = 0 then p = c
       else (\<exists>pad. length pad < 256 \<and> p = word_of_nat (length pad) # c @ pad))"
    using StripPadding_Ok_iff [of flags p c] by (cases "flags AND FlagPadded = 0") (simp_all add: StripPadding_def)
  have "5 \<le> length p \<and> drop 5 p = c \<longleftrightarrow> (\<exists>fields. length fields = 5 \<and> p = fields @ c)"
  proof
    assume "5 \<le> length p \<and> drop 5 p = c"
    then have "length (take 5 p) = 5 \<and> p = take 5 p @ c" by auto
    then show "\<exists>fields. length fields = 5 \<and> p = fields @ c" by blast
  qed auto
  then show "StripPriority flags (Span p) = Ok (Span c) \<longleftrightarrow>
      (if flags AND FlagPriority = 0 then p = c else (\<exists>fields. length fields = 5 \<and> p = fields @ c))"
    by (auto simp: StripPriority_def not_less)
  show "StripPadding flags (Span p) \<noteq> Fault"
    by (cases p) (auto simp: StripPadding_def)
  show "StripPriority flags (Span p) \<noteq> Fault"
    by (simp add: StripPriority_def)
qed

end
