(* ===== verification/Kh_Http2Stream.thy ===== *)
theory Kh_Http2Stream
  imports Kh_Http2Frame
begin

text \<open>
  An HTTP/2 stream, \<^verbatim>\<open>http2/Http2Stream.cpp\<close>: the life cycle of RFC 9113, section 5.1, and the two
  flow-control windows.

  The windows are \<open>LONG\<close>, 32-bit words read with \<open>sint\<close>; they may be negative, because a change
  of the initial window size is applied to open streams. A failed operation leaves the object as
  it was, so an operation returns the new object or the status. The accepted operations of a
  stream form a run, \<open>stream_run\<close>; the invariants are proved by rule induction over it.
\<close>

unbundle bit_operations_syntax

section \<open>The stream object\<close>

datatype Http2StreamState = Idle | Open | HalfClosedLocal | HalfClosedRemote | Closed

type_synonym LONG = "32 word"
type_synonym LONGLONG = "64 word"

record Http2Stream =
  streamId :: ULONG
  state :: Http2StreamState
  localWindow :: LONG
  remoteWindow :: LONG

definition Stream_Initialize :: "ULONG \<Rightarrow> ULONG \<Rightarrow> ULONG \<Rightarrow> Http2Stream" where
  "Stream_Initialize sid localW remoteW =
     \<lparr>streamId = sid, state = Idle, localWindow = localW, remoteWindow = remoteW\<rparr>"

definition SendHeaders :: "bool \<Rightarrow> Http2Stream \<Rightarrow> Http2Stream res" where
  "SendHeaders endStream s =
     (case state s of
        Idle \<Rightarrow> Ok (s\<lparr>state := (if endStream then HalfClosedLocal else Open)\<rparr>)
      | Open \<Rightarrow> Ok (if endStream then s\<lparr>state := HalfClosedLocal\<rparr> else s)
      | HalfClosedRemote \<Rightarrow> Ok (if endStream then s\<lparr>state := Closed\<rparr> else s)
      | _ \<Rightarrow> Err STATUS_INVALID_DEVICE_STATE)"

text \<open>\<open>static_cast<SIZE_T>(remoteWindow_)\<close> extends the sign: a negative window becomes huge.\<close>

definition SendData :: "nat \<Rightarrow> bool \<Rightarrow> Http2Stream \<Rightarrow> Http2Stream res" where
  "SendData len endStream s =
     (if state s \<noteq> Open \<and> state s \<noteq> HalfClosedRemote then Err STATUS_INVALID_DEVICE_STATE
      else if (len \<noteq> 0 \<and> sint (remoteWindow s) \<le> 0) \<or> len > unat (scast (remoteWindow s) :: ULONGLONG)
      then Err STATUS_BUFFER_TOO_SMALL
      else
        let s' = s\<lparr>remoteWindow := remoteWindow s - word_of_nat len\<rparr> in
        Ok (if endStream
            then s'\<lparr>state := (if state s' = HalfClosedRemote then Closed else HalfClosedLocal)\<rparr>
            else s'))"

definition ReceiveHeaders :: "bool \<Rightarrow> Http2Stream \<Rightarrow> Http2Stream res" where
  "ReceiveHeaders endStream s =
     (case state s of
        Idle \<Rightarrow> Ok (s\<lparr>state := (if endStream then HalfClosedRemote else Open)\<rparr>)
      | Open \<Rightarrow> Ok (if endStream then s\<lparr>state := HalfClosedRemote\<rparr> else s)
      | HalfClosedLocal \<Rightarrow> Ok (if endStream then s\<lparr>state := Closed\<rparr> else s)
      | _ \<Rightarrow> Err STATUS_INVALID_DEVICE_STATE)"

definition ReceiveData :: "nat \<Rightarrow> bool \<Rightarrow> Http2Stream \<Rightarrow> Http2Stream res" where
  "ReceiveData len endStream s =
     (if state s \<noteq> Open \<and> state s \<noteq> HalfClosedLocal then Err STATUS_INVALID_DEVICE_STATE
      else if (len \<noteq> 0 \<and> sint (localWindow s) \<le> 0) \<or> len > unat (scast (localWindow s) :: ULONGLONG)
      then Err STATUS_INVALID_NETWORK_RESPONSE
      else
        let s' = s\<lparr>localWindow := localWindow s - word_of_nat len\<rparr> in
        Ok (if endStream
            then s'\<lparr>state := (if state s' = HalfClosedLocal then Closed else HalfClosedRemote)\<rparr>
            else s'))"

definition IncreaseRemoteWindow :: "ULONG \<Rightarrow> Http2Stream \<Rightarrow> Http2Stream res" where
  "IncreaseRemoteWindow increment s =
     (if increment = 0 then Err STATUS_INVALID_PARAMETER
      else if sint (remoteWindow s) > sint (Http2MaxWindowSize - increment)
      then Err STATUS_INVALID_NETWORK_RESPONSE
      else Ok (s\<lparr>remoteWindow := remoteWindow s + increment\<rparr>))"

definition AdjustRemoteWindow :: "LONGLONG \<Rightarrow> Http2Stream \<Rightarrow> Http2Stream res" where
  "AdjustRemoteWindow delta s =
     (let adjusted = scast (remoteWindow s) + delta in
      if sint adjusted > sint (ucast Http2MaxWindowSize :: LONGLONG) \<or>
         sint adjusted < sint (- ucast Http2MaxWindowSize :: LONGLONG)
      then Err STATUS_INVALID_NETWORK_RESPONSE
      else Ok (s\<lparr>remoteWindow := ucast adjusted\<rparr>))"

definition IncreaseLocalWindow :: "ULONG \<Rightarrow> Http2Stream \<Rightarrow> Http2Stream res" where
  "IncreaseLocalWindow increment s =
     (if increment = 0 then Err STATUS_INVALID_PARAMETER
      else if sint (localWindow s) > sint (Http2MaxWindowSize - increment)
      then Err STATUS_INVALID_NETWORK_RESPONSE
      else Ok (s\<lparr>localWindow := localWindow s + increment\<rparr>))"

definition Stream_Reset :: Http2Stream where
  "Stream_Reset = \<lparr>streamId = 0, state = Idle, localWindow = Http2InitialWindowSize,
     remoteWindow = Http2InitialWindowSize\<rparr>"

definition Stream_Close :: "Http2Stream \<Rightarrow> Http2Stream" where
  "Stream_Close s = s\<lparr>state := Closed\<rparr>"

section \<open>Runs\<close>

datatype stream_event =
    EvSendHeaders bool
  | EvSendData nat bool
  | EvReceiveHeaders bool
  | EvReceiveData nat bool
  | EvIncreaseRemote ULONG
  | EvAdjustRemote LONGLONG
  | EvIncreaseLocal ULONG
  | EvClose

fun stream_op :: "stream_event \<Rightarrow> Http2Stream \<Rightarrow> Http2Stream res" where
  "stream_op (EvSendHeaders e) s = SendHeaders e s"
| "stream_op (EvSendData n e) s = SendData n e s"
| "stream_op (EvReceiveHeaders e) s = ReceiveHeaders e s"
| "stream_op (EvReceiveData n e) s = ReceiveData n e s"
| "stream_op (EvIncreaseRemote i) s = IncreaseRemoteWindow i s"
| "stream_op (EvAdjustRemote d) s = AdjustRemoteWindow d s"
| "stream_op (EvIncreaseLocal i) s = IncreaseLocalWindow i s"
| "stream_op EvClose s = Ok (Stream_Close s)"

text \<open>
  What the callers guarantee: increments are masked to 31 bits before they get here, and a delta
  is the difference of two initial window sizes.
\<close>

fun legal :: "stream_event \<Rightarrow> bool" where
  "legal (EvIncreaseRemote i) \<longleftrightarrow> unat i < 2 ^ 31"
| "legal (EvIncreaseLocal i) \<longleftrightarrow> unat i < 2 ^ 31"
| "legal (EvAdjustRemote d) \<longleftrightarrow> \<bar>sint d\<bar> < 2 ^ 31"
| "legal _ \<longleftrightarrow> True"

inductive stream_run :: "Http2Stream \<Rightarrow> stream_event list \<Rightarrow> Http2Stream \<Rightarrow> bool" for start where
  run_start: "stream_run start [] start"
| run_step: "stream_run start es s \<Longrightarrow> legal e \<Longrightarrow> stream_op e s = Ok s' \<Longrightarrow> stream_run start (es @ [e]) s'"

inductive_cases run_snocE: "stream_run start (es @ [e]) s"

section \<open>Signed arithmetic in range\<close>

lemma sint_of_int_in_range:
  "- (2 ^ 31) \<le> k \<Longrightarrow> k < 2 ^ 31 \<Longrightarrow> sint (word_of_int k :: LONG) = k"
  by (simp add: signed_of_int signed_take_bit_int_eq_self)

lemma sint_range: "- (2 ^ 31) \<le> sint (w :: LONG)" "sint w < 2 ^ 31"
  using sint_ge [of w] sint_lt [of w] by simp_all

lemma sint_add_in_range:
  fixes a b :: LONG
  assumes "- (2 ^ 31) \<le> sint a + sint b" "sint a + sint b < 2 ^ 31"
  shows "sint (a + b) = sint a + sint b"
proof -
  have "a + b = word_of_int (sint a + sint b)" by simp
  then show ?thesis using sint_of_int_in_range [OF assms] by simp
qed

lemma sint_diff_in_range:
  fixes a b :: LONG
  assumes "- (2 ^ 31) \<le> sint a - sint b" "sint a - sint b < 2 ^ 31"
  shows "sint (a - b) = sint a - sint b"
proof -
  have "a - b = word_of_int (sint a - sint b)" by simp
  then show ?thesis using sint_of_int_in_range [OF assms] by simp
qed

lemma sint_nat_small: "n < 2 ^ 31 \<Longrightarrow> sint (word_of_nat n :: LONG) = int n"
  using sint_of_int_in_range [of "int n"] by simp

lemma sint_small: "unat (w :: LONG) < 2 ^ 31 \<Longrightarrow> sint w = int (unat w)"
proof -
  assume "unat w < 2 ^ 31"
  then have "sint (word_of_nat (unat w) :: LONG) = int (unat w)" by (rule sint_nat_small)
  moreover have "word_of_nat (unat w) = w" by simp
  ultimately show ?thesis by metis
qed

lemma uint_of_int_64: "0 \<le> k \<Longrightarrow> k < 2 ^ 64 \<Longrightarrow> uint (word_of_int k :: ULONGLONG) = k"
  by (simp add: unsigned_of_int take_bit_int_eq_self)

lemma unat_scast_nonneg:
  assumes "0 \<le> sint (w :: LONG)"
  shows "int (unat (scast w :: ULONGLONG)) = sint w"
proof -
  have "sint w < 2 ^ 64" using sint_range(2) [of w] by simp
  then have "uint (word_of_int (sint w) :: ULONGLONG) = sint w" using assms by (rule uint_of_int_64 [rotated])
  then show ?thesis by simp
qed

text \<open>The test \<open>(length != 0 && window <= 0) || length > window\<close> refuses exactly what does not fit.\<close>

lemma window_test:
  "(n \<noteq> 0 \<and> sint (w :: LONG) \<le> 0) \<or> n > unat (scast w :: ULONGLONG) \<longleftrightarrow> int n > max 0 (sint w)"
proof (cases "0 \<le> sint w")
  case True
  obtain m where m: "m = unat (scast w :: ULONGLONG)" "int m = sint w" using unat_scast_nonneg [OF True] by blast
  show ?thesis unfolding m(1) [symmetric] using m(2) by auto
next
  case False
  obtain m where m: "m = unat (scast w :: ULONGLONG)" by blast
  show ?thesis unfolding m [symmetric] using False by auto
qed

lemma window_spend:
  assumes "int n \<le> max 0 (sint (w :: LONG))"
  shows "sint (w - word_of_nat n) = sint w - int n"
proof (cases "n = 0")
  case False
  then have n: "int n \<le> sint w" using assms by auto
  then have "int n < 2 ^ 31" using sint_range(2) [of w] by linarith
  then have "n < 2 ^ 31" by simp
  then show ?thesis using n sint_range [of w] by (subst sint_diff_in_range) (auto simp: sint_nat_small)
qed simp

lemma window_grow_test:
  assumes "unat (i :: ULONG) < 2 ^ 31"
  shows "sint (Http2MaxWindowSize - i) = 2 ^ 31 - 1 - int (unat i)"
proof -
  have max: "sint Http2MaxWindowSize = 2 ^ 31 - 1" by (simp add: Http2MaxWindowSize_def)
  obtain k where k: "int (unat i) = k" "0 \<le> k" "k < 2 ^ 31" using assms
    by (metis of_nat_0_le_iff of_nat_less_numeral_power_cancel_iff)
  then have "sint i = k" using sint_small [OF assms] by simp
  then show ?thesis using max k by (subst sint_diff_in_range) linarith+
qed

lemma window_grow:
  assumes "unat (i :: ULONG) < 2 ^ 31" "sint w \<le> 2 ^ 31 - 1 - int (unat i)"
  shows "sint (w + i) = sint w + int (unat i)"
proof -
  obtain k where k: "int (unat i) = k" "0 \<le> k" using assms by (metis of_nat_0_le_iff)
  then have "sint i = k" using sint_small [OF assms(1)] by simp
  then show ?thesis using assms(2) k sint_range [of w] by (subst sint_add_in_range) linarith+
qed

lemma sint_add_64:
  fixes a b :: LONGLONG
  assumes "- (2 ^ 63) \<le> sint a + sint b" "sint a + sint b < 2 ^ 63"
  shows "sint (a + b) = sint a + sint b"
proof -
  have "a + b = word_of_int (sint a + sint b)" by simp
  moreover have "sint (word_of_int (sint a + sint b) :: LONGLONG) = sint a + sint b"
    using assms by (simp only: signed_of_int) (simp add: signed_take_bit_int_eq_self)
  ultimately show ?thesis by simp
qed

lemma sint_scast_64: "sint (scast (w :: LONG) :: LONGLONG) = sint w"
proof -
  have "sint (word_of_int (sint w) :: LONGLONG) = sint w"
    using sint_range [of w] by (simp only: signed_of_int) (simp add: signed_take_bit_int_eq_self)
  then show ?thesis by simp
qed

lemma sint_ucast_32:
  assumes "- (2 ^ 31) \<le> sint (a :: LONGLONG)" "sint a < 2 ^ 31"
  shows "sint (ucast a :: LONG) = sint a"
proof -
  have "(ucast a :: LONG) = word_of_int (sint a)"
    by (rule bit_word_eqI) (simp add: bit_simps)
  then show ?thesis using sint_of_int_in_range [OF assms] by simp
qed

lemma AdjustRemoteWindow_spec:
  assumes "\<bar>sint d\<bar> < 2 ^ 31"
  shows "AdjustRemoteWindow d s =
     (if \<bar>sint (remoteWindow s) + sint d\<bar> \<le> 2 ^ 31 - 1
      then Ok (s\<lparr>remoteWindow := ucast (scast (remoteWindow s) + d)\<rparr>)
      else Err STATUS_INVALID_NETWORK_RESPONSE)"
    and "\<bar>sint (remoteWindow s) + sint d\<bar> \<le> 2 ^ 31 - 1 \<Longrightarrow>
      sint (ucast (scast (remoteWindow s) + d) :: LONG) = sint (remoteWindow s) + sint d"
proof -
  let ?a = "scast (remoteWindow s) + d"
  have a: "sint ?a = sint (remoteWindow s) + sint d"
    using assms sint_range [of "remoteWindow s"] by (subst sint_add_64) (auto simp: sint_scast_64)
  have m: "sint (ucast Http2MaxWindowSize :: LONGLONG) = 2 ^ 31 - 1"
    "sint (- ucast Http2MaxWindowSize :: LONGLONG) = - (2 ^ 31 - 1)"
    by (simp_all add: Http2MaxWindowSize_def)
  show "AdjustRemoteWindow d s =
     (if \<bar>sint (remoteWindow s) + sint d\<bar> \<le> 2 ^ 31 - 1 then Ok (s\<lparr>remoteWindow := ucast ?a\<rparr>)
      else Err STATUS_INVALID_NETWORK_RESPONSE)"
    unfolding AdjustRemoteWindow_def Let_def m a by auto
  show "sint (ucast ?a :: LONG) = sint (remoteWindow s) + sint d"
    if "\<bar>sint (remoteWindow s) + sint d\<bar> \<le> 2 ^ 31 - 1"
    using that a by (subst sint_ucast_32) auto
qed

section \<open>Flow control\<close>

text \<open>What an accepted event adds to each window.\<close>

fun remote_change :: "stream_event \<Rightarrow> int" where
  "remote_change (EvSendData n e) = - int n"
| "remote_change (EvIncreaseRemote i) = int (unat i)"
| "remote_change (EvAdjustRemote d) = sint d"
| "remote_change _ = 0"

fun local_change :: "stream_event \<Rightarrow> int" where
  "local_change (EvReceiveData n e) = - int n"
| "local_change (EvIncreaseLocal i) = int (unat i)"
| "local_change _ = 0"

definition windows_ok :: "Http2Stream \<Rightarrow> bool" where
  "windows_ok s \<longleftrightarrow> \<bar>sint (remoteWindow s)\<bar> \<le> 2 ^ 31 - 1 \<and> 0 \<le> sint (localWindow s)"

lemma SendData_Ok:
  "SendData n e s = Ok s' \<longleftrightarrow>
     (state s = Open \<or> state s = HalfClosedRemote) \<and> int n \<le> max 0 (sint (remoteWindow s)) \<and>
     s' = s\<lparr>remoteWindow := remoteWindow s - word_of_nat n,
            state := (if e then if state s = HalfClosedRemote then Closed else HalfClosedLocal else state s)\<rparr>"
  unfolding SendData_def window_test Let_def by auto

lemma ReceiveData_Ok:
  "ReceiveData n e s = Ok s' \<longleftrightarrow>
     (state s = Open \<or> state s = HalfClosedLocal) \<and> int n \<le> max 0 (sint (localWindow s)) \<and>
     s' = s\<lparr>localWindow := localWindow s - word_of_nat n,
            state := (if e then if state s = HalfClosedLocal then Closed else HalfClosedRemote else state s)\<rparr>"
  unfolding ReceiveData_def window_test Let_def by auto

lemma headers_windows:
  "SendHeaders e s = Ok s' \<Longrightarrow> remoteWindow s' = remoteWindow s \<and> localWindow s' = localWindow s"
  "ReceiveHeaders e s = Ok s' \<Longrightarrow> remoteWindow s' = remoteWindow s \<and> localWindow s' = localWindow s"
  by (auto simp: SendHeaders_def ReceiveHeaders_def split: Http2StreamState.splits if_splits)

text \<open>One step: the windows move by exactly the change of the event and stay in range.\<close>

lemma stream_op_windows:
  assumes "stream_op e s = Ok s'" "legal e" "windows_ok s"
  shows "sint (remoteWindow s') = sint (remoteWindow s) + remote_change e \<and>
    sint (localWindow s') = sint (localWindow s) + local_change e \<and> windows_ok s'"
proof (cases e)
  case (EvSendData n f)
  then have "int n \<le> max 0 (sint (remoteWindow s))" "sint (remoteWindow s') = sint (remoteWindow s - word_of_nat n)"
    "localWindow s' = localWindow s" using assms(1) by (auto simp: SendData_Ok)
  with window_spend [OF this(1)] assms(3) EvSendData show ?thesis by (auto simp: windows_ok_def)
next
  case (EvReceiveData n f)
  then have "int n \<le> max 0 (sint (localWindow s))" "sint (localWindow s') = sint (localWindow s - word_of_nat n)"
    "remoteWindow s' = remoteWindow s" using assms(1) by (auto simp: ReceiveData_Ok)
  with window_spend [OF this(1)] assms(3) EvReceiveData show ?thesis by (auto simp: windows_ok_def)
next
  case (EvIncreaseRemote i)
  have i: "unat i < 2 ^ 31" using assms(2) EvIncreaseRemote by simp
  then have "sint (remoteWindow s) \<le> 2 ^ 31 - 1 - int (unat i)" "s' = s\<lparr>remoteWindow := remoteWindow s + i\<rparr>"
    using assms(1) EvIncreaseRemote
    by (auto simp: IncreaseRemoteWindow_def window_grow_test not_less simp del: of_nat_unat split: if_splits)
  moreover from this(1) have "\<bar>sint (remoteWindow s) + int (unat i)\<bar> \<le> 2 ^ 31 - 1"
    using assms(3) of_nat_0_le_iff [of "unat i"] unfolding windows_ok_def by linarith
  ultimately show ?thesis using window_grow [OF i] EvIncreaseRemote assms(3)
    by (auto simp: windows_ok_def simp del: of_nat_unat)
next
  case (EvIncreaseLocal i)
  have i: "unat i < 2 ^ 31" using assms(2) EvIncreaseLocal by simp
  then have "sint (localWindow s) \<le> 2 ^ 31 - 1 - int (unat i)" "s' = s\<lparr>localWindow := localWindow s + i\<rparr>"
    using assms(1) EvIncreaseLocal
    by (auto simp: IncreaseLocalWindow_def window_grow_test not_less simp del: of_nat_unat split: if_splits)
  moreover from this(1) have "\<bar>sint (localWindow s) + int (unat i)\<bar> \<le> 2 ^ 31 - 1"
    using assms(3) of_nat_0_le_iff [of "unat i"] unfolding windows_ok_def by linarith
  ultimately show ?thesis using window_grow [OF i] EvIncreaseLocal assms(3)
    by (auto simp: windows_ok_def simp del: of_nat_unat)
next
  case (EvAdjustRemote d)
  have d: "\<bar>sint d\<bar> < 2 ^ 31" using assms(2) EvAdjustRemote by simp
  then have "\<bar>sint (remoteWindow s) + sint d\<bar> \<le> 2 ^ 31 - 1"
    "s' = s\<lparr>remoteWindow := ucast (scast (remoteWindow s) + d)\<rparr>"
    using assms(1) EvAdjustRemote by (auto simp: AdjustRemoteWindow_spec(1) split: if_splits)
  with AdjustRemoteWindow_spec(2) [OF d this(1)] EvAdjustRemote assms(3) show ?thesis
    by (auto simp: windows_ok_def)
qed (use assms headers_windows in \<open>auto simp: windows_ok_def Stream_Close_def\<close>)

lemma stream_run_windows:
  assumes "stream_run start es s" "windows_ok start"
  shows "sint (remoteWindow s) = sint (remoteWindow start) + sum_list (map remote_change es) \<and>
    sint (localWindow s) = sint (localWindow start) + sum_list (map local_change es) \<and> windows_ok s"
  using assms
proof (induction rule: stream_run.induct)
  case (run_step es s e s')
  then show ?case using stream_op_windows [of e s s'] by simp
qed simp

section \<open>The life cycle\<close>

text \<open>
  The state as a function of the history: a stream is idle until headers pass in one direction;
  each side then ends with its END_STREAM flag, and the stream is closed when both have ended or
  it is closed outright.
\<close>

fun ends_local :: "stream_event \<Rightarrow> bool" where
  "ends_local (EvSendHeaders e) = e"
| "ends_local (EvSendData n e) = e"
| "ends_local _ = False"

fun ends_remote :: "stream_event \<Rightarrow> bool" where
  "ends_remote (EvReceiveHeaders e) = e"
| "ends_remote (EvReceiveData n e) = e"
| "ends_remote _ = False"

fun is_headers :: "stream_event \<Rightarrow> bool" where
  "is_headers (EvSendHeaders e) = True"
| "is_headers (EvReceiveHeaders e) = True"
| "is_headers _ = False"

fun is_send :: "stream_event \<Rightarrow> bool" where
  "is_send (EvSendHeaders e) = True"
| "is_send (EvSendData n e) = True"
| "is_send _ = False"

fun is_receive :: "stream_event \<Rightarrow> bool" where
  "is_receive (EvReceiveHeaders e) = True"
| "is_receive (EvReceiveData n e) = True"
| "is_receive _ = False"

definition history_state :: "stream_event list \<Rightarrow> Http2StreamState" where
  "history_state es =
     (if EvClose \<in> set es then Closed
      else if \<not> list_ex is_headers es then Idle
      else if list_ex ends_local es then if list_ex ends_remote es then Closed else HalfClosedLocal
      else if list_ex ends_remote es then HalfClosedRemote else Open)"

lemma ends_need_headers:
  assumes "stream_run start es s" "state start = Idle"
  shows "state s = history_state es \<and> (list_ex ends_local es \<or> list_ex ends_remote es \<longrightarrow> list_ex is_headers es)"
  using assms
proof (induction rule: stream_run.induct)
  case run_start
  then show ?case by (simp add: history_state_def)
next
  case (run_step es s e s')
  have IH: "state s = history_state es" "list_ex ends_local es \<or> list_ex ends_remote es \<longrightarrow> list_ex is_headers es"
    using run_step.IH run_step.prems by blast+
  have op: "stream_op e s = Ok s'" by (rule run_step.hyps)
  show ?case
  proof (cases e)
    case (EvSendHeaders f)
    then show ?thesis using IH op
      by (auto simp: SendHeaders_def history_state_def split: Http2StreamState.splits if_splits)
  next
    case (EvReceiveHeaders f)
    then show ?thesis using IH op
      by (auto simp: ReceiveHeaders_def history_state_def split: Http2StreamState.splits if_splits)
  next
    case (EvSendData n f)
    then show ?thesis using IH op by (auto simp: SendData_Ok history_state_def split: if_splits)
  next
    case (EvReceiveData n f)
    then show ?thesis using IH op by (auto simp: ReceiveData_Ok history_state_def split: if_splits)
  next
    case (EvIncreaseRemote i)
    then have "state s' = state s" using op by (auto simp: IncreaseRemoteWindow_def split: if_splits)
    then show ?thesis using IH EvIncreaseRemote by (simp add: history_state_def)
  next
    case (EvIncreaseLocal i)
    then have "state s' = state s" using op by (auto simp: IncreaseLocalWindow_def split: if_splits)
    then show ?thesis using IH EvIncreaseLocal by (simp add: history_state_def)
  next
    case (EvAdjustRemote d)
    then have "state s' = state s" using op by (auto simp: AdjustRemoteWindow_def Let_def split: if_splits)
    then show ?thesis using IH EvAdjustRemote by (simp add: history_state_def)
  next
    case EvClose
    then have "state s' = Closed" using op by (auto simp: Stream_Close_def)
    then show ?thesis using IH EvClose by (simp add: history_state_def)
  qed
qed

lemma stream_run_prefix: "stream_run start (es @ fs) s \<Longrightarrow> \<exists>m. stream_run start es m"
proof (induction fs arbitrary: s rule: rev_induct)
  case (snoc f fs)
  then have "stream_run start ((es @ fs) @ [f]) s" by simp
  then obtain m where "stream_run start (es @ fs) m" by (rule run_snocE)
  then show ?case by (rule snoc.IH)
qed auto

lemma send_needs_open:
  assumes "stream_op e s = Ok s'"
  shows "is_send e \<Longrightarrow> state s \<noteq> HalfClosedLocal \<and> state s \<noteq> Closed"
    and "is_receive e \<Longrightarrow> state s \<noteq> HalfClosedRemote \<and> state s \<noteq> Closed"
  using assms
  by (cases e; auto simp: SendHeaders_def SendData_def ReceiveHeaders_def ReceiveData_def
      split: Http2StreamState.splits if_splits)+

lemma last_event_state:
  assumes "stream_run start (es @ e # fs) s" "state start = Idle"
  obtains m m' where "stream_run start es m" "stream_op e m = Ok m'" "state m = history_state es"
proof -
  have "stream_run start ((es @ [e]) @ fs) s" using assms(1) by simp
  then obtain m' where "stream_run start (es @ [e]) m'" using stream_run_prefix by blast
  then show thesis using that ends_need_headers [OF _ assms(2)] by (auto elim!: run_snocE)
qed

section \<open>Properties\<close>

definition fresh_stream :: "ULONG \<Rightarrow> ULONG \<Rightarrow> ULONG \<Rightarrow> Http2Stream \<Rightarrow> bool" where
  "fresh_stream sid l r s \<longleftrightarrow> s = Stream_Initialize sid l r \<and> unat l < 2 ^ 31 \<and> unat r < 2 ^ 31"

lemma fresh_stream_start:
  assumes "fresh_stream sid l r s"
  shows "state s = Idle" "windows_ok s" "sint (remoteWindow s) = int (unat r)" "sint (localWindow s) = int (unat l)"
proof -
  have s: "s = Stream_Initialize sid l r" "unat l < 2 ^ 31" "unat r < 2 ^ 31"
    using assms by (auto simp: fresh_stream_def)
  then show "state s = Idle" "sint (remoteWindow s) = int (unat r)" "sint (localWindow s) = int (unat l)"
    using sint_small [OF s(2)] sint_small [OF s(3)] by (simp_all add: Stream_Initialize_def)
  moreover have "sint (remoteWindow s) < 2 ^ 31" by (rule sint_range)
  ultimately show "windows_ok s" by (simp add: windows_ok_def)
qed

text \<open>C13: Flow control is exact and never wraps: after any accepted sequence of operations on a fresh
  stream, the send window is the initial window plus all increments and adjustments minus all
  bytes sent, the receive window likewise, both computed in 32-bit arithmetic without overflow;
  the receive window is never negative, so the peer's data never exceeds what was granted, and no
  data is sent beyond the send window in force at that moment.\<close>

theorem stream_flow_control:
  assumes "fresh_stream sid l r start" "stream_run start es s"
  shows "sint (remoteWindow s) = int (unat r) + sum_list (map remote_change es) \<and>
    sint (localWindow s) = int (unat l) + sum_list (map local_change es) \<and>
    \<bar>sint (remoteWindow s)\<bar> \<le> 2 ^ 31 - 1 \<and> 0 \<le> sint (localWindow s) \<and>
    (\<forall>pre n f post. es = pre @ EvSendData n f # post \<and> n > 0 \<longrightarrow>
       int n \<le> int (unat r) + sum_list (map remote_change pre))"
proof -
  note start = fresh_stream_start [OF assms(1)]
  have sent: "int n \<le> int (unat r) + sum_list (map remote_change pre)"
    if "es = pre @ EvSendData n f # post" "n > 0" for pre n f post
  proof -
    have "stream_run start (pre @ EvSendData n f # post) s" using assms(2) that(1) by simp
    then obtain m m' where m: "stream_run start pre m" "stream_op (EvSendData n f) m = Ok m'"
      using last_event_state start(1) by blast
    then have "int n \<le> max 0 (sint (remoteWindow m))" by (simp add: SendData_Ok)
    then show ?thesis using stream_run_windows [OF m(1) start(2)] that(2) start(3) by auto
  qed
  then show ?thesis using stream_run_windows [OF assms(2) start(2)] start(3,4) by (auto simp: windows_ok_def)
qed

definition example_stream :: Http2Stream where
  "example_stream = Stream_Initialize 1 65535 10"

lemma example_run:
  "stream_run example_stream [EvSendHeaders False, EvSendData 4 True, EvReceiveData 7 True]
     \<lparr>streamId = 1, state = Closed, localWindow = 65528, remoteWindow = 6\<rparr>"
proof -
  have s: "example_stream = \<lparr>streamId = 1, state = Idle, localWindow = 65535, remoteWindow = 10\<rparr>"
    by (simp add: example_stream_def Stream_Initialize_def)
  have "stream_run example_stream ([] @ [EvSendHeaders False])
      \<lparr>streamId = 1, state = Open, localWindow = 65535, remoteWindow = 10\<rparr>"
    by (rule run_step [OF run_start]) (simp_all add: s SendHeaders_def)
  then have "stream_run example_stream (([] @ [EvSendHeaders False]) @ [EvSendData 4 True])
      \<lparr>streamId = 1, state = HalfClosedLocal, localWindow = 65535, remoteWindow = 6\<rparr>"
    by (rule run_step) (simp_all add: SendData_def)
  then have "stream_run example_stream ((([] @ [EvSendHeaders False]) @ [EvSendData 4 True]) @ [EvReceiveData 7 True])
      \<lparr>streamId = 1, state = Closed, localWindow = 65528, remoteWindow = 6\<rparr>"
    by (rule run_step) (simp_all add: ReceiveData_def)
  then show ?thesis by simp
qed

theorem stream_flow_control_witness:
  "sum_list (map remote_change [EvSendHeaders False, EvSendData 4 True, EvReceiveData 7 True]) = sint (6 :: LONG) - 10"
proof -
  have "fresh_stream 1 65535 10 example_stream" by (simp add: fresh_stream_def example_stream_def)
  from stream_flow_control [OF this example_run] show ?thesis by simp
qed

text \<open>C14: The state of a stream is a function of the operations accepted so far: idle before headers
  pass, half closed after END_STREAM in one direction, closed after END_STREAM in both or after an
  outright close. In consequence nothing is sent after the local END_STREAM and nothing is accepted
  after the remote one, and a closed stream stays closed.\<close>

theorem stream_life_cycle:
  assumes "fresh_stream sid l r start" "stream_run start es s"
  shows "state s = history_state es \<and>
    (\<forall>pre e post. es = pre @ e # post \<longrightarrow>
       (is_send e \<longrightarrow> \<not> list_ex ends_local pre \<and> EvClose \<notin> set pre) \<and>
       (is_receive e \<longrightarrow> \<not> list_ex ends_remote pre \<and> EvClose \<notin> set pre))"
proof (intro conjI allI impI)
  note idle = fresh_stream_start(1) [OF assms(1)]
  show "state s = history_state es" using ends_need_headers [OF assms(2) idle] by blast
  fix pre e post
  assume es: "es = pre @ e # post"
  obtain m m' where m: "stream_run start pre m" "stream_op e m = Ok m'" "state m = history_state pre"
    using last_event_state [OF assms(2) [unfolded es] idle] .
  have h: "list_ex ends_local pre \<or> list_ex ends_remote pre \<longrightarrow> list_ex is_headers pre"
    using ends_need_headers [OF m(1) idle] by blast
  show "\<not> list_ex ends_local pre" "EvClose \<notin> set pre" if "is_send e"
    using send_needs_open(1) [OF m(2) that] m(3) h by (auto simp: history_state_def split: if_splits)
  show "\<not> list_ex ends_remote pre" "EvClose \<notin> set pre" if "is_receive e"
    using send_needs_open(2) [OF m(2) that] m(3) h by (auto simp: history_state_def split: if_splits)
qed

theorem stream_life_cycle_witness:
  "history_state [EvSendHeaders False, EvSendData 4 True, EvReceiveData 7 True] = Closed"
proof -
  have "fresh_stream 1 65535 10 example_stream" by (simp add: fresh_stream_def example_stream_def)
  from stream_life_cycle [OF this example_run] show ?thesis by simp
qed

end
