(* ===== verification/Kh_HpackPrimitives.thy ===== *)
theory Kh_HpackPrimitives
  imports Kh_Prelude
begin

text \<open>
  The primitive representations of HPACK, \<^verbatim>\<open>http2/Hpack.cpp\<close>: prefix integers (RFC 7541,
  section 5.1) and the Huffman code of strings (section 5.2), with the tables of
  \<^verbatim>\<open>http2/HpackHuffman.h\<close>.

  An encoder writes through a cursor: the callers pass \<open>dest + offset\<close> with the capacity
  \<open>capacity - offset\<close>, which is the buffer with the cursor at \<open>offset\<close>.
\<close>

unbundle bit_operations_syntax

section \<open>Prefix integers\<close>

definition max_prefix :: "nat \<Rightarrow> UCHAR" where
  "max_prefix prefixBits = ucast (push_bit prefixBits (1 :: ULONG) - 1)"

function encode_integer_loop :: "ULONG \<Rightarrow> writer \<Rightarrow> writer res" where
  "encode_integer_loop v w =
     (if v \<ge> 128 then
        if snd w \<ge> length (fst w) then Err STATUS_BUFFER_TOO_SMALL
        else rbind (put_byte (ucast ((v AND 0x7f) OR 0x80)) w) (encode_integer_loop (drop_bit 7 v))
      else if snd w \<ge> length (fst w) then Err STATUS_BUFFER_TOO_SMALL
      else put_byte (ucast v) w)"
  by pat_completeness auto

lemma unat_drop_bit_7: "unat (drop_bit 7 (v :: ULONG)) = unat v div 128"
proof -
  have "unat (drop_bit 7 v) = drop_bit 7 (unat v)"
    using take_bit_nat_eq_self [of "unat v" 32] unat_lt2p [of v]
    by (simp add: unsigned_drop_bit_eq)
  then show ?thesis by (simp add: drop_bit_eq_div)
qed

termination encode_integer_loop
proof (relation "measure (\<lambda>(v, w). unat v)")
  fix v :: ULONG and w w' :: writer
  assume "128 \<le> v"
  then have "unat v div 128 < unat v" by (simp add: word_le_nat_alt)
  then show "((drop_bit 7 v, w'), v, w) \<in> measure (\<lambda>(v, w). unat v)" by (simp add: unat_drop_bit_7)
qed simp

declare encode_integer_loop.simps [simp del]

definition HpackEncodeInteger :: "ULONG \<Rightarrow> UCHAR \<Rightarrow> nat \<Rightarrow> writer \<Rightarrow> writer res" where
  "HpackEncodeInteger v pre prefixBits w =
     (if prefixBits = 0 \<or> prefixBits > 8 then Err STATUS_INVALID_PARAMETER
      else
        let maxPrefix = max_prefix prefixBits;
            prefixMask = NOT maxPrefix
        in
        if v < ucast maxPrefix then
          if snd w \<ge> length (fst w) then Err STATUS_BUFFER_TOO_SMALL
          else put_byte ((pre AND prefixMask) OR ucast (v AND ucast maxPrefix)) w
        else if snd w \<ge> length (fst w) then Err STATUS_BUFFER_TOO_SMALL
        else rbind (put_byte ((pre AND prefixMask) OR maxPrefix) w)
               (encode_integer_loop (v - ucast maxPrefix)))"

function decode_integer_loop :: "bytes \<Rightarrow> nat \<Rightarrow> nat \<Rightarrow> nat \<Rightarrow> ULONG \<Rightarrow> (ULONG \<times> nat) res" where
  "decode_integer_loop src offset m continuationBytes result =
     (if offset \<ge> length src then Err STATUS_MORE_PROCESSING_REQUIRED
      else if continuationBytes + 1 > 5 then Err STATUS_INTEGER_OVERFLOW
      else rbind (rd src offset) (\<lambda>b.
        let chunk = ucast (b AND 0x7f) :: ULONG in
        if m \<ge> 32 \<or> (m \<ge> 28 \<and> chunk > 0x0f) then Err STATUS_INTEGER_OVERFLOW
        else
          let increment = push_bit m chunk in
          if result > - 1 - increment then Err STATUS_INTEGER_OVERFLOW
          else if b AND 0x80 = 0 then Ok (result + increment, offset + 1)
          else decode_integer_loop src (offset + 1) (m + 7) (continuationBytes + 1) (result + increment)))"
  by pat_completeness auto
termination by (relation "measure (\<lambda>(src, offset, m, n, result). length src - offset)") auto

declare decode_integer_loop.simps [simp del]

definition HpackDecodeInteger :: "bytes \<Rightarrow> nat \<Rightarrow> (ULONG \<times> nat) res" where
  "HpackDecodeInteger src prefixBits =
     (if prefixBits = 0 \<or> prefixBits > 8 \<or> length src = 0 then Err STATUS_INVALID_PARAMETER
      else rbind (rd src 0) (\<lambda>first.
        let maxPrefix = max_prefix prefixBits;
            result = ucast (first AND maxPrefix) :: ULONG
        in
        if result < ucast maxPrefix then Ok (result, 1)
        else decode_integer_loop src 1 0 0 result))"

text \<open>The reference: RFC 7541, section 5.1, on natural numbers.\<close>

function varint :: "nat \<Rightarrow> bytes" where
  "varint n = (if n < 128 then [word_of_nat n] else word_of_nat (n mod 128 + 128) # varint (n div 128))"
  by pat_completeness auto
termination by (relation "measure id") auto

declare varint.simps [simp del]

definition integer_text :: "UCHAR \<Rightarrow> nat \<Rightarrow> nat \<Rightarrow> bytes" where
  "integer_text pre n v =
     (if v < 2 ^ n - 1 then [(pre AND NOT (max_prefix n)) OR word_of_nat v]
      else ((pre AND NOT (max_prefix n)) OR max_prefix n) # varint (v - (2 ^ n - 1)))"

fun chunks_value :: "bytes \<Rightarrow> nat" where
  "chunks_value [] = 0"
| "chunks_value (b # bs) = unat b mod 128 + 128 * chunks_value bs"

section \<open>Integers: lemmas\<close>

lemma unat_max_prefix: "n \<le> 8 \<Longrightarrow> unat (max_prefix n) = 2 ^ n - 1"
proof -
  assume n: "n \<le> 8"
  have "list_all (\<lambda>n. unat (max_prefix n) = 2 ^ n - 1) [0..<9]" by code_simp
  then show ?thesis using n by (simp add: list_all_iff)
qed

lemma max_prefix_mask: "n \<le> 8 \<Longrightarrow> max_prefix n = mask n"
proof -
  assume n: "n \<le> 8"
  have "list_all (\<lambda>n. max_prefix n = mask n) [0..<9]" by code_simp
  then show ?thesis using n by (simp add: list_all_iff)
qed

lemma unat_and_7f_32: "unat ((v :: ULONG) AND 0x7f) = unat v mod 128"
proof -
  have "(0x7f :: ULONG) = mask 7" by (simp add: mask_eq_exp_minus_1)
  then have "v AND 0x7f = take_bit 7 v" by (simp add: take_bit_eq_mask)
  then show ?thesis by (simp add: unsigned_take_bit_eq take_bit_eq_mod [where 'a = nat])
qed

lemma unat_and_7f_8: "unat ((b :: UCHAR) AND 0x7f) = unat b mod 128"
proof -
  have "(0x7f :: UCHAR) = mask 7" by (simp add: mask_eq_exp_minus_1)
  then have "b AND 0x7f = take_bit 7 b" by (simp add: take_bit_eq_mask)
  then show ?thesis by (simp add: unsigned_take_bit_eq take_bit_eq_mod [where 'a = nat])
qed

lemma top_bit_8: "(b :: UCHAR) AND 0x80 = 0 \<longleftrightarrow> unat b < 128"
proof -
  have "b AND 0x80 = 0 \<longleftrightarrow> \<not> bit b 7" using and_exp_eq_0_iff_not_bit [of b 7] by simp
  also have "\<dots> \<longleftrightarrow> take_bit 7 b = b"
  proof
    assume h: "\<not> bit b 7"
    have "bit (take_bit 7 b) m = bit b m" if "m < 8" for m
      using h that by (cases "m = 7") (auto simp: bit_simps)
    then show "take_bit 7 b = b" by (auto intro: bit_word_eqI)
  next
    assume "take_bit 7 b = b"
    then have "bit b 7 = bit (take_bit 7 b) 7" by simp
    then show "\<not> bit b 7" by (simp add: bit_simps)
  qed
  also have "\<dots> \<longleftrightarrow> unat b < 2 ^ 7"
    by (metis take_bit_nat_eq_self_iff unsigned_take_bit_eq word_unat_eq_iff)
  finally show ?thesis by simp
qed

lemma or_80: "(ucast (((v :: ULONG) AND 0x7f) OR 0x80) :: UCHAR) = word_of_nat (unat v mod 128 + 128)"
proof -
  have "(v AND 0x7f) OR 0x80 = push_bit 7 1 OR (v AND 0x7f)" by (simp add: or.commute)
  moreover have "unat (push_bit 7 1 OR (v AND 0x7f)) = unat (1 :: ULONG) * 2 ^ 7 + unat (v AND 0x7f)"
    by (rule unat_push_bit_or) (simp_all add: unat_and_7f_32)
  ultimately have "unat ((v AND 0x7f) OR 0x80) = unat v mod 128 + 128"
    by (simp add: unat_and_7f_32)
  moreover have "(ucast ((v AND 0x7f) OR 0x80) :: UCHAR) = word_of_nat (unat ((v AND 0x7f) OR 0x80))" by simp
  ultimately show ?thesis by simp
qed

lemma varint_small: "n < 128 \<Longrightarrow> varint n = [word_of_nat n]"
  by (simp add: varint.simps)

lemma varint_big: "128 \<le> n \<Longrightarrow> varint n = word_of_nat (n mod 128 + 128) # varint (n div 128)"
  by (subst varint.simps) simp

text \<open>
  An encoder that stops when the buffer is full: it stores the text or reports that the text does
  not fit.
\<close>

definition bounded_store :: "bytes \<Rightarrow> (writer \<Rightarrow> writer res) \<Rightarrow> bytes \<Rightarrow> bool" where
  "bounded_store dest op t \<longleftrightarrow>
     (\<forall>w t0. stored dest w t0 \<longrightarrow>
        (if length t0 + length t \<le> length dest then \<exists>w'. op w = Ok w' \<and> stored dest w' (t0 @ t)
         else op w = Err STATUS_BUFFER_TOO_SMALL))"

lemma bounded_store_run:
  "bounded_store dest op t \<Longrightarrow> stored dest w t0 \<Longrightarrow> length t0 + length t \<le> length dest \<Longrightarrow>
   \<exists>w'. op w = Ok w' \<and> stored dest w' (t0 @ t)"
  unfolding bounded_store_def by presburger

lemma bounded_store_full:
  "bounded_store dest op t \<Longrightarrow> stored dest w t0 \<Longrightarrow> length dest < length t0 + length t \<Longrightarrow>
   op w = Err STATUS_BUFFER_TOO_SMALL"
  unfolding bounded_store_def by (metis not_le)

lemma bounded_store_seq:
  assumes "bounded_store dest f a" "bounded_store dest g b"
  shows "bounded_store dest (\<lambda>w. rbind (f w) g) (a @ b)"
  unfolding bounded_store_def
proof (intro allI impI)
  fix w t0 assume w: "stored dest w t0"
  show "if length t0 + length (a @ b) \<le> length dest
      then \<exists>w'. rbind (f w) g = Ok w' \<and> stored dest w' (t0 @ a @ b)
      else rbind (f w) g = Err STATUS_BUFFER_TOO_SMALL"
  proof (cases "length t0 + length a \<le> length dest")
    case True
    then obtain w1 where w1: "f w = Ok w1" "stored dest w1 (t0 @ a)"
      using bounded_store_run [OF assms(1) w] by blast
    then show ?thesis
      using bounded_store_run [OF assms(2) w1(2)] bounded_store_full [OF assms(2) w1(2)] by auto
  next
    case False
    then show ?thesis using bounded_store_full [OF assms(1) w] by auto
  qed
qed

lemma bounded_store_byte:
  "bounded_store dest (\<lambda>w. if snd w \<ge> length (fst w) then Err STATUS_BUFFER_TOO_SMALL else put_byte b w) [b]"
  unfolding bounded_store_def
proof (intro allI impI)
  fix w t0 assume w: "stored dest w t0"
  then have "snd w = length t0" "length (fst w) = length dest" by (auto simp: stored_def)
  then show "if length t0 + length [b] \<le> length dest
      then \<exists>w'. (if length (fst w) \<le> snd w then Err STATUS_BUFFER_TOO_SMALL else put_byte b w) = Ok w' \<and>
             stored dest w' (t0 @ [b])
      else (if length (fst w) \<le> snd w then Err STATUS_BUFFER_TOO_SMALL else put_byte b w) =
             Err STATUS_BUFFER_TOO_SMALL"
    using put_byte_stored [OF w] by auto
qed

lemma bounded_store_cong: "(\<And>w. op w = op' w) \<Longrightarrow> bounded_store dest op' t \<Longrightarrow> bounded_store dest op t"
  by (subst ext [of op op']) simp_all

lemma encode_integer_loop_text: "bounded_store dest (encode_integer_loop v) (varint (unat v))"
proof (induction "unat v" arbitrary: v rule: less_induct)
  case less
  show ?case
  proof (cases "128 \<le> v")
    case True
    let ?b = "ucast ((v AND 0x7f) OR 0x80) :: UCHAR"
    have big: "128 \<le> unat v" using True by (simp add: word_le_nat_alt)
    then have t: "varint (unat v) = [?b] @ varint (unat (drop_bit 7 v))"
      by (simp add: varint_big or_80 unat_drop_bit_7)
    have "bounded_store dest (encode_integer_loop (drop_bit 7 v)) (varint (unat (drop_bit 7 v)))"
      using big by (intro less) (simp add: unat_drop_bit_7)
    from bounded_store_seq [OF bounded_store_byte [of dest ?b] this] show ?thesis unfolding t
      by (rule bounded_store_cong [rotated]) (use True in \<open>simp add: encode_integer_loop.simps [of v]\<close>)
  next
    case False
    then have "unat v < 128" by (simp add: word_le_nat_alt)
    moreover have "(ucast v :: UCHAR) = word_of_nat (unat v)" by simp
    ultimately have t: "varint (unat v) = [ucast v]" by (simp add: varint_small)
    from bounded_store_byte [of dest "ucast v"] show ?thesis unfolding t
      by (rule bounded_store_cong [rotated]) (use False in \<open>simp add: encode_integer_loop.simps [of v]\<close>)
  qed
qed

lemma HpackEncodeInteger_text:
  assumes "1 \<le> n" "n \<le> 8"
  shows "bounded_store dest (HpackEncodeInteger v pre n) (integer_text pre n (unat v))"
proof -
  let ?m = "max_prefix n" and ?p = "pre AND NOT (max_prefix n)"
  have m: "unat ?m = 2 ^ n - 1" using assms by (simp add: unat_max_prefix)
  have um: "unat (ucast ?m :: ULONG) = 2 ^ n - 1" using m by simp
  show ?thesis
  proof (cases "unat v < 2 ^ n - 1")
    case True
    have "v AND ucast ?m = v"
    proof -
      have "(ucast ?m :: ULONG) = mask n"
        using assms by (intro bit_word_eqI) (auto simp: max_prefix_mask bit_simps)
      moreover have "take_bit n v = v"
        using True by (simp add: word_unat_eq_iff unsigned_take_bit_eq take_bit_nat_eq_self)
      ultimately show ?thesis by (simp add: take_bit_eq_mask)
    qed
    moreover have "(ucast v :: UCHAR) = word_of_nat (unat v)" by simp
    ultimately have t: "integer_text pre n (unat v) = [?p OR ucast (v AND ucast ?m)]"
      using True by (simp add: integer_text_def)
    from bounded_store_byte [of dest "?p OR ucast (v AND ucast ?m)"] show ?thesis unfolding t
      by (rule bounded_store_cong [rotated])
        (use True assms um in \<open>simp add: HpackEncodeInteger_def Let_def word_less_nat_alt\<close>)
  next
    case False
    have "ucast ?m \<le> v" using False um by (simp add: word_le_nat_alt)
    then have "unat (v - ucast ?m) = unat v - (2 ^ n - 1)" using um by (simp add: unat_sub)
    then have t: "integer_text pre n (unat v) = [?p OR ?m] @ varint (unat (v - ucast ?m))"
      using False by (simp add: integer_text_def)
    from bounded_store_seq [OF bounded_store_byte [of dest "?p OR ?m"] encode_integer_loop_text]
    show ?thesis unfolding t
      by (rule bounded_store_cong [rotated])
        (use False assms um in \<open>simp add: HpackEncodeInteger_def Let_def word_less_nat_alt\<close>)
  qed
qed

text \<open>One round of the decoding loop, on the bytes and naturals.\<close>

lemma unat_chunk: "unat (ucast ((b :: UCHAR) AND 0x7f) :: ULONG) = unat b mod 128"
  by (simp add: unat_and_7f_8)

lemma unat_push_chunk:
  assumes "unat b mod 128 * 2 ^ m < 2 ^ 32"
  shows "unat (push_bit m (ucast ((b :: UCHAR) AND 0x7f)) :: ULONG) = unat b mod 128 * 2 ^ m"
  using assms unfolding unsigned_push_bit_eq
  by (simp add: unat_chunk push_bit_eq_mult take_bit_nat_eq_self)

lemma sum_fits_iff: "\<not> (r :: ULONG) > - 1 - i \<longleftrightarrow> unat r + unat i < 2 ^ 32"
proof -
  have "unat (- 1 - i) = 2 ^ 32 - 1 - unat i"
    using unat_lt2p [of i] by (subst unat_sub) (simp_all add: word_le_nat_alt unat_max_word)
  then show ?thesis using unat_lt2p [of i] by (auto simp: word_less_nat_alt not_less)
qed

lemma unat_sum_fits: "unat (r :: ULONG) + unat i < 2 ^ 32 \<Longrightarrow> unat (r + i) = unat r + unat i"
  by (simp add: unat_word_ariths mod_simps)

lemma decode_integer_loop_step:
  assumes "offset < length src" "k \<le> 4" "b = src ! offset" "i = push_bit m (ucast (b AND 0x7f))"
    and "\<not> (m \<ge> 32 \<or> (m \<ge> 28 \<and> (ucast (b AND 0x7f) :: ULONG) > 0x0f))" "\<not> r > - 1 - i"
  shows "decode_integer_loop src offset m k r =
     (if b AND 0x80 = 0 then Ok (r + i, offset + 1)
      else decode_integer_loop src (offset + 1) (m + 7) (k + 1) (r + i))"
  using assms unfolding decode_integer_loop.simps [of src offset] Let_def by auto

lemma decode_integer_loop_varint:
  assumes "unat r + n * 2 ^ m < 2 ^ 32" "m = 7 * k" "k \<le> 4"
  shows "\<exists>v. decode_integer_loop (pre @ varint n @ rest) (length pre) m k r =
      Ok (v, length pre + length (varint n)) \<and> unat v = unat r + n * 2 ^ m"
  using assms
proof (induction n arbitrary: pre m k r rule: varint.induct)
  case (1 n)
  define b where "b = (if n < 128 then word_of_nat n else word_of_nat (n mod 128 + 128) :: UCHAR)"
  define tl where "tl = (if n < 128 then [] else varint (n div 128))"
  have t: "varint n = b # tl" by (simp add: b_def tl_def varint_small varint_big)
  have "n mod 128 < 128" by simp
  then have "n mod 128 + 128 < 256" by linarith
  then have "unat b = (if n < 128 then n else n mod 128 + 128)"
    using unat_word_of_nat_8 [of n] unat_word_of_nat_8 [of "n mod 128 + 128"] by (simp add: b_def del: of_nat_add)
  then have b: "unat b mod 128 = n mod 128" "b AND 0x80 = 0 \<longleftrightarrow> n < 128" by (auto simp: top_bit_8)
  have "n mod 128 * 2 ^ m \<le> n * 2 ^ m" by simp
  then have fits: "unat r + n mod 128 * 2 ^ m < 2 ^ 32" using 1(2) by linarith
  define i where "i = push_bit m (ucast (b AND 0x7f) :: ULONG)"
  have i: "unat i = n mod 128 * 2 ^ m" unfolding i_def using fits b by (subst unat_push_chunk) simp_all
  have ri: "unat r + unat i < 2 ^ 32" using fits i by simp
  have m28: "\<not> (m \<ge> 32 \<or> (m \<ge> 28 \<and> (ucast (b AND 0x7f) :: ULONG) > 0x0f))"
  proof -
    have "m \<le> 28" using 1(3,4) by simp
    moreover have "n mod 128 \<le> 15" if "m = 28"
    proof -
      have "n mod 128 * 2 ^ 28 < 16 * 2 ^ 28" using fits that by simp
      then have "n mod 128 < 16" by (simp only: mult_less_cancel2)
      then show ?thesis by simp
    qed
    ultimately show ?thesis using unat_chunk [of b] b(1) by (auto simp: word_less_nat_alt)
  qed
  let ?src = "pre @ varint n @ rest"
  have src: "b = ?src ! length pre" "length pre < length ?src" by (simp_all add: t nth_append)
  have step: "decode_integer_loop ?src (length pre) m k r =
     (if n < 128 then Ok (r + i, length pre + 1)
      else decode_integer_loop ?src (length pre + 1) (m + 7) (k + 1) (r + i))"
    unfolding b(2) [symmetric]
    by (rule decode_integer_loop_step [OF src(2) 1(4) src(1) i_def m28]) (rule iffD2 [OF sum_fits_iff ri])
  show ?case
  proof (cases "n < 128")
    case True
    then show ?thesis using step i ri t by (simp add: unat_sum_fits tl_def)
  next
    case False
    have "n * 2 ^ m = (n div 128 * 128 + n mod 128) * 2 ^ m" by (simp only: div_mult_mod_eq)
    also have "\<dots> = n mod 128 * 2 ^ m + n div 128 * 2 ^ (m + 7)"
      by (simp only: power_add distrib_right) simp
    finally have "n * 2 ^ m = n mod 128 * 2 ^ m + n div 128 * 2 ^ (m + 7)" .
    then have sum: "unat (r + i) + n div 128 * 2 ^ (m + 7) = unat r + n * 2 ^ m"
      using unat_sum_fits [OF ri] i by simp
    have "k \<noteq> 4"
    proof
      assume "k = 4"
      then have "n * 2 ^ 28 < 16 * 2 ^ 28" using 1(2,3) by simp
      then have "n < 16" by (simp only: mult_less_cancel2)
      then show False using False by simp
    qed
    then have "k + 1 \<le> 4" using 1(4) by simp
    then obtain v where "decode_integer_loop ((pre @ [b]) @ varint (n div 128) @ rest) (length (pre @ [b])) (m + 7) (k + 1) (r + i) =
        Ok (v, length (pre @ [b]) + length (varint (n div 128)))" "unat v = unat (r + i) + n div 128 * 2 ^ (m + 7)"
      using 1(1) [OF False, of "r + i" "m + 7" "k + 1" "pre @ [b]"] sum 1(2,3) by auto
    then show ?thesis using step sum False t by (simp add: tl_def)
  qed
qed

lemma chunk_fits:
  assumes "m = 7 * k" "k \<le> 4" "m = 28 \<Longrightarrow> c \<le> 15" "c < 128"
  shows "c * 2 ^ m < (2 :: nat) ^ 32"
proof -
  have "k = 0 \<or> k = 1 \<or> k = 2 \<or> k = 3 \<or> k = 4" using assms(2) by linarith
  then show ?thesis using assms(1,3,4) by auto
qed

lemma decode_integer_loop_sound:
  assumes "decode_integer_loop src offset m k r = Ok (v, n)" "m = 7 * k"
  shows "offset < n \<and> n \<le> length src \<and> n \<le> offset + 5 - k \<and>
    unat v = unat r + chunks_value (take (n - offset) (drop offset src)) * 2 ^ m"
  using assms
proof (induction "length src - offset" arbitrary: offset m k r rule: less_induct)
  case less
  define b where "b = src ! offset"
  define i where "i = push_bit m (ucast (b AND 0x7f) :: ULONG)"
  have off: "offset < length src" and k: "k \<le> 4"
    using less.prems(1) by (auto simp: decode_integer_loop.simps [of src offset] split: if_splits)
  have guard: "\<not> (m \<ge> 32 \<or> (m \<ge> 28 \<and> (ucast (b AND 0x7f) :: ULONG) > 0x0f))" "\<not> r > - 1 - i"
    using less.prems(1) off k unfolding decode_integer_loop.simps [of src offset] Let_def
    by (auto simp: b_def i_def split: if_splits)
  note step = decode_integer_loop_step [OF off k b_def i_def guard]
  have "unat b mod 128 * 2 ^ m < 2 ^ 32"
    using chunk_fits [OF less.prems(2) k, of "unat b mod 128"] guard(1) unat_chunk [of b] by (auto simp: word_less_nat_alt)
  then have i: "unat i = unat b mod 128 * 2 ^ m" unfolding i_def by (rule unat_push_chunk)
  have ri: "unat (r + i) = unat r + unat b mod 128 * 2 ^ m"
    using unat_sum_fits [OF iffD1 [OF sum_fits_iff guard(2)]] i by simp
  have d: "drop offset src = b # drop (offset + 1) src" using off by (simp add: b_def Cons_nth_drop_Suc)
  show ?case
  proof (cases "b AND 0x80 = 0")
    case True
    then show ?thesis using less.prems(1) step ri d off k by auto
  next
    case False
    then have rec: "decode_integer_loop src (offset + 1) (m + 7) (k + 1) (r + i) = Ok (v, n)"
      using less.prems(1) step by simp
    have IH: "offset + 1 < n \<and> n \<le> length src \<and> n \<le> offset + 1 + 5 - (k + 1) \<and>
        unat v = unat (r + i) + chunks_value (take (n - (offset + 1)) (drop (offset + 1) src)) * 2 ^ (m + 7)"
      using rec off less.prems(2) by (intro less.hyps) auto
    then have "n - offset = Suc (n - (offset + 1))" by linarith
    then have "take (n - offset) (drop offset src) = b # take (n - (offset + 1)) (drop (offset + 1) src)"
      unfolding d by simp
    then show ?thesis using IH ri k by (simp add: power_add algebra_simps)
  qed
qed

lemma HpackDecodeInteger_text:
  assumes "1 \<le> n" "n \<le> 8"
  shows "HpackDecodeInteger (integer_text pre n (unat v) @ rest) n = Ok (v, length (integer_text pre n (unat v)))"
proof -
  let ?m = "max_prefix n" and ?p = "pre AND NOT (max_prefix n)"
  have m: "unat ?m = 2 ^ n - 1" using assms by (simp add: unat_max_prefix)
  have mask: "?m = mask n" using assms by (simp add: max_prefix_mask)
  have low: "(?p OR x) AND ?m = x AND ?m" for x
    by (rule bit_word_eqI) (auto simp: bit_simps)
  have lt: "(ucast x :: ULONG) < ucast y \<longleftrightarrow> unat (x :: UCHAR) < unat (y :: UCHAR)" for x y
    by (simp add: word_less_nat_alt)
  show ?thesis
  proof (cases "unat v < 2 ^ n - 1")
    case True
    let ?x = "word_of_nat (unat v) :: UCHAR"
    have "(2 :: nat) ^ n \<le> 2 ^ 8" using assms by (intro power_increasing) auto
    then have ux: "unat ?x = unat v" using True by (intro unat_word_of_nat_8) simp
    have "take_bit n ?x = ?x"
      using True ux by (simp add: word_unat_eq_iff unsigned_take_bit_eq take_bit_nat_eq_self del: of_nat_unat)
    then have x: "?x AND ?m = ?x" by (simp add: mask take_bit_eq_mask)
    have t: "integer_text pre n (unat v) = [?p OR ?x]" using True by (simp add: integer_text_def)
    have "(ucast ?x :: ULONG) = v" using ux by (simp add: word_unat_eq_iff)
    moreover have "(ucast ?x :: ULONG) < ucast ?m" unfolding lt using True ux m by (simp del: of_nat_unat)
    ultimately show ?thesis unfolding t using assms low [of ?x] x
      by (simp add: HpackDecodeInteger_def Let_def del: of_nat_unat)
  next
    case False
    let ?n = "unat v - (2 ^ n - 1)"
    have t: "integer_text pre n (unat v) = [?p OR ?m] @ varint ?n" using False by (simp add: integer_text_def)
    have "unat (ucast ?m :: ULONG) + ?n * 2 ^ 0 < 2 ^ 32" using False m unat_lt2p [of v] by simp
    then obtain u where u: "decode_integer_loop ([?p OR ?m] @ varint ?n @ rest) (length [?p OR ?m]) 0 0 (ucast ?m) =
        Ok (u, length [?p OR ?m] + length (varint ?n))" "unat u = unat (ucast ?m :: ULONG) + ?n * 2 ^ 0"
      using decode_integer_loop_varint [of "ucast ?m" ?n 0 0 "[?p OR ?m]" rest] by auto
    have "u = v" using u(2) False m by (simp add: word_unat_eq_iff)
    then show ?thesis unfolding t using assms low [of ?m] u(1)
      by (simp add: HpackDecodeInteger_def Let_def)
  qed
qed

lemma HpackDecodeInteger_sound:
  assumes "HpackDecodeInteger src n = Ok (v, k)"
  shows "1 \<le> k \<and> k \<le> length src \<and> k \<le> 6 \<and>
    unat v = unat (hd src AND max_prefix n) + chunks_value (take (k - 1) (drop 1 src))"
proof -
  have src: "src \<noteq> []" "rd src 0 = Ok (hd src)" using assms by (auto simp: HpackDecodeInteger_def rd_def hd_conv_nth)
  let ?r = "ucast (hd src AND max_prefix n) :: ULONG"
  consider "v = ?r" "k = 1" | "decode_integer_loop src 1 0 0 ?r = Ok (v, k)"
    using assms src by (auto simp: HpackDecodeInteger_def Let_def split: if_splits)
  then show ?thesis
  proof cases
    case 1
    then show ?thesis using src(1) by (cases src) auto
  next
    case 2
    from decode_integer_loop_sound [OF this] show ?thesis by auto
  qed
qed

lemma HpackDecodeInteger_no_fault: "HpackDecodeInteger src n \<noteq> Fault"
proof -
  have loop: "decode_integer_loop src offset m k r \<noteq> Fault" for offset m k r
  proof (induction "length src - offset" arbitrary: offset m k r rule: less_induct)
    case less
    show ?case
      using less.hyps by (subst decode_integer_loop.simps) (auto simp: Let_def)
  qed
  show ?thesis using loop by (cases src) (auto simp: HpackDecodeInteger_def Let_def rd_def)
qed

section \<open>Properties\<close>

text \<open>Prefix integers. For every 32-bit value and prefix length from 1 to 8, the encoder writes
  the representation of RFC 7541, section 5.1 (\<open>integer_text\<close>), and when that does not fit reports
  that the buffer is too small; the decoder reads the value back from it, whatever follows, and
  consumes exactly the representation.\<close>

theorem hpack_integer_roundtrip:
  assumes "1 \<le> n" "n \<le> 8" "length (integer_text pre n (unat v)) \<le> length dest"
  shows "HpackEncodeInteger v pre n (dest, 0) =
      Ok (overlay dest 0 (integer_text pre n (unat v)), length (integer_text pre n (unat v))) \<and>
    (\<forall>small. length small < length (integer_text pre n (unat v)) \<longrightarrow>
       HpackEncodeInteger v pre n (small, 0) = Err STATUS_BUFFER_TOO_SMALL) \<and>
    HpackDecodeInteger (integer_text pre n (unat v) @ rest) n = Ok (v, length (integer_text pre n (unat v)))"
  using bounded_store_run [OF HpackEncodeInteger_text [OF assms(1,2)] stored_start, of pre v dest] assms(3)
    bounded_store_full [OF HpackEncodeInteger_text [OF assms(1,2)] stored_start, of _ pre v]
    HpackDecodeInteger_text [OF assms(1,2), of pre v rest]
  by (auto simp: stored_def)

theorem hpack_integer_roundtrip_witness:
  "HpackEncodeInteger 1337 0x20 5 ([0, 0, 0, 0], 0) = Ok ([0x3f, 0x9a, 0x0a, 0], 3) \<and>
   HpackDecodeInteger [0x3f, 0x9a, 0x0a, 7] 5 = Ok (1337, 3)"
proof -
  have "(0x20 AND NOT (max_prefix 5)) OR max_prefix 5 = 0x3f" by code_simp
  then have t: "integer_text 0x20 5 (unat (1337 :: ULONG)) = [0x3f, 0x9a, 0x0a]"
    by (simp add: integer_text_def varint_big varint_small)
  show ?thesis
    using hpack_integer_roundtrip [of 5 "0x20" 1337 "[0, 0, 0, 0]" "[7]"] unfolding t by (simp add: overlay_def)
qed

text \<open>An accepted prefix integer lies in the buffer, takes at most six bytes, and its value is
  the prefix plus the chunks of seven bits, computed without overflow; no input makes the decoder
  read past the end.\<close>

theorem HpackDecodeInteger_bounds:
  "HpackDecodeInteger src n \<noteq> Fault \<and>
   (\<forall>v k. HpackDecodeInteger src n = Ok (v, k) \<longrightarrow>
      1 \<le> k \<and> k \<le> length src \<and> k \<le> 6 \<and>
      unat v = unat (hd src AND max_prefix n) + chunks_value (take (k - 1) (drop 1 src)))"
  using HpackDecodeInteger_no_fault HpackDecodeInteger_sound by blast

theorem HpackDecodeInteger_bounds_witness:
  "HpackDecodeInteger [0x1f, 0x9a, 0x0a] 5 = Ok (1337, 3) \<and>
   unat (1337 :: ULONG) = unat ((0x1f :: UCHAR) AND max_prefix 5) + chunks_value [0x9a, 0x0a]"
proof -
  have ok: "HpackDecodeInteger [0x1f, 0x9a, 0x0a] 5 = Ok (1337, 3)"
    using HpackDecodeInteger_text [of 5 0 "1337 :: ULONG" "[]"]
    by (simp add: integer_text_def varint_big varint_small max_prefix_def)
  then show ?thesis using HpackDecodeInteger_bounds [of "[0x1f, 0x9a, 0x0a]" 5] by auto
qed

end
