(* ===== verification/Kh_HpackHuffman.thy ===== *)
theory Kh_HpackHuffman
  imports Kh_HpackPrimitives
begin

text \<open>
  The Huffman code of HPACK: the tables of \<^verbatim>\<open>http2/HpackHuffman.h\<close> and \<^verbatim>\<open>http2/Hpack.cpp\<close>, the encoder
  and the bit-by-bit decoder.

  The decoder finds a symbol by searching the symbols of the current code length. That this is
  unambiguous rests on the code being prefix-free, which is proved from the table: listed in the
  order of \<open>HpackHuffmanSymbolsByLength\<close> and aligned to the left in 30 bits, the codes tile the
  interval from 0 to \<open>2\<^sup>3\<^sup>0\<close> without a gap or an overlap.
\<close>

unbundle bit_operations_syntax

section \<open>Tables\<close>

text \<open>Each entry is a code, right-aligned, and its number of bits.\<close>

definition HpackHuffmanEncodeTable :: "(ULONG \<times> nat) list" where
  "HpackHuffmanEncodeTable =
     [
      (0x1ff8, 13), (0x7fffd8, 23), (0xfffffe2, 28), (0xfffffe3, 28), (0xfffffe4, 28),
      (0xfffffe5, 28), (0xfffffe6, 28), (0xfffffe7, 28), (0xfffffe8, 28), (0xffffea, 24),
      (0x3ffffffc, 30), (0xfffffe9, 28), (0xfffffea, 28), (0x3ffffffd, 30), (0xfffffeb, 28),
      (0xfffffec, 28), (0xfffffed, 28), (0xfffffee, 28), (0xfffffef, 28), (0xffffff0, 28),
      (0xffffff1, 28), (0xffffff2, 28), (0x3ffffffe, 30), (0xffffff3, 28), (0xffffff4, 28),
      (0xffffff5, 28), (0xffffff6, 28), (0xffffff7, 28), (0xffffff8, 28), (0xffffff9, 28),
      (0xffffffa, 28), (0xffffffb, 28), (0x14, 6), (0x3f8, 10), (0x3f9, 10), (0xffa, 12),
      (0x1ff9, 13), (0x15, 6), (0xf8, 8), (0x7fa, 11), (0x3fa, 10), (0x3fb, 10), (0xf9, 8),
      (0x7fb, 11), (0xfa, 8), (0x16, 6), (0x17, 6), (0x18, 6), (0x0, 5), (0x1, 5), (0x2, 5),
      (0x19, 6), (0x1a, 6), (0x1b, 6), (0x1c, 6), (0x1d, 6), (0x1e, 6), (0x1f, 6), (0x5c, 7),
      (0xfb, 8), (0x7ffc, 15), (0x20, 6), (0xffb, 12), (0x3fc, 10), (0x1ffa, 13), (0x21, 6),
      (0x5d, 7), (0x5e, 7), (0x5f, 7), (0x60, 7), (0x61, 7), (0x62, 7), (0x63, 7), (0x64, 7),
      (0x65, 7), (0x66, 7), (0x67, 7), (0x68, 7), (0x69, 7), (0x6a, 7), (0x6b, 7), (0x6c, 7),
      (0x6d, 7), (0x6e, 7), (0x6f, 7), (0x70, 7), (0x71, 7), (0x72, 7), (0xfc, 8), (0x73, 7),
      (0xfd, 8), (0x1ffb, 13), (0x7fff0, 19), (0x1ffc, 13), (0x3ffc, 14), (0x22, 6),
      (0x7ffd, 15), (0x3, 5), (0x23, 6), (0x4, 5), (0x24, 6), (0x5, 5), (0x25, 6), (0x26, 6),
      (0x27, 6), (0x6, 5), (0x74, 7), (0x75, 7), (0x28, 6), (0x29, 6), (0x2a, 6), (0x7, 5),
      (0x2b, 6), (0x76, 7), (0x2c, 6), (0x8, 5), (0x9, 5), (0x2d, 6), (0x77, 7), (0x78, 7),
      (0x79, 7), (0x7a, 7), (0x7b, 7), (0x7ffe, 15), (0x7fc, 11), (0x3ffd, 14), (0x1ffd, 13),
      (0xffffffc, 28), (0xfffe6, 20), (0x3fffd2, 22), (0xfffe7, 20), (0xfffe8, 20),
      (0x3fffd3, 22), (0x3fffd4, 22), (0x3fffd5, 22), (0x7fffd9, 23), (0x3fffd6, 22),
      (0x7fffda, 23), (0x7fffdb, 23), (0x7fffdc, 23), (0x7fffdd, 23), (0x7fffde, 23),
      (0xffffeb, 24), (0x7fffdf, 23), (0xffffec, 24), (0xffffed, 24), (0x3fffd7, 22),
      (0x7fffe0, 23), (0xffffee, 24), (0x7fffe1, 23), (0x7fffe2, 23), (0x7fffe3, 23),
      (0x7fffe4, 23), (0x1fffdc, 21), (0x3fffd8, 22), (0x7fffe5, 23), (0x3fffd9, 22),
      (0x7fffe6, 23), (0x7fffe7, 23), (0xffffef, 24), (0x3fffda, 22), (0x1fffdd, 21),
      (0xfffe9, 20), (0x3fffdb, 22), (0x3fffdc, 22), (0x7fffe8, 23), (0x7fffe9, 23),
      (0x1fffde, 21), (0x7fffea, 23), (0x3fffdd, 22), (0x3fffde, 22), (0xfffff0, 24),
      (0x1fffdf, 21), (0x3fffdf, 22), (0x7fffeb, 23), (0x7fffec, 23), (0x1fffe0, 21),
      (0x1fffe1, 21), (0x3fffe0, 22), (0x1fffe2, 21), (0x7fffed, 23), (0x3fffe1, 22),
      (0x7fffee, 23), (0x7fffef, 23), (0xfffea, 20), (0x3fffe2, 22), (0x3fffe3, 22),
      (0x3fffe4, 22), (0x7ffff0, 23), (0x3fffe5, 22), (0x3fffe6, 22), (0x7ffff1, 23),
      (0x3ffffe0, 26), (0x3ffffe1, 26), (0xfffeb, 20), (0x7fff1, 19), (0x3fffe7, 22),
      (0x7ffff2, 23), (0x3fffe8, 22), (0x1ffffec, 25), (0x3ffffe2, 26), (0x3ffffe3, 26),
      (0x3ffffe4, 26), (0x7ffffde, 27), (0x7ffffdf, 27), (0x3ffffe5, 26), (0xfffff1, 24),
      (0x1ffffed, 25), (0x7fff2, 19), (0x1fffe3, 21), (0x3ffffe6, 26), (0x7ffffe0, 27),
      (0x7ffffe1, 27), (0x3ffffe7, 26), (0x7ffffe2, 27), (0xfffff2, 24), (0x1fffe4, 21),
      (0x1fffe5, 21), (0x3ffffe8, 26), (0x3ffffe9, 26), (0xffffffd, 28), (0x7ffffe3, 27),
      (0x7ffffe4, 27), (0x7ffffe5, 27), (0xfffec, 20), (0xfffff3, 24), (0xfffed, 20),
      (0x1fffe6, 21), (0x3fffe9, 22), (0x1fffe7, 21), (0x1fffe8, 21), (0x7ffff3, 23),
      (0x3fffea, 22), (0x3fffeb, 22), (0x1ffffee, 25), (0x1ffffef, 25), (0xfffff4, 24),
      (0xfffff5, 24), (0x3ffffea, 26), (0x7ffff4, 23), (0x3ffffeb, 26), (0x7ffffe6, 27),
      (0x3ffffec, 26), (0x3ffffed, 26), (0x7ffffe7, 27), (0x7ffffe8, 27), (0x7ffffe9, 27),
      (0x7ffffea, 27), (0x7ffffeb, 27), (0xffffffe, 28), (0x7ffffec, 27), (0x7ffffed, 27),
      (0x7ffffee, 27), (0x7ffffef, 27), (0x7fffff0, 27), (0x3ffffee, 26), (0x3fffffff, 30)
     ]"

definition HpackHuffmanSymbolsByLength :: "nat list" where
  "HpackHuffmanSymbolsByLength =
     [
      48, 49, 50, 97, 99, 101, 105, 111, 115, 116, 32, 37, 45, 46, 47, 51, 52, 53, 54, 55, 56,
      57, 61, 65, 95, 98, 100, 102, 103, 104, 108, 109, 110, 112, 114, 117, 58, 66, 67, 68, 69,
      70, 71, 72, 73, 74, 75, 76, 77, 78, 79, 80, 81, 82, 83, 84, 85, 86, 87, 89, 106, 107,
      113, 118, 119, 120, 121, 122, 38, 42, 44, 59, 88, 90, 33, 34, 40, 41, 63, 39, 43, 124,
      35, 62, 0, 36, 64, 91, 93, 126, 94, 125, 60, 96, 123, 92, 195, 208, 128, 130, 131, 162,
      184, 194, 224, 226, 153, 161, 167, 172, 176, 177, 179, 209, 216, 217, 227, 229, 230, 129,
      132, 133, 134, 136, 146, 154, 156, 160, 163, 164, 169, 170, 173, 178, 181, 185, 186, 187,
      189, 190, 196, 198, 228, 232, 233, 1, 135, 137, 138, 139, 140, 141, 143, 147, 149, 150,
      151, 152, 155, 157, 158, 165, 166, 168, 174, 175, 180, 182, 183, 188, 191, 197, 231, 239,
      9, 142, 144, 145, 148, 159, 171, 206, 215, 225, 236, 237, 199, 207, 234, 235, 192, 193,
      200, 201, 202, 205, 210, 213, 218, 219, 238, 240, 242, 243, 255, 203, 204, 211, 212, 214,
      221, 222, 223, 241, 244, 245, 246, 247, 248, 250, 251, 252, 253, 254, 2, 3, 4, 5, 6, 7,
      8, 11, 12, 14, 15, 16, 17, 18, 19, 20, 21, 23, 24, 25, 26, 27, 28, 29, 30, 31, 127, 220,
      249, 10, 13, 22, 256
     ]"

definition HpackHuffmanLengthOffsets :: "nat list" where
  "HpackHuffmanLengthOffsets =
     [
      0, 0, 0, 0, 0, 0, 10, 36, 68, 74, 74, 79, 82, 84, 90, 92, 95, 95, 95, 95, 98, 106, 119,
      145, 174, 186, 190, 205, 224, 253, 253, 257
     ]"

definition HpackHuffmanLengthCounts :: "nat list" where
  "HpackHuffmanLengthCounts =
     [
      0, 0, 0, 0, 0, 10, 26, 32, 6, 0, 5, 3, 2, 6, 2, 3, 0, 0, 0, 3, 8, 13, 26, 29, 12, 4, 15,
      19, 29, 0, 4, 0
     ]"

section \<open>Encoder and decoder\<close>

text \<open>The search loop of \<open>FindHuffmanSymbol\<close>, over the \<open>n\<close> candidates from index \<open>i\<close> on.\<close>

fun find_symbol_loop :: "ULONG \<Rightarrow> nat \<Rightarrow> nat \<Rightarrow> nat option res" where
  "find_symbol_loop code i 0 = Ok None"
| "find_symbol_loop code i (Suc n) =
     rbind (rd HpackHuffmanSymbolsByLength i) (\<lambda>candidate.
     rbind (rd HpackHuffmanEncodeTable candidate) (\<lambda>entry.
       if fst entry = code then Ok (Some candidate) else find_symbol_loop code (i + 1) n))"

definition FindHuffmanSymbol :: "ULONG \<Rightarrow> nat \<Rightarrow> nat option res" where
  "FindHuffmanSymbol code bitLength =
     (if bitLength \<ge> 32 then Ok None
      else
        rbind (rd HpackHuffmanLengthOffsets bitLength) (\<lambda>offset.
        rbind (rd HpackHuffmanLengthCounts bitLength) (\<lambda>count.
          find_symbol_loop code offset count)))"

definition symbol :: "UCHAR \<Rightarrow> (ULONG \<times> nat) res" where
  "symbol c = rd HpackHuffmanEncodeTable (unat c)"

fun encoded_bits_loop :: "bytes \<Rightarrow> nat \<Rightarrow> nat res" where
  "encoded_bits_loop [] totalBits = Ok totalBits"
| "encoded_bits_loop (c # cs) totalBits =
     rbind (symbol c) (\<lambda>sym. encoded_bits_loop cs (totalBits + snd sym))"

definition HpackHuffmanEncodedLength :: "UCHAR span \<Rightarrow> nat res" where
  "HpackHuffmanEncodedLength src =
     (if span_null src \<or> span_len src = 0 then Ok 0
      else rbind (encoded_bits_loop (span_list src) 0) (\<lambda>totalBits. Ok ((totalBits + 7) div 8)))"

text \<open>The encoder keeps the byte under construction, its number of bits and the output cursor.\<close>

record huffman_out =
  currentByte :: UCHAR
  bitCount :: nat
  out :: writer

definition emit_bit :: "bool \<Rightarrow> huffman_out \<Rightarrow> huffman_out res" where
  "emit_bit b h =
     (let byte = push_bit 1 (currentByte h) OR of_bool b;
          count = bitCount h + 1
      in
      if count = 8 then
        if snd (out h) \<ge> length (fst (out h)) then Err STATUS_BUFFER_TOO_SMALL
        else rbind (put_byte byte (out h)) (\<lambda>w. Ok \<lparr>currentByte = 0, bitCount = 0, out = w\<rparr>)
      else Ok (h\<lparr>currentByte := byte, bitCount := count\<rparr>))"

text \<open>The loop over the bits of a code, most significant first; \<open>n\<close> bits are left.\<close>

fun emit_code :: "ULONG \<Rightarrow> nat \<Rightarrow> huffman_out \<Rightarrow> huffman_out res" where
  "emit_code code 0 h = Ok h"
| "emit_code code (Suc n) h =
     rbind (emit_bit (drop_bit n code AND 0x01 \<noteq> 0) h) (emit_code code n)"

fun emit_symbols :: "bytes \<Rightarrow> huffman_out \<Rightarrow> huffman_out res" where
  "emit_symbols [] h = Ok h"
| "emit_symbols (c # cs) h =
     rbind (symbol c) (\<lambda>sym. rbind (emit_code (fst sym) (snd sym) h) (emit_symbols cs))"

definition HpackHuffmanEncode :: "UCHAR span \<Rightarrow> writer \<Rightarrow> writer res" where
  "HpackHuffmanEncode src w =
     (if span_null src \<and> span_len src > 0 then Err STATUS_INVALID_PARAMETER
      else if span_len src = 0 then Ok w
      else
        rbind (emit_symbols (span_list src) \<lparr>currentByte = 0, bitCount = 0, out = w\<rparr>) (\<lambda>h.
          if bitCount h > 0 then
            if snd (out h) \<ge> length (fst (out h)) then Err STATUS_BUFFER_TOO_SMALL
            else put_byte (push_bit (8 - bitCount h) (currentByte h) OR
                   ucast (push_bit (8 - bitCount h) (1 :: ULONG) - 1)) (out h)
          else Ok (out h)))"

text \<open>The decoder keeps the bits of the code read so far and the output cursor.\<close>

record huffman_in =
  currentCode :: ULONG
  currentBitLen :: nat
  decoded :: writer

definition decode_bit :: "bool \<Rightarrow> huffman_in \<Rightarrow> huffman_in res" where
  "decode_bit b h =
     (let code = push_bit 1 (currentCode h) OR of_bool b;
          len = currentBitLen h + 1
      in
      if len > 30 then Err STATUS_INVALID_NETWORK_RESPONSE
      else rbind (FindHuffmanSymbol code len) (\<lambda>found.
        case found of
          None \<Rightarrow> Ok (h\<lparr>currentCode := code, currentBitLen := len\<rparr>)
        | Some s \<Rightarrow>
            if s = 256 then Err STATUS_INVALID_NETWORK_RESPONSE
            else if snd (decoded h) \<ge> length (fst (decoded h)) then Err STATUS_BUFFER_TOO_SMALL
            else rbind (put_byte (word_of_nat s) (decoded h)) (\<lambda>w.
                   Ok \<lparr>currentCode = 0, currentBitLen = 0, decoded = w\<rparr>)))"

fun decode_byte :: "UCHAR \<Rightarrow> nat \<Rightarrow> huffman_in \<Rightarrow> huffman_in res" where
  "decode_byte byte 0 h = Ok h"
| "decode_byte byte (Suc n) h = rbind (decode_bit (drop_bit n byte AND 1 \<noteq> 0) h) (decode_byte byte n)"

fun decode_bytes :: "bytes \<Rightarrow> huffman_in \<Rightarrow> huffman_in res" where
  "decode_bytes [] h = Ok h"
| "decode_bytes (b # bs) h = rbind (decode_byte b 8 h) (decode_bytes bs)"

definition HpackHuffmanDecode :: "UCHAR span \<Rightarrow> writer \<Rightarrow> writer res" where
  "HpackHuffmanDecode src w =
     (if span_null src \<and> span_len src > 0 then Err STATUS_INVALID_PARAMETER
      else if span_len src = 0 then Ok w
      else
        rbind (decode_bytes (span_list src) \<lparr>currentCode = 0, currentBitLen = 0, decoded = w\<rparr>) (\<lambda>h.
          if currentBitLen h > 7 then Err STATUS_INVALID_NETWORK_RESPONSE
          else if currentBitLen h > 0 \<and>
                  currentCode h AND (push_bit (currentBitLen h) 1 - 1) \<noteq> push_bit (currentBitLen h) 1 - 1
          then Err STATUS_INVALID_NETWORK_RESPONSE
          else Ok (decoded h)))"

section \<open>The code as bit strings\<close>

text \<open>The codes in the order of \<open>HpackHuffmanSymbolsByLength\<close>.\<close>

definition canonical_codes :: "(ULONG \<times> nat) list" where
  "canonical_codes =
     [
      (0x0, 5), (0x1, 5), (0x2, 5), (0x3, 5), (0x4, 5), (0x5, 5), (0x6, 5), (0x7, 5), (0x8, 5),
      (0x9, 5), (0x14, 6), (0x15, 6), (0x16, 6), (0x17, 6), (0x18, 6), (0x19, 6), (0x1a, 6),
      (0x1b, 6), (0x1c, 6), (0x1d, 6), (0x1e, 6), (0x1f, 6), (0x20, 6), (0x21, 6), (0x22, 6),
      (0x23, 6), (0x24, 6), (0x25, 6), (0x26, 6), (0x27, 6), (0x28, 6), (0x29, 6), (0x2a, 6),
      (0x2b, 6), (0x2c, 6), (0x2d, 6), (0x5c, 7), (0x5d, 7), (0x5e, 7), (0x5f, 7), (0x60, 7),
      (0x61, 7), (0x62, 7), (0x63, 7), (0x64, 7), (0x65, 7), (0x66, 7), (0x67, 7), (0x68, 7),
      (0x69, 7), (0x6a, 7), (0x6b, 7), (0x6c, 7), (0x6d, 7), (0x6e, 7), (0x6f, 7), (0x70, 7),
      (0x71, 7), (0x72, 7), (0x73, 7), (0x74, 7), (0x75, 7), (0x76, 7), (0x77, 7), (0x78, 7),
      (0x79, 7), (0x7a, 7), (0x7b, 7), (0xf8, 8), (0xf9, 8), (0xfa, 8), (0xfb, 8), (0xfc, 8),
      (0xfd, 8), (0x3f8, 10), (0x3f9, 10), (0x3fa, 10), (0x3fb, 10), (0x3fc, 10), (0x7fa, 11),
      (0x7fb, 11), (0x7fc, 11), (0xffa, 12), (0xffb, 12), (0x1ff8, 13), (0x1ff9, 13),
      (0x1ffa, 13), (0x1ffb, 13), (0x1ffc, 13), (0x1ffd, 13), (0x3ffc, 14), (0x3ffd, 14),
      (0x7ffc, 15), (0x7ffd, 15), (0x7ffe, 15), (0x7fff0, 19), (0x7fff1, 19), (0x7fff2, 19),
      (0xfffe6, 20), (0xfffe7, 20), (0xfffe8, 20), (0xfffe9, 20), (0xfffea, 20), (0xfffeb, 20),
      (0xfffec, 20), (0xfffed, 20), (0x1fffdc, 21), (0x1fffdd, 21), (0x1fffde, 21),
      (0x1fffdf, 21), (0x1fffe0, 21), (0x1fffe1, 21), (0x1fffe2, 21), (0x1fffe3, 21),
      (0x1fffe4, 21), (0x1fffe5, 21), (0x1fffe6, 21), (0x1fffe7, 21), (0x1fffe8, 21),
      (0x3fffd2, 22), (0x3fffd3, 22), (0x3fffd4, 22), (0x3fffd5, 22), (0x3fffd6, 22),
      (0x3fffd7, 22), (0x3fffd8, 22), (0x3fffd9, 22), (0x3fffda, 22), (0x3fffdb, 22),
      (0x3fffdc, 22), (0x3fffdd, 22), (0x3fffde, 22), (0x3fffdf, 22), (0x3fffe0, 22),
      (0x3fffe1, 22), (0x3fffe2, 22), (0x3fffe3, 22), (0x3fffe4, 22), (0x3fffe5, 22),
      (0x3fffe6, 22), (0x3fffe7, 22), (0x3fffe8, 22), (0x3fffe9, 22), (0x3fffea, 22),
      (0x3fffeb, 22), (0x7fffd8, 23), (0x7fffd9, 23), (0x7fffda, 23), (0x7fffdb, 23),
      (0x7fffdc, 23), (0x7fffdd, 23), (0x7fffde, 23), (0x7fffdf, 23), (0x7fffe0, 23),
      (0x7fffe1, 23), (0x7fffe2, 23), (0x7fffe3, 23), (0x7fffe4, 23), (0x7fffe5, 23),
      (0x7fffe6, 23), (0x7fffe7, 23), (0x7fffe8, 23), (0x7fffe9, 23), (0x7fffea, 23),
      (0x7fffeb, 23), (0x7fffec, 23), (0x7fffed, 23), (0x7fffee, 23), (0x7fffef, 23),
      (0x7ffff0, 23), (0x7ffff1, 23), (0x7ffff2, 23), (0x7ffff3, 23), (0x7ffff4, 23),
      (0xffffea, 24), (0xffffeb, 24), (0xffffec, 24), (0xffffed, 24), (0xffffee, 24),
      (0xffffef, 24), (0xfffff0, 24), (0xfffff1, 24), (0xfffff2, 24), (0xfffff3, 24),
      (0xfffff4, 24), (0xfffff5, 24), (0x1ffffec, 25), (0x1ffffed, 25), (0x1ffffee, 25),
      (0x1ffffef, 25), (0x3ffffe0, 26), (0x3ffffe1, 26), (0x3ffffe2, 26), (0x3ffffe3, 26),
      (0x3ffffe4, 26), (0x3ffffe5, 26), (0x3ffffe6, 26), (0x3ffffe7, 26), (0x3ffffe8, 26),
      (0x3ffffe9, 26), (0x3ffffea, 26), (0x3ffffeb, 26), (0x3ffffec, 26), (0x3ffffed, 26),
      (0x3ffffee, 26), (0x7ffffde, 27), (0x7ffffdf, 27), (0x7ffffe0, 27), (0x7ffffe1, 27),
      (0x7ffffe2, 27), (0x7ffffe3, 27), (0x7ffffe4, 27), (0x7ffffe5, 27), (0x7ffffe6, 27),
      (0x7ffffe7, 27), (0x7ffffe8, 27), (0x7ffffe9, 27), (0x7ffffea, 27), (0x7ffffeb, 27),
      (0x7ffffec, 27), (0x7ffffed, 27), (0x7ffffee, 27), (0x7ffffef, 27), (0x7fffff0, 27),
      (0xfffffe2, 28), (0xfffffe3, 28), (0xfffffe4, 28), (0xfffffe5, 28), (0xfffffe6, 28),
      (0xfffffe7, 28), (0xfffffe8, 28), (0xfffffe9, 28), (0xfffffea, 28), (0xfffffeb, 28),
      (0xfffffec, 28), (0xfffffed, 28), (0xfffffee, 28), (0xfffffef, 28), (0xffffff0, 28),
      (0xffffff1, 28), (0xffffff2, 28), (0xffffff3, 28), (0xffffff4, 28), (0xffffff5, 28),
      (0xffffff6, 28), (0xffffff7, 28), (0xffffff8, 28), (0xffffff9, 28), (0xffffffa, 28),
      (0xffffffb, 28), (0xffffffc, 28), (0xffffffd, 28), (0xffffffe, 28), (0x3ffffffc, 30),
      (0x3ffffffd, 30), (0x3ffffffe, 30), (0x3fffffff, 30)
     ]"

lemma canonical_codes_eq: "map ((!) HpackHuffmanEncodeTable) HpackHuffmanSymbolsByLength = canonical_codes"
  unfolding HpackHuffmanSymbolsByLength_def canonical_codes_def HpackHuffmanEncodeTable_def
  by simp

text \<open>A bit string has its most significant bit first.\<close>

definition bits_val :: "bool list \<Rightarrow> nat" where
  "bits_val = foldl (\<lambda>v b. 2 * v + of_bool b) 0"

definition code_bits :: "'a::len word \<Rightarrow> nat \<Rightarrow> bool list" where
  "code_bits c l = map (bit c) (rev [0..<l])"

fun tiled :: "nat \<Rightarrow> (ULONG \<times> nat) list \<Rightarrow> bool" where
  "tiled a [] \<longleftrightarrow> a = 2 ^ 30"
| "tiled a (cl # cls) \<longleftrightarrow>
     5 \<le> snd cl \<and> snd cl \<le> 30 \<and> unat (fst cl) * 2 ^ (30 - snd cl) = a \<and> tiled (a + 2 ^ (30 - snd cl)) cls"

lemma canonical_codes_tiled: "tiled 0 canonical_codes"
  unfolding canonical_codes_def by simp

definition canonical_lengths :: "nat list" where
  "canonical_lengths = replicate 10 5 @ replicate 26 6 @ replicate 32 7 @ replicate 6 8 @ replicate 5 10 @
     replicate 3 11 @ replicate 2 12 @ replicate 6 13 @ replicate 2 14 @ replicate 3 15 @ replicate 3 19 @
     replicate 8 20 @ replicate 13 21 @ replicate 26 22 @ replicate 29 23 @ replicate 12 24 @ replicate 4 25 @
     replicate 15 26 @ replicate 19 27 @ replicate 29 28 @ replicate 4 30"

lemma canonical_lengths_eq: "map snd canonical_codes = canonical_lengths"
  unfolding canonical_codes_def canonical_lengths_def by (simp add: numeral_eq_Suc)

lemma positions_in_bucket:
  "list_all (\<lambda>p. HpackHuffmanLengthOffsets ! (canonical_lengths ! p) \<le> p \<and>
     p < HpackHuffmanLengthOffsets ! (canonical_lengths ! p) + HpackHuffmanLengthCounts ! (canonical_lengths ! p))
   [0..<257]"
  by code_simp

lemma buckets_have_length:
  "list_all (\<lambda>l. HpackHuffmanLengthOffsets ! l + HpackHuffmanLengthCounts ! l \<le> 257 \<and>
     list_all (\<lambda>n. n = l) (take (HpackHuffmanLengthCounts ! l) (drop (HpackHuffmanLengthOffsets ! l) canonical_lengths)))
   [0..<32]"
  by code_simp

lemma table_lengths:
  "length HpackHuffmanEncodeTable = 257" "length HpackHuffmanSymbolsByLength = 257"
  "length HpackHuffmanLengthOffsets = 32" "length HpackHuffmanLengthCounts = 32"
  by (simp_all add: HpackHuffmanEncodeTable_def HpackHuffmanSymbolsByLength_def
      HpackHuffmanLengthOffsets_def HpackHuffmanLengthCounts_def)

lemma symbols_in_range: "list_all (\<lambda>s. s < 257) HpackHuffmanSymbolsByLength"
  by (simp add: HpackHuffmanSymbolsByLength_def)

section \<open>Bit strings\<close>

lemma foldl_bits: "foldl (\<lambda>v b. 2 * v + of_bool b) a bs = a * 2 ^ length bs + bits_val bs"
proof (induction bs arbitrary: a)
  case (Cons b bs)
  have "bits_val (b # bs) = of_bool b * 2 ^ length bs + bits_val bs"
    using Cons.IH [of "of_bool b"] by (simp add: bits_val_def)
  then show ?case using Cons.IH [of "2 * a + of_bool b"] by (simp add: algebra_simps)
qed (simp add: bits_val_def)

lemma bits_val_append: "bits_val (as @ bs) = bits_val as * 2 ^ length bs + bits_val bs"
  using foldl_bits [of "bits_val as" bs] by (simp add: bits_val_def)

lemma bits_val_simps [simp]: "bits_val [] = 0" "bits_val (bs @ [b]) = 2 * bits_val bs + of_bool b"
  by (simp_all add: bits_val_def)

lemma bits_val_Cons: "bits_val (b # bs) = of_bool b * 2 ^ length bs + bits_val bs"
  using bits_val_append [of "[b]" bs] by (simp add: bits_val_def)

lemma bits_val_less: "bits_val bs < 2 ^ length bs"
  by (induction bs rule: rev_induct) auto

lemma bits_val_inj: "length as = length bs \<Longrightarrow> bits_val as = bits_val bs \<Longrightarrow> as = bs"
proof (induction as arbitrary: bs rule: rev_induct)
  case (snoc a as)
  then obtain b bs' where bs: "bs = bs' @ [b]" by (metis length_0_conv rev_exhaust length_append_singleton nat.distinct(1))
  then have "2 * bits_val as + of_bool a = 2 * bits_val bs' + of_bool b" using snoc.prems by simp
  then have "bits_val as = bits_val bs' \<and> a = b" by (cases a; cases b; simp; presburger)
  then show ?case using snoc bs by simp
qed simp

lemma length_code_bits [simp]: "length (code_bits c l) = l"
  by (simp add: code_bits_def)

lemma code_bits_Suc: "code_bits c (Suc n) = bit c n # code_bits c n"
  by (simp add: code_bits_def)

lemma take_bit_Suc_top: "take_bit (Suc n) (k :: nat) = of_bool (bit k n) * 2 ^ n + take_bit n k"
proof -
  have "k mod 2 ^ Suc n = k div 2 ^ n mod 2 * 2 ^ n + k mod 2 ^ n"
    using mod_mult2_eq [of k "2 ^ n" 2] by (simp add: mult.commute)
  moreover have "k div 2 ^ n mod 2 = of_bool (bit k n)" by (simp add: bit_iff_odd mod_2_eq_odd)
  ultimately show ?thesis by (simp add: take_bit_eq_mod)
qed

lemma bits_val_code_bits: "bits_val (code_bits c l) = take_bit l (unat c)"
proof (induction l)
  case (Suc l)
  have "bit c l = bit (unat c) l" by (simp add: bit_unsigned_iff bit_imp_le_length)
  then show ?case using Suc by (simp add: code_bits_Suc bits_val_Cons take_bit_Suc_top)
qed (simp add: code_bits_def)

lemma bit_as_and: "drop_bit n c AND 1 \<noteq> 0 \<longleftrightarrow> bit (c :: 'a::len word) n"
  by (simp add: and_one_eq bit_iff_odd_drop_bit mod_2_eq_odd)

section \<open>The code is prefix-free\<close>

abbreviation canonical_bits :: "nat \<Rightarrow> bool list" where
  "canonical_bits p \<equiv> code_bits (fst (canonical_codes ! p)) (snd (canonical_codes ! p))"

lemma tiled_nth:
  assumes "tiled a cls" "p < length cls"
  shows "5 \<le> snd (cls ! p) \<and> snd (cls ! p) \<le> 30 \<and> a \<le> unat (fst (cls ! p)) * 2 ^ (30 - snd (cls ! p)) \<and>
    unat (fst (cls ! p)) * 2 ^ (30 - snd (cls ! p)) + 2 ^ (30 - snd (cls ! p)) \<le> 2 ^ 30 \<and>
    (\<forall>q. p < q \<and> q < length cls \<longrightarrow>
       unat (fst (cls ! p)) * 2 ^ (30 - snd (cls ! p)) + 2 ^ (30 - snd (cls ! p))
         \<le> unat (fst (cls ! q)) * 2 ^ (30 - snd (cls ! q)))"
  using assms
proof (induction cls arbitrary: a p)
  case (Cons cl cls)
  have t: "tiled (a + 2 ^ (30 - snd cl)) cls" "unat (fst cl) * 2 ^ (30 - snd cl) = a" "5 \<le> snd cl" "snd cl \<le> 30"
    using Cons.prems by auto
  have le: "a' \<le> 2 ^ 30" if "tiled a' cls'" for a' and cls' :: "(ULONG \<times> nat) list"
    using that by (induction a' cls' rule: tiled.induct) auto
  show ?case
  proof (cases p)
    case 0
    have "a + 2 ^ (30 - snd cl) \<le> unat (fst (cls ! q)) * 2 ^ (30 - snd (cls ! q))" if "q < length cls" for q
      using Cons.IH [OF t(1) that] by blast
    then show ?thesis using 0 t le [OF t(1)] by (auto simp: less_Suc_eq_0_disj)
  next
    case (Suc p')
    then have "p' < length cls" using Cons.prems by simp
    from Cons.IH [OF t(1) this] show ?thesis using Suc by (auto simp: less_Suc_eq_0_disj)
  qed
qed simp

lemma length_canonical: "length canonical_codes = 257"
  using arg_cong [OF canonical_codes_eq, of length] by (simp add: table_lengths)

lemmas canonical_nth = tiled_nth [OF canonical_codes_tiled, unfolded length_canonical]

lemma canonical_val:
  assumes "p < 257"
  shows "bits_val (canonical_bits p) = unat (fst (canonical_codes ! p))"
proof -
  let ?c = "unat (fst (canonical_codes ! p))" and ?l = "snd (canonical_codes ! p)"
  have h: "?c * 2 ^ (30 - ?l) + 2 ^ (30 - ?l) \<le> 2 ^ 30" "?l \<le> 30" using canonical_nth [OF assms] by auto
  have "(0 :: nat) < 2 ^ (30 - ?l)" by simp
  then have "?c * 2 ^ (30 - ?l) < 2 ^ 30" using h(1) by linarith
  also have "(2 :: nat) ^ 30 = 2 ^ ?l * 2 ^ (30 - ?l)"
    using power_add [of "2 :: nat" ?l "30 - ?l"] h(2) by (simp only: le_add_diff_inverse)
  finally have "?c * 2 ^ (30 - ?l) < 2 ^ ?l * 2 ^ (30 - ?l)" .
  then have "?c < 2 ^ ?l" by simp
  then show ?thesis by (simp add: bits_val_code_bits take_bit_nat_eq_self)
qed

lemma prefix_interval:
  assumes "prefix as bs" "length bs \<le> n"
  shows "bits_val as * 2 ^ (n - length as) \<le> bits_val bs * 2 ^ (n - length bs) \<and>
    bits_val bs * 2 ^ (n - length bs) < bits_val as * 2 ^ (n - length as) + 2 ^ (n - length as)"
proof -
  obtain cs where bs: "bs = as @ cs" using assms(1) by (auto simp: prefix_def)
  let ?k = "n - length bs"
  have e: "(2 :: nat) ^ (n - length as) = 2 ^ length cs * 2 ^ ?k"
    using assms(2) bs by (simp flip: power_add)
  have "bits_val cs + 1 \<le> 2 ^ length cs" using bits_val_less [of cs] by simp
  then have "(bits_val cs + 1) * 2 ^ ?k \<le> 2 ^ length cs * 2 ^ ?k" by (rule mult_le_mono1)
  then have "bits_val cs * 2 ^ ?k < 2 ^ length cs * 2 ^ ?k"
    by (meson less_add_one less_le_trans mult_less_cancel2 zero_less_numeral zero_less_power)
  then show ?thesis unfolding e bs bits_val_append by (simp add: algebra_simps)
qed

lemma canonical_prefix_free:
  assumes "p < 257" "q < 257" "prefix (canonical_bits p) (canonical_bits q)"
  shows "p = q"
proof (rule ccontr)
  let ?a = "\<lambda>p. unat (fst (canonical_codes ! p)) * 2 ^ (30 - snd (canonical_codes ! p))"
  let ?w = "\<lambda>p. 2 ^ (30 - snd (canonical_codes ! p)) :: nat"
  have "snd (canonical_codes ! q) \<le> 30" using canonical_nth [OF assms(2)] by blast
  then have "?a p \<le> ?a q" "?a q < ?a p + ?w p"
    using prefix_interval [OF assms(3), of 30] canonical_val [OF assms(1)] canonical_val [OF assms(2)] by simp_all
  moreover assume "p \<noteq> q"
  ultimately show False
  proof (cases "p < q")
    case True
    then have "?a p + ?w p \<le> ?a q" using canonical_nth [OF assms(1)] assms(2) by blast
    then show False using \<open>?a q < ?a p + ?w p\<close> by simp
  next
    case False
    then have "?a q + ?w q \<le> ?a p" using canonical_nth [OF assms(2)] assms(1) \<open>p \<noteq> q\<close> by (meson linorder_neqE_nat)
    moreover have "0 < ?w q" by simp
    ultimately show False using \<open>?a p \<le> ?a q\<close> by linarith
  qed
qed

section \<open>The search for a symbol\<close>

definition symbol_bits :: "nat \<Rightarrow> bool list" where
  "symbol_bits s = code_bits (fst (HpackHuffmanEncodeTable ! s)) (snd (HpackHuffmanEncodeTable ! s))"

lemma canonical_code_at: "p < 257 \<Longrightarrow> canonical_codes ! p = HpackHuffmanEncodeTable ! (HpackHuffmanSymbolsByLength ! p)"
  by (simp add: canonical_codes_eq [symmetric] table_lengths)

lemma symbol_at_bits: "p < 257 \<Longrightarrow> symbol_bits (HpackHuffmanSymbolsByLength ! p) = canonical_bits p"
  by (simp add: symbol_bits_def canonical_code_at)

lemma symbol_position:
  assumes "s < 257"
  obtains p where "p < 257" "HpackHuffmanSymbolsByLength ! p = s"
proof -
  let ?o = "HpackHuffmanSymbolsByLength"
  have "distinct ?o"
    unfolding distinct_conv_nth table_lengths
    using canonical_prefix_free symbol_at_bits by (metis prefix_order.refl)
  moreover have "set ?o \<subseteq> {..<257}" using symbols_in_range by (auto simp: list_all_iff)
  ultimately have "set ?o = {..<257}"
    using distinct_card [of ?o] by (intro card_subset_eq) (simp_all add: table_lengths)
  then have "s \<in> set ?o" using assms by simp
  then show thesis using that by (auto simp: in_set_conv_nth table_lengths)
qed

lemma symbol_prefix_free:
  "s < 257 \<Longrightarrow> t < 257 \<Longrightarrow> prefix (symbol_bits s) (symbol_bits t) \<Longrightarrow> s = t"
  using canonical_prefix_free symbol_at_bits symbol_position by metis

lemma symbol_bits_length: "s < 257 \<Longrightarrow> 5 \<le> length (symbol_bits s) \<and> length (symbol_bits s) \<le> 30"
  using symbol_position [of s] canonical_nth symbol_at_bits by (metis length_code_bits)

lemma find_symbol_loop_find:
  "i + n \<le> 257 \<Longrightarrow>
   find_symbol_loop code i n =
     Ok (map_option ((!) HpackHuffmanSymbolsByLength) (find (\<lambda>p. fst (canonical_codes ! p) = code) [i..<i + n]))"
proof (induction n arbitrary: i)
  case (Suc n)
  have i: "i < 257" using Suc.prems by simp
  have s: "HpackHuffmanSymbolsByLength ! i < 257" using symbols_in_range i by (simp add: list_all_length table_lengths)
  have u: "[i..<i + Suc n] = i # [i + 1..<i + 1 + n]" by (simp add: upt_conv_Cons)
  show ?case unfolding u using Suc.IH [of "i + 1"] Suc.prems i s
    by (simp add: table_lengths canonical_code_at)
qed simp

lemma length_in_range:
  assumes "p < 257"
  shows "snd (canonical_codes ! p) = canonical_lengths ! p"
  using assms by (simp add: canonical_lengths_eq [symmetric] length_canonical)

lemma bucket_positions:
  assumes "l < 32"
  defines "o1 \<equiv> HpackHuffmanLengthOffsets ! l" and "n \<equiv> HpackHuffmanLengthCounts ! l"
  shows "o1 + n \<le> 257" "p < 257 \<Longrightarrow> o1 \<le> p \<and> p < o1 + n \<longleftrightarrow> snd (canonical_codes ! p) = l"
proof -
  have b: "o1 + n \<le> 257" "list_all (\<lambda>k. k = l) (take n (drop o1 canonical_lengths))"
    using buckets_have_length assms(1) by (auto simp: list_all_iff o1_def n_def)
  show "o1 + n \<le> 257" by (rule b(1))
  assume p: "p < 257"
  have len: "length canonical_lengths = 257" by (simp add: canonical_lengths_eq [symmetric] length_canonical)
  show "o1 \<le> p \<and> p < o1 + n \<longleftrightarrow> snd (canonical_codes ! p) = l"
  proof
    assume h: "o1 \<le> p \<and> p < o1 + n"
    then have "p - o1 < n" "o1 + (p - o1) = p" by linarith+
    then have "canonical_lengths ! p = take n (drop o1 canonical_lengths) ! (p - o1)"
      using len b(1) by simp
    moreover have "p - o1 < length (take n (drop o1 canonical_lengths))"
      using \<open>p - o1 < n\<close> len b(1) by simp
    ultimately show "snd (canonical_codes ! p) = l"
      using b(2) p by (simp add: list_all_length length_in_range)
  next
    assume "snd (canonical_codes ! p) = l"
    then have "canonical_lengths ! p = l" using p by (simp add: length_in_range)
    moreover have "HpackHuffmanLengthOffsets ! (canonical_lengths ! p) \<le> p \<and>
       p < HpackHuffmanLengthOffsets ! (canonical_lengths ! p) + HpackHuffmanLengthCounts ! (canonical_lengths ! p)"
      using positions_in_bucket p unfolding list_all_iff by (metis atLeast0LessThan lessThan_iff set_upt)
    ultimately show "o1 \<le> p \<and> p < o1 + n" by (simp add: o1_def n_def)
  qed
qed

definition code_word :: "bool list \<Rightarrow> ULONG" where
  "code_word bs = word_of_nat (bits_val bs)"

lemma unat_code_word: "length bs \<le> 32 \<Longrightarrow> unat (code_word bs) = bits_val bs"
proof -
  assume "length bs \<le> 32"
  then have "(2 :: nat) ^ length bs \<le> 2 ^ 32" by (rule power_increasing) simp
  then have "bits_val bs < 2 ^ 32" using bits_val_less [of bs] by linarith
  then show ?thesis unfolding code_word_def by (rule unat_word_of_nat_32)
qed

lemma find_None_upt: "find P [a..<b] = None \<longleftrightarrow> (\<forall>p. a \<le> p \<and> p < b \<longrightarrow> \<not> P p)"
  by (auto simp: find_None_iff)

lemma find_Some_upt: "find P [a..<b] = Some p \<Longrightarrow> a \<le> p \<and> p < b \<and> P p"
  by (auto simp: find_Some_iff)

lemma code_matches:
  assumes "p < 257" "snd (canonical_codes ! p) = length bs" "length bs \<le> 30"
  shows "fst (canonical_codes ! p) = code_word bs \<longleftrightarrow> canonical_bits p = bs"
proof -
  have "fst (canonical_codes ! p) = code_word bs \<longleftrightarrow> bits_val (canonical_bits p) = bits_val bs"
    using assms canonical_val [OF assms(1)] unat_code_word [of bs] by (simp add: word_unat_eq_iff)
  then show ?thesis using bits_val_inj [of "canonical_bits p" bs] assms(2) by auto
qed

text \<open>The search finds the symbol whose code is the bit string read so far, and only that one.\<close>

lemma FindHuffmanSymbol_bits:
  assumes "length bs \<le> 30"
  shows "s < 257 \<Longrightarrow> symbol_bits s = bs \<Longrightarrow> FindHuffmanSymbol (code_word bs) (length bs) = Ok (Some s)"
    and "(\<And>s. s < 257 \<Longrightarrow> symbol_bits s \<noteq> bs) \<Longrightarrow> FindHuffmanSymbol (code_word bs) (length bs) = Ok None"
proof -
  let ?o = "HpackHuffmanLengthOffsets ! length bs" and ?n = "HpackHuffmanLengthCounts ! length bs"
  let ?P = "\<lambda>p. fst (canonical_codes ! p) = code_word bs"
  have l: "length bs < 32" using assms by simp
  note bucket = bucket_positions [OF l]
  have find: "FindHuffmanSymbol (code_word bs) (length bs) =
      Ok (map_option ((!) HpackHuffmanSymbolsByLength) (find ?P [?o..<?o + ?n]))"
    using l find_symbol_loop_find [OF bucket(1)] by (simp add: FindHuffmanSymbol_def table_lengths)
  have hit: "p < 257 \<and> canonical_bits p = bs" if "find ?P [?o..<?o + ?n] = Some p" for p
  proof -
    have "?o \<le> p \<and> p < ?o + ?n" "?P p" using find_Some_upt [OF that] by auto
    moreover from this have "p < 257" using bucket(1) by simp
    ultimately show ?thesis using code_matches [OF _ _ assms] bucket(2) by auto
  qed
  show "FindHuffmanSymbol (code_word bs) (length bs) = Ok (Some s)" if s: "s < 257" "symbol_bits s = bs"
  proof -
    obtain q where q: "q < 257" "HpackHuffmanSymbolsByLength ! q = s" by (rule symbol_position [OF s(1)])
    then have qb: "canonical_bits q = bs" using s(2) symbol_at_bits by metis
    then have "snd (canonical_codes ! q) = length bs" by (metis length_code_bits)
    then have "?o \<le> q \<and> q < ?o + ?n" "?P q" using bucket(2) [OF q(1)] code_matches [OF q(1) _ assms] qb by auto
    then have "find ?P [?o..<?o + ?n] \<noteq> None" unfolding find_None_upt by blast
    then obtain p where p: "find ?P [?o..<?o + ?n] = Some p" by blast
    then have "p = q" using hit [OF p] qb canonical_prefix_free q(1) by (metis prefix_order.refl)
    then show ?thesis using find p q(2) by simp
  qed
  show "FindHuffmanSymbol (code_word bs) (length bs) = Ok None" if none: "\<And>s. s < 257 \<Longrightarrow> symbol_bits s \<noteq> bs"
  proof -
    have "find ?P [?o..<?o + ?n] = None"
    proof (rule ccontr)
      assume "find ?P [?o..<?o + ?n] \<noteq> None"
      then obtain p where "p < 257" "canonical_bits p = bs" using hit by blast
      moreover have "HpackHuffmanSymbolsByLength ! p < 257"
        using symbols_in_range \<open>p < 257\<close> by (simp add: list_all_length table_lengths)
      ultimately show False using none symbol_at_bits by blast
    qed
    then show ?thesis using find by simp
  qed
qed

section \<open>The encoder writes the padded bit string\<close>

text \<open>The reference: the codes of the symbols one after the other, filled up with ones to whole bytes.\<close>

definition huffman_bits :: "bytes \<Rightarrow> bool list" where
  "huffman_bits src = concat (map (\<lambda>c. symbol_bits (unat c)) src)"

definition padding :: "bool list \<Rightarrow> bool list" where
  "padding bs = replicate ((8 - length bs mod 8) mod 8) True"

function pack :: "bool list \<Rightarrow> bytes" where
  "pack bs = (if length bs < 8 then [] else word_of_nat (bits_val (take 8 bs)) # pack (drop 8 bs))"
  by pat_completeness auto
termination by (relation "measure length") auto

declare pack.simps [simp del]

definition huffman_text :: "bytes \<Rightarrow> bytes" where
  "huffman_text src = pack (huffman_bits src @ padding (huffman_bits src))"

lemma huffman_bits_simps [simp]:
  "huffman_bits [] = []" "huffman_bits (c # cs) = symbol_bits (unat c) @ huffman_bits cs"
  "huffman_bits (as @ bs) = huffman_bits as @ huffman_bits bs"
  by (simp_all add: huffman_bits_def)

lemma length_padded: "8 dvd length (bs @ padding bs)"
proof -
  have up: "(n + (8 - n mod 8) mod 8) mod 8 = 0" for n :: nat
  proof -
    have "n + (8 - n mod 8) = n div 8 * 8 + 8"
      using div_mult_mod_eq [of n 8] mod_less_divisor [of 8 n] by linarith
    then show ?thesis by (simp add: mod_add_right_eq)
  qed
  show ?thesis using up [of "length bs"] by (simp add: padding_def mod_eq_0_iff_dvd)
qed

lemma padding_count:
  assumes "8 dvd n + k" "k \<le> 7"
  shows "k = (8 - n mod 8) mod (8 :: nat)"
proof -
  define m where "m = n mod 8"
  have "(m + k) mod 8 = 0" unfolding m_def using assms(1) by (simp add: mod_add_left_eq mod_eq_0_iff_dvd)
  then obtain q where q: "m + k = 8 * q" by (auto simp: mod_eq_0_iff_dvd)
  have "m < 8" by (simp add: m_def)
  then have "m + k = 0 \<or> m + k = 8" using q assms(2) by presburger
  then show ?thesis unfolding m_def [symmetric] using \<open>m < 8\<close> assms(2) by auto
qed

lemma pack_small [simp]: "length bs < 8 \<Longrightarrow> pack bs = []"
  by (simp add: pack.simps)

lemma pack_byte: "length r = 8 \<Longrightarrow> pack (r @ bs) = word_of_nat (bits_val r) # pack bs"
  by (subst pack.simps) simp

lemma byte_aligned_cases:
  assumes "8 dvd length as" "as \<noteq> []"
  obtains r cs where "as = r @ cs" "length r = 8" "8 dvd length cs"
proof -
  have "8 \<le> length as" using assms by (simp add: dvd_imp_le)
  then show thesis using assms(1) by (intro that [of "take 8 as" "drop 8 as"]) auto
qed

lemma byte_aligned_induct [consumes 1, case_names Nil Byte]:
  assumes "8 dvd length as" "P []"
    and "\<And>r cs. length r = 8 \<Longrightarrow> 8 dvd length cs \<Longrightarrow> P cs \<Longrightarrow> P (r @ cs)"
  shows "P as"
  using assms(1)
proof (induction as rule: length_induct)
  case (1 as)
  show ?case
  proof (cases "as = []")
    case False
    then obtain r cs where c: "as = r @ cs" "length r = 8" "8 dvd length cs"
      using byte_aligned_cases [OF 1(2)] by blast
    then show ?thesis using 1(1) assms(3) by auto
  qed (simp add: assms(2))
qed

lemma pack_append: "8 dvd length as \<Longrightarrow> pack (as @ cs) = pack as @ pack cs"
  by (induction as rule: byte_aligned_induct) (simp_all add: pack_byte)

lemma length_pack: "length (pack bs) = length bs div 8"
proof (induction bs rule: pack.induct)
  case (1 bs)
  then show ?case
  proof (cases "length bs < 8")
    case False
    then show ?thesis using 1 by (subst pack.simps) (simp add: le_div_geq)
  qed simp
qed

text \<open>The loops of the encoder, as one loop over a bit string.\<close>

fun emit_bits :: "bool list \<Rightarrow> huffman_out \<Rightarrow> huffman_out res" where
  "emit_bits [] h = Ok h"
| "emit_bits (b # bs) h = rbind (emit_bit b h) (emit_bits bs)"

lemma emit_bits_append: "emit_bits (as @ bs) h = rbind (emit_bits as h) (emit_bits bs)"
proof (induction as arbitrary: h)
  case (Cons a as)
  then have "emit_bits (as @ bs) = (\<lambda>h. rbind (emit_bits as h) (emit_bits bs))" by blast
  then show ?case by (simp add: rbind_assoc)
qed simp

lemma emit_code_bits: "emit_code code n h = emit_bits (code_bits code n) h"
proof (induction n arbitrary: h)
  case (Suc n)
  then have "emit_code code n = emit_bits (code_bits code n)" by blast
  then show ?case using bit_as_and [of n code] by (simp add: code_bits_Suc)
qed (simp add: code_bits_def)

lemma emit_symbols_bits: "emit_symbols src h = emit_bits (huffman_bits src) h"
proof (induction src arbitrary: h)
  case (Cons c cs)
  then have IH: "emit_symbols cs = emit_bits (huffman_bits cs)" by blast
  have "unat c < 257" using byte_bound [of c] by simp
  then show ?case
    by (simp add: symbol_def table_lengths IH emit_code_bits emit_bits_append symbol_bits_def)
qed simp

text \<open>The state of the encoder after the bits \<open>bs\<close>: full bytes in the buffer, the rest in the byte.\<close>

definition encoding :: "bytes \<Rightarrow> bytes \<Rightarrow> bool list \<Rightarrow> huffman_out \<Rightarrow> bool" where
  "encoding dest t0 bs h \<longleftrightarrow>
     (\<exists>as r. bs = as @ r \<and> 8 dvd length as \<and> length r < 8 \<and> stored dest (out h) (t0 @ pack as) \<and>
        bitCount h = length r \<and> currentByte h = word_of_nat (bits_val r))"

lemma shift_in_bit:
  "push_bit 1 (word_of_nat n :: 'a::len word) OR of_bool b = word_of_nat (2 * n + of_bool b)"
proof -
  have "push_bit 1 (word_of_nat n :: 'a word) AND of_bool b = 0"
    by (rule bit_word_eqI) (auto simp: bit_simps bit_0)
  then have "push_bit 1 (word_of_nat n :: 'a word) OR of_bool b = push_bit 1 (word_of_nat n) + of_bool b"
    by (simp add: disjunctive_add_eq_or)
  then show ?thesis by (simp add: push_bit_eq_mult)
qed

lemma encoding_bit:
  assumes "encoding dest t0 bs h"
  shows "if length t0 + length (pack (bs @ [b])) \<le> length dest
    then \<exists>h'. emit_bit b h = Ok h' \<and> encoding dest t0 (bs @ [b]) h'
    else emit_bit b h = Err STATUS_BUFFER_TOO_SMALL \<or> length dest < length t0 + length (pack bs)"
proof -
  obtain as r where e: "bs = as @ r" "8 dvd length as" "length r < 8" "stored dest (out h) (t0 @ pack as)"
    "bitCount h = length r" "currentByte h = word_of_nat (bits_val r)"
    using assms by (auto simp: encoding_def)
  let ?byte = "word_of_nat (bits_val (r @ [b])) :: UCHAR"
  have byte: "push_bit 1 (currentByte h) OR of_bool b = ?byte"
    unfolding e(6) shift_in_bit by simp
  have cursor: "snd (out h) = length t0 + length (pack as)" "length (fst (out h)) = length dest"
    using e(4) by (auto simp: stored_def)
  show ?thesis
  proof (cases "length r = 7")
    case True
    have pk: "pack (bs @ [b]) = pack as @ [?byte]"
      using pack_append [OF e(2), of "r @ [b]"] pack_byte [of "r @ [b]" "[]"] True e(1) by simp
    show ?thesis
    proof (cases "length t0 + length (pack (bs @ [b])) \<le> length dest")
      case fits: True
      then obtain w where w: "put_byte ?byte (out h) = Ok w" "stored dest w ((t0 @ pack as) @ [?byte])"
        using put_byte_stored [OF e(4)] pk by fastforce
      have "encoding dest t0 (bs @ [b]) \<lparr>currentByte = 0, bitCount = 0, out = w\<rparr>"
        unfolding encoding_def
        using w(2) pk e(1,2) True by (intro exI [of _ "bs @ [b]"] exI [of _ "[]"]) simp
      then show ?thesis using fits w(1) True e(5) byte cursor pk by (simp add: emit_bit_def Let_def)
    next
      case False
      then show ?thesis using True e(5) cursor pk by (simp add: emit_bit_def Let_def)
    qed
  next
    case False
    then have l: "length (r @ [b]) < 8" using e(3) by simp
    then have pk: "pack (bs @ [b]) = pack as" "pack bs = pack as"
      using pack_append [OF e(2)] e(1,3) by simp_all
    have "encoding dest t0 (bs @ [b]) (h\<lparr>currentByte := ?byte, bitCount := length r + 1\<rparr>)"
      unfolding encoding_def
      using e l by (intro exI [of _ as] exI [of _ "r @ [b]"]) simp
    then show ?thesis using False e(5) byte pk by (simp add: emit_bit_def Let_def)
  qed
qed

lemma pack_append_mono: "length (pack bs) \<le> length (pack (bs @ cs))"
  by (simp add: length_pack div_le_mono)

lemma encoding_bits:
  assumes "encoding dest t0 bs h" "length t0 + length (pack bs) \<le> length dest"
  shows "if length t0 + length (pack (bs @ cs)) \<le> length dest
    then \<exists>h'. emit_bits cs h = Ok h' \<and> encoding dest t0 (bs @ cs) h'
    else emit_bits cs h = Err STATUS_BUFFER_TOO_SMALL"
  using assms
proof (induction cs arbitrary: bs h)
  case (Cons c cs)
  note step = encoding_bit [OF Cons.prems(1), of c]
  show ?case
  proof (cases "length t0 + length (pack (bs @ [c])) \<le> length dest")
    case True
    then obtain h' where "emit_bit c h = Ok h'" "encoding dest t0 (bs @ [c]) h'" using step by auto
    then show ?thesis using Cons.IH [of "bs @ [c]" h'] True by (auto simp: if_split_eq1)
  next
    case False
    then have "emit_bit c h = Err STATUS_BUFFER_TOO_SMALL" using step Cons.prems(2) by simp
    then show ?thesis using False pack_append_mono [of "bs @ [c]" cs] by simp
  qed
qed simp

lemma encoding_start: "stored dest w t0 \<Longrightarrow> encoding dest t0 [] \<lparr>currentByte = 0, bitCount = 0, out = w\<rparr>"
  unfolding encoding_def by (intro exI [of _ "[]"]) simp

lemma word_of_nat_unat_back: "unat (x :: UCHAR) = n \<Longrightarrow> x = word_of_nat n"
  by auto

lemma bits_val_ones: "bits_val (replicate n True) = 2 ^ n - 1"
  by (induction n) (simp_all add: bits_val_Cons)

lemma pad_byte:
  assumes "length r < 8" "0 < length r"
  shows "push_bit (8 - length r) (word_of_nat (bits_val r) :: UCHAR) OR ucast (push_bit (8 - length r) (1 :: ULONG) - 1) =
    word_of_nat (bits_val (r @ replicate (8 - length r) True))"
proof -
  let ?n = "8 - length r" and ?x = "word_of_nat (bits_val r) :: UCHAR"
  have "(2 :: nat) ^ length r \<le> 2 ^ 8" using assms(1) by (intro power_increasing) auto
  then have x: "unat ?x = bits_val r" using bits_val_less [of r] by (intro unat_word_of_nat_8) simp
  have m: "ucast (push_bit ?n (1 :: ULONG) - 1) = max_prefix ?n" by (simp add: max_prefix_def)
  have um: "unat (max_prefix ?n) = 2 ^ ?n - 1" by (simp add: unat_max_prefix)
  have "bits_val r * 2 ^ ?n + (2 ^ ?n - 1) < 2 ^ 8"
    using bits_val_less [of "r @ replicate ?n True"] assms by (simp add: bits_val_append bits_val_ones)
  then have "unat ?x * 2 ^ ?n + unat (max_prefix ?n) < 2 ^ LENGTH(8)" by (simp only: x um) simp
  then have "unat (push_bit ?n ?x OR max_prefix ?n) = unat ?x * 2 ^ ?n + unat (max_prefix ?n)"
    using um by (intro unat_push_bit_or) simp_all
  then have "unat (push_bit ?n ?x OR max_prefix ?n) = bits_val (r @ replicate ?n True)"
    using x um by (simp add: bits_val_append bits_val_ones)
  then show ?thesis unfolding m by (rule word_of_nat_unat_back)
qed

lemma HpackHuffmanEncode_text: "bounded_store dest (HpackHuffmanEncode (Span src)) (huffman_text src)"
  unfolding bounded_store_def
proof (intro allI impI)
  fix w t0 assume w: "stored dest w t0"
  show "if length t0 + length (huffman_text src) \<le> length dest
      then \<exists>w'. HpackHuffmanEncode (Span src) w = Ok w' \<and> stored dest w' (t0 @ huffman_text src)
      else HpackHuffmanEncode (Span src) w = Err STATUS_BUFFER_TOO_SMALL"
  proof (cases "src = []")
    case True
    then show ?thesis using w by (auto simp: HpackHuffmanEncode_def huffman_text_def padding_def stored_def)
  next
    case False
    let ?bs = "huffman_bits src" and ?h0 = "\<lparr>currentByte = 0, bitCount = 0, out = w\<rparr>"
    define finish :: "huffman_out \<Rightarrow> writer res" where
      "finish = (\<lambda>h. if bitCount h > 0 then
            if snd (out h) \<ge> length (fst (out h)) then Err STATUS_BUFFER_TOO_SMALL
            else put_byte (push_bit (8 - bitCount h) (currentByte h) OR
                   ucast (push_bit (8 - bitCount h) (1 :: ULONG) - 1)) (out h)
          else Ok (out h))"
    have enc: "HpackHuffmanEncode (Span src) w = rbind (emit_bits ?bs ?h0) finish"
      using False by (simp add: HpackHuffmanEncode_def emit_symbols_bits finish_def)
    have t0: "length t0 \<le> length dest" using w by (simp add: stored_def)
    note run = encoding_bits [OF encoding_start [OF w], of ?bs]
    show ?thesis
    proof (cases "length t0 + length (pack ?bs) \<le> length dest")
      case True
      then obtain h where h: "emit_bits ?bs ?h0 = Ok h" "encoding dest t0 ?bs h" using run t0 by auto
      obtain as r where e: "?bs = as @ r" "8 dvd length as" "length r < 8" "stored dest (out h) (t0 @ pack as)"
        "bitCount h = length r" "currentByte h = word_of_nat (bits_val r)"
        using h(2) by (auto simp: encoding_def)
      have cursor: "snd (out h) = length t0 + length (pack as)" "length (fst (out h)) = length dest"
        using e(4) by (auto simp: stored_def)
      have m: "length ?bs mod 8 = length r" using e(1-3) by auto
      show ?thesis
      proof (cases "r = []")
        case True
        then have "huffman_text src = pack as" using e(1) m by (simp add: huffman_text_def padding_def)
        then show ?thesis using enc h(1) e(4,5) True cursor \<open>length t0 + length (pack ?bs) \<le> length dest\<close> e(1)
          by (auto simp: finish_def)
      next
        case r: False
        let ?b = "word_of_nat (bits_val (r @ replicate (8 - length r) True)) :: UCHAR"
        have "padding ?bs = replicate (8 - length r) True"
          unfolding padding_def m using r e(3) by simp
        then have t: "huffman_text src = pack as @ [?b]"
          unfolding huffman_text_def using e(1-3) pack_append [OF e(2)] pack_byte [of "r @ replicate (8 - length r) True" "[]"]
          by simp
        have "finish h = (if length dest \<le> length t0 + length (pack as) then Err STATUS_BUFFER_TOO_SMALL else put_byte ?b (out h))"
          using r e(3,5,6) pad_byte [OF e(3)] cursor by (simp add: finish_def)
        then show ?thesis using enc h(1) t put_byte_stored [OF e(4), of ?b] by auto
      qed
    next
      case False
      then have "HpackHuffmanEncode (Span src) w = Err STATUS_BUFFER_TOO_SMALL" using run t0 enc by simp
      then show ?thesis using False pack_append_mono [of ?bs "padding ?bs"] by (simp add: huffman_text_def)
    qed
  qed
qed

lemma encoded_bits_loop_eq: "encoded_bits_loop src n = Ok (n + length (huffman_bits src))"
proof (induction src arbitrary: n)
  case (Cons c cs)
  have "unat c < 257" using byte_bound [of c] by simp
  then show ?case using Cons by (simp add: symbol_def table_lengths symbol_bits_def)
qed simp

lemma HpackHuffmanEncodedLength_text: "HpackHuffmanEncodedLength (Span src) = Ok (length (huffman_text src))"
proof -
  have up: "(n + (8 - n mod 8) mod 8) div 8 = (n + 7) div 8" for n :: nat
  proof -
    define k where "k = n mod 8"
    have n: "n = 8 * (n div 8) + k" "k < 8" by (simp_all add: k_def)
    have "(8 * q + k + (8 - k) mod 8) div 8 = (8 * q + k + 7) div 8" for q
    proof (cases "k = 0")
      case False
      then have "8 * q + k + (8 - k) mod 8 = 8 * q + 8" "8 * q + k + 7 = 8 * q + 8 + (k - 1)" using n(2) by simp_all
      then show ?thesis using n(2) by (simp only: div_mult_self4) simp
    qed simp
    then show ?thesis using n k_def by metis
  qed
  have "length (huffman_text src) = (length (huffman_bits src) + 7) div 8"
    using up [of "length (huffman_bits src)"] by (simp add: huffman_text_def length_pack padding_def)
  then show ?thesis
    by (cases "src = []") (simp_all add: HpackHuffmanEncodedLength_def encoded_bits_loop_eq)
qed

section \<open>The decoder reads the padded bit string\<close>

definition unpack :: "bytes \<Rightarrow> bool list" where
  "unpack bs = concat (map (\<lambda>b. code_bits b 8) bs)"

lemma unpack_simps [simp]: "unpack [] = []" "unpack (b # bs) = code_bits b 8 @ unpack bs"
  by (simp_all add: unpack_def)

lemma length_unpack [simp]: "length (unpack bs) = 8 * length bs"
  by (induction bs) simp_all

lemma pack_unpack: "pack (unpack bs) = bs"
  by (induction bs) (simp_all add: pack_byte bits_val_code_bits take_bit_nat_eq_self byte_bound)

lemma code_bits_byte: "length r = 8 \<Longrightarrow> code_bits (word_of_nat (bits_val r) :: UCHAR) 8 = r"
proof -
  assume r: "length r = 8"
  then have v: "bits_val r < 2 ^ 8" using bits_val_less [of r] by simp
  then have "unat (word_of_nat (bits_val r) :: UCHAR) = bits_val r" by (intro unat_word_of_nat_8) simp
  then show ?thesis
    using v r by (intro bits_val_inj) (simp_all add: bits_val_code_bits take_bit_nat_eq_self del: of_nat_unat)
qed

lemma unpack_pack: "8 dvd length bs \<Longrightarrow> unpack (pack bs) = bs"
  by (induction bs rule: byte_aligned_induct) (simp_all add: pack_byte code_bits_byte)

text \<open>The loops of the decoder, as one loop over a bit string.\<close>

fun decode_bits :: "bool list \<Rightarrow> huffman_in \<Rightarrow> huffman_in res" where
  "decode_bits [] h = Ok h"
| "decode_bits (b # bs) h = rbind (decode_bit b h) (decode_bits bs)"

lemma decode_bits_append: "decode_bits (as @ bs) h = rbind (decode_bits as h) (decode_bits bs)"
proof (induction as arbitrary: h)
  case (Cons a as)
  then have "decode_bits (as @ bs) = (\<lambda>h. rbind (decode_bits as h) (decode_bits bs))" by blast
  then show ?case by (simp add: rbind_assoc)
qed simp

lemma decode_byte_bits: "decode_byte byte n h = decode_bits (code_bits byte n) h"
proof (induction n arbitrary: h)
  case (Suc n)
  then have "decode_byte byte n = decode_bits (code_bits byte n)" by blast
  then show ?case using bit_as_and [of n byte] by (simp add: code_bits_Suc)
qed (simp add: code_bits_def)

lemma decode_bytes_bits: "decode_bytes bs h = decode_bits (unpack bs) h"
proof (induction bs arbitrary: h)
  case (Cons b bs)
  then have IH: "decode_bytes bs = decode_bits (unpack bs)" by blast
  then show ?case by (simp add: decode_byte_bits decode_bits_append)
qed simp

text \<open>The state of the decoder inside a code, with the bits \<open>p\<close> of it read.\<close>

definition reading :: "bool list \<Rightarrow> writer \<Rightarrow> huffman_in" where
  "reading p w = \<lparr>currentCode = code_word p, currentBitLen = length p, decoded = w\<rparr>"

lemma reading_start: "\<lparr>currentCode = 0, currentBitLen = 0, decoded = w\<rparr> = reading [] w"
  by (simp add: reading_def code_word_def)

lemma reading_fields:
  "currentCode (reading p w) = code_word p" "currentBitLen (reading p w) = length p" "decoded (reading p w) = w"
  "reading p w\<lparr>currentCode := code_word q, currentBitLen := length q\<rparr> = reading q w"
  by (simp_all add: reading_def)

lemma decode_bit_reading:
  "decode_bit b (reading p w) =
     (if length p \<ge> 30 then Err STATUS_INVALID_NETWORK_RESPONSE
      else rbind (FindHuffmanSymbol (code_word (p @ [b])) (length (p @ [b]))) (\<lambda>found.
        case found of
          None \<Rightarrow> Ok (reading (p @ [b]) w)
        | Some s \<Rightarrow>
            if s = 256 then Err STATUS_INVALID_NETWORK_RESPONSE
            else if snd w \<ge> length (fst w) then Err STATUS_BUFFER_TOO_SMALL
            else rbind (put_byte (word_of_nat s) w) (\<lambda>w'. Ok (reading [] w'))))"
proof -
  have code: "push_bit 1 (code_word p) OR of_bool b = code_word (p @ [b])"
    unfolding code_word_def shift_in_bit by simp
  have len: "length p + 1 = length (p @ [b])" "30 < length (p @ [b]) \<longleftrightarrow> 30 \<le> length p" by auto
  show ?thesis unfolding decode_bit_def Let_def reading_fields code len reading_start ..
qed

lemma decode_inside:
  assumes "length p < 30" "\<And>s. s < 257 \<Longrightarrow> symbol_bits s \<noteq> p @ [b]"
  shows "decode_bit b (reading p w) = Ok (reading (p @ [b]) w)"
  using assms FindHuffmanSymbol_bits(2) [of "p @ [b]"] by (simp add: decode_bit_reading)

lemma decode_complete:
  assumes "s < 256" "symbol_bits s = p @ [b]" "stored dest w t0"
  shows "if length t0 < length dest
    then \<exists>w'. decode_bit b (reading p w) = Ok (reading [] w') \<and> stored dest w' (t0 @ [word_of_nat s])
    else decode_bit b (reading p w) = Err STATUS_BUFFER_TOO_SMALL"
proof -
  have l: "length (p @ [b]) \<le> 30" using symbol_bits_length [of s] assms by auto
  then have find: "FindHuffmanSymbol (code_word (p @ [b])) (length (p @ [b])) = Ok (Some s)"
    using FindHuffmanSymbol_bits(1) [of "p @ [b]" s] assms(1,2) by simp
  have "snd w = length t0" "length (fst w) = length dest" using assms(3) by (auto simp: stored_def)
  then show ?thesis unfolding decode_bit_reading find
    using l assms(1) put_byte_stored [OF assms(3), of "word_of_nat s"] by auto
qed

lemma not_a_symbol:
  assumes "s < 257" "symbol_bits s = p @ rest" "rest \<noteq> []" "t < 257"
  shows "symbol_bits t \<noteq> p"
proof
  assume h: "symbol_bits t = p"
  then have "t = s" using assms by (intro symbol_prefix_free) auto
  then show False using h assms(2,3) by simp
qed

lemma decode_symbol:
  assumes "s < 256" "symbol_bits s = p @ bs" "bs \<noteq> []" "stored dest w t0"
  shows "if length t0 < length dest
    then \<exists>w'. decode_bits bs (reading p w) = Ok (reading [] w') \<and> stored dest w' (t0 @ [word_of_nat s])
    else decode_bits bs (reading p w) = Err STATUS_BUFFER_TOO_SMALL"
  using assms(2,3)
proof (induction bs arbitrary: p)
  case (Cons b bs)
  show ?case
  proof (cases "bs = []")
    case True
    then show ?thesis using decode_complete [OF assms(1) _ assms(4), of p b] Cons.prems(1) by auto
  next
    case False
    have "length (p @ b # bs) \<le> 30" using symbol_bits_length [of s] Cons.prems(1) assms(1) by auto
    then have "decode_bit b (reading p w) = Ok (reading (p @ [b]) w)"
      using not_a_symbol [of s "p @ [b]" bs] Cons.prems(1) assms(1) False by (intro decode_inside) auto
    then show ?thesis using Cons.IH [of "p @ [b]"] Cons.prems(1) False by (simp del: split_paired_Ex)
  qed
qed simp

lemma decode_partial:
  assumes "s < 257" "symbol_bits s = p @ bs @ rest" "rest \<noteq> []"
  shows "decode_bits bs (reading p w) = Ok (reading (p @ bs) w)"
  using assms(2)
proof (induction bs arbitrary: p)
  case (Cons b bs)
  have "length (p @ b # bs @ rest) \<le> 30" using symbol_bits_length [OF assms(1)] Cons.prems by auto
  then have "decode_bit b (reading p w) = Ok (reading (p @ [b]) w)"
    using not_a_symbol [OF assms(1), of "p @ [b]" "bs @ rest"] Cons.prems assms(3) by (intro decode_inside) auto
  then show ?case using Cons.IH [of "p @ [b]"] Cons.prems by simp
qed simp

lemma decode_codes:
  assumes "stored dest w t0"
  shows "if length t0 + length src \<le> length dest
    then \<exists>w'. decode_bits (huffman_bits src) (reading [] w) = Ok (reading [] w') \<and> stored dest w' (t0 @ src)
    else decode_bits (huffman_bits src) (reading [] w) = Err STATUS_BUFFER_TOO_SMALL"
  using assms
proof (induction src arbitrary: w t0)
  case Nil
  then show ?case by (auto simp: stored_def)
next
  case (Cons c cs)
  have c: "unat c < 256" "(word_of_nat (unat c) :: UCHAR) = c" using byte_bound [of c] by simp_all
  have ne: "symbol_bits (unat c) \<noteq> []" using symbol_bits_length [of "unat c"] c(1) by auto
  note one = decode_symbol [OF c(1) _ ne Cons.prems, of "[]", unfolded c(2)]
  show ?case
  proof (cases "length t0 < length dest")
    case True
    then obtain w' where w': "decode_bits (symbol_bits (unat c)) (reading [] w) = Ok (reading [] w')" "stored dest w' (t0 @ [c])"
      using one by auto
    then show ?thesis using Cons.IH [OF w'(2)] by (auto simp: decode_bits_append if_split_eq1)
  next
    case False
    then show ?thesis using one by (simp add: decode_bits_append)
  qed
qed

lemma symbol_bits_eos: "symbol_bits 256 = replicate 30 True"
proof -
  have "HpackHuffmanEncodeTable ! 256 = (0x3fffffff, 30)" by (simp add: HpackHuffmanEncodeTable_def)
  then have e: "symbol_bits 256 = code_bits (0x3fffffff :: ULONG) 30" by (simp add: symbol_bits_def)
  show ?thesis
    unfolding e by (rule bits_val_inj) (simp_all add: bits_val_code_bits bits_val_ones take_bit_nat_eq_self)
qed

lemma decode_padding: "n < 8 \<Longrightarrow> decode_bits (replicate n True) (reading [] w) = Ok (reading (replicate n True) w)"
  using decode_partial [of 256 "[]" "replicate n True" "replicate (30 - n) True"]
  by (simp add: symbol_bits_eos replicate_add [symmetric])

lemma mask_as_code: "n < 32 \<Longrightarrow> push_bit n 1 - 1 = (code_word (replicate n True) :: ULONG)"
proof -
  have "(word_of_nat (2 ^ n - 1) :: ULONG) = 2 ^ n - 1" by (simp add: of_nat_diff)
  then show ?thesis by (simp add: code_word_def bits_val_ones push_bit_eq_mult)
qed

lemma code_and_mask:
  assumes "length q \<le> 7"
  shows "code_word q AND (push_bit (length q) 1 - 1) = push_bit (length q) 1 - 1 \<longleftrightarrow>
    q = replicate (length q) True"
proof -
  have m: "(push_bit (length q) 1 - 1 :: ULONG) = mask (length q)"
    by (simp add: mask_eq_exp_minus_1 push_bit_eq_mult)
  have "unat (take_bit (length q) (code_word q)) = unat (code_word q)"
    using bits_val_less [of q] unat_code_word [of q] assms
    by (simp add: unsigned_take_bit_eq take_bit_nat_eq_self)
  then have "code_word q AND (push_bit (length q) 1 - 1) = code_word q"
    unfolding m take_bit_eq_mask by (simp only: word_unat_eq_iff)
  then have "code_word q AND (push_bit (length q) 1 - 1) = push_bit (length q) 1 - 1 \<longleftrightarrow>
      bits_val q = bits_val (replicate (length q) True)"
    using mask_as_code [of "length q"] unat_code_word [of q] unat_code_word [of "replicate (length q) True"] assms
    by (simp add: word_unat_eq_iff)
  then show ?thesis using bits_val_inj [of q "replicate (length q) True"] by auto
qed

lemma HpackHuffmanDecode_bits:
  "HpackHuffmanDecode (Span src) w =
     (if src = [] then Ok w
      else rbind (decode_bits (unpack src) (reading [] w)) (\<lambda>h.
        if currentBitLen h > 7 then Err STATUS_INVALID_NETWORK_RESPONSE
        else if currentBitLen h > 0 \<and>
                currentCode h AND (push_bit (currentBitLen h) 1 - 1) \<noteq> push_bit (currentBitLen h) 1 - 1
        then Err STATUS_INVALID_NETWORK_RESPONSE
        else Ok (decoded h)))"
  by (simp add: HpackHuffmanDecode_def decode_bytes_bits reading_start)

lemma unpack_huffman_text: "unpack (huffman_text t) = huffman_bits t @ padding (huffman_bits t)"
  unfolding huffman_text_def by (rule unpack_pack [OF length_padded])

lemma huffman_text_Nil_iff: "huffman_text t = [] \<longleftrightarrow> t = []"
proof
  assume "huffman_text t = []"
  then have "huffman_bits t = []" using unpack_huffman_text [of t] by simp
  then show "t = []"
  proof (cases t)
    case (Cons c cs)
    have "symbol_bits (unat c) \<noteq> []" using symbol_bits_length [of "unat c"] byte_bound [of c] by auto
    then show ?thesis using \<open>huffman_bits t = []\<close> Cons by simp
  qed
qed (simp add: huffman_text_def padding_def)

lemma HpackHuffmanDecode_text: "bounded_store dest (HpackHuffmanDecode (Span (huffman_text t))) t"
  unfolding bounded_store_def
proof (intro allI impI)
  fix w t0 assume w: "stored dest w t0"
  let ?n = "(8 - length (huffman_bits t) mod 8) mod 8"
  have pad: "padding (huffman_bits t) = replicate ?n True" "?n < 8" by (simp_all add: padding_def)
  have ok: "code_word (replicate ?n True) AND (push_bit ?n 1 - 1) = push_bit ?n 1 - 1"
    using code_and_mask [of "replicate ?n True"] by simp
  show "if length t0 + length t \<le> length dest
      then \<exists>w'. HpackHuffmanDecode (Span (huffman_text t)) w = Ok w' \<and> stored dest w' (t0 @ t)
      else HpackHuffmanDecode (Span (huffman_text t)) w = Err STATUS_BUFFER_TOO_SMALL"
  proof (cases "t = []")
    case True
    then show ?thesis using w huffman_text_Nil_iff [of t] by (auto simp: HpackHuffmanDecode_def stored_def)
  next
    case False
    then have ne: "huffman_text t \<noteq> []" by (simp add: huffman_text_Nil_iff)
    note codes = decode_codes [OF w, of t]
    show ?thesis
    proof (cases "length t0 + length t \<le> length dest")
      case True
      then obtain w' where w': "decode_bits (huffman_bits t) (reading [] w) = Ok (reading [] w')" "stored dest w' (t0 @ t)"
        using codes by auto
      have "HpackHuffmanDecode (Span (huffman_text t)) w = Ok w'"
        unfolding HpackHuffmanDecode_bits unpack_huffman_text decode_bits_append w'(1) pad(1) rbind.simps
          decode_padding [OF pad(2)] reading_fields
        using ne ok pad(2) by simp
      then show ?thesis using True w'(2) by auto
    next
      case False
      then show ?thesis using codes ne
        by (simp add: HpackHuffmanDecode_bits unpack_huffman_text decode_bits_append)
    qed
  qed
qed

text \<open>Conversely, what the decoder accepts is the encoding of what it returns.\<close>

lemma stored_unique: "stored dest w t \<Longrightarrow> stored dest w t' \<Longrightarrow> t = t'"
  by (auto simp: stored_def overlay_def)

lemma decode_bit_cases:
  assumes "stored dest w t0" "length p \<le> 30"
  shows "(\<exists>s w'. s < 256 \<and> symbol_bits s = p @ [b] \<and> stored dest w' (t0 @ [word_of_nat s]) \<and>
            decode_bit b (reading p w) = Ok (reading [] w')) \<or>
    (length p < 30 \<and> decode_bit b (reading p w) = Ok (reading (p @ [b]) w)) \<or>
    (\<exists>e. decode_bit b (reading p w) = Err e)"
proof (cases "length p < 30")
  case False
  then show ?thesis by (simp add: decode_bit_reading)
next
  case l: True
  show ?thesis
  proof (cases "\<exists>s<257. symbol_bits s = p @ [b]")
    case True
    then obtain s where s: "s < 257" "symbol_bits s = p @ [b]" by blast
    show ?thesis
    proof (cases "s = 256")
      case eos: True
      have "FindHuffmanSymbol (code_word (p @ [b])) (length (p @ [b])) = Ok (Some s)"
        using FindHuffmanSymbol_bits(1) [of "p @ [b]" s] s l by simp
      then show ?thesis using l eos unfolding decode_bit_reading by simp
    next
      case False
      then have "s < 256" using s(1) by simp
      then show ?thesis using decode_complete [OF _ s(2) assms(1)] s(2) by (auto split: if_splits)
    qed
  next
    case False
    then show ?thesis using decode_inside [OF l, of b w] l by auto
  qed
qed

lemma decode_bits_cases:
  assumes "stored dest w t0" "length p \<le> 30"
  shows "(\<exists>t q w'. decode_bits bs (reading p w) = Ok (reading q w') \<and> p @ bs = huffman_bits t @ q \<and>
            stored dest w' (t0 @ t)) \<or> (\<exists>e. decode_bits bs (reading p w) = Err e)"
  using assms
proof (induction bs arbitrary: p w t0)
  case Nil
  then show ?case by (intro disjI1 exI [of _ "[]"] exI [of _ p] exI [of _ w]) simp
next
  case (Cons b bs)
  consider (symbol) s w' where "s < 256" "symbol_bits s = p @ [b]" "stored dest w' (t0 @ [word_of_nat s])"
      "decode_bit b (reading p w) = Ok (reading [] w')"
    | (inside) "length p < 30" "decode_bit b (reading p w) = Ok (reading (p @ [b]) w)"
    | (bad) e where "decode_bit b (reading p w) = Err e"
    using decode_bit_cases [OF Cons.prems, of b] by blast
  then show ?case
  proof cases
    case symbol
    then have s: "unat (word_of_nat s :: UCHAR) = s" by (intro unat_word_of_nat_8) simp
    from Cons.IH [OF symbol(3), of "[]", simplified] show ?thesis
    proof (elim disjE exE conjE)
      fix t q w'' assume h: "decode_bits bs (reading [] w') = Ok (reading q w'')" "bs = huffman_bits t @ q"
        "stored dest w'' (t0 @ word_of_nat s # t)"
      then have "p @ b # bs = huffman_bits (word_of_nat s # t) @ q" using symbol(2) s by simp
      then show ?thesis using h symbol(4) by (intro disjI1 exI [of _ "word_of_nat s # t"] exI [of _ q] exI [of _ w'']) simp
    qed (simp_all add: symbol(4))
  next
    case inside
    then show ?thesis using Cons.IH [OF Cons.prems(1), of "p @ [b]"] by simp
  qed simp
qed

lemma HpackHuffmanDecode_cases:
  assumes "stored dest w t0"
  shows "(\<exists>t w'. HpackHuffmanDecode (Span src) w = Ok w' \<and> stored dest w' (t0 @ t) \<and> src = huffman_text t) \<or>
    (\<exists>e. HpackHuffmanDecode (Span src) w = Err e)"
proof (cases "src = []")
  case True
  then show ?thesis using assms huffman_text_Nil_iff [of "[]"]
    by (intro disjI1 exI [of _ "[]"] exI [of _ w]) (simp add: HpackHuffmanDecode_bits)
next
  case False
  show ?thesis
  proof (cases "\<exists>e. decode_bits (unpack src) (reading [] w) = Err e")
    case True
    then show ?thesis using False by (auto simp: HpackHuffmanDecode_bits)
  next
    case ok: False
    then obtain t q w' where d: "decode_bits (unpack src) (reading [] w) = Ok (reading q w')"
      "unpack src = huffman_bits t @ q" "stored dest w' (t0 @ t)"
      using decode_bits_cases [OF assms, of "[]" "unpack src"] by auto
    show ?thesis
    proof (cases "length q \<le> 7 \<and> q = replicate (length q) True")
      case True
      have "8 dvd length (huffman_bits t) + length q" by (metis d(2) dvd_triv_left length_append length_unpack)
      then have "length q = (8 - length (huffman_bits t) mod 8) mod 8" using True padding_count by blast
      then have "q = padding (huffman_bits t)" unfolding padding_def using True by simp
      then have "src = huffman_text t" unfolding huffman_text_def using d(2) pack_unpack [of src] by simp
      moreover have "HpackHuffmanDecode (Span src) w = Ok w'"
        using False True code_and_mask [of q] unfolding HpackHuffmanDecode_bits d(1) rbind.simps reading_fields by auto
      ultimately show ?thesis using d(3) by blast
    next
      case bad: False
      then have "HpackHuffmanDecode (Span src) w = Err STATUS_INVALID_NETWORK_RESPONSE"
        using False code_and_mask [of q] unfolding HpackHuffmanDecode_bits d(1) rbind.simps reading_fields by auto
      then show ?thesis by blast
    qed
  qed
qed

section \<open>Properties\<close>

text \<open>The Huffman coder and decoder are inverse to each other. Encoding writes the codes of the
  bytes, most significant bit first, filled up with ones (\<open>huffman_text\<close>), or reports that the buffer
  is too small when exactly that text does not fit; \<open>HpackHuffmanEncodedLength\<close> is its length; and
  decoding that text into a buffer that has room gives back the bytes.\<close>

theorem huffman_roundtrip:
  assumes "length (huffman_text src) \<le> length dest" "length src \<le> length dst"
  shows "HpackHuffmanEncodedLength (Span src) = Ok (length (huffman_text src)) \<and>
    HpackHuffmanEncode (Span src) (dest, 0) = Ok (overlay dest 0 (huffman_text src), length (huffman_text src)) \<and>
    (\<forall>small. length small < length (huffman_text src) \<longrightarrow>
       HpackHuffmanEncode (Span src) (small, 0) = Err STATUS_BUFFER_TOO_SMALL) \<and>
    HpackHuffmanDecode (Span (huffman_text src)) (dst, 0) = Ok (overlay dst 0 src, length src)"
proof (intro conjI allI impI)
  show "HpackHuffmanEncodedLength (Span src) = Ok (length (huffman_text src))"
    by (rule HpackHuffmanEncodedLength_text)
  show "HpackHuffmanEncode (Span src) (dest, 0) = Ok (overlay dest 0 (huffman_text src), length (huffman_text src))"
    using bounded_store_run [OF HpackHuffmanEncode_text stored_start] assms(1) by (auto simp: stored_def)
  show "HpackHuffmanDecode (Span (huffman_text src)) (dst, 0) = Ok (overlay dst 0 src, length src)"
    using bounded_store_run [OF HpackHuffmanDecode_text stored_start] assms(2) by (auto simp: stored_def)
next
  fix small :: bytes assume "length small < length (huffman_text src)"
  then show "HpackHuffmanEncode (Span src) (small, 0) = Err STATUS_BUFFER_TOO_SMALL"
    using bounded_store_full [OF HpackHuffmanEncode_text stored_start] by simp
qed

theorem huffman_roundtrip_witness:
  "\<exists>t. length t = 2 \<and> HpackHuffmanEncode (Span [0x61, 0x62]) ([0, 0], 0) = Ok (t, 2) \<and>
     HpackHuffmanDecode (Span t) ([9, 9, 9], 0) = Ok ([0x61, 0x62, 9], 2)"
proof -
  have l: "length (huffman_text [0x61, 0x62]) = 2"
    using HpackHuffmanEncodedLength_text [of "[0x61, 0x62]"]
    by (simp add: HpackHuffmanEncodedLength_def symbol_def HpackHuffmanEncodeTable_def)
  show ?thesis
    using huffman_roundtrip [of "[0x61, 0x62]" "[0, 0]" "[9, 9, 9]"] l
    by (auto simp: overlay_def)
qed

text \<open>C20: The decoder accepts a byte string exactly when it is the encoding of the bytes it returns
  and they fit: a text with a wrong padding, with the EOS symbol, with an unknown code or with a
  padding of eight bits or more is refused. It never reads or writes out of bounds.\<close>

theorem HpackHuffmanDecode_exact:
  "HpackHuffmanDecode (Span src) (dst, 0) \<noteq> Fault \<and>
   (HpackHuffmanDecode (Span src) (dst, 0) = Ok (overlay dst 0 t, length t) \<and> length t \<le> length dst \<longleftrightarrow>
    src = huffman_text t \<and> length t \<le> length dst)"
proof -
  note run = HpackHuffmanDecode_cases [OF stored_start, of src dst]
  have "src = huffman_text t"
    if ok: "HpackHuffmanDecode (Span src) (dst, 0) = Ok (overlay dst 0 t, length t)" and fits: "length t \<le> length dst"
  using run
  proof (elim disjE exE conjE)
    fix t' w' assume h: "HpackHuffmanDecode (Span src) (dst, 0) = Ok w'" "stored dst w' ([] @ t')" "src = huffman_text t'"
    then have "stored dst (overlay dst 0 t, length t) t'" using ok by simp
    then have "t' = t" by (rule stored_unique) (simp add: stored_def fits)
    then show ?thesis using h(3) by simp
  qed (simp add: ok)
  moreover have "HpackHuffmanDecode (Span (huffman_text t)) (dst, 0) = Ok (overlay dst 0 t, length t)"
    if "length t \<le> length dst"
    using bounded_store_run [OF HpackHuffmanDecode_text stored_start, of t dst] that by (auto simp: stored_def)
  ultimately show ?thesis using run by auto
qed

end
