(* ===== verification/Kh_HpackTable.thy ===== *)
theory Kh_HpackTable
  imports Kh_HpackPrimitives
begin

text \<open>
  The header tables of HPACK: the static table of \<^verbatim>\<open>http2/HpackStaticTable.h\<close> and the class
  \<open>HpackDynamicTable\<close> of \<^verbatim>\<open>http2/Hpack.cpp\<close>, a ring of entries over one data buffer that is
  compacted and grown in place.

  A null array is the empty list, so that every access through it is a \<open>Fault\<close>. Fresh arrays are
  zeroed, and whether an allocation succeeds is a flag of the operation that makes it. A pointer
  passed to \<open>Insert\<close> is either outside the data buffer or an offset into it; the operations that
  change state before they fail return the state beside the status.

  The abstract table is a list of fields, the newest first, and every operation is shown to
  implement the eviction rules of RFC 7541, section 4, on it.
\<close>

section \<open>Static table\<close>

definition HpackStaticTable :: "(bytes \<times> bytes) list" where
  "HpackStaticTable = map (\<lambda>(n, v). (lit n, lit v)) [
     ('':authority'', ''''),
     ('':method'', ''GET''),
     ('':method'', ''POST''),
     ('':path'', ''/''),
     ('':path'', ''/index.html''),
     ('':scheme'', ''http''),
     ('':scheme'', ''https''),
     ('':status'', ''200''),
     ('':status'', ''204''),
     ('':status'', ''206''),
     ('':status'', ''304''),
     ('':status'', ''400''),
     ('':status'', ''404''),
     ('':status'', ''500''),
     (''accept-charset'', ''''),
     (''accept-encoding'', ''gzip, deflate''),
     (''accept-language'', ''''),
     (''accept-ranges'', ''''),
     (''accept'', ''''),
     (''access-control-allow-origin'', ''''),
     (''age'', ''''),
     (''allow'', ''''),
     (''authorization'', ''''),
     (''cache-control'', ''''),
     (''content-disposition'', ''''),
     (''content-encoding'', ''''),
     (''content-language'', ''''),
     (''content-length'', ''''),
     (''content-location'', ''''),
     (''content-range'', ''''),
     (''content-type'', ''''),
     (''cookie'', ''''),
     (''date'', ''''),
     (''etag'', ''''),
     (''expect'', ''''),
     (''expires'', ''''),
     (''from'', ''''),
     (''host'', ''''),
     (''if-match'', ''''),
     (''if-modified-since'', ''''),
     (''if-none-match'', ''''),
     (''if-range'', ''''),
     (''if-unmodified-since'', ''''),
     (''last-modified'', ''''),
     (''link'', ''''),
     (''location'', ''''),
     (''max-forwards'', ''''),
     (''proxy-authenticate'', ''''),
     (''proxy-authorization'', ''''),
     (''range'', ''''),
     (''referer'', ''''),
     (''refresh'', ''''),
     (''retry-after'', ''''),
     (''server'', ''''),
     (''set-cookie'', ''''),
     (''strict-transport-security'', ''''),
     (''transfer-encoding'', ''''),
     (''user-agent'', ''''),
     (''vary'', ''''),
     (''via'', ''''),
     (''www-authenticate'', '''')]"

definition HpackStaticTableSize :: nat where
  "HpackStaticTableSize = length HpackStaticTable"

definition HpackEntryOverhead :: nat where
  "HpackEntryOverhead = 32"

lemma HpackStaticTableSize_eq: "HpackStaticTableSize = 61"
  by (simp add: HpackStaticTableSize_def HpackStaticTable_def)

section \<open>Memory\<close>

definition allocate :: "bool \<Rightarrow> nat \<Rightarrow> nat \<Rightarrow> 'a \<Rightarrow> 'a list option" where
  "allocate granted elemSize count zero =
     (if count = 0 \<or> count > MaxSizeT div elemSize \<or> \<not> granted then None else Some (replicate count zero))"

text \<open>The two loops of \<open>MemMove\<close>, within one buffer.\<close>

fun move_up :: "bytes \<Rightarrow> nat \<Rightarrow> nat \<Rightarrow> nat \<Rightarrow> nat \<Rightarrow> bytes res" where
  "move_up buf dst src i 0 = Ok buf"
| "move_up buf dst src i (Suc n) =
     rbind (rd buf (src + i)) (\<lambda>b. rbind (wr buf (dst + i) b) (\<lambda>buf. move_up buf dst src (i + 1) n))"

fun move_down :: "bytes \<Rightarrow> nat \<Rightarrow> nat \<Rightarrow> nat \<Rightarrow> bytes res" where
  "move_down buf dst src 0 = Ok buf"
| "move_down buf dst src (Suc n) =
     rbind (rd buf (src + n)) (\<lambda>b. rbind (wr buf (dst + n) b) (\<lambda>buf. move_down buf dst src n))"

definition MemMove :: "bytes \<Rightarrow> nat \<Rightarrow> nat \<Rightarrow> nat \<Rightarrow> bytes res" where
  "MemMove buf dst src len =
     (if dst = src \<or> len = 0 then Ok buf
      else if dst < src then move_up buf dst src 0 len
      else move_down buf dst src len)"

text \<open>A source of bytes: outside the data buffer, or at an offset in it.\<close>

datatype source = Outside bytes | Inside nat

fun read_source :: "bytes \<Rightarrow> source \<Rightarrow> nat \<Rightarrow> UCHAR res" where
  "read_source buf (Outside bs) i = rd bs i"
| "read_source buf (Inside off) i = rd buf (off + i)"

fun PointerInRange :: "source \<Rightarrow> nat \<Rightarrow> bool" where
  "PointerInRange (Outside bs) used = False"
| "PointerInRange (Inside off) used = (off < used)"

text \<open>The loop of \<open>MemCopy\<close> into the data buffer, from index \<open>i\<close> with \<open>n\<close> bytes left.\<close>

fun copy_in :: "bytes \<Rightarrow> nat \<Rightarrow> source \<Rightarrow> nat \<Rightarrow> nat \<Rightarrow> bytes res" where
  "copy_in buf dst src i 0 = Ok buf"
| "copy_in buf dst src i (Suc n) =
     rbind (read_source buf src i) (\<lambda>b. rbind (wr buf (dst + i) b) (\<lambda>buf. copy_in buf dst src (i + 1) n))"

section \<open>The dynamic table\<close>

record Entry =
  NameOffset :: nat
  NameLength :: nat
  ValueOffset :: nat
  ValueLength :: nat

record HpackDynamicTable =
  dataBuffer :: bytes
  dataCapacity :: nat
  dataUsed :: nat
  entries :: "Entry list"
  entryCapacity :: nat
  entryCount :: nat
  entryHead :: nat
  currentSize :: nat
  maxSize :: nat

definition zero_entry :: Entry where
  "zero_entry = \<lparr>NameOffset = 0, NameLength = 0, ValueOffset = 0, ValueLength = 0\<rparr>"

definition fresh_table :: HpackDynamicTable where
  "fresh_table = \<lparr>dataBuffer = [], dataCapacity = 0, dataUsed = 0, entries = [], entryCapacity = 0,
     entryCount = 0, entryHead = 0, currentSize = 0, maxSize = 4096\<rparr>"

definition DynamicTableDataCapacityLimit :: "nat \<Rightarrow> nat" where
  "DynamicTableDataCapacityLimit n = (if n > (MaxSizeT - 1024) div 2 then MaxSizeT else n * 2 + 1024)"

definition Table_Reset :: "HpackDynamicTable \<Rightarrow> HpackDynamicTable" where
  "Table_Reset t = t\<lparr>dataBuffer := [], dataCapacity := 0, dataUsed := 0, entries := [], entryCapacity := 0,
     entryCount := 0, entryHead := 0, currentSize := 0\<rparr>"

definition Table_Initialize :: "bool \<Rightarrow> bool \<Rightarrow> nat \<Rightarrow> HpackDynamicTable \<Rightarrow> HpackDynamicTable \<times> ntstatus option" where
  "Table_Initialize grantData grantEntries newMax t =
     (let t = (Table_Reset t)\<lparr>maxSize := newMax\<rparr> in
      if newMax = 0 then (t, None)
      else
        let cap = DynamicTableDataCapacityLimit newMax;
            cap = (if cap < 1024 then 1024 else cap);
            t = t\<lparr>dataCapacity := cap\<rparr>
        in
        case allocate grantData 1 cap 0 of
          None \<Rightarrow> (t, Some STATUS_INSUFFICIENT_RESOURCES)
        | Some buf \<Rightarrow>
            let t = t\<lparr>dataBuffer := buf, entryCapacity := 128\<rparr> in
            case allocate grantEntries 32 128 zero_entry of
              None \<Rightarrow> (t\<lparr>dataBuffer := []\<rparr>, Some STATUS_INSUFFICIENT_RESOURCES)
            | Some es \<Rightarrow> (t\<lparr>entries := es\<rparr>, None))"

text \<open>An index modulo the capacity of the ring; a remainder by zero is a fault.\<close>

definition ring :: "HpackDynamicTable \<Rightarrow> nat \<Rightarrow> nat res" where
  "ring t i = (if entryCapacity t = 0 then Fault else Ok (i mod entryCapacity t))"

definition Evict :: "HpackDynamicTable \<Rightarrow> HpackDynamicTable res" where
  "Evict t =
     (if entryCount t = 0 then Ok t
      else
        rbind (ring t (entryHead t + entryCount t - 1)) (\<lambda>tailIdx.
        rbind (rd (entries t) tailIdx) (\<lambda>entry.
          let entrySize = NameLength entry + ValueLength entry + HpackEntryOverhead;
              t = t\<lparr>currentSize := currentSize t - entrySize, entryCount := entryCount t - 1\<rparr>
          in Ok (if entryCount t = 0 then t\<lparr>entryHead := 0, dataUsed := 0\<rparr> else t))))"

lemma Evict_count: "Evict t = Ok t' \<Longrightarrow> 0 < entryCount t \<Longrightarrow> entryCount t' = entryCount t - 1"
  by (auto simp: Evict_def Let_def split: if_splits)

text \<open>The loops that evict until \<open>need\<close> more bytes fit; in \<open>UpdateMaxSize\<close> nothing more is needed.\<close>

function evict_until :: "nat \<Rightarrow> HpackDynamicTable \<Rightarrow> HpackDynamicTable res" where
  "evict_until need t =
     (if currentSize t + need > maxSize t \<and> entryCount t > 0 then
        case Evict t of Ok t' \<Rightarrow> evict_until need t' | Err s \<Rightarrow> Err s | Fault \<Rightarrow> Fault
      else Ok t)"
  by pat_completeness auto
termination by (relation "measure (\<lambda>(need, t). entryCount t)") (auto simp: Evict_count)

declare evict_until.simps [simp del]

text \<open>An offset that \<open>CompactData\<close> keeps up to date when the bytes it points at move.\<close>

fun moved :: "nat \<Rightarrow> nat \<Rightarrow> nat \<Rightarrow> nat option \<Rightarrow> nat option" where
  "moved start len writeOffset None = None"
| "moved start len writeOffset (Some off) =
     Some (if off \<ge> start \<and> off < start + len then writeOffset + (off - start) else off)"

text \<open>The loop of \<open>CompactData\<close> over the entries, the oldest first, with \<open>remaining\<close> of them left.\<close>

fun compact_loop :: "nat \<Rightarrow> nat \<Rightarrow> nat option \<Rightarrow> nat option \<Rightarrow> HpackDynamicTable \<Rightarrow>
    (HpackDynamicTable \<times> nat option \<times> nat option) res" where
  "compact_loop 0 writeOffset first second t = Ok (t\<lparr>dataUsed := writeOffset\<rparr>, first, second)"
| "compact_loop (Suc remaining) writeOffset first second t =
     rbind (ring t (entryHead t + remaining)) (\<lambda>i.
     rbind (rd (entries t) i) (\<lambda>entry.
       let candidateStart = NameOffset entry;
           totalLength = NameLength entry + ValueLength entry
       in
       rbind (if totalLength \<noteq> 0 then MemMove (dataBuffer t) writeOffset candidateStart totalLength
              else Ok (dataBuffer t)) (\<lambda>buf.
       rbind (wr (entries t) i (entry\<lparr>NameOffset := writeOffset, ValueOffset := writeOffset + NameLength entry\<rparr>)) (\<lambda>es.
         compact_loop remaining (writeOffset + totalLength)
           (moved candidateStart totalLength writeOffset first)
           (moved candidateStart totalLength writeOffset second)
           (t\<lparr>dataBuffer := buf, entries := es\<rparr>)))))"

definition CompactData :: "nat option \<Rightarrow> nat option \<Rightarrow> HpackDynamicTable \<Rightarrow>
    (HpackDynamicTable \<times> nat option \<times> nat option) res" where
  "CompactData first second t =
     (if entryCount t = 0 then Ok (t\<lparr>dataUsed := 0, entryHead := 0\<rparr>, first, second)
      else compact_loop (entryCount t) 0 first second t)"

definition UpdateMaxSize :: "nat \<Rightarrow> HpackDynamicTable \<Rightarrow> HpackDynamicTable res" where
  "UpdateMaxSize newMaxSize t =
     rbind (evict_until 0 (t\<lparr>maxSize := newMaxSize\<rparr>)) (\<lambda>t.
     rbind (CompactData None None t) (\<lambda>(t, _, _). Ok t))"

text \<open>The parts of \<open>Insert\<close>: compaction, growth of the data buffer, growth of the ring, and the store.\<close>

fun table_offset :: "source \<Rightarrow> nat \<Rightarrow> nat option" where
  "table_offset (Inside off) used = (if off < used then Some off else None)"
| "table_offset (Outside bs) used = None"

definition rebase :: "source \<Rightarrow> nat option \<Rightarrow> source" where
  "rebase src off = (case off of None \<Rightarrow> src | Some k \<Rightarrow> Inside k)"

definition insert_compact :: "nat \<Rightarrow> source \<Rightarrow> source \<Rightarrow> HpackDynamicTable \<Rightarrow> (HpackDynamicTable \<times> source \<times> source) res" where
  "insert_compact dataNeeded name value t =
     (if dataUsed t + dataNeeded > dataCapacity t then
        rbind (CompactData (table_offset name (dataUsed t)) (table_offset value (dataUsed t)) t)
          (\<lambda>(t, nameOffset, valueOffset). Ok (t, rebase name nameOffset, rebase value valueOffset))
      else Ok (t, name, value))"

text \<open>A pointer into the old buffer that is not in its used part dangles after the buffer is freed.\<close>

definition follow :: "source \<Rightarrow> nat \<Rightarrow> source" where
  "follow src used = (case src of Outside bs \<Rightarrow> src | Inside off \<Rightarrow> if off < used then src else Outside [])"

definition insert_grow :: "bool \<Rightarrow> nat \<Rightarrow> source \<Rightarrow> source \<Rightarrow> HpackDynamicTable \<Rightarrow>
    ((HpackDynamicTable \<times> source \<times> source) \<times> ntstatus option) res" where
  "insert_grow grantData dataNeeded name value t =
     (if dataUsed t + dataNeeded > dataCapacity t then
        let newCapacity = dataCapacity t * 2;
            newCapacity = (if newCapacity < dataUsed t + dataNeeded + 1024 then dataUsed t + dataNeeded + 1024 else newCapacity);
            limit = DynamicTableDataCapacityLimit (maxSize t);
            newCapacity = (if newCapacity > limit then limit else newCapacity)
        in
        if dataUsed t + dataNeeded > newCapacity then Ok ((t, name, value), Some STATUS_INVALID_NETWORK_RESPONSE)
        else
          case allocate grantData 1 newCapacity 0 of
            None \<Rightarrow> Ok ((t, name, value), Some STATUS_INSUFFICIENT_RESOURCES)
          | Some newBuffer \<Rightarrow>
              if dataUsed t > length (dataBuffer t) then Fault
              else
                Ok ((t\<lparr>dataBuffer := overlay newBuffer 0 (take (dataUsed t) (dataBuffer t)), dataCapacity := newCapacity\<rparr>,
                     follow name (dataUsed t), follow value (dataUsed t)), None)
      else Ok ((t, name, value), None))"

text \<open>The loop that copies the entries in their logical order.\<close>

fun copy_entries :: "HpackDynamicTable \<Rightarrow> Entry list \<Rightarrow> nat \<Rightarrow> nat \<Rightarrow> Entry list res" where
  "copy_entries t newEntries i 0 = Ok newEntries"
| "copy_entries t newEntries i (Suc n) =
     rbind (ring t (entryHead t + i)) (\<lambda>srcIdx.
     rbind (rd (entries t) srcIdx) (\<lambda>entry.
     rbind (wr newEntries i entry) (\<lambda>newEntries. copy_entries t newEntries (i + 1) n)))"

definition insert_entries :: "bool \<Rightarrow> HpackDynamicTable \<Rightarrow> (HpackDynamicTable \<times> ntstatus option) res" where
  "insert_entries grantEntries t =
     (if entryCount t \<ge> entryCapacity t then
        case allocate grantEntries 32 (entryCapacity t * 2) zero_entry of
          None \<Rightarrow> Ok (t, Some STATUS_INSUFFICIENT_RESOURCES)
        | Some newEntries \<Rightarrow>
            rbind (copy_entries t newEntries 0 (entryCount t)) (\<lambda>newEntries.
              Ok (t\<lparr>entries := newEntries, entryCapacity := entryCapacity t * 2, entryHead := 0\<rparr>, None))
      else Ok (t, None))"

definition insert_store :: "source \<Rightarrow> nat \<Rightarrow> source \<Rightarrow> nat \<Rightarrow> HpackDynamicTable \<Rightarrow> HpackDynamicTable res" where
  "insert_store name nameLen value valueLen t =
     (let nameOffset = dataUsed t in
      rbind (copy_in (dataBuffer t) nameOffset name 0 nameLen) (\<lambda>buf.
      let valueOffset = dataUsed t + nameLen in
      rbind (copy_in buf valueOffset value 0 valueLen) (\<lambda>buf.
      let head = (if entryHead t = 0 then entryCapacity t - 1 else entryHead t - 1) in
      rbind (wr (entries t) head
               \<lparr>NameOffset = nameOffset, NameLength = nameLen, ValueOffset = valueOffset, ValueLength = valueLen\<rparr>) (\<lambda>es.
        Ok (t\<lparr>dataBuffer := buf, dataUsed := dataUsed t + nameLen + valueLen, entries := es, entryHead := head,
              entryCount := entryCount t + 1,
              currentSize := currentSize t + (nameLen + valueLen + HpackEntryOverhead)\<rparr>)))))"

definition Insert :: "bool \<Rightarrow> bool \<Rightarrow> source \<Rightarrow> nat \<Rightarrow> source \<Rightarrow> nat \<Rightarrow> HpackDynamicTable \<Rightarrow>
    (HpackDynamicTable \<times> ntstatus option) res" where
  "Insert grantData grantEntries name nameLen value valueLen t =
     (if nameLen > MaxSizeT - valueLen \<or> nameLen + valueLen > MaxSizeT - HpackEntryOverhead then
        Ok (t, Some STATUS_INTEGER_OVERFLOW)
      else
        let entrySize = nameLen + valueLen + HpackEntryOverhead in
        if entrySize > maxSize t then
          Ok (t\<lparr>entryCount := 0, entryHead := 0, dataUsed := 0, currentSize := 0\<rparr>, None)
        else
          rbind (evict_until entrySize t) (\<lambda>t.
            let dataNeeded = nameLen + valueLen in
            if dataNeeded > DynamicTableDataCapacityLimit (maxSize t) then Ok (t, Some STATUS_INVALID_NETWORK_RESPONSE)
            else
              rbind (insert_compact dataNeeded name value t) (\<lambda>(t, name, value).
              rbind (insert_grow grantData dataNeeded name value t) (\<lambda>((t, name, value), status).
                if status \<noteq> None then Ok (t, status)
                else
                  rbind (insert_entries grantEntries t) (\<lambda>(t, status).
                    if status \<noteq> None then Ok (t, status)
                    else rbind (insert_store name nameLen value valueLen t) (\<lambda>t. Ok (t, None)))))))"

definition Lookup :: "nat \<Rightarrow> HpackDynamicTable \<Rightarrow> Entry option res" where
  "Lookup index t =
     (if index \<ge> entryCount t then Ok None
      else rbind (ring t (entryHead t + index)) (\<lambda>actualIdx.
           rbind (rd (entries t) actualIdx) (\<lambda>entry. Ok (Some entry))))"

section \<open>Moving bytes\<close>

definition bytes_at :: "bytes \<Rightarrow> nat \<Rightarrow> nat \<Rightarrow> bytes" where
  "bytes_at buf off n = take n (drop off buf)"

lemma length_bytes_at [simp]: "off + n \<le> length buf \<Longrightarrow> length (bytes_at buf off n) = n"
  by (simp add: bytes_at_def)

lemma nth_bytes_at: "off + n \<le> length buf \<Longrightarrow> k < n \<Longrightarrow> bytes_at buf off n ! k = buf ! (off + k)"
  by (simp add: bytes_at_def)

lemma nth_overlay:
  assumes "off + length bs \<le> length buf" "j < length buf"
  shows "overlay buf off bs ! j = (if off \<le> j \<and> j < off + length bs then bs ! (j - off) else buf ! j)"
  using assms by (auto simp: overlay_def nth_append min_absorb2)

lemma bytes_at_eqI:
  assumes "off + n \<le> length buf" "off' + n \<le> length buf'" "\<And>k. k < n \<Longrightarrow> buf ! (off + k) = buf' ! (off' + k)"
  shows "bytes_at buf off n = bytes_at buf' off' n"
  using assms by (intro nth_equalityI) (simp_all add: nth_bytes_at)

lemma bytes_at_eq_listI:
  assumes "off + length bs \<le> length buf" "\<And>k. k < length bs \<Longrightarrow> buf ! (off + k) = bs ! k"
  shows "bytes_at buf off (length bs) = bs"
  using assms by (intro nth_equalityI) (simp_all add: nth_bytes_at)

lemma bytes_at_overlay_disjoint:
  assumes "d + length bs \<le> length buf" "off + n \<le> length buf" "off + n \<le> d \<or> d + length bs \<le> off"
  shows "bytes_at (overlay buf d bs) off n = bytes_at buf off n"
  using assms by (intro bytes_at_eqI) (auto simp: nth_overlay)

lemma bytes_at_overlay_part:
  assumes "d + n \<le> length buf" "s + n \<le> length buf" "k + m \<le> n"
  shows "bytes_at (overlay buf d (bytes_at buf s n)) (d + k) m = bytes_at buf (s + k) m"
  using assms by (intro bytes_at_eqI) (auto simp: nth_overlay nth_bytes_at add.assoc)

lemma bytes_at_overlay_same: "d + length bs \<le> length buf \<Longrightarrow> bytes_at (overlay buf d bs) d (length bs) = bs"
  by (rule bytes_at_eq_listI) (auto simp: nth_overlay)

lemma move_up_eq:
  assumes "dst < src" "src + i + n \<le> length buf"
  shows "move_up (overlay buf dst (bytes_at buf src i)) dst src i n = Ok (overlay buf dst (bytes_at buf src (i + n)))"
  using assms(2)
proof (induction n arbitrary: i)
  case (Suc n)
  let ?b = "overlay buf dst (bytes_at buf src i)"
  have l: "length (bytes_at buf src i) = i" "length (bytes_at buf src (Suc i)) = Suc i" using Suc.prems by simp_all
  have lb: "length ?b = length buf" using Suc.prems assms(1) l by simp
  have rd: "rd ?b (src + i) = Ok (buf ! (src + i))"
    using Suc.prems assms(1) l lb by (simp add: nth_overlay)
  have "?b[dst + i := buf ! (src + i)] = overlay buf dst (bytes_at buf src (Suc i))"
    using Suc.prems assms(1) l
    by (intro nth_equalityI) (auto simp: nth_list_update nth_overlay nth_bytes_at Nat.add_diff_assoc)
  then show ?case using Suc.IH [of "Suc i"] Suc.prems assms(1) rd lb by simp
qed simp

lemma move_down_eq:
  assumes "src < dst" "dst + n + k \<le> length buf"
  shows "move_down (overlay buf (dst + n) (bytes_at buf (src + n) k)) dst src n = Ok (overlay buf dst (bytes_at buf src (n + k)))"
  using assms(2)
proof (induction n arbitrary: k)
  case (Suc n)
  let ?b = "overlay buf (dst + Suc n) (bytes_at buf (src + Suc n) k)"
  have l: "length (bytes_at buf (src + Suc n) k) = k" "length (bytes_at buf (src + n) (Suc k)) = Suc k"
    using Suc.prems assms(1) by simp_all
  have lb: "length ?b = length buf" using Suc.prems l by simp
  have rd: "rd ?b (src + n) = Ok (buf ! (src + n))"
    using Suc.prems assms(1) l lb by (subst rd_Ok) (simp_all add: nth_overlay)
  have "?b[dst + n := buf ! (src + n)] = overlay buf (dst + n) (bytes_at buf (src + n) (Suc k))"
  proof (intro nth_equalityI)
    show "length (?b[dst + n := buf ! (src + n)]) = length (overlay buf (dst + n) (bytes_at buf (src + n) (Suc k)))"
      using Suc.prems assms(1) lb l by simp
    fix j assume "j < length (?b[dst + n := buf ! (src + n)])"
    then have j: "j < length buf" using lb by simp
    consider "j = dst + n" | "j < dst + n" | "dst + n < j" "j < dst + Suc n + k" | "dst + Suc n + k \<le> j" by linarith
    then show "?b[dst + n := buf ! (src + n)] ! j = overlay buf (dst + n) (bytes_at buf (src + n) (Suc k)) ! j"
    proof cases
      case 3
      then have "j - (dst + n) = Suc (j - Suc (dst + n))" by simp
      moreover have "j - Suc (dst + n) < k" using 3 by linarith
      ultimately show ?thesis using 3 j Suc.prems assms(1) l lb by (simp add: nth_overlay nth_bytes_at)
    qed (use j Suc.prems assms(1) l lb in \<open>simp_all add: nth_overlay nth_bytes_at\<close>)
  qed
  then show ?case using Suc.IH [of "Suc k"] Suc.prems assms(1) rd lb by simp
qed simp

lemma MemMove_eq:
  assumes "dst + len \<le> length buf" "src + len \<le> length buf"
  shows "MemMove buf dst src len = Ok (overlay buf dst (bytes_at buf src len))"
proof -
  have same: "overlay buf src (bytes_at buf src len) = buf"
    using assms(2) by (intro nth_equalityI) (auto simp: nth_overlay nth_bytes_at)
  have none: "bytes_at buf src 0 = []" "bytes_at buf (src + len) 0 = []" by (simp_all add: bytes_at_def)
  show ?thesis
    using assms same none move_up_eq [of dst src 0 len buf] move_down_eq [of src dst len 0 buf]
    by (auto simp: MemMove_def)
qed

lemma copy_in_outside:
  assumes "i + n \<le> length bs" "dst + i + n \<le> length buf"
  shows "copy_in (overlay buf dst (take i bs)) dst (Outside bs) i n = Ok (overlay buf dst (take (i + n) bs))"
  using assms
proof (induction n arbitrary: i)
  case (Suc n)
  have "(overlay buf dst (take i bs))[dst + i := bs ! i] = overlay buf dst (take (Suc i) bs)"
    using Suc.prems by (intro nth_equalityI) (auto simp: nth_list_update nth_overlay)
  then show ?case using Suc.IH [of "Suc i"] Suc.prems by simp
qed simp

lemma copy_in_all:
  "dst + length bs \<le> length buf \<Longrightarrow> copy_in buf dst (Outside bs) 0 (length bs) = Ok (overlay buf dst bs)"
  using copy_in_outside [of 0 "length bs" bs dst buf] by simp

section \<open>The abstract table\<close>

text \<open>RFC 7541, section 4: an entry counts its bytes and 32 more; the oldest entries are evicted first.\<close>

type_synonym field = "bytes \<times> bytes"

definition field_size :: "field \<Rightarrow> nat" where
  "field_size f = length (fst f) + length (snd f) + HpackEntryOverhead"

definition table_size :: "field list \<Rightarrow> nat" where
  "table_size fs = sum_list (map field_size fs)"

fun fit :: "nat \<Rightarrow> field list \<Rightarrow> field list" where
  "fit n [] = []"
| "fit n (f # fs) = (if field_size f \<le> n then f # fit (n - field_size f) fs else [])"

definition spec_insert :: "nat \<Rightarrow> field \<Rightarrow> field list \<Rightarrow> field list" where
  "spec_insert n f fs = (if field_size f > n then [] else f # fit (n - field_size f) fs)"

lemma table_size_simps [simp]:
  "table_size [] = 0" "table_size (f # fs) = field_size f + table_size fs"
  "table_size (fs @ gs) = table_size fs + table_size gs"
  by (simp_all add: table_size_def)

lemma fit_all: "table_size fs \<le> n \<Longrightarrow> fit n fs = fs"
  by (induction fs arbitrary: n) auto

lemma fit_drop_oldest: "n < table_size (fs @ [f]) \<Longrightarrow> fit n (fs @ [f]) = fit n fs"
  by (induction fs arbitrary: n) auto

lemma table_size_fit: "table_size (fit n fs) \<le> n"
proof (induction fs arbitrary: n)
  case (Cons f fs)
  show ?case using Cons.IH [of "n - field_size f"] by (cases "field_size f \<le> n") simp_all
qed simp

lemma table_size_spec_insert: "table_size (spec_insert n f fs) \<le> n"
  using table_size_fit [of "n - field_size f" fs] by (auto simp: spec_insert_def)

section \<open>What a table holds\<close>

definition entry_at :: "HpackDynamicTable \<Rightarrow> nat \<Rightarrow> Entry" where
  "entry_at t i = entries t ! ((entryHead t + i) mod entryCapacity t)"

definition live :: "HpackDynamicTable \<Rightarrow> Entry list" where
  "live t = map (entry_at t) [0..<entryCount t]"

definition entry_size :: "Entry \<Rightarrow> nat" where
  "entry_size e = NameLength e + ValueLength e + HpackEntryOverhead"

definition field_at :: "bytes \<Rightarrow> Entry \<Rightarrow> field" where
  "field_at buf e = (bytes_at buf (NameOffset e) (NameLength e), bytes_at buf (ValueOffset e) (ValueLength e))"

definition table_fields :: "HpackDynamicTable \<Rightarrow> field list" where
  "table_fields t = map (field_at (dataBuffer t)) (live t)"

text \<open>Entries, the oldest first, lie one after the other in the used part of the buffer.\<close>

fun laid_out :: "nat \<Rightarrow> Entry list \<Rightarrow> nat \<Rightarrow> bool" where
  "laid_out lo [] hi = (lo \<le> hi)"
| "laid_out lo (e # es) hi =
     (lo \<le> NameOffset e \<and> ValueOffset e = NameOffset e + NameLength e \<and>
      laid_out (NameOffset e + NameLength e + ValueLength e) es hi)"

definition table_ok :: "HpackDynamicTable \<Rightarrow> bool" where
  "table_ok t \<longleftrightarrow>
     length (dataBuffer t) = dataCapacity t \<and> length (entries t) = entryCapacity t \<and>
     entryCount t \<le> entryCapacity t \<and> (entryHead t = 0 \<or> entryHead t < entryCapacity t) \<and>
     laid_out 0 (rev (live t)) (dataUsed t) \<and> dataUsed t \<le> dataCapacity t \<and>
     currentSize t = sum_list (map entry_size (live t))"

text \<open>The fields of the table that compaction leaves alone.\<close>

definition same_ring :: "HpackDynamicTable \<Rightarrow> HpackDynamicTable \<Rightarrow> bool" where
  "same_ring t t' \<longleftrightarrow> dataCapacity t' = dataCapacity t \<and> entryCapacity t' = entryCapacity t \<and> maxSize t' = maxSize t"

lemma same_ring_refl [simp]: "same_ring t t"
  by (simp add: same_ring_def)

lemma same_ring_trans: "same_ring a b \<Longrightarrow> same_ring b c \<Longrightarrow> same_ring a c"
  by (simp add: same_ring_def)

lemma laid_out_le: "laid_out lo es hi \<Longrightarrow> lo \<le> hi"
  by (induction es arbitrary: lo) force+

lemma laid_out_lower: "laid_out lo es hi \<Longrightarrow> lo' \<le> lo \<Longrightarrow> laid_out lo' es hi"
  by (cases es) auto

lemma laid_out_tl: "laid_out lo (e # es) hi \<Longrightarrow> laid_out lo es hi"
  by (auto elim: laid_out_lower)

lemma laid_out_entry:
  assumes "laid_out lo es hi" "e \<in> set es"
  shows "lo \<le> NameOffset e" "ValueOffset e = NameOffset e + NameLength e"
    and "NameOffset e + NameLength e + ValueLength e \<le> hi"
  using assms
proof (induction es arbitrary: lo)
  case (Cons x xs)
  { case 1 then show ?case using Cons.IH(1) by (cases "e = x") (force+) }
  { case 2 then show ?case using Cons.IH(2) by (cases "e = x") (force+) }
  { case 3 then show ?case using Cons.IH(3) laid_out_le by (cases "e = x") (force+) }
qed simp_all

lemma laid_out_snoc:
  "laid_out lo (es @ [e]) hi \<longleftrightarrow>
   (\<exists>mid. laid_out lo es mid \<and> mid \<le> NameOffset e \<and> ValueOffset e = NameOffset e + NameLength e \<and>
      NameOffset e + NameLength e + ValueLength e \<le> hi)"
  by (induction es arbitrary: lo) auto

lemma live_count [simp]: "length (live t) = entryCount t"
  by (simp add: live_def)

lemma length_table_fields [simp]: "length (table_fields t) = entryCount t"
  by (simp add: table_fields_def)

lemma nth_live: "i < entryCount t \<Longrightarrow> live t ! i = entry_at t i"
  by (simp add: live_def)

lemma field_size_live:
  assumes "table_ok t" "e \<in> set (live t)"
  shows "field_size (field_at (dataBuffer t) e) = entry_size e"
proof -
  have "ValueOffset e = NameOffset e + NameLength e" "NameOffset e + NameLength e + ValueLength e \<le> dataUsed t"
    using assms laid_out_entry(2,3) [of 0 "rev (live t)" "dataUsed t" e] by (simp_all add: table_ok_def)
  then show ?thesis using assms(1) by (simp add: field_size_def entry_size_def field_at_def table_ok_def)
qed

lemma table_size_fields: "table_ok t \<Longrightarrow> table_size (table_fields t) = currentSize t"
  unfolding table_size_def table_fields_def using field_size_live [of t]
  by (simp add: table_ok_def comp_def cong: map_cong)

lemma ring_index:
  assumes "table_ok t" "i < entryCount t"
  shows "ring t (entryHead t + i) = Ok ((entryHead t + i) mod entryCapacity t)"
    and "rd (entries t) ((entryHead t + i) mod entryCapacity t) = Ok (entry_at t i)"
  using assms by (auto simp: table_ok_def ring_def entry_at_def)

section \<open>Eviction\<close>

lemma live_snoc: "0 < entryCount t \<Longrightarrow> live t = map (entry_at t) [0..<entryCount t - 1] @ [entry_at t (entryCount t - 1)]"
  unfolding live_def by (cases "entryCount t") simp_all

lemma Evict_ok:
  assumes "table_ok t" "0 < entryCount t"
  obtains t' where "Evict t = Ok t'" "table_ok t'" "table_fields t' = butlast (table_fields t)" "same_ring t t'"
    "entryCount t' = entryCount t - 1"
proof -
  let ?n = "entryCount t - 1"
  define t1 where "t1 = t\<lparr>currentSize := currentSize t - entry_size (entry_at t ?n), entryCount := ?n\<rparr>"
  define t2 where "t2 = (if ?n = 0 then t1\<lparr>entryHead := 0, dataUsed := 0\<rparr> else t1)"
  have idx: "entryHead t + entryCount t - 1 = entryHead t + ?n" using assms(2) by simp
  have ev: "Evict t = Ok t2"
    unfolding Evict_def idx using assms ring_index [OF assms(1), of ?n]
    by (simp add: entry_size_def t1_def t2_def Let_def)
  have live1: "live t1 = map (entry_at t) [0..<?n]" by (simp add: live_def t1_def entry_at_def)
  have live2: "live t2 = map (entry_at t) [0..<?n]" using live1 by (simp add: t2_def) (simp add: live_def t1_def)
  have lo: "laid_out 0 (rev (map (entry_at t) [0..<?n])) (dataUsed t)"
    using assms by (auto simp: table_ok_def live_snoc [OF assms(2)] elim: laid_out_lower)
  have "table_ok t2"
    using assms lo live2 by (auto simp: table_ok_def t1_def t2_def live_snoc [OF assms(2)])
  moreover have "table_fields t2 = butlast (table_fields t)"
    unfolding table_fields_def live2 by (simp add: live_snoc [OF assms(2)] t1_def t2_def)
  ultimately show thesis using that [of t2] ev by (simp add: same_ring_def t1_def t2_def)
qed

lemma evict_until_ok:
  assumes "table_ok t" "need \<le> maxSize t"
  obtains t' where "evict_until need t = Ok t'" "table_ok t'" "table_fields t' = fit (maxSize t - need) (table_fields t)"
    "same_ring t t'" "currentSize t' + need \<le> maxSize t"
  using assms
proof (induction "entryCount t" arbitrary: t thesis rule: less_induct)
  case less
  show ?case
  proof (cases "currentSize t + need > maxSize t \<and> entryCount t > 0")
    case True
    then obtain t1 where t1: "Evict t = Ok t1" "table_ok t1" "table_fields t1 = butlast (table_fields t)" "same_ring t t1"
      "entryCount t1 = entryCount t - 1"
      using Evict_ok [OF less.prems(2)] by blast
    have m: "maxSize t1 = maxSize t" using t1(4) by (simp add: same_ring_def)
    obtain t' where t': "evict_until need t1 = Ok t'" "table_ok t'" "table_fields t' = fit (maxSize t1 - need) (table_fields t1)"
      "same_ring t1 t'" "currentSize t' + need \<le> maxSize t1"
      using less.hyps [of t1] True t1(2,5) less.prems(3) m by auto
    have "table_fields t \<noteq> []" using True length_table_fields [of t] by (metis length_greater_0_conv)
    then have "fit (maxSize t - need) (table_fields t1) = fit (maxSize t - need) (table_fields t)"
      using fit_drop_oldest [of "maxSize t - need" "butlast (table_fields t)" "last (table_fields t)"] True
        table_size_fields [OF less.prems(2)] t1(3) less.prems(3) by (simp add: less_diff_conv2)
    then show ?thesis
      using less.prems(1) [of t'] t' t1 True m same_ring_trans [OF t1(4) t'(4)] by (simp add: evict_until.simps [of need t])
  next
    case False
    have size: "currentSize t + need \<le> maxSize t"
    proof (cases "entryCount t = 0")
      case True
      then show ?thesis using less.prems(2,3) by (simp add: table_ok_def live_def)
    qed (use False in simp)
    then have "fit (maxSize t - need) (table_fields t) = table_fields t"
      using table_size_fields [OF less.prems(2)] by (intro fit_all) simp
    then show ?thesis using less.prems(1) [of t] less.prems(2) False size by (simp add: evict_until.simps [of need t])
  qed
qed

section \<open>Compaction\<close>

lemma ring_inj:
  assumes "i < c" "j < c" "(h + i) mod c = (h + j) mod (c :: nat)"
  shows "i = j"
proof -
  have le: "a = b" if "a \<le> b" "b < c" "(h + a) mod c = (h + b) mod c" for a b
  proof -
    have "c dvd (h + b) - (h + a)" using that by (metis mod_eq_dvd_iff_nat add_le_mono order_refl)
    then have "\<not> a < b" using that(2) dvd_imp_le [of c "b - a"] by auto
    then show ?thesis using that(1) by simp
  qed
  show ?thesis using le [of i j] le [of j i] assms by (cases "i \<le> j") auto
qed

lemma bytes_at_take: "off + m \<le> k \<Longrightarrow> take k buf = take k buf' \<Longrightarrow> bytes_at buf off m = bytes_at buf' off m"
proof -
  assume h: "off + m \<le> k" "take k buf = take k buf'"
  have "bytes_at b off m = bytes_at (take k b) off m" for b
    using h(1) by (simp add: bytes_at_def drop_take min_absorb1)
  then show ?thesis using h(2) by metis
qed

text \<open>
  One run of the loop over the \<open>n\<close> newest entries: they keep their fields and lengths and end up
  laid out from \<open>w\<close> on, below where they were; the older ring entries and the bytes below \<open>w\<close> are
  not touched.
\<close>

definition compacted :: "nat \<Rightarrow> nat \<Rightarrow> nat \<Rightarrow> HpackDynamicTable \<Rightarrow> HpackDynamicTable \<Rightarrow> bool" where
  "compacted n w hi t t' \<longleftrightarrow>
     same_ring t t' \<and> length (dataBuffer t') = length (dataBuffer t) \<and> length (entries t') = length (entries t) \<and>
     entryHead t' = entryHead t \<and> entryCount t' = entryCount t \<and> currentSize t' = currentSize t \<and>
     take w (dataBuffer t') = take w (dataBuffer t) \<and>
     (\<forall>i < entryCapacity t. i \<ge> n \<longrightarrow> entry_at t' i = entry_at t i) \<and>
     (\<forall>i < n. field_at (dataBuffer t') (entry_at t' i) = field_at (dataBuffer t) (entry_at t i) \<and>
        entry_size (entry_at t' i) = entry_size (entry_at t i)) \<and>
     laid_out w (rev (map (entry_at t') [0..<n])) (dataUsed t') \<and>
     dataUsed t' + sum_list (map (\<lambda>i. HpackEntryOverhead) [0..<n]) = w + sum_list (map (\<lambda>i. entry_size (entry_at t i)) [0..<n])"

text \<open>One step: the bytes of an entry move down to \<open>w\<close>.\<close>

definition compact_step :: "nat \<Rightarrow> nat \<Rightarrow> HpackDynamicTable \<Rightarrow> HpackDynamicTable" where
  "compact_step n w t =
     (let e = entry_at t n; len = NameLength e + ValueLength e in
      t\<lparr>dataBuffer := overlay (dataBuffer t) w (bytes_at (dataBuffer t) (NameOffset e) len),
        entries := (entries t)[(entryHead t + n) mod entryCapacity t :=
          e\<lparr>NameOffset := w, ValueOffset := w + NameLength e\<rparr>]\<rparr>)"

lemma compact_loop_step:
  assumes "n < entryCapacity t" "length (entries t) = entryCapacity t"
    and "w \<le> NameOffset (entry_at t n)"
    and "NameOffset (entry_at t n) + NameLength (entry_at t n) + ValueLength (entry_at t n) \<le> length (dataBuffer t)"
  shows "\<exists>a' b'. compact_loop (Suc n) w a b t =
    compact_loop n (w + (NameLength (entry_at t n) + ValueLength (entry_at t n))) a' b' (compact_step n w t)"
proof -
  let ?i = "(entryHead t + n) mod entryCapacity t" and ?e = "entry_at t n"
  let ?len = "NameLength ?e + ValueLength ?e"
  have i: "?i < entryCapacity t" using assms(1) by (intro mod_less_divisor) simp
  have ring: "ring t (entryHead t + n) = Ok ?i" using assms(1) by (simp add: ring_def)
  have rd: "rd (entries t) ?i = Ok ?e" using i assms(2) by (simp add: entry_at_def)
  have "overlay (dataBuffer t) w [] = dataBuffer t" by simp
  then have "(if ?len \<noteq> 0 then MemMove (dataBuffer t) w (NameOffset ?e) ?len else Ok (dataBuffer t)) =
      Ok (overlay (dataBuffer t) w (bytes_at (dataBuffer t) (NameOffset ?e) ?len))"
    using assms(3,4) by (auto simp: MemMove_eq bytes_at_def [of _ _ 0])
  then show ?thesis
    unfolding compact_loop.simps ring rbind.simps rd Let_def
    using i assms(2) by (auto simp: compact_step_def Let_def)
qed

lemma compact_step_entries:
  assumes "n < entryCapacity t" "length (entries t) = entryCapacity t" "i < entryCapacity t"
  shows "entry_at (compact_step n w t) i =
    (if i = n then (entry_at t n)\<lparr>NameOffset := w, ValueOffset := w + NameLength (entry_at t n)\<rparr> else entry_at t i)"
proof -
  have "(entryHead t + i) mod entryCapacity t < entryCapacity t" using assms(3) by (intro mod_less_divisor) simp
  then show ?thesis
    using assms ring_inj [OF assms(3,1), of "entryHead t"]
    by (auto simp: compact_step_def Let_def entry_at_def nth_list_update)
qed

lemma compact_loop_ok:
  assumes "n \<le> entryCapacity t" "length (entries t) = entryCapacity t"
    and "w \<le> lo" "laid_out lo (rev (map (entry_at t) [0..<n])) hi" "hi \<le> length (dataBuffer t)"
  shows "\<exists>t' a' b'. compact_loop n w a b t = Ok (t', a', b') \<and> compacted n w hi t t'"
  using assms
proof (induction n arbitrary: w lo a b t)
  case 0
  then show ?case by (simp add: compacted_def same_ring_def entry_at_def)
next
  case (Suc n)
  let ?e = "entry_at t n" and ?t1 = "compact_step n w t"
  let ?len = "NameLength ?e + ValueLength ?e"
  have n: "n < entryCapacity t" using Suc.prems(1) by simp
  have e: "lo \<le> NameOffset ?e" "ValueOffset ?e = NameOffset ?e + NameLength ?e"
    and rest: "laid_out (NameOffset ?e + NameLength ?e + ValueLength ?e) (rev (map (entry_at t) [0..<n])) hi"
    using Suc.prems(4) by simp_all
  have top: "NameOffset ?e + NameLength ?e + ValueLength ?e \<le> length (dataBuffer t)"
    using laid_out_le [OF rest] Suc.prems(5) by simp
  obtain a1 b1 where step: "compact_loop (Suc n) w a b t = compact_loop n (w + ?len) a1 b1 ?t1"
    using compact_loop_step [OF n Suc.prems(2) _ top] e(1) Suc.prems(3) le_trans by blast
  have buf: "dataBuffer ?t1 = overlay (dataBuffer t) w (bytes_at (dataBuffer t) (NameOffset ?e) ?len)"
    and lb: "length (dataBuffer ?t1) = length (dataBuffer t)"
    and le: "length (entries ?t1) = length (entries t)" and sr: "same_ring t ?t1"
    and others: "entryHead ?t1 = entryHead t" "entryCount ?t1 = entryCount t" "currentSize ?t1 = currentSize t"
    using top e(1) Suc.prems(3) by (simp_all add: compact_step_def Let_def same_ring_def)
  note at1 = compact_step_entries [OF n Suc.prems(2), of _ w]
  have same: "map (entry_at ?t1) [0..<n] = map (entry_at t) [0..<n]" using at1 n by simp
  have sums: "map (\<lambda>i. entry_size (entry_at ?t1 i)) [0..<n] = map (\<lambda>i. entry_size (entry_at t i)) [0..<n]"
    using same by simp
  obtain t' a' b' where run: "compact_loop n (w + ?len) a1 b1 ?t1 = Ok (t', a', b')" and c: "compacted n (w + ?len) hi ?t1 t'"
    using Suc.IH [of ?t1 "w + ?len" "NameOffset ?e + NameLength ?e + ValueLength ?e" a1 b1]
      Suc.prems rest same lb le sr e(1) by (auto simp: same_ring_def)
  have moved: "entry_at t' n = ?e\<lparr>NameOffset := w, ValueOffset := w + NameLength ?e\<rparr>"
    using c n at1 [OF n] sr by (auto simp: compacted_def same_ring_def)
  have low: "take (w + ?len) (dataBuffer t') = take (w + ?len) (dataBuffer ?t1)" using c by (simp add: compacted_def)
  have field_n: "field_at (dataBuffer t') (entry_at t' n) = field_at (dataBuffer t) ?e"
    unfolding field_at_def moved buf e(2)
    using bytes_at_take [OF _ low] bytes_at_overlay_part [of w ?len "dataBuffer t" "NameOffset ?e"] top e(1) Suc.prems(3) buf
    by (simp add: bytes_at_overlay_part [of _ _ _ _ 0, simplified])
  have older: "field_at (dataBuffer ?t1) (entry_at t i) = field_at (dataBuffer t) (entry_at t i)" if "i < n" for i
  proof -
    have "entry_at t i \<in> set (rev (map (entry_at t) [0..<n]))" using that by simp
    note b = laid_out_entry [OF rest this]
    show ?thesis unfolding field_at_def buf
      using b top e(1) Suc.prems(3,5) by (auto intro!: bytes_at_overlay_disjoint)
  qed
  have "compacted (Suc n) w hi t t'"
    unfolding compacted_def
  proof (intro conjI allI impI)
    show "same_ring t t'" using sr c same_ring_trans by (auto simp: compacted_def)
    show "take w (dataBuffer t') = take w (dataBuffer t)"
    proof -
      have "take w (dataBuffer t') = take w (dataBuffer ?t1)"
        using arg_cong [OF low, of "take w"] by (simp add: min_absorb1)
      also have "\<dots> = take w (dataBuffer t)" unfolding buf using top e(1) Suc.prems(3) by (intro take_overlay_before) simp_all
      finally show ?thesis .
    qed
    fix i assume i: "i < Suc n"
    show "field_at (dataBuffer t') (entry_at t' i) = field_at (dataBuffer t) (entry_at t i)"
      using i c at1 [of i] n older [of i] field_n by (cases "i = n") (auto simp: compacted_def)
    show "entry_size (entry_at t' i) = entry_size (entry_at t i)"
      using i c at1 [of i] n moved by (cases "i = n") (auto simp: compacted_def entry_size_def)
  next
    fix i assume "i < entryCapacity t" "Suc n \<le> i"
    then show "entry_at t' i = entry_at t i" using c at1 [of i] sr by (auto simp: compacted_def same_ring_def)
  next
    show "laid_out w (rev (map (entry_at t') [0..<Suc n])) (dataUsed t')"
      using c moved by (simp add: compacted_def add.assoc)
    show "dataUsed t' + sum_list (map (\<lambda>i. HpackEntryOverhead) [0..<Suc n]) =
        w + sum_list (map (\<lambda>i. entry_size (entry_at t i)) [0..<Suc n])"
      using c sums by (simp add: compacted_def entry_size_def [of ?e])
  qed (use c lb le others in \<open>simp_all add: compacted_def\<close>)
  then show ?case using step run by auto
qed

lemma laid_out_total:
  "laid_out lo es hi \<Longrightarrow> lo + sum_list (map entry_size es) \<le> hi + HpackEntryOverhead * length es"
proof (induction es arbitrary: lo)
  case (Cons e es)
  then have "NameOffset e + NameLength e + ValueLength e + sum_list (map entry_size es) \<le> hi + HpackEntryOverhead * length es"
    by simp
  then show ?case using Cons.prems by (simp add: entry_size_def [of e])
qed simp

lemma table_ok_total: "table_ok t \<Longrightarrow> currentSize t \<le> dataUsed t + HpackEntryOverhead * entryCount t"
  using laid_out_total [of 0 "rev (live t)" "dataUsed t"] by (simp add: table_ok_def rev_map [symmetric])

lemma table_size_count: "table_ok t \<Longrightarrow> 32 * entryCount t \<le> currentSize t"
proof -
  have "32 * length es \<le> sum_list (map entry_size es)" for es
    by (induction es) (simp_all add: entry_size_def HpackEntryOverhead_def)
  then show "table_ok t \<Longrightarrow> ?thesis" by (metis live_count table_ok_def)
qed

lemma compact_loop_offsets:
  "compact_loop n w a b t = Ok (t', a', b') \<Longrightarrow> (a = None \<longrightarrow> a' = None) \<and> (b = None \<longrightarrow> b' = None)"
proof (induction n arbitrary: w a b t)
  case (Suc n)
  then show ?case by (fastforce simp: Let_def split: if_splits)
qed simp

lemma CompactData_offsets:
  "CompactData a b t = Ok (t', a', b') \<Longrightarrow> (a = None \<longrightarrow> a' = None) \<and> (b = None \<longrightarrow> b' = None)"
  using compact_loop_offsets by (auto simp: CompactData_def split: if_splits)

lemma CompactData_ok:
  assumes "table_ok t"
  obtains t' a' b' where "CompactData a b t = Ok (t', a', b')" "table_ok t'" "table_fields t' = table_fields t" "same_ring t t'"
    "dataUsed t' + HpackEntryOverhead * entryCount t' = currentSize t'"
    "currentSize t' = currentSize t" "entryCount t' = entryCount t"
proof (cases "entryCount t = 0")
  case True
  then show thesis using that [of "t\<lparr>dataUsed := 0, entryHead := 0\<rparr>" a b] assms
    by (simp add: CompactData_def table_ok_def table_fields_def live_def same_ring_def)
next
  case False
  let ?n = "entryCount t"
  have pre: "?n \<le> entryCapacity t" "length (entries t) = entryCapacity t" "laid_out 0 (rev (live t)) (dataUsed t)"
    "dataUsed t \<le> length (dataBuffer t)" using assms by (simp_all add: table_ok_def)
  obtain t' a' b' where r: "compact_loop ?n 0 a b t = Ok (t', a', b')" and c: "compacted ?n 0 (dataUsed t) t t'"
    using compact_loop_ok [OF pre(1,2) le0 _ pre(4), of 0 a b] pre(3) unfolding live_def by blast
  have sums: "(\<Sum>i\<leftarrow>[0..<?n]. entry_size (entry_at t i)) = currentSize t"
    using assms by (simp add: table_ok_def live_def comp_def)
  have sizes: "map entry_size (live t') = map entry_size (live t)" "table_fields t' = table_fields t"
    using c by (simp_all add: compacted_def live_def table_fields_def)
  have ovh: "(\<Sum>i\<leftarrow>[0..<?n]. HpackEntryOverhead) = HpackEntryOverhead * ?n"
    by (simp add: sum_list_triv)
  have used: "dataUsed t' + HpackEntryOverhead * ?n = currentSize t" using c sums ovh by (simp add: compacted_def)
  have lay: "laid_out 0 (rev (live t')) (dataUsed t')" using c by (simp add: compacted_def live_def)
  have size: "currentSize t' = sum_list (map entry_size (live t'))"
    unfolding sizes(1) using c assms by (simp add: compacted_def table_ok_def)
  have "table_ok t'"
    using assms c lay size used table_ok_total [OF assms] by (auto simp: table_ok_def compacted_def same_ring_def)
  then show thesis using that [of t' a' b'] r False c sizes(2) used by (simp add: CompactData_def compacted_def)
qed

lemma UpdateMaxSize_ok:
  assumes "table_ok t"
  obtains t' where "UpdateMaxSize n t = Ok t'" "table_ok t'" "table_fields t' = fit n (table_fields t)" "maxSize t' = n"
    "entryCapacity t' = entryCapacity t" "currentSize t' \<le> n"
proof -
  let ?t = "t\<lparr>maxSize := n\<rparr>"
  have l: "live ?t = live t" by (simp add: live_def entry_at_def)
  then have ok: "table_ok ?t" "table_fields ?t = table_fields t" using assms by (simp_all add: table_ok_def table_fields_def)
  obtain t1 where t1: "evict_until 0 ?t = Ok t1" "table_ok t1" "table_fields t1 = fit (maxSize ?t - 0) (table_fields ?t)"
    "same_ring ?t t1" "currentSize t1 + 0 \<le> maxSize ?t"
    by (rule evict_until_ok [OF ok(1), of 0]) simp_all
  obtain t2 a b where t2: "CompactData None None t1 = Ok (t2, a, b)" "table_ok t2" "table_fields t2 = table_fields t1" "same_ring t1 t2"
    "dataUsed t2 + HpackEntryOverhead * entryCount t2 = currentSize t2"
    "currentSize t2 = currentSize t1" "entryCount t2 = entryCount t1"
    by (rule CompactData_ok [OF t1(2)])
  have "UpdateMaxSize n t = Ok t2" by (simp add: UpdateMaxSize_def t1(1) t2(1))
  then show thesis using that [of t2] t1 t2 ok by (simp add: same_ring_def)
qed

section \<open>Insertion\<close>

lemma live_cong:
  assumes "entryCount t' = entryCount t" "\<And>i. i < entryCount t \<Longrightarrow> entry_at t' i = entry_at t i"
  shows "live t' = live t"
  using assms by (simp add: live_def)

lemma fields_same_bytes:
  assumes "table_ok t" "take (dataUsed t) buf = take (dataUsed t) (dataBuffer t)"
  shows "map (field_at buf) (live t) = table_fields t"
  unfolding table_fields_def
proof (rule map_cong [OF refl])
  fix e assume "e \<in> set (live t)"
  then have "ValueOffset e = NameOffset e + NameLength e" "NameOffset e + NameLength e + ValueLength e \<le> dataUsed t"
    using assms(1) laid_out_entry(2,3) [of 0 "rev (live t)" "dataUsed t" e] by (simp_all add: table_ok_def)
  then show "field_at buf e = field_at (dataBuffer t) e"
    using bytes_at_take [OF _ assms(2)] by (simp add: field_at_def)
qed

text \<open>The table while a field of \<open>n\<close> bytes is inserted.\<close>

definition same_content :: "HpackDynamicTable \<Rightarrow> HpackDynamicTable \<Rightarrow> bool" where
  "same_content t t' \<longleftrightarrow> table_ok t' \<and> table_fields t' = table_fields t \<and> maxSize t' = maxSize t \<and>
     currentSize t' = currentSize t \<and> entryCount t' = entryCount t"

lemma same_content_refl: "table_ok t \<Longrightarrow> same_content t t"
  by (simp add: same_content_def)

lemma same_content_trans: "same_content a b \<Longrightarrow> same_content b c \<Longrightarrow> same_content a c"
  by (simp add: same_content_def)

lemma insert_compact_ok:
  assumes "table_ok t"
  obtains t' where "insert_compact n (Outside name) (Outside val) t = Ok (t', Outside name, Outside val)" "same_content t t'"
    "entryCapacity t' = entryCapacity t"
    "dataUsed t' + n \<le> dataCapacity t' \<or> dataUsed t' + HpackEntryOverhead * entryCount t' = currentSize t'"
proof (cases "dataUsed t + n > dataCapacity t")
  case True
  obtain t' a b where t': "CompactData None None t = Ok (t', a, b)" "table_ok t'" "table_fields t' = table_fields t" "same_ring t t'"
    "dataUsed t' + HpackEntryOverhead * entryCount t' = currentSize t'"
    "currentSize t' = currentSize t" "entryCount t' = entryCount t"
    by (rule CompactData_ok [OF assms])
  then show thesis using that [of t'] True CompactData_offsets [OF t'(1)]
    by (simp add: insert_compact_def rebase_def same_content_def same_ring_def)
next
  case False
  then show thesis using that [of t] assms by (simp add: insert_compact_def same_content_refl)
qed

lemma insert_grow_ok:
  assumes "table_ok t" "dataUsed t + n \<le> maxSize t \<or> dataUsed t + n \<le> dataCapacity t" "maxSize t \<le> MaxSizeT"
  obtains (grown) t' where "insert_grow g n (Outside name) (Outside val) t = Ok ((t', Outside name, Outside val), None)"
      "same_content t t'" "entryCapacity t' = entryCapacity t" "dataUsed t' + n \<le> dataCapacity t'"
  | (refused) "insert_grow g n (Outside name) (Outside val) t = Ok ((t, Outside name, Outside val), Some STATUS_INSUFFICIENT_RESOURCES)"
      "\<not> g"
proof (cases "dataUsed t + n > dataCapacity t")
  case False
  then show thesis using grown [of t] assms by (simp add: insert_grow_def same_content_refl)
next
  case True
  define limit where "limit = DynamicTableDataCapacityLimit (maxSize t)"
  define c1 where "c1 = (if dataCapacity t * 2 < dataUsed t + n + 1024 then dataUsed t + n + 1024 else dataCapacity t * 2)"
  define c2 where "c2 = (if c1 > limit then limit else c1)"
  have lim: "maxSize t \<le> limit" "limit \<le> MaxSizeT"
    unfolding limit_def DynamicTableDataCapacityLimit_def using assms(3) by (auto simp: MaxSizeT_def)
  have "dataUsed t + n \<le> c1" unfolding c1_def by auto
  then have c2: "dataUsed t + n \<le> c2" "c2 \<le> MaxSizeT" "0 < c2"
    using True assms(2) lim unfolding c2_def by auto
  have g: "insert_grow g n (Outside name) (Outside val) t =
      (case allocate g 1 c2 0 of
         None \<Rightarrow> Ok ((t, Outside name, Outside val), Some STATUS_INSUFFICIENT_RESOURCES)
       | Some newBuffer \<Rightarrow>
           Ok ((t\<lparr>dataBuffer := overlay newBuffer 0 (take (dataUsed t) (dataBuffer t)), dataCapacity := c2\<rparr>,
                Outside name, Outside val), None))"
    unfolding insert_grow_def Let_def limit_def [symmetric] c1_def [symmetric] c2_def [symmetric]
    using True c2(1) assms(1) by (simp add: table_ok_def follow_def split: option.split)
  show thesis
  proof (cases g)
    case False
    then show thesis using g refused by (simp add: allocate_def)
  next
    case gr: True
    let ?buf = "overlay (replicate c2 0) 0 (take (dataUsed t) (dataBuffer t))"
    let ?t = "t\<lparr>dataBuffer := ?buf, dataCapacity := c2\<rparr>"
    have u: "dataUsed t \<le> length (dataBuffer t)" "dataUsed t \<le> c2" using assms(1) c2(1) by (auto simp: table_ok_def)
    have same: "take (dataUsed t) ?buf = take (dataUsed t) (dataBuffer t)"
      using u by (simp add: overlay_def)
    have l: "live ?t = live t" by (rule live_cong) (simp_all add: entry_at_def)
    have "same_content t ?t"
      using assms(1) u l fields_same_bytes [OF assms(1) same] by (simp add: same_content_def table_ok_def table_fields_def)
    then show thesis using grown [of ?t] g gr c2 by (simp add: allocate_def)
  qed
qed

lemma copy_entries_eq:
  assumes "table_ok t" "i + n \<le> entryCount t" "i + n \<le> length es"
  shows "copy_entries t es i n = Ok (overlay es i (map (entry_at t) [i..<i + n]))"
  using assms(2,3)
proof (induction n arbitrary: i es)
  case (Suc n)
  have i: "i < entryCount t" "i < length es" using Suc.prems by simp_all
  have u: "[i..<i + Suc n] = i # [Suc i..<Suc i + n]" by (simp add: upt_conv_Cons)
  have "overlay (es[i := entry_at t i]) (Suc i) (map (entry_at t) [Suc i..<Suc i + n]) =
      overlay es i (map (entry_at t) [i..<i + Suc n])"
    unfolding u list.map list_update_overlay [OF i(2)]
    using overlay_overlay [of i "[entry_at t i]" "map (entry_at t) [Suc i..<Suc i + n]" es] Suc.prems by simp
  then show ?case using Suc.IH [of "Suc i" "es[i := entry_at t i]"] Suc.prems ring_index [OF assms(1) i(1)] i by simp
qed simp

lemma insert_entries_ok:
  assumes "table_ok t"
  obtains (grown) t' where "insert_entries g t = Ok (t', None)" "same_content t t'" "entryCount t' < entryCapacity t'"
      "dataUsed t' = dataUsed t" "dataCapacity t' = dataCapacity t" "entryCapacity t \<le> entryCapacity t'"
      "0 < entryCapacity t"
  | (refused) "insert_entries g t = Ok (t, Some STATUS_INSUFFICIENT_RESOURCES)"
      "\<not> g \<or> entryCapacity t = 0 \<or> entryCapacity t * 2 > MaxSizeT div 32"
proof (cases "entryCount t \<ge> entryCapacity t")
  case False
  then show thesis using grown [of t] assms by (simp add: insert_entries_def same_content_refl)
next
  case True
  let ?c = "entryCapacity t * 2" and ?n = "entryCount t"
  show thesis
  proof (cases "allocate g 32 ?c zero_entry")
    case None
    then show thesis using refused True by (auto simp: insert_entries_def allocate_def split: if_splits)
  next
    case (Some es)
    then have es: "es = replicate ?c zero_entry" "0 < ?c" by (auto simp: allocate_def split: if_splits)
    have n: "?n < ?c" "?n \<le> ?c" using es(2) assms by (auto simp: table_ok_def)
    let ?es = "overlay es 0 (map (entry_at t) [0..<?n])"
    let ?t = "t\<lparr>entries := ?es, entryCapacity := ?c, entryHead := 0\<rparr>"
    have "copy_entries t es 0 ?n = Ok ?es" using copy_entries_eq [OF assms, of 0 ?n es] n(2) es(1) by simp
    then have r: "insert_entries g t = Ok (?t, None)" using True Some by (simp add: insert_entries_def)
    have l: "live ?t = live t"
    proof (rule live_cong)
      fix i assume i: "i < ?n"
      then have "i mod ?c = i" using n(1) by simp
      then show "entry_at ?t i = entry_at t i"
        using i n es(1) unfolding entry_at_def by (simp add: nth_overlay entry_at_def)
    qed simp
    have "same_content t ?t"
      using assms n es(1) l by (simp add: same_content_def table_ok_def table_fields_def)
    then show thesis using grown [OF r] n(1) es(2) by simp
  qed
qed

lemma insert_store_ok:
  assumes "table_ok t" "entryCount t < entryCapacity t" "dataUsed t + (length n + length v) \<le> dataCapacity t"
  obtains t' where "insert_store (Outside n) (length n) (Outside v) (length v) t = Ok t'" "table_ok t'"
    "table_fields t' = (n, v) # table_fields t" "maxSize t' = maxSize t" "entryCapacity t' = entryCapacity t"
    "currentSize t' = currentSize t + field_size (n, v)"
proof -
  let ?u = "dataUsed t" and ?c = "entryCapacity t"
  define head where "head = (if entryHead t = 0 then ?c - 1 else entryHead t - 1)"
  define e where "e = \<lparr>NameOffset = ?u, NameLength = length n, ValueOffset = ?u + length n, ValueLength = length v\<rparr>"
  define buf where "buf = overlay (dataBuffer t) ?u (n @ v)"
  define t' where "t' = t\<lparr>dataBuffer := buf, dataUsed := ?u + length n + length v, entries := (entries t)[head := e],
    entryHead := head, entryCount := entryCount t + 1, currentSize := currentSize t + (length n + length v + HpackEntryOverhead)\<rparr>"
  have lb: "?u + length n + length v \<le> length (dataBuffer t)" "length buf = length (dataBuffer t)"
    using assms(1,3) by (auto simp: table_ok_def buf_def)
  have head: "head < ?c" "(head + 1) mod ?c = entryHead t mod ?c"
    using assms(1,2) by (auto simp: head_def table_ok_def)
  have "copy_in (overlay (dataBuffer t) ?u n) (?u + length n) (Outside v) 0 (length v) = Ok buf"
    unfolding buf_def using lb(1) copy_in_all [of "?u + length n" v "overlay (dataBuffer t) ?u n"] by (simp add: overlay_overlay)
  then have run: "insert_store (Outside n) (length n) (Outside v) (length v) t = Ok t'"
    unfolding insert_store_def Let_def head_def [symmetric] e_def [symmetric]
    using lb(1) head(1) assms(1) by (simp add: copy_in_all t'_def e_def table_ok_def)
  have shift: "(head + Suc i) mod ?c = (entryHead t + i) mod ?c" for i
    using head(2) by (metis add.commute add_Suc_shift mod_add_left_eq plus_1_eq_Suc)
  have newer: "entry_at t' (Suc i) = entry_at t i" if "i < entryCount t" for i
  proof -
    have "(head + Suc i) mod ?c \<noteq> (head + 0) mod ?c"
      using ring_inj [of "Suc i" ?c 0 head] that assms(2) by auto
    then have "(entryHead t + i) mod ?c \<noteq> head" using head(1) by (simp add: shift [symmetric])
    then show "entry_at t' (Suc i) = entry_at t i" by (simp add: entry_at_def t'_def shift [simplified] nth_list_update)
  qed
  have e0: "entry_at t' 0 = e" using head(1) assms(1) by (simp add: entry_at_def t'_def table_ok_def)
  have "live t' = map (entry_at t') (0 # map Suc [0..<entryCount t])"
    unfolding live_def by (simp add: t'_def upt_conv_Cons map_Suc_upt del: upt_Suc)
  also have "\<dots> = e # live t" using e0 newer by (simp add: live_def)
  finally have l: "live t' = e # live t" .
  have same: "take ?u buf = take ?u (dataBuffer t)" unfolding buf_def using lb(1) by (intro take_overlay_before) simp_all
  have "field_at buf e = (n, v)"
    using lb bytes_at_overlay_same [of ?u "n @ v" "dataBuffer t"]
    by (auto simp: field_at_def e_def buf_def overlay_def bytes_at_def)
  then have f: "table_fields t' = (n, v) # table_fields t"
    unfolding table_fields_def l using fields_same_bytes [OF assms(1) same] by (simp add: t'_def table_fields_def)
  have "laid_out 0 (rev (live t')) (dataUsed t')"
    unfolding l using assms(1) by (auto simp: laid_out_snoc e_def t'_def table_ok_def intro!: exI [of _ ?u])
  then have "table_ok t'"
    using assms lb head(1) l by (auto simp: table_ok_def t'_def e_def entry_size_def)
  then show thesis using that [OF run _ f] by (simp add: t'_def field_size_def)
qed

text \<open>
  Insertion of bytes from outside the table. It fails only for want of memory, and then the table
  has lost no more than the entries it had to evict.
\<close>

lemma Insert_ok:
  assumes "table_ok t" "currentSize t \<le> maxSize t" "maxSize t \<le> MaxSizeT div 2"
    and "length n + length v + HpackEntryOverhead \<le> MaxSizeT"
  obtains (inserted) t' where "Insert g h (Outside n) (length n) (Outside v) (length v) t = Ok (t', None)" "table_ok t'"
      "table_fields t' = spec_insert (maxSize t) (n, v) (table_fields t)" "maxSize t' = maxSize t"
      "entryCapacity t \<le> entryCapacity t'" "currentSize t' \<le> maxSize t"
      "field_size (n, v) \<le> maxSize t \<longrightarrow> 0 < entryCapacity t"
  | (refused) t' where "Insert g h (Outside n) (length n) (Outside v) (length v) t = Ok (t', Some STATUS_INSUFFICIENT_RESOURCES)"
      "table_ok t'" "table_fields t' = fit (maxSize t - field_size (n, v)) (table_fields t)" "maxSize t' = maxSize t"
      "currentSize t' \<le> maxSize t" "\<not> g \<or> \<not> h \<or> entryCapacity t = 0"
proof -
  let ?s = "field_size (n, v)" and ?d = "length n + length v"
  have s: "?d + HpackEntryOverhead = ?s" by (simp add: field_size_def)
  have max: "maxSize t \<le> MaxSizeT" using assms(3) by simp
  have noov: "\<not> (length n > MaxSizeT - length v \<or> ?d > MaxSizeT - HpackEntryOverhead)" using assms(4) by linarith
  show thesis
  proof (cases "?s > maxSize t")
    case True
    let ?t = "t\<lparr>entryCount := 0, entryHead := 0, dataUsed := 0, currentSize := 0\<rparr>"
    have "Insert g h (Outside n) (length n) (Outside v) (length v) t = Ok (?t, None)"
      using noov True by (simp add: Insert_def s)
    moreover have "table_ok ?t" "table_fields ?t = []" using assms(1) by (simp_all add: table_ok_def live_def table_fields_def)
    ultimately show thesis using inserted [of ?t] True by (simp add: spec_insert_def)
  next
    case False
    then obtain t1 where t1: "evict_until ?s t = Ok t1" "table_ok t1" "table_fields t1 = fit (maxSize t - ?s) (table_fields t)"
      "same_ring t t1" "currentSize t1 + ?s \<le> maxSize t"
      using evict_until_ok [OF assms(1), of ?s] by auto
    have m1: "maxSize t1 = maxSize t" "entryCapacity t1 = entryCapacity t" using t1(4) by (simp_all add: same_ring_def)
    obtain t2 where t2: "insert_compact ?d (Outside n) (Outside v) t1 = Ok (t2, Outside n, Outside v)" "same_content t1 t2"
      "entryCapacity t2 = entryCapacity t1"
      "dataUsed t2 + ?d \<le> dataCapacity t2 \<or> dataUsed t2 + HpackEntryOverhead * entryCount t2 = currentSize t2"
      by (rule insert_compact_ok [OF t1(2)])
    have ok2: "table_ok t2" "maxSize t2 = maxSize t" "currentSize t2 = currentSize t1"
      using t2(2) m1 by (simp_all add: same_content_def)
    have room: "dataUsed t2 + ?d \<le> maxSize t2 \<or> dataUsed t2 + ?d \<le> dataCapacity t2"
      using t2(4) t1(5) ok2(2,3) s by linarith
    have lim: "\<not> ?d > DynamicTableDataCapacityLimit (maxSize t1)"
      using False m1 max s unfolding DynamicTableDataCapacityLimit_def by (auto simp: MaxSizeT_def)
    define rest where "rest = (\<lambda>((t, name, val), status).
      if status \<noteq> None then Ok (t, status)
      else rbind (insert_entries h t) (\<lambda>(t, status).
        if status \<noteq> None then Ok (t, status)
        else rbind (insert_store name (length n) val (length v) t) (\<lambda>t. Ok (t, None))))"
    have ins: "Insert g h (Outside n) (length n) (Outside v) (length v) t =
        rbind (insert_grow g ?d (Outside n) (Outside v) t2) rest"
      unfolding Insert_def Let_def s rest_def using noov False lim t1(1) t2(1) by simp
    show thesis
    proof (rule insert_grow_ok [OF ok2(1) room, of g n v])
      show "maxSize t2 \<le> MaxSizeT" using ok2(2) max by simp
    next
      assume r: "insert_grow g ?d (Outside n) (Outside v) t2 = Ok ((t2, Outside n, Outside v), Some STATUS_INSUFFICIENT_RESOURCES)" "\<not> g"
      then show thesis using refused [of t2] ins ok2 t1 t2(2) by (simp add: rest_def same_content_def)
    next
      fix t3 assume t3: "insert_grow g ?d (Outside n) (Outside v) t2 = Ok ((t3, Outside n, Outside v), None)"
        "same_content t2 t3" "entryCapacity t3 = entryCapacity t2" "dataUsed t3 + ?d \<le> dataCapacity t3"
      have c3: "same_content t1 t3" by (rule same_content_trans [OF t2(2) t3(2)])
      have ok3: "table_ok t3" "table_fields t3 = table_fields t1" "maxSize t3 = maxSize t" "currentSize t3 = currentSize t1"
        using c3 m1 by (simp_all add: same_content_def)
      show thesis
      proof (rule insert_entries_ok [OF ok3(1), of h])
        assume r: "insert_entries h t3 = Ok (t3, Some STATUS_INSUFFICIENT_RESOURCES)"
          "\<not> h \<or> entryCapacity t3 = 0 \<or> entryCapacity t3 * 2 > MaxSizeT div 32"
        have "entryCapacity t3 * 2 \<le> MaxSizeT div 32 \<or> \<not> entryCapacity t3 \<le> entryCount t3"
        proof -
          have "32 * entryCount t3 \<le> currentSize t3"
            using table_size_count [OF ok3(1)] by simp
          then show ?thesis using ok3(3,4) t1(5) assms(3) by (auto simp: MaxSizeT_def)
        qed
        moreover have "entryCapacity t3 \<le> entryCount t3"
          using r(1) by (auto simp: insert_entries_def split: if_splits)
        ultimately have "\<not> h \<or> entryCapacity t = 0" using r(2) t3(3) t2(3) m1 by auto
        then show thesis using refused [of t3] ins t3(1) r(1) ok3 t1 by (simp add: rest_def)
      next
        fix t4 assume t4: "insert_entries h t3 = Ok (t4, None)" "same_content t3 t4" "entryCount t4 < entryCapacity t4"
          "dataUsed t4 = dataUsed t3" "dataCapacity t4 = dataCapacity t3" "entryCapacity t3 \<le> entryCapacity t4" "0 < entryCapacity t3"
        have c4: "table_ok t4" "table_fields t4 = table_fields t1" "maxSize t4 = maxSize t" "currentSize t4 = currentSize t1"
          using t4(2) ok3 by (simp_all add: same_content_def)
        obtain t5 where t5: "insert_store (Outside n) (length n) (Outside v) (length v) t4 = Ok t5" "table_ok t5"
          "table_fields t5 = (n, v) # table_fields t4" "maxSize t5 = maxSize t4" "entryCapacity t5 = entryCapacity t4"
          "currentSize t5 = currentSize t4 + ?s"
          using insert_store_ok [OF c4(1) t4(3)] t3(4) t4(4,5) by auto
        have "table_fields t5 = spec_insert (maxSize t) (n, v) (table_fields t)"
          using t5(3) c4(2) t1(3) False by (simp add: spec_insert_def)
        then show thesis using inserted [of t5] ins t3(1,3) t2(3) t4(1,6,7) t5 c4 t1(5) m1 by (simp add: rest_def)
      qed
    qed
  qed
qed

section \<open>The table refines the abstract table\<close>

datatype table_op = InsertOp bytes bytes | ResizeOp nat

fun spec_step :: "table_op \<Rightarrow> nat \<times> field list \<Rightarrow> nat \<times> field list" where
  "spec_step (InsertOp n v) (m, fs) = (m, spec_insert m (n, v) fs)"
| "spec_step (ResizeOp k) (m, fs) = (k, fit k fs)"

definition spec_run :: "table_op list \<Rightarrow> nat \<times> field list \<Rightarrow> nat \<times> field list" where
  "spec_run ops s = foldl (\<lambda>s op. spec_step op s) s ops"

text \<open>A sequence of operations, up to the first that fails.\<close>

primrec run_ops :: "('o \<Rightarrow> 't \<Rightarrow> 't res) \<Rightarrow> 'o list \<Rightarrow> 't \<Rightarrow> 't res" where
  "run_ops step [] t = Ok t"
| "run_ops step (op # ops) t = rbind (step op t) (run_ops step ops)"

text \<open>The sizes a \<open>SIZE_T\<close> can hold.\<close>

fun admissible :: "table_op \<Rightarrow> bool" where
  "admissible (InsertOp n v) = (length n + length v + HpackEntryOverhead \<le> MaxSizeT)"
| "admissible (ResizeOp k) = (k \<le> MaxSizeT div 2)"

text \<open>
  What the encoder and the decoder rely on: operations that implement the abstract ones, and a
  lookup that reads the abstract table.
\<close>

locale header_table =
  fixes valid :: "'t \<Rightarrow> bool" and content :: "'t \<Rightarrow> nat \<times> field list"
    and step :: "table_op \<Rightarrow> 't \<Rightarrow> 't res" and look :: "nat \<Rightarrow> 't \<Rightarrow> field option res"
  assumes step_law: "valid t \<Longrightarrow> admissible op \<Longrightarrow>
      \<exists>t'. step op t = Ok t' \<and> valid t' \<and> content t' = spec_step op (content t)"
    and look_law: "valid t \<Longrightarrow> look i t = Ok (if i < length (snd (content t)) then Some (snd (content t) ! i) else None)"
    and size_law: "valid t \<Longrightarrow> table_size (snd (content t)) \<le> fst (content t)"
begin

lemma run_refines:
  "valid t \<Longrightarrow> list_all admissible ops \<Longrightarrow>
   \<exists>t'. run_ops step ops t = Ok t' \<and> valid t' \<and> content t' = spec_run ops (content t)"
proof (induction ops arbitrary: t)
  case (Cons op ops)
  then obtain t1 where t1: "step op t = Ok t1" "valid t1" "content t1 = spec_step op (content t)"
    using step_law [of t op] by auto
  with Cons.IH [OF t1(2)] Cons.prems(2) show ?case by (simp add: spec_run_def)
qed (simp add: spec_run_def)

text \<open>The newest field has index 0 and the others move up by one.\<close>

lemma look_after_insert:
  assumes "valid t" "admissible (InsertOp n v)" "step (InsertOp n v) t = Ok t'" "field_size (n, v) \<le> fst (content t)"
  shows "look 0 t' = Ok (Some (n, v))"
    and "field_size (n, v) + table_size (snd (content t)) \<le> fst (content t) \<Longrightarrow> look (Suc i) t' = look i t"
proof -
  have t': "valid t'" "snd (content t') = spec_insert (fst (content t)) (n, v) (snd (content t))"
    using step_law [OF assms(1,2)] assms(3) by (cases "content t"; auto)+
  then show "look 0 t' = Ok (Some (n, v))" using look_law [OF t'(1)] assms(4) by (simp add: spec_insert_def)
  assume "field_size (n, v) + table_size (snd (content t)) \<le> fst (content t)"
  then have "snd (content t') = (n, v) # snd (content t)" using t'(2) assms(4) by (simp add: spec_insert_def fit_all)
  then show "look (Suc i) t' = look i t" using look_law [OF t'(1)] look_law [OF assms(1)] by simp
qed

text \<open>Tables with the same content stay alike under the same operations.\<close>

lemma run_in_step:
  assumes "valid t" "valid u" "content t = content u" "list_all admissible ops" "run_ops step ops t = Ok t'" "run_ops step ops u = Ok u'"
  shows "look i t' = look i u'"
proof -
  have "valid t'" "valid u'" "content t' = content u'"
    using run_refines [OF assms(1,4)] run_refines [OF assms(2,4)] assms(3,5,6) by auto
  then show ?thesis using look_law by metis
qed

end

fun table_step :: "table_op \<Rightarrow> HpackDynamicTable \<Rightarrow> HpackDynamicTable res" where
  "table_step (InsertOp n v) t =
     rbind (Insert True True (Outside n) (length n) (Outside v) (length v) t)
       (\<lambda>(t, status). case status of None \<Rightarrow> Ok t | Some s \<Rightarrow> Err s)"
| "table_step (ResizeOp k) t = UpdateMaxSize k t"

text \<open>A lookup, followed by reads through the pointers it returns.\<close>

definition read_entry :: "bytes \<Rightarrow> Entry \<Rightarrow> field res" where
  "read_entry buf e =
     (if NameOffset e + NameLength e \<le> length buf \<and> ValueOffset e + ValueLength e \<le> length buf
      then Ok (field_at buf e) else Fault)"

definition lookup_field :: "nat \<Rightarrow> HpackDynamicTable \<Rightarrow> field option res" where
  "lookup_field i t =
     rbind (Lookup i t) (\<lambda>found. case found of
       None \<Rightarrow> Ok None
     | Some e \<Rightarrow> rbind (read_entry (dataBuffer t) e) (\<lambda>f. Ok (Some f)))"

definition table_valid :: "HpackDynamicTable \<Rightarrow> bool" where
  "table_valid t \<longleftrightarrow> table_ok t \<and> currentSize t \<le> maxSize t \<and> maxSize t \<le> MaxSizeT div 2 \<and> 0 < entryCapacity t"

definition table_content :: "HpackDynamicTable \<Rightarrow> nat \<times> field list" where
  "table_content t = (maxSize t, table_fields t)"

lemma Lookup_live: "table_ok t \<Longrightarrow> Lookup i t = Ok (if i < entryCount t then Some (live t ! i) else None)"
  by (simp add: Lookup_def ring_index nth_live)

lemma live_in_buffer:
  assumes "table_ok t" "e \<in> set (live t)"
  shows "NameOffset e + NameLength e \<le> length (dataBuffer t)" "ValueOffset e + ValueLength e \<le> length (dataBuffer t)"
  using assms laid_out_entry(2,3) [of 0 "rev (live t)" "dataUsed t" e] by (auto simp: table_ok_def)

lemma read_entry_ok: "table_ok t \<Longrightarrow> i < entryCount t \<Longrightarrow> read_entry (dataBuffer t) (live t ! i) = Ok (field_at (dataBuffer t) (live t ! i))"
  using live_in_buffer [of t "live t ! i"] by (simp add: read_entry_def)

lemma lookup_field_eq:
  "table_ok t \<Longrightarrow> lookup_field i t = Ok (if i < length (table_fields t) then Some (table_fields t ! i) else None)"
  by (auto simp: lookup_field_def Lookup_live table_fields_def read_entry_ok)

lemma table_step_refines:
  assumes "table_valid t" "admissible op"
  shows "\<exists>t'. table_step op t = Ok t' \<and> table_valid t' \<and> table_content t' = spec_step op (table_content t)"
proof (cases op)
  case (InsertOp n v)
  have t: "table_ok t" "currentSize t \<le> maxSize t" "maxSize t \<le> MaxSizeT div 2" "0 < entryCapacity t"
    using assms(1) by (simp_all add: table_valid_def)
  show ?thesis
    by (rule Insert_ok [OF t(1-3), of n v True True])
      (use assms(2) t(3,4) InsertOp in \<open>auto simp: table_valid_def table_content_def\<close>)
next
  case (ResizeOp k)
  have t: "table_ok t" using assms(1) by (simp add: table_valid_def)
  show ?thesis
    by (rule UpdateMaxSize_ok [OF t, of k])
      (use assms ResizeOp in \<open>auto simp: table_valid_def table_content_def\<close>)
qed

interpretation dyn: header_table table_valid table_content table_step lookup_field
proof unfold_locales
  fix t assume t: "table_valid t"
  then show "lookup_field i t = Ok (if i < length (snd (table_content t)) then Some (snd (table_content t) ! i) else None)" for i
    by (simp add: lookup_field_eq table_valid_def table_content_def)
  show "table_size (snd (table_content t)) \<le> fst (table_content t)"
    using t table_size_fields [of t] by (simp add: table_valid_def table_content_def)
qed (rule table_step_refines)

lemma Table_Initialize_ok:
  assumes "1 \<le> n" "n \<le> MaxSizeT div 2"
  obtains t' where "Table_Initialize True True n t = (t', None)" "table_valid t'" "table_content t' = (n, [])"
proof -
  let ?cap = "if DynamicTableDataCapacityLimit n < 1024 then 1024 else DynamicTableDataCapacityLimit n"
  have cap: "?cap \<le> MaxSizeT" "?cap \<noteq> 0" unfolding DynamicTableDataCapacityLimit_def MaxSizeT_def by auto
  define t' where "t' = (Table_Reset t)\<lparr>maxSize := n, dataCapacity := ?cap, dataBuffer := replicate ?cap 0, entryCapacity := 128,
    entries := replicate 128 zero_entry\<rparr>"
  have a: "allocate True 1 ?cap 0 = Some (replicate ?cap (0 :: UCHAR))"
    using cap unfolding allocate_def by (simp only: div_by_1) simp
  have b: "allocate True 32 128 zero_entry = Some (replicate 128 zero_entry)"
    unfolding allocate_def MaxSizeT_def by simp
  have "Table_Initialize True True n t = (t', None)"
    using assms(1) unfolding Table_Initialize_def Let_def a b by (simp add: t'_def)
  moreover have "live t' = []" by (simp add: live_def t'_def Table_Reset_def)
  then have "table_valid t'" "table_content t' = (n, [])"
    using assms(2) by (simp_all add: table_valid_def table_ok_def table_content_def table_fields_def t'_def Table_Reset_def)
  ultimately show thesis by (rule that)
qed

section \<open>Properties\<close>

text \<open>C18: The dynamic table implements RFC 7541, section 4. After \<open>Initialize\<close> and any insertions and
  size updates (fields and sizes that a \<open>SIZE_T\<close> can hold, allocations granted) the table holds
  exactly the fields of the abstract table, newest first, with the oldest evicted; \<open>Lookup\<close> reads
  them by index and nothing else; and the size it tracks is theirs and never exceeds the maximum.
  No step accesses memory out of bounds, however the ring and the data buffer were compacted and
  grown.\<close>

theorem dynamic_table_refines:
  assumes "1 \<le> n" "n \<le> MaxSizeT div 2" "list_all admissible ops"
  shows "\<exists>t0 t. Table_Initialize True True n fresh_table = (t0, None) \<and> run_ops table_step ops t0 = Ok t \<and>
    (maxSize t, table_fields t) = spec_run ops (n, []) \<and>
    currentSize t = table_size (table_fields t) \<and> currentSize t \<le> maxSize t \<and>
    (\<forall>i. lookup_field i t = Ok (if i < entryCount t then Some (snd (spec_run ops (n, [])) ! i) else None))"
proof -
  obtain t0 where t0: "Table_Initialize True True n fresh_table = (t0, None)" "table_valid t0" "table_content t0 = (n, [])"
    by (rule Table_Initialize_ok [OF assms(1,2)])
  obtain t where t: "run_ops table_step ops t0 = Ok t" "table_valid t" "table_content t = spec_run ops (n, [])"
    using dyn.run_refines [OF t0(2) assms(3)] t0(3) by auto
  have s: "spec_run ops (n, []) = (maxSize t, table_fields t)" using t(3) by (simp add: table_content_def)
  have "table_ok t" using t(2) by (simp add: table_valid_def)
  then show ?thesis
    unfolding s using t0(1) t(1,2) table_size_fields [of t] dyn.look_law [OF t(2)]
    by (intro exI [of _ t0] exI [of _ t]) (simp add: table_valid_def table_content_def)
qed

theorem dynamic_table_refines_witness:
  "\<exists>t0 t. Table_Initialize True True 70 fresh_table = (t0, None) \<and>
     run_ops table_step [InsertOp [1] [2], InsertOp [3] [4, 5], InsertOp [6] []] t0 = Ok t \<and>
     table_fields t = [([6], []), ([3], [4, 5])] \<and> currentSize t = 68 \<and>
     lookup_field 0 t = Ok (Some ([6], []))"
proof -
  let ?ops = "[InsertOp [1] [2], InsertOp [3] [4, 5], InsertOp [6] []]"
  have s: "spec_run ?ops (70, []) = (70, [([6], []), ([3], [4, 5])])"
    by (simp add: spec_run_def spec_insert_def field_size_def HpackEntryOverhead_def)
  have "list_all admissible ?ops" "(70 :: nat) \<le> MaxSizeT div 2"
    by (simp_all add: MaxSizeT_def HpackEntryOverhead_def)
  then obtain t0 t where t: "Table_Initialize True True 70 fresh_table = (t0, None)" "run_ops table_step ?ops t0 = Ok t"
    "(maxSize t, table_fields t) = (70, [([6], []), ([3], [4, 5])])" "currentSize t = table_size (table_fields t)"
    "\<forall>i. lookup_field i t = Ok (if i < entryCount t then Some (snd (spec_run ?ops (70, [])) ! i) else None)"
    using dynamic_table_refines [of 70 ?ops] unfolding s by auto
  moreover have "entryCount t = 2" using t(3) length_table_fields [of t] by simp
  ultimately show ?thesis
    by (intro exI [of _ t0] exI [of _ t]) (simp add: s field_size_def HpackEntryOverhead_def)
qed



end
