(* ===== verification/Kh_HpackCodec.thy ===== *)
theory Kh_HpackCodec
  imports Kh_HpackHuffman Kh_HpackTable
begin

text \<open>
  The HPACK encoder and decoder, the classes \<open>HpackEncoder\<close> and \<open>HpackDecoder\<close> of
  \<^verbatim>\<open>http2/Hpack.cpp\<close>, over the integers, the Huffman code and the tables of the theories before.

  The name/value buffer of the decoder is a writer: the buffer and the offset \<open>nvOffset\<close> of its
  first free byte. The decoded headers point into it; a header is the offsets and lengths of its
  name and value. Operations that change a table before they fail return the state beside the
  status. Whether the allocations of an insertion succeed is a function of the position of the
  header (in the block or in the array of headers).
\<close>

unbundle bit_operations_syntax

section \<open>Helpers\<close>

definition lower :: "UCHAR \<Rightarrow> UCHAR" where
  "lower c = (if c \<ge> 0x41 \<and> c \<le> 0x5A then c + 32 else c)"

text \<open>The loops of the two comparisons, over the bytes left.\<close>

fun name_loop :: "bytes \<Rightarrow> bytes \<Rightarrow> bool" where
  "name_loop (a # as) (b # bs) = (if lower a \<noteq> lower b then False else name_loop as bs)"
| "name_loop _ _ = True"

definition NameEquals :: "bytes \<Rightarrow> bytes \<Rightarrow> bool" where
  "NameEquals a b = (if length a \<noteq> length b then False else name_loop a b)"

fun value_loop :: "bytes \<Rightarrow> bytes \<Rightarrow> bool" where
  "value_loop (a # as) (b # bs) = (if a \<noteq> b then False else value_loop as bs)"
| "value_loop _ _ = True"

definition ValueEquals :: "bytes \<Rightarrow> bytes \<Rightarrow> bool" where
  "ValueEquals a b = (if length a \<noteq> length b then False else value_loop a b)"

definition RangeFits :: "nat \<Rightarrow> nat \<Rightarrow> nat \<Rightarrow> bool" where
  "RangeFits off len capacity \<longleftrightarrow> off \<le> capacity \<and> len \<le> capacity - off"

definition MultiplySize :: "nat \<Rightarrow> nat \<Rightarrow> nat option" where
  "MultiplySize left right = (if left \<noteq> 0 \<and> right > MaxSizeT div left then None else Some (left * right))"

definition AddHeaderListSize :: "nat \<Rightarrow> nat \<Rightarrow> nat \<Rightarrow> nat \<Rightarrow> nat option" where
  "AddHeaderListSize nameLength valueLength maxHeaderListSize headerListSize =
     (if nameLength > MaxSizeT - valueLength then None
      else
        let fieldSize = nameLength + valueLength in
        if fieldSize > MaxSizeT - HpackEntryOverhead then None
        else
          let fieldSize = fieldSize + HpackEntryOverhead in
          if headerListSize > MaxSizeT - fieldSize then None
          else if maxHeaderListSize \<noteq> MaxSizeT \<and>
            (fieldSize > maxHeaderListSize \<or> headerListSize > maxHeaderListSize - fieldSize) then None
          else Some (headerListSize + fieldSize))"

definition IsSensitiveHeaderName :: "bytes \<Rightarrow> bool" where
  "IsSensitiveHeaderName name \<longleftrightarrow>
     NameEquals name (lit ''authorization'') \<or> NameEquals name (lit ''cookie'') \<or>
     NameEquals name (lit ''proxy-authorization'')"

definition EncodeHeaderString :: "UCHAR span \<Rightarrow> writer \<Rightarrow> writer res" where
  "EncodeHeaderString str w =
     (if span_null str \<and> span_len str \<noteq> 0 then Err STATUS_INVALID_PARAMETER
      else if snd w > length (fst w) then Err STATUS_BUFFER_TOO_SMALL
      else
        rbind (HpackHuffmanEncodedLength str) (\<lambda>huffLen.
          if huffLen < span_len str \<and> span_len str > 0 then
            rbind (HpackEncodeInteger (word_of_nat huffLen) 0x80 7 w) (HpackHuffmanEncode str)
          else
            rbind (HpackEncodeInteger (word_of_nat (span_len str)) 0x00 7 w) (\<lambda>w.
              if span_len str \<noteq> 0 then
                if \<not> RangeFits (snd w) (span_len str) (length (fst w)) then Err STATUS_BUFFER_TOO_SMALL
                else put_bytes (span_list str) w
              else Ok w)))"

section \<open>Decoder\<close>

text \<open>A pointer to a part of a header: a literal of the static table, an offset in the data buffer
  of the dynamic table, or an offset in the name/value buffer.\<close>

datatype part = InStatic bytes | InTable nat | InBuffer nat

definition MaterializeHeaderPart :: "bytes \<Rightarrow> part \<Rightarrow> nat \<Rightarrow> writer \<Rightarrow> (nat \<times> writer) res" where
  "MaterializeHeaderPart tableData src len w =
     (case src of
        InBuffer off \<Rightarrow>
          if off < length (fst w) then Ok (off, w)
          else if \<not> RangeFits (snd w) len (length (fst w)) then Err STATUS_BUFFER_TOO_SMALL
          else if len \<noteq> 0 then Fault
          else Ok (snd w, w)
      | InStatic bs \<Rightarrow>
          if \<not> RangeFits (snd w) len (length (fst w)) then Err STATUS_BUFFER_TOO_SMALL
          else if len > length bs then Fault
          else rbind (put_bytes (take len bs) w) (\<lambda>w'. Ok (snd w, w'))
      | InTable off \<Rightarrow>
          if \<not> RangeFits (snd w) len (length (fst w)) then Err STATUS_BUFFER_TOO_SMALL
          else if off + len > length tableData then Fault
          else rbind (put_bytes (bytes_at tableData off len) w) (\<lambda>w'. Ok (snd w, w')))"

text \<open>A string literal of the block: its part and length, the offset after it, and the buffer.\<close>

definition decode_string :: "bytes \<Rightarrow> nat \<Rightarrow> writer \<Rightarrow> (part \<times> nat \<times> nat \<times> writer) res" where
  "decode_string block offset w =
     (if offset \<ge> length block then Err STATUS_INVALID_NETWORK_RESPONSE
      else rbind (rd block offset) (\<lambda>first.
        rbind (HpackDecodeInteger (drop offset block) 7) (\<lambda>(strLen, consumed).
          let offset = offset + consumed;
              len = unat strLen
          in
          if \<not> RangeFits offset len (length block) then Err STATUS_INVALID_NETWORK_RESPONSE
          else if first AND 0x80 \<noteq> 0 then
            case MultiplySize len 2 of
              None \<Rightarrow> Err STATUS_BUFFER_TOO_SMALL
            | Some hint \<Rightarrow>
                if \<not> RangeFits (snd w) hint (length (fst w)) then Err STATUS_BUFFER_TOO_SMALL
                else rbind (HpackHuffmanDecode (Span (bytes_at block offset len)) w) (\<lambda>w'.
                       Ok (InBuffer (snd w), snd w' - snd w, offset + len, w'))
          else if \<not> RangeFits (snd w) len (length (fst w)) then Err STATUS_BUFFER_TOO_SMALL
          else rbind (put_bytes (bytes_at block offset len) w) (\<lambda>w'.
                 Ok (InBuffer (snd w), len, offset + len, w')))))"

text \<open>The two lookups of an index: the name alone, or the whole field.\<close>

definition lookup_indexed :: "nat \<Rightarrow> HpackDynamicTable \<Rightarrow> ((part \<times> nat) \<times> (part \<times> nat)) res" where
  "lookup_indexed index t =
     (if index \<le> HpackStaticTableSize then
        rbind (rd HpackStaticTable (index - 1)) (\<lambda>(n, v). Ok ((InStatic n, length n), (InStatic v, length v)))
      else
        rbind (Lookup (index - HpackStaticTableSize - 1) t) (\<lambda>found.
          case found of
            None \<Rightarrow> Err STATUS_INVALID_NETWORK_RESPONSE
          | Some e \<Rightarrow> Ok ((InTable (NameOffset e), NameLength e), (InTable (ValueOffset e), ValueLength e))))"

text \<open>A decoded field: its parts, the offset after it, and the buffer.\<close>

record decoded_field =
  dfName :: "part \<times> nat"
  dfValue :: "part \<times> nat"
  dfOffset :: nat
  dfBuffer :: writer

definition decode_indexed :: "bytes \<Rightarrow> HpackDynamicTable \<Rightarrow> nat \<Rightarrow> writer \<Rightarrow> decoded_field res" where
  "decode_indexed block t offset w =
     rbind (HpackDecodeInteger (drop offset block) 7) (\<lambda>(index, consumed).
       if index = 0 then Err STATUS_INVALID_NETWORK_RESPONSE
       else rbind (lookup_indexed (unat index) t) (\<lambda>(name, val).
              Ok \<lparr>dfName = name, dfValue = val, dfOffset = offset + consumed, dfBuffer = w\<rparr>))"

definition decode_literal :: "nat \<Rightarrow> bytes \<Rightarrow> HpackDynamicTable \<Rightarrow> nat \<Rightarrow> writer \<Rightarrow> decoded_field res" where
  "decode_literal prefixBits block t offset w =
     rbind (HpackDecodeInteger (drop offset block) prefixBits) (\<lambda>(index, consumed).
     rbind (if index > 0 then
              rbind (lookup_indexed (unat index) t) (\<lambda>(name, _). Ok (name, offset + consumed, w))
            else
              rbind (decode_string block (offset + consumed) w) (\<lambda>(src, len, offset, w). Ok ((src, len), offset, w)))
       (\<lambda>(name, offset, w).
     rbind (decode_string block offset w) (\<lambda>(src, len, offset, w).
       Ok \<lparr>dfName = name, dfValue = (src, len), dfOffset = offset, dfBuffer = w\<rparr>)))"

record header_ref =
  hrName :: "nat \<times> nat"
  hrValue :: "nat \<times> nat"

record decode_state =
  dsTable :: HpackDynamicTable
  dsOffset :: nat
  dsHeaders :: "header_ref list"
  dsBuffer :: writer
  dsListSize :: nat
  dsAllowUpdate :: bool

text \<open>The end of the loop body: a field is copied into the buffer, counted, inserted and emitted.\<close>

definition emit_field :: "bool \<times> bool \<Rightarrow> nat \<Rightarrow> nat \<Rightarrow> bool \<Rightarrow> decoded_field \<Rightarrow> decode_state \<Rightarrow>
    (decode_state \<times> ntstatus option) res" where
  "emit_field grant headerCapacity maxHeaderListSize addToTable f st =
     (let fail = (\<lambda>s. Ok (st, Some s)); tableData = dataBuffer (dsTable st) in
      case MaterializeHeaderPart tableData (fst (dfName f)) (snd (dfName f)) (dfBuffer f) of
        Err s \<Rightarrow> fail s
      | Fault \<Rightarrow> Fault
      | Ok (outName, w) \<Rightarrow>
      (case MaterializeHeaderPart tableData (fst (dfValue f)) (snd (dfValue f)) w of
        Err s \<Rightarrow> fail s
      | Fault \<Rightarrow> Fault
      | Ok (outValue, w) \<Rightarrow>
      let nameLen = snd (dfName f); valueLen = snd (dfValue f) in
      (case AddHeaderListSize nameLen valueLen maxHeaderListSize (dsListSize st) of
        None \<Rightarrow> fail STATUS_INVALID_NETWORK_RESPONSE
      | Some listSize \<Rightarrow>
      rbind (if addToTable then
               Insert (fst grant) (snd grant) (Outside (bytes_at (fst w) outName nameLen)) nameLen
                 (Outside (bytes_at (fst w) outValue valueLen)) valueLen (dsTable st)
             else Ok (dsTable st, None)) (\<lambda>(t, status).
        if status \<noteq> None then Ok (st\<lparr>dsTable := t\<rparr>, status)
        else if length (dsHeaders st) \<ge> headerCapacity then Ok (st\<lparr>dsTable := t\<rparr>, Some STATUS_BUFFER_TOO_SMALL)
        else Ok (\<lparr>dsTable = t, dsOffset = dfOffset f,
                  dsHeaders = dsHeaders st @ [\<lparr>hrName = (outName, nameLen), hrValue = (outValue, valueLen)\<rparr>],
                  dsBuffer = w, dsListSize = listSize, dsAllowUpdate = False\<rparr>, None)))))"

text \<open>One turn of the loop. A failure before the table is touched leaves it as it was.\<close>

definition decode_step :: "(nat \<Rightarrow> bool \<times> bool) \<Rightarrow> nat \<Rightarrow> nat \<Rightarrow> nat \<Rightarrow> bytes \<Rightarrow> decode_state \<Rightarrow>
    (decode_state \<times> ntstatus option) res" where
  "decode_step grant headerCapacity maxHeaderListSize maxTable block st =
     (let off = dsOffset st;
          emit = (\<lambda>add field. case field of
            Err s \<Rightarrow> Ok (st, Some s)
          | Fault \<Rightarrow> Fault
          | Ok f \<Rightarrow> emit_field (grant off) headerCapacity maxHeaderListSize add f st)
      in
      rbind (rd block off) (\<lambda>byte.
        if byte AND 0x80 \<noteq> 0 then emit False (decode_indexed block (dsTable st) off (dsBuffer st))
        else if byte AND 0xC0 = 0x40 then emit True (decode_literal 6 block (dsTable st) off (dsBuffer st))
        else if byte AND 0xF0 = 0x00 \<or> byte AND 0xF0 = 0x10 then emit False (decode_literal 4 block (dsTable st) off (dsBuffer st))
        else if byte AND 0xE0 = 0x20 then
          if \<not> dsAllowUpdate st then Ok (st, Some STATUS_INVALID_NETWORK_RESPONSE)
          else
            case HpackDecodeInteger (drop off block) 5 of
              Err s \<Rightarrow> Ok (st, Some s)
            | Fault \<Rightarrow> Fault
            | Ok (newSize, consumed) \<Rightarrow>
                if unat newSize > maxTable then Ok (st, Some STATUS_INVALID_NETWORK_RESPONSE)
                else rbind (UpdateMaxSize (unat newSize) (dsTable st)) (\<lambda>t.
                       Ok (st\<lparr>dsTable := t, dsOffset := off + consumed\<rparr>, None))
        else Ok (st, Some STATUS_INVALID_NETWORK_RESPONSE)))"

lemma decode_string_offset: "decode_string block off w = Ok (p, len, off', w') \<Longrightarrow> off < off'"
  using HpackDecodeInteger_sound [of "drop off block" 7]
  by (auto simp: decode_string_def Let_def split: if_splits option.splits)

lemma decode_indexed_offset: "decode_indexed block t off w = Ok f \<Longrightarrow> off < dfOffset f"
  using HpackDecodeInteger_sound [of "drop off block" 7]
  by (auto simp: decode_indexed_def split: if_splits)

lemma decode_literal_offset: "decode_literal n block t off w = Ok f \<Longrightarrow> off < dfOffset f"
proof -
  assume "decode_literal n block t off w = Ok f"
  then obtain index consumed name off1 w1 src len off2 w2 where h: "HpackDecodeInteger (drop off block) n = Ok (index, consumed)"
    "(if index > 0 then rbind (lookup_indexed (unat index) t) (\<lambda>(name, _). Ok (name, off + consumed, w))
      else rbind (decode_string block (off + consumed) w) (\<lambda>(src, len, offset, w). Ok ((src, len), offset, w))) = Ok (name, off1, w1)"
    "decode_string block off1 w1 = Ok (src, len, off2, w2)" "f = \<lparr>dfName = name, dfValue = (src, len), dfOffset = off2, dfBuffer = w2\<rparr>"
    by (auto simp: decode_literal_def)
  have "off \<le> off1" using h(2) decode_string_offset [of block "off + consumed" w] by (force split: if_splits)
  then show ?thesis using decode_string_offset [OF h(3)] h(4) by simp
qed

lemma emit_field_offset:
  "emit_field g hc ml add f st = Ok (st', None) \<Longrightarrow> dsOffset st' = dfOffset f"
  by (auto simp: emit_field_def Let_def split: res.splits prod.splits option.splits if_splits)
    (drule arg_cong [where f = dsOffset], simp)

lemma decode_step_offset:
  "decode_step grant hc ml mt block st = Ok (st', None) \<Longrightarrow> dsOffset st < dsOffset st' \<and> dsOffset st < length block"
  using HpackDecodeInteger_sound [of "drop (dsOffset st) block" 5]
  by (auto simp: decode_step_def Let_def rd_eq_Ok emit_field_offset split: if_splits res.splits
      dest!: decode_indexed_offset decode_literal_offset)

function decode_loop :: "(nat \<Rightarrow> bool \<times> bool) \<Rightarrow> nat \<Rightarrow> nat \<Rightarrow> nat \<Rightarrow> bytes \<Rightarrow> decode_state \<Rightarrow>
    (decode_state \<times> ntstatus option) res" where
  "decode_loop grant hc ml mt block st =
     (if dsOffset st < length block then
        case decode_step grant hc ml mt block st of
          Ok (st', None) \<Rightarrow> decode_loop grant hc ml mt block st'
        | Ok (st', Some s) \<Rightarrow> Ok (st', Some s)
        | Err s \<Rightarrow> Err s
        | Fault \<Rightarrow> Fault
      else Ok (st, None))"
  by pat_completeness auto
termination
  by (relation "measure (\<lambda>(grant, hc, ml, mt, block, st). length block - dsOffset st)")
    (use decode_step_offset in \<open>fastforce+\<close>)

declare decode_loop.simps [simp del]

record HpackDecoder =
  decTable :: HpackDynamicTable
  decMaxTableSize :: nat

definition fresh_decoder :: HpackDecoder where
  "fresh_decoder = \<lparr>decTable = fresh_table, decMaxTableSize = 4096\<rparr>"

definition Decoder_Initialize :: "bool \<Rightarrow> bool \<Rightarrow> nat \<Rightarrow> HpackDecoder \<Rightarrow> HpackDecoder \<times> ntstatus option" where
  "Decoder_Initialize g h n d =
     (let (t, status) = Table_Initialize g h n (decTable d) in (\<lparr>decTable = t, decMaxTableSize = n\<rparr>, status))"

definition Decoder_Reset :: "HpackDecoder \<Rightarrow> HpackDecoder" where
  "Decoder_Reset d = d\<lparr>decTable := Table_Reset (decTable d)\<rparr>"

definition Decoder_UpdateMaxTableSize :: "nat \<Rightarrow> HpackDecoder \<Rightarrow> HpackDecoder res" where
  "Decoder_UpdateMaxTableSize n d = rbind (UpdateMaxSize n (decTable d)) (\<lambda>t. Ok \<lparr>decTable = t, decMaxTableSize = n\<rparr>)"

text \<open>The headers array is given by its capacity, \<open>None\<close> for the null pointer. The result is the
  decoder, the headers and the buffer with the number of bytes used, and the status.\<close>

definition Decode :: "(nat \<Rightarrow> bool \<times> bool) \<Rightarrow> UCHAR span \<Rightarrow> nat option \<Rightarrow> UCHAR span \<Rightarrow> nat \<Rightarrow> HpackDecoder \<Rightarrow>
    (HpackDecoder \<times> (header_ref list \<times> writer) \<times> ntstatus option) res" where
  "Decode grant block headers nameValueBuffer maxHeaderListSize d =
     (let fail = (\<lambda>s. Ok (d, ([], (span_list nameValueBuffer, 0)), Some s)) in
      if span_null block \<and> span_len block > 0 then fail STATUS_INVALID_PARAMETER
      else
        case headers of
          None \<Rightarrow> fail STATUS_INVALID_PARAMETER
        | Some headerCapacity \<Rightarrow>
            if span_null nameValueBuffer then fail STATUS_INVALID_PARAMETER
            else
              rbind (decode_loop grant headerCapacity maxHeaderListSize (decMaxTableSize d) (span_list block)
                  \<lparr>dsTable = decTable d, dsOffset = 0, dsHeaders = [], dsBuffer = (span_list nameValueBuffer, 0),
                   dsListSize = 0, dsAllowUpdate = True\<rparr>) (\<lambda>(st, status).
                Ok (d\<lparr>decTable := dsTable st\<rparr>,
                    if status = None then (dsHeaders st, dsBuffer st) else ([], (span_list nameValueBuffer, 0)), status)))"

definition Decode_unlimited :: "(nat \<Rightarrow> bool \<times> bool) \<Rightarrow> UCHAR span \<Rightarrow> nat option \<Rightarrow> UCHAR span \<Rightarrow> HpackDecoder \<Rightarrow>
    (HpackDecoder \<times> (header_ref list \<times> writer) \<times> ntstatus option) res" where
  "Decode_unlimited grant block headers nameValueBuffer d = Decode grant block headers nameValueBuffer MaxSizeT d"

section \<open>Encoder\<close>

record HpackEncoder =
  encTable :: HpackDynamicTable
  encMaxTableSize :: nat
  pendingTableSize :: nat
  tableSizeUpdatePending :: bool

definition fresh_encoder :: HpackEncoder where
  "fresh_encoder = \<lparr>encTable = fresh_table, encMaxTableSize = 4096, pendingTableSize = 4096, tableSizeUpdatePending = False\<rparr>"

definition Encoder_Initialize :: "bool \<Rightarrow> bool \<Rightarrow> nat \<Rightarrow> HpackEncoder \<Rightarrow> HpackEncoder \<times> ntstatus option" where
  "Encoder_Initialize g h n e =
     (let (t, status) = Table_Initialize g h n (encTable e) in
      (\<lparr>encTable = t, encMaxTableSize = n, pendingTableSize = n, tableSizeUpdatePending = False\<rparr>, status))"

definition Encoder_Reset :: "HpackEncoder \<Rightarrow> HpackEncoder" where
  "Encoder_Reset e = e\<lparr>encTable := Table_Reset (encTable e), tableSizeUpdatePending := False\<rparr>"

definition Encoder_UpdateMaxTableSize :: "nat \<Rightarrow> HpackEncoder \<Rightarrow> HpackEncoder res" where
  "Encoder_UpdateMaxTableSize n e =
     (if encMaxTableSize e = n then Ok e
      else rbind (UpdateMaxSize n (encTable e)) (\<lambda>t.
             Ok \<lparr>encTable = t, encMaxTableSize = n, pendingTableSize = n, tableSizeUpdatePending = True\<rparr>))"

text \<open>The two search loops: \<open>Inl\<close> is the index of a full match, \<open>Inr\<close> the index of the first name
  that matches, or 0.\<close>

fun find_static :: "bytes \<Rightarrow> bytes \<Rightarrow> (bytes \<times> bytes) list \<Rightarrow> nat \<Rightarrow> nat \<Rightarrow> nat + nat" where
  "find_static name val [] i nameMatchIdx = Inr nameMatchIdx"
| "find_static name val ((n, v) # es) i nameMatchIdx =
     (if NameEquals name n then
        if ValueEquals val v then Inl (i + 1)
        else find_static name val es (i + 1) (if nameMatchIdx = 0 then i + 1 else nameMatchIdx)
      else find_static name val es (i + 1) nameMatchIdx)"

fun find_dynamic :: "bytes \<Rightarrow> bytes \<Rightarrow> HpackDynamicTable \<Rightarrow> nat \<Rightarrow> nat \<Rightarrow> nat \<Rightarrow> (nat + nat) res" where
  "find_dynamic name val t i nameMatchIdx 0 = Ok (Inr nameMatchIdx)"
| "find_dynamic name val t i nameMatchIdx (Suc k) =
     rbind (lookup_field i t) (\<lambda>found.
       case found of
         None \<Rightarrow> find_dynamic name val t (i + 1) nameMatchIdx k
       | Some (n, v) \<Rightarrow>
           if NameEquals name n then
             if ValueEquals val v then Ok (Inl (HpackStaticTableSize + i + 1))
             else find_dynamic name val t (i + 1)
                    (if nameMatchIdx = 0 then HpackStaticTableSize + i + 1 else nameMatchIdx) k
           else find_dynamic name val t (i + 1) nameMatchIdx k)"

text \<open>The index of the match, 0 for none, and whether only the name matched.\<close>

definition FindMatch :: "bytes \<Rightarrow> bytes \<Rightarrow> HpackDynamicTable \<Rightarrow> (nat \<times> bool) res" where
  "FindMatch name val t =
     (case find_static name val HpackStaticTable 0 0 of
        Inl i \<Rightarrow> Ok (i, False)
      | Inr nameMatchIdx \<Rightarrow>
          rbind (find_dynamic name val t 0 nameMatchIdx (entryCount t)) (\<lambda>r.
            case r of
              Inl i \<Rightarrow> Ok (i, False)
            | Inr nameMatchIdx \<Rightarrow> Ok (if nameMatchIdx > 0 then (nameMatchIdx, True) else (0, False))))"

type_synonym header = "UCHAR span \<times> UCHAR span"

text \<open>The bytes written for a header, before the table changes.\<close>

definition write_header :: "bytes \<Rightarrow> UCHAR span \<Rightarrow> nat \<Rightarrow> bool \<Rightarrow> bool \<Rightarrow> writer \<Rightarrow> writer res" where
  "write_header name val matchIdx nameOnly neverIndex w =
     (if matchIdx > 0 \<and> \<not> nameOnly \<and> \<not> neverIndex then HpackEncodeInteger (word_of_nat matchIdx) 0x80 7 w
      else
        let literalPrefix = (if neverIndex then 0x10 else 0x40);
            literalPrefixBits = (if neverIndex then 4 else 6)
        in
        rbind (if matchIdx > 0 then HpackEncodeInteger (word_of_nat matchIdx) literalPrefix literalPrefixBits w
               else if snd w \<ge> length (fst w) then Err STATUS_BUFFER_TOO_SMALL
               else rbind (put_byte literalPrefix w) (EncodeHeaderString (Span name)))
          (EncodeHeaderString val))"

definition encode_header :: "bool \<times> bool \<Rightarrow> header \<Rightarrow> HpackDynamicTable \<times> writer \<Rightarrow>
    ((HpackDynamicTable \<times> writer) \<times> ntstatus option) res" where
  "encode_header grant hdr tw =
     (let (t, w) = tw; (name, val) = hdr in
      if span_null name \<or> span_len name = 0 \<or> (span_null val \<and> span_len val \<noteq> 0) then
        Ok (tw, Some STATUS_INVALID_PARAMETER)
      else
        rbind (FindMatch (span_list name) (span_list val) t) (\<lambda>(matchIdx, nameOnly).
          let neverIndex = IsSensitiveHeaderName (span_list name) in
          case write_header (span_list name) val matchIdx nameOnly neverIndex w of
            Err s \<Rightarrow> Ok (tw, Some s)
          | Fault \<Rightarrow> Fault
          | Ok w' \<Rightarrow>
              if (matchIdx > 0 \<and> \<not> nameOnly \<and> \<not> neverIndex) \<or> neverIndex then Ok ((t, w'), None)
              else
                rbind (Insert (fst grant) (snd grant) (Outside (span_list name)) (span_len name)
                         (Outside (span_list val)) (span_len val) t) (\<lambda>(t', status).
                  if status \<noteq> None then Ok ((t', w), status) else Ok ((t', w'), None))))"

fun encode_headers :: "(nat \<Rightarrow> bool \<times> bool) \<Rightarrow> nat \<Rightarrow> header list \<Rightarrow> HpackDynamicTable \<times> writer \<Rightarrow>
    ((HpackDynamicTable \<times> writer) \<times> ntstatus option) res" where
  "encode_headers grant i [] tw = Ok (tw, None)"
| "encode_headers grant i (hdr # hdrs) tw =
     rbind (encode_header (grant i) hdr tw) (\<lambda>(tw, status).
       if status \<noteq> None then Ok (tw, status) else encode_headers grant (i + 1) hdrs tw)"

text \<open>The result is the encoder, the buffer with the number of bytes written, and the status.\<close>

definition Encode :: "(nat \<Rightarrow> bool \<times> bool) \<Rightarrow> header span \<Rightarrow> UCHAR span \<Rightarrow> HpackEncoder \<Rightarrow>
    (HpackEncoder \<times> writer \<times> ntstatus option) res" where
  "Encode grant headers dest e =
     (let w = (span_list dest, 0) in
      if span_null headers \<and> span_len headers > 0 then Ok (e, w, Some STATUS_INVALID_PARAMETER)
      else if span_null dest then Ok (e, w, Some STATUS_INVALID_PARAMETER)
      else
        case (if tableSizeUpdatePending e then HpackEncodeInteger (word_of_nat (pendingTableSize e)) 0x20 5 w else Ok w) of
          Err s \<Rightarrow> Ok (e, w, Some s)
        | Fault \<Rightarrow> Fault
        | Ok w \<Rightarrow>
            rbind (encode_headers grant 0 (span_list headers) (encTable e, w)) (\<lambda>((t, w), status).
              Ok (e\<lparr>encTable := t, tableSizeUpdatePending := False\<rparr>, w, status)))"

section \<open>Matches\<close>

lemma NameEquals_iff: "NameEquals a b \<longleftrightarrow> map lower a = map lower b"
proof -
  have "length a = length b \<Longrightarrow> name_loop a b \<longleftrightarrow> map lower a = map lower b"
    by (induction a b rule: list_induct2) simp_all
  then show ?thesis using map_eq_imp_length_eq [of lower a lower b] by (auto simp: NameEquals_def)
qed

lemma ValueEquals_iff: "ValueEquals a b \<longleftrightarrow> a = b"
proof -
  have "length a = length b \<Longrightarrow> value_loop a b \<longleftrightarrow> a = b"
    by (induction a b rule: list_induct2) simp_all
  then show ?thesis by (auto simp: ValueEquals_def)
qed

text \<open>Fields up to the case of their names.\<close>

definition ci :: "field \<Rightarrow> field" where
  "ci f = (map lower (fst f), snd f)"

text \<open>What a result of the search promises of the list of fields that it searched.\<close>

fun match_in :: "bytes \<Rightarrow> bytes \<Rightarrow> field list \<Rightarrow> nat + nat \<Rightarrow> bool" where
  "match_in name val fs (Inl i) = (0 < i \<and> i \<le> length fs \<and> ci (fs ! (i - 1)) = ci (name, val))"
| "match_in name val fs (Inr i) = (i \<le> length fs \<and> (0 < i \<longrightarrow> map lower (fst (fs ! (i - 1))) = map lower name))"

lemma match_in_append: "match_in name val fs r \<Longrightarrow> match_in name val (fs @ gs) r"
  by (cases r) (auto simp: nth_append)

lemma find_static_match:
  "match_in name val fs (Inr m) \<Longrightarrow> i = length fs \<Longrightarrow> match_in name val (fs @ es) (find_static name val es i m)"
proof (induction es arbitrary: fs i m)
  case (Cons e es)
  obtain n v where e: "e = (n, v)" by force
  have snoc: "match_in name val (fs @ [e]) (Inr m)" by (rule match_in_append [OF Cons.prems(1)])
  show ?case
    using Cons.IH [OF snoc, of "i + 1"] Cons.IH [of "fs @ [e]" "i + 1" "i + 1"] Cons.prems
    by (auto simp: e NameEquals_iff ValueEquals_iff ci_def nth_append)
qed simp

lemma find_dynamic_match:
  assumes "table_ok t"
  shows "match_in name val (HpackStaticTable @ take i (table_fields t)) (Inr m) \<Longrightarrow> i + k = entryCount t \<Longrightarrow>
    \<exists>r. find_dynamic name val t i m k = Ok r \<and> match_in name val (HpackStaticTable @ table_fields t) r"
proof (induction k arbitrary: i m)
  case 0
  then show ?case by (simp add: take_all)
next
  case (Suc k)
  let ?fs = "HpackStaticTable @ take i (table_fields t)"
  have i: "i < length (table_fields t)" using Suc.prems(2) by simp
  obtain n v where f: "table_fields t ! i = (n, v)" by force
  have look: "lookup_field i t = Ok (Some (n, v))" using lookup_field_eq [OF assms, of i] i f by simp
  have step: "HpackStaticTable @ take (i + 1) (table_fields t) = ?fs @ [(n, v)]"
    using i f by (simp add: take_Suc_conv_app_nth)
  have len: "length ?fs = HpackStaticTableSize + i" using i by (simp add: HpackStaticTableSize_def)
  have nxt: "match_in name val (HpackStaticTable @ take (i + 1) (table_fields t)) (Inr m)"
    unfolding step by (rule match_in_append [OF Suc.prems(1)])
  show ?case
  proof (cases "NameEquals name n")
    case False
    then show ?thesis using Suc.IH [OF nxt] Suc.prems(2) look by simp
  next
    case name: True
    then have eq: "map lower n = map lower name" by (simp add: NameEquals_iff)
    show ?thesis
    proof (cases "ValueEquals val v")
      case True
      have "(HpackStaticTable @ table_fields t) ! (HpackStaticTableSize + i) = (n, v)"
        using f by (simp add: HpackStaticTableSize_def nth_append)
      then show ?thesis using look name True eq i by (simp add: ValueEquals_iff ci_def HpackStaticTableSize_def)
    next
      case False
      have "match_in name val (?fs @ [(n, v)]) (Inr (if m = 0 then HpackStaticTableSize + i + 1 else m))"
        using nxt eq len unfolding step by (auto simp: nth_append)
      then show ?thesis using Suc.IH [of "i + 1"] Suc.prems(2) look name False unfolding step by simp
    qed
  qed
qed

lemma FindMatch_ok:
  assumes "table_ok t"
  obtains i o1 where "FindMatch name val t = Ok (i, o1)" "i \<le> HpackStaticTableSize + entryCount t"
    "0 < i \<longrightarrow> map lower (fst ((HpackStaticTable @ table_fields t) ! (i - 1))) = map lower name"
    "0 < i \<and> \<not> o1 \<longrightarrow> snd ((HpackStaticTable @ table_fields t) ! (i - 1)) = val"
proof -
  let ?s = "find_static name val HpackStaticTable 0 0"
  have s: "match_in name val HpackStaticTable ?s"
    using find_static_match [of name val "[]" 0 0 HpackStaticTable] by simp
  show thesis
  proof (cases ?s)
    case (Inl i)
    then show thesis
      using that [of i False] s match_in_append [OF s, of "table_fields t"]
      by (simp add: FindMatch_def ci_def HpackStaticTableSize_def)
  next
    case (Inr m)
    then obtain r where r: "find_dynamic name val t 0 m (entryCount t) = Ok r" "match_in name val (HpackStaticTable @ table_fields t) r"
      using find_dynamic_match [OF assms, of name val 0 m "entryCount t"] s by auto
    show thesis
    proof (cases r)
      case (Inl j)
      then show thesis using that [of j False] r Inr \<open>?s = Inr m\<close> by (simp add: FindMatch_def ci_def HpackStaticTableSize_def)
    next
      case j: (Inr j)
      have "FindMatch name val t = Ok (j, 0 < j)" using r(1) j Inr by (simp add: FindMatch_def)
      then show thesis by (rule that) (use r(2) j in \<open>auto simp: HpackStaticTableSize_def\<close>)
    qed
  qed
qed

section \<open>Strings\<close>

text \<open>A cursor that is in its buffer.\<close>

lemma bounded_store_cursor:
  "bounded_store dest op t \<Longrightarrow> (\<And>w. snd w \<le> length (fst w) \<Longrightarrow> op' w = op w) \<Longrightarrow> bounded_store dest op' t"
proof -
  assume op: "bounded_store dest op t" and eq: "\<And>w. snd w \<le> length (fst w) \<Longrightarrow> op' w = op w"
  have "op' w = op w" if "stored dest w t0" for w t0
    using that by (intro eq) (auto simp: stored_def)
  then show ?thesis using op unfolding bounded_store_def by (simp add: if_split_eq1 del: split_paired_All split_paired_Ex)
qed

lemma bounded_store_bytes:
  "bounded_store dest (\<lambda>w. if \<not> RangeFits (snd w) (length bs) (length (fst w)) then Err STATUS_BUFFER_TOO_SMALL else put_bytes bs w) bs"
  unfolding bounded_store_def
proof (intro allI impI)
  fix w t0 assume w: "stored dest w t0"
  then have c: "snd w = length t0" "length (fst w) = length dest" "length t0 \<le> length dest" by (auto simp: stored_def)
  then show "if length t0 + length bs \<le> length dest
      then \<exists>w'. (if \<not> RangeFits (snd w) (length bs) (length (fst w)) then Err STATUS_BUFFER_TOO_SMALL else put_bytes bs w) = Ok w' \<and>
             stored dest w' (t0 @ bs)
      else (if \<not> RangeFits (snd w) (length bs) (length (fst w)) then Err STATUS_BUFFER_TOO_SMALL else put_bytes bs w) =
             Err STATUS_BUFFER_TOO_SMALL"
    using put_bytes_stored [OF w, of bs] by (auto simp: RangeFits_def)
qed

text \<open>The representation of a string: the shorter of the Huffman text and the bytes themselves.\<close>

definition string_text :: "bytes \<Rightarrow> bytes" where
  "string_text bs =
     (if length (huffman_text bs) < length bs
      then integer_text 0x80 7 (length (huffman_text bs)) @ huffman_text bs
      else integer_text 0x00 7 (length bs) @ bs)"

lemma integer_text_Cons: "\<exists>b bs. integer_text pre n v = b # bs"
  by (simp add: integer_text_def)

lemma integer_text_not_Nil [simp]: "integer_text pre n v \<noteq> []"
  by (simp add: integer_text_def)

lemma integer_text_prefix:
  assumes "n \<le> 8"
  shows "hd (integer_text pre n v) AND NOT (max_prefix n) = pre AND NOT (max_prefix n)"
proof -
  have small: "(word_of_nat v :: UCHAR) AND NOT (mask n) = 0" if "v < 2 ^ n - 1"
  proof -
    have "(2 :: nat) ^ n \<le> 2 ^ 8" using assms by (intro power_increasing) auto
    then have "unat (word_of_nat v :: UCHAR) = v" using that by (intro unat_word_of_nat_8) simp
    then have "take_bit n (word_of_nat v :: UCHAR) = word_of_nat v"
      using that by (simp add: word_unat_eq_iff unsigned_take_bit_eq take_bit_nat_eq_self del: of_nat_unat)
    then have "(word_of_nat v :: UCHAR) = word_of_nat v AND mask n" by (simp add: take_bit_eq_mask)
    then have "(word_of_nat v :: UCHAR) AND NOT (mask n) = (word_of_nat v AND mask n) AND NOT (mask n)" by simp
    then show ?thesis by (simp add: and.assoc)
  qed
  have "((pre AND NOT (mask n)) OR x) AND NOT (mask n) = (pre AND NOT (mask n)) OR (x AND NOT (mask n))" for x
    by (rule bit_word_eqI) (auto simp: bit_simps)
  then show ?thesis
    using small assms by (simp add: integer_text_def max_prefix_mask)
qed

lemma HpackEncodeInteger_cursor:
  assumes "snd w \<le> length (fst w)" "HpackEncodeInteger v pre n w = Ok w'"
  shows "snd w' \<le> length (fst w')"
proof -
  have n: "1 \<le> n" "n \<le> 8" using assms(2) by (auto simp: HpackEncodeInteger_def split: if_splits)
  let ?t0 = "take (snd w) (fst w)"
  have w: "stored (fst w) w ?t0" using assms(1) by (cases w) (simp add: stored_def overlay_def)
  note run = HpackEncodeInteger_text [OF n, of "fst w" v pre]
  show ?thesis
    using bounded_store_run [OF run w] bounded_store_full [OF run w] assms(2) by (fastforce simp: stored_def not_le)
qed

lemma EncodeHeaderString_text:
  assumes "span_null str \<longrightarrow> span_len str = 0" "span_len str < 2 ^ 32"
  shows "bounded_store dest (EncodeHeaderString str) (string_text (span_list str))"
proof -
  let ?bs = "span_list str"
  have str: "span_len str = length ?bs" using assms(1) by (cases str) auto
  have len: "HpackHuffmanEncodedLength str = Ok (length (huffman_text ?bs))"
  proof (cases str)
    case (NullSpan n)
    then show ?thesis using assms(1) by (simp add: HpackHuffmanEncodedLength_def huffman_text_def padding_def)
  qed (simp add: HpackHuffmanEncodedLength_text)
  show ?thesis
  proof (cases "length (huffman_text ?bs) < length ?bs")
    case True
    then have sp: "str = Span ?bs" "\<not> span_null str" using str by (cases str; auto)+
    have "unat (word_of_nat (length (huffman_text ?bs)) :: ULONG) = length (huffman_text ?bs)"
      using True assms(2) str by (intro unat_word_of_nat_32) simp
    then have t: "string_text ?bs = integer_text 0x80 7 (unat (word_of_nat (length (huffman_text ?bs)) :: ULONG)) @ huffman_text ?bs"
      using True by (simp add: string_text_def del: of_nat_unat)
    have "bounded_store dest (\<lambda>w. rbind (HpackEncodeInteger (word_of_nat (length (huffman_text ?bs))) 0x80 7 w) (HpackHuffmanEncode (Span ?bs))) (string_text ?bs)"
      unfolding t by (intro bounded_store_seq HpackEncodeInteger_text HpackHuffmanEncode_text) simp_all
    then show ?thesis
      by (rule bounded_store_cursor) (use True str len sp in \<open>auto simp: EncodeHeaderString_def\<close>)
  next
    case False
    have "unat (word_of_nat (length ?bs) :: ULONG) = length ?bs" using assms(2) str by (intro unat_word_of_nat_32) simp
    then have t: "string_text ?bs = integer_text 0x00 7 (unat (word_of_nat (length ?bs) :: ULONG)) @ ?bs"
      using False by (simp add: string_text_def del: of_nat_unat)
    have "bounded_store dest (\<lambda>w. rbind (HpackEncodeInteger (word_of_nat (length ?bs)) 0x00 7 w)
        (\<lambda>w. if \<not> RangeFits (snd w) (length ?bs) (length (fst w)) then Err STATUS_BUFFER_TOO_SMALL else put_bytes ?bs w)) (string_text ?bs)"
      unfolding t by (intro bounded_store_seq HpackEncodeInteger_text bounded_store_bytes) simp_all
    then show ?thesis
    proof (rule bounded_store_cursor)
      fix w :: writer assume w: "snd w \<le> length (fst w)"
      show "EncodeHeaderString str w = rbind (HpackEncodeInteger (word_of_nat (length ?bs)) 0x00 7 w)
        (\<lambda>w. if \<not> RangeFits (snd w) (length ?bs) (length (fst w)) then Err STATUS_BUFFER_TOO_SMALL else put_bytes ?bs w)"
      proof (cases "?bs = []")
        case True
        have "HpackEncodeInteger v pre n w = Ok w' \<Longrightarrow> snd w' \<le> length (fst w')" for v pre n w'
          by (rule HpackEncodeInteger_cursor [OF w])
        then show ?thesis using True len str w
          by (cases "HpackEncodeInteger 0 0x00 7 w") (auto simp: EncodeHeaderString_def RangeFits_def)
      next
        case ne: False
        then have "\<not> span_null str" using assms(1) str by auto
        then show ?thesis using False str len w ne by (simp add: EncodeHeaderString_def)
      qed
    qed
  qed
qed

text \<open>What a part of a header stands for, given the bytes in the table and in the buffer.\<close>

fun denotes :: "bytes \<Rightarrow> bytes \<Rightarrow> part \<times> nat \<Rightarrow> bytes \<Rightarrow> bool" where
  "denotes tableData T (InStatic n, len) bs \<longleftrightarrow> len = length bs \<and> n = bs"
| "denotes tableData T (InTable off, len) bs \<longleftrightarrow> len = length bs \<and> off + len \<le> length tableData \<and> bytes_at tableData off len = bs"
| "denotes tableData T (InBuffer off, len) bs \<longleftrightarrow> len = length bs \<and> off + len \<le> length T \<and> bytes_at T off len = bs"

fun to_copy :: "part \<Rightarrow> bytes \<Rightarrow> bytes" where
  "to_copy (InBuffer off) bs = []"
| "to_copy p bs = bs"

lemma denotes_length: "denotes d T (p, len) bs \<Longrightarrow> len = length bs"
  by (cases p) auto

lemma bytes_at_append: "off + n \<le> length T \<Longrightarrow> bytes_at (T @ later) off n = bytes_at T off n"
  by (simp add: bytes_at_def)

lemma denotes_append: "denotes d T p bs \<Longrightarrow> denotes d (T @ later) p bs"
  by (cases "(d, T, p, bs)" rule: denotes.cases) (auto simp: bytes_at_append)

lemma bytes_at_stored: "stored dest w T \<Longrightarrow> off + n \<le> length T \<Longrightarrow> bytes_at (fst w) off n = bytes_at T off n"
  by (auto simp: stored_def overlay_def bytes_at_append)

lemma bytes_at_last: "bytes_at (T @ bs) (length T) (length bs) = bs"
  by (simp add: bytes_at_def)

lemma MaterializeHeaderPart_ok:
  assumes "stored dest w T" "denotes d T (p, len) bs" "length T + length (to_copy p bs) \<le> length dest"
  obtains out1 w' where "MaterializeHeaderPart d p len w = Ok (out1, w')" "stored dest w' (T @ to_copy p bs)"
    "out1 + len \<le> length (T @ to_copy p bs)" "bytes_at (T @ to_copy p bs) out1 len = bs"
proof -
  have c: "snd w = length T" "length (fst w) = length dest" "length T \<le> length dest" using assms(1) by (auto simp: stored_def)
  show thesis
  proof (cases p)
    case (InBuffer off)
    have b: "len = length bs" "off + len \<le> length T" "bytes_at T off len = bs" using assms(2) InBuffer by auto
    show thesis
    proof (cases "off < length dest")
      case True
      then show thesis using that [of off w] InBuffer b c assms(1) by (simp add: MaterializeHeaderPart_def)
    next
      case False
      then have "len = 0" using b(2) c(3) by simp
      then show thesis using that [of "length T" w] InBuffer b c assms(1) False
        by (simp add: MaterializeHeaderPart_def RangeFits_def bytes_at_def)
    qed
  next
    case (InStatic n)
    then have b: "len = length bs" "n = bs" using assms(2) by simp_all
    then obtain w' where "put_bytes bs w = Ok w'" "stored dest w' (T @ bs)"
      using put_bytes_stored [OF assms(1), of bs] assms(3) InStatic by auto
    then show thesis using that [of "length T" w'] InStatic b c assms(3)
      by (simp add: MaterializeHeaderPart_def RangeFits_def bytes_at_last)
  next
    case (InTable off)
    then have b: "len = length bs" "off + len \<le> length d" "bytes_at d off len = bs" using assms(2) by auto
    then obtain w' where "put_bytes bs w = Ok w'" "stored dest w' (T @ bs)"
      using put_bytes_stored [OF assms(1), of bs] assms(3) InTable by auto
    then show thesis using that [of "length T" w'] InTable b c assms(3)
      by (simp add: MaterializeHeaderPart_def RangeFits_def bytes_at_last)
  qed
qed

lemma decode_string_text:
  assumes "stored dest w T" "length bs < 2 ^ 32" "length T + 2 * length bs \<le> length dest"
  obtains w' where "decode_string (pre @ string_text bs @ rest) (length pre) w =
      Ok (InBuffer (length T), length bs, length pre + length (string_text bs), w')" "stored dest w' (T @ bs)"
proof -
  define huff where "huff \<longleftrightarrow> length (huffman_text bs) < length bs"
  define body where "body = (if huff then huffman_text bs else bs)"
  define flag where "flag = (if huff then 0x80 else 0x00 :: UCHAR)"
  define num where "num = integer_text flag 7 (length body)"
  let ?block = "pre @ string_text bs @ rest"
  have t: "string_text bs = num @ body" by (simp add: string_text_def num_def body_def flag_def huff_def)
  have lb: "length body < 2 ^ 32" "length body \<le> length bs" using assms(2) by (auto simp: body_def huff_def)
  have ub: "unat (word_of_nat (length body) :: ULONG) = length body" using lb(1) by (rule unat_word_of_nat_32)
  have dec: "HpackDecodeInteger (num @ body @ rest) 7 = Ok (word_of_nat (length body), length num)"
    using HpackDecodeInteger_text [of 7 flag "word_of_nat (length body)" "body @ rest"] ub unfolding num_def by simp
  obtain b bs1 where num: "num = b # bs1" using integer_text_Cons unfolding num_def by blast
  have first: "rd ?block (length pre) = Ok b" "length pre < length ?block" by (simp_all add: t num)
  then have nonempty: "(length ?block \<le> length pre) = False" unfolding eq_False not_le by blast
  have m7: "NOT (max_prefix 7) = (0x80 :: UCHAR)" by code_simp
  have "b AND 0x80 = flag AND 0x80" using integer_text_prefix [of 7 flag "length body"] num unfolding num_def m7 by simp
  then have bit: "b AND 0x80 \<noteq> 0 \<longleftrightarrow> huff" by (simp add: flag_def)
  have at: "bytes_at ?block (length pre + length num) (length body) = body" by (simp add: bytes_at_def t)
  have c: "snd w = length T" "length (fst w) = length dest" "length T \<le> length dest" using assms(1) by (auto simp: stored_def)
  have fits: "RangeFits (length pre + length num) (length body) (length ?block)" by (simp add: RangeFits_def t)
  have hint: "MultiplySize (length body) 2 = Some (length body * 2)"
  proof -
    have "2 * length body \<le> MaxSizeT" using lb(1) by (simp add: MaxSizeT_def)
    then have "length body \<noteq> 0 \<longrightarrow> 2 \<le> MaxSizeT div length body"
      using less_eq_div_iff_mult_less_eq [of "length body" 2 MaxSizeT] by simp
    then show ?thesis by (auto simp: MultiplySize_def)
  qed
  have d: "drop (length pre) ?block = num @ body @ rest" by (simp add: t)
  have room: "RangeFits (length T) (length body * 2) (length dest)" "RangeFits (length T) (length body) (length dest)"
    using assms(3) lb(2) by (auto simp: RangeFits_def)
  have run: "decode_string ?block (length pre) w =
      (if huff then rbind (HpackHuffmanDecode (Span body) w) (\<lambda>w'. Ok (InBuffer (snd w), snd w' - snd w, length pre + length num + length body, w'))
       else rbind (put_bytes body w) (\<lambda>w'. Ok (InBuffer (snd w), length body, length pre + length num + length body, w')))"
    unfolding decode_string_def first(1) nonempty if_False rbind.simps d dec prod.case Let_def ub bit hint option.case at
    using fits room c by simp
  show thesis
  proof (cases huff)
    case True
    then obtain w' where w': "HpackHuffmanDecode (Span body) w = Ok w'" "stored dest w' (T @ bs)"
      using bounded_store_run [OF HpackHuffmanDecode_text assms(1), of bs] assms(3) by (auto simp: body_def)
    then have "snd w' - snd w = length bs" using c by (simp add: stored_def)
    then show thesis using that [of w'] run True w' c by (simp add: t add.assoc)
  next
    case False
    then obtain w' where w': "put_bytes body w = Ok w'" "stored dest w' (T @ bs)"
      using put_bytes_stored [OF assms(1), of bs] assms(3) by (auto simp: body_def)
    then show thesis using that [of w'] run False c by (simp add: t add.assoc body_def)
  qed
qed

section \<open>Fields\<close>

definition all_fields :: "HpackDynamicTable \<Rightarrow> field list" where
  "all_fields t = HpackStaticTable @ table_fields t"

lemma lookup_indexed_ok:
  assumes "table_ok t" "0 < i" "i \<le> HpackStaticTableSize + entryCount t"
  obtains p q where "lookup_indexed i t = Ok (p, q)"
    "denotes (dataBuffer t) T p (fst (all_fields t ! (i - 1)))" "denotes (dataBuffer t) T q (snd (all_fields t ! (i - 1)))"
    "to_copy (fst p) (fst (all_fields t ! (i - 1))) = fst (all_fields t ! (i - 1))"
    "to_copy (fst q) (snd (all_fields t ! (i - 1))) = snd (all_fields t ! (i - 1))"
proof (cases "i \<le> HpackStaticTableSize")
  case True
  then have i: "i - 1 < length HpackStaticTable" using assms(2) by (simp add: HpackStaticTableSize_def)
  obtain n v where e: "HpackStaticTable ! (i - 1) = (n, v)" by force
  then have "all_fields t ! (i - 1) = (n, v)" using i by (simp add: all_fields_def nth_append)
  then show thesis
    using that [of "(InStatic n, length n)" "(InStatic v, length v)"] True i e by (simp add: lookup_indexed_def)
next
  case False
  let ?j = "i - HpackStaticTableSize - 1"
  have j: "?j < entryCount t" using False assms(3) by linarith
  let ?e = "live t ! ?j"
  have f: "all_fields t ! (i - 1) = field_at (dataBuffer t) ?e"
  proof -
    have "i - 1 = length HpackStaticTable + ?j" using False by (simp add: HpackStaticTableSize_def)
    then show ?thesis using j by (simp add: all_fields_def nth_append table_fields_def)
  qed
  have b: "NameOffset ?e + NameLength ?e \<le> length (dataBuffer t)" "ValueOffset ?e + ValueLength ?e \<le> length (dataBuffer t)"
    using live_in_buffer [OF assms(1), of ?e] j by simp_all
  have li: "lookup_indexed i t = Ok ((InTable (NameOffset ?e), NameLength ?e), (InTable (ValueOffset ?e), ValueLength ?e))"
    unfolding lookup_indexed_def using False j by (simp only: Lookup_live [OF assms(1)] if_False if_True rbind.simps option.case)
  show thesis by (rule that [OF li]) (simp_all only: f field_at_def fst_conv snd_conv denotes.simps to_copy.simps length_bytes_at b)
qed

text \<open>The representation of a field: the index, or a literal with the name or its index.\<close>

definition field_text :: "nat \<Rightarrow> bool \<Rightarrow> bool \<Rightarrow> field \<Rightarrow> bytes" where
  "field_text i nameOnly never f =
     (if 0 < i \<and> \<not> nameOnly \<and> \<not> never then integer_text 0x80 7 i
      else (if never then integer_text 0x10 4 i else integer_text 0x40 6 i) @
        (if 0 < i then [] else string_text (fst f)) @ string_text (snd f))"

lemma write_header_text:
  assumes "i < 2 ^ 32" "length name < 2 ^ 32" "span_null val \<longrightarrow> span_len val = 0" "span_len val < 2 ^ 32"
  shows "bounded_store dest (write_header name val i nameOnly never) (field_text i nameOnly never (name, span_list val))"
proof -
  have ui: "unat (word_of_nat i :: ULONG) = i" using assms(1) by (rule unat_word_of_nat_32)
  have num: "bounded_store dest (HpackEncodeInteger (word_of_nat i) pre n) (integer_text pre n i)" if "1 \<le> n" "n \<le> 8" for pre n
    using HpackEncodeInteger_text [OF that, of dest "word_of_nat i" pre] ui by simp
  note str = EncodeHeaderString_text [OF assms(3,4), of dest]
  note name = EncodeHeaderString_text [of "Span name" dest, simplified, OF assms(2) [simplified]]
  let ?pre = "if never then 0x10 else 0x40 :: UCHAR" and ?n = "if never then 4 else 6 :: nat"
  show ?thesis
  proof (cases "0 < i \<and> \<not> nameOnly \<and> \<not> never")
    case True
    then have t: "field_text i nameOnly never (name, span_list val) = integer_text 0x80 7 i" by (simp add: field_text_def)
    show ?thesis unfolding t
      by (rule bounded_store_cong [OF _ num [of 7 "0x80"]]) (use True in \<open>simp_all add: write_header_def\<close>)
  next
    case lit: False
    show ?thesis
    proof (cases "0 < i")
      case True
      have t: "field_text i nameOnly never (name, span_list val) = integer_text ?pre ?n i @ string_text (span_list val)"
        using lit True by (auto simp: field_text_def)
      have "bounded_store dest (\<lambda>w. rbind (HpackEncodeInteger (word_of_nat i) ?pre ?n w) (EncodeHeaderString val))
          (field_text i nameOnly never (name, span_list val))"
        unfolding t by (rule bounded_store_seq [OF num str]) simp_all
      then show ?thesis
        by (rule bounded_store_cong [rotated]) (use lit True in \<open>auto simp: write_header_def\<close>)
    next
      case False
      have "max_prefix 4 = 0x0f" "max_prefix 6 = 0x3f" by code_simp+
      then have "integer_text ?pre ?n 0 = [?pre]" by (simp add: integer_text_def)
      then have t: "field_text i nameOnly never (name, span_list val) = ([?pre] @ string_text name) @ string_text (span_list val)"
        using False by (auto simp: field_text_def)
      have "bounded_store dest (\<lambda>w. rbind (rbind (if snd w \<ge> length (fst w) then Err STATUS_BUFFER_TOO_SMALL else put_byte ?pre w)
            (EncodeHeaderString (Span name))) (EncodeHeaderString val)) (field_text i nameOnly never (name, span_list val))"
        unfolding t by (rule bounded_store_seq [OF bounded_store_seq [OF bounded_store_byte name] str])
      then show ?thesis
        by (rule bounded_store_cong [rotated]) (use False in \<open>simp add: write_header_def\<close>)
    qed
  qed
qed

lemma decode_index_text:
  assumes "i < 2 ^ 32" "1 \<le> n" "n \<le> 8"
  shows "HpackDecodeInteger (drop (length pre) (pre @ integer_text p n i @ rest)) n = Ok (word_of_nat i, length (integer_text p n i))"
  using HpackDecodeInteger_text [OF assms(2,3), of p "word_of_nat i" rest] unat_word_of_nat_32 [OF assms(1)] by simp

lemma decode_indexed_text:
  assumes "table_ok t" "0 < i" "i \<le> HpackStaticTableSize + entryCount t" "i < 2 ^ 32"
  obtains f where "decode_indexed (pre @ integer_text 0x80 7 i @ rest) t (length pre) w = Ok f"
    "denotes (dataBuffer t) T (dfName f) (fst (all_fields t ! (i - 1)))" "denotes (dataBuffer t) T (dfValue f) (snd (all_fields t ! (i - 1)))"
    "dfOffset f = length pre + length (integer_text 0x80 7 i)" "dfBuffer f = w"
    "to_copy (fst (dfName f)) (fst (all_fields t ! (i - 1))) = fst (all_fields t ! (i - 1))"
    "to_copy (fst (dfValue f)) (snd (all_fields t ! (i - 1))) = snd (all_fields t ! (i - 1))"
proof -
  obtain p q where pq: "lookup_indexed i t = Ok (p, q)"
    "denotes (dataBuffer t) T p (fst (all_fields t ! (i - 1)))" "denotes (dataBuffer t) T q (snd (all_fields t ! (i - 1)))"
    "to_copy (fst p) (fst (all_fields t ! (i - 1))) = fst (all_fields t ! (i - 1))"
    "to_copy (fst q) (snd (all_fields t ! (i - 1))) = snd (all_fields t ! (i - 1))"
    by (rule lookup_indexed_ok [OF assms(1-3)])
  have ui: "unat (word_of_nat i :: ULONG) = i" using assms(4) by (rule unat_word_of_nat_32)
  have nz: "(word_of_nat i :: ULONG) \<noteq> 0" using ui assms(2) by (metis less_irrefl unat_0)
  let ?f = "\<lparr>dfName = p, dfValue = q, dfOffset = length pre + length (integer_text 0x80 7 i), dfBuffer = w\<rparr>"
  have "decode_indexed (pre @ integer_text 0x80 7 i @ rest) t (length pre) w = Ok ?f"
    using pq(1) nz ui decode_index_text [OF assms(4), of 7 pre "0x80" rest] by (simp add: decode_indexed_def)
  then show thesis by (rule that [of ?f, unfolded decoded_field.select_convs]) (rule pq refl)+
qed

lemma decode_literal_text:
  fixes p :: UCHAR
  assumes "table_ok t" "i \<le> HpackStaticTableSize + entryCount t" "i < 2 ^ 32" "1 \<le> n" "n \<le> 8"
    and "stored dest w T" "length name < 2 ^ 32" "length v < 2 ^ 32" "length T + 2 * (length name + length v) \<le> length dest"
  defines "text1 \<equiv> integer_text p n i @ (if 0 < i then [] else string_text name) @ string_text v"
    and "nm \<equiv> if 0 < i then fst (all_fields t ! (i - 1)) else name"
  obtains f T' where "decode_literal n (pre @ text1 @ rest) t (length pre) w = Ok f" "stored dest (dfBuffer f) T'"
    "denotes (dataBuffer t) T' (dfName f) nm" "denotes (dataBuffer t) T' (dfValue f) v"
    "dfOffset f = length pre + length text1" "T' = T @ (if 0 < i then [] else name) @ v"
    "to_copy (fst (dfName f)) nm = (if 0 < i then nm else [])" "to_copy (fst (dfValue f)) v = []"
proof -
  let ?num = "integer_text p n i" and ?d = "dataBuffer t"
  have ui: "unat (word_of_nat i :: ULONG) = i" using assms(3) by (rule unat_word_of_nat_32)
  then have pos: "(word_of_nat i :: ULONG) > 0 \<longleftrightarrow> 0 < i" by (simp add: word_less_nat_alt del: of_nat_unat)
  show thesis
  proof (cases "0 < i")
    case True
    have nm: "nm = fst (all_fields t ! (i - 1))" using True by (simp add: nm_def)
    obtain pp q where "lookup_indexed i t = Ok (pp, q)" "denotes ?d (T @ v) pp (fst (all_fields t ! (i - 1)))"
      "denotes ?d (T @ v) q (snd (all_fields t ! (i - 1)))" "to_copy (fst pp) (fst (all_fields t ! (i - 1))) = fst (all_fields t ! (i - 1))"
      "to_copy (fst q) (snd (all_fields t ! (i - 1))) = snd (all_fields t ! (i - 1))"
      by (rule lookup_indexed_ok [OF assms(1) True assms(2)])
    then have pq: "lookup_indexed i t = Ok (pp, q)" "denotes ?d (T @ v) pp nm" "to_copy (fst pp) nm = nm" by (simp_all only: nm)
    have t1: "text1 = ?num @ string_text v" using True by (simp add: text1_def)
    obtain w' where w': "decode_string ((pre @ ?num) @ string_text v @ rest) (length (pre @ ?num)) w =
        Ok (InBuffer (length T), length v, length (pre @ ?num) + length (string_text v), w')" "stored dest w' (T @ v)"
      by (rule decode_string_text [OF assms(6,8)]) (use assms(9) in simp)
    have dec: "HpackDecodeInteger (drop (length pre) (pre @ text1 @ rest)) n = Ok (word_of_nat i, length ?num)"
      using decode_index_text [OF assms(3-5), of pre p "string_text v @ rest"] by (simp add: t1)
    let ?f = "\<lparr>dfName = pp, dfValue = (InBuffer (length T), length v), dfOffset = length pre + length text1, dfBuffer = w'\<rparr>"
    have "decode_literal n (pre @ text1 @ rest) t (length pre) w = Ok ?f"
      unfolding decode_literal_def dec rbind.simps prod.case pos ui using True w'(1) pq(1) by (simp add: t1)
    from this w'(2) show thesis
    proof (rule that [of ?f "T @ v", unfolded decoded_field.select_convs])
      show "denotes ?d (T @ v) (InBuffer (length T), length v) v" by (simp add: bytes_at_last)
      show "to_copy (fst pp) nm = (if 0 < i then nm else [])" using True pq(3) by simp
    qed (simp_all only: pq(2) True if_True append_Nil fst_conv to_copy.simps)
  next
    case False
    then have t1: "text1 = ?num @ string_text name @ string_text v" and nm: "nm = name" by (simp_all add: text1_def nm_def)
    obtain w1 where w1: "decode_string ((pre @ ?num) @ string_text name @ string_text v @ rest) (length (pre @ ?num)) w =
        Ok (InBuffer (length T), length name, length (pre @ ?num) + length (string_text name), w1)" "stored dest w1 (T @ name)"
      by (rule decode_string_text [OF assms(6,7)]) (use assms(9) in simp)
    obtain w2 where w2: "decode_string ((pre @ ?num @ string_text name) @ string_text v @ rest) (length (pre @ ?num @ string_text name)) w1 =
        Ok (InBuffer (length (T @ name)), length v, length (pre @ ?num @ string_text name) + length (string_text v), w2)"
      "stored dest w2 ((T @ name) @ v)"
      by (rule decode_string_text [OF w1(2) assms(8)]) (use assms(9) in simp)
    have dec: "HpackDecodeInteger (drop (length pre) (pre @ text1 @ rest)) n = Ok (word_of_nat i, length ?num)"
      using decode_index_text [OF assms(3-5), of pre p "string_text name @ string_text v @ rest"] by (simp add: t1)
    let ?f = "\<lparr>dfName = (InBuffer (length T), length name), dfValue = (InBuffer (length (T @ name)), length v),
      dfOffset = length pre + length text1, dfBuffer = w2\<rparr>"
    have "decode_literal n (pre @ text1 @ rest) t (length pre) w = Ok ?f"
      unfolding decode_literal_def dec rbind.simps prod.case pos using False w1(1) w2(1) by (simp add: t1 add.assoc)
    moreover have "stored dest w2 (T @ name @ v)" using w2(2) by simp
    ultimately show thesis
    proof (rule that [of ?f "T @ name @ v", unfolded decoded_field.select_convs nm])
      show "denotes ?d (T @ name @ v) (InBuffer (length T), length name) name"
        "denotes ?d (T @ name @ v) (InBuffer (length (T @ name)), length v) v" by (simp_all add: bytes_at_def)
    qed (use False in simp_all)
  qed
qed

text \<open>The fields of the headers read so far, as they stand in the buffer.\<close>

definition ref_field :: "bytes \<Rightarrow> header_ref \<Rightarrow> field" where
  "ref_field T h = (bytes_at T (fst (hrName h)) (snd (hrName h)), bytes_at T (fst (hrValue h)) (snd (hrValue h)))"

definition ref_in :: "bytes \<Rightarrow> header_ref \<Rightarrow> bool" where
  "ref_in T h \<longleftrightarrow> fst (hrName h) + snd (hrName h) \<le> length T \<and> fst (hrValue h) + snd (hrValue h) \<le> length T"

lemma ref_append: "ref_in T h \<Longrightarrow> ref_field (T @ later) h = ref_field T h \<and> ref_in (T @ later) h"
  by (simp add: ref_in_def ref_field_def bytes_at_append)

lemma AddHeaderListSize_ok:
  "s + field_size (n, v) \<le> m \<Longrightarrow> m \<le> MaxSizeT \<Longrightarrow> AddHeaderListSize (length n) (length v) m s = Some (s + field_size (n, v))"
  by (auto simp: AddHeaderListSize_def field_size_def Let_def)

lemma emit_field_ok:
  assumes "stored dest (dfBuffer f) T" "denotes (dataBuffer (dsTable st)) T (dfName f) n" "denotes (dataBuffer (dsTable st)) T (dfValue f) v"
    and "length T + length (to_copy (fst (dfName f)) n) + length (to_copy (fst (dfValue f)) v) \<le> length dest"
    and "dsListSize st + field_size (n, v) \<le> ml" "ml \<le> MaxSizeT" "length (dsHeaders st) < hc"
    and "if add then Insert (fst g) (snd g) (Outside n) (length n) (Outside v) (length v) (dsTable st) = Ok (t', None) else t' = dsTable st"
  obtains st' h where "emit_field g hc ml add f st = Ok (st', None)" "dsTable st' = t'" "dsOffset st' = dfOffset f"
    "stored dest (dsBuffer st') (T @ to_copy (fst (dfName f)) n @ to_copy (fst (dfValue f)) v)"
    "dsHeaders st' = dsHeaders st @ [h]" "dsListSize st' = dsListSize st + field_size (n, v)"
    "ref_in (T @ to_copy (fst (dfName f)) n @ to_copy (fst (dfValue f)) v) h"
    "ref_field (T @ to_copy (fst (dfName f)) n @ to_copy (fst (dfValue f)) v) h = (n, v)"
proof -
  let ?d = "dataBuffer (dsTable st)" and ?cn = "to_copy (fst (dfName f)) n" and ?cv = "to_copy (fst (dfValue f)) v"
  have ln: "snd (dfName f) = length n" "snd (dfValue f) = length v"
    using denotes_length [of ?d T "fst (dfName f)" "snd (dfName f)" n] denotes_length [of ?d T "fst (dfValue f)" "snd (dfValue f)" v] assms(2,3)
    by simp_all
  have dn: "denotes ?d T (fst (dfName f), length n) n" using assms(2) ln by (metis prod.collapse)
  obtain on w1 where w1: "MaterializeHeaderPart ?d (fst (dfName f)) (length n) (dfBuffer f) = Ok (on, w1)"
    "stored dest w1 (T @ ?cn)" "on + length n \<le> length (T @ ?cn)" "bytes_at (T @ ?cn) on (length n) = n"
    by (rule MaterializeHeaderPart_ok [OF assms(1) dn]) (use assms(4) in simp)
  have dv: "denotes ?d (T @ ?cn) (fst (dfValue f), length v) v" using denotes_append [OF assms(3)] ln by (metis prod.collapse)
  obtain ov w2 where w2: "MaterializeHeaderPart ?d (fst (dfValue f)) (length v) w1 = Ok (ov, w2)"
    "stored dest w2 ((T @ ?cn) @ ?cv)" "ov + length v \<le> length ((T @ ?cn) @ ?cv)" "bytes_at ((T @ ?cn) @ ?cv) ov (length v) = v"
    by (rule MaterializeHeaderPart_ok [OF w1(2) dv]) (use assms(4) in simp)
  have name: "bytes_at ((T @ ?cn) @ ?cv) on (length n) = n" using w1(3,4) bytes_at_append by metis
  have reads: "bytes_at (fst w2) on (length n) = n" "bytes_at (fst w2) ov (length v) = v"
    using bytes_at_stored [OF w2(2), of on "length n"] bytes_at_stored [OF w2(2,3)] name w2(4) w1(3) by simp_all
  let ?h = "\<lparr>hrName = (on, length n), hrValue = (ov, length v)\<rparr>"
  let ?st = "\<lparr>dsTable = t', dsOffset = dfOffset f, dsHeaders = dsHeaders st @ [?h], dsBuffer = w2,
    dsListSize = dsListSize st + field_size (n, v), dsAllowUpdate = False\<rparr>"
  have ins: "(if add then Insert (fst g) (snd g) (Outside n) (length n) (Outside v) (length v) (dsTable st) else Ok (dsTable st, None)) = Ok (t', None)"
    using assms(8) by (simp split: if_splits)
  have "emit_field g hc ml add f st = Ok (?st, None)"
    unfolding emit_field_def Let_def ln w1(1) res.case prod.case w2(1) AddHeaderListSize_ok [OF assms(5,6)] option.case reads ins rbind.simps
    using assms(7) by simp
  then show thesis
    using that [of ?st ?h] w2 w1(3) name by (simp add: ref_in_def ref_field_def)
qed

section \<open>Tables in step\<close>

lemma field_size_ci [simp]: "field_size (ci f) = field_size f"
  by (simp add: field_size_def ci_def)

lemma fit_ci: "fit k (map ci fs) = map ci (fit k fs)"
  by (induction fs arbitrary: k) simp_all

lemma fit_prefix: "prefix xs ys \<Longrightarrow> prefix (fit k xs) (fit k ys)"
proof (induction xs arbitrary: ys k)
  case (Cons x xs)
  then obtain zs where "ys = x # zs" "prefix xs zs" by (cases ys) auto
  then show ?case using Cons.IH by simp
qed simp

lemma table_size_ci: "table_size (map ci fs) = table_size fs"
  by (simp add: table_size_def comp_def)

lemma spec_insert_in_step:
  assumes "prefix (map ci fs) (map ci gs)" "ci f = ci g"
  shows "prefix (map ci (spec_insert m f fs)) (map ci (spec_insert m g gs))"
proof -
  have s: "field_size f = field_size g" using assms(2) by (metis field_size_ci)
  show ?thesis
    using fit_prefix [OF assms(1), of "m - field_size g"] assms(2) by (simp add: spec_insert_def s fit_ci)
qed

lemma fit_in_step:
  assumes "prefix (map ci fs) (map ci gs)" "table_size fs \<le> m"
  shows "prefix (map ci fs) (map ci (fit m gs))"
  using fit_prefix [OF assms(1), of m] fit_all [of "map ci fs" m] assms(2) by (simp add: fit_ci table_size_ci)

text \<open>The decoder's table starts with the encoder's, up to the case of names.\<close>

definition synced :: "HpackDynamicTable \<Rightarrow> HpackDynamicTable \<Rightarrow> bool" where
  "synced te td \<longleftrightarrow> table_valid te \<and> table_valid td \<and> maxSize te = maxSize td \<and> maxSize te < 2 ^ 32 \<and>
     prefix (map ci (table_fields te)) (map ci (table_fields td))"

lemma synced_count: "synced te td \<Longrightarrow> entryCount te \<le> entryCount td"
  unfolding synced_def using prefix_length_le by fastforce

lemma synced_field:
  assumes "synced te td" "0 < i" "i \<le> HpackStaticTableSize + entryCount te"
  shows "ci (all_fields td ! (i - 1)) = ci (all_fields te ! (i - 1))"
proof -
  have "prefix (map ci (all_fields te)) (map ci (all_fields td))"
    using assms(1) by (simp add: synced_def all_fields_def)
  moreover have i: "i - 1 < length (all_fields te)"
    using assms(2,3) by (simp add: all_fields_def HpackStaticTableSize_def)
  moreover have "i - 1 < length (all_fields td)" using i synced_count [OF assms(1)] by (simp add: all_fields_def)
  ultimately show ?thesis by (auto simp: prefix_def) (metis length_map nth_append nth_map)
qed

lemma synced_index: "synced te td \<Longrightarrow> i \<le> HpackStaticTableSize + entryCount te \<Longrightarrow> i < 2 ^ 32"
proof -
  assume h: "synced te td" "i \<le> HpackStaticTableSize + entryCount te"
  then have "32 * entryCount te < 2 ^ 32"
    using table_size_count [of te] by (auto simp: synced_def table_valid_def)
  then show ?thesis using h(2) by (simp add: HpackStaticTableSize_eq)
qed

lemma insert_in_step:
  assumes "synced te td" "Insert g h (Outside n) (length n) (Outside v) (length v) te = Ok (te', None)"
    and "map lower n' = map lower n" "length n < 2 ^ 32" "length v < 2 ^ 32"
  obtains td' where "Insert True True (Outside n') (length n') (Outside v) (length v) td = Ok (td', None)" "synced te' td'" "maxSize te' = maxSize te"
proof -
  have len: "length n' = length n" using assms(3) map_eq_imp_length_eq by blast
  have room: "length n + length v + HpackEntryOverhead \<le> MaxSizeT"
    using assms(4,5) by (simp add: MaxSizeT_def HpackEntryOverhead_def)
  have e: "table_ok te" "currentSize te \<le> maxSize te" "maxSize te \<le> MaxSizeT div 2"
    and d: "table_ok td" "currentSize td \<le> maxSize td" "maxSize td \<le> MaxSizeT div 2" "0 < entryCapacity td"
    and cap: "0 < entryCapacity te"
    using assms(1) by (simp_all add: synced_def table_valid_def)
  have te': "table_ok te' \<and> table_fields te' = spec_insert (maxSize te) (n, v) (table_fields te) \<and> maxSize te' = maxSize te \<and>
      entryCapacity te \<le> entryCapacity te' \<and> currentSize te' \<le> maxSize te"
    by (rule Insert_ok [OF e room, of g h]) (use assms(2) in auto)
  obtain td' where td': "Insert True True (Outside n') (length n') (Outside v) (length v) td = Ok (td', None)"
    "table_ok td'" "table_fields td' = spec_insert (maxSize td) (n', v) (table_fields td)" "maxSize td' = maxSize td"
    "entryCapacity td \<le> entryCapacity td'" "currentSize td' \<le> maxSize td"
    by (rule Insert_ok [OF d(1-3), of n' v True True]) (use room len d(4) in auto)
  have "synced te' td'"
    using assms(1) te' td' d cap spec_insert_in_step [of "table_fields te" "table_fields td" "(n, v)" "(n', v)"] assms(3)
    by (auto simp: synced_def table_valid_def ci_def)
  then show thesis using that td'(1) te' by blast
qed

end
