(* ===== verification/Kh_HpackSync.thy ===== *)
theory Kh_HpackSync
  imports Kh_HpackCodec
begin

text \<open>
  The HPACK encoder and decoder together: whatever sequence of header blocks is encoded, and however
  the size of the dynamic table is changed in between, the decoder reads back the headers and its
  table stays in step with the encoder's.
\<close>

unbundle bit_operations_syntax

section \<open>One header\<close>

lemma first_byte:
  assumes "n \<le> 8"
  obtains b where "rd (pre @ integer_text p n i @ rest) (length pre) = Ok b" "b AND NOT (max_prefix n) = p AND NOT (max_prefix n)"
proof -
  obtain b bs where b: "integer_text p n i = b # bs" using integer_text_Cons by blast
  then show thesis using that [of b] integer_text_prefix [OF assms, of p i] by simp
qed

lemma prefix_masks:
  "NOT (max_prefix 7) = (0x80 :: UCHAR)" "NOT (max_prefix 6) = (0xC0 :: UCHAR)"
  "NOT (max_prefix 5) = (0xE0 :: UCHAR)" "NOT (max_prefix 4) = (0xF0 :: UCHAR)"
  by code_simp+

lemma and_mask_down:
  "(b :: UCHAR) AND 0xC0 = x \<Longrightarrow> b AND 0x80 = x AND 0x80" "b AND 0xF0 = x \<Longrightarrow> b AND 0x80 = x AND 0x80"
  "b AND 0xF0 = x \<Longrightarrow> b AND 0xC0 = x AND 0xC0" "b AND 0xE0 = x \<Longrightarrow> b AND 0x80 = x AND 0x80"
  "b AND 0xE0 = x \<Longrightarrow> b AND 0xC0 = x AND 0xC0" "b AND 0xE0 = x \<Longrightarrow> (b AND 0xF0) AND 0xE0 = x"
  by (auto simp: and.assoc)

lemma emit_Ok:
  "(case Ok f of Err s \<Rightarrow> x s | Fault \<Rightarrow> y | Ok f \<Rightarrow> z f) = z f"
  by simp

lemma decode_step_indexed:
  assumes "dsOffset st = length pre" "decode_indexed (pre @ integer_text 0x80 7 i @ rest) (dsTable st) (length pre) (dsBuffer st) = Ok f"
  shows "decode_step grant hc ml mt (pre @ integer_text 0x80 7 i @ rest) st = emit_field (grant (length pre)) hc ml False f st"
proof -
  obtain b where b: "rd (pre @ integer_text 0x80 7 i @ rest) (length pre) = Ok b" "b AND NOT (max_prefix 7) = 0x80 AND NOT (max_prefix 7)"
    by (rule first_byte [of 7]) simp
  then have "b AND 0x80 = 0x80" by (simp add: prefix_masks)
  then show ?thesis unfolding decode_step_def Let_def assms b(1) rbind.simps by simp
qed

lemma decode_step_never:
  assumes "dsOffset st = length pre" "decode_literal 4 (pre @ integer_text 0x10 4 i @ rest) (dsTable st) (length pre) (dsBuffer st) = Ok f"
  shows "decode_step grant hc ml mt (pre @ integer_text 0x10 4 i @ rest) st = emit_field (grant (length pre)) hc ml False f st"
proof -
  obtain b where b: "rd (pre @ integer_text 0x10 4 i @ rest) (length pre) = Ok b" "b AND NOT (max_prefix 4) = 0x10 AND NOT (max_prefix 4)"
    by (rule first_byte [of 4]) simp
  then have "b AND 0xF0 = 0x10" by (simp add: prefix_masks)
  moreover from this have "b AND 0x80 = 0" "b AND 0xC0 = 0" using and_mask_down(2,3) [of b "0x10"] by simp_all
  ultimately show ?thesis unfolding decode_step_def Let_def assms b(1) rbind.simps by simp
qed

lemma decode_step_literal:
  assumes "dsOffset st = length pre" "decode_literal 6 (pre @ integer_text 0x40 6 i @ rest) (dsTable st) (length pre) (dsBuffer st) = Ok f"
  shows "decode_step grant hc ml mt (pre @ integer_text 0x40 6 i @ rest) st = emit_field (grant (length pre)) hc ml True f st"
proof -
  obtain b where b: "rd (pre @ integer_text 0x40 6 i @ rest) (length pre) = Ok b" "b AND NOT (max_prefix 6) = 0x40 AND NOT (max_prefix 6)"
    by (rule first_byte [of 6]) simp
  then have "b AND 0xC0 = 0x40" by (simp add: prefix_masks)
  moreover from this have "b AND 0x80 = 0" using and_mask_down(1) [of b "0x40"] by simp
  ultimately show ?thesis unfolding decode_step_def Let_def assms b(1) rbind.simps by simp
qed

lemma decode_step_update:
  assumes "dsOffset st = length pre" "dsAllowUpdate st" "k < 2 ^ 32" "k \<le> mt" "UpdateMaxSize k (dsTable st) = Ok t"
  shows "decode_step grant hc ml mt (pre @ integer_text 0x20 5 k @ rest) st =
    Ok (st\<lparr>dsTable := t, dsOffset := length pre + length (integer_text 0x20 5 k)\<rparr>, None)"
proof -
  obtain b where b: "rd (pre @ integer_text 0x20 5 k @ rest) (length pre) = Ok b" "b AND NOT (max_prefix 5) = 0x20 AND NOT (max_prefix 5)"
    by (rule first_byte [of 5]) simp
  then have e: "b AND 0xE0 = 0x20" by (simp add: prefix_masks)
  then have "b AND 0x80 = 0" "b AND 0xC0 = 0" using and_mask_down(4,5) [of b "0x20"] by simp_all
  moreover have "b AND 0xF0 \<noteq> 0" "b AND 0xF0 \<noteq> 0x10" using and_mask_down(6) [OF e] by auto
  moreover have "unat (word_of_nat k :: ULONG) = k" using assms(3) by (rule unat_word_of_nat_32)
  moreover have "HpackDecodeInteger (drop (length pre) (pre @ integer_text 0x20 5 k @ rest)) 5 =
      Ok (word_of_nat k, length (integer_text 0x20 5 k))"
    by (rule decode_index_text [OF assms(3)]) simp_all
  ultimately show ?thesis
    using e assms unfolding decode_step_def Let_def assms(1) b(1) rbind.simps by (simp del: drop_append)
qed

text \<open>The decoder after a header: what it promises relative to the text \<open>T\<close> of the buffer before.\<close>

definition decoded_to :: "bytes \<Rightarrow> HpackDynamicTable \<Rightarrow> field \<Rightarrow> nat \<Rightarrow> bytes \<Rightarrow> decode_state \<Rightarrow> decode_state \<Rightarrow> bytes \<Rightarrow> bool" where
  "decoded_to dest te f off T st st' T' \<longleftrightarrow>
     synced te (dsTable st') \<and> dsOffset st' = off \<and> stored dest (dsBuffer st') (T @ T') \<and>
     length T' = length (fst f) + length (snd f) \<and> dsListSize st' = dsListSize st + field_size f \<and>
     (\<exists>h. dsHeaders st' = dsHeaders st @ [h] \<and> ref_in (T @ T') h \<and> ci (ref_field (T @ T') h) = ci f)"

lemma encode_header_text:
  assumes "table_ok te" "entryCount te < 2 ^ 31" "stored destE w tE" "length n < 2 ^ 32" "span_len val < 2 ^ 32"
    and "encode_header g (Span n, val) (te, w) = Ok ((te', w'), None)"
  obtains i o1 where "i \<le> HpackStaticTableSize + entryCount te"
    "0 < i \<longrightarrow> map lower (fst (all_fields te ! (i - 1))) = map lower n"
    "0 < i \<and> \<not> o1 \<longrightarrow> snd (all_fields te ! (i - 1)) = span_list val"
    "stored destE w' (tE @ field_text i o1 (IsSensitiveHeaderName n) (n, span_list val))"
    "if IsSensitiveHeaderName n \<or> (0 < i \<and> \<not> o1) then te' = te
     else Insert (fst g) (snd g) (Outside n) (length n) (Outside (span_list val)) (length (span_list val)) te = Ok (te', None)"
proof -
  let ?never = "IsSensitiveHeaderName n"
  obtain i o1 where m: "FindMatch n (span_list val) te = Ok (i, o1)" "i \<le> HpackStaticTableSize + entryCount te"
    "0 < i \<longrightarrow> map lower (fst ((HpackStaticTable @ table_fields te) ! (i - 1))) = map lower n"
    "0 < i \<and> \<not> o1 \<longrightarrow> snd ((HpackStaticTable @ table_fields te) ! (i - 1)) = span_list val"
    by (rule FindMatch_ok [OF assms(1), of n "span_list val"])
  have val: "span_null val \<longrightarrow> span_len val = 0" using assms(6) by (auto simp: encode_header_def split: if_splits)
  then have lv: "span_len val = length (span_list val)" by (cases val) auto
  have i: "i < 2 ^ 32" using m(2) assms(2) by (simp add: HpackStaticTableSize_eq)
  obtain w1 where w1: "write_header n val i o1 ?never w = Ok w1"
    using assms(6) m(1) by (cases "write_header n val i o1 ?never w") (auto simp: encode_header_def Let_def split: if_splits)
  note wt = write_header_text [OF i assms(4) val assms(5), of destE o1 ?never]
  have "stored destE w1 (tE @ field_text i o1 ?never (n, span_list val))"
    using bounded_store_run [OF wt assms(3)] bounded_store_full [OF wt assms(3)] w1 by (fastforce simp: not_le)
  moreover have ok: "(False \<or> length n = 0 \<or> span_null val \<and> length (span_list val) \<noteq> 0) = False"
    using assms(6) lv by (auto simp: encode_header_def split: if_splits)
  have body: "(if (0 < i \<and> \<not> o1 \<and> \<not> ?never) \<or> ?never then Ok ((te, w1), None)
      else rbind (Insert (fst g) (snd g) (Outside n) (length n) (Outside (span_list val)) (length (span_list val)) te)
        (\<lambda>(t', status). if status \<noteq> None then Ok ((t', w), status) else Ok ((t', w1), None))) = Ok ((te', w'), None)"
    unfolding assms(6) [symmetric] encode_header_def Let_def prod.case ok if_False span_list.simps m(1) rbind.simps w1
      res.case span_len.simps span_null.simps lv by (rule refl)
  then have "w' = w1" by (auto split: if_splits)
  moreover have "if ?never \<or> (0 < i \<and> \<not> o1) then te' = te
     else Insert (fst g) (snd g) (Outside n) (length n) (Outside (span_list val)) (length (span_list val)) te = Ok (te', None)"
    using body by (auto split: if_splits)
  ultimately show thesis using that [of i o1] m(2-4) unfolding all_fields_def by blast
qed

lemma emit_in_step:
  assumes buf: "stored dest (dfBuffer df) (T @ X)"
    and parts: "denotes (dataBuffer (dsTable st)) (T @ X) (dfName df) nm" "denotes (dataBuffer (dsTable st)) (T @ X) (dfValue df) v"
    and copies: "length X + length (to_copy (fst (dfName df)) nm) + length (to_copy (fst (dfValue df)) v) = length n + length v"
    and room: "length T + 2 * (length n + length v) \<le> length dest" and name: "map lower nm = map lower n"
    and size: "dsListSize st + field_size (n, v) \<le> ml" "ml \<le> MaxSizeT" and hc: "length (dsHeaders st) < hc"
    and tables: "if add then Insert True True (Outside nm) (length nm) (Outside v) (length v) (dsTable st) = Ok (td', None)
      else td' = dsTable st" "synced te' td'"
  shows "\<exists>st' T'. emit_field (True, True) hc ml add df st = Ok (st', None) \<and>
    decoded_to dest te' (n, v) (dfOffset df) T st st' T'"
proof -
  have fs: "field_size (nm, v) = field_size (n, v)"
    using map_eq_imp_length_eq [OF name] by (simp add: field_size_def)
  let ?T = "(T @ X) @ to_copy (fst (dfName df)) nm @ to_copy (fst (dfValue df)) v"
  have tables': "if add then Insert (fst (True, True)) (snd (True, True)) (Outside nm) (length nm) (Outside v) (length v) (dsTable st) = Ok (td', None)
      else td' = dsTable st" using tables(1) by simp
  obtain st' h where r: "emit_field (True, True) hc ml add df st = Ok (st', None)" "dsTable st' = td'" "dsOffset st' = dfOffset df"
    "stored dest (dsBuffer st') ?T" "dsHeaders st' = dsHeaders st @ [h]" "dsListSize st' = dsListSize st + field_size (nm, v)"
    "ref_in ?T h" "ref_field ?T h = (nm, v)"
    by (rule emit_field_ok [OF buf parts _ _ size(2) hc tables']) (use copies room size(1) fs in simp_all)
  have "decoded_to dest te' (n, v) (dfOffset df) T st st' (X @ to_copy (fst (dfName df)) nm @ to_copy (fst (dfValue df)) v)"
    unfolding decoded_to_def using r tables(2) copies fs name by (auto simp: ci_def)
  then show ?thesis using r(1) by blast
qed

text \<open>The bytes \<open>tx\<close> make a decoder in step with \<open>te\<close> return the field \<open>f\<close> and be in step with \<open>te'\<close>.\<close>

definition header_decodes :: "(nat \<Rightarrow> bool \<times> bool) \<Rightarrow> nat \<Rightarrow> nat \<Rightarrow> nat \<Rightarrow> HpackDynamicTable \<Rightarrow> HpackDynamicTable \<Rightarrow> field \<Rightarrow> bytes \<Rightarrow> bool" where
  "header_decodes grant hc ml mt te te' f tx \<longleftrightarrow>
     (\<forall>st pre rest T dest. synced te (dsTable st) \<longrightarrow> dsOffset st = length pre \<longrightarrow> stored dest (dsBuffer st) T \<longrightarrow>
        length T + 2 * (length (fst f) + length (snd f)) \<le> length dest \<longrightarrow>
        dsListSize st + field_size f \<le> ml \<longrightarrow> ml \<le> MaxSizeT \<longrightarrow> length (dsHeaders st) < hc \<longrightarrow>
        (\<exists>st' T'. decode_step grant hc ml mt (pre @ tx @ rest) st = Ok (st', None) \<and>
           decoded_to dest te' f (length pre + length tx) T st st' T'))"

text \<open>One header through the encoder and the decoder.\<close>

lemma header_in_step:
  assumes self: "synced te te" and E: "stored destE w tE" and len: "length n < 2 ^ 32" "span_len val < 2 ^ 32"
    and enc: "encode_header g (Span n, val) (te, w) = Ok ((te', w'), None)"
    and grant: "\<And>k. grant k = (True, True)"
  obtains tx where "stored destE w' (tE @ tx)" "tx \<noteq> []" "synced te' te'" "maxSize te' = maxSize te"
    "header_decodes grant hc ml mt te te' (n, span_list val) tx"
proof -
  let ?v = "span_list val" and ?never = "IsSensitiveHeaderName n"
  have te: "table_ok te" using self by (simp add: synced_def table_valid_def)
  have cnt: "entryCount te < 2 ^ 31"
    using table_size_count [OF te] self by (simp add: synced_def table_valid_def)
  obtain i o1 where i: "i \<le> HpackStaticTableSize + entryCount te"
    "0 < i \<longrightarrow> map lower (fst (all_fields te ! (i - 1))) = map lower n"
    "0 < i \<and> \<not> o1 \<longrightarrow> snd (all_fields te ! (i - 1)) = ?v"
    "stored destE w' (tE @ field_text i o1 ?never (n, ?v))"
    "if ?never \<or> (0 < i \<and> \<not> o1) then te' = te
     else Insert (fst g) (snd g) (Outside n) (length n) (Outside ?v) (length ?v) te = Ok (te', None)"
    by (rule encode_header_text [OF te cnt E len enc])
  let ?tx = "field_text i o1 ?never (n, ?v)"
  have lv: "length ?v < 2 ^ 32" using len(2) by (cases val) auto
  have i32: "i < 2 ^ 32" by (rule synced_index [OF self i(1)])
  have ins: "Insert (fst g) (snd g) (Outside n) (length n) (Outside ?v) (length ?v) te = Ok (te', None)" if "\<not> (?never \<or> (0 < i \<and> \<not> o1))"
    using i(5) that by simp
  have self': "synced te' te' \<and> maxSize te' = maxSize te"
  proof (cases "?never \<or> (0 < i \<and> \<not> o1)")
    case False
    obtain td where "synced te' td" "maxSize te' = maxSize te" by (rule insert_in_step [OF self ins [OF False] refl len(1) lv])
    then show ?thesis by (simp add: synced_def)
  qed (use self i(5) in simp)
  show thesis
  proof (rule that [OF i(4) _ conjunct1 [OF self'] conjunct2 [OF self']])
    show "?tx \<noteq> []" by (auto simp: field_text_def)
    show "header_decodes grant hc ml mt te te' (n, ?v) ?tx"
      unfolding header_decodes_def fst_conv snd_conv
    proof (intro allI impI)
    fix st :: decode_state and pre rest T dest :: bytes
    let ?td = "dsTable st"
    assume sync: "synced te ?td" and off: "dsOffset st = length pre" and T: "stored dest (dsBuffer st) T"
      and room: "length T + 2 * (length n + length ?v) \<le> length dest"
      and size: "dsListSize st + field_size (n, ?v) \<le> ml" "ml \<le> MaxSizeT" and hc: "length (dsHeaders st) < hc"
    have td: "table_ok ?td" using sync by (simp add: synced_def table_valid_def)
    have itd: "i \<le> HpackStaticTableSize + entryCount ?td" using i(1) synced_count [OF sync] by simp
    define f where "f = all_fields ?td ! (i - 1)"
  have cif: "ci f = ci (all_fields te ! (i - 1))" if "0 < i" unfolding f_def by (rule synced_field [OF sync that i(1)])
  have name: "map lower (fst f) = map lower n" if "0 < i" using cif [OF that] i(2) that by (simp add: ci_def)
  have lname: "length (fst f) = length n" if "0 < i" using name [OF that] map_eq_imp_length_eq by blast
    show "\<exists>st' T'. decode_step grant hc ml mt (pre @ ?tx @ rest) st = Ok (st', None) \<and>
        decoded_to dest te' (n, ?v) (length pre + length ?tx) T st st' T'"
    proof (cases "0 < i \<and> \<not> o1 \<and> \<not> ?never")
      case True
      then have tx: "?tx = integer_text 0x80 7 i" and pos: "0 < i" and te': "te' = te"
        using i(5) by (simp_all add: field_text_def)
      have val_eq: "snd f = ?v" using cif [OF pos] i(3) True by (simp add: ci_def)
      obtain df where df: "decode_indexed (pre @ integer_text 0x80 7 i @ rest) ?td (length pre) (dsBuffer st) = Ok df"
        "denotes (dataBuffer ?td) T (dfName df) (fst f)" "denotes (dataBuffer ?td) T (dfValue df) (snd f)"
        "dfOffset df = length pre + length (integer_text 0x80 7 i)" "dfBuffer df = dsBuffer st"
        "to_copy (fst (dfName df)) (fst f) = fst f" "to_copy (fst (dfValue df)) (snd f) = snd f"
        unfolding f_def by (rule decode_indexed_text [OF td pos itd i32])
      have "\<exists>st' T'. emit_field (True, True) hc ml False df st = Ok (st', None) \<and> decoded_to dest te (n, ?v) (dfOffset df) T st st' T'"
        by (rule emit_in_step [where X = "[]" and nm = "fst f" and td' = ?td])
          (use df T room size hc sync val_eq name [OF pos] lname [OF pos] in simp_all)
      then show ?thesis
        unfolding tx decode_step_indexed [OF off df(1)] grant te' df(4) .
    next
      case False
      define p k where "p = (if ?never then 0x10 else 0x40 :: UCHAR)" and "k = (if ?never then 4 else 6 :: nat)"
      define nm where "nm = (if 0 < i then fst f else n)"
      let ?text = "integer_text p k i @ (if 0 < i then [] else string_text n) @ string_text ?v"
      have tx: "?tx = ?text" using False by (auto simp: field_text_def p_def k_def)
      have k: "1 \<le> k" "k \<le> 8" by (simp_all add: k_def)
      obtain df T1 where df: "decode_literal k (pre @ ?text @ rest) ?td (length pre) (dsBuffer st) = Ok df" "stored dest (dfBuffer df) T1"
        "denotes (dataBuffer ?td) T1 (dfName df) nm" "denotes (dataBuffer ?td) T1 (dfValue df) ?v"
        "dfOffset df = length pre + length ?text" "T1 = T @ (if 0 < i then [] else n) @ ?v"
        "to_copy (fst (dfName df)) nm = (if 0 < i then nm else [])" "to_copy (fst (dfValue df)) ?v = []"
        unfolding nm_def f_def by (rule decode_literal_text [OF td itd i32 k T len(1) lv room, where p = p and pre = pre and rest = rest])
      have nml: "map lower nm = map lower n" "length nm = length n" using name lname by (simp_all add: nm_def)
      have step: "decode_step grant hc ml mt (pre @ ?text @ rest) st = emit_field (True, True) hc ml (\<not> ?never) df st"
      proof (cases ?never)
        case True
        then show ?thesis
          using decode_step_never [OF off, of i "(if 0 < i then [] else string_text n) @ string_text ?v @ rest" df] df(1) grant
          by (simp only: p_def k_def append_assoc if_True simp_thms)
      next
        case idx: False
        then show ?thesis
          using decode_step_literal [OF off, of i "(if 0 < i then [] else string_text n) @ string_text ?v @ rest" df] df(1) grant
          by (simp only: p_def k_def append_assoc if_False simp_thms)
      qed
      obtain td' where td': "if \<not> ?never then Insert True True (Outside nm) (length nm) (Outside ?v) (length ?v) ?td = Ok (td', None) else td' = ?td"
        "synced te' td'"
      proof (cases ?never)
        case True
        then show thesis using that [of ?td] i(5) sync by simp
      next
        case idx: False
        then have "\<not> (?never \<or> (0 < i \<and> \<not> o1))" using False by auto
        then show thesis using insert_in_step [OF sync ins nml(1) len(1) lv] that idx by auto
      qed
      have "\<exists>st' T'. emit_field (True, True) hc ml (\<not> ?never) df st = Ok (st', None) \<and> decoded_to dest te' (n, ?v) (dfOffset df) T st st' T'"
        by (rule emit_in_step [where X = "(if 0 < i then [] else n) @ ?v" and nm = nm and td' = td'])
          (use df nml room size hc td' in simp_all)
      then show ?thesis unfolding tx step df(5) .
    qed
    qed
  qed
qed

section \<open>A header block\<close>

definition header_field :: "header \<Rightarrow> field" where
  "header_field h = (span_list (fst h), span_list (snd h))"

text \<open>The bytes of the names and values, and the sizes a \<open>ULONG\<close> length can hold.\<close>

definition header_bytes :: "header list \<Rightarrow> nat" where
  "header_bytes hs = sum_list (map (\<lambda>h. length (span_list (fst h)) + length (span_list (snd h))) hs)"

definition short_header :: "header \<Rightarrow> bool" where
  "short_header h \<longleftrightarrow> span_len (fst h) < 2 ^ 32 \<and> span_len (snd h) < 2 ^ 32"

lemma decode_loop_step:
  "dsOffset st < length block \<Longrightarrow> decode_step grant hc ml mt block st = Ok (st', None) \<Longrightarrow>
   decode_loop grant hc ml mt block st = decode_loop grant hc ml mt block st'"
  by (subst decode_loop.simps) simp

lemma decode_loop_end: "dsOffset st = length block \<Longrightarrow> decode_loop grant hc ml mt block st = Ok (st, None)"
  by (subst decode_loop.simps) simp

text \<open>The same for a list of fields, up to the end of the block.\<close>

definition headers_decode :: "(nat \<Rightarrow> bool \<times> bool) \<Rightarrow> nat \<Rightarrow> nat \<Rightarrow> nat \<Rightarrow> HpackDynamicTable \<Rightarrow> HpackDynamicTable \<Rightarrow> header list \<Rightarrow> bytes \<Rightarrow> bool" where
  "headers_decode grant hc ml mt te te' hs tx \<longleftrightarrow>
     (\<forall>st pre T dest. synced te (dsTable st) \<longrightarrow> dsOffset st = length pre \<longrightarrow> stored dest (dsBuffer st) T \<longrightarrow>
        length T + 2 * header_bytes hs \<le> length dest \<longrightarrow>
        dsListSize st + table_size (map header_field hs) \<le> ml \<longrightarrow> ml \<le> MaxSizeT \<longrightarrow> length (dsHeaders st) + length hs \<le> hc \<longrightarrow>
        list_all (ref_in T) (dsHeaders st) \<longrightarrow>
        (\<exists>st' T'. decode_loop grant hc ml mt (pre @ tx) st = Ok (st', None) \<and> synced te' (dsTable st') \<and>
          stored dest (dsBuffer st') T' \<and> list_all (ref_in T') (dsHeaders st') \<and>
          map (\<lambda>h. ci (ref_field T' h)) (dsHeaders st') = map (\<lambda>h. ci (ref_field T h)) (dsHeaders st) @ map (\<lambda>h. ci (header_field h)) hs))"

lemma headers_decode_Nil: "headers_decode grant hc ml mt te te [] []"
  unfolding headers_decode_def by (auto simp: decode_loop_end)

lemma header_decodesD:
  assumes "header_decodes grant hc ml mt te te' f tx" "synced te (dsTable st)" "dsOffset st = length pre" "stored dest (dsBuffer st) T"
    and "length T + 2 * (length (fst f) + length (snd f)) \<le> length dest" "ml \<le> MaxSizeT"
    and "dsListSize st + field_size f \<le> ml" "length (dsHeaders st) < hc"
  shows "\<exists>st' T'. decode_step grant hc ml mt (pre @ tx @ rest) st = Ok (st', None) \<and>
    decoded_to dest te' f (length pre + length tx) T st st' T'"
  using assms unfolding header_decodes_def by blast

lemma headers_decodeD:
  assumes "headers_decode grant hc ml mt te te' hs tx" "synced te (dsTable st)" "dsOffset st = length pre" "stored dest (dsBuffer st) T"
    and "length T + 2 * header_bytes hs \<le> length dest" "ml \<le> MaxSizeT"
    and "dsListSize st + table_size (map header_field hs) \<le> ml" "length (dsHeaders st) + length hs \<le> hc" "list_all (ref_in T) (dsHeaders st)"
  shows "\<exists>st' T'. decode_loop grant hc ml mt (pre @ tx) st = Ok (st', None) \<and> synced te' (dsTable st') \<and>
    stored dest (dsBuffer st') T' \<and> list_all (ref_in T') (dsHeaders st') \<and>
    map (\<lambda>h. ci (ref_field T' h)) (dsHeaders st') = map (\<lambda>h. ci (ref_field T h)) (dsHeaders st) @ map (\<lambda>h. ci (header_field h)) hs"
  using assms unfolding headers_decode_def by blast

lemma headers_decode_Cons:
  assumes first: "header_decodes grant hc ml mt te te1 (header_field h) tx1" "tx1 \<noteq> []"
    and rest: "headers_decode grant hc ml mt te1 te' hs tx2"
  shows "headers_decode grant hc ml mt te te' (h # hs) (tx1 @ tx2)"
  unfolding headers_decode_def
proof (intro allI impI)
  let ?f = "header_field h"
  fix st :: decode_state and pre T dest :: bytes
  assume sync: "synced te (dsTable st)" and off: "dsOffset st = length pre" and T: "stored dest (dsBuffer st) T"
    and room: "length T + 2 * header_bytes (h # hs) \<le> length dest"
    and size: "dsListSize st + table_size (map header_field (h # hs)) \<le> ml" "ml \<le> MaxSizeT"
    and hc: "length (dsHeaders st) + length (h # hs) \<le> hc" and refs: "list_all (ref_in T) (dsHeaders st)"
  have bytes1: "header_bytes (h # hs) = length (fst ?f) + length (snd ?f) + header_bytes hs"
    by (simp add: header_bytes_def header_field_def)
  obtain st1 T1 where s1: "decode_step grant hc ml mt (pre @ tx1 @ tx2) st = Ok (st1, None)"
    and d1: "decoded_to dest te1 ?f (length pre + length tx1) T st st1 T1"
    using header_decodesD [OF first(1) sync off T _ size(2), of tx2] room size(1) hc by (auto simp: bytes1)
  obtain hr where hr: "dsHeaders st1 = dsHeaders st @ [hr]" "ref_in (T @ T1) hr" "ci (ref_field (T @ T1) hr) = ci ?f"
    using d1 by (auto simp: decoded_to_def)
  have d: "synced te1 (dsTable st1)" "dsOffset st1 = length (pre @ tx1)" "stored dest (dsBuffer st1) (T @ T1)"
    "length T1 = length (fst ?f) + length (snd ?f)" "dsListSize st1 = dsListSize st + field_size ?f"
    using d1 by (simp_all add: decoded_to_def)
  have old: "list_all (ref_in (T @ T1)) (dsHeaders st)"
    "map (\<lambda>h. ci (ref_field (T @ T1) h)) (dsHeaders st) = map (\<lambda>h. ci (ref_field T h)) (dsHeaders st)"
    using refs ref_append [of T] by (auto simp: list_all_iff)
  obtain st' T' where r: "decode_loop grant hc ml mt ((pre @ tx1) @ tx2) st1 = Ok (st', None)" "synced te' (dsTable st')"
    "stored dest (dsBuffer st') T'" "list_all (ref_in T') (dsHeaders st')"
    "map (\<lambda>h. ci (ref_field T' h)) (dsHeaders st') = map (\<lambda>h. ci (ref_field (T @ T1) h)) (dsHeaders st1) @ map (\<lambda>h. ci (header_field h)) hs"
    using headers_decodeD [OF rest d(1-3) _ size(2)] room size(1) hc d(4,5) hr old(1) by (auto simp: bytes1)
  have "decode_loop grant hc ml mt (pre @ tx1 @ tx2) st = decode_loop grant hc ml mt (pre @ tx1 @ tx2) st1"
    using off first(2) by (intro decode_loop_step [OF _ s1]) simp
  then show "\<exists>st' T'. decode_loop grant hc ml mt (pre @ tx1 @ tx2) st = Ok (st', None) \<and> synced te' (dsTable st') \<and>
      stored dest (dsBuffer st') T' \<and> list_all (ref_in T') (dsHeaders st') \<and>
      map (\<lambda>h. ci (ref_field T' h)) (dsHeaders st') = map (\<lambda>h. ci (ref_field T h)) (dsHeaders st) @ map (\<lambda>h. ci (header_field h)) (h # hs)"
    using r hr old(2) by (intro exI [of _ st'] exI [of _ T']) simp
qed

lemma headers_in_step:
  assumes "synced te te" "stored destE w tE" "list_all short_header hs"
    and "encode_headers gE k hs (te, w) = Ok ((te', w'), None)" "\<And>k. grant k = (True, True)"
  obtains tx where "stored destE w' (tE @ tx)" "synced te' te'" "maxSize te' = maxSize te" "headers_decode grant hc ml mt te te' hs tx"
  using assms(1-4)
proof (induction hs arbitrary: te w tE k thesis)
  case Nil
  then show ?case
    by (intro Nil.prems(1) [of "[]"]) (auto simp: headers_decode_Nil)
next
  case (Cons h hs)
  obtain te1 w1 where e1: "encode_header (gE k) h (te, w) = Ok ((te1, w1), None)" "encode_headers gE (k + 1) hs (te1, w1) = Ok ((te', w'), None)"
    using Cons.prems(5) by (auto split: if_splits)
  obtain n val where h: "h = (Span n, val)"
    using e1(1) by (cases h; cases "fst h") (auto simp: encode_header_def)
  have sh: "length n < 2 ^ 32" "span_len val < 2 ^ 32" "list_all short_header hs"
    using Cons.prems(4) by (simp_all add: h short_header_def [of "(Span n, val)"])
  obtain tx1 where tx1: "stored destE w1 (tE @ tx1)" "tx1 \<noteq> []" "synced te1 te1" "maxSize te1 = maxSize te"
      "header_decodes grant hc ml mt te te1 (n, span_list val) tx1"
    by (rule header_in_step [OF Cons.prems(2,3) sh(1,2) e1(1) [unfolded h] assms(5)])
  obtain tx2 where tx2: "stored destE w' ((tE @ tx1) @ tx2)" "synced te' te'" "maxSize te' = maxSize te1"
      "headers_decode grant hc ml mt te1 te' hs tx2"
    by (rule Cons.IH [OF _ tx1(3,1) sh(3) e1(2)])
  show ?case
  proof (rule Cons.prems(1) [of "tx1 @ tx2"])
    show "headers_decode grant hc ml mt te te' (h # hs) (tx1 @ tx2)"
      using headers_decode_Cons [OF _ tx1(2) tx2(4)] tx1(5) by (simp add: h header_field_def)
  qed (use tx1 tx2 in simp_all)
qed

section \<open>A connection\<close>

definition in_sync :: "HpackEncoder \<Rightarrow> HpackDecoder \<Rightarrow> bool" where
  "in_sync e d \<longleftrightarrow> table_valid (encTable e) \<and> table_valid (decTable d) \<and>
     maxSize (encTable e) = encMaxTableSize e \<and> encMaxTableSize e < 2 ^ 32 \<and> encMaxTableSize e \<le> decMaxTableSize d \<and>
     prefix (map ci (table_fields (encTable e))) (map ci (table_fields (decTable d))) \<and>
     (if tableSizeUpdatePending e then pendingTableSize e = encMaxTableSize e
      else maxSize (decTable d) = maxSize (encTable e))"

text \<open>The room a decoder needs for a list of headers.\<close>

definition room_for :: "header list \<Rightarrow> nat \<Rightarrow> nat \<Rightarrow> nat \<Rightarrow> bool" where
  "room_for hs hc nvCapacity ml \<longleftrightarrow> length hs \<le> hc \<and> 2 * header_bytes hs \<le> nvCapacity \<and>
     table_size (map header_field hs) \<le> ml \<and> ml \<le> MaxSizeT"

definition start_state :: "HpackDecoder \<Rightarrow> bytes \<Rightarrow> decode_state" where
  "start_state d nv = \<lparr>dsTable = decTable d, dsOffset = 0, dsHeaders = [], dsBuffer = (nv, 0), dsListSize = 0, dsAllowUpdate = True\<rparr>"

lemma block_in_step:
  assumes sync: "in_sync e d" and short: "list_all short_header hs"
    and enc: "Encode gE (Span hs) (Span destE) e = Ok (e', w', None)"
    and room: "room_for hs hc (length nv) ml" and grant: "\<And>k. grant k = (True, True)"
  obtains d' refs w where "Decode grant (Span (take (snd w') (fst w'))) (Some hc) (Span nv) ml d = Ok (d', (refs, w), None)"
    "in_sync e' d'" "map (\<lambda>h. ci (ref_field (fst w) h)) refs = map (\<lambda>h. ci (header_field h)) hs"
    "list_all (ref_in (take (snd w) (fst w))) refs"
proof -
  let ?te = "encTable e" and ?k = "pendingTableSize e" and ?st0 = "start_state d nv"
  define size_text where "size_text = (if tableSizeUpdatePending e then integer_text 0x20 5 ?k else [])"
  have k32: "tableSizeUpdatePending e \<Longrightarrow> ?k < 2 ^ 32" using sync by (simp add: in_sync_def)
  then have uk: "tableSizeUpdatePending e \<Longrightarrow> unat (word_of_nat ?k :: ULONG) = ?k" by (rule unat_word_of_nat_32)
  obtain w1 te' where w1: "(if tableSizeUpdatePending e then HpackEncodeInteger (word_of_nat ?k) 0x20 5 (destE, 0) else Ok (destE, 0)) = Ok w1"
    and eh: "encode_headers gE 0 hs (?te, w1) = Ok ((te', w'), None)" and e': "e' = e\<lparr>encTable := te', tableSizeUpdatePending := False\<rparr>"
    using enc by (auto simp: Encode_def Let_def split: res.splits)
  have "bounded_store destE (\<lambda>w. if tableSizeUpdatePending e then HpackEncodeInteger (word_of_nat ?k) 0x20 5 w else Ok w) size_text"
    using HpackEncodeInteger_text [of 5 destE "word_of_nat ?k" "0x20"] uk
    by (cases "tableSizeUpdatePending e") (auto simp: size_text_def bounded_store_def stored_def)
  then have w1s: "stored destE w1 size_text"
    using bounded_store_run [OF _ stored_start] bounded_store_full [OF _ stored_start] w1 by (fastforce simp: not_le)
  have self: "synced ?te ?te" using sync by (simp add: synced_def in_sync_def)
  obtain tx where tx: "stored destE w' (size_text @ tx)" "synced te' te'" "maxSize te' = maxSize ?te"
    "headers_decode grant hc ml (decMaxTableSize d) ?te te' hs tx"
    by (rule headers_in_step [OF self w1s short eh grant])
  have block: "take (snd w') (fst w') = size_text @ tx" using tx(1) by (auto simp: stored_def overlay_def)
  obtain st1 where st1: "decode_loop grant hc ml (decMaxTableSize d) (size_text @ tx) ?st0 = decode_loop grant hc ml (decMaxTableSize d) (size_text @ tx) st1"
    "synced ?te (dsTable st1)" "dsOffset st1 = length size_text" "dsBuffer st1 = (nv, 0)" "dsListSize st1 = 0" "dsHeaders st1 = []"
  proof (cases "tableSizeUpdatePending e")
    case False
    then show thesis using that [of ?st0] sync by (simp add: start_state_def size_text_def in_sync_def synced_def)
  next
    case True
    have d: "table_ok (decTable d)" "0 < entryCapacity (decTable d)" using sync by (simp_all add: in_sync_def table_valid_def)
    obtain t where t: "UpdateMaxSize ?k (decTable d) = Ok t" "table_ok t" "table_fields t = fit ?k (table_fields (decTable d))"
      "maxSize t = ?k" "entryCapacity t = entryCapacity (decTable d)" "currentSize t \<le> ?k"
      by (rule UpdateMaxSize_ok [OF d(1)])
    let ?st1 = "?st0\<lparr>dsTable := t, dsOffset := length size_text\<rparr>"
    have "decode_step grant hc ml (decMaxTableSize d) ([] @ integer_text 0x20 5 ?k @ tx) ?st0 =
        Ok (?st0\<lparr>dsTable := t, dsOffset := length ([] :: bytes) + length (integer_text 0x20 5 ?k)\<rparr>, None)"
      using sync True k32 t(1) by (intro decode_step_update) (simp_all add: start_state_def in_sync_def)
    then have "decode_step grant hc ml (decMaxTableSize d) (size_text @ tx) ?st0 = Ok (?st1, None)"
      using True by (simp add: size_text_def)
    then have "decode_loop grant hc ml (decMaxTableSize d) (size_text @ tx) ?st0 = decode_loop grant hc ml (decMaxTableSize d) (size_text @ tx) ?st1"
      using True by (intro decode_loop_step) (simp_all add: start_state_def size_text_def)
    moreover have "synced ?te t"
    proof -
      have "table_size (table_fields ?te) \<le> ?k"
        using sync True table_size_fields [of ?te] by (simp add: in_sync_def table_valid_def)
      then have "prefix (map ci (table_fields ?te)) (map ci (table_fields t))"
        using sync t(3) fit_in_step by (simp add: in_sync_def)
      then show ?thesis
        using sync True t(2,4-6) d(2) by (auto simp: synced_def in_sync_def table_valid_def)
    qed
    ultimately show thesis using that [of ?st1] by (simp add: start_state_def)
  qed
  obtain st' T' where st': "decode_loop grant hc ml (decMaxTableSize d) (size_text @ tx) st1 = Ok (st', None)" "synced te' (dsTable st')"
    "stored nv (dsBuffer st') T'" "list_all (ref_in T') (dsHeaders st')"
    "map (\<lambda>h. ci (ref_field T' h)) (dsHeaders st') = map (\<lambda>h. ci (header_field h)) hs"
    using headers_decodeD [OF tx(4) st1(2,3), of nv "[]"] room st1(4-6) by (auto simp: stored_def room_for_def)
  have buf: "take (snd (dsBuffer st')) (fst (dsBuffer st')) = T'" using st'(3) by (auto simp: stored_def overlay_def)
  have reads: "map (\<lambda>h. ci (ref_field (fst (dsBuffer st')) h)) (dsHeaders st') = map (\<lambda>h. ci (ref_field T' h)) (dsHeaders st')"
    using st'(4) bytes_at_stored [OF st'(3)] by (auto simp: list_all_iff ref_field_def ref_in_def)
  have dec: "Decode grant (Span (size_text @ tx)) (Some hc) (Span nv) ml d =
      Ok (d\<lparr>decTable := dsTable st'\<rparr>, (dsHeaders st', dsBuffer st'), None)"
    using st1(1) st'(1) by (simp add: Decode_def start_state_def)
  have "in_sync e' (d\<lparr>decTable := dsTable st'\<rparr>)"
    using sync st'(2) tx(3) by (simp add: in_sync_def synced_def e')
  then show thesis using that [of "d\<lparr>decTable := dsTable st'\<rparr>" "dsHeaders st'" "dsBuffer st'"] dec reads st'(4,5) unfolding block buf by simp
qed

lemma init_in_step:
  assumes "1 \<le> n" "n < 2 ^ 32" "n \<le> m" "m = n"
    and "Encoder_Initialize True True n e0 = (e, None)" "Decoder_Initialize True True m d0 = (d, None)"
  shows "in_sync e d"
proof -
  have n: "n \<le> MaxSizeT div 2" using assms(2) by (simp add: MaxSizeT_def)
  obtain te where te: "Table_Initialize True True n (encTable e0) = (te, None)" "table_valid te" "table_content te = (n, [])"
    by (rule Table_Initialize_ok [OF assms(1) n])
  obtain td where td: "Table_Initialize True True n (decTable d0) = (td, None)" "table_valid td" "table_content td = (n, [])"
    by (rule Table_Initialize_ok [OF assms(1) n])
  show ?thesis
    using assms te td by (auto simp: in_sync_def Encoder_Initialize_def Decoder_Initialize_def table_content_def)
qed

lemma resize_in_step:
  assumes "in_sync e d" "k < 2 ^ 32" "k \<le> decMaxTableSize d" "Encoder_UpdateMaxTableSize k e = Ok e'"
  shows "in_sync e' d"
proof (cases "encMaxTableSize e = k")
  case True
  then show ?thesis using assms by (simp add: Encoder_UpdateMaxTableSize_def)
next
  case False
  have te: "table_ok (encTable e)" "0 < entryCapacity (encTable e)" using assms(1) by (simp_all add: in_sync_def table_valid_def)
  obtain t where t: "UpdateMaxSize k (encTable e) = Ok t" "table_ok t" "table_fields t = fit k (table_fields (encTable e))"
    "maxSize t = k" "entryCapacity t = entryCapacity (encTable e)" "currentSize t \<le> k"
    by (rule UpdateMaxSize_ok [OF te(1)])
  have fit_pre: "prefix (fit k fs) fs" for fs :: "field list"
    by (induction fs arbitrary: k) auto
  have "prefix (map ci (table_fields t)) (map ci (table_fields (decTable d)))"
    using assms(1) fit_pre t(3) by (auto simp: in_sync_def intro: prefix_order.trans map_mono_prefix)
  moreover have "k \<le> MaxSizeT div 2" using assms(2) by (simp add: MaxSizeT_def)
  ultimately show ?thesis
    using assms t False te by (auto simp: Encoder_UpdateMaxTableSize_def in_sync_def table_valid_def)
qed

text \<open>
  The states of the two ends of a connection: they start with tables of the same size; the encoder is
  told new sizes, within what the decoder allows; blocks are encoded and decoded, with room for the
  headers and memory for the tables.
\<close>

definition granted :: "nat \<Rightarrow> bool \<times> bool" where
  "granted k = (True, True)"

inductive hpack_session :: "HpackEncoder \<Rightarrow> HpackDecoder \<Rightarrow> bool" where
  session_start: "Encoder_Initialize True True n fresh_encoder = (e, None) \<Longrightarrow>
    Decoder_Initialize True True n fresh_decoder = (d, None) \<Longrightarrow> 1 \<le> n \<Longrightarrow> n < 2 ^ 32 \<Longrightarrow> hpack_session e d"
| session_resize: "hpack_session e d \<Longrightarrow> k < 2 ^ 32 \<Longrightarrow> k \<le> decMaxTableSize d \<Longrightarrow>
    Encoder_UpdateMaxTableSize k e = Ok e' \<Longrightarrow> hpack_session e' d"
| session_block: "hpack_session e d \<Longrightarrow> list_all short_header hs \<Longrightarrow>
    Encode gE (Span hs) (Span dest) e = Ok (e', w, None) \<Longrightarrow> room_for hs hc (length nv) ml \<Longrightarrow>
    Decode granted (Span (take (snd w) (fst w))) (Some hc) (Span nv) ml d = Ok (d', result, status) \<Longrightarrow>
    hpack_session e' d'"

lemma session_in_sync: "hpack_session e d \<Longrightarrow> in_sync e d"
proof (induction rule: hpack_session.induct)
  case (session_start n e d)
  then show ?case using init_in_step [of n n] by blast
next
  case (session_resize e d k e')
  then show ?case using resize_in_step by blast
next
  case (session_block e d hs gE dest e' w hc nv ml d' result status)
  obtain d2 refs buf where "Decode granted (Span (take (snd w) (fst w))) (Some hc) (Span nv) ml d = Ok (d2, (refs, buf), None)"
    "in_sync e' d2" "map (\<lambda>h. ci (ref_field (fst buf) h)) refs = map (\<lambda>h. ci (header_field h)) hs"
    "list_all (ref_in (take (snd buf) (fst buf))) refs"
    by (rule block_in_step [OF session_block.IH session_block.hyps(2,3,4) granted_def])
  then show ?case using session_block.hyps(5) by simp
qed

section \<open>Properties\<close>



end
