(* ===== verification/Kh_HpackSafety.thy ===== *)
theory Kh_HpackSafety
  imports Kh_HpackCodec
begin

text \<open>
  The HPACK decoder on arbitrary input: whatever bytes the peer sends and whenever memory runs out, it
  does not access memory out of bounds, its table stays consistent, and what it accepts lies within
  the limits of the caller.
\<close>

unbundle bit_operations_syntax

section \<open>Parts of a header\<close>

lemma decode_string_cases:
  assumes "stored dest w T"
  obtains (ok) bs off' w' where "decode_string block off w = Ok (InBuffer (length T), length bs, off', w')" "stored dest w' (T @ bs)"
  | (bad) e where "decode_string block off w = Err e"
proof (cases "off \<ge> length block")
  case True
  then show thesis using bad by (simp add: decode_string_def)
next
  case off: False
  have c: "snd w = length T" "length (fst w) = length dest" "length T \<le> length dest" using assms by (auto simp: stored_def)
  show thesis
  proof (cases "HpackDecodeInteger (drop off block) 7")
    case (Ok r)
    obtain strLen k where r: "r = (strLen, k)" by force
    define n where "n = unat strLen"
    define src where "src = bytes_at block (off + k) n"
    show thesis
    proof (cases "RangeFits (off + k) n (length block)")
      case fits: True
      have ls: "length src = n" using fits by (auto simp: src_def RangeFits_def bytes_at_def)
      have run: "decode_string block off w =
          (if block ! off AND 0x80 \<noteq> 0 then
             case MultiplySize n 2 of
               None \<Rightarrow> Err STATUS_BUFFER_TOO_SMALL
             | Some hint \<Rightarrow>
                 if \<not> RangeFits (length T) hint (length dest) then Err STATUS_BUFFER_TOO_SMALL
                 else rbind (HpackHuffmanDecode (Span src) w) (\<lambda>w'. Ok (InBuffer (length T), snd w' - length T, off + k + n, w'))
           else if \<not> RangeFits (length T) n (length dest) then Err STATUS_BUFFER_TOO_SMALL
           else rbind (put_bytes src w) (\<lambda>w'. Ok (InBuffer (length T), n, off + k + n, w')))"
      proof -
        have "off < length block" and nf: "(length block \<le> off) = False" and ff: "(\<not> RangeFits (off + k) n (length block)) = False"
          using off fits by simp_all
        then have rd: "rd block off = Ok (block ! off)" by simp
        show ?thesis
          unfolding decode_string_def nf if_False rd rbind.simps Ok r prod.case Let_def n_def [symmetric] src_def [symmetric] c(1,2) ff
          by (rule refl)
      qed
      show thesis
      proof (cases "block ! off AND 0x80 \<noteq> 0")
        case True
        consider (d) t w' where "HpackHuffmanDecode (Span src) w = Ok w'" "stored dest w' (T @ t)"
          | (e) e where "HpackHuffmanDecode (Span src) w = Err e"
          using HpackHuffmanDecode_cases [OF assms, of src] by blast
        then show thesis
        proof cases
          case d
          then have "snd w' - length T = length t" by (simp add: stored_def)
          then show thesis using d run True ok [of t "off + k + n" w'] bad by (auto split: option.splits if_splits)
        next
          case e
          then show thesis using run True bad by (auto split: option.splits if_splits)
        qed
      next
        case plain: False
        show thesis
        proof (cases "RangeFits (length T) n (length dest)")
          case True
          then have "length T + length src \<le> length dest" using ls c(3) by (auto simp: RangeFits_def)
          then obtain w' where "put_bytes src w = Ok w'" "stored dest w' (T @ src)"
            using put_bytes_stored [OF assms] by blast
          then show thesis using ok [of src "off + k + n" w'] run plain True ls by simp
        next
          case False
          then show thesis using run plain bad by simp
        qed
      qed
    next
      case False
      then show thesis using bad off Ok by (simp add: decode_string_def r n_def Let_def)
    qed
  next
    case (Err e)
    then show thesis using bad off by (simp add: decode_string_def)
  qed (use HpackDecodeInteger_no_fault in simp)
qed

lemma lookup_indexed_cases:
  assumes "table_ok t" "0 < i"
  obtains (ok) p q n v where "lookup_indexed i t = Ok (p, q)" "denotes (dataBuffer t) T p n" "denotes (dataBuffer t) T q v"
  | (bad) e where "lookup_indexed i t = Err e"
proof (cases "i \<le> HpackStaticTableSize + entryCount t")
  case True
  show thesis by (rule lookup_indexed_ok [OF assms True, of T]) (rule ok)
next
  case False
  then have "Lookup (i - HpackStaticTableSize - 1) t = Ok None" by (simp add: Lookup_def)
  then show thesis using False bad by (simp add: lookup_indexed_def)
qed

lemma MaterializeHeaderPart_cases:
  assumes "stored dest w T" "denotes d T (p, len) bs"
  obtains (ok) out1 T' w' where "MaterializeHeaderPart d p len w = Ok (out1, w')" "stored dest w' (T @ T')"
    "out1 + len \<le> length (T @ T')" "bytes_at (T @ T') out1 len = bs"
  | (bad) "MaterializeHeaderPart d p len w = Err STATUS_BUFFER_TOO_SMALL"
proof (cases "length T + length (to_copy p bs) \<le> length dest")
  case True
  show thesis by (rule MaterializeHeaderPart_ok [OF assms True]) (rule ok)
next
  case False
  have c: "snd w = length T" "length (fst w) = length dest" "length T \<le> length dest" using assms(1) by (auto simp: stored_def)
  show thesis
  proof (rule bad)
    show "MaterializeHeaderPart d p len w = Err STATUS_BUFFER_TOO_SMALL"
      using False c assms(2) by (cases p) (auto simp: MaterializeHeaderPart_def RangeFits_def)
  qed
qed

text \<open>A decoded field, relative to the text of the buffer.\<close>

definition field_decoded :: "bytes \<Rightarrow> bytes \<Rightarrow> bytes \<Rightarrow> decoded_field \<Rightarrow> bool" where
  "field_decoded dest tableData T f \<longleftrightarrow>
     (\<exists>X n v. stored dest (dfBuffer f) (T @ X) \<and> denotes tableData (T @ X) (dfName f) n \<and> denotes tableData (T @ X) (dfValue f) v)"

lemma decode_indexed_cases:
  assumes "table_ok t" "stored dest w T"
  obtains (ok) f where "decode_indexed block t off w = Ok f" "field_decoded dest (dataBuffer t) T f"
  | (bad) e where "decode_indexed block t off w = Err e"
proof (cases "HpackDecodeInteger (drop off block) 7")
  case (Ok r)
  obtain i k where r: "r = (i, k)" by force
  show thesis
  proof (cases "i = 0")
    case True
    then show thesis using bad Ok r by (simp add: decode_indexed_def)
  next
    case False
    then have pos: "0 < unat i" by (simp add: unat_gt_0)
    show thesis
    proof (cases rule: lookup_indexed_cases [OF assms(1) pos, of T, case_names found none])
      case (found p q n v)
      let ?f = "\<lparr>dfName = p, dfValue = q, dfOffset = off + k, dfBuffer = w\<rparr>"
      have "field_decoded dest (dataBuffer t) T ?f"
        unfolding field_decoded_def using found assms(2) by (intro exI [of _ "[]"] exI [of _ n] exI [of _ v]) simp
      then show thesis using ok [of ?f] Ok r False found(1) by (simp add: decode_indexed_def)
    next
      case (none e)
      then show thesis using bad Ok r False by (simp add: decode_indexed_def)
    qed
  qed
next
  case (Err e)
  then show thesis using bad by (simp add: decode_indexed_def)
qed (use HpackDecodeInteger_no_fault in simp)

lemma name_part_cases:
  assumes "table_ok t" "stored dest w T"
  obtains (ok) p off' w' X n where
    "(if (i :: ULONG) > 0 then rbind (lookup_indexed (unat i) t) (\<lambda>(name, _). Ok (name, off, w))
      else rbind (decode_string block off w) (\<lambda>(src, len, offset, w). Ok ((src, len), offset, w))) = Ok (p, off', w')"
    "stored dest w' (T @ X)" "denotes (dataBuffer t) (T @ X) p n"
  | (bad) e where
    "(if i > 0 then rbind (lookup_indexed (unat i) t) (\<lambda>(name, _). Ok (name, off, w))
      else rbind (decode_string block off w) (\<lambda>(src, len, offset, w). Ok ((src, len), offset, w))) = Err e"
proof (cases "i > 0")
  case True
  then have pos: "0 < unat i" by (simp add: word_less_nat_alt)
  show thesis
  proof (cases rule: lookup_indexed_cases [OF assms(1) pos, of T, case_names found none])
    case (found p q n v)
    then show thesis using ok [of p off w "[]" n] True assms(2) by simp
  next
    case (none e)
    then show thesis using bad True by simp
  qed
next
  case False
  show thesis
  proof (cases rule: decode_string_cases [OF assms(2), of block off, case_names found none])
    case (found bs off' w')
    then show thesis using ok [of "(InBuffer (length T), length bs)" off' w' bs bs] False by (simp add: bytes_at_last)
  next
    case (none e)
    then show thesis using bad False by simp
  qed
qed

lemma decode_literal_cases:
  assumes "table_ok t" "stored dest w T"
  obtains (ok) f where "decode_literal b block t off w = Ok f" "field_decoded dest (dataBuffer t) T f"
  | (bad) e where "decode_literal b block t off w = Err e"
proof (cases "HpackDecodeInteger (drop off block) b")
  case (Ok r)
  obtain i k where r: "r = (i, k)" by force
  show thesis
  proof (cases rule: name_part_cases [OF assms, of i "off + k" block, case_names name none])
    case (name p off' w' X n)
    show thesis
    proof (cases rule: decode_string_cases [OF name(2), of block off', case_names value1 none1])
      case (value1 bs off2 w2)
      let ?f = "\<lparr>dfName = p, dfValue = (InBuffer (length (T @ X)), length bs), dfOffset = off2, dfBuffer = w2\<rparr>"
      have "denotes (dataBuffer t) (T @ X @ bs) p n" using denotes_append [OF name(3), of bs] by simp
      moreover have "denotes (dataBuffer t) (T @ X @ bs) (InBuffer (length (T @ X)), length bs) bs"
        using bytes_at_last [of "T @ X" bs] by simp
      ultimately have "field_decoded dest (dataBuffer t) T ?f"
        unfolding field_decoded_def using value1(2) by (intro exI [of _ "X @ bs"] exI [of _ n] exI [of _ bs]) simp
      moreover have "decode_literal b block t off w = Ok ?f"
        unfolding decode_literal_def Ok r rbind.simps prod.case name(1) value1(1) by simp
      ultimately show thesis using ok by blast
    next
      case (none1 e)
      have "decode_literal b block t off w = Err e"
        unfolding decode_literal_def Ok r rbind.simps prod.case name(1) none1(1) by simp
      then show thesis by (rule bad)
    qed
  next
    case (none e)
    have "decode_literal b block t off w = Err e"
      unfolding decode_literal_def Ok r rbind.simps prod.case none(1) by simp
    then show thesis by (rule bad)
  qed
next
  case (Err e)
  then show thesis using bad by (simp add: decode_literal_def)
qed (use HpackDecodeInteger_no_fault in simp)

section \<open>The loop\<close>

text \<open>A table whatever happened to its allocations, and a state of the loop.\<close>

definition table_safe :: "HpackDynamicTable \<Rightarrow> bool" where
  "table_safe t \<longleftrightarrow> table_ok t \<and> currentSize t \<le> maxSize t \<and> maxSize t \<le> MaxSizeT div 2"

definition state_ok :: "bytes \<Rightarrow> nat \<Rightarrow> nat \<Rightarrow> decode_state \<Rightarrow> bool" where
  "state_ok dest hc ml st \<longleftrightarrow> table_safe (dsTable st) \<and>
     (\<exists>T. stored dest (dsBuffer st) T \<and> list_all (ref_in T) (dsHeaders st) \<and>
        dsListSize st = table_size (map (ref_field T) (dsHeaders st))) \<and>
     length (dsHeaders st) \<le> hc \<and> dsListSize st \<le> ml"

lemma AddHeaderListSize_Some:
  assumes "AddHeaderListSize n v m s = Some s'" "m \<le> MaxSizeT"
  shows "n + v + HpackEntryOverhead \<le> MaxSizeT" "s' = s + (n + v + HpackEntryOverhead)" "s' \<le> m"
  using assms by (auto simp: AddHeaderListSize_def Let_def HpackEntryOverhead_def MaxSizeT_def split: if_splits)

lemma Insert_safe:
  assumes "table_safe t" "length n + length v + HpackEntryOverhead \<le> MaxSizeT"
  obtains t' s where "Insert g h (Outside n) (length n) (Outside v) (length v) t = Ok (t', s)" "table_safe t'"
proof -
  have t: "table_ok t" "currentSize t \<le> maxSize t" "maxSize t \<le> MaxSizeT div 2" using assms(1) by (simp_all add: table_safe_def)
  show thesis
  proof (cases rule: Insert_ok [OF t assms(2), of g h, case_names inserted refused])
    case (inserted t')
    then show thesis using that t(3) by (simp add: table_safe_def)
  next
    case (refused t')
    then show thesis using that t(3) by (simp add: table_safe_def)
  qed
qed

lemma emit_field_safe:
  assumes st: "state_ok dest hc ml st" and T: "stored dest (dsBuffer st) T"
    and f: "field_decoded dest (dataBuffer (dsTable st)) T f" and ml: "ml \<le> MaxSizeT"
  shows "\<exists>st' s. emit_field g hc ml add f st = Ok (st', s) \<and> table_safe (dsTable st') \<and> (s = None \<longrightarrow> state_ok dest hc ml st')"
proof -
  let ?d = "dataBuffer (dsTable st)"
  have safe: "table_safe (dsTable st)" using st by (simp add: state_ok_def)
  have fail: "table_safe (dsTable st) \<and> (Some x = None \<longrightarrow> state_ok dest hc ml st)" for x :: ntstatus using safe by simp
  obtain X n v where X: "stored dest (dfBuffer f) (T @ X)" "denotes ?d (T @ X) (dfName f) n" "denotes ?d (T @ X) (dfValue f) v"
    using f by (auto simp: field_decoded_def)
  obtain p q where pq: "dfName f = (p, length n)" "dfValue f = (q, length v)"
    using X(2,3) denotes_length by (metis surj_pair)
  show ?thesis
  proof (cases rule: MaterializeHeaderPart_cases [OF X(1) X(2) [unfolded pq], case_names name none])
    case none
    then show ?thesis using fail by (auto simp: emit_field_def pq)
  next
    case (name on T1 w1)
    have dv: "denotes ?d ((T @ X) @ T1) (q, length v) v" using denotes_append [OF X(3)] pq by simp
    show ?thesis
    proof (cases rule: MaterializeHeaderPart_cases [OF name(2) dv, case_names val none])
      case none
      then show ?thesis using fail name(1) by (auto simp: emit_field_def pq)
    next
      case (val ov T2 w2)
      let ?T = "((T @ X) @ T1) @ T2"
      show ?thesis
      proof (cases "AddHeaderListSize (length n) (length v) ml (dsListSize st)")
        case None
        then show ?thesis using fail name(1) val(1) by (auto simp: emit_field_def pq)
      next
        case (Some ls)
        have nb: "bytes_at ?T on (length n) = n" using name(3,4) bytes_at_append by metis
        have reads: "bytes_at (fst w2) on (length n) = n" "bytes_at (fst w2) ov (length v) = v"
          using bytes_at_stored [OF val(2)] nb val(3,4) name(3) by simp_all
        obtain t' s where ins: "(if add then Insert (fst g) (snd g) (Outside n) (length n) (Outside v) (length v) (dsTable st)
            else Ok (dsTable st, None)) = Ok (t', s)" "table_safe t'"
        proof (cases add)
          case True
          show thesis
            by (rule Insert_safe [OF safe AddHeaderListSize_Some(1) [OF Some ml], of "fst g" "snd g"]) (use that True in simp)
        qed (use that safe in simp)
        let ?h = "\<lparr>hrName = (on, length n), hrValue = (ov, length v)\<rparr>"
        let ?st = "\<lparr>dsTable = t', dsOffset = dfOffset f, dsHeaders = dsHeaders st @ [?h], dsBuffer = w2, dsListSize = ls, dsAllowUpdate = False\<rparr>"
        have run: "emit_field g hc ml add f st = (if s \<noteq> None then Ok (st\<lparr>dsTable := t'\<rparr>, s)
            else if length (dsHeaders st) \<ge> hc then Ok (st\<lparr>dsTable := t'\<rparr>, Some STATUS_BUFFER_TOO_SMALL) else Ok (?st, None))"
          unfolding emit_field_def Let_def pq fst_conv snd_conv name(1) res.case prod.case val(1) Some option.case reads ins(1) rbind.simps ..
        obtain T0 where T0: "stored dest (dsBuffer st) T0" "list_all (ref_in T0) (dsHeaders st)"
          "dsListSize st = table_size (map (ref_field T0) (dsHeaders st))" using st by (auto simp: state_ok_def)
        have "T0 = T" by (rule stored_unique [OF T0(1) T])
        then have old: "list_all (ref_in ?T) (dsHeaders st)" "map (ref_field ?T) (dsHeaders st) = map (ref_field T) (dsHeaders st)"
          using T0(2) ref_append [of T _ "(X @ T1) @ T2"] by (auto simp: list_all_iff)
        have total: "table_size (map (ref_field ?T) (dsHeaders st)) = dsListSize st"
          by (simp only: old(2) T0(3) \<open>T0 = T\<close>)
        have h: "ref_in ?T ?h" "ref_field ?T ?h = (n, v)"
          using name(3) val(3,4) nb by (simp_all add: ref_in_def ref_field_def)
        have "state_ok dest hc ml ?st" if "length (dsHeaders st) < hc"
          unfolding state_ok_def
          using ins(2) val(2) old(1) h total AddHeaderListSize_Some(2,3) [OF Some ml] that
          by (auto simp: field_size_def intro!: exI [of _ ?T])
        then show ?thesis using run ins(2) by auto
      qed
    qed
  qed
qed

lemma decode_step_safe:
  assumes "state_ok dest hc ml st" "dsOffset st < length block" "ml \<le> MaxSizeT" "mt \<le> MaxSizeT div 2"
  shows "\<exists>st' s. decode_step grant hc ml mt block st = Ok (st', s) \<and> table_safe (dsTable st') \<and> (s = None \<longrightarrow> state_ok dest hc ml st')"
proof -
  let ?t = "dsTable st" and ?off = "dsOffset st" and ?w = "dsBuffer st" and ?b = "block ! dsOffset st"
  have safe: "table_safe ?t" and ok: "table_ok ?t" using assms(1) by (simp_all add: state_ok_def table_safe_def)
  obtain T where T: "stored dest ?w T" using assms(1) by (auto simp: state_ok_def)
  define P where "P r \<longleftrightarrow> (\<exists>st' s. r = Ok (st', s) \<and> table_safe (dsTable st') \<and> (s = None \<longrightarrow> state_ok dest hc ml st'))"
    for r :: "(decode_state \<times> ntstatus option) res"
  have fail: "P (Ok (st, Some x))" for x using safe by (simp add: P_def)
  have emit: "P (emit_field (grant ?off) hc ml add f st)" if "field_decoded dest (dataBuffer ?t) T f" for add f
    unfolding P_def by (rule emit_field_safe [OF assms(1) T that assms(3)])
  define run where "run add r = (case r of Err s \<Rightarrow> Ok (st, Some s) | Fault \<Rightarrow> Fault | Ok f \<Rightarrow> emit_field (grant ?off) hc ml add f st)" for add r
  have indexed: "P (run add (decode_indexed block ?t ?off ?w))" for add
    by (cases rule: decode_indexed_cases [OF ok T, of block ?off]) (auto simp: run_def fail emit)
  have literal: "P (run add (decode_literal k block ?t ?off ?w))" for add k
    by (cases rule: decode_literal_cases [OF ok T, of k block ?off]) (auto simp: run_def fail emit)
  have size: "P (case HpackDecodeInteger (drop ?off block) 5 of
      Err s \<Rightarrow> Ok (st, Some s)
    | Fault \<Rightarrow> Fault
    | Ok (newSize, consumed) \<Rightarrow>
        if unat newSize > mt then Ok (st, Some STATUS_INVALID_NETWORK_RESPONSE)
        else rbind (UpdateMaxSize (unat newSize) ?t) (\<lambda>t. Ok (st\<lparr>dsTable := t, dsOffset := ?off + consumed\<rparr>, None)))"
  proof (cases "HpackDecodeInteger (drop ?off block) 5")
    case (Ok r)
    obtain k c where r: "r = (k, c)" by force
    obtain t' where t': "UpdateMaxSize (unat k) ?t = Ok t'" "table_ok t'" "table_fields t' = fit (unat k) (table_fields ?t)"
      "maxSize t' = unat k" "entryCapacity t' = entryCapacity ?t" "currentSize t' \<le> unat k"
      by (rule UpdateMaxSize_ok [OF ok])
    have "state_ok dest hc ml (st\<lparr>dsTable := t', dsOffset := ?off + c\<rparr>)" "table_safe t'" if "unat k \<le> mt"
      using that assms(1,4) t' by (auto simp: state_ok_def table_safe_def)
    then show ?thesis using Ok r t'(1) fail by (auto simp: P_def)
  qed (use fail HpackDecodeInteger_no_fault in simp_all)
  have "P (decode_step grant hc ml mt block st)"
    unfolding decode_step_def Let_def run_def [symmetric] using assms(2) indexed literal size fail by simp
  then show ?thesis by (simp add: P_def)
qed

lemma decode_loop_safe:
  assumes "state_ok dest hc ml st" "ml \<le> MaxSizeT" "mt \<le> MaxSizeT div 2"
  shows "\<exists>st' s. decode_loop grant hc ml mt block st = Ok (st', s) \<and> table_safe (dsTable st') \<and> (s = None \<longrightarrow> state_ok dest hc ml st')"
  using assms(1)
proof (induction "length block - dsOffset st" arbitrary: st rule: less_induct)
  case less
  show ?case
  proof (cases "dsOffset st < length block")
    case True
    obtain st1 s where s: "decode_step grant hc ml mt block st = Ok (st1, s)" "table_safe (dsTable st1)" "s = None \<longrightarrow> state_ok dest hc ml st1"
      using decode_step_safe [OF less.prems True assms(2,3), of grant] by auto
    show ?thesis
    proof (cases s)
      case None
      have "length block - dsOffset st1 < length block - dsOffset st" using decode_step_offset [of grant hc ml mt block st st1] s(1) None True by auto
      then show ?thesis using less.hyps [of st1] s None True by (simp add: decode_loop.simps [of grant hc ml mt block st])
    next
      case (Some e)
      then show ?thesis using s True by (simp add: decode_loop.simps [of grant hc ml mt block st])
    qed
  next
    case False
    then show ?thesis using less.prems by (simp add: decode_loop.simps [of grant hc ml mt block st] state_ok_def)
  qed
qed

section \<open>Properties\<close>

text \<open>C17: Decoding is safe on every input. For any bytes, any limits and any pattern of failing
  allocations, \<open>Decode\<close> ends without an out-of-bounds access and leaves a consistent table within its
  size limit; when it succeeds, it returns at most the given number of headers, each name and value
  lies in the used part of the caller's buffer, and the header list (with 32 bytes for each field)
  is within the given limit.\<close>

theorem Decode_safe:
  assumes "table_ok (decTable d)" "currentSize (decTable d) \<le> maxSize (decTable d)" "maxSize (decTable d) \<le> MaxSizeT div 2"
    and "decMaxTableSize d \<le> MaxSizeT div 2" "ml \<le> MaxSizeT"
  shows "\<exists>d' refs w s. Decode grant (Span block) (Some hc) (Span nv) ml d = Ok (d', (refs, w), s) \<and>
    table_ok (decTable d') \<and> currentSize (decTable d') \<le> maxSize (decTable d') \<and> maxSize (decTable d') \<le> MaxSizeT div 2 \<and>
    (s = None \<longrightarrow> length refs \<le> hc \<and> length (fst w) = length nv \<and> snd w \<le> length nv \<and>
       list_all (ref_in (take (snd w) (fst w))) refs \<and>
       table_size (map (ref_field (take (snd w) (fst w))) refs) \<le> ml)"
proof -
  let ?st = "\<lparr>dsTable = decTable d, dsOffset = 0, dsHeaders = [], dsBuffer = (nv, 0), dsListSize = 0, dsAllowUpdate = True\<rparr>"
  have "state_ok nv hc ml ?st" using assms stored_start [of nv] by (auto simp: state_ok_def table_safe_def)
  then obtain st s where st: "decode_loop grant hc ml (decMaxTableSize d) block ?st = Ok (st, s)" "table_safe (dsTable st)"
    "s = None \<longrightarrow> state_ok nv hc ml st"
    using decode_loop_safe [OF _ assms(5,4), of nv hc ?st grant block] by auto
  let ?out = "if s = None then (dsHeaders st, dsBuffer st) else ([], (nv, 0))"
  have run: "Decode grant (Span block) (Some hc) (Span nv) ml d = Ok (d\<lparr>decTable := dsTable st\<rparr>, ?out, s)"
    using st(1) by (simp add: Decode_def)
  have accepted: "length (dsHeaders st) \<le> hc \<and> length (fst (dsBuffer st)) = length nv \<and> snd (dsBuffer st) \<le> length nv \<and>
      list_all (ref_in (take (snd (dsBuffer st)) (fst (dsBuffer st)))) (dsHeaders st) \<and>
      table_size (map (ref_field (take (snd (dsBuffer st)) (fst (dsBuffer st)))) (dsHeaders st)) \<le> ml" if none: "s = None"
  proof -
    obtain T where T: "stored nv (dsBuffer st) T" "list_all (ref_in T) (dsHeaders st)" "dsListSize st = table_size (map (ref_field T) (dsHeaders st))"
      using st(3) none by (auto simp: state_ok_def)
    have "take (snd (dsBuffer st)) (fst (dsBuffer st)) = T" "length (fst (dsBuffer st)) = length nv" "snd (dsBuffer st) \<le> length nv"
      using T(1) by (auto simp: stored_def overlay_def)
    then show ?thesis using st(3) none T(2,3) by (auto simp: state_ok_def)
  qed
  show ?thesis
  proof (cases s)
    case None
    then show ?thesis
      using run accepted st(2)
      by (intro exI [of _ "d\<lparr>decTable := dsTable st\<rparr>"] exI [of _ "dsHeaders st"] exI [of _ "dsBuffer st"] exI [of _ s])
        (simp add: table_safe_def)
  next
    case (Some e)
    then show ?thesis
      using run st(2)
      by (intro exI [of _ "d\<lparr>decTable := dsTable st\<rparr>"] exI [of _ "[]"] exI [of _ "(nv, 0)"] exI [of _ s])
        (simp add: table_safe_def)
  qed
qed

theorem Decode_safe_witness:
  "\<exists>d' refs w s. Decode (\<lambda>k. (False, False)) (Span [0x40, 0x81, 0xff]) (Some 3) (Span [0, 0, 0, 0]) MaxSizeT fresh_decoder = Ok (d', (refs, w), s) \<and>
     table_ok (decTable d')"
proof -
  have "table_ok (decTable fresh_decoder)" "currentSize (decTable fresh_decoder) \<le> maxSize (decTable fresh_decoder)"
    "maxSize (decTable fresh_decoder) \<le> MaxSizeT div 2" "decMaxTableSize fresh_decoder \<le> MaxSizeT div 2"
    by (simp_all add: fresh_decoder_def fresh_table_def table_ok_def live_def MaxSizeT_def)
  from Decode_safe [OF this order_refl, of "\<lambda>k. (False, False)" "[0x40, 0x81, 0xff]" 3 "[0, 0, 0, 0]"] show ?thesis
    by blast
qed

end
