(* ===== verification/Kh_AeadPrimitives.thy ===== *)
theory Kh_AeadPrimitives
  imports Kh_Prelude
begin

text \<open>
  What the ciphers of \<open>crypto/Aead.cpp\<close> share: the key and parameter structures of
  \<open>crypto/Aead.h\<close>, the little-endian and big-endian accessors, the constant-time comparison and
  the byte loops. A pointer into a buffer is the list of bytes from there on, so \<open>key + 4\<close> is
  \<open>drop 4 key\<close>, and an access behind the end of that list is \<open>Fault\<close>.

  The scratch object of a call (\<open>AeadScratch\<close>) is private to the call and is wiped before it
  is freed, so its arrays are local values here; whether the object could be allocated is a flag.
\<close>

section \<open>Keys and parameters\<close>

datatype AeadAlgorithm =
  Aes128Gcm | Aes256Gcm | ChaCha20Poly1305 | Aes128Ccm | Aes128Ccm8

record AeadKey =
  key_Algorithm :: AeadAlgorithm
  key_Key :: "UCHAR span"

record AeadParameters =
  par_Nonce :: "UCHAR span"
  par_Aad :: "UCHAR span"
  par_Tag :: "UCHAR span"

definition IsValidBuffer :: "UCHAR span \<Rightarrow> bool" where
  "IsValidBuffer data \<longleftrightarrow> span_len data = 0 \<or> \<not> span_null data"

definition IsValidMutableBuffer :: "UCHAR span \<Rightarrow> bool" where
  "IsValidMutableBuffer data \<longleftrightarrow> span_len data = 0 \<or> \<not> span_null data"

text \<open>
  \<open>HeapArray<UCHAR>::Allocate\<close>: the new array is zeroed; whether the pool had memory is a flag.
  The flags of one call are an \<open>aead_heap\<close>.
\<close>

definition HeapArray_Allocate :: "bool \<Rightarrow> nat \<Rightarrow> bytes res" where
  "HeapArray_Allocate granted count =
     (if count = 0 \<or> count > MaxSizeT then Err STATUS_INVALID_PARAMETER
      else if \<not> granted then Err STATUS_INSUFFICIENT_RESOURCES
      else Ok (replicate count 0))"

record aead_heap =
  scratchGranted :: bool
  macInputGranted :: bool
  contextGranted :: bool

text \<open>
  An operation that fails after it has written to its output buffers returns the buffers and the
  status: \<open>after bufs r f\<close> goes on with \<open>f\<close> when \<open>r\<close> succeeds, and otherwise returns the buffers as
  they are at that point.
\<close>

definition after :: "'b \<Rightarrow> 'a res \<Rightarrow> ('a \<Rightarrow> 'b \<times> 'c res) \<Rightarrow> 'b \<times> 'c res" where
  "after bufs r f = (case r of Ok x \<Rightarrow> f x | Err s \<Rightarrow> (bufs, Err s) | Fault \<Rightarrow> (bufs, Fault))"

lemma after_simps [simp]:
  "after bufs (Ok x) f = f x" "after bufs (Err s) f = (bufs, Err s)" "after bufs Fault f = (bufs, Fault)"
  by (simp_all add: after_def)

section \<open>Integers in memory\<close>

fun ReadLittleEndian32 :: "bytes \<Rightarrow> ULONG res" where
  "ReadLittleEndian32 (b0 # b1 # b2 # b3 # rest) =
     Ok (ucast b0 OR push_bit 8 (ucast b1) OR push_bit 16 (ucast b2) OR push_bit 24 (ucast b3))"
| "ReadLittleEndian32 _ = Fault"

definition WriteLittleEndian32 :: "ULONG \<Rightarrow> bytes" where
  "WriteLittleEndian32 v =
     [ucast (v AND 0xff), ucast (drop_bit 8 v AND 0xff),
      ucast (drop_bit 16 v AND 0xff), ucast (drop_bit 24 v AND 0xff)]"

definition WriteLittleEndian64 :: "ULONGLONG \<Rightarrow> bytes" where
  "WriteLittleEndian64 v = map (\<lambda>index. ucast (drop_bit (index * 8) v AND 0xff)) [0..<8]"

definition WriteBigEndianLength :: "ULONGLONG \<Rightarrow> nat \<Rightarrow> bytes" where
  "WriteBigEndianLength v n =
     map (\<lambda>index. ucast (drop_bit ((n - 1 - index) * 8) v AND 0xff)) [0..<n]"

section \<open>Byte loops\<close>

text \<open>The loop \<open>diff |= left[index] ^ right[index]\<close>.\<close>

fun diff_loop :: "UCHAR \<Rightarrow> bytes \<Rightarrow> bytes \<Rightarrow> nat \<Rightarrow> UCHAR res" where
  "diff_loop diff left right 0 = Ok diff"
| "diff_loop diff (a # left) (b # right) (Suc n) = diff_loop (diff OR (a XOR b)) left right n"
| "diff_loop diff left right (Suc n) = Fault"

definition MemoryEquals :: "bytes \<Rightarrow> bytes \<Rightarrow> nat \<Rightarrow> bool res" where
  "MemoryEquals left right n = rbind (diff_loop 0 left right n) (\<lambda>diff. Ok (diff = 0))"

text \<open>The loop \<open>output[offset + index] = input[offset + index] ^ block[index]\<close>, \<open>input\<close> being one chunk.\<close>

fun xor_loop :: "bytes \<Rightarrow> bytes \<Rightarrow> bytes \<Rightarrow> nat \<Rightarrow> bytes res" where
  "xor_loop [] block out pos = Ok out"
| "xor_loop (a # input) (b # block) out pos =
     rbind (wr out pos (a XOR b)) (\<lambda>out'. xor_loop input block out' (pos + 1))"
| "xor_loop (a # input) [] out pos = Fault"

definition xor_bytes :: "bytes \<Rightarrow> bytes \<Rightarrow> bytes" where
  "xor_bytes xs ys = map2 (XOR) xs ys"

section \<open>Lemmas\<close>

lemma length_xor_bytes [simp]: "length (xor_bytes xs ys) = min (length xs) (length ys)"
  by (simp add: xor_bytes_def)

lemma xor_bytes_Cons [simp]: "xor_bytes (x # xs) (y # ys) = (x XOR y) # xor_bytes xs ys"
  by (simp add: xor_bytes_def)

lemma xor_bytes_Nil [simp]: "xor_bytes [] ys = []" "xor_bytes xs [] = []"
  by (simp_all add: xor_bytes_def)

lemma xor_bytes_take: "xor_bytes (take n xs) (take n ys) = take n (xor_bytes xs ys)"
  by (simp add: xor_bytes_def take_map take_zip)

lemma xor_bytes_drop: "xor_bytes (drop n xs) (drop n ys) = drop n (xor_bytes xs ys)"
  by (simp add: xor_bytes_def drop_map drop_zip)

lemma xor_bytes_append:
  "length xs = length ks \<Longrightarrow> xor_bytes (xs @ ys) (ks @ ls) = xor_bytes xs ks @ xor_bytes ys ls"
  by (simp add: xor_bytes_def)

lemma xor_bytes_take_right: "length xs \<le> n \<Longrightarrow> xor_bytes xs (take n ys) = xor_bytes xs ys"
  using xor_bytes_take [of n xs ys] by simp

text \<open>A stream cipher is its own inverse.\<close>

lemma xor_bytes_involution: "length xs \<le> length ks \<Longrightarrow> xor_bytes (xor_bytes xs ks) ks = xs"
proof (induction xs arbitrary: ks)
  case (Cons x xs)
  then obtain k ks' where ks: "ks = k # ks'" by (cases ks) auto
  with Cons show ?case by (simp add: bit.xor_left_self xor.assoc)
qed simp

lemma xor_loop_overlay:
  "length input \<le> length block \<Longrightarrow> pos + length input \<le> length out \<Longrightarrow>
   xor_loop input block out pos = Ok (overlay out pos (xor_bytes input block))"
proof (induction input block out pos rule: xor_loop.induct)
  case (2 a input b block out pos)
  have "overlay (overlay out pos [a XOR b]) (pos + length [a XOR b]) (xor_bytes input block)
      = overlay out pos ([a XOR b] @ xor_bytes input block)"
    using "2.prems" by (intro overlay_overlay) simp
  with 2 show ?case by (simp add: list_update_overlay)
qed simp_all

lemma diff_loop_Ok:
  "n \<le> length left \<Longrightarrow> n \<le> length right \<Longrightarrow>
   \<exists>d. diff_loop diff left right n = Ok d \<and> (d = 0 \<longleftrightarrow> diff = 0 \<and> take n left = take n right)"
proof (induction diff left right n rule: diff_loop.induct)
  case (2 diff a left b right n)
  have "(diff OR (a XOR b) = 0) \<longleftrightarrow> diff = 0 \<and> a = b"
    by (metis or_eq_0_iff xor_self_eq bit.xor_left_self xor.right_neutral)
  with 2 show ?case by auto
qed auto

lemma MemoryEquals_iff:
  "n \<le> length left \<Longrightarrow> n \<le> length right \<Longrightarrow>
   MemoryEquals left right n = Ok (take n left = take n right)"
  using diff_loop_Ok [of n left right 0] by (auto simp: MemoryEquals_def)

lemma length_WriteLittleEndian32 [simp]: "length (WriteLittleEndian32 v) = 4"
  by (simp add: WriteLittleEndian32_def)

lemma length_WriteLittleEndian64 [simp]: "length (WriteLittleEndian64 v) = 8"
  by (simp add: WriteLittleEndian64_def)

lemma length_WriteBigEndianLength [simp]: "length (WriteBigEndianLength v n) = n"
  by (simp add: WriteBigEndianLength_def)

lemma word_rotl_shift:
  fixes v :: "'a::len word"
  assumes "0 < n" "n < LENGTH('a)"
  shows "word_rotl n v = push_bit n v OR drop_bit (LENGTH('a) - n) v"
proof (rule bit_word_eqI)
  fix m assume m: "m < LENGTH('a)"
  have "(m + (LENGTH('a) - n)) mod LENGTH('a) = (if m < n then LENGTH('a) - n + m else m - n)"
    using m assms by (auto simp: mod_if)
  then show "bit (word_rotl n v) m = bit (push_bit n v OR drop_bit (LENGTH('a) - n) v) m"
    using m assms
    by (auto simp: bit_or_iff bit_push_bit_iff bit_drop_bit_eq bit_word_rotl_iff dest: bit_imp_le_length)
qed

section \<open>Little-endian numbers\<close>

text \<open>The value of a byte string, least significant byte first, and its inverse.\<close>

primrec le_val :: "bytes \<Rightarrow> nat" where
  "le_val [] = 0"
| "le_val (b # bs) = unat b + 256 * le_val bs"

primrec le_bytes :: "nat \<Rightarrow> nat \<Rightarrow> bytes" where
  "le_bytes 0 v = []"
| "le_bytes (Suc n) v = word_of_nat v # le_bytes n (v div 256)"

lemma length_le_bytes [simp]: "length (le_bytes n v) = n"
  by (induction n arbitrary: v) auto

lemma le_val_bound: "le_val bs < 256 ^ length bs"
proof (induction bs)
  case (Cons b bs)
  have "unat b < 256" by (rule byte_bound)
  with Cons show ?case by simp
qed simp

lemma le_val_append: "le_val (xs @ ys) = le_val xs + 256 ^ length xs * le_val ys"
  by (induction xs) (auto simp: algebra_simps)

lemma le_val_replicate_0 [simp]: "le_val (replicate n 0) = 0"
  by (induction n) auto

lemma le_bytes_append: "le_bytes (m + n) v = le_bytes m v @ le_bytes n (v div 256 ^ m)"
  by (induction m arbitrary: v) (auto simp: div_mult2_eq)

lemma le_val_le_bytes: "le_val (le_bytes n v) = v mod 256 ^ n"
proof (induction n arbitrary: v)
  case (Suc n)
  have "unat (word_of_nat v :: UCHAR) = v mod 256"
    by (simp add: unsigned_of_nat take_bit_eq_mod)
  with Suc show ?case by (simp add: mod_mult2_eq)
qed simp

lemma le_bytes_mod: "le_bytes n (v mod 256 ^ n) = le_bytes n v"
proof (induction n arbitrary: v)
  case (Suc n)
  have "v mod 256 ^ Suc n div 256 = v div 256 mod 256 ^ n"
    by (simp add: mod_mult2_eq [of v 256])
  moreover have "(word_of_nat (v mod 256 ^ Suc n) :: UCHAR) = word_of_nat v"
  proof -
    have "v mod 256 ^ Suc n mod 256 = v mod 256"
      by (simp add: mod_mod_cancel)
    then show ?thesis by (simp add: word_unat_eq_iff unsigned_of_nat take_bit_eq_mod)
  qed
  ultimately show ?case using Suc by simp
qed simp

lemma unat_pack_byte:
  fixes x :: ULONG
  assumes "unat x < 16777216"
  shows "unat (push_bit 8 x OR ucast (b :: UCHAR)) = unat x * 256 + unat b"
proof -
  have "unat b < 256" by (rule byte_bound)
  with assms show ?thesis by (subst unat_push_bit_or) simp_all
qed

lemma unat_ReadLittleEndian32:
  assumes "4 \<le> length bs"
  shows "\<exists>w. ReadLittleEndian32 bs = Ok w \<and> unat w = le_val (take 4 bs)"
proof -
  obtain b0 b1 b2 b3 rest where bs: "bs = b0 # b1 # b2 # b3 # rest"
    using assms by (auto simp: numeral_eq_Suc Suc_le_length_iff)
  have b: "unat b0 < 256" "unat b1 < 256" "unat b2 < 256" "unat b3 < 256"
    by (simp_all add: byte_bound)
  define x1 :: ULONG where "x1 = push_bit 8 (ucast b3) OR ucast b2"
  define x2 where "x2 = push_bit 8 x1 OR ucast b1"
  have x1: "unat x1 = unat b3 * 256 + unat b2"
    unfolding x1_def using b by (subst unat_pack_byte) simp_all
  have x2: "unat x2 = unat x1 * 256 + unat b1"
    unfolding x2_def using b x1 by (subst unat_pack_byte) simp_all
  have "unat (push_bit 8 x2 OR ucast b0) = unat x2 * 256 + unat b0"
    using b x1 x2 by (subst unat_pack_byte) simp_all
  moreover have "ucast b0 OR push_bit 8 (ucast b1) OR push_bit 16 (ucast b2) OR push_bit 24 (ucast b3)
      = push_bit 8 x2 OR ucast b0"
    by (simp add: x1_def x2_def push_bit_or ac_simps)
  ultimately show ?thesis using x1 x2 by (simp add: bs)
qed

lemma le_bytes_4:
  "le_bytes 4 v = [word_of_nat v, word_of_nat (v div 256), word_of_nat (v div 65536),
     word_of_nat (v div 16777216)]"
proof -
  have "(4 :: nat) = Suc (Suc (Suc (Suc 0)))" by simp
  then have "le_bytes 4 v = [word_of_nat v, word_of_nat (v div 256),
      word_of_nat (v div 256 div 256), word_of_nat (v div 256 div 256 div 256)]"
    by (simp only: le_bytes.simps)
  then show ?thesis by (simp add: div_mult2_eq [symmetric])
qed

lemma low_byte_drop_bit:
  "ucast (drop_bit n w AND 0xff :: 'a::len word) = (word_of_nat (unat w div 2 ^ n) :: UCHAR)"
proof -
  have "unat (drop_bit n w) = unat w div 2 ^ n"
    unfolding unat_drop_bit_eq by (rule drop_bit_eq_div)
  then show ?thesis unfolding ucast_and_ff
    by (simp only: word_unat_eq_iff unsigned_of_nat unsigned_ucast_eq of_nat_id)
qed

lemma WriteLittleEndian32_le: "WriteLittleEndian32 v = le_bytes 4 (unat v)"
  using low_byte_drop_bit [of 0 v] low_byte_drop_bit [of 8 v] low_byte_drop_bit [of 16 v]
    low_byte_drop_bit [of 24 v]
  by (simp add: WriteLittleEndian32_def le_bytes_4)

lemma le_bytes_map: "le_bytes n v = map (\<lambda>i. word_of_nat (v div 2 ^ (i * 8))) [0..<n]"
proof -
  have "le_bytes n (m div 256 ^ k) = map (\<lambda>i. word_of_nat (m div 2 ^ (i * 8))) [k..<k + n]" for m k
  proof (induction n arbitrary: k)
    case (Suc n)
    have "(256 :: nat) ^ k = 2 ^ (k * 8)" by (simp add: power_mult mult.commute [of k])
    moreover have "m div 256 ^ k div 256 = m div 256 ^ Suc k"
      by (simp add: div_mult2_eq mult.commute [of "256 ^ k"] flip: div_mult2_eq)
    ultimately show ?case using Suc.IH [of "Suc k"] by (simp add: upt_conv_Cons del: upt_Suc)
  qed simp
  from this [of v 0] show ?thesis by simp
qed

lemma WriteLittleEndian64_le: "WriteLittleEndian64 v = le_bytes 8 (unat v)"
  by (simp add: WriteLittleEndian64_def low_byte_drop_bit le_bytes_map)

lemma WriteBigEndianLength_le: "WriteBigEndianLength v n = rev (le_bytes n (unat v))"
  by (rule nth_equalityI)
     (simp_all add: WriteBigEndianLength_def low_byte_drop_bit le_bytes_map rev_nth)

section \<open>Counter mode\<close>

text \<open>
  A stream made of blocks \<open>blk i\<close>, \<open>blk (i + 1)\<close>, ... and the cipher that adds it to a message: the
  interface of ChaCha20 and of the counter mode of CCM.
\<close>

primrec counter_stream :: "(nat \<Rightarrow> bytes) \<Rightarrow> nat \<Rightarrow> nat \<Rightarrow> bytes" where
  "counter_stream blk i 0 = []"
| "counter_stream blk i (Suc n) = blk i @ counter_stream blk (Suc i) n"

definition counter_crypt :: "nat \<Rightarrow> (nat \<Rightarrow> bytes) \<Rightarrow> nat \<Rightarrow> bytes \<Rightarrow> bytes" where
  "counter_crypt B blk i m = xor_bytes m (counter_stream blk i ((length m + B - 1) div B))"

lemma counter_stream_shift: "counter_stream blk (Suc i) n = counter_stream (\<lambda>i. blk (Suc i)) i n"
  by (induction n arbitrary: i) auto

lemma counter_crypt_shift: "counter_crypt B blk (Suc i) m = counter_crypt B (\<lambda>i. blk (Suc i)) i m"
  by (simp add: counter_crypt_def counter_stream_shift)

lemma counter_crypt_Nil [simp]: "counter_crypt B blk i [] = []"
  by (simp add: counter_crypt_def)

locale counter_mode =
  fixes B :: nat and blk :: "nat \<Rightarrow> bytes"
  assumes B_pos: "0 < B" and blk_length: "length (blk i) = B"
begin

lemma stream_length: "length (counter_stream blk i n) = B * n"
  by (induction n arbitrary: i) (auto simp: blk_length)

lemma blocks_enough: "n \<le> B * ((n + B - 1) div B)"
proof -
  have "n + B - 1 < B * ((n + B - 1) div B) + B"
    using B_pos mod_less_divisor [OF B_pos, of "n + B - 1"] mult_div_mod_eq [of B "n + B - 1"] by linarith
  then show ?thesis using B_pos by linarith
qed

lemma crypt_length: "length (counter_crypt B blk i m) = length m"
  using blocks_enough [of "length m"] by (simp add: counter_crypt_def stream_length)

lemma crypt_involution: "counter_crypt B blk i (counter_crypt B blk i m) = m"
proof -
  have "counter_crypt B blk i (counter_crypt B blk i m)
      = xor_bytes (counter_crypt B blk i m) (counter_stream blk i ((length m + B - 1) div B))"
    by (simp only: counter_crypt_def [of _ _ _ "counter_crypt B blk i m"] crypt_length)
  then show ?thesis
    using blocks_enough [of "length m"]
    by (simp add: counter_crypt_def xor_bytes_involution stream_length)
qed

lemma blocks_step:
  assumes "0 < n"
  shows "(n + B - 1) div B = Suc ((n - B + B - 1) div B)"
proof -
  have "(n + B - 1) div B = Suc ((n - 1) div B)"
    using le_div_geq [OF B_pos, of "n + B - 1"] assms by simp
  also have "(n - 1) div B = (n - B + B - 1) div B"
    using B_pos by (cases "n < B") simp_all
  finally show ?thesis .
qed

lemma crypt_step:
  assumes "m \<noteq> []"
  shows "counter_crypt B blk i m = xor_bytes (take B m) (blk i) @ counter_crypt B blk (Suc i) (drop B m)"
proof (cases "length m < B")
  case True
  have "xor_bytes m (take (length (blk i)) (blk i @ ks)) = xor_bytes m (blk i @ ks)" for ks
    using True by (intro xor_bytes_take_right) (simp add: blk_length)
  then show ?thesis using assms True
    by (simp add: counter_crypt_def blocks_step [of "length m", unfolded One_nat_def])
next
  case False
  have "xor_bytes (take B m @ drop B m) (blk i @ ks)
      = xor_bytes (take B m) (blk i) @ xor_bytes (drop B m) ks" for ks
    using False by (intro xor_bytes_append) (simp add: blk_length)
  then show ?thesis using False assms
    by (simp add: counter_crypt_def blocks_step [of "length m", unfolded One_nat_def])
qed

end

section \<open>Padding to whole blocks\<close>

definition pad16 :: "bytes \<Rightarrow> bytes" where
  "pad16 xs = xs @ replicate ((16 - length xs mod 16) mod 16) 0"

lemma length_pad16 [simp]: "length (pad16 xs) = length xs + (16 - length xs mod 16) mod 16"
  by (simp add: pad16_def)

lemma pad16_Nil [simp]: "pad16 [] = []"
  by (simp add: pad16_def)

lemma pad16_append_block: "length xs = 16 \<Longrightarrow> pad16 (xs @ ys) = xs @ pad16 ys"
  by (simp add: pad16_def)

lemma pad16_dvd: "16 dvd length (pad16 xs)"
proof -
  have "n + (16 - n mod 16) = 16 * (n div 16 + 1)" for n :: nat by presburger
  from this [of "length xs"] have "(length xs + (16 - length xs mod 16)) mod 16 = 0" by simp
  then show ?thesis by (simp add: mod_add_right_eq flip: mod_eq_0_iff_dvd)
qed

text \<open>Storing a string into a zeroed buffer.\<close>

lemma overlay_zeroed:
  "length xs + m \<le> n \<Longrightarrow>
   overlay (replicate n 0) 0 xs = xs @ replicate m 0 @ replicate (n - length xs - m) (0 :: UCHAR)"
  by (simp add: overlay_def drop_replicate flip: replicate_add)

lemma overlay_append:
  "off = length pre \<Longrightarrow> overlay (pre @ buf) off bs = pre @ overlay buf 0 bs"
  by (simp add: overlay_def)

lemma pad16_short:
  "0 < length xs \<Longrightarrow> length xs \<le> 16 \<Longrightarrow> pad16 xs = xs @ replicate (16 - length xs) 0"
  by (cases "length xs = 16") (simp_all add: pad16_def)

section \<open>The contract of an authenticated cipher\<close>

text \<open>
  \<open>seal\<close> returns a ciphertext as long as the plaintext and a tag; \<open>unseal\<close> returns the plaintext of
  exactly the pairs that \<open>seal\<close> makes. Both are deterministic: these are the functional laws of
  AES-GCM (NIST SP 800-38D), AES-CCM (SP 800-38C) and ChaCha20-Poly1305 (RFC 8439). The record
  protocols are proved against this contract.
\<close>

locale aead_scheme =
  fixes tag_len :: nat
    and key_ok :: "bytes \<Rightarrow> bool"
    and seal :: "bytes \<Rightarrow> bytes \<Rightarrow> bytes \<Rightarrow> bytes \<Rightarrow> bytes \<times> bytes"
    and unseal :: "bytes \<Rightarrow> bytes \<Rightarrow> bytes \<Rightarrow> bytes \<Rightarrow> bytes \<Rightarrow> bytes option"
  assumes seal_length: "key_ok k \<Longrightarrow> seal k n a p = (c, t) \<Longrightarrow> length c = length p \<and> length t = tag_len"
    and unseal_iff: "key_ok k \<Longrightarrow> unseal k n a c t = Some p \<longleftrightarrow> seal k n a p = (c, t)"
begin

lemma unseal_seal: "key_ok k \<Longrightarrow> seal k n a p = (c, t) \<Longrightarrow> unseal k n a c t = Some p"
  by (simp add: unseal_iff)

lemma seal_inj: "key_ok k \<Longrightarrow> seal k n a p = seal k n a q \<Longrightarrow> p = q"
  by (cases "seal k n a p") (metis option.inject unseal_iff)

lemma unseal_length: "key_ok k \<Longrightarrow> unseal k n a c t = Some p \<Longrightarrow> length p = length c \<and> length t = tag_len"
  using seal_length by (auto simp: unseal_iff)

text \<open>A ciphertext has one tag: any other tag is refused.\<close>

lemma unseal_tag_unique:
  "key_ok k \<Longrightarrow> unseal k n a c t = Some p \<Longrightarrow> unseal k n a c t' = Some p \<Longrightarrow> t = t'"
  by (simp add: unseal_iff)

end

end
