(* ===== verification/Kh_ChaCha20.thy ===== *)
theory Kh_ChaCha20
  imports Kh_AeadPrimitives
begin

text \<open>
  The ChaCha20 stream cipher of \<open>crypto/Aead.cpp\<close>: \<open>RotateLeft32\<close>, \<open>QuarterRound\<close>,
  \<open>ChaCha20Block\<close> and \<open>ChaCha20Xor\<close>. The code works on an array of sixteen words and names the
  words of each quarter round by index; the reference is the row formulation of the cipher
  (RFC 8439, section 2.3): four rows of four words, a column round, and a diagonal round that is
  a column round between two rotations of the rows.
\<close>

section \<open>The code\<close>

definition RotateLeft32 :: "ULONG \<Rightarrow> nat \<Rightarrow> ULONG" where
  "RotateLeft32 v bits = push_bit bits v OR drop_bit (32 - bits) v"

definition QuarterRound ::
  "ULONG \<Rightarrow> ULONG \<Rightarrow> ULONG \<Rightarrow> ULONG \<Rightarrow> ULONG \<times> ULONG \<times> ULONG \<times> ULONG" where
  "QuarterRound a b c d =
     (let a = a + b; d = d XOR a; d = RotateLeft32 d 16;
          c = c + d; b = b XOR c; b = RotateLeft32 b 12;
          a = a + b; d = d XOR a; d = RotateLeft32 d 8;
          c = c + d; b = b XOR c; b = RotateLeft32 b 7
      in (a, b, c, d))"

text \<open>\<open>QuarterRound(working[i], working[j], working[k], working[l])\<close>, by reference.\<close>

definition quarter_at :: "nat \<Rightarrow> nat \<Rightarrow> nat \<Rightarrow> nat \<Rightarrow> ULONG list \<Rightarrow> ULONG list" where
  "quarter_at i j k l w =
     (case QuarterRound (w ! i) (w ! j) (w ! k) (w ! l) of
        (a, b, c, d) \<Rightarrow> w[i := a, j := b, k := c, l := d])"

definition double_round :: "ULONG list \<Rightarrow> ULONG list" where
  "double_round w =
     (let w = quarter_at 0 4 8 12 w; w = quarter_at 1 5 9 13 w;
          w = quarter_at 2 6 10 14 w; w = quarter_at 3 7 11 15 w;
          w = quarter_at 0 5 10 15 w; w = quarter_at 1 6 11 12 w;
          w = quarter_at 2 7 8 13 w; w = quarter_at 3 4 9 14 w
      in w)"

primrec double_rounds :: "nat \<Rightarrow> ULONG list \<Rightarrow> ULONG list" where
  "double_rounds 0 w = w"
| "double_rounds (Suc n) w = double_rounds n (double_round w)"

primrec read_words :: "nat \<Rightarrow> bytes \<Rightarrow> ULONG list res" where
  "read_words 0 p = Ok []"
| "read_words (Suc n) p =
     rbind (ReadLittleEndian32 p) (\<lambda>w. rbind (read_words n (drop 4 p)) (\<lambda>ws. Ok (w # ws)))"

definition chacha_state :: "bytes \<Rightarrow> ULONG \<Rightarrow> bytes \<Rightarrow> ULONG list res" where
  "chacha_state key counter nonce =
     rbind (read_words 8 key) (\<lambda>k. rbind (read_words 3 nonce) (\<lambda>n.
       Ok ([0x61707865, 0x3320646e, 0x79622d32, 0x6b206574] @ k @ [counter] @ n)))"

definition ChaCha20Block :: "bytes \<Rightarrow> ULONG \<Rightarrow> bytes \<Rightarrow> bytes res" where
  "ChaCha20Block key counter nonce =
     rbind (chacha_state key counter nonce) (\<lambda>state.
       let working = double_rounds 10 state
       in Ok (concat (map2 (\<lambda>w s. WriteLittleEndian32 (w + s)) working state)))"

function chacha_loop :: "bytes \<Rightarrow> ULONG \<Rightarrow> bytes \<Rightarrow> bytes \<Rightarrow> bytes \<Rightarrow> nat \<Rightarrow> bytes res" where
  "chacha_loop key counter nonce input out offset =
     (if input = [] then Ok out
      else rbind (ChaCha20Block key counter nonce) (\<lambda>block.
        let chunk = (if length input < 64 then length input else 64)
        in rbind (xor_loop (take chunk input) block out offset) (\<lambda>out'.
             chacha_loop key (counter + 1) nonce (drop chunk input) out' (offset + chunk))))"
  by pat_completeness auto
termination
  by (relation "measure (\<lambda>(key, counter, nonce, input, out, offset). length input)") auto

declare chacha_loop.simps [simp del]

definition ChaCha20Xor ::
  "bytes \<Rightarrow> ULONG \<Rightarrow> bytes \<Rightarrow> UCHAR span \<Rightarrow> UCHAR span \<Rightarrow> bytes res" where
  "ChaCha20Xor key counter nonce input out =
     (if \<not> IsValidBuffer input \<or> span_null out \<or> span_len out < span_len input
      then Err STATUS_INVALID_PARAMETER
      else chacha_loop key counter nonce (span_list input) (span_list out) 0)"

section \<open>The reference: rows, columns and diagonals\<close>

type_synonym rows = "ULONG list \<times> ULONG list \<times> ULONG list \<times> ULONG list"

definition column_round :: "rows \<Rightarrow> rows" where
  "column_round = (\<lambda>(a, b, c, d).
     let a = map2 (+) a b; d = map (word_rotl 16) (map2 (XOR) d a);
         c = map2 (+) c d; b = map (word_rotl 12) (map2 (XOR) b c);
         a = map2 (+) a b; d = map (word_rotl 8) (map2 (XOR) d a);
         c = map2 (+) c d; b = map (word_rotl 7) (map2 (XOR) b c)
     in (a, b, c, d))"

definition diagonal_round :: "rows \<Rightarrow> rows" where
  "diagonal_round = (\<lambda>(a, b, c, d).
     case column_round (a, rotate 1 b, rotate 2 c, rotate 3 d) of
       (a, b, c, d) \<Rightarrow> (a, rotate 3 b, rotate 2 c, rotate 1 d))"

definition flat :: "rows \<Rightarrow> ULONG list" where
  "flat = (\<lambda>(a, b, c, d). a @ b @ c @ d)"

definition four_rows :: "ULONG list \<Rightarrow> rows" where
  "four_rows w = (take 4 w, take 4 (drop 4 w), take 4 (drop 8 w), take 4 (drop 12 w))"

definition le_words :: "nat \<Rightarrow> bytes \<Rightarrow> ULONG list" where
  "le_words n p = map (\<lambda>i. word_of_nat (le_val (take 4 (drop (4 * i) p)))) [0..<n]"

definition chacha20 :: "bytes \<Rightarrow> ULONG \<Rightarrow> bytes \<Rightarrow> bytes" where
  "chacha20 key counter nonce =
     (let init = [0x61707865, 0x3320646e, 0x79622d32, 0x6b206574] @ le_words 8 key @ [counter]
                 @ le_words 3 nonce;
          final = flat (((\<lambda>r. diagonal_round (column_round r)) ^^ 10) (four_rows init))
      in concat (map (\<lambda>w. le_bytes 4 (unat w)) (map2 (+) final init)))"

text \<open>The stream: the block counter is a 32-bit word and wraps around.\<close>

definition chacha20_crypt :: "bytes \<Rightarrow> ULONG \<Rightarrow> bytes \<Rightarrow> bytes \<Rightarrow> bytes" where
  "chacha20_crypt key counter nonce =
     counter_crypt 64 (\<lambda>i. chacha20 key (counter + word_of_nat i) nonce) 0"

section \<open>One block\<close>

lemma RotateLeft32_rotl: "0 < n \<Longrightarrow> n < 32 \<Longrightarrow> RotateLeft32 v n = word_rotl n v"
  by (simp add: RotateLeft32_def word_rotl_shift)

lemma length_quarter_at [simp]: "length (quarter_at i j k l w) = length w"
  by (simp add: quarter_at_def split: prod.split)

lemma length_double_round [simp]: "length (double_round w) = length w"
  by (simp add: double_round_def)

lemma length_double_rounds [simp]: "length (double_rounds n w) = length w"
  by (induction n arbitrary: w) auto

lemma quarter_at_components:
  "quarter_at i j k l w =
     (let q = QuarterRound (w ! i) (w ! j) (w ! k) (w ! l)
      in w[i := fst q, j := fst (snd q), k := fst (snd (snd q)), l := snd (snd (snd q))])"
  by (simp add: quarter_at_def Let_def case_prod_unfold)

lemma column_round_quarters:
  "column_round ([a0, a1, a2, a3], [b0, b1, b2, b3], [c0, c1, c2, c3], [d0, d1, d2, d3]) =
     (let q0 = QuarterRound a0 b0 c0 d0; q1 = QuarterRound a1 b1 c1 d1;
          q2 = QuarterRound a2 b2 c2 d2; q3 = QuarterRound a3 b3 c3 d3
      in ([fst q0, fst q1, fst q2, fst q3],
          [fst (snd q0), fst (snd q1), fst (snd q2), fst (snd q3)],
          [fst (snd (snd q0)), fst (snd (snd q1)), fst (snd (snd q2)), fst (snd (snd q3))],
          [snd (snd (snd q0)), snd (snd (snd q1)), snd (snd (snd q2)), snd (snd (snd q3))]))"
  by (simp add: column_round_def QuarterRound_def Let_def RotateLeft32_rotl)

lemma double_round_rows:
  assumes "length w = 16"
  shows "double_round w = flat (diagonal_round (column_round (four_rows w)))"
proof -
  obtain w0 w1 w2 w3 w4 w5 w6 w7 w8 w9 w10 w11 w12 w13 w14 w15 where
    w: "w = [w0, w1, w2, w3, w4, w5, w6, w7, w8, w9, w10, w11, w12, w13, w14, w15]"
    using assms by (auto simp: numeral_eq_Suc length_Suc_conv)
  show ?thesis
    unfolding w double_round_def quarter_at_components four_rows_def
    by (simp add: column_round_quarters diagonal_round_def flat_def Let_def rotate1_def numeral_eq_Suc)
qed

definition rows_ok :: "rows \<Rightarrow> bool" where
  "rows_ok = (\<lambda>(a, b, c, d). length a = 4 \<and> length b = 4 \<and> length c = 4 \<and> length d = 4)"

lemma rows_ok_column: "rows_ok r \<Longrightarrow> rows_ok (column_round r)"
  by (cases r) (simp add: rows_ok_def column_round_def Let_def)

lemma rows_ok_diagonal: "rows_ok r \<Longrightarrow> rows_ok (diagonal_round r)"
proof -
  assume r: "rows_ok r"
  obtain a b c d where abcd: "r = (a, b, c, d)" by (cases r)
  have "rows_ok (column_round (a, rotate 1 b, rotate 2 c, rotate 3 d))"
    using r abcd by (intro rows_ok_column) (simp add: rows_ok_def)
  then show ?thesis by (auto simp: abcd diagonal_round_def rows_ok_def split: prod.splits)
qed

lemma four_rows_flat: "rows_ok r \<Longrightarrow> four_rows (flat r) = r"
  by (cases r) (simp add: rows_ok_def four_rows_def flat_def)

lemma double_rounds_rows:
  "rows_ok r \<Longrightarrow> double_rounds n (flat r) = flat (((\<lambda>r. diagonal_round (column_round r)) ^^ n) r)"
proof (induction n arbitrary: r)
  case (Suc n)
  have "length (flat r) = 16" using Suc.prems by (cases r) (simp add: rows_ok_def flat_def)
  then have "double_round (flat r) = flat (diagonal_round (column_round r))"
    using Suc.prems by (simp add: double_round_rows four_rows_flat)
  with Suc show ?case
    by (simp add: rows_ok_column rows_ok_diagonal funpow_Suc_right del: funpow.simps)
qed simp

lemma flat_four_rows:
  assumes "length w = 16"
  shows "flat (four_rows w) = w" and "rows_ok (four_rows w)"
proof -
  have d: "drop m xs = take 4 (drop m xs) @ drop (m + 4) xs" for m and xs :: "ULONG list"
    by (metis add.commute append_take_drop_id drop_drop)
  have "w = take 4 w @ take 4 (drop 4 w) @ take 4 (drop 8 w) @ drop 12 w"
    using d [of 0 w] d [of 4 w] d [of 8 w] by simp
  moreover have "take 4 (drop 12 w) = drop 12 w" using assms by simp
  ultimately show "flat (four_rows w) = w" by (simp add: flat_def four_rows_def)
  show "rows_ok (four_rows w)" using assms by (simp add: rows_ok_def four_rows_def)
qed

lemma double_rounds_four_rows:
  "length w = 16 \<Longrightarrow>
   double_rounds n w = flat (((\<lambda>r. diagonal_round (column_round r)) ^^ n) (four_rows w))"
  using double_rounds_rows [of "four_rows w" n] flat_four_rows [of w] by simp

lemma read_words_le_words:
  "4 * n \<le> length p \<Longrightarrow> read_words n p = Ok (le_words n p)"
proof (induction n arbitrary: p)
  case 0
  show ?case by (simp add: le_words_def)
next
  case (Suc n)
  obtain w where w: "ReadLittleEndian32 p = Ok w" "unat w = le_val (take 4 p)"
    using unat_ReadLittleEndian32 [of p] Suc.prems by auto
  have "word_of_nat (le_val (take 4 p)) = w" by (simp add: w(2) [symmetric])
  moreover have "le_words (Suc n) p = word_of_nat (le_val (take 4 p)) # le_words n (drop 4 p)"
    unfolding le_words_def upt_conv_Cons [OF zero_less_Suc] map_Suc_upt [symmetric]
    by (simp add: add.commute)
  ultimately show ?case using Suc w by simp
qed

lemma length_le_words [simp]: "length (le_words n p) = n"
  by (simp add: le_words_def)

lemma chacha20_rounds:
  fixes init :: "ULONG list"
  assumes "init = [0x61707865, 0x3320646e, 0x79622d32, 0x6b206574] @ le_words 8 key @ [counter]
      @ le_words 3 nonce"
  shows "chacha20 key counter nonce
      = concat (map (\<lambda>w. le_bytes 4 (unat w)) (map2 (+) (double_rounds 10 init) init))"
proof -
  have "length init = 16" using assms by simp
  then show ?thesis
    unfolding chacha20_def assms [symmetric] by (simp only: Let_def double_rounds_four_rows)
qed

lemma ChaCha20Block_chacha20:
  assumes "length key = 32" "length nonce = 12"
  shows "ChaCha20Block key counter nonce = Ok (chacha20 key counter nonce)"
proof -
  define init :: "ULONG list" where
    "init = [0x61707865, 0x3320646e, 0x79622d32, 0x6b206574] @ le_words 8 key @ [counter]
      @ le_words 3 nonce"
  have "chacha_state key counter nonce = Ok init"
    using assms by (simp add: chacha_state_def read_words_le_words init_def)
  then show ?thesis
    by (simp add: ChaCha20Block_def chacha20_rounds [OF init_def] Let_def WriteLittleEndian32_le
        case_prod_unfold comp_def)
qed

lemma length_chacha20 [simp]: "length (chacha20 key counter nonce) = 64"
  by (simp add: chacha20_rounds [OF refl] length_concat comp_def sum_list_triv)

section \<open>The stream\<close>

interpretation ks: counter_mode 64 "\<lambda>i. chacha20 key (counter + word_of_nat i) nonce"
  for key counter nonce
  by unfold_locales simp_all

lemma chacha20_crypt_step:
  assumes "m \<noteq> []"
  shows "chacha20_crypt key counter nonce m =
    xor_bytes (take 64 m) (chacha20 key counter nonce) @ chacha20_crypt key (counter + 1) nonce (drop 64 m)"
  using ks.crypt_step [OF assms, of key counter nonce 0]
  by (simp add: chacha20_crypt_def counter_crypt_shift add.assoc)

lemma chacha20_crypt_Nil [simp]: "chacha20_crypt key counter nonce [] = []"
  by (simp add: chacha20_crypt_def)

lemma length_chacha20_crypt [simp]: "length (chacha20_crypt key counter nonce m) = length m"
  by (simp add: chacha20_crypt_def ks.crypt_length)

lemma chacha20_crypt_involution:
  "chacha20_crypt key counter nonce (chacha20_crypt key counter nonce m) = m"
  by (simp add: chacha20_crypt_def ks.crypt_involution)

lemma chacha_loop_crypt:
  assumes "length key = 32" "length nonce = 12" "offset + length input \<le> length out"
  shows "chacha_loop key counter nonce input out offset
      = Ok (overlay out offset (chacha20_crypt key counter nonce input))"
  using assms
proof (induction key counter nonce input out offset rule: chacha_loop.induct)
  case (1 key counter nonce input out offset)
  let ?b = "chacha20 key counter nonce"
  let ?n = "if length input < 64 then length input else 64"
  show ?case
  proof (cases "input = []")
    case True
    then show ?thesis by (simp add: chacha_loop.simps)
  next
    case False
    have t: "take ?n input = take 64 input" "drop ?n input = drop 64 input" by auto
    have x: "xor_loop (take 64 input) ?b out offset
        = Ok (overlay out offset (xor_bytes (take 64 input) ?b))"
      using "1.prems" by (intro xor_loop_overlay) auto
    have n: "?n = length (xor_bytes (take 64 input) ?b)" by simp
    have "chacha_loop key (counter + 1) nonce (drop 64 input)
          (overlay out offset (xor_bytes (take 64 input) ?b)) (offset + ?n)
        = Ok (overlay (overlay out offset (xor_bytes (take 64 input) ?b)) (offset + ?n)
            (chacha20_crypt key (counter + 1) nonce (drop 64 input)))"
      using "1.IH" [OF False refl, of "overlay out offset (xor_bytes (take 64 input) ?b)"]
        "1.prems" t by (auto split: if_splits)
    also have "\<dots> = Ok (overlay out offset (chacha20_crypt key counter nonce input))"
      using overlay_overlay [of offset "xor_bytes (take 64 input) ?b"
          "chacha20_crypt key (counter + 1) nonce (drop 64 input)" out] "1.prems" n
      by (simp add: chacha20_crypt_step [OF False] split: if_splits)
    finally show ?thesis
      using False x t "1.prems"
      by (subst chacha_loop.simps) (simp add: ChaCha20Block_chacha20 Let_def)
  qed
qed

end
