(* ===== verification/Kh_Poly1305.thy ===== *)
theory Kh_Poly1305
  imports Kh_AeadPrimitives
begin

text \<open>
  The one-time authenticator Poly1305 of \<open>crypto/Aead.cpp\<close>: \<open>Poly1305ProcessBlock\<close> and
  \<open>Poly1305\<close>. The code keeps the accumulator and the key in five limbs of 26 bits, multiplies
  them in 64-bit words, propagates carries in 32-bit words, folds \<open>2^130\<close> to 5, and selects the
  fully reduced value with a mask. The reference is the definition of RFC 8439, section 2.5, in
  natural numbers: the blocks are coefficients of a polynomial that is evaluated at the clamped
  key modulo \<open>2^130 - 5\<close>. The theorem states that the two agree for every key and message, so
  no carry is ever lost in the machine words.
\<close>

section \<open>The code\<close>

type_synonym limbs = "ULONG \<times> ULONG \<times> ULONG \<times> ULONG \<times> ULONG"

text \<open>The five limbs of one block: \<open>padded\<close> is the zeroed 17-byte array with the block and a 1.\<close>

definition poly_padded :: "bytes \<Rightarrow> nat \<Rightarrow> bytes res" where
  "poly_padded block blockLength =
     (if length block < blockLength \<or> 16 < blockLength then Fault
      else Ok ((overlay (replicate 17 0) 0 (take blockLength block))[blockLength := 1]))"

definition poly_values :: "bytes \<Rightarrow> nat \<Rightarrow> limbs res" where
  "poly_values block blockLength =
     rbind (poly_padded block blockLength) (\<lambda>padded.
     rbind (ReadLittleEndian32 padded) (\<lambda>w0.
     rbind (ReadLittleEndian32 (drop 3 padded)) (\<lambda>w1.
     rbind (ReadLittleEndian32 (drop 6 padded)) (\<lambda>w2.
     rbind (ReadLittleEndian32 (drop 9 padded)) (\<lambda>w3.
     rbind (ReadLittleEndian32 (drop 13 padded)) (\<lambda>w4.
       Ok (w0 AND 0x3ffffff, drop_bit 2 w1 AND 0x3ffffff, drop_bit 4 w2 AND 0x3ffffff,
           drop_bit 6 w3 AND 0x3ffffff, w4 AND 0x3ffffff)))))))"

definition poly_add :: "limbs \<Rightarrow> limbs \<Rightarrow> limbs" where
  "poly_add = (\<lambda>(h0, h1, h2, h3, h4) (v0, v1, v2, v3, v4).
     (h0 + v0, h1 + v1, h2 + v2, h3 + v3, h4 + v4))"

text \<open>The carries after the multiplication, over the five 64-bit sums.\<close>

definition poly_carry ::
  "ULONGLONG \<Rightarrow> ULONGLONG \<Rightarrow> ULONGLONG \<Rightarrow> ULONGLONG \<Rightarrow> ULONGLONG \<Rightarrow> limbs" where
  "poly_carry d0 d1 d2 d3 d4 =
     (let carry = (ucast (drop_bit 26 d0) :: ULONG); h0 = ucast d0 AND 0x3ffffff;
          d1 = d1 + ucast carry; carry = (ucast (drop_bit 26 d1) :: ULONG); h1 = ucast d1 AND 0x3ffffff;
          d2 = d2 + ucast carry; carry = (ucast (drop_bit 26 d2) :: ULONG); h2 = ucast d2 AND 0x3ffffff;
          d3 = d3 + ucast carry; carry = (ucast (drop_bit 26 d3) :: ULONG); h3 = ucast d3 AND 0x3ffffff;
          d4 = d4 + ucast carry; carry = (ucast (drop_bit 26 d4) :: ULONG); h4 = ucast d4 AND 0x3ffffff;
          h0 = h0 + carry * 5; carry = drop_bit 26 h0; h0 = h0 AND 0x3ffffff;
          h1 = h1 + carry
      in (h0, h1, h2, h3, h4))"

definition poly_multiply :: "limbs \<Rightarrow> limbs \<Rightarrow> limbs" where
  "poly_multiply = (\<lambda>(h0, h1, h2, h3, h4) (r0, r1, r2, r3, r4).
     let s1 = r1 * 5; s2 = r2 * 5; s3 = r3 * 5; s4 = r4 * 5;
         d0 = ucast h0 * ucast r0 + ucast h1 * ucast s4 + ucast h2 * ucast s3
            + ucast h3 * ucast s2 + ucast h4 * ucast s1;
         d1 = ucast h0 * ucast r1 + ucast h1 * ucast r0 + ucast h2 * ucast s4
            + ucast h3 * ucast s3 + ucast h4 * ucast s2;
         d2 = ucast h0 * ucast r2 + ucast h1 * ucast r1 + ucast h2 * ucast r0
            + ucast h3 * ucast s4 + ucast h4 * ucast s3;
         d3 = ucast h0 * ucast r3 + ucast h1 * ucast r2 + ucast h2 * ucast r1
            + ucast h3 * ucast r0 + ucast h4 * ucast s4;
         d4 = ucast h0 * ucast r4 + ucast h1 * ucast r3 + ucast h2 * ucast r2
            + ucast h3 * ucast r1 + ucast h4 * ucast r0
     in poly_carry d0 d1 d2 d3 d4)"

definition Poly1305ProcessBlock :: "limbs \<Rightarrow> limbs \<Rightarrow> bytes \<Rightarrow> nat \<Rightarrow> limbs res" where
  "Poly1305ProcessBlock h r block blockLength =
     rbind (poly_values block blockLength) (\<lambda>v. Ok (poly_multiply (poly_add h v) r))"

text \<open>The clamped key, in limbs.\<close>

definition poly_r :: "bytes \<Rightarrow> limbs res" where
  "poly_r key =
     rbind (ReadLittleEndian32 key) (\<lambda>t0.
     rbind (ReadLittleEndian32 (drop 4 key)) (\<lambda>t1.
     rbind (ReadLittleEndian32 (drop 8 key)) (\<lambda>t2.
     rbind (ReadLittleEndian32 (drop 12 key)) (\<lambda>t3.
       Ok (t0 AND 0x3ffffff,
           (drop_bit 26 t0 OR push_bit 6 t1) AND 0x3ffff03,
           (drop_bit 20 t1 OR push_bit 12 t2) AND 0x3ffc0ff,
           (drop_bit 14 t2 OR push_bit 18 t3) AND 0x3f03fff,
           drop_bit 8 t3 AND 0x00fffff)))))"

function poly_loop :: "limbs \<Rightarrow> limbs \<Rightarrow> bytes \<Rightarrow> limbs res" where
  "poly_loop h r message =
     (if message = [] then Ok h
      else let chunk = (if length message < 16 then length message else 16)
           in rbind (Poly1305ProcessBlock h r message chunk) (\<lambda>h'.
                poly_loop h' r (drop chunk message)))"
  by pat_completeness auto
termination
  by (relation "measure (\<lambda>(h, r, message). length message)") auto

declare poly_loop.simps [simp del]

text \<open>The final carries.\<close>

definition poly_reduce :: "limbs \<Rightarrow> limbs" where
  "poly_reduce = (\<lambda>(h0, h1, h2, h3, h4).
     let carry = drop_bit 26 h1; h1 = h1 AND 0x3ffffff; h2 = h2 + carry;
         carry = drop_bit 26 h2; h2 = h2 AND 0x3ffffff; h3 = h3 + carry;
         carry = drop_bit 26 h3; h3 = h3 AND 0x3ffffff; h4 = h4 + carry;
         carry = drop_bit 26 h4; h4 = h4 AND 0x3ffffff; h0 = h0 + carry * 5;
         carry = drop_bit 26 h0; h0 = h0 AND 0x3ffffff; h1 = h1 + carry
     in (h0, h1, h2, h3, h4))"

text \<open>\<open>g = h + 5 - 2^130\<close>, and the choice between \<open>h\<close> and \<open>g\<close> by the sign of its top limb.\<close>

definition poly_minus_p :: "limbs \<Rightarrow> limbs" where
  "poly_minus_p = (\<lambda>(h0, h1, h2, h3, h4).
     let g0 = h0 + 5; carry = drop_bit 26 g0; g0 = g0 AND 0x3ffffff;
         g1 = h1 + carry; carry = drop_bit 26 g1; g1 = g1 AND 0x3ffffff;
         g2 = h2 + carry; carry = drop_bit 26 g2; g2 = g2 AND 0x3ffffff;
         g3 = h3 + carry; carry = drop_bit 26 g3; g3 = g3 AND 0x3ffffff;
         g4 = h4 + carry - push_bit 26 1
     in (g0, g1, g2, g3, g4))"

definition poly_select :: "limbs \<Rightarrow> limbs \<Rightarrow> limbs" where
  "poly_select = (\<lambda>(h0, h1, h2, h3, h4) (g0, g1, g2, g3, g4).
     let mask = drop_bit 31 g4 - 1; notMask = NOT mask
     in ((h0 AND notMask) OR (g0 AND mask), (h1 AND notMask) OR (g1 AND mask),
         (h2 AND notMask) OR (g2 AND mask), (h3 AND notMask) OR (g3 AND mask),
         (h4 AND notMask) OR (g4 AND mask)))"

definition poly_tag :: "limbs \<Rightarrow> ULONG \<Rightarrow> ULONG \<Rightarrow> ULONG \<Rightarrow> ULONG \<Rightarrow> bytes" where
  "poly_tag = (\<lambda>(h0, h1, h2, h3, h4) k0 k1 k2 k3.
     let f0 = ((ucast h0 OR push_bit 26 (ucast h1)) AND 0xffffffff) + ucast k0 :: ULONGLONG;
         f1 = ((drop_bit 6 (ucast h1) OR push_bit 20 (ucast h2)) AND 0xffffffff) + ucast k1
              + drop_bit 32 f0;
         f2 = ((drop_bit 12 (ucast h2) OR push_bit 14 (ucast h3)) AND 0xffffffff) + ucast k2
              + drop_bit 32 f1;
         f3 = ((drop_bit 18 (ucast h3) OR push_bit 8 (ucast h4)) AND 0xffffffff) + ucast k3
              + drop_bit 32 f2
     in WriteLittleEndian32 (ucast f0) @ WriteLittleEndian32 (ucast f1)
        @ WriteLittleEndian32 (ucast f2) @ WriteLittleEndian32 (ucast f3))"

definition Poly1305 :: "bytes \<Rightarrow> bytes \<Rightarrow> bytes res" where
  "Poly1305 key message =
     rbind (poly_r key) (\<lambda>r.
     rbind (poly_loop (0, 0, 0, 0, 0) r message) (\<lambda>h.
     let h = poly_reduce h; h = poly_select h (poly_minus_p h)
     in rbind (ReadLittleEndian32 (drop 16 key)) (\<lambda>k0.
        rbind (ReadLittleEndian32 (drop 20 key)) (\<lambda>k1.
        rbind (ReadLittleEndian32 (drop 24 key)) (\<lambda>k2.
        rbind (ReadLittleEndian32 (drop 28 key)) (\<lambda>k3.
          Ok (poly_tag h k0 k1 k2 k3)))))))"

section \<open>The reference\<close>

definition poly_prime :: nat where
  "poly_prime = 2 ^ 130 - 5"

definition poly_clamp :: "nat \<Rightarrow> nat" where
  "poly_clamp n = n AND 0x0ffffffc0ffffffc0ffffffc0fffffff"

function poly_eval :: "nat \<Rightarrow> nat \<Rightarrow> bytes \<Rightarrow> nat" where
  "poly_eval r acc m =
     (if m = [] then acc
      else poly_eval r ((acc + le_val (take 16 m @ [1])) * r mod poly_prime) (drop 16 m))"
  by pat_completeness auto
termination
  by (relation "measure (\<lambda>(r, acc, m). length m)") auto

declare poly_eval.simps [simp del]

definition poly1305_mac :: "bytes \<Rightarrow> bytes \<Rightarrow> bytes" where
  "poly1305_mac key m =
     le_bytes 16 (poly_eval (poly_clamp (le_val (take 16 key))) 0 m + le_val (take 16 (drop 16 key)))"

section \<open>Limbs as numbers\<close>

definition limbs_val :: "limbs \<Rightarrow> nat" where
  "limbs_val = (\<lambda>(h0, h1, h2, h3, h4).
     unat h0 + 2 ^ 26 * unat h1 + 2 ^ 52 * unat h2 + 2 ^ 78 * unat h3 + 2 ^ 104 * unat h4)"

text \<open>Between two blocks only the second limb may exceed 26 bits, and only a little.\<close>

definition nearly_reduced :: "limbs \<Rightarrow> bool" where
  "nearly_reduced = (\<lambda>(h0, h1, h2, h3, h4).
     unat h0 < 2 ^ 26 \<and> unat h1 < 2 ^ 26 + 64 \<and> unat h2 < 2 ^ 26 \<and> unat h3 < 2 ^ 26 \<and> unat h4 < 2 ^ 26)"

definition small_limbs :: "limbs \<Rightarrow> bool" where
  "small_limbs = (\<lambda>(h0, h1, h2, h3, h4).
     unat h0 < 2 ^ 26 \<and> unat h1 < 2 ^ 26 \<and> unat h2 < 2 ^ 26 \<and> unat h3 < 2 ^ 26 \<and> unat h4 < 2 ^ 26)"

lemma poly_prime_eq: "poly_prime = 1361129467683753853853498429727072845819"
  by (simp add: poly_prime_def)

lemma unat_and_26: "unat (w AND 0x3ffffff :: ULONG) = unat w mod 2 ^ 26"
proof -
  have "w AND 0x3ffffff = take_bit 26 w" by (simp add: take_bit_eq_mask mask_eq_exp_minus_1)
  then show ?thesis unfolding unsigned_take_bit_eq by (simp only: unsigned_take_bit_eq) (rule take_bit_eq_mod)
qed

lemma unat_ucast_down32: "unat (ucast (w :: ULONGLONG) :: ULONG) = unat w mod 2 ^ 32"
  by (simp add: unsigned_ucast_eq take_bit_eq_mod)

lemma unat_drop_bit: "unat (drop_bit n w) = unat w div 2 ^ n"
  unfolding unat_drop_bit_eq by (rule drop_bit_eq_div)

lemma unat_low_26: "unat (ucast (w :: ULONGLONG) AND 0x3ffffff :: ULONG) = unat w mod 2 ^ 26"
proof -
  have "unat w mod 2 ^ 32 mod 2 ^ 26 = unat w mod 2 ^ 26" by (simp add: mod_mod_cancel)
  then show ?thesis by (simp only: unat_and_26 unat_ucast_down32)
qed

lemma unat_carry:
  "unat w < 2 ^ 58 \<Longrightarrow> unat (ucast (drop_bit 26 (w :: ULONGLONG)) :: ULONG) = unat w div 2 ^ 26"
  unfolding unat_ucast_down32 unat_drop_bit by (simp add: less_mult_imp_div_less)

section \<open>Carry propagation\<close>

lemma carry_nat:
  fixes D0 D1 D2 D3 D4 b :: nat
  defines "b \<equiv> 2 ^ 26"
  shows "(D0 mod b + 5 * ((D4 + (D3 + (D2 + (D1 + D0 div b) div b) div b) div b) div b)) mod b
     + b * ((D1 + D0 div b) mod b
            + (D0 mod b + 5 * ((D4 + (D3 + (D2 + (D1 + D0 div b) div b) div b) div b) div b)) div b)
     + b ^ 2 * ((D2 + (D1 + D0 div b) div b) mod b)
     + b ^ 3 * ((D3 + (D2 + (D1 + D0 div b) div b) div b) mod b)
     + b ^ 4 * ((D4 + (D3 + (D2 + (D1 + D0 div b) div b) div b) div b) mod b)
     + poly_prime * ((D4 + (D3 + (D2 + (D1 + D0 div b) div b) div b) div b) div b)
   = D0 + b * D1 + b ^ 2 * D2 + b ^ 3 * D3 + b ^ 4 * D4"
proof -
  define c0 where "c0 = D0 div b"
  define c1 where "c1 = (D1 + c0) div b"
  define c2 where "c2 = (D2 + c1) div b"
  define c3 where "c3 = (D3 + c2) div b"
  define c4 where "c4 = (D4 + c3) div b"
  define e where "e = D0 mod b + 5 * c4"
  have "D0 = b * c0 + D0 mod b" "D1 + c0 = b * c1 + (D1 + c0) mod b"
    "D2 + c1 = b * c2 + (D2 + c1) mod b" "D3 + c2 = b * c3 + (D3 + c2) mod b"
    "D4 + c3 = b * c4 + (D4 + c3) mod b" "e = b * (e div b) + e mod b"
    by (simp_all add: c0_def c1_def c2_def c3_def c4_def)
  then have "e mod b + b * ((D1 + c0) mod b + e div b) + b ^ 2 * ((D2 + c1) mod b)
      + b ^ 3 * ((D3 + c2) mod b) + b ^ 4 * ((D4 + c3) mod b) + poly_prime * c4
      = D0 + b * D1 + b ^ 2 * D2 + b ^ 3 * D3 + b ^ 4 * D4"
    using e_def unfolding b_def poly_prime_eq by simp
  then show ?thesis by (simp add: c0_def c1_def c2_def c3_def c4_def e_def)
qed

lemma unat_add_fits:
  fixes x y :: "'a::len word"
  shows "unat x + unat y < 2 ^ LENGTH('a) \<Longrightarrow> unat (x + y) = unat x + unat y"
  by (simp add: unat_word_ariths)

lemma unat_times_5: "5 * unat (c :: ULONG) < 2 ^ 32 \<Longrightarrow> unat (c * 5) = 5 * unat c"
  by (simp add: unat_word_ariths)

lemma carry_step:
  assumes "unat (d :: ULONGLONG) < 2 ^ 57 + 2 ^ 56"
  shows "unat (d + ucast (c :: ULONG)) = unat d + unat c"
    and "unat (ucast (drop_bit 26 (d + ucast c)) :: ULONG) = unat (d + ucast c) div 2 ^ 26"
proof -
  have c: "unat c < 2 ^ 32" using unat_lt2p [of c] by simp
  show s: "unat (d + ucast c) = unat d + unat c"
    using assms c by (subst unat_add_fits) simp_all
  show "unat (ucast (drop_bit 26 (d + ucast c)) :: ULONG) = unat (d + ucast c) div 2 ^ 26"
    using assms c s by (intro unat_carry) simp
qed

lemma poly_carry_val:
  assumes d: "unat d0 < 2 ^ 57 + 2 ^ 56" "unat d1 < 2 ^ 57 + 2 ^ 56" "unat d2 < 2 ^ 57 + 2 ^ 56"
    "unat d3 < 2 ^ 57 + 2 ^ 56" "unat d4 < 5 * 2 ^ 53 + 2 ^ 40"
  shows "nearly_reduced (poly_carry d0 d1 d2 d3 d4)"
    and "\<exists>q. limbs_val (poly_carry d0 d1 d2 d3 d4) + poly_prime * q
       = unat d0 + 2 ^ 26 * unat d1 + 2 ^ 52 * unat d2 + 2 ^ 78 * unat d3 + 2 ^ 104 * unat d4"
proof -
  define c0 :: ULONG where "c0 = ucast (drop_bit 26 d0)"
  define e1 where "e1 = d1 + ucast c0"
  define c1 :: ULONG where "c1 = ucast (drop_bit 26 e1)"
  define e2 where "e2 = d2 + ucast c1"
  define c2 :: ULONG where "c2 = ucast (drop_bit 26 e2)"
  define e3 where "e3 = d3 + ucast c2"
  define c3 :: ULONG where "c3 = ucast (drop_bit 26 e3)"
  define e4 where "e4 = d4 + ucast c3"
  define c4 :: ULONG where "c4 = ucast (drop_bit 26 e4)"
  define f0 :: ULONG where "f0 = (ucast d0 AND 0x3ffffff) + c4 * 5"
  define f1 :: ULONG where "f1 = (ucast e1 AND 0x3ffffff) + drop_bit 26 f0"
  note defs = c0_def e1_def c1_def e2_def c2_def e3_def c3_def e4_def c4_def f0_def f1_def
  have eq: "poly_carry d0 d1 d2 d3 d4 = (f0 AND 0x3ffffff, f1, ucast e2 AND 0x3ffffff,
      ucast e3 AND 0x3ffffff, ucast e4 AND 0x3ffffff)"
    unfolding poly_carry_def Let_def defs by (rule refl)
  have d4: "unat d4 < 2 ^ 57 + 2 ^ 56" using d(5) by simp
  have c0: "unat c0 = unat d0 div 2 ^ 26" unfolding c0_def using d by (intro unat_carry) simp
  note e1 = carry_step(1) [OF d(2), of c0, folded e1_def] and c1 = carry_step(2) [OF d(2), of c0, folded e1_def, folded c1_def]
  note e2 = carry_step(1) [OF d(3), of c1, folded e2_def] and c2 = carry_step(2) [OF d(3), of c1, folded e2_def, folded c2_def]
  note e3 = carry_step(1) [OF d(4), of c2, folded e3_def] and c3 = carry_step(2) [OF d(4), of c2, folded e3_def, folded c3_def]
  note e4 = carry_step(1) [OF d4, of c3, folded e4_def] and c4 = carry_step(2) [OF d4, of c3, folded e4_def, folded c4_def]
  have "unat e4 < (5 * 2 ^ 27 + 2 ^ 15) * 2 ^ 26" using e4 d(5) unat_lt2p [of c3] by simp
  then have c4b: "unat c4 < 5 * 2 ^ 27 + 2 ^ 15" unfolding c4 by (rule less_mult_imp_div_less)
  have m0: "unat (ucast d0 AND 0x3ffffff :: ULONG) < 2 ^ 26" by (simp add: unat_low_26)
  have f0: "unat f0 = unat d0 mod 2 ^ 26 + 5 * unat c4"
    unfolding f0_def using c4b m0
    by (subst unat_add_fits) (simp_all add: unat_times_5 unat_low_26)
  have f0b: "unat f0 < 52 * 2 ^ 26" using f0 c4b pos_mod_bound by simp
  then have fc: "unat (drop_bit 26 f0) < 52" unfolding unat_drop_bit by (rule less_mult_imp_div_less)
  have m1: "unat (ucast e1 AND 0x3ffffff :: ULONG) < 2 ^ 26" by (simp add: unat_low_26)
  have f1: "unat f1 = unat e1 mod 2 ^ 26 + unat f0 div 2 ^ 26"
    unfolding f1_def using fc m1 by (subst unat_add_fits) (simp_all add: unat_low_26 unat_drop_bit)
  show "nearly_reduced (poly_carry d0 d1 d2 d3 d4)"
    unfolding eq using m1 fc f1
    by (simp add: nearly_reduced_def unat_and_26 unat_low_26 unat_drop_bit)
  have "limbs_val (poly_carry d0 d1 d2 d3 d4) + poly_prime * unat c4
      = unat d0 + 2 ^ 26 * unat d1 + 2 ^ 52 * unat d2 + 2 ^ 78 * unat d3 + 2 ^ 104 * unat d4"
    using carry_nat [of "unat d0" "unat d4" "unat d3" "unat d2" "unat d1"]
    unfolding eq limbs_val_def prod.case unat_low_26 unat_and_26 [of f0] f1 f0
    by (simp only: c0 [symmetric] e1 [symmetric] c1 [symmetric] e2 [symmetric] c2 [symmetric]
        e3 [symmetric] c3 [symmetric] e4 [symmetric] c4 [symmetric]) simp
  then show "\<exists>q. limbs_val (poly_carry d0 d1 d2 d3 d4) + poly_prime * q
      = unat d0 + 2 ^ 26 * unat d1 + 2 ^ 52 * unat d2 + 2 ^ 78 * unat d3 + 2 ^ 104 * unat d4" ..
qed

section \<open>Multiplication\<close>

lemma product_nat:
  fixes H0 H1 H2 H3 H4 R0 R1 R2 R3 R4 :: nat
  shows "(H0 + 2 ^ 26 * H1 + 2 ^ 52 * H2 + 2 ^ 78 * H3 + 2 ^ 104 * H4)
       * (R0 + 2 ^ 26 * R1 + 2 ^ 52 * R2 + 2 ^ 78 * R3 + 2 ^ 104 * R4)
     = (H0 * R0 + H1 * (5 * R4) + H2 * (5 * R3) + H3 * (5 * R2) + H4 * (5 * R1))
     + 2 ^ 26 * (H0 * R1 + H1 * R0 + H2 * (5 * R4) + H3 * (5 * R3) + H4 * (5 * R2))
     + 2 ^ 52 * (H0 * R2 + H1 * R1 + H2 * R0 + H3 * (5 * R4) + H4 * (5 * R3))
     + 2 ^ 78 * (H0 * R3 + H1 * R2 + H2 * R1 + H3 * R0 + H4 * (5 * R4))
     + 2 ^ 104 * (H0 * R4 + H1 * R3 + H2 * R2 + H3 * R1 + H4 * R0)
     + poly_prime * ((H1 * R4 + H2 * R3 + H3 * R2 + H4 * R1) + 2 ^ 26 * (H2 * R4 + H3 * R3 + H4 * R2)
        + 2 ^ 52 * (H3 * R4 + H4 * R3) + 2 ^ 78 * (H4 * R4))"
  unfolding poly_prime_eq by (simp add: algebra_simps)

definition addend_bounds :: "limbs \<Rightarrow> bool" where
  "addend_bounds = (\<lambda>(h0, h1, h2, h3, h4).
     unat h0 < 2 ^ 27 \<and> unat h1 < 2 ^ 27 + 64 \<and> unat h2 < 2 ^ 27 \<and> unat h3 < 2 ^ 27 \<and> unat h4 < 2 ^ 27)"

lemma product_bound:
  fixes h r :: nat
  shows "h < 2 ^ 27 + 64 \<Longrightarrow> r < 2 ^ 26 \<Longrightarrow> h * r \<le> 9007203502227519"
  using mult_le_mono [of h "2 ^ 27 + 63" r "2 ^ 26 - 1"] by simp

text \<open>
  One of the sums of the multiplication: each product has a factor from \<open>h\<close> and a limb of \<open>r\<close>,
  which may be multiplied by 5.
\<close>

lemma unat_sum_products:
  fixes a0 a1 a2 a3 a4 b0 b1 b2 b3 b4 :: ULONG
  assumes "unat a0 < 2 ^ 27 + 64" "unat a1 < 2 ^ 27 + 64" "unat a2 < 2 ^ 27 + 64"
    "unat a3 < 2 ^ 27 + 64" "unat a4 < 2 ^ 27 + 64"
    "unat b0 = k0 * B0" "unat b1 = k1 * B1" "unat b2 = k2 * B2" "unat b3 = k3 * B3" "unat b4 = k4 * B4"
    "B0 < 2 ^ 26" "B1 < 2 ^ 26" "B2 < 2 ^ 26" "B3 < 2 ^ 26" "B4 < 2 ^ 26"
    and k: "k0 + k1 + k2 + k3 + k4 \<le> 21"
  shows "unat (ucast a0 * ucast b0 + ucast a1 * ucast b1 + ucast a2 * ucast b2 + ucast a3 * ucast b3
      + ucast a4 * ucast b4 :: ULONGLONG)
    = unat a0 * (k0 * B0) + unat a1 * (k1 * B1) + unat a2 * (k2 * B2) + unat a3 * (k3 * B3)
      + unat a4 * (k4 * B4)" (is "?u = ?s")
    and "unat a0 * (k0 * B0) + unat a1 * (k1 * B1) + unat a2 * (k2 * B2) + unat a3 * (k3 * B3)
      + unat a4 * (k4 * B4) \<le> (k0 + k1 + k2 + k3 + k4) * 9007203502227519"
proof -
  let ?M = "9007203502227519 :: nat"
  have b: "a * (k * B) \<le> k * ?M" if "a < 2 ^ 27 + 64" "B < 2 ^ 26" for a k B :: nat
    using product_bound [OF that] by (simp add: mult.left_commute [of a k])
  show s: "?s \<le> (k0 + k1 + k2 + k3 + k4) * ?M"
    unfolding add_mult_distrib by (intro add_mono b) (use assms in auto)
  also have "\<dots> \<le> 21 * ?M" using k by (rule mult_le_mono1)
  finally have "?s < 2 ^ 64" by simp
  then show "?u = ?s" by (simp add: unat_word_ariths mod_simps assms(6-10))
qed

lemma poly_multiply_exact:
  assumes h: "addend_bounds (h0, h1, h2, h3, h4)" and r: "small_limbs (r0, r1, r2, r3, r4)"
  obtains d0 d1 d2 d3 d4 where
    "poly_multiply (h0, h1, h2, h3, h4) (r0, r1, r2, r3, r4) = poly_carry d0 d1 d2 d3 d4"
    "unat d0 = unat h0 * unat r0 + unat h1 * (5 * unat r4) + unat h2 * (5 * unat r3)
       + unat h3 * (5 * unat r2) + unat h4 * (5 * unat r1)"
    "unat d1 = unat h0 * unat r1 + unat h1 * unat r0 + unat h2 * (5 * unat r4)
       + unat h3 * (5 * unat r3) + unat h4 * (5 * unat r2)"
    "unat d2 = unat h0 * unat r2 + unat h1 * unat r1 + unat h2 * unat r0
       + unat h3 * (5 * unat r4) + unat h4 * (5 * unat r3)"
    "unat d3 = unat h0 * unat r3 + unat h1 * unat r2 + unat h2 * unat r1
       + unat h3 * unat r0 + unat h4 * (5 * unat r4)"
    "unat d4 = unat h0 * unat r4 + unat h1 * unat r3 + unat h2 * unat r2
       + unat h3 * unat r1 + unat h4 * unat r0"
    "unat d0 \<le> 21 * 9007203502227519" "unat d1 \<le> 21 * 9007203502227519"
    "unat d2 \<le> 21 * 9007203502227519" "unat d3 \<le> 21 * 9007203502227519"
    "unat d4 \<le> 5 * 9007203502227519"
proof -
  have hb: "unat h0 < 2 ^ 27 + 64" "unat h1 < 2 ^ 27 + 64" "unat h2 < 2 ^ 27 + 64"
    "unat h3 < 2 ^ 27 + 64" "unat h4 < 2 ^ 27 + 64"
    using h by (simp_all add: addend_bounds_def)
  have rb: "unat r0 < 2 ^ 26" "unat r1 < 2 ^ 26" "unat r2 < 2 ^ 26" "unat r3 < 2 ^ 26" "unat r4 < 2 ^ 26"
    using r by (simp_all add: small_limbs_def)
  have one: "unat r0 = 1 * unat r0" "unat r1 = 1 * unat r1" "unat r2 = 1 * unat r2"
    "unat r3 = 1 * unat r3" "unat r4 = 1 * unat r4" by simp_all
  have s: "unat (r1 * 5) = 5 * unat r1" "unat (r2 * 5) = 5 * unat r2"
    "unat (r3 * 5) = 5 * unat r3" "unat (r4 * 5) = 5 * unat r4"
    using rb by (simp_all add: unat_times_5)
  note sum = unat_sum_products [OF hb]
  note d0 = sum [OF one(1) s(4) s(3) s(2) s(1) rb(1,5,4,3,2)]
  note d1 = sum [OF one(2) one(1) s(4) s(3) s(2) rb(2,1,5,4,3)]
  note d2 = sum [OF one(3) one(2) one(1) s(4) s(3) rb(3,2,1,5,4)]
  note d3 = sum [OF one(4) one(3) one(2) one(1) s(4) rb(4,3,2,1,5)]
  note d4 = sum [OF one(5) one(4) one(3) one(2) one(1) rb(5,4,3,2,1)]
  show thesis
    by (rule that, unfold poly_multiply_def Let_def prod.case, rule refl)
       (use d0 d1 d2 d3 d4 in simp_all)
qed

lemma poly_multiply_val:
  assumes "addend_bounds h" "small_limbs r"
  shows "nearly_reduced (poly_multiply h r)"
    and "limbs_val (poly_multiply h r) mod poly_prime = limbs_val h * limbs_val r mod poly_prime"
proof -
  obtain h0 h1 h2 h3 h4 r0 r1 r2 r3 r4 where
    h: "h = (h0, h1, h2, h3, h4)" and r: "r = (r0, r1, r2, r3, r4)"
    by (metis prod_cases5)
  obtain d0 d1 d2 d3 d4 where m: "poly_multiply h r = poly_carry d0 d1 d2 d3 d4"
    and d: "unat d0 = unat h0 * unat r0 + unat h1 * (5 * unat r4) + unat h2 * (5 * unat r3)
       + unat h3 * (5 * unat r2) + unat h4 * (5 * unat r1)"
    "unat d1 = unat h0 * unat r1 + unat h1 * unat r0 + unat h2 * (5 * unat r4)
       + unat h3 * (5 * unat r3) + unat h4 * (5 * unat r2)"
    "unat d2 = unat h0 * unat r2 + unat h1 * unat r1 + unat h2 * unat r0
       + unat h3 * (5 * unat r4) + unat h4 * (5 * unat r3)"
    "unat d3 = unat h0 * unat r3 + unat h1 * unat r2 + unat h2 * unat r1
       + unat h3 * unat r0 + unat h4 * (5 * unat r4)"
    "unat d4 = unat h0 * unat r4 + unat h1 * unat r3 + unat h2 * unat r2
       + unat h3 * unat r1 + unat h4 * unat r0"
    and b: "unat d0 \<le> 21 * 9007203502227519" "unat d1 \<le> 21 * 9007203502227519"
    "unat d2 \<le> 21 * 9007203502227519" "unat d3 \<le> 21 * 9007203502227519"
    "unat d4 \<le> 5 * 9007203502227519"
    by (rule poly_multiply_exact [OF assms [unfolded h r], folded h r]) (rule that)
  have b': "unat d0 < 2 ^ 57 + 2 ^ 56" "unat d1 < 2 ^ 57 + 2 ^ 56" "unat d2 < 2 ^ 57 + 2 ^ 56"
    "unat d3 < 2 ^ 57 + 2 ^ 56" "unat d4 < 5 * 2 ^ 53 + 2 ^ 40"
    using b by simp_all
  show "nearly_reduced (poly_multiply h r)"
    unfolding m by (rule poly_carry_val(1) [OF b'])
  obtain q where q: "limbs_val (poly_multiply h r) + poly_prime * q
      = unat d0 + 2 ^ 26 * unat d1 + 2 ^ 52 * unat d2 + 2 ^ 78 * unat d3 + 2 ^ 104 * unat d4"
    using poly_carry_val(2) [OF b'] unfolding m by blast
  obtain k where k: "limbs_val h * limbs_val r
      = (unat d0 + 2 ^ 26 * unat d1 + 2 ^ 52 * unat d2 + 2 ^ 78 * unat d3 + 2 ^ 104 * unat d4) + poly_prime * k"
    unfolding limbs_val_def h r prod.case product_nat d by blast
  have "limbs_val h * limbs_val r = limbs_val (poly_multiply h r) + poly_prime * (q + k)"
    unfolding k q [symmetric] by (simp add: algebra_simps)
  then show "limbs_val (poly_multiply h r) mod poly_prime = limbs_val h * limbs_val r mod poly_prime"
    by simp
qed

section \<open>Splitting a number into limbs\<close>

lemma le_val_drop: "le_val (drop k bs) = le_val bs div 256 ^ k"
proof (induction k arbitrary: bs)
  case (Suc k)
  show ?case
  proof (cases bs)
    case (Cons b bs')
    have "(unat b + 256 * le_val bs') div 256 = le_val bs'"
      using byte_bound [of b] by simp
    then have "(unat b + 256 * le_val bs') div (256 * 256 ^ k) = le_val bs' div 256 ^ k"
      by (simp only: div_mult2_eq)
    with Suc Cons show ?thesis by simp
  qed simp
qed simp

lemma le_val_take: "le_val (take k bs) = le_val bs mod 256 ^ k"
proof (induction k arbitrary: bs)
  case (Suc k)
  show ?case
  proof (cases bs)
    case (Cons b bs')
    have "(unat b + 256 * le_val bs') mod (256 * 256 ^ k)
        = unat b + 256 * (le_val bs' mod 256 ^ k)"
      using byte_bound [of b] by (simp add: mod_mult2_eq)
    with Suc Cons show ?thesis by simp
  qed simp
qed simp

lemma read_word_at:
  assumes "k + 4 \<le> length p"
  shows "\<exists>w. ReadLittleEndian32 (drop k p) = Ok w \<and> unat w = le_val p div 2 ^ (8 * k) mod 2 ^ 32"
proof -
  have "(256 :: nat) ^ k = 2 ^ (8 * k)" by (simp add: power_mult)
  then show ?thesis
    using unat_ReadLittleEndian32 [of "drop k p"] assms
    by (simp add: le_val_take le_val_drop)
qed

lemma window_26:
  fixes n :: nat
  assumes "j + 26 \<le> 32"
  shows "n div 2 ^ k mod 2 ^ 32 div 2 ^ j mod 2 ^ 26 = n div 2 ^ (k + j) mod 2 ^ 26"
proof -
  have "take_bit 26 (drop_bit j (take_bit 32 (drop_bit k n))) = take_bit 26 (drop_bit (k + j) n)"
    using assms by (auto simp: bit_eq_iff bit_simps ac_simps)
  then show ?thesis by (simp only: take_bit_eq_mod drop_bit_eq_div)
qed

lemma window_word:
  assumes "unat (w :: ULONG) = n div 2 ^ k mod 2 ^ 32" "j + 26 \<le> 32"
  shows "unat (drop_bit j w AND 0x3ffffff) = n div 2 ^ (k + j) mod 2 ^ 26"
  by (simp only: unat_and_26 unat_drop_bit assms(1) window_26 [OF assms(2)])

lemma horner_26:
  fixes n q1 q2 q3 q4 :: nat
  assumes "n = 2 ^ 26 * q1 + m0" "q1 = 2 ^ 26 * q2 + m1" "q2 = 2 ^ 26 * q3 + m2" "q3 = 2 ^ 26 * q4 + m3"
  shows "n = m0 + 2 ^ 26 * m1 + 2 ^ 52 * m2 + 2 ^ 78 * m3 + 2 ^ 104 * q4"
  using assms by simp

lemma digits_26:
  fixes n :: nat
  assumes "n < 2 ^ 130"
  shows "n = n mod 2 ^ 26 + 2 ^ 26 * (n div 2 ^ 26 mod 2 ^ 26) + 2 ^ 52 * (n div 2 ^ 52 mod 2 ^ 26)
    + 2 ^ 78 * (n div 2 ^ 78 mod 2 ^ 26) + 2 ^ 104 * (n div 2 ^ 104 mod 2 ^ 26)"
proof -
  define q1 q2 q3 q4 where q: "q1 = n div 2 ^ 26" "q2 = q1 div 2 ^ 26" "q3 = q2 div 2 ^ 26" "q4 = q3 div 2 ^ 26"
  have q2: "n div 2 ^ 52 = q2" and q3: "n div 2 ^ 78 = q3" and q4: "n div 2 ^ 104 = q4"
    by (simp_all add: q div_mult2_eq [symmetric])
  have m: "q4 mod 2 ^ 26 = q4" using assms
    by (intro mod_less) (simp add: q4 [symmetric] less_mult_imp_div_less)
  show ?thesis unfolding q2 q3 q4 q(1) [symmetric] m
    by (rule horner_26) (simp_all add: q)
qed

lemma limbs_valI:
  assumes "n < 2 ^ 130" "unat h0 = n mod 2 ^ 26" "unat h1 = n div 2 ^ 26 mod 2 ^ 26"
    "unat h2 = n div 2 ^ 52 mod 2 ^ 26" "unat h3 = n div 2 ^ 78 mod 2 ^ 26"
    "unat h4 = n div 2 ^ 104 mod 2 ^ 26"
  shows "small_limbs (h0, h1, h2, h3, h4)" and "limbs_val (h0, h1, h2, h3, h4) = n"
  using digits_26 [OF assms(1)] assms(2-) by (simp_all add: small_limbs_def limbs_val_def)

lemma poly_values_val:
  assumes "n \<le> 16" "n \<le> length block"
  shows "\<exists>v. poly_values block n = Ok v \<and> small_limbs v \<and> limbs_val v = le_val (take n block @ [1])"
proof -
  define p where "p = (overlay (replicate 17 0) 0 (take n block))[n := 1]"
  have "17 - n = Suc (16 - n)" using assms by simp
  then have p: "p = take n block @ [1] @ replicate (16 - n) 0"
    using assms by (simp add: p_def overlay_def list_update_append drop_replicate)
  have len: "length p = 17" using assms by (simp add: p)
  have val: "le_val p = le_val (take n block @ [1])"
    by (simp add: p le_val_append)
  have "le_val (take n block) < 256 ^ n" using le_val_bound [of "take n block"] assms by simp
  also have "(256 :: nat) ^ n \<le> 256 ^ 16" using assms by (intro power_increasing) auto
  finally have "le_val p < 2 ^ 130"
    using assms power_increasing [of n 16 "256 :: nat"] by (simp add: val le_val_append)
  have pad: "poly_padded block n = Ok p" using assms by (simp add: poly_padded_def p_def)
  obtain w0 where w0: "ReadLittleEndian32 p = Ok w0" "unat w0 = le_val p mod 2 ^ 32"
    using read_word_at [of 0 p] len by auto
  obtain w1 where w1: "ReadLittleEndian32 (drop 3 p) = Ok w1" "unat w1 = le_val p div 2 ^ 24 mod 2 ^ 32"
    using read_word_at [of 3 p] len by auto
  obtain w2 where w2: "ReadLittleEndian32 (drop 6 p) = Ok w2" "unat w2 = le_val p div 2 ^ 48 mod 2 ^ 32"
    using read_word_at [of 6 p] len by auto
  obtain w3 where w3: "ReadLittleEndian32 (drop 9 p) = Ok w3" "unat w3 = le_val p div 2 ^ 72 mod 2 ^ 32"
    using read_word_at [of 9 p] len by auto
  obtain w4 where w4: "ReadLittleEndian32 (drop 13 p) = Ok w4" "unat w4 = le_val p div 2 ^ 104 mod 2 ^ 32"
    using read_word_at [of 13 p] len by auto
  have "unat (w0 AND 0x3ffffff) = le_val p mod 2 ^ 26"
    using window_word [of w0 "le_val p" 0 0] w0(2) by simp
  moreover have "unat (drop_bit 2 w1 AND 0x3ffffff) = le_val p div 2 ^ 26 mod 2 ^ 26"
    using window_word [OF w1(2), of 2] by simp
  moreover have "unat (drop_bit 4 w2 AND 0x3ffffff) = le_val p div 2 ^ 52 mod 2 ^ 26"
    using window_word [OF w2(2), of 4] by simp
  moreover have "unat (drop_bit 6 w3 AND 0x3ffffff) = le_val p div 2 ^ 78 mod 2 ^ 26"
    using window_word [OF w3(2), of 6] by simp
  moreover have "unat (w4 AND 0x3ffffff) = le_val p div 2 ^ 104 mod 2 ^ 26"
    using window_word [OF w4(2), of 0] by simp
  ultimately have "small_limbs (w0 AND 0x3ffffff, drop_bit 2 w1 AND 0x3ffffff,
      drop_bit 4 w2 AND 0x3ffffff, drop_bit 6 w3 AND 0x3ffffff, w4 AND 0x3ffffff)"
    "limbs_val (w0 AND 0x3ffffff, drop_bit 2 w1 AND 0x3ffffff,
      drop_bit 4 w2 AND 0x3ffffff, drop_bit 6 w3 AND 0x3ffffff, w4 AND 0x3ffffff) = le_val p"
    by (rule limbs_valI [OF \<open>le_val p < 2 ^ 130\<close>])+
  then show ?thesis
    by (simp add: poly_values_def pad w0(1) w1(1) w2(1) w3(1) w4(1) val)
qed

section \<open>The clamped key\<close>

lemma list_all_lessD: "list_all P [0..<n] \<Longrightarrow> i < n \<Longrightarrow> P i"
  by (simp add: list_all_iff)

lemma nat_eq_26I:
  fixes a b :: nat
  assumes "a < 2 ^ 26" "b < 2 ^ 26" "list_all (\<lambda>m. bit a m = bit b m) [0..<26]"
  shows "a = b"
proof (rule bit_eqI)
  fix m
  show "bit a m = bit b m"
  proof (cases "m < 26")
    case True
    then show ?thesis using list_all_lessD [OF assms(3)] by simp
  next
    case False
    have "\<not> bit c m" if "c < 2 ^ 26" for c :: nat
      using that False by (metis bit_take_bit_iff take_bit_nat_eq_self)
    then show ?thesis using assms(1,2) by simp
  qed
qed

lemma unat_and_bound: "unat (w AND c :: ULONG) \<le> unat c"
  by (metis word_and_le1 word_le_nat_alt)

lemma bit_nat_window: "bit (n div 2 ^ k mod 2 ^ l :: nat) m \<longleftrightarrow> m < l \<and> bit n (k + m)"
  unfolding drop_bit_eq_div [symmetric] take_bit_eq_mod [symmetric]
  by (simp add: bit_take_bit_iff bit_drop_bit_eq)

lemma bit_read_word:
  assumes "unat (t :: ULONG) = n div 2 ^ k mod 2 ^ 32"
  shows "bit t i \<longleftrightarrow> i < 32 \<and> bit n (k + i)"
proof -
  have "bit t i \<longleftrightarrow> bit (unat t) i" by (auto simp: bit_unsigned_iff dest: bit_imp_le_length)
  then show ?thesis unfolding assms bit_nat_window .
qed

lemma clamp_limb:
  assumes "list_all (\<lambda>m. bit w m = bit (poly_clamp n) (k + m)) [0..<26]" "unat (w :: ULONG) < 2 ^ 26"
  shows "unat w = poly_clamp n div 2 ^ k mod 2 ^ 26"
proof (rule nat_eq_26I [OF assms(2)])
  show "poly_clamp n div 2 ^ k mod 2 ^ 26 < 2 ^ 26" by simp
  show "list_all (\<lambda>m. bit (unat w) m = bit (poly_clamp n div 2 ^ k mod 2 ^ 26) m) [0..<26]"
    unfolding bit_nat_window using assms(1) by (auto simp: list_all_iff bit_unsigned_iff)
qed

lemma clamped_limbs:
  fixes t0 t1 t2 t3 :: ULONG
  assumes b: "\<And>i. bit t0 i \<longleftrightarrow> i < 32 \<and> bit n i" "\<And>i. bit t1 i \<longleftrightarrow> i < 32 \<and> bit n (32 + i)"
    "\<And>i. bit t2 i \<longleftrightarrow> i < 32 \<and> bit n (64 + i)" "\<And>i. bit t3 i \<longleftrightarrow> i < 32 \<and> bit n (96 + i)"
  shows "unat (t0 AND 0x3ffffff) = poly_clamp n mod 2 ^ 26"
    and "unat ((drop_bit 26 t0 OR push_bit 6 t1) AND 0x3ffff03) = poly_clamp n div 2 ^ 26 mod 2 ^ 26"
    and "unat ((drop_bit 20 t1 OR push_bit 12 t2) AND 0x3ffc0ff) = poly_clamp n div 2 ^ 52 mod 2 ^ 26"
    and "unat ((drop_bit 14 t2 OR push_bit 18 t3) AND 0x3f03fff) = poly_clamp n div 2 ^ 78 mod 2 ^ 26"
    and "unat (drop_bit 8 t3 AND 0x00fffff) = poly_clamp n div 2 ^ 104 mod 2 ^ 26"
proof -
  note bits = bit_Suc_0_iff poly_clamp_def bit_and_iff bit_or_iff bit_drop_bit_eq bit_push_bit_iff upt_conv_Cons
  note small = le_less_trans [OF unat_and_bound]
  have "unat (t0 AND 0x3ffffff) = poly_clamp n div 2 ^ 0 mod 2 ^ 26"
    by (rule clamp_limb [OF _ small]) (simp_all add: bits b)
  then show "unat (t0 AND 0x3ffffff) = poly_clamp n mod 2 ^ 26" by simp
  show "unat ((drop_bit 26 t0 OR push_bit 6 t1) AND 0x3ffff03) = poly_clamp n div 2 ^ 26 mod 2 ^ 26"
    by (rule clamp_limb [OF _ small]) (simp_all add: bits b)
  show "unat ((drop_bit 20 t1 OR push_bit 12 t2) AND 0x3ffc0ff) = poly_clamp n div 2 ^ 52 mod 2 ^ 26"
    by (rule clamp_limb [OF _ small]) (simp_all add: bits b)
  show "unat ((drop_bit 14 t2 OR push_bit 18 t3) AND 0x3f03fff) = poly_clamp n div 2 ^ 78 mod 2 ^ 26"
    by (rule clamp_limb [OF _ small]) (simp_all add: bits b)
  show "unat (drop_bit 8 t3 AND 0x00fffff) = poly_clamp n div 2 ^ 104 mod 2 ^ 26"
    by (rule clamp_limb [OF _ small]) (simp_all add: bits b)
qed

lemma poly_clamp_bound: "poly_clamp n < 2 ^ 130"
proof -
  have "poly_clamp n = take_bit 124 (poly_clamp n)"
  proof (rule bit_eqI)
    fix m
    have "\<not> bit (0x0ffffffc0ffffffc0ffffffc0fffffff :: nat) m" if "124 \<le> m"
    proof -
      have "(0x0ffffffc0ffffffc0ffffffc0fffffff :: nat) = take_bit 124 0x0ffffffc0ffffffc0ffffffc0fffffff"
        by (rule sym, rule take_bit_nat_eq_self) simp
      then show ?thesis using that by (metis bit_take_bit_iff not_le)
    qed
    then show "bit (poly_clamp n) m = bit (take_bit 124 (poly_clamp n)) m"
      unfolding poly_clamp_def bit_and_iff bit_take_bit_iff by (metis not_le)
  qed
  then have "poly_clamp n < 2 ^ 124" by (metis take_bit_nat_less_exp)
  then show ?thesis by simp
qed

lemma poly_r_val:
  assumes "length key = 32"
  shows "\<exists>r. poly_r key = Ok r \<and> small_limbs r \<and> limbs_val r = poly_clamp (le_val (take 16 key))"
proof -
  define n where "n = le_val key"
  have clamp: "poly_clamp (le_val (take 16 key)) = poly_clamp (take_bit 128 n)"
    by (simp add: n_def le_val_take take_bit_eq_mod)
  obtain t0 where t0: "ReadLittleEndian32 key = Ok t0" "unat t0 = n div 2 ^ 0 mod 2 ^ 32"
    using read_word_at [of 0 key] assms by (auto simp: n_def)
  obtain t1 where t1: "ReadLittleEndian32 (drop 4 key) = Ok t1" "unat t1 = n div 2 ^ 32 mod 2 ^ 32"
    using read_word_at [of 4 key] assms by (auto simp: n_def)
  obtain t2 where t2: "ReadLittleEndian32 (drop 8 key) = Ok t2" "unat t2 = n div 2 ^ 64 mod 2 ^ 32"
    using read_word_at [of 8 key] assms by (auto simp: n_def)
  obtain t3 where t3: "ReadLittleEndian32 (drop 12 key) = Ok t3" "unat t3 = n div 2 ^ 96 mod 2 ^ 32"
    using read_word_at [of 12 key] assms by (auto simp: n_def)
  have bits: "bit t0 i \<longleftrightarrow> i < 32 \<and> bit (take_bit 128 n) i"
    "bit t1 i \<longleftrightarrow> i < 32 \<and> bit (take_bit 128 n) (32 + i)"
    "bit t2 i \<longleftrightarrow> i < 32 \<and> bit (take_bit 128 n) (64 + i)"
    "bit t3 i \<longleftrightarrow> i < 32 \<and> bit (take_bit 128 n) (96 + i)" for i
    by (auto simp: bit_read_word [OF t0(2)] bit_read_word [OF t1(2)] bit_read_word [OF t2(2)]
        bit_read_word [OF t3(2)] bit_take_bit_iff)
  from limbs_valI [OF poly_clamp_bound clamped_limbs [OF bits]] show ?thesis
    by (simp add: poly_r_def t0(1) t1(1) t2(1) t3(1) clamp)
qed

section \<open>One block, all blocks\<close>

lemma poly_add_val:
  assumes "nearly_reduced h" "small_limbs v"
  shows "addend_bounds (poly_add h v)" and "limbs_val (poly_add h v) = limbs_val h + limbs_val v"
proof -
  obtain h0 h1 h2 h3 h4 v0 v1 v2 v3 v4 where
    h: "h = (h0, h1, h2, h3, h4)" and v: "v = (v0, v1, v2, v3, v4)"
    by (metis prod_cases5)
  have "unat (h0 + v0) = unat h0 + unat v0" "unat (h1 + v1) = unat h1 + unat v1"
    "unat (h2 + v2) = unat h2 + unat v2" "unat (h3 + v3) = unat h3 + unat v3"
    "unat (h4 + v4) = unat h4 + unat v4"
    using assms by (simp_all add: unat_add_fits h v nearly_reduced_def small_limbs_def)
  then show "addend_bounds (poly_add h v)" "limbs_val (poly_add h v) = limbs_val h + limbs_val v"
    using assms
    by (simp_all add: h v poly_add_def addend_bounds_def nearly_reduced_def small_limbs_def limbs_val_def)
qed

lemma Poly1305ProcessBlock_val:
  assumes "nearly_reduced h" "small_limbs r" "n \<le> 16" "n \<le> length block"
  shows "\<exists>h'. Poly1305ProcessBlock h r block n = Ok h' \<and> nearly_reduced h' \<and>
    limbs_val h' mod poly_prime = (limbs_val h + le_val (take n block @ [1])) * limbs_val r mod poly_prime"
proof -
  obtain v where v: "poly_values block n = Ok v" "small_limbs v" "limbs_val v = le_val (take n block @ [1])"
    using poly_values_val [OF assms(3,4)] by blast
  note add = poly_add_val [OF assms(1) v(2)]
  note mult = poly_multiply_val [OF add(1) assms(2)]
  show ?thesis using mult add(2) v by (simp add: Poly1305ProcessBlock_def)
qed

lemma poly_eval_cong:
  "acc mod poly_prime = acc' mod poly_prime \<Longrightarrow>
   poly_eval r acc m mod poly_prime = poly_eval r acc' m mod poly_prime"
proof (induction r acc m arbitrary: acc' rule: poly_eval.induct)
  case (1 r acc m)
  show ?case
  proof (cases "m = []")
    case True
    with 1 show ?thesis by (simp add: poly_eval.simps)
  next
    case False
    have "(acc + le_val (take 16 m @ [1])) * r mod poly_prime
        = (acc' + le_val (take 16 m @ [1])) * r mod poly_prime"
      using "1.prems" by (metis mod_add_left_eq mod_mult_left_eq)
    then show ?thesis using False by (simp add: poly_eval.simps [of r acc] poly_eval.simps [of r acc'])
  qed
qed

lemma poly_eval_less: "acc < poly_prime \<Longrightarrow> poly_eval r acc m < poly_prime"
proof (induction r acc m rule: poly_eval.induct)
  case (1 r acc m)
  have "poly_eval r acc [] = acc" by (simp add: poly_eval.simps)
  with 1 show ?case
    by (cases "m = []") (simp_all add: poly_eval.simps [of r acc m] poly_prime_eq)
qed

lemma poly_loop_val:
  assumes "nearly_reduced h" "small_limbs r"
  shows "\<exists>h'. poly_loop h r m = Ok h' \<and> nearly_reduced h' \<and>
    limbs_val h' mod poly_prime = poly_eval (limbs_val r) (limbs_val h) m mod poly_prime"
  using assms
proof (induction h r m rule: poly_loop.induct)
  case (1 h r m)
  let ?n = "if length m < 16 then length m else 16"
  show ?case
  proof (cases "m = []")
    case True
    with 1 show ?thesis by (simp add: poly_loop.simps poly_eval.simps)
  next
    case False
    have t: "take ?n m = take 16 m" "drop ?n m = drop 16 m" by auto
    have n: "?n \<le> 16" "?n \<le> length m" by auto
    obtain h1 where h1: "Poly1305ProcessBlock h r m ?n = Ok h1" "nearly_reduced h1"
      "limbs_val h1 mod poly_prime = (limbs_val h + le_val (take 16 m @ [1])) * limbs_val r mod poly_prime"
      using Poly1305ProcessBlock_val [OF "1.prems" n] unfolding t by blast
    obtain h' where h': "poly_loop h1 r (drop 16 m) = Ok h'" "nearly_reduced h'"
      "limbs_val h' mod poly_prime = poly_eval (limbs_val r) (limbs_val h1) (drop 16 m) mod poly_prime"
      using "1.IH" [OF False refl h1(2) "1.prems"(2)] t by auto
    have "poly_eval (limbs_val r) (limbs_val h1) (drop 16 m) mod poly_prime
        = poly_eval (limbs_val r) (limbs_val h) m mod poly_prime"
      using poly_eval_cong [of "limbs_val h1"
          "(limbs_val h + le_val (take 16 m @ [1])) * limbs_val r mod poly_prime" "limbs_val r" "drop 16 m"]
        False h1(3) by (simp add: poly_eval.simps [of _ _ m])
    then show ?thesis using False h1(1) h' t by (subst poly_loop.simps) (simp add: Let_def)
  qed
qed

section \<open>The final reduction\<close>

lemma unat_carry_32: "unat (h + drop_bit 26 c) = unat h + unat c div 2 ^ 26"
  if "unat (h :: ULONG) < 2 ^ 27" for h c :: ULONG
proof -
  have "unat c div 2 ^ 26 < 64" using unat_lt2p [of c] by (intro less_mult_imp_div_less) simp
  then show ?thesis using that by (subst unat_add_fits) (simp_all add: unat_drop_bit)
qed

lemma reduce_sum:
  fixes H0 H1 H2 H3 H4 b :: nat
  assumes "b = 2 ^ 26" "H1 = b * c1 + m1" "H2 + c1 = b * c2 + m2" "H3 + c2 = b * c3 + m3"
    "H4 + c3 = b * c4 + m4" "H0 + 5 * c4 = b * c5 + m0"
  shows "m0 + b * (m1 + c5) + 2 ^ 52 * m2 + 2 ^ 78 * m3 + 2 ^ 104 * m4 + poly_prime * c4
    = H0 + b * H1 + 2 ^ 52 * H2 + 2 ^ 78 * H3 + 2 ^ 104 * H4"
  using assms(2-6) unfolding assms(1) poly_prime_eq by simp

lemma reduce_nat:
  fixes H0 H1 H2 H3 H4 G2 G3 G4 G0 b :: nat
  assumes b: "b = 2 ^ 26"
    and h: "H0 < b" "H1 < b + 64" "H2 < b" "H3 < b" "H4 < b"
    and g: "G2 = H2 + H1 div b" "G3 = H3 + G2 div b" "G4 = H4 + G3 div b" "G0 = H0 + 5 * (G4 div b)"
  shows "H1 mod b + G0 div b < b"
    and "G0 mod b + b * (H1 mod b + G0 div b) + 2 ^ 52 * (G2 mod b) + 2 ^ 78 * (G3 mod b) + 2 ^ 104 * (G4 mod b)
      + poly_prime * (G4 div b) = H0 + b * H1 + 2 ^ 52 * H2 + 2 ^ 78 * H3 + 2 ^ 104 * H4"
proof -
  have one: "x \<le> b \<Longrightarrow> x div b \<le> 1" for x using b div_le_mono [of x b b] by simp
  have c1: "H1 div b \<le> 1" using h(2) b less_mult_imp_div_less [of H1 2 b] by simp
  have c2: "G2 div b \<le> 1" using c1 g(1) h(3) by (intro one) simp
  have c3: "G3 div b \<le> 1" using c2 g(2) h(4) by (intro one) simp
  have c4: "G4 div b \<le> 1" using c3 g(3) h(5) by (intro one) simp
  show "H1 mod b + G0 div b < b"
  proof (cases "G4 div b = 0")
    case True
    then show ?thesis using g(4) h(1) b by simp
  next
    case False
    have ge: "b \<le> x" if "x div b \<noteq> 0" for x using that by (metis div_less not_le)
    have "G3 div b = 1" using ge [OF False] g(3) h(5) c3 by simp
    then have "G2 div b = 1" using ge [of G3] g(2) h(4) c2 by simp
    then have "H1 div b = 1" using ge [of G2] g(1) h(3) c1 by simp
    then have "H1 mod b < 64" using h(2) div_mult_mod_eq [of H1 b] by simp
    moreover have "G0 < 2 * b" using g(4) h(1) c4 b by simp
    then have "G0 div b < 2" by (rule less_mult_imp_div_less)
    ultimately show ?thesis using b by simp
  qed
  show "G0 mod b + b * (H1 mod b + G0 div b) + 2 ^ 52 * (G2 mod b) + 2 ^ 78 * (G3 mod b) + 2 ^ 104 * (G4 mod b)
      + poly_prime * (G4 div b) = H0 + b * H1 + 2 ^ 52 * H2 + 2 ^ 78 * H3 + 2 ^ 104 * H4"
    by (rule reduce_sum [OF b, where ?c1.0 = "H1 div b" and ?c2.0 = "G2 div b" and ?c3.0 = "G3 div b"])
       (simp_all add: g [symmetric])
qed

lemma poly_reduce_val:
  assumes "nearly_reduced h"
  shows "small_limbs (poly_reduce h)"
    and "limbs_val (poly_reduce h) mod poly_prime = limbs_val h mod poly_prime"
proof -
  obtain h0 h1 h2 h3 h4 where h: "h = (h0, h1, h2, h3, h4)" by (metis prod_cases5)
  define g2 where "g2 = h2 + drop_bit 26 h1"
  define g3 where "g3 = h3 + drop_bit 26 g2"
  define g4 where "g4 = h4 + drop_bit 26 g3"
  define g0 where "g0 = h0 + drop_bit 26 g4 * 5"
  have eq: "poly_reduce h = (g0 AND 0x3ffffff, (h1 AND 0x3ffffff) + drop_bit 26 g0,
      g2 AND 0x3ffffff, g3 AND 0x3ffffff, g4 AND 0x3ffffff)"
    unfolding h poly_reduce_def Let_def prod.case g2_def g3_def g4_def g0_def by (rule refl)
  have b: "unat h0 < 2 ^ 26" "unat h1 < 2 ^ 26 + 64" "unat h2 < 2 ^ 26" "unat h3 < 2 ^ 26" "unat h4 < 2 ^ 26"
    using assms by (simp_all add: h nearly_reduced_def)
  have g2: "unat g2 = unat h2 + unat h1 div 2 ^ 26" and g3: "unat g3 = unat h3 + unat g2 div 2 ^ 26"
    and g4: "unat g4 = unat h4 + unat g3 div 2 ^ 26"
    unfolding g2_def g3_def g4_def using b by (simp_all add: unat_carry_32)
  have "unat (drop_bit 26 g4) < 64"
    unfolding unat_drop_bit using unat_lt2p [of g4] by (intro less_mult_imp_div_less) simp
  then have g0: "unat g0 = unat h0 + 5 * (unat g4 div 2 ^ 26)"
    unfolding g0_def using b by (subst unat_add_fits) (simp_all add: unat_times_5 unat_drop_bit)
  note r = reduce_nat [OF refl b g2 g3 g4 g0]
  have h1': "unat ((h1 AND 0x3ffffff) + drop_bit 26 g0) = unat h1 mod 2 ^ 26 + unat g0 div 2 ^ 26"
    by (subst unat_carry_32) (simp_all add: unat_and_26)
  show "small_limbs (poly_reduce h)"
    unfolding eq small_limbs_def prod.case h1' unat_and_26 using r(1) by simp
  have "limbs_val (poly_reduce h) + poly_prime * (unat g4 div 2 ^ 26) = limbs_val h"
    unfolding eq unfolding h limbs_val_def prod.case h1' unat_and_26 by (rule r(2))
  then show "limbs_val (poly_reduce h) mod poly_prime = limbs_val h mod poly_prime"
    by (metis mod_mult_self2)
qed

section \<open>The conditional subtraction\<close>

lemma minus_p_sum:
  fixes H0 H1 H2 H3 H4 :: nat
  assumes "H0 + 5 = 2 ^ 26 * c0 + m0" "H1 + c0 = 2 ^ 26 * c1 + m1" "H2 + c1 = 2 ^ 26 * c2 + m2"
    "H3 + c2 = 2 ^ 26 * c3 + m3"
  shows "H0 + 2 ^ 26 * H1 + 2 ^ 52 * H2 + 2 ^ 78 * H3 + 2 ^ 104 * H4 + 5
    = m0 + 2 ^ 26 * m1 + 2 ^ 52 * m2 + 2 ^ 78 * m3 + 2 ^ 104 * (H4 + c3)"
  using assms by simp

lemma limbs_val_less: "small_limbs h \<Longrightarrow> limbs_val h < 2 ^ 130"
  by (cases h) (simp add: small_limbs_def limbs_val_def)

lemma poly_minus_p_val:
  assumes "small_limbs (h0, h1, h2, h3, h4)"
  obtains g0 g1 g2 g3 t where
    "poly_minus_p (h0, h1, h2, h3, h4) = (g0, g1, g2, g3, t - 0x4000000)"
    "unat g0 < 2 ^ 26" "unat g1 < 2 ^ 26" "unat g2 < 2 ^ 26" "unat g3 < 2 ^ 26" "unat t \<le> 2 ^ 26"
    "limbs_val (h0, h1, h2, h3, h4) + 5 = limbs_val (g0, g1, g2, g3, t)"
proof -
  have b: "unat h0 < 2 ^ 26" "unat h1 < 2 ^ 26" "unat h2 < 2 ^ 26" "unat h3 < 2 ^ 26" "unat h4 < 2 ^ 26"
    using assms by (simp_all add: small_limbs_def)
  define g0 where "g0 = h0 + 5"
  define g1 where "g1 = h1 + drop_bit 26 g0"
  define g2 where "g2 = h2 + drop_bit 26 g1"
  define g3 where "g3 = h3 + drop_bit 26 g2"
  define t where "t = h4 + drop_bit 26 g3"
  have eq: "poly_minus_p (h0, h1, h2, h3, h4) =
      (g0 AND 0x3ffffff, g1 AND 0x3ffffff, g2 AND 0x3ffffff, g3 AND 0x3ffffff, t - 0x4000000)"
    unfolding poly_minus_p_def Let_def prod.case g0_def g1_def g2_def g3_def t_def by simp
  have g0: "unat g0 = unat h0 + 5" unfolding g0_def using b by (subst unat_add_fits) simp_all
  have g: "unat g1 = unat h1 + unat g0 div 2 ^ 26" "unat g2 = unat h2 + unat g1 div 2 ^ 26"
    "unat g3 = unat h3 + unat g2 div 2 ^ 26" "unat t = unat h4 + unat g3 div 2 ^ 26"
    unfolding g1_def g2_def g3_def t_def using b by (simp_all add: unat_carry_32)
  have one: "x div 2 ^ 26 \<le> 1" if "x < 2 * 2 ^ 26" for x :: nat
    using less_mult_imp_div_less [OF that] by simp
  have c0: "unat g0 div 2 ^ 26 \<le> 1" using g0 b(1) by (intro one) simp
  have c1: "unat g1 div 2 ^ 26 \<le> 1" using g(1) c0 b(2) by (intro one) linarith
  have c2: "unat g2 div 2 ^ 26 \<le> 1" using g(2) c1 b(3) by (intro one) linarith
  have c3: "unat g3 div 2 ^ 26 \<le> 1" using g(3) c2 b(4) by (intro one) linarith
  have t: "unat t \<le> 2 ^ 26" using g(4) c3 b(5) by linarith
  have "limbs_val (h0, h1, h2, h3, h4) + 5 =
      limbs_val (g0 AND 0x3ffffff, g1 AND 0x3ffffff, g2 AND 0x3ffffff, g3 AND 0x3ffffff, t)"
    unfolding limbs_val_def prod.case unat_and_26 g(4)
    by (rule minus_p_sum [where ?c0.0 = "unat g0 div 2 ^ 26" and ?c1.0 = "unat g1 div 2 ^ 26"
          and ?c2.0 = "unat g2 div 2 ^ 26"]) (simp_all only: g0 [symmetric] g(1-3) [symmetric] mult_div_mod_eq)
  then show thesis
    by (intro that [OF eq]) (simp_all only: unat_and_26 t, simp_all)
qed

lemma top_limb_sign:
  assumes "unat t \<le> 2 ^ 26"
  shows "drop_bit 31 (t - 0x4000000 :: ULONG) = (if unat t < 2 ^ 26 then 1 else 0)"
proof (cases "unat t < 2 ^ 26")
  case True
  have "unat (t - 0x4000000) = 2 ^ 32 + unat t - 2 ^ 26"
    using True by (simp add: unat_sub_if')
  then have "unat (drop_bit 31 (t - 0x4000000)) = (2 ^ 32 + unat t - 2 ^ 26) div 2 ^ 31"
    by (simp only: unat_drop_bit)
  also have "\<dots> = 1" using True by (simp add: div_nat_eqI)
  finally show ?thesis using True by (simp add: word_unat_eq_iff)
next
  case False
  then have "t = 0x4000000" using assms by (simp add: word_unat_eq_iff)
  then show ?thesis by simp
qed

lemma poly_select_val:
  assumes "small_limbs h"
  shows "small_limbs (poly_select h (poly_minus_p h))"
    and "limbs_val (poly_select h (poly_minus_p h)) = limbs_val h mod poly_prime"
proof -
  obtain h0 h1 h2 h3 h4 where h: "h = (h0, h1, h2, h3, h4)" by (metis prod_cases5)
  obtain g0 g1 g2 g3 t where
    g: "poly_minus_p h = (g0, g1, g2, g3, t - 0x4000000)"
    and b: "unat g0 < 2 ^ 26" "unat g1 < 2 ^ 26" "unat g2 < 2 ^ 26" "unat g3 < 2 ^ 26" "unat t \<le> 2 ^ 26"
    and v: "limbs_val h + 5 = limbs_val (g0, g1, g2, g3, t)"
    by (rule poly_minus_p_val [OF assms [unfolded h], folded h]) (rule that)
  have "small_limbs (poly_select h (poly_minus_p h)) \<and>
    limbs_val (poly_select h (poly_minus_p h)) = limbs_val h mod poly_prime"
  proof (cases "unat t < 2 ^ 26")
    case True
    then have "poly_select h (poly_minus_p h) = h"
      unfolding g unfolding h poly_select_def prod.case Let_def top_limb_sign [OF b(5)] by simp
    moreover have "limbs_val h < poly_prime"
      using True b v by (simp add: limbs_val_def poly_prime_eq)
    ultimately show ?thesis using assms by simp
  next
    case False
    then have t: "t = 0x4000000" using b(5) by (simp add: word_unat_eq_iff)
    have "poly_select h (poly_minus_p h) = (g0, g1, g2, g3, 0)"
      using False unfolding g unfolding h poly_select_def prod.case Let_def top_limb_sign [OF b(5)]
      by (simp add: t)
    moreover have "limbs_val h = limbs_val (g0, g1, g2, g3, 0) + poly_prime"
      using v by (simp add: t limbs_val_def poly_prime_eq)
    moreover have "limbs_val (g0, g1, g2, g3, 0) < poly_prime"
      using b by (simp add: limbs_val_def poly_prime_eq)
    ultimately show ?thesis using b by (simp add: small_limbs_def)
  qed
  then show "small_limbs (poly_select h (poly_minus_p h))"
    "limbs_val (poly_select h (poly_minus_p h)) = limbs_val h mod poly_prime" by auto
qed

section \<open>The tag\<close>

text \<open>One 32-bit step of the final addition: the carry goes into the next word.\<close>

lemma le_bytes_carry:
  fixes x y a b w k c :: nat
  assumes "x = 2 ^ 32 * a + w" "y = 2 ^ 32 * b + k"
  shows "le_bytes (4 + n) (x + y + c) = le_bytes 4 (w + k + c) @ le_bytes n (a + b + (w + k + c) div 2 ^ 32)"
proof -
  have s: "x + y + c = 2 ^ 32 * (a + b) + (w + k + c)" using assms by (simp add: algebra_simps)
  have p: "(256 :: nat) ^ 4 = 2 ^ 32" by simp
  have "(x + y + c) mod 256 ^ 4 = (w + k + c) mod 256 ^ 4" unfolding s p by (rule mod_mult_self4)
  then have "le_bytes 4 (x + y + c) = le_bytes 4 (w + k + c)" by (metis le_bytes_mod)
  moreover have "(x + y + c) div 256 ^ 4 = a + b + (w + k + c) div 2 ^ 32"
    unfolding s p by (rule div_mult_self4) simp
  ultimately show ?thesis by (simp only: le_bytes_append)
qed

lemma unat_and_32: "unat (w AND 0xffffffff :: ULONGLONG) = unat w mod 2 ^ 32"
proof -
  have "w AND 0xffffffff = take_bit 32 w" by (simp add: take_bit_eq_mask mask_eq_exp_minus_1)
  then show ?thesis by (simp only: unsigned_take_bit_eq) (rule take_bit_eq_mod)
qed

lemma tag_word:
  fixes l h c :: ULONGLONG and k :: ULONG
  assumes l: "unat l < 2 ^ s" and s: "s \<le> 26" and h: "unat h < 2 ^ 26" and c: "unat c < 4"
  shows "unat (((l OR push_bit s h) AND 0xffffffff) + ucast k + c)
    = (unat l + 2 ^ s * unat h) mod 2 ^ 32 + unat k + unat c"
proof -
  have p: "(2 :: nat) ^ s \<le> 2 ^ 26" using s by (intro power_increasing) auto
  have "unat h * 2 ^ s \<le> 2 ^ 26 * 2 ^ 26" using h p by (intro mult_le_mono) auto
  then have "unat h * 2 ^ s + unat l < 2 ^ LENGTH(64)" using l p by simp
  then have "unat (l OR push_bit s h) = unat l + 2 ^ s * unat h"
    using unat_push_bit_or [OF l, of h] by (simp only: or.commute add.commute mult.commute)
  then have v: "unat ((l OR push_bit s h) AND 0xffffffff) = (unat l + 2 ^ s * unat h) mod 2 ^ 32"
    by (simp only: unat_and_32)
  have m: "(unat l + 2 ^ s * unat h) mod 2 ^ 32 < 2 ^ 32" by simp
  have k: "unat k < 2 ^ 32" using unat_lt2p [of k] by simp
  have e: "unat (((l OR push_bit s h) AND 0xffffffff) + ucast k)
      = (unat l + 2 ^ s * unat h) mod 2 ^ 32 + unat k"
    using m k v by (subst unat_add_fits) simp_all
  then show ?thesis using m k c by (subst unat_add_fits) simp_all
qed

lemma WriteLittleEndian32_low: "WriteLittleEndian32 (ucast (f :: ULONGLONG)) = le_bytes 4 (unat f)"
  unfolding WriteLittleEndian32_le unat_ucast_down32 using le_bytes_mod [of 4 "unat f"] by simp

lemma tag_carry:
  fixes f :: ULONGLONG
  assumes "unat f = m mod 2 ^ 32 + unat (k :: ULONG) + c" "c < 4"
  shows "unat (drop_bit 32 f) = (m mod 2 ^ 32 + unat k + c) div 2 ^ 32" and "unat (drop_bit 32 f) < 4"
proof -
  show e: "unat (drop_bit 32 f) = (m mod 2 ^ 32 + unat k + c) div 2 ^ 32"
    unfolding unat_drop_bit assms(1) by (rule refl)
  have "m mod 2 ^ 32 < (2 ^ 32 :: nat)" by simp
  moreover have "unat k < 2 ^ 32" using unat_lt2p [of k] by simp
  ultimately have "m mod 2 ^ 32 + unat k + c < 4 * 2 ^ 32" using assms(2) by simp
  then show "unat (drop_bit 32 f) < 4" unfolding e by (rule less_mult_imp_div_less)
qed

lemma spill:
  fixes l h :: nat
  assumes "l < 2 ^ s" "s + t = 32"
  shows "(l + 2 ^ s * h) div 2 ^ 32 = h div 2 ^ t"
proof -
  have "(l + 2 ^ s * h) div 2 ^ s = h" using assms(1) by simp
  then show ?thesis unfolding assms(2) [symmetric] power_add div_mult2_eq by simp
qed

lemma word_split: "(m :: nat) + 2 ^ 32 * z = 2 ^ 32 * (m div 2 ^ 32 + z) + m mod 2 ^ 32"
  using mult_div_mod_eq [of "2 ^ 32" m] by (simp add: algebra_simps)

lemma le_bytes_last: "le_bytes 4 (m mod 2 ^ 32 + x) = le_bytes 4 (m + x)"
proof -
  have "(m mod 2 ^ 32 + x) mod 256 ^ 4 = (m + x) mod 256 ^ 4" by (simp add: mod_add_left_eq)
  then show ?thesis by (metis le_bytes_mod)
qed

lemma tag_nat:
  fixes H0 H1 H2 H3 H4 :: nat
  assumes b: "H0 < 2 ^ 26" "H1 div 2 ^ 6 < 2 ^ 20" "H2 div 2 ^ 12 < 2 ^ 14"
    and m: "m0 = H0 + 2 ^ 26 * H1" "m1 = H1 div 2 ^ 6 + 2 ^ 20 * H2" "m2 = H2 div 2 ^ 12 + 2 ^ 14 * H3"
      "m3 = H3 div 2 ^ 18 + 2 ^ 8 * H4"
    and f: "f0 = m0 mod 2 ^ 32 + K0 + 0" "f1 = m1 mod 2 ^ 32 + K1 + f0 div 2 ^ 32"
      "f2 = m2 mod 2 ^ 32 + K2 + f1 div 2 ^ 32" "f3 = m3 mod 2 ^ 32 + K3 + f2 div 2 ^ 32"
  shows "le_bytes 16 (H0 + 2 ^ 26 * H1 + 2 ^ 52 * H2 + 2 ^ 78 * H3 + 2 ^ 104 * H4
      + (K0 + 2 ^ 32 * (K1 + 2 ^ 32 * (K2 + 2 ^ 32 * K3))))
    = le_bytes 4 f0 @ le_bytes 4 f1 @ le_bytes 4 f2 @ le_bytes 4 f3"
proof -
  let ?A1 = "m1 + 2 ^ 32 * (2 ^ 14 * (H3 + 2 ^ 26 * H4))"
  let ?A2 = "m2 + 2 ^ 32 * (2 ^ 8 * H4)"
  have s: "m0 div 2 ^ 32 = H1 div 2 ^ 6" "m1 div 2 ^ 32 = H2 div 2 ^ 12" "m2 div 2 ^ 32 = H3 div 2 ^ 18"
    unfolding m using spill [OF b(1), of 6] spill [OF b(2), of 12] spill [OF b(3), of 18] by simp_all
  have "H0 + 2 ^ 26 * H1 + 2 ^ 52 * H2 + 2 ^ 78 * H3 + 2 ^ 104 * H4
      = m0 + 2 ^ 32 * (2 ^ 20 * (H2 + 2 ^ 26 * (H3 + 2 ^ 26 * H4)))" unfolding m by simp
  then have v0: "H0 + 2 ^ 26 * H1 + 2 ^ 52 * H2 + 2 ^ 78 * H3 + 2 ^ 104 * H4 = 2 ^ 32 * ?A1 + m0 mod 2 ^ 32"
    unfolding word_split [of m0] s unfolding m(2) by (simp add: algebra_simps)
  have v1: "?A1 = 2 ^ 32 * ?A2 + m1 mod 2 ^ 32"
    unfolding word_split [of m1] s unfolding m(3) by (simp add: algebra_simps)
  have v2: "?A2 = 2 ^ 32 * m3 + m2 mod 2 ^ 32"
    unfolding word_split [of m2] s unfolding m(4) by (simp add: algebra_simps)
  have k: "x + 2 ^ 32 * y = 2 ^ 32 * y + x" for x y :: nat by simp
  have "le_bytes 16 (H0 + 2 ^ 26 * H1 + 2 ^ 52 * H2 + 2 ^ 78 * H3 + 2 ^ 104 * H4
      + (K0 + 2 ^ 32 * (K1 + 2 ^ 32 * (K2 + 2 ^ 32 * K3))))
    = le_bytes 4 f0 @ le_bytes 12 (?A1 + (K1 + 2 ^ 32 * (K2 + 2 ^ 32 * K3)) + f0 div 2 ^ 32)"
    using le_bytes_carry [OF v0 k [of K0 "K1 + 2 ^ 32 * (K2 + 2 ^ 32 * K3)"], of 12 0] f(1) by simp
  also have "\<dots> = le_bytes 4 f0 @ le_bytes 4 f1 @ le_bytes 8 (?A2 + (K2 + 2 ^ 32 * K3) + f1 div 2 ^ 32)"
    using le_bytes_carry [OF v1 k [of K1 "K2 + 2 ^ 32 * K3"], of 8 "f0 div 2 ^ 32"] f(2) by simp
  also have "\<dots> = le_bytes 4 f0 @ le_bytes 4 f1 @ le_bytes 4 f2 @ le_bytes 4 (m3 + K3 + f2 div 2 ^ 32)"
    using le_bytes_carry [OF v2 k [of K2 K3], of 4 "f1 div 2 ^ 32"] f(3) by simp
  also have "le_bytes 4 (m3 + K3 + f2 div 2 ^ 32) = le_bytes 4 f3"
    using le_bytes_last [of m3 "K3 + f2 div 2 ^ 32"] f(4) by (simp add: add.assoc)
  finally show ?thesis .
qed

lemma poly_tag_val:
  assumes "small_limbs h"
  shows "poly_tag h k0 k1 k2 k3 =
    le_bytes 16 (limbs_val h + (unat k0 + 2 ^ 32 * (unat k1 + 2 ^ 32 * (unat k2 + 2 ^ 32 * unat k3))))"
proof -
  obtain h0 h1 h2 h3 h4 where h: "h = (h0, h1, h2, h3, h4)" by (metis prod_cases5)
  let ?u = "\<lambda>w :: ULONG. ucast w :: ULONGLONG"
  have b: "unat h0 < 2 ^ 26" "unat h1 < 2 ^ 26" "unat h2 < 2 ^ 26" "unat h3 < 2 ^ 26" "unat h4 < 2 ^ 26"
    using assms by (simp_all add: h small_limbs_def)
  define f0 where "f0 = ((?u h0 OR push_bit 26 (?u h1)) AND 0xffffffff) + ?u k0"
  define f1 where "f1 = ((drop_bit 6 (?u h1) OR push_bit 20 (?u h2)) AND 0xffffffff) + ?u k1 + drop_bit 32 f0"
  define f2 where "f2 = ((drop_bit 12 (?u h2) OR push_bit 14 (?u h3)) AND 0xffffffff) + ?u k2 + drop_bit 32 f1"
  define f3 where "f3 = ((drop_bit 18 (?u h3) OR push_bit 8 (?u h4)) AND 0xffffffff) + ?u k3 + drop_bit 32 f2"
  have eq: "poly_tag h k0 k1 k2 k3 = le_bytes 4 (unat f0) @ le_bytes 4 (unat f1) @ le_bytes 4 (unat f2)
      @ le_bytes 4 (unat f3)"
    unfolding h poly_tag_def Let_def prod.case WriteLittleEndian32_low f0_def f1_def f2_def f3_def
    by (rule refl)
  have hi: "unat (drop_bit 6 (?u h1)) = unat h1 div 2 ^ 6" "unat (drop_bit 12 (?u h2)) = unat h2 div 2 ^ 12"
    "unat (drop_bit 18 (?u h3)) = unat h3 div 2 ^ 18"
    by (simp_all add: unat_drop_bit del: unat_drop_bit_eq)
  have hb: "unat h1 div 2 ^ 6 < 2 ^ 20" "unat h2 div 2 ^ 12 < 2 ^ 14" "unat h3 div 2 ^ 18 < 2 ^ 8"
    using b by (auto intro!: less_mult_imp_div_less)
  define m0 m1 m2 m3 where m: "m0 = unat h0 + 2 ^ 26 * unat h1"
    "m1 = unat h1 div 2 ^ 6 + 2 ^ 20 * unat h2" "m2 = unat h2 div 2 ^ 12 + 2 ^ 14 * unat h3"
    "m3 = unat h3 div 2 ^ 18 + 2 ^ 8 * unat h4"
  have f0: "unat f0 = m0 mod 2 ^ 32 + unat k0 + 0"
    using tag_word [of "?u h0" 26 "?u h1" 0 k0] b by (simp add: f0_def m)
  note c0 = tag_carry [OF f0, simplified]
  have f1: "unat f1 = m1 mod 2 ^ 32 + unat k1 + unat (drop_bit 32 f0)"
    using tag_word [of "drop_bit 6 (?u h1)" 20 "?u h2" "drop_bit 32 f0" k1] b hb hi c0(2)
    unfolding f1_def m by simp
  note c1 = tag_carry [OF f1 c0(2)]
  have f2: "unat f2 = m2 mod 2 ^ 32 + unat k2 + unat (drop_bit 32 f1)"
    using tag_word [of "drop_bit 12 (?u h2)" 14 "?u h3" "drop_bit 32 f1" k2] b hb hi c1(2)
    unfolding f2_def m by simp
  note c2 = tag_carry [OF f2 c1(2)]
  have f3: "unat f3 = m3 mod 2 ^ 32 + unat k3 + unat (drop_bit 32 f2)"
    using tag_word [of "drop_bit 18 (?u h3)" 8 "?u h4" "drop_bit 32 f2" k3] b hb hi c2(2)
    unfolding f3_def m by simp
  show ?thesis
    unfolding eq unfolding h limbs_val_def prod.case
    by (rule tag_nat [OF b(1) hb(1,2) m f0 f1 [unfolded unat_drop_bit] f2 [unfolded unat_drop_bit]
          f3 [unfolded unat_drop_bit], symmetric])
qed

section \<open>Correctness\<close>

lemma le_val_16:
  assumes "length key = 32"
  shows "\<exists>k0 k1 k2 k3. ReadLittleEndian32 (drop 16 key) = Ok k0 \<and> ReadLittleEndian32 (drop 20 key) = Ok k1
    \<and> ReadLittleEndian32 (drop 24 key) = Ok k2 \<and> ReadLittleEndian32 (drop 28 key) = Ok k3
    \<and> le_val (take 16 (drop 16 key)) = unat k0 + 2 ^ 32 * (unat k1 + 2 ^ 32 * (unat k2 + 2 ^ 32 * unat k3))"
proof -
  obtain k0 where k0: "ReadLittleEndian32 (drop 16 key) = Ok k0" "unat k0 = le_val (take 4 (drop 16 key))"
    using unat_ReadLittleEndian32 [of "drop 16 key"] assms by auto
  obtain k1 where k1: "ReadLittleEndian32 (drop 20 key) = Ok k1" "unat k1 = le_val (take 4 (drop 20 key))"
    using unat_ReadLittleEndian32 [of "drop 20 key"] assms by auto
  obtain k2 where k2: "ReadLittleEndian32 (drop 24 key) = Ok k2" "unat k2 = le_val (take 4 (drop 24 key))"
    using unat_ReadLittleEndian32 [of "drop 24 key"] assms by auto
  obtain k3 where k3: "ReadLittleEndian32 (drop 28 key) = Ok k3" "unat k3 = le_val (take 4 (drop 28 key))"
    using unat_ReadLittleEndian32 [of "drop 28 key"] assms by auto
  have split: "take (4 + n) (drop j key) = take 4 (drop j key) @ take n (drop (j + 4) key)" for n j
    using take_add [of 4 n "drop j key"] by (simp add: add.commute)
  have "take 16 (drop 16 key) = take 4 (drop 16 key) @ take 4 (drop 20 key) @ take 4 (drop 24 key)
      @ take 4 (drop 28 key)"
    using split [of 12 16] split [of 8 20] split [of 4 24] by simp
  then have "le_val (take 16 (drop 16 key))
      = unat k0 + 2 ^ 32 * (unat k1 + 2 ^ 32 * (unat k2 + 2 ^ 32 * unat k3))"
    using assms by (simp only: le_val_append k0(2) k1(2) k2(2) k3(2)) simp
  then show ?thesis using k0(1) k1(1) k2(1) k3(1) by blast
qed

lemma Poly1305_mac:
  assumes "length key = 32"
  shows "Poly1305 key m = Ok (poly1305_mac key m)"
proof -
  obtain r where r: "poly_r key = Ok r" "small_limbs r" "limbs_val r = poly_clamp (le_val (take 16 key))"
    using poly_r_val [OF assms] by blast
  have "nearly_reduced (0, 0, 0, 0, 0)" by (simp add: nearly_reduced_def)
  from poly_loop_val [OF this r(2), of m] obtain h where
    h: "poly_loop (0, 0, 0, 0, 0) r m = Ok h" "nearly_reduced h"
      "limbs_val h mod poly_prime = poly_eval (limbs_val r) 0 m mod poly_prime"
    by (auto simp: limbs_val_def)
  obtain k0 k1 k2 k3 where k: "ReadLittleEndian32 (drop 16 key) = Ok k0"
    "ReadLittleEndian32 (drop 20 key) = Ok k1" "ReadLittleEndian32 (drop 24 key) = Ok k2"
    "ReadLittleEndian32 (drop 28 key) = Ok k3"
    and kv: "le_val (take 16 (drop 16 key)) = unat k0 + 2 ^ 32 * (unat k1 + 2 ^ 32 * (unat k2 + 2 ^ 32 * unat k3))"
    using le_val_16 [OF assms] by blast
  note red = poly_reduce_val [OF h(2)]
  note sel = poly_select_val [OF red(1)]
  have "poly_eval (limbs_val r) 0 m < poly_prime" by (rule poly_eval_less) (simp add: poly_prime_eq)
  then have "limbs_val (poly_select (poly_reduce h) (poly_minus_p (poly_reduce h)))
      = poly_eval (limbs_val r) 0 m"
    using sel(2) red(2) h(3) by simp
  then show ?thesis
    using poly_tag_val [OF sel(1), of k0 k1 k2 k3]
    by (simp add: Poly1305_def r(1) h(1) k Let_def poly1305_mac_def kv r(3))
qed

end
