(* ===== verification/Kh_ChaCha20Poly1305.thy ===== *)
theory Kh_ChaCha20Poly1305
  imports Kh_ChaCha20 Kh_Poly1305
begin

text \<open>
  ChaCha20-Poly1305 of \<open>crypto/Aead.cpp\<close>: \<open>ValidateChaCha20Poly1305\<close>,
  \<open>BuildChaCha20Poly1305MacInput\<close>, \<open>ChaCha20Poly1305Encrypt\<close> and \<open>ChaCha20Poly1305Decrypt\<close>. The
  reference is the construction of RFC 8439, section 2.8, over the references of the two
  primitives; it satisfies the contract of an authenticated cipher, and the code computes it.
\<close>

section \<open>The code\<close>

definition BuildChaCha20Poly1305MacInput ::
  "bool \<Rightarrow> AeadParameters \<Rightarrow> UCHAR span \<Rightarrow> bytes res" where
  "BuildChaCha20Poly1305MacInput granted parameters ciphertext =
     (if \<not> IsValidBuffer (par_Aad parameters) \<or> \<not> IsValidBuffer ciphertext
      then Err STATUS_INVALID_PARAMETER
      else
        let aadLength = span_len (par_Aad parameters);
            ciphertextLength = span_len ciphertext;
            aadPadding = (16 - aadLength mod 16) mod 16;
            ciphertextPadding = (16 - ciphertextLength mod 16) mod 16;
            required = aadLength + aadPadding + ciphertextLength + ciphertextPadding + 16
        in rbind (HeapArray_Allocate granted required) (\<lambda>macInput.
             let macInput = overlay macInput 0 (span_list (par_Aad parameters));
                 offset = aadLength + aadPadding;
                 macInput = overlay macInput offset (span_list ciphertext);
                 offset = offset + ciphertextLength + ciphertextPadding;
                 macInput = overlay macInput offset (WriteLittleEndian64 (word_of_nat aadLength));
                 offset = offset + 8;
                 macInput = overlay macInput offset (WriteLittleEndian64 (word_of_nat ciphertextLength));
                 offset = offset + 8
             in Ok (take offset macInput)))"

definition ValidateChaCha20Poly1305 :: "AeadKey \<Rightarrow> AeadParameters \<Rightarrow> bool" where
  "ValidateChaCha20Poly1305 key parameters \<longleftrightarrow>
     \<not> (span_null (key_Key key) \<or> span_len (key_Key key) \<noteq> 32 \<or>
        span_null (par_Nonce parameters) \<or> span_len (par_Nonce parameters) \<noteq> 12 \<or>
        \<not> IsValidBuffer (par_Aad parameters))"

text \<open>
  The result is the contents of the ciphertext and tag buffers afterwards, and the status with the
  number of bytes written.
\<close>

definition ChaCha20Poly1305Encrypt ::
  "aead_heap \<Rightarrow> AeadKey \<Rightarrow> AeadParameters \<Rightarrow> UCHAR span \<Rightarrow> UCHAR span \<Rightarrow> UCHAR span
   \<Rightarrow> (bytes \<times> bytes) \<times> nat res" where
  "ChaCha20Poly1305Encrypt heap key parameters plaintext ciphertext tag =
     (let bufs = (span_list ciphertext, span_list tag);
          k = span_list (key_Key key); nonce = span_list (par_Nonce parameters)
      in if \<not> ValidateChaCha20Poly1305 key parameters then (bufs, Err STATUS_INVALID_PARAMETER)
         else if \<not> IsValidBuffer plaintext \<or> span_null ciphertext \<or>
                 span_len ciphertext < span_len plaintext \<or> span_null tag \<or> span_len tag \<noteq> 16
         then (bufs, Err STATUS_INVALID_PARAMETER)
         else if \<not> scratchGranted heap then (bufs, Err STATUS_INSUFFICIENT_RESOURCES)
         else after bufs (ChaCha20Block k 0 nonce) (\<lambda>block.
              let polyKey = take 32 block
              in after bufs (ChaCha20Xor k 1 nonce plaintext ciphertext) (\<lambda>ct.
                 let bufs = (ct, span_list tag)
                 in after bufs (BuildChaCha20Poly1305MacInput (macInputGranted heap) parameters
                                  (Span (take (span_len plaintext) ct))) (\<lambda>macInput.
                    after bufs (Poly1305 polyKey macInput) (\<lambda>t.
                      ((ct, overlay (span_list tag) 0 t), Ok (span_len plaintext)))))))"

definition ChaCha20Poly1305Decrypt ::
  "aead_heap \<Rightarrow> AeadKey \<Rightarrow> AeadParameters \<Rightarrow> UCHAR span \<Rightarrow> UCHAR span \<Rightarrow> bytes \<times> nat res" where
  "ChaCha20Poly1305Decrypt heap key parameters ciphertext plaintext =
     (let pt = span_list plaintext;
          k = span_list (key_Key key); nonce = span_list (par_Nonce parameters)
      in if \<not> ValidateChaCha20Poly1305 key parameters then (pt, Err STATUS_INVALID_PARAMETER)
         else if \<not> IsValidBuffer ciphertext \<or> span_null plaintext \<or>
                 span_len plaintext < span_len ciphertext \<or>
                 span_null (par_Tag parameters) \<or> span_len (par_Tag parameters) \<noteq> 16
         then (pt, Err STATUS_INVALID_PARAMETER)
         else if \<not> scratchGranted heap then (pt, Err STATUS_INSUFFICIENT_RESOURCES)
         else after pt (ChaCha20Block k 0 nonce) (\<lambda>block.
              let polyKey = take 32 block
              in after pt (BuildChaCha20Poly1305MacInput (macInputGranted heap) parameters ciphertext) (\<lambda>macInput.
                 after pt (Poly1305 polyKey macInput) (\<lambda>expectedTag.
                 after pt (MemoryEquals expectedTag (span_list (par_Tag parameters)) 16) (\<lambda>equal.
                   if \<not> equal then (pt, Err STATUS_INVALID_SIGNATURE)
                   else after pt (ChaCha20Xor k 1 nonce ciphertext plaintext) (\<lambda>pt'.
                          (pt', Ok (span_len ciphertext))))))))"

section \<open>The reference\<close>

definition aead_mac_data :: "bytes \<Rightarrow> bytes \<Rightarrow> bytes" where
  "aead_mac_data aad ct = pad16 aad @ pad16 ct @ le_bytes 8 (length aad) @ le_bytes 8 (length ct)"

definition chacha20_poly1305_tag :: "bytes \<Rightarrow> bytes \<Rightarrow> bytes \<Rightarrow> bytes \<Rightarrow> bytes" where
  "chacha20_poly1305_tag key nonce aad ct =
     poly1305_mac (take 32 (chacha20 key 0 nonce)) (aead_mac_data aad ct)"

definition chacha20_poly1305_seal :: "bytes \<Rightarrow> bytes \<Rightarrow> bytes \<Rightarrow> bytes \<Rightarrow> bytes \<times> bytes" where
  "chacha20_poly1305_seal key nonce aad pt =
     (let ct = chacha20_crypt key 1 nonce pt in (ct, chacha20_poly1305_tag key nonce aad ct))"

definition chacha20_poly1305_unseal :: "bytes \<Rightarrow> bytes \<Rightarrow> bytes \<Rightarrow> bytes \<Rightarrow> bytes \<Rightarrow> bytes option" where
  "chacha20_poly1305_unseal key nonce aad ct tag =
     (if tag = chacha20_poly1305_tag key nonce aad ct then Some (chacha20_crypt key 1 nonce ct) else None)"

lemma length_chacha20_poly1305_tag [simp]: "length (chacha20_poly1305_tag key nonce aad ct) = 16"
  by (simp add: chacha20_poly1305_tag_def poly1305_mac_def)

interpretation chacha: aead_scheme 16 "\<lambda>k. length k = 32" chacha20_poly1305_seal chacha20_poly1305_unseal
proof
  fix k n a p c t
  show "chacha20_poly1305_seal k n a p = (c, t) \<Longrightarrow> length c = length p \<and> length t = 16"
    by (auto simp: chacha20_poly1305_seal_def Let_def)
  show "chacha20_poly1305_unseal k n a c t = Some p \<longleftrightarrow> chacha20_poly1305_seal k n a p = (c, t)"
    by (auto simp: chacha20_poly1305_unseal_def chacha20_poly1305_seal_def Let_def
        chacha20_crypt_involution)
qed

section \<open>The code computes the reference\<close>

lemma BuildMacInput_data:
  assumes "IsValidBuffer (par_Aad par)" "IsValidBuffer ct" "granted"
    and size: "span_len (par_Aad par) + span_len ct + 46 \<le> MaxSizeT"
  shows "BuildChaCha20Poly1305MacInput granted par ct
    = Ok (aead_mac_data (span_list (par_Aad par)) (span_list ct))"
proof -
  have len: "span_len s = length (span_list s)" if "IsValidBuffer s" for s
    using that by (cases s) (auto simp: IsValidBuffer_def)
  let ?a = "span_list (par_Aad par)" and ?c = "span_list ct"
  let ?ap = "(16 - length ?a mod 16) mod 16" and ?cp = "(16 - length ?c mod 16) mod 16"
  have la: "span_len (par_Aad par) = length ?a" and lc: "span_len ct = length ?c"
    using len assms(1,2) by auto
  have p: "?ap < 16" "?cp < 16" by auto
  let ?n = "length ?a + ?ap + length ?c + ?cp + 16"
  have alloc: "HeapArray_Allocate granted ?n = Ok (replicate ?n 0)"
    using assms(3) size p unfolding HeapArray_Allocate_def la lc by auto
  have s1: "overlay (replicate ?n 0) 0 ?a = pad16 ?a @ replicate (length ?c + ?cp + 16) 0"
    using overlay_zeroed [of ?a ?ap ?n] by (simp add: pad16_def)
  have s2: "overlay (pad16 ?a @ replicate (length ?c + ?cp + 16) 0) (length ?a + ?ap) ?c
      = (pad16 ?a @ pad16 ?c) @ replicate 16 0"
    using overlay_zeroed [of ?c ?cp "length ?c + ?cp + 16"]
    by (subst overlay_append) (simp_all add: pad16_def [of ?c])
  have s3: "overlay ((pad16 ?a @ pad16 ?c) @ replicate 16 0) (length ?a + ?ap + length ?c + ?cp) x
      = (pad16 ?a @ pad16 ?c @ x) @ replicate 8 0" if "length x = 8" for x
    using that overlay_zeroed [of x 8 16] by (subst overlay_append) simp_all
  have s4: "overlay ((pad16 ?a @ pad16 ?c @ x) @ replicate 8 0) (length ?a + ?ap + length ?c + ?cp + 8) y
      = pad16 ?a @ pad16 ?c @ x @ y" if "length x = 8" "length y = 8" for x y
    using that overlay_zeroed [of y 0 8] by (subst overlay_append) simp_all
  have w: "WriteLittleEndian64 (word_of_nat m) = le_bytes 8 m" for m
    unfolding WriteLittleEndian64_le using le_bytes_mod [of 8 m]
    by (simp add: unsigned_of_nat take_bit_eq_mod)
  show ?thesis
    unfolding BuildChaCha20Poly1305MacInput_def la lc Let_def alloc rbind.simps s1 s2 w
    using assms(1,2) by (simp add: s3 s4 aead_mac_data_def del: append_assoc)
qed

lemma ChaCha20Xor_crypt:
  assumes "length key = 32" "length nonce = 12" "IsValidBuffer input" "\<not> span_null out"
    "span_len input \<le> span_len out"
  shows "ChaCha20Xor key counter nonce input out
    = Ok (overlay (span_list out) 0 (chacha20_crypt key counter nonce (span_list input)))"
proof -
  have "length (span_list input) = span_len input" "length (span_list out) = span_len out"
    using assms(3,4) by (cases input; cases out; auto simp: IsValidBuffer_def)+
  then show ?thesis
    using assms by (simp add: ChaCha20Xor_def chacha_loop_crypt)
qed

text \<open>The arguments the ciphers accept, and what a call with enough memory computes.\<close>

lemma ValidateChaCha20Poly1305D:
  assumes "ValidateChaCha20Poly1305 key par"
  shows "length (span_list (key_Key key)) = 32" "length (span_list (par_Nonce par)) = 12"
    "IsValidBuffer (par_Aad par)"
  using assms by (cases "key_Key key"; cases "par_Nonce par"; auto simp: ValidateChaCha20Poly1305_def)+

lemma ChaCha20Poly1305Encrypt_seal:
  assumes v: "ValidateChaCha20Poly1305 key par"
    and heap: "scratchGranted heap" "macInputGranted heap"
    and room: "length p \<le> length ct" "length tg = 16"
    and size: "span_len (par_Aad par) + length p + 46 \<le> MaxSizeT"
    and seal: "chacha20_poly1305_seal (span_list (key_Key key)) (span_list (par_Nonce par))
      (span_list (par_Aad par)) p = (c, t)"
  shows "ChaCha20Poly1305Encrypt heap key par (Span p) (Span ct) (Span tg)
    = ((overlay ct 0 c, t), Ok (length p))"
proof -
  note d = ValidateChaCha20Poly1305D [OF v]
  have c: "c = chacha20_crypt (span_list (key_Key key)) 1 (span_list (par_Nonce par)) p"
    and t: "t = chacha20_poly1305_tag (span_list (key_Key key)) (span_list (par_Nonce par))
      (span_list (par_Aad par)) c"
    using seal by (auto simp: chacha20_poly1305_seal_def Let_def)
  have "take (length p) (overlay ct 0 c) = c" using room by (simp add: overlay_def c)
  moreover have "overlay tg 0 t = t" using room by (simp add: overlay_def t)
  ultimately show ?thesis using d v heap room size
    by (simp add: ChaCha20Poly1305Encrypt_def Let_def ChaCha20Block_chacha20 ChaCha20Xor_crypt
        BuildMacInput_data Poly1305_mac IsValidBuffer_def c [symmetric])
       (simp add: t c chacha20_poly1305_tag_def)
qed

lemma ChaCha20Poly1305Decrypt_unseal:
  assumes v: "ValidateChaCha20Poly1305 key par"
    and heap: "scratchGranted heap" "macInputGranted heap"
    and room: "length c \<le> length pt" "par_Tag par = Span t" "length t = 16"
    and size: "span_len (par_Aad par) + length c + 46 \<le> MaxSizeT"
  shows "ChaCha20Poly1305Decrypt heap key par (Span c) (Span pt) =
    (case chacha20_poly1305_unseal (span_list (key_Key key)) (span_list (par_Nonce par))
        (span_list (par_Aad par)) c t of
       None \<Rightarrow> (pt, Err STATUS_INVALID_SIGNATURE)
     | Some p \<Rightarrow> (overlay pt 0 p, Ok (length c)))"
proof -
  note d = ValidateChaCha20Poly1305D [OF v]
  let ?tag = "chacha20_poly1305_tag (span_list (key_Key key)) (span_list (par_Nonce par))
      (span_list (par_Aad par)) c"
  have "MemoryEquals ?tag t 16 = Ok (?tag = t)" using room by (simp add: MemoryEquals_iff)
  then show ?thesis using d v heap room size
    by (auto simp: ChaCha20Poly1305Decrypt_def Let_def ChaCha20Block_chacha20 ChaCha20Xor_crypt
        BuildMacInput_data Poly1305_mac IsValidBuffer_def chacha20_poly1305_unseal_def
        chacha20_poly1305_tag_def)
qed

text \<open>
  C28: \<open>ChaCha20Poly1305Encrypt\<close> computes the authenticated encryption of RFC 8439: for every key,
  nonce, additional data and plaintext it accepts, the ciphertext buffer receives the plaintext added
  to the ChaCha20 key stream from block one on and the tag buffer the Poly1305 authenticator, modulo
  the prime 2^130 - 5, of the padded additional data and ciphertext with their lengths, under the key
  of block zero. The vector rounds, the limb arithmetic and the carries of the code are exact.
\<close>

theorem ChaCha20Poly1305Encrypt_rfc8439:
  assumes "ValidateChaCha20Poly1305 key par" "scratchGranted heap" "macInputGranted heap"
    "length p \<le> length ct" "length tg = 16" "span_len (par_Aad par) + length p + 46 \<le> MaxSizeT"
  shows "ChaCha20Poly1305Encrypt heap key par (Span p) (Span ct) (Span tg) =
    (let c = chacha20_crypt (span_list (key_Key key)) 1 (span_list (par_Nonce par)) p
     in ((overlay ct 0 c, chacha20_poly1305_tag (span_list (key_Key key)) (span_list (par_Nonce par))
            (span_list (par_Aad par)) c), Ok (length p)))"
  by (simp add: Let_def ChaCha20Poly1305Encrypt_seal [OF assms(1,2,3,4,5,6)] chacha20_poly1305_seal_def)

theorem ChaCha20Poly1305Encrypt_rfc8439_witness:
  "ChaCha20Poly1305Encrypt \<lparr>scratchGranted = True, macInputGranted = True, contextGranted = True\<rparr>
     \<lparr>key_Algorithm = ChaCha20Poly1305, key_Key = Span (replicate 32 1)\<rparr>
     \<lparr>par_Nonce = Span (replicate 12 2), par_Aad = Span [3], par_Tag = NullSpan 0\<rparr>
     (Span [5, 6]) (Span [0, 0]) (Span (replicate 16 0))
   = ((chacha20_crypt (replicate 32 1) 1 (replicate 12 2) [5, 6],
       chacha20_poly1305_tag (replicate 32 1) (replicate 12 2) [3] (chacha20_crypt (replicate 32 1) 1 (replicate 12 2) [5, 6])),
      Ok 2)"
proof -
  have "length (chacha20_crypt (replicate 32 1) 1 (replicate 12 2) [5, 6]) = 2" by simp
  then have "overlay [0, 0] 0 (chacha20_crypt (replicate 32 1) 1 (replicate 12 2) [5, 6])
      = chacha20_crypt (replicate 32 1) 1 (replicate 12 2) [5, 6]" by (simp add: overlay_def)
  then show ?thesis
    by (subst ChaCha20Poly1305Encrypt_rfc8439)
       (simp_all add: Let_def ValidateChaCha20Poly1305_def IsValidBuffer_def MaxSizeT_def)
qed

end
