(* ===== verification/Kh_Aes128.thy ===== *)
theory Kh_Aes128
  imports Kh_AeadPrimitives
begin

text \<open>
  The AES-128 block cipher of \<open>crypto/Aead.cpp\<close> (used by AES-CCM): the S-box, the round
  functions, the key expansion \<open>Aes128Initialize\<close> and \<open>Aes128EncryptBlock\<close>. The reference is FIPS
  197: the S-box as inversion in the field of 256 elements followed by the affine map, the rows
  and columns of the state matrix, MixColumns as a matrix product over that field, and the key
  expansion as a recurrence on words.
\<close>

section \<open>The code\<close>

definition AesSBox :: bytes where
  "AesSBox =
     [0x63, 0x7c, 0x77, 0x7b, 0xf2, 0x6b, 0x6f, 0xc5, 0x30, 0x01, 0x67, 0x2b, 0xfe, 0xd7, 0xab, 0x76,
      0xca, 0x82, 0xc9, 0x7d, 0xfa, 0x59, 0x47, 0xf0, 0xad, 0xd4, 0xa2, 0xaf, 0x9c, 0xa4, 0x72, 0xc0,
      0xb7, 0xfd, 0x93, 0x26, 0x36, 0x3f, 0xf7, 0xcc, 0x34, 0xa5, 0xe5, 0xf1, 0x71, 0xd8, 0x31, 0x15,
      0x04, 0xc7, 0x23, 0xc3, 0x18, 0x96, 0x05, 0x9a, 0x07, 0x12, 0x80, 0xe2, 0xeb, 0x27, 0xb2, 0x75,
      0x09, 0x83, 0x2c, 0x1a, 0x1b, 0x6e, 0x5a, 0xa0, 0x52, 0x3b, 0xd6, 0xb3, 0x29, 0xe3, 0x2f, 0x84,
      0x53, 0xd1, 0x00, 0xed, 0x20, 0xfc, 0xb1, 0x5b, 0x6a, 0xcb, 0xbe, 0x39, 0x4a, 0x4c, 0x58, 0xcf,
      0xd0, 0xef, 0xaa, 0xfb, 0x43, 0x4d, 0x33, 0x85, 0x45, 0xf9, 0x02, 0x7f, 0x50, 0x3c, 0x9f, 0xa8,
      0x51, 0xa3, 0x40, 0x8f, 0x92, 0x9d, 0x38, 0xf5, 0xbc, 0xb6, 0xda, 0x21, 0x10, 0xff, 0xf3, 0xd2,
      0xcd, 0x0c, 0x13, 0xec, 0x5f, 0x97, 0x44, 0x17, 0xc4, 0xa7, 0x7e, 0x3d, 0x64, 0x5d, 0x19, 0x73,
      0x60, 0x81, 0x4f, 0xdc, 0x22, 0x2a, 0x90, 0x88, 0x46, 0xee, 0xb8, 0x14, 0xde, 0x5e, 0x0b, 0xdb,
      0xe0, 0x32, 0x3a, 0x0a, 0x49, 0x06, 0x24, 0x5c, 0xc2, 0xd3, 0xac, 0x62, 0x91, 0x95, 0xe4, 0x79,
      0xe7, 0xc8, 0x37, 0x6d, 0x8d, 0xd5, 0x4e, 0xa9, 0x6c, 0x56, 0xf4, 0xea, 0x65, 0x7a, 0xae, 0x08,
      0xba, 0x78, 0x25, 0x2e, 0x1c, 0xa6, 0xb4, 0xc6, 0xe8, 0xdd, 0x74, 0x1f, 0x4b, 0xbd, 0x8b, 0x8a,
      0x70, 0x3e, 0xb5, 0x66, 0x48, 0x03, 0xf6, 0x0e, 0x61, 0x35, 0x57, 0xb9, 0x86, 0xc1, 0x1d, 0x9e,
      0xe1, 0xf8, 0x98, 0x11, 0x69, 0xd9, 0x8e, 0x94, 0x9b, 0x1e, 0x87, 0xe9, 0xce, 0x55, 0x28, 0xdf,
      0x8c, 0xa1, 0x89, 0x0d, 0xbf, 0xe6, 0x42, 0x68, 0x41, 0x99, 0x2d, 0x0f, 0xb0, 0x54, 0xbb, 0x16]"

definition AesRcon :: bytes where
  "AesRcon = [0x01, 0x02, 0x04, 0x08, 0x10, 0x20, 0x40, 0x80, 0x1b, 0x36]"

text \<open>\<open>AesSBox[b]\<close>: a byte is always in the range of the table.\<close>

definition sbox :: "UCHAR \<Rightarrow> UCHAR" where
  "sbox b = AesSBox ! unat b"

definition AesGfMul2 :: "UCHAR \<Rightarrow> UCHAR" where
  "AesGfMul2 v = push_bit 1 v XOR (if v AND 0x80 \<noteq> 0 then 0x1b else 0)"

definition AesAddRoundKey :: "bytes \<Rightarrow> bytes \<Rightarrow> bytes" where
  "AesAddRoundKey state roundKey = map (\<lambda>index. state ! index XOR roundKey ! index) [0..<16]"

definition AesSubBytes :: "bytes \<Rightarrow> bytes" where
  "AesSubBytes state = map (\<lambda>index. sbox (state ! index)) [0..<16]"

definition AesShiftRows :: "bytes \<Rightarrow> bytes" where
  "AesShiftRows state =
     (let s1 = state ! 1;
          state = state[1 := state ! 5]; state = state[5 := state ! 9];
          state = state[9 := state ! 13]; state = state[13 := s1];
          s2 = state ! 2; s6 = state ! 6;
          state = state[2 := state ! 10]; state = state[6 := state ! 14];
          state = state[10 := s2]; state = state[14 := s6];
          s3 = state ! 3;
          state = state[3 := state ! 15]; state = state[15 := state ! 11];
          state = state[11 := state ! 7]; state = state[7 := s3]
      in state)"

definition mix_column :: "bytes \<Rightarrow> nat \<Rightarrow> bytes" where
  "mix_column state column =
     (let a0 = state ! (column * 4); a1 = state ! (column * 4 + 1);
          a2 = state ! (column * 4 + 2); a3 = state ! (column * 4 + 3);
          t = a0 XOR a1 XOR a2 XOR a3; u = a0
      in state[column * 4 := a0 XOR t XOR AesGfMul2 (a0 XOR a1),
               column * 4 + 1 := a1 XOR t XOR AesGfMul2 (a1 XOR a2),
               column * 4 + 2 := a2 XOR t XOR AesGfMul2 (a2 XOR a3),
               column * 4 + 3 := a3 XOR t XOR AesGfMul2 (a3 XOR u)])"

definition AesMixColumns :: "bytes \<Rightarrow> bytes" where
  "AesMixColumns state = mix_column (mix_column (mix_column (mix_column state 0) 1) 2) 3"

text \<open>
  The loop of \<open>Aes128Initialize\<close>: \<open>roundKeys\<close> is the part of the array that has been generated,
  so \<open>bytesGenerated\<close> is its length.
\<close>

function expand_loop :: "bytes \<Rightarrow> nat \<Rightarrow> bytes" where
  "expand_loop roundKeys rconIndex =
     (if 176 \<le> length roundKeys then roundKeys
      else
        let bytesGenerated = length roundKeys;
            temp = map (\<lambda>index. roundKeys ! (bytesGenerated - 4 + index)) [0..<4];
            schedule = (bytesGenerated mod 16 = 0);
            temp = (if schedule
                    then [sbox (temp ! 1) XOR AesRcon ! rconIndex, sbox (temp ! 2), sbox (temp ! 3),
                          sbox (temp ! 0)]
                    else temp);
            new = map (\<lambda>index. roundKeys ! (bytesGenerated + index - 16) XOR temp ! index) [0..<4]
        in expand_loop (roundKeys @ new) (if schedule then rconIndex + 1 else rconIndex))"
  by pat_completeness auto
termination
  by (relation "measure (\<lambda>(roundKeys, rconIndex). 176 - length roundKeys)") auto

declare expand_loop.simps [simp del]

definition Aes128Initialize :: "UCHAR span \<Rightarrow> bytes res" where
  "Aes128Initialize key =
     (if span_null key \<or> span_len key \<noteq> 16 then Err STATUS_INVALID_PARAMETER
      else Ok (expand_loop (span_list key) 0))"

primrec aes_rounds :: "bytes \<Rightarrow> nat \<Rightarrow> bytes \<Rightarrow> bytes" where
  "aes_rounds roundKeys 0 state = AesAddRoundKey state roundKeys"
| "aes_rounds roundKeys (Suc n) state =
     AesAddRoundKey (AesMixColumns (AesShiftRows (AesSubBytes (aes_rounds roundKeys n state))))
       (drop (Suc n * 16) roundKeys)"

definition Aes128EncryptBlock :: "bytes \<Rightarrow> bytes \<Rightarrow> bytes" where
  "Aes128EncryptBlock roundKeys input =
     AesAddRoundKey (AesShiftRows (AesSubBytes (aes_rounds roundKeys 9 input))) (drop 160 roundKeys)"

section \<open>The reference: FIPS 197\<close>

text \<open>Multiplication of polynomials over the two-element field modulo \<open>x^8 + x^4 + x^3 + x + 1\<close>.\<close>

definition times_x :: "UCHAR \<Rightarrow> UCHAR" where
  "times_x a = push_bit 1 a XOR (if bit a 7 then 0x1b else 0)"

primrec gf_mul_bits :: "nat \<Rightarrow> UCHAR \<Rightarrow> UCHAR \<Rightarrow> UCHAR" where
  "gf_mul_bits 0 a b = 0"
| "gf_mul_bits (Suc n) a b = (if bit b 0 then a else 0) XOR gf_mul_bits n (times_x a) (drop_bit 1 b)"

definition gf_mul :: "UCHAR \<Rightarrow> UCHAR \<Rightarrow> UCHAR" where
  "gf_mul = gf_mul_bits 8"

definition aes_affine :: "UCHAR \<Rightarrow> UCHAR" where
  "aes_affine b = b XOR word_rotl 1 b XOR word_rotl 2 b XOR word_rotl 3 b XOR word_rotl 4 b XOR 0x63"

definition is_sub_byte :: "UCHAR \<Rightarrow> UCHAR \<Rightarrow> bool" where
  "is_sub_byte b s \<longleftrightarrow> (\<exists>i. s = aes_affine i \<and> (if b = 0 then i = 0 else gf_mul b i = 1))"

text \<open>The state: byte \<open>r + 4 c\<close> of the block is in row \<open>r\<close> and column \<open>c\<close>.\<close>

definition shift_rows :: "bytes \<Rightarrow> bytes" where
  "shift_rows st = map (\<lambda>i. st ! (i mod 4 + 4 * ((i div 4 + i mod 4) mod 4))) [0..<16]"

definition mix_matrix :: "nat \<Rightarrow> UCHAR" where
  "mix_matrix d = [0x02, 0x03, 0x01, 0x01] ! (d mod 4)"

definition mix_columns :: "bytes \<Rightarrow> bytes" where
  "mix_columns st = map (\<lambda>i. let r = i mod 4; c = i div 4
     in gf_mul (st ! (4 * c)) (mix_matrix (4 - r)) XOR gf_mul (st ! (4 * c + 1)) (mix_matrix (5 - r))
        XOR gf_mul (st ! (4 * c + 2)) (mix_matrix (6 - r)) XOR gf_mul (st ! (4 * c + 3)) (mix_matrix (7 - r)))
     [0..<16]"

text \<open>The key expansion, on words of four bytes.\<close>

primrec rcon :: "nat \<Rightarrow> UCHAR" where
  "rcon 0 = 1"
| "rcon (Suc n) = gf_mul (rcon n) 2"

function key_word :: "bytes \<Rightarrow> nat \<Rightarrow> bytes" where
  "key_word key i =
     (if i < 4 then take 4 (drop (4 * i) key)
      else let w = key_word key (i - 1)
           in xor_bytes (key_word key (i - 4))
                (if i mod 4 = 0 then xor_bytes (map sbox (rotate 1 w)) [rcon (i div 4 - 1), 0, 0, 0] else w))"
  by pat_completeness auto
termination
  by (relation "measure snd") auto

declare key_word.simps [simp del]

definition round_key :: "bytes \<Rightarrow> nat \<Rightarrow> bytes" where
  "round_key key n = concat (map (\<lambda>i. key_word key (4 * n + i)) [0..<4])"

primrec cipher_rounds :: "bytes \<Rightarrow> nat \<Rightarrow> bytes \<Rightarrow> bytes" where
  "cipher_rounds key 0 st = xor_bytes st (round_key key 0)"
| "cipher_rounds key (Suc n) st =
     xor_bytes (mix_columns (shift_rows (map sbox (cipher_rounds key n st)))) (round_key key (Suc n))"

definition aes128 :: "bytes \<Rightarrow> bytes \<Rightarrow> bytes" where
  "aes128 key block =
     xor_bytes (shift_rows (map sbox (cipher_rounds key 9 block))) (round_key key 10)"

section \<open>The S-box\<close>

definition affine_inverse :: "UCHAR \<Rightarrow> UCHAR" where
  "affine_inverse s = word_rotl 1 s XOR word_rotl 3 s XOR word_rotl 6 s XOR 0x05"

fun sbox_rows :: "nat \<Rightarrow> bytes \<Rightarrow> bool" where
  "sbox_rows n [] = True"
| "sbox_rows n (s # ss) \<longleftrightarrow>
     s = aes_affine (affine_inverse s) \<and>
     (if n = 0 then affine_inverse s = 0 else gf_mul (word_of_nat n) (affine_inverse s) = 1) \<and>
     sbox_rows (Suc n) ss"

lemma sbox_rows_append: "sbox_rows n (xs @ ys) \<longleftrightarrow> sbox_rows n xs \<and> sbox_rows (n + length xs) ys"
  by (induction n xs rule: sbox_rows.induct) auto

lemma gf_mul_unfold: "gf_mul a b = gf_mul_bits (Suc (Suc (Suc (Suc (Suc (Suc (Suc (Suc 0)))))))) a b"
  by (simp add: gf_mul_def numeral_eq_Suc)

lemmas sbox_eval = affine_inverse_def aes_affine_def gf_mul_unfold times_x_def word_rotl_shift

lemma sbox_rows_1: "sbox_rows 0 (take 64 AesSBox)"
  by (simp add: AesSBox_def sbox_eval)

lemma sbox_rows_2: "sbox_rows 64 (take 64 (drop 64 AesSBox))"
  by (simp add: AesSBox_def sbox_eval)

lemma sbox_rows_3: "sbox_rows 128 (take 64 (drop 128 AesSBox))"
  by (simp add: AesSBox_def sbox_eval)

lemma sbox_rows_4: "sbox_rows 192 (drop 192 AesSBox)"
  by (simp add: AesSBox_def sbox_eval)

lemma length_AesSBox: "length AesSBox = 256"
  by (simp add: AesSBox_def)

lemma sbox_rows_table: "sbox_rows 0 AesSBox"
proof -
  have d: "drop m xs = take 64 (drop m xs) @ drop (m + 64) xs" for m and xs :: bytes
    by (metis add.commute append_take_drop_id drop_drop)
  have "AesSBox = take 64 AesSBox @ take 64 (drop 64 AesSBox) @ take 64 (drop 128 AesSBox) @ drop 192 AesSBox"
    using d [of 0 AesSBox] d [of 64 AesSBox] d [of 128 AesSBox] by simp
  moreover have "sbox_rows 0 (take 64 AesSBox @ take 64 (drop 64 AesSBox) @ take 64 (drop 128 AesSBox) @ drop 192 AesSBox)"
    using sbox_rows_1 sbox_rows_2 sbox_rows_3 sbox_rows_4 by (simp add: sbox_rows_append length_AesSBox)
  ultimately show ?thesis by simp
qed

lemma sbox_rowsD:
  "sbox_rows n ss \<Longrightarrow> i < length ss \<Longrightarrow>
   ss ! i = aes_affine (affine_inverse (ss ! i)) \<and>
   (if n + i = 0 then affine_inverse (ss ! i) = 0
    else gf_mul (word_of_nat (n + i)) (affine_inverse (ss ! i)) = 1)"
proof (induction n ss arbitrary: i rule: sbox_rows.induct)
  case (2 n s ss)
  show ?case
  proof (cases i)
    case (Suc j)
    with "2.IH" [of j] "2.prems" show ?thesis by simp
  qed (use "2.prems" in simp)
qed simp

lemma sbox_sub_byte: "is_sub_byte b (sbox b)"
proof -
  have "unat b < length AesSBox" by (simp add: length_AesSBox byte_bound)
  from sbox_rowsD [OF sbox_rows_table this] show ?thesis
    by (auto simp: is_sub_byte_def sbox_def unat_eq_zero split: if_splits)
qed

section \<open>The round functions\<close>

lemma AesGfMul2_times_x: "AesGfMul2 v = times_x v"
proof -
  have "v AND 0x80 \<noteq> 0 \<longleftrightarrow> bit v 7"
    by (rule byte_exhaust) code_simp
  then show ?thesis by (simp add: AesGfMul2_def times_x_def)
qed

lemma times_x_xor: "times_x (a XOR b) = times_x a XOR times_x b"
  by (simp add: times_x_def bit_xor_iff ac_simps)

lemma gf_mul_small:
  "gf_mul a 1 = a" "gf_mul a 2 = times_x a" "gf_mul a 3 = a XOR times_x a"
  by (simp_all add: gf_mul_unfold)

lemma list16:
  assumes "length st = 16"
  obtains s0 s1 s2 s3 s4 s5 s6 s7 s8 s9 s10 s11 s12 s13 s14 s15 where
    "st = [s0, s1, s2, s3, s4, s5, s6, s7, s8, s9, s10, s11, s12, s13, s14, s15]"
  using assms by (auto simp: numeral_eq_Suc length_Suc_conv)

lemma upt16: "[0..<16] = [0, 1, 2, 3, 4, 5, 6, 7, 8, 9, 10, 11, 12, 13, 14, 15]"
  by (simp add: upt_conv_Cons)

lemma upt4: "[0..<4] = [0, 1, 2, 3]"
  by (simp add: upt_conv_Cons)

lemma AesShiftRows_shift_rows: "length st = 16 \<Longrightarrow> AesShiftRows st = shift_rows st"
  by (erule list16) (simp add: AesShiftRows_def shift_rows_def Let_def upt16)

lemma AesSubBytes_map: "length st = 16 \<Longrightarrow> AesSubBytes st = map sbox st"
  by (rule nth_equalityI) (simp_all add: AesSubBytes_def)

lemma AesMixColumns_mix_columns: "length st = 16 \<Longrightarrow> AesMixColumns st = mix_columns st"
  by (erule list16)
     (simp add: AesMixColumns_def mix_column_def mix_columns_def mix_matrix_def Let_def upt16
       AesGfMul2_times_x times_x_xor gf_mul_small ac_simps)

lemma AesAddRoundKey_xor:
  "length st = 16 \<Longrightarrow> 16 \<le> length rk \<Longrightarrow> AesAddRoundKey st rk = xor_bytes st (take 16 rk)"
  by (rule nth_equalityI) (simp_all add: AesAddRoundKey_def xor_bytes_def)

lemma length_round_functions [simp]:
  "length (shift_rows st) = 16" "length (mix_columns st) = 16"
  by (simp_all add: shift_rows_def mix_columns_def)

section \<open>The key expansion\<close>

lemma length_key_word: "length key = 16 \<Longrightarrow> length (key_word key i) = 4"
proof (induction key i rule: key_word.induct)
  case (1 key i)
  show ?case
  proof (cases "i < 4")
    case True
    with 1 show ?thesis by (subst key_word.simps) simp
  next
    case False
    with 1 show ?thesis by (subst key_word.simps) (simp add: Let_def)
  qed
qed

definition key_words :: "bytes \<Rightarrow> nat \<Rightarrow> bytes" where
  "key_words key n = concat (map (key_word key) [0..<n])"

lemma key_words_Suc: "key_words key (Suc n) = key_words key n @ key_word key n"
  by (simp add: key_words_def)

lemma length_key_words: "length key = 16 \<Longrightarrow> length (key_words key n) = 4 * n"
  by (induction n) (simp_all add: key_words_Suc length_key_word, simp add: key_words_def)

lemma key_words_nth:
  "length key = 16 \<Longrightarrow> i < n \<Longrightarrow> j < 4 \<Longrightarrow> key_words key n ! (4 * i + j) = key_word key i ! j"
proof (induction n)
  case (Suc n)
  show ?case
  proof (cases "i = n")
    case True
    with Suc show ?thesis by (simp add: key_words_Suc nth_append length_key_words)
  next
    case False
    with Suc show ?thesis by (simp add: key_words_Suc nth_append length_key_words)
  qed
qed simp

lemma key_words_key: "length key = 16 \<Longrightarrow> key_words key 4 = key"
proof -
  assume len: "length key = 16"
  have w: "key_word key i = take 4 (drop (4 * i) key)" if "i < 4" for i
    using that by (subst key_word.simps) simp
  have "key_words key 4 = take 4 (drop 0 key) @ take 4 (drop 4 key) @ take 4 (drop 8 key) @ take 4 (drop 12 key)"
    using w [of 0] w [of 1] w [of 2] w [of 3] by (simp add: key_words_def upt4)
  moreover have "\<dots> = key" using len by (elim list16) simp
  ultimately show ?thesis by simp
qed

lemma AesRcon_rcon: "i < 10 \<Longrightarrow> AesRcon ! i = rcon i"
proof -
  have step: "0 < n \<Longrightarrow> rcon n = gf_mul (rcon (n - 1)) 2" for n by (cases n) simp_all
  have "list_all (\<lambda>i. AesRcon ! i = rcon i) [0..<10]"
    by (simp add: AesRcon_def upt_conv_Cons step gf_mul_unfold times_x_def)
  then show "i < 10 \<Longrightarrow> AesRcon ! i = rcon i" by (simp add: list_all_iff)
qed

lemma expand_step:
  assumes len: "length key = 16" and i: "4 \<le> i" "i < 44"
  shows "expand_loop (key_words key i) ((i - 1) div 4) = expand_loop (key_words key (Suc i)) (i div 4)"
proof -
  let ?rk = "key_words key i" and ?w = "key_word key (i - 1)"
  obtain w0 w1 w2 w3 where w: "?w = [w0, w1, w2, w3]"
    using length_key_word [OF len, of "i - 1"] by (auto simp: numeral_eq_Suc length_Suc_conv)
  obtain v0 v1 v2 v3 where v: "key_word key (i - 4) = [v0, v1, v2, v3]"
    using length_key_word [OF len, of "i - 4"] by (auto simp: numeral_eq_Suc length_Suc_conv)
  have l: "length ?rk = 4 * i" by (rule length_key_words [OF len])
  have temp: "?rk ! (4 * i - 4 + j) = ?w ! j" if "j < 4" for j
    using key_words_nth [OF len, of "i - 1" i j] that i by (simp add: diff_mult_distrib2)
  have old: "?rk ! (4 * i + j - 16) = key_word key (i - 4) ! j" if "j < 4" for j
    using key_words_nth [OF len, of "i - 4" i j] that i by (simp add: diff_mult_distrib2)
  have m: "4 * i mod 16 = 0 \<longleftrightarrow> i mod 4 = 0" by presburger
  have rc: "(i - 1) div 4 + 1 = i div 4" "AesRcon ! ((i - 1) div 4) = rcon (i div 4 - 1)" if "i mod 4 = 0"
  proof -
    have "(i - 1) div 4 = i div 4 - 1" using that i by presburger
    moreover have "i div 4 - 1 < 10" "1 \<le> i div 4" using i that by presburger+
    ultimately show "(i - 1) div 4 + 1 = i div 4" "AesRcon ! ((i - 1) div 4) = rcon (i div 4 - 1)"
      by (simp_all add: AesRcon_rcon)
  qed
  have nr: "(i - 1) div 4 = i div 4" if "i mod 4 \<noteq> 0" using that by presburger
  have next_word: "key_word key i = xor_bytes [v0, v1, v2, v3]
      (if i mod 4 = 0 then [sbox w1 XOR rcon (i div 4 - 1), sbox w2, sbox w3, sbox w0] else [w0, w1, w2, w3])"
    using i w v by (subst key_word.simps) (simp add: Let_def)
  show ?thesis
    using i temp [of 0] temp [of 1] temp [of 2] temp [of 3] old [of 0] old [of 1] old [of 2] old [of 3] rc nr
    by (subst expand_loop.simps) (simp add: l m upt4 w [unfolded One_nat_def] v Let_def key_words_Suc next_word)
qed

lemma expand_all:
  assumes "length key = 16" "4 \<le> i" "i \<le> 44"
  shows "expand_loop (key_words key i) ((i - 1) div 4) = key_words key 44"
  using assms(2,3)
proof (induction "44 - i" arbitrary: i)
  case 0
  then have "i = 44" by simp
  then show ?case using assms(1) by (subst expand_loop.simps) (simp add: length_key_words)
next
  case (Suc n)
  then have "expand_loop (key_words key (Suc i)) ((Suc i - 1) div 4) = key_words key 44"
    using Suc.hyps(1) [of "Suc i"] by simp
  then show ?case using expand_step [OF assms(1), of i] Suc by simp
qed

lemma Aes128Initialize_key_words:
  "length key = 16 \<Longrightarrow> Aes128Initialize (Span key) = Ok (key_words key 44)"
  using expand_all [of key 4] by (simp add: Aes128Initialize_def key_words_key)

lemma round_key_nth:
  assumes "length key = 16" "j < 4" "k < 4"
  shows "round_key key n ! (4 * j + k) = key_word key (4 * n + j) ! k"
proof -
  have "round_key key n = key_word key (4 * n) @ key_word key (4 * n + 1) @ key_word key (4 * n + 2)
      @ key_word key (4 * n + 3)"
    by (simp add: round_key_def upt4)
  moreover have "j = 0 \<or> j = 1 \<or> j = 2 \<or> j = 3" using assms(2) by auto
  ultimately show ?thesis using assms
    by (elim disjE) (simp_all add: nth_append length_key_word)
qed

lemma round_key_slice:
  assumes "length key = 16" "n < 11"
  shows "take 16 (drop (16 * n) (key_words key 44)) = round_key key n"
proof (rule nth_equalityI)
  have lr: "length (round_key key n) = 16"
    using assms(1) by (simp add: round_key_def length_concat length_key_word comp_def upt4)
  show "length (take 16 (drop (16 * n) (key_words key 44))) = length (round_key key n)"
    using assms lr by (simp add: length_key_words)
  fix i assume "i < length (take 16 (drop (16 * n) (key_words key 44)))"
  then have i: "i < 16" by simp
  have k: "16 * n + i = 4 * (4 * n + i div 4) + i mod 4" by simp
  have lt: "4 * n + i div 4 < 44" using assms i by auto
  have "take 16 (drop (16 * n) (key_words key 44)) ! i = key_word key (4 * n + i div 4) ! (i mod 4)"
    using key_words_nth [OF assms(1) lt, of "i mod 4"] i assms unfolding k [symmetric]
    by (simp add: length_key_words)
  also have "\<dots> = round_key key n ! i"
    using round_key_nth [OF assms(1), of "i div 4" "i mod 4" n] i by simp
  finally show "take 16 (drop (16 * n) (key_words key 44)) ! i = round_key key n ! i" .
qed

section \<open>The cipher\<close>

lemma length_round_key: "length key = 16 \<Longrightarrow> length (round_key key n) = 16"
  by (simp add: round_key_def length_concat length_key_word comp_def upt4)

lemma length_cipher_rounds:
  "length key = 16 \<Longrightarrow> length st = 16 \<Longrightarrow> length (cipher_rounds key n st) = 16"
  by (induction n) (simp_all add: length_round_key)

lemma add_round_key:
  assumes "length key = 16" "length st = 16" "n < 11"
  shows "AesAddRoundKey st (drop (n * 16) (key_words key 44)) = xor_bytes st (round_key key n)"
proof -
  have "16 \<le> length (drop (n * 16) (key_words key 44))"
    using assms by (simp add: length_key_words)
  then show ?thesis
    using round_key_slice [OF assms(1,3)] assms(2) by (simp add: AesAddRoundKey_xor mult.commute)
qed

lemma aes_rounds_cipher_rounds:
  assumes "length key = 16" "length st = 16" "n < 10"
  shows "aes_rounds (key_words key 44) n st = cipher_rounds key n st"
  using assms(3)
proof (induction n)
  case 0
  then show ?case using add_round_key [OF assms(1,2), of 0] by simp
next
  case (Suc n)
  let ?s = "cipher_rounds key n st"
  have "length ?s = 16" using assms by (simp add: length_cipher_rounds)
  then have "AesMixColumns (AesShiftRows (AesSubBytes ?s)) = mix_columns (shift_rows (map sbox ?s))"
    by (simp add: AesSubBytes_map AesShiftRows_shift_rows AesMixColumns_mix_columns)
  moreover have "AesAddRoundKey (mix_columns (shift_rows (map sbox ?s))) (drop (Suc n * 16) (key_words key 44))
      = xor_bytes (mix_columns (shift_rows (map sbox ?s))) (round_key key (Suc n))"
    using Suc.prems by (intro add_round_key [OF assms(1)]) simp_all
  ultimately show ?case using Suc by simp
qed

lemma Aes128EncryptBlock_aes128:
  assumes "length key = 16" "length st = 16"
  shows "Aes128EncryptBlock (key_words key 44) st = aes128 key st"
proof -
  let ?s = "cipher_rounds key 9 st"
  have l: "length ?s = 16" using assms by (simp add: length_cipher_rounds)
  have "AesAddRoundKey (shift_rows (map sbox ?s)) (drop (10 * 16) (key_words key 44))
      = xor_bytes (shift_rows (map sbox ?s)) (round_key key 10)"
    by (intro add_round_key [OF assms(1)]) simp_all
  then show ?thesis
    using l assms
    by (simp add: Aes128EncryptBlock_def aes128_def aes_rounds_cipher_rounds AesSubBytes_map
        AesShiftRows_shift_rows)
qed

lemma length_aes128: "length key = 16 \<Longrightarrow> length (aes128 key st) = 16"
  by (simp add: aes128_def length_round_key)

end
