(* ===== verification/Kh_AesCcm.thy ===== *)
theory Kh_AesCcm
  imports Kh_Aes128
begin

text \<open>
  AES-CCM of \<open>crypto/Aead.cpp\<close>: \<open>CcmPayloadLengthFits\<close>, \<open>BuildCcmCounterBlock\<close>, \<open>CcmMacBlock\<close>,
  \<open>CcmComputeMac\<close>, \<open>CcmCrypt\<close>, \<open>ValidateAesCcm\<close>, \<open>AesCcmEncrypt\<close> and \<open>AesCcmDecrypt\<close>. The
  reference is the construction of RFC 3610: the CBC-MAC of the formatted blocks and the counter
  mode stream, over the block cipher of FIPS 197.
\<close>

section \<open>The code\<close>

definition CcmPayloadLengthFits :: "nat \<Rightarrow> nat \<Rightarrow> bool" where
  "CcmPayloadLengthFits payloadLength lengthFieldLength \<longleftrightarrow>
     (if lengthFieldLength \<ge> 8 then True
      else payloadLength \<le> 2 ^ (lengthFieldLength * 8) - 1)"

definition BuildCcmCounterBlock :: "bytes \<Rightarrow> ULONGLONG \<Rightarrow> bytes" where
  "BuildCcmCounterBlock nonce counterValue =
     (let lengthFieldLength = 15 - length nonce;
          block = replicate 16 0;
          block = block[0 := word_of_nat (lengthFieldLength - 1)];
          block = overlay block 1 nonce
      in overlay block (1 + length nonce) (WriteBigEndianLength counterValue lengthFieldLength))"

definition CcmMacBlock :: "bytes \<Rightarrow> bytes \<Rightarrow> bytes \<Rightarrow> bytes" where
  "CcmMacBlock context block mac = Aes128EncryptBlock context (xor_bytes mac block)"

text \<open>
  The loop over the additional data: \<open>aad\<close> is what is left of it. A copy behind the end of the
  block would be an access out of bounds.
\<close>

function aad_loop :: "bytes \<Rightarrow> bytes \<Rightarrow> nat \<Rightarrow> bytes \<Rightarrow> bytes \<Rightarrow> (bytes \<times> nat \<times> bytes) res" where
  "aad_loop context block blockOffset aad mac =
     (if aad = [] then Ok (block, blockOffset, mac)
      else if 16 < blockOffset then Fault
      else
        let chunk = (if length aad < 16 - blockOffset then length aad else 16 - blockOffset);
            block = overlay block blockOffset (take chunk aad);
            blockOffset = blockOffset + chunk
        in if blockOffset = 16
           then aad_loop context (replicate 16 0) 0 (drop chunk aad) (CcmMacBlock context block mac)
           else aad_loop context block blockOffset (drop chunk aad) mac)"
  by pat_completeness auto
termination
  by (relation "measure (\<lambda>(context, block, blockOffset, aad, mac).
        2 * length aad + (if blockOffset = 16 then 1 else 0))") auto

declare aad_loop.simps [simp del]

function payload_mac_loop :: "bytes \<Rightarrow> bytes \<Rightarrow> bytes \<Rightarrow> bytes" where
  "payload_mac_loop context plaintext mac =
     (if plaintext = [] then mac
      else let chunk = (if length plaintext < 16 then length plaintext else 16);
               block = overlay (replicate 16 0) 0 (take chunk plaintext)
           in payload_mac_loop context (drop chunk plaintext) (CcmMacBlock context block mac))"
  by pat_completeness auto
termination
  by (relation "measure (\<lambda>(context, plaintext, mac). length plaintext)") auto

declare payload_mac_loop.simps [simp del]

definition ccm_first_block :: "bytes \<Rightarrow> nat \<Rightarrow> nat \<Rightarrow> nat \<Rightarrow> bytes" where
  "ccm_first_block nonce aadLength plaintextLength tagLength =
     (let lengthFieldLength = 15 - length nonce;
          block = replicate 16 0;
          block = block[0 := word_of_nat ((if aadLength \<noteq> 0 then 0x40 else 0) OR
                      push_bit 3 ((tagLength - 2) div 2) OR (lengthFieldLength - 1))];
          block = overlay block 1 nonce
      in overlay block (1 + length nonce)
           (WriteBigEndianLength (word_of_nat plaintextLength) lengthFieldLength))"

definition CcmComputeMac ::
  "bytes \<Rightarrow> AeadParameters \<Rightarrow> bytes \<Rightarrow> nat \<Rightarrow> bytes \<Rightarrow> bytes res" where
  "CcmComputeMac context parameters plaintext tagLength mac =
     (let nonce = span_list (par_Nonce parameters);
          aad = span_list (par_Aad parameters);
          lengthFieldLength = 15 - span_len (par_Nonce parameters)
      in if \<not> CcmPayloadLengthFits (length plaintext) lengthFieldLength \<or>
            span_len (par_Aad parameters) \<ge> 0xff00
         then Err STATUS_INVALID_PARAMETER
         else
           let mac = CcmMacBlock context
                       (ccm_first_block nonce (span_len (par_Aad parameters)) (length plaintext) tagLength) mac
           in rbind
                (if span_len (par_Aad parameters) \<noteq> 0
                 then let block = (replicate 16 0)[
                            0 := word_of_nat (drop_bit 8 (span_len (par_Aad parameters)) AND 0xff),
                            1 := word_of_nat (span_len (par_Aad parameters) AND 0xff)]
                      in rbind (aad_loop context block 2 aad mac) (\<lambda>(block, blockOffset, mac).
                           Ok (if blockOffset \<noteq> 0 then CcmMacBlock context block mac else mac))
                 else Ok mac)
                (\<lambda>mac. Ok (payload_mac_loop context plaintext mac)))"

text \<open>The counter loop; the last chunk fails when the counter cannot be advanced.\<close>

function ccm_crypt_loop ::
  "bytes \<Rightarrow> bytes \<Rightarrow> ULONGLONG \<Rightarrow> bytes \<Rightarrow> bytes \<Rightarrow> nat \<Rightarrow> bytes \<times> unit res" where
  "ccm_crypt_loop context nonce counterValue input out offset =
     (if input = [] then (out, Ok ())
      else
        let stream = Aes128EncryptBlock context (BuildCcmCounterBlock nonce counterValue);
            chunk = (if length input < 16 then length input else 16)
        in after out (xor_loop (take chunk input) stream out offset) (\<lambda>out.
             if counterValue = - 1 then (out, Err STATUS_INTEGER_OVERFLOW)
             else ccm_crypt_loop context nonce (counterValue + 1) (drop chunk input) out (offset + chunk)))"
  by pat_completeness auto
termination
  by (relation "measure (\<lambda>(context, nonce, counterValue, input, out, offset). length input)") auto

declare ccm_crypt_loop.simps [simp del]

definition CcmCrypt ::
  "bytes \<Rightarrow> AeadParameters \<Rightarrow> UCHAR span \<Rightarrow> UCHAR span \<Rightarrow> bytes \<times> unit res" where
  "CcmCrypt context parameters input out =
     (if \<not> IsValidBuffer input \<or> \<not> IsValidMutableBuffer out \<or> span_len out < span_len input
      then (span_list out, Err STATUS_INVALID_PARAMETER)
      else ccm_crypt_loop context (span_list (par_Nonce parameters)) 1 (span_list input) (span_list out) 0)"

definition ValidateAesCcm :: "AeadKey \<Rightarrow> AeadParameters \<Rightarrow> nat \<Rightarrow> bool" where
  "ValidateAesCcm key parameters tagLength \<longleftrightarrow>
     \<not> (span_null (key_Key key) \<or> span_len (key_Key key) \<noteq> 16 \<or>
        span_null (par_Nonce parameters) \<or> span_len (par_Nonce parameters) < 7 \<or>
        span_len (par_Nonce parameters) > 13 \<or> \<not> IsValidBuffer (par_Aad parameters) \<or>
        (tagLength \<noteq> 8 \<and> tagLength \<noteq> 16))"

definition AesCcmEncrypt ::
  "aead_heap \<Rightarrow> AeadKey \<Rightarrow> AeadParameters \<Rightarrow> UCHAR span \<Rightarrow> UCHAR span \<Rightarrow> UCHAR span
   \<Rightarrow> (bytes \<times> bytes) \<times> nat res" where
  "AesCcmEncrypt heap key parameters plaintext ciphertext tag =
     (let bufs = (span_list ciphertext, span_list tag); tagLength = span_len tag
      in if \<not> ValidateAesCcm key parameters tagLength then (bufs, Err STATUS_INVALID_PARAMETER)
         else if \<not> IsValidBuffer plaintext \<or> \<not> IsValidMutableBuffer ciphertext \<or>
                 span_len ciphertext < span_len plaintext \<or> span_null tag
         then (bufs, Err STATUS_INVALID_PARAMETER)
         else if \<not> contextGranted heap then (bufs, Err STATUS_INSUFFICIENT_RESOURCES)
         else if \<not> scratchGranted heap then (bufs, Err STATUS_INSUFFICIENT_RESOURCES)
         else after bufs (Aes128Initialize (key_Key key)) (\<lambda>context.
              after bufs (CcmComputeMac context parameters (span_list plaintext) tagLength (replicate 16 0)) (\<lambda>mac.
              case CcmCrypt context parameters plaintext ciphertext of (ct, status) \<Rightarrow>
                after (ct, span_list tag) status (\<lambda>_.
                  let stream = Aes128EncryptBlock context
                                 (BuildCcmCounterBlock (span_list (par_Nonce parameters)) 0)
                  in after (ct, span_list tag) (xor_loop (take tagLength mac) stream (span_list tag) 0)
                       (\<lambda>t. ((ct, t), Ok (span_len plaintext)))))))"

definition AesCcmDecrypt ::
  "aead_heap \<Rightarrow> AeadKey \<Rightarrow> AeadParameters \<Rightarrow> UCHAR span \<Rightarrow> UCHAR span \<Rightarrow> bytes \<times> nat res" where
  "AesCcmDecrypt heap key parameters ciphertext plaintext =
     (let pt = span_list plaintext; tagLength = span_len (par_Tag parameters)
      in if span_null (par_Tag parameters) then (pt, Err STATUS_INVALID_PARAMETER)
         else if \<not> ValidateAesCcm key parameters tagLength then (pt, Err STATUS_INVALID_PARAMETER)
         else if \<not> IsValidBuffer ciphertext \<or> \<not> IsValidMutableBuffer plaintext \<or>
                 span_len plaintext < span_len ciphertext
         then (pt, Err STATUS_INVALID_PARAMETER)
         else if \<not> contextGranted heap then (pt, Err STATUS_INSUFFICIENT_RESOURCES)
         else if \<not> scratchGranted heap then (pt, Err STATUS_INSUFFICIENT_RESOURCES)
         else after pt (Aes128Initialize (key_Key key)) (\<lambda>context.
              case CcmCrypt context parameters ciphertext plaintext of (pt, status) \<Rightarrow>
                after pt status (\<lambda>_.
                after pt (CcmComputeMac context parameters (take (span_len ciphertext) pt) tagLength (replicate 16 0)) (\<lambda>mac.
                  let stream = Aes128EncryptBlock context
                                 (BuildCcmCounterBlock (span_list (par_Nonce parameters)) 0)
                  in after pt (xor_loop (take tagLength mac) stream (replicate 16 0) 0) (\<lambda>expectedTag.
                     after pt (MemoryEquals expectedTag (span_list (par_Tag parameters)) tagLength) (\<lambda>equal.
                       if \<not> equal then (replicate (length pt) 0, Err STATUS_INVALID_SIGNATURE)
                       else (pt, Ok (span_len ciphertext))))))))"

section \<open>The reference: RFC 3610\<close>

definition be_number :: "nat \<Rightarrow> nat \<Rightarrow> bytes" where
  "be_number n v = rev (le_bytes n v)"

definition ccm_b0 :: "nat \<Rightarrow> bytes \<Rightarrow> nat \<Rightarrow> nat \<Rightarrow> bytes" where
  "ccm_b0 M nonce alen plen =
     (let L = 15 - length nonce
      in word_of_nat ((if alen = 0 then 0 else 64) + 8 * ((M - 2) div 2) + (L - 1)) # nonce @ be_number L plen)"

definition ccm_counter :: "bytes \<Rightarrow> nat \<Rightarrow> bytes" where
  "ccm_counter nonce i = (let L = 15 - length nonce in word_of_nat (L - 1) # nonce @ be_number L i)"

definition ccm_auth_data :: "nat \<Rightarrow> bytes \<Rightarrow> bytes \<Rightarrow> bytes \<Rightarrow> bytes" where
  "ccm_auth_data M nonce aad pt =
     ccm_b0 M nonce (length aad) (length pt)
     @ (if aad = [] then [] else pad16 (be_number 2 (length aad) @ aad)) @ pad16 pt"

function cbc_mac :: "(bytes \<Rightarrow> bytes) \<Rightarrow> bytes \<Rightarrow> bytes \<Rightarrow> bytes" where
  "cbc_mac E x data =
     (if data = [] then x else cbc_mac E (E (xor_bytes x (take 16 data))) (drop 16 data))"
  by pat_completeness auto
termination
  by (relation "measure (\<lambda>(E, x, data). length data)") auto

declare cbc_mac.simps [simp del]

definition ccm_tag :: "(bytes \<Rightarrow> bytes) \<Rightarrow> nat \<Rightarrow> bytes \<Rightarrow> bytes \<Rightarrow> bytes \<Rightarrow> bytes" where
  "ccm_tag E M nonce aad pt =
     take M (xor_bytes (cbc_mac E (replicate 16 0) (ccm_auth_data M nonce aad pt)) (E (ccm_counter nonce 0)))"

definition ccm_crypt :: "(bytes \<Rightarrow> bytes) \<Rightarrow> bytes \<Rightarrow> bytes \<Rightarrow> bytes" where
  "ccm_crypt E nonce = counter_crypt 16 (\<lambda>i. E (ccm_counter nonce i)) 1"

definition ccm_seal :: "nat \<Rightarrow> bytes \<Rightarrow> bytes \<Rightarrow> bytes \<Rightarrow> bytes \<Rightarrow> bytes \<times> bytes" where
  "ccm_seal M key nonce aad pt =
     (ccm_crypt (aes128 key) nonce pt, ccm_tag (aes128 key) M nonce aad pt)"

definition ccm_unseal :: "nat \<Rightarrow> bytes \<Rightarrow> bytes \<Rightarrow> bytes \<Rightarrow> bytes \<Rightarrow> bytes \<Rightarrow> bytes option" where
  "ccm_unseal M key nonce aad ct tag =
     (let pt = ccm_crypt (aes128 key) nonce ct
      in if tag = ccm_tag (aes128 key) M nonce aad pt then Some pt else None)"

section \<open>The blocks\<close>

lemma length_be_number [simp]: "length (be_number n v) = n"
  by (simp add: be_number_def)

lemma WriteBigEndianLength_be: "v < 2 ^ 64 \<Longrightarrow> WriteBigEndianLength (word_of_nat v) n = be_number n v"
  by (simp add: WriteBigEndianLength_le be_number_def unat_word_of_nat_64)

lemma assemble_block:
  fixes b :: UCHAR
  assumes "length nonce + length rest = 15"
  shows "overlay (overlay ((replicate 16 0)[0 := b]) 1 nonce) (1 + length nonce) rest = b # nonce @ rest"
proof -
  have r: "replicate 16 (0 :: UCHAR) = 0 # replicate 15 0" by (simp flip: replicate_Suc)
  have "(replicate 16 0)[0 := b] = [b] @ replicate 15 0" unfolding r by simp
  moreover have "overlay ([b] @ replicate 15 0) 1 nonce = [b] @ overlay (replicate 15 0) 0 nonce"
    by (rule overlay_append) simp
  moreover have "overlay (replicate 15 0) 0 nonce = nonce @ replicate (length rest) 0"
    using overlay_zeroed [of nonce 0 15] assms by simp
  moreover have "overlay (([b] @ nonce) @ replicate (length rest) 0) (1 + length nonce) rest
      = ([b] @ nonce) @ overlay (replicate (length rest) 0) 0 rest"
    by (rule overlay_append) simp
  moreover have "overlay (replicate (length rest) 0) 0 rest = rest"
    using overlay_zeroed [of rest 0 "length rest"] by simp
  ultimately show ?thesis by simp
qed

lemma Build_counter:
  assumes "7 \<le> length nonce" "length nonce \<le> 13" "i < 2 ^ 64"
  shows "BuildCcmCounterBlock nonce (word_of_nat i) = ccm_counter nonce i"
  using assms assemble_block [of nonce "be_number (15 - length nonce) i"]
  by (simp add: BuildCcmCounterBlock_def ccm_counter_def Let_def WriteBigEndianLength_be)

lemma first_block_flags:
  assumes "M = 8 \<or> M = 16" "2 \<le> L" "L \<le> 8"
  shows "(if alen \<noteq> 0 then 0x40 else 0) OR push_bit 3 ((M - 2) div 2) OR (L - 1)
    = (if alen = 0 then 0 else 64) + 8 * ((M - 2) div 2) + (L - 1 :: nat)"
proof -
  have "L \<in> {2, 3, 4, 5, 6, 7, 8}" using assms by auto
  then show ?thesis using assms(1) by auto
qed

lemma ccm_first_block_b0:
  assumes "7 \<le> length nonce" "length nonce \<le> 13" "plen < 2 ^ 64" "M = 8 \<or> M = 16"
  shows "ccm_first_block nonce alen plen M = ccm_b0 M nonce alen plen"
  using assms first_block_flags [OF assms(4), of "15 - length nonce" alen]
    assemble_block [of nonce "be_number (15 - length nonce) plen"]
  by (simp add: ccm_first_block_def ccm_b0_def Let_def WriteBigEndianLength_be)

section \<open>The authentication code\<close>

lemma cbc_mac_Nil [simp]: "cbc_mac E x [] = x"
  by (simp add: cbc_mac.simps)

lemma cbc_mac_block: "length b = 16 \<Longrightarrow> cbc_mac E x (b @ data) = cbc_mac E (E (xor_bytes x b)) data"
  by (subst cbc_mac.simps) auto

lemma cbc_mac_cong:
  assumes "\<And>b. length b = 16 \<Longrightarrow> E b = F b" "\<And>b. length (F b) = 16" "length x = 16" "16 dvd length data"
  shows "cbc_mac E x data = cbc_mac F x data"
  using assms
proof (induction E x data rule: cbc_mac.induct)
  case (1 E x data)
  show ?case
  proof (cases "data = []")
    case False
    then have "16 \<le> length data" using "1.prems"(4) by (auto dest: dvd_imp_le)
    moreover have "16 dvd length (drop 16 data)" using "1.prems"(4) by (simp add: dvd_diff_nat)
    ultimately show ?thesis
      using False "1.IH" "1.prems" by (simp add: cbc_mac.simps [of E] cbc_mac.simps [of F])
  qed simp
qed

lemma length_cbc_mac:
  assumes "\<And>b. length (E b) = 16" "length x = 16"
  shows "length (cbc_mac E x data) = 16"
  using assms
proof (induction E x data rule: cbc_mac.induct)
  case (1 E x data)
  then show ?case by (cases "data = []") (simp_all add: cbc_mac.simps [of E x data])
qed

lemma cbc_mac_append:
  "16 dvd length y \<Longrightarrow> cbc_mac E x (y @ z) = cbc_mac E (cbc_mac E x y) z"
proof (induction E x y rule: cbc_mac.induct)
  case (1 E x y)
  show ?case
  proof (cases "y = []")
    case False
    then have "16 \<le> length y" using "1.prems" by (auto dest: dvd_imp_le)
    moreover have "16 dvd length (drop 16 y)" using "1.prems" by (simp add: dvd_diff_nat)
    ultimately show ?thesis
      using False "1.IH" by (simp add: cbc_mac.simps [of E x y] cbc_mac.simps [of E x "y @ z"])
  qed simp
qed

lemma payload_mac_loop_cbc:
  "payload_mac_loop context pt mac = cbc_mac (Aes128EncryptBlock context) mac (pad16 pt)"
proof (induction "context" pt mac rule: payload_mac_loop.induct)
  case (1 ctx pt mac)
  let ?n = "if length pt < 16 then length pt else 16"
  show ?case
  proof (cases "pt = []")
    case True
    then show ?thesis by (simp add: payload_mac_loop.simps)
  next
    case False
    have b: "overlay (replicate 16 0) 0 (take ?n pt) = pad16 (take ?n pt)"
      using False overlay_zeroed [of "take ?n pt" 0 16] by (subst pad16_short) simp_all
    have l: "length (pad16 (take ?n pt)) = 16" using False by (subst pad16_short) auto
    have split: "pad16 pt = pad16 (take ?n pt) @ pad16 (drop ?n pt)"
    proof (cases "length pt < 16")
      case False
      then have "pad16 (take 16 pt) = take 16 pt" by (simp add: pad16_def)
      then show ?thesis using False pad16_append_block [of "take 16 pt" "drop 16 pt"] by simp
    qed simp
    show ?thesis
      using False "1.IH" [OF False refl refl] b
      by (subst payload_mac_loop.simps) (simp add: Let_def CcmMacBlock_def split cbc_mac_block [OF l])
  qed
qed

lemma aad_loop_cbc:
  "length pre < 16 \<Longrightarrow> block = pre @ replicate (16 - length pre) 0 \<Longrightarrow> off = length pre \<Longrightarrow>
   \<exists>b k m. aad_loop context block off aad mac = Ok (b, k, m) \<and>
     (if k \<noteq> 0 then CcmMacBlock context b m else m)
     = cbc_mac (Aes128EncryptBlock context) mac (pad16 (pre @ aad))"
proof (induction "context" block off aad mac arbitrary: pre rule: aad_loop.induct)
  case (1 ctx block off aad mac)
  let ?n = "if length aad < 16 - off then length aad else 16 - off"
  let ?E = "Aes128EncryptBlock ctx"
  show ?case
  proof (cases "aad = []")
    case True
    then show ?thesis
    proof (cases "pre = []")
      case False
      have "pad16 pre = block" using False "1.prems" by (simp add: pad16_short)
      then have "cbc_mac ?E mac (pad16 pre) = CcmMacBlock ctx block mac"
        using "1.prems" cbc_mac_block [of block ?E mac "[]"] by (simp add: CcmMacBlock_def)
      then show ?thesis using True False "1.prems" by (simp add: aad_loop.simps)
    qed (use "1.prems" in \<open>simp add: aad_loop.simps\<close>)
  next
    case False
    have ov: "overlay block off (take ?n aad) = pre @ take ?n aad @ replicate (16 - length pre - ?n) 0"
      using "1.prems" overlay_append [of off pre "replicate (16 - length pre) 0" "take ?n aad"]
        overlay_zeroed [of "take ?n aad" 0 "16 - length pre"] by simp
    show ?thesis
    proof (cases "off + ?n = 16")
      case True
      have full: "length (pre @ take ?n aad) = 16" using True "1.prems" by auto
      have "pad16 (pre @ aad) = (pre @ take ?n aad) @ pad16 (drop ?n aad)"
        using pad16_append_block [OF full, of "drop ?n aad"] by (simp del: length_append)
      then have c: "cbc_mac ?E mac (pad16 (pre @ aad))
          = cbc_mac ?E (CcmMacBlock ctx (pre @ take ?n aad) mac) (pad16 (drop ?n aad))"
        using cbc_mac_block [OF full] by (simp add: CcmMacBlock_def)
      have o: "overlay block off (take ?n aad) = pre @ take ?n aad"
        using ov True "1.prems" by auto
      show ?thesis
        using "1.IH"(1) [OF False _ refl refl refl True, of "[]"] "1.prems" False True c o
        by (subst aad_loop.simps) (simp add: Let_def)
    next
      case less: False
      then have n: "?n = length aad" "length (pre @ aad) < 16" using "1.prems" by (auto split: if_splits)
      have "overlay block off (take ?n aad) = (pre @ aad) @ replicate (16 - length (pre @ aad)) 0"
        using ov n by simp
      then show ?thesis
        using "1.IH"(2) [OF False _ refl refl refl less, of "pre @ aad"] "1.prems" False less n
        by (subst aad_loop.simps) (simp add: Let_def)
    qed
  qed
qed

definition ccm_params :: "nat \<Rightarrow> bytes \<Rightarrow> bytes \<Rightarrow> bytes \<Rightarrow> bool" where
  "ccm_params M nonce aad pt \<longleftrightarrow>
     (M = 8 \<or> M = 16) \<and> 7 \<le> length nonce \<and> length nonce \<le> 13 \<and> length aad < 0xff00 \<and>
     CcmPayloadLengthFits (length pt) (15 - length nonce)"

lemma payload_fits_64: "CcmPayloadLengthFits n L \<Longrightarrow> n \<le> MaxSizeT \<Longrightarrow> n < 2 ^ 64"
  by (simp add: MaxSizeT_def)

lemma aad_header:
  "(replicate 16 0)[0 := word_of_nat (drop_bit 8 n AND 0xff), 1 := word_of_nat (n AND 0xff)]
     = be_number 2 n @ replicate 14 (0 :: UCHAR)"
proof -
  have low: "(word_of_nat (m AND 0xff) :: UCHAR) = word_of_nat m" for m :: nat
  proof -
    have "take_bit 8 m = m AND 0xff" by (simp add: take_bit_eq_mask mask_eq_exp_minus_1)
    then have "m AND 0xff = m mod 256" by (simp add: take_bit_eq_mod)
    then show ?thesis by (simp add: word_unat_eq_iff unsigned_of_nat take_bit_eq_mod)
  qed
  have r: "replicate 16 (0 :: UCHAR) = 0 # 0 # replicate 14 0" by (simp flip: replicate_Suc)
  have "be_number 2 n = [word_of_nat (n div 256), word_of_nat n]"
    by (simp add: be_number_def numeral_2_eq_2)
  then show ?thesis unfolding r low by (simp add: drop_bit_eq_div)
qed

lemma CcmComputeMac_cbc:
  assumes p: "ccm_params M (span_list (par_Nonce par)) (span_list (par_Aad par)) pt" and len: "length pt \<le> MaxSizeT"
    and valid: "\<not> span_null (par_Nonce par)" "IsValidBuffer (par_Aad par)"
  shows "CcmComputeMac ctx par pt M mac = Ok (cbc_mac (Aes128EncryptBlock ctx) mac
      (ccm_auth_data M (span_list (par_Nonce par)) (span_list (par_Aad par)) pt))"
proof -
  let ?n = "span_list (par_Nonce par)" and ?a = "span_list (par_Aad par)" and ?E = "Aes128EncryptBlock ctx"
  have ln: "span_len (par_Nonce par) = length ?n" and la: "span_len (par_Aad par) = length ?a"
    using valid by (cases "par_Nonce par"; cases "par_Aad par"; auto simp: IsValidBuffer_def)+
  have b0: "ccm_first_block ?n (length ?a) (length pt) M = ccm_b0 M ?n (length ?a) (length pt)"
    using p len by (intro ccm_first_block_b0) (auto simp: ccm_params_def MaxSizeT_def)
  have l0: "length (ccm_b0 M ?n (length ?a) (length pt)) = 16"
    using p by (simp add: ccm_b0_def Let_def ccm_params_def)
  let ?m = "CcmMacBlock ctx (ccm_b0 M ?n (length ?a) (length pt)) mac"
  have e: "cbc_mac ?E mac (ccm_b0 M ?n (length ?a) (length pt) @ d) = cbc_mac ?E ?m d" for d
    using cbc_mac_block [OF l0] by (simp add: CcmMacBlock_def)
  obtain b k m where loop: "aad_loop ctx (be_number 2 (length ?a) @ replicate 14 0) 2 ?a ?m = Ok (b, k, m)"
    and res: "(if k \<noteq> 0 then CcmMacBlock ctx b m else m) = cbc_mac ?E ?m (pad16 (be_number 2 (length ?a) @ ?a))"
    using aad_loop_cbc [of "be_number 2 (length ?a)" _ 2 ctx ?a ?m] by auto
  have fits: "CcmPayloadLengthFits (length pt) (15 - length ?n)" "length ?a < 0xff00"
    using p by (auto simp: ccm_params_def)
  have code: "CcmComputeMac ctx par pt M mac =
      rbind (if length ?a \<noteq> 0
             then rbind (aad_loop ctx (be_number 2 (length ?a) @ replicate 14 0) 2 ?a ?m) (\<lambda>(block, blockOffset, mac).
                    Ok (if blockOffset \<noteq> 0 then CcmMacBlock ctx block mac else mac))
             else Ok ?m) (\<lambda>mac. Ok (payload_mac_loop ctx pt mac))"
    unfolding CcmComputeMac_def Let_def ln la b0 aad_header using fits by simp
  show ?thesis
  proof (cases "?a = []")
    case True
    then show ?thesis unfolding code payload_mac_loop_cbc ccm_auth_data_def e by simp
  next
    case False
    then show ?thesis
      unfolding code payload_mac_loop_cbc ccm_auth_data_def e loop
      by (simp add: res [simplified] cbc_mac_append [OF pad16_dvd])
  qed
qed

section \<open>The stream\<close>

lemma length_Aes128EncryptBlock [simp]: "length (Aes128EncryptBlock ctx b) = 16"
  by (simp add: Aes128EncryptBlock_def AesAddRoundKey_def)

interpretation ccm_ctr: counter_mode 16 "\<lambda>i. Aes128EncryptBlock ctx (ccm_counter nonce i)" for ctx nonce
  by unfold_locales simp_all

lemma ccm_crypt_loop_crypt:
  assumes nonce: "7 \<le> length nonce" "length nonce \<le> 13"
    and fits: "i + length input < 2 ^ 64 - 1" "off + length input \<le> length out"
  shows "ccm_crypt_loop ctx nonce (word_of_nat i) input out off
    = (overlay out off (counter_crypt 16 (\<lambda>i. Aes128EncryptBlock ctx (ccm_counter nonce i)) i input), Ok ())"
  using fits
proof (induction "length input" arbitrary: i input out off rule: less_induct)
  case less
  let ?b = "Aes128EncryptBlock ctx (ccm_counter nonce i)"
  let ?blk = "\<lambda>i. Aes128EncryptBlock ctx (ccm_counter nonce i)"
  let ?n = "if length input < 16 then length input else 16"
  show ?case
  proof (cases "input = []")
    case True
    then show ?thesis by (simp add: ccm_crypt_loop.simps)
  next
    case False
    have t: "take ?n input = take 16 input" "drop ?n input = drop 16 input" by auto
    have b: "BuildCcmCounterBlock nonce (word_of_nat i) = ccm_counter nonce i"
      using less.prems nonce by (intro Build_counter) simp_all
    let ?o = "overlay out off (xor_bytes (take 16 input) ?b)"
    have x: "xor_loop (take 16 input) ?b out off = Ok ?o"
      using less.prems by (intro xor_loop_overlay) auto
    have n: "?n = length (xor_bytes (take 16 input) ?b)" by simp
    have top: "(word_of_nat i :: ULONGLONG) \<noteq> - 1"
      using less.prems(1) unat_word_of_nat_64 [of i] unat_max_word [where 'a = 64] by auto
    have next_i: "Suc i + length (drop 16 input) < 2 ^ 64 - 1"
      using less.prems(1) False by (cases input) auto
    have "ccm_crypt_loop ctx nonce (word_of_nat (Suc i)) (drop 16 input) ?o (off + ?n)
        = (overlay ?o (off + ?n) (counter_crypt 16 ?blk (Suc i) (drop 16 input)), Ok ())"
      using less.prems False by (intro less.hyps [OF _ next_i]) (auto split: if_splits)
    also have "overlay ?o (off + ?n) (counter_crypt 16 ?blk (Suc i) (drop 16 input))
        = overlay out off (counter_crypt 16 ?blk i input)"
      using overlay_overlay [of off "xor_bytes (take 16 input) ?b" "counter_crypt 16 ?blk (Suc i) (drop 16 input)" out]
        less.prems n by (simp add: ccm_ctr.crypt_step [OF False] ccm_ctr.crypt_length split: if_splits)
    finally show ?thesis
      using False x t top b
      by (subst ccm_crypt_loop.simps) (simp add: Let_def add.commute [of 1])
  qed
qed

section \<open>The reference satisfies the contract\<close>

lemma length_ccm_tag: "length key = 16 \<Longrightarrow> M \<le> 16 \<Longrightarrow> length (ccm_tag (aes128 key) M nonce aad pt) = M"
  by (simp add: ccm_tag_def length_cbc_mac length_aes128)

lemma ccm_crypt_laws:
  assumes "length key = 16"
  shows "length (ccm_crypt (aes128 key) nonce m) = length m"
    and "ccm_crypt (aes128 key) nonce (ccm_crypt (aes128 key) nonce m) = m"
proof -
  have cm: "counter_mode 16 (\<lambda>i. aes128 key (ccm_counter nonce i))"
    by unfold_locales (simp_all add: length_aes128 assms)
  show "length (ccm_crypt (aes128 key) nonce m) = length m"
    unfolding ccm_crypt_def by (rule counter_mode.crypt_length [OF cm])
  show "ccm_crypt (aes128 key) nonce (ccm_crypt (aes128 key) nonce m) = m"
    unfolding ccm_crypt_def by (rule counter_mode.crypt_involution [OF cm])
qed

lemma ccm_scheme: "M \<le> 16 \<Longrightarrow> aead_scheme M (\<lambda>k. length k = 16) (ccm_seal M) (ccm_unseal M)"
proof
  fix k n a p c t
  assume M: "M \<le> 16" and k: "length (k :: bytes) = 16"
  show "ccm_seal M k n a p = (c, t) \<Longrightarrow> length c = length p \<and> length t = M"
    using k M by (auto simp: ccm_seal_def ccm_crypt_laws length_ccm_tag)
  show "ccm_unseal M k n a c t = Some p \<longleftrightarrow> ccm_seal M k n a p = (c, t)"
  proof -
    have "ccm_crypt (aes128 k) n c = p \<longleftrightarrow> ccm_crypt (aes128 k) n p = c"
      using ccm_crypt_laws(2) [OF k] by metis
    then show ?thesis by (auto simp: ccm_seal_def ccm_unseal_def Let_def)
  qed
qed

interpretation ccm: aead_scheme 16 "\<lambda>k. length k = 16" "ccm_seal 16" "ccm_unseal 16"
  by (rule ccm_scheme) simp

interpretation ccm8: aead_scheme 8 "\<lambda>k. length k = 16" "ccm_seal 8" "ccm_unseal 8"
  by (rule ccm_scheme) simp

section \<open>The code computes the reference\<close>

lemma counter_crypt_cong:
  "(\<And>i. f i = g i) \<Longrightarrow> counter_crypt B f i m = counter_crypt B g i m"
  by (metis ext)

lemma length_ccm_counter: "length nonce \<le> 15 \<Longrightarrow> length (ccm_counter nonce i) = 16"
  by (simp add: ccm_counter_def Let_def)

lemma CcmCrypt_crypt:
  assumes "length key = 16" "7 \<le> length nonce" "length nonce \<le> 13" "span_list (par_Nonce par) = nonce"
    "length m \<le> length out" "length m + 46 \<le> MaxSizeT"
  shows "CcmCrypt (key_words key 44) par (Span m) (Span out)
    = (overlay out 0 (ccm_crypt (aes128 key) nonce m), Ok ())"
proof -
  have E: "Aes128EncryptBlock (key_words key 44) (ccm_counter nonce i) = aes128 key (ccm_counter nonce i)" for i
    using assms by (simp add: Aes128EncryptBlock_aes128 length_ccm_counter)
  show ?thesis
    using assms ccm_crypt_loop_crypt [of nonce 1 m 0 out "key_words key 44"]
    by (simp add: CcmCrypt_def IsValidBuffer_def IsValidMutableBuffer_def E ccm_crypt_def MaxSizeT_def)
qed

lemma ValidateAesCcmD:
  assumes "ValidateAesCcm key par M"
  obtains k n a where "key_Key key = Span k" "length k = 16" "par_Nonce par = Span n"
    "7 \<le> length n" "length n \<le> 13" "span_list (par_Aad par) = a" "IsValidBuffer (par_Aad par)"
    "M = 8 \<or> M = 16"
proof -
  have "\<not> span_null (key_Key key)" "\<not> span_null (par_Nonce par)"
    using assms by (auto simp: ValidateAesCcm_def)
  then obtain k n where "key_Key key = Span k" "par_Nonce par = Span n"
    by (cases "key_Key key"; cases "par_Nonce par") auto
  with assms that [of k n] show thesis by (auto simp: ValidateAesCcm_def)
qed

lemma CcmComputeMac_reference:
  assumes k: "length k = 16" and p: "ccm_params M n (span_list (par_Aad par)) pt"
    and len: "length pt \<le> MaxSizeT"
    and valid: "par_Nonce par = Span n" "IsValidBuffer (par_Aad par)"
  shows "CcmComputeMac (key_words k 44) par pt M (replicate 16 0)
    = Ok (cbc_mac (aes128 k) (replicate 16 0) (ccm_auth_data M n (span_list (par_Aad par)) pt))"
proof -
  have d: "16 dvd length (ccm_auth_data M n (span_list (par_Aad par)) pt)"
  proof -
    have "length (ccm_b0 M n (length (span_list (par_Aad par))) (length pt)) = 16"
      using p by (simp add: ccm_b0_def Let_def ccm_params_def)
    then show ?thesis unfolding ccm_auth_data_def
      using pad16_dvd by (auto simp del: length_pad16 intro!: dvd_add)
  qed
  have "cbc_mac (Aes128EncryptBlock (key_words k 44)) (replicate 16 0) (ccm_auth_data M n (span_list (par_Aad par)) pt)
      = cbc_mac (aes128 k) (replicate 16 0) (ccm_auth_data M n (span_list (par_Aad par)) pt)"
    by (rule cbc_mac_cong) (simp_all add: Aes128EncryptBlock_aes128 k length_aes128 d)
  then show ?thesis using CcmComputeMac_cbc [of M par pt] p len valid by simp
qed

lemma ccm_tag_stream:
  assumes k: "length k = 16" and n: "7 \<le> length n" "length n \<le> 13" and M: "M \<le> 16" "M \<le> length out"
  shows "xor_loop (take M (cbc_mac (aes128 k) (replicate 16 0) (ccm_auth_data M n a pt)))
      (Aes128EncryptBlock (key_words k 44) (BuildCcmCounterBlock n 0)) out 0
    = Ok (overlay out 0 (ccm_tag (aes128 k) M n a pt))"
proof -
  have "BuildCcmCounterBlock n 0 = ccm_counter n 0" using Build_counter [of n 0] n by simp
  then have s: "Aes128EncryptBlock (key_words k 44) (BuildCcmCounterBlock n 0) = aes128 k (ccm_counter n 0)"
    using k n by (simp add: Aes128EncryptBlock_aes128 length_ccm_counter)
  have l: "length (cbc_mac (aes128 k) (replicate 16 0) d) = 16" for d
    by (rule length_cbc_mac) (simp_all add: length_aes128 k)
  have "xor_bytes (take M x) y = take M (xor_bytes x y)" for x y :: bytes
    by (rule nth_equalityI) (auto simp: xor_bytes_def)
  then show ?thesis unfolding s ccm_tag_def
    using M k l by (subst xor_loop_overlay) (simp_all add: length_aes128)
qed

lemma AesCcmEncrypt_seal:
  assumes v: "ValidateAesCcm key par (length tg)"
    and heap: "scratchGranted heap" "contextGranted heap"
    and p: "ccm_params (length tg) (span_list (par_Nonce par)) (span_list (par_Aad par)) p"
    and room: "length p \<le> length ct" and size: "length p + 46 \<le> MaxSizeT"
    and seal: "ccm_seal (length tg) (span_list (key_Key key)) (span_list (par_Nonce par))
      (span_list (par_Aad par)) p = (c, t)"
  shows "AesCcmEncrypt heap key par (Span p) (Span ct) (Span tg) = ((overlay ct 0 c, t), Ok (length p))"
proof -
  obtain k n a where d: "key_Key key = Span k" "length k = 16" "par_Nonce par = Span n"
    "7 \<le> length n" "length n \<le> 13" "span_list (par_Aad par) = a" "IsValidBuffer (par_Aad par)"
    "length tg = 8 \<or> length tg = 16"
    using v by (rule ValidateAesCcmD) (rule that)
  have c: "c = ccm_crypt (aes128 k) n p" and t: "t = ccm_tag (aes128 k) (length tg) n a p"
    using seal d by (auto simp: ccm_seal_def)
  have lt: "length t = length tg" using d by (auto simp: t length_ccm_tag)
  have mac: "CcmComputeMac (key_words k 44) par p (length tg) (replicate 16 0)
      = Ok (cbc_mac (aes128 k) (replicate 16 0) (ccm_auth_data (length tg) n a p))"
    using CcmComputeMac_reference [of k "length tg" n par p] d p size by simp
  have crypt: "CcmCrypt (key_words k 44) par (Span p) (Span ct) = (overlay ct 0 c, Ok ())"
    unfolding c using d room size by (intro CcmCrypt_crypt) simp_all
  have tag: "xor_loop (take (length tg) (cbc_mac (aes128 k) (replicate 16 0) (ccm_auth_data (length tg) n a p)))
      (Aes128EncryptBlock (key_words k 44) (BuildCcmCounterBlock n 0)) tg 0 = Ok t"
    using ccm_tag_stream [of k n "length tg" tg a p] d lt by (auto simp: t [symmetric] overlay_def)
  show ?thesis
    using v d(1-3) heap room mac crypt tag
    by (simp add: AesCcmEncrypt_def Let_def Aes128Initialize_key_words IsValidBuffer_def IsValidMutableBuffer_def)
qed

lemma AesCcmDecrypt_unseal:
  assumes v: "ValidateAesCcm key par (length t)"
    and heap: "scratchGranted heap" "contextGranted heap"
    and p: "ccm_params (length t) (span_list (par_Nonce par)) (span_list (par_Aad par)) c"
    and room: "length c \<le> length pt" "par_Tag par = Span t" and size: "length c + 46 \<le> MaxSizeT"
  shows "AesCcmDecrypt heap key par (Span c) (Span pt) =
    (case ccm_unseal (length t) (span_list (key_Key key)) (span_list (par_Nonce par))
        (span_list (par_Aad par)) c t of
       None \<Rightarrow> (replicate (length pt) 0, Err STATUS_INVALID_SIGNATURE)
     | Some m \<Rightarrow> (overlay pt 0 m, Ok (length c)))"
proof -
  obtain k n a where d: "key_Key key = Span k" "length k = 16" "par_Nonce par = Span n"
    "7 \<le> length n" "length n \<le> 13" "span_list (par_Aad par) = a" "IsValidBuffer (par_Aad par)"
    "length t = 8 \<or> length t = 16"
    using v by (rule ValidateAesCcmD) (rule that)
  define m where "m = ccm_crypt (aes128 k) n c"
  have lm: "length m = length c" using d by (simp add: m_def ccm_crypt_laws)
  let ?tag = "ccm_tag (aes128 k) (length t) n a m"
  have crypt: "CcmCrypt (key_words k 44) par (Span c) (Span pt) = (overlay pt 0 m, Ok ())"
    unfolding m_def using d room size by (intro CcmCrypt_crypt) simp_all
  have take_m: "take (length c) (overlay pt 0 m) = m" "length (overlay pt 0 m) = length pt"
    using room lm by (simp_all add: overlay_def)
  have "ccm_params (length t) n a m" using p d lm by (simp add: ccm_params_def)
  then have mac: "CcmComputeMac (key_words k 44) par m (length t) (replicate 16 0)
      = Ok (cbc_mac (aes128 k) (replicate 16 0) (ccm_auth_data (length t) n a m))"
    using CcmComputeMac_reference [of k "length t" n par m] d size lm by simp
  have lt: "length ?tag = length t" using d by (auto simp: length_ccm_tag)
  have tag: "xor_loop (take (length t) (cbc_mac (aes128 k) (replicate 16 0) (ccm_auth_data (length t) n a m)))
      (Aes128EncryptBlock (key_words k 44) (BuildCcmCounterBlock n 0)) (replicate 16 0) 0
      = Ok (overlay (replicate 16 0) 0 ?tag)"
    using ccm_tag_stream [of k n "length t" "replicate 16 0" a m] d by auto
  have "MemoryEquals (overlay (replicate 16 0) 0 ?tag) t (length t) = Ok (?tag = t)"
    using lt d by (subst MemoryEquals_iff) (auto simp: overlay_def)
  then show ?thesis
    using v d(1-3,6) heap room crypt take_m mac tag
    by (auto simp: AesCcmDecrypt_def Let_def Aes128Initialize_key_words IsValidBuffer_def
        IsValidMutableBuffer_def ccm_unseal_def m_def [symmetric])
qed



end
