(* ===== verification/Kh_CngProvider.thy ===== *)
theory Kh_CngProvider
  imports Kh_AeadPrimitives
begin

text \<open>
  The symmetric operations of \<open>crypto/CngProvider.cpp\<close>: \<open>GenerateRandom\<close>, \<open>Hash\<close>, \<open>Hmac\<close>,
  \<open>HkdfExtract\<close>, \<open>HkdfExpand\<close>, \<open>AesGcmEncrypt\<close>, \<open>AesGcmDecrypt\<close>, \<open>AesCbcEncrypt\<close> and
  \<open>AesCbcDecrypt\<close>, in the kernel build (the user mode test build replaces them by stand-ins).

  They wrap the kernel's BCrypt interface, which is not part of the repository. It is the parameter
  \<open>cng\<close>: whether the level is passive and the allocations succeed, the status of each BCrypt call
  that prepares a handle, and a function for each BCrypt call that computes. What the proofs rely on
  is stated as \<open>gcm_provider\<close>, \<open>cbc_provider\<close> and \<open>hmac_provider\<close>, the documented behaviour of the
  calls. The counter of uses in the provider cache (\<open>MarkProviderUsed\<close>) is a statistic and left out.
\<close>

section \<open>The operating system's cryptography\<close>

datatype HashAlgorithm = Sha1 | Sha256 | Sha384 | Sha512

record cng =
  irqlPassive :: bool
  providerGranted :: bool
  cachedProvider :: bool
  openStatus :: "unit res"
  setPropertyStatus :: "unit res"
  objectLengthStatus :: "unit res"
  objectGranted :: bool
  generateKeyStatus :: "unit res"
  arraysGranted :: bool
  hashLength :: "HashAlgorithm \<Rightarrow> ULONG res"
  createHashStatus :: "unit res"
  hashDataStatus :: "unit res"
  bcrypt_FinishHash :: "HashAlgorithm \<Rightarrow> bytes \<Rightarrow> bytes \<Rightarrow> bytes \<times> unit res"
  bcrypt_FinishHmac :: "HashAlgorithm \<Rightarrow> bytes \<Rightarrow> bytes \<Rightarrow> bytes \<Rightarrow> bytes \<times> unit res"
  bcrypt_GenRandom :: "bytes \<Rightarrow> bytes \<times> unit res"
  gcm_Encrypt :: "bytes \<Rightarrow> bytes \<Rightarrow> bytes \<Rightarrow> bytes \<Rightarrow> bytes \<Rightarrow> bytes \<Rightarrow> (bytes \<times> bytes) \<times> ULONG res"
  gcm_Decrypt :: "bytes \<Rightarrow> bytes \<Rightarrow> bytes \<Rightarrow> bytes \<Rightarrow> bytes \<Rightarrow> bytes \<Rightarrow> bytes \<times> ULONG res"
  cbc_Encrypt :: "bytes \<Rightarrow> bytes \<Rightarrow> bytes \<Rightarrow> bytes \<Rightarrow> bytes \<times> ULONG res"
  cbc_Decrypt :: "bytes \<Rightarrow> bytes \<Rightarrow> bytes \<Rightarrow> bytes \<Rightarrow> bytes \<times> ULONG res"

definition RequirePassiveLevel :: "cng \<Rightarrow> unit res" where
  "RequirePassiveLevel p = (if irqlPassive p then Ok () else Err STATUS_INVALID_DEVICE_STATE)"

text \<open>\<open>static_cast<ULONG>(length)\<close>: the call sees as many bytes as the low 32 bits say.\<close>

definition ulong_prefix :: "bytes \<Rightarrow> bytes" where
  "ulong_prefix xs = take (length xs mod 2 ^ 32) xs"

definition ToUlong :: "nat \<Rightarrow> ULONG res" where
  "ToUlong v = (if 2 ^ 32 \<le> v then Err STATUS_INTEGER_OVERFLOW else Ok (word_of_nat v))"

text \<open>Importing the key; a handle is represented by the key it was made from.\<close>

definition ImportSymmetricKey :: "cng \<Rightarrow> UCHAR span \<Rightarrow> bytes res" where
  "ImportSymmetricKey p key =
     (if \<not> IsValidBuffer key \<or> span_len key = 0 then Err STATUS_INVALID_PARAMETER
      else rbind (objectLengthStatus p) (\<lambda>_.
        if \<not> objectGranted p then Err STATUS_INSUFFICIENT_RESOURCES
        else rbind (ToUlong (span_len key)) (\<lambda>_.
             rbind (generateKeyStatus p) (\<lambda>_. Ok (span_list key)))))"

text \<open>The part of the two calls between the argument check and the cipher itself.\<close>

definition aes_gcm_key :: "cng \<Rightarrow> UCHAR span \<Rightarrow> bytes res" where
  "aes_gcm_key p key =
     (if \<not> providerGranted p then Err STATUS_INSUFFICIENT_RESOURCES
      else rbind (if cachedProvider p then Ok ()
                  else rbind (openStatus p) (\<lambda>_. setPropertyStatus p))
                 (\<lambda>_. ImportSymmetricKey p key))"

text \<open>
  \<open>same\<close> says whether the plaintext and ciphertext pointers are equal (two null pointers are).
  The ciphertext and tag buffers are what the call left in them, the bytes behind the 32-bit length
  being out of its reach.
\<close>

definition AesGcmEncrypt ::
  "cng \<Rightarrow> bool \<Rightarrow> UCHAR span \<Rightarrow> AeadParameters \<Rightarrow> UCHAR span \<Rightarrow> UCHAR span \<Rightarrow> UCHAR span
   \<Rightarrow> (bytes \<times> bytes) \<times> nat res" where
  "AesGcmEncrypt p same key parameters plaintext ciphertext tag =
     (let bufs = (span_list ciphertext, span_list tag)
      in after bufs (RequirePassiveLevel p) (\<lambda>_.
         if \<not> IsValidBuffer plaintext \<or> \<not> IsValidMutableBuffer ciphertext \<or> \<not> IsValidMutableBuffer tag \<or>
            \<not> IsValidBuffer (par_Nonce parameters) \<or> \<not> IsValidBuffer (par_Aad parameters) \<or>
            (same \<or> span_null plaintext \<and> span_null ciphertext) \<or>
            span_len ciphertext < span_len plaintext \<or> span_len tag \<noteq> 16 \<or>
            span_len (par_Nonce parameters) = 0
         then (bufs, Err STATUS_INVALID_PARAMETER)
         else after bufs (aes_gcm_key p key) (\<lambda>keyHandle.
           case gcm_Encrypt p keyHandle (ulong_prefix (span_list (par_Nonce parameters)))
                  (ulong_prefix (span_list (par_Aad parameters))) (ulong_prefix (span_list plaintext))
                  (ulong_prefix (span_list ciphertext)) (span_list tag) of
             ((ct, t), status) \<Rightarrow>
               after (overlay (span_list ciphertext) 0 ct, t) status (\<lambda>written.
                 ((overlay (span_list ciphertext) 0 ct, t), Ok (unat written))))))"

definition AesGcmDecrypt ::
  "cng \<Rightarrow> UCHAR span \<Rightarrow> AeadParameters \<Rightarrow> UCHAR span \<Rightarrow> UCHAR span \<Rightarrow> bytes \<times> nat res" where
  "AesGcmDecrypt p key parameters ciphertext plaintext =
     (let pt = span_list plaintext
      in after pt (RequirePassiveLevel p) (\<lambda>_.
         if \<not> IsValidBuffer ciphertext \<or> \<not> IsValidMutableBuffer plaintext \<or>
            \<not> IsValidBuffer (par_Nonce parameters) \<or> \<not> IsValidBuffer (par_Aad parameters) \<or>
            \<not> IsValidBuffer (par_Tag parameters) \<or>
            span_len plaintext < span_len ciphertext \<or> span_len (par_Tag parameters) \<noteq> 16 \<or>
            span_len (par_Nonce parameters) = 0
         then (pt, Err STATUS_INVALID_PARAMETER)
         else after pt (aes_gcm_key p key) (\<lambda>keyHandle.
           case gcm_Decrypt p keyHandle (ulong_prefix (span_list (par_Nonce parameters)))
                  (ulong_prefix (span_list (par_Aad parameters))) (ulong_prefix (span_list ciphertext))
                  (span_list (par_Tag parameters)) (ulong_prefix pt) of
             (pt', status) \<Rightarrow>
               after (overlay pt 0 pt') status (\<lambda>written. (overlay pt 0 pt', Ok (unat written))))))"

definition GenerateRandom :: "cng \<Rightarrow> UCHAR span \<Rightarrow> bytes \<times> unit res" where
  "GenerateRandom p output =
     (let out = span_list output
      in if \<not> IsValidMutableBuffer output then (out, Err STATUS_INVALID_PARAMETER)
         else after out (RequirePassiveLevel p) (\<lambda>_.
              after out (ToUlong (span_len output)) (\<lambda>_. bcrypt_GenRandom p out)))"

section \<open>Hashes\<close>

fun HashDigestLength :: "HashAlgorithm \<Rightarrow> nat" where
  "HashDigestLength Sha1 = 20"
| "HashDigestLength Sha256 = 32"
| "HashDigestLength Sha384 = 48"
| "HashDigestLength Sha512 = 64"

definition CreateHash :: "cng \<Rightarrow> unit res" where
  "CreateHash p =
     rbind (objectLengthStatus p) (\<lambda>_.
       if \<not> objectGranted p then Err STATUS_INSUFFICIENT_RESOURCES else createHashStatus p)"

definition open_hash :: "cng \<Rightarrow> HashAlgorithm \<Rightarrow> nat res" where
  "open_hash p algorithm =
     (if \<not> providerGranted p then Err STATUS_INSUFFICIENT_RESOURCES
      else rbind (if cachedProvider p then Ok () else openStatus p) (\<lambda>_.
           rbind (hashLength p algorithm) (\<lambda>n. Ok (unat n))))"

definition Hash :: "cng \<Rightarrow> HashAlgorithm \<Rightarrow> UCHAR span \<Rightarrow> UCHAR span \<Rightarrow> bytes \<times> nat res" where
  "Hash p algorithm data output =
     (let out = span_list output
      in if \<not> IsValidBuffer data \<or> \<not> IsValidMutableBuffer output \<or> span_len output = 0
         then (out, Err STATUS_INVALID_PARAMETER)
         else after out (RequirePassiveLevel p) (\<lambda>_.
              after out (open_hash p algorithm) (\<lambda>hashLength.
                if span_len output < hashLength then (out, Err STATUS_BUFFER_TOO_SMALL)
                else after out (CreateHash p) (\<lambda>_.
                     after out (ToUlong (span_len data)) (\<lambda>_.
                     after out (hashDataStatus p) (\<lambda>_.
                       case bcrypt_FinishHash p algorithm (span_list data) (take hashLength out) of
                         (digest, status) \<Rightarrow>
                           after (overlay out 0 digest) status (\<lambda>_. (overlay out 0 digest, Ok hashLength))))))))"

definition Hmac :: "cng \<Rightarrow> HashAlgorithm \<Rightarrow> UCHAR span \<Rightarrow> UCHAR span \<Rightarrow> UCHAR span \<Rightarrow> bytes \<times> nat res" where
  "Hmac p algorithm key data output =
     (let out = span_list output
      in if \<not> IsValidBuffer key \<or> \<not> IsValidBuffer data \<or> \<not> IsValidMutableBuffer output \<or>
            span_len key = 0 \<or> span_len output = 0
         then (out, Err STATUS_INVALID_PARAMETER)
         else after out (RequirePassiveLevel p) (\<lambda>_.
              after out (open_hash p algorithm) (\<lambda>hashLength.
                if span_len output < hashLength then (out, Err STATUS_BUFFER_TOO_SMALL)
                else after out (ToUlong (span_len key)) (\<lambda>_.
                     after out (CreateHash p) (\<lambda>_.
                     after out (ToUlong (span_len data)) (\<lambda>_.
                     after out (hashDataStatus p) (\<lambda>_.
                       case bcrypt_FinishHmac p algorithm (span_list key) (span_list data) (take hashLength out) of
                         (digest, status) \<Rightarrow>
                           after (overlay out 0 digest) status (\<lambda>_. (overlay out 0 digest, Ok hashLength)))))))))"

definition HkdfExtract :: "cng \<Rightarrow> HashAlgorithm \<Rightarrow> UCHAR span \<Rightarrow> UCHAR span \<Rightarrow> UCHAR span \<Rightarrow> bytes \<times> nat res" where
  "HkdfExtract p algorithm salt ikm output =
     (let out = span_list output; digestLength = HashDigestLength algorithm
      in after out (RequirePassiveLevel p) (\<lambda>_.
           if digestLength = 0 then (out, Err STATUS_NOT_SUPPORTED)
           else if \<not> IsValidBuffer salt \<or> \<not> IsValidBuffer ikm \<or> \<not> IsValidMutableBuffer output \<or>
                   span_len output < digestLength
           then (out, Err STATUS_BUFFER_TOO_SMALL)
           else if \<not> arraysGranted p then (out, Err STATUS_INSUFFICIENT_RESOURCES)
           else let actualSalt = (if span_null salt \<or> span_len salt = 0 then Span (replicate digestLength 0) else salt)
                in Hmac p algorithm actualSalt ikm output))"

text \<open>
  The loop of \<open>HkdfExpand\<close>. It ends only when every call of \<open>Hmac\<close> returns some bytes, which is up to
  the provider; a loop that does not end is \<open>None\<close>. The provider may behave differently in each
  call, so it is a sequence \<open>calls\<close>, the call number \<open>i\<close> of \<open>Hmac\<close> being made with \<open>calls i\<close>.
\<close>

partial_function (option) hkdf_loop ::
  "(nat \<Rightarrow> cng) \<Rightarrow> HashAlgorithm \<Rightarrow> UCHAR span \<Rightarrow> bytes \<Rightarrow> nat \<Rightarrow> bytes \<Rightarrow> bytes \<Rightarrow> bytes \<Rightarrow> nat \<Rightarrow> UCHAR
   \<Rightarrow> (bytes \<times> unit res) option" where
  "hkdf_loop calls algorithm prk info i output previous block produced counter =
     (if length output \<le> produced then Some (output, Ok ())
      else case Hmac (calls i) algorithm prk (Span (previous @ info @ [counter])) (Span block) of
             (block, Ok blockLength) \<Rightarrow>
               let copyLength = (if blockLength < length output - produced then blockLength
                                 else length output - produced)
               in hkdf_loop calls algorithm prk info (i + 1)
                    (overlay output produced (take copyLength block)) (take blockLength block) block
                    (produced + copyLength) (counter + 1)
           | (block, Err status) \<Rightarrow> Some (output, Err status)
           | (block, Fault) \<Rightarrow> Some (output, Fault))"

definition HkdfExpand ::
  "(nat \<Rightarrow> cng) \<Rightarrow> HashAlgorithm \<Rightarrow> UCHAR span \<Rightarrow> UCHAR span \<Rightarrow> UCHAR span \<Rightarrow> (bytes \<times> unit res) option" where
  "HkdfExpand calls algorithm prk info output =
     (let out = span_list output; digestLength = HashDigestLength algorithm
      in case RequirePassiveLevel (calls 0) of
           Ok _ \<Rightarrow>
             if digestLength = 0 then Some (out, Err STATUS_NOT_SUPPORTED)
             else if \<not> IsValidBuffer prk \<or> \<not> IsValidBuffer info \<or> \<not> IsValidMutableBuffer output \<or>
                     span_len prk < digestLength \<or> span_len output = 0 \<or>
                     span_len output > digestLength * 255 \<or> span_len info > 256
             then Some (out, Err STATUS_INVALID_PARAMETER)
             else if \<not> arraysGranted (calls 0) then Some (out, Err STATUS_INSUFFICIENT_RESOURCES)
             else hkdf_loop calls algorithm prk (span_list info) 0 out [] (replicate digestLength 0) 0 1
         | Err status \<Rightarrow> Some (out, Err status)
         | Fault \<Rightarrow> Some (out, Fault))"

section \<open>AES in CBC mode\<close>

definition aes_cbc_key :: "cng \<Rightarrow> bytes \<Rightarrow> bytes res" where
  "aes_cbc_key p key =
     rbind (openStatus p) (\<lambda>_. rbind (setPropertyStatus p) (\<lambda>_. rbind (objectLengthStatus p) (\<lambda>_.
       if \<not> objectGranted p then Err STATUS_INSUFFICIENT_RESOURCES
       else rbind (generateKeyStatus p) (\<lambda>_.
         if \<not> arraysGranted p then Err STATUS_INSUFFICIENT_RESOURCES else Ok key))))"

definition AesCbcEncrypt :: "cng \<Rightarrow> UCHAR span \<Rightarrow> UCHAR span \<Rightarrow> UCHAR span \<Rightarrow> UCHAR span \<Rightarrow> bytes \<times> nat res" where
  "AesCbcEncrypt p key iv plaintext ciphertext =
     (let ct = span_list ciphertext
      in after ct (RequirePassiveLevel p) (\<lambda>_.
           if span_null key \<or> (span_len key \<noteq> 16 \<and> span_len key \<noteq> 32) \<or> span_null iv \<or> span_len iv \<noteq> 16 \<or>
              span_null plaintext \<or> span_null ciphertext \<or> span_len plaintext = 0 \<or>
              span_len plaintext mod 16 \<noteq> 0 \<or> span_len ciphertext < span_len plaintext
           then (ct, Err STATUS_INVALID_PARAMETER)
           else after ct (aes_cbc_key p (span_list key)) (\<lambda>keyHandle.
             case cbc_Encrypt p keyHandle (span_list iv) (ulong_prefix (span_list plaintext)) (ulong_prefix ct) of
               (ct', status) \<Rightarrow>
                 after (overlay ct 0 ct') status (\<lambda>written. (overlay ct 0 ct', Ok (unat written))))))"

definition AesCbcDecrypt :: "cng \<Rightarrow> UCHAR span \<Rightarrow> UCHAR span \<Rightarrow> UCHAR span \<Rightarrow> UCHAR span \<Rightarrow> bytes \<times> nat res" where
  "AesCbcDecrypt p key iv ciphertext plaintext =
     (let pt = span_list plaintext
      in after pt (RequirePassiveLevel p) (\<lambda>_.
           if span_null key \<or> (span_len key \<noteq> 16 \<and> span_len key \<noteq> 32) \<or> span_null iv \<or> span_len iv \<noteq> 16 \<or>
              span_null ciphertext \<or> span_null plaintext \<or> span_len ciphertext = 0 \<or>
              span_len ciphertext mod 16 \<noteq> 0 \<or> span_len plaintext < span_len ciphertext
           then (pt, Err STATUS_INVALID_PARAMETER)
           else after pt (aes_cbc_key p (span_list key)) (\<lambda>keyHandle.
             case cbc_Decrypt p keyHandle (span_list iv) (ulong_prefix (span_list ciphertext)) (ulong_prefix pt) of
               (pt', status) \<Rightarrow>
                 after (overlay pt 0 pt') status (\<lambda>written. (overlay pt 0 pt', Ok (unat written))))))"

section \<open>The behaviour of the provider\<close>

type_synonym seal_fun = "bytes \<Rightarrow> bytes \<Rightarrow> bytes \<Rightarrow> bytes \<Rightarrow> bytes \<times> bytes"
type_synonym unseal_fun = "bytes \<Rightarrow> bytes \<Rightarrow> bytes \<Rightarrow> bytes \<Rightarrow> bytes \<Rightarrow> bytes option"

text \<open>
  What is documented of the provider: AES-GCM is an authenticated cipher with a 16-byte tag;
  \<open>BCryptEncrypt\<close> stores its ciphertext and tag and returns the length, \<open>BCryptDecrypt\<close> stores the
  plaintext or fails with \<open>STATUS_AUTH_TAG_MISMATCH\<close> when the tag is wrong.
\<close>

definition gcm_provider :: "seal_fun \<Rightarrow> unseal_fun \<Rightarrow> cng \<Rightarrow> bool" where
  "gcm_provider gseal gunseal p \<longleftrightarrow>
     aead_scheme 16 (\<lambda>k. length k = 16 \<or> length k = 32) gseal gunseal \<and>
     irqlPassive p \<and> providerGranted p \<and> objectGranted p \<and>
     openStatus p = Ok () \<and> setPropertyStatus p = Ok () \<and> objectLengthStatus p = Ok () \<and>
     generateKeyStatus p = Ok () \<and>
     (\<forall>k n a m out tg c t. length m \<le> length out \<longrightarrow> length tg = 16 \<longrightarrow> gseal k n a m = (c, t) \<longrightarrow>
        gcm_Encrypt p k n a m out tg = ((overlay out 0 c, t), Ok (word_of_nat (length m)))) \<and>
     (\<forall>k n a c t out m. length c \<le> length out \<longrightarrow> gunseal k n a c t = Some m \<longrightarrow>
        gcm_Decrypt p k n a c t out = (overlay out 0 m, Ok (word_of_nat (length c)))) \<and>
     (\<forall>k n a c t out. gunseal k n a c t = None \<longrightarrow>
        snd (gcm_Decrypt p k n a c t out) = Err STATUS_AUTH_TAG_MISMATCH)"

lemma ulong_prefix_id [simp]: "length xs < 2 ^ 32 \<Longrightarrow> ulong_prefix xs = xs"
  by (simp add: ulong_prefix_def)

lemma gcm_key:
  assumes "gcm_provider gseal gunseal p" "k \<noteq> []" "length k < 2 ^ 32"
  shows "aes_gcm_key p (Span k) = Ok k"
  using assms by (simp add: gcm_provider_def aes_gcm_key_def ImportSymmetricKey_def ToUlong_def
      IsValidBuffer_def)

lemma AesGcmEncrypt_seal:
  assumes p: "gcm_provider gseal gunseal p" and k: "length k = 16 \<or> length k = 32"
    and par: "par_Nonce par = Span n" "par_Aad par = Span a"
    and sizes: "0 < length n" "length n < 2 ^ 32" "length a < 2 ^ 32" "length ct < 2 ^ 32"
      "length m \<le> length ct" "length tg = 16" and seal: "gseal k n a m = (c, t)"
  shows "AesGcmEncrypt p False (Span k) par (Span m) (Span ct) (Span tg)
    = ((overlay ct 0 c, t), Ok (length m))"
proof -
  have g: "aead_scheme 16 (\<lambda>k. length k = 16 \<or> length k = 32) gseal gunseal"
    using p by (simp add: gcm_provider_def)
  have lc: "length c = length m" using aead_scheme.seal_length [OF g, of k] k seal by auto
  have key: "aes_gcm_key p (Span k) = Ok k" using k by (intro gcm_key [OF p]) auto
  have enc: "gcm_Encrypt p k n a m ct tg = ((overlay ct 0 c, t), Ok (word_of_nat (length m)))"
    using p sizes seal by (simp add: gcm_provider_def)
  have "overlay ct 0 (overlay ct 0 c) = overlay ct 0 c" using lc sizes by (simp add: overlay_def)
  moreover have "irqlPassive p" using p by (simp add: gcm_provider_def)
  moreover have "unat (word_of_nat (length m) :: ULONG) = length m"
    using sizes by (intro unat_word_of_nat_32) simp
  ultimately show ?thesis
    using sizes par key enc
    by (simp add: AesGcmEncrypt_def Let_def RequirePassiveLevel_def IsValidBuffer_def IsValidMutableBuffer_def)
qed

lemma AesGcmDecrypt_unseal:
  assumes p: "gcm_provider gseal gunseal p" and k: "length k = 16 \<or> length k = 32"
    and par: "par_Nonce par = Span n" "par_Aad par = Span a" "par_Tag par = Span t"
    and sizes: "0 < length n" "length n < 2 ^ 32" "length a < 2 ^ 32" "length pt < 2 ^ 32"
      "length c \<le> length pt" "length t = 16"
  shows "gunseal k n a c t = Some m \<Longrightarrow>
      AesGcmDecrypt p (Span k) par (Span c) (Span pt) = (overlay pt 0 m, Ok (length c))"
    and "gunseal k n a c t = None \<Longrightarrow>
      snd (AesGcmDecrypt p (Span k) par (Span c) (Span pt)) = Err STATUS_AUTH_TAG_MISMATCH"
proof -
  have g: "aead_scheme 16 (\<lambda>k. length k = 16 \<or> length k = 32) gseal gunseal"
    using p by (simp add: gcm_provider_def)
  have key: "aes_gcm_key p (Span k) = Ok k" using k by (intro gcm_key [OF p]) auto
  have pass: "irqlPassive p" using p by (simp add: gcm_provider_def)
  note code = AesGcmDecrypt_def Let_def RequirePassiveLevel_def IsValidBuffer_def IsValidMutableBuffer_def
  show "AesGcmDecrypt p (Span k) par (Span c) (Span pt) = (overlay pt 0 m, Ok (length c))"
    if u: "gunseal k n a c t = Some m"
  proof -
    have "length m = length c" using aead_scheme.unseal_length [OF g _ u] k by simp
    then have "overlay pt 0 (overlay pt 0 m) = overlay pt 0 m" using sizes by (simp add: overlay_def)
    moreover have "gcm_Decrypt p k n a c t pt = (overlay pt 0 m, Ok (word_of_nat (length c)))"
      using p sizes u by (simp add: gcm_provider_def)
    moreover have "unat (word_of_nat (length c) :: ULONG) = length c"
      using sizes by (intro unat_word_of_nat_32) simp
    ultimately show ?thesis using sizes par key pass by (simp add: code)
  qed
  show "snd (AesGcmDecrypt p (Span k) par (Span c) (Span pt)) = Err STATUS_AUTH_TAG_MISMATCH"
    if "gunseal k n a c t = None"
  proof -
    have "snd (gcm_Decrypt p k n a c t pt) = Err STATUS_AUTH_TAG_MISMATCH"
      using p that by (simp add: gcm_provider_def)
    then obtain b where "gcm_Decrypt p k n a c t pt = (b, Err STATUS_AUTH_TAG_MISMATCH)"
      by (cases "gcm_Decrypt p k n a c t pt") auto
    then show ?thesis using sizes par key pass by (simp add: code)
  qed
qed

text \<open>
  The hash functions: \<open>mac\<close> is HMAC with each hash, whose digests have the lengths the code expects.
\<close>

type_synonym mac_fun = "HashAlgorithm \<Rightarrow> bytes \<Rightarrow> bytes \<Rightarrow> bytes"

definition hmac_provider :: "mac_fun \<Rightarrow> cng \<Rightarrow> bool" where
  "hmac_provider mac p \<longleftrightarrow>
     irqlPassive p \<and> providerGranted p \<and> objectGranted p \<and> arraysGranted p \<and>
     openStatus p = Ok () \<and> objectLengthStatus p = Ok () \<and> createHashStatus p = Ok () \<and>
     hashDataStatus p = Ok () \<and>
     (\<forall>alg. hashLength p alg = Ok (word_of_nat (HashDigestLength alg))) \<and>
     (\<forall>alg k d. length (mac alg k d) = HashDigestLength alg) \<and>
     (\<forall>alg k d out. length out = HashDigestLength alg \<longrightarrow>
        bcrypt_FinishHmac p alg k d out = (mac alg k d, Ok ()))"

text \<open>AES in CBC mode: decryption inverts encryption, and both keep the length.\<close>

type_synonym cbc_fun = "bytes \<Rightarrow> bytes \<Rightarrow> bytes \<Rightarrow> bytes"

definition cbc_provider :: "cbc_fun \<Rightarrow> cbc_fun \<Rightarrow> cng \<Rightarrow> bool" where
  "cbc_provider E D p \<longleftrightarrow>
     irqlPassive p \<and> objectGranted p \<and> arraysGranted p \<and>
     openStatus p = Ok () \<and> setPropertyStatus p = Ok () \<and> objectLengthStatus p = Ok () \<and>
     generateKeyStatus p = Ok () \<and>
     (\<forall>k iv m. length (E k iv m) = length m \<and> length (D k iv m) = length m \<and>
        (16 dvd length m \<longrightarrow> D k iv (E k iv m) = m)) \<and>
     (\<forall>k iv m out. 16 dvd length m \<longrightarrow> length m \<le> length out \<longrightarrow>
        cbc_Encrypt p k iv m out = (overlay out 0 (E k iv m), Ok (word_of_nat (length m))) \<and>
        cbc_Decrypt p k iv m out = (overlay out 0 (D k iv m), Ok (word_of_nat (length m))))"

lemma HashDigestLength_bounds: "0 < HashDigestLength alg" "HashDigestLength alg \<le> 64"
  by (cases alg; simp)+

lemma Hmac_mac:
  assumes p: "hmac_provider mac p" and sizes: "k \<noteq> []" "length k < 2 ^ 32" "length d < 2 ^ 32"
    and out: "HashDigestLength alg \<le> length out"
  shows "Hmac p alg (Span k) (Span d) (Span out) = (overlay out 0 (mac alg k d), Ok (HashDigestLength alg))"
proof -
  have n: "unat (word_of_nat (HashDigestLength alg) :: ULONG) = HashDigestLength alg"
    using HashDigestLength_bounds(2) [of alg] by (intro unat_word_of_nat_32) simp
  have ne: "out \<noteq> []" using out HashDigestLength_bounds(1) [of alg] by auto
  have f: "bcrypt_FinishHmac p alg k d (take (HashDigestLength alg) out) = (mac alg k d, Ok ())"
    using p out by (simp add: hmac_provider_def)
  show ?thesis
    using p sizes out n f ne
    by (simp add: Hmac_def Let_def hmac_provider_def RequirePassiveLevel_def open_hash_def CreateHash_def
        ToUlong_def IsValidBuffer_def IsValidMutableBuffer_def)
qed

section \<open>HKDF\<close>

text \<open>RFC 5869, section 2.3.\<close>

primrec hkdf_T :: "(bytes \<Rightarrow> bytes) \<Rightarrow> bytes \<Rightarrow> nat \<Rightarrow> bytes" where
  "hkdf_T mac info 0 = []"
| "hkdf_T mac info (Suc i) = mac (hkdf_T mac info i @ info @ [word_of_nat (Suc i)])"

definition hkdf_okm :: "(bytes \<Rightarrow> bytes) \<Rightarrow> bytes \<Rightarrow> nat \<Rightarrow> nat \<Rightarrow> bytes" where
  "hkdf_okm mac info d L = take L (concat (map (hkdf_T mac info) [1..<Suc ((L + d - 1) div d)]))"

lemma hkdf_loop_step:
  assumes "Hmac (calls i) algorithm prk (Span (previous @ info @ [counter])) (Span block) = (block', Ok n)"
    and "produced < length output" and "m = min n (length output - produced)"
  shows "hkdf_loop calls algorithm prk info i output previous block produced counter
    = hkdf_loop calls algorithm prk info (i + 1) (overlay output produced (take m block'))
        (take n block') block' (produced + m) (counter + 1)"
  using assms by (subst hkdf_loop.simps) (simp add: Let_def min_def)

lemma hkdf_loop_rfc5869:
  fixes mac alg prk info
  defines "d \<equiv> HashDigestLength alg" and "T \<equiv> hkdf_T (mac alg prk) info"
  assumes p: "\<And>i. hmac_provider mac (calls i)" and prk: "prk \<noteq> []" "length prk < 2 ^ 32" "length info \<le> 256"
    and blocks: "length out \<le> n * d" "i \<le> n" "i * d \<le> length out" "length block = d"
  shows "hkdf_loop calls alg (Span prk) info j out (T i) block (i * d) (word_of_nat (Suc i))
    = Some (overlay out (i * d) (take (length out - i * d) (concat (map T [Suc i..<Suc n]))), Ok ())"
  using blocks
proof (induction "n - i" arbitrary: i j out block)
  case 0
  then have "i = n" by simp
  with 0 show ?case by (subst hkdf_loop.simps) simp
next
  case (Suc k)
  have lT: "length (T (Suc i)) = d" for i
    using p [of 0] by (simp add: T_def d_def hmac_provider_def)
  show ?case
  proof (cases "length out \<le> i * d")
    case True
    then show ?thesis by (subst hkdf_loop.simps) simp
  next
    case False
    let ?L = "length out - i * d" and ?b = "T (Suc i)"
    have lTi: "length (T i) \<le> d" using lT by (cases i) (simp_all add: T_def)
    have "Hmac (calls j) alg (Span prk) (Span (T i @ info @ [word_of_nat (Suc i)])) (Span block)
        = (overlay block 0 (mac alg prk (T i @ info @ [word_of_nat (Suc i)])), Ok (HashDigestLength alg))"
      using p prk lTi HashDigestLength_bounds(2) [of alg] Suc.prems(4) by (intro Hmac_mac) (auto simp: d_def)
    moreover have "overlay block 0 ?b = ?b" using Suc.prems(4) lT by (simp add: overlay_def)
    ultimately have mac: "Hmac (calls j) alg (Span prk) (Span (T i @ info @ [word_of_nat (Suc i)])) (Span block)
        = (?b, Ok d)"
      by (simp add: T_def d_def)
    note step = hkdf_loop_step [where calls = calls, OF mac, of "i * d" out "min d ?L"]
    define rest where "rest = concat (map T [Suc (Suc i)..<Suc n])"
    have cat: "concat (map T [Suc i..<Suc n]) = ?b @ rest"
      unfolding rest_def using Suc.hyps(2) by (subst upt_conv_Cons) auto
    have w: "word_of_nat (Suc i) + 1 = (word_of_nat (Suc (Suc i)) :: UCHAR)" by simp
    show ?thesis
    proof (cases "d \<le> ?L")
      case True
      let ?o = "overlay out (i * d) ?b"
      have lo: "length ?o = length out" using True False lT by (intro length_overlay) auto
      have "hkdf_loop calls alg (Span prk) info (j + 1) ?o (T (Suc i)) ?b (Suc i * d) (word_of_nat (Suc (Suc i)))
          = Some (overlay ?o (Suc i * d) (take (length ?o - Suc i * d) rest), Ok ())"
        unfolding rest_def using Suc.prems Suc.hyps(2) True False lT lo by (intro Suc.hyps(1)) auto
      moreover have "overlay ?o (Suc i * d) (take (length ?o - Suc i * d) rest)
          = overlay out (i * d) (?b @ take (length out - Suc i * d) rest)"
        using overlay_overlay [of "i * d" ?b "take (length out - Suc i * d) rest" out] lo lT [of i] True False
        by (simp add: add.commute)
      moreover have "take ?L (?b @ rest) = ?b @ take (length out - Suc i * d) rest"
        using True lT [of i] by (simp add: diff_diff_add add.commute)
      ultimately show ?thesis
        unfolding cat using step True False lT [of i]
        by (simp only: w min_absorb1 take_all order_refl) (simp add: add.commute)
    next
      case short: False
      have "length (overlay out (i * d) (take ?L ?b)) = length out"
        using False short lT [of i] by (intro length_overlay) auto
      then show ?thesis
        using step short False lT [of i] by (subst step) (simp_all only: cat, simp_all add: min_def hkdf_loop.simps)
    qed
  qed
qed

lemma length_hkdf_blocks:
  assumes "\<And>x. length (mac x) = d"
  shows "length (concat (map (hkdf_T mac info) [1..<Suc n])) = n * d"
proof -
  have "length (hkdf_T mac info i) = d" if i: "i \<in> set [1..<Suc n]" for i
  proof -
    have "0 < i" using i by auto
    then obtain k where "i = Suc k" by (cases i) simp_all
    then show ?thesis by (simp add: assms)
  qed
  then have "map (length \<circ> hkdf_T mac info) [1..<Suc n] = map (\<lambda>_. d) [1..<Suc n]"
    by (intro map_cong) auto
  then show ?thesis by (simp add: length_concat comp_def map_replicate_const sum_list_replicate del: upt_Suc)
qed

lemma blocks_cover: "0 < d \<Longrightarrow> L \<le> (L + d - 1) div d * (d :: nat)"
proof -
  assume d: "0 < d"
  then have "counter_mode d (\<lambda>_. replicate d 0)" by unfold_locales simp_all
  from counter_mode.blocks_enough [OF this, of L] show ?thesis by (simp only: mult.commute)
qed

text \<open>
  C30: \<open>HkdfExpand\<close> returns, whatever amount of key material up to the limit of 255 digests is asked
  for, and what it writes is the output keying material of RFC 5869: the first bytes of
  T(1) | T(2) | ..., where T(i) is the HMAC of T(i-1) | info | i. The hypothesis on the provider is
  that its HMAC calls succeed and return digests of the lengths of their algorithms.
\<close>

theorem HkdfExpand_rfc5869:
  assumes p: "\<And>i. hmac_provider mac (calls i)"
    and prk: "HashDigestLength alg \<le> length prk" "length prk < 2 ^ 32" "length info \<le> 256"
    and out: "0 < length out" "length out \<le> HashDigestLength alg * 255"
  shows "HkdfExpand calls alg (Span prk) (Span info) (Span out)
    = Some (hkdf_okm (mac alg prk) info (HashDigestLength alg) (length out), Ok ())"
proof -
  let ?d = "HashDigestLength alg" and ?L = "length out"
  let ?n = "(?L + ?d - 1) div ?d" and ?cat = "concat (map (hkdf_T (mac alg prk) info) [1..<Suc ((?L + ?d - 1) div ?d)])"
  have d: "0 < ?d" by (rule HashDigestLength_bounds)
  have "hkdf_loop calls alg (Span prk) info 0 out [] (replicate ?d 0) 0 1
      = Some (overlay out 0 (take ?L ?cat), Ok ())"
    using hkdf_loop_rfc5869 [where calls = calls and mac = mac and i = 0 and j = 0 and n = ?n
      and block = "replicate ?d 0" and out = out and alg = alg and prk = prk and info = info]
      p prk d blocks_cover [OF d, of ?L]
    by (cases prk) (auto simp del: upt_Suc)
  moreover have "overlay out 0 (take ?L ?cat) = take ?L ?cat"
  proof -
    have "length ?cat = ?n * ?d"
      using p [of 0] by (intro length_hkdf_blocks) (simp add: hmac_provider_def)
    then show ?thesis using blocks_cover [OF d, of ?L] by (simp add: overlay_def del: upt_Suc)
  qed
  ultimately show ?thesis
    using p [of 0] prk out d
    by (simp add: HkdfExpand_def Let_def RequirePassiveLevel_def hmac_provider_def IsValidBuffer_def
        IsValidMutableBuffer_def hkdf_okm_def del: upt_Suc)
qed

text \<open>
  A provider that keeps the contracts, for concrete runs: a tag and a digest that depend on lengths
  only, and a byte reversal in place of the block cipher.
\<close>

definition sample_mac :: mac_fun where
  "sample_mac alg k d = replicate (HashDigestLength alg) (word_of_nat (length k + length d))"

definition sample_seal :: seal_fun where
  "sample_seal k n a m = (m, replicate 16 (word_of_nat (length a + length m)))"

definition sample_unseal :: unseal_fun where
  "sample_unseal k n a c t = (if t = replicate 16 (word_of_nat (length a + length c)) then Some c else None)"

definition sample_cng :: cng where
  "sample_cng = \<lparr> irqlPassive = True, providerGranted = True, cachedProvider = False, openStatus = Ok (),
     setPropertyStatus = Ok (), objectLengthStatus = Ok (), objectGranted = True, generateKeyStatus = Ok (),
     arraysGranted = True, hashLength = (\<lambda>alg. Ok (word_of_nat (HashDigestLength alg))),
     createHashStatus = Ok (), hashDataStatus = Ok (),
     bcrypt_FinishHash = (\<lambda>alg d out. (sample_mac alg [] d, Ok ())),
     bcrypt_FinishHmac = (\<lambda>alg k d out. (sample_mac alg k d, Ok ())),
     bcrypt_GenRandom = (\<lambda>out. (map (\<lambda>_. 7) out, Ok ())),
     gcm_Encrypt = (\<lambda>k n a m out tg. case sample_seal k n a m of
        (c, t) \<Rightarrow> ((overlay out 0 c, t), Ok (word_of_nat (length m)))),
     gcm_Decrypt = (\<lambda>k n a c t out. case sample_unseal k n a c t of
        Some m \<Rightarrow> (overlay out 0 m, Ok (word_of_nat (length c))) | None \<Rightarrow> (out, Err STATUS_AUTH_TAG_MISMATCH)),
     cbc_Encrypt = (\<lambda>k iv m out. (overlay out 0 (rev m), Ok (word_of_nat (length m)))),
     cbc_Decrypt = (\<lambda>k iv m out. (overlay out 0 (rev m), Ok (word_of_nat (length m)))) \<rparr>"

lemma sample_hmac: "hmac_provider sample_mac sample_cng"
  by (simp add: hmac_provider_def sample_cng_def sample_mac_def)

lemma sample_cbc: "cbc_provider (\<lambda>k iv. rev) (\<lambda>k iv. rev) sample_cng"
  by (simp add: cbc_provider_def sample_cng_def)

lemma sample_gcm: "gcm_provider sample_seal sample_unseal sample_cng"
proof -
  have "aead_scheme 16 (\<lambda>k. length k = 16 \<or> length k = 32) sample_seal sample_unseal"
    by unfold_locales (auto simp: sample_seal_def sample_unseal_def split: if_splits)
  then show ?thesis by (simp add: gcm_provider_def sample_cng_def)
qed

theorem HkdfExpand_rfc5869_witness:
  "HkdfExpand (\<lambda>_. sample_cng) Sha256 (Span (replicate 32 1)) (Span [1, 2, 3]) (Span (replicate 40 0))
   = Some (hkdf_okm (sample_mac Sha256 (replicate 32 1)) [1, 2, 3] 32 40, Ok ())"
  using HkdfExpand_rfc5869 [of sample_mac "\<lambda>_. sample_cng" Sha256 "replicate 32 1" "[1, 2, 3]" "replicate 40 0"]
    sample_hmac by simp

end
