(* ===== verification/Kh_Aead.thy ===== *)
theory Kh_Aead
  imports Kh_ChaCha20Poly1305 Kh_AesCcm Kh_CngProvider
begin

text \<open>
  The entry points of \<open>crypto/Aead.cpp\<close>: \<open>Aead::TagLength\<close>, \<open>Aead::Encrypt\<close>, \<open>Aead::Decrypt\<close> and
  the AES-GCM branch, which goes through \<open>CngProvider\<close> to the operating system. Each algorithm of
  the enumeration names a cipher that keeps the contract \<open>aead_scheme\<close>, and the entry points compute
  that cipher.
\<close>

section \<open>The entry points\<close>

definition EncryptAesGcm ::
  "cng \<Rightarrow> bool \<Rightarrow> AeadKey \<Rightarrow> AeadParameters \<Rightarrow> UCHAR span \<Rightarrow> UCHAR span \<Rightarrow> UCHAR span
   \<Rightarrow> (bytes \<times> bytes) \<times> nat res" where
  "EncryptAesGcm p same key parameters plaintext ciphertext tag =
     AesGcmEncrypt p same (key_Key key) parameters plaintext ciphertext tag"

definition DecryptAesGcm ::
  "cng \<Rightarrow> AeadKey \<Rightarrow> AeadParameters \<Rightarrow> UCHAR span \<Rightarrow> UCHAR span \<Rightarrow> bytes \<times> nat res" where
  "DecryptAesGcm p key parameters ciphertext plaintext =
     AesGcmDecrypt p (key_Key key) parameters ciphertext plaintext"

fun TagLength :: "AeadAlgorithm \<Rightarrow> nat" where
  "TagLength Aes128Gcm = 16"
| "TagLength Aes256Gcm = 16"
| "TagLength ChaCha20Poly1305 = 16"
| "TagLength Aes128Ccm = 16"
| "TagLength Aes128Ccm8 = 8"

definition Aead_Encrypt ::
  "cng \<Rightarrow> aead_heap \<Rightarrow> bool \<Rightarrow> AeadKey \<Rightarrow> AeadParameters \<Rightarrow> UCHAR span \<Rightarrow> UCHAR span \<Rightarrow> UCHAR span
   \<Rightarrow> (bytes \<times> bytes) \<times> nat res" where
  "Aead_Encrypt p heap same key parameters plaintext ciphertext tag =
     (let bufs = (span_list ciphertext, span_list tag)
      in case key_Algorithm key of
           Aes128Gcm \<Rightarrow>
             if span_len (key_Key key) \<noteq> 16 then (bufs, Err STATUS_INVALID_PARAMETER)
             else EncryptAesGcm p same key parameters plaintext ciphertext tag
         | Aes256Gcm \<Rightarrow>
             if span_len (key_Key key) \<noteq> 32 then (bufs, Err STATUS_INVALID_PARAMETER)
             else EncryptAesGcm p same key parameters plaintext ciphertext tag
         | ChaCha20Poly1305 \<Rightarrow> ChaCha20Poly1305Encrypt heap key parameters plaintext ciphertext tag
         | Aes128Ccm \<Rightarrow>
             if span_len tag \<noteq> 16 then (bufs, Err STATUS_INVALID_PARAMETER)
             else AesCcmEncrypt heap key parameters plaintext ciphertext tag
         | Aes128Ccm8 \<Rightarrow>
             if span_len tag \<noteq> 8 then (bufs, Err STATUS_INVALID_PARAMETER)
             else AesCcmEncrypt heap key parameters plaintext ciphertext tag)"

definition Aead_Decrypt ::
  "cng \<Rightarrow> aead_heap \<Rightarrow> AeadKey \<Rightarrow> AeadParameters \<Rightarrow> UCHAR span \<Rightarrow> UCHAR span \<Rightarrow> bytes \<times> nat res" where
  "Aead_Decrypt p heap key parameters ciphertext plaintext =
     (let pt = span_list plaintext
      in case key_Algorithm key of
           Aes128Gcm \<Rightarrow>
             if span_len (key_Key key) \<noteq> 16 then (pt, Err STATUS_INVALID_PARAMETER)
             else DecryptAesGcm p key parameters ciphertext plaintext
         | Aes256Gcm \<Rightarrow>
             if span_len (key_Key key) \<noteq> 32 then (pt, Err STATUS_INVALID_PARAMETER)
             else DecryptAesGcm p key parameters ciphertext plaintext
         | ChaCha20Poly1305 \<Rightarrow> ChaCha20Poly1305Decrypt heap key parameters ciphertext plaintext
         | Aes128Ccm \<Rightarrow>
             if span_len (par_Tag parameters) \<noteq> 16 then (pt, Err STATUS_INVALID_PARAMETER)
             else AesCcmDecrypt heap key parameters ciphertext plaintext
         | Aes128Ccm8 \<Rightarrow>
             if span_len (par_Tag parameters) \<noteq> 8 then (pt, Err STATUS_INVALID_PARAMETER)
             else AesCcmDecrypt heap key parameters ciphertext plaintext)"

section \<open>The cipher each algorithm names\<close>

fun key_length :: "AeadAlgorithm \<Rightarrow> nat" where
  "key_length Aes256Gcm = 32"
| "key_length ChaCha20Poly1305 = 32"
| "key_length _ = 16"

fun aead_seal :: "seal_fun \<Rightarrow> AeadAlgorithm \<Rightarrow> seal_fun" where
  "aead_seal gcm ChaCha20Poly1305 = chacha20_poly1305_seal"
| "aead_seal gcm Aes128Ccm = ccm_seal 16"
| "aead_seal gcm Aes128Ccm8 = ccm_seal 8"
| "aead_seal gcm _ = gcm"

fun aead_unseal :: "unseal_fun \<Rightarrow> AeadAlgorithm \<Rightarrow> unseal_fun" where
  "aead_unseal gcm ChaCha20Poly1305 = chacha20_poly1305_unseal"
| "aead_unseal gcm Aes128Ccm = ccm_unseal 16"
| "aead_unseal gcm Aes128Ccm8 = ccm_unseal 8"
| "aead_unseal gcm _ = gcm"

text \<open>The sizes each algorithm accepts: nonce, additional data, message and output buffer.\<close>

definition aead_sizes :: "AeadAlgorithm \<Rightarrow> bytes \<Rightarrow> bytes \<Rightarrow> bytes \<Rightarrow> nat \<Rightarrow> bool" where
  "aead_sizes alg n a m capacity \<longleftrightarrow>
     length a + length m + 46 \<le> MaxSizeT \<and> length m \<le> capacity \<and>
     (case alg of
        ChaCha20Poly1305 \<Rightarrow> length n = 12
      | Aes128Ccm \<Rightarrow> ccm_params 16 n a m
      | Aes128Ccm8 \<Rightarrow> ccm_params 8 n a m
      | _ \<Rightarrow> 0 < length n \<and> length n < 2 ^ 32 \<and> length a < 2 ^ 32 \<and> capacity < 2 ^ 32)"

definition aead_granted :: "aead_heap \<Rightarrow> bool" where
  "aead_granted heap \<longleftrightarrow> scratchGranted heap \<and> macInputGranted heap \<and> contextGranted heap"

section \<open>The entry points compute the cipher\<close>

lemma aead_scheme_of:
  assumes "gcm_provider gseal gunseal p"
  shows "aead_scheme (TagLength alg) (\<lambda>k. length k = key_length alg) (aead_seal gseal alg) (aead_unseal gunseal alg)"
proof -
  have g: "aead_scheme 16 (\<lambda>k. length k = 16 \<or> length k = 32) gseal gunseal"
    using assms by (simp add: gcm_provider_def)
  have gcm: "aead_scheme 16 (\<lambda>k. length k = L) gseal gunseal" if "L = 16 \<or> L = 32" for L
    using g that unfolding aead_scheme_def by blast
  show ?thesis
    using gcm [of 16] gcm [of 32] chacha.aead_scheme_axioms ccm.aead_scheme_axioms ccm8.aead_scheme_axioms
    by (cases alg) simp_all
qed

lemma Aead_Encrypt_seal:
  assumes p: "gcm_provider gseal gunseal p" and heap: "aead_granted heap"
    and key: "key_Key key = Span k" "key_Algorithm key = alg" "length k = key_length alg"
    and par: "par_Nonce par = Span n" "par_Aad par = Span a"
    and sizes: "aead_sizes alg n a m (length ct)" "length tg = TagLength alg"
    and seal: "aead_seal gseal alg k n a m = (c, t)"
  shows "Aead_Encrypt p heap False key par (Span m) (Span ct) (Span tg)
    = ((overlay ct 0 c, t), Ok (length m))"
proof -
  have gcm: "alg = Aes128Gcm \<or> alg = Aes256Gcm \<Longrightarrow>
      AesGcmEncrypt p False (Span k) par (Span m) (Span ct) (Span tg) = ((overlay ct 0 c, t), Ok (length m))"
    using key par sizes seal by (intro AesGcmEncrypt_seal [OF p]) (auto simp: aead_sizes_def)
  have ccm: "alg = Aes128Ccm \<or> alg = Aes128Ccm8 \<Longrightarrow>
      AesCcmEncrypt heap key par (Span m) (Span ct) (Span tg) = ((overlay ct 0 c, t), Ok (length m))"
    using heap key par sizes seal
    by (intro AesCcmEncrypt_seal)
       (auto simp: aead_sizes_def aead_granted_def ValidateAesCcm_def ccm_params_def IsValidBuffer_def)
  have chacha: "alg = ChaCha20Poly1305 \<Longrightarrow>
      ChaCha20Poly1305Encrypt heap key par (Span m) (Span ct) (Span tg) = ((overlay ct 0 c, t), Ok (length m))"
    using heap key par sizes seal
    by (intro ChaCha20Poly1305Encrypt_seal)
       (auto simp: aead_sizes_def aead_granted_def ValidateChaCha20Poly1305_def IsValidBuffer_def)
  show ?thesis
    using key sizes gcm ccm chacha by (cases alg) (simp_all add: Aead_Encrypt_def EncryptAesGcm_def)
qed

lemma Aead_Decrypt_unseal:
  assumes p: "gcm_provider gseal gunseal p" and heap: "aead_granted heap"
    and key: "key_Key key = Span k" "key_Algorithm key = alg" "length k = key_length alg"
    and par: "par_Nonce par = Span n" "par_Aad par = Span a" "par_Tag par = Span t"
    and sizes: "aead_sizes alg n a c (length pt)" "length t = TagLength alg"
  shows "aead_unseal gunseal alg k n a c t = Some m \<Longrightarrow>
      Aead_Decrypt p heap key par (Span c) (Span pt) = (overlay pt 0 m, Ok (length c))"
    and "aead_unseal gunseal alg k n a c t = None \<Longrightarrow>
      \<exists>s. snd (Aead_Decrypt p heap key par (Span c) (Span pt)) = Err s"
proof -
  note gcm = AesGcmDecrypt_unseal [OF p _ par, of k pt c]
  have ccm: "alg = Aes128Ccm \<or> alg = Aes128Ccm8 \<Longrightarrow> AesCcmDecrypt heap key par (Span c) (Span pt) =
      (case ccm_unseal (length t) k n a c t of None \<Rightarrow> (replicate (length pt) 0, Err STATUS_INVALID_SIGNATURE)
         | Some m \<Rightarrow> (overlay pt 0 m, Ok (length c)))"
    using heap key par sizes
    by (subst AesCcmDecrypt_unseal [of key par t])
       (auto simp: aead_sizes_def aead_granted_def ValidateAesCcm_def ccm_params_def IsValidBuffer_def)
  have chacha: "alg = ChaCha20Poly1305 \<Longrightarrow> ChaCha20Poly1305Decrypt heap key par (Span c) (Span pt) =
      (case chacha20_poly1305_unseal k n a c t of None \<Rightarrow> (pt, Err STATUS_INVALID_SIGNATURE)
         | Some m \<Rightarrow> (overlay pt 0 m, Ok (length c)))"
    using heap key par sizes
    by (subst ChaCha20Poly1305Decrypt_unseal [of key par heap c pt t])
       (auto simp: aead_sizes_def aead_granted_def ValidateChaCha20Poly1305_def IsValidBuffer_def)
  show "Aead_Decrypt p heap key par (Span c) (Span pt) = (overlay pt 0 m, Ok (length c))"
    if "aead_unseal gunseal alg k n a c t = Some m"
    using that key par sizes gcm ccm chacha
    by (cases alg) (simp_all add: Aead_Decrypt_def DecryptAesGcm_def aead_sizes_def)
  show "\<exists>s. snd (Aead_Decrypt p heap key par (Span c) (Span pt)) = Err s"
    if "aead_unseal gunseal alg k n a c t = None"
    using that key par sizes gcm(2) ccm chacha
    by (cases alg) (simp_all add: Aead_Decrypt_def DecryptAesGcm_def aead_sizes_def)
qed

section \<open>Properties\<close>

text \<open>The arguments of a call that can succeed, for a message of the length of \<open>m\<close>.\<close>

definition aead_call :: "AeadKey \<Rightarrow> AeadParameters \<Rightarrow> bytes \<Rightarrow> nat \<Rightarrow> bool" where
  "aead_call key par m capacity \<longleftrightarrow>
     \<not> span_null (key_Key key) \<and> \<not> span_null (par_Nonce par) \<and> \<not> span_null (par_Aad par) \<and>
     span_len (key_Key key) = key_length (key_Algorithm key) \<and>
     aead_sizes (key_Algorithm key) (span_list (par_Nonce par)) (span_list (par_Aad par)) m capacity"

lemma aead_callD:
  assumes "aead_call key par m capacity"
  obtains k n a where "key_Key key = Span k" "par_Nonce par = Span n" "par_Aad par = Span a"
    "length k = key_length (key_Algorithm key)" "aead_sizes (key_Algorithm key) n a m capacity"
  using assms by (cases "key_Key key"; cases "par_Nonce par"; cases "par_Aad par") (auto simp: aead_call_def)

lemma aead_sizes_length: "aead_sizes alg n a m cap \<Longrightarrow> length m' = length m \<Longrightarrow> aead_sizes alg n a m' cap"
  by (cases alg) (simp_all add: aead_sizes_def ccm_params_def)

text \<open>
  Decryption inverts encryption, for every algorithm: what \<open>Aead::Encrypt\<close> writes into the
  ciphertext and tag buffers, \<open>Aead::Decrypt\<close> turns back into the message when it is given the same
  key, nonce and additional data. The hypothesis on AES-GCM, which the operating system computes,
  is the contract of the provider; the other ciphers are the code's own.
\<close>

theorem Aead_roundtrip:
  assumes p: "gcm_provider gseal gunseal p" and heap: "aead_granted heap"
    and call: "aead_call key par m (length ct)" "length tg = TagLength (key_Algorithm key)"
  shows "\<exists>ct' tg'. Aead_Encrypt p heap False key par (Span m) (Span ct) (Span tg) = ((ct', tg'), Ok (length m)) \<and>
    Aead_Decrypt p heap key (par\<lparr>par_Tag := Span tg'\<rparr>) (Span (take (length m) ct')) (Span ct)
      = (overlay ct 0 m, Ok (length m))"
proof -
  let ?alg = "key_Algorithm key"
  obtain k n a where d: "key_Key key = Span k" "par_Nonce par = Span n" "par_Aad par = Span a"
    "length k = key_length ?alg" "aead_sizes ?alg n a m (length ct)"
    using call(1) by (rule aead_callD) (rule that)
  obtain c t where s: "aead_seal gseal ?alg k n a m = (c, t)" by (cases "aead_seal gseal ?alg k n a m")
  note scheme = aead_scheme_of [OF p, of ?alg]
  have len: "length c = length m" "length t = TagLength ?alg"
    using aead_scheme.seal_length [OF scheme d(4) s] by simp_all
  have fits: "length m \<le> length ct" using d(5) by (simp add: aead_sizes_def)
  have "Aead_Encrypt p heap False key par (Span m) (Span ct) (Span tg) = ((overlay ct 0 c, t), Ok (length m))"
    by (rule Aead_Encrypt_seal [OF p heap d(1) refl d(4,2,3,5) call(2) s])
  moreover have "take (length m) (overlay ct 0 c) = c" using fits len by (simp add: overlay_def)
  moreover have "Aead_Decrypt p heap key (par\<lparr>par_Tag := Span t\<rparr>) (Span c) (Span ct) = (overlay ct 0 m, Ok (length c))"
    using d aead_scheme.unseal_seal [OF scheme d(4) s] len aead_sizes_length [OF d(5) len(1)]
    by (intro Aead_Decrypt_unseal(1) [OF p heap]) auto
  ultimately show ?thesis using len by simp
qed

text \<open>
  C26: Forgeries are refused: for every algorithm, \<open>Aead::Decrypt\<close> returns a plaintext for exactly the
  pairs of ciphertext and tag that the cipher makes from that plaintext under this key, nonce and
  additional data; changing any bit of the ciphertext, the tag or the additional data of such a pair
  gives another pair, which decrypts to something else or, like every other input, to an error.
\<close>

theorem Aead_Decrypt_authentic:
  assumes p: "gcm_provider gseal gunseal p" and heap: "aead_granted heap"
    and call: "aead_call key par c (length pt)" "par_Tag par = Span t" "length t = TagLength (key_Algorithm key)"
  shows "snd (Aead_Decrypt p heap key par (Span c) (Span pt)) = Ok (length c) \<and>
      take (length c) (fst (Aead_Decrypt p heap key par (Span c) (Span pt))) = m
    \<longleftrightarrow> aead_seal gseal (key_Algorithm key) (span_list (key_Key key)) (span_list (par_Nonce par))
        (span_list (par_Aad par)) m = (c, t)"
proof -
  let ?alg = "key_Algorithm key"
  obtain k n a where d: "key_Key key = Span k" "par_Nonce par = Span n" "par_Aad par = Span a"
    "length k = key_length ?alg" "aead_sizes ?alg n a c (length pt)"
    using call(1) by (rule aead_callD) (rule that)
  note scheme = aead_scheme_of [OF p, of ?alg]
  note dec = Aead_Decrypt_unseal [OF p heap d(1) refl d(4,2,3) call(2) d(5) call(3)]
  have fits: "length c \<le> length pt" using d(5) by (simp add: aead_sizes_def)
  show ?thesis
  proof (cases "aead_unseal gunseal ?alg k n a c t")
    case None
    then have "aead_seal gseal ?alg k n a m \<noteq> (c, t)"
      using aead_scheme.unseal_iff [OF scheme d(4), of n a c t m] by auto
    then show ?thesis using dec(2) [OF None] d by auto
  next
    case (Some m')
    have "length m' = length c" using aead_scheme.unseal_length [OF scheme d(4) Some] by simp
    then have "take (length c) (overlay pt 0 m') = m'" using fits by (simp add: overlay_def)
    then show ?thesis
      using dec(1) [OF Some] aead_scheme.unseal_iff [OF scheme d(4), of n a c t m] Some d by auto
  qed
qed

text \<open>
  C27: When the tag is wrong, the ciphers the code computes itself fail with
  \<open>STATUS_INVALID_SIGNATURE\<close> and release no plaintext: the output buffer is as it was before the
  call (ChaCha20-Poly1305, which checks the tag first) or all zero (CCM, which decrypts first).
\<close>

theorem Aead_Decrypt_failure_releases_nothing:
  assumes heap: "aead_granted heap" and own: "key_Algorithm key \<noteq> Aes128Gcm" "key_Algorithm key \<noteq> Aes256Gcm"
    and call: "aead_call key par c (length pt)" "par_Tag par = Span t" "length t = TagLength (key_Algorithm key)"
    and bad: "aead_unseal gunseal (key_Algorithm key) (span_list (key_Key key)) (span_list (par_Nonce par))
      (span_list (par_Aad par)) c t = None"
  shows "Aead_Decrypt p heap key par (Span c) (Span pt)
    = (if key_Algorithm key = ChaCha20Poly1305 then pt else replicate (length pt) 0, Err STATUS_INVALID_SIGNATURE)"
proof -
  let ?alg = "key_Algorithm key"
  obtain k n a where d: "key_Key key = Span k" "par_Nonce par = Span n" "par_Aad par = Span a"
    "length k = key_length ?alg" "aead_sizes ?alg n a c (length pt)"
    using call(1) by (rule aead_callD) (rule that)
  have ccm: "?alg = Aes128Ccm \<or> ?alg = Aes128Ccm8 \<Longrightarrow> AesCcmDecrypt heap key par (Span c) (Span pt) =
      (replicate (length pt) 0, Err STATUS_INVALID_SIGNATURE)"
    using heap d bad call(2,3)
    by (subst AesCcmDecrypt_unseal [of key par t])
       (auto simp: aead_sizes_def aead_granted_def ValidateAesCcm_def ccm_params_def IsValidBuffer_def)
  have chacha: "?alg = ChaCha20Poly1305 \<Longrightarrow> ChaCha20Poly1305Decrypt heap key par (Span c) (Span pt) =
      (pt, Err STATUS_INVALID_SIGNATURE)"
    using heap d bad call(2,3)
    by (subst ChaCha20Poly1305Decrypt_unseal [of key par heap c pt t])
       (auto simp: aead_sizes_def aead_granted_def ValidateChaCha20Poly1305_def IsValidBuffer_def)
  show ?thesis
    using own call ccm chacha by (cases ?alg) (simp_all add: Aead_Decrypt_def)
qed

text \<open>Concrete runs.\<close>

definition sample_heap :: aead_heap where
  "sample_heap = \<lparr>scratchGranted = True, macInputGranted = True, contextGranted = True\<rparr>"

definition sample_key :: "AeadAlgorithm \<Rightarrow> AeadKey" where
  "sample_key alg = \<lparr>key_Algorithm = alg, key_Key = Span (replicate (key_length alg) 1)\<rparr>"

definition sample_parameters :: "bytes \<Rightarrow> AeadParameters" where
  "sample_parameters t = \<lparr>par_Nonce = Span (replicate 12 2), par_Aad = Span [3], par_Tag = Span t\<rparr>"

lemma sample_heap_granted: "aead_granted sample_heap"
  by (simp add: sample_heap_def aead_granted_def)

lemma sample_call: "length m = 2 \<Longrightarrow> aead_call (sample_key alg) (sample_parameters t) m 2"
  by (cases alg) (simp_all add: aead_call_def sample_key_def sample_parameters_def aead_sizes_def MaxSizeT_def
      ccm_params_def CcmPayloadLengthFits_def)

lemma sample_tag: "\<exists>t. length t = 16 \<and> aead_unseal sample_unseal ChaCha20Poly1305 k n a c t = None"
proof (cases "chacha20_poly1305_tag k n a c = replicate 16 0")
  case True
  then show ?thesis by (intro exI [of _ "replicate 16 1"]) (simp add: chacha20_poly1305_unseal_def)
next
  case False
  then show ?thesis by (intro exI [of _ "replicate 16 0"]) (simp add: chacha20_poly1305_unseal_def)
qed

theorem Aead_roundtrip_witness:
  "\<exists>ct' tg'. Aead_Encrypt sample_cng sample_heap False (sample_key Aes128Ccm8) (sample_parameters []) (Span [5, 6])
       (Span [0, 0]) (Span (replicate 8 0)) = ((ct', tg'), Ok 2) \<and>
     Aead_Decrypt sample_cng sample_heap (sample_key Aes128Ccm8) (sample_parameters []\<lparr>par_Tag := Span tg'\<rparr>)
       (Span (take 2 ct')) (Span [0, 0]) = ([5, 6], Ok 2)"
  using Aead_roundtrip [OF sample_gcm sample_heap_granted, of "sample_key Aes128Ccm8" "sample_parameters []"
      "[5, 6]" "[0, 0]" "replicate 8 0"] sample_call [of "[5, 6]" Aes128Ccm8 "[]"]
  by (simp add: sample_key_def overlay_def numeral_2_eq_2)

theorem Aead_Decrypt_authentic_witness:
  "snd (Aead_Decrypt sample_cng sample_heap (sample_key Aes256Gcm) (sample_parameters (replicate 16 3))
       (Span [5, 6]) (Span [0, 0])) = Ok 2 \<and>
   take 2 (fst (Aead_Decrypt sample_cng sample_heap (sample_key Aes256Gcm) (sample_parameters (replicate 16 3))
       (Span [5, 6]) (Span [0, 0]))) = [5, 6]"
  using Aead_Decrypt_authentic [OF sample_gcm sample_heap_granted, of "sample_key Aes256Gcm"
      "sample_parameters (replicate 16 3)" "[5, 6]" "[0, 0]" "replicate 16 3" "[5, 6]"]
    sample_call [of "[5, 6]" Aes256Gcm "replicate 16 3"]
  by (simp add: sample_key_def sample_parameters_def sample_seal_def numeral_2_eq_2)

theorem Aead_Decrypt_failure_releases_nothing_witness:
  "\<exists>t. length t = 16 \<and>
     Aead_Decrypt sample_cng sample_heap (sample_key ChaCha20Poly1305) (sample_parameters t) (Span [5, 6]) (Span [7, 7])
       = ([7, 7], Err STATUS_INVALID_SIGNATURE)"
proof -
  obtain t where t: "length t = 16" and bad: "aead_unseal sample_unseal ChaCha20Poly1305
      (replicate 32 1) (replicate 12 2) [3] [5, 6] t = None"
    using sample_tag by blast
  from Aead_Decrypt_failure_releases_nothing [OF sample_heap_granted, of "sample_key ChaCha20Poly1305"
      "sample_parameters t" "[5, 6]" "[7, 7]" t sample_unseal sample_cng]
    sample_call [of "[5, 6]" ChaCha20Poly1305 t] t bad
  show ?thesis by (auto simp: sample_key_def sample_parameters_def numeral_2_eq_2)
qed

end
