(* ===== verification/Kh_TlsRecord.thy ===== *)
theory Kh_TlsRecord
  imports Kh_Aead
begin

text \<open>
  The TLS record layer, \<open>tls/TlsRecord.cpp\<close>: parsing and writing plaintext records and alerts, and
  the protection of records under the AEAD ciphers of TLS 1.2 (\<open>ProtectAesGcm\<close>) and TLS 1.3
  (\<open>ProtectAesGcm13\<close>) and under AES-CBC with encrypt-then-MAC.

  A cipher state is a record; an operation returns it with the destination buffer, the value left in
  \<open>*bytesWritten\<close> and the status. Content types, alert levels and descriptions are \<open>enum class\<close> types
  over a byte that the code fills by casts, so they are bytes here. The source and destination
  buffers of one call do not overlap: the callers pass a buffer of their own for each.
\<close>

section \<open>Data\<close>

definition TlsRecordHeaderLength :: nat where "TlsRecordHeaderLength = 5"
definition TlsMaxPlaintextLength :: nat where "TlsMaxPlaintextLength = 16384"
definition TlsAesGcmExplicitNonceLength :: nat where "TlsAesGcmExplicitNonceLength = 8"
definition TlsAesGcmTagLength :: nat where "TlsAesGcmTagLength = 16"
definition TlsAesGcmFixedIvLength :: nat where "TlsAesGcmFixedIvLength = 4"
definition TlsAesGcmTls13IvLength :: nat where "TlsAesGcmTls13IvLength = 12"
definition TlsAesCbcBlockLength :: nat where "TlsAesCbcBlockLength = 16"
definition Tls13MaxRecordPaddingLength :: nat where
  "Tls13MaxRecordPaddingLength = TlsMaxPlaintextLength - 1"

lemmas tls_lengths [simp] = TlsRecordHeaderLength_def TlsMaxPlaintextLength_def
  TlsAesGcmExplicitNonceLength_def TlsAesGcmTagLength_def TlsAesGcmFixedIvLength_def
  TlsAesGcmTls13IvLength_def TlsAesCbcBlockLength_def Tls13MaxRecordPaddingLength_def

definition TlsContentType_ChangeCipherSpec :: UCHAR where "TlsContentType_ChangeCipherSpec = 20"
definition TlsContentType_Alert :: UCHAR where "TlsContentType_Alert = 21"
definition TlsContentType_Handshake :: UCHAR where "TlsContentType_Handshake = 22"
definition TlsContentType_ApplicationData :: UCHAR where "TlsContentType_ApplicationData = 23"

lemmas tls_content_types = TlsContentType_ChangeCipherSpec_def TlsContentType_Alert_def
  TlsContentType_Handshake_def TlsContentType_ApplicationData_def

definition TlsAlertLevel_Warning :: UCHAR where "TlsAlertLevel_Warning = 1"
definition TlsAlertLevel_Fatal :: UCHAR where "TlsAlertLevel_Fatal = 2"
definition TlsAlertDescription_CloseNotify :: UCHAR where "TlsAlertDescription_CloseNotify = 0"

record TlsAlert =
  alert_Level :: UCHAR
  alert_Description :: UCHAR
  alert_CloseNotify :: bool

record TlsProtocolVersion =
  ver_Major :: UCHAR
  ver_Minor :: UCHAR

record TlsRecordView =
  view_ContentType :: UCHAR
  view_Version :: TlsProtocolVersion
  view_Fragment :: "UCHAR span"
  view_BytesConsumed :: nat

record TlsPlaintextRecord =
  pl_ContentType :: UCHAR
  pl_Version :: TlsProtocolVersion
  pl_Fragment :: "UCHAR span"
  pl_Tls13PaddingLength :: nat

text \<open>The fragment of the mutable record is the caller's plaintext buffer; only its length is new.\<close>

record TlsMutablePlaintextRecord =
  mut_ContentType :: UCHAR
  mut_Version :: TlsProtocolVersion
  mut_FragmentLength :: nat

record TlsAeadCipherState =
  st_Algorithm :: AeadAlgorithm
  st_Key :: bytes
  st_KeyLength :: nat
  st_FixedIv :: bytes
  st_FixedIvLength :: nat
  st_MacKey :: bytes
  st_MacKeyLength :: nat
  st_MacAlgorithm :: HashAlgorithm
  st_EncryptThenMac :: bool
  st_NonceScratch :: bytes
  st_AadScratch :: bytes
  st_SequenceNumber :: ULONGLONG

definition Reset :: "TlsAeadCipherState \<Rightarrow> TlsAeadCipherState" where
  "Reset st = st\<lparr> st_Algorithm := Aes128Gcm, st_Key := replicate 32 0, st_KeyLength := 0,
     st_FixedIv := replicate 12 0, st_FixedIvLength := 0, st_MacKey := replicate 64 0, st_MacKeyLength := 0,
     st_MacAlgorithm := Sha256, st_EncryptThenMac := False, st_NonceScratch := replicate 12 0,
     st_AadScratch := replicate 13 0, st_SequenceNumber := 0 \<rparr>"

section \<open>Helpers\<close>

definition IsValidContentType :: "UCHAR \<Rightarrow> bool" where
  "IsValidContentType contentType \<longleftrightarrow>
     contentType = TlsContentType_ChangeCipherSpec \<or> contentType = TlsContentType_Alert \<or>
     contentType = TlsContentType_Handshake \<or> contentType = TlsContentType_ApplicationData"

definition IsSupportedVersion :: "TlsProtocolVersion \<Rightarrow> bool" where
  "IsSupportedVersion version \<longleftrightarrow> ver_Major version = 3 \<and> 1 \<le> ver_Minor version \<and> ver_Minor version \<le> 3"

fun ReadUint16 :: "bytes \<Rightarrow> nat res" where
  "ReadUint16 (b0 # b1 # rest) = Ok (push_bit 8 (unat b0) OR unat b1)"
| "ReadUint16 _ = Fault"

definition WriteUint16 :: "USHORT \<Rightarrow> bytes" where
  "WriteUint16 v = [ucast (drop_bit 8 v AND 0xff), ucast (v AND 0xff)]"

definition ValidatePlaintextRecord :: "TlsPlaintextRecord \<Rightarrow> unit res" where
  "ValidatePlaintextRecord r =
     (if \<not> IsSupportedVersion (pl_Version r) \<or> span_len (pl_Fragment r) > TlsMaxPlaintextLength \<or>
         (span_null (pl_Fragment r) \<and> span_len (pl_Fragment r) \<noteq> 0)
      then Err STATUS_INVALID_PARAMETER else Ok ())"

definition WriteSequenceNumber :: "ULONGLONG \<Rightarrow> bytes" where
  "WriteSequenceNumber sequenceNumber =
     map (\<lambda>index. ucast (drop_bit ((8 - 1 - index) * 8) sequenceNumber AND 0xff)) [0..<8]"

definition BuildAesGcmNonce :: "TlsAeadCipherState \<Rightarrow> bytes \<Rightarrow> bytes" where
  "BuildAesGcmNonce st explicitNonce =
     take TlsAesGcmFixedIvLength (st_FixedIv st) @ take TlsAesGcmExplicitNonceLength explicitNonce"

definition BuildAad :: "ULONGLONG \<Rightarrow> UCHAR \<Rightarrow> TlsProtocolVersion \<Rightarrow> nat \<Rightarrow> bytes" where
  "BuildAad sequenceNumber contentType version plaintextLength =
     WriteSequenceNumber sequenceNumber @ [contentType, ver_Major version, ver_Minor version]
     @ WriteUint16 (word_of_nat plaintextLength)"

definition BuildTls13Nonce :: "TlsAeadCipherState \<Rightarrow> bytes" where
  "BuildTls13Nonce st =
     (let nonce = take TlsAesGcmTls13IvLength (st_FixedIv st)
      in fold (\<lambda>index nonce.
           nonce[4 + index := (nonce ! (4 + index)) XOR
             ucast (drop_bit ((8 - 1 - index) * 8) (st_SequenceNumber st) AND 0xff)])
         [0..<8] nonce)"

definition BuildTls13Aad :: "nat \<Rightarrow> bytes" where
  "BuildTls13Aad encryptedFragmentLength =
     [TlsContentType_ApplicationData, 3, 3] @ WriteUint16 (word_of_nat encryptedFragmentLength)"

definition ValidateSequenceCanAdvance :: "TlsAeadCipherState \<Rightarrow> unit res" where
  "ValidateSequenceCanAdvance st =
     (if st_SequenceNumber st = - 1 then Err STATUS_INVALID_DEVICE_STATE else Ok ())"

definition IncrementSequence :: "TlsAeadCipherState \<Rightarrow> TlsAeadCipherState res" where
  "IncrementSequence st =
     (if st_SequenceNumber st = - 1 then Err STATUS_INVALID_DEVICE_STATE
      else Ok (st\<lparr>st_SequenceNumber := st_SequenceNumber st + 1\<rparr>))"

text \<open>The two scratch arrays of the state are cleared after each use.\<close>

definition wipe_scratch :: "TlsAeadCipherState \<Rightarrow> TlsAeadCipherState" where
  "wipe_scratch st = st\<lparr>st_NonceScratch := replicate 12 0, st_AadScratch := replicate 13 0\<rparr>"

definition state_key :: "TlsAeadCipherState \<Rightarrow> AeadKey" where
  "state_key st = \<lparr>key_Algorithm = st_Algorithm st, key_Key = Span (take (st_KeyLength st) (st_Key st))\<rparr>"

definition record_header :: "UCHAR \<Rightarrow> TlsProtocolVersion \<Rightarrow> nat \<Rightarrow> bytes" where
  "record_header contentType version len =
     [contentType, ver_Major version, ver_Minor version] @ WriteUint16 (word_of_nat len)"

section \<open>Plaintext records and alerts\<close>

definition Tls_Parse :: "UCHAR span \<Rightarrow> TlsRecordView res" where
  "Tls_Parse input =
     (let data = span_list input; dataLength = span_len input
      in if span_null input then Err STATUS_INVALID_PARAMETER
         else if dataLength < TlsRecordHeaderLength then Err STATUS_MORE_PROCESSING_REQUIRED
         else rbind (rd data 0) (\<lambda>contentType.
              if \<not> IsValidContentType contentType then Err STATUS_INVALID_NETWORK_RESPONSE
              else rbind (rd data 1) (\<lambda>major. rbind (rd data 2) (\<lambda>minor.
                let version = \<lparr>ver_Major = major, ver_Minor = minor\<rparr>
                in if \<not> IsSupportedVersion version then Err STATUS_INVALID_NETWORK_RESPONSE
                   else rbind (ReadUint16 (drop 3 data)) (\<lambda>fragmentLength.
                     if fragmentLength > TlsMaxPlaintextLength + 2048 then Err STATUS_INVALID_NETWORK_RESPONSE
                     else if dataLength - TlsRecordHeaderLength < fragmentLength
                     then Err STATUS_MORE_PROCESSING_REQUIRED
                     else Ok \<lparr>view_ContentType = contentType, view_Version = version,
                            view_Fragment = Span (take fragmentLength (drop TlsRecordHeaderLength data)),
                            view_BytesConsumed = TlsRecordHeaderLength + fragmentLength\<rparr>)))))"

definition EncodePlaintext :: "TlsPlaintextRecord \<Rightarrow> UCHAR span \<Rightarrow> (bytes \<times> nat) \<times> unit res" where
  "EncodePlaintext r destination =
     (let dest = span_list destination; len = span_len (pl_Fragment r)
      in after (dest, 0) (ValidatePlaintextRecord r) (\<lambda>_.
           let required = TlsRecordHeaderLength + len
           in if span_null destination \<or> span_len destination < required
              then ((dest, required), Err STATUS_BUFFER_TOO_SMALL)
              else let dest = overlay dest 0 (record_header (pl_ContentType r) (pl_Version r) len);
                       dest = (if len \<noteq> 0 then overlay dest TlsRecordHeaderLength (span_list (pl_Fragment r)) else dest)
                   in ((dest, required), Ok ())))"

definition EncodeAlert ::
  "bool \<Rightarrow> TlsProtocolVersion \<Rightarrow> UCHAR \<Rightarrow> UCHAR \<Rightarrow> UCHAR span \<Rightarrow> nat \<Rightarrow> (bytes \<times> nat) \<times> unit res" where
  "EncodeAlert granted version level description destination written =
     (if \<not> granted then ((span_list destination, written), Err STATUS_INSUFFICIENT_RESOURCES)
      else EncodePlaintext \<lparr>pl_ContentType = TlsContentType_Alert, pl_Version = version,
             pl_Fragment = Span [level, description], pl_Tls13PaddingLength = 0\<rparr> destination)"

definition DecodeAlert :: "UCHAR span \<Rightarrow> TlsAlert res" where
  "DecodeAlert fragment =
     (if span_null fragment \<or> span_len fragment \<noteq> 2 then Err STATUS_INVALID_NETWORK_RESPONSE
      else rbind (rd (span_list fragment) 0) (\<lambda>level.
           if level \<noteq> TlsAlertLevel_Warning \<and> level \<noteq> TlsAlertLevel_Fatal
           then Err STATUS_INVALID_NETWORK_RESPONSE
           else rbind (rd (span_list fragment) 1) (\<lambda>description.
                Ok \<lparr>alert_Level = level, alert_Description = description,
                    alert_CloseNotify = (description = TlsAlertDescription_CloseNotify)\<rparr>)))"

section \<open>TLS 1.2: AEAD\<close>

type_synonym protect_result = "(TlsAeadCipherState \<times> bytes \<times> nat) \<times> unit res"
type_synonym unprotect_result = "(TlsAeadCipherState \<times> bytes) \<times> TlsMutablePlaintextRecord res"

definition ProtectAesGcm ::
  "cng \<Rightarrow> aead_heap \<Rightarrow> TlsPlaintextRecord \<Rightarrow> TlsAeadCipherState \<Rightarrow> UCHAR span \<Rightarrow> protect_result" where
  "ProtectAesGcm p heap plaintext st destination =
     (let dest = span_list destination; len = span_len (pl_Fragment plaintext)
      in after (st, dest, 0) (ValidatePlaintextRecord plaintext) (\<lambda>_.
           if st_KeyLength st = 0 \<or> st_KeyLength st > 32 \<or> st_FixedIvLength st \<noteq> TlsAesGcmFixedIvLength
           then ((st, dest, 0), Err STATUS_INVALID_PARAMETER)
           else after (st, dest, 0) (ValidateSequenceCanAdvance st) (\<lambda>_.
             let encryptedFragmentLength = TlsAesGcmExplicitNonceLength + len + TlsAesGcmTagLength;
                 required = TlsRecordHeaderLength + encryptedFragmentLength
             in if span_null destination \<or> span_len destination < required
                then ((st, dest, required), Err STATUS_BUFFER_TOO_SMALL)
                else
                  let dest = overlay dest 0
                        (record_header (pl_ContentType plaintext) (pl_Version plaintext) encryptedFragmentLength);
                      explicitNonce = WriteSequenceNumber (st_SequenceNumber st);
                      dest = overlay dest TlsRecordHeaderLength explicitNonce;
                      nonce = BuildAesGcmNonce st explicitNonce;
                      aad = BuildAad (st_SequenceNumber st) (pl_ContentType plaintext) (pl_Version plaintext) len;
                      parameters = \<lparr>par_Nonce = Span nonce, par_Aad = Span aad, par_Tag = NullSpan 0\<rparr>
                  in case Aead_Encrypt p heap False (state_key st) parameters (pl_Fragment plaintext)
                            (Span (take len (drop 13 dest))) (Span (take TlsAesGcmTagLength (drop (13 + len) dest))) of
                       ((ct, tag), status) \<Rightarrow>
                         let dest = overlay (overlay dest 13 ct) (13 + len) tag; st = wipe_scratch st
                         in after (st, dest, 0) status (\<lambda>encryptedLength.
                              if encryptedLength \<noteq> len then ((st, dest, 0), Err STATUS_INVALID_NETWORK_RESPONSE)
                              else after (st, dest, 0) (IncrementSequence st) (\<lambda>st.
                                   ((st, dest, required), Ok ()))))))"

definition UnprotectAesGcm ::
  "cng \<Rightarrow> aead_heap \<Rightarrow> TlsRecordView \<Rightarrow> TlsAeadCipherState \<Rightarrow> UCHAR span \<Rightarrow> unprotect_result" where
  "UnprotectAesGcm p heap encrypted st plaintext =
     (let pt = span_list plaintext; frag = span_list (view_Fragment encrypted);
          fragmentLength = span_len (view_Fragment encrypted)
      in if span_null (view_Fragment encrypted) \<or>
            fragmentLength < TlsAesGcmExplicitNonceLength + TlsAesGcmTagLength \<or>
            st_KeyLength st = 0 \<or> st_KeyLength st > 32 \<or> st_FixedIvLength st \<noteq> TlsAesGcmFixedIvLength
         then ((st, pt), Err STATUS_INVALID_PARAMETER)
         else
           let plaintextLength = fragmentLength - TlsAesGcmExplicitNonceLength - TlsAesGcmTagLength
           in if span_null plaintext \<or> span_len plaintext < plaintextLength
              then ((st, pt), Err STATUS_BUFFER_TOO_SMALL)
              else after (st, pt) (ValidateSequenceCanAdvance st) (\<lambda>_.
                let ciphertext = take plaintextLength (drop TlsAesGcmExplicitNonceLength frag);
                    tag = drop (fragmentLength - TlsAesGcmTagLength) frag;
                    nonce = BuildAesGcmNonce st frag;
                    aad = BuildAad (st_SequenceNumber st) (view_ContentType encrypted)
                            (view_Version encrypted) plaintextLength;
                    parameters = \<lparr>par_Nonce = Span nonce, par_Aad = Span aad, par_Tag = Span tag\<rparr>
                in case Aead_Decrypt p heap (state_key st) parameters (Span ciphertext) plaintext of
                     (pt, status) \<Rightarrow>
                       let st = wipe_scratch st
                       in after (st, pt) status (\<lambda>decryptedLength.
                            if decryptedLength \<noteq> plaintextLength
                            then ((st, pt), Err STATUS_INVALID_NETWORK_RESPONSE)
                            else after (st, pt) (IncrementSequence st) (\<lambda>st.
                                 ((st, pt), Ok \<lparr>mut_ContentType = view_ContentType encrypted,
                                    mut_Version = view_Version encrypted,
                                    mut_FragmentLength = plaintextLength\<rparr>)))))"

section \<open>TLS 1.3\<close>

definition ProtectAesGcm13WithScratch ::
  "cng \<Rightarrow> aead_heap \<Rightarrow> TlsPlaintextRecord \<Rightarrow> TlsAeadCipherState \<Rightarrow> nat option \<Rightarrow> UCHAR span \<Rightarrow> protect_result" where
  "ProtectAesGcm13WithScratch p heap plaintext st scratchCapacity destination =
     (let dest = span_list destination; len = span_len (pl_Fragment plaintext)
      in after (st, dest, 0) (ValidatePlaintextRecord plaintext) (\<lambda>_.
           if st_KeyLength st = 0 \<or> st_KeyLength st > 32 \<or> st_FixedIvLength st \<noteq> TlsAesGcmTls13IvLength \<or>
              pl_Tls13PaddingLength plaintext > Tls13MaxRecordPaddingLength \<or>
              pl_Tls13PaddingLength plaintext > TlsMaxPlaintextLength - len
           then ((st, dest, 0), Err STATUS_INVALID_PARAMETER)
           else after (st, dest, 0) (ValidateSequenceCanAdvance st) (\<lambda>_.
             let innerPlaintextLength = len + 1 + pl_Tls13PaddingLength plaintext;
                 encryptedFragmentLength = innerPlaintextLength + TlsAesGcmTagLength;
                 required = TlsRecordHeaderLength + encryptedFragmentLength
             in if encryptedFragmentLength > 0xffff then ((st, dest, 0), Err STATUS_INVALID_PARAMETER)
                else if span_null destination \<or> span_len destination < required
                then ((st, dest, required), Err STATUS_BUFFER_TOO_SMALL)
                else if scratchCapacity = None \<or> the scratchCapacity < innerPlaintextLength
                then ((st, dest, 0), Err STATUS_BUFFER_TOO_SMALL)
                else
                  let aad = BuildTls13Aad encryptedFragmentLength;
                      nonce = BuildTls13Nonce st;
                      parameters = \<lparr>par_Nonce = Span nonce, par_Aad = Span aad, par_Tag = NullSpan 0\<rparr>;
                      innerPlaintext = span_list (pl_Fragment plaintext) @ [pl_ContentType plaintext]
                        @ replicate (pl_Tls13PaddingLength plaintext) 0;
                      dest = overlay dest 0 aad
                  in case Aead_Encrypt p heap False (state_key st) parameters (Span innerPlaintext)
                            (Span (take innerPlaintextLength (drop 5 dest)))
                            (Span (take TlsAesGcmTagLength (drop (5 + innerPlaintextLength) dest))) of
                       ((ct, tag), status) \<Rightarrow>
                         let dest = overlay (overlay dest 5 ct) (5 + innerPlaintextLength) tag;
                             st = wipe_scratch st
                         in case status of
                              Err s \<Rightarrow> ((st, overlay dest 5 (replicate innerPlaintextLength 0), 0), Err s)
                            | Fault \<Rightarrow> ((st, dest, 0), Fault)
                            | Ok encryptedLength \<Rightarrow>
                                let wiped = overlay dest 5 (replicate (innerPlaintextLength + TlsAesGcmTagLength) 0)
                                in if encryptedLength \<noteq> innerPlaintextLength
                                   then ((st, wiped, 0), Err STATUS_INVALID_NETWORK_RESPONSE)
                                   else after (st, wiped, 0) (IncrementSequence st) (\<lambda>st.
                                        ((st, dest, required), Ok ())))))"

definition ProtectAesGcm13 ::
  "cng \<Rightarrow> aead_heap \<Rightarrow> bool \<Rightarrow> TlsPlaintextRecord \<Rightarrow> TlsAeadCipherState \<Rightarrow> UCHAR span \<Rightarrow> protect_result" where
  "ProtectAesGcm13 p heap granted plaintext st destination =
     (if \<not> granted then ((st, span_list destination, 0), Err STATUS_INSUFFICIENT_RESOURCES)
      else ProtectAesGcm13WithScratch p heap plaintext st (Some (TlsMaxPlaintextLength + 1)) destination)"

text \<open>The loop that steps over the padding, from the end of the plaintext.\<close>

fun content_type_offset :: "bytes \<Rightarrow> nat \<Rightarrow> nat res" where
  "content_type_offset plaintext 0 = Ok 0"
| "content_type_offset plaintext (Suc n) =
     rbind (rd plaintext n) (\<lambda>b. if b = 0 then content_type_offset plaintext n else Ok (Suc n))"

definition UnprotectAesGcm13 ::
  "cng \<Rightarrow> aead_heap \<Rightarrow> TlsRecordView \<Rightarrow> TlsAeadCipherState \<Rightarrow> UCHAR span \<Rightarrow> unprotect_result" where
  "UnprotectAesGcm13 p heap encrypted st plaintext =
     (let pt = span_list plaintext; frag = span_list (view_Fragment encrypted);
          fragmentLength = span_len (view_Fragment encrypted)
      in if view_ContentType encrypted \<noteq> TlsContentType_ApplicationData \<or>
            span_null (view_Fragment encrypted) \<or> fragmentLength < 1 + TlsAesGcmTagLength \<or>
            st_KeyLength st = 0 \<or> st_KeyLength st > 32 \<or> st_FixedIvLength st \<noteq> TlsAesGcmTls13IvLength
         then ((st, pt), Err STATUS_INVALID_PARAMETER)
         else
           let innerPlaintextLength = fragmentLength - TlsAesGcmTagLength
           in if span_null plaintext \<or> span_len plaintext < innerPlaintextLength
              then ((st, pt), Err STATUS_BUFFER_TOO_SMALL)
              else after (st, pt) (ValidateSequenceCanAdvance st) (\<lambda>_.
                let aad = BuildTls13Aad fragmentLength;
                    nonce = BuildTls13Nonce st;
                    parameters = \<lparr>par_Nonce = Span nonce, par_Aad = Span aad,
                      par_Tag = Span (drop (fragmentLength - TlsAesGcmTagLength) frag)\<rparr>
                in case Aead_Decrypt p heap (state_key st) parameters (Span (take innerPlaintextLength frag)) plaintext of
                     (pt, status) \<Rightarrow>
                       let st = wipe_scratch st
                       in after (st, pt) status (\<lambda>decryptedLength.
                            if decryptedLength = 0 \<or> decryptedLength \<noteq> innerPlaintextLength
                            then ((st, pt), Err STATUS_INVALID_NETWORK_RESPONSE)
                            else after (st, pt) (content_type_offset pt decryptedLength) (\<lambda>contentTypeOffset.
                                 if contentTypeOffset = 0 then ((st, pt), Err STATUS_INVALID_NETWORK_RESPONSE)
                                 else after (st, pt) (rd pt (contentTypeOffset - 1)) (\<lambda>innerType.
                                      if \<not> IsValidContentType innerType
                                      then ((st, pt), Err STATUS_INVALID_NETWORK_RESPONSE)
                                      else after (st, pt) (IncrementSequence st) (\<lambda>st.
                                           ((st, pt), Ok \<lparr>mut_ContentType = innerType,
                                              mut_Version = view_Version encrypted,
                                              mut_FragmentLength = contentTypeOffset - 1\<rparr>)))))))"

section \<open>TLS 1.2: AES-CBC with encrypt-then-MAC\<close>

text \<open>
  The key array with the length the state gives for it; a length beyond the array is refused by the
  cipher before any byte is read. The record layer has its own copy of \<open>HashDigestLength\<close>, with the
  same values. \<open>granted\<close> says whether the temporary arrays could be allocated.
\<close>

definition key_span :: "TlsAeadCipherState \<Rightarrow> UCHAR span" where
  "key_span st = (if st_KeyLength st \<le> length (st_Key st) then Span (take (st_KeyLength st) (st_Key st))
                  else NullSpan (st_KeyLength st))"

definition mac_key_span :: "TlsAeadCipherState \<Rightarrow> UCHAR span" where
  "mac_key_span st = Span (take (st_MacKeyLength st) (st_MacKey st))"

definition ProtectAesCbcEncryptThenMac ::
  "cng \<Rightarrow> bool \<Rightarrow> TlsPlaintextRecord \<Rightarrow> TlsAeadCipherState \<Rightarrow> UCHAR span \<Rightarrow> protect_result" where
  "ProtectAesCbcEncryptThenMac p granted plaintext st destination =
     (let dest = span_list destination; len = span_len (pl_Fragment plaintext)
      in after (st, dest, 0) (ValidatePlaintextRecord plaintext) (\<lambda>_.
           if span_null destination \<or> \<not> st_EncryptThenMac st \<or> st_KeyLength st = 0 \<or> st_MacKeyLength st = 0 \<or>
              st_MacKeyLength st \<noteq> HashDigestLength (st_MacAlgorithm st)
           then ((st, dest, 0), Err STATUS_INVALID_PARAMETER)
           else after (st, dest, 0) (ValidateSequenceCanAdvance st) (\<lambda>_.
             let paddingLength = TlsAesCbcBlockLength - (len + 1) mod TlsAesCbcBlockLength;
                 paddedLength = len + paddingLength + 1;
                 encryptedPartLength = TlsAesCbcBlockLength + paddedLength;
                 recordFragmentLength = encryptedPartLength + st_MacKeyLength st;
                 required = TlsRecordHeaderLength + recordFragmentLength
             in if paddedLength > TlsMaxPlaintextLength + TlsAesCbcBlockLength \<or>
                   recordFragmentLength > 0xffff \<or> span_len destination < required
                then ((st, dest, required), Err STATUS_BUFFER_TOO_SMALL)
                else if \<not> granted then ((st, dest, 0), Err STATUS_INSUFFICIENT_RESOURCES)
                else case GenerateRandom p (Span (replicate TlsAesCbcBlockLength 0)) of (explicitIv, status) \<Rightarrow>
                  after (st, dest, 0) status (\<lambda>_.
                    let padded = span_list (pl_Fragment plaintext)
                          @ replicate (paddedLength - len) (word_of_nat paddingLength);
                        dest = overlay dest 0
                          (record_header (pl_ContentType plaintext) (pl_Version plaintext) recordFragmentLength);
                        dest = overlay dest TlsRecordHeaderLength explicitIv
                    in case AesCbcEncrypt p (key_span st) (Span explicitIv) (Span padded) (Span (drop 21 dest)) of
                         (ct, status) \<Rightarrow>
                           let dest = overlay dest 21 ct;
                               wiped = overlay dest 0 (replicate required 0)
                           in after (st, wiped, 0) status (\<lambda>encryptedLength.
                                if encryptedLength \<noteq> paddedLength
                                then ((st, wiped, 0), Err STATUS_INVALID_NETWORK_RESPONSE)
                                else
                                  let macInput = BuildAad (st_SequenceNumber st) (pl_ContentType plaintext)
                                        (pl_Version plaintext) encryptedPartLength
                                        @ take encryptedPartLength (drop TlsRecordHeaderLength dest)
                                  in case Hmac p (st_MacAlgorithm st) (mac_key_span st) (Span macInput)
                                            (Span (replicate (st_MacKeyLength st) 0)) of (mac, status) \<Rightarrow>
                                       after (st, wiped, 0) status (\<lambda>macLength.
                                         if macLength \<noteq> st_MacKeyLength st
                                         then ((st, wiped, 0), Err STATUS_INVALID_NETWORK_RESPONSE)
                                         else
                                           let dest = overlay dest (TlsRecordHeaderLength + encryptedPartLength)
                                                        (take macLength mac);
                                               wiped = overlay dest 0 (replicate required 0)
                                           in after (st, wiped, 0) (IncrementSequence st) (\<lambda>st.
                                                ((st, dest, required), Ok ()))))))))"

text \<open>The comparison of the padding bytes, from the end of the plaintext.\<close>

fun padding_loop :: "bytes \<Rightarrow> nat \<Rightarrow> UCHAR \<Rightarrow> UCHAR \<Rightarrow> nat \<Rightarrow> UCHAR res" where
  "padding_loop plaintext decryptedLength paddingValue difference 0 = Ok difference"
| "padding_loop plaintext decryptedLength paddingValue difference (Suc n) =
     rbind (rd plaintext (decryptedLength - 1)) (\<lambda>b.
       padding_loop plaintext (decryptedLength - 1) paddingValue (difference OR (b XOR paddingValue)) n)"

definition UnprotectAesCbcEncryptThenMac ::
  "cng \<Rightarrow> bool \<Rightarrow> TlsRecordView \<Rightarrow> TlsAeadCipherState \<Rightarrow> UCHAR span \<Rightarrow> unprotect_result" where
  "UnprotectAesCbcEncryptThenMac p granted encrypted st plaintext =
     (let pt = span_list plaintext; frag = span_list (view_Fragment encrypted);
          fragmentLength = span_len (view_Fragment encrypted)
      in if \<not> st_EncryptThenMac st \<or> st_KeyLength st = 0 \<or> st_MacKeyLength st = 0 \<or>
            st_MacKeyLength st \<noteq> HashDigestLength (st_MacAlgorithm st) \<or> span_null plaintext
         then ((st, pt), Err STATUS_INVALID_PARAMETER)
         else if span_null (view_Fragment encrypted) \<or>
                 fragmentLength \<le> TlsAesCbcBlockLength + st_MacKeyLength st \<or>
                 span_len plaintext < fragmentLength \<or> fragmentLength > TlsMaxPlaintextLength + 2048
         then ((st, pt), Err STATUS_INVALID_NETWORK_RESPONSE)
         else
           let encryptedPartLength = fragmentLength - st_MacKeyLength st;
               ciphertextLength = encryptedPartLength - TlsAesCbcBlockLength
           in if ciphertextLength = 0 \<or> ciphertextLength mod TlsAesCbcBlockLength \<noteq> 0
              then ((st, pt), Err STATUS_INVALID_NETWORK_RESPONSE)
              else after (st, pt) (ValidateSequenceCanAdvance st) (\<lambda>_.
                if \<not> granted then ((st, pt), Err STATUS_INSUFFICIENT_RESOURCES)
                else
                  let macInput = BuildAad (st_SequenceNumber st) (view_ContentType encrypted)
                        (view_Version encrypted) encryptedPartLength @ take encryptedPartLength frag
                  in case Hmac p (st_MacAlgorithm st) (mac_key_span st) (Span macInput)
                            (Span (replicate (st_MacKeyLength st) 0)) of (expectedMac, status) \<Rightarrow>
                     after (st, pt) status (\<lambda>expectedMacLength.
                       if expectedMacLength \<noteq> st_MacKeyLength st
                       then ((st, pt), Err STATUS_INVALID_NETWORK_RESPONSE)
                       else after (st, pt)
                              (MemoryEquals expectedMac (drop encryptedPartLength frag) (st_MacKeyLength st)) (\<lambda>equal.
                            if \<not> equal then ((st, pt), Err STATUS_INVALID_SIGNATURE)
                            else
                              case AesCbcDecrypt p (key_span st) (Span (take TlsAesCbcBlockLength frag))
                                     (Span (take ciphertextLength (drop TlsAesCbcBlockLength frag))) plaintext of
                                (pt, status) \<Rightarrow>
                                after (st, pt) status (\<lambda>decryptedLength.
                                  if decryptedLength = 0 \<or> decryptedLength \<noteq> ciphertextLength
                                  then ((st, pt), Err STATUS_INVALID_NETWORK_RESPONSE)
                                  else
                                    let wiped = overlay pt 0 (replicate decryptedLength 0)
                                    in after (st, pt) (rd pt (decryptedLength - 1)) (\<lambda>paddingValue.
                                       let paddingBytes = unat paddingValue + 1
                                       in if paddingBytes > decryptedLength
                                          then ((st, wiped), Err STATUS_INVALID_NETWORK_RESPONSE)
                                          else after (st, pt)
                                                 (padding_loop pt decryptedLength paddingValue 0 paddingBytes) (\<lambda>difference.
                                               if difference \<noteq> 0
                                               then ((st, wiped), Err STATUS_INVALID_NETWORK_RESPONSE)
                                               else after (st, wiped) (IncrementSequence st) (\<lambda>st.
                                                    ((st, pt), Ok \<lparr>mut_ContentType = view_ContentType encrypted,
                                                       mut_Version = view_Version encrypted,
                                                       mut_FragmentLength = decryptedLength - paddingBytes\<rparr>)))))))))"

section \<open>Headers\<close>

lemma WriteUint16_be: "n < 65536 \<Longrightarrow> WriteUint16 (word_of_nat n) = [word_of_nat (n div 256), word_of_nat n]"
proof -
  assume n: "n < 65536"
  then have u: "unat (word_of_nat n :: USHORT) = n" by (simp add: unsigned_of_nat take_bit_nat_eq_self)
  show ?thesis
    using low_byte_drop_bit [of 8 "word_of_nat n :: USHORT"] low_byte_drop_bit [of 0 "word_of_nat n :: USHORT"] u
    by (simp add: WriteUint16_def)
qed

lemma length_WriteUint16 [simp]: "length (WriteUint16 v) = 2"
  by (simp add: WriteUint16_def)

lemma ReadUint16_Write: "n < 65536 \<Longrightarrow> ReadUint16 (WriteUint16 (word_of_nat n) @ rest) = Ok n"
proof -
  assume n: "n < 65536"
  have "push_bit 8 (n div 256) OR (n mod 256) = n"
  proof -
    have "push_bit 8 (n div 256) OR (n mod 256) = push_bit 8 (drop_bit 8 n) OR take_bit 8 n"
      by (simp add: drop_bit_eq_div take_bit_eq_mod)
    also have "\<dots> = n"
      by (rule bit_eqI) (auto simp: bit_or_iff bit_push_bit_iff bit_drop_bit_eq bit_take_bit_iff)
    finally show ?thesis .
  qed
  moreover have "n div 256 < 256" using n by auto
  ultimately show ?thesis using n
    by (simp add: WriteUint16_be unsigned_of_nat take_bit_eq_mod)
qed

lemma length_record_header [simp]: "length (record_header t v n) = 5"
  by (simp add: record_header_def)

lemma BuildTls13Aad_header:
  "BuildTls13Aad n = record_header TlsContentType_ApplicationData \<lparr>ver_Major = 3, ver_Minor = 3\<rparr> n"
  by (simp add: BuildTls13Aad_def record_header_def)

lemma length_BuildTls13Aad [simp]: "length (BuildTls13Aad n) = 5"
  by (simp add: BuildTls13Aad_def)

lemma Tls_Parse_header:
  assumes "IsValidContentType t" "IsSupportedVersion v" "length frag \<le> 18432"
  shows "Tls_Parse (Span (record_header t v (length frag) @ frag @ rest)) =
    Ok \<lparr>view_ContentType = t, view_Version = v, view_Fragment = Span frag,
        view_BytesConsumed = 5 + length frag\<rparr>"
  using assms ReadUint16_Write [of "length frag" "frag @ rest"]
  by (cases v) (simp add: Tls_Parse_def Let_def record_header_def rd_def)

section \<open>The protection of TLS 1.3 records\<close>

text \<open>RFC 8446, sections 5.2 and 5.3.\<close>

definition tls13_nonce :: "bytes \<Rightarrow> nat \<Rightarrow> bytes" where
  "tls13_nonce iv s = xor_bytes iv (replicate 4 0 @ be_number 8 s)"

definition inner_plaintext :: "TlsPlaintextRecord \<Rightarrow> bytes" where
  "inner_plaintext r = span_list (pl_Fragment r) @ [pl_ContentType r] @ replicate (pl_Tls13PaddingLength r) 0"

definition tls13_aad :: "nat \<Rightarrow> bytes" where
  "tls13_aad n = record_header TlsContentType_ApplicationData \<lparr>ver_Major = 3, ver_Minor = 3\<rparr> n"

definition write_key :: "TlsAeadCipherState \<Rightarrow> bytes" where
  "write_key st = take (st_KeyLength st) (st_Key st)"

definition tls13_record :: "seal_fun \<Rightarrow> TlsAeadCipherState \<Rightarrow> TlsPlaintextRecord \<Rightarrow> bytes" where
  "tls13_record gseal st r =
     (let aad = tls13_aad (length (inner_plaintext r) + 16)
      in case aead_seal gseal (st_Algorithm st) (write_key st)
                (tls13_nonce (st_FixedIv st) (unat (st_SequenceNumber st))) aad (inner_plaintext r) of
           (c, t) \<Rightarrow> aad @ c @ t)"

definition tls13_ready :: "TlsAeadCipherState \<Rightarrow> bool" where
  "tls13_ready st \<longleftrightarrow>
     st_Algorithm st \<noteq> Aes128Ccm8 \<and> length (st_Key st) = 32 \<and> st_KeyLength st = key_length (st_Algorithm st) \<and>
     length (st_FixedIv st) = 12 \<and> st_FixedIvLength st = 12"

definition tls13_plaintext :: "TlsPlaintextRecord \<Rightarrow> bool" where
  "tls13_plaintext r \<longleftrightarrow>
     IsSupportedVersion (pl_Version r) \<and> IsValidContentType (pl_ContentType r) \<and> \<not> span_null (pl_Fragment r) \<and>
     span_len (pl_Fragment r) + pl_Tls13PaddingLength r \<le> 16384 \<and> pl_Tls13PaddingLength r \<le> 16383"

definition advance :: "TlsAeadCipherState \<Rightarrow> TlsAeadCipherState" where
  "advance st = (wipe_scratch st)\<lparr>st_SequenceNumber := st_SequenceNumber st + 1\<rparr>"

lemma WriteSequenceNumber_be: "WriteSequenceNumber s = be_number 8 (unat s)"
proof -
  have "WriteSequenceNumber s = WriteBigEndianLength s 8"
    by (simp add: WriteSequenceNumber_def WriteBigEndianLength_def)
  then show ?thesis by (simp add: WriteBigEndianLength_le be_number_def)
qed

lemma fold_update_xor:
  "length pre + n \<le> length nonce \<Longrightarrow> length pre = k \<Longrightarrow>
   fold (\<lambda>i nonce. nonce[k + i := (nonce ! (k + i)) XOR f i]) [0..<n] nonce
   = xor_bytes nonce (replicate k 0 @ map f [0..<n] @ replicate (length nonce - k - n) 0)"
  for nonce :: bytes
proof (induction n)
  case 0
  have "xor_bytes nonce (replicate (length nonce) 0) = nonce"
    by (rule nth_equalityI) (simp_all add: xor_bytes_def)
  moreover have "replicate k 0 @ replicate (length nonce - k) 0 = replicate (length nonce) (0 :: UCHAR)"
    using 0 by (simp flip: replicate_add)
  ultimately show ?case by simp
next
  case (Suc n)
  let ?m = "xor_bytes nonce (replicate k 0 @ map f [0..<n] @ replicate (length nonce - k - n) 0)"
  have "?m[k + n := (?m ! (k + n)) XOR f n]
      = xor_bytes nonce (replicate k 0 @ map f [0..<Suc n] @ replicate (length nonce - k - Suc n) 0)"
    using Suc.prems
    by (intro nth_equalityI) (auto simp: xor_bytes_def nth_list_update nth_append less_diff_conv)
  then show ?case using Suc by simp
qed

lemma BuildTls13Nonce_nonce:
  assumes "length (st_FixedIv st) = 12"
  shows "BuildTls13Nonce st = tls13_nonce (st_FixedIv st) (unat (st_SequenceNumber st))"
proof -
  have "be_number 8 (unat (st_SequenceNumber st))
      = map (\<lambda>i. ucast (drop_bit ((8 - 1 - i) * 8) (st_SequenceNumber st) AND 0xff)) [0..<8]"
    using WriteSequenceNumber_be [of "st_SequenceNumber st"] by (simp only: WriteSequenceNumber_def)
  then show ?thesis
    using fold_update_xor [of "[0, 0, 0, 0]" 8 "st_FixedIv st" 4
        "\<lambda>i. ucast (drop_bit ((8 - 1 - i) * 8) (st_SequenceNumber st) AND 0xff)"] assms
    by (simp add: BuildTls13Nonce_def tls13_nonce_def Let_def del: upt_Suc)
qed

lemma be_number_inj:
  assumes "be_number n x = be_number n y" "x < 256 ^ n" "y < 256 ^ n"
  shows "x = y"
proof -
  have "le_bytes n x = le_bytes n y" using assms(1) unfolding be_number_def by simp
  then have "x mod 256 ^ n = y mod 256 ^ n" unfolding le_val_le_bytes [symmetric] by simp
  then show ?thesis using assms(2,3) by simp
qed

lemma xor_cancel: "x XOR y = x XOR z \<Longrightarrow> y = z" for x y z :: UCHAR
proof -
  assume "x XOR y = x XOR z"
  then have "x XOR (x XOR y) = x XOR (x XOR z)" by (rule arg_cong)
  then show "y = z" unfolding bit.xor_left_self .
qed

lemma xor_bytes_cancel:
  "length xs \<le> length ys \<Longrightarrow> length ys = length zs \<Longrightarrow> xor_bytes xs ys = xor_bytes xs zs \<Longrightarrow>
   take (length xs) ys = take (length xs) zs"
proof (induction xs arbitrary: ys zs)
  case (Cons x xs)
  from Cons.prems(1,2) obtain y ys' z zs' where yz: "ys = y # ys'" "zs = z # zs'"
    by (cases ys; cases zs) auto
  have "take (length xs) ys' = take (length xs) zs'"
    by (rule Cons.IH) (use Cons.prems yz in auto)
  moreover have "y = z" by (rule xor_cancel [of x]) (use Cons.prems yz in simp)
  ultimately show ?case by (simp add: yz)
qed simp

text \<open>One initialisation vector never gives the same nonce for two sequence numbers.\<close>

lemma tls13_nonce_inj:
  assumes "length iv = 12" "tls13_nonce iv (unat s) = tls13_nonce iv (unat s')"
  shows "s = (s' :: ULONGLONG)"
proof -
  have "take 12 (replicate 4 0 @ be_number 8 (unat s)) = take 12 (replicate 4 0 @ be_number 8 (unat s'))"
    using xor_bytes_cancel [of iv "replicate 4 0 @ be_number 8 (unat s)" "replicate 4 0 @ be_number 8 (unat s')"] assms
    by (simp add: tls13_nonce_def)
  then have "be_number 8 (unat s) = be_number 8 (unat s')" by simp
  moreover have "unat w < 256 ^ 8" for w :: ULONGLONG
    using unsigned_less [of w, where 'a = nat] by simp
  ultimately have "unat s = unat s'" using be_number_inj by blast
  then show ?thesis by (rule word_unat_eq_iff [THEN iffD2])
qed

lemma length_tls13_nonce: "length iv = 12 \<Longrightarrow> length (tls13_nonce iv s) = 12"
  by (simp add: tls13_nonce_def)

lemma tls13_sizes:
  assumes "alg \<noteq> Aes128Ccm8" "length n = 12" "length a = 5" "length m \<le> 18432" "length m \<le> cap" "cap < 2 ^ 32"
  shows "aead_sizes alg n a m cap"
  using assms by (cases alg)
    (auto simp: aead_sizes_def MaxSizeT_def ccm_params_def CcmPayloadLengthFits_def)

lemma overlay_parts:
  assumes "length a + length b + length c \<le> length dest"
  shows "overlay (overlay (overlay dest 0 a) (length a) b) (length a + length b) c = overlay dest 0 (a @ b @ c)"
  using assms overlay_overlay [of 0 a b dest] overlay_overlay [of 0 "a @ b" c dest] by simp

lemma overlay_whole: "length b = length a \<Longrightarrow> overlay a 0 b = b"
  by (simp add: overlay_def)

lemma write_key_length: "tls13_ready st \<Longrightarrow> length (write_key st) = key_length (st_Algorithm st)"
  by (cases "st_Algorithm st") (simp_all add: tls13_ready_def write_key_def)

lemma length_inner_plaintext:
  "tls13_plaintext r \<Longrightarrow> length (inner_plaintext r) = span_len (pl_Fragment r) + 1 + pl_Tls13PaddingLength r"
  by (cases "pl_Fragment r") (simp_all add: inner_plaintext_def tls13_plaintext_def)

lemma key_length_bounds: "0 < key_length alg" "key_length alg \<le> 32"
  by (cases alg; simp)+

lemma TagLength_16: "alg \<noteq> Aes128Ccm8 \<Longrightarrow> TagLength alg = 16"
  by (cases alg) simp_all

lemma tls13_seal_lengths:
  assumes p: "gcm_provider gseal gunseal p" and st: "tls13_ready st"
    and s: "aead_seal gseal (st_Algorithm st) (write_key st) n a m = (c, t)"
  shows "length c = length m" "length t = 16"
  using aead_scheme.seal_length [OF aead_scheme_of [OF p] _ s] write_key_length [OF st] st
  by (simp_all add: TagLength_16 tls13_ready_def)

lemma tls13_record_parts:
  assumes "gcm_provider gseal gunseal p" "tls13_ready st"
  obtains c t where
    "aead_seal gseal (st_Algorithm st) (write_key st)
       (tls13_nonce (st_FixedIv st) (unat (st_SequenceNumber st)))
       (tls13_aad (length (inner_plaintext r) + 16)) (inner_plaintext r) = (c, t)"
    "tls13_record gseal st r = tls13_aad (length (inner_plaintext r) + 16) @ c @ t"
    "length c = length (inner_plaintext r)" "length t = 16"
proof -
  let ?s = "aead_seal gseal (st_Algorithm st) (write_key st)
       (tls13_nonce (st_FixedIv st) (unat (st_SequenceNumber st)))
       (tls13_aad (length (inner_plaintext r) + 16)) (inner_plaintext r)"
  obtain c t where s: "?s = (c, t)" by (cases ?s)
  show thesis
    using that [OF s] tls13_seal_lengths [OF assms s] by (simp add: tls13_record_def Let_def s)
qed

lemma length_tls13_aad [simp]: "length (tls13_aad n) = 5"
  by (simp add: tls13_aad_def)

lemma IncrementSequence_advance:
  "st_SequenceNumber st \<noteq> - 1 \<Longrightarrow> IncrementSequence (wipe_scratch st) = Ok (advance st)"
  by (simp add: IncrementSequence_def advance_def wipe_scratch_def)

lemma Protect13_record:
  assumes p: "gcm_provider gseal gunseal p" and heap: "aead_granted heap"
    and st: "tls13_ready st" "st_SequenceNumber st \<noteq> - 1" and r: "tls13_plaintext r"
    and room: "length (inner_plaintext r) + 21 \<le> length dest" "length (inner_plaintext r) \<le> cap"
  shows "ProtectAesGcm13WithScratch p heap r st (Some cap) (Span dest)
    = ((advance st, overlay dest 0 (tls13_record gseal st r), length (tls13_record gseal st r)), Ok ())"
proof -
  let ?in = "inner_plaintext r" and ?aad = "tls13_aad (length (inner_plaintext r) + 16)"
  let ?n = "tls13_nonce (st_FixedIv st) (unat (st_SequenceNumber st))"
  obtain c t where s: "aead_seal gseal (st_Algorithm st) (write_key st) ?n ?aad ?in = (c, t)"
    and rec: "tls13_record gseal st r = ?aad @ c @ t" and len: "length c = length ?in" "length t = 16"
    by (rule tls13_record_parts [OF p st(1), of r]) (rule that)
  note inl = length_inner_plaintext [OF r]
  have small: "length ?in \<le> 16385" using r inl by (simp add: tls13_plaintext_def)
  let ?d = "overlay dest 0 ?aad"
  let ?ct = "take (length ?in) (drop 5 ?d)" and ?tg = "take 16 (drop (5 + length ?in) ?d)"
  let ?par = "\<lparr>par_Nonce = Span ?n, par_Aad = Span ?aad, par_Tag = NullSpan 0\<rparr>"
  have ld: "length ?d = length dest" using room by simp
  have sizes: "aead_sizes (st_Algorithm st) ?n ?aad ?in (length ?ct)"
    using st room small by (intro tls13_sizes) (auto simp: tls13_ready_def length_tls13_nonce)
  have "Aead_Encrypt p heap False (state_key st) ?par (Span ?in) (Span ?ct) (Span ?tg)
      = ((overlay ?ct 0 c, t), Ok (length ?in))"
    using Aead_Encrypt_seal [OF p heap _ _ write_key_length [OF st(1)] _ _ sizes _ s, of "state_key st" ?par ?tg]
      st(1) room by (simp add: state_key_def write_key_def TagLength_16 tls13_ready_def)
  moreover have "overlay ?ct 0 c = c" using room len by (intro overlay_whole) simp
  ultimately have enc: "Aead_Encrypt p heap False (state_key st) ?par (Span ?in) (Span ?ct) (Span ?tg)
      = ((c, t), Ok (length ?in))" by simp
  have dest: "overlay (overlay ?d 5 c) (5 + length ?in) t = overlay dest 0 (?aad @ c @ t)"
    using overlay_parts [of ?aad c t dest] room len by simp
  have guards: "ValidatePlaintextRecord r = Ok ()" "ValidateSequenceCanAdvance st = Ok ()"
    using r st by (simp_all add: ValidatePlaintextRecord_def ValidateSequenceCanAdvance_def tls13_plaintext_def)
  have inner: "span_list (pl_Fragment r) @ [pl_ContentType r] @ replicate (pl_Tls13PaddingLength r) 0 = ?in"
    by (simp add: inner_plaintext_def)
  have aad: "BuildTls13Aad n = tls13_aad n" for n by (simp add: BuildTls13Aad_header tls13_aad_def)
  have nonce: "BuildTls13Nonce st = ?n" using st by (simp add: BuildTls13Nonce_nonce tls13_ready_def)
  have key: "0 < st_KeyLength st" "st_KeyLength st \<le> 32" "st_FixedIvLength st = 12"
    using st(1) key_length_bounds [of "st_Algorithm st"] by (auto simp: tls13_ready_def)
  have pad: "pl_Tls13PaddingLength r \<le> 16383" "pl_Tls13PaddingLength r \<le> 16384 - span_len (pl_Fragment r)"
    using r by (auto simp: tls13_plaintext_def)
  show ?thesis
    unfolding ProtectAesGcm13WithScratch_def Let_def guards after_simps inner aad nonce inl [symmetric]
    using key pad room small enc dest rec len st(2)
    by (simp add: IncrementSequence_advance)
qed

lemma content_type_offset_padding:
  "ty \<noteq> 0 \<Longrightarrow> content_type_offset (frag @ [ty] @ replicate pad 0 @ rest) (length frag + 1 + pad) = Ok (length frag + 1)"
proof (induction pad arbitrary: rest)
  case (Suc pad)
  have "frag @ [ty] @ replicate (Suc pad) 0 @ rest = frag @ [ty] @ replicate pad 0 @ 0 # rest"
    by (simp add: replicate_append_same)
  with Suc show ?case by (simp add: rd_def nth_append)
qed (simp add: rd_def)

text \<open>The call up to the cipher, for a record of acceptable sizes.\<close>

definition unprotect13_rest ::
  "TlsRecordView \<Rightarrow> TlsAeadCipherState \<Rightarrow> nat \<Rightarrow> bytes \<times> nat res \<Rightarrow> unprotect_result" where
  "unprotect13_rest v st n r =
     (case r of (pt, status) \<Rightarrow>
        after (wipe_scratch st, pt) status (\<lambda>decryptedLength.
          if decryptedLength = 0 \<or> decryptedLength \<noteq> n
          then ((wipe_scratch st, pt), Err STATUS_INVALID_NETWORK_RESPONSE)
          else after (wipe_scratch st, pt) (content_type_offset pt decryptedLength) (\<lambda>k.
               if k = 0 then ((wipe_scratch st, pt), Err STATUS_INVALID_NETWORK_RESPONSE)
               else after (wipe_scratch st, pt) (rd pt (k - 1)) (\<lambda>innerType.
                    if \<not> IsValidContentType innerType
                    then ((wipe_scratch st, pt), Err STATUS_INVALID_NETWORK_RESPONSE)
                    else after (wipe_scratch st, pt) (IncrementSequence (wipe_scratch st)) (\<lambda>st'.
                         ((st', pt), Ok \<lparr>mut_ContentType = innerType, mut_Version = view_Version v,
                            mut_FragmentLength = k - 1\<rparr>))))))"

lemma Unprotect13_call:
  assumes st: "tls13_ready st" "st_SequenceNumber st \<noteq> - 1"
    and view: "view_ContentType v = TlsContentType_ApplicationData" "view_Fragment v = Span (c @ t)"
    and len: "length t = 16" "c \<noteq> []" "length c \<le> length pt"
  shows "UnprotectAesGcm13 p heap v st (Span pt) = unprotect13_rest v st (length c)
    (Aead_Decrypt p heap (state_key st)
       \<lparr>par_Nonce = Span (tls13_nonce (st_FixedIv st) (unat (st_SequenceNumber st))),
        par_Aad = Span (tls13_aad (length c + 16)), par_Tag = Span t\<rparr> (Span c) (Span pt))"
proof -
  have guard: "ValidateSequenceCanAdvance st = Ok ()" using st by (simp add: ValidateSequenceCanAdvance_def)
  have aad: "BuildTls13Aad n = tls13_aad n" for n by (simp add: BuildTls13Aad_header tls13_aad_def)
  have nonce: "BuildTls13Nonce st = tls13_nonce (st_FixedIv st) (unat (st_SequenceNumber st))"
    using st by (simp add: BuildTls13Nonce_nonce tls13_ready_def)
  have key: "0 < st_KeyLength st" "st_KeyLength st \<le> 32" "st_FixedIvLength st = 12"
    using st(1) key_length_bounds [of "st_Algorithm st"] by (auto simp: tls13_ready_def)
  have "1 \<le> length c" using len(2) by (cases c) simp_all
  then show ?thesis
    unfolding UnprotectAesGcm13_def unprotect13_rest_def Let_def guard aad nonce view
    using key len by (simp add: split_def)
qed

lemma tls13_decrypt:
  fixes gseal gunseal p heap st c t pt
  defines "par \<equiv> \<lparr>par_Nonce = Span (tls13_nonce (st_FixedIv st) (unat (st_SequenceNumber st))),
        par_Aad = Span (tls13_aad (length c + 16)), par_Tag = Span t\<rparr>"
    and "opened \<equiv> aead_unseal gunseal (st_Algorithm st) (write_key st)
      (tls13_nonce (st_FixedIv st) (unat (st_SequenceNumber st))) (tls13_aad (length c + 16)) c t"
  assumes p: "gcm_provider gseal gunseal p" and heap: "aead_granted heap" and st: "tls13_ready st"
    and len: "length t = 16" "length c \<le> 18432" "length c \<le> length pt" "length pt < 2 ^ 32"
  shows "opened = Some m \<Longrightarrow> Aead_Decrypt p heap (state_key st) par (Span c) (Span pt) = (overlay pt 0 m, Ok (length c))"
    and "opened = None \<Longrightarrow> \<exists>s. snd (Aead_Decrypt p heap (state_key st) par (Span c) (Span pt)) = Err s"
proof -
  have sizes: "aead_sizes (st_Algorithm st) (tls13_nonce (st_FixedIv st) (unat (st_SequenceNumber st)))
      (tls13_aad (length c + 16)) c (length pt)"
    using st len by (intro tls13_sizes) (auto simp: tls13_ready_def length_tls13_nonce)
  have k: "key_Key (state_key st) = Span (write_key st)" "key_Algorithm (state_key st) = st_Algorithm st"
    by (simp_all add: state_key_def write_key_def)
  have tg: "length t = TagLength (st_Algorithm st)" using st len by (simp add: TagLength_16 tls13_ready_def)
  note dec = Aead_Decrypt_unseal [OF p heap k write_key_length [OF st] _ _ _ sizes tg, of par]
  show "opened = Some m \<Longrightarrow> Aead_Decrypt p heap (state_key st) par (Span c) (Span pt) = (overlay pt 0 m, Ok (length c))"
    using dec(1) by (simp add: par_def opened_def)
  show "opened = None \<Longrightarrow> \<exists>s. snd (Aead_Decrypt p heap (state_key st) par (Span c) (Span pt)) = Err s"
    using dec(2) by (simp add: par_def opened_def)
qed

lemma Unprotect13_refused:
  assumes p: "gcm_provider gseal gunseal p" and heap: "aead_granted heap"
    and st: "tls13_ready st" "st_SequenceNumber st \<noteq> - 1"
    and view: "view_ContentType v = TlsContentType_ApplicationData" "view_Fragment v = Span (c @ t)"
    and len: "length t = 16" "c \<noteq> []" "length c \<le> 18432" "length c \<le> length pt" "length pt < 2 ^ 32"
    and bad: "aead_unseal gunseal (st_Algorithm st) (write_key st)
      (tls13_nonce (st_FixedIv st) (unat (st_SequenceNumber st))) (tls13_aad (length c + 16)) c t = None"
  shows "\<exists>pt' s. UnprotectAesGcm13 p heap v st (Span pt) = ((wipe_scratch st, pt'), Err s)"
  using tls13_decrypt(2) [OF p heap st(1) len(1,3-5) bad]
  by (auto simp: Unprotect13_call [OF st view len(1,2,4)] unprotect13_rest_def split: prod.splits)

lemma Unprotect13_accepted:
  assumes p: "gcm_provider gseal gunseal p" and heap: "aead_granted heap"
    and st: "tls13_ready st" "st_SequenceNumber st \<noteq> - 1"
    and view: "view_ContentType v = TlsContentType_ApplicationData" "view_Fragment v = Span (c @ t)"
    and len: "length t = 16" "length c \<le> 18432" "length c \<le> length pt" "length pt < 2 ^ 32"
    and good: "aead_unseal gunseal (st_Algorithm st) (write_key st)
      (tls13_nonce (st_FixedIv st) (unat (st_SequenceNumber st))) (tls13_aad (length c + 16)) c t
      = Some (frag @ [ty] @ replicate pad 0)" and ty: "IsValidContentType ty"
  shows "UnprotectAesGcm13 p heap v st (Span pt) =
    ((advance st, overlay pt 0 (frag @ [ty] @ replicate pad 0)),
     Ok \<lparr>mut_ContentType = ty, mut_Version = view_Version v, mut_FragmentLength = length frag\<rparr>)"
proof -
  let ?m = "frag @ [ty] @ replicate pad 0"
  have lm: "length ?m = length c"
    using aead_scheme.unseal_length [OF aead_scheme_of [OF p] _ good] write_key_length [OF st(1)] by simp
  then have c: "c \<noteq> []" and lc: "length c = length frag + 1 + pad" by auto
  have ty0: "ty \<noteq> 0" using ty by (auto simp: IsValidContentType_def tls_content_types)
  have buf: "overlay pt 0 ?m = frag @ [ty] @ replicate pad 0 @ drop (length c) pt"
    using lm len by (simp add: overlay_def)
  have off: "content_type_offset (overlay pt 0 ?m) (length c) = Ok (length frag + 1)"
    unfolding buf lc by (rule content_type_offset_padding [OF ty0])
  have inner: "rd (overlay pt 0 ?m) (length frag + 1 - 1) = Ok ty"
    unfolding buf by (simp add: rd_def)
  show ?thesis
    unfolding Unprotect13_call [OF st view len(1) c len(3)] tls13_decrypt(1) [OF p heap st(1) len good]
    using off inner lc st(2) ty
    by (simp add: unprotect13_rest_def IncrementSequence_advance del: content_type_offset.simps append.simps)
qed

section \<open>Sessions\<close>

text \<open>
  A connection protects its records one after another into a fresh buffer, and its peer cuts the
  stream into records with \<open>Tls_Parse\<close> and opens them one after another.
\<close>

fun send13 :: "cng \<Rightarrow> aead_heap \<Rightarrow> TlsAeadCipherState \<Rightarrow> TlsPlaintextRecord list \<Rightarrow> (bytes \<times> TlsAeadCipherState) res" where
  "send13 p heap st [] = Ok ([], st)"
| "send13 p heap st (r # rs) =
     (case ProtectAesGcm13 p heap True r st (Span (replicate 16422 0)) of
        ((st', dest, n), Ok _) \<Rightarrow> rbind (send13 p heap st' rs) (\<lambda>(wire, st'). Ok (take n dest @ wire, st'))
      | (_, Err s) \<Rightarrow> Err s
      | (_, Fault) \<Rightarrow> Fault)"

fun receive13 ::
  "cng \<Rightarrow> aead_heap \<Rightarrow> TlsAeadCipherState \<Rightarrow> bytes \<Rightarrow> nat \<Rightarrow> ((UCHAR \<times> bytes) list \<times> TlsAeadCipherState \<times> bytes) res" where
  "receive13 p heap st wire 0 = Ok ([], st, wire)"
| "receive13 p heap st wire (Suc k) =
     rbind (Tls_Parse (Span wire)) (\<lambda>v.
       case UnprotectAesGcm13 p heap v st (Span (replicate 18432 0)) of
         ((st', pt), Ok out) \<Rightarrow>
           rbind (receive13 p heap st' (drop (view_BytesConsumed v) wire) k) (\<lambda>(xs, rest).
             Ok ((mut_ContentType out, take (mut_FragmentLength out) pt) # xs, rest))
       | (_, Err s) \<Rightarrow> Err s
       | (_, Fault) \<Rightarrow> Fault)"

text \<open>The two ends hold the same keys and are at the same record.\<close>

definition peer :: "TlsAeadCipherState \<Rightarrow> TlsAeadCipherState \<Rightarrow> bool" where
  "peer st st' \<longleftrightarrow>
     st_Algorithm st' = st_Algorithm st \<and> st_Key st' = st_Key st \<and> st_KeyLength st' = st_KeyLength st \<and>
     st_FixedIv st' = st_FixedIv st \<and> st_FixedIvLength st' = st_FixedIvLength st \<and>
     st_SequenceNumber st' = st_SequenceNumber st"

lemma peer_advance: "peer st st' \<Longrightarrow> peer (advance st) (advance st')"
  by (simp add: peer_def advance_def wipe_scratch_def)

lemma tls13_ready_advance: "tls13_ready (advance st) \<longleftrightarrow> tls13_ready st"
  by (simp add: tls13_ready_def advance_def wipe_scratch_def)

lemma peer_same:
  "peer st st' \<Longrightarrow> tls13_ready st' = tls13_ready st \<and> write_key st' = write_key st"
  by (auto simp: peer_def tls13_ready_def write_key_def)

lemma send13_Cons:
  assumes p: "gcm_provider gseal gunseal p" and heap: "aead_granted heap"
    and st: "tls13_ready st" "st_SequenceNumber st \<noteq> - 1" and r: "tls13_plaintext r"
  shows "send13 p heap st (r # rs) =
    rbind (send13 p heap (advance st) rs) (\<lambda>(wire, st'). Ok (tls13_record gseal st r @ wire, st'))"
proof -
  have inl: "length (inner_plaintext r) \<le> 16385"
    using length_inner_plaintext [OF r] r by (simp add: tls13_plaintext_def)
  obtain c t where "tls13_record gseal st r = tls13_aad (length (inner_plaintext r) + 16) @ c @ t"
    "length c = length (inner_plaintext r)" "length t = 16"
    by (rule tls13_record_parts [OF p st(1), of r]) (rule that)
  then have "take (length (tls13_record gseal st r)) (overlay (replicate 16422 0) 0 (tls13_record gseal st r))
      = tls13_record gseal st r"
    using inl by (simp add: overlay_def)
  then show ?thesis
    using inl by (simp add: ProtectAesGcm13_def Protect13_record [OF p heap st r])
qed

lemma receive13_record:
  assumes p: "gcm_provider gseal gunseal p" and heap: "aead_granted heap"
    and st: "tls13_ready st" "st_SequenceNumber st \<noteq> - 1" and r: "tls13_plaintext r" and peer: "peer st st'"
  shows "receive13 p heap st' (tls13_record gseal st r @ wire) (Suc k) =
    rbind (receive13 p heap (advance st') wire k) (\<lambda>(xs, rest).
      Ok ((pl_ContentType r, span_list (pl_Fragment r)) # xs, rest))"
proof -
  let ?in = "inner_plaintext r" and ?n = "tls13_nonce (st_FixedIv st) (unat (st_SequenceNumber st))"
  let ?aad = "tls13_aad (length (inner_plaintext r) + 16)"
  obtain c t where s: "aead_seal gseal (st_Algorithm st) (write_key st) ?n ?aad ?in = (c, t)"
    and rec: "tls13_record gseal st r = ?aad @ c @ t" and len: "length c = length ?in" "length t = 16"
    by (rule tls13_record_parts [OF p st(1), of r]) (rule that)
  have inl: "length ?in \<le> 16385" and ty: "IsValidContentType (pl_ContentType r)"
    using length_inner_plaintext [OF r] r by (simp_all add: tls13_plaintext_def)
  let ?view = "\<lparr>view_ContentType = TlsContentType_ApplicationData, view_Version = \<lparr>ver_Major = 3, ver_Minor = 3\<rparr>,
      view_Fragment = Span (c @ t), view_BytesConsumed = 5 + length (c @ t)\<rparr>"
  have parse: "Tls_Parse (Span (tls13_record gseal st r @ wire)) = Ok ?view"
    using Tls_Parse_header [of TlsContentType_ApplicationData "\<lparr>ver_Major = 3, ver_Minor = 3\<rparr>" "c @ t" wire] inl len
    by (simp add: rec tls13_aad_def IsValidContentType_def IsSupportedVersion_def)
  have good: "aead_unseal gunseal (st_Algorithm st) (write_key st) ?n (tls13_aad (length c + 16)) c t
      = Some (span_list (pl_Fragment r) @ [pl_ContentType r] @ replicate (pl_Tls13PaddingLength r) 0)"
    using aead_scheme.unseal_seal [OF aead_scheme_of [OF p] _ s] write_key_length [OF st(1)] len
    by (simp add: inner_plaintext_def)
  have same: "st_Algorithm st' = st_Algorithm st" "write_key st' = write_key st"
    "tls13_nonce (st_FixedIv st') (unat (st_SequenceNumber st')) = ?n" "tls13_ready st'" "st_SequenceNumber st' \<noteq> - 1"
    using peer st peer_same [OF peer] by (auto simp: peer_def)
  have "UnprotectAesGcm13 p heap ?view st' (Span (replicate 18432 0)) =
      ((advance st', overlay (replicate 18432 0) 0 ?in), Ok \<lparr>mut_ContentType = pl_ContentType r,
         mut_Version = \<lparr>ver_Major = 3, ver_Minor = 3\<rparr>, mut_FragmentLength = length (span_list (pl_Fragment r))\<rparr>)"
    using Unprotect13_accepted [OF p heap same(4,5), of ?view c t "replicate 18432 0"] good ty len inl same
    by (simp add: inner_plaintext_def)
  moreover have "take (length (span_list (pl_Fragment r))) (overlay (replicate 18432 0) 0 ?in)
      = span_list (pl_Fragment r)"
    by (simp add: overlay_def inner_plaintext_def)
  moreover have "drop (5 + length (c @ t)) (tls13_record gseal st r @ wire) = wire"
    by (simp add: rec)
  ultimately show ?thesis by (simp add: parse)
qed

lemma sequence_step: "unat (st_SequenceNumber st) + Suc n < 2 ^ 64 \<Longrightarrow>
   st_SequenceNumber st \<noteq> - 1 \<and> unat (st_SequenceNumber (advance st)) + n < 2 ^ 64"
proof -
  assume a: "unat (st_SequenceNumber st) + Suc n < 2 ^ 64"
  have "st_SequenceNumber st \<noteq> - 1" using a unat_max_word [where 'a = 64] by auto
  moreover have "unat (st_SequenceNumber st + 1) = unat (st_SequenceNumber st) + 1"
    using a by (simp add: unat_word_ariths)
  ultimately show ?thesis using a by (simp add: advance_def)
qed

text \<open>
  C21: What one end protects with \<open>ProtectAesGcm13\<close> the other end, holding the same keys and at the
  same sequence number, reads back: for any list of records with valid types, sizes and paddings,
  every call succeeds, and parsing and opening the resulting stream returns the contents and types
  of the records in order and leaves whatever follows them on the stream, for every algorithm with a
  16-byte tag, as long as the sequence number does not reach its end.
\<close>

theorem tls13_session_roundtrip:
  assumes p: "gcm_provider gseal gunseal p" and heap: "aead_granted heap"
    and st: "tls13_ready st" "peer st st'" "unat (st_SequenceNumber st) + length rs < 2 ^ 64"
    and rs: "\<forall>r \<in> set rs. tls13_plaintext r"
  shows "\<exists>wire wst rst. send13 p heap st rs = Ok (wire, wst) \<and>
    receive13 p heap st' (wire @ rest) (length rs)
      = Ok (map (\<lambda>r. (pl_ContentType r, span_list (pl_Fragment r))) rs, rst, rest)"
  using st rs
proof (induction rs arbitrary: st st')
  case (Cons r rs)
  have s: "st_SequenceNumber st \<noteq> - 1" "unat (st_SequenceNumber (advance st)) + length rs < 2 ^ 64"
    using sequence_step [of st "length rs"] Cons.prems(3) by simp_all
  obtain wire wst rst where "send13 p heap (advance st) rs = Ok (wire, wst)"
    "receive13 p heap (advance st') (wire @ rest) (length rs)
      = Ok (map (\<lambda>r. (pl_ContentType r, span_list (pl_Fragment r))) rs, rst, rest)"
    using Cons.IH [of "advance st" "advance st'"] Cons.prems s(2) by (auto simp: peer_advance tls13_ready_advance)
  then show ?case
    using Cons.prems(1,2,4) s(1) send13_Cons [OF p heap, of st r rs]
      receive13_record [OF p heap, of st r st' "wire @ rest" "length rs"]
    by (simp del: send13.simps receive13.simps)
qed simp

definition sample_state :: "AeadAlgorithm \<Rightarrow> TlsAeadCipherState" where
  "sample_state alg = \<lparr>st_Algorithm = alg, st_Key = replicate 32 1, st_KeyLength = key_length alg,
     st_FixedIv = replicate 12 2, st_FixedIvLength = 12, st_MacKey = replicate 64 3, st_MacKeyLength = 32,
     st_MacAlgorithm = Sha256, st_EncryptThenMac = True, st_NonceScratch = replicate 12 0,
     st_AadScratch = replicate 13 0, st_SequenceNumber = 5\<rparr>"

definition sample_records :: "TlsPlaintextRecord list" where
  "sample_records =
     [\<lparr>pl_ContentType = 23, pl_Version = \<lparr>ver_Major = 3, ver_Minor = 3\<rparr>, pl_Fragment = Span [104, 105],
       pl_Tls13PaddingLength = 3\<rparr>,
      \<lparr>pl_ContentType = 21, pl_Version = \<lparr>ver_Major = 3, ver_Minor = 3\<rparr>, pl_Fragment = Span [1, 0],
       pl_Tls13PaddingLength = 0\<rparr>]"

lemma sample_ready: "alg \<noteq> Aes128Ccm8 \<Longrightarrow> tls13_ready (sample_state alg)"
  by (simp add: sample_state_def tls13_ready_def)

lemma sample_plaintexts: "\<forall>r \<in> set sample_records. tls13_plaintext r"
  by (simp add: sample_records_def tls13_plaintext_def IsSupportedVersion_def IsValidContentType_def tls_content_types)

theorem tls13_session_roundtrip_witness:
  "\<exists>wire wst rst. send13 sample_cng sample_heap (sample_state ChaCha20Poly1305) sample_records = Ok (wire, wst) \<and>
     receive13 sample_cng sample_heap (sample_state ChaCha20Poly1305) (wire @ [9]) 2
       = Ok ([(23, [104, 105]), (21, [1, 0])], rst, [9])"
proof -
  have "peer (sample_state ChaCha20Poly1305) (sample_state ChaCha20Poly1305)"
    "unat (st_SequenceNumber (sample_state ChaCha20Poly1305)) + length sample_records < 2 ^ 64"
    by (simp_all add: peer_def sample_state_def sample_records_def)
  from tls13_session_roundtrip [OF sample_gcm sample_heap_granted _ this sample_plaintexts, of "[9]"]
  show ?thesis using sample_ready [of ChaCha20Poly1305] by (simp add: sample_records_def numeral_2_eq_2)
qed

section \<open>Nonces\<close>

lemma after_Ok_iff: "after b r f = (x, Ok y) \<longleftrightarrow> (\<exists>v. r = Ok v \<and> f v = (x, Ok y))"
  by (cases r) auto

lemma after_Err_iff: "after b r f = (x, Err s) \<longleftrightarrow> (r = Err s \<and> x = b) \<or> (\<exists>v. r = Ok v \<and> f v = (x, Err s))"
  by (cases r) auto

lemma Increment_Ok_iff:
  "IncrementSequence st = Ok st' \<longleftrightarrow>
   st_SequenceNumber st \<noteq> - 1 \<and> st' = st\<lparr>st_SequenceNumber := st_SequenceNumber st + 1\<rparr>"
  by (auto simp: IncrementSequence_def)

lemma wipe_scratch_simps [simp]:
  "st_SequenceNumber (wipe_scratch st) = st_SequenceNumber st" "st_FixedIv (wipe_scratch st) = st_FixedIv st"
  "st_Key (wipe_scratch st) = st_Key st"
  by (simp_all add: wipe_scratch_def)

text \<open>
  A protected record that is released used the current sequence number, and the state has moved on;
  a call that fails leaves the sequence number where it was.
\<close>

lemma Protect13_Ok:
  "ProtectAesGcm13WithScratch p heap r st cap destination = ((st', dest, n), Ok u) \<Longrightarrow>
   st_SequenceNumber st \<noteq> - 1 \<and> st' = advance st"
  unfolding ProtectAesGcm13WithScratch_def Let_def after_Ok_iff
  by (auto simp: Increment_Ok_iff advance_def after_Ok_iff split: if_splits prod.splits res.splits)

lemma Protect13_Err:
  "ProtectAesGcm13WithScratch p heap r st cap destination = ((st', dest, n), Err s) \<Longrightarrow>
   st' = st \<or> st' = wipe_scratch st"
  unfolding ProtectAesGcm13WithScratch_def Let_def after_Err_iff
  by (auto simp: after_Err_iff split: if_splits prod.splits res.splits)

text \<open>
  The runs of a writer: a list of calls, each with whatever memory and provider the system has at
  that time; \<open>ns\<close> are the nonces of the records that were released.
\<close>

inductive writes13 :: "TlsAeadCipherState \<Rightarrow> bytes list \<Rightarrow> TlsAeadCipherState \<Rightarrow> bool" for st where
  start: "writes13 st [] st"
| sent: "writes13 st ns st1 \<Longrightarrow>
    ProtectAesGcm13WithScratch p heap r st1 cap destination = ((st2, dest, n), Ok u) \<Longrightarrow>
    writes13 st (BuildTls13Nonce st1 # ns) st2"
| failed: "writes13 st ns st1 \<Longrightarrow>
    ProtectAesGcm13WithScratch p heap r st1 cap destination = ((st2, dest, n), Err s) \<Longrightarrow>
    writes13 st ns st2"

lemma writes13_invariant:
  assumes "writes13 st ns st'" "length (st_FixedIv st) = 12"
  shows "st_FixedIv st' = st_FixedIv st \<and> st_Key st' = st_Key st \<and> distinct ns \<and>
    (\<forall>x \<in> set ns. \<exists>s. unat s < unat (st_SequenceNumber st') \<and> x = tls13_nonce (st_FixedIv st) (unat (s :: ULONGLONG)))"
  using assms
proof (induction rule: writes13.induct)
  case start
  then show ?case by simp
next
  case (sent ns st1 p heap r cap destination st2 dest n u)
  note IH = sent.IH [OF sent.prems]
  from Protect13_Ok [OF sent.hyps(2)] have seq: "st_SequenceNumber st1 \<noteq> - 1" and st2: "st2 = advance st1"
    by simp_all
  have same: "st_FixedIv st2 = st_FixedIv st1" "st_Key st2 = st_Key st1"
    "unat (st_SequenceNumber st2) = Suc (unat (st_SequenceNumber st1))"
    using unat_Suc_word [OF seq] by (simp_all add: st2 advance_def wipe_scratch_def)
  have new: "BuildTls13Nonce st1 = tls13_nonce (st_FixedIv st) (unat (st_SequenceNumber st1))"
    using IH sent.prems by (simp add: BuildTls13Nonce_nonce)
  have "BuildTls13Nonce st1 \<notin> set ns"
    using IH new tls13_nonce_inj [OF sent.prems] by fastforce
  moreover have "\<exists>s. unat s < unat (st_SequenceNumber st2) \<and> x = tls13_nonce (st_FixedIv st) (unat (s :: ULONGLONG))"
    if "x \<in> set (BuildTls13Nonce st1 # ns)" for x
    using that IH new same(3) by (auto intro: less_SucI)
  ultimately show ?case using IH same by auto
next
  case (failed ns st1 p heap r cap destination st2 dest n s)
  then show ?case using Protect13_Err [OF failed.hyps(2)] by auto
qed



section \<open>A truncated tag is not supported\<close>

text \<open>
  C23: Under AES-128-CCM-8 the record layer protects nothing and opens nothing: the record layer
  always asks for a 16-byte tag, which the cipher, whose tag has 8 bytes, refuses. Neither
  \<open>ProtectAesGcm13WithScratch\<close> nor \<open>UnprotectAesGcm13\<close> ever succeeds in such a state.
\<close>

theorem ccm8_records_fail:
  assumes "st_Algorithm st = Aes128Ccm8"
  shows "snd (ProtectAesGcm13WithScratch p heap r st cap destination) \<noteq> Ok u \<and>
    snd (UnprotectAesGcm13 p heap v st plaintext) \<noteq> Ok out"
proof
  have enc: "Aead_Encrypt p heap same (state_key st) par m ct tg = ((span_list ct, span_list tg), Err STATUS_INVALID_PARAMETER)"
    if "span_len tg \<noteq> 8" for same par m ct tg
    using assms that by (simp add: Aead_Encrypt_def state_key_def)
  have dec: "Aead_Decrypt p heap (state_key st) par c pt = (span_list pt, Err STATUS_INVALID_PARAMETER)"
    if "span_len (par_Tag par) \<noteq> 8" for par c pt
    using assms that by (simp add: Aead_Decrypt_def state_key_def)
  show "snd (ProtectAesGcm13WithScratch p heap r st cap destination) \<noteq> Ok u"
  proof
    assume "snd (ProtectAesGcm13WithScratch p heap r st cap destination) = Ok u"
    then obtain x where "ProtectAesGcm13WithScratch p heap r st cap destination = (x, Ok u)"
      by (cases "ProtectAesGcm13WithScratch p heap r st cap destination") simp
    then show False
      unfolding ProtectAesGcm13WithScratch_def Let_def after_Ok_iff
      by (cases destination) (auto simp: enc after_Ok_iff split: if_splits)
  qed
  show "snd (UnprotectAesGcm13 p heap v st plaintext) \<noteq> Ok out"
  proof
    assume "snd (UnprotectAesGcm13 p heap v st plaintext) = Ok out"
    then obtain x where "UnprotectAesGcm13 p heap v st plaintext = (x, Ok out)"
      by (cases "UnprotectAesGcm13 p heap v st plaintext") simp
    then show False
      unfolding UnprotectAesGcm13_def Let_def after_Ok_iff
      by (cases "view_Fragment v") (auto simp: dec after_Ok_iff split: if_splits)
  qed
qed

theorem ccm8_records_fail_witness:
  "snd (ProtectAesGcm13WithScratch sample_cng sample_heap (hd sample_records) (sample_state Aes128Ccm8)
     (Some 100) (Span (replicate 100 0))) \<noteq> Ok ()"
  using ccm8_records_fail [of "sample_state Aes128Ccm8" sample_cng sample_heap "hd sample_records" "Some 100"
      "Span (replicate 100 0)" "()"]
  by (simp add: sample_state_def)

section \<open>The protection of TLS 1.2 records\<close>

definition tls12_ready :: "TlsAeadCipherState \<Rightarrow> bool" where
  "tls12_ready st \<longleftrightarrow>
     st_Algorithm st \<noteq> Aes128Ccm8 \<and> length (st_Key st) = 32 \<and> st_KeyLength st = key_length (st_Algorithm st) \<and>
     length (st_FixedIv st) = 12 \<and> st_FixedIvLength st = 4"

definition tls12_plaintext :: "TlsPlaintextRecord \<Rightarrow> bool" where
  "tls12_plaintext r \<longleftrightarrow>
     IsSupportedVersion (pl_Version r) \<and> IsValidContentType (pl_ContentType r) \<and> \<not> span_null (pl_Fragment r) \<and>
     span_len (pl_Fragment r) \<le> 16384"

lemma length_BuildAad [simp]: "length (BuildAad s t v n) = 13"
  by (simp add: BuildAad_def WriteSequenceNumber_def)

lemma length_WriteSequenceNumber [simp]: "length (WriteSequenceNumber s) = 8"
  by (simp add: WriteSequenceNumber_def)

lemma tls12_sizes:
  assumes "alg \<noteq> Aes128Ccm8" "length n = 12" "length a = 13" "length m \<le> 18432" "length m \<le> cap" "cap < 2 ^ 32"
  shows "aead_sizes alg n a m cap"
  using assms by (cases alg)
    (auto simp: aead_sizes_def MaxSizeT_def ccm_params_def CcmPayloadLengthFits_def)

definition tls12_nonce :: "TlsAeadCipherState \<Rightarrow> bytes" where
  "tls12_nonce st = take 4 (st_FixedIv st) @ WriteSequenceNumber (st_SequenceNumber st)"

lemma BuildAesGcmNonce_nonce: "BuildAesGcmNonce st (WriteSequenceNumber (st_SequenceNumber st) @ rest) = tls12_nonce st"
  by (simp add: BuildAesGcmNonce_def tls12_nonce_def)

lemma tls12_facts:
  assumes "tls12_ready st"
  shows "length (write_key st) = key_length (st_Algorithm st)" "TagLength (st_Algorithm st) = 16"
    "0 < st_KeyLength st" "st_KeyLength st \<le> 32" "st_FixedIvLength st = 4" "length (tls12_nonce st) = 12"
    "key_Key (state_key st) = Span (write_key st)" "key_Algorithm (state_key st) = st_Algorithm st"
  using assms key_length_bounds [of "st_Algorithm st"]
  by (auto simp: tls12_ready_def write_key_def state_key_def tls12_nonce_def TagLength_16)

text \<open>RFC 5288: the explicit part of the nonce is sent before the ciphertext.\<close>

definition tls12_fragment :: "seal_fun \<Rightarrow> TlsAeadCipherState \<Rightarrow> TlsPlaintextRecord \<Rightarrow> bytes" where
  "tls12_fragment gseal st r =
     (case aead_seal gseal (st_Algorithm st) (write_key st) (tls12_nonce st)
             (BuildAad (st_SequenceNumber st) (pl_ContentType r) (pl_Version r) (span_len (pl_Fragment r)))
             (span_list (pl_Fragment r)) of
        (c, t) \<Rightarrow> WriteSequenceNumber (st_SequenceNumber st) @ c @ t)"

lemma tls12_fragment_parts:
  assumes p: "gcm_provider gseal gunseal p" and st: "tls12_ready st" and r: "tls12_plaintext r"
  obtains m c t where "pl_Fragment r = Span m"
    "aead_seal gseal (st_Algorithm st) (write_key st) (tls12_nonce st)
       (BuildAad (st_SequenceNumber st) (pl_ContentType r) (pl_Version r) (length m)) m = (c, t)"
    "tls12_fragment gseal st r = WriteSequenceNumber (st_SequenceNumber st) @ c @ t"
    "length c = length m" "length t = 16" "length m \<le> 16384"
proof -
  obtain m where m: "pl_Fragment r = Span m" using r by (cases "pl_Fragment r") (simp_all add: tls12_plaintext_def)
  let ?s = "aead_seal gseal (st_Algorithm st) (write_key st) (tls12_nonce st)
       (BuildAad (st_SequenceNumber st) (pl_ContentType r) (pl_Version r) (length m)) m"
  obtain c t where s: "?s = (c, t)" by (cases ?s)
  have "length c = length m" "length t = 16"
    using aead_scheme.seal_length [OF aead_scheme_of [OF p] tls12_facts(1) [OF st] s] tls12_facts(2) [OF st] by simp_all
  then show thesis using that [OF m s] r by (simp add: tls12_fragment_def m s tls12_plaintext_def)
qed

lemma Protect12_record:
  assumes p: "gcm_provider gseal gunseal p" and heap: "aead_granted heap"
    and st: "tls12_ready st" "st_SequenceNumber st \<noteq> - 1" and r: "tls12_plaintext r"
    and room: "span_len (pl_Fragment r) + 29 \<le> length dest"
  shows "ProtectAesGcm p heap r st (Span dest) = ((advance st, overlay dest 0
      (record_header (pl_ContentType r) (pl_Version r) (length (tls12_fragment gseal st r)) @ tls12_fragment gseal st r),
      5 + length (tls12_fragment gseal st r)), Ok ())"
proof -
  let ?w = "WriteSequenceNumber (st_SequenceNumber st)"
  obtain m c t where m: "pl_Fragment r = Span m" and s: "aead_seal gseal (st_Algorithm st) (write_key st) (tls12_nonce st)
       (BuildAad (st_SequenceNumber st) (pl_ContentType r) (pl_Version r) (length m)) m = (c, t)"
    and rec: "tls12_fragment gseal st r = ?w @ c @ t" and len: "length c = length m" "length t = 16" "length m \<le> 16384"
    by (rule tls12_fragment_parts [OF p st(1) r]) (rule that)
  note f = tls12_facts [OF st(1)]
  let ?h = "record_header (pl_ContentType r) (pl_Version r) (length m + 24)"
  let ?aad = "BuildAad (st_SequenceNumber st) (pl_ContentType r) (pl_Version r) (length m)"
  let ?d = "overlay (overlay dest 0 ?h) 5 ?w"
  have d: "?d = overlay dest 0 (?h @ ?w)" using overlay_overlay [of 0 ?h ?w dest] room m by simp
  have ld: "length ?d = length dest" using room m by simp
  let ?ct = "take (length m) (drop 13 ?d)" and ?tg = "take 16 (drop (13 + length m) ?d)"
  let ?par = "\<lparr>par_Nonce = Span (tls12_nonce st), par_Aad = Span ?aad, par_Tag = NullSpan 0\<rparr>"
  have lct: "length ?ct = length m" and ltg: "length ?tg = 16" using room m ld by simp_all
  have sizes: "aead_sizes (st_Algorithm st) (tls12_nonce st) ?aad m (length ?ct)"
    unfolding lct using st len f by (intro tls12_sizes) (auto simp: tls12_ready_def)
  have enc: "Aead_Encrypt p heap False (state_key st) ?par (Span m) (Span ?ct) (Span ?tg) = ((c, t), Ok (length m))"
    using Aead_Encrypt_seal [OF p heap f(7,8,1) _ _ sizes _ s, of ?par ?tg] ltg f(2) lct len overlay_whole [of c ?ct]
    by simp
  have "length (?h @ ?w) = 13" by simp
  then have dest: "overlay (overlay ?d 13 c) (13 + length m) t = overlay dest 0 (?h @ ?w @ c @ t)"
    using overlay_parts [of "?h @ ?w" c t dest] room m len unfolding d by simp
  have guards: "ValidatePlaintextRecord r = Ok ()" "ValidateSequenceCanAdvance st = Ok ()"
    using r st by (simp_all add: ValidatePlaintextRecord_def ValidateSequenceCanAdvance_def tls12_plaintext_def)
  have nonce: "BuildAesGcmNonce st ?w = tls12_nonce st" using BuildAesGcmNonce_nonce [of st "[]"] by simp
  show ?thesis
    unfolding ProtectAesGcm_def Let_def guards after_simps nonce m rec
    using f room m enc dest len st(2) by (simp add: IncrementSequence_advance add.commute)
qed

lemma Unprotect12_record:
  assumes p: "gcm_provider gseal gunseal p" and heap: "aead_granted heap"
    and st: "tls12_ready st" "st_SequenceNumber st \<noteq> - 1" and r: "tls12_plaintext r"
    and view: "view_ContentType v = pl_ContentType r" "view_Version v = pl_Version r"
      "view_Fragment v = Span (tls12_fragment gseal st r)"
    and room: "span_len (pl_Fragment r) \<le> length pt" "length pt < 2 ^ 32"
  shows "UnprotectAesGcm p heap v st (Span pt) = ((advance st, overlay pt 0 (span_list (pl_Fragment r))),
    Ok \<lparr>mut_ContentType = pl_ContentType r, mut_Version = pl_Version r,
        mut_FragmentLength = span_len (pl_Fragment r)\<rparr>)"
proof -
  let ?w = "WriteSequenceNumber (st_SequenceNumber st)"
  obtain m c t where m: "pl_Fragment r = Span m" and s: "aead_seal gseal (st_Algorithm st) (write_key st) (tls12_nonce st)
       (BuildAad (st_SequenceNumber st) (pl_ContentType r) (pl_Version r) (length m)) m = (c, t)"
    and rec: "tls12_fragment gseal st r = ?w @ c @ t" and len: "length c = length m" "length t = 16" "length m \<le> 16384"
    by (rule tls12_fragment_parts [OF p st(1) r]) (rule that)
  note f = tls12_facts [OF st(1)]
  let ?aad = "BuildAad (st_SequenceNumber st) (pl_ContentType r) (pl_Version r) (length m)"
  let ?par = "\<lparr>par_Nonce = Span (tls12_nonce st), par_Aad = Span ?aad, par_Tag = Span t\<rparr>"
  have sizes: "aead_sizes (st_Algorithm st) (tls12_nonce st) ?aad c (length pt)"
    using st len f room m by (intro tls12_sizes) (auto simp: tls12_ready_def)
  have dec: "Aead_Decrypt p heap (state_key st) ?par (Span c) (Span pt) = (overlay pt 0 m, Ok (length c))"
    using Aead_Decrypt_unseal(1) [OF p heap f(7,8,1) _ _ _ sizes, of ?par t m]
      aead_scheme.unseal_seal [OF aead_scheme_of [OF p] f(1) s] f(2) len by simp
  have guard: "ValidateSequenceCanAdvance st = Ok ()" using st by (simp add: ValidateSequenceCanAdvance_def)
  show ?thesis
    unfolding UnprotectAesGcm_def Let_def guard view m rec span_list.simps BuildAesGcmNonce_nonce
    using f room m dec len st(2) by (simp add: IncrementSequence_advance)
qed

text \<open>
  A record that \<open>ProtectAesGcm\<close> writes under TLS 1.2 is cut off the stream whole by \<open>Parse\<close>,
  and \<open>UnprotectAesGcm\<close> at the peer returns its contents, type and version and advances to the
  same state as the writer; a second record therefore opens after it.
\<close>

theorem tls12_record_roundtrip:
  assumes p: "gcm_provider gseal gunseal p" and heap: "aead_granted heap"
    and st: "tls12_ready st" "st_SequenceNumber st \<noteq> - 1" and r: "tls12_plaintext r"
    and room: "span_len (pl_Fragment r) + 29 \<le> length dest" "span_len (pl_Fragment r) \<le> length pt" "length pt < 2 ^ 32"
  shows "\<exists>dest' n v. ProtectAesGcm p heap r st (Span dest) = ((advance st, dest', n), Ok ()) \<and>
    Tls_Parse (Span (take n dest' @ rest)) = Ok v \<and> view_BytesConsumed v = n \<and>
    UnprotectAesGcm p heap v st (Span pt) = ((advance st, overlay pt 0 (span_list (pl_Fragment r))),
      Ok \<lparr>mut_ContentType = pl_ContentType r, mut_Version = pl_Version r,
          mut_FragmentLength = span_len (pl_Fragment r)\<rparr>)"
proof -
  let ?f = "tls12_fragment gseal st r"
  let ?h = "record_header (pl_ContentType r) (pl_Version r) (length ?f)"
  let ?v = "\<lparr>view_ContentType = pl_ContentType r, view_Version = pl_Version r, view_Fragment = Span ?f,
        view_BytesConsumed = 5 + length ?f\<rparr>"
  have lf: "length ?f = span_len (pl_Fragment r) + 24"
    by (rule tls12_fragment_parts [OF p st(1) r]) simp
  have small: "span_len (pl_Fragment r) \<le> 16384" using r by (simp add: tls12_plaintext_def)
  have "take (5 + length ?f) (overlay dest 0 (?h @ ?f)) = ?h @ ?f"
    using room lf by (simp add: overlay_def)
  then have "Tls_Parse (Span (take (5 + length ?f) (overlay dest 0 (?h @ ?f)) @ rest)) = Ok ?v"
    using Tls_Parse_header [of "pl_ContentType r" "pl_Version r" ?f rest] r lf small
    by (simp add: tls12_plaintext_def)
  then show ?thesis
    using Protect12_record [OF p heap st r room(1)] Unprotect12_record [OF p heap st r _ _ _ room(2,3), of ?v]
    by (intro exI [of _ "overlay dest 0 (?h @ ?f)"] exI [of _ "5 + length ?f"] exI [of _ ?v]) simp
qed

theorem tls12_record_roundtrip_witness:
  "\<exists>dest' n v. ProtectAesGcm sample_cng sample_heap (hd sample_records)
       (sample_state Aes128Gcm\<lparr>st_FixedIvLength := 4\<rparr>) (Span (replicate 40 0))
       = ((advance (sample_state Aes128Gcm\<lparr>st_FixedIvLength := 4\<rparr>), dest', n), Ok ()) \<and>
     Tls_Parse (Span (take n dest' @ [])) = Ok v \<and> view_BytesConsumed v = n \<and>
     snd (UnprotectAesGcm sample_cng sample_heap v (sample_state Aes128Gcm\<lparr>st_FixedIvLength := 4\<rparr>) (Span [0, 0]))
       = Ok \<lparr>mut_ContentType = 23, mut_Version = \<lparr>ver_Major = 3, ver_Minor = 3\<rparr>, mut_FragmentLength = 2\<rparr>"
proof -
  let ?st = "sample_state Aes128Gcm\<lparr>st_FixedIvLength := 4\<rparr>" and ?r = "hd sample_records"
  have "tls12_ready ?st" "st_SequenceNumber ?st \<noteq> - 1" "tls12_plaintext ?r"
    using sample_plaintexts
    by (simp_all add: tls12_ready_def sample_state_def sample_records_def tls12_plaintext_def tls13_plaintext_def)
  from tls12_record_roundtrip [OF sample_gcm sample_heap_granted this, of "replicate 40 0" "[0, 0]" "[]"]
  obtain dest' n v where "ProtectAesGcm sample_cng sample_heap ?r ?st (Span (replicate 40 0)) = ((advance ?st, dest', n), Ok ())"
    "Tls_Parse (Span (take n dest' @ [])) = Ok v" "view_BytesConsumed v = n"
    "snd (UnprotectAesGcm sample_cng sample_heap v ?st (Span [0, 0]))
       = Ok \<lparr>mut_ContentType = 23, mut_Version = \<lparr>ver_Major = 3, ver_Minor = 3\<rparr>, mut_FragmentLength = 2\<rparr>"
    by (auto simp: sample_records_def)
  then show ?thesis by blast
qed

section \<open>Plaintext records\<close>

lemma Tls_Parse_incomplete:
  assumes "IsValidContentType t" "IsSupportedVersion v" "length frag \<le> 18432" "k < 5 + length frag"
  shows "Tls_Parse (Span (take k (record_header t v (length frag) @ frag))) = Err STATUS_MORE_PROCESSING_REQUIRED"
proof (cases "k < 5")
  case True
  then show ?thesis by (simp add: Tls_Parse_def)
next
  case False
  then have k: "take k (record_header t v (length frag) @ frag) = record_header t v (length frag) @ take (k - 5) frag"
    by simp
  show ?thesis
    unfolding k using assms False ReadUint16_Write [of "length frag" "take (k - 5) frag"]
    by (cases v) (simp add: Tls_Parse_def Let_def record_header_def rd_def)
qed

text \<open>
  \<open>Parse\<close> inverts \<open>EncodePlaintext\<close> on a stream: what the writer puts into the destination is
  parsed back to the same type, version and fragment, whatever bytes follow, and consumes exactly
  the bytes written; every proper prefix of it makes the parser ask for more input.
\<close>

theorem EncodePlaintext_Parse:
  assumes r: "tls12_plaintext r" and room: "5 + span_len (pl_Fragment r) \<le> length dest"
  shows "\<exists>wire. EncodePlaintext r (Span dest) = ((overlay dest 0 wire, length wire), Ok ()) \<and>
    Tls_Parse (Span (wire @ rest)) = Ok \<lparr>view_ContentType = pl_ContentType r, view_Version = pl_Version r,
      view_Fragment = pl_Fragment r, view_BytesConsumed = length wire\<rparr> \<and>
    (\<forall>k < length wire. Tls_Parse (Span (take k wire)) = Err STATUS_MORE_PROCESSING_REQUIRED)"
proof -
  obtain m where m: "pl_Fragment r = Span m" using r by (cases "pl_Fragment r") (simp_all add: tls12_plaintext_def)
  let ?h = "record_header (pl_ContentType r) (pl_Version r) (length m)"
  have v: "IsValidContentType (pl_ContentType r)" "IsSupportedVersion (pl_Version r)" "length m \<le> 18432"
    using r m by (simp_all add: tls12_plaintext_def)
  have "ValidatePlaintextRecord r = Ok ()" using r by (simp add: ValidatePlaintextRecord_def tls12_plaintext_def)
  moreover have "overlay (overlay dest 0 ?h) 5 m = overlay dest 0 (?h @ m)"
    using overlay_overlay [of 0 ?h m dest] room m by simp
  ultimately have "EncodePlaintext r (Span dest) = ((overlay dest 0 (?h @ m), length (?h @ m)), Ok ())"
    using room m by (auto simp: EncodePlaintext_def Let_def)
  then show ?thesis
    using Tls_Parse_header [OF v, of rest] Tls_Parse_incomplete [OF v] m by (intro exI [of _ "?h @ m"]) simp
qed

theorem EncodePlaintext_Parse_witness:
  "\<exists>wire. EncodePlaintext (hd sample_records) (Span (replicate 7 0)) = ((overlay (replicate 7 0) 0 wire, length wire), Ok ()) \<and>
     Tls_Parse (Span (wire @ [1, 2])) = Ok \<lparr>view_ContentType = 23, view_Version = \<lparr>ver_Major = 3, ver_Minor = 3\<rparr>,
       view_Fragment = Span [104, 105], view_BytesConsumed = length wire\<rparr>"
  using EncodePlaintext_Parse [of "hd sample_records" "replicate 7 0" "[1, 2]"] sample_plaintexts
  by (auto simp: sample_records_def tls12_plaintext_def tls13_plaintext_def)

end
