(* ===== verification/Kh_TlsRecordCbc.thy ===== *)
theory Kh_TlsRecordCbc
  imports Kh_TlsRecord
begin

text \<open>
  The records of TLS 1.2 under AES-CBC with encrypt-then-MAC (RFC 7366), the functions
  \<open>ProtectAesCbcEncryptThenMac\<close> and \<open>UnprotectAesCbcEncryptThenMac\<close> of \<open>tls/TlsRecord.cpp\<close>: a record
  is read back, and a record whose MAC is wrong is refused before anything is decrypted. HMAC and
  AES-CBC are the operating system's; what is used of them is \<open>hmac_provider\<close> and \<open>cbc_provider\<close>.
\<close>

section \<open>The record\<close>

definition cbc_padding :: "nat \<Rightarrow> nat" where
  "cbc_padding len = 16 - (len + 1) mod 16"

definition cbc_padded :: "bytes \<Rightarrow> bytes" where
  "cbc_padded m = m @ replicate (cbc_padding (length m) + 1) (word_of_nat (cbc_padding (length m)))"

definition mac_key :: "TlsAeadCipherState \<Rightarrow> bytes" where
  "mac_key st = take (st_MacKeyLength st) (st_MacKey st)"

definition cbc_mac_of :: "mac_fun \<Rightarrow> TlsAeadCipherState \<Rightarrow> UCHAR \<Rightarrow> TlsProtocolVersion \<Rightarrow> bytes \<Rightarrow> bytes" where
  "cbc_mac_of mac st ty ver part =
     mac (st_MacAlgorithm st) (mac_key st) (BuildAad (st_SequenceNumber st) ty ver (length part) @ part)"

definition cbc_part :: "cbc_fun \<Rightarrow> TlsAeadCipherState \<Rightarrow> bytes \<Rightarrow> bytes \<Rightarrow> bytes" where
  "cbc_part E st iv m = iv @ E (write_key st) iv (cbc_padded m)"

definition cbc_ready :: "TlsAeadCipherState \<Rightarrow> bool" where
  "cbc_ready st \<longleftrightarrow>
     st_EncryptThenMac st \<and> length (st_Key st) = 32 \<and> (st_KeyLength st = 16 \<or> st_KeyLength st = 32) \<and>
     length (st_MacKey st) = 64 \<and> st_MacKeyLength st = HashDigestLength (st_MacAlgorithm st)"

definition advance_cbc :: "TlsAeadCipherState \<Rightarrow> TlsAeadCipherState" where
  "advance_cbc st = st\<lparr>st_SequenceNumber := st_SequenceNumber st + 1\<rparr>"

lemma cbc_padding_bounds: "1 \<le> cbc_padding len" "cbc_padding len \<le> 16"
  by (auto simp: cbc_padding_def Suc_le_eq)

lemma cbc_padding_dvd: "16 dvd len + cbc_padding len + 1"
proof -
  have "len + 1 + (16 - (len + 1) mod 16) = 16 * ((len + 1) div 16 + 1)" by presburger
  then show ?thesis unfolding cbc_padding_def by (metis add.assoc add.commute dvd_triv_left)
qed

lemma cbc_padded_bound: "len \<le> 16384 \<Longrightarrow> len + cbc_padding len + 1 \<le> 16400"
proof -
  assume "len \<le> 16384"
  then have "len + cbc_padding len + 1 < 16402" using cbc_padding_bounds(2) [of len] by linarith
  moreover obtain k where "len + cbc_padding len + 1 = 16 * k" using cbc_padding_dvd by (auto elim: dvdE)
  ultimately show ?thesis by presburger
qed

lemma length_cbc_padded: "length (cbc_padded m) = length m + cbc_padding (length m) + 1"
  by (simp add: cbc_padded_def)

lemma cbc_facts:
  assumes "cbc_ready st"
  shows "key_span st = Span (write_key st)" "length (write_key st) = 16 \<or> length (write_key st) = 32"
    "mac_key_span st = Span (mac_key st)" "length (mac_key st) = HashDigestLength (st_MacAlgorithm st)"
    "0 < st_KeyLength st" "st_EncryptThenMac st" "st_MacKeyLength st = HashDigestLength (st_MacAlgorithm st)"
  using assms HashDigestLength_bounds(2) [of "st_MacAlgorithm st"]
  by (auto simp: cbc_ready_def key_span_def write_key_def mac_key_span_def mac_key_def)

lemma AesCbcEncrypt_E:
  assumes p: "cbc_provider E D p" and k: "length k = 16 \<or> length k = 32" and iv: "length iv = 16"
    and m: "16 dvd length m" "m \<noteq> []" "length m \<le> length out" "length m < 2 ^ 32" "length out < 2 ^ 32"
  shows "AesCbcEncrypt p (Span k) (Span iv) (Span m) (Span out) = (overlay out 0 (E k iv m), Ok (length m))"
    and "AesCbcDecrypt p (Span k) (Span iv) (Span m) (Span out) = (overlay out 0 (D k iv m), Ok (length m))"
proof -
  have u: "unat (word_of_nat (length m) :: ULONG) = length m" using m by (intro unat_word_of_nat_32) simp
  have l: "length (E k iv m) = length m" "length (D k iv m) = length m"
    using p by (simp_all add: cbc_provider_def)
  have o: "overlay out 0 (overlay out 0 x) = overlay out 0 x" if "length x = length m" for x :: bytes
    using that m by (simp add: overlay_def)
  have key: "aes_cbc_key p k = Ok k" using p by (simp add: aes_cbc_key_def cbc_provider_def)
  have call: "cbc_Encrypt p k iv m out = (overlay out 0 (E k iv m), Ok (word_of_nat (length m)))"
    "cbc_Decrypt p k iv m out = (overlay out 0 (D k iv m), Ok (word_of_nat (length m)))" "irqlPassive p"
    using p m by (simp_all add: cbc_provider_def)
  have g: "length m mod 16 = 0" using m by auto
  show "AesCbcEncrypt p (Span k) (Span iv) (Span m) (Span out) = (overlay out 0 (E k iv m), Ok (length m))"
    using iv m u l o key call g k by (auto simp: AesCbcEncrypt_def Let_def RequirePassiveLevel_def)
  show "AesCbcDecrypt p (Span k) (Span iv) (Span m) (Span out) = (overlay out 0 (D k iv m), Ok (length m))"
    using iv m u l o key call g k by (auto simp: AesCbcDecrypt_def Let_def RequirePassiveLevel_def)
qed

lemma length_cbc_mac_of: "hmac_provider mac p \<Longrightarrow> length (cbc_mac_of mac st ty ver part) = HashDigestLength (st_MacAlgorithm st)"
  by (simp add: cbc_mac_of_def hmac_provider_def)

lemma record_hmac:
  assumes hm: "hmac_provider mac p" and st: "cbc_ready st" and part: "length part < 2 ^ 31"
  shows "Hmac p (st_MacAlgorithm st) (Span (mac_key st))
      (Span (BuildAad (st_SequenceNumber st) ty ver (length part) @ part))
      (Span (replicate (HashDigestLength (st_MacAlgorithm st)) 0))
    = (cbc_mac_of mac st ty ver part, Ok (HashDigestLength (st_MacAlgorithm st)))"
proof -
  have k: "mac_key st \<noteq> []" "length (mac_key st) < 2 ^ 32"
    using cbc_facts(4) [OF st] HashDigestLength_bounds [of "st_MacAlgorithm st"] by auto
  have "length (BuildAad (st_SequenceNumber st) ty ver (length part) @ part) < 2 ^ 32" using part by simp
  from Hmac_mac [OF hm k this, of "st_MacAlgorithm st" "replicate (HashDigestLength (st_MacAlgorithm st)) 0"]
  show ?thesis using length_cbc_mac_of [OF hm, of st ty ver part] by (simp add: cbc_mac_of_def overlay_whole)
qed

section \<open>Writing a record\<close>

lemma overlay_tail: "off + length e \<le> length d \<Longrightarrow> overlay d off (overlay (drop off d) 0 e) = overlay d off e"
  by (simp add: overlay_def add.commute)

lemma ProtectCbc_record:
  assumes hm: "hmac_provider mac p" and cb: "cbc_provider E D p"
    and rnd: "bcrypt_GenRandom p (replicate 16 0) = (iv, Ok ())" "length iv = 16"
    and st: "cbc_ready st" "st_SequenceNumber st \<noteq> - 1" and r: "tls12_plaintext r" "pl_Fragment r = Span m"
    and room: "length m + 102 \<le> length dest" "length dest < 2 ^ 32"
  defines "part \<equiv> cbc_part E st iv m"
  defines "frag \<equiv> part @ cbc_mac_of mac st (pl_ContentType r) (pl_Version r) part"
  shows "ProtectAesCbcEncryptThenMac p True r st (Span dest) = ((advance_cbc st, overlay dest 0
      (record_header (pl_ContentType r) (pl_Version r) (length frag) @ frag), 5 + length frag), Ok ())"
proof -
  note f = cbc_facts [OF st(1)]
  let ?P = "cbc_padding (length m)" and ?h = "record_header (pl_ContentType r) (pl_Version r) (length frag)"
  let ?e = "E (write_key st) iv (cbc_padded m)"
  let ?mac = "cbc_mac_of mac st (pl_ContentType r) (pl_Version r) part"
  let ?L = "length m + ?P + 1" and ?H = "HashDigestLength (st_MacAlgorithm st)"
  have lm: "length m \<le> 16384" using r by (simp add: tls12_plaintext_def)
  note bound = cbc_padded_bound [OF lm]
  have H: "0 < ?H" "?H \<le> 64" by (rule HashDigestLength_bounds)+
  have le: "length ?e = ?L" using cb by (simp add: cbc_provider_def length_cbc_padded)
  have lp: "length part = 16 + ?L" using le rnd by (simp add: part_def cbc_part_def)
  have lmac: "length ?mac = ?H" by (rule length_cbc_mac_of [OF hm])
  have lf: "length frag = 16 + ?L + ?H" using lp lmac by (simp add: frag_def)
  have P: "?P \<le> 16" by (rule cbc_padding_bounds)
  have fits: "5 + length frag \<le> length dest" using room P H lf by linarith
  have rand: "GenerateRandom p (Span (replicate 16 0)) = (iv, Ok ())"
    using rnd hm by (simp add: GenerateRandom_def hmac_provider_def RequirePassiveLevel_def ToUlong_def IsValidMutableBuffer_def)
  let ?d = "overlay (overlay dest 0 ?h) 5 iv"
  have ld: "length ?d = length dest" using fits lf rnd by simp
  have enc: "AesCbcEncrypt p (Span (write_key st)) (Span iv) (Span (cbc_padded m)) (Span (drop 21 ?d))
      = (overlay (drop 21 ?d) 0 ?e, Ok ?L)"
    using AesCbcEncrypt_E(1) [OF cb f(2) rnd(2), of "cbc_padded m" "drop 21 ?d"] cbc_padding_dvd [of "length m"]
      fits lf ld bound room by (auto simp: length_cbc_padded cbc_padded_def)
  have d1: "overlay ?d 21 (overlay (drop 21 ?d) 0 ?e) = overlay dest 0 (?h @ part)"
  proof -
    have "overlay ?d 21 (overlay (drop 21 ?d) 0 ?e) = overlay ?d 21 ?e"
      using le fits lf ld by (intro overlay_tail) simp
    then show ?thesis
      using overlay_parts [of ?h iv ?e dest] fits lf le rnd by (simp add: part_def cbc_part_def)
  qed
  have tk: "take (length part) (drop 5 (overlay dest 0 (?h @ part))) = part"
    using fits lf lp by (simp add: overlay_def)
  have hmac: "Hmac p (st_MacAlgorithm st) (Span (mac_key st))
      (Span (BuildAad (st_SequenceNumber st) (pl_ContentType r) (pl_Version r) (length part) @ part))
      (Span (replicate ?H 0)) = (?mac, Ok ?H)"
    using lp bound by (intro record_hmac [OF hm st(1)]) simp
  have d2: "overlay (overlay dest 0 (?h @ part)) (5 + length part) ?mac = overlay dest 0 (?h @ frag)"
    using overlay_overlay [of 0 "?h @ part" ?mac dest] fits lf lp lmac by (simp add: frag_def)
  have guards: "ValidatePlaintextRecord r = Ok ()" "ValidateSequenceCanAdvance st = Ok ()"
    "IncrementSequence st = Ok (advance_cbc st)"
    using r st by (simp_all add: ValidatePlaintextRecord_def ValidateSequenceCanAdvance_def tls12_plaintext_def
        IncrementSequence_def advance_cbc_def)
  have pad: "span_list (pl_Fragment r) @ replicate (?L - length m) (word_of_nat ?P) = cbc_padded m"
    using r by (simp add: cbc_padded_def)
  have Pd: "16 - (length m + 1) mod 16 = ?P" by (simp add: cbc_padding_def)
  have lens: "16 + ?L = length part" "length part + ?H = length frag"
    using lp lf by simp_all
  show ?thesis
    unfolding ProtectAesCbcEncryptThenMac_def Let_def guards after_simps r(2) span_len.simps tls_lengths Pd
      f(1,3,7) lens rand
    using fits bound H f lf room lmac enc d1 tk hmac d2 pad r(2) lp
    by (simp add: guards)
qed

section \<open>Opening a record\<close>

lemma padding_loop_equal:
  assumes "n \<le> dl" "dl \<le> length pt" "\<And>i. dl - n \<le> i \<Longrightarrow> i < dl \<Longrightarrow> pt ! i = v"
  shows "padding_loop pt dl v 0 n = Ok 0"
  using assms
proof (induction n arbitrary: dl)
  case (Suc n)
  have "rd pt (dl - 1) = Ok v" using Suc.prems by (auto simp: rd_def)
  moreover have "padding_loop pt (dl - 1) v 0 n = Ok 0"
    using Suc.prems by (intro Suc.IH) auto
  ultimately show ?case by simp
qed simp

lemma cbc_padding_bytes:
  assumes "length m + cbc_padding (length m) + 1 \<le> length pt"
  defines "b \<equiv> overlay pt 0 (cbc_padded m)" and "n \<equiv> length m + cbc_padding (length m) + 1"
  shows "rd b (n - 1) = Ok (word_of_nat (cbc_padding (length m)))"
    and "padding_loop b n (word_of_nat (cbc_padding (length m))) 0 (cbc_padding (length m) + 1) = Ok 0"
    and "take (length m) b = m"
proof -
  let ?P = "cbc_padding (length m)"
  have b: "b = m @ replicate (?P + 1) (word_of_nat ?P) @ drop n pt"
    by (simp add: b_def overlay_def cbc_padded_def n_def)
  have lb: "length b = length pt" using assms(1) by (simp add: b n_def)
  have nth: "b ! i = word_of_nat ?P" if "length m \<le> i" "i < n" for i
    using that unfolding b n_def by (subst nth_append) (auto simp: nth_append simp del: replicate_Suc replicate_add)
  show "rd b (n - 1) = Ok (word_of_nat ?P)"
    using nth [of "n - 1"] lb assms(1) by (simp add: rd_def n_def)
  show "padding_loop b n (word_of_nat ?P) 0 (?P + 1) = Ok 0"
    using nth lb assms(1) by (intro padding_loop_equal) (auto simp: n_def)
  show "take (length m) b = m" by (simp add: b)
qed

lemma UnprotectCbc_record:
  assumes hm: "hmac_provider mac p" and cb: "cbc_provider E D p"
    and st: "cbc_ready st" "st_SequenceNumber st \<noteq> - 1" and m: "length m \<le> 16384" and iv: "length iv = 16"
    and room: "length m + 97 \<le> length pt" "length pt < 2 ^ 32"
    and view: "view_Fragment v = Span (cbc_part E st iv m @
      cbc_mac_of mac st (view_ContentType v) (view_Version v) (cbc_part E st iv m))"
  shows "UnprotectAesCbcEncryptThenMac p True v st (Span pt) = ((advance_cbc st, overlay pt 0 (cbc_padded m)),
    Ok \<lparr>mut_ContentType = view_ContentType v, mut_Version = view_Version v, mut_FragmentLength = length m\<rparr>)"
proof -
  note f = cbc_facts [OF st(1)]
  let ?P = "cbc_padding (length m)" and ?part = "cbc_part E st iv m" and ?e = "E (write_key st) iv (cbc_padded m)"
  let ?mac = "cbc_mac_of mac st (view_ContentType v) (view_Version v) ?part"
  let ?L = "length m + ?P + 1" and ?H = "HashDigestLength (st_MacAlgorithm st)"
  note bound = cbc_padded_bound [OF m]
  have H: "0 < ?H" "?H \<le> 64" by (rule HashDigestLength_bounds)+
  have P: "?P \<le> 16" by (rule cbc_padding_bounds)
  have le: "length ?e = ?L" using cb by (simp add: cbc_provider_def length_cbc_padded)
  have lp: "length ?part = 16 + ?L" using le iv by (simp add: cbc_part_def)
  have lmac: "length ?mac = ?H" by (rule length_cbc_mac_of [OF hm])
  have hmac: "Hmac p (st_MacAlgorithm st) (Span (mac_key st))
      (Span (BuildAad (st_SequenceNumber st) (view_ContentType v) (view_Version v) (length ?part) @ ?part))
      (Span (replicate ?H 0)) = (?mac, Ok ?H)"
    using lp bound by (intro record_hmac [OF hm st(1)]) simp
  have eq: "MemoryEquals ?mac ?mac ?H = Ok True" using lmac by (simp add: MemoryEquals_iff)
  have dE: "D (write_key st) iv ?e = cbc_padded m"
    using cb cbc_padding_dvd [of "length m"] by (simp add: cbc_provider_def length_cbc_padded)
  have ne: "?e \<noteq> []" using le by (metis add_gr_0 length_greater_0_conv zero_less_one)
  have dec: "AesCbcDecrypt p (Span (write_key st)) (Span iv) (Span ?e) (Span pt) = (overlay pt 0 (cbc_padded m), Ok ?L)"
    using AesCbcEncrypt_E(2) [OF cb f(2) iv _ ne, of pt] cbc_padding_dvd [of "length m"] le dE room P bound by auto
  have parts: "take 16 (?part @ ?mac) = iv" "take ?L (drop 16 (?part @ ?mac)) = ?e"
    "take (16 + ?L) (?part @ ?mac) = ?part" "drop (16 + ?L) (?part @ ?mac) = ?mac"
    using iv le by (simp_all add: cbc_part_def)
  note pad = cbc_padding_bytes [of m pt]
  have "unat (word_of_nat ?P :: UCHAR) = ?P" using P by (simp add: unsigned_of_nat take_bit_nat_eq_self)
  moreover have "?L mod 16 = 0" using cbc_padding_dvd [of "length m"] by presburger
  moreover have "ValidateSequenceCanAdvance st = Ok ()" "IncrementSequence st = Ok (advance_cbc st)"
    using st by (simp_all add: ValidateSequenceCanAdvance_def IncrementSequence_def advance_cbc_def)
  moreover have lfrag: "length (?part @ ?mac) - ?H = 16 + ?L" "16 + ?L - 16 = ?L"
    using lp lmac by simp_all
  ultimately show ?thesis
    unfolding UnprotectAesCbcEncryptThenMac_def Let_def view span_list.simps span_len.simps tls_lengths f(1,3,7)
      lfrag parts
    using f H P lp lmac bound room hmac eq dec pad(1,2) by simp
qed

text \<open>
  C24: The record layer of TLS 1.2 under AES-CBC reads back what it writes: the record that
  \<open>ProtectAesCbcEncryptThenMac\<close> makes of a message of any legal length, whatever initialisation
  vector the random generator returns, is cut off the stream by \<open>Parse\<close> and opened by
  \<open>UnprotectAesCbcEncryptThenMac\<close> to the same message, both ends advancing by one.
\<close>

theorem cbc_record_roundtrip:
  assumes hm: "hmac_provider mac p" and cb: "cbc_provider E D p"
    and rnd: "bcrypt_GenRandom p (replicate 16 0) = (iv, Ok ())" "length iv = 16"
    and st: "cbc_ready st" "st_SequenceNumber st \<noteq> - 1" and r: "tls12_plaintext r" "pl_Fragment r = Span m"
    and room: "length m + 102 \<le> length dest" "length dest < 2 ^ 32" "length m + 97 \<le> length pt" "length pt < 2 ^ 32"
  shows "\<exists>dest' n v pt'. ProtectAesCbcEncryptThenMac p True r st (Span dest) = ((advance_cbc st, dest', n), Ok ()) \<and>
    Tls_Parse (Span (take n dest' @ rest)) = Ok v \<and> view_BytesConsumed v = n \<and>
    UnprotectAesCbcEncryptThenMac p True v st (Span pt) = ((advance_cbc st, pt'),
      Ok \<lparr>mut_ContentType = pl_ContentType r, mut_Version = pl_Version r, mut_FragmentLength = length m\<rparr>) \<and>
    take (length m) pt' = m"
proof -
  let ?part = "cbc_part E st iv m"
  let ?f = "?part @ cbc_mac_of mac st (pl_ContentType r) (pl_Version r) ?part"
  let ?h = "record_header (pl_ContentType r) (pl_Version r) (length ?f)"
  let ?v = "\<lparr>view_ContentType = pl_ContentType r, view_Version = pl_Version r, view_Fragment = Span ?f,
        view_BytesConsumed = 5 + length ?f\<rparr>"
  have m: "length m \<le> 16384" using r by (simp add: tls12_plaintext_def)
  have lf: "length ?f = 16 + (length m + cbc_padding (length m) + 1) + HashDigestLength (st_MacAlgorithm st)"
    using cb rnd length_cbc_mac_of [OF hm] by (simp add: cbc_part_def cbc_provider_def length_cbc_padded)
  note b = cbc_padded_bound [OF m] HashDigestLength_bounds(2) [of "st_MacAlgorithm st"] cbc_padding_bounds(2) [of "length m"]
  have fit: "5 + length ?f \<le> length dest" "length ?f \<le> 18432" using lf b room(1) by linarith+
  have "take (5 + length ?f) (overlay dest 0 (?h @ ?f)) = ?h @ ?f"
    using fit by (simp add: overlay_def del: length_append) simp
  then have "Tls_Parse (Span (take (5 + length ?f) (overlay dest 0 (?h @ ?f)) @ rest)) = Ok ?v"
    using Tls_Parse_header [of "pl_ContentType r" "pl_Version r" ?f rest] r fit(2) by (simp add: tls12_plaintext_def)
  then show ?thesis
    using ProtectCbc_record [OF hm cb rnd st r room(1,2)]
      UnprotectCbc_record [OF hm cb st m rnd(2) room(3,4), of ?v] cbc_padding_bytes(3) [of m pt] b room(3)
    by (intro exI [of _ "overlay dest 0 (?h @ ?f)"] exI [of _ "5 + length ?f"] exI [of _ ?v]
          exI [of _ "overlay pt 0 (cbc_padded m)"]) simp
qed

text \<open>
  C25: The MAC is checked first: a record of legal size whose last bytes are not the MAC of the
  sequence number, the header and the encrypted part is refused with \<open>STATUS_INVALID_SIGNATURE\<close>,
  with the plaintext buffer and the cipher state as they were: nothing was decrypted and no padding
  was looked at.
\<close>

theorem cbc_bad_mac_refused:
  assumes hm: "hmac_provider mac p" and st: "cbc_ready st" "st_SequenceNumber st \<noteq> - 1"
    and frag: "view_Fragment v = Span (part @ t)" "length t = HashDigestLength (st_MacAlgorithm st)"
      "16 < length part" "length part mod 16 = 0" "length (part @ t) \<le> 18432" "length (part @ t) \<le> length pt"
    and bad: "t \<noteq> cbc_mac_of mac st (view_ContentType v) (view_Version v) part"
  shows "UnprotectAesCbcEncryptThenMac p True v st (Span pt) = ((st, pt), Err STATUS_INVALID_SIGNATURE)"
proof -
  note f = cbc_facts [OF st(1)]
  let ?mac = "cbc_mac_of mac st (view_ContentType v) (view_Version v) part" and ?H = "HashDigestLength (st_MacAlgorithm st)"
  have lmac: "length ?mac = ?H" by (rule length_cbc_mac_of [OF hm])
  have hmac: "Hmac p (st_MacAlgorithm st) (Span (mac_key st))
      (Span (BuildAad (st_SequenceNumber st) (view_ContentType v) (view_Version v) (length part) @ part))
      (Span (replicate ?H 0)) = (?mac, Ok ?H)"
    using frag(5) by (intro record_hmac [OF hm st(1)]) simp
  have eq: "MemoryEquals ?mac t ?H = Ok False" using lmac frag(2) bad by (simp add: MemoryEquals_iff)
  have seq: "ValidateSequenceCanAdvance st = Ok ()" using st by (simp add: ValidateSequenceCanAdvance_def)
  have "(length part - 16) mod 16 = 0" using frag(3,4) by presburger
  then show ?thesis
    unfolding UnprotectAesCbcEncryptThenMac_def Let_def frag(1) span_list.simps span_len.simps tls_lengths f(1,3,7)
    using f HashDigestLength_bounds(1) [of "st_MacAlgorithm st"] frag hmac eq seq by simp
qed

theorem cbc_record_roundtrip_witness:
  "\<exists>dest' n v pt'. ProtectAesCbcEncryptThenMac sample_cng True (hd sample_records) (sample_state Aes256Gcm)
       (Span (replicate 200 0)) = ((advance_cbc (sample_state Aes256Gcm), dest', n), Ok ()) \<and>
     Tls_Parse (Span (take n dest' @ [])) = Ok v \<and> view_BytesConsumed v = n \<and>
     snd (UnprotectAesCbcEncryptThenMac sample_cng True v (sample_state Aes256Gcm) (Span (replicate 200 0)))
       = Ok \<lparr>mut_ContentType = 23, mut_Version = \<lparr>ver_Major = 3, ver_Minor = 3\<rparr>, mut_FragmentLength = 2\<rparr>"
proof -
  let ?st = "sample_state Aes256Gcm" and ?r = "hd sample_records"
  have a: "bcrypt_GenRandom sample_cng (replicate 16 0) = (replicate 16 7, Ok ())" "length (replicate 16 (7 :: UCHAR)) = 16"
    by (simp_all add: sample_cng_def)
  have b: "cbc_ready ?st" "st_SequenceNumber ?st \<noteq> - 1" "tls12_plaintext ?r" "pl_Fragment ?r = Span [104, 105]"
    using sample_plaintexts
    by (simp_all add: cbc_ready_def sample_state_def sample_records_def tls12_plaintext_def tls13_plaintext_def)
  from cbc_record_roundtrip [OF sample_hmac sample_cbc a b, of "replicate 200 0" "replicate 200 0" "[]"]
  obtain dest' n v pt' where "ProtectAesCbcEncryptThenMac sample_cng True ?r ?st (Span (replicate 200 0))
       = ((advance_cbc ?st, dest', n), Ok ())" "Tls_Parse (Span (take n dest' @ [])) = Ok v" "view_BytesConsumed v = n"
    "snd (UnprotectAesCbcEncryptThenMac sample_cng True v ?st (Span (replicate 200 0)))
       = Ok \<lparr>mut_ContentType = 23, mut_Version = \<lparr>ver_Major = 3, ver_Minor = 3\<rparr>, mut_FragmentLength = 2\<rparr>"
    by (auto simp: sample_records_def)
  then show ?thesis by blast
qed

theorem cbc_bad_mac_refused_witness:
  "UnprotectAesCbcEncryptThenMac sample_cng True
     \<lparr>view_ContentType = 23, view_Version = \<lparr>ver_Major = 3, ver_Minor = 3\<rparr>,
      view_Fragment = Span (replicate 32 0 @ replicate 32 0), view_BytesConsumed = 69\<rparr>
     (sample_state Aes256Gcm) (Span (replicate 64 0))
   = ((sample_state Aes256Gcm, replicate 64 0), Err STATUS_INVALID_SIGNATURE)"
proof -
  have "replicate 32 (77 :: UCHAR) ! 0 \<noteq> replicate 32 0 ! 0" by simp
  then have "replicate 32 0 \<noteq> replicate 32 (77 :: UCHAR)" by metis
  then show ?thesis
    by (intro cbc_bad_mac_refused [OF sample_hmac, where part = "replicate 32 0" and t = "replicate 32 0"])
       (simp_all add: cbc_ready_def sample_state_def cbc_mac_of_def sample_mac_def mac_key_def)
qed

end
