(* ===== verification/Kh_ConnectionPool.thy ===== *)
theory Kh_ConnectionPool
  imports Kh_Prelude "HOL-Library.Multiset"
begin

text \<open>
  The connection pool of the engine, \<open>engine/ConnectionPool.cpp\<close>: a fixed array of entries, each
  empty, idle with an open connection, handed out to one request, or shared by several requests as
  HTTP/2 stream leases.

  A pointer to an entry is its index. The five pointers an entry owns (socket, transports, TLS and
  HTTP/2 objects) are addresses; what an operation detaches from the pool and closes afterwards,
  outside the lock, is part of its result. Every operation does its work under the pool lock, so a
  concurrent run is a sequence of operations. The clock is an argument.
\<close>

section \<open>Data\<close>

datatype KhConnectionPolicy = ReuseOrCreate | ForceNew | NoPool

record TlsPolicy =
  Profile :: UCHAR
  EnableTls12RsaKeyExchange :: bool
  EnableTls12Cbc :: bool
  EnableTls12Renegotiation :: bool
  EnableTls12Sha1Signatures :: bool
  EnablePostHandshakeClientAuth :: bool
  RequireRevocationCheck :: bool

record KhConnectionPoolKey =
  Scheme :: bytes
  SchemeLength :: nat
  Host :: bytes
  HostLength :: nat
  Port :: USHORT
  AddressFamily :: ULONG
  MinTlsVersion :: ULONG
  MaxTlsVersion :: ULONG
  CertificatePolicy :: ULONG
  CertificateStore :: "nat option"
  ClientCredential :: "nat option"
  Policy :: TlsPolicy
  TlsServerName :: bytes
  TlsServerNameLength :: nat
  Alpn :: bytes
  AlpnLength :: nat
  AutomaticAlpn :: bool
  ProxyEnabled :: bool
  ProxyAddress :: bytes
  ProxyAuthority :: bytes
  ProxyAuthorityLength :: nat

record KhDetachedConnectionResources =
  Socket :: "nat option"
  RawTransport :: "nat option"
  Transport :: "nat option"
  Tls :: "nat option"
  Http2 :: "nat option"

record KhPooledConnection =
  InUse :: bool
  Connected :: bool
  Id :: ULONG
  LastUsedTime :: ULONGLONG
  Http2StreamLeases :: ULONG
  Http2MaxStreamLeases :: ULONG
  CloseWhenIdle :: bool
  ProxyTunnelEstablished :: bool
  Key :: KhConnectionPoolKey
  Resources :: KhDetachedConnectionResources

record KhConnectionPool =
  Entries :: "KhPooledConnection list option"
  Capacity :: ULONG
  ActiveCount :: ULONG
  MaxConnectionsPerHost :: ULONG
  NextConnectionId :: ULONG
  IdleTimeoutMilliseconds :: ULONG

text \<open>Zeroed memory.\<close>

definition zero_policy :: TlsPolicy where
  "zero_policy = \<lparr>Profile = 0, EnableTls12RsaKeyExchange = False, EnableTls12Cbc = False,
     EnableTls12Renegotiation = False, EnableTls12Sha1Signatures = False,
     EnablePostHandshakeClientAuth = False, RequireRevocationCheck = False\<rparr>"

definition zero_key :: KhConnectionPoolKey where
  "zero_key = \<lparr>Scheme = replicate 6 0, SchemeLength = 0, Host = replicate 256 0, HostLength = 0, Port = 0,
     AddressFamily = 0, MinTlsVersion = 0, MaxTlsVersion = 0, CertificatePolicy = 0, CertificateStore = None,
     ClientCredential = None, Policy = zero_policy, TlsServerName = replicate 256 0, TlsServerNameLength = 0,
     Alpn = replicate 17 0, AlpnLength = 0, AutomaticAlpn = False, ProxyEnabled = False,
     ProxyAddress = replicate 128 0, ProxyAuthority = replicate 256 0, ProxyAuthorityLength = 0\<rparr>"

definition no_resources :: KhDetachedConnectionResources where
  "no_resources = \<lparr>Socket = None, RawTransport = None, Transport = None, Tls = None, Http2 = None\<rparr>"

definition zero_entry :: KhPooledConnection where
  "zero_entry = \<lparr>InUse = False, Connected = False, Id = 0, LastUsedTime = 0, Http2StreamLeases = 0,
     Http2MaxStreamLeases = 0, CloseWhenIdle = False, ProxyTunnelEstablished = False, Key = zero_key,
     Resources = no_resources\<rparr>"

definition zero_pool :: KhConnectionPool where
  "zero_pool = \<lparr>Entries = None, Capacity = 0, ActiveCount = 0, MaxConnectionsPerHost = 0,
     NextConnectionId = 0, IdleTimeoutMilliseconds = 0\<rparr>"

section \<open>Comparisons\<close>

definition TextEquals :: "bytes \<Rightarrow> nat \<Rightarrow> bytes \<Rightarrow> nat \<Rightarrow> bool" where
  "TextEquals left leftLength right rightLength \<longleftrightarrow>
     (if leftLength \<noteq> rightLength then False
      else if leftLength = 0 then True
      else take leftLength left = take leftLength right)"

text \<open>\<open>ss_family\<close> is the first two bytes of the address; \<open>AF_INET\<close> is 2 and \<open>AF_INET6\<close> is 23.\<close>

definition SockaddrStorageCompareLength :: "bytes \<Rightarrow> nat" where
  "SockaddrStorageCompareLength address =
     (if take 2 address = [2, 0] then 16 else if take 2 address = [23, 0] then 28 else 2)"

definition SockaddrStorageEquals :: "bytes \<Rightarrow> bytes \<Rightarrow> bool" where
  "SockaddrStorageEquals left right \<longleftrightarrow>
     (if take 2 left \<noteq> take 2 right then False
      else let compareLength = SockaddrStorageCompareLength left
           in take compareLength left = take compareLength right)"

definition ProxyIdentityEquals :: "KhConnectionPoolKey \<Rightarrow> KhConnectionPoolKey \<Rightarrow> bool" where
  "ProxyIdentityEquals left right \<longleftrightarrow>
     (if ProxyEnabled left \<noteq> ProxyEnabled right then False
      else if \<not> ProxyEnabled left then True
      else SockaddrStorageEquals (ProxyAddress left) (ProxyAddress right) \<and>
           TextEquals (ProxyAuthority left) (ProxyAuthorityLength left)
             (ProxyAuthority right) (ProxyAuthorityLength right))"

definition KhConnectionPoolKeysEqualExceptAlpn :: "KhConnectionPoolKey \<Rightarrow> KhConnectionPoolKey \<Rightarrow> bool" where
  "KhConnectionPoolKeysEqualExceptAlpn left right \<longleftrightarrow>
     Port left = Port right \<and> AddressFamily left = AddressFamily right \<and>
     MinTlsVersion left = MinTlsVersion right \<and> MaxTlsVersion left = MaxTlsVersion right \<and>
     CertificatePolicy left = CertificatePolicy right \<and> CertificateStore left = CertificateStore right \<and>
     ClientCredential left = ClientCredential right \<and>
     Profile (Policy left) = Profile (Policy right) \<and>
     EnableTls12RsaKeyExchange (Policy left) = EnableTls12RsaKeyExchange (Policy right) \<and>
     EnableTls12Cbc (Policy left) = EnableTls12Cbc (Policy right) \<and>
     EnableTls12Renegotiation (Policy left) = EnableTls12Renegotiation (Policy right) \<and>
     EnableTls12Sha1Signatures (Policy left) = EnableTls12Sha1Signatures (Policy right) \<and>
     EnablePostHandshakeClientAuth (Policy left) = EnablePostHandshakeClientAuth (Policy right) \<and>
     RequireRevocationCheck (Policy left) = RequireRevocationCheck (Policy right) \<and>
     AutomaticAlpn left = AutomaticAlpn right \<and> ProxyIdentityEquals left right \<and>
     TextEquals (Scheme left) (SchemeLength left) (Scheme right) (SchemeLength right) \<and>
     TextEquals (Host left) (HostLength left) (Host right) (HostLength right) \<and>
     TextEquals (TlsServerName left) (TlsServerNameLength left) (TlsServerName right) (TlsServerNameLength right)"

definition KhConnectionPoolKeysEqual :: "KhConnectionPoolKey \<Rightarrow> KhConnectionPoolKey \<Rightarrow> bool" where
  "KhConnectionPoolKeysEqual left right \<longleftrightarrow>
     KhConnectionPoolKeysEqualExceptAlpn left right \<and>
     TextEquals (Alpn left) (AlpnLength left) (Alpn right) (AlpnLength right)"

definition KhConnectionPoolKeysEqualForAutoAlpnAcquire :: "KhConnectionPoolKey \<Rightarrow> KhConnectionPoolKey \<Rightarrow> bool" where
  "KhConnectionPoolKeysEqualForAutoAlpnAcquire left right \<longleftrightarrow>
     (if AlpnLength left \<noteq> 0 \<or> AlpnLength right = 0 then KhConnectionPoolKeysEqual left right
      else if \<not> AutomaticAlpn left \<or> \<not> AutomaticAlpn right then KhConnectionPoolKeysEqual left right
      else KhConnectionPoolKeysEqualExceptAlpn left right)"

definition ConnectionPoolHostQuotaKeysEqual :: "KhConnectionPoolKey \<Rightarrow> KhConnectionPoolKey \<Rightarrow> bool" where
  "ConnectionPoolHostQuotaKeysEqual left right \<longleftrightarrow>
     Port left = Port right \<and> AddressFamily left = AddressFamily right \<and>
     TextEquals (Scheme left) (SchemeLength left) (Scheme right) (SchemeLength right) \<and>
     TextEquals (Host left) (HostLength left) (Host right) (HostLength right)"

section \<open>Entries\<close>

definition IsIdleExpired :: "KhConnectionPool \<Rightarrow> KhPooledConnection \<Rightarrow> ULONGLONG \<Rightarrow> bool" where
  "IsIdleExpired pool connection now \<longleftrightarrow>
     (if IdleTimeoutMilliseconds pool = 0 \<or> LastUsedTime connection = 0 \<or> now < LastUsedTime connection then False
      else let timeout100ns = ucast (IdleTimeoutMilliseconds pool) * 10000
           in timeout100ns \<le> now - LastUsedTime connection)"

definition HasDetachedConnectionResources :: "KhDetachedConnectionResources \<Rightarrow> bool" where
  "HasDetachedConnectionResources detached \<longleftrightarrow>
     Socket detached \<noteq> None \<or> RawTransport detached \<noteq> None \<or> Transport detached \<noteq> None \<or>
     Tls detached \<noteq> None \<or> Http2 detached \<noteq> None"

definition HasConnectionState :: "KhPooledConnection \<Rightarrow> bool" where
  "HasConnectionState connection \<longleftrightarrow>
     (if InUse connection \<or> Connected connection \<or> Http2StreamLeases connection \<noteq> 0 \<or> CloseWhenIdle connection
      then True
      else Socket (Resources connection) \<noteq> None \<or> RawTransport (Resources connection) \<noteq> None \<or>
           Transport (Resources connection) \<noteq> None \<or> Tls (Resources connection) \<noteq> None \<or>
           Http2 (Resources connection) \<noteq> None)"

definition CanShareHttp2Connection :: "KhPooledConnection \<Rightarrow> KhConnectionPoolKey \<Rightarrow> bool" where
  "CanShareHttp2Connection connection key \<longleftrightarrow>
     (if \<not> Connected connection \<or> CloseWhenIdle connection \<or> Http2StreamLeases connection = 0 \<or>
         Http2MaxStreamLeases connection = 0 \<or>
         Http2MaxStreamLeases connection \<le> Http2StreamLeases connection \<or>
         \<not> KhConnectionPoolKeysEqualForAutoAlpnAcquire key (Key connection)
      then False
      else \<not> (Http2 (Resources connection) = None \<or> Transport (Resources connection) = None))"

text \<open>Detaching: the pointers move to the caller and the entry is zeroed.\<close>

definition DetachConnectionResources :: "KhPooledConnection \<Rightarrow> KhPooledConnection \<times> KhDetachedConnectionResources" where
  "DetachConnectionResources connection = (zero_entry, Resources connection)"

definition decrement_active :: "KhConnectionPool \<Rightarrow> KhConnectionPool" where
  "decrement_active pool =
     (if ActiveCount pool \<noteq> 0 then pool\<lparr>ActiveCount := ActiveCount pool - 1\<rparr> else pool)"

text \<open>
  What closing detached resources does: each object is freed, the socket is closed first and the
  HTTP/2 connection is shut down first when there is a transport to do it on.
\<close>

datatype close_action =
  ShutdownHttp2 nat nat | FreeHttp2 nat | FreeTransport nat | FreeTls nat | FreeRawTransport nat
| CloseSocket nat | FreeSocket nat

definition CloseDetachedConnectionResources :: "KhDetachedConnectionResources \<Rightarrow> close_action list" where
  "CloseDetachedConnectionResources d =
     (case Http2 d of None \<Rightarrow> [] | Some h \<Rightarrow>
        (case Transport d of None \<Rightarrow> [] | Some t \<Rightarrow> [ShutdownHttp2 h t]) @ [FreeHttp2 h])
     @ (case Transport d of None \<Rightarrow> [] | Some t \<Rightarrow> if Transport d \<noteq> RawTransport d then [FreeTransport t] else [])
     @ (case Tls d of None \<Rightarrow> [] | Some t \<Rightarrow> [FreeTls t])
     @ (case RawTransport d of None \<Rightarrow> [] | Some t \<Rightarrow> [FreeRawTransport t])
     @ (case Socket d of None \<Rightarrow> [] | Some s \<Rightarrow> [CloseSocket s, FreeSocket s])"

text \<open>A loop over the entries that stops at the first candidate.\<close>

fun first_index :: "(KhPooledConnection \<Rightarrow> bool) \<Rightarrow> KhPooledConnection list \<Rightarrow> nat option" where
  "first_index P [] = None"
| "first_index P (c # cs) = (if P c then Some 0 else map_option Suc (first_index P cs))"

definition entries :: "KhConnectionPool \<Rightarrow> KhPooledConnection list" where
  "entries pool = (case Entries pool of None \<Rightarrow> [] | Some es \<Rightarrow> es)"

definition set_entry :: "KhConnectionPool \<Rightarrow> nat \<Rightarrow> KhPooledConnection \<Rightarrow> KhConnectionPool" where
  "set_entry pool i c = pool\<lparr>Entries := Some ((entries pool)[i := c])\<rparr>"

definition counts_for :: "KhConnectionPoolKey \<Rightarrow> KhPooledConnection \<Rightarrow> bool" where
  "counts_for key c \<longleftrightarrow> (Connected c \<or> InUse c) \<and> ConnectionPoolHostQuotaKeysEqual (Key c) key"

definition CountConnectionsForHostQuota :: "KhConnectionPool \<Rightarrow> KhConnectionPoolKey \<Rightarrow> ULONG" where
  "CountConnectionsForHostQuota pool key = fold (\<lambda>c count. if counts_for key c then count + 1 else count) (entries pool) 0"

definition DetachIdleConnectionForHostQuotaLocked ::
  "KhConnectionPool \<Rightarrow> KhConnectionPoolKey \<Rightarrow> (KhConnectionPool \<times> KhDetachedConnectionResources) option" where
  "DetachIdleConnectionForHostQuotaLocked pool key =
     (case first_index (\<lambda>c. Connected c \<and> \<not> InUse c \<and> Http2StreamLeases c = 0 \<and>
              ConnectionPoolHostQuotaKeysEqual (Key c) key) (entries pool) of
        None \<Rightarrow> None
      | Some i \<Rightarrow>
          case DetachConnectionResources (entries pool ! i) of
            (c, detached) \<Rightarrow> Some (decrement_active (set_entry pool i c), detached))"

section \<open>Operations\<close>

definition KhConnectionPoolInitialize ::
  "bool \<Rightarrow> KhConnectionPool option \<Rightarrow> ULONG \<Rightarrow> ULONG \<Rightarrow> ULONG \<Rightarrow> KhConnectionPool option \<times> unit res" where
  "KhConnectionPoolInitialize granted pool capacity maxConnectionsPerHost idleTimeoutMilliseconds =
     (if pool = None \<or> capacity = 0 \<or> maxConnectionsPerHost = 0 \<or> capacity < maxConnectionsPerHost
      then (pool, Err STATUS_INVALID_PARAMETER)
      else if \<not> granted then (Some zero_pool, Err STATUS_INSUFFICIENT_RESOURCES)
      else (Some (zero_pool\<lparr>Entries := Some (replicate (unat capacity) zero_entry), Capacity := capacity,
                MaxConnectionsPerHost := maxConnectionsPerHost, NextConnectionId := 1,
                IdleTimeoutMilliseconds := idleTimeoutMilliseconds\<rparr>), Ok ()))"

definition KhConnectionPoolHasHttp2StreamLease :: "KhPooledConnection option \<Rightarrow> bool" where
  "KhConnectionPoolHasHttp2StreamLease connection =
     (case connection of None \<Rightarrow> False | Some c \<Rightarrow> Http2StreamLeases c \<noteq> 0)"

text \<open>Handing out an entry for a new connection; \<open>Id\<close> skips zero when the counter wraps around.\<close>

definition take_entry :: "KhConnectionPool \<Rightarrow> nat \<Rightarrow> KhPooledConnection \<Rightarrow> KhConnectionPoolKey \<Rightarrow> KhConnectionPool" where
  "take_entry pool i c key =
     (let id = NextConnectionId pool; n = NextConnectionId pool + 1;
          (id, n) = (if id = 0 then (n, n + 1) else (id, n))
      in set_entry (pool\<lparr>NextConnectionId := n\<rparr>) i
           (c\<lparr>InUse := True, Connected := True, Key := key, Id := id, LastUsedTime := 0\<rparr>))"

text \<open>The three searches of \<open>KhConnectionPoolAcquire\<close>.\<close>

definition can_reuse :: "KhConnectionPoolKey \<Rightarrow> KhPooledConnection \<Rightarrow> bool" where
  "can_reuse key c \<longleftrightarrow>
     Connected c \<and> \<not> InUse c \<and> Http2StreamLeases c = 0 \<and> KhConnectionPoolKeysEqualForAutoAlpnAcquire key (Key c)"

definition acquire_reuse ::
  "KhConnectionPool \<Rightarrow> KhConnectionPoolKey \<Rightarrow> ULONGLONG
   \<Rightarrow> KhConnectionPool \<times> nat option \<times> KhDetachedConnectionResources" where
  "acquire_reuse pool key now =
     (case first_index (\<lambda>c. InUse c \<and> CanShareHttp2Connection c key \<or> can_reuse key c) (entries pool) of
        None \<Rightarrow> (pool, None, no_resources)
      | Some i \<Rightarrow>
          let c = entries pool ! i
          in if InUse c \<and> CanShareHttp2Connection c key
             then (set_entry pool i (c\<lparr>Http2StreamLeases := Http2StreamLeases c + 1\<rparr>), Some i, no_resources)
             else if IsIdleExpired pool c now
             then case DetachConnectionResources c of
                    (c', detached) \<Rightarrow> (decrement_active (set_entry pool i c'), None, detached)
             else (set_entry pool i (c\<lparr>InUse := True\<rparr>), Some i, no_resources))"

definition acquire_empty ::
  "KhConnectionPool \<Rightarrow> KhConnectionPoolKey \<Rightarrow> KhDetachedConnectionResources
   \<Rightarrow> KhConnectionPool \<times> nat option \<times> KhDetachedConnectionResources" where
  "acquire_empty pool key detached =
     (case first_index (\<lambda>c. \<not> Connected c \<and> \<not> InUse c \<and> Http2StreamLeases c = 0 \<and>
              \<not> (HasConnectionState c \<and> HasDetachedConnectionResources detached)) (entries pool) of
        None \<Rightarrow> (pool, None, detached)
      | Some i \<Rightarrow>
          let c = entries pool ! i;
              (c, detached) = (if HasConnectionState c then DetachConnectionResources c else (c, detached));
              pool = take_entry pool i c key
          in (pool\<lparr>ActiveCount := ActiveCount pool + 1\<rparr>, Some i, detached))"

definition acquire_evict ::
  "KhConnectionPool \<Rightarrow> KhConnectionPoolKey \<Rightarrow> KhDetachedConnectionResources
   \<Rightarrow> KhConnectionPool \<times> nat option \<times> KhDetachedConnectionResources" where
  "acquire_evict pool key detached =
     (case first_index (\<lambda>c. \<not> InUse c \<and> Http2StreamLeases c = 0 \<and>
              \<not> (HasConnectionState c \<and> HasDetachedConnectionResources detached)) (entries pool) of
        None \<Rightarrow> (pool, None, detached)
      | Some i \<Rightarrow>
          let c = entries pool ! i;
              wasConnected = Connected c;
              (c, detached) = (if HasConnectionState c then DetachConnectionResources c else (c, detached));
              pool = take_entry pool i c key
          in (if \<not> wasConnected then pool\<lparr>ActiveCount := ActiveCount pool + 1\<rparr> else pool, Some i, detached))"

text \<open>The check of the quota per host; \<open>None\<close> for the early return.\<close>

definition acquire_quota ::
  "KhConnectionPool \<Rightarrow> KhConnectionPoolKey \<Rightarrow> KhDetachedConnectionResources
   \<Rightarrow> (KhConnectionPool \<times> KhDetachedConnectionResources) \<times> bool" where
  "acquire_quota pool key detached =
     (if MaxConnectionsPerHost pool \<le> CountConnectionsForHostQuota pool key
      then let (idleDetached, pool, detached) =
                 (if HasDetachedConnectionResources detached then (True, pool, detached)
                  else case DetachIdleConnectionForHostQuotaLocked pool key of
                         Some (pool, detached) \<Rightarrow> (True, pool, detached)
                       | None \<Rightarrow> (False, pool, detached))
           in ((pool, detached), \<not> (\<not> idleDetached \<or> MaxConnectionsPerHost pool \<le> CountConnectionsForHostQuota pool key))
      else ((pool, detached), True))"

text \<open>
  The result is the pool, the resources that are closed after the lock is released, and the index
  and the reuse flag, or the error. The two output pointers are never null in the model.
\<close>

definition KhConnectionPoolAcquire ::
  "KhConnectionPool \<Rightarrow> KhConnectionPoolKey \<Rightarrow> KhConnectionPolicy \<Rightarrow> ULONGLONG
   \<Rightarrow> (KhConnectionPool \<times> KhDetachedConnectionResources) \<times> (nat \<times> bool) res" where
  "KhConnectionPoolAcquire pool key policy now =
     (if Entries pool = None then ((pool, no_resources), Err STATUS_INVALID_PARAMETER)
      else
        let (pool, selected, detached) =
              (if policy \<noteq> ForceNew \<and> policy \<noteq> NoPool then acquire_reuse pool key now
               else (pool, None, no_resources))
        in case selected of
             Some i \<Rightarrow> ((pool, detached), Ok (i, True))
           | None \<Rightarrow>
               (case acquire_quota pool key detached of
                  ((pool, detached), admitted) \<Rightarrow>
                    if \<not> admitted then ((pool, detached), Err STATUS_INSUFFICIENT_RESOURCES)
                    else case acquire_empty pool key detached of
                           (pool, Some i, detached) \<Rightarrow> ((pool, detached), Ok (i, False))
                         | (pool, None, detached) \<Rightarrow>
                             if policy \<noteq> NoPool
                             then case acquire_evict pool key detached of
                                    (pool, Some i, detached) \<Rightarrow> ((pool, detached), Ok (i, False))
                                  | (pool, None, detached) \<Rightarrow> ((pool, detached), Err STATUS_INSUFFICIENT_RESOURCES)
                             else ((pool, detached), Err STATUS_INSUFFICIENT_RESOURCES)))"

definition detach_entry :: "KhConnectionPool \<Rightarrow> nat \<Rightarrow> KhConnectionPool \<times> KhDetachedConnectionResources" where
  "detach_entry pool i =
     (let wasConnected = Connected (entries pool ! i)
      in case DetachConnectionResources (entries pool ! i) of
           (c, detached) \<Rightarrow>
             (if wasConnected then decrement_active (set_entry pool i c) else set_entry pool i c, detached))"

definition KhConnectionPoolRelease ::
  "KhConnectionPool \<Rightarrow> nat option \<Rightarrow> bool \<Rightarrow> ULONGLONG \<Rightarrow> KhConnectionPool \<times> KhDetachedConnectionResources" where
  "KhConnectionPoolRelease pool connection reusable now =
     (case connection of
        None \<Rightarrow> (pool, no_resources)
      | Some i \<Rightarrow>
          if Entries pool = None then (pool, no_resources)
          else
            let c = entries pool ! i
            in if \<not> reusable
               then if Http2StreamLeases c \<noteq> 0
                    then let c = c\<lparr>Http2StreamLeases := Http2StreamLeases c - 1, CloseWhenIdle := True\<rparr>;
                             pool = set_entry pool i c
                         in if Http2StreamLeases c = 0 then detach_entry pool i else (pool, no_resources)
                    else detach_entry pool i
               else if Http2StreamLeases c \<noteq> 0
                    then let c = c\<lparr>Http2StreamLeases := Http2StreamLeases c - 1\<rparr>;
                             pool = set_entry pool i c
                         in if Http2StreamLeases c = 0
                            then if CloseWhenIdle c then detach_entry pool i
                                 else (set_entry pool i (c\<lparr>LastUsedTime := now, InUse := False\<rparr>), no_resources)
                            else (pool, no_resources)
                    else (set_entry pool i (c\<lparr>LastUsedTime := now, InUse := False\<rparr>), no_resources))"

definition KhConnectionPoolPromoteHttp2StreamLease ::
  "KhConnectionPool \<Rightarrow> nat option \<Rightarrow> ULONG \<Rightarrow> KhConnectionPool \<times> unit res" where
  "KhConnectionPoolPromoteHttp2StreamLease pool connection maxConcurrentStreams =
     (case connection of
        None \<Rightarrow> (pool, Err STATUS_INVALID_PARAMETER)
      | Some i \<Rightarrow>
          if Entries pool = None \<or> maxConcurrentStreams = 0 then (pool, Err STATUS_INVALID_PARAMETER)
          else
            let c = entries pool ! i
            in if \<not> Connected c \<or> \<not> InUse c \<or> CloseWhenIdle c \<or> Http2StreamLeases c \<noteq> 0
               then (pool, Err STATUS_INVALID_DEVICE_STATE)
               else if Http2 (Resources c) = None \<or> Transport (Resources c) = None
               then (pool, Err STATUS_INVALID_DEVICE_STATE)
               else (set_entry pool i (c\<lparr>Http2MaxStreamLeases := maxConcurrentStreams, Http2StreamLeases := 1\<rparr>), Ok ()))"

definition KhConnectionPoolClose ::
  "KhConnectionPool \<Rightarrow> nat option \<Rightarrow> KhConnectionPool \<times> KhDetachedConnectionResources" where
  "KhConnectionPoolClose pool connection =
     (case connection of
        None \<Rightarrow> (pool, no_resources)
      | Some i \<Rightarrow> if Entries pool = None then (pool, no_resources) else detach_entry pool i)"

section \<open>Shutdown\<close>

text \<open>
  The loop runs until no entry has any state left; \<open>closed\<close> are the resources closed so far. It is
  written as a partial function: a loop that does not end is \<open>None\<close>.
\<close>

partial_function (option) shutdown_loop ::
  "KhConnectionPool \<Rightarrow> KhDetachedConnectionResources list
   \<Rightarrow> (KhConnectionPool \<times> KhDetachedConnectionResources list) option" where
  "shutdown_loop pool closed =
     (case first_index HasConnectionState (entries pool) of
        None \<Rightarrow> Some (pool, closed)
      | Some i \<Rightarrow> shutdown_loop (fst (detach_entry pool i)) (closed @ [snd (detach_entry pool i)]))"

definition KhConnectionPoolShutdown ::
  "KhConnectionPool \<Rightarrow> (KhConnectionPool \<times> KhDetachedConnectionResources list) option" where
  "KhConnectionPoolShutdown pool =
     (if Entries pool = None then Some (zero_pool, [])
      else map_option (\<lambda>(pool, closed). (zero_pool, closed)) (shutdown_loop pool []))"

section \<open>Counting\<close>

definition cnt :: "('a \<Rightarrow> bool) \<Rightarrow> 'a list \<Rightarrow> nat" where
  "cnt P xs = length (filter P xs)"

lemma cnt_update:
  "i < length xs \<Longrightarrow>
   cnt P (xs[i := v]) + (if P (xs ! i) then 1 else 0) = cnt P xs + (if P v then 1 else 0)"
proof (induction xs arbitrary: i)
  case (Cons x xs)
  then show ?case by (cases i) (auto simp: cnt_def)
qed simp

lemma cnt_le_length: "cnt P xs \<le> length xs"
  by (simp add: cnt_def)

lemma cnt_pos_iff: "0 < cnt P xs \<longleftrightarrow> (\<exists>i < length xs. P (xs ! i))"
  by (simp add: cnt_def filter_empty_conv) (metis in_set_conv_nth)

lemma fold_count:
  "unat n + length xs < 2 ^ 32 \<Longrightarrow>
   unat (fold (\<lambda>c count. if P c then count + 1 else count) xs (n :: ULONG)) = unat n + cnt P xs"
proof (induction xs arbitrary: n)
  case (Cons x xs)
  have "unat (n + 1) = unat n + 1" using Cons.prems by (simp add: unat_word_ariths)
  then show ?case using Cons.IH [of "n + 1"] Cons.IH [of n] Cons.prems by (auto simp: cnt_def)
qed (simp add: cnt_def)

lemma first_index_Some:
  "first_index P xs = Some i \<Longrightarrow> i < length xs \<and> P (xs ! i) \<and> (\<forall>j < i. \<not> P (xs ! j))"
proof (induction xs arbitrary: i)
  case (Cons x xs)
  then show ?case by (auto simp: less_Suc_eq_0_disj split: if_splits)
qed simp

lemma first_index_None: "first_index P xs = None \<longleftrightarrow> (\<forall>i < length xs. \<not> P (xs ! i))"
proof (induction xs)
  case (Cons x xs)
  then show ?case by (auto simp: less_Suc_eq_0_disj)
qed simp

section \<open>The invariant\<close>

text \<open>
  An entry in use has a connection, stream leases are only held on an entry in use and stay within
  their limit, an entry waits to be closed only while leases are held, and an entry without
  connection owns nothing.
\<close>

definition entry_ok :: "KhPooledConnection \<Rightarrow> bool" where
  "entry_ok c \<longleftrightarrow>
     (InUse c \<longrightarrow> Connected c) \<and>
     (Http2StreamLeases c \<noteq> 0 \<longrightarrow> InUse c \<and> Http2StreamLeases c \<le> Http2MaxStreamLeases c) \<and>
     (CloseWhenIdle c \<longrightarrow> Http2StreamLeases c \<noteq> 0) \<and>
     (\<not> Connected c \<longrightarrow> Resources c = no_resources)"

text \<open>How many requests hold an entry: its leases, or one when it is in use without leases.\<close>

definition holders :: "KhPooledConnection \<Rightarrow> nat" where
  "holders c = (if Http2StreamLeases c \<noteq> 0 then unat (Http2StreamLeases c) else if InUse c then 1 else 0)"

definition pool_ok :: "KhConnectionPool \<Rightarrow> bool" where
  "pool_ok pool \<longleftrightarrow>
     Entries pool \<noteq> None \<and> length (entries pool) = unat (Capacity pool) \<and>
     unat (ActiveCount pool) = cnt Connected (entries pool) \<and>
     (\<forall>i < length (entries pool). entry_ok (entries pool ! i)) \<and>
     (\<forall>key. cnt (counts_for key) (entries pool) \<le> unat (MaxConnectionsPerHost pool))"

lemma entries_set_entry [simp]: "entries (set_entry pool i c) = (entries pool)[i := c]"
  by (simp add: set_entry_def entries_def)

lemma entries_update [simp]:
  "entries (pool\<lparr>ActiveCount := a\<rparr>) = entries pool" "entries (pool\<lparr>NextConnectionId := n\<rparr>) = entries pool"
  by (simp_all add: entries_def)

lemma set_entry_fields [simp]:
  "Entries (set_entry pool i c) \<noteq> None" "Capacity (set_entry pool i c) = Capacity pool"
  "ActiveCount (set_entry pool i c) = ActiveCount pool"
  "MaxConnectionsPerHost (set_entry pool i c) = MaxConnectionsPerHost pool"
  by (simp_all add: set_entry_def)

lemma pool_ok_bound: "pool_ok pool \<Longrightarrow> length (entries pool) < 2 ^ 32"
  using unsigned_less [of "Capacity pool", where 'a = nat] by (simp add: pool_ok_def)

lemma Count_cnt: "pool_ok pool \<Longrightarrow> unat (CountConnectionsForHostQuota pool key) = cnt (counts_for key) (entries pool)"
  using fold_count [of 0 "entries pool" "counts_for key"] pool_ok_bound [of pool]
  by (simp add: CountConnectionsForHostQuota_def)

lemma counts_for_same: "Key c' = Key c \<Longrightarrow> Connected c' = Connected c \<Longrightarrow> InUse c' = InUse c \<Longrightarrow> counts_for key c' = counts_for key c"
  by (simp add: counts_for_def)

text \<open>Changing one entry, with the counter adjusted to it.\<close>

lemma pool_ok_set:
  assumes ok: "pool_ok pool" and i: "i < length (entries pool)" and c: "entry_ok c"
    and act: "unat a + (if Connected (entries pool ! i) then 1 else 0)
      = unat (ActiveCount pool) + (if Connected c then 1 else 0)"
    and quota: "\<And>key. counts_for key c \<Longrightarrow> \<not> counts_for key (entries pool ! i) \<Longrightarrow>
      cnt (counts_for key) (entries pool) < unat (MaxConnectionsPerHost pool)"
  shows "pool_ok ((set_entry pool i c)\<lparr>ActiveCount := a\<rparr>)"
proof -
  let ?es = "entries pool"
  have "unat a = cnt Connected (?es[i := c])"
    using cnt_update [OF i, of Connected c] act ok by (simp add: pool_ok_def split: if_splits)
  moreover have "cnt (counts_for key) (?es[i := c]) \<le> unat (MaxConnectionsPerHost pool)" for key
  proof -
    have "cnt (counts_for key) ?es \<le> unat (MaxConnectionsPerHost pool)" using ok by (simp add: pool_ok_def)
    then show ?thesis using cnt_update [OF i, of "counts_for key" c] quota [of key] by (auto split: if_splits)
  qed
  moreover have "entry_ok (?es[i := c] ! j)" if "j < length ?es" for j
    using that c ok i by (auto simp: pool_ok_def nth_list_update)
  ultimately show ?thesis using ok by (simp add: pool_ok_def)
qed

lemma pool_ok_next: "pool_ok (pool\<lparr>NextConnectionId := n\<rparr>) \<longleftrightarrow> pool_ok pool"
  by (simp add: pool_ok_def)

text \<open>Changing one entry without opening or closing a connection.\<close>

lemma pool_ok_keep:
  assumes ok: "pool_ok pool" and i: "i < length (entries pool)" and c: "entry_ok c"
    and same: "Connected c = Connected (entries pool ! i)" "Key c = Key (entries pool ! i)"
  shows "pool_ok (set_entry pool i c)"
proof -
  have e: "entry_ok (entries pool ! i)" using ok i by (simp add: pool_ok_def)
  have "counts_for key c \<Longrightarrow> counts_for key (entries pool ! i)" for key
    using c e same by (auto simp: counts_for_def entry_ok_def)
  then have "pool_ok ((set_entry pool i c)\<lparr>ActiveCount := ActiveCount pool\<rparr>)"
    using ok i c same by (intro pool_ok_set) auto
  moreover have "(set_entry pool i c)\<lparr>ActiveCount := ActiveCount pool\<rparr> = set_entry pool i c"
    by (simp add: set_entry_def)
  ultimately show ?thesis by simp
qed

lemma entry_ok_zero [simp]: "entry_ok zero_entry"
  by (simp add: entry_ok_def zero_entry_def)

lemma counts_for_zero [simp]: "\<not> counts_for key zero_entry"
  by (simp add: counts_for_def zero_entry_def)

lemma holders_zero [simp]: "holders zero_entry = 0"
  by (simp add: holders_def zero_entry_def)

lemma Connected_zero [simp]: "\<not> Connected zero_entry"
  by (simp add: zero_entry_def)

lemma pool_ok_detach:
  assumes ok: "pool_ok pool" and i: "i < length (entries pool)"
  shows "pool_ok (fst (detach_entry pool i))"
    and "entries (fst (detach_entry pool i)) = (entries pool)[i := zero_entry]"
    and "snd (detach_entry pool i) = Resources (entries pool ! i)"
    and "MaxConnectionsPerHost (fst (detach_entry pool i)) = MaxConnectionsPerHost pool"
proof -
  let ?c = "entries pool ! i"
  have pos: "Connected ?c \<Longrightarrow> ActiveCount pool \<noteq> 0"
    using ok i cnt_pos_iff [of Connected "entries pool"] by (auto simp: pool_ok_def)
  have dec: "unat (ActiveCount pool - 1) = unat (ActiveCount pool) - 1" if "ActiveCount pool \<noteq> 0"
    using that by (simp add: unat_minus_one)
  have "pool_ok ((set_entry pool i zero_entry)\<lparr>ActiveCount := a\<rparr>)"
    if "unat a + (if Connected ?c then 1 else 0) = unat (ActiveCount pool)" for a
    using that ok i by (intro pool_ok_set) auto
  from this [of "ActiveCount pool - 1"] this [of "ActiveCount pool"]
  show "pool_ok (fst (detach_entry pool i))"
    using pos dec unat_gt_0 [of "ActiveCount pool"]
    by (cases "Connected ?c")
       (auto simp: detach_entry_def DetachConnectionResources_def decrement_active_def Let_def set_entry_def)
  show "entries (fst (detach_entry pool i)) = (entries pool)[i := zero_entry]"
    "snd (detach_entry pool i) = Resources ?c"
    "MaxConnectionsPerHost (fst (detach_entry pool i)) = MaxConnectionsPerHost pool"
    by (simp_all add: detach_entry_def DetachConnectionResources_def decrement_active_def Let_def)
qed

section \<open>Ownership\<close>

text \<open>
  The objects that are freed when detached resources are closed, one action for each, and the objects
  that the pool owns.
\<close>

definition frees :: "close_action \<Rightarrow> bool" where
  "frees a = (case a of ShutdownHttp2 _ _ \<Rightarrow> False | CloseSocket _ \<Rightarrow> False | _ \<Rightarrow> True)"

definition closing :: "KhDetachedConnectionResources \<Rightarrow> close_action multiset" where
  "closing d = mset (filter frees (CloseDetachedConnectionResources d))"

definition owned :: "KhConnectionPool \<Rightarrow> close_action multiset" where
  "owned pool = sum_list (map (\<lambda>c. closing (Resources c)) (entries pool))"

lemma closing_none [simp]: "closing no_resources = {#}"
  by (simp add: closing_def no_resources_def CloseDetachedConnectionResources_def)

lemma closing_empty: "\<not> HasDetachedConnectionResources d \<Longrightarrow> closing d = {#}"
  by (simp add: closing_def HasDetachedConnectionResources_def CloseDetachedConnectionResources_def)

lemma sum_list_update:
  fixes f :: "'a \<Rightarrow> 'b :: comm_monoid_add"
  shows "i < length xs \<Longrightarrow> sum_list (map f (xs[i := v])) + f (xs ! i) = sum_list (map f xs) + f v"
proof (induction xs arbitrary: i)
  case (Cons x xs)
  then show ?case by (cases i) (auto simp: ac_simps)
qed simp

lemma owned_update:
  "i < length (entries pool) \<Longrightarrow> entries pool' = (entries pool)[i := c] \<Longrightarrow>
   owned pool' + closing (Resources (entries pool ! i)) = owned pool + closing (Resources c)"
  using sum_list_update [of i "entries pool" "\<lambda>c. closing (Resources c)" c] by (simp add: owned_def)

text \<open>A change that affects no holder: idle entries may be dropped.\<close>

definition quiet :: "KhConnectionPool \<Rightarrow> KhConnectionPool \<Rightarrow> close_action multiset \<Rightarrow> bool" where
  "quiet pool pool' M \<longleftrightarrow>
     pool_ok pool' \<and> length (entries pool') = length (entries pool) \<and>
     MaxConnectionsPerHost pool' = MaxConnectionsPerHost pool \<and>
     (\<forall>j < length (entries pool). holders (entries pool' ! j) = holders (entries pool ! j) \<and>
        (InUse (entries pool ! j) \<longrightarrow> entries pool' ! j = entries pool ! j)) \<and>
     owned pool = owned pool' + M"

text \<open>A change that hands entry \<open>i\<close> to one more holder and affects no other.\<close>

definition granted_to :: "KhConnectionPool \<Rightarrow> KhConnectionPool \<Rightarrow> nat \<Rightarrow> close_action multiset \<Rightarrow> bool" where
  "granted_to pool pool' i M \<longleftrightarrow>
     pool_ok pool' \<and> i < length (entries pool) \<and> length (entries pool') = length (entries pool) \<and>
     MaxConnectionsPerHost pool' = MaxConnectionsPerHost pool \<and>
     holders (entries pool' ! i) = Suc (holders (entries pool ! i)) \<and>
     (\<forall>j < length (entries pool). j \<noteq> i \<longrightarrow> holders (entries pool' ! j) = holders (entries pool ! j) \<and>
        (InUse (entries pool ! j) \<longrightarrow> entries pool' ! j = entries pool ! j)) \<and>
     owned pool = owned pool' + M"

lemma quiet_refl: "pool_ok pool \<Longrightarrow> quiet pool pool {#}"
  by (simp add: quiet_def)

lemma quiet_trans: "quiet p p1 M \<Longrightarrow> quiet p1 p2 N \<Longrightarrow> quiet p p2 (M + N)"
  by (auto simp: quiet_def ac_simps)

lemma quiet_granted: "quiet p p1 M \<Longrightarrow> granted_to p1 p2 i N \<Longrightarrow> granted_to p p2 i (M + N)"
  by (auto simp: quiet_def granted_to_def ac_simps)

lemma holders_idle: "entry_ok c \<Longrightarrow> \<not> InUse c \<Longrightarrow> holders c = 0"
  by (auto simp: holders_def entry_ok_def)

lemma quiet_detach:
  assumes ok: "pool_ok pool" and i: "i < length (entries pool)" "\<not> InUse (entries pool ! i)"
  shows "quiet pool (fst (detach_entry pool i)) (closing (Resources (entries pool ! i)))"
proof -
  have "entry_ok (entries pool ! i)" using ok i by (simp add: pool_ok_def)
  then show ?thesis
    using pool_ok_detach [OF ok i(1)] owned_update [OF i(1) pool_ok_detach(2) [OF ok i(1)]] i holders_idle
    by (auto simp: quiet_def nth_list_update) (simp_all add: zero_entry_def)
qed

lemma detach_idle_entry:
  "Connected (entries pool ! i) \<Longrightarrow>
   detach_entry pool i = (decrement_active (set_entry pool i zero_entry), Resources (entries pool ! i))"
  by (simp add: detach_entry_def DetachConnectionResources_def)

lemma acquire_reuse_cases:
  assumes ok: "pool_ok pool" and r: "acquire_reuse pool key now = (pool', selected, d)"
  shows "case selected of
      None \<Rightarrow> quiet pool pool' (closing d)
    | Some i \<Rightarrow> granted_to pool pool' i (closing d) \<and> Connected (entries pool ! i) \<and>
        KhConnectionPoolKeysEqualForAutoAlpnAcquire key (Key (entries pool ! i)) \<and>
        Key (entries pool' ! i) = Key (entries pool ! i) \<and> Resources (entries pool' ! i) = Resources (entries pool ! i) \<and>
        (InUse (entries pool ! i) \<longrightarrow> Http2StreamLeases (entries pool ! i) \<noteq> 0 \<and>
           Http2StreamLeases (entries pool ! i) < Http2MaxStreamLeases (entries pool ! i)) \<and>
        (\<not> InUse (entries pool ! i) \<longrightarrow> \<not> IsIdleExpired pool (entries pool ! i) now)"
proof (cases "first_index (\<lambda>c. InUse c \<and> CanShareHttp2Connection c key \<or> can_reuse key c) (entries pool)")
  case None
  then show ?thesis using r quiet_refl [OF ok] by (auto simp: acquire_reuse_def)
next
  case (Some i)
  let ?c = "entries pool ! i"
  have i: "i < length (entries pool)" and hit: "InUse ?c \<and> CanShareHttp2Connection ?c key \<or> can_reuse key ?c"
    using first_index_Some [OF Some] by auto
  have e: "entry_ok ?c" using ok i by (simp add: pool_ok_def)
  have grant: "granted_to pool (set_entry pool i c) i {#}"
    if "entry_ok c" "Connected c = Connected ?c" "Key c = Key ?c" "Resources c = Resources ?c" "holders c = Suc (holders ?c)" for c
    using that pool_ok_keep [OF ok i] i owned_update [OF i, of "set_entry pool i c" c]
    by (auto simp: granted_to_def nth_list_update)
  show ?thesis
  proof (cases "InUse ?c \<and> CanShareHttp2Connection ?c key")
    case True
    let ?c' = "?c\<lparr>Http2StreamLeases := Http2StreamLeases ?c + 1\<rparr>"
    have lease: "Http2StreamLeases ?c \<noteq> 0" "Http2StreamLeases ?c < Http2MaxStreamLeases ?c" "Connected ?c"
      "KhConnectionPoolKeysEqualForAutoAlpnAcquire key (Key ?c)"
      using True by (auto simp: CanShareHttp2Connection_def not_le split: if_splits)
    have "Http2StreamLeases ?c \<noteq> - 1" using lease(2) by auto
    from unat_Suc_word [OF this] have n: "unat (Http2StreamLeases ?c + 1) = Suc (unat (Http2StreamLeases ?c))" .
    have le: "Http2StreamLeases ?c + 1 \<le> Http2MaxStreamLeases ?c" "Http2StreamLeases ?c + 1 \<noteq> 0"
      using lease(2) n by (auto simp: word_le_nat_alt word_less_nat_alt)
    have "granted_to pool (set_entry pool i ?c') i {#}"
      using e lease le n by (intro grant) (auto simp: entry_ok_def holders_def)
    moreover have "pool' = set_entry pool i ?c'" "selected = Some i" "d = no_resources"
      using r Some True by (simp_all add: acquire_reuse_def Let_def)
    ultimately show ?thesis using lease i True by simp
  next
    case False
    then have reuse: "Connected ?c" "\<not> InUse ?c" "Http2StreamLeases ?c = 0"
      "KhConnectionPoolKeysEqualForAutoAlpnAcquire key (Key ?c)"
      using hit by (auto simp: can_reuse_def)
    show ?thesis
    proof (cases "IsIdleExpired pool ?c now")
      case True
      then have "pool' = fst (detach_entry pool i)" "d = snd (detach_entry pool i)" "selected = None"
        using r Some False detach_idle_entry [OF reuse(1)]
        by (auto simp: acquire_reuse_def Let_def DetachConnectionResources_def)
      then show ?thesis
        using quiet_detach [OF ok i reuse(2)] pool_ok_detach(3) [OF ok i] by simp
    next
      case fresh: False
      have "granted_to pool (set_entry pool i (?c\<lparr>InUse := True\<rparr>)) i {#}"
        using e reuse by (intro grant) (auto simp: entry_ok_def holders_def)
      moreover have "pool' = set_entry pool i (?c\<lparr>InUse := True\<rparr>)" "selected = Some i" "d = no_resources"
        using r Some False fresh by (auto simp: acquire_reuse_def Let_def)
      ultimately show ?thesis using fresh reuse i by simp
    qed
  qed
qed

section \<open>Handing out entries\<close>

text \<open>The text comparison is equality of the texts, so the host comparison is an equivalence.\<close>

lemma TextEquals_iff: "TextEquals a n b m \<longleftrightarrow> n = m \<and> take n a = take m b"
  by (auto simp: TextEquals_def)

definition host_of :: "KhConnectionPoolKey \<Rightarrow> USHORT \<times> ULONG \<times> (nat \<times> bytes) \<times> nat \<times> bytes" where
  "host_of k = (Port k, AddressFamily k, (SchemeLength k, take (SchemeLength k) (Scheme k)),
     HostLength k, take (HostLength k) (Host k))"

lemma QuotaKeysEqual_iff: "ConnectionPoolHostQuotaKeysEqual l r \<longleftrightarrow> host_of l = host_of r"
  by (auto simp: ConnectionPoolHostQuotaKeysEqual_def TextEquals_iff host_of_def)

lemma counts_for_host:
  assumes "host_of key = host_of key'"
  shows "counts_for key = counts_for key'"
  using assms by (intro ext) (simp add: counts_for_def QuotaKeysEqual_iff)

lemma detach_idle_quota:
  assumes ok: "pool_ok pool" and d: "DetachIdleConnectionForHostQuotaLocked pool key = Some (pool', d)"
  shows "quiet pool pool' (closing d) \<and> (\<exists>i < length (entries pool). Connected (entries pool ! i) \<and>
    \<not> InUse (entries pool ! i) \<and> host_of (Key (entries pool ! i)) = host_of key \<and>
    entries pool' = (entries pool)[i := zero_entry])"
proof -
  obtain i where f: "first_index (\<lambda>c. Connected c \<and> \<not> InUse c \<and> Http2StreamLeases c = 0 \<and>
      ConnectionPoolHostQuotaKeysEqual (Key c) key) (entries pool) = Some i"
    using d by (auto simp: DetachIdleConnectionForHostQuotaLocked_def split: option.splits)
  from first_index_Some [OF f] have i: "i < length (entries pool)" "Connected (entries pool ! i)"
    "\<not> InUse (entries pool ! i)" "host_of (Key (entries pool ! i)) = host_of key"
    by (simp_all add: QuotaKeysEqual_iff)
  have "pool' = fst (detach_entry pool i)" "d = snd (detach_entry pool i)"
    using d f detach_idle_entry [OF i(2)]
    by (auto simp: DetachIdleConnectionForHostQuotaLocked_def DetachConnectionResources_def)
  then show ?thesis
    using quiet_detach [OF ok i(1,3)] pool_ok_detach(2,3) [OF ok i(1)] i by auto
qed

lemma acquire_quota_cases:
  assumes ok: "pool_ok pool" and q: "acquire_quota pool key d = ((pool', d'), admitted)"
  shows "\<exists>M. quiet pool pool' M \<and> closing d' = closing d + M \<and>
    (admitted \<longrightarrow> cnt (counts_for key) (entries pool') < unat (MaxConnectionsPerHost pool'))"
proof -
  have less: "cnt (counts_for key) (entries p) < unat (MaxConnectionsPerHost p) \<longleftrightarrow>
      CountConnectionsForHostQuota p key < MaxConnectionsPerHost p" if "pool_ok p" for p
    using Count_cnt [OF that, of key] by (simp add: word_less_nat_alt)
  show ?thesis
  proof (cases "MaxConnectionsPerHost pool \<le> CountConnectionsForHostQuota pool key \<and>
      \<not> HasDetachedConnectionResources d \<and> DetachIdleConnectionForHostQuotaLocked pool key \<noteq> None")
    case True
    then obtain p e where pe: "DetachIdleConnectionForHostQuotaLocked pool key = Some (p, e)" by auto
    have "p = pool'" "e = d'" and adm: "admitted \<longleftrightarrow> CountConnectionsForHostQuota pool' key < MaxConnectionsPerHost pool'"
      using q True pe by (auto simp: acquire_quota_def not_le)
    then have t: "quiet pool pool' (closing d')" using detach_idle_quota [OF ok pe] by simp
    moreover have "pool_ok pool'" using t by (simp add: quiet_def)
    moreover have "closing d = {#}" using True by (simp add: closing_empty)
    ultimately show ?thesis using adm less [of pool'] by auto
  next
    case False
    then have "pool' = pool" "d' = d" "admitted \<longrightarrow> CountConnectionsForHostQuota pool' key < MaxConnectionsPerHost pool'"
      using q by (auto simp: acquire_quota_def not_le split: if_splits option.splits)
    then show ?thesis using quiet_refl [OF ok] less [OF ok] by auto
  qed
qed

text \<open>An entry is filled for a new connection after its old one, if any, was detached.\<close>

definition cleared :: "KhPooledConnection \<Rightarrow> bool" where
  "cleared c \<longleftrightarrow> Resources c = no_resources \<and> Http2StreamLeases c = 0 \<and> \<not> CloseWhenIdle c"

lemma no_resources_iff: "Resources c = no_resources \<longleftrightarrow> \<not> HasDetachedConnectionResources (Resources c)"
  by (cases "Resources c") (auto simp: no_resources_def HasDetachedConnectionResources_def)

lemma cleared_zero: "cleared zero_entry"
  by (simp add: cleared_def zero_entry_def)

lemma cleared_stateless: "\<not> HasConnectionState c \<Longrightarrow> cleared c"
  by (auto simp: cleared_def no_resources_iff HasConnectionState_def HasDetachedConnectionResources_def split: if_splits)

lemma taken_granted:
  fixes pool i c key a
  defines "pool' \<equiv> (take_entry pool i c key)\<lparr>ActiveCount := a\<rparr>"
  assumes ok: "pool_ok pool" and i: "i < length (entries pool)" and idle: "\<not> InUse (entries pool ! i)"
    and c: "cleared c" and quota: "cnt (counts_for key) (entries pool) < unat (MaxConnectionsPerHost pool)"
    and a: "a = (if Connected (entries pool ! i) then ActiveCount pool else ActiveCount pool + 1)"
  shows "granted_to pool pool' i (closing (Resources (entries pool ! i))) \<and>
    Key (entries pool' ! i) = key \<and> Resources (entries pool' ! i) = no_resources"
proof -
  let ?es = "entries pool"
  obtain n k where t: "take_entry pool i c key = set_entry (pool\<lparr>NextConnectionId := n\<rparr>) i
      (c\<lparr>InUse := True, Connected := True, Key := key, Id := k, LastUsedTime := 0\<rparr>)"
    by (cases "NextConnectionId pool = 0") (auto simp: take_entry_def Let_def)
  let ?c = "c\<lparr>InUse := True, Connected := True, Key := key, Id := k, LastUsedTime := 0\<rparr>"
  have room: "unat (ActiveCount pool) < 2 ^ 32 - 1" if "\<not> Connected (?es ! i)"
  proof -
    have "cnt Connected (?es[i := ?c]) \<le> length ?es" using cnt_le_length [of Connected "?es[i := ?c]"] by simp
    moreover have "cnt Connected (?es[i := ?c]) = Suc (cnt Connected ?es)"
      using cnt_update [OF i, of Connected ?c] that by simp
    ultimately show ?thesis using pool_ok_bound [OF ok] ok by (simp add: pool_ok_def)
  qed
  have act: "unat a + (if Connected (?es ! i) then 1 else 0) = unat (ActiveCount pool) + (if Connected ?c then 1 else 0)"
    using a room by (auto simp: unat_word_ariths)
  have same: "counts_for k' = counts_for key" if "counts_for k' ?c" for k'
    using that by (intro counts_for_host) (simp add: counts_for_def QuotaKeysEqual_iff)
  have "pool_ok ((set_entry (pool\<lparr>NextConnectionId := n\<rparr>) i ?c)\<lparr>ActiveCount := a\<rparr>)"
    using ok i c act same quota
    by (intro pool_ok_set) (auto simp: pool_ok_next entry_ok_def cleared_def)
  then have ok': "pool_ok pool'" by (simp add: pool'_def t)
  have es: "entries pool' = ?es[i := ?c]" "MaxConnectionsPerHost pool' = MaxConnectionsPerHost pool"
    by (simp_all add: pool'_def t)
  have "holders (?es ! i) = 0" using ok i idle by (intro holders_idle) (auto simp: pool_ok_def)
  moreover have "holders ?c = 1" using c by (simp add: holders_def cleared_def)
  moreover have "closing (Resources ?c) = {#}" using c by (simp add: cleared_def)
  ultimately show ?thesis
    using ok' es i c owned_update [OF i es(1)]
    by (auto simp: granted_to_def cleared_def)
qed

text \<open>A fresh grant: entry \<open>i\<close> was not in use and is handed out, without connection yet, for \<open>key\<close>.\<close>

definition fresh_grant ::
  "KhConnectionPool \<Rightarrow> KhConnectionPool \<Rightarrow> KhConnectionPoolKey \<Rightarrow> nat \<Rightarrow> close_action multiset \<Rightarrow> bool" where
  "fresh_grant pool pool' key i M \<longleftrightarrow>
     granted_to pool pool' i M \<and> \<not> InUse (entries pool ! i) \<and>
     Key (entries pool' ! i) = key \<and> Resources (entries pool' ! i) = no_resources"

lemma fill_entry:
  assumes ok: "pool_ok pool" and i: "i < length (entries pool)" and idle: "\<not> InUse (entries pool ! i)"
    and quota: "cnt (counts_for key) (entries pool) < unat (MaxConnectionsPerHost pool)"
    and room: "\<not> (HasConnectionState (entries pool ! i) \<and> HasDetachedConnectionResources d)"
    and c: "(if HasConnectionState (entries pool ! i) then DetachConnectionResources (entries pool ! i)
             else (entries pool ! i, d)) = (c, d')"
    and a: "a = (if Connected (entries pool ! i) then ActiveCount pool else ActiveCount pool + 1)"
  shows "\<exists>M. fresh_grant pool ((take_entry pool i c key)\<lparr>ActiveCount := a\<rparr>) key i M \<and> closing d' = closing d + M"
proof -
  let ?M = "closing (Resources (entries pool ! i))"
  have "cleared c"
    using c cleared_zero cleared_stateless [of "entries pool ! i"]
    by (auto simp: DetachConnectionResources_def split: if_splits)
  from taken_granted [OF ok i idle this quota a]
  have "fresh_grant pool ((take_entry pool i c key)\<lparr>ActiveCount := a\<rparr>) key i ?M"
    using idle by (simp add: fresh_grant_def)
  moreover have "closing d' = closing d + ?M"
  proof (cases "HasConnectionState (entries pool ! i)")
    case True
    then show ?thesis using c room by (auto simp: DetachConnectionResources_def closing_empty)
  next
    case False
    then have "d' = d" "Resources (entries pool ! i) = no_resources"
      using c cleared_stateless [OF False] by (auto simp: cleared_def)
    then show ?thesis by simp
  qed
  ultimately show ?thesis by blast
qed

lemma ActiveCount_same: "pool\<lparr>ActiveCount := ActiveCount pool\<rparr> = pool"
  by simp

lemma ActiveCount_take [simp]: "ActiveCount (take_entry pool i c key) = ActiveCount pool"
  by (cases "NextConnectionId pool = 0") (simp_all add: take_entry_def Let_def)

text \<open>Both searches for an entry to fill behave alike.\<close>

definition filled ::
  "KhConnectionPool \<Rightarrow> KhConnectionPoolKey \<Rightarrow> KhDetachedConnectionResources
   \<Rightarrow> KhConnectionPool \<times> nat option \<times> KhDetachedConnectionResources \<Rightarrow> bool" where
  "filled pool key d r \<longleftrightarrow>
     (case r of
        (pool', None, d') \<Rightarrow> pool' = pool \<and> d' = d
      | (pool', Some i, d') \<Rightarrow> \<exists>M. fresh_grant pool pool' key i M \<and> closing d' = closing d + M)"

lemma acquire_empty_filled:
  assumes ok: "pool_ok pool" and quota: "cnt (counts_for key) (entries pool) < unat (MaxConnectionsPerHost pool)"
  shows "filled pool key d (acquire_empty pool key d)"
proof (cases "first_index (\<lambda>c. \<not> Connected c \<and> \<not> InUse c \<and> Http2StreamLeases c = 0 \<and>
    \<not> (HasConnectionState c \<and> HasDetachedConnectionResources d)) (entries pool)")
  case (Some i)
  note f = first_index_Some [OF Some]
  obtain c d' where c: "(if HasConnectionState (entries pool ! i) then DetachConnectionResources (entries pool ! i)
      else (entries pool ! i, d)) = (c, d')" by fastforce
  have "acquire_empty pool key d = ((take_entry pool i c key)\<lparr>ActiveCount := ActiveCount pool + 1\<rparr>, Some i, d')"
    using Some c by (simp add: acquire_empty_def Let_def)
  then show ?thesis
    using fill_entry [OF ok _ _ quota _ c, of "ActiveCount pool + 1"] f by (simp add: filled_def)
qed (simp add: acquire_empty_def filled_def)

lemma acquire_evict_filled:
  assumes ok: "pool_ok pool" and quota: "cnt (counts_for key) (entries pool) < unat (MaxConnectionsPerHost pool)"
  shows "filled pool key d (acquire_evict pool key d)"
proof (cases "first_index (\<lambda>c. \<not> InUse c \<and> Http2StreamLeases c = 0 \<and>
    \<not> (HasConnectionState c \<and> HasDetachedConnectionResources d)) (entries pool)")
  case (Some i)
  note f = first_index_Some [OF Some]
  let ?a = "if Connected (entries pool ! i) then ActiveCount pool else ActiveCount pool + 1"
  obtain c d' where c: "(if HasConnectionState (entries pool ! i) then DetachConnectionResources (entries pool ! i)
      else (entries pool ! i, d)) = (c, d')" by fastforce
  have "acquire_evict pool key d = ((take_entry pool i c key)\<lparr>ActiveCount := ?a\<rparr>, Some i, d')"
    using Some c ActiveCount_same [of "take_entry pool i c key"] by (simp add: acquire_evict_def Let_def)
  then show ?thesis
    using fill_entry [OF ok _ _ quota _ c, of ?a] f by (simp add: filled_def)
qed (simp add: acquire_evict_def filled_def)

text \<open>A reuse: the entry was open for an equal key, and idle and fresh or with a free stream.\<close>

definition reuse_grant ::
  "KhConnectionPool \<Rightarrow> KhConnectionPool \<Rightarrow> KhConnectionPoolKey \<Rightarrow> ULONGLONG \<Rightarrow> nat \<Rightarrow> close_action multiset \<Rightarrow> bool" where
  "reuse_grant pool pool' key now i M \<longleftrightarrow>
     granted_to pool pool' i M \<and> Connected (entries pool ! i) \<and>
     KhConnectionPoolKeysEqualForAutoAlpnAcquire key (Key (entries pool ! i)) \<and>
     Key (entries pool' ! i) = Key (entries pool ! i) \<and> Resources (entries pool' ! i) = Resources (entries pool ! i) \<and>
     (InUse (entries pool ! i) \<longrightarrow> Http2StreamLeases (entries pool ! i) \<noteq> 0 \<and>
        Http2StreamLeases (entries pool ! i) < Http2MaxStreamLeases (entries pool ! i)) \<and>
     (\<not> InUse (entries pool ! i) \<longrightarrow> \<not> IsIdleExpired pool (entries pool ! i) now)"

lemma fresh_grant_quiet:
  assumes "quiet p p1 M" "fresh_grant p1 p2 key i N" "i < length (entries p)" "pool_ok p"
  shows "fresh_grant p p2 key i (M + N)"
  using assms quiet_granted [of p p1 M p2 i N] by (auto simp: fresh_grant_def quiet_def)

lemma Acquire_cases:
  assumes ok: "pool_ok pool" and r: "KhConnectionPoolAcquire pool key policy now = ((pool', d), r)"
  shows "case r of
      Ok (i, True) \<Rightarrow> policy = ReuseOrCreate \<and> reuse_grant pool pool' key now i (closing d)
    | Ok (i, False) \<Rightarrow> fresh_grant pool pool' key i (closing d)
    | Err e \<Rightarrow> e = STATUS_INSUFFICIENT_RESOURCES \<and> quiet pool pool' (closing d)
    | Fault \<Rightarrow> False"
proof -
  obtain p1 sel d1 where p1: "(if policy \<noteq> ForceNew \<and> policy \<noteq> NoPool then acquire_reuse pool key now
      else (pool, None, no_resources)) = (p1, sel, d1)" by (metis prod_cases3)
  have es: "Entries pool \<noteq> None" using ok by (simp add: pool_ok_def)
  show ?thesis
  proof (cases sel)
    case (Some i)
    then have pol: "policy = ReuseOrCreate" and a: "acquire_reuse pool key now = (p1, Some i, d1)"
      using p1 by (cases policy; simp)+
    have "reuse_grant pool p1 key now i (closing d1)"
      using acquire_reuse_cases [OF ok a] by (simp add: reuse_grant_def)
    then show ?thesis using r p1 Some es pol by (auto simp: KhConnectionPoolAcquire_def)
  next
    case None
    have q1: "quiet pool p1 (closing d1)"
      using p1 None acquire_reuse_cases [OF ok, of key now p1 None d1] quiet_refl [OF ok]
      by (auto split: if_splits)
    then have ok1: "pool_ok p1" and len1: "length (entries p1) = length (entries pool)" by (simp_all add: quiet_def)
    obtain p2 d2 adm where p2: "acquire_quota p1 key d1 = ((p2, d2), adm)" by (metis surj_pair)
    from acquire_quota_cases [OF ok1 p2] obtain M where M: "quiet p1 p2 M" "closing d2 = closing d1 + M"
      and quota: "adm \<Longrightarrow> cnt (counts_for key) (entries p2) < unat (MaxConnectionsPerHost p2)" by blast
    from quiet_trans [OF q1 M(1)] have q2: "quiet pool p2 (closing d2)" by (simp add: M(2))
    then have ok2: "pool_ok p2" and len2: "length (entries p2) = length (entries pool)" by (simp_all add: quiet_def)
    have fresh: "fresh_grant pool p3 key i (closing d3)" if "filled p2 key d2 (p3, Some i, d3)" for p3 i d3
    proof -
      from that obtain N where N: "fresh_grant p2 p3 key i N" "closing d3 = closing d2 + N" by (auto simp: filled_def)
      then have "i < length (entries pool)" using len2 by (simp add: fresh_grant_def granted_to_def)
      from fresh_grant_quiet [OF q2 N(1) this ok] show ?thesis by (simp add: N(2))
    qed
    show ?thesis
    proof (cases adm)
      case False
      then show ?thesis using r es p1 None p2 q2 by (auto simp: KhConnectionPoolAcquire_def)
    next
      case True
      note quota = quota [OF True]
      obtain p3 s3 d3 where p3: "acquire_empty p2 key d2 = (p3, s3, d3)" by (metis prod_cases3)
      obtain p4 s4 d4 where p4: "acquire_evict p2 key d2 = (p4, s4, d4)" by (metis prod_cases3)
      note f3 = acquire_empty_filled [OF ok2 quota, of d2, unfolded p3]
        and f4 = acquire_evict_filled [OF ok2 quota, of d2, unfolded p4]
      show ?thesis
      proof (cases s3)
        case (Some i)
        then show ?thesis using r es p1 None p2 True p3 fresh f3 by (auto simp: KhConnectionPoolAcquire_def)
      next
        case none3: None
        then have "p3 = p2" "d3 = d2" using f3 by (simp_all add: filled_def)
        then have run: "KhConnectionPoolAcquire pool key policy now =
            (if policy \<noteq> NoPool
             then case s4 of Some i \<Rightarrow> ((p4, d4), Ok (i, False)) | None \<Rightarrow> ((p4, d4), Err STATUS_INSUFFICIENT_RESOURCES)
             else ((p2, d2), Err STATUS_INSUFFICIENT_RESOURCES))"
          by (unfold KhConnectionPoolAcquire_def p1) (simp add: es None p2 True p3 none3 p4 split: option.split)
        show ?thesis
        proof (cases "policy \<noteq> NoPool \<and> s4 \<noteq> None")
          case True
          then obtain i where i: "s4 = Some i" by auto
          then have "pool' = p4" "d = d4" "r = Ok (i, False)" using r run True by simp_all
          then show ?thesis using fresh [of p4 i d4] f4 i by simp
        next
          case False
          then have "pool' = p2" "d = d2" "r = Err STATUS_INSUFFICIENT_RESOURCES"
            using r run f4 by (auto simp: filled_def split: if_splits)
          then show ?thesis using q2 by simp
        qed
      qed
    qed
  qed
qed

section \<open>Giving entries back\<close>

text \<open>A change that takes one holder off entry \<open>i\<close> and leaves the other entries alone.\<close>

definition given_back :: "KhConnectionPool \<Rightarrow> KhConnectionPool \<Rightarrow> nat \<Rightarrow> close_action multiset \<Rightarrow> bool" where
  "given_back pool pool' i M \<longleftrightarrow>
     pool_ok pool' \<and> length (entries pool') = length (entries pool) \<and>
     holders (entries pool ! i) = Suc (holders (entries pool' ! i)) \<and>
     (\<forall>j < length (entries pool). j \<noteq> i \<longrightarrow> entries pool' ! j = entries pool ! j) \<and>
     owned pool = owned pool' + M"

lemma detach_set:
  assumes "i < length (entries pool)" "Connected c = Connected (entries pool ! i)" "Resources c = Resources (entries pool ! i)"
  shows "detach_entry (set_entry pool i c) i = detach_entry pool i"
  using assms by (simp add: detach_entry_def DetachConnectionResources_def set_entry_def entries_def decrement_active_def)

lemma given_back_detach:
  assumes ok: "pool_ok pool" and i: "i < length (entries pool)" and one: "holders (entries pool ! i) = 1"
  shows "given_back pool (fst (detach_entry pool i)) i (closing (snd (detach_entry pool i)))"
  using pool_ok_detach [OF ok i] owned_update [OF i pool_ok_detach(2) [OF ok i]] i one
  by (simp add: given_back_def) (simp add: zero_entry_def)

lemma given_back_set:
  assumes ok: "pool_ok pool" and i: "i < length (entries pool)" and c: "entry_ok c"
    and same: "Connected c = Connected (entries pool ! i)" "Key c = Key (entries pool ! i)"
      "Resources c = Resources (entries pool ! i)"
    and n: "holders (entries pool ! i) = Suc (holders c)"
  shows "given_back pool (set_entry pool i c) i (closing no_resources)"
  using pool_ok_keep [OF ok i c same(1,2)] owned_update [OF i, of "set_entry pool i c" c] i n same(3)
  by (simp add: given_back_def)

lemma Release_gives_back:
  assumes ok: "pool_ok pool" and i: "i < length (entries pool)" and held: "0 < holders (entries pool ! i)"
    and r: "KhConnectionPoolRelease pool (Some i) reusable now = (pool', d)"
  shows "given_back pool pool' i (closing d)"
proof -
  let ?c = "entries pool ! i" and ?n = "Http2StreamLeases (entries pool ! i)"
  have es: "Entries pool \<noteq> None" and e: "entry_ok ?c" using ok i by (auto simp: pool_ok_def)
  have use: "InUse ?c" using held e by (auto simp: holders_def entry_ok_def split: if_splits)
  have dec: "unat ?n = Suc (unat (?n - 1))" if "?n \<noteq> 0"
    using that unat_gt_0 [of ?n] by (simp add: unat_minus_one)
  have last_lease: "holders ?c = 1" if "?n \<noteq> 0" "?n - 1 = 0" using that dec by (simp add: holders_def)
  have fewer: "?n - 1 \<le> Http2MaxStreamLeases ?c" if "?n \<noteq> 0"
    using that dec e by (simp add: entry_ok_def word_le_nat_alt)
  show ?thesis
  proof (cases "?n = 0")
    case True
    then have one: "holders ?c = 1" using use by (simp add: holders_def)
    show ?thesis
      using r es True given_back_detach [OF ok i one]
        given_back_set [OF ok i, of "?c\<lparr>LastUsedTime := now, InUse := False\<rparr>"] e one
      by (cases reusable) (auto simp: KhConnectionPoolRelease_def entry_ok_def holders_def)
  next
    case False
    show ?thesis
    proof (cases "?n - 1 = 0")
      case True
      have gone: "given_back pool (fst (detach_entry pool i)) i (closing (snd (detach_entry pool i)))"
        by (rule given_back_detach [OF ok i last_lease [OF False True]])
      have d: "detach_entry (set_entry pool i (?c\<lparr>Http2StreamLeases := 0, CloseWhenIdle := b\<rparr>)) i = detach_entry pool i" 
        "detach_entry (set_entry pool i (?c\<lparr>Http2StreamLeases := 0\<rparr>)) i = detach_entry pool i" for b
        by (simp_all add: detach_set i)
      have s: "set_entry (set_entry pool i c) i c' = set_entry pool i c'" for c c'
        by (simp add: set_entry_def entries_def)
      show ?thesis
        using r es False True gone d s last_lease [OF False True] e use i
          given_back_set [OF ok i, of "?c\<lparr>Http2StreamLeases := 0, LastUsedTime := now, InUse := False\<rparr>"]
        by (cases reusable; cases "CloseWhenIdle ?c")
           (simp_all add: KhConnectionPoolRelease_def Let_def entry_ok_def holders_def)
    next
      case more: False
      have "entry_ok (?c\<lparr>Http2StreamLeases := ?n - 1, CloseWhenIdle := b\<rparr>)" for b
        using e use fewer [OF False] more by (simp add: entry_ok_def)
      moreover have "holders ?c = Suc (holders (?c\<lparr>Http2StreamLeases := ?n - 1, CloseWhenIdle := b\<rparr>))" for b
        using dec False more by (simp add: holders_def)
      ultimately have g: "given_back pool (set_entry pool i (?c\<lparr>Http2StreamLeases := ?n - 1, CloseWhenIdle := b\<rparr>)) i {#}" for b
        using given_back_set [OF ok i, of "?c\<lparr>Http2StreamLeases := ?n - 1, CloseWhenIdle := b\<rparr>"] by simp
      have "?c\<lparr>Http2StreamLeases := ?n - 1\<rparr> = ?c\<lparr>Http2StreamLeases := ?n - 1, CloseWhenIdle := CloseWhenIdle ?c\<rparr>" by simp
      then show ?thesis
        using r es False more g [of True] g [of "CloseWhenIdle ?c"]
        by (cases reusable) (simp_all add: KhConnectionPoolRelease_def Let_def)
    qed
  qed
qed

section \<open>Runs of the pool\<close>

text \<open>
  What can happen to a pool: requests acquire entries and give them back, the only holder of an entry
  opens and frees objects of its connection, turns it into a shared HTTP/2 connection or closes it.
  \<open>h i\<close> is the number of requests that hold entry \<open>i\<close>; \<open>opened\<close> and \<open>freed\<close> are the objects that were
  put into entries and freed so far. The connection steps stand for what \<open>engine/HttpEngine.cpp\<close> does
  to an entry that it holds.
\<close>

inductive pool_run ::
  "KhConnectionPool \<Rightarrow> (nat \<Rightarrow> nat) \<Rightarrow> close_action multiset \<Rightarrow> close_action multiset \<Rightarrow> bool" where
  start: "KhConnectionPoolInitialize True (Some p) capacity maxConnectionsPerHost timeout = (Some pool, Ok ()) \<Longrightarrow>
    pool_run pool (\<lambda>_. 0) {#} {#}"
| acquired: "pool_run pool h opened freed \<Longrightarrow>
    KhConnectionPoolAcquire pool key policy now = ((pool', d), Ok (i, reused)) \<Longrightarrow>
    pool_run pool' (h(i := Suc (h i))) opened (freed + closing d)"
| refused: "pool_run pool h opened freed \<Longrightarrow>
    KhConnectionPoolAcquire pool key policy now = ((pool', d), Err e) \<Longrightarrow>
    pool_run pool' h opened (freed + closing d)"
| released: "pool_run pool h opened freed \<Longrightarrow> 0 < h i \<Longrightarrow>
    KhConnectionPoolRelease pool (Some i) reusable now = (pool', d) \<Longrightarrow>
    pool_run pool' (h(i := h i - 1)) opened (freed + closing d)"
| promoted: "pool_run pool h opened freed \<Longrightarrow> h i = 1 \<Longrightarrow>
    KhConnectionPoolPromoteHttp2StreamLease pool (Some i) maxConcurrentStreams = (pool', r) \<Longrightarrow>
    pool_run pool' h opened freed"
| connection: "pool_run pool h opened freed \<Longrightarrow> h i = 1 \<Longrightarrow>
    closing (Resources (entries pool ! i)) + new = closing d + old \<Longrightarrow>
    pool_run (set_entry pool i ((entries pool ! i)\<lparr>Resources := d, LastUsedTime := time, ProxyTunnelEstablished := tunnel\<rparr>))
      h (opened + new) (freed + old)"
| closed: "pool_run pool h opened freed \<Longrightarrow> h i = 1 \<Longrightarrow>
    KhConnectionPoolClose pool (Some i) = (pool', d) \<Longrightarrow>
    pool_run pool' (h(i := 0)) opened (freed + closing d)"

text \<open>The invariant of a run.\<close>

definition accounted ::
  "KhConnectionPool \<Rightarrow> (nat \<Rightarrow> nat) \<Rightarrow> close_action multiset \<Rightarrow> close_action multiset \<Rightarrow> bool" where
  "accounted pool h opened freed \<longleftrightarrow>
     pool_ok pool \<and> (\<forall>i. h i = (if i < length (entries pool) then holders (entries pool ! i) else 0)) \<and>
     opened = owned pool + freed"

lemma accounted_held: "accounted pool h opened freed \<Longrightarrow> 0 < h i \<Longrightarrow>
    pool_ok pool \<and> i < length (entries pool) \<and> holders (entries pool ! i) = h i"
  by (auto simp: accounted_def split: if_splits)

lemma accounted_quiet:
  "accounted pool h opened freed \<Longrightarrow> quiet pool pool' M \<Longrightarrow> accounted pool' h opened (freed + M)"
  by (auto simp: accounted_def quiet_def ac_simps)

lemma accounted_granted:
  "accounted pool h opened freed \<Longrightarrow> granted_to pool pool' i M \<Longrightarrow>
   accounted pool' (h(i := Suc (h i))) opened (freed + M)"
  by (auto simp: accounted_def granted_to_def ac_simps)

lemma accounted_given_back:
  "accounted pool h opened freed \<Longrightarrow> given_back pool pool' i M \<Longrightarrow> i < length (entries pool) \<Longrightarrow>
   accounted pool' (h(i := h i - 1)) opened (freed + M)"
  by (auto simp: accounted_def given_back_def ac_simps)

lemma initial_pool:
  assumes "KhConnectionPoolInitialize True (Some p) capacity maxConnectionsPerHost timeout = (Some pool, Ok ())"
  shows "accounted pool (\<lambda>_. 0) {#} {#}"
proof -
  have es: "entries pool = replicate (unat capacity) zero_entry" "Capacity pool = capacity" "ActiveCount pool = 0"
      "Entries pool \<noteq> None"
    using assms by (auto simp: KhConnectionPoolInitialize_def zero_pool_def entries_def split: if_splits)
  have "cnt P (entries pool) = 0" if "\<not> P zero_entry" for P using that es by (simp add: cnt_def)
  then have "pool_ok pool" using es by (auto simp: pool_ok_def)
  moreover have "sum_list (replicate n ({#} :: close_action multiset)) = {#}" for n by (induction n) simp_all
  then have "owned pool = {#}" by (simp add: owned_def es zero_entry_def)
  ultimately show ?thesis using es by (simp add: accounted_def)
qed

lemma one_holder:
  assumes "entry_ok c" "holders c = 1"
  shows "InUse c" "Connected c"
  using assms by (auto simp: holders_def entry_ok_def split: if_splits)

lemma promoted_accounted:
  assumes a: "accounted pool h opened freed" and h: "h i = 1"
    and p: "KhConnectionPoolPromoteHttp2StreamLease pool (Some i) n = (pool', r)"
  shows "accounted pool' h opened freed"
proof -
  let ?c = "(entries pool ! i)\<lparr>Http2MaxStreamLeases := n, Http2StreamLeases := 1\<rparr>"
  note held = accounted_held [OF a, of i]
  have "pool' = pool \<or>
      n \<noteq> 0 \<and> InUse (entries pool ! i) \<and> \<not> CloseWhenIdle (entries pool ! i) \<and> pool' = set_entry pool i ?c"
    using p by (auto simp: KhConnectionPoolPromoteHttp2StreamLease_def Let_def split: if_splits)
  then consider "pool' = pool" | "n \<noteq> 0" "InUse (entries pool ! i)" "\<not> CloseWhenIdle (entries pool ! i)" "pool' = set_entry pool i ?c"
    by blast
  then show ?thesis
  proof cases
    case 2
    have e: "entry_ok (entries pool ! i)" using held h by (simp add: pool_ok_def)
    have "entry_ok ?c" using 2 e by (auto simp: entry_ok_def word_le_nat_alt unat_gt_0 Suc_le_eq)
    then have "pool_ok pool'" using 2 held h pool_ok_keep [of pool i ?c] by simp
    moreover have "owned pool' = owned pool" using owned_update [of i pool pool' ?c] 2 held h by simp
    moreover have "holders ?c = 1" by (simp add: holders_def)
    ultimately show ?thesis using a 2 held h by (auto simp: accounted_def nth_list_update)
  qed (use a in simp)
qed

lemma swap_owned:
  fixes a a' c d new old f :: "'a multiset"
  assumes "a' + c = a + d" "c + new = d + old"
  shows "a + f + new = a' + (f + old)"
proof -
  have "count a x + count f x + count new x = count a' x + (count f x + count old x)" for x
    using arg_cong [OF assms(1), of "\<lambda>m. count m x"] arg_cong [OF assms(2), of "\<lambda>m. count m x"]
    unfolding count_union by presburger
  then show ?thesis by (simp add: multiset_eq_iff)
qed

lemma connection_accounted:
  assumes a: "accounted pool h opened freed" and h: "h i = 1"
    and d: "closing (Resources (entries pool ! i)) + new = closing d + old"
  shows "accounted (set_entry pool i ((entries pool ! i)\<lparr>Resources := d, LastUsedTime := t, ProxyTunnelEstablished := b\<rparr>))
    h (opened + new) (freed + old)" (is "accounted ?pool' _ _ _")
proof -
  let ?c = "(entries pool ! i)\<lparr>Resources := d, LastUsedTime := t, ProxyTunnelEstablished := b\<rparr>"
  have held: "pool_ok pool" "i < length (entries pool)" "holders (entries pool ! i) = 1"
    using accounted_held [OF a, of i] h by auto
  then have e: "entry_ok (entries pool ! i)" by (simp add: pool_ok_def)
  from one_holder [OF e held(3)] have "entry_ok ?c" using e by (auto simp: entry_ok_def)
  then have "pool_ok ?pool'" using pool_ok_keep [OF held(1,2), of ?c] by simp
  moreover have "owned pool + freed + new = owned ?pool' + (freed + old)"
  proof -
    have u: "owned ?pool' + closing (Resources (entries pool ! i)) = owned pool + closing d"
      using owned_update [OF held(2), of ?pool' ?c] by simp
    show ?thesis using swap_owned [OF u d, of freed] .
  qed
  moreover have "holders ?c = holders (entries pool ! i)" by (simp add: holders_def)
  then have "holders ((entries pool)[i := ?c] ! j) = holders (entries pool ! j)" if "j < length (entries pool)" for j
    using that held(2) by (auto simp: nth_list_update)
  ultimately show ?thesis using a by (simp add: accounted_def)
qed

lemma pool_run_accounted: "pool_run pool h opened freed \<Longrightarrow> accounted pool h opened freed"
proof (induction rule: pool_run.induct)
  case (start p capacity maxConnectionsPerHost timeout pool)
  then show ?case by (rule initial_pool)
next
  case (acquired pool h opened freed key policy now pool' d i reused)
  then have "granted_to pool pool' i (closing d)"
    using Acquire_cases [of pool key policy now pool' d "Ok (i, reused)"]
    by (cases reused) (auto simp: accounted_def reuse_grant_def fresh_grant_def)
  with acquired.IH show ?case by (rule accounted_granted)
next
  case (refused pool h opened freed key policy now pool' d e)
  then have "quiet pool pool' (closing d)"
    using Acquire_cases [of pool key policy now pool' d "Err e"] by (simp add: accounted_def)
  with refused.IH show ?case by (rule accounted_quiet)
next
  case (released pool h opened freed i reusable now pool' d)
  then show ?case
    using accounted_held [OF released.IH, of i] Release_gives_back [of pool i reusable now pool' d]
    by (intro accounted_given_back [OF released.IH]) auto
next
  case (promoted pool h opened freed i maxConcurrentStreams pool' r)
  then show ?case using promoted_accounted [OF promoted.IH] by blast
next
  case (connection pool h opened freed i new d old time tunnel)
  then show ?case using connection_accounted [OF connection.IH] by blast
next
  case (closed pool h opened freed i pool' d)
  then have "given_back pool pool' i (closing d)" "i < length (entries pool)"
    using accounted_held [OF closed.IH, of i] given_back_detach [of pool i]
    by (auto simp: KhConnectionPoolClose_def pool_ok_def)
  from accounted_given_back [OF closed.IH this] closed show ?case by (simp add: fun_upd_def)
qed

section \<open>Shutdown and progress\<close>

lemma stateless_zero [simp]: "\<not> HasConnectionState zero_entry"
  by (simp add: HasConnectionState_def zero_entry_def no_resources_def)

lemma entries_detach [simp]: "entries (fst (detach_entry pool i)) = (entries pool)[i := zero_entry]"
  "snd (detach_entry pool i) = Resources (entries pool ! i)"
  by (simp_all add: detach_entry_def DetachConnectionResources_def decrement_active_def Let_def)

lemma owned_stateless:
  assumes "\<forall>i < length (entries pool). \<not> HasConnectionState (entries pool ! i)"
  shows "owned pool = {#}"
proof -
  have "closing (Resources c) = {#}" if "c \<in> set (entries pool)" for c
    using that assms cleared_stateless [of c] by (auto simp: in_set_conv_nth cleared_def)
  then have "map (\<lambda>c. closing (Resources c)) (entries pool) = map (\<lambda>_. {#}) (entries pool)" by simp
  then show ?thesis by (simp only: owned_def sum_list_0)
qed

lemma shutdown_loop_ends:
  "\<exists>pool' closed'. shutdown_loop pool closed = Some (pool', closed @ closed') \<and>
     sum_list (map closing closed') = owned pool \<and> length closed' = cnt HasConnectionState (entries pool)"
proof (induction "cnt HasConnectionState (entries pool)" arbitrary: pool closed)
  case 0
  then have none: "\<forall>i < length (entries pool). \<not> HasConnectionState (entries pool ! i)"
    using cnt_pos_iff [of HasConnectionState "entries pool"] by auto
  then have "first_index HasConnectionState (entries pool) = None" by (simp add: first_index_None)
  then show ?case using 0 owned_stateless [OF none]
    by (intro exI [of _ pool] exI [of _ "[]"]) (simp add: shutdown_loop.simps)
next
  case (Suc n)
  then obtain i where f: "first_index HasConnectionState (entries pool) = Some i"
    using cnt_pos_iff [of HasConnectionState "entries pool"]
    by (cases "first_index HasConnectionState (entries pool)") (auto simp: first_index_None)
  from first_index_Some [OF f] have i: "i < length (entries pool)" "HasConnectionState (entries pool ! i)" by auto
  let ?pool = "fst (detach_entry pool i)" and ?d = "Resources (entries pool ! i)"
  have "n = cnt HasConnectionState (entries ?pool)"
    using cnt_update [OF i(1), of HasConnectionState zero_entry] i(2) Suc.hyps(2) by simp
  from Suc.hyps(1) [OF this, of "closed @ [?d]"] obtain pool' rest where
    "shutdown_loop ?pool (closed @ [?d]) = Some (pool', (closed @ [?d]) @ rest)"
    "sum_list (map closing rest) = owned ?pool" "length rest = n"
    using \<open>n = _\<close> by auto
  moreover have "owned ?pool + closing ?d = owned pool"
    using owned_update [OF i(1), of ?pool zero_entry] by (simp add: zero_entry_def)
  ultimately show ?case using f Suc.hyps(2)
    by (intro exI [of _ pool'] exI [of _ "?d # rest"]) (simp add: shutdown_loop.simps ac_simps)
qed

text \<open>An entry of a good pool that has no connection has no state at all.\<close>

lemma stateless_iff: "entry_ok c \<Longrightarrow> HasConnectionState c \<longleftrightarrow> Connected c"
  by (auto simp: entry_ok_def HasConnectionState_def no_resources_def)

lemma acquire_empty_None:
  assumes ok: "pool_ok pool" and n: "acquire_empty pool key d = (pool', None, d')" and i: "i < length (entries pool)"
  shows "Connected (entries pool ! i)"
proof (rule ccontr)
  assume c: "\<not> Connected (entries pool ! i)"
  have e: "entry_ok (entries pool ! i)" using ok i by (simp add: pool_ok_def)
  then have "\<not> InUse (entries pool ! i)" "Http2StreamLeases (entries pool ! i) = 0" "\<not> HasConnectionState (entries pool ! i)"
    using c stateless_iff [OF e] by (auto simp: entry_ok_def)
  then have "first_index (\<lambda>c. \<not> Connected c \<and> \<not> InUse c \<and> Http2StreamLeases c = 0 \<and>
      \<not> (HasConnectionState c \<and> HasDetachedConnectionResources d)) (entries pool) \<noteq> None"
    using c i unfolding first_index_None by blast
  then show False using n by (auto simp: acquire_empty_def Let_def split: option.splits prod.splits if_splits)
qed

lemma acquire_evict_None:
  assumes ok: "pool_ok pool" and n: "acquire_evict pool key d = (pool', None, d')" and d: "\<not> HasDetachedConnectionResources d"
    and i: "i < length (entries pool)"
  shows "InUse (entries pool ! i)"
proof (rule ccontr)
  assume c: "\<not> InUse (entries pool ! i)"
  have "entry_ok (entries pool ! i)" using ok i by (simp add: pool_ok_def)
  then have "Http2StreamLeases (entries pool ! i) = 0" using c by (auto simp: entry_ok_def)
  then have "first_index (\<lambda>c. \<not> InUse c \<and> Http2StreamLeases c = 0 \<and>
      \<not> (HasConnectionState c \<and> HasDetachedConnectionResources d)) (entries pool) \<noteq> None"
    using c i d unfolding first_index_None by blast
  then show False using n by (auto simp: acquire_evict_def Let_def split: option.splits prod.splits if_splits)
qed

text \<open>What a search without result leaves behind: the pool as it was, or an idle entry of the host emptied.\<close>

definition emptied :: "KhConnectionPool \<Rightarrow> KhConnectionPoolKey \<Rightarrow> KhConnectionPool \<Rightarrow> bool" where
  "emptied pool key pool' \<longleftrightarrow>
     (\<exists>i < length (entries pool). counts_for key (entries pool ! i) \<and> entries pool' = (entries pool)[i := zero_entry])"

lemma emptied_counts:
  "emptied pool key pool' \<Longrightarrow> cnt (counts_for key) (entries pool') < cnt (counts_for key) (entries pool)"
  by (auto simp: emptied_def dest!: cnt_update [where P = "counts_for key" and v = zero_entry])

lemma emptied_gap: "emptied pool key pool' \<Longrightarrow> \<exists>i < length (entries pool'). \<not> Connected (entries pool' ! i)"
  unfolding emptied_def by (metis Connected_zero length_list_update nth_list_update_eq)

lemma keys_equal_host:
  assumes "KhConnectionPoolKeysEqualForAutoAlpnAcquire key k"
  shows "host_of k = host_of key"
proof -
  have "ConnectionPoolHostQuotaKeysEqual key k"
    using assms unfolding KhConnectionPoolKeysEqualForAutoAlpnAcquire_def KhConnectionPoolKeysEqual_def
      KhConnectionPoolKeysEqualExceptAlpn_def ConnectionPoolHostQuotaKeysEqual_def
    by (simp split: if_splits)
  then show ?thesis by (simp add: QuotaKeysEqual_iff)
qed

lemma acquire_reuse_None:
  assumes "acquire_reuse pool key now = (pool', None, d)"
  shows "pool' = pool \<and> d = no_resources \<or> emptied pool key pool'"
proof (cases "first_index (\<lambda>c. InUse c \<and> CanShareHttp2Connection c key \<or> can_reuse key c) (entries pool)")
  case (Some i)
  let ?c = "entries pool ! i"
  from Some assms have n: "\<not> (InUse ?c \<and> CanShareHttp2Connection ?c key)"
      "pool' = decrement_active (set_entry pool i zero_entry)"
    by (auto simp: acquire_reuse_def Let_def DetachConnectionResources_def split: if_splits)
  then have r: "i < length (entries pool)" "can_reuse key ?c" using first_index_Some [OF Some] by auto
  then have "counts_for key ?c" using keys_equal_host by (auto simp: can_reuse_def counts_for_def QuotaKeysEqual_iff)
  then show ?thesis using r n(2) by (auto simp: emptied_def decrement_active_def)
qed (use assms in \<open>simp add: acquire_reuse_def\<close>)

lemma acquire_quota_admits:
  assumes ok: "pool_ok pool"
    and busy: "cnt (\<lambda>c. InUse c \<and> counts_for key c) (entries pool) < unat (MaxConnectionsPerHost pool)"
    and d: "HasDetachedConnectionResources d \<Longrightarrow> cnt (counts_for key) (entries pool) < unat (MaxConnectionsPerHost pool)"
  shows "\<exists>pool' d'. acquire_quota pool key d = ((pool', d'), True) \<and> (pool' = pool \<and> d' = d \<or> emptied pool key pool')"
proof (cases "cnt (counts_for key) (entries pool) < unat (MaxConnectionsPerHost pool)")
  case True
  then show ?thesis using Count_cnt [OF ok, of key] by (auto simp: acquire_quota_def word_le_nat_alt)
next
  case False
  have "\<exists>i < length (entries pool). counts_for key (entries pool ! i) \<and> \<not> InUse (entries pool ! i)"
  proof (rule ccontr)
    assume "\<not> ?thesis"
    then have "\<forall>c \<in> set (entries pool). counts_for key c \<longrightarrow> InUse c" by (auto simp: in_set_conv_nth)
    then have "filter (\<lambda>c. InUse c \<and> counts_for key c) (entries pool) = filter (counts_for key) (entries pool)"
      by (intro filter_cong) auto
    then show False using busy False by (simp add: cnt_def)
  qed
  then obtain i where i: "i < length (entries pool)" "counts_for key (entries pool ! i)" "\<not> InUse (entries pool ! i)" by auto
  have "entry_ok (entries pool ! i)" using ok i by (simp add: pool_ok_def)
  then have "DetachIdleConnectionForHostQuotaLocked pool key \<noteq> None"
    using i first_index_None [of "\<lambda>c. Connected c \<and> \<not> InUse c \<and> Http2StreamLeases c = 0 \<and>
      ConnectionPoolHostQuotaKeysEqual (Key c) key" "entries pool"]
    by (auto simp: DetachIdleConnectionForHostQuotaLocked_def counts_for_def entry_ok_def DetachConnectionResources_def
        split: option.splits)
  then obtain p e where pe: "DetachIdleConnectionForHostQuotaLocked pool key = Some (p, e)" by auto
  from detach_idle_quota [OF ok pe] have p: "quiet pool p (closing e)" "emptied pool key p"
    by (auto simp: emptied_def counts_for_def QuotaKeysEqual_iff)
  have "pool_ok p" "MaxConnectionsPerHost p = MaxConnectionsPerHost pool" using p(1) by (simp_all add: quiet_def)
  moreover have "cnt (counts_for key) (entries pool) \<le> unat (MaxConnectionsPerHost pool)" using ok by (simp add: pool_ok_def)
  ultimately have "CountConnectionsForHostQuota p key < MaxConnectionsPerHost p"
    using emptied_counts [OF p(2)] Count_cnt [of p key] by (simp add: word_less_nat_alt)
  then have "acquire_quota pool key d = ((p, e), True)"
    using d False pe Count_cnt [OF ok, of key] by (auto simp: acquire_quota_def word_le_nat_alt word_less_nat_alt not_less)
  then show ?thesis using p by blast
qed

lemma in_use_iff: "entry_ok c \<Longrightarrow> InUse c \<longleftrightarrow> 0 < holders c"
  by (auto simp: holders_def entry_ok_def unat_gt_0)

lemma quiet_busy:
  assumes q: "quiet pool pool' M" and ok: "pool_ok pool"
  shows "cnt (\<lambda>c. InUse c \<and> counts_for key c) (entries pool') = cnt (\<lambda>c. InUse c \<and> counts_for key c) (entries pool)"
    and "\<And>i. i < length (entries pool) \<Longrightarrow> InUse (entries pool' ! i) = InUse (entries pool ! i)"
proof -
  let ?P = "\<lambda>c. InUse c \<and> counts_for key c"
  have len: "length (entries pool') = length (entries pool)" using q by (simp add: quiet_def)
  show same: "InUse (entries pool' ! i) = InUse (entries pool ! i)" if "i < length (entries pool)" for i
  proof -
    have "entry_ok (entries pool ! i)" "entry_ok (entries pool' ! i)"
      "holders (entries pool' ! i) = holders (entries pool ! i)"
      using that q ok len by (auto simp: quiet_def pool_ok_def)
    then show ?thesis using in_use_iff by metis
  qed
  have "map ?P (entries pool') = map ?P (entries pool)"
    using len same q by (intro nth_equalityI) (auto simp: quiet_def)
  then have "filter id (map ?P (entries pool')) = filter id (map ?P (entries pool))" by simp
  then have "map ?P (filter ?P (entries pool')) = map ?P (filter ?P (entries pool))"
    by (simp only: filter_map comp_def id_def)
  from arg_cong [OF this, of length] show "cnt ?P (entries pool') = cnt ?P (entries pool)"
    by (simp only: cnt_def length_map)
qed

lemma Acquire_progresses:
  assumes ok: "pool_ok pool" and i: "i < length (entries pool)" "\<not> InUse (entries pool ! i)"
    and busy: "cnt (\<lambda>c. InUse c \<and> counts_for key c) (entries pool) < unat (MaxConnectionsPerHost pool)"
    and policy: "policy \<noteq> NoPool"
  shows "\<exists>pool' d j reused. KhConnectionPoolAcquire pool key policy now = ((pool', d), Ok (j, reused))"
proof -
  obtain p1 sel d1 where p1: "(if policy \<noteq> ForceNew \<and> policy \<noteq> NoPool then acquire_reuse pool key now
      else (pool, None, no_resources)) = (p1, sel, d1)" by (metis prod_cases3)
  have es: "Entries pool \<noteq> None" using ok by (simp add: pool_ok_def)
  show ?thesis
  proof (cases sel)
    case (Some j)
    then have "KhConnectionPoolAcquire pool key policy now = ((p1, d1), Ok (j, True))"
      by (unfold KhConnectionPoolAcquire_def p1) (simp add: es)
    then show ?thesis by blast
  next
    case None
    have q1: "quiet pool p1 (closing d1)" and e1: "p1 = pool \<and> d1 = no_resources \<or> emptied pool key p1"
      using p1 None acquire_reuse_cases [OF ok, of key now p1 None d1] quiet_refl [OF ok]
        acquire_reuse_None [of pool key now p1 d1]
      by (auto split: if_splits)
    then have ok1: "pool_ok p1" and max1: "MaxConnectionsPerHost p1 = MaxConnectionsPerHost pool"
      by (simp_all add: quiet_def)
    have "cnt (counts_for key) (entries pool) \<le> unat (MaxConnectionsPerHost pool)" using ok by (simp add: pool_ok_def)
    then have room: "HasDetachedConnectionResources d1 \<Longrightarrow> cnt (counts_for key) (entries p1) < unat (MaxConnectionsPerHost p1)"
      using e1 emptied_counts [of pool key p1] max1
      by (auto simp: no_resources_def HasDetachedConnectionResources_def)
    have "cnt (\<lambda>c. InUse c \<and> counts_for key c) (entries p1) < unat (MaxConnectionsPerHost p1)"
      using busy max1 quiet_busy(1) [OF q1 ok, of key] by simp
    from acquire_quota_admits [OF ok1 this, of d1] room obtain p2 d2 where
      p2: "acquire_quota p1 key d1 = ((p2, d2), True)" and e2: "p2 = p1 \<and> d2 = d1 \<or> emptied p1 key p2"
      by auto
    from acquire_quota_cases [OF ok1 p2] obtain M where M: "quiet p1 p2 M" by blast
    note q2 = quiet_trans [OF q1 M]
    then have ok2: "pool_ok p2" and len2: "length (entries p2) = length (entries pool)" by (simp_all add: quiet_def)
    obtain p3 s3 d3 where p3: "acquire_empty p2 key d2 = (p3, s3, d3)" by (metis prod_cases3)
    obtain p4 s4 d4 where p4: "acquire_evict p2 key d2 = (p4, s4, d4)" by (metis prod_cases3)
    have "s3 \<noteq> None \<or> s4 \<noteq> None"
    proof (rule ccontr)
      assume "\<not> ?thesis"
      then have none: "s3 = None" "s4 = None" by simp_all
      have full: "Connected (entries p2 ! j)" if "j < length (entries p2)" for j
        using acquire_empty_None [OF ok2 _ that, of key d2] p3 none by blast
      then have "\<not> emptied pool key p1 \<or> p2 \<noteq> p1" "\<not> emptied p1 key p2" using emptied_gap by blast+
      then have "\<not> HasDetachedConnectionResources d2"
        using e1 e2 by (auto simp: no_resources_def HasDetachedConnectionResources_def)
      then have "InUse (entries p2 ! i)" using acquire_evict_None [OF ok2 _ _, of key d2 p4 d4 i] p4 none i len2 by simp
      then show False using quiet_busy(2) [OF q2 ok i(1)] i(2) by simp
    qed
    moreover have "KhConnectionPoolAcquire pool key policy now = (case s3 of Some j \<Rightarrow> ((p3, d3), Ok (j, False))
        | None \<Rightarrow> case s4 of Some j \<Rightarrow> ((p4, d4), Ok (j, False)) | None \<Rightarrow> ((p4, d4), Err STATUS_INSUFFICIENT_RESOURCES))"
    proof (cases s3)
      case none3: None
      then have "p3 = p2" "d3 = d2"
        using p3 by (auto simp: acquire_empty_def Let_def split: option.splits prod.splits if_splits)
      then show ?thesis
        by (unfold KhConnectionPoolAcquire_def p1) (simp add: es None p2 p3 p4 none3 policy split: option.split)
    next
      case (Some j)
      then show ?thesis by (unfold KhConnectionPoolAcquire_def p1) (simp add: es None p2 p3)
    qed
    ultimately show ?thesis by (cases s3; cases s4) auto
  qed
qed

section \<open>Properties\<close>

definition sample_pool :: KhConnectionPool where
  "sample_pool = \<lparr>Entries = Some (replicate 2 zero_entry), Capacity = 2, ActiveCount = 0, MaxConnectionsPerHost = 1,
     NextConnectionId = 1, IdleTimeoutMilliseconds = 60000\<rparr>"

definition sample_key :: KhConnectionPoolKey where
  "sample_key = zero_key\<lparr>Host := lit ''a'' @ replicate 255 0, HostLength := 1, Port := 443\<rparr>"

definition sample_resources :: KhDetachedConnectionResources where
  "sample_resources = \<lparr>Socket = Some 1, RawTransport = Some 2, Transport = Some 3, Tls = Some 4, Http2 = Some 5\<rparr>"

text \<open>The sample pool after a request opened an HTTP/2 connection and a second one joined it.\<close>

definition sample_first :: KhConnectionPool where
  "sample_first = fst (fst (KhConnectionPoolAcquire sample_pool sample_key ReuseOrCreate 0))"

definition sample_open :: KhConnectionPool where
  "sample_open = set_entry sample_first 0 ((entries sample_first ! 0)\<lparr>Resources := sample_resources, LastUsedTime := 7,
     ProxyTunnelEstablished := False\<rparr>)"

definition sample_promoted :: KhConnectionPool where
  "sample_promoted = fst (KhConnectionPoolPromoteHttp2StreamLease sample_open (Some 0) 100)"

definition sample_shared :: KhConnectionPool where
  "sample_shared = fst (fst (KhConnectionPoolAcquire sample_promoted sample_key ReuseOrCreate 8))"

lemma sample_start: "pool_run sample_pool (\<lambda>_. 0) {#} {#}"
  by (rule start [of zero_pool 2 1 60000])
     (simp add: KhConnectionPoolInitialize_def sample_pool_def zero_pool_def)

lemma sample_steps:
  "KhConnectionPoolAcquire sample_pool sample_key ReuseOrCreate 0 = ((sample_first, no_resources), Ok (0, False))"
  "Resources (entries sample_first ! 0) = no_resources"
  "KhConnectionPoolPromoteHttp2StreamLease sample_open (Some 0) 100 = (sample_promoted, Ok ())"
  "KhConnectionPoolAcquire sample_promoted sample_key ReuseOrCreate 8 = ((sample_shared, no_resources), Ok (0, True))"
  by code_simp+

lemma sample_run: "pool_run sample_shared ((\<lambda>_. 0)(0 := 2)) (closing sample_resources) {#}"
proof -
  have one: "pool_run sample_first ((\<lambda>_. 0)(0 := 1)) {#} {#}"
    using acquired [OF sample_start sample_steps(1)] by simp
  have "pool_run sample_open ((\<lambda>_. 0)(0 := 1)) (closing sample_resources) {#}"
    using connection [OF one, of 0 "closing sample_resources" sample_resources "{#}" False 7] sample_steps(2)
    by (simp add: sample_open_def)
  from promoted [OF this _ sample_steps(3)] have "pool_run sample_promoted ((\<lambda>_. 0)(0 := 1)) (closing sample_resources) {#}"
    by simp
  from acquired [OF this sample_steps(4)] show ?thesis by (simp add: numeral_2_eq_2)
qed


text \<open>
  C32: Requests are kept apart. An entry that is handed out as reused was open, under a key equal to the
  requested one (up to a negotiated protocol), keeps its connection, and was either held by nobody and not
  expired or shared with a stream to spare; an entry handed out as new was held by nobody, has the requested key
  and has no connection of anybody else. No other entry that is held changes.
\<close>

theorem Acquire_isolation:
  assumes "pool_run pool h opened freed"
    and "KhConnectionPoolAcquire pool key policy now = ((pool', d), Ok (i, reused))"
  shows "i < length (entries pool) \<and>
    (reused \<longrightarrow> policy = ReuseOrCreate \<and> Connected (entries pool ! i) \<and>
       KhConnectionPoolKeysEqualForAutoAlpnAcquire key (Key (entries pool ! i)) \<and>
       Resources (entries pool' ! i) = Resources (entries pool ! i) \<and>
       (if h i = 0 then \<not> IsIdleExpired pool (entries pool ! i) now
        else Http2StreamLeases (entries pool ! i) \<noteq> 0 \<and> h i < unat (Http2MaxStreamLeases (entries pool ! i)))) \<and>
    (\<not> reused \<longrightarrow> h i = 0 \<and> Key (entries pool' ! i) = key \<and> Resources (entries pool' ! i) = no_resources) \<and>
    (\<forall>j. j \<noteq> i \<and> 0 < h j \<longrightarrow> entries pool' ! j = entries pool ! j)"
proof -
  have a: "accounted pool h opened freed" by (rule pool_run_accounted [OF assms(1)])
  then have ok: "pool_ok pool" by (simp add: accounted_def)
  from Acquire_cases [OF ok assms(2)]
  have cases: "if reused then policy = ReuseOrCreate \<and> reuse_grant pool pool' key now i (closing d)
      else fresh_grant pool pool' key i (closing d)" by (cases reused) simp_all
  then have g: "granted_to pool pool' i (closing d)"
    by (auto simp: reuse_grant_def fresh_grant_def split: if_splits)
  then have i: "i < length (entries pool)" by (simp add: granted_to_def)
  have e: "entry_ok (entries pool ! i)" and h: "h i = holders (entries pool ! i)"
    using a ok i by (simp_all add: accounted_def pool_ok_def)
  have "entries pool' ! j = entries pool ! j" if "j \<noteq> i" "0 < h j" for j
  proof -
    have "j < length (entries pool)" "0 < holders (entries pool ! j)" using accounted_held [OF a that(2)] that by auto
    moreover have "entry_ok (entries pool ! j)" using ok calculation by (simp add: pool_ok_def)
    ultimately show ?thesis using g that(1) in_use_iff by (auto simp: granted_to_def)
  qed
  moreover have "h i = 0 \<longleftrightarrow> \<not> InUse (entries pool ! i)" using in_use_iff [OF e] h by simp
  moreover have "Http2StreamLeases (entries pool ! i) \<noteq> 0 \<Longrightarrow> h i = unat (Http2StreamLeases (entries pool ! i))"
    using h by (simp add: holders_def)
  ultimately show ?thesis using cases i
    by (cases reused) (auto simp: reuse_grant_def fresh_grant_def word_less_nat_alt)
qed



text \<open>
  C35: A defect: \<open>KhConnectionPoolClose\<close> does not look at the stream leases. When several requests share an
  entry and one of them closes it, as \<open>HttpEngine.cpp\<close> does before it retries, the objects of the connection are freed under the
  other holders and the entry becomes free although they still hold it.
\<close>

theorem KhConnectionPoolClose_shared:
  assumes "pool_run pool h opened freed" and "1 < h i"
    and "KhConnectionPoolClose pool (Some i) = (pool', d)"
  shows "closing d = closing (Resources (entries pool ! i)) \<and> entries pool' ! i = zero_entry \<and>
    holders (entries pool' ! i) = 0 \<and> pool_ok pool'"
proof -
  have "pool_ok pool" "i < length (entries pool)"
    using accounted_held [OF pool_run_accounted [OF assms(1)], of i] assms(2) by auto
  moreover from this have "detach_entry pool i = (pool', d)"
    using assms(3) by (auto simp: KhConnectionPoolClose_def pool_ok_def)
  ultimately show ?thesis using pool_ok_detach [of pool i] by simp
qed


theorem Acquire_isolation_witness:
  "KhConnectionPoolAcquire sample_pool sample_key ReuseOrCreate 0 = ((sample_first, no_resources), Ok (0, False)) \<and>
   Key (entries sample_first ! 0) = sample_key"
  using Acquire_isolation [OF sample_start sample_steps(1)] sample_steps(1) by blast


theorem KhConnectionPoolClose_shared_witness:
  "pool_run sample_shared ((\<lambda>_. 0)(0 := 2)) (closing sample_resources) {#} \<and>
   entries (fst (KhConnectionPoolClose sample_shared (Some 0))) ! 0 = zero_entry"
proof -
  obtain p d where c: "KhConnectionPoolClose sample_shared (Some 0) = (p, d)" by fastforce
  from KhConnectionPoolClose_shared [OF sample_run _ c] show ?thesis using sample_run c by simp
qed

end
