(* ===== verification/Kh_Punycode.thy ===== *)
theory Kh_Punycode
  imports Kh_HttpRequest
begin

text \<open>
  International host names, the first half of \<^verbatim>\<open>engine/UrlParser.cpp\<close>: the UTF-8 decoder, the Punycode
  encoder and the normalisation of a host name label by label. The byte classes and
  \<open>ToLowerAscii\<close> are those of \<^verbatim>\<open>http/\<close>: the file has its own copies of the same code.

  An output buffer with its offset is a writer, and an operation returns the writer beside its
  status, because characters are stored before an error is found. The callers pass \<open>output + out\<close> with
  the capacity that is left, which is the buffer from there on.

  The reference is the decoder of RFC 3492: it reads back from an encoded label the code points of the
  label, with its ASCII letters in lower case.
\<close>

section \<open>Output\<close>

text \<open>Sequencing of operations that return a state beside their result.\<close>

definition andthen :: "'w \<times> 'a res \<Rightarrow> ('w \<Rightarrow> 'a \<Rightarrow> 'w \<times> 'b res) \<Rightarrow> 'w \<times> 'b res" where
  "andthen r f = (case r of (w, Ok x) \<Rightarrow> f w x | (w, Err s) \<Rightarrow> (w, Err s) | (w, Fault) \<Rightarrow> (w, Fault))"

lemma andthen_simps [simp]:
  "andthen (w, Ok x) f = f w x" "andthen (w, Err s) f = (w, Err s)" "andthen (w, Fault) f = (w, Fault)"
  by (simp_all add: andthen_def)

definition AppendOutputChar :: "UCHAR \<Rightarrow> writer \<Rightarrow> writer \<times> unit res" where
  "AppendOutputChar v w =
     (if length (fst w) \<le> snd w then (w, Err STATUS_BUFFER_TOO_SMALL)
      else case put_byte v w of Ok w' \<Rightarrow> (w', Ok ()) | Err s \<Rightarrow> (w, Err s) | Fault \<Rightarrow> (w, Fault))"

fun append_chars :: "bytes \<Rightarrow> writer \<Rightarrow> writer \<times> unit res" where
  "append_chars [] w = (w, Ok ())"
| "append_chars (c # cs) w = andthen (AppendOutputChar c w) (\<lambda>w _. append_chars cs w)"

section \<open>Characters\<close>

definition IsAsciiAlpha :: "UCHAR \<Rightarrow> bool" where
  "IsAsciiAlpha v \<longleftrightarrow> (65 \<le> v \<and> v \<le> 90) \<or> (97 \<le> v \<and> v \<le> 122)"

definition IsAsciiAlnum :: "UCHAR \<Rightarrow> bool" where
  "IsAsciiAlnum v \<longleftrightarrow> IsAsciiAlpha v \<or> (48 \<le> v \<and> v \<le> 57)"

definition IsValidDnsLabelByte :: "UCHAR \<Rightarrow> bool" where
  "IsValidDnsLabelByte v \<longleftrightarrow> IsAsciiAlnum v \<or> v = 45"

fun utf8_tail :: "nat \<Rightarrow> ULONG \<Rightarrow> bytes \<Rightarrow> ULONG res" where
  "utf8_tail 0 v bs = Ok v"
| "utf8_tail (Suc n) v (b # bs) =
     (if b AND 0xc0 \<noteq> 0x80 then Err STATUS_INVALID_PARAMETER
      else utf8_tail n (push_bit 6 v OR ucast (b AND 0x3f)) bs)"
| "utf8_tail (Suc n) v [] = Fault"

text \<open>The text is what lies at \<open>text + *offset\<close>; the result is the code point and how far to advance.\<close>

definition DecodeUtf8CodePoint :: "bytes \<Rightarrow> (ULONG \<times> nat) res" where
  "DecodeUtf8CodePoint bs =
     (case bs of
        [] \<Rightarrow> Err STATUS_INVALID_PARAMETER
      | first # rest \<Rightarrow>
          if first < 0x80 then Ok (ucast first, 1)
          else
            let (expectedLength, v) =
                  (if first AND 0xe0 = 0xc0 then (2, first AND 0x1f)
                   else if first AND 0xf0 = 0xe0 then (3, first AND 0x0f)
                   else if first AND 0xf8 = 0xf0 then (4, first AND 0x07)
                   else (0, 0))
            in if expectedLength = 0 then Err STATUS_INVALID_PARAMETER
               else if expectedLength > length bs then Err STATUS_INVALID_PARAMETER
               else rbind (utf8_tail (expectedLength - 1) (ucast v) rest) (\<lambda>v.
                 if (expectedLength = 2 \<and> v < 0x80) \<or> (expectedLength = 3 \<and> v < 0x800) \<or>
                    (expectedLength = 4 \<and> v < 0x10000) \<or> (0xd800 \<le> v \<and> v \<le> 0xdfff) \<or> v > 0x10ffff
                 then Err STATUS_INVALID_PARAMETER
                 else Ok (v, expectedLength)))"

text \<open>The loop that fills the array \<open>codePoints\<close>.\<close>

lemma DecodeUtf8CodePoint_advances: "DecodeUtf8CodePoint bs = Ok (v, n) \<Longrightarrow> 0 < n \<and> n \<le> length bs"
  by (cases bs) (auto simp: DecodeUtf8CodePoint_def Let_def Suc_le_eq split: if_splits)

lemma rbind_cong [fundef_cong]: "m = m' \<Longrightarrow> (\<And>x. m' = Ok x \<Longrightarrow> f x = g x) \<Longrightarrow> rbind m f = rbind m' g"
  by (cases m') auto

function label_code_points :: "bytes \<Rightarrow> ULONG list \<Rightarrow> nat \<Rightarrow> bool \<Rightarrow> (ULONG list \<times> nat \<times> bool) res" where
  "label_code_points label codePoints codePointCount hasNonAscii =
     (if label = [] then Ok (codePoints, codePointCount, hasNonAscii)
      else rbind (DecodeUtf8CodePoint label) (\<lambda>r.
        let codePoint = fst r in
        if codePoint = 46 then Err STATUS_INVALID_PARAMETER
        else if codePoint < 0x80 \<and> \<not> IsValidDnsLabelByte (ucast codePoint) then Err STATUS_INVALID_PARAMETER
        else rbind (wr codePoints codePointCount codePoint) (\<lambda>codePoints.
               label_code_points (drop (snd r) label) codePoints (codePointCount + 1)
                 (hasNonAscii \<or> \<not> codePoint < 0x80))))"
  by pat_completeness auto
termination
  by (relation "measure (\<lambda>(label, _). length label)") (auto dest!: DecodeUtf8CodePoint_advances)

section \<open>Punycode\<close>

definition PunycodePrefix :: bytes where
  "PunycodePrefix = lit ''xn--''"

definition EncodePunycodeDigit :: "ULONG \<Rightarrow> UCHAR" where
  "EncodePunycodeDigit digit = (if digit < 26 then ucast (97 + digit) else ucast (48 + (digit - 26)))"

function adapt_loop :: "ULONG \<Rightarrow> ULONG \<Rightarrow> ULONG \<times> ULONG" where
  "adapt_loop delta k = (if delta > ((36 - 1) * 26) div 2 then adapt_loop (delta div (36 - 1)) (k + 36) else (delta, k))"
  by pat_completeness auto
termination
  by (relation "measure (\<lambda>(delta, k). unat delta)") (auto simp: word_less_nat_alt unat_div)

definition AdaptPunycodeBias :: "ULONG \<Rightarrow> ULONG \<Rightarrow> bool \<Rightarrow> ULONG" where
  "AdaptPunycodeBias delta numPoints firstTime =
     (let delta = (if firstTime then delta div 700 else delta div 2);
          delta = delta + delta div numPoints;
          (delta, k) = adapt_loop delta 0
      in k + ((36 - 1 + 1) * delta) div (delta + 38))"

definition punycode_threshold :: "ULONG \<Rightarrow> ULONG \<Rightarrow> ULONG" where
  "punycode_threshold k bias = (if k \<le> bias then 1 else if k \<ge> bias + 26 then 26 else k - bias)"

text \<open>The digits of one delta, least significant first.\<close>

lemma punycode_threshold_nat:
  "unat (punycode_threshold k bias) =
     (if unat k \<le> unat bias then 1 else if unat bias + 26 \<le> unat k then 26 else unat k - unat bias)"
  if "unat bias < 2 ^ 31"
proof -
  have "unat (bias + 26) = unat bias + 26" using that by (simp add: unat_word_ariths)
  then show ?thesis by (simp add: punycode_threshold_def word_le_nat_alt unat_sub)
qed

lemma punycode_threshold_range: "1 \<le> unat (punycode_threshold k bias) \<and> unat (punycode_threshold k bias) \<le> 26"
proof -
  have "unat (bias + 26) \<le> unat bias + 26" by (simp add: unat_word_ariths)
  then have "unat (k - bias) \<le> 26 \<and> 1 \<le> unat (k - bias)" if "unat bias < unat k" "unat k < unat (bias + 26)"
    using that unfolding unat_sub [OF word_le_nat_alt [THEN iffD2, OF less_imp_le [OF that(1)]]] by linarith
  then show ?thesis by (simp add: punycode_threshold_def word_le_nat_alt not_le)
qed

lemma punycode_quotient_less:
  fixes q t :: ULONG
  assumes "\<not> q < t" "1 \<le> unat t" "unat t \<le> 26"
  shows "unat ((q - t) div (36 - t)) < unat q" "unat ((q - t) div (36 - t)) = (unat q - unat t) div (36 - unat t)"
    "unat ((q - t) mod (36 - t)) = (unat q - unat t) mod (36 - unat t)"
proof -
  have s: "unat (q - t) = unat q - unat t" "unat (36 - t) = 36 - unat t"
    using assms by (simp_all add: unat_sub word_le_nat_alt word_less_nat_alt)
  then show e: "unat ((q - t) div (36 - t)) = (unat q - unat t) div (36 - unat t)"
    "unat ((q - t) mod (36 - t)) = (unat q - unat t) mod (36 - unat t)" by (simp_all add: unat_div unat_mod)
  have "(unat q - unat t) div (36 - unat t) \<le> unat q - unat t" by (rule div_le_dividend)
  then show "unat ((q - t) div (36 - t)) < unat q"
    unfolding e using assms by (simp only: word_less_nat_alt not_less)
qed

function punycode_digits :: "ULONG \<Rightarrow> ULONG \<Rightarrow> ULONG \<Rightarrow> writer \<Rightarrow> writer \<times> unit res" where
  "punycode_digits q k bias w =
     (let t = punycode_threshold k bias
      in if q < t then AppendOutputChar (EncodePunycodeDigit q) w
         else andthen (AppendOutputChar (EncodePunycodeDigit (t + (q - t) mod (36 - t))) w) (\<lambda>w _.
                punycode_digits ((q - t) div (36 - t)) (k + 36) bias w))"
  by pat_completeness auto
termination
  by (relation "measure (\<lambda>(q, _). unat q)")
     (use punycode_threshold_range in \<open>auto intro!: punycode_quotient_less(1)\<close>)

text \<open>
  One pass over the code points for the value \<open>n\<close>. The state is \<open>delta\<close>, \<open>bias\<close> and
  \<open>handledCount\<close>. The divisor \<open>static_cast<ULONG>(handledCount + 1)\<close> is tested for zero.
\<close>

fun punycode_scan ::
  "ULONG list \<Rightarrow> ULONG \<Rightarrow> nat \<Rightarrow> ULONG \<Rightarrow> ULONG \<Rightarrow> nat \<Rightarrow> writer \<Rightarrow> writer \<times> (ULONG \<times> ULONG \<times> nat) res" where
  "punycode_scan [] n basicCount delta bias handledCount w = (w, Ok (delta, bias, handledCount))"
| "punycode_scan (c # cs) n basicCount delta bias handledCount w =
     (if c < n
      then if delta = 0xffffffff then (w, Err STATUS_INTEGER_OVERFLOW)
           else punycode_scan cs n basicCount (delta + 1) bias handledCount w
      else if c = n
      then andthen (punycode_digits delta 36 bias w) (\<lambda>w _.
             if (word_of_nat (handledCount + 1) :: ULONG) = 0 then (w, Fault)
             else punycode_scan cs n basicCount 0
                    (AdaptPunycodeBias delta (word_of_nat (handledCount + 1)) (handledCount = basicCount))
                    (handledCount + 1) w)
      else punycode_scan cs n basicCount delta bias handledCount w)"

definition next_code_point :: "ULONG list \<Rightarrow> ULONG \<Rightarrow> ULONG" where
  "next_code_point codePoints n = fold (\<lambda>c m. if n \<le> c \<and> c < m then c else m) codePoints 0x10ffff"

lemma next_code_point_le: "next_code_point codePoints n \<le> 0x10ffff"
proof -
  have "fold (\<lambda>c m. if n \<le> c \<and> c < m then c else m) codePoints m \<le> m" for m
    by (induction codePoints arbitrary: m) (auto, meson order.strict_implies_order order_trans)
  then show ?thesis by (simp add: next_code_point_def)
qed

function punycode_loop ::
  "ULONG list \<Rightarrow> nat \<Rightarrow> ULONG \<Rightarrow> ULONG \<Rightarrow> ULONG \<Rightarrow> nat \<Rightarrow> writer \<Rightarrow> writer \<times> unit res" where
  "punycode_loop codePoints basicCount n delta bias handledCount w =
     (if \<not> handledCount < length codePoints then (w, Ok ())
      else
        let m = next_code_point codePoints n; h = (word_of_nat (handledCount + 1) :: ULONG)
        in if m = 0x10ffff \<or> m < n then (w, Err STATUS_INTEGER_OVERFLOW)
           else if h = 0 then (w, Fault)
           else if (0xffffffff - delta) div h < m - n then (w, Err STATUS_INTEGER_OVERFLOW)
           else andthen (punycode_scan codePoints m basicCount (delta + (m - n) * h) bias handledCount w)
                  (\<lambda>w (delta, bias, handledCount).
                     if delta = 0xffffffff \<or> m = 0x10ffff then (w, Err STATUS_INTEGER_OVERFLOW)
                     else punycode_loop codePoints basicCount (m + 1) (delta + 1) bias handledCount w))"
  by pat_completeness auto
termination
proof (relation "measure (\<lambda>(codePoints, basicCount, n, _). 0x110000 - unat n)", goal_cases)
  case (2 codePoints basicCount n delta bias handledCount w m)
  have "unat m < 0x10ffff" "unat n \<le> unat m"
    using 2 next_code_point_le [of codePoints n] by (auto simp: word_less_nat_alt word_le_nat_alt word_unat_eq_iff not_less)
  then show ?case by (simp add: unat_word_ariths)
qed simp

text \<open>\<open>granted\<close> says whether the array of code points could be allocated.\<close>

definition PunycodeEncodeLabel :: "bool \<Rightarrow> bytes \<Rightarrow> bytes \<Rightarrow> bytes \<times> nat res" where
  "PunycodeEncodeLabel granted label output =
     (if label = [] then (output, Err STATUS_INVALID_PARAMETER)
      else if \<not> granted then (output, Err STATUS_INSUFFICIENT_RESOURCES)
      else case label_code_points label (replicate (length label) 0) 0 False of
             Err s \<Rightarrow> (output, Err s)
           | Fault \<Rightarrow> (output, Fault)
           | Ok (codePoints, codePointCount, hasNonAscii) \<Rightarrow>
               let codePoints = take codePointCount codePoints;
                   lower = (\<lambda>c. ToLowerAscii (ucast c));
                   basic = filter (\<lambda>c. c < 0x80) codePoints;
                   r = (if \<not> hasNonAscii then append_chars (map lower codePoints) (output, 0)
                        else andthen (append_chars PunycodePrefix (output, 0)) (\<lambda>w _.
                             andthen (append_chars (map lower basic) w) (\<lambda>w _.
                             andthen (if length basic \<noteq> 0 then AppendOutputChar 45 w else (w, Ok ())) (\<lambda>w _.
                               punycode_loop codePoints (length basic) 128 0 72 (length basic) w))))
               in case andthen r (\<lambda>w _. if snd w \<le> 63 then (w, Ok (snd w)) else (w, Err STATUS_INVALID_PARAMETER)) of
                    (w, result) \<Rightarrow> (fst w, result))"

lemma tl_dropWhile_shorter: "dropWhile P xs \<noteq> [] \<Longrightarrow> length (tl (dropWhile P xs)) < length xs"
  using length_dropWhile_le [of P xs] by (cases "dropWhile P xs") auto

function normalize_labels :: "(nat \<Rightarrow> bool) \<Rightarrow> nat \<Rightarrow> bytes \<Rightarrow> writer \<Rightarrow> writer \<times> unit res" where
  "normalize_labels granted i host w =
     (if host = [] then (w, Ok ())
      else
        let label = takeWhile (\<lambda>c. c \<noteq> 46) host; rest = dropWhile (\<lambda>c. c \<noteq> 46) host
        in if label = [] then (w, Err STATUS_INVALID_PARAMETER)
           else case PunycodeEncodeLabel (granted i) label (drop (snd w) (fst w)) of
                  (tail, result) \<Rightarrow>
                    andthen ((take (snd w) (fst w) @ tail, snd w), result) (\<lambda>w written.
                      let w = (fst w, snd w + written)
                      in if rest \<noteq> []
                         then andthen (AppendOutputChar 46 w) (\<lambda>w _. normalize_labels granted (i + 1) (tl rest) w)
                         else normalize_labels granted (i + 1) rest w))"
  by pat_completeness auto
termination
proof (relation "measure (\<lambda>(granted, i, host, w). length host)", goal_cases)
  case 2
  then show ?case by (simp only: in_measure prod.case tl_dropWhile_shorter not_False_eq_True)
next
  case (3 granted i host w label rest)
  then have "rest = []" "host \<noteq> []" by blast+
  then show ?case by (simp only: in_measure prod.case list.size length_greater_0_conv not_False_eq_True)
qed simp

definition NormalizeDnsHost :: "(nat \<Rightarrow> bool) \<Rightarrow> bytes \<Rightarrow> bytes \<Rightarrow> bytes \<times> nat res" where
  "NormalizeDnsHost granted host output =
     (if host = [] \<or> output = [] then (output, Err STATUS_INVALID_PARAMETER)
      else case andthen (normalize_labels granted 0 host (output, 0)) (\<lambda>w _.
                  let out = snd w
                  in if out = 0 \<or> out > 255 \<or> length (fst w) \<le> out then (w, Err STATUS_INVALID_PARAMETER)
                     else case wr (fst w) out 0 of
                            Ok output \<Rightarrow> ((output, out), Ok out)
                          | Err s \<Rightarrow> (w, Err s)
                          | Fault \<Rightarrow> (w, Fault)) of
             (w, result) \<Rightarrow> (fst w, result))"

section \<open>Writing\<close>

text \<open>
  \<open>outcome dest t r Q\<close>: an operation that started with \<open>t\<close> in the buffer \<open>dest\<close> has ended in \<open>r\<close>
  without leaving the buffer, and if it succeeded with \<open>x\<close> it appended a text \<open>s\<close> with \<open>Q x s\<close>.
\<close>

definition outcome :: "bytes \<Rightarrow> bytes \<Rightarrow> writer \<times> 'a res \<Rightarrow> ('a \<Rightarrow> bytes \<Rightarrow> bool) \<Rightarrow> bool" where
  "outcome dest t r Q \<longleftrightarrow> length (fst (fst r)) = length dest \<and>
     (case snd r of Ok x \<Rightarrow> \<exists>s. stored dest (fst r) (t @ s) \<and> Q x s | Err _ \<Rightarrow> True | Fault \<Rightarrow> False)"

lemma stored_length: "stored dest w t \<Longrightarrow> length (fst w) = length dest \<and> snd w = length t \<and> length t \<le> length dest"
  by (auto simp: stored_def)

lemma outcome_Ok: "stored dest w t \<Longrightarrow> Q x [] \<Longrightarrow> outcome dest t (w, Ok x) Q"
  by (auto simp: outcome_def stored_length intro!: exI [of _ "[]"])

lemma outcome_Err: "stored dest w t \<Longrightarrow> outcome dest t (w, Err e) Q"
  by (simp add: outcome_def stored_length)

lemma outcome_andthen:
  assumes r: "outcome dest t r Q"
    and f: "\<And>w x s. stored dest w (t @ s) \<Longrightarrow> Q x s \<Longrightarrow> outcome dest (t @ s) (f w x) (\<lambda>y s'. R y (s @ s'))"
  shows "outcome dest t (andthen r f) R"
proof -
  obtain w res where r': "r = (w, res)" by fastforce
  show ?thesis
  proof (cases res)
    case (Ok x)
    then obtain s where s: "stored dest w (t @ s)" "Q x s" using r r' by (auto simp: outcome_def)
    from f [OF this] show ?thesis using r' Ok
      by (auto simp: outcome_def split: res.splits)
  qed (use r r' in \<open>auto simp: outcome_def\<close>)
qed

lemma outcome_mono: "outcome dest t r Q \<Longrightarrow> (\<And>x s. Q x s \<Longrightarrow> R x s) \<Longrightarrow> outcome dest t r R"
  by (auto simp: outcome_def split: res.splits)

lemma AppendOutputChar_outcome:
  assumes "stored dest w t"
  shows "outcome dest t (AppendOutputChar v w) (\<lambda>_ s. s = [v])"
proof (cases "length (fst w) \<le> snd w")
  case False
  then have "length t < length dest" using stored_length [OF assms] by simp
  from put_byte_stored [OF assms this, of v] False show ?thesis
    using stored_length by (force simp: AppendOutputChar_def outcome_def)
qed (simp add: AppendOutputChar_def outcome_Err assms)

lemma append_chars_outcome:
  "stored dest w t \<Longrightarrow> outcome dest t (append_chars cs w) (\<lambda>_ s. s = cs)"
proof (induction cs arbitrary: w t)
  case (Cons c cs)
  show ?case unfolding append_chars.simps
    by (rule outcome_andthen [OF AppendOutputChar_outcome [OF Cons.prems]])
       (auto intro: outcome_mono [OF Cons.IH])
qed (simp add: outcome_Ok)

section \<open>The decoder of RFC 3492\<close>

definition digit_value :: "UCHAR \<Rightarrow> nat option" where
  "digit_value c =
     (if 97 \<le> c \<and> c \<le> 122 then Some (unat c - 97)
      else if 65 \<le> c \<and> c \<le> 90 then Some (unat c - 65)
      else if 48 \<le> c \<and> c \<le> 57 then Some (unat c - 48 + 26)
      else None)"

definition threshold :: "nat \<Rightarrow> nat \<Rightarrow> nat" where
  "threshold k bias = (if k \<le> bias then 1 else if bias + 26 \<le> k then 26 else k - bias)"

fun read_int :: "bytes \<Rightarrow> nat \<Rightarrow> nat \<Rightarrow> nat \<Rightarrow> nat \<Rightarrow> (nat \<times> bytes) option" where
  "read_int [] k bias w i = None"
| "read_int (c # cs) k bias w i =
     (case digit_value c of
        None \<Rightarrow> None
      | Some d \<Rightarrow>
          if d < threshold k bias then Some (i + d * w, cs)
          else read_int cs (k + 36) bias (w * (36 - threshold k bias)) (i + d * w))"

function adapt_delta :: "nat \<Rightarrow> nat \<Rightarrow> nat" where
  "adapt_delta delta k = (if 455 < delta then adapt_delta (delta div 35) (k + 36) else k + 36 * delta div (delta + 38))"
  by pat_completeness auto
termination
  by (relation "measure fst") auto

definition adapt :: "nat \<Rightarrow> nat \<Rightarrow> bool \<Rightarrow> nat" where
  "adapt delta numpoints firsttime =
     (let d = (if firsttime then delta div 700 else delta div 2) in adapt_delta (d + d div numpoints) 0)"

lemma read_int_shorter: "read_int cs k bias w i = Some (j, rest) \<Longrightarrow> length rest < length cs"
  by (induction cs k bias w i rule: read_int.induct) (auto split: option.splits if_splits)

function puny_loop :: "bytes \<Rightarrow> nat \<Rightarrow> nat \<Rightarrow> nat \<Rightarrow> nat list \<Rightarrow> nat list option" where
  "puny_loop cs n i bias out =
     (if cs = [] then Some out
      else case read_int cs 36 bias 1 i of
             None \<Rightarrow> None
           | Some (j, rest) \<Rightarrow>
               let len = length out + 1; n' = n + j div len; p = j mod len
               in puny_loop rest n' (p + 1) (adapt (j - i) len (i = 0)) (take p out @ n' # drop p out))"
  by pat_completeness auto
termination
  by (relation "measure (\<lambda>(cs, _). length cs)") (auto dest!: read_int_shorter)

definition puny_decode :: "bytes \<Rightarrow> nat list option" where
  "puny_decode s =
     (let ext = rev (takeWhile (\<lambda>c. c \<noteq> 45) (rev s)); basic = rev (tl (dropWhile (\<lambda>c. c \<noteq> 45) (rev s)))
      in puny_loop ext 128 0 72 (map unat basic))"

section \<open>Digits\<close>

definition dns_byte :: "UCHAR \<Rightarrow> bool" where
  "dns_byte c \<longleftrightarrow> (97 \<le> c \<and> c \<le> 122) \<or> (48 \<le> c \<and> c \<le> 57)"

lemma EncodePunycodeDigit_facts:
  assumes "unat d < 36"
  shows "digit_value (EncodePunycodeDigit d) = Some (unat d)" "dns_byte (EncodePunycodeDigit d)"
proof -
  have "\<forall>n < 36. digit_value (EncodePunycodeDigit (word_of_nat n)) = Some n \<and> dns_byte (EncodePunycodeDigit (word_of_nat n))"
    by code_simp
  from this [rule_format, OF assms]
  show "digit_value (EncodePunycodeDigit d) = Some (unat d)" "dns_byte (EncodePunycodeDigit d)" by simp_all
qed

text \<open>The digits that are written for a delta, and that they are read back.\<close>

function int_text :: "ULONG \<Rightarrow> ULONG \<Rightarrow> ULONG \<Rightarrow> bytes" where
  "int_text q k bias =
     (let t = punycode_threshold k bias
      in if q < t then [EncodePunycodeDigit q]
         else EncodePunycodeDigit (t + (q - t) mod (36 - t)) # int_text ((q - t) div (36 - t)) (k + 36) bias)"
  by pat_completeness auto
termination
  by (relation "measure (\<lambda>(q, _). unat q)")
     (use punycode_threshold_range in \<open>auto intro!: punycode_quotient_less(1)\<close>)

declare int_text.simps [simp del] punycode_digits.simps [simp del]

lemma punycode_digits_outcome:
  "stored dest w t \<Longrightarrow> outcome dest t (punycode_digits q k bias w) (\<lambda>_ s. s = int_text q k bias)"
proof (induction q k bias w arbitrary: t rule: punycode_digits.induct)
  case (1 q k bias w)
  let ?t = "punycode_threshold k bias"
  show ?case
  proof (cases "q < ?t")
    case True
    then show ?thesis using AppendOutputChar_outcome [OF 1(2)]
      by (simp add: punycode_digits.simps [of q] int_text.simps [of q] Let_def)
  next
    case False
    have "outcome dest t (andthen (AppendOutputChar (EncodePunycodeDigit (?t + (q - ?t) mod (36 - ?t))) w)
        (\<lambda>w _. punycode_digits ((q - ?t) div (36 - ?t)) (k + 36) bias w)) (\<lambda>_ s. s = int_text q k bias)"
      by (rule outcome_andthen [OF AppendOutputChar_outcome [OF 1(2)]], rule outcome_mono,
          rule 1(1) [OF refl False]) (simp_all add: int_text.simps [of q] Let_def False)
    then show ?thesis using False by (simp add: punycode_digits.simps [of q] Let_def)
  qed
qed

lemma threshold_digit:
  fixes q :: ULONG
  assumes "\<not> q < punycode_threshold k bias"
  defines "t \<equiv> unat (punycode_threshold k bias)"
  shows "unat (punycode_threshold k bias + (q - punycode_threshold k bias) mod (36 - punycode_threshold k bias))
    = t + (unat q - t) mod (36 - t)" "t + (unat q - t) mod (36 - t) < 36" "t \<le> t + (unat q - t) mod (36 - t)"
proof -
  let ?t = "punycode_threshold k bias"
  note r = punycode_threshold_range [of k bias]
  note m = punycode_quotient_less(3) [OF assms(1) conjunct1 [OF r] conjunct2 [OF r]]
  have "(unat q - t) mod (36 - t) < 36 - t" using r by (intro mod_less_divisor) (simp add: t_def)
  then show l: "t + (unat q - t) mod (36 - t) < 36" using r unfolding t_def by linarith
  then show "unat (?t + (q - ?t) mod (36 - ?t)) = t + (unat q - t) mod (36 - t)"
    using m by (simp add: unat_word_ariths t_def)
qed simp

lemma int_text_dns: "list_all dns_byte (int_text q k bias) \<and> int_text q k bias \<noteq> []"
proof (induction q k bias rule: int_text.induct)
  case (1 q k bias)
  let ?t = "punycode_threshold k bias"
  have "dns_byte (EncodePunycodeDigit q)" if "q < ?t"
    using that punycode_threshold_range [of k bias] by (intro EncodePunycodeDigit_facts) (simp add: word_less_nat_alt)
  moreover have "dns_byte (EncodePunycodeDigit (?t + (q - ?t) mod (36 - ?t)))" if "\<not> q < ?t"
    using threshold_digit [OF that] by (intro EncodePunycodeDigit_facts) simp
  ultimately show ?case using 1 [OF refl] by (simp add: int_text.simps [of q] Let_def)
qed

lemma quotient_le:
  fixes t x :: nat
  assumes "t \<le> 26"
  shows "(x - t) div (36 - t) \<le> x div 10"
proof -
  have "(x - t) div (36 - t) \<le> x div (36 - t)" by (rule div_le_mono) simp
  also have "\<dots> \<le> x div 10" using assms by (intro div_le_mono2) auto
  finally show ?thesis .
qed

lemma read_int_text:
  assumes "unat bias < 2 ^ 31" "unat k = 36 * m" "unat q < 10 ^ (11 - m)" "m \<le> 11"
  shows "read_int (int_text q k bias @ rest) (unat k) (unat bias) w i = Some (i + unat q * w, rest)"
  using assms
proof (induction q k bias arbitrary: m w i rule: int_text.induct)
  case (1 q k bias)
  let ?t = "punycode_threshold k bias" and ?n = "unat (punycode_threshold k bias)"
  have n: "?n = threshold (unat k) (unat bias)" using punycode_threshold_nat [OF 1(2)] by (simp add: threshold_def)
  note r = punycode_threshold_range [of k bias]
  show ?case
  proof (cases "q < ?t")
    case True
    then have "unat q < 36" "unat q < threshold (unat k) (unat bias)" using r n by (auto simp: word_less_nat_alt)
    then show ?thesis using EncodePunycodeDigit_facts [of q] True by (simp add: int_text.simps [of q] Let_def)
  next
    case False
    let ?d = "?n + (unat q - ?n) mod (36 - ?n)" and ?q = "(unat q - ?n) div (36 - ?n)"
    note d = threshold_digit [OF False]
    have q: "unat ((q - ?t) div (36 - ?t)) = ?q" using punycode_quotient_less(2) [OF False] r by simp
    have m: "m < 11"
    proof (rule ccontr)
      assume "\<not> m < 11"
      then have "unat q = 0" using 1(4,5) by simp
      then show False using False r by (simp add: word_less_nat_alt)
    qed
    have k: "unat (k + 36) = unat k + 36" using 1(3) m by (simp add: unat_word_ariths)
    have small: "?q < 10 ^ (11 - (m + 1))"
    proof -
      have "unat q < 10 ^ (11 - (m + 1)) * 10" using 1(4) m by (simp add: Suc_diff_Suc [symmetric])
      then have "unat q div 10 < 10 ^ (11 - (m + 1))" by (rule less_mult_imp_div_less)
      then show ?thesis using quotient_le [of ?n "unat q"] r by simp
    qed
    have "read_int (int_text ((q - ?t) div (36 - ?t)) (k + 36) bias @ rest) (unat (k + 36)) (unat bias)
        (w * (36 - ?n)) (i + ?d * w) = Some (i + ?d * w + ?q * (w * (36 - ?n)), rest)"
      using 1(1) [OF refl False 1(2), of "m + 1" "w * (36 - ?n)" "i + ?d * w"] k 1(3) m small q by simp
    moreover have "i + ?d * w + ?q * (w * (36 - ?n)) = i + unat q * w"
    proof -
      have "?d + (36 - ?n) * ?q = unat q"
        using False mult_div_mod_eq [of "36 - ?n" "unat q - ?n"] by (simp add: word_less_nat_alt)
      then have "(?d + (36 - ?n) * ?q) * w = unat q * w" by simp
      then show ?thesis by (simp add: algebra_simps)
    qed
    ultimately show ?thesis
      using False d EncodePunycodeDigit_facts(1) [of "?t + (q - ?t) mod (36 - ?t)"] k
      by (simp add: int_text.simps [of q] Let_def n [symmetric])
  qed
qed

section \<open>Bias\<close>

declare adapt_loop.simps [simp del] adapt_delta.simps [simp del]

lemma adapt_loop_nat:
  assumes "unat k = 36 * m" "unat delta < 456 * 35 ^ (5 - m)" "m \<le> 5"
  shows "case adapt_loop delta k of (d, k') \<Rightarrow>
    adapt_delta (unat delta) (unat k) = unat k' + 36 * unat d div (unat d + 38) \<and> unat d \<le> 455 \<and> unat k' \<le> 180"
  using assms
proof (induction delta k arbitrary: m rule: adapt_loop.induct)
  case (1 delta k)
  show ?case
  proof (cases "455 < unat delta")
    case True
    have m: "m < 5"
    proof (rule ccontr)
      assume "\<not> m < 5"
      then have "m = 5" using 1(4) by simp
      then show False using 1(3) True by simp
    qed
    have gt: "((36 - 1) * 26) div 2 < delta" using True by (simp add: word_less_nat_alt unat_div)
    have d: "unat (delta div (36 - 1)) = unat delta div 35" by (simp add: unat_div)
    have k: "unat (k + 36) = 36 * (m + 1)" using 1(2) m by (simp add: unat_word_ariths)
    have "unat delta < 456 * 35 ^ (5 - (m + 1)) * 35" using 1(3) m by (simp add: Suc_diff_Suc [symmetric] ac_simps)
    then have "unat delta div 35 < 456 * 35 ^ (5 - (m + 1))" by (rule less_mult_imp_div_less)
    then show ?thesis
      using 1(1) [OF gt k] d m True 1(2) k gt
      by (simp add: adapt_loop.simps [of delta] adapt_delta.simps [of "unat delta"] add.commute)
  next
    case False
    then have "\<not> ((36 - 1) * 26) div 2 < delta" by (simp add: word_less_nat_alt unat_div)
    then show ?thesis using False 1(2,4)
      by (simp add: adapt_loop.simps [of delta] adapt_delta.simps [of "unat delta"])
  qed
qed

lemma AdaptPunycodeBias_nat:
  assumes "np \<noteq> 0"
  shows "unat (AdaptPunycodeBias delta np firstTime) = adapt (unat delta) (unat np) firstTime"
    and "adapt (unat delta) (unat np) firstTime < 2 ^ 31"
proof -
  let ?d = "if firstTime then delta div 700 else delta div 2"
  have half: "unat ?d < 2 ^ 31"
    using unat_lt2p [of delta] by (auto simp: unat_div)
  have "unat (x + x div np) = unat x + unat x div unat np" if "unat x < 2 ^ 31" for x :: ULONG
  proof -
    have "unat (x div np) \<le> unat x" by (simp only: unat_div div_le_dividend)
    then have "unat (x + x div np) = unat x + unat (x div np)" using that by (simp only: unat_word_ariths) simp
    then show ?thesis by (simp only: unat_div)
  qed
  from this [OF half] have s: "unat (?d + ?d div np) = unat ?d + unat ?d div unat np" .
  obtain d k where l: "adapt_loop (?d + ?d div np) 0 = (d, k)" by fastforce
  have "unat (?d + ?d div np) < 456 * 35 ^ (5 - 0)" using unat_lt2p [of "?d + ?d div np"] by simp
  from adapt_loop_nat [of 0 0, OF _ this] l
  have a: "adapt_delta (unat (?d + ?d div np)) 0 = unat k + 36 * unat d div (unat d + 38)" "unat d \<le> 455" "unat k \<le> 180"
    by simp_all
  have "36 * unat d div (unat d + 38) \<le> 36 * unat d" by (rule div_le_dividend)
  then have small: "36 * unat d div (unat d + 38) \<le> 16380" using a(2) by linarith
  have "unat ((36 - 1 + 1) * d) = 36 * unat d" "unat (d + 38) = unat d + 38"
    using a(2) by (simp_all add: unat_word_ariths)
  then have "unat (((36 - 1 + 1) * d) div (d + 38)) = 36 * unat d div (unat d + 38)" by (simp add: unat_div)
  then have r: "unat (k + ((36 - 1 + 1) * d) div (d + 38)) = unat k + 36 * unat d div (unat d + 38)"
    using a(3) small by (simp add: unat_word_ariths)
  have e: "adapt (unat delta) (unat np) firstTime = adapt_delta (unat (?d + ?d div np)) 0"
    by (simp add: adapt_def s unat_div Let_def)
  show "unat (AdaptPunycodeBias delta np firstTime) = adapt (unat delta) (unat np) firstTime"
    unfolding e a(1) AdaptPunycodeBias_def Let_def using l r by simp
  show "adapt (unat delta) (unat np) firstTime < 2 ^ 31"
    unfolding e a(1) using a(3) small by simp
qed

section \<open>What the decoder reads\<close>

declare puny_loop.simps [simp del] punycode_loop.simps [simp del]

text \<open>\<open>reads s x y\<close>: the decoder gets from state \<open>x\<close> to state \<open>y\<close> by reading \<open>s\<close>.\<close>

definition reads :: "bytes \<Rightarrow> nat \<times> nat \<times> nat \<times> nat list \<Rightarrow> nat \<times> nat \<times> nat \<times> nat list \<Rightarrow> bool" where
  "reads s x y \<longleftrightarrow>
     (\<forall>rest. (case x of (n, i, bias, out) \<Rightarrow> puny_loop (s @ rest) n i bias out) =
        (case y of (n, i, bias, out) \<Rightarrow> puny_loop rest n i bias out))"

lemma reads_refl: "reads [] x x"
  by (simp add: reads_def)

lemma reads_trans: "reads s x y \<Longrightarrow> reads s' y z \<Longrightarrow> reads (s @ s') x z"
  by (simp add: reads_def)

lemma div_mod_position:
  fixes a p l :: nat
  assumes "p \<le> l"
  shows "(a * (l + 1) + p) div (l + 1) = a" "(a * (l + 1) + p) mod (l + 1) = p"
  using assms by (simp_all add: div_nat_eqI mod_less del: mult_Suc_right add_Suc_right Suc_eq_plus1)

lemma reads_delta:
  assumes bias: "unat bias < 2 ^ 31" and n: "nd \<le> m" and p: "p \<le> length out"
    and delta: "unat delta + i = (m - nd) * (length out + 1) + p"
  shows "reads (int_text delta 36 bias) (nd, i, unat bias, out)
    (m, p + 1, adapt (unat delta) (length out + 1) (i = 0), take p out @ m # drop p out)"
proof -
  have r: "read_int (int_text delta 36 bias @ rest) 36 (unat bias) 1 i = Some (i + unat delta, rest)" for rest
    using read_int_text [OF bias, of 36 1 delta rest 1 i] unat_lt2p [of delta] by simp
  have "(i + unat delta) div (length out + 1) = m - nd" "(i + unat delta) mod (length out + 1) = p"
    unfolding add.commute [of i] delta using p by (simp_all only: div_mod_position)
  then show ?thesis using r int_text_dns [of delta 36 bias] n
    by (simp add: reads_def puny_loop.simps [of "int_text delta 36 bias @ _"] Let_def)
qed

text \<open>The code point as it is encoded: an ASCII letter in lower case.\<close>

definition lower_point :: "ULONG \<Rightarrow> nat" where
  "lower_point c = (if c < 0x80 then unat (ToLowerAscii (ucast c)) else unat c)"

lemma lower_point_high: "128 \<le> unat c \<Longrightarrow> lower_point c = unat c"
  by (simp add: lower_point_def word_less_nat_alt)

text \<open>
  The state of encoder and decoder between two code points of a pass for the value \<open>m\<close>: the decoder has the
  code points below \<open>m\<close>, and those equal to \<open>m\<close> that were already met, in the order of the label; \<open>delta\<close>
  counts its steps from where it stands to where the next one is to be inserted.
\<close>

definition in_pass ::
  "ULONG list \<Rightarrow> ULONG list \<Rightarrow> ULONG \<Rightarrow> nat \<Rightarrow> ULONG \<Rightarrow> ULONG \<Rightarrow> nat \<Rightarrow> nat \<times> nat \<times> nat \<times> nat list \<Rightarrow> bool" where
  "in_pass pre cs m basicCount delta bias handledCount x \<longleftrightarrow>
     (case x of (nd, i, b, out) \<Rightarrow>
        out = map lower_point (filter (\<lambda>c. c \<le> m) pre @ filter (\<lambda>c. c < m) cs) \<and>
        handledCount = length out \<and> nd \<le> unat m \<and> b = unat bias \<and> b < 2 ^ 31 \<and>
        unat delta + i = (unat m - nd) * (handledCount + 1) + length (filter (\<lambda>c. c \<le> m) pre) \<and>
        (i = 0 \<longleftrightarrow> handledCount = basicCount))"

lemma in_pass_skip:
  assumes "in_pass pre (c # cs) m basicCount delta bias handledCount x" "\<not> c \<le> m"
  shows "in_pass (pre @ [c]) cs m basicCount delta bias handledCount x"
  using assms by (auto simp: in_pass_def)

lemma max_ulong: "(- 1 :: ULONG) = 0xffffffff"
  by simp

lemma in_pass_count:
  assumes "in_pass pre (c # cs) m basicCount delta bias handledCount x" "c < m" "delta \<noteq> 0xffffffff"
  shows "in_pass (pre @ [c]) cs m basicCount (delta + 1) bias handledCount x"
proof -
  have "unat (delta + 1) = unat delta + 1" using assms(3) unat_Suc_word [of delta] max_ulong by simp
  then show ?thesis using assms by (auto simp: in_pass_def)
qed

lemma in_pass_insert:
  assumes x: "in_pass pre (m # cs) m basicCount delta bias handledCount (nd, i, b, out)"
    and h: "handledCount + 1 < 2 ^ 32" and m: "128 \<le> unat m" and basic: "basicCount \<le> handledCount"
  defines "bias' \<equiv> AdaptPunycodeBias delta (word_of_nat (handledCount + 1)) (handledCount = basicCount)"
  shows "\<exists>y. reads (int_text delta 36 bias) (nd, i, b, out) y \<and>
    in_pass (pre @ [m]) cs m basicCount 0 bias' (handledCount + 1) y"
proof -
  let ?p = "length (filter (\<lambda>c. c \<le> m) pre)" and ?np = "word_of_nat (handledCount + 1) :: ULONG"
  let ?y = "(unat m, ?p + 1, adapt (unat delta) (length out + 1) (i = 0), take ?p out @ unat m # drop ?p out)"
  have np: "unat ?np = handledCount + 1" by (rule unat_word_of_nat_32 [OF h])
  then have "?np \<noteq> 0" by (metis Suc_eq_plus1 Zero_not_Suc unat_0)
  note bias = AdaptPunycodeBias_nat [OF this, of delta "handledCount = basicCount"]
  have out: "out = map lower_point (filter (\<lambda>c. c \<le> m) pre @ filter (\<lambda>c. c < m) cs)" "handledCount = length out"
      "nd \<le> unat m" "b = unat bias" "b < 2 ^ 31" "(i = 0) = (handledCount = basicCount)"
      "unat delta + i = (unat m - nd) * (length out + 1) + ?p"
    using x by (auto simp: in_pass_def)
  then have "?p \<le> length out" by simp
  with reads_delta [of bias nd "unat m" ?p out delta i] out
  have "reads (int_text delta 36 bias) (nd, i, b, out) ?y" by simp
  moreover have "in_pass (pre @ [m]) cs m basicCount 0 bias' (handledCount + 1) ?y"
    using out(1,2,6) bias np basic lower_point_high [OF m]
    by (auto simp: in_pass_def bias'_def)
  ultimately show ?thesis by blast
qed

section \<open>The encoder\<close>

definition scanned ::
  "bytes \<Rightarrow> ULONG list \<Rightarrow> ULONG \<Rightarrow> nat \<Rightarrow> nat \<times> nat \<times> nat \<times> nat list \<Rightarrow> ULONG \<times> ULONG \<times> nat \<Rightarrow> bytes \<Rightarrow> bool" where
  "scanned t cps m basicCount x r s \<longleftrightarrow>
     (case r of (delta, bias, handledCount) \<Rightarrow>
        list_all dns_byte s \<and> basicCount \<le> handledCount \<and> handledCount \<le> length (t @ s) \<and>
        (\<exists>y. reads s x y \<and> in_pass cps [] m basicCount delta bias handledCount y))"

lemma punycode_scan_outcome:
  assumes "stored dest w t" "in_pass pre cs m basicCount delta bias handledCount x" "128 \<le> unat m"
    "basicCount \<le> handledCount" "handledCount \<le> length t" "length dest < 2 ^ 32 - 1"
  shows "outcome dest t (punycode_scan cs m basicCount delta bias handledCount w)
    (scanned t (pre @ cs) m basicCount x)"
  using assms
proof (induction cs arbitrary: w t pre delta bias handledCount x)
  case Nil
  have "scanned t (pre @ []) m basicCount x (delta, bias, handledCount) []"
    unfolding scanned_def using Nil reads_refl [of x] by (simp del: split_paired_Ex) blast
  then show ?case using outcome_Ok [OF Nil(1)] by simp
next
  case (Cons c cs)
  note st = Cons.prems(1) and x = Cons.prems(2)
  consider "c < m" "delta = 0xffffffff" | "c < m" "delta \<noteq> 0xffffffff" | "c = m" | "\<not> c \<le> m" by fastforce
  then show ?case
  proof cases
    case 1
    then show ?thesis using st by (simp add: outcome_Err)
  next
    case 2
    then show ?thesis using Cons.IH [OF st in_pass_count [OF x 2]] Cons.prems by simp
  next
    case 4
    then have "\<not> c < m" "c \<noteq> m" by auto
    then show ?thesis using Cons.IH [OF st in_pass_skip [OF x 4]] Cons.prems by simp
  next
    case 3
    let ?b = "AdaptPunycodeBias delta (word_of_nat (handledCount + 1)) (handledCount = basicCount)"
    let ?f = "\<lambda>w _. if (word_of_nat (handledCount + 1) :: ULONG) = 0 then (w, Fault)
      else punycode_scan cs m basicCount 0 ?b (handledCount + 1) w"
    have "outcome dest t (andthen (punycode_digits delta 36 bias w) ?f) (scanned t (pre @ c # cs) m basicCount x)"
    proof (rule outcome_andthen [OF punycode_digits_outcome [OF st]])
      fix w' u s
      assume w: "stored dest w' (t @ s)" and s: "s = int_text delta 36 bias"
      have long: "handledCount + 1 \<le> length (t @ s)"
      proof -
        have "0 < length s" using int_text_dns [of delta 36 bias] s by simp
        then show ?thesis using Cons.prems(5) by (simp only: length_append)
      qed
      then have h: "handledCount + 1 < 2 ^ 32" using stored_length [OF w] Cons.prems(6) by simp
      then have "unat (word_of_nat (handledCount + 1) :: ULONG) \<noteq> 0" by (simp only: unat_word_of_nat_32)
      then have nz: "(word_of_nat (handledCount + 1) :: ULONG) \<noteq> 0" by (metis unat_0)
      obtain nd i b out where xx: "x = (nd, i, b, out)" by (metis prod_cases4)
      from in_pass_insert [OF _ h Cons.prems(3,4)] x xx 3 obtain y where
        y: "reads s x y" "in_pass (pre @ [m]) cs m basicCount 0 ?b (handledCount + 1) y"
        using s by blast
      have "outcome dest (t @ s) (punycode_scan cs m basicCount 0 ?b (handledCount + 1) w')
          (scanned (t @ s) ((pre @ [m]) @ cs) m basicCount y)"
        using Cons.IH [OF w y(2)] Cons.prems long by simp
      then have "outcome dest (t @ s) (punycode_scan cs m basicCount 0 ?b (handledCount + 1) w')
          (\<lambda>r s'. scanned t (pre @ c # cs) m basicCount x r (s @ s'))"
      proof (rule outcome_mono)
        fix r s'
        assume "scanned (t @ s) ((pre @ [m]) @ cs) m basicCount y r s'"
        then show "scanned t (pre @ c # cs) m basicCount x r (s @ s')"
          using reads_trans [OF y(1)] 3 s int_text_dns [of delta 36 bias]
          by (cases r) (simp add: scanned_def del: split_paired_Ex, blast)
      qed
      then show "outcome dest (t @ s) (?f w' u) (\<lambda>r s'. scanned t (pre @ c # cs) m basicCount x r (s @ s'))"
        using nz by simp
    qed
    then show ?thesis using 3 by simp
  qed
qed

lemma next_code_point_min:
  "next_code_point cps n = 0x10ffff \<or> next_code_point cps n \<in> set cps \<and> n \<le> next_code_point cps n"
  "c \<in> set cps \<Longrightarrow> n \<le> c \<Longrightarrow> next_code_point cps n \<le> c"
proof -
  let ?f = "\<lambda>c m. if n \<le> c \<and> c < m then c else m"
  have le: "fold ?f cps m \<le> m" for m by (induction cps arbitrary: m) (auto, meson order.strict_implies_order order_trans)
  have "fold ?f cps m = m \<or> fold ?f cps m \<in> set cps \<and> n \<le> fold ?f cps m" for m
  proof (induction cps arbitrary: m)
    case (Cons d cps)
    from Cons [of "?f d m"] show ?case by (auto split: if_splits)
  qed simp
  then show "next_code_point cps n = 0x10ffff \<or> next_code_point cps n \<in> set cps \<and> n \<le> next_code_point cps n"
    by (simp add: next_code_point_def)
  have "c \<in> set cps \<Longrightarrow> n \<le> c \<Longrightarrow> fold ?f cps m \<le> c" for m
  proof (induction cps arbitrary: m)
    case (Cons d cps)
    have "fold ?f cps k \<le> k" for k by (induction cps arbitrary: k) (auto, meson order.strict_implies_order order_trans)
    from this [of "?f c m"] Cons show ?case by (cases "d = c") (auto simp: not_less split: if_splits intro: order_trans)
  qed simp
  then show "c \<in> set cps \<Longrightarrow> n \<le> c \<Longrightarrow> next_code_point cps n \<le> c" by (simp add: next_code_point_def)
qed

text \<open>The state between two passes: the decoder has the code points below \<open>n\<close>.\<close>

definition between ::
  "ULONG list \<Rightarrow> ULONG \<Rightarrow> nat \<Rightarrow> ULONG \<Rightarrow> ULONG \<Rightarrow> nat \<Rightarrow> nat \<times> nat \<times> nat \<times> nat list \<Rightarrow> bool" where
  "between cps n basicCount delta bias handledCount x \<longleftrightarrow>
     (case x of (nd, i, b, out) \<Rightarrow>
        out = map lower_point (filter (\<lambda>c. c < n) cps) \<and> handledCount = length out \<and> nd \<le> unat n \<and>
        b = unat bias \<and> b < 2 ^ 31 \<and> unat delta + i = (unat n - nd) * (handledCount + 1) \<and>
        (i = 0 \<longleftrightarrow> handledCount = basicCount))"

lemma between_start_pass:
  assumes x: "between cps n basicCount delta bias handledCount x"
    and m: "m = next_code_point cps n" "m \<noteq> 0x10ffff"
    and h: "h = word_of_nat (handledCount + 1)" "handledCount + 1 < 2 ^ 32"
    and fits: "\<not> (0xffffffff - delta) div h < m - n"
  shows "in_pass [] cps m basicCount (delta + (m - n) * h) bias handledCount x"
proof -
  obtain nd i b out where xx: "x = (nd, i, b, out)" by (metis prod_cases4)
  have nm: "n \<le> m" using next_code_point_min(1) [of cps n] m by auto
  then have sub: "unat (m - n) = unat m - unat n" by (simp add: unat_sub)
  have uh: "unat h = handledCount + 1" unfolding h(1) by (rule unat_word_of_nat_32 [OF h(2)])
  have "unat (0xffffffff - delta) = 0xffffffff - unat delta"
    using word_n1_ge [of delta] by (simp add: unat_sub max_ulong)
  then have "unat m - unat n \<le> (0xffffffff - unat delta) div (handledCount + 1)"
    using fits sub uh by (simp add: word_less_nat_alt unat_div)
  then have "(unat m - unat n) * (handledCount + 1) \<le> 0xffffffff - unat delta"
    by (simp add: less_eq_div_iff_mult_less_eq)
  then have "unat ((m - n) * h) = (unat m - unat n) * (handledCount + 1)"
    "unat (delta + (m - n) * h) = unat delta + (unat m - unat n) * (handledCount + 1)"
    using sub uh unat_lt2p [of delta] by (simp_all add: unat_word_ariths)
  moreover have "filter (\<lambda>c. c < m) cps = filter (\<lambda>c. c < n) cps"
    using next_code_point_min(2) [of _ cps n] nm m(1) by (intro filter_cong) (auto, meson leD not_le_imp_less)
  moreover have "(unat m - nd) * (handledCount + 1)
      = (unat m - unat n) * (handledCount + 1) + (unat n - nd) * (handledCount + 1)"
    if "nd \<le> unat n" using that nm by (simp add: word_le_nat_alt add_mult_distrib [symmetric] del: mult_Suc_right)
  moreover have "nd \<le> unat n" "unat delta + i = (unat n - nd) * (handledCount + 1)"
    using x xx by (simp_all add: between_def)
  ultimately have "unat (delta + (m - n) * h) + i = (unat m - nd) * (handledCount + 1)"
    "filter (\<lambda>c. c < m) cps = filter (\<lambda>c. c < n) cps" "nd \<le> unat m"
    using nm by (linarith, simp_all add: word_le_nat_alt)
  then show ?thesis using x xx by (simp add: between_def in_pass_def)
qed

lemma between_end_pass:
  assumes x: "in_pass cps [] m basicCount delta bias handledCount x"
    and delta: "delta \<noteq> 0xffffffff" and m: "m < 0x10ffff"
  shows "between cps (m + 1) basicCount (delta + 1) bias handledCount x"
proof -
  have s: "unat (delta + 1) = unat delta + 1" "unat (m + 1) = unat m + 1"
    using delta m unat_Suc_word [of delta] max_ulong by (auto simp: unat_word_ariths word_less_nat_alt)
  have f: "filter (\<lambda>c. c < m + 1) cps = filter (\<lambda>c. c \<le> m) cps"
    using s(2) by (simp only: word_less_nat_alt word_le_nat_alt less_Suc_eq_le Suc_eq_plus1 [symmetric])
  obtain nd i b out where xx: "x = (nd, i, b, out)" by (metis prod_cases4)
  have "(unat m + 1 - nd) * (handledCount + 1) = (unat m - nd) * (handledCount + 1) + (handledCount + 1)"
    if "nd \<le> unat m" using that by (simp add: Suc_diff_le)
  then show ?thesis using x xx s f by (simp add: between_def in_pass_def)
qed

lemma punycode_loop_outcome:
  assumes "stored dest w t" "between cps n basicCount delta bias handledCount x" "128 \<le> unat n"
    "basicCount \<le> handledCount" "handledCount \<le> length t" "length dest < 2 ^ 32 - 1"
  shows "outcome dest t (punycode_loop cps basicCount n delta bias handledCount w)
    (\<lambda>_ s. list_all dns_byte s \<and> (\<exists>nd i b. reads s x (nd, i, b, map lower_point cps)))"
  using assms
proof (induction cps basicCount n delta bias handledCount w arbitrary: t x rule: punycode_loop.induct)
  case (1 cps basicCount n delta bias handledCount w)
  note st = 1(2) and x = 1(3)
  let ?m = "next_code_point cps n" and ?h = "word_of_nat (handledCount + 1) :: ULONG"
  let ?Q = "\<lambda>s. list_all dns_byte s \<and> (\<exists>nd i b. reads s x (nd, i, b, map lower_point cps))"
  have h: "handledCount + 1 < 2 ^ 32" using 1(6,7) stored_length [OF st] by simp
  then have "unat ?h \<noteq> 0" by (simp only: unat_word_of_nat_32)
  then have nz: "?h \<noteq> 0" by (metis unat_0)
  consider "\<not> handledCount < length cps" | "handledCount < length cps" "?m = 0x10ffff \<or> ?m < n \<or> (0xffffffff - delta) div ?h < ?m - n"
    | "handledCount < length cps" "?m \<noteq> 0x10ffff" "\<not> ?m < n" "\<not> (0xffffffff - delta) div ?h < ?m - n" by blast
  then show ?case
  proof cases
    case a: 1
    obtain nd i b out where xx: "x = (nd, i, b, out)" by (metis prod_cases4)
    have "length (filter (\<lambda>c. c < n) cps) = length cps"
      using x xx a length_filter_le [of "\<lambda>c. c < n" cps] by (simp add: between_def)
    then have "filter (\<lambda>c. c < n) cps = cps" by (metis filter_id_conv length_filter_less less_irrefl)
    then have "?Q []" using x xx reads_refl [of x] by (auto simp: between_def)
    then show ?thesis using a outcome_Ok [OF st, of "\<lambda>_. ?Q" "()"] by (simp add: punycode_loop.simps [of cps])
  next
    case b: 2
    then show ?thesis using st nz by (auto simp: punycode_loop.simps [of cps] Let_def outcome_Err)
  next
    case c: 3
    have mlt: "?m < 0x10ffff" using c(2) next_code_point_le [of cps n] by simp
    have big: "128 \<le> unat ?m" using c(3) 1(4) by (simp add: word_less_nat_alt)
    note start = between_start_pass [OF x refl c(2) refl h c(4)]
    note scan = punycode_scan_outcome [OF st start big 1(5,6,7)]
    let ?f = "\<lambda>w (delta, bias, handledCount). if delta = 0xffffffff \<or> ?m = 0x10ffff then (w, Err STATUS_INTEGER_OVERFLOW)
      else punycode_loop cps basicCount (?m + 1) (delta + 1) bias handledCount w"
    have "outcome dest t (andthen (punycode_scan cps ?m basicCount (delta + (?m - n) * ?h) bias handledCount w) ?f) (\<lambda>_. ?Q)"
    proof (rule outcome_andthen [OF scan])
      fix w' r s
      assume w: "stored dest w' (t @ s)" and r: "scanned t ([] @ cps) ?m basicCount x r s"
      obtain delta' bias' handled' where rr: "r = (delta', bias', handled')" by (metis prod_cases3)
      from r rr obtain y where y: "reads s x y" "in_pass cps [] ?m basicCount delta' bias' handled' y"
        and s: "list_all dns_byte s" "basicCount \<le> handled'" "handled' \<le> length (t @ s)" by (auto simp: scanned_def)
      show "outcome dest (t @ s) (?f w' r) (\<lambda>_ s'. ?Q (s @ s'))"
      proof (cases "delta' = 0xffffffff")
        case True
        then show ?thesis using w rr by (simp add: outcome_Err)
      next
        case False
        have big': "128 \<le> unat (?m + 1)" using big mlt by (simp add: unat_word_ariths word_less_nat_alt)
        have "outcome dest (t @ s) (punycode_loop cps basicCount (?m + 1) (delta' + 1) bias' handled' w')
            (\<lambda>_ s'. list_all dns_byte s' \<and> (\<exists>nd i b. reads s' y (nd, i, b, map lower_point cps)))"
          using 1(1) [OF _ refl refl _ nz c(4) _ w between_end_pass [OF y(2) False mlt] big' s(2,3) 1(7)]
            c False by auto
        then have "outcome dest (t @ s) (punycode_loop cps basicCount (?m + 1) (delta' + 1) bias' handled' w')
            (\<lambda>_ s'. ?Q (s @ s'))"
        proof (rule outcome_mono)
          fix s'
          assume "list_all dns_byte s' \<and> (\<exists>nd i b. reads s' y (nd, i, b, map lower_point cps))"
          then obtain nd i b where r: "list_all dns_byte s'" "reads s' y (nd, i, b, map lower_point cps)" by blast
          from reads_trans [OF y(1) r(2)] r(1) s(1) show "?Q (s @ s')" by (simp only: list_all_append) blast
        qed
        then show ?thesis using rr False c(2) by simp
      qed
    qed
    then show ?thesis using c nz by (simp add: punycode_loop.simps [of cps basicCount n delta] Let_def)
  qed
qed

section \<open>UTF-8\<close>

text \<open>The encoding of a code point (RFC 3629), and the code points that have one.\<close>

definition utf8 :: "nat \<Rightarrow> bytes" where
  "utf8 u =
     (if u < 0x80 then [word_of_nat u]
      else if u < 0x800 then [word_of_nat (0xc0 + u div 64), word_of_nat (0x80 + u mod 64)]
      else if u < 0x10000
      then [word_of_nat (0xe0 + u div 4096), word_of_nat (0x80 + u div 64 mod 64), word_of_nat (0x80 + u mod 64)]
      else [word_of_nat (0xf0 + u div 262144), word_of_nat (0x80 + u div 4096 mod 64),
            word_of_nat (0x80 + u div 64 mod 64), word_of_nat (0x80 + u mod 64)])"

definition scalar_value :: "nat \<Rightarrow> bool" where
  "scalar_value u \<longleftrightarrow> u < 0xd800 \<or> (0xdfff < u \<and> u \<le> 0x10ffff)"

lemma utf8_bytes:
  "b AND 0xc0 = 0x80 \<Longrightarrow> b = word_of_nat (0x80 + unat (b AND 0x3f))"
  "b AND 0xe0 = 0xc0 \<Longrightarrow> b = word_of_nat (0xc0 + unat (b AND 0x1f))"
  "b AND 0xf0 = 0xe0 \<Longrightarrow> b = word_of_nat (0xe0 + unat (b AND 0x0f))"
  "b AND 0xf8 = 0xf0 \<Longrightarrow> b = word_of_nat (0xf0 + unat (b AND 0x07))"
  for b :: UCHAR
proof -
  have "(b AND 0xc0 = 0x80 \<longrightarrow> b = word_of_nat (0x80 + unat (b AND 0x3f))) \<and>
      (b AND 0xe0 = 0xc0 \<longrightarrow> b = word_of_nat (0xc0 + unat (b AND 0x1f))) \<and>
      (b AND 0xf0 = 0xe0 \<longrightarrow> b = word_of_nat (0xe0 + unat (b AND 0x0f))) \<and>
      (b AND 0xf8 = 0xf0 \<longrightarrow> b = word_of_nat (0xf0 + unat (b AND 0x07)))"
    by (rule byte_exhaust [of _ b]) code_simp
  then
  show "b AND 0xc0 = 0x80 \<Longrightarrow> b = word_of_nat (0x80 + unat (b AND 0x3f))"
    "b AND 0xe0 = 0xc0 \<Longrightarrow> b = word_of_nat (0xc0 + unat (b AND 0x1f))"
    "b AND 0xf0 = 0xe0 \<Longrightarrow> b = word_of_nat (0xe0 + unat (b AND 0x0f))"
    "b AND 0xf8 = 0xf0 \<Longrightarrow> b = word_of_nat (0xf0 + unat (b AND 0x07))"
    by blast+
qed

lemma low_bits_bound:
  fixes b :: UCHAR
  shows "unat (b AND 0x3f) < 64" "unat (b AND 0x1f) < 32" "unat (b AND 0x0f) < 16" "unat (b AND 0x07) < 8"
  using word_and_le1 [of b "0x3f"] word_and_le1 [of b "0x1f"] word_and_le1 [of b "0x0f"] word_and_le1 [of b "0x07"]
  by (simp_all add: word_le_nat_alt)

lemma utf8_tail_step:
  fixes v :: ULONG and b :: UCHAR
  assumes "unat v < 2 ^ 24"
  shows "unat (push_bit 6 v OR ucast (b AND 0x3f)) = unat v * 64 + unat (b AND 0x3f)"
  using unat_push_bit_or [of "ucast (b AND 0x3f) :: ULONG" 6 v] assms low_bits_bound(1) [of b]
  by (simp add: unat_ucast_up)

lemma utf8_tail_Ok:
  assumes "utf8_tail n v bs = Ok r" "unat v < 8 * 2 ^ (6 * (3 - n))" "n \<le> 3"
  shows "n \<le> length bs \<and> take n bs = map (\<lambda>j. word_of_nat (0x80 + unat r div 64 ^ (n - 1 - j) mod 64)) [0..<n] \<and>
    unat r div 64 ^ n = unat v"
  using assms
proof (induction n arbitrary: v bs)
  case (Suc n)
  then obtain b cs where bs: "bs = b # cs" and c: "b AND 0xc0 = 0x80"
    and t: "utf8_tail n (push_bit 6 v OR ucast (b AND 0x3f)) cs = Ok r"
    by (cases bs) (auto split: if_splits)
  let ?x = "unat (b AND 0x3f)"
  have "(8 :: nat) * 2 ^ (6 * (3 - Suc n)) \<le> 8 * 2 ^ 12" using Suc.prems(3) by (intro mult_le_mono2 power_increasing) auto
  then have "unat v < 2 ^ 24" using Suc.prems(2) by simp
  note step = utf8_tail_step [OF this, of b]
  have "3 - n = Suc (3 - Suc n)" using Suc.prems(3) by simp
  then have "unat v * 64 + ?x < 8 * 2 ^ (6 * (3 - n))"
    using Suc.prems(2) low_bits_bound(1) [of b] by (simp add: power_add)
  with Suc.IH [OF t] step Suc.prems(3) have ih: "n \<le> length cs"
    "take n cs = map (\<lambda>j. word_of_nat (0x80 + unat r div 64 ^ (n - 1 - j) mod 64)) [0..<n]"
    "unat r div 64 ^ n = unat v * 64 + ?x" by simp_all
  have "b = word_of_nat (0x80 + unat r div 64 ^ n mod 64)"
    using utf8_bytes(1) [OF c] ih(3) low_bits_bound(1) [of b] by simp
  moreover have "unat r div 64 ^ Suc n = unat v"
    unfolding power_Suc2 div_mult2_eq ih(3) using low_bits_bound(1) [of b] by simp
  moreover have "map (\<lambda>j. word_of_nat (0x80 + unat r div 64 ^ (Suc n - 1 - j) mod 64)) [0..<Suc n]
      = word_of_nat (0x80 + unat r div 64 ^ n mod 64) #
        map (\<lambda>j. word_of_nat (0x80 + unat r div 64 ^ (n - 1 - j) mod 64) :: UCHAR) [0..<n]"
    unfolding upt_conv_Cons [OF zero_less_Suc] map_Suc_upt [symmetric] by simp
  ultimately show ?case using bs ih by simp
qed simp

lemma DecodeUtf8CodePoint_utf8:
  assumes "DecodeUtf8CodePoint bs = Ok (v, n)"
  shows "take n bs = utf8 (unat v) \<and> scalar_value (unat v)"
proof (cases bs)
  case Nil
  then show ?thesis using assms by (simp add: DecodeUtf8CodePoint_def)
next
  case (Cons b rest)
  show ?thesis
  proof (cases "b < 0x80")
    case True
    then have "v = ucast b" "n = 1" using assms Cons by (auto simp: DecodeUtf8CodePoint_def)
    then show ?thesis using True Cons by (simp add: utf8_def scalar_value_def unat_ucast_up word_less_nat_alt)
  next
    case False
    note [simp] = word_less_nat_alt word_le_nat_alt unat_ucast_up
    have upts: "[0..<2] = [0, 1 :: nat]" "[0..<3] = [0, 1, 2 :: nat]" by (simp_all add: upt_rec)
    consider (two) "b AND 0xe0 = 0xc0" "n = 2" "utf8_tail 1 (ucast (b AND 0x1f)) rest = Ok v" "0x80 \<le> unat v"
      | (three) "b AND 0xf0 = 0xe0" "n = 3" "utf8_tail 2 (ucast (b AND 0x0f)) rest = Ok v" "0x800 \<le> unat v"
      | (four) "b AND 0xf8 = 0xf0" "n = 4" "utf8_tail 3 (ucast (b AND 0x07)) rest = Ok v" "0x10000 \<le> unat v"
      using assms Cons False
      by (auto simp: DecodeUtf8CodePoint_def Let_def split: if_splits)
    moreover have s: "scalar_value (unat v)"
      using assms Cons False by (auto simp: DecodeUtf8CodePoint_def Let_def scalar_value_def split: if_splits)
    ultimately show ?thesis
    proof cases
      case two
      from utf8_tail_Ok [OF two(3)] low_bits_bound(2) [of b]
      have t: "take 1 rest = [word_of_nat (0x80 + unat v mod 64)]" "unat v div 64 = unat (b AND 0x1f)" by simp_all
      then have "unat v < 0x800" using low_bits_bound(2) [of b] by simp
      then show ?thesis using t two s utf8_bytes(2) [OF two(1)] Cons by (simp add: utf8_def take_Cons')
    next
      case three
      from utf8_tail_Ok [OF three(3)] low_bits_bound(3) [of b]
      have t: "take 2 rest = [word_of_nat (0x80 + unat v div 64 mod 64), word_of_nat (0x80 + unat v mod 64)]"
        "unat v div 4096 = unat (b AND 0x0f)" by (simp_all add: upts)
      then have "unat v < 0x10000" using low_bits_bound(3) [of b] by simp
      then show ?thesis using t three s utf8_bytes(3) [OF three(1)] Cons by (simp add: utf8_def take_Cons')
    next
      case four
      from utf8_tail_Ok [OF four(3)] low_bits_bound(4) [of b]
      have t: "take 3 rest = [word_of_nat (0x80 + unat v div 4096 mod 64), word_of_nat (0x80 + unat v div 64 mod 64),
          word_of_nat (0x80 + unat v mod 64)]"
        "unat v div 262144 = unat (b AND 0x07)" by (simp_all add: upts)
      then show ?thesis using t four s utf8_bytes(4) [OF four(1)] Cons by (simp add: utf8_def take_Cons')
    qed
  qed
qed

section \<open>Labels\<close>

lemma utf8_tail_no_fault: "n \<le> length bs \<Longrightarrow> utf8_tail n v bs \<noteq> Fault"
  by (induction n v bs rule: utf8_tail.induct) auto

lemma DecodeUtf8CodePoint_no_fault [no_fault]: "DecodeUtf8CodePoint bs \<noteq> Fault"
  by (cases bs) (auto simp: DecodeUtf8CodePoint_def Let_def rbind_eq_Fault utf8_tail_no_fault Suc_le_eq split: if_splits)

declare label_code_points.simps [simp del]

definition label_point :: "ULONG \<Rightarrow> bool" where
  "label_point c \<longleftrightarrow> scalar_value (unat c) \<and> c \<noteq> 46 \<and> (c < 0x80 \<longrightarrow> IsValidDnsLabelByte (ucast c))"

lemma label_code_points_cases:
  assumes "count + length label \<le> length arr"
  shows "case label_code_points label arr count na of
      Ok (arr', count', na') \<Rightarrow> \<exists>cs. label = concat (map (\<lambda>c. utf8 (unat c)) cs) \<and> list_all label_point cs \<and>
        take count' arr' = take count arr @ cs \<and> (na' \<longleftrightarrow> na \<or> (\<exists>c \<in> set cs. \<not> c < 0x80))
    | Err _ \<Rightarrow> True | Fault \<Rightarrow> False"
  using assms
proof (induction label arr count na rule: label_code_points.induct)
  case (1 label arr count na)
  show ?case
  proof (cases "label = []")
    case True
    then show ?thesis by (simp add: label_code_points.simps)
  next
    case False
    show ?thesis
    proof (cases "DecodeUtf8CodePoint label")
      case (Ok r)
      obtain c n where r: "r = (c, n)" by fastforce
      note d = DecodeUtf8CodePoint_utf8 [OF Ok [unfolded r]] DecodeUtf8CodePoint_advances [OF Ok [unfolded r]]
      let ?P = "c = 46 \<or> c < 0x80 \<and> \<not> IsValidDnsLabelByte (ucast c)"
      show ?thesis
      proof (cases ?P)
        case True
        then show ?thesis using False Ok r by (auto simp: label_code_points.simps [of label])
      next
        case good: False
        have len: "count < length arr" using 1(2) False by (cases label) auto
        let ?rest = "label_code_points (drop n label) (arr[count := c]) (count + 1) (na \<or> \<not> c < 0x80)"
        have eq: "label_code_points label arr count na = ?rest"
          using False Ok r good len by (auto simp: label_code_points.simps [of label])
        have ih: "case ?rest of
            Ok (arr', count', na') \<Rightarrow> \<exists>cs. drop n label = concat (map (\<lambda>c. utf8 (unat c)) cs) \<and> list_all label_point cs \<and>
              take count' arr' = take (count + 1) (arr[count := c]) @ cs \<and>
              (na' \<longleftrightarrow> (na \<or> \<not> c < 0x80) \<or> (\<exists>c \<in> set cs. \<not> c < 0x80))
          | Err _ \<Rightarrow> True | Fault \<Rightarrow> False"
        proof -
          have g: "c \<noteq> 46" "\<not> (c < 0x80 \<and> \<not> IsValidDnsLabelByte (ucast c))" using good by auto
          have room: "count + 1 + length (drop n label) \<le> length (arr[count := c])"
            using 1(2) d(2) by (simp only: length_drop length_list_update) linarith
          show ?thesis by (rule 1(1) [OF False Ok [unfolded r] refl, unfolded fst_conv snd_conv, OF g wr_Ok [OF len] room])
        qed
        have split: "label = utf8 (unat c) @ drop n label" using d(1) append_take_drop_id [of n label] by simp
        have tk: "take (count + 1) (arr[count := c]) = take count arr @ [c]" using len by (simp add: take_Suc_conv_app_nth)
        have good': "label_point c" using good d(1) by (auto simp: label_point_def)
        show ?thesis
        proof (cases ?rest)
          case (Ok x)
          obtain arr' count' na' where x: "x = (arr', count', na')" by (metis prod_cases3)
          from ih Ok x tk obtain cs where cs: "drop n label = concat (map (\<lambda>c. utf8 (unat c)) cs)" "list_all label_point cs"
            "take count' arr' = take count arr @ c # cs" "na' \<longleftrightarrow> (na \<or> \<not> c < 0x80) \<or> (\<exists>c \<in> set cs. \<not> c < 0x80)"
            by auto
          have "label = concat (map (\<lambda>c. utf8 (unat c)) (c # cs)) \<and> list_all label_point (c # cs)"
            using split cs(1,2) good' by simp
          then have "\<exists>cs. label = concat (map (\<lambda>c. utf8 (unat c)) cs) \<and> list_all label_point cs \<and>
              take count' arr' = take count arr @ cs \<and> (na' \<longleftrightarrow> na \<or> (\<exists>c \<in> set cs. \<not> c < 0x80))"
            using cs(3,4) by (intro exI [of _ "c # cs"]) auto
          then show ?thesis using eq Ok x by simp
        qed (use ih eq in auto)
      qed
    next
      case (Err e)
      then show ?thesis using False by (simp add: label_code_points.simps [of label])
    next
      case Fault
      have "DecodeUtf8CodePoint label \<noteq> Fault" by (rule DecodeUtf8CodePoint_no_fault)
      then show ?thesis using Fault by simp
    qed
  qed
qed

text \<open>The text that is written for the code points of a label.\<close>

definition host_byte :: "UCHAR \<Rightarrow> bool" where
  "host_byte c \<longleftrightarrow> dns_byte c \<or> c = 45"

definition encodes :: "ULONG list \<Rightarrow> bytes \<Rightarrow> bool" where
  "encodes cs t \<longleftrightarrow>
     list_all host_byte t \<and>
     (if \<forall>c \<in> set cs. c < 0x80 then map unat t = map lower_point cs
      else \<exists>ext. t = PunycodePrefix @ ext \<and> puny_decode ext = Some (map lower_point cs))"

lemma label_byte_lower: "IsValidDnsLabelByte b \<Longrightarrow> host_byte (ToLowerAscii b)"
proof -
  have "IsValidDnsLabelByte b \<longrightarrow> host_byte (ToLowerAscii b)" by (rule byte_exhaust [of _ b]) code_simp
  then show "IsValidDnsLabelByte b \<Longrightarrow> host_byte (ToLowerAscii b)" by blast
qed

lemma host_byte_prefix: "list_all host_byte PunycodePrefix"
  by code_simp

lemma dns_host: "list_all dns_byte s \<Longrightarrow> list_all host_byte s \<and> 45 \<notin> set s"
  by (auto simp: list_all_iff host_byte_def dns_byte_def)

lemma puny_decode_split:
  assumes "list_all dns_byte s" "basic = [] \<longrightarrow> sep = []" "basic \<noteq> [] \<longrightarrow> sep = [45]"
  shows "puny_decode (basic @ sep @ s) = puny_loop s 128 0 72 (map unat basic)"
proof -
  have s: "45 \<notin> set (rev s)" using dns_host [OF assms(1)] by simp
  show ?thesis
  proof (cases "basic = []")
    case True
    have "list_all (\<lambda>c. c \<noteq> 45) (rev s)" using s by (auto simp: list_all_iff)
    note t = takeWhile_eq_self [OF this] dropWhile_eq_Nil [OF this]
    show ?thesis using True assms(2) by (simp add: puny_decode_def Let_def t)
  next
    case False
    then have "rev (basic @ sep @ s) = rev s @ 45 # rev basic" using assms(3) by simp
    moreover have "takeWhile (\<lambda>c. c \<noteq> 45) (rev s @ 45 # rev basic) = rev s"
      "dropWhile (\<lambda>c. c \<noteq> 45) (rev s @ 45 # rev basic) = 45 # rev basic"
      by (rule takeWhile_neq_stop [OF s], rule dropWhile_neq_stop [OF s])
    ultimately show ?thesis unfolding puny_decode_def Let_def by simp
  qed
qed

lemma encode_points_outcome:
  fixes cs :: "ULONG list" and dest :: bytes
  defines "lower \<equiv> \<lambda>c. ToLowerAscii (ucast c)" and "basic \<equiv> filter (\<lambda>c. c < 0x80) cs"
  assumes cs: "list_all label_point cs" and len: "length dest < 2 ^ 32 - 1"
  shows "outcome dest [] (if \<not> (\<exists>c \<in> set cs. \<not> c < 0x80) then append_chars (map lower cs) (dest, 0)
      else andthen (append_chars PunycodePrefix (dest, 0)) (\<lambda>w _.
           andthen (append_chars (map lower basic) w) (\<lambda>w _.
           andthen (if length basic \<noteq> 0 then AppendOutputChar 45 w else (w, Ok ())) (\<lambda>w _.
             punycode_loop cs (length basic) 128 0 72 (length basic) w)))) (\<lambda>_ t. encodes cs t)"
proof (cases "\<exists>c \<in> set cs. \<not> c < 0x80")
  case False
  have "host_byte (lower c)" "unat (lower c) = lower_point c" if "c \<in> set cs" for c
    using that cs False label_byte_lower [of "ucast c"]
    by (auto simp: lower_def lower_point_def label_point_def list_all_iff)
  then have "encodes cs (map lower cs)" using False by (simp add: encodes_def list_all_iff)
  then show ?thesis using False outcome_mono [OF append_chars_outcome [OF stored_start, of dest "map lower cs"]] by simp
next
  case True
  let ?b = "map lower basic"
  have low: "list_all host_byte ?b" "map unat ?b = map lower_point basic"
    using cs label_byte_lower by (auto simp: lower_def basic_def lower_point_def label_point_def list_all_iff)
  have start: "between cs 128 (length basic) 0 72 (length basic) (128, 0, 72, map unat ?b)"
    unfolding low(2) by (simp add: between_def basic_def)
  have loop: "outcome dest (PunycodePrefix @ ?b @ sep) (punycode_loop cs (length basic) 128 0 72 (length basic) w)
      (\<lambda>_ s. encodes cs (PunycodePrefix @ ?b @ sep @ s))"
    if w: "stored dest w (PunycodePrefix @ ?b @ sep)" and sep: "sep = (if basic = [] then [] else [45])" for w sep
  proof (rule outcome_mono [OF punycode_loop_outcome [OF w start _ _ _ len]])
    fix s
    assume s: "list_all dns_byte s \<and> (\<exists>nd i b. reads s (128, 0, 72, map unat ?b) (nd, i, b, map lower_point cs))"
    then have "puny_loop s 128 0 72 (map unat ?b) = Some (map lower_point cs)"
      by (auto simp: reads_def puny_loop.simps [of "[]"] dest: spec [of _ "[]"])
    then have "puny_decode (?b @ sep @ s) = Some (map lower_point cs)"
      using puny_decode_split [of s ?b sep] s sep by (simp split: if_splits)
    then show "encodes cs (PunycodePrefix @ ?b @ sep @ s)"
      unfolding encodes_def using True low(1) s dns_host [of s] host_byte_prefix sep by (auto simp: host_byte_def)
  qed auto
  have sep: "outcome dest (PunycodePrefix @ ?b) (andthen (if length basic \<noteq> 0 then AppendOutputChar 45 w else (w, Ok ())) (\<lambda>w _.
      punycode_loop cs (length basic) 128 0 72 (length basic) w)) (\<lambda>_ s. encodes cs (PunycodePrefix @ ?b @ s))"
    if w: "stored dest w (PunycodePrefix @ ?b)" for w
    using loop [of _ "if basic = [] then [] else [45]"] w
    by (intro outcome_andthen [where Q = "\<lambda>_ s. s = (if basic = [] then [] else [45])"])
       (auto intro: outcome_Ok AppendOutputChar_outcome [OF w])
  have "outcome dest [] (andthen (append_chars PunycodePrefix (dest, 0)) (\<lambda>w _.
      andthen (append_chars ?b w) (\<lambda>w _. andthen (if length basic \<noteq> 0 then AppendOutputChar 45 w else (w, Ok ())) (\<lambda>w _.
        punycode_loop cs (length basic) 128 0 72 (length basic) w)))) (\<lambda>_ t. encodes cs t)"
    by (rule outcome_andthen [OF append_chars_outcome [OF stored_start]],
        rule outcome_andthen [OF append_chars_outcome], assumption)
       (use sep in auto)
  then show ?thesis using True by simp
qed

lemma stored_take: "stored dest w t \<Longrightarrow> take (length t) (fst w) = t"
  by (simp add: stored_def overlay_def)

lemma PunycodeEncodeLabel_cases:
  assumes len: "length dest < 2 ^ 32 - 1" and r: "PunycodeEncodeLabel granted label dest = (dest', r)"
  shows "length dest' = length dest \<and>
    (case r of
       Ok n \<Rightarrow> \<exists>cs t. label = concat (map (\<lambda>c. utf8 (unat c)) cs) \<and> list_all label_point cs \<and> encodes cs t \<and>
         stored dest (dest', n) t \<and> n \<le> 63
     | Err _ \<Rightarrow> True | Fault \<Rightarrow> False)"
proof (cases "label = [] \<or> \<not> granted")
  case True
  then show ?thesis using r by (cases "label = []") (auto simp: PunycodeEncodeLabel_def)
next
  case False
  let ?l = "label_code_points label (replicate (length label) 0) 0 False"
  have c: "case ?l of
      Ok (arr', count', na') \<Rightarrow> \<exists>cs. label = concat (map (\<lambda>c. utf8 (unat c)) cs) \<and> list_all label_point cs \<and>
        take count' arr' = take 0 (replicate (length label) 0) @ cs \<and> (na' \<longleftrightarrow> False \<or> (\<exists>c \<in> set cs. \<not> c < 0x80))
    | Err _ \<Rightarrow> True | Fault \<Rightarrow> False"
    by (rule label_code_points_cases) simp
  show ?thesis
  proof (cases ?l)
    case (Ok x)
    obtain arr count na where x: "x = (arr, count, na)" by (metis prod_cases3)
    from c Ok x obtain cs where cs: "label = concat (map (\<lambda>c. utf8 (unat c)) cs)" "list_all label_point cs"
      "take count arr = cs" "na \<longleftrightarrow> (\<exists>c \<in> set cs. \<not> c < 0x80)" by auto
    let ?lower = "\<lambda>c :: ULONG. ToLowerAscii (ucast c)" and ?basic = "filter (\<lambda>c. c < 0x80) cs"
    let ?r = "if \<not> (\<exists>c \<in> set cs. \<not> c < 0x80) then append_chars (map ?lower cs) (dest, 0)
      else andthen (append_chars PunycodePrefix (dest, 0)) (\<lambda>w _.
           andthen (append_chars (map ?lower ?basic) w) (\<lambda>w _.
           andthen (if length ?basic \<noteq> 0 then AppendOutputChar 45 w else (w, Ok ())) (\<lambda>w _.
             punycode_loop cs (length ?basic) 128 0 72 (length ?basic) w)))"
    let ?e = "andthen ?r (\<lambda>w _. if snd w \<le> 63 then (w, Ok (snd w)) else (w, Err STATUS_INVALID_PARAMETER))"
    have e: "PunycodeEncodeLabel granted label dest = (fst (fst ?e), snd ?e)"
      unfolding PunycodeEncodeLabel_def using False Ok x cs(3,4)
      by (simp only: Let_def res.case prod.case if_False simp_thms) (simp add: case_prod_beta)
    have "outcome dest [] ?e (\<lambda>n t. encodes cs t \<and> n = length t \<and> n \<le> 63)"
      by (rule outcome_andthen [OF encode_points_outcome [OF cs(2) len]])
         (auto intro!: outcome_Ok outcome_Err dest: stored_length)
    then have o: "outcome dest [] (fst ?e, snd ?e) (\<lambda>n t. encodes cs t \<and> n = length t \<and> n \<le> 63)" by simp
    have d: "dest' = fst (fst ?e)" "r = snd ?e" using r e by simp_all
    show ?thesis
    proof (cases r)
      case (Ok n)
      then obtain t where t: "stored dest (fst ?e) t" "encodes cs t" "n = length t" "n \<le> 63"
        using o d(2) by (auto simp: outcome_def)
      then have "(dest', n) = fst ?e" using d(1) by (simp add: stored_def)
      then have "stored dest (dest', n) t" using t(1) by simp
      then show ?thesis using Ok t cs(1,2) stored_length [of dest "(dest', n)" t] by auto
    qed (use o d in \<open>auto simp: outcome_def\<close>)
  qed (use c r False in \<open>auto simp: PunycodeEncodeLabel_def\<close>)
qed

section \<open>Host names\<close>

text \<open>
  What it means for \<open>t\<close> to be the ASCII form of a label \<open>l\<close>: the label is well-formed UTF-8, and \<open>t\<close> is its
  text in lower case, or the prefix and a text that the decoder of RFC 3492 reads as the code points of the label.
  An empty label stands after a final dot.
\<close>

definition lower_code :: "nat \<Rightarrow> nat" where
  "lower_code u = (if 65 \<le> u \<and> u \<le> 90 then u + 32 else u)"

definition ascii_form :: "bytes \<Rightarrow> bytes \<Rightarrow> bool" where
  "ascii_form l t \<longleftrightarrow> l = [] \<and> t = [] \<or>
     (\<exists>us. l = concat (map utf8 us) \<and> list_all scalar_value us \<and> list_all host_byte t \<and> length t \<le> 63 \<and>
        (if list_all (\<lambda>u. u < 128) us then map unat t = map lower_code us
         else \<exists>ext. t = PunycodePrefix @ ext \<and> puny_decode ext = Some (map lower_code us)))"

fun dotted :: "bytes list \<Rightarrow> bytes" where
  "dotted [] = []"
| "dotted [l] = l"
| "dotted (l # m # ls) = l @ 46 # dotted (m # ls)"

lemma lower_point_code: "lower_point c = lower_code (unat c)"
proof (cases "c < 0x80")
  case True
  have "\<forall>b :: UCHAR. unat (ToLowerAscii b) = lower_code (unat b)"
    by (rule allI, rule byte_exhaust) code_simp
  moreover have "unat (ucast c :: UCHAR) = unat c" using True by (simp add: unsigned_ucast_eq take_bit_nat_eq_self word_less_nat_alt)
  ultimately show ?thesis using True by (metis lower_point_def)
next
  case False
  then show ?thesis by (auto simp: lower_point_def lower_code_def word_less_nat_alt)
qed

lemma ascii_formI:
  assumes "label = concat (map (\<lambda>c. utf8 (unat c)) cs)" "list_all label_point cs" "encodes cs t" "length t \<le> 63"
  shows "ascii_form label t"
proof -
  let ?us = "map unat cs"
  have ascii: "list_all (\<lambda>u. u < 128) ?us \<longleftrightarrow> (\<forall>c \<in> set cs. c < 0x80)"
    by (simp add: list_all_iff word_less_nat_alt)
  have low: "map lower_point cs = map lower_code ?us" by (simp add: lower_point_code)
  have "if list_all (\<lambda>u. u < 128) ?us then map unat t = map lower_code ?us
      else \<exists>ext. t = PunycodePrefix @ ext \<and> puny_decode ext = Some (map lower_code ?us)"
    using assms(3) unfolding encodes_def ascii low by (rule conjunct2)
  moreover have "label = concat (map utf8 ?us)" using assms(1) by (simp add: comp_def)
  moreover have "list_all scalar_value ?us" using assms(2) by (simp add: list_all_iff label_point_def)
  moreover have "list_all host_byte t" using assms(3) by (simp add: encodes_def)
  ultimately show ?thesis using assms(4) unfolding ascii_form_def by blast
qed

definition host_form :: "bytes \<Rightarrow> bytes \<Rightarrow> bool" where
  "host_form host t \<longleftrightarrow> list_all (\<lambda>c. host_byte c \<or> c = 46) t \<and>
     (\<exists>ls ts. host = dotted ls \<and> t = dotted ts \<and> list_all2 ascii_form ls ts)"

lemma stored_extend:
  assumes "stored dest w t" "stored (drop (snd w) (fst w)) (tail, n) s"
  shows "stored dest (take (snd w) (fst w) @ tail, snd w + n) (t @ s)"
proof -
  have w: "w = (overlay dest 0 t, length t)" "length t \<le> length dest" using assms(1) by (simp_all add: stored_def)
  then have "drop (snd w) (fst w) = drop (length t) dest" "take (snd w) (fst w) = t" by (simp_all add: overlay_def)
  then show ?thesis using assms(2) w by (auto simp: stored_def overlay_def add.commute)
qed

lemma host_form_label:
  assumes "ascii_form l s" "list_all host_byte s" "host_form host t" "l \<noteq> []" "host \<noteq> []"
  shows "host_form (l @ 46 # host) (s @ 46 # t)"
proof -
  from assms(3) obtain ls ts where d: "host = dotted ls" "t = dotted ts" "list_all2 ascii_form ls ts"
    and t: "list_all (\<lambda>c. host_byte c \<or> c = 46) t"
    by (auto simp: host_form_def)
  then obtain m ls' u ts' where "ls = m # ls'" "ts = u # ts'" using assms(5)
    by (cases ls; cases ts) auto
  then show ?thesis unfolding host_form_def using d assms(1,2) t
    by (intro conjI exI [of _ "l # ls"] exI [of _ "s # ts"]) (auto simp: list_all_iff)
qed

declare normalize_labels.simps [simp del]

lemma normalize_labels_outcome:
  assumes "stored dest w t" "length dest < 2 ^ 32 - 1"
  shows "outcome dest t (normalize_labels granted i host w) (\<lambda>_ s. if host = [] then s = [] else host_form host s)"
  using assms(1)
proof (induction granted i host w arbitrary: t rule: normalize_labels.induct)
  case (1 granted i host w)
  let ?l = "takeWhile (\<lambda>c. c \<noteq> 46) host" and ?rest = "dropWhile (\<lambda>c. c \<noteq> 46) host"
  note st = 1(3)
  show ?case
  proof (cases "host = [] \<or> ?l = []")
    case True
    then show ?thesis using st by (auto simp: normalize_labels.simps [of granted] outcome_Ok outcome_Err)
  next
    case False
    obtain tail r where e: "PunycodeEncodeLabel (granted i) ?l (drop (snd w) (fst w)) = (tail, r)" by fastforce
    have "length (drop (snd w) (fst w)) < 2 ^ 32 - 1" using stored_length [OF st] assms(2) by simp
    note c = PunycodeEncodeLabel_cases [OF this e]
    let ?w = "take (snd w) (fst w) @ tail"
    let ?k = "\<lambda>w written. let w = (fst w, snd w + written)
      in if ?rest \<noteq> [] then andthen (AppendOutputChar 46 w) (\<lambda>w _. normalize_labels granted (i + 1) (tl ?rest) w)
         else normalize_labels granted (i + 1) ?rest w"
    have eq: "normalize_labels granted i host w = andthen ((?w, snd w), r) ?k"
      using False e by (simp add: normalize_labels.simps [of granted i host] Let_def)
    show ?thesis
    proof (cases r)
      case (Ok n)
      then obtain cs s where s: "?l = concat (map (\<lambda>c. utf8 (unat c)) cs)" "list_all label_point cs" "encodes cs s"
        "stored (drop (snd w) (fst w)) (tail, n) s" "n \<le> 63" using c by auto
      note w' = stored_extend [OF st s(4)]
      have "length s \<le> 63" using s(4,5) by (simp add: stored_def)
      then have form: "ascii_form ?l s" "list_all host_byte s" using ascii_formI s(1-3) by (auto simp: encodes_def)
      let ?W = "(?w, snd w + n)" and ?Q = "\<lambda>s'. host_form host (s @ s')"
      have "outcome dest (t @ s) (?k (?w, snd w) n) (\<lambda>_ s'. ?Q s')"
      proof (cases "?rest = []")
        case True
        then have "host = ?l" by (metis append.right_neutral takeWhile_dropWhile_id)
        then have "ascii_form host s" using form by simp
        then have "?Q []" unfolding host_form_def using form(2)
          by (intro conjI exI [of _ "[host]"] exI [of _ "[s]"]) (auto simp: list_all_iff)
        have "normalize_labels granted (i + 1) [] ?W = (?W, Ok ())" by (simp add: normalize_labels.simps)
        then have "?k (?w, snd w) n = (?W, Ok ())" unfolding True by simp
        then show ?thesis using outcome_Ok [OF w', of "\<lambda>_. ?Q" "()"] \<open>?Q []\<close> by simp
      next
        case dot: False
        then obtain host' where h: "?rest = 46 # host'" using hd_dropWhile [of "\<lambda>c. c \<noteq> 46" host] by (cases ?rest) auto
        have tl_rest: "tl ?rest = host'" using h by simp
        have host: "host = ?l @ 46 # host'" using takeWhile_dropWhile_id [of "\<lambda>c. c \<noteq> 46" host] h by simp
        have end': "host_form (?l @ [46]) (s @ [46])" unfolding host_form_def using form
          by (intro conjI exI [of _ "[?l, []]"] exI [of _ "[s, []]"]) (auto simp: list_all_iff ascii_form_def)
        have "outcome dest (t @ s) (andthen (AppendOutputChar 46 ?W) (\<lambda>w _. normalize_labels granted (i + 1) host' w)) (\<lambda>_ s'. ?Q s')"
        proof (rule outcome_andthen [OF AppendOutputChar_outcome [OF w']])
          fix w2 u s2
          assume w2: "stored dest w2 ((t @ s) @ s2)" and s2: "s2 = [46]"
          have "outcome dest ((t @ s) @ s2) (normalize_labels granted (i + 1) host' w2) (\<lambda>_ s'. if host' = [] then s' = [] else host_form host' s')"
            using 1(1) [OF _ refl refl _ e [symmetric] refl dot, unfolded tl_rest, of w2 "(t @ s) @ s2"] False w2
            by blast
          then show "outcome dest ((t @ s) @ s2) (normalize_labels granted (i + 1) host' w2) (\<lambda>_ s'. ?Q (s2 @ s'))"
          proof (rule outcome_mono)
            fix s'
            assume "if host' = [] then s' = [] else host_form host' s'"
            then show "?Q (s2 @ s')"
              using host_form_label [OF form, of host' s'] end' host s2 False by (cases "host' = []") auto
          qed
        qed
        then show ?thesis using dot h by (simp add: Let_def)
      qed
      then have "outcome dest t (?k (?w, snd w) n) (\<lambda>_ s'. host_form host s')"
        by (auto simp: outcome_def split: res.splits)
      then show ?thesis using eq Ok False by simp
    next
      case (Err x)
      then show ?thesis using eq c stored_length [OF st] by (simp add: outcome_def)
    next
      case Fault
      then show ?thesis using c by simp
    qed
  qed
qed

lemma NormalizeDnsHost_cases:
  assumes len: "length dest < 2 ^ 32 - 1" and r: "NormalizeDnsHost granted host dest = (dest', r)"
  shows "length dest' = length dest \<and>
    (case r of
       Ok n \<Rightarrow> 0 < n \<and> n \<le> 255 \<and> n < length dest \<and> dest' ! n = 0 \<and> host_form host (take n dest')
     | Err _ \<Rightarrow> True | Fault \<Rightarrow> False)"
proof (cases "host = [] \<or> dest = []")
  case True
  then show ?thesis using r by (auto simp: NormalizeDnsHost_def)
next
  case False
  obtain w s where w: "normalize_labels granted 0 host (dest, 0) = (w, s)" by fastforce
  have o: "outcome dest [] (w, s) (\<lambda>_ t. host_form host t)"
    using normalize_labels_outcome [OF stored_start len, of granted 0 host] False w by simp
  show ?thesis
  proof (cases s)
    case (Ok u)
    then obtain t where t: "stored dest w t" "host_form host t" using o by (auto simp: outcome_def)
    note l = stored_length [OF t(1)] and tk = stored_take [OF t(1)]
    show ?thesis
    proof (cases "length t = 0 \<or> length t > 255 \<or> length dest \<le> length t")
      case True
      then show ?thesis using r w Ok False l by (auto simp: NormalizeDnsHost_def Let_def)
    next
      case ok: False
      then have "dest' = (fst w)[length t := 0]" "r = Ok (length t)"
        using r w Ok False l by (auto simp: NormalizeDnsHost_def Let_def)
      then show ?thesis using ok l tk t(2) by simp
    qed
  qed (use r w o False in \<open>auto simp: NormalizeDnsHost_def outcome_def\<close>)
qed

text \<open>
  C38: International host names: when \<open>NormalizeDnsHost\<close> accepts a host, the host is a dotted sequence of
  well-formed UTF-8 labels (without overlong forms or surrogates), and the text it stores is the dotted
  sequence of their ASCII forms: the label itself in lower case, or \<open>xn--\<close> followed by a Punycode text that the
  decoder of RFC 3492 reads back as the code points of the label. Each label has at most 63 bytes, the
  name has at most 255, and it is closed by a zero inside the buffer.
\<close>

theorem NormalizeDnsHost_idna:
  assumes "length dest < 2 ^ 32 - 1" and "NormalizeDnsHost granted host dest = (dest', Ok n)"
  shows "0 < n \<and> n \<le> 255 \<and> n < length dest' \<and> dest' ! n = 0 \<and> length dest' = length dest \<and>
    (\<exists>ls ts. host = dotted ls \<and> take n dest' = dotted ts \<and> list_all2 ascii_form ls ts)"
  using NormalizeDnsHost_cases [OF assms] by (auto simp: host_form_def)

lemma sample_host:
  "NormalizeDnsHost (\<lambda>_. True) [0x62, 0xc3, 0xbc, 0x63, 0x68, 0x65, 0x72, 46, 0x64, 0x65] (replicate 20 0) =
     (lit ''xn--bcher-kva.de'' @ replicate 4 0, Ok 16)"
  by code_simp

theorem NormalizeDnsHost_idna_witness:
  "NormalizeDnsHost (\<lambda>_. True) [0x62, 0xc3, 0xbc, 0x63, 0x68, 0x65, 0x72, 46, 0x64, 0x65] (replicate 20 0) =
     (lit ''xn--bcher-kva.de'' @ replicate 4 0, Ok 16) \<and>
   (\<exists>ls ts. [0x62, 0xc3, 0xbc, 0x63, 0x68, 0x65, 0x72, 46, 0x64, 0x65] = dotted ls \<and>
      take 16 (lit ''xn--bcher-kva.de'' @ replicate 4 0) = dotted ts \<and> list_all2 ascii_form ls ts)"
proof -
  have "length (replicate 20 (0 :: UCHAR)) < 2 ^ 32 - 1" by simp
  from NormalizeDnsHost_idna [OF this sample_host] show ?thesis using sample_host by blast
qed

end
