(* ===== verification/Kh_UrlParser.thy ===== *)
theory Kh_UrlParser
  imports Kh_Punycode
begin

text \<open>
  The URL parser, the second half of \<^verbatim>\<open>engine/UrlParser.cpp\<close>: the checks of host and target texts, the
  port, and the two entry points \<open>ParseUrlIntoRequest\<close> (for the engine's requests) and \<open>ParseUrlParts\<close> (for
  WebSocket URLs), which have the same body up to the schemes they accept and the sizes of their buffers.
  Positions in the URL are indices; a pointer \<open>url + i\<close> with a length is the slice there.
  Every access to the URL goes through the checked \<open>rd\<close> or stays below a bound that is tested.
\<close>

section \<open>Texts\<close>

definition UrlTextEqualsIgnoreCase :: "bytes \<Rightarrow> bytes \<Rightarrow> bool" where
  "UrlTextEqualsIgnoreCase left right \<longleftrightarrow>
     (if length left \<noteq> length right then False else text_equal_loop left right)"

definition UrlTextEqualsLiteralIgnoreCase :: "bytes \<Rightarrow> string \<Rightarrow> bool" where
  "UrlTextEqualsLiteralIgnoreCase left right \<longleftrightarrow> UrlTextEqualsIgnoreCase left (lit right)"

fun IsValidRequestTargetText :: "bytes \<Rightarrow> bool" where
  "IsValidRequestTargetText [] = True"
| "IsValidRequestTargetText (c # cs) =
     (if \<not> IsValidRequestTargetByte c then False
      else if c = 37
      then case cs of h1 # h2 # rest \<Rightarrow> if \<not> IsHexDigit h1 \<or> \<not> IsHexDigit h2 then False else IsValidRequestTargetText rest
           | _ \<Rightarrow> False
      else IsValidRequestTargetText cs)"

definition IsValidHostText :: "bytes \<Rightarrow> bool \<Rightarrow> bool" where
  "IsValidHostText bs ipv6Literal \<longleftrightarrow>
     bs \<noteq> [] \<and> list_all (\<lambda>ch. \<not> (ch \<le> 0x20 \<or> ch = 0x7f \<or> ch = 37) \<and> \<not> (ipv6Literal \<and> ch \<ge> 0x80) \<and>
       \<not> (\<not> ipv6Literal \<and> (ch = 91 \<or> ch = 93))) bs"

definition UrlTextContainsChar :: "bytes \<Rightarrow> UCHAR \<Rightarrow> bool" where
  "UrlTextContainsChar bs needle \<longleftrightarrow> list_ex (\<lambda>c. c = needle) bs"

definition AuthorityContainsUserInfo :: "bytes \<Rightarrow> bool" where
  "AuthorityContainsUserInfo authority \<longleftrightarrow> UrlTextContainsChar authority 64"

text \<open>A text is stored with a zero behind it; \<open>store_text\<close> is the copy and the zero.\<close>

definition store_text :: "bytes \<Rightarrow> bytes \<Rightarrow> bytes res" where
  "store_text destination bs =
     (if length bs < length destination then Ok (overlay destination 0 (bs @ [0])) else Fault)"

definition CopyLowerText :: "bytes \<Rightarrow> bytes \<Rightarrow> bytes \<times> nat res" where
  "CopyLowerText source destination =
     (if source = [] \<or> length destination \<le> length source then (destination, Err STATUS_INVALID_PARAMETER)
      else case store_text destination (map ToLowerAscii source) of
             Ok d \<Rightarrow> (d, Ok (length source)) | Err s \<Rightarrow> (destination, Err s) | Fault \<Rightarrow> (destination, Fault))"

definition CopyNormalizedHostText :: "(nat \<Rightarrow> bool) \<Rightarrow> bytes \<Rightarrow> bool \<Rightarrow> bytes \<Rightarrow> bytes \<times> nat res" where
  "CopyNormalizedHostText granted source ipv6Literal destination =
     (if ipv6Literal then CopyLowerText source destination else NormalizeDnsHost granted source destination)"

fun parse_port_loop :: "ULONG \<Rightarrow> bytes \<Rightarrow> ULONG res" where
  "parse_port_loop v [] = Ok v"
| "parse_port_loop v (c # cs) =
     (if \<not> IsDigit c then Err STATUS_INVALID_PARAMETER
      else let v = v * 10 + ucast (c - 48)
           in if v > 0xffff then Err STATUS_INVALID_PARAMETER else parse_port_loop v cs)"

definition ParsePort :: "bytes \<Rightarrow> USHORT res" where
  "ParsePort bs =
     (if bs = [] then Err STATUS_INVALID_PARAMETER
      else rbind (parse_port_loop 0 bs) (\<lambda>v. if v = 0 then Err STATUS_INVALID_PARAMETER else Ok (ucast v)))"

section \<open>The authority\<close>

text \<open>The loop over an authority without brackets: the port starts behind its only colon.\<close>

fun port_loop :: "bytes \<Rightarrow> nat \<Rightarrow> nat \<Rightarrow> nat \<Rightarrow> nat \<Rightarrow> (nat \<times> nat) res" where
  "port_loop [] index authorityStart portStart hostLength = Ok (portStart, hostLength)"
| "port_loop (c # cs) index authorityStart portStart hostLength =
     (if c = 58
      then if portStart \<noteq> 0 then Err STATUS_NOT_SUPPORTED
           else port_loop cs (index + 1) authorityStart (index + 1) (index - authorityStart)
      else port_loop cs (index + 1) authorityStart portStart hostLength)"

definition index_of :: "(UCHAR \<Rightarrow> bool) \<Rightarrow> bytes \<Rightarrow> nat \<Rightarrow> nat \<Rightarrow> nat" where
  "index_of stop url from limit = from + length (takeWhile (\<lambda>c. \<not> stop c) (take (limit - from) (drop from url)))"

definition slice_of :: "bytes \<Rightarrow> nat \<Rightarrow> nat \<Rightarrow> bytes" where
  "slice_of url start len = take len (drop start url)"

text \<open>The scheme ends at the first colon, which two slashes follow.\<close>

definition scheme_end :: "bytes \<Rightarrow> nat res" where
  "scheme_end url =
     (let schemeEnd = index_of (\<lambda>c. c = 58) url 0 (length url)
      in if schemeEnd = 0 \<or> schemeEnd + 3 > length url then Err STATUS_INVALID_PARAMETER
         else rbind (rd url (schemeEnd + 1)) (\<lambda>c1.
              if c1 \<noteq> 47 then Err STATUS_INVALID_PARAMETER
              else rbind (rd url (schemeEnd + 2)) (\<lambda>c2.
                if c2 \<noteq> 47 then Err STATUS_INVALID_PARAMETER else Ok schemeEnd)))"

record url_authority =
  AuthorityEnd :: nat
  HostStart :: nat
  AuthorityHostLength :: nat
  Ipv6Literal :: bool
  PortStart :: nat

definition bracketed_host :: "bytes \<Rightarrow> nat \<Rightarrow> nat \<Rightarrow> url_authority res" where
  "bracketed_host url authorityStart authorityEnd =
     (let bracketEnd = index_of (\<lambda>c. c = 93) url (authorityStart + 1) authorityEnd
      in if bracketEnd = authorityEnd \<or> bracketEnd = authorityStart + 1 then Err STATUS_INVALID_PARAMETER
         else
           let hostStart = authorityStart + 1; hostLength = bracketEnd - hostStart;
               a = \<lparr>AuthorityEnd = authorityEnd, HostStart = hostStart, AuthorityHostLength = hostLength,
                    Ipv6Literal = True, PortStart = 0\<rparr>
           in if \<not> UrlTextContainsChar (slice_of url hostStart hostLength) 58 then Err STATUS_INVALID_PARAMETER
              else if bracketEnd + 1 < authorityEnd
              then rbind (rd url (bracketEnd + 1)) (\<lambda>c.
                     if c \<noteq> 58 then Err STATUS_INVALID_PARAMETER else Ok (a\<lparr>PortStart := bracketEnd + 2\<rparr>))
              else Ok a)"

definition parse_authority :: "bytes \<Rightarrow> nat \<Rightarrow> url_authority res" where
  "parse_authority url schemeEnd =
     (let authorityStart = schemeEnd + 3;
          authorityEnd = index_of (\<lambda>c. c = 47 \<or> c = 63 \<or> c = 35) url authorityStart (length url)
      in if authorityEnd = authorityStart then Err STATUS_INVALID_PARAMETER
         else if AuthorityContainsUserInfo (slice_of url authorityStart (authorityEnd - authorityStart))
         then Err STATUS_NOT_SUPPORTED
         else rbind (rd url authorityStart) (\<lambda>c.
              rbind (if c = 91 then bracketed_host url authorityStart authorityEnd
                     else rbind (port_loop (slice_of url authorityStart (authorityEnd - authorityStart)) authorityStart
                                   authorityStart 0 (authorityEnd - authorityStart)) (\<lambda>(portStart, hostLength).
                          Ok \<lparr>AuthorityEnd = authorityEnd, HostStart = authorityStart, AuthorityHostLength = hostLength,
                              Ipv6Literal = False, PortStart = portStart\<rparr>)) (\<lambda>a.
                if AuthorityHostLength a = 0 then Err STATUS_INVALID_PARAMETER
                else if \<not> IsValidHostText (slice_of url (HostStart a) (AuthorityHostLength a)) (Ipv6Literal a)
                then Err STATUS_INVALID_PARAMETER
                else Ok a)))"

definition parse_port :: "bytes \<Rightarrow> url_authority \<Rightarrow> USHORT \<Rightarrow> USHORT res" where
  "parse_port url a port =
     (if PortStart a \<noteq> 0 then ParsePort (slice_of url (PortStart a) (AuthorityEnd a - PortStart a)) else Ok port)"

section \<open>The entry points\<close>

text \<open>
  The fields of \<open>KhRequest\<close> that the parser fills, with arrays of their declared sizes. The texts are stored
  while the URL is parsed, so a request that is refused may have been changed already.
\<close>

definition KhMaxSchemeLength :: nat where
  "KhMaxSchemeLength = 5"

definition KhMaxHostLength :: nat where
  "KhMaxHostLength = 255"

definition KhMaxPathLength :: nat where
  "KhMaxPathLength = 8000"

record KhRequest =
  Scheme :: bytes
  SchemeLength :: nat
  Host :: bytes
  HostLength :: nat
  Path :: bytes
  PathLength :: nat
  Port :: USHORT

text \<open>
  The request target is everything up to the fragment, with a slash before a query; an empty target is a
  slash. The slash before a query is stored before the text is checked.
\<close>

definition store_target :: "bytes \<Rightarrow> bytes \<Rightarrow> bytes \<times> nat res" where
  "store_target path target =
     (let queryOnly = (rd target 0 = Ok 63)
      in andthen (if queryOnly
                  then (case wr path 0 47 of Ok p \<Rightarrow> (p, Ok ()) | Err s \<Rightarrow> (path, Err s) | Fault \<Rightarrow> (path, Fault))
                  else (path, Ok ())) (\<lambda>path _.
           if \<not> IsValidRequestTargetText target then (path, Err STATUS_INVALID_PARAMETER)
           else let requestTarget = (if queryOnly then 47 # target else target)
                in case store_text path requestTarget of
                     Ok p \<Rightarrow> (p, Ok (length requestTarget)) | Err s \<Rightarrow> (path, Err s) | Fault \<Rightarrow> (path, Fault)))"

definition target_length :: "bytes \<Rightarrow> nat" where
  "target_length target = length target + (if rd target 0 = Ok 63 then 1 else 0)"

definition request_target :: "bytes \<Rightarrow> bytes \<Rightarrow> bytes \<times> nat res" where
  "request_target path target =
     (if target = []
      then case store_text path [47] of Ok p \<Rightarrow> (p, Ok 1) | Err s \<Rightarrow> (path, Err s) | Fault \<Rightarrow> (path, Fault)
      else if target_length target > KhMaxPathLength then (path, Err STATUS_BUFFER_TOO_SMALL)
      else store_target path target)"

definition parts_target :: "bytes \<Rightarrow> bytes \<Rightarrow> bytes \<times> nat res" where
  "parts_target path target =
     (if target = []
      then if length path < 2 then (path, Err STATUS_BUFFER_TOO_SMALL)
           else case store_text path [47] of Ok p \<Rightarrow> (p, Ok 1) | Err s \<Rightarrow> (path, Err s) | Fault \<Rightarrow> (path, Fault)
      else if target_length target \<ge> length path then (path, Err STATUS_BUFFER_TOO_SMALL)
      else store_target path target)"

definition url_target :: "bytes \<Rightarrow> url_authority \<Rightarrow> bytes" where
  "url_target url a =
     (let fragmentStart = index_of (\<lambda>c. c = 35) url (AuthorityEnd a) (length url)
      in slice_of url (AuthorityEnd a) (fragmentStart - AuthorityEnd a))"

text \<open>Scheme and host are stored last; a failed copy leaves the length zero.\<close>

definition stored_length_of :: "nat res \<Rightarrow> nat" where
  "stored_length_of r = (case r of Ok n \<Rightarrow> n | _ \<Rightarrow> 0)"

definition store_names :: "(nat \<Rightarrow> bool) \<Rightarrow> bytes \<Rightarrow> nat \<Rightarrow> url_authority \<Rightarrow> USHORT \<Rightarrow> KhRequest \<Rightarrow> KhRequest \<times> unit res" where
  "store_names granted url schemeEnd a port request =
     andthen (case CopyLowerText (take schemeEnd url) (Scheme request) of
                (d, r) \<Rightarrow> (request\<lparr>Scheme := d, SchemeLength := stored_length_of r\<rparr>, r)) (\<lambda>request _.
     andthen (case CopyNormalizedHostText granted (slice_of url (HostStart a) (AuthorityHostLength a)) (Ipv6Literal a)
                     (Host request) of
                (d, r) \<Rightarrow> (request\<lparr>Host := d, HostLength := stored_length_of r\<rparr>, r)) (\<lambda>request _.
       (request\<lparr>Port := port\<rparr>, Ok ())))"

definition ParseUrlIntoRequest :: "(nat \<Rightarrow> bool) \<Rightarrow> KhRequest \<Rightarrow> UCHAR span \<Rightarrow> KhRequest \<times> unit res" where
  "ParseUrlIntoRequest granted request urlSpan =
     (if span_null urlSpan \<or> span_len urlSpan = 0 then (request, Err STATUS_INVALID_PARAMETER)
      else
        let url = span_list urlSpan
        in andthen (request, scheme_end url) (\<lambda>request schemeEnd.
             let scheme = take schemeEnd url
             in if \<not> UrlTextEqualsLiteralIgnoreCase scheme ''http'' \<and> \<not> UrlTextEqualsLiteralIgnoreCase scheme ''https''
                then (request, Err STATUS_NOT_SUPPORTED)
                else andthen (request, parse_authority url schemeEnd) (\<lambda>request a.
                     andthen (request, parse_port url a
                       (if UrlTextEqualsLiteralIgnoreCase scheme ''https'' then 443 else 80)) (\<lambda>request port.
                     andthen (case request_target (Path request) (url_target url a) of
                                (p, r) \<Rightarrow> (request\<lparr>Path := p\<rparr>, r)) (\<lambda>request pathLength.
                       store_names granted url schemeEnd a port (request\<lparr>PathLength := pathLength\<rparr>))))))"

text \<open>
  \<open>ParseUrlParts\<close> writes to buffers of its caller, which are taken together as the fields of a request; a
  record of flags says which of its output pointers are not null. The lengths and the port that are there
  are reset before anything is checked.
\<close>

record url_outputs =
  HasScheme :: bool
  HasSchemeLength :: bool
  HasHost :: bool
  HasHostLength :: bool
  HasPath :: bool
  HasPathLength :: bool
  HasPort :: bool

definition outputs_valid :: "url_outputs \<Rightarrow> bool" where
  "outputs_valid out \<longleftrightarrow> HasScheme out \<and> HasSchemeLength out \<and> HasHost out \<and> HasHostLength out \<and> HasPath out \<and>
     HasPathLength out \<and> HasPort out"

definition reset_outputs :: "url_outputs \<Rightarrow> KhRequest \<Rightarrow> KhRequest" where
  "reset_outputs out parts =
     (let parts = (if HasSchemeLength out then parts\<lparr>SchemeLength := 0\<rparr> else parts);
          parts = (if HasHostLength out then parts\<lparr>HostLength := 0\<rparr> else parts);
          parts = (if HasPathLength out then parts\<lparr>PathLength := 0\<rparr> else parts)
      in if HasPort out then parts\<lparr>Port := 0\<rparr> else parts)"

definition ParseUrlParts :: "(nat \<Rightarrow> bool) \<Rightarrow> bool \<Rightarrow> url_outputs \<Rightarrow> KhRequest \<Rightarrow> UCHAR span \<Rightarrow> KhRequest \<times> unit res" where
  "ParseUrlParts granted websocketUrl out parts urlSpan =
     (let parts = reset_outputs out parts
      in if span_null urlSpan \<or> span_len urlSpan = 0 \<or> \<not> outputs_valid out then (parts, Err STATUS_INVALID_PARAMETER)
         else
           let url = span_list urlSpan
           in andthen (parts, scheme_end url) (\<lambda>parts schemeEnd.
                let scheme = take schemeEnd url;
                    supported =
                      (if websocketUrl
                       then UrlTextEqualsLiteralIgnoreCase scheme ''ws'' \<or> UrlTextEqualsLiteralIgnoreCase scheme ''wss''
                       else UrlTextEqualsLiteralIgnoreCase scheme ''http'' \<or> UrlTextEqualsLiteralIgnoreCase scheme ''https'')
                in if \<not> supported then (parts, Err STATUS_NOT_SUPPORTED)
                   else andthen (parts, parse_authority url schemeEnd) (\<lambda>parts a.
                        andthen (parts, parse_port url a
                          (if UrlTextEqualsLiteralIgnoreCase scheme ''https'' \<or> UrlTextEqualsLiteralIgnoreCase scheme ''wss''
                           then 443 else 80)) (\<lambda>parts port.
                        andthen (case parts_target (Path parts) (url_target url a) of
                                   (p, r) \<Rightarrow> (parts\<lparr>Path := p, PathLength := stored_length_of r\<rparr>, r)) (\<lambda>parts _.
                          store_names granted url schemeEnd a port parts)))))"

section \<open>Positions\<close>

lemma index_of_bounds:
  assumes "from \<le> limit" "limit \<le> length url"
  shows "from \<le> index_of stop url from limit" "index_of stop url from limit \<le> limit"
proof -
  have "length (takeWhile (\<lambda>c. \<not> stop c) (take (limit - from) (drop from url))) \<le> limit - from"
    using length_takeWhile_le [of "\<lambda>c. \<not> stop c" "take (limit - from) (drop from url)"] by simp
  then show "index_of stop url from limit \<le> limit" using assms by (simp add: index_of_def)
qed (simp add: index_of_def)

lemma index_of_before:
  assumes "from \<le> limit" "limit \<le> length url"
  shows "list_all (\<lambda>c. \<not> stop c) (slice_of url from (index_of stop url from limit - from))"
proof -
  let ?s = "take (limit - from) (drop from url)"
  define tw where "tw = takeWhile (\<lambda>c. \<not> stop c) ?s"
  have "length tw \<le> limit - from" using length_takeWhile_le [of "\<lambda>c. \<not> stop c" ?s] by (simp add: tw_def)
  then have "slice_of url from (index_of stop url from limit - from) = take (length tw) ?s"
    by (simp add: slice_of_def index_of_def tw_def [symmetric] min_absorb1)
  also have "\<dots> = tw" unfolding tw_def by (rule takeWhile_eq_take [symmetric])
  finally show ?thesis by (auto simp: list_all_iff tw_def dest: set_takeWhileD)
qed

lemma index_of_at:
  assumes "from \<le> limit" "limit \<le> length url" "index_of stop url from limit < limit"
  shows "stop (url ! index_of stop url from limit)"
proof -
  let ?s = "take (limit - from) (drop from url)" and ?n = "length (takeWhile (\<lambda>c. \<not> stop c) (take (limit - from) (drop from url)))"
  have n: "?n < length ?s" using assms by (simp add: index_of_def)
  then have "\<not> \<not> stop (?s ! ?n)" by (rule nth_length_takeWhile)
  then show ?thesis using n assms by (simp add: index_of_def)
qed

lemma slice_of_sub: "set (slice_of url i n) \<subseteq> set url"
  unfolding slice_of_def by (meson set_drop_subset set_take_subset order_trans)

lemma length_slice_of [simp]: "i + n \<le> length url \<Longrightarrow> length (slice_of url i n) = n"
  by (simp add: slice_of_def)

lemma scheme_end_cases:
  "case scheme_end url of Ok e \<Rightarrow> 0 < e \<and> e + 3 \<le> length url | Err _ \<Rightarrow> True | Fault \<Rightarrow> False"
proof -
  let ?e = "index_of (\<lambda>c. c = 58) url 0 (length url)"
  show ?thesis
    by (cases "?e = 0 \<or> ?e + 3 > length url") (auto simp: scheme_end_def Let_def)
qed

definition authority_ok :: "bytes \<Rightarrow> url_authority \<Rightarrow> bool" where
  "authority_ok url a \<longleftrightarrow>
     AuthorityEnd a \<le> length url \<and> HostStart a + AuthorityHostLength a \<le> AuthorityEnd a \<and> 0 < AuthorityHostLength a \<and>
     PortStart a \<le> AuthorityEnd a \<and>
     (AuthorityEnd a < length url \<longrightarrow> url ! AuthorityEnd a \<in> {47, 63, 35}) \<and>
     IsValidHostText (slice_of url (HostStart a) (AuthorityHostLength a)) (Ipv6Literal a)"

lemma port_loop_no_fault: "port_loop cs index start portStart hostLength \<noteq> Fault"
  by (induction cs index start portStart hostLength rule: port_loop.induct) auto

lemma port_loop_Ok:
  assumes "port_loop cs index start portStart hostLength = Ok (p, h)"
    "start \<le> index" "portStart \<le> index" "hostLength \<le> index + length cs - start"
  shows "p \<le> index + length cs \<and> h \<le> index + length cs - start"
  using assms by (induction cs index start portStart hostLength rule: port_loop.induct) (auto split: if_splits)

lemma parse_authority_cases:
  assumes "schemeEnd + 3 \<le> length url"
  shows "case parse_authority url schemeEnd of Ok a \<Rightarrow> authority_ok url a | Err _ \<Rightarrow> True | Fault \<Rightarrow> False"
proof -
  let ?s = "schemeEnd + 3" and ?stop = "\<lambda>c. c = 47 \<or> c = 63 \<or> c = 35"
  let ?e = "index_of ?stop url ?s (length url)"
  note e = index_of_bounds [OF assms order_refl, of ?stop]
  have at: "?e < length url \<Longrightarrow> url ! ?e \<in> {47, 63, 35}" using index_of_at [OF assms order_refl, of ?stop] by auto
  show ?thesis
  proof (cases "?e = ?s \<or> AuthorityContainsUserInfo (slice_of url ?s (?e - ?s))")
    case True
    then show ?thesis by (auto simp: parse_authority_def Let_def)
  next
    case False
    then have lt: "?s < ?e" "?s < length url" using e by auto
    let ?b = "index_of (\<lambda>c. c = 93) url (?s + 1) ?e"
    have b: "?s + 1 \<le> ?b" "?b \<le> ?e" using index_of_bounds [of "?s + 1" ?e url] lt e by auto
    have br: "case bracketed_host url ?s ?e of
        Ok a \<Rightarrow> AuthorityEnd a = ?e \<and> HostStart a + AuthorityHostLength a \<le> ?e \<and> PortStart a \<le> ?e | Err _ \<Rightarrow> True | Fault \<Rightarrow> False"
      using b e lt by (auto simp: bracketed_host_def Let_def)
    let ?p = "port_loop (slice_of url ?s (?e - ?s)) ?s ?s 0 (?e - ?s)"
    have "length (slice_of url ?s (?e - ?s)) = ?e - ?s" using lt e by (intro length_slice_of) simp
    then have pl: "?p = Ok (p, h) \<Longrightarrow> p \<le> ?e \<and> h \<le> ?e - ?s" for p h
      using port_loop_Ok [of "slice_of url ?s (?e - ?s)" ?s ?s 0 "?e - ?s" p h] lt by simp
    show ?thesis
      using False lt e(2) at br pl port_loop_no_fault [of "slice_of url ?s (?e - ?s)" ?s ?s 0 "?e - ?s"]
      by (cases "url ! ?s = 91"; cases "bracketed_host url ?s ?e"; cases ?p)
         (auto simp: parse_authority_def Let_def authority_ok_def)
  qed
qed

section \<open>What is stored\<close>

lemma parse_port_loop_cases:
  "v \<le> 0xffff \<Longrightarrow> case parse_port_loop v cs of Ok r \<Rightarrow> r \<le> 0xffff | Err _ \<Rightarrow> True | Fault \<Rightarrow> False"
  by (induction v cs rule: parse_port_loop.induct) (auto simp: Let_def not_less)

lemma ParsePort_cases: "case ParsePort cs of Ok p \<Rightarrow> p \<noteq> 0 | Err _ \<Rightarrow> True | Fault \<Rightarrow> False"
proof (cases "parse_port_loop 0 cs")
  case (Ok v)
  then have "unat v \<le> 0xffff" using parse_port_loop_cases [of 0 cs] by (simp add: word_le_nat_alt)
  then have "unat (ucast v :: USHORT) = unat v" by (simp add: unsigned_ucast_eq take_bit_nat_eq_self)
  then have "v \<noteq> 0 \<Longrightarrow> (ucast v :: USHORT) \<noteq> 0" by (metis unat_0 unat_eq_zero)
  then show ?thesis using Ok by (simp add: ParsePort_def)
qed (use parse_port_loop_cases [of 0 cs] in \<open>auto simp: ParsePort_def\<close>)

lemma valid_target_bytes: "IsValidRequestTargetText cs \<Longrightarrow> list_all IsValidRequestTargetByte cs"
proof (induction cs rule: IsValidRequestTargetText.induct)
  case (2 c cs)
  have hex: "IsHexDigit h \<Longrightarrow> IsValidRequestTargetByte h" for h
    by (auto simp: IsHexDigit_def IsValidRequestTargetByte_def word_less_nat_alt word_le_nat_alt)
  show ?case using 2 hex by (auto split: if_splits list.splits)
qed simp

text \<open>A buffer of fixed size that holds a text with a zero behind it.\<close>

definition holds_text :: "bytes \<Rightarrow> nat \<Rightarrow> bytes \<Rightarrow> bool" where
  "holds_text buf n t \<longleftrightarrow> take n buf = t \<and> length t = n \<and> n < length buf \<and> buf ! n = 0"

lemma store_text_holds:
  "length t < length buf \<Longrightarrow> \<exists>b. store_text buf t = Ok b \<and> length b = length buf \<and> holds_text b (length t) t"
  by (auto simp: store_text_def holds_text_def overlay_def nth_append)

lemma CopyLowerText_cases:
  assumes "CopyLowerText source buf = (buf', r)"
  shows "length buf' = length buf \<and>
    (case r of Ok n \<Rightarrow> n = length source \<and> holds_text buf' n (map ToLowerAscii source) | Err _ \<Rightarrow> True | Fault \<Rightarrow> False)"
proof (cases "source = [] \<or> length buf \<le> length source")
  case True
  then show ?thesis using assms by (auto simp: CopyLowerText_def)
next
  case False
  then show ?thesis using assms store_text_holds [of "map ToLowerAscii source" buf] by (auto simp: CopyLowerText_def)
qed

definition target_of :: "bytes \<Rightarrow> bytes" where
  "target_of t = (if t = [] then [47] else if t ! 0 = 63 then 47 # t else t)"

lemma store_target_cases:
  assumes "store_target path target = (path', r)" "target \<noteq> []" "target_length target < length path"
  shows "length path' = length path \<and>
    (case r of Ok n \<Rightarrow> holds_text path' n (target_of target) \<and> list_all IsValidRequestTargetByte target | Err _ \<Rightarrow> True | Fault \<Rightarrow> False)"
proof -
  let ?q = "target ! 0 = 63"
  have rd0: "rd target 0 = Ok (target ! 0)" using assms(2) by simp
  let ?p = "if ?q then path[0 := 47] else path" and ?t = "if ?q then 47 # target else target"
  have len: "length ?t < length path" using assms(3) rd0 by (simp add: target_length_def split: if_splits)
  have "0 < length path" using len by linarith
  then have w: "wr path 0 47 = Ok (path[0 := 47])" by (rule wr_Ok)
  have eq: "store_target path target = (if \<not> IsValidRequestTargetText target then (?p, Err STATUS_INVALID_PARAMETER)
      else case store_text ?p ?t of Ok p \<Rightarrow> (p, Ok (length ?t)) | Err s \<Rightarrow> (?p, Err s) | Fault \<Rightarrow> (?p, Fault))"
    using w by (auto simp: store_target_def rd0 Let_def)
  have lp: "length ?p = length path" by simp
  from store_text_holds [of ?t ?p] len obtain b where "store_text ?p ?t = Ok b" "length b = length path" "holds_text b (length ?t) ?t"
    by (auto split: if_splits)
  then show ?thesis using assms(1) assms(2) eq lp valid_target_bytes [of target]
    by (cases "IsValidRequestTargetText target") (auto simp: target_of_def)
qed

lemma slice_of_first: "slice_of url i n \<noteq> [] \<Longrightarrow> i < length url \<and> slice_of url i n ! 0 = url ! i"
  by (simp add: slice_of_def)

lemma url_target_first:
  assumes "authority_ok url a"
  shows "url_target url a = [] \<or> url_target url a ! 0 = 47 \<or> url_target url a ! 0 = 63"
    and "35 \<notin> set (url_target url a)"
proof -
  let ?s = "AuthorityEnd a"
  let ?f = "index_of (\<lambda>c. c = 35) url ?s (length url)"
  have s: "?s \<le> length url" using assms by (simp add: authority_ok_def)
  have t: "url_target url a = slice_of url ?s (?f - ?s)" by (simp add: url_target_def Let_def)
  show no: "35 \<notin> set (url_target url a)" using index_of_before [OF s order_refl, of "\<lambda>c. c = 35"]
    unfolding t list_all_iff by blast
  show "url_target url a = [] \<or> url_target url a ! 0 = 47 \<or> url_target url a ! 0 = 63"
  proof (cases "url_target url a = []")
    case False
    from slice_of_first [OF this [unfolded t]] have f: "?s < length url" "url_target url a ! 0 = url ! ?s" by (simp_all add: t)
    have "url_target url a ! 0 \<noteq> 35" using no False by (metis length_greater_0_conv nth_mem)
    then show ?thesis using assms f by (auto simp: authority_ok_def)
  qed simp
qed

section \<open>Safety\<close>

text \<open>The arrays of a request, and what a parsed request holds.\<close>

definition request_sized :: "KhRequest \<Rightarrow> bool" where
  "request_sized r \<longleftrightarrow> length (Scheme r) = KhMaxSchemeLength + 1 \<and> length (Host r) = KhMaxHostLength + 1 \<and>
     length (Path r) = KhMaxPathLength + 1"

definition host_plain :: "UCHAR \<Rightarrow> bool" where
  "host_plain c \<longleftrightarrow> 0x20 < c \<and> c < 0x7f \<and> c \<noteq> 37 \<and> c \<noteq> 64 \<and> c \<noteq> 47 \<and> c \<noteq> 63 \<and> c \<noteq> 35"

lemma host_bytes_plain: "list_all (\<lambda>c. host_byte c \<or> c = 46) cs \<Longrightarrow> list_all host_plain cs"
  unfolding list_all_iff host_byte_def dns_byte_def host_plain_def word_less_nat_alt word_le_nat_alt word_unat_eq_iff
  by (rule ballI, drule bspec, assumption) (simp, linarith)

lemma bracketed_host_Ok: "bracketed_host url s e = Ok a \<Longrightarrow> HostStart a = s + 1 \<and> AuthorityEnd a = e"
  by (auto simp: bracketed_host_def Let_def split: if_splits)

lemma parse_authority_Ok:
  assumes "parse_authority url schemeEnd = Ok a"
    and s: "s = schemeEnd + 3" and e: "e = index_of (\<lambda>c. c = 47 \<or> c = 63 \<or> c = 35) url s (length url)"
  shows "s \<le> HostStart a" "AuthorityEnd a = e" "\<not> AuthorityContainsUserInfo (slice_of url s (e - s))"
  using assms(1) unfolding parse_authority_def Let_def s [symmetric] unfolding e [symmetric]
  by (auto split: if_splits dest: bracketed_host_Ok)

lemma slice_of_slice:
  "h + n \<le> e \<Longrightarrow> s \<le> h \<Longrightarrow> slice_of url h n = slice_of (slice_of url s (e - s)) (h - s) n"
  by (simp add: slice_of_def drop_take min_absorb1)

lemma authority_bytes:
  assumes "parse_authority url schemeEnd = Ok a" "schemeEnd + 3 \<le> length url"
  shows "list_all (\<lambda>c. c \<noteq> 64 \<and> c \<noteq> 47 \<and> c \<noteq> 63 \<and> c \<noteq> 35) (slice_of url (HostStart a) (AuthorityHostLength a))"
proof -
  let ?s = "schemeEnd + 3" and ?stop = "\<lambda>c. c = 47 \<or> c = 63 \<or> c = 35"
  let ?e = "index_of ?stop url ?s (length url)"
  have "list_all (\<lambda>c. \<not> ?stop c) (slice_of url ?s (?e - ?s))" by (rule index_of_before [OF assms(2) order_refl])
  moreover have "\<not> AuthorityContainsUserInfo (slice_of url ?s (?e - ?s))" and a: "?s \<le> HostStart a" "AuthorityEnd a = ?e"
    using parse_authority_Ok [OF assms(1) refl refl] by blast+
  then have "list_all (\<lambda>c. c \<noteq> 64) (slice_of url ?s (?e - ?s))"
    unfolding AuthorityContainsUserInfo_def UrlTextContainsChar_def list_ex_iff list_all_iff by blast
  moreover have "set (slice_of url (HostStart a) (AuthorityHostLength a)) \<subseteq> set (slice_of url ?s (?e - ?s))"
  proof -
    have "authority_ok url a" using parse_authority_cases [OF assms(2)] unfolding assms(1) by simp
    then have le: "HostStart a + AuthorityHostLength a \<le> ?e" unfolding authority_ok_def a(2) by blast
    show ?thesis unfolding slice_of_slice [OF le a(1), of url] by (rule slice_of_sub)
  qed
  ultimately show ?thesis unfolding list_all_iff by blast
qed

lemma lower_plain:
  fixes c :: UCHAR
  shows "\<not> (c \<le> 0x20 \<or> c = 0x7f \<or> c = 37) \<and> \<not> c \<ge> 0x80 \<and> c \<noteq> 64 \<and> c \<noteq> 47 \<and> c \<noteq> 63 \<and> c \<noteq> 35 \<longrightarrow>
    host_plain (ToLowerAscii c)"
  by (rule byte_exhaust [of _ c]) code_simp

definition host_stored :: "bytes \<Rightarrow> bool \<Rightarrow> bytes \<Rightarrow> nat \<Rightarrow> bool" where
  "host_stored source ipv6 buf n \<longleftrightarrow> 0 < n \<and> n \<le> KhMaxHostLength \<and>
     (\<exists>t. holds_text buf n t \<and> list_all host_plain t \<and> (if ipv6 then t = map ToLowerAscii source else host_form source t))"

lemma CopyNormalizedHostText_cases:
  assumes c: "CopyNormalizedHostText granted source ipv6 buf = (buf', r)" and len: "length buf = KhMaxHostLength + 1"
    and v: "IsValidHostText source ipv6" and b: "list_all (\<lambda>c. c \<noteq> 64 \<and> c \<noteq> 47 \<and> c \<noteq> 63 \<and> c \<noteq> 35) source"
  shows "length buf' = length buf \<and> (case r of Ok n \<Rightarrow> host_stored source ipv6 buf' n | Err _ \<Rightarrow> True | Fault \<Rightarrow> False)"
proof (cases ipv6)
  case True
  have l: "list_all host_plain (map ToLowerAscii source)" and ne: "source \<noteq> []"
    using v b lower_plain True by (auto simp: IsValidHostText_def list_all_iff)
  have "CopyLowerText source buf = (buf', r)" using c True by (simp add: CopyNormalizedHostText_def)
  note cl = CopyLowerText_cases [OF this]
  show ?thesis
  proof (cases r)
    case (Ok n)
    then have h: "length buf' = length buf" "n = length source" "holds_text buf' n (map ToLowerAscii source)" using cl by auto
    then have "n < length buf" by (simp add: holds_text_def)
    then have "0 < n" "n \<le> KhMaxHostLength" using len ne h(2) by auto
    then have "host_stored source ipv6 buf' n" unfolding host_stored_def using h(3) l True
      by (intro conjI exI [of _ "map ToLowerAscii source"]) simp_all
    then show ?thesis using Ok h(1) by simp
  qed (use cl in auto)
next
  case False
  then have "NormalizeDnsHost granted source buf = (buf', r)" using c by (simp add: CopyNormalizedHostText_def)
  moreover have "length buf < 2 ^ 32 - 1" using len by (simp add: KhMaxHostLength_def)
  ultimately have n: "length buf' = length buf \<and> (case r of
      Ok n \<Rightarrow> 0 < n \<and> n \<le> 255 \<and> n < length buf \<and> buf' ! n = 0 \<and> host_form source (take n buf') | Err _ \<Rightarrow> True | Fault \<Rightarrow> False)"
    using NormalizeDnsHost_cases by blast
  show ?thesis
  proof (cases r)
    case (Ok n)
    then have "host_form source (take n buf')" using n by simp
    then have "list_all host_plain (take n buf')" using host_bytes_plain by (simp add: host_form_def)
    moreover have "holds_text buf' n (take n buf')" using n Ok by (simp add: holds_text_def)
    ultimately have "host_stored source ipv6 buf' n"
      unfolding host_stored_def KhMaxHostLength_def using n Ok False
      by (intro conjI exI [of _ "take n buf'"]) simp_all
    then show ?thesis using n Ok by simp
  qed (use n in auto)
qed

definition names_stored :: "bytes \<Rightarrow> nat \<Rightarrow> url_authority \<Rightarrow> USHORT \<Rightarrow> KhRequest \<Rightarrow> bool" where
  "names_stored url schemeEnd a port r \<longleftrightarrow>
     holds_text (Scheme r) (SchemeLength r) (map ToLowerAscii (take schemeEnd url)) \<and>
     host_stored (slice_of url (HostStart a) (AuthorityHostLength a)) (Ipv6Literal a) (Host r) (HostLength r) \<and>
     Port r = port"

lemma store_names_cases:
  assumes s: "store_names granted url schemeEnd a port request = (request', r)"
    and sz: "length (Host request) = KhMaxHostLength + 1" and e: "schemeEnd + 3 \<le> length url"
    and a: "parse_authority url schemeEnd = Ok a"
  shows "length (Scheme request') = length (Scheme request) \<and> length (Host request') = length (Host request) \<and>
    Path request' = Path request \<and> PathLength request' = PathLength request \<and>
    (case r of Ok _ \<Rightarrow> names_stored url schemeEnd a port request' | Err _ \<Rightarrow> True | Fault \<Rightarrow> False)"
proof -
  let ?src = "slice_of url (HostStart a) (AuthorityHostLength a)"
  obtain d1 r1 where d1: "CopyLowerText (take schemeEnd url) (Scheme request) = (d1, r1)" by fastforce
  obtain d2 r2 where d2: "CopyNormalizedHostText granted ?src (Ipv6Literal a) (Host request) = (d2, r2)" by fastforce
  have ok: "authority_ok url a" using parse_authority_cases [OF e] a by simp
  have c2: "length d2 = length (Host request) \<and> (case r2 of Ok n \<Rightarrow> host_stored ?src (Ipv6Literal a) d2 n | Err _ \<Rightarrow> True | Fault \<Rightarrow> False)"
    using CopyNormalizedHostText_cases [OF d2 sz] ok authority_bytes [OF a e] by (simp add: authority_ok_def)
  note c1 = CopyLowerText_cases [OF d1]
  show ?thesis using s d1 d2 c1 c2
    by (cases r1; cases r2) (auto simp: store_names_def names_stored_def stored_length_of_def)
qed

text \<open>What the fields of a parsed request are, in terms of the URL.\<close>

definition url_fields :: "(bytes \<Rightarrow> USHORT) \<Rightarrow> bytes \<Rightarrow> string set \<Rightarrow> KhRequest \<Rightarrow> bool" where
  "url_fields defaultPort url schemes r \<longleftrightarrow>
     (\<exists>schemeEnd a port. scheme_end url = Ok schemeEnd \<and> parse_authority url schemeEnd = Ok a \<and> port \<noteq> 0 \<and>
        parse_port url a (defaultPort (take schemeEnd url)) = Ok port \<and>
        (\<exists>s \<in> schemes. UrlTextEqualsLiteralIgnoreCase (take schemeEnd url) s) \<and>
        names_stored url schemeEnd a port r \<and>
        holds_text (Path r) (PathLength r) (target_of (url_target url a)) \<and>
        list_all IsValidRequestTargetByte (url_target url a))"

lemma request_target_cases:
  assumes "request_target path target = (path', r)" "length path = KhMaxPathLength + 1"
  shows "length path' = length path \<and> (case r of
      Ok n \<Rightarrow> holds_text path' n (target_of target) \<and> list_all IsValidRequestTargetByte target | Err _ \<Rightarrow> True | Fault \<Rightarrow> False)"
proof -
  have "1 < length path" using assms(2) by (simp add: KhMaxPathLength_def)
  then obtain b where b: "store_text path [47] = Ok b" "length b = length path" "holds_text b 1 [47]"
    using store_text_holds [of "[47]" path] by auto
  show ?thesis
  proof (cases "target = [] \<or> target_length target > KhMaxPathLength")
    case True
    then show ?thesis using assms(1) b by (auto simp: request_target_def target_of_def split: if_splits)
  next
    case False
    then have "store_target path target = (path', r)" "target \<noteq> []" "target_length target < length path"
      using assms by (auto simp: request_target_def)
    then show ?thesis by (rule store_target_cases)
  qed
qed

lemma scheme_end_Ok: "scheme_end url = Ok e \<Longrightarrow> 0 < e \<and> e + 3 \<le> length url"
  using scheme_end_cases [of url] by simp

lemma parse_port_cases:
  "port \<noteq> 0 \<Longrightarrow> case parse_port url a port of Ok p \<Rightarrow> p \<noteq> 0 | Err _ \<Rightarrow> True | Fault \<Rightarrow> False"
  using ParsePort_cases [of "slice_of url (PortStart a) (AuthorityEnd a - PortStart a)"] by (simp add: parse_port_def)

text \<open>The part both entry points share, from the authority on.\<close>

definition parsed_ok :: "(KhRequest \<Rightarrow> bool) \<Rightarrow> KhRequest \<times> unit res \<Rightarrow> bool" where
  "parsed_ok P x \<longleftrightarrow> request_sized (fst x) \<and> (case snd x of Ok _ \<Rightarrow> P (fst x) | Err _ \<Rightarrow> True | Fault \<Rightarrow> False)"

lemma parsed_ok_andthen:
  assumes "request_sized q" "r \<noteq> Fault" "\<And>v. r = Ok v \<Longrightarrow> parsed_ok P (f q v)"
  shows "parsed_ok P (andthen (q, r) f)"
  using assms by (cases r) (auto simp: parsed_ok_def)

lemma store_names_parsed:
  assumes q: "request_sized (q\<lparr>Path := path, PathLength := n\<rparr>)" and e: "scheme_end url = Ok e"
    and a: "parse_authority url e = Ok a" and port: "port \<noteq> 0" and pp: "parse_port url a (dp (take e url)) = Ok port"
    and s: "\<exists>s \<in> schemes. UrlTextEqualsLiteralIgnoreCase (take e url) s"
    and t: "holds_text path n (target_of (url_target url a))" "list_all IsValidRequestTargetByte (url_target url a)"
  shows "parsed_ok (url_fields dp url schemes) (store_names granted url e a port (q\<lparr>Path := path, PathLength := n\<rparr>))"
proof -
  obtain q' r where n: "store_names granted url e a port (q\<lparr>Path := path, PathLength := n\<rparr>) = (q', r)" by fastforce
  have "length (Host (q\<lparr>Path := path, PathLength := n\<rparr>)) = KhMaxHostLength + 1" using q by (simp add: request_sized_def)
  note sn = store_names_cases [OF n this conjunct2 [OF scheme_end_Ok [OF e]] a]
  have sz: "request_sized q'" using sn q by (simp add: request_sized_def)
  have "url_fields dp url schemes q'" if "r = Ok u" for u
    unfolding url_fields_def
    by (intro exI [of _ e] exI [of _ a] exI [of _ port] conjI e a port pp s) (use sn that t in auto)
  then show ?thesis unfolding n parsed_ok_def using sz sn by (cases r) auto
qed

definition target_stored :: "bytes \<Rightarrow> bytes \<Rightarrow> bytes \<times> nat res \<Rightarrow> bool" where
  "target_stored path target x \<longleftrightarrow> length (fst x) = length path \<and> (case snd x of
      Ok n \<Rightarrow> holds_text (fst x) n (target_of target) \<and> list_all IsValidRequestTargetByte target | Err _ \<Rightarrow> True | Fault \<Rightarrow> False)"

lemma request_target_stored: "length path = KhMaxPathLength + 1 \<Longrightarrow> target_stored path target (request_target path target)"
  using request_target_cases [of path target] by (cases "request_target path target") (auto simp: target_stored_def split: res.splits)

lemma parts_target_stored:
  assumes "length path = KhMaxPathLength + 1"
  shows "target_stored path target (parts_target path target)"
proof -
  have "parts_target path target = request_target path target"
    using assms by (auto simp: parts_target_def request_target_def KhMaxPathLength_def)
  then show ?thesis using request_target_stored [OF assms] by simp
qed

lemma andthen_cong: "(\<And>v. r = Ok v \<Longrightarrow> f q v = g q v) \<Longrightarrow> andthen (q, r) f = andthen (q, r) g"
  by (cases r) auto

lemma authority_parsed:
  assumes sz: "request_sized q" and e: "scheme_end url = Ok e" and d: "d \<noteq> 0" and dp: "dp (take e url) = d"
    and s: "\<exists>s \<in> schemes. UrlTextEqualsLiteralIgnoreCase (take e url) s"
    and t: "\<And>a. target_stored (Path q) (url_target url a) (target a)"
    and k: "\<And>a port. rest q a port = (case target a of (p, r) \<Rightarrow> andthen (f p r, r) (\<lambda>_ n.
              store_names granted url e a port (q\<lparr>Path := p, PathLength := n\<rparr>)))"
    and f: "\<And>p r. length p = length (Path q) \<Longrightarrow> request_sized (f p r)"
  shows "parsed_ok (url_fields dp url schemes)
    (andthen (q, parse_authority url e) (\<lambda>q a. andthen (q, parse_port url a d) (\<lambda>q port. rest q a port)))"
proof (intro parsed_ok_andthen sz)
  show "parse_authority url e \<noteq> Fault" using parse_authority_cases [OF conjunct2 [OF scheme_end_Ok [OF e]]] by auto
  fix a assume a: "parse_authority url e = Ok a"
  note pc = parse_port_cases [OF d, of url a]
  then show "parse_port url a d \<noteq> Fault" by auto
  fix port assume port: "parse_port url a d = Ok port"
  obtain p r where pr: "target a = (p, r)" by fastforce
  have ts: "target_stored (Path q) (url_target url a) (p, r)" using t [of a] pr by simp
  then have len: "length p = length (Path q)" by (simp add: target_stored_def)
  then have szp: "request_sized (q\<lparr>Path := p, PathLength := n\<rparr>)" for n using sz by (simp add: request_sized_def)
  show "parsed_ok (url_fields dp url schemes) (rest q a port)"
    unfolding k pr prod.case
  proof (intro parsed_ok_andthen f len)
    show "r \<noteq> Fault" using ts by (auto simp: target_stored_def)
    fix n assume "r = Ok n"
    then show "parsed_ok (url_fields dp url schemes) (store_names granted url e a port (q\<lparr>Path := p, PathLength := n\<rparr>))"
      using store_names_parsed [OF szp e a _ _ s] pc port ts dp by (simp add: target_stored_def)
  qed
qed

definition http_port :: "bytes \<Rightarrow> USHORT" where
  "http_port scheme = (if UrlTextEqualsLiteralIgnoreCase scheme ''https'' then 443 else 80)"

definition secure_port :: "bytes \<Rightarrow> USHORT" where
  "secure_port scheme =
     (if UrlTextEqualsLiteralIgnoreCase scheme ''https'' \<or> UrlTextEqualsLiteralIgnoreCase scheme ''wss'' then 443 else 80)"

lemma ParseUrlIntoRequest_parsed:
  assumes sz: "request_sized q"
  shows "parsed_ok (url_fields http_port (span_list urlSpan) {''http'', ''https''}) (ParseUrlIntoRequest granted q urlSpan)"
proof (cases "span_null urlSpan \<or> span_len urlSpan = 0")
  case True
  then show ?thesis using sz by (auto simp: ParseUrlIntoRequest_def parsed_ok_def)
next
  case False
  let ?url = "span_list urlSpan" and ?P = "url_fields http_port (span_list urlSpan) {''http'', ''https''}"
  show ?thesis unfolding ParseUrlIntoRequest_def if_not_P [OF False] Let_def
  proof (intro parsed_ok_andthen sz)
    show "scheme_end ?url \<noteq> Fault" using scheme_end_cases [of ?url] by auto
    fix e assume e: "scheme_end ?url = Ok e"
    let ?http = "UrlTextEqualsLiteralIgnoreCase (take e ?url) ''http''" and ?https = "UrlTextEqualsLiteralIgnoreCase (take e ?url) ''https''"
    let ?rest = "andthen (q, parse_authority ?url e) (\<lambda>q a. andthen (q, parse_port ?url a (if ?https then 443 else 80)) (\<lambda>q port.
        andthen (case request_target (Path q) (url_target ?url a) of (p, r) \<Rightarrow> (q\<lparr>Path := p\<rparr>, r)) (\<lambda>q n.
          store_names granted ?url e a port (q\<lparr>PathLength := n\<rparr>))))"
    have rest: "parsed_ok ?P ?rest" if "?http \<or> ?https"
      by (rule authority_parsed [where target = "\<lambda>a. request_target (Path q) (url_target ?url a)" and f = "\<lambda>p r. q\<lparr>Path := p\<rparr>"
            and granted = granted, OF sz e]) (use that sz in \<open>auto simp: request_sized_def http_port_def intro!: request_target_stored andthen_cong split: prod.split\<close>)
    show "parsed_ok ?P (if \<not> ?http \<and> \<not> ?https then (q, Err STATUS_NOT_SUPPORTED) else ?rest)"
      using rest sz by (cases "?http \<or> ?https") (auto simp: parsed_ok_def)
  qed
qed

definition parts_schemes :: "bool \<Rightarrow> string set" where
  "parts_schemes websocketUrl = (if websocketUrl then {''ws'', ''wss''} else {''http'', ''https''})"

lemma reset_outputs_sized: "request_sized q \<Longrightarrow> request_sized (reset_outputs out q)"
  by (simp add: reset_outputs_def request_sized_def)

lemma ParseUrlParts_parsed:
  assumes sz: "request_sized q0"
  shows "parsed_ok (url_fields secure_port (span_list urlSpan) (parts_schemes websocketUrl))
    (ParseUrlParts granted websocketUrl out q0 urlSpan)"
proof (cases "span_null urlSpan \<or> span_len urlSpan = 0 \<or> \<not> outputs_valid out")
  case True
  then show ?thesis using sz by (auto simp: ParseUrlParts_def parsed_ok_def reset_outputs_sized)
next
  case False
  define q where "q = reset_outputs out q0"
  have szq: "request_sized q" using sz by (simp add: q_def reset_outputs_sized)
  let ?url = "span_list urlSpan" and ?P = "url_fields secure_port (span_list urlSpan) (parts_schemes websocketUrl)"
  show ?thesis unfolding ParseUrlParts_def Let_def if_not_P [OF False] q_def [symmetric]
  proof (intro parsed_ok_andthen szq)
    show "scheme_end ?url \<noteq> Fault" using scheme_end_cases [of ?url] by auto
    fix e assume e: "scheme_end ?url = Ok e"
    let ?is = "UrlTextEqualsLiteralIgnoreCase (take e ?url)"
    let ?sup = "if websocketUrl then ?is ''ws'' \<or> ?is ''wss'' else ?is ''http'' \<or> ?is ''https''"
    let ?rest = "andthen (q, parse_authority ?url e) (\<lambda>q a.
        andthen (q, parse_port ?url a (if ?is ''https'' \<or> ?is ''wss'' then 443 else 80)) (\<lambda>q port.
        andthen (case parts_target (Path q) (url_target ?url a) of
                   (p, r) \<Rightarrow> (q\<lparr>Path := p, PathLength := stored_length_of r\<rparr>, r)) (\<lambda>q _.
          store_names granted ?url e a port q)))"
    have rest: "parsed_ok ?P ?rest" if "?sup"
      by (rule authority_parsed [where target = "\<lambda>a. parts_target (Path q) (url_target ?url a)"
            and f = "\<lambda>p r. q\<lparr>Path := p, PathLength := stored_length_of r\<rparr>" and granted = granted, OF szq e])
         (use that szq in \<open>auto simp: request_sized_def stored_length_of_def parts_schemes_def secure_port_def intro!: parts_target_stored andthen_cong
            split: prod.split if_splits\<close>)
    show "parsed_ok ?P (if \<not> ?sup then (q, Err STATUS_NOT_SUPPORTED) else ?rest)"
      using rest szq by (cases ?sup) (auto simp: parsed_ok_def)
  qed
qed

lemma equals_literal_iff:
  "UrlTextEqualsLiteralIgnoreCase t s \<longleftrightarrow> map ToLowerAscii t = map ToLowerAscii (lit s)"
  unfolding UrlTextEqualsLiteralIgnoreCase_def UrlTextEqualsIgnoreCase_def
  using text_equal_loop_iff [of t "lit s"] by (auto dest: map_eq_imp_length_eq)

definition url_schemes :: "string set" where
  "url_schemes = {''http'', ''https'', ''ws'', ''wss''}"

lemma lower_scheme: "s \<in> url_schemes \<Longrightarrow> map ToLowerAscii (lit s) = lit s \<and> lit s \<noteq> [] \<and> 58 \<notin> set (lit s)"
  unfolding url_schemes_def insert_iff empty_iff
  by (elim disjE FalseE; hypsubst; code_simp)

text \<open>What a later reader of the request relies on: zero-terminated texts, and a host and a target that the request builder accepts.\<close>

definition request_clean :: "string set \<Rightarrow> KhRequest \<Rightarrow> bool" where
  "request_clean schemes r \<longleftrightarrow>
     (\<exists>s \<in> schemes. holds_text (Scheme r) (SchemeLength r) (lit s)) \<and>
     0 < HostLength r \<and> holds_text (Host r) (HostLength r) (take (HostLength r) (Host r)) \<and>
     list_all host_plain (take (HostLength r) (Host r)) \<and>
     IsValidRequestHeaderValue (Span (take (HostLength r) (Host r))) \<and>
     Port r \<noteq> 0 \<and>
     holds_text (Path r) (PathLength r) (take (PathLength r) (Path r)) \<and>
     IsValidRequestTarget (Span (take (PathLength r) (Path r))) \<and>
     Path r ! 0 = 47 \<and> 35 \<notin> set (take (PathLength r) (Path r))"

lemma holds_text_take: "holds_text buf n t \<Longrightarrow> take n buf = t \<and> holds_text buf n (take n buf)"
  by (simp add: holds_text_def)

lemma plain_header_value: "list_all host_plain t \<Longrightarrow> IsValidRequestHeaderValue (Span t)"
  by (auto simp: IsValidRequestHeaderValue_def IsValidHeaderValueByte_def host_plain_def list_all_iff order_less_imp_le)

lemma target_of_clean:
  assumes "t = [] \<or> t ! 0 = 47 \<or> t ! 0 = 63" "35 \<notin> set t" "list_all IsValidRequestTargetByte t"
  shows "IsValidRequestTarget (Span (target_of t)) \<and> target_of t ! 0 = 47 \<and> 35 \<notin> set (target_of t) \<and> target_of t \<noteq> []"
  using assms by (auto simp: target_of_def IsValidRequestTarget_def IsValidText_def IsValidRequestTargetByte_def)

lemma url_fields_clean:
  assumes f: "url_fields dp url schemes r" and s: "schemes \<subseteq> url_schemes"
  shows "request_clean schemes r"
proof -
  from f obtain e a where e: "scheme_end url = Ok e" and a: "parse_authority url e = Ok a" and p: "Port r \<noteq> 0"
    and sc: "\<exists>s \<in> schemes. UrlTextEqualsLiteralIgnoreCase (take e url) s"
    and st: "holds_text (Scheme r) (SchemeLength r) (map ToLowerAscii (take e url))"
    and h: "host_stored (slice_of url (HostStart a) (AuthorityHostLength a)) (Ipv6Literal a) (Host r) (HostLength r)"
    and t: "holds_text (Path r) (PathLength r) (target_of (url_target url a))" "list_all IsValidRequestTargetByte (url_target url a)"
    by (auto simp: url_fields_def names_stored_def)
  have ok: "authority_ok url a" using parse_authority_cases [OF conjunct2 [OF scheme_end_Ok [OF e]]] a by simp
  note tc = target_of_clean [OF url_target_first [OF ok] t(2)]
  have tk: "take (PathLength r) (Path r) = target_of (url_target url a)" using holds_text_take [OF t(1)] by simp
  then have "Path r ! 0 = 47" using tc by (metis length_greater_0_conv nth_take take_eq_Nil2 gr_zeroI)
  moreover have "\<exists>s \<in> schemes. holds_text (Scheme r) (SchemeLength r) (lit s)"
    using sc s st lower_scheme unfolding equals_literal_iff by (metis subsetD)
  moreover have "0 < HostLength r" "holds_text (Host r) (HostLength r) (take (HostLength r) (Host r))"
    "list_all host_plain (take (HostLength r) (Host r))" using h by (auto simp: host_stored_def holds_text_def)
  ultimately show ?thesis unfolding request_clean_def using p tc tk holds_text_take [OF t(1)] plain_header_value by auto
qed

lemma parsed_ok_clean:
  assumes "parsed_ok (url_fields dp url schemes) x" "schemes \<subseteq> url_schemes"
  shows "request_sized (fst x) \<and> snd x \<noteq> Fault \<and> (snd x = Ok () \<longrightarrow> request_clean schemes (fst x))"
  using assms url_fields_clean [OF _ assms(2)] by (auto simp: parsed_ok_def)

text \<open>
  C36: Safety of the URL parser: for every URL and every request whose arrays have their declared sizes,
  \<open>ParseUrlIntoRequest\<close> accesses neither the URL nor the arrays out of bounds, whatever allocation fails and
  wherever it stops. A request it fills has the scheme http or https in lower case, a non-empty host of
  printable ASCII without delimiters that the request builder takes as a field value, a port that is not
  zero, and a request target without fragment that begins with a slash and that the request builder
  accepts; each text is closed by a zero inside its array.
\<close>

theorem ParseUrlIntoRequest_safe:
  assumes "request_sized request" and "ParseUrlIntoRequest granted request urlSpan = (request', r)"
  shows "request_sized request' \<and> r \<noteq> Fault \<and> (r = Ok () \<longrightarrow> request_clean {''http'', ''https''} request')"
  using parsed_ok_clean [OF ParseUrlIntoRequest_parsed [OF assms(1), of urlSpan granted]] assms(2)
  by (simp add: url_schemes_def)

lemma ParseUrlParts_safe:
  assumes "request_sized parts" and "ParseUrlParts granted websocketUrl out parts urlSpan = (parts', r)"
  shows "request_sized parts' \<and> r \<noteq> Fault \<and> (r = Ok () \<longrightarrow> request_clean (parts_schemes websocketUrl) parts')"
  using parsed_ok_clean [OF ParseUrlParts_parsed [OF assms(1), of urlSpan websocketUrl granted out]] assms(2)
  by (auto simp: url_schemes_def parts_schemes_def)

definition empty_request :: KhRequest where
  "empty_request = \<lparr>Scheme = replicate (KhMaxSchemeLength + 1) 0, SchemeLength = 0, Host = replicate (KhMaxHostLength + 1) 0,
     HostLength = 0, Path = replicate (KhMaxPathLength + 1) 0, PathLength = 0, Port = 0\<rparr>"

lemma empty_request_sized: "request_sized empty_request"
  by (simp add: request_sized_def empty_request_def)

definition sample_url :: bytes where
  "sample_url = lit ''HTTPS://b'' @ [0xc3, 0xbc] @ lit ''cher.de:8443?q=1#top''"

definition request_view :: "KhRequest \<Rightarrow> bytes \<times> bytes \<times> USHORT \<times> bytes" where
  "request_view r = (take (SchemeLength r) (Scheme r), take (HostLength r) (Host r), Port r, take (PathLength r) (Path r))"

lemma sample_parse:
  "(case ParseUrlIntoRequest (\<lambda>_. True) empty_request (Span sample_url) of (r, s) \<Rightarrow> (request_view r, s)) =
     ((lit ''https'', lit ''xn--bcher-kva.de'', 8443, lit ''/?q=1''), Ok ())"
  by code_simp

theorem ParseUrlIntoRequest_safe_witness:
  "\<exists>request'. ParseUrlIntoRequest (\<lambda>_. True) empty_request (Span sample_url) = (request', Ok ()) \<and>
     request_view request' = (lit ''https'', lit ''xn--bcher-kva.de'', 8443, lit ''/?q=1'') \<and>
     request_clean {''http'', ''https''} request'"
proof -
  obtain q where q: "ParseUrlIntoRequest (\<lambda>_. True) empty_request (Span sample_url) = (q, Ok ())"
    "request_view q = (lit ''https'', lit ''xn--bcher-kva.de'', 8443, lit ''/?q=1'')"
    using sample_parse by (auto split: prod.splits)
  with ParseUrlIntoRequest_safe [OF empty_request_sized q(1)] show ?thesis by blast
qed

section \<open>The parts of a URL\<close>

lemma index_of_split:
  assumes "list_all (\<lambda>c. \<not> stop c) mid" "rest = [] \<or> stop (hd rest)"
  shows "index_of stop (pre @ mid @ rest) (length pre) (length pre + length mid + length rest) = length pre + length mid"
proof -
  have "takeWhile (\<lambda>c. \<not> stop c) (mid @ rest) = mid" using assms by (cases rest) (auto simp: list_all_iff takeWhile_append)
  then show ?thesis by (simp add: index_of_def)
qed

lemma slice_of_split [simp]: "slice_of (pre @ mid @ rest) (length pre) (length mid) = mid"
  by (simp add: slice_of_def)

lemma scheme_end_split:
  assumes "s \<noteq> []" "58 \<notin> set s"
  shows "scheme_end (s @ lit ''://'' @ rest) = Ok (length s)"
proof -
  have l: "lit ''://'' = [58, 47, 47]" by code_simp
  have "index_of (\<lambda>c. c = 58) ([] @ s @ 58 # 47 # 47 # rest) (length ([] :: bytes)) (length ([] :: bytes) + length s + length (58 # 47 # 47 # rest)) =
      length ([] :: bytes) + length s"
    using assms by (intro index_of_split) (auto simp: list_all_iff)
  then have "index_of (\<lambda>c. c = 58) (s @ [58, 47, 47] @ rest) 0 (length (s @ [58, 47, 47] @ rest)) = length s" by simp
  then show ?thesis using assms(1) unfolding scheme_end_def Let_def l by (simp add: nth_append rd_def)
qed

lemma port_loop_skip: "58 \<notin> set cs \<Longrightarrow> port_loop (cs @ ds) i s p h = port_loop ds (i + length cs) s p h"
  by (induction cs arbitrary: i) auto

definition decimal_of :: "bytes \<Rightarrow> nat" where
  "decimal_of ds = foldl (\<lambda>v c. v * 10 + (unat c - 48)) 0 ds"

definition port_text :: "bytes \<Rightarrow> bool" where
  "port_text t \<longleftrightarrow> t = [] \<or> (\<exists>ds. t = 58 # ds \<and> 58 \<notin> set ds)"

lemma port_loop_split:
  assumes "58 \<notin> set host" "port_text portText" "0 < s"
  shows "port_loop (host @ portText) s s 0 (length host + length portText) =
    Ok (if portText = [] then 0 else s + length host + 1, length host)"
  using assms port_loop_skip [OF assms(1)] port_loop_skip [of _ "[]"] by (auto simp: port_text_def)

definition authority_text :: "bytes \<Rightarrow> bytes \<Rightarrow> bytes \<Rightarrow> bool" where
  "authority_text host portText rest \<longleftrightarrow>
     host \<noteq> [] \<and> hd host \<noteq> 91 \<and> 58 \<notin> set host \<and> port_text portText \<and>
     list_all (\<lambda>c. c \<noteq> 64 \<and> c \<noteq> 47 \<and> c \<noteq> 63 \<and> c \<noteq> 35) (host @ portText) \<and>
     (rest = [] \<or> hd rest = 47 \<or> hd rest = 63 \<or> hd rest = 35)"

lemma parse_authority_split:
  assumes t: "authority_text host portText rest" and pre: "length pre = e + 3"
    and ok: "parse_authority (pre @ host @ portText @ rest) e = Ok a"
  shows "a = \<lparr>AuthorityEnd = length pre + length host + length portText, HostStart = length pre,
    AuthorityHostLength = length host, Ipv6Literal = False,
    PortStart = (if portText = [] then 0 else length pre + length host + 1)\<rparr>"
proof -
  let ?auth = "host @ portText" and ?stop = "\<lambda>c. c = 47 \<or> c = 63 \<or> c = (35 :: UCHAR)"
  let ?url = "pre @ ?auth @ rest"
  have url: "pre @ host @ portText @ rest = ?url" by simp
  have "index_of ?stop ?url (length pre) (length pre + length ?auth + length rest) = length pre + length ?auth"
    using t by (intro index_of_split) (auto simp: authority_text_def list_all_iff)
  then have i: "index_of ?stop ?url (length pre) (length ?url) = length pre + length ?auth" by (simp add: add.assoc)
  have len: "e + 3 = length pre" using pre by simp
  have sl: "slice_of ?url (length pre) (length pre + length ?auth - length pre) = ?auth"
    using slice_of_split [of pre ?auth rest] by simp
  have c: "rd ?url (length pre) = Ok (hd host)" "hd host \<noteq> 91"
    using t by (auto simp: authority_text_def nth_append hd_conv_nth)
  have ui: "\<not> AuthorityContainsUserInfo ?auth"
    using t by (auto simp: AuthorityContainsUserInfo_def UrlTextContainsChar_def list_ex_iff list_all_iff authority_text_def)
  have ne: "length pre + length ?auth \<noteq> length pre" using t by (simp add: authority_text_def)
  have pl: "port_loop ?auth (length pre) (length pre) 0 (length pre + length ?auth - length pre) =
      Ok (if portText = [] then 0 else length pre + length host + 1, length host)"
    using port_loop_split [of host portText "length pre"] t pre by (simp add: authority_text_def)
  show ?thesis using ok unfolding parse_authority_def Let_def url len i sl c(1) if_not_P [OF ne] if_not_P [OF ui] rbind.simps
      if_not_P [OF c(2)] pl
    by (auto split: if_splits)
qed

lemma url_target_split:
  assumes "AuthorityEnd a = length pre" "url = pre @ rest"
  shows "url_target url a = takeWhile (\<lambda>c. c \<noteq> 35) rest"
  using assms by (simp add: url_target_def Let_def index_of_def slice_of_def takeWhile_eq_take [symmetric])

lemma digit_step:
  assumes "v \<le> 0xffff" "IsDigit c"
  shows "unat (v * 10 + ucast (c - 48) :: ULONG) = unat v * 10 + (unat c - 48)"
proof -
  have c: "48 \<le> unat c" "unat c \<le> 57" using assms(2) by (auto simp: IsDigit_def word_le_nat_alt)
  then have d: "unat (ucast (c - 48) :: ULONG) = unat c - 48"
    by (simp add: unsigned_ucast_eq unat_sub word_le_nat_alt take_bit_nat_eq_self)
  have v: "unat v \<le> 0xffff" using assms(1) by (simp add: word_le_nat_alt)
  then have "unat (v * 10) = unat v * 10" by (subst unat_mult_lem [THEN iffD1]) auto
  then show ?thesis using v c d by (subst unat_add_lem [THEN iffD1]) auto
qed

lemma parse_port_loop_value:
  "parse_port_loop v ds = Ok w \<Longrightarrow> v \<le> 0xffff \<Longrightarrow>
     unat w = foldl (\<lambda>v c. v * 10 + (unat c - 48)) (unat v) ds \<and> list_all IsDigit ds \<and> unat w \<le> 0xffff"
proof (induction v ds rule: parse_port_loop.induct)
  case (2 v c cs)
  then show ?case using digit_step [of v c] by (auto simp: Let_def not_less split: if_splits)
qed (simp add: word_le_nat_alt)

lemma ParsePort_value:
  assumes "ParsePort ds = Ok p"
  shows "unat p = decimal_of ds \<and> list_all IsDigit ds \<and> ds \<noteq> []"
proof -
  from assms obtain v where v: "parse_port_loop 0 ds = Ok v" "p = ucast v" "ds \<noteq> []"
    by (auto simp: ParsePort_def split: if_splits)
  note l = parse_port_loop_value [OF v(1)]
  then have "unat p = unat v" using v(2) by (simp add: unsigned_ucast_eq take_bit_nat_eq_self)
  then show ?thesis using l v(3) by (simp add: decimal_of_def)
qed

lemma lower_colon: "(ToLowerAscii c = 58) = (c = 58)"
  by (rule byte_exhaust [of _ c]) code_simp

lemma scheme_text:
  assumes "s \<in> url_schemes" "map ToLowerAscii st = lit s"
  shows "st \<noteq> []" "58 \<notin> set st"
proof -
  show "st \<noteq> []" using lower_scheme [OF assms(1)] assms(2) by auto
  have "58 \<notin> ToLowerAscii ` set st" using lower_scheme [OF assms(1)] assms(2) by (metis list.set_map)
  then show "58 \<notin> set st" using lower_colon by (metis imageI)
qed

lemma url_fields_split:
  assumes f: "url_fields dp (st @ lit ''://'' @ host @ portText @ rest) schemes r" and sch: "s \<in> url_schemes"
    and st: "map ToLowerAscii st = lit s" and t: "authority_text host portText rest"
  shows "take (SchemeLength r) (Scheme r) = lit s \<and> host_form host (take (HostLength r) (Host r)) \<and>
    (if portText = [] then Port r = dp st else unat (Port r) = decimal_of (tl portText)) \<and>
    take (PathLength r) (Path r) = target_of (takeWhile (\<lambda>c. c \<noteq> 35) rest)"
proof -
  let ?pre = "st @ lit ''://''" and ?url = "st @ lit ''://'' @ host @ portText @ rest"
  have l3: "length (lit ''://'') = 3" by (simp add: lit_def)
  have se: "scheme_end ?url = Ok (length st)" by (rule scheme_end_split [OF scheme_text [OF sch st]])
  from f se obtain a where a: "parse_authority ?url (length st) = Ok a" and p: "parse_port ?url a (dp st) = Ok (Port r)"
    and nm: "holds_text (Scheme r) (SchemeLength r) (map ToLowerAscii st)"
    and h: "host_stored (slice_of ?url (HostStart a) (AuthorityHostLength a)) (Ipv6Literal a) (Host r) (HostLength r)"
    and tg: "holds_text (Path r) (PathLength r) (target_of (url_target ?url a))"
    by (auto simp: url_fields_def names_stored_def)
  have u: "?url = ?pre @ host @ portText @ rest" by simp
  have a': "a = \<lparr>AuthorityEnd = length ?pre + length host + length portText, HostStart = length ?pre,
      AuthorityHostLength = length host, Ipv6Literal = False,
      PortStart = (if portText = [] then 0 else length ?pre + length host + 1)\<rparr>"
    by (rule parse_authority_split [OF t _ a [unfolded u]]) (simp add: l3)
  have "slice_of ?url (HostStart a) (AuthorityHostLength a) = host"
    unfolding a' u by (simp add: slice_of_split [of ?pre host "portText @ rest", simplified])
  then have "host_form host (take (HostLength r) (Host r))" using h unfolding a' by (auto simp: host_stored_def holds_text_def)
  moreover have "url_target ?url a = takeWhile (\<lambda>c. c \<noteq> 35) rest"
    by (rule url_target_split [of a "?pre @ host @ portText"]) (simp_all add: a')
  moreover have "if portText = [] then Port r = dp st else unat (Port r) = decimal_of (tl portText)"
  proof (cases portText)
    case (Cons c ds)
    have "slice_of ?url (PortStart a) (AuthorityEnd a - PortStart a) = ds"
      using slice_of_split [of "?pre @ host @ [c]" ds rest] unfolding a' Cons by (simp add: add.assoc)
    then show ?thesis using p ParsePort_value [of ds "Port r"] by (simp add: parse_port_def a' Cons)
  qed (use p in \<open>simp add: parse_port_def a'\<close>)
  ultimately show ?thesis using nm tg st by (simp add: holds_text_def)
qed

text \<open>
  C37: What the URL parser stores, part by part. For a URL of the form scheme, "://", host, an optional colon
  and port, and a rest that begins with a slash, a question mark or a hash sign, a successful
  \<open>ParseUrlIntoRequest\<close> stores the scheme in lower case, the IDNA form of exactly the host, the decimal value
  of the port digits (or the default 80 or 443 of the scheme), and the rest up to the fragment, with a
  slash in front of a bare query.
\<close>

theorem ParseUrlIntoRequest_components:
  assumes "request_sized request" and "s \<in> {''http'', ''https''}" and "map ToLowerAscii st = lit s"
    and "authority_text host portText rest"
    and "ParseUrlIntoRequest granted request (Span (st @ lit ''://'' @ host @ portText @ rest)) = (request', Ok ())"
  shows "take (SchemeLength request') (Scheme request') = lit s \<and>
    host_form host (take (HostLength request') (Host request')) \<and>
    unat (Port request') = (if portText \<noteq> [] then decimal_of (tl portText) else if s = ''https'' then 443 else 80) \<and>
    take (PathLength request') (Path request') = target_of (takeWhile (\<lambda>c. c \<noteq> 35) rest)"
proof -
  let ?url = "st @ lit ''://'' @ host @ portText @ rest"
  have s: "s \<in> url_schemes" using assms(2) by (auto simp: url_schemes_def)
  have "url_fields http_port ?url {''http'', ''https''} request'"
    using ParseUrlIntoRequest_parsed [OF assms(1), of "Span ?url" granted] assms(5) by (simp add: parsed_ok_def)
  note f = url_fields_split [OF this s assms(3,4)]
  have "UrlTextEqualsLiteralIgnoreCase st ''https'' \<longleftrightarrow> s = ''https''"
  proof -
    have "lit ''http'' \<noteq> lit ''https''" by code_simp
    then show ?thesis using assms(2,3) lower_scheme [of "''https''"] by (auto simp: equals_literal_iff url_schemes_def)
  qed
  then have "unat (http_port st) = (if s = ''https'' then 443 else 80)" by (simp add: http_port_def)
  then show ?thesis using f by (auto split: if_splits)
qed

lemma sample_authority:
  "authority_text (lit ''b'' @ [0xc3, 0xbc] @ lit ''cher.de'') (lit '':8443'') (lit ''?q=1#top'')"
proof -
  have "port_text (lit '':8443'')" unfolding port_text_def
    by (rule disjI2, rule exI [of _ "lit ''8443''"]) code_simp
  moreover have "hd (lit ''?q=1#top'') = 63" by code_simp
  moreover have "let host = lit ''b'' @ [0xc3, 0xbc] @ lit ''cher.de'' in host \<noteq> [] \<and> hd host \<noteq> 91 \<and> 58 \<notin> set host \<and>
      list_all (\<lambda>c. c \<noteq> 64 \<and> c \<noteq> 47 \<and> c \<noteq> 63 \<and> c \<noteq> 35) (host @ lit '':8443'')" by code_simp
  ultimately show ?thesis unfolding authority_text_def Let_def by blast
qed

theorem ParseUrlIntoRequest_components_witness:
  "\<exists>request'. ParseUrlIntoRequest (\<lambda>_. True) empty_request (Span sample_url) = (request', Ok ()) \<and>
     unat (Port request') = 8443 \<and> host_form (lit ''b'' @ [0xc3, 0xbc] @ lit ''cher.de'') (lit ''xn--bcher-kva.de'')"
proof -
  let ?host = "lit ''b'' @ [0xc3, 0xbc] @ lit ''cher.de''"
  obtain q where q: "ParseUrlIntoRequest (\<lambda>_. True) empty_request (Span sample_url) = (q, Ok ())"
    "take (HostLength q) (Host q) = lit ''xn--bcher-kva.de''"
    using sample_parse by (auto split: prod.splits simp: request_view_def)
  have u: "sample_url = lit ''HTTPS'' @ lit ''://'' @ ?host @ lit '':8443'' @ lit ''?q=1#top''" by code_simp
  have low: "map ToLowerAscii (lit ''HTTPS'') = lit ''https''" and d: "decimal_of (tl (lit '':8443'')) = 8443"
    and ne: "lit '':8443'' \<noteq> []" by code_simp+
  have "''https'' \<in> {''http'', ''https''}" by simp
  from ParseUrlIntoRequest_components [OF empty_request_sized this low sample_authority q(1) [unfolded u]]
  show ?thesis using q d ne by auto
qed

end
