(* ===== verification/Spec2Isabelle.thy ===== *)
theory Spec2Isabelle
  imports Kh_HttpParser Kh_HttpRequest Kh_WebSocketFrame Kh_Http2Stream Kh_HpackSync Kh_HpackSafety
    Kh_TlsRecordCbc Kh_ConnectionPool Kh_UrlParser
begin

text \<open>
  A verification of KernelHttp, an HTTP client library for Windows kernel drivers (C++, under
  \<^verbatim>\<open>src/src/KernelHttpLib\<close> with the headers in \<^verbatim>\<open>src/include/KernelHttp\<close>). A request is built (HTTP/1
  text, or HTTP/2 frames with HPACK header blocks, or WebSocket frames), protected by the TLS record layer
  over the ciphers of the crypto layer, and sent over a connection that the engine takes from its pool; the
  response takes the way back through the parsers and the content decoders. This development models these
  codecs, ciphers and the pool as functions and proves that they are correct and safe on every input.

  \<^bold>\<open>The theories and the code they model\<close>

  \<^item> \<open>Kh_Prelude\<close>: machine words, spans, the status codes, the result type \<open>res\<close>, the writer with a
    cursor and the two interfaces \<open>checked_digit_loop\<close> and \<open>byte_sink\<close>.
  \<^item> \<open>Kh_HttpTypes\<close>, \<open>Kh_HttpChunked\<close>, \<open>Kh_HttpCoding\<close>, \<open>Kh_HttpTransferCoding\<close>, \<open>Kh_HttpParser\<close>,
    \<open>Kh_HttpRequest\<close>: the files of \<^verbatim>\<open>http/\<close>. \<open>ParseResponse\<close> reads the head of a response, decides from the header
    fields how its body is delimited, and sends the body through the transfer and content codings;
    \<open>Build\<close> writes a request. Shown: the parser never leaves its buffers, accepts no response with two framings,
    gives a verdict that later bytes cannot change, and reads back well-formed messages; the decoder chain
    expands a body by a bounded factor; a built request is exactly the reference message, and no
    caller-supplied string injects a line into it.
  \<^item> \<open>Kh_WebSocketFrame\<close>: \<^verbatim>\<open>websocket/WebSocketFrame.cpp\<close>. The frame header decoder accepts exactly the legal
    headers, the encoder writes exactly the frame, the opening handshake is accepted exactly when it should be.
  \<^item> \<open>Kh_Http2Frame\<close>, \<open>Kh_Http2Stream\<close>: \<^verbatim>\<open>http2/Http2Frame.cpp\<close> and \<^verbatim>\<open>http2/Http2Stream.cpp\<close>. Frames are
    read back; a run of stream operations keeps the flow-control windows exact and in the life cycle
    of RFC 9113.
  \<^item> \<open>Kh_HpackPrimitives\<close>, \<open>Kh_HpackHuffman\<close>, \<open>Kh_HpackTable\<close>, \<open>Kh_HpackCodec\<close>, \<open>Kh_HpackSync\<close>, \<open>Kh_HpackSafety\<close>:
    \<^verbatim>\<open>http2/Hpack.cpp\<close> with its tables. The Huffman decoder is exact; the dynamic table, a ring over a compacted
    buffer, refines the list of RFC 7541; encoder and decoder stay in step over a whole connection; the decoder is
    safe on every input.
  \<^item> \<open>Kh_AeadPrimitives\<close>, \<open>Kh_ChaCha20\<close>, \<open>Kh_Poly1305\<close>, \<open>Kh_ChaCha20Poly1305\<close>, \<open>Kh_Aes128\<close>, \<open>Kh_AesCcm\<close>, \<open>Kh_Aead\<close>:
    \<^verbatim>\<open>crypto/Aead.cpp\<close>. The ciphers compute their standards (RFC 8439 with the arithmetic modulo \<open>2^130 - 5\<close>,
    FIPS 197 with the field of 256 elements, RFC 3610), each satisfies the interface \<open>aead_scheme\<close>, and
    \<open>Aead_Decrypt\<close> releases only authentic plaintext.
  \<^item> \<open>Kh_CngProvider\<close>: the symmetric operations of \<^verbatim>\<open>crypto/CngProvider.cpp\<close>; HKDF is RFC 5869.
  \<^item> \<open>Kh_TlsRecord\<close>, \<open>Kh_TlsRecordCbc\<close>: \<^verbatim>\<open>tls/TlsRecord.cpp\<close>. Records of TLS 1.3 and 1.2 are read back over
    whole sessions, nonces never repeat under a key, a record with a wrong MAC changes nothing.
  \<^item> \<open>Kh_ConnectionPool\<close>: \<^verbatim>\<open>engine/ConnectionPool.cpp\<close>. Over every run of the pool the quota, the
    counters and the holders are right, no object leaks or is freed twice, requests are kept apart, a
    request is served when there is room, and the shutdown ends.
  \<^item> \<open>Kh_Punycode\<close>, \<open>Kh_UrlParser\<close>: \<^verbatim>\<open>engine/UrlParser.cpp\<close>. The URL parser stays inside the URL and the arrays
    of the request and stores exactly the parts of the URL; an international host name is stored in a
    form that the decoder of RFC 3492 reads back.

  \<^bold>\<open>How the code is read\<close>

  \<^item> A pair of a pointer and a length is a \<open>span\<close>; a pointer into a buffer is the list of bytes from there on; a null
    pointer with a length is \<open>NullSpan\<close>. An access outside a buffer or through a null pointer is the result
    \<open>Fault\<close>, so memory safety is the theorem that \<open>Fault\<close> is not returned.
  \<^item> Lengths and cursors of type \<open>SIZE_T\<close> are natural numbers, with the comparisons against \<open>MaxSizeT\<close> that the code
    makes; values read from the network and arithmetic that can wrap are words of their width.
  \<^item> A status other than success is \<open>Err status\<close>. A function that changes a buffer or an object before it fails
    returns the buffer or object beside its result.
  \<^item> Enumerations that the code fills by casts are words with named constants; the others are datatypes.
  \<^item> Code outside the repository is a parameter: the kernel's BCrypt calls (\<open>cng\<close>), raw deflate and Brotli
    (\<open>coding_env\<close>), SHA-1 and random numbers (\<open>ws_env\<close>), and whether an allocation succeeds (flags).
    What is assumed of it (\<open>gcm_provider\<close>, \<open>hmac_provider\<close>, \<open>cbc_provider\<close>, \<open>env_ok\<close>, \<open>sha1_ok\<close>) is its
    documented behaviour, and the witnesses instantiate it.
  \<^item> Loops are structural or well-founded recursions. \<open>hkdf_loop\<close> and \<open>shutdown_loop\<close>, whose ends
    depend on values computed in them, are partial functions, and it is proved that they return.
    There is no fuel in the development.
  \<^item> Every operation of the pool holds the pool lock from its first to its last access, so
    concurrent requests are sequences of operations, \<open>pool_run\<close>.

  \<^bold>\<open>Not modelled\<close>

  The drivers that move bytes between these parts and the operating system: the Winsock Kernel transport
  (\<^verbatim>\<open>net/\<close>), the TLS and HTTP/2 connection loops (\<^verbatim>\<open>tls/TlsConnection.cpp\<close>,
  \<^verbatim>\<open>http2/Http2Connection.cpp\<close>), the engine's sessions, handles and worker threads, the
  older clients in \<^verbatim>\<open>client/\<close> and the wrappers in \<^verbatim>\<open>khttp/\<close>. Certificate validation, the handshake messages, the key exchange and the signature curves, and the asymmetric half of the CNG provider are not modelled either. The vendored Brotli decoder,
  the samples and the tests are not part of the library.
\<close>

end
